(* ===== verification/Prelude.thy ===== *)
theory Prelude
  imports "HOL-Library.Word" "HOL-Library.Signed_Division"
begin

unbundle bit_operations_syntax

section \<open>C values, C faults and the outcome monad\<close>

text \<open>
  What every other theory of the development shares.

  A C function of the library is modelled as a HOL function from a state to an
  \<open>outcome\<close>: \<open>None\<close> when the call does not return (a polling loop that never ends),
  \<open>Some (Inl e)\<close> when it performs the undefined operation \<open>e\<close> (a NULL pointer is
  dereferenced, an integer is divided by zero, an array is indexed outside its bounds) or enters
  a part of the code its theory leaves out (\<open>LeftOut\<close>), and \<open>Some (Inr x)\<close> when it
  returns with the value and the state \<open>x\<close>. Unsigned C integers are words of their width and
  wrap; a C \<open>int\<close> is an \<open>int\<close>, converted explicitly where the C code converts it. Memory is
  a function from 64-bit addresses to bytes, and values of more than one byte are stored
  little-endian, as on the x86 hosts the library is built for.
\<close>

type_synonym u8 = "8 word"
type_synonym u16 = "16 word"
type_synonym u32 = "32 word"
type_synonym u64 = "64 word"
type_synonym mem = "u64 \<Rightarrow> u8"

datatype fault = NullDeref | DivByZero | OutOfBounds | BadShift | LeftOut

type_synonym 'a outcome = "(fault + 'a) option"

named_theorems outcome_simps "equations of the outcome monad"
named_theorems valid_intros "rules for partial correctness of outcomes"

definition ret :: "'a \<Rightarrow> 'a outcome" where
  "ret x = Some (Inr x)"

definition raise :: "fault \<Rightarrow> 'a outcome" where
  "raise e = Some (Inl e)"

definition bindC :: "'a outcome \<Rightarrow> ('a \<Rightarrow> 'b outcome) \<Rightarrow> 'b outcome" where
  "bindC m f = Option.bind m (\<lambda>r. case r of Inl e \<Rightarrow> Some (Inl e) | Inr x \<Rightarrow> f x)"

lemma bindC_simps [simp, outcome_simps]:
  "bindC None f = None"
  "bindC (ret x) f = f x"
  "bindC (raise e) f = raise e"
  by (simp_all add: bindC_def ret_def raise_def)

lemma ret_raise_simps [simp, outcome_simps]:
  "ret x = ret y \<longleftrightarrow> x = y" "raise d = raise e \<longleftrightarrow> d = e" "ret x \<noteq> raise e" "raise e \<noteq> ret x"
  "ret x \<noteq> None" "raise e \<noteq> None" "None \<noteq> ret x" "None \<noteq> raise e"
  by (simp_all add: ret_def raise_def)

lemma bindC_eq_ret [outcome_simps]:
  "bindC m f = ret y \<longleftrightarrow> (\<exists>x. m = ret x \<and> f x = ret y)"
  by (auto simp: bindC_def ret_def split: Option.bind_splits sum.splits)

lemma bindC_assoc: "bindC (bindC m f) g = bindC m (\<lambda>x. bindC (f x) g)"
  by (auto simp: bindC_def split: Option.bind_splits sum.splits)

lemma bindC_mono [partial_function_mono]:
  assumes "mono_option B" and "\<And>y. mono_option (\<lambda>f. C y f)"
  shows "mono_option (\<lambda>f. bindC (B f) (\<lambda>y. C y f))"
proof -
  have "\<And>y. mono_option (\<lambda>f. case y of Inl e \<Rightarrow> Some (Inl e) | Inr x \<Rightarrow> C x f)"
    using assms(2) by (simp split: sum.split add: monotone_def option.leq_refl)
  with assms(1) show ?thesis
    unfolding bindC_def by (rule bind_mono)
qed

text \<open>
  Checked operations: a pointer that may be NULL, an array index and a C \<open>int\<close> remainder
  (which truncates towards zero) each have a fault case.
\<close>

definition deref :: "'a option \<Rightarrow> 'a outcome" where
  "deref p = (case p of None \<Rightarrow> raise NullDeref | Some x \<Rightarrow> ret x)"

definition index :: "nat \<Rightarrow> int \<Rightarrow> nat outcome" where
  "index n i = (if 0 \<le> i \<and> i < int n then ret (nat i) else raise OutOfBounds)"

definition c_rem :: "int \<Rightarrow> int \<Rightarrow> int outcome" where
  "c_rem a b = (if b = 0 then raise DivByZero else ret (a smod b))"

lemma deref_simps [simp, outcome_simps]:
  "deref None = raise NullDeref" "deref (Some x) = ret x"
  "deref p = ret y \<longleftrightarrow> p = Some y"
  by (simp_all add: deref_def split: option.splits)

lemma index_eq_ret [simp, outcome_simps]:
  "index n i = ret k \<longleftrightarrow> 0 \<le> i \<and> i < int n \<and> k = nat i"
  by (auto simp: index_def)

lemma index_int [simp]: "k < n \<Longrightarrow> index n (int k) = ret k"
  by (simp add: index_def)

lemma smod_nonneg: "0 \<le> a \<Longrightarrow> 0 < b \<Longrightarrow> a smod b = a mod (b::int)"
  by (simp add: signed_modulo_int_def sgn_if signed_divide_int_def minus_div_mult_eq_mod
      split: if_splits)

lemma c_rem_eq_ret [simp, outcome_simps]: "c_rem a b = ret r \<longleftrightarrow> b \<noteq> 0 \<and> r = a smod b"
  by (auto simp: c_rem_def)

lemma c_rem_pos: "0 \<le> a \<Longrightarrow> 0 < b \<Longrightarrow> c_rem a b = ret (a mod b)"
  by (simp add: c_rem_def smod_nonneg)

lemma unat_of_nat_u64: "k < 2 ^ 64 \<Longrightarrow> unat (of_nat k :: u64) = k"
  by (simp add: unat_of_nat)

lemma unat_of_nat_u32: "k < 2 ^ 32 \<Longrightarrow> unat (of_nat k :: u32) = k"
  by (simp add: unat_of_nat)

lemma uint_less_int: "uint w < int n \<longleftrightarrow> unat w < n"
  by (metis of_nat_less_iff uint_nat)

lemma sint_small_u32: "unat (w :: u32) < 2 ^ 31 \<Longrightarrow> sint w = int (unat w)"
proof -
  assume "unat w < 2 ^ 31"
  then have "uint w < 2 ^ 31" using uint_less_int [of w "2 ^ 31"] by simp
  then have "signed_take_bit 31 (uint w) = uint w"
    using uint_ge_0 [of w] by (intro signed_take_bit_int_eq_self) (simp_all add: order_trans [of "- 2147483648" 0])
  then show ?thesis by (simp add: sint_uint)
qed

subsection \<open>Partial correctness\<close>

text \<open>
  \<open>returns m P\<close>: if \<open>m\<close> returns, its result satisfies \<open>P\<close>. Used for invariants that
  every operation keeps; statements that a call does return are made separately.
\<close>

definition returns :: "'a outcome \<Rightarrow> ('a \<Rightarrow> bool) \<Rightarrow> bool" where
  "returns m P \<longleftrightarrow> (\<forall>x. m = ret x \<longrightarrow> P x)"

lemma returnsI: "(\<And>x. m = ret x \<Longrightarrow> P x) \<Longrightarrow> returns m P"
  by (simp add: returns_def)

lemma returnsD: "returns m P \<Longrightarrow> m = ret x \<Longrightarrow> P x"
  by (simp add: returns_def)

lemma returns_simps [simp]:
  "returns None P" "returns (raise e) P" "returns (ret x) P = P x"
  by (auto simp: returns_def)

lemma returns_bindC:
  "returns m (\<lambda>x. returns (f x) P) \<Longrightarrow> returns (bindC m f) P"
  by (auto simp: returns_def bindC_eq_ret)

lemma returns_bindC_iff:
  "returns (bindC m f) P \<longleftrightarrow> returns m (\<lambda>x. returns (f x) P)"
  by (auto simp: returns_def bindC_eq_ret)

lemma returns_mono: "returns m P \<Longrightarrow> (\<And>x. P x \<Longrightarrow> Q x) \<Longrightarrow> returns m Q"
  by (auto simp: returns_def)

lemma returns_index [simp]: "returns (index n i) P \<longleftrightarrow> (0 \<le> i \<and> i < int n \<longrightarrow> P (nat i))"
  by (auto simp: returns_def)

lemma returns_deref [simp]: "returns (deref p) P \<longleftrightarrow> (\<forall>x. p = Some x \<longrightarrow> P x)"
  by (auto simp: returns_def)

lemma returns_c_rem [simp]: "returns (c_rem a b) P \<longleftrightarrow> (b \<noteq> 0 \<longrightarrow> P (a smod b))"
  by (auto simp: returns_def)

subsection \<open>Loops with early return\<close>

text \<open>
  One pass through the body of a loop goes on with a new state or returns from the function.
  A counted \<^verbatim>\<open>for\<close> loop runs its body over the list of its indices.
\<close>

datatype ('s, 'r) flow = Next 's | Return 'r

fun for_each :: "('i \<Rightarrow> 's \<Rightarrow> ('s, 'r) flow outcome) \<Rightarrow> 'i list \<Rightarrow> 's \<Rightarrow> ('s, 'r) flow outcome" where
  "for_each body [] s = ret (Next s)"
| "for_each body (i # is) s = bindC (body i s) (\<lambda>x. case x of
     Next s' \<Rightarrow> for_each body is s' | Return r \<Rightarrow> ret (Return r))"

definition flow_result :: "('s \<Rightarrow> 'r) \<Rightarrow> ('s, 'r) flow \<Rightarrow> 'r" where
  "flow_result f x = (case x of Next s \<Rightarrow> f s | Return r \<Rightarrow> r)"

lemma flow_result_simps [simp]:
  "flow_result f (Next s) = f s" "flow_result f (Return r) = r"
  by (simp_all add: flow_result_def)

text \<open>An invariant indexed by the packets done, and a condition on every early return.\<close>

lemma for_each_upt_inv:
  assumes "for_each body [a..<b] s = ret x" and "a \<le> b" and "I a s"
    and "\<And>i s s'. a \<le> i \<Longrightarrow> i < b \<Longrightarrow> I i s \<Longrightarrow> body i s = ret (Next s') \<Longrightarrow> I (Suc i) s'"
    and "\<And>i s r. a \<le> i \<Longrightarrow> i < b \<Longrightarrow> I i s \<Longrightarrow> body i s = ret (Return r) \<Longrightarrow> Q r"
  shows "case x of Next s' \<Rightarrow> I b s' | Return r \<Rightarrow> Q r"
proof -
  have "\<And>k s. a \<le> k \<Longrightarrow> k \<le> b \<Longrightarrow> I k s \<Longrightarrow> for_each body [k..<b] s = ret x \<Longrightarrow>
      (case x of Next s' \<Rightarrow> I b s' | Return r \<Rightarrow> Q r)"
  proof -
    fix k s
    assume "a \<le> k" "k \<le> b" "I k s" "for_each body [k..<b] s = ret x"
    then show "case x of Next s' \<Rightarrow> I b s' | Return r \<Rightarrow> Q r"
    proof (induction "b - k" arbitrary: k s)
      case 0
      then show ?case by auto
    next
      case (Suc d)
      then have k: "k < b" "[k..<b] = k # [Suc k..<b]" by (auto simp: upt_rec)
      from Suc.prems(4) obtain y where y: "body k s = ret y"
        "(case y of Next s' \<Rightarrow> for_each body [Suc k..<b] s' | Return r \<Rightarrow> ret (Return r)) = ret x"
        unfolding k(2) for_each.simps bindC_eq_ret by blast
      show ?case
      proof (cases y)
        case (Next s1)
        with y assms(4) [OF Suc.prems(1) k(1) Suc.prems(3)] have "I (Suc k) s1" by simp
        moreover from Suc.hyps(2) have "d = b - Suc k" by simp
        ultimately show ?thesis using Suc.hyps(1) [of "Suc k" s1] Suc.prems(1) k(1) y Next by simp
      next
        case (Return r)
        with y assms(5) [OF Suc.prems(1) k(1) Suc.prems(3)] show ?thesis by auto
      qed
    qed
  qed
  with assms(1-3) show ?thesis by blast
qed

text \<open>A loop whose body always goes on runs to its end.\<close>

lemma for_each_upt_total:
  assumes "a \<le> b" and "I a s"
    and "\<And>i s. a \<le> i \<Longrightarrow> i < b \<Longrightarrow> I i s \<Longrightarrow> \<exists>s'. body i s = ret (Next s') \<and> I (Suc i) s'"
  shows "\<exists>s'. for_each body [a..<b] s = ret (Next s') \<and> I b s'"
  using assms
proof (induction "b - a" arbitrary: a s)
  case 0
  then show ?case by auto
next
  case (Suc d)
  then have "a < b" by simp
  moreover from this have "[a..<b] = a # [Suc a..<b]" by (simp add: upt_rec)
  moreover from Suc.prems \<open>a < b\<close> obtain s1 where "body a s = ret (Next s1)" "I (Suc a) s1" by blast
  ultimately show ?case using Suc.hyps(1) [of "Suc a" s1] Suc.hyps(2) Suc.prems(3) by auto
qed

text \<open>
  A \<^verbatim>\<open>while\<close> loop repeats its body until that returns; when it never does, the
  loop is \<open>None\<close>.
\<close>

partial_function (option) loop :: "('s \<Rightarrow> ('s, 'r) flow outcome) \<Rightarrow> 's \<Rightarrow> 'r outcome" where
  "loop body s = bindC (body s) (\<lambda>x. case x of Return r \<Rightarrow> ret r | Next s' \<Rightarrow> loop body s')"

lemma loop_Return: "body s = ret (Return r) \<Longrightarrow> loop body s = ret r"
  by (simp add: loop.simps)

lemma loop_Next: "body s = ret (Next s') \<Longrightarrow> loop body s = loop body s'"
  by (subst loop.simps) simp

lemma loop_raise: "body s = raise e \<Longrightarrow> loop body s = raise e"
  by (simp add: loop.simps)

lemma loop_cases:
  assumes "loop body s = ret r"
  obtains "body s = ret (Return r)" | s' where "body s = ret (Next s')" "loop body s' = ret r"
proof -
  from assms have "bindC (body s) (\<lambda>x. case x of Return r \<Rightarrow> ret r | Next s' \<Rightarrow> loop body s') = ret r"
    by (simp only: loop.simps [symmetric])
  then obtain x where "body s = ret x" "(case x of Return r \<Rightarrow> ret r | Next s' \<Rightarrow> loop body s') = ret r"
    by (auto simp: bindC_eq_ret)
  with that show thesis by (cases x) auto
qed

text \<open>What a returning loop guarantees, when a loop never returns, and when it does.\<close>

lemma loop_inv:
  fixes body :: "'s \<Rightarrow> ('s, 'b) flow outcome"
  assumes "loop body s = ret r" and "I s"
    and go: "\<And>s s'. I s \<Longrightarrow> body s = ret (Next s') \<Longrightarrow> I s'"
    and return: "\<And>s r. I s \<Longrightarrow> body s = ret (Return r) \<Longrightarrow> Q r"
  shows "Q r"
proof -
  define P where "P = (\<lambda>b s (y :: fault + 'b). b = body \<longrightarrow> I s \<longrightarrow> (\<forall>r. y = Inr r \<longrightarrow> Q r))"
  have "P body s (Inr r)"
  proof (rule loop.raw_induct [where P = P])
    show "loop body s = Some (Inr r)" using assms(1) by (simp add: ret_def)
  next
    fix lp b s y
    assume IH: "\<And>b s y. lp b s = Some y \<Longrightarrow> P b s y"
      and eq: "bindC (b s) (\<lambda>x. case x of Return r \<Rightarrow> ret r | Next s' \<Rightarrow> lp b s') = Some y"
    show "P b s y"
      unfolding P_def
    proof (intro impI allI)
      fix r
      assume b: "b = body" and s: "I s" and y: "y = Inr r"
      from eq y have "bindC (b s) (\<lambda>x. case x of Return r \<Rightarrow> ret r | Next s' \<Rightarrow> lp b s') = ret r"
        by (simp add: ret_def)
      then obtain x where x: "b s = ret x" "(case x of Return r \<Rightarrow> ret r | Next s' \<Rightarrow> lp b s') = ret r"
        by (auto simp: bindC_eq_ret)
      show "Q r"
      proof (cases x)
        case (Next s')
        with x have "lp b s' = Some (Inr r)" by (simp add: ret_def)
        from IH [OF this] show ?thesis using go [of s s'] b s x Next by (simp add: P_def)
      next
        case (Return r')
        with x b s return show ?thesis by simp
      qed
    qed
  qed
  with \<open>I s\<close> show ?thesis by (simp add: P_def)
qed

lemma loop_diverges:
  fixes body :: "'s \<Rightarrow> ('s, 'b) flow outcome"
  assumes "I s" and go: "\<And>s. I s \<Longrightarrow> \<exists>s'. body s = ret (Next s') \<and> I s'"
  shows "loop body s = None"
proof (rule ccontr)
  assume "loop body s \<noteq> None"
  then obtain y where y: "loop body s = Some y" by auto
  define P where "P = (\<lambda>b s (y :: fault + 'b). b = body \<longrightarrow> \<not> I s)"
  have "P body s y"
  proof (rule loop.raw_induct [where P = P])
    show "loop body s = Some y" by (rule y)
  next
    fix lp b s y
    assume IH: "\<And>b s y. lp b s = Some y \<Longrightarrow> P b s y"
      and eq: "bindC (b s) (\<lambda>x. case x of Return r \<Rightarrow> ret r | Next s' \<Rightarrow> lp b s') = Some y"
    show "P b s y"
      unfolding P_def
    proof (intro impI notI)
      assume b: "b = body" and "I s"
      with go obtain s' where s': "body s = ret (Next s')" "I s'" by blast
      with eq b have "lp b s' = Some y" by simp
      from IH [OF this] s' b show False by (simp add: P_def)
    qed
  qed
  with \<open>I s\<close> show False by (simp add: P_def)
qed

lemma loop_total:
  fixes m :: "'s \<Rightarrow> nat"
  assumes "I s"
    and step: "\<And>s. I s \<Longrightarrow> (\<exists>r. body s = ret (Return r) \<and> Q r) \<or>
      (\<exists>s'. body s = ret (Next s') \<and> I s' \<and> m s' < m s)"
  shows "\<exists>r. loop body s = ret r \<and> Q r"
  using assms(1)
proof (induction "m s" arbitrary: s rule: less_induct)
  case less
  from step [OF less.prems] show ?case
  proof (elim disjE exE conjE)
    fix r
    assume "body s = ret (Return r)" "Q r"
    then show ?thesis by (auto simp: loop_Return)
  next
    fix s'
    assume "body s = ret (Next s')" "I s'" "m s' < m s"
    then show ?thesis using less.hyps [of s'] by (simp add: loop_Next)
  qed
qed

subsection \<open>Memory\<close>

definition memcpy :: "mem \<Rightarrow> u64 \<Rightarrow> u64 \<Rightarrow> nat \<Rightarrow> mem" where
  "memcpy m dst src n = (\<lambda>a. if unat (a - dst) < n then m (src + (a - dst)) else m a)"

definition load_u32 :: "mem \<Rightarrow> u64 \<Rightarrow> u32" where
  "load_u32 m a = ucast (m a) OR push_bit 8 (ucast (m (a + 1)))
     OR push_bit 16 (ucast (m (a + 2))) OR push_bit 24 (ucast (m (a + 3)))"

definition store_u32 :: "mem \<Rightarrow> u64 \<Rightarrow> u32 \<Rightarrow> mem" where
  "store_u32 m a v = m(a := ucast v, a + 1 := ucast (drop_bit 8 v),
     a + 2 := ucast (drop_bit 16 v), a + 3 := ucast (drop_bit 24 v))"

lemma offset_neq [simp]:
  "(a::u64) + 1 \<noteq> a" "a + 2 \<noteq> a" "a + 3 \<noteq> a" "a + 2 \<noteq> a + 1" "a + 3 \<noteq> a + 1" "a + 3 \<noteq> a + 2"
  "a \<noteq> a + 1" "a \<noteq> a + 2" "a \<noteq> a + 3" "a + 1 \<noteq> a + 2" "a + 1 \<noteq> a + 3" "a + 2 \<noteq> a + 3"
  by simp_all

lemma load_store_u32 [simp]: "load_u32 (store_u32 m a v) a = v"
proof (rule bit_word_eqI)
  fix n :: nat
  assume n: "n < LENGTH(32)"
  consider "n < 8" | "8 \<le> n" "n < 16" | "16 \<le> n" "n < 24" | "24 \<le> n" "n < 32"
    using n by fastforce
  then show "bit (load_u32 (store_u32 m a v) a) n = bit v n"
    by cases (auto simp: load_u32_def store_u32_def bit_simps)
qed

lemma load_store_u32_disjoint:
  assumes "4 \<le> unat (b - a)" and "4 \<le> unat (a - b)"
  shows "load_u32 (store_u32 m a v) b = load_u32 m b"
proof -
  have "b + i \<noteq> a + j" if "i \<in> {0, 1, 2, 3}" "j \<in> {0, 1, 2, 3}" for i j :: u64
  proof
    assume "b + i = a + j"
    then have "b - a = j - i" and "a - b = i - j" by (simp_all add: algebra_simps)
    with assms have "4 \<le> unat (j - i)" "4 \<le> unat (i - j)" by simp_all
    with that show False by auto
  qed
  from this [of 0 0] this [of 0 1] this [of 0 2] this [of 0 3]
    this [of 1 0] this [of 1 1] this [of 1 2] this [of 1 3]
    this [of 2 0] this [of 2 1] this [of 2 2] this [of 2 3]
    this [of 3 0] this [of 3 1] this [of 3 2] this [of 3 3]
  show ?thesis by (simp add: load_u32_def store_u32_def)
qed

end
