(* ===== verification/Mprud_Types.thy ===== *)
theory Mprud_Types
  imports Prelude
begin

section \<open>The data of the multi-path layer\<close>

text \<open>
  The structures of \<^verbatim>\<open>libibverbs-41mlnx1/include/infiniband/mprud.h\<close> and the
  constants of \<^verbatim>\<open>mprud_opt.h\<close>, in the configuration that file selects (recovery
  mode, one failure only, splitting of small messages, no intended path failure). A C array
  is a function from its index; every access goes through a bounds check. The verbs
  structures keep the fields the layer reads or writes: of a scatter list its first element,
  which is the only one the layer looks at.
\<close>

subsection \<open>Constants\<close>

definition MPRUD_NUM_PATH :: nat where "MPRUD_NUM_PATH = 4"
definition MPRUD_GRH_SIZE :: nat where "MPRUD_GRH_SIZE = 40"
definition MPRUD_DEFAULT_MTU :: nat where "MPRUD_DEFAULT_MTU = 4096"
definition MPRUD_SEND_BUF_SIZE :: nat where "MPRUD_SEND_BUF_SIZE = 16"
definition MPRUD_RECV_BUF_SIZE :: nat where "MPRUD_RECV_BUF_SIZE = 16 + MPRUD_GRH_SIZE"
definition MPRUD_TABLE_LEN :: nat where "MPRUD_TABLE_LEN = 1000"
definition MPRUD_MONITOR_CYCLE :: int where "MPRUD_MONITOR_CYCLE = 30"
definition MPRUD_REPORT_RECV_CYCLE :: int where "MPRUD_REPORT_RECV_CYCLE = 30"
definition MPRUD_TIMEOUT_THRESHOLD :: int where "MPRUD_TIMEOUT_THRESHOLD = 1000"
definition MPRUD_PRINT_PERF_CYCLE :: int where "MPRUD_PRINT_PERF_CYCLE = 1000000"
definition MPRUD_QPS_DEAD :: int where "MPRUD_QPS_DEAD = 0"
definition MPRUD_QPS_ACTIVE :: int where "MPRUD_QPS_ACTIVE = 1"
definition MPRUD_QPS_ERROR :: int where "MPRUD_QPS_ERROR = 2"
definition SUCCESS :: int where "SUCCESS = 0"
definition FAILURE :: int where "FAILURE = 1"

lemmas mprud_consts = MPRUD_NUM_PATH_def MPRUD_GRH_SIZE_def MPRUD_DEFAULT_MTU_def
  MPRUD_SEND_BUF_SIZE_def MPRUD_RECV_BUF_SIZE_def MPRUD_TABLE_LEN_def
  MPRUD_MONITOR_CYCLE_def MPRUD_REPORT_RECV_CYCLE_def MPRUD_TIMEOUT_THRESHOLD_def
  MPRUD_QPS_DEAD_def MPRUD_QPS_ACTIVE_def MPRUD_QPS_ERROR_def SUCCESS_def FAILURE_def

text \<open>The two sides of a connection (\<^verbatim>\<open>MP_SERVER\<close>, \<^verbatim>\<open>MP_CLIENT\<close>) and the result codes.\<close>

datatype role = MP_SERVER | MP_CLIENT

datatype res_code = MPRUD_STATUS_NORMAL | MPRUD_STATUS_WAIT | MPRUD_STATUS_WARNING
  | MPRUD_STATUS_FAIL | MPRUD_STATUS_ERROR

subsection \<open>Verbs structures\<close>

record ibv_sge =
  sge_addr :: u64
  sge_length :: u32
  sge_lkey :: u32

record ibv_send_wr =
  swr_id :: u64
  swr_next :: u64
  swr_sg_list :: "ibv_sge option"
  swr_num_sge :: int
  swr_opcode :: int
  swr_send_flags :: int
  swr_ud_ah :: "nat option"
  swr_ud_remote_qpn :: u32
  swr_ud_remote_qkey :: u32

record ibv_recv_wr =
  rwr_id :: u64
  rwr_next :: u64
  rwr_sg_list :: "ibv_sge option"
  rwr_num_sge :: int

record ibv_wc =
  wc_wr_id :: u64
  wc_status :: int

datatype qp_type = IBV_QPT_RC | IBV_QPT_UC | IBV_QPT_UD | IBV_QPT_XRC | IBV_QPT_RAW_PACKET
  | IBV_QPT_XRC_SEND | IBV_QPT_XRC_RECV | IBV_EXP_QPT_DC_INI

datatype qp_state = IBV_QPS_RESET | IBV_QPS_INIT | IBV_QPS_RTR | IBV_QPS_RTS | IBV_QPS_SQD
  | IBV_QPS_SQE | IBV_QPS_ERR | IBV_QPS_UNKNOWN

text \<open>
  A protection domain, and a queue pair. Completion queues and shared receive queues are
  known by their handles; the mutex and the condition variable are left out.
\<close>

record ibv_pd =
  pd_context :: nat
  pd_handle :: nat

record ibv_qp =
  qp_handle :: nat
  qp_send_cq :: "nat option"
  qp_recv_cq :: "nat option"
  qp_qp_type :: qp_type
  qp_qp_context :: u64
  qp_pd :: "ibv_pd option"
  qp_srq :: "nat option"
  qp_num :: u32
  qp_state :: qp_state
  qp_events_completed :: u32

definition zero_qp :: ibv_qp where
  "zero_qp = \<lparr>qp_handle = 0, qp_send_cq = None, qp_recv_cq = None, qp_qp_type = IBV_QPT_RC,
     qp_qp_context = 0, qp_pd = None, qp_srq = None, qp_num = 0, qp_state = IBV_QPS_RESET,
     qp_events_completed = 0\<rparr>"

text \<open>Zero bytes, as \<^verbatim>\<open>memset\<close> leaves them; opcode and flag values of \<^verbatim>\<open>verbs.h\<close>.\<close>

definition zero_sge :: ibv_sge where
  "zero_sge = \<lparr>sge_addr = 0, sge_length = 0, sge_lkey = 0\<rparr>"

definition zero_send_wr :: ibv_send_wr where
  "zero_send_wr = \<lparr>swr_id = 0, swr_next = 0, swr_sg_list = None, swr_num_sge = 0,
     swr_opcode = 0, swr_send_flags = 0, swr_ud_ah = None, swr_ud_remote_qpn = 0,
     swr_ud_remote_qkey = 0\<rparr>"

definition zero_recv_wr :: ibv_recv_wr where
  "zero_recv_wr = \<lparr>rwr_id = 0, rwr_next = 0, rwr_sg_list = None, rwr_num_sge = 0\<rparr>"

definition IBV_WR_SEND :: int where "IBV_WR_SEND = 2"
definition IBV_SEND_SIGNALED :: int where "IBV_SEND_SIGNALED = 2"
definition IBV_WC_SUCCESS :: int where "IBV_WC_SUCCESS = 0"

subsection \<open>Structures of the layer\<close>

record timeval =
  tv_sec :: int
  tv_usec :: int

definition zero_timeval :: timeval where
  "zero_timeval = \<lparr>tv_sec = 0, tv_usec = 0\<rparr>"

record report_msg =
  errqpn :: u32
  max_posted :: u32
  wqe_loss_idx :: u32
  completed :: u32

record pkt_count =
  pkt :: u64
  tot_pkt :: u64
  ack :: u64

record qp_status =
  posted_scnt :: pkt_count
  posted_rcnt :: pkt_count
  polled_scnt :: pkt_count
  polled_rcnt :: pkt_count
  recovery_polled_pkt :: u64
  comp_temp :: u64
  recv_msg_size :: u64
  wqe_idx :: u32
  qlen :: int

record mprud_wqe =
  wqe_valid :: int
  wqe_id :: u64
  wqe_swr :: ibv_send_wr
  wqe_rwr :: ibv_recv_wr
  iter_each :: "nat \<Rightarrow> int"
  comp_need :: int
  wqe_chnk_last :: int
  start_idx :: int
  avg_size_per_pkt :: int

record wqe_table =
  tbl_head :: int
  tbl_next :: int
  tbl_sqn :: u64
  tbl_wqe :: "nat \<Rightarrow> mprud_wqe"

record ctx_bufs =
  buf_sub :: u64
  buf_last :: u64
  buf_send :: u64
  buf_recv :: u64

record mprud_context =
  recv_size :: int
  send_size :: int
  outer_buf :: u64
  inner_qps :: "nat \<Rightarrow> ibv_qp option"
  ah_list :: "nat \<Rightarrow> nat option"
  post_turn :: int
  poll_turn :: int
  dest_qp_num :: u32
  table :: wqe_table
  bufs :: ctx_bufs
  qp_stat :: "nat \<Rightarrow> qp_status"
  tot_rposted :: u64
  tot_rpolled :: u64
  tot_sposted :: u64
  tot_spolled :: u64
  tot_recovery_posted :: u64
  tot_recovery_polled :: u64
  recov_post_turn :: int

record path_manager =
  active_num :: int
  qps :: "nat \<Rightarrow> int"
  report_qp :: "ibv_qp option"
  send_base_addr :: u64
  recv_base_addr :: u64
  msg :: report_msg
  start_time_flag :: int
  start :: timeval
  now :: timeval
  qp_wait :: "nat \<Rightarrow> timeval"
  prev_qp_cnt :: "nat \<Rightarrow> u64"
  recovery_flag :: int
  got_report_flag :: int
  recovery_max_wqe :: int
  recovery_cur_post_wqe :: int
  recovery_cur_poll_wqe :: int
  monitor_flag :: int
  p_start_time_flag :: int
  p_start :: timeval
  p_now :: timeval
  initial :: timeval

text \<open>
  The state: the two global variables \<open>mpctx\<close> and \<open>mp_manager\<close> of \<^verbatim>\<open>mprud.c\<close>,
  the process memory, and the world the device and the clock live in. The pointer
  \<^verbatim>\<open>mp_manager.qp_stat\<close> always points to \<^verbatim>\<open>mpctx.qp_stat\<close>
  (\<^verbatim>\<open>mprud_init_ctx\<close> sets it), so the model reads \<open>qp_stat (mpctx s)\<close> for both.
\<close>

record 'w mprud_state =
  mpctx :: mprud_context
  mp_manager :: path_manager
  memory :: mem
  world :: 'w

text \<open>
  The calls through \<^verbatim>\<open>qp->context->ops\<close> with their last argument 1, which go to the
  device driver and not back to this layer, and \<^verbatim>\<open>gettimeofday\<close>. Polling a completion
  queue may change memory: the device has written the payload of a completed receive.
\<close>

record 'w env =
  post_send_op :: "ibv_qp \<Rightarrow> ibv_send_wr \<Rightarrow> mem \<Rightarrow> 'w \<Rightarrow> int \<times> 'w"
  post_recv_op :: "ibv_qp \<Rightarrow> ibv_recv_wr \<Rightarrow> 'w \<Rightarrow> int \<times> 'w"
  poll_cq_op :: "nat \<Rightarrow> nat \<Rightarrow> mem \<Rightarrow> 'w \<Rightarrow> int \<times> mem \<times> 'w"
  gettimeofday_op :: "'w \<Rightarrow> timeval \<times> 'w"

subsection \<open>Shorthands for state updates\<close>

abbreviation stat :: "'w mprud_state \<Rightarrow> nat \<Rightarrow> qp_status" where
  "stat s i \<equiv> qp_stat (mpctx s) i"

abbreviation wqe :: "'w mprud_state \<Rightarrow> nat \<Rightarrow> mprud_wqe" where
  "wqe s i \<equiv> tbl_wqe (table (mpctx s)) i"

abbreviation upd_ctx :: "(mprud_context \<Rightarrow> mprud_context) \<Rightarrow> 'w mprud_state \<Rightarrow> 'w mprud_state" where
  "upd_ctx f s \<equiv> s\<lparr>mpctx := f (mpctx s)\<rparr>"

abbreviation upd_mgr :: "(path_manager \<Rightarrow> path_manager) \<Rightarrow> 'w mprud_state \<Rightarrow> 'w mprud_state" where
  "upd_mgr f s \<equiv> s\<lparr>mp_manager := f (mp_manager s)\<rparr>"

abbreviation upd_table :: "(wqe_table \<Rightarrow> wqe_table) \<Rightarrow> 'w mprud_state \<Rightarrow> 'w mprud_state" where
  "upd_table f s \<equiv> s\<lparr>mpctx := (mpctx s)\<lparr>table := f (table (mpctx s))\<rparr>\<rparr>"

abbreviation upd_stat :: "nat \<Rightarrow> (qp_status \<Rightarrow> qp_status) \<Rightarrow> 'w mprud_state \<Rightarrow> 'w mprud_state" where
  "upd_stat i f s \<equiv> s\<lparr>mpctx := (mpctx s)\<lparr>qp_stat := (qp_stat (mpctx s))(i := f (stat s i))\<rparr>\<rparr>"

abbreviation upd_wqe :: "nat \<Rightarrow> (mprud_wqe \<Rightarrow> mprud_wqe) \<Rightarrow> 'w mprud_state \<Rightarrow> 'w mprud_state" where
  "upd_wqe i f s \<equiv> s\<lparr>mpctx := (mpctx s)\<lparr>table := (table (mpctx s))\<lparr>tbl_wqe :=
     (tbl_wqe (table (mpctx s)))(i := f (wqe s i))\<rparr>\<rparr>\<rparr>"

text \<open>\<^verbatim>\<open>gettimeofday(&x, NULL)\<close>.\<close>

definition read_clock :: "'w env \<Rightarrow> 'w mprud_state \<Rightarrow> timeval \<times> 'w mprud_state" where
  "read_clock ops s = (case gettimeofday_op ops (world s) of (t, w) \<Rightarrow> (t, s\<lparr>world := w\<rparr>))"

text \<open>
  \<^verbatim>\<open>mprud_get_us\<close>: microseconds between two times. The C function converts the
  difference to \<^verbatim>\<open>float\<close>; its callers only compare it with constants below
  \<open>2 ^ 24\<close>, which rounding of an integer to \<^verbatim>\<open>float\<close> does not move across.
\<close>

definition mprud_get_us :: "timeval \<Rightarrow> timeval \<Rightarrow> int" where
  "mprud_get_us t0 t1 = (tv_sec t1 - tv_sec t0) * 1000000 + (tv_usec t1 - tv_usec t0)"

lemma read_clock_simps [simp]:
  "mpctx (snd (read_clock ops s)) = mpctx s"
  "mp_manager (snd (read_clock ops s)) = mp_manager s"
  "memory (snd (read_clock ops s)) = memory s"
  by (simp_all add: read_clock_def split: prod.splits)

text \<open>Reading and writing a \<^verbatim>\<open>struct report_msg\<close> in memory, as \<^verbatim>\<open>memcpy\<close> does.\<close>

definition store_msg :: "mem \<Rightarrow> u64 \<Rightarrow> report_msg \<Rightarrow> mem" where
  "store_msg m a r = store_u32 (store_u32 (store_u32 (store_u32 m a (errqpn r))
     (a + 4) (max_posted r)) (a + 8) (wqe_loss_idx r)) (a + 12) (completed r)"

definition load_msg :: "mem \<Rightarrow> u64 \<Rightarrow> report_msg" where
  "load_msg m a = \<lparr>errqpn = load_u32 m a, max_posted = load_u32 m (a + 4),
     wqe_loss_idx = load_u32 m (a + 8), completed = load_u32 m (a + 12)\<rparr>"

lemma load_store_msg [simp]: "load_msg (store_msg m a r) a = r"
  by (simp add: load_msg_def store_msg_def load_store_u32_disjoint)

end
