(* ===== verification/Mprud_Init.thy ===== *)
theory Mprud_Init
  imports Mprud_Types
begin

section \<open>Initialisation of the context\<close>

text \<open>
  \<^verbatim>\<open>mprud_init_ctx\<close>, \<^verbatim>\<open>mprud_get_ah_list\<close>, \<^verbatim>\<open>mprud_set_outer_buffer\<close>
  and \<^verbatim>\<open>mprud_set_dest_qp_num\<close> of \<^verbatim>\<open>mprud.c\<close>, and the zero bytes both
  global variables start from. \<open>boot_state\<close> is the state when the process starts.
\<close>

definition zero_report_msg :: report_msg where
  "zero_report_msg = \<lparr>errqpn = 0, max_posted = 0, wqe_loss_idx = 0, completed = 0\<rparr>"

definition zero_pkt_count :: pkt_count where
  "zero_pkt_count = \<lparr>pkt = 0, tot_pkt = 0, ack = 0\<rparr>"

definition zero_qp_status :: qp_status where
  "zero_qp_status = \<lparr>posted_scnt = zero_pkt_count, posted_rcnt = zero_pkt_count,
     polled_scnt = zero_pkt_count, polled_rcnt = zero_pkt_count, recovery_polled_pkt = 0,
     comp_temp = 0, recv_msg_size = 0, wqe_idx = 0, qlen = 0\<rparr>"

definition zero_wqe :: mprud_wqe where
  "zero_wqe = \<lparr>wqe_valid = 0, wqe_id = 0, wqe_swr = zero_send_wr, wqe_rwr = zero_recv_wr,
     iter_each = (\<lambda>_. 0), comp_need = 0, wqe_chnk_last = 0, start_idx = 0,
     avg_size_per_pkt = 0\<rparr>"

definition zero_table :: wqe_table where
  "zero_table = \<lparr>tbl_head = 0, tbl_next = 0, tbl_sqn = 0, tbl_wqe = (\<lambda>_. zero_wqe)\<rparr>"

definition zero_context :: mprud_context where
  "zero_context = \<lparr>recv_size = 0, send_size = 0, outer_buf = 0, inner_qps = (\<lambda>_. None),
     ah_list = (\<lambda>_. None), post_turn = 0, poll_turn = 0, dest_qp_num = 0, table = zero_table,
     bufs = \<lparr>buf_sub = 0, buf_last = 0, buf_send = 0, buf_recv = 0\<rparr>,
     qp_stat = (\<lambda>_. zero_qp_status), tot_rposted = 0, tot_rpolled = 0, tot_sposted = 0,
     tot_spolled = 0, tot_recovery_posted = 0, tot_recovery_polled = 0, recov_post_turn = 0\<rparr>"

definition zero_manager :: path_manager where
  "zero_manager = \<lparr>active_num = 0, qps = (\<lambda>_. 0), report_qp = None, send_base_addr = 0,
     recv_base_addr = 0, msg = zero_report_msg, start_time_flag = 0, start = zero_timeval,
     now = zero_timeval, qp_wait = (\<lambda>_. zero_timeval), prev_qp_cnt = (\<lambda>_. 0),
     recovery_flag = 0, got_report_flag = 0, recovery_max_wqe = 0, recovery_cur_post_wqe = 0,
     recovery_cur_poll_wqe = 0, monitor_flag = 0, p_start_time_flag = 0, p_start = zero_timeval,
     p_now = zero_timeval, initial = zero_timeval\<rparr>"

definition boot_state :: "mem \<Rightarrow> 'w \<Rightarrow> 'w mprud_state" where
  "boot_state m w = \<lparr>mpctx = zero_context, mp_manager = zero_manager, memory = m, world = w\<rparr>"

definition mprud_init_ctx :: "'w mprud_state \<Rightarrow> int \<times> 'w mprud_state" where
  "mprud_init_ctx s =
    (let s1 = s\<lparr>mpctx := zero_context\<lparr>send_size := 256, recv_size := 512\<rparr>\<rparr>;
         s2 = upd_mgr (\<lambda>m. m\<lparr>active_num := int MPRUD_NUM_PATH,
                qps := (\<lambda>i. if i < MPRUD_NUM_PATH then 1 else qps m i),
                recovery_flag := 0, recovery_max_wqe := -1\<rparr>) s1
     in (SUCCESS, s2))"

definition mprud_get_ah_list :: "'w mprud_state \<Rightarrow> nat \<Rightarrow> nat option" where
  "mprud_get_ah_list s = ah_list (mpctx s)"

definition mprud_set_outer_buffer :: "u64 \<Rightarrow> u32 \<Rightarrow> 'w mprud_state \<Rightarrow> 'w mprud_state" where
  "mprud_set_outer_buffer ptr len s =
    (let recv = ptr + ucast len - of_nat MPRUD_RECV_BUF_SIZE;
         send = recv - of_nat MPRUD_SEND_BUF_SIZE;
         lst = send - of_nat (MPRUD_DEFAULT_MTU + MPRUD_GRH_SIZE);
         sub = lst - of_nat ((MPRUD_DEFAULT_MTU + MPRUD_GRH_SIZE) * MPRUD_NUM_PATH);
         s1 = upd_ctx (\<lambda>c. c\<lparr>outer_buf := ptr,
                bufs := \<lparr>buf_sub = sub, buf_last = lst, buf_send = send, buf_recv = recv\<rparr>\<rparr>) s
     in upd_mgr (\<lambda>m. m\<lparr>send_base_addr := send, recv_base_addr := recv\<rparr>) s1)"

definition mprud_set_dest_qp_num :: "u32 \<Rightarrow> 'w mprud_state \<Rightarrow> 'w mprud_state" where
  "mprud_set_dest_qp_num n s = upd_ctx (\<lambda>c. c\<lparr>dest_qp_num := n\<rparr>) s"

lemmas boot_defs = boot_state_def mprud_init_ctx_def zero_context_def zero_manager_def
  zero_table_def zero_wqe_def zero_qp_status_def zero_pkt_count_def zero_report_msg_def
  zero_send_wr_def zero_recv_wr_def zero_timeval_def

text \<open>The state after the first \<^verbatim>\<open>ibv_alloc_pd\<close>, with nothing registered yet.\<close>

definition ready_state :: "mem \<Rightarrow> 'w \<Rightarrow> 'w mprud_state" where
  "ready_state m w = snd (mprud_init_ctx (boot_state m w))"

lemma ready_state_simps [simp]:
  "table (mpctx (ready_state m w)) = zero_table"
  "qp_stat (mpctx (ready_state m w)) = (\<lambda>_. zero_qp_status)"
  "active_num (mp_manager (ready_state m w)) = 4"
  "post_turn (mpctx (ready_state m w)) = 0" "poll_turn (mpctx (ready_state m w)) = 0"
  "tot_sposted (mpctx (ready_state m w)) = 0" "tot_spolled (mpctx (ready_state m w)) = 0"
  "tot_rposted (mpctx (ready_state m w)) = 0" "tot_rpolled (mpctx (ready_state m w)) = 0"
  "inner_qps (mpctx (ready_state m w)) = (\<lambda>_. None)"
  "recovery_flag (mp_manager (ready_state m w)) = 0"
  "memory (ready_state m w) = m" "world (ready_state m w) = w"
  by (simp_all add: ready_state_def boot_defs MPRUD_NUM_PATH_def)

text \<open>A send request with a scatter element, for examples.\<close>

definition sample_swr :: ibv_send_wr where
  "sample_swr = zero_send_wr\<lparr>swr_sg_list := Some (zero_sge\<lparr>sge_addr := 4096, sge_length := 16384\<rparr>), swr_num_sge := 1\<rparr>"

end
