(* ===== verification/Fifo.thy ===== *)
theory Fifo
  imports Prelude
begin

section \<open>Bounded first-in first-out queues\<close>

text \<open>Positions in a ring of \<open>N\<close> slots.\<close>

lemma add_mod_cancel:
  fixes a i j N :: nat
  assumes "(a + i) mod N = (a + j) mod N" and "0 < N"
  shows "i mod N = j mod N"
proof -
  have "((a + i) mod N + (N * a - a)) mod N = ((a + j) mod N + (N * a - a)) mod N"
    using assms(1) by simp
  then have "(a + i + (N * a - a)) mod N = (a + j + (N * a - a)) mod N"
    by (simp only: mod_add_left_eq)
  moreover have "a + i + (N * a - a) = i + N * a" "a + j + (N * a - a) = j + N * a"
    using assms(2) by (cases N; simp)+
  ultimately show ?thesis by simp
qed

text \<open>
  The contract that both sides of a ring rely on: the table of outstanding work requests, the
  receive ring of a queue pair and the ring of a completion queue. \<open>cap\<close> bounds the number of
  elements a queue may hold when one more is pushed.
\<close>

datatype 'e fifo_op = Push 'e | Pop

fun fifo_run :: "('e \<Rightarrow> 's \<Rightarrow> 's) \<Rightarrow> ('s \<Rightarrow> 's) \<Rightarrow> 'e fifo_op list \<Rightarrow> 's \<Rightarrow> 's" where
  "fifo_run push pop [] s = s"
| "fifo_run push pop (Push e # xs) s = fifo_run push pop xs (push e s)"
| "fifo_run push pop (Pop # xs) s = fifo_run push pop xs (pop s)"

fun fifo_legal :: "nat \<Rightarrow> nat \<Rightarrow> 'e fifo_op list \<Rightarrow> bool" where
  "fifo_legal cap n [] = True"
| "fifo_legal cap n (Push e # xs) = (n < cap \<and> fifo_legal cap (Suc n) xs)"
| "fifo_legal cap n (Pop # xs) = (0 < n \<and> fifo_legal cap (n - 1) xs)"

fun pushed :: "'e fifo_op list \<Rightarrow> 'e list" where
  "pushed [] = []"
| "pushed (Push e # xs) = e # pushed xs"
| "pushed (Pop # xs) = pushed xs"

definition pops :: "'e fifo_op list \<Rightarrow> nat" where
  "pops xs = length (filter (\<lambda>x. x = Pop) xs)"

text \<open>What a run takes out, element by element, when \<open>front\<close> reads the next one.\<close>

fun fifo_outputs :: "('e \<Rightarrow> 's \<Rightarrow> 's) \<Rightarrow> ('s \<Rightarrow> 's) \<Rightarrow> ('s \<Rightarrow> 'e) \<Rightarrow> 'e fifo_op list \<Rightarrow> 's \<Rightarrow> 'e list" where
  "fifo_outputs push pop front [] s = []"
| "fifo_outputs push pop front (Push e # xs) s = fifo_outputs push pop front xs (push e s)"
| "fifo_outputs push pop front (Pop # xs) s = front s # fifo_outputs push pop front xs (pop s)"

locale bounded_fifo =
  fixes content :: "'s \<Rightarrow> 'e list" and ok :: "'s \<Rightarrow> bool" and cap :: nat
    and push :: "'e \<Rightarrow> 's \<Rightarrow> 's" and pop :: "'s \<Rightarrow> 's"
  assumes push_content: "ok s \<Longrightarrow> length (content s) < cap \<Longrightarrow> content (push e s) = content s @ [e]"
    and pop_content: "ok s \<Longrightarrow> content s \<noteq> [] \<Longrightarrow> content (pop s) = tl (content s)"
    and push_ok: "ok s \<Longrightarrow> ok (push e s)"
    and pop_ok: "ok s \<Longrightarrow> ok (pop s)"
begin

lemma run_ok: "ok s \<Longrightarrow> ok (fifo_run push pop xs s)"
proof (induction xs arbitrary: s)
  case (Cons x xs)
  then show ?case by (cases x) (auto intro: push_ok pop_ok)
qed simp

lemma run_content:
  "ok s \<Longrightarrow> fifo_legal cap (length (content s)) xs \<Longrightarrow>
    content (fifo_run push pop xs s) = drop (pops xs) (content s @ pushed xs)"
proof (induction xs arbitrary: s)
  case Nil
  then show ?case by (simp add: pops_def)
next
  case (Cons x xs)
  show ?case
  proof (cases x)
    case (Push e)
    with Cons.prems have "content (push e s) = content s @ [e]" by (simp add: push_content)
    with Push Cons.prems Cons.IH [OF push_ok] show ?thesis by (simp add: pops_def del: drop_append)
  next
    case Pop
    with Cons.prems have ne: "content s \<noteq> []" by auto
    with Cons.prems have "content (pop s) = tl (content s)" by (simp add: pop_content)
    with Pop ne Cons.prems Cons.IH [OF pop_ok] show ?thesis
      by (cases "content s") (simp_all add: pops_def)
  qed
qed

lemma run_outputs:
  assumes "\<And>s. ok s \<Longrightarrow> content s \<noteq> [] \<Longrightarrow> front s = hd (content s)"
  shows "ok s \<Longrightarrow> fifo_legal cap (length (content s)) xs \<Longrightarrow>
    fifo_outputs push pop front xs s = take (pops xs) (content s @ pushed xs)"
proof (induction xs arbitrary: s)
  case Nil
  then show ?case by (simp add: pops_def)
next
  case (Cons x xs)
  show ?case
  proof (cases x)
    case (Push e)
    with Cons.prems have "content (push e s) = content s @ [e]" by (simp add: push_content)
    with Push Cons.prems Cons.IH [OF push_ok] show ?thesis by (simp add: pops_def del: take_append)
  next
    case Pop
    with Cons.prems have ne: "content s \<noteq> []" by auto
    with Cons.prems have "content (pop s) = tl (content s)" by (simp add: pop_content)
    with Pop ne Cons.prems Cons.IH [OF pop_ok] assms [of s] show ?thesis
      by (cases "content s") (simp_all add: pops_def)
  qed
qed

end

end
