(* ===== verification/Mprud_Table.thy ===== *)
theory Mprud_Table
  imports Mprud_Init Fifo
begin

section \<open>The table of outstanding work requests\<close>

text \<open>
  \<^verbatim>\<open>mprud_store_wr\<close>, \<^verbatim>\<open>mprud_get_outer_poll\<close> and \<^verbatim>\<open>mprud_outer_poll\<close>
  of \<^verbatim>\<open>mprud.c\<close>: a ring of 1000 entries, one per application request, that a post
  fills at \<^verbatim>\<open>next\<close> and a poll empties at \<^verbatim>\<open>head\<close> once every active path has
  polled the packets the entry needs. The lemmas show the ring to be a first-in first-out
  queue, and what happens at its two edges, which the code does not test.
\<close>

subsection \<open>Operations\<close>

text \<open>
  The loops over the active paths index arrays of \<^verbatim>\<open>MPRUD_NUM_PATH\<close> entries.
\<close>

definition active_paths :: "'w mprud_state \<Rightarrow> nat outcome" where
  "active_paths s =
    (if int MPRUD_NUM_PATH < active_num (mp_manager s) then raise OutOfBounds
     else ret (nat (active_num (mp_manager s))))"

definition bump_ring :: "int \<Rightarrow> int" where
  "bump_ring i = (if i + 1 = int MPRUD_TABLE_LEN then 0 else i + 1)"

definition mprud_store_wr :: "ibv_send_wr option \<Rightarrow> ibv_recv_wr option \<Rightarrow> int \<Rightarrow> int \<Rightarrow> int \<Rightarrow>
    'w mprud_state \<Rightarrow> 'w mprud_state outcome" where
  "mprud_store_wr swr rwr iter each lst s =
    bindC (index MPRUD_TABLE_LEN (tbl_next (table (mpctx s)))) (\<lambda>k.
    let s1 = upd_wqe k (\<lambda>e. e\<lparr>wqe_id := tbl_sqn (table (mpctx s))\<rparr>) s;
        s2 = upd_table (\<lambda>t. t\<lparr>tbl_sqn := tbl_sqn t + 1, tbl_next := bump_ring (tbl_next t)\<rparr>) s1
    in bindC (case swr of None \<Rightarrow> ret s2
       | Some w \<Rightarrow> bindC (deref (swr_sg_list w)) (\<lambda>sg.
           ret (upd_wqe k (\<lambda>e. e\<lparr>wqe_swr := w\<lparr>swr_sg_list := Some sg\<rparr>\<rparr>) s2))) (\<lambda>s3.
    bindC (case rwr of None \<Rightarrow> ret s3
       | Some w \<Rightarrow> bindC (deref (rwr_sg_list w)) (\<lambda>sg.
           if word_of_int iter = (0 :: u32) then raise DivByZero
           else ret (upd_wqe k (\<lambda>e. e\<lparr>wqe_rwr := w\<lparr>rwr_sg_list := Some sg\<rparr>,
                  avg_size_per_pkt := sint (sge_length sg div word_of_int iter)\<rparr>) s3))) (\<lambda>s4.
    bindC (active_paths s4) (\<lambda>n.
    ret (upd_wqe k (\<lambda>e. e\<lparr>wqe_chnk_last := lst, wqe_valid := 1,
           start_idx := post_turn (mpctx s4),
           iter_each := (\<lambda>i. if i < n then each else 0)\<rparr>) s4)))))"

definition polled_cnt :: "role \<Rightarrow> qp_status \<Rightarrow> pkt_count" where
  "polled_cnt Iam q = (case Iam of MP_SERVER \<Rightarrow> polled_rcnt q | MP_CLIENT \<Rightarrow> polled_scnt q)"

definition upd_polled :: "role \<Rightarrow> (pkt_count \<Rightarrow> pkt_count) \<Rightarrow> qp_status \<Rightarrow> qp_status" where
  "upd_polled Iam f q = (case Iam of
     MP_SERVER \<Rightarrow> q\<lparr>polled_rcnt := f (polled_rcnt q)\<rparr> | MP_CLIENT \<Rightarrow> q\<lparr>polled_scnt := f (polled_scnt q)\<rparr>)"

definition comp_ready :: "role \<Rightarrow> nat \<Rightarrow> nat \<Rightarrow> 'w mprud_state \<Rightarrow> bool" where
  "comp_ready Iam n h s =
    list_all (\<lambda>i. \<not> pkt (polled_cnt Iam (stat s i)) < word_of_int (iter_each (wqe s h) i)) [0..<n]"

definition mprud_get_outer_poll :: "role \<Rightarrow> 'w mprud_state \<Rightarrow> (u32 \<times> 'w mprud_state) outcome" where
  "mprud_get_outer_poll Iam s =
    bindC (index MPRUD_TABLE_LEN (tbl_head (table (mpctx s)))) (\<lambda>h.
    bindC (active_paths s) (\<lambda>n.
    if comp_ready Iam n h s then
      let s1 = upd_ctx (\<lambda>c. c\<lparr>qp_stat := (\<lambda>i. if i < n
                 then upd_polled Iam (\<lambda>p. p\<lparr>pkt := pkt p - word_of_int (iter_each (wqe s h) i)\<rparr>)
                   (qp_stat c i)
                 else qp_stat c i)\<rparr>) s;
          s2 = upd_wqe h (\<lambda>e. e\<lparr>wqe_valid := 0\<rparr>) s1;
          s3 = upd_table (\<lambda>t. t\<lparr>tbl_head := bump_ring (tbl_head t)\<rparr>) s2
      in ret (1, s3)
    else ret (0, s)))"

definition mprud_outer_poll :: "ibv_wc list \<Rightarrow> role \<Rightarrow> 'w mprud_state \<Rightarrow>
    (int \<times> ibv_wc list \<times> 'w mprud_state) outcome" where
  "mprud_outer_poll wc Iam s =
    bindC (mprud_get_outer_poll Iam s) (\<lambda>(num, s').
    if num > 0 then
      if length wc < unat num then raise OutOfBounds
      else ret (sint num, map (\<lambda>w. w\<lparr>wc_wr_id := 0, wc_status := IBV_WC_SUCCESS\<rparr>) (take (unat num) wc)
             @ drop (unat num) wc, s')
    else ret (0, wc, s'))"

subsection \<open>The ring as a queue\<close>

text \<open>The entries between \<^verbatim>\<open>head\<close> and \<^verbatim>\<open>next\<close>, oldest first.\<close>

definition ring_count :: "wqe_table \<Rightarrow> nat" where
  "ring_count t = nat ((tbl_next t - tbl_head t) mod int MPRUD_TABLE_LEN)"

definition ring_slot :: "wqe_table \<Rightarrow> nat \<Rightarrow> nat" where
  "ring_slot t j = (nat (tbl_head t) + j) mod MPRUD_TABLE_LEN"

definition outstanding :: "wqe_table \<Rightarrow> mprud_wqe list" where
  "outstanding t = map (\<lambda>j. tbl_wqe t (ring_slot t j)) [0..<ring_count t]"

definition ring_ok :: "wqe_table \<Rightarrow> bool" where
  "ring_ok t \<longleftrightarrow> 0 \<le> tbl_head t \<and> tbl_head t < int MPRUD_TABLE_LEN \<and>
     0 \<le> tbl_next t \<and> tbl_next t < int MPRUD_TABLE_LEN"

lemma bump_ring_mod:
  "0 \<le> i \<Longrightarrow> i < int MPRUD_TABLE_LEN \<Longrightarrow> bump_ring i = (i + 1) mod int MPRUD_TABLE_LEN"
  by (auto simp: bump_ring_def MPRUD_TABLE_LEN_def)

lemma bump_ring_range:
  "0 \<le> i \<Longrightarrow> i < int MPRUD_TABLE_LEN \<Longrightarrow> 0 \<le> bump_ring i \<and> bump_ring i < int MPRUD_TABLE_LEN"
  by (auto simp: bump_ring_def MPRUD_TABLE_LEN_def)

lemma outstanding_nth: "j < ring_count t \<Longrightarrow> outstanding t ! j = tbl_wqe t (ring_slot t j)"
  by (simp add: outstanding_def)

lemma length_outstanding [simp]: "length (outstanding t) = ring_count t"
  by (simp add: outstanding_def)

lemma ring_slot_less: "ring_slot t j < MPRUD_TABLE_LEN"
  by (simp add: ring_slot_def MPRUD_TABLE_LEN_def)

lemma ring_count_less: "ring_count t < MPRUD_TABLE_LEN"
  by (simp add: ring_count_def MPRUD_TABLE_LEN_def nat_less_iff)

lemma next_slot:
  assumes "ring_ok t"
  shows "ring_slot t (ring_count t) = nat (tbl_next t)"
proof -
  have "int (ring_slot t (ring_count t)) =
      (tbl_head t + (tbl_next t - tbl_head t) mod int MPRUD_TABLE_LEN) mod int MPRUD_TABLE_LEN"
    using assms by (simp add: ring_slot_def ring_count_def ring_ok_def zmod_int MPRUD_TABLE_LEN_def)
  also have "\<dots> = tbl_next t mod int MPRUD_TABLE_LEN" by (simp add: mod_add_right_eq)
  also have "\<dots> = tbl_next t" using assms by (simp add: ring_ok_def)
  finally show ?thesis by simp
qed

lemma ring_slot_inj:
  "i < MPRUD_TABLE_LEN \<Longrightarrow> j < MPRUD_TABLE_LEN \<Longrightarrow> ring_slot t i = ring_slot t j \<longleftrightarrow> i = j"
  using add_mod_cancel [of "nat (tbl_head t)" i MPRUD_TABLE_LEN j]
  by (auto simp: ring_slot_def)

text \<open>The table as such a queue: what a post and a completion do to it.\<close>

definition table_push :: "mprud_wqe \<Rightarrow> wqe_table \<Rightarrow> wqe_table" where
  "table_push e t = t\<lparr>tbl_sqn := tbl_sqn t + 1, tbl_next := bump_ring (tbl_next t),
     tbl_wqe := (tbl_wqe t)(nat (tbl_next t) := e)\<rparr>"

definition table_pop :: "wqe_table \<Rightarrow> wqe_table" where
  "table_pop t = t\<lparr>tbl_wqe := (tbl_wqe t)(nat (tbl_head t) :=
       (tbl_wqe t (nat (tbl_head t)))\<lparr>wqe_valid := 0\<rparr>),
     tbl_head := bump_ring (tbl_head t)\<rparr>"

lemma table_push_simps [simp]:
  "tbl_head (table_push e t) = tbl_head t" "tbl_next (table_push e t) = bump_ring (tbl_next t)"
  by (simp_all add: table_push_def)

lemma table_pop_simps [simp]:
  "tbl_head (table_pop t) = bump_ring (tbl_head t)" "tbl_next (table_pop t) = tbl_next t"
  by (simp_all add: table_pop_def)

lemma ring_count_push:
  assumes "ring_ok t" and "ring_count t < MPRUD_TABLE_LEN - 1"
  shows "ring_count (table_push e t) = ring_count t + 1"
proof -
  have "(bump_ring (tbl_next t) - tbl_head t) mod int MPRUD_TABLE_LEN =
      ((tbl_next t - tbl_head t) mod int MPRUD_TABLE_LEN + 1) mod int MPRUD_TABLE_LEN"
    using assms(1) by (simp add: bump_ring_mod ring_ok_def mod_simps algebra_simps)
  also have "\<dots> = (tbl_next t - tbl_head t) mod int MPRUD_TABLE_LEN + 1"
    using assms(2) by (simp add: ring_count_def MPRUD_TABLE_LEN_def nat_less_iff)
  finally show ?thesis by (simp add: ring_count_def MPRUD_TABLE_LEN_def nat_add_distrib)
qed

lemma ring_count_pop:
  assumes "ring_ok t" and "0 < ring_count t"
  shows "ring_count (table_pop t) = ring_count t - 1"
proof -
  have "(tbl_next t - bump_ring (tbl_head t)) mod int MPRUD_TABLE_LEN =
      ((tbl_next t - tbl_head t) mod int MPRUD_TABLE_LEN - 1) mod int MPRUD_TABLE_LEN"
    using assms(1) by (simp add: bump_ring_mod ring_ok_def mod_simps algebra_simps)
  also have "\<dots> = (tbl_next t - tbl_head t) mod int MPRUD_TABLE_LEN - 1"
    using assms(2) by (simp add: ring_count_def MPRUD_TABLE_LEN_def)
  finally show ?thesis by (simp add: ring_count_def MPRUD_TABLE_LEN_def nat_diff_distrib)
qed

lemma outstanding_push:
  assumes ok: "ring_ok t" and room: "ring_count t < MPRUD_TABLE_LEN - 1"
  shows "outstanding (table_push e t) = outstanding t @ [e]"
proof (rule nth_equalityI)
  show "length (outstanding (table_push e t)) = length (outstanding t @ [e])"
    using ring_count_push [OF assms] by simp
next
  fix j
  assume "j < length (outstanding (table_push e t))"
  then have j: "j < ring_count t + 1" using ring_count_push [OF assms] by simp
  have slot: "ring_slot (table_push e t) i = ring_slot t i" for i by (simp add: ring_slot_def)
  have cell: "tbl_wqe (table_push e t) = (tbl_wqe t)(nat (tbl_next t) := e)"
    by (simp add: table_push_def)
  show "outstanding (table_push e t) ! j = (outstanding t @ [e]) ! j"
  proof (cases "j = ring_count t")
    case True
    with j ok show ?thesis
      by (simp add: outstanding_nth ring_count_push [OF assms] slot next_slot nth_append cell)
  next
    case False
    then have "ring_slot t j \<noteq> nat (tbl_next t)"
      using j room ring_slot_inj [of j "ring_count t" t] next_slot [OF ok] by simp
    with False j show ?thesis
      by (simp add: outstanding_nth ring_count_push [OF assms] slot nth_append cell)
  qed
qed

lemma outstanding_pop:
  assumes ok: "ring_ok t" and ne: "0 < ring_count t"
  shows "outstanding (table_pop t) = tl (outstanding t)"
proof (rule nth_equalityI)
  show "length (outstanding (table_pop t)) = length (tl (outstanding t))"
    using ring_count_pop [OF assms] by simp
next
  fix j
  assume "j < length (outstanding (table_pop t))"
  then have j: "j + 1 < ring_count t" using ring_count_pop [OF assms] by simp
  have "nat (bump_ring (tbl_head t)) = (nat (tbl_head t) + 1) mod MPRUD_TABLE_LEN"
    using ok by (simp add: bump_ring_mod ring_ok_def nat_mod_distrib nat_add_distrib MPRUD_TABLE_LEN_def)
  then have slot: "ring_slot (table_pop t) j = ring_slot t (j + 1)"
    by (simp add: ring_slot_def mod_add_left_eq mod_add_right_eq ac_simps)
  have "ring_slot t 0 = nat (tbl_head t)"
    using ok by (simp add: ring_slot_def ring_ok_def nat_less_iff)
  then have "ring_slot t (j + 1) \<noteq> nat (tbl_head t)"
    using j ring_count_less [of t] ring_slot_inj [of "j + 1" 0 t] by simp
  with j show "outstanding (table_pop t) ! j = tl (outstanding t) ! j"
    by (simp add: outstanding_nth nth_tl ring_count_pop [OF assms] slot)
       (simp add: table_pop_def)
qed

interpretation wr_fifo: bounded_fifo outstanding ring_ok "MPRUD_TABLE_LEN - 1" table_push table_pop
proof unfold_locales
  show "outstanding (table_push e t) = outstanding t @ [e]"
    if "ring_ok t" "length (outstanding t) < MPRUD_TABLE_LEN - 1" for e t
    using that by (simp add: outstanding_push)
  show "outstanding (table_pop t) = tl (outstanding t)"
    if "ring_ok t" "outstanding t \<noteq> []" for t
    using that by (simp add: outstanding_pop flip: length_greater_0_conv)
  show "ring_ok (table_push e t)" if "ring_ok t" for e t
    using that bump_ring_range by (simp add: ring_ok_def)
  show "ring_ok (table_pop t)" if "ring_ok t" for t
    using that bump_ring_range by (simp add: ring_ok_def)
qed

subsection \<open>Posts push, completions pop\<close>

text \<open>The entry a post leaves in the slot at \<^verbatim>\<open>next\<close>, which held \<open>old\<close>.\<close>

definition new_entry :: "ibv_send_wr option \<Rightarrow> ibv_recv_wr option \<Rightarrow> int \<Rightarrow> int \<Rightarrow> int \<Rightarrow>
    'w mprud_state \<Rightarrow> mprud_wqe" where
  "new_entry swr rwr iter each lst s =
    (let old = wqe s (nat (tbl_next (table (mpctx s))))
     in old\<lparr>wqe_id := tbl_sqn (table (mpctx s)),
          wqe_swr := (case swr of None \<Rightarrow> wqe_swr old | Some w \<Rightarrow> w),
          wqe_rwr := (case rwr of None \<Rightarrow> wqe_rwr old | Some w \<Rightarrow> w),
          avg_size_per_pkt := (case rwr of None \<Rightarrow> avg_size_per_pkt old
             | Some w \<Rightarrow> sint (sge_length (the (rwr_sg_list w)) div word_of_int iter)),
          wqe_chnk_last := lst, wqe_valid := 1, start_idx := post_turn (mpctx s),
          iter_each := (\<lambda>i. if i < nat (active_num (mp_manager s)) then each else 0)\<rparr>)"

lemma same_sg [simp]:
  "swr_sg_list v = Some sg \<Longrightarrow> v\<lparr>swr_sg_list := Some sg\<rparr> = v"
  "rwr_sg_list w = Some sg \<Longrightarrow> w\<lparr>rwr_sg_list := Some sg\<rparr> = w"
  by (cases v; simp) (cases w; simp)

lemma mprud_store_wr_cases:
  assumes "mprud_store_wr swr rwr iter each lst s = ret s'"
  shows "index MPRUD_TABLE_LEN (tbl_next (table (mpctx s))) = ret (nat (tbl_next (table (mpctx s))))"
    and "active_num (mp_manager s) \<le> int MPRUD_NUM_PATH"
    and "swr = Some v \<Longrightarrow> swr_sg_list v \<noteq> None"
    and "rwr = Some w \<Longrightarrow> rwr_sg_list w \<noteq> None \<and> word_of_int iter \<noteq> (0 :: u32)"
proof -
  from assms obtain k where k: "index MPRUD_TABLE_LEN (tbl_next (table (mpctx s))) = ret k"
    unfolding mprud_store_wr_def bindC_eq_ret by blast
  then show "index MPRUD_TABLE_LEN (tbl_next (table (mpctx s))) = ret (nat (tbl_next (table (mpctx s))))"
    by simp
  from assms k show "active_num (mp_manager s) \<le> int MPRUD_NUM_PATH"
    by (cases swr; cases rwr)
      (auto simp: mprud_store_wr_def Let_def bindC_eq_ret active_paths_def split: if_splits)
  from assms k show "swr_sg_list v \<noteq> None" if "swr = Some v"
    using that by (auto simp: mprud_store_wr_def Let_def bindC_eq_ret)
  from assms k show "rwr_sg_list w \<noteq> None \<and> word_of_int iter \<noteq> (0 :: u32)" if "rwr = Some w"
    using that by (cases swr) (auto simp: mprud_store_wr_def Let_def bindC_eq_ret split: if_splits)
qed

lemma mprud_store_wr_eq_ret:
  assumes "mprud_store_wr swr rwr iter each lst s = ret s'"
  shows "s' = upd_table (table_push (new_entry swr rwr iter each lst s)) s"
proof -
  note c = mprud_store_wr_cases [OF assms]
  define k where "k = nat (tbl_next (table (mpctx s)))"
  show ?thesis
  proof (cases swr)
    case swr: None
    show ?thesis
    proof (cases rwr)
      case None
      with assms c(1,2) swr show ?thesis
        by (simp add: mprud_store_wr_def Let_def active_paths_def new_entry_def table_push_def)
    next
      case (Some w)
      with c(4) obtain sg where "rwr_sg_list w = Some sg" by auto
      with assms c(1,2,4) swr Some show ?thesis
        by (simp add: mprud_store_wr_def Let_def active_paths_def new_entry_def table_push_def)
    qed
  next
    case swr: (Some v)
    with c(3) obtain sg where "swr_sg_list v = Some sg" by auto
    note swr = swr this
    show ?thesis
    proof (cases rwr)
      case None
      with assms c(1,2) swr show ?thesis
        by (simp add: mprud_store_wr_def Let_def active_paths_def new_entry_def table_push_def)
    next
      case (Some w)
      with c(4) obtain sg' where "rwr_sg_list w = Some sg'" by auto
      with assms c(1,2,4) swr Some show ?thesis
        by (simp add: mprud_store_wr_def Let_def active_paths_def new_entry_def table_push_def)
    qed
  qed
qed

lemma mprud_get_outer_poll_cases:
  assumes "mprud_get_outer_poll Iam s = ret (c, s')"
  shows "c = 0 \<and> s' = s \<or> c = 1 \<and> table (mpctx s') = table_pop (table (mpctx s))"
  using assms
  by (auto simp: mprud_get_outer_poll_def bindC_eq_ret table_pop_def Let_def split: if_splits)

lemma ring_ok_zero [simp]: "ring_ok zero_table" "ring_count zero_table = 0"
  by (simp_all add: ring_ok_def ring_count_def zero_table_def MPRUD_TABLE_LEN_def)

subsection \<open>Sample states\<close>

text \<open>States with \<open>k\<close> requests of one packet per path outstanding.\<close>

definition sample_state :: "int \<Rightarrow> unit mprud_state" where
  "sample_state k = (ready_state (\<lambda>_. 0) ())\<lparr>mpctx := (mpctx (ready_state (\<lambda>_. 0) ()))\<lparr>table := zero_table\<lparr>tbl_next := k,
     tbl_wqe := (\<lambda>_. zero_wqe\<lparr>iter_each := (\<lambda>_. 1)\<rparr>)\<rparr>\<rparr>\<rparr>"

lemma sample_state_simps [simp]:
  "table (mpctx (sample_state k)) = zero_table\<lparr>tbl_next := k, tbl_wqe := (\<lambda>_. zero_wqe\<lparr>iter_each := (\<lambda>_. 1)\<rparr>)\<rparr>"
  "active_num (mp_manager (sample_state k)) = 4"
  "qp_stat (mpctx (sample_state k)) = (\<lambda>_. zero_qp_status)"
  "post_turn (mpctx (sample_state k)) = 0"
  by (simp_all add: sample_state_def)

lemma sample_store:
  "0 \<le> k \<Longrightarrow> k < 1000 \<Longrightarrow> \<exists>s'. mprud_store_wr (Some sample_swr) None 4 1 4096 (sample_state k) = ret s'"
  by (auto simp: mprud_store_wr_def sample_swr_def active_paths_def Let_def MPRUD_NUM_PATH_def
      MPRUD_TABLE_LEN_def zero_table_def index_def)

lemma sample_ring:
  "0 \<le> k \<Longrightarrow> k < 1000 \<Longrightarrow> ring_ok (table (mpctx (sample_state k)))
    \<and> length (outstanding (table (mpctx (sample_state k)))) = nat k"
  by (simp add: ring_ok_def ring_count_def zero_table_def MPRUD_TABLE_LEN_def)

subsection \<open>Properties\<close>

text \<open>
  A run of the layer as the table sees it: successful posts, polls of the application's queue
  that complete a request, polls that complete none, and steps that leave the table alone.
\<close>

inductive wr_run :: "role \<Rightarrow> 'w mprud_state \<Rightarrow> mprud_wqe fifo_op list \<Rightarrow> 'w mprud_state \<Rightarrow> bool"
  for Iam :: role where
  wr_run_done: "wr_run Iam s [] s"
| wr_run_post: "wr_run Iam s (Push (new_entry swr rwr iter each lst s) # xs) s2"
    if "mprud_store_wr swr rwr iter each lst s = ret s1" and "wr_run Iam s1 xs s2"
| wr_run_complete: "wr_run Iam s (Pop # xs) s2"
    if "mprud_get_outer_poll Iam s = ret (1, s1)" and "wr_run Iam s1 xs s2"
| wr_run_wait: "wr_run Iam s xs s2"
    if "mprud_get_outer_poll Iam s = ret (0, s1)" and "wr_run Iam s1 xs s2"
| wr_run_other: "wr_run Iam s xs s2"
    if "table (mpctx s1) = table (mpctx s)" and "wr_run Iam s1 xs s2"

lemma wr_run_refines:
  "wr_run Iam s xs s' \<Longrightarrow> table (mpctx s') = fifo_run table_push table_pop xs (table (mpctx s))"
  by (induction rule: wr_run.induct)
    (auto dest!: mprud_store_wr_eq_ret mprud_get_outer_poll_cases)

lemma wr_run_push_pop:
  assumes "mprud_store_wr swr rwr iter each lst s = ret s1"
    and "mprud_get_outer_poll Iam s1 = ret (c, s2)"
  shows "wr_run Iam s (Push (new_entry swr rwr iter each lst s) # (if c = 0 then [] else [Pop])) s2"
  using mprud_get_outer_poll_cases [OF assms(2)] assms
  by (auto intro!: wr_run_post [OF assms(1)] intro: wr_run_done wr_run_complete wr_run_wait)

text \<open>
  C5: the table of outstanding requests is a first-in first-out queue: after any run of posts
  and completions that never posts into a full table and never completes an empty one, the
  outstanding requests are the earlier ones followed by the posted ones, less as many from
  the front as were completed, across any number of wrap-arounds of the ring.
\<close>

theorem wr_table_fifo:
  assumes "wr_run Iam s xs s'" and "ring_ok (table (mpctx s))"
    and "fifo_legal (MPRUD_TABLE_LEN - 1) (length (outstanding (table (mpctx s)))) xs"
  shows "outstanding (table (mpctx s')) = drop (pops xs) (outstanding (table (mpctx s)) @ pushed xs)"
  using wr_run_refines [OF assms(1)] wr_fifo.run_content [OF assms(2,3)] by simp

theorem wr_table_fifo_witness:
  "\<exists>s1 c s2. mprud_store_wr (Some sample_swr) None 4 1 4096 (sample_state 2) = ret s1
    \<and> mprud_get_outer_poll MP_CLIENT s1 = ret (c, s2) \<and> c = 0
    \<and> outstanding (table (mpctx s2)) = outstanding (table (mpctx (sample_state 2)))
        @ [new_entry (Some sample_swr) None 4 1 4096 (sample_state 2)]"
proof -
  let ?e = "new_entry (Some sample_swr) None 4 1 4096 (sample_state 2)"
  obtain s1 where s1: "mprud_store_wr (Some sample_swr) None 4 1 4096 (sample_state 2) = ret s1"
    using sample_store [of 2] by auto
  note s1_eq = mprud_store_wr_eq_ret [OF s1]
  have "mprud_get_outer_poll MP_CLIENT s1 = ret (0, s1)"
    unfolding s1_eq
    by (auto simp: mprud_get_outer_poll_def index_def active_paths_def comp_ready_def table_push_def
        zero_table_def MPRUD_TABLE_LEN_def MPRUD_NUM_PATH_def polled_cnt_def zero_qp_status_def
        zero_pkt_count_def list_all_iff intro!: exI [of _ 0])
  moreover from this have "wr_run MP_CLIENT (sample_state 2) [Push ?e] s1"
    using wr_run_push_pop [OF s1] by fastforce
  then have "outstanding (table (mpctx s1)) = outstanding (table (mpctx (sample_state 2))) @ [?e]"
    using wr_table_fifo [of MP_CLIENT "sample_state 2" "[Push ?e]" s1] sample_ring [of 2]
    by (simp add: pops_def MPRUD_TABLE_LEN_def)
  ultimately show ?thesis using s1 by blast
qed

text \<open>
  A post that returns appends exactly one entry, the one \<^verbatim>\<open>mprud_store_wr\<close> filled
  in for it, to the outstanding requests and keeps the ring indices in range, as long as
  fewer than 999 requests are outstanding; nothing else of the state changes.
\<close>

lemma store_wr_appends:
  assumes "mprud_store_wr swr rwr iter each lst s = ret s'"
    and "ring_ok (table (mpctx s))" and "length (outstanding (table (mpctx s))) < 999"
  shows "outstanding (table (mpctx s')) =
      outstanding (table (mpctx s)) @ [new_entry swr rwr iter each lst s]
    \<and> ring_ok (table (mpctx s'))
    \<and> s' = s\<lparr>mpctx := (mpctx s)\<lparr>table := table (mpctx s')\<rparr>\<rparr>"
proof -
  have "s' = upd_table (table_push (new_entry swr rwr iter each lst s)) s"
    using assms(1) by (rule mprud_store_wr_eq_ret)
  with assms(2,3) show ?thesis
    by (simp add: wr_fifo.push_content wr_fifo.push_ok MPRUD_TABLE_LEN_def)
qed

lemma store_wr_appends_witness:
  "\<exists>s'. mprud_store_wr (Some sample_swr) None 4 1 4096 (sample_state 2) = ret s'
    \<and> outstanding (table (mpctx s')) = outstanding (table (mpctx (sample_state 2)))
        @ [new_entry (Some sample_swr) None 4 1 4096 (sample_state 2)]"
  using store_wr_appends [of "Some sample_swr" None 4 1 4096 "sample_state 2"]
    sample_store [of 2] sample_ring [of 2] by auto

text \<open>
  C10: a poll of the application's queue completes exactly the oldest outstanding request, and
  only when every active path has polled the packets that request needs; it then takes that
  number from the path's count and touches no other path. Otherwise it changes nothing.
\<close>

theorem get_outer_poll_oldest:
  assumes "ring_ok (table (mpctx s))" and "outstanding (table (mpctx s)) = e # rest"
    and "0 \<le> active_num (mp_manager s)" and "active_num (mp_manager s) \<le> int MPRUD_NUM_PATH"
  shows "let n = nat (active_num (mp_manager s));
             enough = (\<forall>i<n. word_of_int (iter_each e i) \<le> pkt (polled_cnt Iam (stat s i)))
         in if enough
            then \<exists>s'. mprud_get_outer_poll Iam s = ret (1, s')
               \<and> outstanding (table (mpctx s')) = rest \<and> ring_ok (table (mpctx s'))
               \<and> (\<forall>i<n. pkt (polled_cnt Iam (stat s' i)) =
                     pkt (polled_cnt Iam (stat s i)) - word_of_int (iter_each e i))
               \<and> (\<forall>i\<ge>n. stat s' i = stat s i)
            else mprud_get_outer_poll Iam s = ret (0, s)"
proof -
  let ?t = "table (mpctx s)"
  define n where "n = nat (active_num (mp_manager s))"
  have cnt: "0 < ring_count ?t" using assms(2) by (metis length_outstanding length_greater_0_conv list.distinct(1))
  have slot: "ring_slot ?t 0 = nat (tbl_head ?t)"
    using assms(1) by (simp add: ring_slot_def ring_ok_def nat_less_iff)
  have e: "wqe s (nat (tbl_head ?t)) = e"
    using outstanding_nth [OF cnt] assms(2) slot by simp
  have idx: "index MPRUD_TABLE_LEN (tbl_head ?t) = ret (nat (tbl_head ?t))"
    using assms(1) by (simp add: ring_ok_def)
  have act: "active_paths s = ret n" using assms(4) by (simp add: active_paths_def n_def)
  have ready: "comp_ready Iam n (nat (tbl_head ?t)) s \<longleftrightarrow>
      (\<forall>i<n. word_of_int (iter_each e i) \<le> pkt (polled_cnt Iam (stat s i)))"
    by (auto simp: comp_ready_def list_all_iff e not_less)
  show ?thesis
  proof (cases "comp_ready Iam n (nat (tbl_head ?t)) s")
    case True
    then obtain s' where s': "mprud_get_outer_poll Iam s = ret (1, s')"
      "table (mpctx s') = table_pop ?t"
      "qp_stat (mpctx s') = (\<lambda>i. if i < n then upd_polled Iam (\<lambda>p. p\<lparr>pkt := pkt p - word_of_int (iter_each e i)\<rparr>)
         (stat s i) else stat s i)"
      by (simp add: mprud_get_outer_poll_def idx act Let_def table_pop_def e cong: if_cong)
    moreover have "outstanding (table_pop ?t) = rest" "ring_ok (table_pop ?t)"
      using assms(1,2) by (simp_all add: wr_fifo.pop_content wr_fifo.pop_ok)
    ultimately show ?thesis
      using True ready by (cases Iam) (auto simp: Let_def polled_cnt_def upd_polled_def simp flip: n_def)
  next
    case False
    then have "mprud_get_outer_poll Iam s = ret (0, s)"
      by (simp add: mprud_get_outer_poll_def idx act)
    moreover have "\<not> (\<forall>i<n. word_of_int (iter_each e i) \<le> pkt (polled_cnt Iam (stat s i)))"
      using False ready by simp
    ultimately show ?thesis by (simp only: Let_def if_False flip: n_def)
  qed
qed

theorem get_outer_poll_oldest_witness:
  "mprud_get_outer_poll MP_CLIENT (sample_state 1) = ret (0, sample_state 1)"
proof -
  let ?e = "zero_wqe\<lparr>iter_each := (\<lambda>_. 1)\<rparr>"
  have out: "outstanding (table (mpctx (sample_state 1))) = [?e]"
    by (simp add: outstanding_def ring_count_def ring_slot_def zero_table_def MPRUD_TABLE_LEN_def)
  have "\<not> (\<forall>i<nat (active_num (mp_manager (sample_state 1))).
      word_of_int (iter_each ?e i) \<le> pkt (polled_cnt MP_CLIENT (stat (sample_state 1) i)))"
    by (auto simp: polled_cnt_def zero_qp_status_def zero_pkt_count_def intro!: exI [of _ 0])
  then show ?thesis
    using get_outer_poll_oldest [of "sample_state 1" ?e "[]" MP_CLIENT] sample_ring [of 1] out
    by (simp only: Let_def if_False) (simp add: MPRUD_NUM_PATH_def)
qed

text \<open>
  The ring has no test for a full table. When 999 requests are outstanding, the next
  successful post makes the table look empty: all outstanding requests are forgotten.
\<close>

lemma store_wr_full_table:
  assumes "mprud_store_wr swr rwr iter each lst s = ret s'"
    and "ring_ok (table (mpctx s))" and "length (outstanding (table (mpctx s))) = 999"
  shows "outstanding (table (mpctx s')) = []"
proof -
  let ?t = "table (mpctx s)"
  have "(bump_ring (tbl_next ?t) - tbl_head ?t) mod int MPRUD_TABLE_LEN =
      ((tbl_next ?t - tbl_head ?t) mod int MPRUD_TABLE_LEN + 1) mod int MPRUD_TABLE_LEN"
    using assms(2) by (simp add: bump_ring_mod ring_ok_def mod_simps algebra_simps)
  moreover have "(tbl_next ?t - tbl_head ?t) mod int MPRUD_TABLE_LEN = 999"
    using assms(3) by (simp add: ring_count_def MPRUD_TABLE_LEN_def)
  ultimately have "ring_count (table_push e ?t) = 0" for e
    by (simp add: ring_count_def MPRUD_TABLE_LEN_def)
  moreover have "s' = upd_table (table_push (new_entry swr rwr iter each lst s)) s"
    using assms(1) by (rule mprud_store_wr_eq_ret)
  ultimately show ?thesis by (simp add: outstanding_def)
qed

lemma store_wr_full_table_witness:
  "\<exists>s'. mprud_store_wr (Some sample_swr) None 4 1 4096 (sample_state 999) = ret s'
    \<and> length (outstanding (table (mpctx (sample_state 999)))) = 999 \<and> outstanding (table (mpctx s')) = []"
  using store_wr_full_table [of "Some sample_swr" None 4 1 4096 "sample_state 999"]
    sample_store [of 999] sample_ring [of 999] by auto

text \<open>
  With nothing outstanding the code does not look at \<^verbatim>\<open>valid\<close>: a slot that asks for
  no packets is completed, and the ring runs past \<^verbatim>\<open>next\<close>.
\<close>

lemma get_outer_poll_empty:
  assumes "ring_ok (table (mpctx s))" and "active_num (mp_manager s) \<le> int MPRUD_NUM_PATH"
    and "\<forall>i < nat (active_num (mp_manager s)). iter_each (wqe s (nat (tbl_head (table (mpctx s))))) i = 0"
  shows "\<exists>s'. mprud_get_outer_poll Iam s = ret (1, s')
    \<and> table (mpctx s') = table_pop (table (mpctx s)) \<and> mp_manager s' = mp_manager s"
proof -
  have idx: "index MPRUD_TABLE_LEN (tbl_head (table (mpctx s))) = ret (nat (tbl_head (table (mpctx s))))"
    using assms(1) by (simp add: ring_ok_def)
  have act: "active_paths s = ret (nat (active_num (mp_manager s)))"
    using assms(2) by (simp add: active_paths_def)
  have "comp_ready Iam (nat (active_num (mp_manager s))) (nat (tbl_head (table (mpctx s)))) s"
    using assms(3) by (simp add: comp_ready_def list_all_iff)
  then show ?thesis by (simp add: mprud_get_outer_poll_def idx act Let_def table_pop_def)
qed

end
