(* ===== verification/Mprud_Poll.thy ===== *)
theory Mprud_Poll
  imports Mprud_Init
begin

section \<open>Polling the inner queues\<close>

text \<open>
  \<^verbatim>\<open>mprud_inner_poll\<close>, \<^verbatim>\<open>mprud_recovery_poll\<close> and \<^verbatim>\<open>mprud_poll_report\<close>
  of \<^verbatim>\<open>mprud.c\<close>. An inner poll asks one path, in turn, for one completion and
  advances that path's position in the table; a recovery poll does the same for the packets
  sent again over the report queue pair. Loops that wait for the device are
  \<open>None\<close> when the wait never ends. The loops that print
  completion statuses read as many entries of a one-element array as the poll returned,
  so they fault when it returned more.
\<close>

subsection \<open>Device polls\<close>

definition poll_device :: "'w env \<Rightarrow> nat option \<Rightarrow> nat \<Rightarrow> 'w mprud_state \<Rightarrow>
    (int \<times> 'w mprud_state) outcome" where
  "poll_device ops cq n s =
    bindC (deref cq) (\<lambda>c.
    case poll_cq_op ops c n (memory s) (world s) of (r, m, w) \<Rightarrow>
      ret (r, s\<lparr>memory := m, world := w\<rparr>))"

definition poll_blocking ::
  "'w env \<Rightarrow> nat option \<Rightarrow> 'w mprud_state \<Rightarrow> (int \<times> 'w mprud_state) outcome" where
  "poll_blocking ops cq = loop (\<lambda>s.
    bindC (poll_device ops cq 1 s) (\<lambda>(ne, s').
    ret (if ne = 0 then Next s' else Return (ne, s'))))"

definition mprud_poll_report :: "'w env \<Rightarrow> nat option \<Rightarrow> bool \<Rightarrow> 'w mprud_state \<Rightarrow>
    (int \<times> 'w mprud_state) outcome" where
  "mprud_poll_report ops cq is_blocking s =
    (if is_blocking then poll_blocking ops cq s else poll_device ops cq 1 s)"

subsection \<open>The inner poll\<close>

definition tot_posted :: "role \<Rightarrow> mprud_context \<Rightarrow> u64" where
  "tot_posted Iam c = (case Iam of MP_SERVER \<Rightarrow> tot_rposted c | MP_CLIENT \<Rightarrow> tot_sposted c)"

definition tot_polled :: "role \<Rightarrow> mprud_context \<Rightarrow> u64" where
  "tot_polled Iam c = (case Iam of MP_SERVER \<Rightarrow> tot_rpolled c | MP_CLIENT \<Rightarrow> tot_spolled c)"

definition add_tot_polled :: "role \<Rightarrow> u32 \<Rightarrow> mprud_context \<Rightarrow> mprud_context" where
  "add_tot_polled Iam n c = (case Iam of
     MP_SERVER \<Rightarrow> c\<lparr>tot_rpolled := tot_rpolled c + ucast n\<rparr>
   | MP_CLIENT \<Rightarrow> c\<lparr>tot_spolled := tot_spolled c + ucast n\<rparr>)"

definition count_polled :: "role \<Rightarrow> u32 \<Rightarrow> int \<Rightarrow> qp_status \<Rightarrow> qp_status" where
  "count_polled Iam n avg q =
    (let bump = (\<lambda>p. p\<lparr>pkt := pkt p + ucast n, tot_pkt := tot_pkt p + ucast n\<rparr>);
         q1 = (case Iam of
             MP_SERVER \<Rightarrow> q\<lparr>polled_rcnt := bump (polled_rcnt q),
               recv_msg_size := recv_msg_size q + word_of_int avg\<rparr>
           | MP_CLIENT \<Rightarrow> q\<lparr>polled_scnt := bump (polled_scnt q)\<rparr>)
     in q1\<lparr>comp_temp := comp_temp q1 + ucast n, qlen := sint (word_of_int (qlen q1) - n)\<rparr>)"

text \<open>Copying the last packet of a chunk, on the server, when the chunk is complete.\<close>

definition copy_last_packet :: "nat \<Rightarrow> mprud_wqe \<Rightarrow> 'w mprud_state \<Rightarrow> 'w mprud_state outcome" where
  "copy_last_packet turn e s =
    bindC (deref (rwr_sg_list (wqe_rwr e))) (\<lambda>sg.
    let dst = sge_addr sg + ucast ((sge_length sg div word_of_int (active_num (mp_manager s))) * of_nat turn);
        src = buf_recv (bufs (mpctx s)) + of_nat MPRUD_GRH_SIZE
              + of_nat ((MPRUD_GRH_SIZE + MPRUD_DEFAULT_MTU) * turn)
    in ret (s\<lparr>memory := memcpy (memory s) dst src (unat (word_of_int (wqe_chnk_last e) :: u64))\<rparr>))"

definition bump_wqe_idx :: "u32 \<Rightarrow> u32" where
  "bump_wqe_idx i = (if i + 1 = of_nat MPRUD_TABLE_LEN then 0 else i + 1)"

definition finish_chunk :: "role \<Rightarrow> nat \<Rightarrow> mprud_wqe \<Rightarrow> 'w mprud_state \<Rightarrow> 'w mprud_state outcome" where
  "finish_chunk Iam i e s =
    (if comp_temp (stat s i) = word_of_int (iter_each e i) then
       bindC (case Iam of MP_SERVER \<Rightarrow> copy_last_packet i e s | MP_CLIENT \<Rightarrow> ret s) (\<lambda>s1.
       ret (upd_stat i (\<lambda>q. q\<lparr>comp_temp := 0, wqe_idx := bump_wqe_idx (wqe_idx q)\<rparr>) s1))
     else ret s)"

definition inner_polled :: "role \<Rightarrow> nat \<Rightarrow> u32 \<Rightarrow> 'w mprud_state \<Rightarrow> (int \<times> 'w mprud_state) outcome" where
  "inner_polled Iam i now_polled s =
    bindC (index MPRUD_TABLE_LEN (uint (wqe_idx (stat s i)))) (\<lambda>k.
    let e = wqe s k;
        s1 = upd_stat i (count_polled Iam now_polled (avg_size_per_pkt e)) s;
        s2 = upd_ctx (add_tot_polled Iam now_polled) s1
    in bindC (finish_chunk Iam i e s2) (\<lambda>s3.
    if 1 < now_polled then raise OutOfBounds else ret (SUCCESS, s3)))"

definition mprud_inner_poll :: "'w env \<Rightarrow> role \<Rightarrow> 'w mprud_state \<Rightarrow> (int \<times> 'w mprud_state) outcome" where
  "mprud_inner_poll ops Iam s =
    bindC (c_rem (poll_turn (mpctx s)) (active_num (mp_manager s))) (\<lambda>turn.
    if tot_posted Iam (mpctx s) - tot_polled Iam (mpctx s) \<noteq> 0 then
      bindC (index MPRUD_NUM_PATH turn) (\<lambda>i.
      bindC (deref (inner_qps (mpctx s) i)) (\<lambda>qp.
      bindC (poll_device ops (case Iam of MP_SERVER \<Rightarrow> qp_recv_cq qp | MP_CLIENT \<Rightarrow> qp_send_cq qp) 1 s)
        (\<lambda>(r, s1).
      let now_polled = word_of_int r :: u32 in
      bindC (c_rem (poll_turn (mpctx s1) + 1) (active_num (mp_manager s))) (\<lambda>next_turn.
      let s2 = upd_ctx (\<lambda>c. c\<lparr>poll_turn := next_turn\<rparr>) s1 in
      if now_polled \<noteq> 0 then inner_polled Iam i now_polled s2
      else if now_polled < 0 then ret (FAILURE, s2) else ret (SUCCESS, s2)))))
    else ret (SUCCESS, s))"

subsection \<open>The recovery poll\<close>

definition recovery_done_wqe :: "role \<Rightarrow> nat \<Rightarrow> int \<Rightarrow> 'w mprud_state \<Rightarrow> 'w mprud_state outcome" where
  "recovery_done_wqe Iam cur errq s =
    (case Iam of MP_CLIENT \<Rightarrow> ret s
     | MP_SERVER \<Rightarrow>
       bindC (index MPRUD_NUM_PATH errq) (\<lambda>q.
       let s1 = upd_wqe cur (\<lambda>e. e\<lparr>iter_each := (iter_each e)(q := 0)\<rparr>) s;
           n = active_num (mp_manager s) - 1
       in if int MPRUD_NUM_PATH + 1 < n then raise OutOfBounds
          else ret (upd_ctx (\<lambda>c. c\<lparr>qp_stat := (\<lambda>i. if int i < n
            then (qp_stat c i)\<lparr>recv_msg_size := recv_msg_size (qp_stat c i)
                   + word_of_int (avg_size_per_pkt (wqe s1 cur) sdiv n)\<rparr>
            else qp_stat c i)\<rparr>) s1)))"

definition recovery_complete ::
  "role \<Rightarrow> nat \<Rightarrow> int \<Rightarrow> u64 \<Rightarrow> 'w mprud_state \<Rightarrow> 'w mprud_state outcome" where
  "recovery_complete Iam cur errq need = loop (\<lambda>s.
     if need \<le> recovery_polled_pkt (stat s MPRUD_NUM_PATH) then
       let s1 = upd_stat MPRUD_NUM_PATH
             (\<lambda>q. q\<lparr>recovery_polled_pkt := recovery_polled_pkt q - need\<rparr>) s;
           s2 = upd_mgr (\<lambda>m. m\<lparr>recovery_cur_poll_wqe := recovery_cur_poll_wqe m + 1\<rparr>) s1
       in bindC (recovery_done_wqe Iam cur errq s2) (\<lambda>s3. ret (Next s3))
     else ret (Return s))"

definition mprud_recovery_poll :: "'w env \<Rightarrow> role \<Rightarrow> 'w mprud_state \<Rightarrow> (int \<times> 'w mprud_state) outcome" where
  "mprud_recovery_poll ops Iam s =
    (if tot_recovery_posted (mpctx s) - tot_recovery_polled (mpctx s) \<noteq> 0 then
      bindC (deref (report_qp (mp_manager s))) (\<lambda>qp.
      bindC (poll_device ops (case Iam of MP_SERVER \<Rightarrow> qp_recv_cq qp | MP_CLIENT \<Rightarrow> qp_send_cq qp) 1 s)
        (\<lambda>(r, s1).
      let now_polled = word_of_int r :: u32 in
      if now_polled \<noteq> 0 then
        let s2 = upd_stat MPRUD_NUM_PATH (\<lambda>q. q\<lparr>recovery_polled_pkt := recovery_polled_pkt q + ucast now_polled\<rparr>) s1;
            s3 = upd_ctx (\<lambda>c. c\<lparr>tot_recovery_polled := tot_recovery_polled c + ucast now_polled\<rparr>) s2
        in bindC (index MPRUD_TABLE_LEN (recovery_cur_poll_wqe (mp_manager s3))) (\<lambda>cur.
           bindC (recovery_complete Iam cur (sint (errqpn (msg (mp_manager s3))))
             (word_of_int (comp_need (wqe s3 cur))) s3) (\<lambda>s4.
           if 1 < now_polled then raise OutOfBounds else ret (SUCCESS, s4)))
      else ret (SUCCESS, s1)))
    else ret (SUCCESS, s))"

subsection \<open>What one inner poll does\<close>

text \<open>The position of a path in the table: the entry it works on and the packets it has of it.\<close>

definition path_pos :: "qp_status \<Rightarrow> nat \<times> nat" where
  "path_pos q = (unat (wqe_idx q), unat (comp_temp q))"

definition path_advance :: "(nat \<Rightarrow> nat) \<Rightarrow> nat \<times> nat \<Rightarrow> nat \<times> nat" where
  "path_advance need p = (case p of (k, c) \<Rightarrow>
     if c + 1 = need k then ((k + 1) mod MPRUD_TABLE_LEN, 0) else (k, c + 1))"

lemma poll_device_eq_ret:
  "poll_device ops cq n s = ret (r, s') \<longleftrightarrow>
    (\<exists>c m w. cq = Some c \<and> poll_cq_op ops c n (memory s) (world s) = (r, m, w)
       \<and> s' = s\<lparr>memory := m, world := w\<rparr>)"
  by (cases cq) (auto simp: poll_device_def split: prod.splits)

lemma copy_last_packet_eq_ret:
  "copy_last_packet i e s = ret s' \<Longrightarrow>
    mpctx s' = mpctx s \<and> mp_manager s' = mp_manager s \<and> world s' = world s"
  by (auto simp: copy_last_packet_def bindC_eq_ret Let_def)

lemma finish_chunk_eq_ret:
  assumes "finish_chunk Iam i e s = ret s'"
  shows "mp_manager s' = mp_manager s \<and> world s' = world s \<and>
    mpctx s' = (if comp_temp (stat s i) = word_of_int (iter_each e i)
      then (mpctx s)\<lparr>qp_stat := (qp_stat (mpctx s))(i :=
        (stat s i)\<lparr>comp_temp := 0, wqe_idx := bump_wqe_idx (wqe_idx (stat s i))\<rparr>)\<rparr>
      else mpctx s)"
  using assms
  by (cases Iam) (auto simp: finish_chunk_def bindC_eq_ret dest!: copy_last_packet_eq_ret split: if_splits)

lemma inner_polled_eq_ret:
  assumes "inner_polled Iam i n s = ret (r, s')"
  defines "e \<equiv> wqe s (unat (wqe_idx (stat s i)))"
  defines "q \<equiv> count_polled Iam n (avg_size_per_pkt e) (stat s i)"
  shows "r = SUCCESS \<and> n \<le> 1 \<and> unat (wqe_idx (stat s i)) < MPRUD_TABLE_LEN
    \<and> mp_manager s' = mp_manager s \<and> world s' = world s
    \<and> mpctx s' = add_tot_polled Iam n ((mpctx s)\<lparr>qp_stat := (qp_stat (mpctx s))(i :=
        (if comp_temp q = word_of_int (iter_each e i)
         then q\<lparr>comp_temp := 0, wqe_idx := bump_wqe_idx (wqe_idx q)\<rparr> else q))\<rparr>)"
  using assms
  by (cases Iam) (auto simp: inner_polled_def bindC_eq_ret Let_def add_tot_polled_def uint_less_int
      dest!: finish_chunk_eq_ret split: if_splits)

text \<open>The three ways an inner poll returns: nothing outstanding, nothing polled, one packet.\<close>

lemma mprud_inner_poll_cases:
  assumes "mprud_inner_poll ops Iam s = ret (r, s')"
  obtains (idle) "tot_posted Iam (mpctx s) = tot_polled Iam (mpctx s)" "s' = s" "r = SUCCESS"
  | (polled) i qp c k m w where
      "tot_posted Iam (mpctx s) \<noteq> tot_polled Iam (mpctx s)" "r = SUCCESS"
      "active_num (mp_manager s) \<noteq> 0"
      "int i = poll_turn (mpctx s) smod active_num (mp_manager s)" "i < MPRUD_NUM_PATH"
      "inner_qps (mpctx s) i = Some qp"
      "(case Iam of MP_SERVER \<Rightarrow> qp_recv_cq qp | MP_CLIENT \<Rightarrow> qp_send_cq qp) = Some c"
      "poll_cq_op ops c 1 (memory s) (world s) = (k, m, w)"
      "let s2 = s\<lparr>memory := m, world := w, mpctx := (mpctx s)\<lparr>poll_turn :=
           (poll_turn (mpctx s) + 1) smod active_num (mp_manager s)\<rparr>\<rparr>
       in if word_of_int k = (0 :: u32) then s' = s2
          else inner_polled Iam i (word_of_int k) s2 = ret (r, s')"
proof (cases "tot_posted Iam (mpctx s) = tot_polled Iam (mpctx s)")
  case True
  with assms have "s' = s" "r = SUCCESS"
    by (auto simp: mprud_inner_poll_def bindC_eq_ret)
  with True show ?thesis by (rule idle)
next
  case False
  from assms obtain turn i where t: "c_rem (poll_turn (mpctx s)) (active_num (mp_manager s)) = ret turn"
    "index MPRUD_NUM_PATH turn = ret i"
    using False by (auto simp: mprud_inner_poll_def bindC_eq_ret)
  from assms obtain qp where qp: "inner_qps (mpctx s) i = Some qp"
    using False t by (auto simp: mprud_inner_poll_def bindC_eq_ret)
  from assms obtain k s1 where p: "poll_device ops (case Iam of MP_SERVER \<Rightarrow> qp_recv_cq qp
      | MP_CLIENT \<Rightarrow> qp_send_cq qp) 1 s = ret (k, s1)"
    using False t qp by (auto simp: mprud_inner_poll_def bindC_eq_ret)
  then obtain c m w where c: "(case Iam of MP_SERVER \<Rightarrow> qp_recv_cq qp | MP_CLIENT \<Rightarrow> qp_send_cq qp) = Some c"
      "poll_cq_op ops c 1 (memory s) (world s) = (k, m, w)" "s1 = s\<lparr>memory := m, world := w\<rparr>"
    by (auto simp: poll_device_eq_ret)
  let ?s2 = "s\<lparr>memory := m, world := w, mpctx := (mpctx s)\<lparr>poll_turn :=
      (poll_turn (mpctx s) + 1) smod active_num (mp_manager s)\<rparr>\<rparr>"
  have a: "active_num (mp_manager s) \<noteq> 0" using t by simp
  have "(if word_of_int k = (0 :: u32) then ret (SUCCESS, ?s2)
      else inner_polled Iam i (word_of_int k) ?s2) = ret (r, s')"
    using assms False t qp p c(3) a
    by (simp add: mprud_inner_poll_def bindC_eq_ret Let_def c_rem_def split: if_splits)
  then have "r = SUCCESS" "let s2 = ?s2 in if word_of_int k = (0 :: u32) then s' = s2
      else inner_polled Iam i (word_of_int k) s2 = ret (r, s')"
    by (auto simp: Let_def dest: inner_polled_eq_ret split: if_splits)
  with False a t qp c(1,2) show ?thesis by (intro polled) auto
qed

end
