(* ===== verification/Mprud_Account.thy ===== *)
theory Mprud_Account
  imports Mprud_Table Mprud_Poll
begin

section \<open>Accounting of packets and requests\<close>

text \<open>
  The layer keeps three views of how far each path has come: the number of polled packets not
  yet charged to a request (\<^verbatim>\<open>pkt\<close>), the table entry the path works on
  (\<^verbatim>\<open>wqe_idx\<close>) and the packets it has of that entry (\<^verbatim>\<open>comp_temp\<close>).
  The invariant \<open>path_sync\<close> ties them to the queue of outstanding requests. Posting, polling a
  path and completing a request keep it, and from it follows that a request is completed
  exactly when every active path has finished its part of it.
\<close>

subsection \<open>The invariant\<close>

text \<open>How many outstanding requests, oldest first, a path has finished.\<close>

definition path_lag :: "wqe_table \<Rightarrow> qp_status \<Rightarrow> nat" where
  "path_lag t q = nat ((int (unat (wqe_idx q)) - tbl_head t) mod int MPRUD_TABLE_LEN)"

text \<open>The packets the outstanding request number \<open>j\<close> needs on path \<open>i\<close>.\<close>

definition path_need :: "wqe_table \<Rightarrow> nat \<Rightarrow> nat \<Rightarrow> nat" where
  "path_need t i j = nat (iter_each (outstanding t ! j) i)"

definition entries_ok :: "nat \<Rightarrow> wqe_table \<Rightarrow> bool" where
  "entries_ok n t \<longleftrightarrow> (\<forall>j < ring_count t. \<forall>i < n. 0 < iter_each (outstanding t ! j) i \<and>
     iter_each (outstanding t ! j) i \<le> 2 ^ 20)"

definition path_sync :: "role \<Rightarrow> wqe_table \<Rightarrow> nat \<Rightarrow> qp_status \<Rightarrow> bool" where
  "path_sync Iam t i q \<longleftrightarrow>
     unat (wqe_idx q) < MPRUD_TABLE_LEN \<and> path_lag t q \<le> ring_count t \<and>
     (path_lag t q < ring_count t \<longrightarrow> unat (comp_temp q) < path_need t i (path_lag t q)) \<and>
     (path_lag t q = ring_count t \<longrightarrow> comp_temp q = 0) \<and>
     unat (pkt (polled_cnt Iam q)) = (\<Sum>j<path_lag t q. path_need t i j) + unat (comp_temp q)"

definition in_sync :: "role \<Rightarrow> 'w mprud_state \<Rightarrow> bool" where
  "in_sync Iam s \<longleftrightarrow> ring_ok (table (mpctx s)) \<and>
     0 < active_num (mp_manager s) \<and> active_num (mp_manager s) \<le> int MPRUD_NUM_PATH \<and>
     entries_ok (nat (active_num (mp_manager s))) (table (mpctx s)) \<and>
     (\<forall>i < nat (active_num (mp_manager s)). path_sync Iam (table (mpctx s)) i (stat s i))"

lemma path_need_bounds:
  "entries_ok n t \<Longrightarrow> i < n \<Longrightarrow> j < ring_count t \<Longrightarrow> 0 < path_need t i j \<and> path_need t i j \<le> 2 ^ 20"
  by (auto simp: entries_ok_def path_need_def nat_le_iff)

lemma sum_need_le:
  assumes "entries_ok n t" and "i < n" and "k \<le> ring_count t"
  shows "(\<Sum>j<k. path_need t i j) \<le> 1000 * 2 ^ 20"
proof -
  have "(\<Sum>j<k. path_need t i j) \<le> (\<Sum>j<k. 2 ^ 20)"
    using path_need_bounds [OF assms(1,2)] assms(3) by (intro sum_mono) simp
  also have "\<dots> \<le> 1000 * 2 ^ 20"
    using assms(3) ring_count_less [of t] by (simp add: MPRUD_TABLE_LEN_def)
  finally show ?thesis .
qed

text \<open>Whether the oldest request has its packets of a path, read from the count or the position.\<close>

lemma lag_iff_enough:
  assumes sync: "path_sync Iam t i q" and ent: "entries_ok n t" "i < n" and ne: "0 < ring_count t"
  shows "word_of_int (iter_each (outstanding t ! 0) i) \<le> pkt (polled_cnt Iam q) \<longleftrightarrow> 0 < path_lag t q"
proof -
  have need: "0 < path_need t i 0" "path_need t i 0 \<le> 2 ^ 20"
    using path_need_bounds [OF ent ne] by simp_all
  then have "iter_each (outstanding t ! 0) i = int (path_need t i 0)"
    by (simp add: path_need_def)
  then have "unat (word_of_int (iter_each (outstanding t ! 0) i) :: u64) = path_need t i 0"
    using need by (simp add: unat_of_nat)
  then have "word_of_int (iter_each (outstanding t ! 0) i) \<le> pkt (polled_cnt Iam q) \<longleftrightarrow>
      path_need t i 0 \<le> (\<Sum>j<path_lag t q. path_need t i j) + unat (comp_temp q)"
    using sync by (simp add: word_le_nat_alt path_sync_def)
  also have "\<dots> \<longleftrightarrow> 0 < path_lag t q"
  proof (cases "path_lag t q")
    case 0
    then show ?thesis using sync ne by (simp add: path_sync_def)
  next
    case (Suc l)
    have "path_need t i 0 \<le> (\<Sum>j<Suc l. path_need t i j)"
      by (intro member_le_sum) auto
    with Suc show ?thesis by simp
  qed
  finally show ?thesis .
qed

subsection \<open>Posting a request\<close>

lemma entries_ok_push:
  assumes "ring_ok t" and "ring_count t < 999" and "entries_ok n t"
    and "\<forall>i<n. 0 < iter_each e i \<and> iter_each e i \<le> 2 ^ 20"
  shows "entries_ok n (table_push e t)"
proof -
  have "outstanding (table_push e t) = outstanding t @ [e]" "ring_count (table_push e t) = ring_count t + 1"
    using outstanding_push [of t e] ring_count_push [of t e] assms(1,2)
    by (simp_all add: MPRUD_TABLE_LEN_def)
  with assms(3,4) show ?thesis by (auto simp: entries_ok_def nth_append less_Suc_eq)
qed

lemma path_sync_push:
  assumes ring: "ring_ok t" "ring_count t < 999" and e: "0 < iter_each e i"
    and sync: "path_sync Iam t i q"
  shows "path_sync Iam (table_push e t) i q"
proof -
  have out: "outstanding (table_push e t) = outstanding t @ [e]"
    and cnt: "ring_count (table_push e t) = ring_count t + 1"
    using outstanding_push [of t e] ring_count_push [of t e] ring by (simp_all add: MPRUD_TABLE_LEN_def)
  have lag: "path_lag (table_push e t) q = path_lag t q" by (simp add: path_lag_def)
  have need: "path_need (table_push e t) i j = path_need t i j" if "j < ring_count t" for j
    using that by (simp add: path_need_def out nth_append)
  have new: "0 < path_need (table_push e t) i (ring_count t)"
    using e by (simp add: path_need_def out nth_append)
  have "path_lag t q \<le> ring_count t" using sync by (simp add: path_sync_def)
  then have "(\<Sum>j<path_lag t q. path_need (table_push e t) i j) = (\<Sum>j<path_lag t q. path_need t i j)"
    by (intro sum.cong) (auto simp: need)
  with sync new \<open>path_lag t q \<le> ring_count t\<close> show ?thesis
    by (cases "path_lag t q = ring_count t") (auto simp: path_sync_def lag cnt need)
qed

subsection \<open>Polling an empty table\<close>

text \<open>
  The code does not test whether a request is outstanding. What keeps a poll of an empty table
  from reporting a completion is the entry at the head: whether it names packets on some path,
  left there by a request of an earlier turn of the ring.
\<close>

definition head_used :: "'w mprud_state \<Rightarrow> bool" where
  "head_used s \<longleftrightarrow> (\<exists>i < nat (active_num (mp_manager s)).
     (word_of_int (iter_each (wqe s (nat (tbl_head (table (mpctx s))))) i) :: u64) \<noteq> 0)"

lemma empty_no_packets:
  assumes "path_sync Iam t i q" and "ring_count t = 0"
  shows "pkt (polled_cnt Iam q) = 0"
proof -
  have "path_lag t q = 0" and "comp_temp q = 0" using assms by (simp_all add: path_sync_def)
  then show ?thesis using assms(1) by (simp add: path_sync_def unat_eq_0)
qed

lemma empty_comp_ready:
  assumes "in_sync Iam s" and "outstanding (table (mpctx s)) = []"
  shows "comp_ready Iam (nat (active_num (mp_manager s))) (nat (tbl_head (table (mpctx s)))) s
    \<longleftrightarrow> \<not> head_used s"
proof -
  have "ring_count (table (mpctx s)) = 0" using assms(2) by (metis length_outstanding list.size(3))
  then have "pkt (polled_cnt Iam (stat s i)) = 0" if "i < nat (active_num (mp_manager s))" for i
    using assms(1) that empty_no_packets by (auto simp: in_sync_def)
  then show ?thesis by (auto simp: comp_ready_def head_used_def list_all_iff word_gt_0)
qed

subsection \<open>Completing a request\<close>

lemma entries_ok_pop:
  assumes "ring_ok t" and "0 < ring_count t" and "entries_ok n t"
  shows "entries_ok n (table_pop t)"
  using outstanding_pop [OF assms(1,2)] ring_count_pop [OF assms(1,2)] assms(3)
  by (auto simp: entries_ok_def nth_tl)

lemma path_lag_pop:
  assumes "ring_ok t" and "0 < path_lag t q"
  shows "path_lag (table_pop t) q = path_lag t q - 1"
proof -
  have "path_lag (table_pop t) q =
      nat ((int (unat (wqe_idx q)) - (tbl_head t + 1) mod int MPRUD_TABLE_LEN) mod int MPRUD_TABLE_LEN)"
    using assms(1) by (simp add: path_lag_def table_pop_def bump_ring_mod ring_ok_def)
  also have "\<dots> = nat (((int (unat (wqe_idx q)) - tbl_head t) mod int MPRUD_TABLE_LEN - 1) mod int MPRUD_TABLE_LEN)"
    by (simp add: mod_simps algebra_simps)
  also have "\<dots> = nat ((int (unat (wqe_idx q)) - tbl_head t) mod int MPRUD_TABLE_LEN - 1)"
  proof -
    let ?l = "(int (unat (wqe_idx q)) - tbl_head t) mod int MPRUD_TABLE_LEN"
    have "0 < ?l" using assms(2) by (simp add: path_lag_def)
    moreover have "?l < int MPRUD_TABLE_LEN" by (simp add: MPRUD_TABLE_LEN_def)
    ultimately show ?thesis by simp
  qed
  finally show ?thesis by (simp add: path_lag_def nat_diff_distrib)
qed

lemma path_sync_pop:
  assumes ring: "ring_ok t" "0 < ring_count t" and ent: "entries_ok n t" "i < n"
    and sync: "path_sync Iam t i q" and lag: "0 < path_lag t q"
  shows "path_sync Iam (table_pop t) i
    (upd_polled Iam (\<lambda>p. p\<lparr>pkt := pkt p - word_of_int (iter_each (outstanding t ! 0) i)\<rparr>) q)"
proof -
  define q' where "q' = upd_polled Iam (\<lambda>p. p\<lparr>pkt := pkt p - word_of_int (iter_each (outstanding t ! 0) i)\<rparr>) q"
  have fields: "wqe_idx q' = wqe_idx q" "comp_temp q' = comp_temp q"
    "pkt (polled_cnt Iam q') = pkt (polled_cnt Iam q) - word_of_int (iter_each (outstanding t ! 0) i)"
    by (cases Iam; simp add: q'_def upd_polled_def polled_cnt_def)+
  have lag': "path_lag (table_pop t) q' = path_lag t q - 1"
    using path_lag_pop [OF ring(1) lag] fields(1) by (simp add: path_lag_def)
  have cnt: "ring_count (table_pop t) = ring_count t - 1" using ring_count_pop [OF ring] by simp
  have need: "path_need (table_pop t) i j = path_need t i (Suc j)" if "j < ring_count t - 1" for j
    using that outstanding_pop [OF ring] by (simp add: path_need_def nth_tl)
  have le: "path_lag t q \<le> ring_count t" using sync by (simp add: path_sync_def)
  have split: "(\<Sum>j<path_lag t q. path_need t i j) =
      path_need t i 0 + (\<Sum>j<path_lag t q - 1. path_need (table_pop t) i j)"
  proof -
    have "(\<Sum>j<Suc (path_lag t q - 1). path_need t i j) =
        path_need t i 0 + (\<Sum>j<path_lag t q - 1. path_need t i (Suc j))"
      by (rule sum.lessThan_Suc_shift)
    also have "(\<Sum>j<path_lag t q - 1. path_need t i (Suc j)) = (\<Sum>j<path_lag t q - 1. path_need (table_pop t) i j)"
      using le lag by (intro sum.cong) (auto simp: need)
    finally show ?thesis using lag by simp
  qed
  have "iter_each (outstanding t ! 0) i = int (path_need t i 0)" "path_need t i 0 \<le> 2 ^ 20"
    using path_need_bounds [OF ent ring(2)] by (simp_all add: path_need_def)
  then have "unat (word_of_int (iter_each (outstanding t ! 0) i) :: u64) = path_need t i 0"
    by (simp add: unat_of_nat)
  moreover have "word_of_int (iter_each (outstanding t ! 0) i) \<le> pkt (polled_cnt Iam q)"
    using lag_iff_enough [OF sync ent ring(2)] lag by simp
  ultimately have "unat (pkt (polled_cnt Iam q')) = unat (pkt (polled_cnt Iam q)) - path_need t i 0"
    by (simp add: fields unat_sub)
  with sync split have "unat (pkt (polled_cnt Iam q')) =
      (\<Sum>j<path_lag t q - 1. path_need (table_pop t) i j) + unat (comp_temp q)"
    by (simp add: path_sync_def)
  moreover have "path_lag t q - 1 = ring_count t - 1 \<longleftrightarrow> path_lag t q = ring_count t" using lag ring by auto
  moreover have "path_need (table_pop t) i (path_lag t q - 1) = path_need t i (path_lag t q)"
    if "path_lag t q < ring_count t" using need [of "path_lag t q - 1"] that lag by simp
  ultimately show ?thesis
    using sync lag le unfolding q'_def [symmetric] path_sync_def lag' cnt fields by auto
qed

subsection \<open>Polling a packet\<close>

definition path_busy :: "wqe_table \<Rightarrow> qp_status \<Rightarrow> bool" where
  "path_busy t q \<longleftrightarrow> path_lag t q < ring_count t"

text \<open>The path's status after one packet, from \<open>inner_polled\<close>.\<close>

definition polled_stat :: "role \<Rightarrow> nat \<Rightarrow> mprud_wqe \<Rightarrow> qp_status \<Rightarrow> qp_status" where
  "polled_stat Iam i e q =
    (let q1 = count_polled Iam 1 (avg_size_per_pkt e) q
     in if comp_temp q1 = word_of_int (iter_each e i)
        then q1\<lparr>comp_temp := 0, wqe_idx := bump_wqe_idx (wqe_idx q1)\<rparr> else q1)"

lemma count_polled_simps [simp]:
  "wqe_idx (count_polled Iam n avg q) = wqe_idx q"
  "comp_temp (count_polled Iam n avg q) = comp_temp q + ucast n"
  "pkt (polled_cnt Iam (count_polled Iam n avg q)) = pkt (polled_cnt Iam q) + ucast n"
  by (cases Iam; simp add: count_polled_def Let_def polled_cnt_def)+

lemma wqe_idx_slot:
  assumes "ring_ok t" and "unat (wqe_idx q) < MPRUD_TABLE_LEN"
  shows "ring_slot t (path_lag t q) = unat (wqe_idx q)"
proof -
  have "int (ring_slot t (path_lag t q)) =
      (tbl_head t + (int (unat (wqe_idx q)) - tbl_head t) mod int MPRUD_TABLE_LEN) mod int MPRUD_TABLE_LEN"
    using assms(1) by (simp add: ring_slot_def path_lag_def ring_ok_def zmod_int MPRUD_TABLE_LEN_def)
  also have "\<dots> = int (unat (wqe_idx q)) mod int MPRUD_TABLE_LEN" by (simp add: mod_add_right_eq)
  also have "\<dots> = int (unat (wqe_idx q))"
    using assms(2) by (simp only: of_nat_mod [symmetric] mod_less)
  finally show ?thesis by (simp only: of_nat_eq_iff)
qed

lemma unat_bump_wqe_idx:
  "unat i < MPRUD_TABLE_LEN \<Longrightarrow> unat (bump_wqe_idx i) = (unat i + 1) mod MPRUD_TABLE_LEN"
proof -
  assume i: "unat i < MPRUD_TABLE_LEN"
  then have s: "unat (i + 1) = unat i + 1" by (simp add: unat_word_ariths MPRUD_TABLE_LEN_def)
  then have "i + 1 = of_nat MPRUD_TABLE_LEN \<longleftrightarrow> unat i + 1 = MPRUD_TABLE_LEN"
    using i by (simp add: word_unat_eq_iff MPRUD_TABLE_LEN_def)
  with i s show ?thesis by (auto simp: bump_wqe_idx_def MPRUD_TABLE_LEN_def)
qed

lemma path_lag_bump:
  assumes "unat (wqe_idx q) < MPRUD_TABLE_LEN" and "path_lag t q < ring_count t"
    and "wqe_idx q' = bump_wqe_idx (wqe_idx q)"
  shows "path_lag t q' = path_lag t q + 1"
proof -
  let ?l = "(int (unat (wqe_idx q)) - tbl_head t) mod int MPRUD_TABLE_LEN"
  have "path_lag t q' = nat (((int (unat (wqe_idx q)) + 1) mod int MPRUD_TABLE_LEN - tbl_head t) mod int MPRUD_TABLE_LEN)"
    using assms(1,3) by (simp add: path_lag_def unat_bump_wqe_idx zmod_int add.commute)
  also have "\<dots> = nat ((?l + 1) mod int MPRUD_TABLE_LEN)" by (simp add: mod_simps algebra_simps)
  also have "(?l + 1) mod int MPRUD_TABLE_LEN = ?l + 1"
  proof -
    have "path_lag t q + 1 < MPRUD_TABLE_LEN" using assms(2) ring_count_less [of t] by linarith
    then have "?l + 1 < int MPRUD_TABLE_LEN" by (simp add: path_lag_def)
    moreover have "0 \<le> ?l" by (simp add: MPRUD_TABLE_LEN_def)
    ultimately show ?thesis by simp
  qed
  finally show ?thesis by (simp add: path_lag_def nat_add_distrib MPRUD_TABLE_LEN_def)
qed

lemma path_sync_polled:
  assumes ring: "ring_ok t" and ent: "entries_ok n t" "i < n"
    and sync: "path_sync Iam t i q" and busy: "path_busy t q"
  shows "path_sync Iam t i (polled_stat Iam i (tbl_wqe t (unat (wqe_idx q))) q)"
proof -
  define l where "l = path_lag t q"
  have idx: "unat (wqe_idx q) < MPRUD_TABLE_LEN" using sync by (simp add: path_sync_def)
  have l: "l < ring_count t" using busy by (simp add: path_busy_def l_def)
  have e: "tbl_wqe t (unat (wqe_idx q)) = outstanding t ! l"
    using outstanding_nth [OF l] wqe_idx_slot [OF ring idx] by (simp add: l_def)
  have need: "0 < path_need t i l" "path_need t i l \<le> 2 ^ 20" using path_need_bounds [OF ent l] by simp_all
  then have each: "iter_each (outstanding t ! l) i = int (path_need t i l)" by (simp add: path_need_def)
  have ct: "unat (comp_temp q) < path_need t i l" using sync l by (simp add: path_sync_def l_def)
  then have ct1: "unat (comp_temp q + 1) = unat (comp_temp q) + 1"
    using need by (simp add: unat_word_ariths)
  have "unat (pkt (polled_cnt Iam q)) \<le> 1000 * 2 ^ 20 + 2 ^ 20"
    using sync sum_need_le [OF ent, of l] ct need l by (simp add: path_sync_def l_def)
  then have p1: "unat (pkt (polled_cnt Iam q) + 1) = unat (pkt (polled_cnt Iam q)) + 1"
    by (simp add: unat_word_ariths)
  have fin: "comp_temp q + 1 = word_of_int (iter_each (outstanding t ! l) i) \<longleftrightarrow>
      unat (comp_temp q) + 1 = path_need t i l"
    using need by (simp add: each word_unat_eq_iff ct1 unat_of_nat)
  define q1 where "q1 = count_polled Iam 1 (avg_size_per_pkt (outstanding t ! l)) q"
  have q1: "wqe_idx q1 = wqe_idx q" "comp_temp q1 = comp_temp q + 1"
    "pkt (polled_cnt Iam q1) = pkt (polled_cnt Iam q) + 1" by (simp_all add: q1_def)
  show ?thesis
  proof (cases "unat (comp_temp q) + 1 = path_need t i l")
    case True
    define q2 where "q2 = q1\<lparr>comp_temp := 0, wqe_idx := bump_wqe_idx (wqe_idx q1)\<rparr>"
    have q2: "polled_stat Iam i (tbl_wqe t (unat (wqe_idx q))) q = q2"
      using True fin by (simp add: polled_stat_def e q2_def q1_def Let_def)
    have "pkt (polled_cnt Iam q2) = pkt (polled_cnt Iam q1)" by (cases Iam) (simp_all add: q2_def polled_cnt_def)
    moreover have lag2: "path_lag t q2 = l + 1"
      using path_lag_bump [OF idx] l by (simp add: q2_def q1 l_def)
    moreover have "unat (wqe_idx q2) < MPRUD_TABLE_LEN"
      using unat_bump_wqe_idx [OF idx] by (simp add: q2_def q1 MPRUD_TABLE_LEN_def)
    moreover have "l + 1 < ring_count t \<Longrightarrow> 0 < path_need t i (l + 1)"
      using path_need_bounds [OF ent] by simp
    ultimately show ?thesis
      using sync l True p1 unfolding q2 path_sync_def lag2 by (auto simp: q1 q2_def l_def)
  next
    case False
    then have q2: "polled_stat Iam i (tbl_wqe t (unat (wqe_idx q))) q = q1"
      using fin by (simp add: polled_stat_def e q1_def Let_def)
    have "path_lag t q1 = l" by (simp add: path_lag_def q1 l_def)
    with False sync ct l ct1 p1 idx show ?thesis
      unfolding q2 path_sync_def by (simp add: q1 l_def)
  qed
qed

subsection \<open>The operations keep the invariant\<close>

lemma in_sync_store:
  assumes sync: "in_sync Iam s" and room: "ring_count (table (mpctx s)) < 999"
    and each: "0 < each" "each \<le> 2 ^ 20"
    and st: "mprud_store_wr swr rwr iter each lst s = ret s'"
  shows "in_sync Iam s'"
proof -
  let ?e = "new_entry swr rwr iter each lst s" and ?t = "table (mpctx s)"
  have s': "s' = upd_table (table_push ?e) s" using st by (rule mprud_store_wr_eq_ret)
  have e: "\<forall>i < nat (active_num (mp_manager s)). 0 < iter_each ?e i \<and> iter_each ?e i \<le> 2 ^ 20"
    using each by (simp add: new_entry_def Let_def)
  have ring: "ring_ok ?t" using sync by (simp add: in_sync_def)
  then have "ring_ok (table_push ?e ?t)" by (rule wr_fifo.push_ok)
  moreover have "entries_ok (nat (active_num (mp_manager s))) (table_push ?e ?t)"
    using entries_ok_push [OF ring room _ e] sync by (simp add: in_sync_def)
  moreover have "path_sync Iam (table_push ?e ?t) i (stat s i)" if "i < nat (active_num (mp_manager s))" for i
    using path_sync_push [OF ring room] e sync that by (simp add: in_sync_def)
  ultimately show ?thesis using sync by (simp add: s' in_sync_def)
qed

lemma in_sync_outer:
  assumes sync: "in_sync Iam s" and ne: "outstanding (table (mpctx s)) \<noteq> []"
    and poll: "mprud_get_outer_poll Iam s = ret (c, s')"
  shows "in_sync Iam s'"
proof -
  let ?t = "table (mpctx s)"
  define n where "n = nat (active_num (mp_manager s))"
  have "0 < ring_count ?t" using ne by (metis length_outstanding length_greater_0_conv)
  with sync have ring: "ring_ok ?t" "0 < ring_count ?t" and act: "active_num (mp_manager s) \<le> int MPRUD_NUM_PATH"
    and ent: "entries_ok n ?t" and ps: "\<And>i. i < n \<Longrightarrow> path_sync Iam ?t i (stat s i)"
    by (auto simp: in_sync_def n_def)
  show ?thesis
  proof (cases "c = 0")
    case True
    then show ?thesis using mprud_get_outer_poll_cases [OF poll] sync by auto
  next
    case False
    have head: "wqe s (nat (tbl_head ?t)) = outstanding ?t ! 0"
      using outstanding_nth [OF ring(2)] ring(1) by (simp add: ring_slot_def ring_ok_def nat_less_iff)
    have idx: "index MPRUD_TABLE_LEN (tbl_head ?t) = ret (nat (tbl_head ?t))"
      using ring(1) by (simp add: ring_ok_def)
    have ap: "active_paths s = ret n" using act by (simp add: active_paths_def n_def)
    have ready: "comp_ready Iam n (nat (tbl_head ?t)) s"
      using poll False by (auto simp: mprud_get_outer_poll_def idx ap split: if_splits)
    then have lag: "0 < path_lag ?t (stat s i)" if "i < n" for i
      using lag_iff_enough [OF ps [OF that] ent that ring(2)] that
      by (auto simp: comp_ready_def list_all_iff head not_less)
    have eff: "table (mpctx s') = table_pop ?t" "mp_manager s' = mp_manager s"
      "\<And>i. i < n \<Longrightarrow> stat s' i = upd_polled Iam (\<lambda>p. p\<lparr>pkt := pkt p -
          word_of_int (iter_each (outstanding ?t ! 0) i)\<rparr>) (stat s i)"
      using poll ready by (auto simp: mprud_get_outer_poll_def idx ap head Let_def table_pop_def)
    have "path_sync Iam (table_pop ?t) i (stat s' i)" if "i < n" for i
      using path_sync_pop [OF ring ent that ps [OF that] lag [OF that]] eff(3) [OF that] by simp
    moreover have "ring_ok (table_pop ?t)" using ring(1) by (rule wr_fifo.pop_ok)
    moreover have "entries_ok n (table_pop ?t)" using ring ent by (rule entries_ok_pop)
    ultimately show ?thesis using sync by (simp add: in_sync_def eff(1,2) flip: n_def)
  qed
qed

text \<open>A poll that finds the table empty and the head used before changes nothing.\<close>

lemma empty_poll:
  assumes "in_sync Iam s" and "outstanding (table (mpctx s)) = []" and "head_used s"
  shows "mprud_get_outer_poll Iam s = ret (0, s)"
  using empty_comp_ready [OF assms(1,2)] assms
  by (auto simp: mprud_get_outer_poll_def in_sync_def ring_ok_def active_paths_def index_def)

text \<open>What an inner poll does to the state, seen through \<open>polled_stat\<close>.\<close>

lemma inner_poll_effect:
  assumes poll: "mprud_inner_poll ops Iam s = ret (r, s')"
    and turn: "0 \<le> poll_turn (mpctx s)" and act: "0 < active_num (mp_manager s)"
  defines "i \<equiv> nat (poll_turn (mpctx s) mod active_num (mp_manager s))"
  shows "r = SUCCESS \<and> mp_manager s' = mp_manager s \<and> table (mpctx s') = table (mpctx s) \<and>
    (qp_stat (mpctx s') = qp_stat (mpctx s) \<and> tot_polled Iam (mpctx s') = tot_polled Iam (mpctx s) \<or>
     qp_stat (mpctx s') = (qp_stat (mpctx s))(i :=
        polled_stat Iam i (wqe s (unat (wqe_idx (stat s i)))) (stat s i)) \<and>
     tot_polled Iam (mpctx s') = tot_polled Iam (mpctx s) + 1)"
  using poll
proof (cases rule: mprud_inner_poll_cases)
  case idle
  then show ?thesis by simp
next
  case (polled j qp c k m w)
  have j: "j = i" using polled(4) smod_nonneg [OF turn act] by (simp add: i_def)
  let ?s2 = "s\<lparr>memory := m, world := w, mpctx := (mpctx s)\<lparr>poll_turn :=
      (poll_turn (mpctx s) + 1) smod active_num (mp_manager s)\<rparr>\<rparr>"
  show ?thesis
  proof (cases "word_of_int k = (0 :: u32)")
    case True
    with polled(2,9) show ?thesis by (cases Iam) (simp_all add: tot_polled_def)
  next
    case False
    then have ip: "inner_polled Iam i (word_of_int k) ?s2 = ret (r, s')" using polled(9) j by simp
    note eff = inner_polled_eq_ret [OF ip]
    have "(word_of_int k :: u32) \<le> 1" using eff by simp
    then have one: "(word_of_int k :: u32) = 1" using False by (simp add: word_le_nat_alt word_unat_eq_iff)
    show ?thesis
      using eff unfolding one
      by (cases Iam) (simp_all add: polled_stat_def add_tot_polled_def tot_polled_def Let_def)
  qed
qed

lemma in_sync_inner:
  assumes sync: "in_sync Iam s" and turn: "0 \<le> poll_turn (mpctx s)"
    and poll: "mprud_inner_poll ops Iam s = ret (r, s')"
    and busy: "qp_stat (mpctx s') = qp_stat (mpctx s) \<or> path_busy (table (mpctx s))
      (stat s (nat (poll_turn (mpctx s) mod active_num (mp_manager s))))"
  shows "in_sync Iam s'"
proof -
  define i where "i = nat (poll_turn (mpctx s) mod active_num (mp_manager s))"
  have act: "0 < active_num (mp_manager s)" using sync by (simp add: in_sync_def)
  then have i: "i < nat (active_num (mp_manager s))" using turn by (simp add: i_def)
  note eff = inner_poll_effect [OF poll turn act, folded i_def]
  show ?thesis
  proof (cases "qp_stat (mpctx s') = qp_stat (mpctx s)")
    case True
    with eff sync show ?thesis by (simp add: in_sync_def)
  next
    case False
    with eff have upd: "qp_stat (mpctx s') = (qp_stat (mpctx s))(i :=
        polled_stat Iam i (wqe s (unat (wqe_idx (stat s i)))) (stat s i))" by auto
    have "path_sync Iam (table (mpctx s)) i (polled_stat Iam i (wqe s (unat (wqe_idx (stat s i)))) (stat s i))"
      using sync i busy False by (intro path_sync_polled) (auto simp: in_sync_def i_def)
    with sync eff upd show ?thesis by (auto simp: in_sync_def)
  qed
qed

subsection \<open>Runs of the layer\<close>

text \<open>
  The steps between recoveries of an endpoint in one role, as a relation. A post finds room in
  the table and has 1 to \<open>2 ^ 20\<close> packets for each path. A poll for completed requests finds a
  request outstanding, or the entry at the head used in an earlier turn: the polls that report
  a completion nobody waits for are left out (\<open>spurious_completion\<close> in
  \<open>Mprud_Post_Facts\<close>). A poll of the paths may count a packet only for a path
  that still has outstanding packets: the device completes what was posted. The other steps
  (booking posted packets, advancing the post turn) leave this view of the state alone.
\<close>

inductive layer_step :: "'w env \<Rightarrow> role \<Rightarrow> 'w mprud_state \<Rightarrow> 'w mprud_state \<Rightarrow> bool"
  for ops :: "'w env" and Iam :: role where
  step_store: "layer_step ops Iam s s'"
    if "mprud_store_wr swr rwr iter each lst s = ret s'" and "0 < each" and "each \<le> 2 ^ 20"
      and "length (outstanding (table (mpctx s))) < 999"
| step_outer: "layer_step ops Iam s s'"
    if "mprud_get_outer_poll Iam s = ret (c, s')"
      and "outstanding (table (mpctx s)) \<noteq> [] \<or> head_used s"
| step_inner: "layer_step ops Iam s s'"
    if "mprud_inner_poll ops Iam s = ret (r, s')" and "0 \<le> poll_turn (mpctx s)"
      and "qp_stat (mpctx s') = qp_stat (mpctx s) \<or> path_busy (table (mpctx s))
        (stat s (nat (poll_turn (mpctx s) mod active_num (mp_manager s))))"
| step_other: "layer_step ops Iam s s'"
    if "table (mpctx s') = table (mpctx s)" and "active_num (mp_manager s') = active_num (mp_manager s)"
      and "\<forall>i. wqe_idx (stat s' i) = wqe_idx (stat s i) \<and> comp_temp (stat s' i) = comp_temp (stat s i)
        \<and> polled_cnt Iam (stat s' i) = polled_cnt Iam (stat s i)"

inductive layer_reach :: "'w env \<Rightarrow> role \<Rightarrow> 'w mprud_state \<Rightarrow> 'w mprud_state \<Rightarrow> bool"
  for ops :: "'w env" and Iam :: role and s0 :: "'w mprud_state" where
  reach_start: "layer_reach ops Iam s0 s0"
| reach_step: "layer_reach ops Iam s0 s'" if "layer_reach ops Iam s0 s" and "layer_step ops Iam s s'"

lemma in_sync_step: "layer_step ops Iam s s' \<Longrightarrow> in_sync Iam s \<Longrightarrow> in_sync Iam s'"
proof (induction rule: layer_step.induct)
  case (step_store swr rwr iter each lst s s')
  then show ?case using in_sync_store [of Iam s each swr rwr iter lst s'] by simp
next
  case (step_outer s c s')
  then show ?case
    by (cases "outstanding (table (mpctx s)) = []") (use in_sync_outer empty_poll in fastforce)+
next
  case (step_inner s r s')
  then show ?case using in_sync_inner by blast
next
  case (step_other s' s)
  then have "path_sync Iam (table (mpctx s)) i (stat s' i) = path_sync Iam (table (mpctx s)) i (stat s i)" for i
    by (simp add: path_sync_def path_lag_def)
  with step_other show ?case by (simp add: in_sync_def)
qed

lemma in_sync_reach: "layer_reach ops Iam s0 s \<Longrightarrow> in_sync Iam s0 \<Longrightarrow> in_sync Iam s"
  by (induction rule: layer_reach.induct) (auto intro: in_sync_step)

lemma in_sync_ready: "in_sync Iam (ready_state m w)"
  by (cases Iam) (auto simp: in_sync_def entries_ok_def path_sync_def path_lag_def ring_count_def
      ring_ok_def zero_table_def zero_qp_status_def zero_pkt_count_def polled_cnt_def mprud_consts)

subsection \<open>Properties\<close>

lemma path_lag_pos_iff:
  assumes "ring_ok t" and "unat (wqe_idx q) < MPRUD_TABLE_LEN"
  shows "0 < path_lag t q \<longleftrightarrow> uint (wqe_idx q) \<noteq> tbl_head t"
proof -
  have "ring_slot t 0 = nat (tbl_head t)"
    using assms(1) by (simp add: ring_slot_def ring_ok_def nat_less_iff)
  moreover have "path_lag t q < MPRUD_TABLE_LEN"
    by (simp add: path_lag_def MPRUD_TABLE_LEN_def nat_less_iff)
  ultimately have "path_lag t q = 0 \<longleftrightarrow> unat (wqe_idx q) = nat (tbl_head t)"
    using wqe_idx_slot [OF assms] ring_slot_inj [of "path_lag t q" 0 t] by (simp add: MPRUD_TABLE_LEN_def)
  also have "\<dots> \<longleftrightarrow> uint (wqe_idx q) = tbl_head t"
    using assms(1) by (simp add: ring_ok_def) (metis nat_0_le uint_nat nat_int)
  finally show ?thesis by auto
qed

lemma outer_poll_value:
  assumes "ring_ok (table (mpctx s))" and "active_num (mp_manager s) \<le> int MPRUD_NUM_PATH"
  shows "(\<exists>s'. mprud_get_outer_poll Iam s = ret (1, s')) \<longleftrightarrow>
      comp_ready Iam (nat (active_num (mp_manager s))) (nat (tbl_head (table (mpctx s)))) s"
    and "\<exists>c s'. mprud_get_outer_poll Iam s = ret (c, s') \<and> c \<in> {0, 1}"
  using assms
  by (auto simp: mprud_get_outer_poll_def ring_ok_def active_paths_def Let_def index_def)

text \<open>All paths have the packets of the oldest request when none is still at the head.\<close>

lemma ready_iff_finished:
  assumes sync: "in_sync Iam s" and ne: "outstanding (table (mpctx s)) \<noteq> []"
  shows "comp_ready Iam (nat (active_num (mp_manager s))) (nat (tbl_head (table (mpctx s)))) s \<longleftrightarrow>
    (\<forall>i < nat (active_num (mp_manager s)). uint (wqe_idx (stat s i)) \<noteq> tbl_head (table (mpctx s)))"
proof -
  let ?t = "table (mpctx s)"
  define n where "n = nat (active_num (mp_manager s))"
  have ring: "ring_ok ?t" and ent: "entries_ok n ?t"
    and ps: "\<And>i. i < n \<Longrightarrow> path_sync Iam ?t i (stat s i)"
    using sync by (simp_all add: in_sync_def n_def)
  have cnt: "0 < ring_count ?t" using ne by (metis length_outstanding length_greater_0_conv)
  have head: "wqe s (nat (tbl_head ?t)) = outstanding ?t ! 0"
    using outstanding_nth [OF cnt] ring by (simp add: ring_slot_def ring_ok_def nat_less_iff)
  have "comp_ready Iam n (nat (tbl_head ?t)) s \<longleftrightarrow> (\<forall>i < n. 0 < path_lag ?t (stat s i))"
    using lag_iff_enough [OF ps ent _ cnt] by (auto simp: comp_ready_def list_all_iff head not_less)
  also have "\<dots> \<longleftrightarrow> (\<forall>i < n. uint (wqe_idx (stat s i)) \<noteq> tbl_head ?t)"
    using path_lag_pos_iff [OF ring] ps by (auto simp: path_sync_def)
  finally show ?thesis by (simp add: n_def)
qed

text \<open>A state with one request of one packet per path just stored.\<close>

definition one_request :: "unit mprud_state" where
  "one_request = upd_table (table_push (new_entry (Some sample_swr) None 4 1 4096
     (ready_state (\<lambda>_. 0) ()))) (ready_state (\<lambda>_. 0) ())"

lemma one_request_store:
  "mprud_store_wr (Some sample_swr) None 4 1 4096 (ready_state (\<lambda>_. 0) ()) = ret one_request"
proof -
  have "\<exists>s'. mprud_store_wr (Some sample_swr) None 4 1 4096 (ready_state (\<lambda>_. 0) ()) = ret s'"
    by (auto simp: mprud_store_wr_def sample_swr_def active_paths_def Let_def MPRUD_NUM_PATH_def
        MPRUD_TABLE_LEN_def zero_table_def index_def)
  then show ?thesis using mprud_store_wr_eq_ret unfolding one_request_def by blast
qed

lemma one_request_reach: "layer_reach ops Iam (ready_state (\<lambda>_. 0) ()) one_request"
  by (rule reach_step [OF reach_start step_store [OF one_request_store]])
     (simp_all add: outstanding_def)

lemma one_request_table:
  "outstanding (table (mpctx one_request)) = [new_entry (Some sample_swr) None 4 1 4096 (ready_state (\<lambda>_. 0) ())]"
  by (simp add: one_request_def outstanding_push MPRUD_TABLE_LEN_def outstanding_def [of zero_table])

lemma one_request_simps:
  "active_num (mp_manager one_request) = 4" "stat one_request i = zero_qp_status"
  "tbl_head (table (mpctx one_request)) = 0"
  by (simp_all add: one_request_def table_push_def [of _ zero_table] zero_table_def)

text \<open>
  C1: while an endpoint only sends or only receives, with requests of 1 to \<open>2 ^ 20\<close> packets for
  each path and never more than 999 of them outstanding, with no recovery in between, and
  polls for completed requests only when a request is outstanding or the entry at the head
  of the table was used before, and the device completes only what was posted: the packet
  count, the table position and the partial count of every active path agree with the
  outstanding requests. The count is the sum of what the finished requests need on that path
  and of what the path has of the one it works on.
\<close>

theorem layer_accounting:
  assumes "layer_reach ops Iam (ready_state m w) s"
  shows "in_sync Iam s"
  using assms in_sync_ready by (rule in_sync_reach)

theorem layer_accounting_witness: "in_sync MP_CLIENT one_request"
  using layer_accounting [OF one_request_reach] .

text \<open>
  C2: in every state of such a run (one role, requests of 1 to \<open>2 ^ 20\<close> packets for each path,
  at most 999 outstanding, no recovery, earlier polls made with a request outstanding or the
  entry at the head used before), a poll of the application's queue with a
  request outstanding reports a completion exactly when every active path has finished its
  part of the oldest request, that is, when no path's table position is still at the head of
  the ring. With nothing outstanding it reports one exactly when the entry at the head has
  never been used, and otherwise changes nothing. It never faults and never reports more
  than one.
\<close>

theorem completion_exact:
  assumes reach: "layer_reach ops Iam (ready_state m w) s"
  shows "(outstanding (table (mpctx s)) \<noteq> [] \<longrightarrow>
      ((\<exists>s'. mprud_get_outer_poll Iam s = ret (1, s')) \<longleftrightarrow>
        (\<forall>i < nat (active_num (mp_manager s)). uint (wqe_idx (stat s i)) \<noteq> tbl_head (table (mpctx s)))))
    \<and> (outstanding (table (mpctx s)) = [] \<longrightarrow>
      ((\<exists>s'. mprud_get_outer_poll Iam s = ret (1, s')) \<longleftrightarrow> \<not> head_used s)
      \<and> (head_used s \<longrightarrow> mprud_get_outer_poll Iam s = ret (0, s)))
    \<and> (\<exists>c s'. mprud_get_outer_poll Iam s = ret (c, s') \<and> c \<in> {0, 1})"
proof -
  have sync: "in_sync Iam s" using reach in_sync_ready by (rule in_sync_reach)
  then have ring: "ring_ok (table (mpctx s))" and act: "active_num (mp_manager s) \<le> int MPRUD_NUM_PATH"
    by (simp_all add: in_sync_def)
  show ?thesis
    using ready_iff_finished [OF sync] empty_comp_ready [OF sync] empty_poll [OF sync]
      outer_poll_value [OF ring act, of Iam] by blast
qed

theorem completion_exact_witness:
  "\<not> (\<exists>s'. mprud_get_outer_poll MP_CLIENT one_request = ret (1, s'))"
proof -
  have "\<not> (\<forall>i < nat (active_num (mp_manager one_request)).
      uint (wqe_idx (stat one_request i)) \<noteq> tbl_head (table (mpctx one_request)))"
    by (auto simp: one_request_simps zero_qp_status_def intro!: exI [of _ 0])
  then show ?thesis
    using completion_exact [OF one_request_reach, of MP_CLIENT] by (simp add: one_request_table)
qed

end
