(* ===== verification/Mprud_Split.thy ===== *)
theory Mprud_Split
  imports Mprud_Types
begin

section \<open>Splitting a work request over the paths\<close>

text \<open>
  The arithmetic that \<^verbatim>\<open>mprud_post_send\<close>, \<^verbatim>\<open>mprud_post_recv\<close>,
  \<^verbatim>\<open>mprud_post_send_recovery\<close> and \<^verbatim>\<open>mprud_post_recv_recovery\<close> of
  \<^verbatim>\<open>libibverbs-41mlnx1/src/mprud.c\<close> have in common: a message is cut into one chunk
  per active path, a chunk into packets of at most one MTU, and packets are handed out
  round robin, each path walking its chunk from the end to the beginning. The lemmas show
  that the packets of one send tile the chunks exactly, and which bytes no chunk holds.
\<close>

subsection \<open>The split of a size\<close>

record split_params =
  chunk_size :: u32
  sp_iter_each :: u32
  chnk_last :: u32
  sp_iter :: u32

definition split_msg :: "u32 \<Rightarrow> int \<Rightarrow> split_params" where
  "split_msg sz n =
    (let chunk = sz div word_of_int n;
         each = chunk div of_nat MPRUD_DEFAULT_MTU;
         rest = chunk mod of_nat MPRUD_DEFAULT_MTU;
         each' = (if rest \<noteq> 0 then each + 1 else each);
         rest' = (if rest \<noteq> 0 then rest else of_nat MPRUD_DEFAULT_MTU)
     in \<lparr>chunk_size = chunk, sp_iter_each = each', chnk_last = rest',
         sp_iter = each' * word_of_int n\<rparr>)"

text \<open>
  The split divides by the number of active paths and declares an array of that length:
  zero paths is a division by zero, a negative number an array of negative size.
\<close>

definition split_checked :: "u32 \<Rightarrow> int \<Rightarrow> split_params outcome" where
  "split_checked sz n =
    (if n = 0 then raise DivByZero else if n < 0 then raise OutOfBounds else ret (split_msg sz n))"

subsection \<open>Scatter elements of the packets\<close>

text \<open>
  \<open>turn\<close> is the path, \<open>i\<close> the number of the packet in the whole request, \<open>n\<close> the number
  of chunks. The last packet of a chunk holds the chunk's remainder; on the receiving side
  it goes to the path's slot of the sub buffer.
\<close>

definition send_sge :: "ibv_sge \<Rightarrow> split_params \<Rightarrow> int \<Rightarrow> int \<Rightarrow> nat \<Rightarrow> ibv_sge" where
  "send_sge sge sp n turn i =
    (let base = sge_addr sge + ucast (chunk_size sp * word_of_int (turn + 1));
         a = base - word_of_int ((int i div n + 1) * int MPRUD_DEFAULT_MTU)
     in if sp_iter sp - of_nat i \<le> word_of_int n
        then sge\<lparr>sge_addr := a + (of_nat MPRUD_DEFAULT_MTU - ucast (chnk_last sp)),
                 sge_length := chnk_last sp\<rparr>
        else sge\<lparr>sge_addr := a, sge_length := of_nat MPRUD_DEFAULT_MTU\<rparr>)"

definition recv_sge :: "ibv_sge \<Rightarrow> split_params \<Rightarrow> u64 \<Rightarrow> int \<Rightarrow> int \<Rightarrow> nat \<Rightarrow> ibv_sge" where
  "recv_sge sge sp sub n turn i =
    (let base = sge_addr sge + ucast (chunk_size sp * word_of_int (turn + 1)) + of_nat MPRUD_GRH_SIZE;
         a = base - word_of_int ((int i div n + 1) * int MPRUD_DEFAULT_MTU);
         last = (sp_iter sp - of_nat i \<le> word_of_int n);
         len = (if last then chnk_last sp else of_nat MPRUD_DEFAULT_MTU);
         a' = (if last
               then sub + word_of_int (int (MPRUD_DEFAULT_MTU + MPRUD_GRH_SIZE) * turn) else a)
     in sge\<lparr>sge_addr := a' - of_nat MPRUD_GRH_SIZE, sge_length := len + of_nat MPRUD_GRH_SIZE\<rparr>)"

text \<open>The path that gets packet \<open>i\<close> of a request that starts on path \<open>t\<close>.\<close>

definition turn_of :: "int \<Rightarrow> int \<Rightarrow> nat \<Rightarrow> int" where
  "turn_of n t i = (t + int i) mod n"

text \<open>The byte at address \<open>a\<close> lies in a scatter element.\<close>

definition in_sge :: "u64 \<Rightarrow> ibv_sge \<Rightarrow> bool" where
  "in_sge a g \<longleftrightarrow> unat (a - sge_addr g) < unat (sge_length g)"

subsection \<open>The split as natural numbers\<close>

definition paths_ok :: "int \<Rightarrow> bool" where
  "paths_ok n \<longleftrightarrow> 0 < n \<and> n \<le> int MPRUD_NUM_PATH"

lemma paths_ok_cases: "paths_ok n \<Longrightarrow> n = 1 \<or> n = 2 \<or> n = 3 \<or> n = 4"
  by (auto simp: paths_ok_def MPRUD_NUM_PATH_def)

lemma unat_paths: "paths_ok n \<Longrightarrow> unat (word_of_int n :: u32) = nat n"
  by (auto dest: paths_ok_cases)

lemma split_checked_ok [simp]: "paths_ok n \<Longrightarrow> split_checked sz n = ret (split_msg sz n)"
  by (simp add: split_checked_def paths_ok_def)

lemma unat_chunk_size:
  "paths_ok n \<Longrightarrow> unat (chunk_size (split_msg sz n)) = unat sz div nat n"
  by (simp add: split_msg_def Let_def unat_div unat_paths)

lemma chunk_total_le:
  "paths_ok n \<Longrightarrow> nat n * unat (chunk_size (split_msg sz n)) \<le> unat sz"
  by (simp add: unat_chunk_size)

lemma unat_u32_lt: "unat (x :: u32) < 4294967296"
  using unsigned_less [of x, where 'a = nat] by simp

lemma ceil_div:
  fixes c m :: nat
  assumes "0 < m"
  shows "(c + (m - 1)) div m = (if c mod m = 0 then c div m else c div m + 1)"
proof -
  define q r where "q = c div m" and "r = c mod m"
  have c: "c = q * m + r" and r: "r < m" using assms by (simp_all add: q_def r_def)
  show ?thesis
  proof (cases "r = 0")
    case True
    have "(c + (m - 1)) div m = q"
      using c True assms by (intro div_nat_eqI) (auto simp: algebra_simps)
    with True show ?thesis by (simp add: q_def r_def)
  next
    case False
    have "(c + (m - 1)) div m = q + 1"
      using c r False by (intro div_nat_eqI) (auto simp: algebra_simps)
    with False show ?thesis by (simp add: q_def r_def)
  qed
qed

lemma ceil_div_4096: "(c + 4095) div 4096 = (if c mod 4096 = 0 then c div 4096 else c div 4096 + (1::nat))"
  using ceil_div [of 4096 c] by simp

lemma unat_chnk_last:
  "unat (chnk_last (split_msg sz n)) =
    (let c = unat (chunk_size (split_msg sz n)) in if c mod 4096 = 0 then 4096 else c mod 4096)"
  by (auto simp: split_msg_def Let_def MPRUD_DEFAULT_MTU_def unat_mod unat_eq_0 [symmetric])

lemma unat_iter_each:
  "unat (sp_iter_each (split_msg sz n)) =
    (let c = unat (chunk_size (split_msg sz n)) in (c + 4095) div 4096)"
proof -
  define c where "c = chunk_size (split_msg sz n)"
  have "unat (c div 4096 + 1) = unat c div 4096 + 1"
    using unat_u32_lt [of c] by (simp add: unat_word_ariths unat_div)
  moreover have "sp_iter_each (split_msg sz n) =
      (if c mod 4096 \<noteq> 0 then c div 4096 + 1 else c div 4096)"
    by (simp add: split_msg_def Let_def c_def MPRUD_DEFAULT_MTU_def)
  moreover have "c mod 4096 = 0 \<longleftrightarrow> unat c mod 4096 = 0"
    by (simp add: unat_eq_0 [symmetric] unat_mod)
  ultimately show ?thesis
    by (simp add: Let_def ceil_div_4096 unat_div flip: c_def)
qed

lemma unat_iter:
  assumes "paths_ok n"
  shows "unat (sp_iter (split_msg sz n)) = unat (sp_iter_each (split_msg sz n)) * nat n"
proof -
  define c where "c = unat (chunk_size (split_msg sz n))"
  have "nat n * c \<le> unat sz"
    using chunk_total_le [OF assms, of sz] by (simp add: c_def)
  then have "nat n * c < 4294967296" using unat_u32_lt [of sz] by linarith
  with assms have "(c + 4095) div 4096 * nat n < 2 ^ 32"
    by (auto dest!: paths_ok_cases)
  moreover have "sp_iter (split_msg sz n) = sp_iter_each (split_msg sz n) * word_of_int n"
    by (simp add: split_msg_def Let_def)
  ultimately show ?thesis
    using assms by (simp add: unat_word_ariths unat_paths unat_iter_each c_def Let_def)
qed

text \<open>Every chunk is a number of full packets and one last packet of 1 to 4096 bytes.\<close>

lemma chunk_decomp:
  assumes "0 < unat (chunk_size (split_msg sz n))"
  shows "unat (chunk_size (split_msg sz n)) =
      (unat (sp_iter_each (split_msg sz n)) - 1) * 4096 + unat (chnk_last (split_msg sz n))"
    and "0 < unat (sp_iter_each (split_msg sz n))"
proof -
  define c where "c = unat (chunk_size (split_msg sz n))"
  have "c = (if c mod 4096 = 0 then c div 4096 - 1 else c div 4096) * 4096
      + (if c mod 4096 = 0 then 4096 else c mod 4096)"
    and "0 < (if c mod 4096 = 0 then c div 4096 else c div 4096 + 1)"
    using assms div_mult_mod_eq [of c 4096] unfolding c_def [symmetric] by (auto simp: algebra_simps)
  then show "unat (chunk_size (split_msg sz n)) =
      (unat (sp_iter_each (split_msg sz n)) - 1) * 4096 + unat (chnk_last (split_msg sz n))"
    and "0 < unat (sp_iter_each (split_msg sz n))"
    unfolding unat_iter_each unat_chnk_last Let_def c_def [symmetric] ceil_div_4096
    by (simp_all split: if_splits)
qed

lemma chnk_last_bounds:
  "0 < unat (chnk_last (split_msg sz n))" "unat (chnk_last (split_msg sz n)) \<le> 4096"
  unfolding unat_chnk_last Let_def by auto

subsection \<open>What a packet covers\<close>

text \<open>Offset in its chunk and length of the packet of round \<open>k\<close>, for a chunk of \<open>c\<close> bytes.\<close>

definition pkt_off :: "nat \<Rightarrow> nat \<Rightarrow> nat" where
  "pkt_off c k = (if (c + 4095) div 4096 \<le> k + 1 then 0 else c - (k + 1) * 4096)"

definition pkt_len :: "nat \<Rightarrow> nat \<Rightarrow> nat" where
  "pkt_len c k = (if (c + 4095) div 4096 \<le> k + 1 then (if c mod 4096 = 0 then 4096 else c mod 4096)
     else 4096)"

lemma is_last_packet:
  assumes "paths_ok n" and "i < unat (sp_iter (split_msg sz n))"
  shows "sp_iter (split_msg sz n) - of_nat i \<le> word_of_int n \<longleftrightarrow>
    unat (sp_iter_each (split_msg sz n)) \<le> i div nat n + 1"
proof -
  define it where "it = sp_iter (split_msg sz n)"
  define e where "e = unat (sp_iter_each (split_msg sz n))"
  have it: "unat it = e * nat n" using unat_iter [OF assms(1)] by (simp add: it_def e_def)
  have n: "0 < nat n" using assms(1) by (simp add: paths_ok_def)
  have i: "i < unat it" using assms(2) by (simp add: it_def)
  then have "i < 4294967296" using unat_u32_lt [of it] by linarith
  then have oi: "unat (of_nat i :: u32) = i" by (simp add: unat_of_nat)
  with i have "(of_nat i :: u32) \<le> it" by (simp add: word_le_nat_alt)
  then have "unat (it - of_nat i) = unat it - i" by (simp add: unat_sub oi)
  then have "it - of_nat i \<le> word_of_int n \<longleftrightarrow> e * nat n - i \<le> nat n"
    by (simp add: word_le_nat_alt unat_paths [OF assms(1)] it)
  also have "\<dots> \<longleftrightarrow> (e - 1) * nat n \<le> i"
    by (cases e) auto
  also have "\<dots> \<longleftrightarrow> e - 1 \<le> i div nat n"
    using n by (simp add: less_eq_div_iff_mult_less_eq)
  finally show ?thesis by (auto simp: it_def e_def)
qed

lemma round_less:
  assumes "paths_ok n" and "i < unat (sp_iter (split_msg sz n))"
  shows "i div nat n < (unat (chunk_size (split_msg sz n)) + 4095) div 4096"
  using assms unat_iter [OF assms(1), of sz] unat_iter_each [of sz n]
  by (simp add: Let_def less_mult_imp_div_less)

lemma pkt_in_chunk:
  assumes "k < (c + 4095) div 4096"
  shows "0 < pkt_len c k" "pkt_len c k \<le> 4096" "pkt_off c k + pkt_len c k \<le> c"
    "pkt_off c k + (k + 1) * 4096 = c + (4096 - pkt_len c k)"
proof -
  obtain q r where c: "c = q * 4096 + r" and r: "r < 4096"
    by (metis div_mult_mod_eq mod_less_divisor zero_less_numeral)
  have dm: "c div 4096 = q" "c mod 4096 = r" using c r by simp_all
  have k: "if r = 0 then k < q else k \<le> q"
    using assms by (simp add: ceil_div_4096 dm split: if_splits)
  show "0 < pkt_len c k" "pkt_len c k \<le> 4096" by (auto simp: pkt_len_def)
  show "pkt_off c k + (k + 1) * 4096 = c + (4096 - pkt_len c k)"
    using k r unfolding pkt_off_def pkt_len_def ceil_div_4096 dm by (auto simp: c)
  then show "pkt_off c k + pkt_len c k \<le> c"
    using \<open>pkt_len c k \<le> 4096\<close> by simp
qed

lemma chunk_base:
  assumes "paths_ok n" and "0 \<le> t" and "t < n"
  shows "ucast (chunk_size (split_msg sz n) * word_of_int (t + 1)) =
    (of_nat ((nat t + 1) * unat (chunk_size (split_msg sz n))) :: u64)"
proof -
  define c where "c = chunk_size (split_msg sz n)"
  have "nat n * unat c \<le> unat sz" using chunk_total_le [OF assms(1)] by (simp add: c_def)
  moreover have "(nat t + 1) * unat c \<le> nat n * unat c" using assms by (intro mult_right_mono) auto
  ultimately have lt: "(nat t + 1) * unat c < 4294967296" using unat_u32_lt [of sz] by linarith
  have "unat (word_of_int (t + 1) :: u32) = nat t + 1"
  proof -
    have "t = 0 \<or> t = 1 \<or> t = 2 \<or> t = 3" using assms by (auto dest!: paths_ok_cases)
    then show ?thesis by auto
  qed
  with lt have "unat (c * word_of_int (t + 1)) = (nat t + 1) * unat c"
    by (simp add: unat_word_ariths mult.commute)
  moreover have "ucast w = (of_nat (unat w) :: u64)" for w :: u32
    by simp
  ultimately show ?thesis unfolding c_def by metis
qed

lemma u32_of_unat: "unat w = k \<Longrightarrow> w = (of_nat k :: u32)"
  by auto

lemma chnk_last_pkt_len:
  assumes "paths_ok n" and "i < unat (sp_iter (split_msg sz n))"
    and "unat (sp_iter_each (split_msg sz n)) \<le> i div nat n + 1"
  shows "chnk_last (split_msg sz n) =
    of_nat (pkt_len (unat (chunk_size (split_msg sz n))) (i div nat n))"
  using assms(3) unfolding unat_iter_each Let_def
  by (intro u32_of_unat) (simp add: unat_chnk_last pkt_len_def Let_def)

lemma send_sge_eq:
  assumes n: "paths_ok n" and t: "0 \<le> t" "t < n" and i: "i < unat (sp_iter (split_msg sz n))"
  shows "send_sge g (split_msg sz n) n t i =
    g\<lparr>sge_addr := sge_addr g + of_nat (nat t * unat (chunk_size (split_msg sz n))
         + pkt_off (unat (chunk_size (split_msg sz n))) (i div nat n)),
      sge_length := of_nat (pkt_len (unat (chunk_size (split_msg sz n))) (i div nat n))\<rparr>"
proof -
  define c where "c = unat (chunk_size (split_msg sz n))"
  define k where "k = i div nat n"
  define sp where "sp = split_msg sz n"
  have c_sp: "unat (chunk_size sp) = c" by (simp add: c_def sp_def)
  note pk = pkt_in_chunk [OF round_less [OF n i], folded c_def k_def]
  have k': "(word_of_int ((int i div n + 1) * int MPRUD_DEFAULT_MTU) :: u64) = of_nat ((k + 1) * 4096)"
  proof -
    have "(int i div n + 1) * int MPRUD_DEFAULT_MTU = int ((k + 1) * 4096)"
      using n by (simp add: k_def MPRUD_DEFAULT_MTU_def paths_ok_def zdiv_int)
    then show ?thesis by (simp only: of_int_of_nat_eq)
  qed
  have len4: "(of_nat (4096 - pkt_len c k) :: u64) = 4096 - of_nat (pkt_len c k)"
    using pk(2) by (simp add: of_nat_diff)
  have "(of_nat (pkt_off c k + (k + 1) * 4096) :: u64) = of_nat (c + (4096 - pkt_len c k))"
    using pk(4) by (rule arg_cong)
  then have "(of_nat (pkt_off c k) :: u64) + of_nat ((k + 1) * 4096) =
      of_nat c + (4096 - of_nat (pkt_len c k))"
    by (simp only: of_nat_add len4)
  then have off: "(of_nat (pkt_off c k) :: u64) =
      of_nat c + (4096 - of_nat (pkt_len c k)) - of_nat ((k + 1) * 4096)"
    by (simp only: eq_diff_eq)
  have base: "(ucast (chunk_size sp * word_of_int (t + 1)) :: u64) = of_nat (nat t * c) + of_nat c"
    unfolding sp_def chunk_base [OF n t] by (simp add: c_def algebra_simps)
  show ?thesis
  proof (cases "unat (sp_iter_each sp) \<le> k + 1")
    case True
    have "chnk_last sp = of_nat (pkt_len c k)"
      using chnk_last_pkt_len [OF n i] True by (simp add: sp_def c_def k_def)
    moreover have "unat (of_nat (pkt_len c k) :: u32) = pkt_len c k"
      using pk(2) by (simp add: unat_of_nat)
    then have "(ucast (of_nat (pkt_len c k) :: u32) :: u64) = of_nat (pkt_len c k)"
      by (metis of_nat_unat)
    ultimately show ?thesis
      using True is_last_packet [OF n i, folded k_def sp_def]
      unfolding send_sge_def Let_def k_def [symmetric] sp_def [symmetric] base k' c_sp
      by (simp add: off MPRUD_DEFAULT_MTU_def)
  next
    case False
    then have "pkt_len c k = 4096"
      by (simp add: pkt_len_def sp_def c_def unat_iter_each Let_def)
    with False show ?thesis
      using is_last_packet [OF n i, folded k_def sp_def]
      unfolding send_sge_def Let_def k_def [symmetric] sp_def [symmetric] base k' c_sp
      by (simp add: off MPRUD_DEFAULT_MTU_def)
  qed
qed

lemma unat_of_nat_diff:
  assumes "a < 2 ^ 33" and "b < 2 ^ 33"
  shows "unat (of_nat a - of_nat b :: u64) = (if b \<le> a then a - b else 2 ^ 64 - (b - a))"
  using assms by (auto simp: unat_sub_if' unat_of_nat)

lemma in_sge_iff:
  assumes "a < 2 ^ 32" and "x < 2 ^ 32" and "l \<le> 4096"
    and "sge_addr p = base + of_nat x" and "sge_length p = of_nat l"
  shows "in_sge (base + of_nat a) p \<longleftrightarrow> x \<le> a \<and> a < x + l"
proof -
  have "unat (of_nat l :: u32) = l" using assms(3) by (simp add: unat_of_nat)
  with assms unat_of_nat_diff [of a x] show ?thesis
    by (auto simp: in_sge_def)
qed

subsection \<open>The packets of a send tile the chunks\<close>

lemma pkt_covers_iff:
  assumes "k < (c + 4095) div 4096" and "r < c"
  shows "pkt_off c k \<le> r \<and> r < pkt_off c k + pkt_len c k \<longleftrightarrow> k = (c - 1 - r) div 4096"
proof -
  note pk = pkt_in_chunk [OF assms(1)]
  have "r < pkt_off c k + pkt_len c k \<longleftrightarrow> k * 4096 \<le> c - 1 - r"
    using pk(2,4) assms(2) by auto
  moreover have "pkt_off c k \<le> r \<longleftrightarrow> c - 1 - r < (k + 1) * 4096"
  proof (cases "(c + 4095) div 4096 \<le> k + 1")
    case True
    then have "pkt_off c k = 0" by (simp add: pkt_off_def)
    moreover have "c \<le> (k + 1) * 4096" using pk(2,4) \<open>pkt_off c k = 0\<close> by simp
    ultimately show ?thesis using assms(2) by linarith
  next
    case False
    then have "pkt_len c k = 4096" by (simp add: pkt_len_def)
    with pk(4) assms(2) show ?thesis by linarith
  qed
  ultimately show ?thesis
    by (auto simp: div_nat_eqI algebra_simps intro!: div_nat_eqI [symmetric])
qed

lemma round_robin_ex1:
  fixes N a t k :: nat
  assumes "0 < N" and "a < N" and "t < N"
  shows "\<exists>!i. i div N = k \<and> (a + i) mod N = t"
proof (rule ex1I)
  show "(k * N + (t + N - a) mod N) div N = k \<and> (a + (k * N + (t + N - a) mod N)) mod N = t"
  proof
    show "(k * N + (t + N - a) mod N) div N = k" using assms by simp
    have "a + (k * N + (t + N - a) mod N) = a + (t + N - a) mod N + k * N" by simp
    then have "(a + (k * N + (t + N - a) mod N)) mod N = (a + (t + N - a) mod N) mod N"
      by (simp only: mod_mult_self1)
    also have "\<dots> = (a + (t + N - a)) mod N" by (rule mod_add_right_eq)
    finally have "(a + (k * N + (t + N - a) mod N)) mod N = (a + (t + N - a)) mod N" .
    then show "(a + (k * N + (t + N - a) mod N)) mod N = t" using assms by simp
  qed
next
  fix i
  assume i: "i div N = k \<and> (a + i) mod N = t"
  have "(t + N - a) mod N = ((a + i) mod N + (N - a)) mod N" using i assms by simp
  also have "\<dots> = (a + i + (N - a)) mod N" by (rule mod_add_left_eq)
  also have "\<dots> = (i + N) mod N" using assms by (simp add: add.commute)
  finally have "(t + N - a) mod N = i mod N" by simp
  then show "i = k * N + (t + N - a) mod N" using i div_mult_mod_eq [of i N] by simp
qed

lemma turn_of_range:
  assumes "paths_ok n" and "0 \<le> t" and "t < n"
  shows "0 \<le> turn_of n t i" "turn_of n t i < n" "nat (turn_of n t i) = (nat t + i) mod nat n"
  using assms by (auto simp: turn_of_def paths_ok_def nat_mod_distrib nat_add_distrib)

lemma send_sge_covers:
  assumes n: "paths_ok n" and t: "0 \<le> t" "t < n" and i: "i < unat (sp_iter (split_msg sz n))"
    and x: "x < nat n * unat (chunk_size (split_msg sz n))"
  defines "c \<equiv> unat (chunk_size (split_msg sz n))"
  shows "in_sge (sge_addr g + of_nat x) (send_sge g (split_msg sz n) n (turn_of n t i) i) \<longleftrightarrow>
    i div nat n = (c - 1 - x mod c) div 4096 \<and> (nat t + i) mod nat n = x div c"
proof -
  define k where "k = i div nat n"
  define u where "u = (nat t + i) mod nat n"
  have k: "k < (c + 4095) div 4096" using round_less [OF n i] by (simp add: k_def c_def)
  note pk = pkt_in_chunk [OF k]
  have c0: "0 < c" using x by (cases "c = 0") (auto simp: c_def)
  have "u < nat n" using n by (simp add: u_def paths_ok_def)
  then have "(u + 1) * c \<le> nat n * c" by (intro mult_right_mono) auto
  moreover have tot: "nat n * c \<le> unat sz" using chunk_total_le [OF n] by (simp add: c_def)
  ultimately have "u * c + pkt_off c k < 2 ^ 32"
    using pk(1,3) unat_u32_lt [of sz] by (auto simp: algebra_simps)
  moreover have "x < 2 ^ 32" using x tot unat_u32_lt [of sz] by (simp add: c_def)
  ultimately have "in_sge (sge_addr g + of_nat x) (send_sge g (split_msg sz n) n (turn_of n t i) i)
      \<longleftrightarrow> u * c + pkt_off c k \<le> x \<and> x < u * c + pkt_off c k + pkt_len c k"
    using pk(2) turn_of_range [OF n t, of i]
    by (intro in_sge_iff) (simp_all add: send_sge_eq [OF n _ _ i] c_def k_def u_def)
  also have "\<dots> \<longleftrightarrow> u = x div c \<and> pkt_off c k \<le> x mod c \<and> x mod c < pkt_off c k + pkt_len c k"
  proof
    assume in_pkt: "u * c + pkt_off c k \<le> x \<and> x < u * c + pkt_off c k + pkt_len c k"
    then have "x div c = u"
      using pk(3) by (intro div_nat_eqI) (auto simp: algebra_simps)
    moreover from this have "x = u * c + x mod c" by (metis div_mult_mod_eq)
    ultimately show "u = x div c \<and> pkt_off c k \<le> x mod c \<and> x mod c < pkt_off c k + pkt_len c k"
      using in_pkt by linarith
  next
    assume "u = x div c \<and> pkt_off c k \<le> x mod c \<and> x mod c < pkt_off c k + pkt_len c k"
    moreover have "x = x div c * c + x mod c" by simp
    ultimately show "u * c + pkt_off c k \<le> x \<and> x < u * c + pkt_off c k + pkt_len c k"
      by (metis add.assoc add_le_cancel_left add_less_cancel_left)
  qed
  also have "\<dots> \<longleftrightarrow> k = (c - 1 - x mod c) div 4096 \<and> u = x div c"
    using pkt_covers_iff [OF k] c0 by auto
  finally show ?thesis by (simp only: k_def u_def)
qed

lemma send_tiles_chunks:
  assumes n: "paths_ok n" and t: "0 \<le> t" "t < n"
    and x: "x < nat n * unat (chunk_size (split_msg sz n))"
  shows "\<exists>!i. i < unat (sp_iter (split_msg sz n)) \<and>
    in_sge (sge_addr g + of_nat x) (send_sge g (split_msg sz n) n (turn_of n t i) i)"
proof -
  define c where "c = unat (chunk_size (split_msg sz n))"
  define k where "k = (c - 1 - x mod c) div 4096"
  have N: "0 < nat n" using n by (simp add: paths_ok_def)
  have c0: "0 < c" using x by (cases "c = 0") (auto simp: c_def)
  have "x div c < nat n" using x by (simp add: c_def less_mult_imp_div_less)
  with N t have "\<exists>!i. i div nat n = k \<and> (nat t + i) mod nat n = x div c"
    by (intro round_robin_ex1) auto
  moreover have "i < unat (sp_iter (split_msg sz n))" if "i div nat n = k" for i
  proof -
    have "k < (c + 4095) div 4096"
    proof -
      have "k \<le> (c - 1) div 4096" unfolding k_def by (rule div_le_mono) simp
      also have "(c - 1) div 4096 < (c - 1) div 4096 + 1" by simp
      also have "\<dots> = (c - 1 + 4096) div 4096" by simp
      also have "c - 1 + 4096 = c + 4095" using c0 by simp
      finally show ?thesis .
    qed
    with that have "i div nat n < unat (sp_iter_each (split_msg sz n))"
      by (simp add: unat_iter_each c_def Let_def)
    then show ?thesis using unat_iter [OF n, of sz] N by (simp add: div_less_iff_less_mult)
  qed
  moreover have "in_sge (sge_addr g + of_nat x) (send_sge g (split_msg sz n) n (turn_of n t i) i)
      \<longleftrightarrow> i div nat n = k \<and> (nat t + i) mod nat n = x div c"
    if "i < unat (sp_iter (split_msg sz n))" for i
    using send_sge_covers [OF n t that x] by (simp add: c_def k_def)
  ultimately show ?thesis by metis
qed

lemma send_covers_nothing_else:
  assumes n: "paths_ok n" and t: "0 \<le> t" "t < n"
    and i: "i < unat (sp_iter (split_msg sz n))"
    and x: "nat n * unat (chunk_size (split_msg sz n)) \<le> x" "x < 2 ^ 32"
  shows "\<not> in_sge (sge_addr g + of_nat x) (send_sge g (split_msg sz n) n (turn_of n t i) i)"
proof -
  define c where "c = unat (chunk_size (split_msg sz n))"
  define k where "k = i div nat n"
  define u where "u = (nat t + i) mod nat n"
  have k: "k < (c + 4095) div 4096" using round_less [OF n i] by (simp add: k_def c_def)
  note pk = pkt_in_chunk [OF k]
  have "u < nat n" using n by (simp add: u_def paths_ok_def)
  then have u1: "(u + 1) * c \<le> nat n * c" by (intro mult_right_mono) auto
  then have le: "u * c + pkt_off c k + pkt_len c k \<le> nat n * c" using pk(3) by simp
  have "nat n * c \<le> unat sz" using chunk_total_le [OF n] by (simp add: c_def)
  with le pk(1) have "u * c + pkt_off c k < 2 ^ 32" using unat_u32_lt [of sz] by simp
  then have "in_sge (sge_addr g + of_nat x) (send_sge g (split_msg sz n) n (turn_of n t i) i)
      \<longleftrightarrow> u * c + pkt_off c k \<le> x \<and> x < u * c + pkt_off c k + pkt_len c k"
    using pk(2) turn_of_range [OF n t, of i] x(2)
    by (intro in_sge_iff) (simp_all add: send_sge_eq [OF n _ _ i] c_def k_def u_def)
  with le x(1) show ?thesis by (simp add: c_def)
qed

subsection \<open>Receive elements\<close>

lemma u64_of_pkt_len: "l \<le> 4096 \<Longrightarrow> unat (of_nat l :: u32) = l"
  by (simp add: unat_of_nat)

lemma recv_sge_eq:
  assumes n: "paths_ok n" and t: "0 \<le> t" "t < n" and i: "i < unat (sp_iter (split_msg sz n))"
  defines "c \<equiv> unat (chunk_size (split_msg sz n))" and "k \<equiv> i div nat n"
  shows "recv_sge g (split_msg sz n) sub n t i =
    g\<lparr>sge_addr := (if (c + 4095) div 4096 \<le> k + 1 then sub + of_nat (4136 * nat t) - 40
         else sge_addr g + of_nat (nat t * c + pkt_off c k)),
      sge_length := of_nat (pkt_len c k + 40)\<rparr>"
proof -
  define sp where "sp = split_msg sz n"
  have c_sp: "unat (chunk_size sp) = c" by (simp add: c_def sp_def)
  have each: "unat (sp_iter_each sp) = (c + 4095) div 4096"
    by (simp add: sp_def unat_iter_each c_def Let_def)
  note lastp = is_last_packet [OF n i, folded k_def sp_def, unfolded each]
  have turn: "(word_of_int (int (MPRUD_DEFAULT_MTU + MPRUD_GRH_SIZE) * t) :: u64) = of_nat (4136 * nat t)"
    using t by (simp add: MPRUD_DEFAULT_MTU_def MPRUD_GRH_SIZE_def)
  show ?thesis
  proof (cases "(c + 4095) div 4096 \<le> k + 1")
    case True
    then have "chnk_last sp = of_nat (pkt_len c k)"
      using chnk_last_pkt_len [OF n i] each by (simp add: sp_def c_def k_def)
    with True lastp show ?thesis
      unfolding recv_sge_def Let_def sp_def [symmetric] turn by (simp add: MPRUD_GRH_SIZE_def)
  next
    case False
    then have len: "pkt_len c k = 4096" by (simp add: pkt_len_def)
    have "send_sge g sp n t i = g\<lparr>sge_addr := sge_addr g + of_nat (nat t * c + pkt_off c k),
        sge_length := of_nat 4096\<rparr>"
      using send_sge_eq [OF n t i, of g] len by (simp add: sp_def c_def k_def)
    with False lastp have "sge_addr g + ucast (chunk_size sp * word_of_int (t + 1)) -
        word_of_int ((int i div n + 1) * int MPRUD_DEFAULT_MTU) =
        sge_addr g + of_nat (nat t * c + pkt_off c k)"
      unfolding send_sge_def Let_def by (auto dest!: arg_cong [where f = sge_addr])
    with False lastp len show ?thesis
      unfolding recv_sge_def Let_def sp_def [symmetric]
      by (simp add: MPRUD_GRH_SIZE_def MPRUD_DEFAULT_MTU_def algebra_simps)
  qed
qed

text \<open>
  The first 40 bytes of a receive element take the packet's global routing header, the rest
  its payload.
\<close>

definition in_header :: "u64 \<Rightarrow> ibv_sge \<Rightarrow> bool" where
  "in_header a g \<longleftrightarrow> unat (a - sge_addr g) < MPRUD_GRH_SIZE"

definition in_payload :: "u64 \<Rightarrow> ibv_sge \<Rightarrow> bool" where
  "in_payload a g \<longleftrightarrow> MPRUD_GRH_SIZE \<le> unat (a - sge_addr g) \<and> in_sge a g"

subsection \<open>Packets per path\<close>

lemma packets_of_round:
  assumes n: "paths_ok n" and t: "0 \<le> t" "t < n" and p: "0 \<le> p" "p < n"
  shows "card {i. i < e * nat n \<and> turn_of n t i = p} = e"
proof -
  define N a q where "N = nat n" and "a = nat t" and "q = nat p"
  have N: "0 < N" "a < N" "q < N" using n t p by (auto simp: N_def a_def q_def paths_ok_def)
  have turn: "turn_of n t i = p \<longleftrightarrow> (a + i) mod N = q" for i
    using turn_of_range [OF n t, of i] p by (auto simp: N_def a_def q_def)
  note ex1 = round_robin_ex1 [OF N]
  have "bij_betw (\<lambda>i. i div N) {i. i < e * N \<and> (a + i) mod N = q} {..<e}"
  proof (rule bij_betw_imageI)
    show "inj_on (\<lambda>i. i div N) {i. i < e * N \<and> (a + i) mod N = q}"
      using ex1 by (intro inj_onI) (auto; blast)
    show "(\<lambda>i. i div N) ` {i. i < e * N \<and> (a + i) mod N = q} = {..<e}"
    proof (intro equalityI subsetI)
      fix k assume "k \<in> {..<e}"
      then have k: "k < e" by simp
      obtain i where i: "i div N = k" "(a + i) mod N = q" using ex1 by blast
      with k N have "i < e * N" by (simp flip: div_less_iff_less_mult)
      with i show "k \<in> (\<lambda>i. i div N) ` {i. i < e * N \<and> (a + i) mod N = q}" by blast
    qed (auto simp: less_mult_imp_div_less)
  qed
  then show ?thesis by (auto simp: turn bij_betw_same_card N_def)
qed

subsection \<open>Properties\<close>

lemma send_tiling_core:
  assumes "paths_ok n" and "0 \<le> t" and "t < n" and "x < 2 ^ 32"
  shows "let sp = split_msg sz n in if x < unat sz - unat sz mod nat n
    then \<exists>!i. i < unat (sp_iter sp) \<and> in_sge (sge_addr g + of_nat x) (send_sge g sp n (turn_of n t i) i)
    else \<forall>i < unat (sp_iter sp). \<not> in_sge (sge_addr g + of_nat x) (send_sge g sp n (turn_of n t i) i)"
proof -
  have "nat n * unat (chunk_size (split_msg sz n)) = unat sz - unat sz mod nat n"
    by (simp add: unat_chunk_size [OF assms(1)] minus_mod_eq_mult_div)
  then show ?thesis
    using send_tiles_chunks [OF assms(1-3)] send_covers_nothing_else [OF assms(1-3)] assms(4)
    by (auto simp: Let_def not_less)
qed

text \<open>
  C3: the packets of a send partition the message up to its largest multiple of the number of
  paths: each such byte is sent in exactly one packet, whatever path the request starts on,
  and no packet holds any other byte.
\<close>

theorem send_tiling:
  assumes "paths_ok n" and "0 \<le> t" and "t < n" and "x < 2 ^ 32"
  shows "let sp = split_msg sz n in if x < unat sz - unat sz mod nat n
    then \<exists>!i. i < unat (sp_iter sp) \<and> in_sge (sge_addr g + of_nat x) (send_sge g sp n (turn_of n t i) i)
    else \<forall>i < unat (sp_iter sp). \<not> in_sge (sge_addr g + of_nat x) (send_sge g sp n (turn_of n t i) i)"
  using assms by (rule send_tiling_core)

theorem send_tiling_witness:
  "\<exists>!i. i < unat (sp_iter (split_msg 40001 4)) \<and>
     in_sge (sge_addr zero_sge + of_nat 5) (send_sge zero_sge (split_msg 40001 4) 4 (turn_of 4 2 i) i)"
  using send_tiling [of 4 2 5 40001 zero_sge] by (simp add: Let_def paths_ok_def MPRUD_NUM_PATH_def)

text \<open>
  When the number of paths does not divide the size, the last byte of the message is in
  no packet: no path handles what is left over.
\<close>

lemma send_drops_remainder:
  assumes "paths_ok n" and "0 \<le> t" and "t < n" and "unat sz mod nat n \<noteq> 0"
  shows "\<forall>i < unat (sp_iter (split_msg sz n)).
    \<not> in_sge (sge_addr g + of_nat (unat sz - 1)) (send_sge g (split_msg sz n) n (turn_of n t i) i)"
proof -
  have "nat n * unat (chunk_size (split_msg sz n)) = unat sz - unat sz mod nat n"
    by (simp add: unat_chunk_size [OF assms(1)] minus_mod_eq_mult_div)
  also have "\<dots> \<le> unat sz - 1" using assms(4) by simp
  finally show ?thesis
    using send_covers_nothing_else [OF assms(1-3)] unat_u32_lt [of sz] by simp
qed

lemma send_drops_remainder_witness:
  "list_all (\<lambda>i. \<not> in_sge (sge_addr zero_sge + of_nat (unat (40001 :: u32) - 1))
       (send_sge zero_sge (split_msg 40001 4) 4 (turn_of 4 2 i) i)) [0..<unat (sp_iter (split_msg 40001 4))]"
  using send_drops_remainder [of 4 2 40001 zero_sge]
  by (simp add: paths_ok_def MPRUD_NUM_PATH_def list_all_iff del: upt_conv_Cons)

text \<open>
  C6: sender and receiver agree on the split: packet by packet they use the same path, a
  packet has 1 to 4096 bytes of payload, the receive element is 40 bytes longer, for the
  packet's global routing header, and every path carries the same number of packets.
\<close>

theorem send_recv_match:
  assumes "paths_ok n" and "0 \<le> t" and "t < n" and "0 \<le> p" and "p < n"
  shows "(\<forall>i < unat (sp_iter (split_msg sz n)).
      let l = sge_length (send_sge g (split_msg sz n) n (turn_of n t i) i)
      in 0 < l \<and> l \<le> 4096 \<and> sge_length (recv_sge g' (split_msg sz n) sub n (turn_of n t i) i) = l + 40) \<and>
    card {i. i < unat (sp_iter (split_msg sz n)) \<and> turn_of n t i = p} = unat (sp_iter_each (split_msg sz n))"
proof -
  define sp where "sp = split_msg sz n"
  have pkts: "\<forall>i < unat (sp_iter sp).
      let l = sge_length (send_sge g sp n (turn_of n t i) i)
      in 0 < l \<and> l \<le> 4096 \<and> sge_length (recv_sge g' sp sub n (turn_of n t i) i) = l + 40"
  proof (intro allI impI)
    fix i
    assume i: "i < unat (sp_iter sp)"
    define c k where "c = unat (chunk_size sp)" and "k = i div nat n"
    note u = turn_of_range [OF assms(1-3), of i]
    note pk = pkt_in_chunk [OF round_less [OF assms(1) i [unfolded sp_def]]]
    have len: "unat (of_nat (pkt_len c k) :: u32) = pkt_len c k"
      using pk(2) by (intro u64_of_pkt_len) (simp add: c_def k_def sp_def)
    have "sge_length (send_sge g sp n (turn_of n t i) i) = of_nat (pkt_len c k)"
      "sge_length (recv_sge g' sp sub n (turn_of n t i) i) = of_nat (pkt_len c k) + 40"
      using send_sge_eq [OF assms(1) u(1,2) i [unfolded sp_def]]
        recv_sge_eq [OF assms(1) u(1,2) i [unfolded sp_def]]
      by (simp_all add: sp_def c_def k_def)
    moreover have "0 < pkt_len c k" "pkt_len c k \<le> 4096"
      using pk(1,2) by (simp_all add: c_def k_def sp_def)
    ultimately show "let l = sge_length (send_sge g sp n (turn_of n t i) i)
      in 0 < l \<and> l \<le> 4096 \<and> sge_length (recv_sge g' sp sub n (turn_of n t i) i) = l + 40"
      by (simp add: Let_def word_less_nat_alt word_le_nat_alt len)
  qed
  moreover have "card {i. i < unat (sp_iter sp) \<and> turn_of n t i = p} = unat (sp_iter_each sp)"
    using packets_of_round [OF assms(1-5)] unat_iter [OF assms(1), of sz] by (simp add: sp_def)
  ultimately show ?thesis by (simp add: sp_def)
qed

theorem send_recv_match_witness:
  "card {i. i < unat (sp_iter (split_msg 40001 4)) \<and> turn_of 4 2 i = 3} = 3"
  using send_recv_match [of 4 2 3 40001 zero_sge zero_sge 0] unat_iter_each [of 40001 4]
    unat_chunk_size [of 4 40001]
  by (simp add: paths_ok_def MPRUD_NUM_PATH_def)

end
