(* ===== verification/Mprud_Buffers.thy ===== *)
theory Mprud_Buffers
  imports Mprud_Split Mprud_Poll
begin

section \<open>Where received bytes land\<close>

text \<open>
  The tail of the registered buffer holds the layer's own areas (\<^verbatim>\<open>mprud_set_outer_buffer\<close>):
  one slot per path for the last packet of a chunk, then the control messages. The lemmas say
  where the payload of a packet and the 40 bytes of its routing header go, and what the copy
  of the last packet (\<^verbatim>\<open>copy_last_packet\<close>) reads.
\<close>

subsection \<open>Layout\<close>

text \<open>The slot of path \<open>k\<close> in the sub buffer, as the last receive of a chunk uses it.\<close>

definition in_slot :: "u64 \<Rightarrow> nat \<Rightarrow> u64 \<Rightarrow> bool" where
  "in_slot sub k a \<longleftrightarrow> unat (a - (sub + of_nat (4136 * k) - 40)) < 4136"

lemma outer_buffer_bufs:
  "buf_recv (bufs (mpctx (mprud_set_outer_buffer ptr len s))) = ptr + ucast len - 56"
  "buf_send (bufs (mpctx (mprud_set_outer_buffer ptr len s))) = ptr + ucast len - 72"
  "buf_last (bufs (mpctx (mprud_set_outer_buffer ptr len s))) = ptr + ucast len - 4208"
  "buf_sub (bufs (mpctx (mprud_set_outer_buffer ptr len s))) = ptr + ucast len - 20752"
  by (simp_all add: mprud_set_outer_buffer_def Let_def mprud_consts)

text \<open>The slots follow each other without overlap.\<close>

lemma in_slot_unique:
  assumes "in_slot sub j a" and "in_slot sub k a" and "j < 4" and "k < 4"
  shows "j = k"
proof -
  define d where "d = a - (sub - 40)"
  have d: "unat (d - of_nat (4136 * j)) < 4136" "unat (d - of_nat (4136 * k)) < 4136"
    using assms(1,2) by (simp_all add: in_slot_def d_def algebra_simps)
  have "unat d = 4136 * l + unat (d - of_nat (4136 * l))" if "unat (d - of_nat (4136 * l)) < 4136" "l < 4" for l
  proof -
    have "unat (of_nat (4136 * l) :: u64) = 4136 * l"
      using that(2) by (intro unat_of_nat_u64) simp
    then have "unat (of_nat (4136 * l) + (d - of_nat (4136 * l))) = 4136 * l + unat (d - of_nat (4136 * l))"
      using that by (subst unat_add_lem [THEN iffD1]) auto
    then show ?thesis by simp
  qed
  from this [OF d(1) assms(3)] this [OF d(2) assms(4)] d show ?thesis by auto
qed

subsection \<open>Receive elements\<close>

text \<open>
  C7: the payload of every packet but the last of a chunk is received at the offset it was
  sent from, counted from 40 bytes into the receive buffer; the payload of the last packet of
  a chunk goes to the path's slot of the sub buffer, and no two slots overlap.
\<close>

theorem recv_placement:
  assumes "paths_ok n" and "0 \<le> t" and "t < n" and "i < unat (sp_iter (split_msg sz n))"
  shows "let sp = split_msg sz n; r = recv_sge g' sp sub n t i
    in if i div nat n + 1 < unat (sp_iter_each sp)
       then sge_addr r + 40 - (sge_addr g' + 40) = sge_addr (send_sge g sp n t i) - sge_addr g
       else \<forall>a. in_sge a r \<longrightarrow> in_slot sub (nat t) a
         \<and> (\<forall>j<4. in_slot sub j a \<longrightarrow> j = nat t)"
proof -
  define sp where "sp = split_msg sz n"
  note r = recv_sge_eq [OF assms, of g' sub] and s = send_sge_eq [OF assms, of g]
  have each: "unat (sp_iter_each sp) = (unat (chunk_size sp) + 4095) div 4096"
    by (simp add: sp_def unat_iter_each Let_def)
  show ?thesis
  proof (cases "i div nat n + 1 < unat (sp_iter_each sp)")
    case True
    then show ?thesis using r s each by (simp add: Let_def sp_def [symmetric])
  next
    case False
    define l where "l = pkt_len (unat (chunk_size sp)) (i div nat n)"
    have "l \<le> 4096"
      using pkt_in_chunk(2) [OF round_less [OF assms(1,4)]] by (simp add: l_def sp_def)
    then have len: "unat (of_nat (l + 40) :: u32) \<le> 4136"
      by (subst unat_of_nat_u32) simp_all
    have "recv_sge g' sp sub n t i = g'\<lparr>sge_addr := sub + of_nat (4136 * nat t) - 40,
        sge_length := of_nat (l + 40)\<rparr>"
      using r False each by (simp add: sp_def [symmetric] l_def)
    then have "in_sge a (recv_sge g' sp sub n t i) \<Longrightarrow> in_slot sub (nat t) a" for a
      using len by (simp add: in_sge_def in_slot_def)
    moreover have "nat t < 4" using assms by (auto simp: paths_ok_def MPRUD_NUM_PATH_def)
    ultimately show ?thesis
      using False in_slot_unique [of sub _ _ "nat t"] by (auto simp: Let_def sp_def [symmetric])
  qed
qed

theorem recv_placement_witness:
  "sge_addr (recv_sge zero_sge (split_msg 40000 4) 0 4 1 5) + 40 - (sge_addr zero_sge + 40) =
     sge_addr (send_sge zero_sge (split_msg 40000 4) 4 1 5) - sge_addr zero_sge"
  using recv_placement [of 4 1 5 40000 zero_sge 0 zero_sge]
  by (simp add: Let_def paths_ok_def MPRUD_NUM_PATH_def unat_iter unat_iter_each unat_chunk_size)

text \<open>
  On a queue pair that is not an unreliable datagram one the application gives no room for
  the header. A message of more than one packet per path that the number of paths divides is
  then received up to 40 bytes past the end of its scatter element. The library keeps 40 spare
  bytes behind the registered buffer only, so within the buffer the bytes belong to others.
\<close>

lemma recv_overruns_buffer:
  assumes n: "paths_ok n" and t: "0 \<le> t" "t < n" and div: "nat n dvd unat sz"
    and big: "4096 < unat sz div nat n" and h: "h < 40"
  shows "\<exists>i < unat (sp_iter (split_msg sz n)).
    in_sge (sge_addr g + of_nat (unat sz + h)) (recv_sge g (split_msg sz n) sub n (turn_of n t i) i)"
proof -
  define c N where "c = unat (chunk_size (split_msg sz n))" and "N = nat n"
  have N: "0 < N" "N \<le> 4" using n by (auto simp: N_def paths_ok_def MPRUD_NUM_PATH_def)
  have c: "c = unat sz div N" "4096 < c" "N * c = unat sz"
    using unat_chunk_size [OF n] big div by (simp_all add: c_def N_def)
  obtain i where i: "i div N = 0" "(nat t + i) mod N = N - 1"
    using round_robin_ex1 [of N "nat t" "N - 1" 0] N t by (auto simp: N_def)
  have each: "1 < (c + 4095) div 4096" using c(2) by (simp add: less_eq_div_iff_mult_less_eq Suc_le_eq [symmetric])
  have "i < N" using i(1) N by (simp add: div_eq_0_iff)
  also have "N \<le> unat (sp_iter (split_msg sz n))"
    using unat_iter [OF n, of sz] each by (simp add: unat_iter_each Let_def c_def N_def)
  finally have ilt: "i < unat (sp_iter (split_msg sz n))" .
  note u = turn_of_range [OF n t, of i]
  have off: "(N - 1) * c + pkt_off c 0 = unat sz - 4096" "pkt_len c 0 = 4096"
    using each c N by (simp_all add: pkt_off_def pkt_len_def diff_mult_distrib)
  have eq: "recv_sge g (split_msg sz n) sub n (turn_of n t i) i =
      g\<lparr>sge_addr := sge_addr g + of_nat (unat sz - 4096), sge_length := of_nat (4096 + 40)\<rparr>"
    using recv_sge_eq [OF n u(1,2) ilt, of g sub] each off i u(3)
    by (simp add: c_def [symmetric] N_def [symmetric] del: of_nat_add)
  have "4096 \<le> unat sz" using c N by (metis le_trans less_imp_le_nat mult_le_mono1 mult_1 Suc_leI One_nat_def)
  then have "unat (of_nat (unat sz + h) - of_nat (unat sz - 4096) :: u64) = 4096 + h"
    using unat_of_nat_diff [of "unat sz + h" "unat sz - 4096"] unat_u32_lt [of sz] h by simp
  then have "in_sge (sge_addr g + of_nat (unat sz + h)) (recv_sge g (split_msg sz n) sub n (turn_of n t i) i)"
    using h unfolding eq by (simp add: in_sge_def del: of_nat_add)
  with ilt show ?thesis by blast
qed

lemma recv_overruns_buffer_witness:
  "\<exists>i < unat (sp_iter (split_msg 40000 4)).
    in_sge (sge_addr zero_sge + of_nat (unat (40000 :: u32) + 39))
      (recv_sge zero_sge (split_msg 40000 4) 0 4 (turn_of 4 0 i) i)"
  using recv_overruns_buffer [of 4 0 40000 39 zero_sge 0] by (simp add: paths_ok_def MPRUD_NUM_PATH_def)

text \<open>
  The routing header of the packet next to the last of a chunk falls into the payload of
  the first packet of the chunk before, on the neighbouring path, exactly when the last packet
  of a chunk is shorter than the header. Received after it, the header replaces payload.
\<close>

lemma header_overlap:
  assumes n: "paths_ok n" and p: "0 \<le> p" "p + 1 < n"
    and i: "i < unat (sp_iter (split_msg sz n))" "i div nat n = 0"
    and j: "j < unat (sp_iter (split_msg sz n))" "j div nat n + 2 = unat (sp_iter_each (split_msg sz n))"
  shows "(\<exists>a. in_payload a (recv_sge g (split_msg sz n) sub n p i) \<and>
      in_header a (recv_sge g (split_msg sz n) sub n (p + 1) j)) \<longleftrightarrow>
    unat (chnk_last (split_msg sz n)) < 40"
proof -
  define c l where "c = unat (chunk_size (split_msg sz n))" and "l = unat (chnk_last (split_msg sz n))"
  define e where "e = (c + 4095) div 4096"
  have e: "unat (sp_iter_each (split_msg sz n)) = e" by (simp add: unat_iter_each e_def c_def Let_def)
  have e2: "2 \<le> e" using j(2) e by simp
  then have c0: "0 < c" by (cases "c = 0") (auto simp: e_def)
  have cl: "c = (e - 1) * 4096 + l" "l \<le> 4096"
    using chunk_decomp(1) [of sz n] chnk_last_bounds [of sz n] c0 e by (simp_all add: c_def l_def)
  then have c4: "4096 \<le> c" using e2 by (cases e) auto
  have "nat n * c \<le> unat sz" using chunk_total_le [OF n] by (simp add: c_def)
  moreover have "(nat p + 2) * c \<le> nat n * c" using p by (intro mult_right_mono) auto
  ultimately have small: "(nat p + 2) * c < 4294967296" using unat_u32_lt [of sz] by linarith
  define x y where "x = nat p * c + (c - 4096)" and "y = (nat p + 1) * c + l"
  have xy: "y = x + 4096 + l" using c4 by (simp add: x_def y_def)
  have bnd: "y < 2 ^ 32 + 4096" using small cl(2) by (simp add: y_def)
  have "recv_sge g (split_msg sz n) sub n p i = g\<lparr>sge_addr := sge_addr g + of_nat x, sge_length := of_nat (4096 + 40)\<rparr>"
    using recv_sge_eq [OF n _ _ i(1), of p g sub] p i(2) e2
    by (simp add: c_def [symmetric] e_def [symmetric] pkt_off_def pkt_len_def x_def del: of_nat_add)
  moreover have "recv_sge g (split_msg sz n) sub n (p + 1) j =
      g\<lparr>sge_addr := sge_addr g + of_nat y, sge_length := of_nat (4096 + 40)\<rparr>"
  proof -
    have "c - (j div nat n + 1) * 4096 = l" using cl j(2) e by (simp add: algebra_simps)
    moreover have "\<not> e \<le> j div nat n + 1" using j(2) e by simp
    moreover have "nat (p + 1) = nat p + 1" using p by simp
    ultimately show ?thesis
      using recv_sge_eq [OF n _ _ j(1), of "p + 1" g sub] p
      by (simp add: c_def [symmetric] e_def [symmetric] pkt_off_def pkt_len_def y_def del: of_nat_add)
  qed
  moreover have "(\<exists>a. 40 \<le> unat (a - (sge_addr g + of_nat x)) \<and> unat (a - (sge_addr g + of_nat x)) < 4136
      \<and> unat (a - (sge_addr g + of_nat y)) < 40) \<longleftrightarrow> l < 40"
  proof
    assume "l < 40"
    have "unat (of_nat y - of_nat x :: u64) = 4096 + l"
      using unat_of_nat_diff [of y x] xy bnd by simp
    with \<open>l < 40\<close> show "\<exists>a. 40 \<le> unat (a - (sge_addr g + of_nat x)) \<and>
        unat (a - (sge_addr g + of_nat x)) < 4136 \<and> unat (a - (sge_addr g + of_nat y)) < 40"
      by (intro exI [of _ "sge_addr g + of_nat y"]) simp
  next
    assume "\<exists>a. 40 \<le> unat (a - (sge_addr g + of_nat x)) \<and>
        unat (a - (sge_addr g + of_nat x)) < 4136 \<and> unat (a - (sge_addr g + of_nat y)) < 40"
    then obtain a where a: "unat (a - (sge_addr g + of_nat x)) < 4136"
      "unat (a - (sge_addr g + of_nat y)) < 40" by blast
    define h where "h = unat (a - (sge_addr g + of_nat y))"
    have "a = sge_addr g + of_nat y + of_nat h" by (simp add: h_def)
    then have "a - (sge_addr g + of_nat x) = of_nat (y + h) - of_nat x" by simp
    moreover have "y + h < 2 ^ 33" "x < 2 ^ 33" "x \<le> y + h"
      using xy bnd a(2) unfolding h_def [symmetric] by simp_all
    ultimately have "unat (a - (sge_addr g + of_nat x)) = y + h - x"
      using unat_of_nat_diff [of "y + h" x] by (simp only: if_True)
    with a(1) xy show "l < 40" by simp
  qed
  ultimately show ?thesis
    by (simp add: in_payload_def in_header_def in_sge_def MPRUD_GRH_SIZE_def l_def conj_assoc)
qed

lemma header_overlap_witness:
  "\<exists>a. in_payload a (recv_sge zero_sge (split_msg 16400 4) 0 4 0 0) \<and>
      in_header a (recv_sge zero_sge (split_msg 16400 4) 0 4 1 1)"
  using header_overlap [of 4 0 0 16400 1 zero_sge 0]
  by (simp add: paths_ok_def MPRUD_NUM_PATH_def unat_iter unat_iter_each unat_chnk_last unat_chunk_size Let_def)

subsection \<open>The copy of the last packet\<close>

text \<open>
  The copy that is to bring a chunk's last packet from the sub buffer into the
  application's buffer reads elsewhere: whatever the slots of the sub buffer hold, every byte
  it writes is the same.
\<close>

lemma last_packet_not_delivered:
  assumes bufs: "bufs (mpctx s) = bufs (mpctx (mprud_set_outer_buffer ptr len s0))"
    and i: "i < MPRUD_NUM_PATH" and sg: "rwr_sg_list (wqe_rwr e) = Some sg"
    and len: "0 \<le> wqe_chnk_last e" "wqe_chnk_last e \<le> 4096"
    and same: "\<forall>a. (\<forall>k < MPRUD_NUM_PATH. \<not> in_slot (buf_sub (bufs (mpctx s))) k a) \<longrightarrow> m a = memory s a"
  shows "\<exists>s1 s2. copy_last_packet i e s = ret s1 \<and> copy_last_packet i e (s\<lparr>memory := m\<rparr>) = ret s2
    \<and> (\<forall>j < nat (wqe_chnk_last e).
         let dst = sge_addr sg + ucast (sge_length sg div word_of_int (active_num (mp_manager s)) * of_nat i) + of_nat j
         in memory s2 dst = memory s1 dst)"
proof -
  define src where "src = buf_recv (bufs (mpctx s)) + of_nat MPRUD_GRH_SIZE
      + of_nat ((MPRUD_GRH_SIZE + MPRUD_DEFAULT_MTU) * i)"
  have cl: "unat (word_of_int (wqe_chnk_last e) :: u64) = nat (wqe_chnk_last e)"
  proof -
    have "word_of_int (wqe_chnk_last e) = (of_nat (nat (wqe_chnk_last e)) :: u64)"
      using len by (metis nat_0_le of_int_of_nat_eq)
    then show ?thesis using len by (simp only:) (intro unat_of_nat_u64, simp)
  qed
  have "m (src + of_nat j) = memory s (src + of_nat j)" if j: "j < 4096" for j
  proof -
    have "\<not> in_slot (buf_sub (bufs (mpctx s))) k (src + of_nat j)" if k: "k < MPRUD_NUM_PATH" for k
    proof -
      have ik: "i < 4" "k < 4" using i k by (simp_all add: MPRUD_NUM_PATH_def)
      have le: "4136 * k \<le> 20776 + 4136 * i + j" using ik by simp
      have "src + of_nat j - (buf_sub (bufs (mpctx s)) + of_nat (4136 * k) - 40) =
          of_nat (20776 + 4136 * i + j) - of_nat (4136 * k)"
        by (simp add: src_def bufs outer_buffer_bufs mprud_consts algebra_simps)
      also have "\<dots> = of_nat (20776 + 4136 * i + j - 4136 * k)" using le by (rule of_nat_diff [symmetric])
      finally have "unat (src + of_nat j - (buf_sub (bufs (mpctx s)) + of_nat (4136 * k) - 40)) =
          20776 + 4136 * i + j - 4136 * k"
        using ik j by (simp add: unat_of_nat_u64 del: of_nat_diff of_nat_add of_nat_mult)
      then show ?thesis using ik by (simp add: in_slot_def)
    qed
    then show ?thesis using same by simp
  qed
  then show ?thesis
    using len by (simp add: copy_last_packet_def sg Let_def memcpy_def cl src_def unat_of_nat_u64
        algebra_simps)
qed

definition sample_buffer_state :: "unit mprud_state" where
  "sample_buffer_state = mprud_set_outer_buffer 1048576 1048576 (ready_state (\<lambda>_. 0) ())"

definition sample_recv_entry :: mprud_wqe where
  "sample_recv_entry = zero_wqe\<lparr>wqe_rwr := zero_recv_wr\<lparr>rwr_sg_list := Some
     (zero_sge\<lparr>sge_addr := 1048576, sge_length := 40040\<rparr>)\<rparr>, wqe_chnk_last := 1808\<rparr>"

lemma last_packet_not_delivered_witness:
  "\<exists>s1 s2. copy_last_packet 1 sample_recv_entry sample_buffer_state = ret s1
    \<and> copy_last_packet 1 sample_recv_entry (sample_buffer_state\<lparr>memory := (\<lambda>a.
        if in_slot (buf_sub (bufs (mpctx sample_buffer_state))) 1 a then 255 else 0)\<rparr>) = ret s2
    \<and> (\<forall>j < 1808. memory s2 (1048576 + 10010 + of_nat j) = memory s1 (1048576 + 10010 + of_nat j))"
  using last_packet_not_delivered [of sample_buffer_state 1048576 1048576 "ready_state (\<lambda>_. 0) ()" 1
      sample_recv_entry "zero_sge\<lparr>sge_addr := 1048576, sge_length := 40040\<rparr>"
      "\<lambda>a. if in_slot (buf_sub (bufs (mpctx sample_buffer_state))) 1 a then 255 else 0"]
  by (auto simp: sample_buffer_state_def sample_recv_entry_def MPRUD_NUM_PATH_def
      mprud_set_outer_buffer_def Let_def)

end
