(* ===== verification/Mprud_Recovery.thy ===== *)
theory Mprud_Recovery
  imports Mprud_Poll Mprud_Split
begin

section \<open>Path failure and recovery\<close>

text \<open>
  The server watches its paths (\<^verbatim>\<open>mprud_monitor_path\<close>); when one stops receiving
  it drains the others, reports the failed path to the client over the report queue pair
  (\<^verbatim>\<open>mprud_recovery_routine_server\<close>), and both sides post the lost part of every
  affected request again over the remaining paths (\<^verbatim>\<open>mprud_recovery_server\<close>,
  \<^verbatim>\<open>mprud_recovery_client\<close>). The client learns of a failure in
  \<^verbatim>\<open>mprud_wait_report_msg\<close>. The queue pair argument of the helpers is always
  \<^verbatim>\<open>mp_manager.report_qp\<close>.
\<close>

subsection \<open>Control messages\<close>

definition post_recv_device :: "'w env \<Rightarrow> ibv_qp \<Rightarrow> ibv_recv_wr \<Rightarrow> 'w mprud_state \<Rightarrow>
    int \<times> 'w mprud_state" where
  "post_recv_device ops qp wr s =
    (case post_recv_op ops qp wr (world s) of (err, w) \<Rightarrow> (err, s\<lparr>world := w\<rparr>))"

definition post_send_device :: "'w env \<Rightarrow> ibv_qp \<Rightarrow> ibv_send_wr \<Rightarrow> 'w mprud_state \<Rightarrow>
    int \<times> 'w mprud_state" where
  "post_send_device ops qp wr s =
    (case post_send_op ops qp wr (memory s) (world s) of (err, w) \<Rightarrow> (err, s\<lparr>world := w\<rparr>))"

definition MPRUD_QKEY :: u32 where "MPRUD_QKEY = 0x22222222"

text \<open>The remote report queue pair: its number follows those of the inner ones.\<close>

definition report_qpn :: "'w mprud_state \<Rightarrow> u32" where
  "report_qpn s = dest_qp_num (mpctx s) + of_nat (MPRUD_NUM_PATH + 1)"

text \<open>The scatter list the request in slot \<open>k\<close> of the table was posted with.\<close>

definition wqe_sge :: "role \<Rightarrow> mprud_wqe \<Rightarrow> ibv_sge option" where
  "wqe_sge Iam e = (case Iam of MP_SERVER \<Rightarrow> rwr_sg_list (wqe_rwr e) | MP_CLIENT \<Rightarrow> swr_sg_list (wqe_swr e))"

definition mprud_post_recv_ack :: "'w env \<Rightarrow> role \<Rightarrow> 'w mprud_state \<Rightarrow> (int \<times> 'w mprud_state) outcome" where
  "mprud_post_recv_ack ops Iam s =
    bindC (index MPRUD_TABLE_LEN (tbl_head (table (mpctx s)))) (\<lambda>h.
    bindC (deref (wqe_sge Iam (wqe s h))) (\<lambda>g.
    bindC (deref (report_qp (mp_manager s))) (\<lambda>qp.
    let sg = zero_sge\<lparr>sge_addr := recv_base_addr (mp_manager s),
               sge_length := of_nat (4 + MPRUD_GRH_SIZE), sge_lkey := sge_lkey g\<rparr>;
        wr = zero_recv_wr\<lparr>rwr_sg_list := Some sg, rwr_num_sge := 1\<rparr>
    in case post_recv_device ops qp wr s of (err, s1) \<Rightarrow>
         ret (if err \<noteq> 0 then FAILURE else SUCCESS, s1))))"

definition mprud_post_send_ack :: "'w env \<Rightarrow> role \<Rightarrow> 'w mprud_state \<Rightarrow> (int \<times> 'w mprud_state) outcome" where
  "mprud_post_send_ack ops Iam s =
    (let posted = word_of_int (tbl_next (table (mpctx s)) - 1) :: u32;
         s1 = s\<lparr>memory := store_u32 (memory s) (send_base_addr (mp_manager s)) posted\<rparr>;
         path_num = 0
     in bindC (index MPRUD_TABLE_LEN (tbl_head (table (mpctx s1)))) (\<lambda>h.
        bindC (deref (wqe_sge Iam (wqe s1 h))) (\<lambda>g.
        bindC (deref (report_qp (mp_manager s1))) (\<lambda>qp.
        let sg = zero_sge\<lparr>sge_addr := send_base_addr (mp_manager s1), sge_length := 4,
                   sge_lkey := sge_lkey g\<rparr>;
            wr = zero_send_wr\<lparr>swr_sg_list := Some sg, swr_num_sge := 1, swr_opcode := IBV_WR_SEND,
                   swr_send_flags := IBV_SEND_SIGNALED, swr_ud_ah := ah_list (mpctx s1) path_num,
                   swr_ud_remote_qpn := report_qpn s1, swr_ud_remote_qkey := MPRUD_QKEY\<rparr>
        in case post_send_device ops qp wr s1 of (err, s2) \<Rightarrow>
             ret (if err \<noteq> 0 then err else SUCCESS, s2)))))"

definition mprud_post_recv_report :: "'w env \<Rightarrow> 'w mprud_state \<Rightarrow> (int \<times> 'w mprud_state) outcome" where
  "mprud_post_recv_report ops s =
    bindC (index MPRUD_TABLE_LEN (tbl_head (table (mpctx s)))) (\<lambda>h.
    bindC (deref (swr_sg_list (wqe_swr (wqe s h)))) (\<lambda>g.
    bindC (deref (report_qp (mp_manager s))) (\<lambda>qp.
    let sg = zero_sge\<lparr>sge_addr := recv_base_addr (mp_manager s),
               sge_length := of_nat (16 + MPRUD_GRH_SIZE), sge_lkey := sge_lkey g\<rparr>;
        wr = zero_recv_wr\<lparr>rwr_sg_list := Some sg, rwr_num_sge := 1\<rparr>
    in case post_recv_device ops qp wr s of (err, s1) \<Rightarrow>
         if err \<noteq> 0 then ret (FAILURE, s1)
         else ret (SUCCESS, upd_stat MPRUD_NUM_PATH
                (\<lambda>q. q\<lparr>posted_rcnt := (posted_rcnt q)\<lparr>ack := ack (posted_rcnt q) + 1\<rparr>\<rparr>) s1))))"

definition mprud_post_send_report :: "'w env \<Rightarrow> 'w mprud_state \<Rightarrow> (int \<times> 'w mprud_state) outcome" where
  "mprud_post_send_report ops s =
    (let m = msg (mp_manager s);
         s1 = s\<lparr>memory := store_msg (memory s) (send_base_addr (mp_manager s)) m\<rparr>;
         path_num = 0
     in bindC (index MPRUD_TABLE_LEN (uint (max_posted m))) (\<lambda>k.
        bindC (deref (rwr_sg_list (wqe_rwr (wqe s1 k)))) (\<lambda>g.
        bindC (deref (report_qp (mp_manager s1))) (\<lambda>qp.
        let sg = zero_sge\<lparr>sge_addr := send_base_addr (mp_manager s1), sge_length := 16,
                   sge_lkey := sge_lkey g\<rparr>;
            wr = zero_send_wr\<lparr>swr_sg_list := Some sg, swr_num_sge := 1, swr_opcode := IBV_WR_SEND,
                   swr_send_flags := IBV_SEND_SIGNALED, swr_ud_ah := ah_list (mpctx s1) path_num,
                   swr_ud_remote_qpn := report_qpn s1, swr_ud_remote_qkey := MPRUD_QKEY\<rparr>
        in case post_send_device ops qp wr s1 of (err, s2) \<Rightarrow>
             if err \<noteq> 0 then ret (err, s2)
             else ret (SUCCESS, upd_stat MPRUD_NUM_PATH
                (\<lambda>q. q\<lparr>posted_scnt := (posted_scnt q)\<lparr>ack := ack (posted_scnt q) + 1\<rparr>\<rparr>) s2)))))"

subsection \<open>Posting the lost part of a request again\<close>

text \<open>
  Waiting until fewer than \<open>limit\<close> packets of the recovery are outstanding.
\<close>

definition wait_recovery ::
  "'w env \<Rightarrow> role \<Rightarrow> u64 \<Rightarrow> 'w mprud_state \<Rightarrow> (int \<times> 'w mprud_state) outcome" where
  "wait_recovery ops Iam limit = loop (\<lambda>s.
     if limit \<le> tot_recovery_posted (mpctx s) - tot_recovery_polled (mpctx s) then
       bindC (mprud_recovery_poll ops Iam s) (\<lambda>(r, s').
       ret (if r \<noteq> 0 then Return (FAILURE, s') else Next s'))
     else ret (Return (SUCCESS, s)))"

text \<open>What both loops do after the device call for one packet.\<close>

definition recovery_posted :: "'w env \<Rightarrow> role \<Rightarrow> u64 \<Rightarrow> int \<Rightarrow> int \<times> 'w mprud_state \<Rightarrow>
    ('w mprud_state, int \<times> 'w mprud_state) flow outcome" where
  "recovery_posted ops Iam limit n p =
    (case p of (err, s1) \<Rightarrow>
     let s2 = upd_ctx (\<lambda>c. c\<lparr>tot_recovery_posted := tot_recovery_posted c + 1\<rparr>) s1
     in if err \<noteq> 0 then ret (Return (err, s2))
        else bindC (wait_recovery ops Iam limit s2) (\<lambda>(r, s3).
          if r \<noteq> 0 then ret (Return (FAILURE, s3))
          else bindC (c_rem (recov_post_turn (mpctx s3) + 1) n) (\<lambda>t.
            ret (Next (upd_ctx (\<lambda>c. c\<lparr>recov_post_turn := t\<rparr>) s3)))))"

definition send_recovery_packet :: "'w env \<Rightarrow> ibv_send_wr \<Rightarrow> ibv_sge \<Rightarrow> split_params \<Rightarrow> u64 \<Rightarrow> int \<Rightarrow> nat \<Rightarrow>
    'w mprud_state \<Rightarrow> ('w mprud_state, int \<times> 'w mprud_state) flow outcome" where
  "send_recovery_packet ops wr g sp limit n i s =
    bindC (index (nat n) (recov_post_turn (mpctx s))) (\<lambda>t.
    if MPRUD_NUM_PATH < t then raise OutOfBounds else
    bindC (deref (report_qp (mp_manager s))) (\<lambda>qp.
    let tmp_wr = wr\<lparr>swr_sg_list := Some (send_sge g sp n (int t) i),
          swr_ud_ah := ah_list (mpctx s) t, swr_ud_remote_qpn := report_qpn s,
          swr_ud_remote_qkey := MPRUD_QKEY\<rparr>
    in recovery_posted ops MP_CLIENT limit n (post_send_device ops qp tmp_wr s)))"

definition mprud_post_send_recovery :: "'w env \<Rightarrow> nat \<Rightarrow> 'w mprud_state \<Rightarrow> (int \<times> 'w mprud_state) outcome" where
  "mprud_post_send_recovery ops k s =
    bindC (deref (swr_sg_list (wqe_swr (wqe s k)))) (\<lambda>g.
    let n = active_num (mp_manager s) - 1
    in bindC (split_checked (sge_length g) n) (\<lambda>sp.
       let s1 = upd_wqe k (\<lambda>e. e\<lparr>wqe_swr := (wqe_swr e)\<lparr>swr_send_flags := IBV_SEND_SIGNALED\<rparr>,
                  comp_need := sint (sp_iter sp)\<rparr>) s
       in bindC (c_rem (recov_post_turn (mpctx s1)) n) (\<lambda>t.
          let s2 = upd_ctx (\<lambda>c. c\<lparr>recov_post_turn := t\<rparr>) s1
          in bindC (for_each (send_recovery_packet ops (wqe_swr (wqe s1 k)) g sp
                 (word_of_int (send_size (mpctx s2))) n) [0..<unat (sp_iter sp)] s2) (\<lambda>x.
             ret (flow_result (\<lambda>s'. (SUCCESS, s')) x)))))"

definition recv_recovery_packet :: "'w env \<Rightarrow> ibv_recv_wr \<Rightarrow> ibv_sge \<Rightarrow> split_params \<Rightarrow> u64 \<Rightarrow> int \<Rightarrow> nat \<Rightarrow>
    'w mprud_state \<Rightarrow> ('w mprud_state, int \<times> 'w mprud_state) flow outcome" where
  "recv_recovery_packet ops wr g sp limit n i s =
    bindC (index (nat n) (recov_post_turn (mpctx s))) (\<lambda>t.
    bindC (deref (report_qp (mp_manager s))) (\<lambda>qp.
    let tmp_wr = wr\<lparr>rwr_sg_list := Some (recv_sge g sp (buf_sub (bufs (mpctx s))) n (int t) i)\<rparr>
    in recovery_posted ops MP_SERVER limit n (post_recv_device ops qp tmp_wr s)))"

definition mprud_post_recv_recovery :: "'w env \<Rightarrow> nat \<Rightarrow> 'w mprud_state \<Rightarrow> (int \<times> 'w mprud_state) outcome" where
  "mprud_post_recv_recovery ops k s =
    bindC (deref (rwr_sg_list (wqe_rwr (wqe s k)))) (\<lambda>g.
    let n = active_num (mp_manager s) - 1
    in bindC (split_checked (sge_length g) n) (\<lambda>sp.
       let s1 = upd_wqe k (\<lambda>e. e\<lparr>comp_need := sint (sp_iter sp)\<rparr>) s
       in bindC (c_rem (recov_post_turn (mpctx s1)) n) (\<lambda>t.
          let s2 = upd_ctx (\<lambda>c. c\<lparr>recov_post_turn := t\<rparr>) s1
          in bindC (for_each (recv_recovery_packet ops (wqe_rwr (wqe s1 k)) g sp
                 (word_of_int (recv_size (mpctx s2) sdiv 2)) n) [0..<unat (sp_iter sp)] s2) (\<lambda>x.
             ret (flow_result (\<lambda>s'. (SUCCESS, s')) x)))))"

subsection \<open>One step of the recovery\<close>

text \<open>
  The part of a request that the failed path carried: its chunk, and of the request the
  failure interrupted only what the path had not completed. Both sides compute it in place,
  in the scatter list of the table entry.
\<close>

definition lost_part :: "int \<Rightarrow> report_msg \<Rightarrow> int \<Rightarrow> (nat \<Rightarrow> int) \<Rightarrow> ibv_sge \<Rightarrow> ibv_sge outcome" where
  "lost_part active m k each g =
    (let errq = sint (errqpn m); done = sint (completed m)
     in if word_of_int active = (0 :: u32) then raise DivByZero else
        let len = sge_length g div word_of_int active;
            g1 = g\<lparr>sge_length := len, sge_addr := sge_addr g + ucast (word_of_int errq * len)\<rparr>
        in if word_of_int k = wqe_loss_idx m then
             bindC (index MPRUD_NUM_PATH errq) (\<lambda>q.
             if word_of_int (each q) = (0 :: u32) then raise DivByZero
             else ret (g1\<lparr>sge_length := len - (len div word_of_int (each q)) * word_of_int done\<rparr>))
           else ret g1)"

definition mprud_recovery_client :: "'w env \<Rightarrow> 'w mprud_state \<Rightarrow> (int \<times> 'w mprud_state) outcome" where
  "mprud_recovery_client ops s =
    (if recovery_max_wqe (mp_manager s) < recovery_cur_poll_wqe (mp_manager s) then
       let s1 = upd_mgr (\<lambda>m. m\<lparr>active_num := active_num m - 1, start_time_flag := 0,
                  recovery_flag := 0\<rparr>) s;
           s2 = upd_ctx (\<lambda>c. c\<lparr>tot_rpolled := tot_rposted c\<rparr>) s1
       in bindC (mprud_post_recv_ack ops MP_CLIENT s2) (\<lambda>(_, s3).
          bindC (deref (report_qp (mp_manager s3))) (\<lambda>qp.
          bindC (mprud_poll_report ops (qp_recv_cq qp) True s3) (\<lambda>(_, s4).
          ret (SUCCESS, s4))))
     else if recovery_max_wqe (mp_manager s) < recovery_cur_post_wqe (mp_manager s) then
       ret (SUCCESS, s)
     else
       let k = recovery_cur_post_wqe (mp_manager s)
       in bindC (index MPRUD_TABLE_LEN k) (\<lambda>i.
          bindC (deref (swr_sg_list (wqe_swr (wqe s i)))) (\<lambda>g.
          bindC (lost_part (active_num (mp_manager s)) (msg (mp_manager s)) k (iter_each (wqe s i)) g) (\<lambda>g'.
          let s1 = upd_wqe i (\<lambda>e. e\<lparr>wqe_swr := (wqe_swr e)\<lparr>swr_sg_list := Some g'\<rparr>\<rparr>) s
          in bindC (mprud_post_send_recovery ops i s1) (\<lambda>(err, s2).
             if err \<noteq> 0 then ret (FAILURE, s2)
             else ret (SUCCESS, upd_mgr (\<lambda>m. m\<lparr>recovery_cur_post_wqe :=
                    recovery_cur_post_wqe m + 1\<rparr>) s2))))))"

definition server_got_ack :: "'w env \<Rightarrow> 'w mprud_state \<Rightarrow> 'w mprud_state outcome" where
  "server_got_ack ops s =
    (if got_report_flag (mp_manager s) = 0 then
       bindC (deref (report_qp (mp_manager s))) (\<lambda>qp.
       bindC (mprud_poll_report ops (qp_recv_cq qp) False s) (\<lambda>(ne, s1).
       if 0 < ne then
         let s2 = upd_mgr (\<lambda>m. m\<lparr>got_report_flag := 1\<rparr>) s1;
             client = load_u32 (memory s2) (recv_base_addr (mp_manager s2) + of_nat MPRUD_GRH_SIZE)
         in ret (if max_posted (msg (mp_manager s2)) < client
                 then upd_mgr (\<lambda>m. m\<lparr>recovery_max_wqe := sint client\<rparr>) s2 else s2)
       else ret s1))
     else ret s)"

definition mprud_recovery_server :: "'w env \<Rightarrow> 'w mprud_state \<Rightarrow> (int \<times> 'w mprud_state) outcome" where
  "mprud_recovery_server ops s0 =
    bindC (server_got_ack ops s0) (\<lambda>s.
    if recovery_max_wqe (mp_manager s) < recovery_cur_poll_wqe (mp_manager s)
        \<and> got_report_flag (mp_manager s) \<noteq> 0 then
      let s1 = upd_mgr (\<lambda>m. m\<lparr>active_num := active_num m - 1, start_time_flag := 0,
                 recovery_flag := 0, monitor_flag := 1\<rparr>) s;
          s2 = upd_ctx (\<lambda>c. c\<lparr>tot_rpolled := tot_rposted c\<rparr>) s1
      in bindC (mprud_post_send_ack ops MP_SERVER s2) (\<lambda>(_, s3).
         bindC (deref (report_qp (mp_manager s3))) (\<lambda>qp.
         bindC (mprud_poll_report ops (qp_send_cq qp) True s3) (\<lambda>(_, s4).
         ret (SUCCESS, s4))))
    else if recovery_max_wqe (mp_manager s) < recovery_cur_post_wqe (mp_manager s) then
      ret (SUCCESS, s)
    else
      let k = recovery_cur_post_wqe (mp_manager s)
      in bindC (index MPRUD_TABLE_LEN k) (\<lambda>i.
         bindC (deref (rwr_sg_list (wqe_rwr (wqe s i)))) (\<lambda>g.
         bindC (lost_part (active_num (mp_manager s)) (msg (mp_manager s)) k (iter_each (wqe s i)) g) (\<lambda>g'.
         let s1 = upd_wqe i (\<lambda>e. e\<lparr>wqe_rwr := (wqe_rwr e)\<lparr>rwr_sg_list := Some g'\<rparr>\<rparr>) s
         in bindC (mprud_post_recv_recovery ops i s1) (\<lambda>(err, s2).
            if err \<noteq> 0 then ret (FAILURE, s2)
            else ret (SUCCESS, upd_mgr (\<lambda>m. m\<lparr>recovery_cur_post_wqe :=
                   recovery_cur_post_wqe m + 1\<rparr>) s2))))))"

subsection \<open>Draining the other paths\<close>

text \<open>
  Both sides poll until the queues of the paths \<open>0\<close> to \<open>active_num - 2\<close> are empty.
\<close>

definition qlen_sum :: "'w mprud_state \<Rightarrow> int outcome" where
  "qlen_sum s =
    (let n = active_num (mp_manager s) - 1
     in if int MPRUD_NUM_PATH + 1 < n then raise OutOfBounds
        else ret (sum_list (map (\<lambda>i. qlen (stat s i)) [0..<nat n])))"

definition drain_paths ::
  "'w env \<Rightarrow> role \<Rightarrow> 'w mprud_state \<Rightarrow> (int \<times> 'w mprud_state) outcome" where
  "drain_paths ops Iam = loop (\<lambda>s.
    bindC (mprud_inner_poll ops Iam s) (\<lambda>(r, s').
    if r \<noteq> 0 then ret (Return (FAILURE, s'))
    else bindC (qlen_sum s') (\<lambda>sum. ret (if 0 < sum then Next s' else Return (SUCCESS, s')))))"

subsection \<open>Detecting a failed path\<close>

definition monitor_start :: "timeval \<Rightarrow> 'w mprud_state \<Rightarrow> nat \<Rightarrow> path_manager \<Rightarrow> path_manager" where
  "monitor_start t s i m =
    (if qps m i = MPRUD_QPS_ACTIVE
     then m\<lparr>prev_qp_cnt := (prev_qp_cnt m)(i := tot_pkt (polled_rcnt (stat s i))),
            qp_wait := (qp_wait m)(i := t)\<rparr>
     else m)"

definition monitor_one :: "'w mprud_state \<Rightarrow> nat \<Rightarrow> path_manager \<Rightarrow> path_manager" where
  "monitor_one s i m =
    (if qps m i \<noteq> MPRUD_QPS_ACTIVE then m
     else
       let cnt = tot_pkt (polled_rcnt (stat s i));
           m1 = (if prev_qp_cnt m i < cnt then m\<lparr>qp_wait := (qp_wait m)(i := now m)\<rparr>
                 else if MPRUD_TIMEOUT_THRESHOLD < mprud_get_us (qp_wait m i) (now m)
                 then m\<lparr>qps := (qps m)(i := MPRUD_QPS_ERROR)\<rparr> else m)
       in m1\<lparr>prev_qp_cnt := (prev_qp_cnt m1)(i := cnt)\<rparr>)"

definition mprud_monitor_path :: "'w env \<Rightarrow> 'w mprud_state \<Rightarrow> (res_code \<times> 'w mprud_state) outcome" where
  "mprud_monitor_path ops s =
    (if start_time_flag (mp_manager s) = 0 then
       case read_clock ops s of (t, s1) \<Rightarrow>
         let s2 = upd_mgr (\<lambda>m. fold (monitor_start t s1) [0..<MPRUD_NUM_PATH]
                    (m\<lparr>start_time_flag := 1, start := t\<rparr>)) s1
         in ret (MPRUD_STATUS_NORMAL, s2)
     else
       case read_clock ops s of (t, s1) \<Rightarrow>
         let s2 = upd_mgr (\<lambda>m. m\<lparr>now := t\<rparr>) s1
         in if mprud_get_us (start (mp_manager s2)) t < MPRUD_MONITOR_CYCLE
            then ret (MPRUD_STATUS_WAIT, s2)
            else if recovery_flag (mp_manager s2) \<noteq> 0 then
              bindC (mprud_recovery_server ops s2) (\<lambda>(r, s3).
              ret (if r \<noteq> 0 then MPRUD_STATUS_ERROR else MPRUD_STATUS_NORMAL, s3))
            else
              let s3 = upd_mgr (\<lambda>m. (fold (monitor_one s2) [0..<MPRUD_NUM_PATH] m)\<lparr>start := t\<rparr>) s2
              in if list_ex (\<lambda>i. qps (mp_manager s3) i = MPRUD_QPS_ERROR) [0..<MPRUD_NUM_PATH]
                 then ret (MPRUD_STATUS_FAIL, upd_mgr (\<lambda>m. m\<lparr>recovery_flag := 1\<rparr>) s3)
                 else ret (MPRUD_STATUS_NORMAL, s3))"

text \<open>
  A failed drain returns the C constant \<^verbatim>\<open>FAILURE\<close>, whose value 1 is
  \<^verbatim>\<open>MPRUD_STATUS_WAIT\<close> of the result type.
\<close>

definition client_got_report :: "'w env \<Rightarrow> int \<Rightarrow> 'w mprud_state \<Rightarrow> (res_code \<times> 'w mprud_state) outcome" where
  "client_got_report ops ne s =
    (let s1 = upd_mgr (\<lambda>m. m\<lparr>recovery_flag := 1\<rparr>) s;
         s2 = upd_stat MPRUD_NUM_PATH (\<lambda>q. q\<lparr>polled_rcnt := (polled_rcnt q)\<lparr>ack :=
                ack (polled_rcnt q) + word_of_int ne\<rparr>\<rparr>) s1;
         s3 = upd_mgr (\<lambda>m. m\<lparr>msg := load_msg (memory s2) (recv_base_addr m + of_nat MPRUD_GRH_SIZE)\<rparr>) s2
     in bindC (drain_paths ops MP_CLIENT s3) (\<lambda>(r, s4).
        ret (if r \<noteq> 0 then MPRUD_STATUS_WAIT else MPRUD_STATUS_FAIL, s4)))"

definition mprud_wait_report_msg :: "'w env \<Rightarrow> 'w mprud_state \<Rightarrow> (res_code \<times> 'w mprud_state) outcome" where
  "mprud_wait_report_msg ops s =
    (if start_time_flag (mp_manager s) = 0 then
       case read_clock ops s of (t, s1) \<Rightarrow>
         let s2 = upd_mgr (\<lambda>m. m\<lparr>start_time_flag := 1, start := t\<rparr>) s1
         in bindC (mprud_post_recv_report ops s2) (\<lambda>(err, s3).
            ret (if err \<noteq> 0 then MPRUD_STATUS_ERROR else MPRUD_STATUS_WAIT, s3))
     else
       case read_clock ops s of (t, s1) \<Rightarrow>
         let s2 = upd_mgr (\<lambda>m. m\<lparr>now := t\<rparr>) s1
         in if mprud_get_us (start (mp_manager s2)) t < MPRUD_REPORT_RECV_CYCLE
            then ret (MPRUD_STATUS_WAIT, s2)
            else if recovery_flag (mp_manager s2) \<noteq> 0 then
              bindC (mprud_recovery_client ops s2) (\<lambda>(r, s3).
              ret (if r \<noteq> 0 then MPRUD_STATUS_ERROR else MPRUD_STATUS_NORMAL, s3))
            else
              bindC (deref (report_qp (mp_manager s2))) (\<lambda>qp.
              bindC (mprud_poll_report ops (qp_recv_cq qp) False s2) (\<lambda>(ne, s3).
              if 0 < ne then client_got_report ops ne s3
              else if ne < 0 then ret (MPRUD_STATUS_ERROR, s3)
              else ret (MPRUD_STATUS_NORMAL, upd_mgr (\<lambda>m. m\<lparr>start := now m\<rparr>) s3))))"

subsection \<open>The recovery routines\<close>

definition mprud_recovery_routine_client :: "'w env \<Rightarrow> 'w mprud_state \<Rightarrow> (int \<times> 'w mprud_state) outcome" where
  "mprud_recovery_routine_client ops s =
    bindC (mprud_post_send_ack ops MP_CLIENT s) (\<lambda>(_, s1).
    bindC (deref (report_qp (mp_manager s1))) (\<lambda>qp.
    bindC (mprud_poll_report ops (qp_send_cq qp) True s1) (\<lambda>(_, s2).
    let r = msg (mp_manager s2)
    in bindC (index MPRUD_NUM_PATH (uint (errqpn r))) (\<lambda>q.
       let posted = tbl_next (table (mpctx s2)) - 1
       in ret (SUCCESS, upd_mgr (\<lambda>m. m\<lparr>qps := (qps m)(q := MPRUD_QPS_DEAD),
            recovery_max_wqe := (if word_of_int posted < max_posted r
              then sint (max_posted r) else posted),
            recovery_cur_post_wqe := sint (wqe_loss_idx r),
            recovery_cur_poll_wqe := sint (wqe_loss_idx r)\<rparr>) s2)))))"

text \<open>
  The failed path the server reports: the lowest one in error, which becomes dead; without
  one, the path of the previous report.
\<close>

definition take_error_path :: "path_manager \<Rightarrow> path_manager" where
  "take_error_path m =
    (case filter (\<lambda>i. qps m i = MPRUD_QPS_ERROR) [0..<MPRUD_NUM_PATH] of
       [] \<Rightarrow> m
     | i # _ \<Rightarrow> m\<lparr>qps := (qps m)(i := MPRUD_QPS_DEAD), msg := (msg m)\<lparr>errqpn := of_nat i\<rparr>\<rparr>)"

definition make_report :: "'w mprud_state \<Rightarrow> 'w mprud_state outcome" where
  "make_report s =
    bindC (index (MPRUD_NUM_PATH + 1) (uint (errqpn (msg (mp_manager s))))) (\<lambda>q.
    let posted = word_of_int (tbl_next (table (mpctx s)) - 1) :: u32
    in ret (upd_mgr (\<lambda>m. m\<lparr>msg := (msg m)\<lparr>
           max_posted := (if posted < 0 then of_nat MPRUD_TABLE_LEN else posted),
           wqe_loss_idx := wqe_idx (stat s q),
           completed := ucast (comp_temp (stat s q))\<rparr>\<rparr>) s))"

definition mprud_recovery_routine_server :: "'w env \<Rightarrow> 'w mprud_state \<Rightarrow> (int \<times> 'w mprud_state) outcome" where
  "mprud_recovery_routine_server ops s =
    bindC (drain_paths ops MP_SERVER s) (\<lambda>(r, s1).
    if r \<noteq> 0 then ret (FAILURE, s1) else
    let s2 = upd_mgr take_error_path s1
    in if active_num (mp_manager s2) = 0 then ret (FAILURE, s2) else
       bindC (make_report s2) (\<lambda>s3.
       bindC (mprud_post_send_report ops s3) (\<lambda>(err, s4).
       if err \<noteq> 0 then ret (FAILURE, s4) else
       bindC (deref (report_qp (mp_manager s4))) (\<lambda>qp.
       bindC (mprud_poll_report ops (qp_send_cq qp) True s4) (\<lambda>(ne, s5).
       let s6 = upd_stat MPRUD_NUM_PATH (\<lambda>q. q\<lparr>polled_scnt := (polled_scnt q)\<lparr>ack :=
                  ack (polled_scnt q) + word_of_int ne\<rparr>\<rparr>) s5
       in bindC (mprud_post_recv_ack ops MP_SERVER s6) (\<lambda>(_, s7).
          ret (SUCCESS, upd_mgr (\<lambda>m. m\<lparr>
            recovery_max_wqe := tbl_next (table (mpctx s7)) - 1,
            recovery_cur_post_wqe := sint (wqe_loss_idx (msg m)),
            recovery_cur_poll_wqe := sint (wqe_loss_idx (msg m))\<rparr>) s7)))))))"

subsection \<open>The performance counters\<close>

text \<open>
  \<^verbatim>\<open>mprud_perf_per_qp\<close> without its printing: once a second it clears the received
  sizes of the paths. The layer calls it only in a build with
  \<^verbatim>\<open>PRINT_PERF_PER_QP\<close>.
\<close>

definition mprud_perf_per_qp :: "'w env \<Rightarrow> 'w mprud_state \<Rightarrow> 'w mprud_state" where
  "mprud_perf_per_qp ops s =
    (if p_start_time_flag (mp_manager s) = 0 then
       case read_clock ops s of (t, s1) \<Rightarrow>
       (case read_clock ops (upd_mgr (\<lambda>m. m\<lparr>p_start_time_flag := 1, p_start := t\<rparr>) s1) of (t', s2) \<Rightarrow>
         upd_mgr (\<lambda>m. m\<lparr>initial := t'\<rparr>) s2)
     else
       case read_clock ops s of (t, s1) \<Rightarrow>
         let s2 = upd_mgr (\<lambda>m. m\<lparr>p_now := t\<rparr>) s1
         in if mprud_get_us (p_start (mp_manager s2)) t < MPRUD_PRINT_PERF_CYCLE then s2
            else
              let s3 = upd_ctx (\<lambda>c. c\<lparr>qp_stat := (\<lambda>i. if i < MPRUD_NUM_PATH
                         then (qp_stat c i)\<lparr>recv_msg_size := 0\<rparr> else qp_stat c i)\<rparr>) s2
              in case read_clock ops s3 of (t', s4) \<Rightarrow> upd_mgr (\<lambda>m. m\<lparr>p_start := t'\<rparr>) s4)"

end
