(* ===== verification/Mprud_Post.thy ===== *)
theory Mprud_Post
  imports Mprud_Recovery Mprud_Table
begin

section \<open>Posting and polling\<close>

text \<open>
  The three calls the verbs of the library go to: \<^verbatim>\<open>mprud_post_send\<close>,
  \<^verbatim>\<open>mprud_post_recv\<close> and \<^verbatim>\<open>mprud_poll_cq\<close>. A post splits the
  request over the active paths and waits, polling, while 256 (512) packets are
  outstanding; a poll runs the monitoring and recovery steps, then polls one path. One pass
  through a polling loop is a \<^verbatim>\<open>flow\<close>; the loop itself may not end.
\<close>

subsection \<open>Polling\<close>

text \<open>The recovery part of a pass: \<open>Some r\<close> when the function returns \<open>r\<close> at once.\<close>

definition server_code :: "'w env \<Rightarrow> 'w mprud_state \<Rightarrow> (int option \<times> 'w mprud_state) outcome" where
  "server_code ops s =
    bindC (if monitor_flag (mp_manager s) = 0 then mprud_monitor_path ops s
           else ret (MPRUD_STATUS_NORMAL, s)) (\<lambda>(code, s1).
    case code of
      MPRUD_STATUS_NORMAL \<Rightarrow> ret (None, s1)
    | MPRUD_STATUS_WAIT \<Rightarrow> ret (None, s1)
    | MPRUD_STATUS_WARNING \<Rightarrow> ret (Some (-1), s1)
    | MPRUD_STATUS_ERROR \<Rightarrow> ret (Some (-1), s1)
    | MPRUD_STATUS_FAIL \<Rightarrow>
        bindC (mprud_recovery_routine_server ops s1) (\<lambda>(err, s2).
        ret (if err \<noteq> 0 then Some (-1) else None, s2)))"

definition client_code :: "'w env \<Rightarrow> 'w mprud_state \<Rightarrow> (int option \<times> 'w mprud_state) outcome" where
  "client_code ops s =
    bindC (mprud_wait_report_msg ops s) (\<lambda>(code, s1).
    case code of
      MPRUD_STATUS_NORMAL \<Rightarrow> ret (None, s1)
    | MPRUD_STATUS_WAIT \<Rightarrow> ret (None, s1)
    | MPRUD_STATUS_WARNING \<Rightarrow> ret (Some (-1), s1)
    | MPRUD_STATUS_ERROR \<Rightarrow> ret (Some (-1), s1)
    | MPRUD_STATUS_FAIL \<Rightarrow>
        bindC (mprud_recovery_routine_client ops s1) (\<lambda>(err, s2).
        ret (if err \<noteq> 0 then Some (-1) else None, s2)))"

text \<open>The rest of the pass, the same on both sides.\<close>

definition poll_outer_step :: "role \<Rightarrow> bool \<Rightarrow> ibv_wc list \<Rightarrow> 'w mprud_state \<Rightarrow>
    (int \<times> ibv_wc list \<times> 'w mprud_state) outcome" where
  "poll_outer_step Iam skip wc s =
    (if skip then ret (0, wc, s) else mprud_outer_poll wc Iam s)"

definition poll_inner_step :: "'w env \<Rightarrow> role \<Rightarrow> ibv_wc list \<Rightarrow> 'w mprud_state \<Rightarrow>
    ('w mprud_state, int \<times> ibv_wc list \<times> 'w mprud_state) flow outcome" where
  "poll_inner_step ops Iam wc s =
    bindC (mprud_inner_poll ops Iam s) (\<lambda>(r, s1).
    if r \<noteq> 0 then ret (Return (-1, wc, s1)) else
    bindC (if recovery_flag (mp_manager s1) \<noteq> 0 then mprud_recovery_poll ops Iam s1
           else ret (SUCCESS, s1)) (\<lambda>(r', s2).
    if r' \<noteq> 0 then ret (Return (-1, wc, s2))
    else if recovery_flag (mp_manager s2) = 0 then ret (Return (0, wc, s2))
    else ret (Next s2)))"

definition poll_pass :: "('w mprud_state \<Rightarrow> (int option \<times> 'w mprud_state) outcome) \<Rightarrow> 'w env \<Rightarrow>
    role \<Rightarrow> bool \<Rightarrow> ibv_wc list \<Rightarrow> 'w mprud_state \<Rightarrow>
    ('w mprud_state, int \<times> ibv_wc list \<times> 'w mprud_state) flow outcome" where
  "poll_pass code ops Iam skip wc s =
    bindC (code s) (\<lambda>(stop, s1).
    case stop of
      Some r \<Rightarrow> ret (Return (r, wc, s1))
    | None \<Rightarrow> bindC (poll_outer_step Iam skip wc s1) (\<lambda>(num, wc', s2).
        if num \<noteq> 0 then ret (Return (num, wc', s2)) else poll_inner_step ops Iam wc' s2))"

definition mprud_poll_cq_server :: "'w env \<Rightarrow> bool \<Rightarrow> ibv_wc list \<Rightarrow> 'w mprud_state \<Rightarrow>
    (int \<times> ibv_wc list \<times> 'w mprud_state) outcome" where
  "mprud_poll_cq_server ops skip wc = loop (poll_pass (server_code ops) ops MP_SERVER skip wc)"

definition mprud_poll_cq_client :: "'w env \<Rightarrow> bool \<Rightarrow> ibv_wc list \<Rightarrow> 'w mprud_state \<Rightarrow>
    (int \<times> ibv_wc list \<times> 'w mprud_state) outcome" where
  "mprud_poll_cq_client ops skip wc = loop (poll_pass (client_code ops) ops MP_CLIENT skip wc)"

definition mprud_poll_cq :: "'w env \<Rightarrow> ibv_wc list \<Rightarrow> bool \<Rightarrow> 'w mprud_state \<Rightarrow>
    (int \<times> ibv_wc list \<times> 'w mprud_state) outcome" where
  "mprud_poll_cq ops wc skip s =
    (if 0 < tot_rposted (mpctx s) then mprud_poll_cq_server ops skip wc s
     else if 0 < tot_sposted (mpctx s) then mprud_poll_cq_client ops skip wc s
     else ret (0, wc, s))"

subsection \<open>Waiting for room\<close>

text \<open>The completion array of the waiting loops, \<^verbatim>\<open>MPRUD_POLL_BATCH\<close> entries.\<close>

definition poll_batch_wc :: "ibv_wc list" where
  "poll_batch_wc = replicate 16 \<lparr>wc_wr_id = 0, wc_status = 0\<rparr>"

definition sends_outstanding :: "mprud_context \<Rightarrow> u64" where
  "sends_outstanding c = tot_sposted c - tot_spolled c"

definition recvs_outstanding :: "mprud_context \<Rightarrow> u64" where
  "recvs_outstanding c = tot_rposted c - tot_rpolled c"

definition wait_sends :: "'w env \<Rightarrow> 'w mprud_state \<Rightarrow> (int \<times> 'w mprud_state) outcome" where
  "wait_sends ops = loop (\<lambda>s.
     if 256 \<le> sends_outstanding (mpctx s) then
       bindC (deref (inner_qps (mpctx s) 0)) (\<lambda>_.
       bindC (mprud_poll_cq ops poll_batch_wc True s) (\<lambda>(r, _, s').
       ret (if r \<noteq> 0 then Return (FAILURE, s') else Next s')))
     else ret (Return (SUCCESS, s)))"

definition wait_recvs :: "'w env \<Rightarrow> 'w mprud_state \<Rightarrow> (int \<times> 'w mprud_state) outcome" where
  "wait_recvs ops = loop (\<lambda>s.
     if 512 \<le> recvs_outstanding (mpctx s) then
       bindC (deref (inner_qps (mpctx s) 0)) (\<lambda>_.
       bindC (mprud_poll_cq ops poll_batch_wc True s) (\<lambda>(r, _, s').
       ret (if r \<noteq> 0 then Return (FAILURE, s') else Next s')))
     else ret (Return (SUCCESS, s)))"

subsection \<open>Posting a send\<close>

text \<open>Booking one posted packet on path \<open>t\<close>.\<close>

definition book_send :: "nat \<Rightarrow> 'w mprud_state \<Rightarrow> 'w mprud_state" where
  "book_send t s =
    (let s1 = upd_stat t (\<lambda>q. q\<lparr>posted_scnt := (posted_scnt q)\<lparr>pkt := pkt (posted_scnt q) + 1\<rparr>,
                qlen := qlen q + 1\<rparr>) s
     in upd_ctx (\<lambda>c. c\<lparr>tot_sposted := tot_sposted c + 1\<rparr>) s1)"

definition book_recv :: "nat \<Rightarrow> 'w mprud_state \<Rightarrow> 'w mprud_state" where
  "book_recv t s =
    (let s1 = upd_stat t (\<lambda>q. q\<lparr>posted_rcnt := (posted_rcnt q)\<lparr>pkt := pkt (posted_rcnt q) + 1\<rparr>,
                qlen := qlen q + 1\<rparr>) s
     in upd_ctx (\<lambda>c. c\<lparr>tot_rposted := tot_rposted c + 1\<rparr>) s1)"

text \<open>What follows the device call: the counters, the error test, the wait, the next turn.\<close>

definition after_post :: "('w mprud_state \<Rightarrow> 'w mprud_state) \<Rightarrow>
    ('w mprud_state \<Rightarrow> (int \<times> 'w mprud_state) outcome) \<Rightarrow> int \<Rightarrow> int \<times> 'w mprud_state \<Rightarrow>
    ('w mprud_state, int \<times> 'w mprud_state) flow outcome" where
  "after_post book wait n p =
    (case p of (err, s1) \<Rightarrow>
     let s2 = book s1
     in if err \<noteq> 0 then ret (Return (err, s2))
        else bindC (wait s2) (\<lambda>(r, s3).
          if r \<noteq> 0 then ret (Return (FAILURE, s3))
          else bindC (c_rem (post_turn (mpctx s3) + 1) n) (\<lambda>t.
            ret (Next (upd_ctx (\<lambda>c. c\<lparr>post_turn := t\<rparr>) s3)))))"

text \<open>
  The packets of a request go to the path whose turn it is. When a recovery has changed the
  number of active paths in between, the rest of the request is not posted.
\<close>

definition turn_path :: "int \<Rightarrow> 'w mprud_state \<Rightarrow> (nat \<times> ibv_qp) outcome" where
  "turn_path n s =
    bindC (index (nat n) (post_turn (mpctx s))) (\<lambda>t.
    if MPRUD_NUM_PATH \<le> t then raise OutOfBounds
    else bindC (deref (inner_qps (mpctx s) t)) (\<lambda>qp. ret (t, qp)))"

definition send_packet :: "'w env \<Rightarrow> ibv_send_wr \<Rightarrow> ibv_sge \<Rightarrow> split_params \<Rightarrow> int \<Rightarrow> nat \<Rightarrow>
    'w mprud_state \<Rightarrow> ('w mprud_state, int \<times> 'w mprud_state) flow outcome" where
  "send_packet ops wr g sp n i s =
    (if n \<noteq> active_num (mp_manager s) then
       ret (Return (SUCCESS, upd_ctx (\<lambda>c. c\<lparr>post_turn := 0\<rparr>) s))
     else
       bindC (turn_path n s) (\<lambda>(t, qp).
       let tmp_wr = wr\<lparr>swr_sg_list := Some (send_sge g sp n (int t) i),
             swr_ud_ah := ah_list (mpctx s) t,
             swr_ud_remote_qpn := dest_qp_num (mpctx s) + of_nat (t + 1),
             swr_ud_remote_qkey := MPRUD_QKEY\<rparr>
       in after_post (book_send t) (wait_sends ops) n (post_send_device ops qp tmp_wr s)))"

text \<open>
  The result also holds the application's work request, whose flags the call sets.
\<close>

definition mprud_post_send :: "'w env \<Rightarrow> ibv_send_wr \<Rightarrow> 'w mprud_state \<Rightarrow>
    (int \<times> ibv_send_wr \<times> 'w mprud_state) outcome" where
  "mprud_post_send ops wr s =
    bindC (c_rem (post_turn (mpctx s)) (active_num (mp_manager s))) (\<lambda>t0.
    let s1 = upd_ctx (\<lambda>c. c\<lparr>post_turn := t0\<rparr>) s
    in bindC (deref (swr_sg_list wr)) (\<lambda>g.
       let n = active_num (mp_manager s1)
       in bindC (split_checked (sge_length g) n) (\<lambda>sp.
          bindC (mprud_store_wr (Some wr) None (sint (sp_iter sp)) (sint (sp_iter_each sp))
              (sint (chnk_last sp)) s1) (\<lambda>s2.
          let wr1 = wr\<lparr>swr_send_flags := IBV_SEND_SIGNALED\<rparr>
          in bindC (for_each (send_packet ops wr1 g sp n) [0..<unat (sp_iter sp)] s2) (\<lambda>x.
             case flow_result (\<lambda>s'. (SUCCESS, s')) x of (r, s') \<Rightarrow> ret (r, wr1, s'))))))"

subsection \<open>Posting a receive\<close>

definition recv_packet :: "'w env \<Rightarrow> ibv_recv_wr \<Rightarrow> ibv_sge \<Rightarrow> split_params \<Rightarrow> int \<Rightarrow> nat \<Rightarrow>
    'w mprud_state \<Rightarrow> ('w mprud_state, int \<times> 'w mprud_state) flow outcome" where
  "recv_packet ops wr g sp n i s =
    (if n \<noteq> active_num (mp_manager s) then
       ret (Return (SUCCESS, upd_ctx (\<lambda>c. c\<lparr>post_turn := 0\<rparr>) s))
     else
       bindC (turn_path n s) (\<lambda>(t, qp).
       let tmp_wr = wr\<lparr>rwr_sg_list := Some (recv_sge g sp (buf_sub (bufs (mpctx s))) n (int t) i)\<rparr>
       in after_post (book_recv t) (wait_recvs ops) n (post_recv_device ops qp tmp_wr s)))"

definition mprud_post_recv :: "'w env \<Rightarrow> ibv_qp \<Rightarrow> ibv_recv_wr \<Rightarrow> 'w mprud_state \<Rightarrow>
    (int \<times> 'w mprud_state) outcome" where
  "mprud_post_recv ops ibqp wr s =
    bindC (c_rem (post_turn (mpctx s)) (active_num (mp_manager s))) (\<lambda>t0.
    let s1 = upd_ctx (\<lambda>c. c\<lparr>post_turn := t0\<rparr>) s
    in bindC (deref (rwr_sg_list wr)) (\<lambda>g.
       let sz = (if qp_qp_type ibqp = IBV_QPT_UD then sge_length g - of_nat MPRUD_GRH_SIZE
                 else sge_length g);
           n = active_num (mp_manager s1)
       in bindC (split_checked sz n) (\<lambda>sp.
          bindC (mprud_store_wr None (Some wr) (sint (sp_iter sp)) (sint (sp_iter_each sp))
              (sint (chnk_last sp)) s1) (\<lambda>s2.
          bindC (for_each (recv_packet ops wr g sp n) [0..<unat (sp_iter sp)] s2) (\<lambda>x.
          ret (flow_result (\<lambda>s'. (SUCCESS, s')) x))))))"

end
