(* ===== verification/Mprud_Recovery_Facts.thy ===== *)
theory Mprud_Recovery_Facts
  imports Mprud_Recovery
begin

section \<open>Properties of failure detection and recovery\<close>

text \<open>
  When the monitor declares a path failed, what the report carries, which bytes are sent
  again, how the bookkeeping of the resent packets ends, and the states in which the recovery
  faults, hangs or does nothing.
\<close>

subsection \<open>What the polls leave alone\<close>

lemma inner_poll_frame:
  assumes "mprud_inner_poll ops Iam s = ret (r, s')"
  shows "r = SUCCESS \<and> mp_manager s' = mp_manager s \<and> table (mpctx s') = table (mpctx s)"
  using assms
proof (cases rule: mprud_inner_poll_cases)
  case (polled i qp c k m w)
  then show ?thesis
    by (cases "word_of_int k = (0 :: u32)"; cases Iam)
      (auto simp: Let_def add_tot_polled_def dest!: inner_polled_eq_ret)
qed simp

lemma drain_pass:
  assumes "bindC (mprud_inner_poll ops Iam s) (\<lambda>(r, s').
      if r \<noteq> 0 then ret (Return (FAILURE, s'))
      else bindC (qlen_sum s') (\<lambda>sum. ret (if 0 < sum then Next s' else Return (SUCCESS, s')))) = ret x"
  obtains s1 where "mprud_inner_poll ops Iam s = ret (SUCCESS, s1)"
    and "x = Next s1 \<or> x = Return (SUCCESS, s1)"
proof -
  from assms obtain r s1 where ip: "mprud_inner_poll ops Iam s = ret (r, s1)"
    and rest: "(if r \<noteq> 0 then ret (Return (FAILURE, s1))
      else bindC (qlen_sum s1) (\<lambda>sum. ret (if 0 < sum then Next s1 else Return (SUCCESS, s1)))) = ret x"
    by (auto simp: bindC_eq_ret)
  have "r = SUCCESS" using inner_poll_frame [OF ip] by simp
  with rest have "x = Next s1 \<or> x = Return (SUCCESS, s1)"
    by (auto simp: SUCCESS_def bindC_eq_ret split: if_splits)
  with that ip \<open>r = SUCCESS\<close> show thesis by simp
qed

lemma drain_paths_frame:
  assumes "drain_paths ops Iam s = ret (r, s')"
  shows "r = SUCCESS \<and> mp_manager s' = mp_manager s \<and> table (mpctx s') = table (mpctx s)"
proof -
  let ?I = "\<lambda>s'. mp_manager s' = mp_manager s \<and> table (mpctx s') = table (mpctx s)"
  let ?Q = "\<lambda>x. fst x = SUCCESS \<and> ?I (snd x)"
  have "?Q (r, s')"
  proof (rule loop_inv [OF assms [unfolded drain_paths_def], where I = ?I and Q = ?Q])
    fix s1 s2
    assume I: "?I s1" and "bindC (mprud_inner_poll ops Iam s1) (\<lambda>(r, s').
        if r \<noteq> 0 then ret (Return (FAILURE, s'))
        else bindC (qlen_sum s') (\<lambda>sum. ret (if 0 < sum then Next s' else Return (SUCCESS, s')))) = ret (Next s2)"
    from this(2) show "?I s2" by (rule drain_pass) (use I inner_poll_frame in fastforce)
  next
    fix s1 x
    assume I: "?I s1" and "bindC (mprud_inner_poll ops Iam s1) (\<lambda>(r, s').
        if r \<noteq> 0 then ret (Return (FAILURE, s'))
        else bindC (qlen_sum s') (\<lambda>sum. ret (if 0 < sum then Next s' else Return (SUCCESS, s')))) = ret (Return x)"
    from this(2) show "?Q x" by (rule drain_pass) (use I inner_poll_frame in fastforce)
  qed simp
  then show ?thesis by simp
qed

lemma poll_blocking_frame:
  assumes "poll_blocking ops cq s = ret (r, s')"
  shows "mp_manager s' = mp_manager s \<and> mpctx s' = mpctx s"
proof -
  have "mp_manager (snd x) = mp_manager s \<and> mpctx (snd x) = mpctx s" if "poll_blocking ops cq s = ret x" for x
    using that unfolding poll_blocking_def
    by (rule loop_inv [where I = "\<lambda>s'. mp_manager s' = mp_manager s \<and> mpctx s' = mpctx s"])
      (auto simp: bindC_eq_ret poll_device_eq_ret split: if_splits)
  from this [OF assms] show ?thesis by simp
qed

lemma poll_report_frame:
  "mprud_poll_report ops cq b s = ret (r, s') \<Longrightarrow> mp_manager s' = mp_manager s \<and> mpctx s' = mpctx s"
  by (cases b) (auto simp: mprud_poll_report_def poll_device_eq_ret dest: poll_blocking_frame)

lemma device_frame [simp]:
  "mpctx (snd (post_recv_device ops qp rw s)) = mpctx s"
  "mp_manager (snd (post_recv_device ops qp rw s)) = mp_manager s"
  "memory (snd (post_recv_device ops qp rw s)) = memory s"
  "mpctx (snd (post_send_device ops qp sw s)) = mpctx s"
  "mp_manager (snd (post_send_device ops qp sw s)) = mp_manager s"
  "memory (snd (post_send_device ops qp sw s)) = memory s"
  by (simp_all add: post_recv_device_def post_send_device_def split: prod.splits)

lemma post_recv_ack_frame:
  "mprud_post_recv_ack ops Iam s = ret (r, s') \<Longrightarrow> mp_manager s' = mp_manager s \<and> mpctx s' = mpctx s"
  by (auto simp: mprud_post_recv_ack_def bindC_eq_ret Let_def post_recv_device_def split: prod.splits)

lemma post_send_ack_frame:
  "mprud_post_send_ack ops Iam s = ret (r, s') \<Longrightarrow> mp_manager s' = mp_manager s \<and> mpctx s' = mpctx s"
  by (auto simp: mprud_post_send_ack_def bindC_eq_ret Let_def post_send_device_def split: prod.splits)

lemma post_send_report_cases:
  assumes "mprud_post_send_report ops s = ret (r, s')"
  shows "uint (max_posted (msg (mp_manager s))) < int MPRUD_TABLE_LEN"
    and "memory s' = store_msg (memory s) (send_base_addr (mp_manager s)) (msg (mp_manager s))"
    and "mp_manager s' = mp_manager s" and "table (mpctx s') = table (mpctx s)"
  using assms
  by (auto simp: mprud_post_send_report_def bindC_eq_ret Let_def post_send_device_def
      split: prod.splits if_splits)

subsection \<open>Detection\<close>

text \<open>A path that has received nothing since the last look and for too long.\<close>

definition stalled :: "'w mprud_state \<Rightarrow> path_manager \<Rightarrow> nat \<Rightarrow> bool" where
  "stalled s m i \<longleftrightarrow> tot_pkt (polled_rcnt (stat s i)) \<le> prev_qp_cnt m i \<and>
     MPRUD_TIMEOUT_THRESHOLD < mprud_get_us (qp_wait m i) (now m)"

text \<open>
  The loop over the paths, path by path: what a look at time \<open>now\<close> leaves of the state of the
  paths, of the time of their last progress and of the counts it compares with.
\<close>

definition look_qps :: "'w mprud_state \<Rightarrow> path_manager \<Rightarrow> nat \<Rightarrow> int" where
  "look_qps s m i = (if qps m i = MPRUD_QPS_ACTIVE \<and> stalled s m i then MPRUD_QPS_ERROR else qps m i)"

definition look_wait :: "'w mprud_state \<Rightarrow> path_manager \<Rightarrow> nat \<Rightarrow> timeval" where
  "look_wait s m i = (if qps m i = MPRUD_QPS_ACTIVE \<and> prev_qp_cnt m i < tot_pkt (polled_rcnt (stat s i))
     then now m else qp_wait m i)"

definition look_cnt :: "'w mprud_state \<Rightarrow> path_manager \<Rightarrow> nat \<Rightarrow> u64" where
  "look_cnt s m i = (if qps m i = MPRUD_QPS_ACTIVE then tot_pkt (polled_rcnt (stat s i)) else prev_qp_cnt m i)"

lemmas look_defs = look_qps_def look_wait_def look_cnt_def stalled_def

lemma monitor_one_eq:
  "monitor_one s i m = m\<lparr>qps := (qps m)(i := look_qps s m i),
     qp_wait := (qp_wait m)(i := look_wait s m i), prev_qp_cnt := (prev_qp_cnt m)(i := look_cnt s m i)\<rparr>"
  by (cases m) (auto simp: monitor_one_def look_defs Let_def not_less fun_upd_idem)

lemma fold_monitor:
  "fold (monitor_one s) [0..<n] m =
    m\<lparr>qps := (\<lambda>i. if i < n then look_qps s m i else qps m i),
      qp_wait := (\<lambda>i. if i < n then look_wait s m i else qp_wait m i),
      prev_qp_cnt := (\<lambda>i. if i < n then look_cnt s m i else prev_qp_cnt m i)\<rparr>"
proof (induction n)
  case (Suc n)
  have step: "fold (monitor_one s) [0..<Suc n] m = monitor_one s n (fold (monitor_one s) [0..<n] m)" by simp
  have grow: "(\<lambda>i. if i < n then f i else g i)(n := f n) = (\<lambda>i. if i < Suc n then f i else g i)"
    for f g :: "nat \<Rightarrow> 'b" by (auto simp: fun_eq_iff less_Suc_eq)
  show ?case unfolding step unfolding Suc unfolding monitor_one_eq
    by (simp add: grow [symmetric]) (simp add: look_defs)
qed simp

text \<open>
  C9: once the monitoring has started and outside a recovery, a call of the monitor before the
  cycle is over only notes the time. After the cycle it marks exactly the active
  paths that have polled no packet since the previous look and whose last progress is more
  than a thousand microseconds ago; the active paths that made progress have the present
  as the time of their last progress, the others keep theirs; every active path is remembered
  with its present count, and a new cycle begins. A failure is reported, and a recovery
  started, exactly when some path is in error; nothing else of the state changes.
\<close>

theorem monitor_detects:
  assumes "gettimeofday_op ops (world s) = (t, w)"
    and "start_time_flag (mp_manager s) \<noteq> 0" and "recovery_flag (mp_manager s) = 0"
  shows "\<exists>code m'. mprud_monitor_path ops s = ret (code, s\<lparr>world := w, mp_manager := m'\<rparr>) \<and>
    (if mprud_get_us (start (mp_manager s)) t < MPRUD_MONITOR_CYCLE
     then code = MPRUD_STATUS_WAIT \<and> m' = (mp_manager s)\<lparr>now := t\<rparr>
     else
       (\<forall>i < MPRUD_NUM_PATH.
          qps m' i = (if qps (mp_manager s) i = MPRUD_QPS_ACTIVE \<and> stalled s ((mp_manager s)\<lparr>now := t\<rparr>) i
            then MPRUD_QPS_ERROR else qps (mp_manager s) i) \<and>
          qp_wait m' i = (if qps (mp_manager s) i = MPRUD_QPS_ACTIVE
              \<and> prev_qp_cnt (mp_manager s) i < tot_pkt (polled_rcnt (stat s i))
            then t else qp_wait (mp_manager s) i) \<and>
          prev_qp_cnt m' i = (if qps (mp_manager s) i = MPRUD_QPS_ACTIVE
            then tot_pkt (polled_rcnt (stat s i)) else prev_qp_cnt (mp_manager s) i)) \<and>
       code = (if \<exists>i < MPRUD_NUM_PATH. qps m' i = MPRUD_QPS_ERROR
               then MPRUD_STATUS_FAIL else MPRUD_STATUS_NORMAL) \<and>
       m' = (mp_manager s)\<lparr>now := t, start := t, qps := qps m', qp_wait := qp_wait m',
          prev_qp_cnt := prev_qp_cnt m', recovery_flag := (if code = MPRUD_STATUS_FAIL then 1 else 0)\<rparr>)"
proof (cases "mprud_get_us (start (mp_manager s)) t < MPRUD_MONITOR_CYCLE")
  case True
  then show ?thesis using assms by (simp add: mprud_monitor_path_def read_clock_def)
next
  case False
  define s2 where "s2 = s\<lparr>world := w, mp_manager := (mp_manager s)\<lparr>now := t\<rparr>\<rparr>"
  define m where "m = (fold (monitor_one s2) [0..<MPRUD_NUM_PATH] (mp_manager s2))\<lparr>start := t\<rparr>"
  have eq: "mprud_monitor_path ops s =
      (if list_ex (\<lambda>i. qps m i = MPRUD_QPS_ERROR) [0..<MPRUD_NUM_PATH]
       then ret (MPRUD_STATUS_FAIL, s2\<lparr>mp_manager := m\<lparr>recovery_flag := 1\<rparr>\<rparr>)
       else ret (MPRUD_STATUS_NORMAL, s2\<lparr>mp_manager := m\<rparr>))"
    using assms False
    by (simp add: mprud_monitor_path_def read_clock_def Let_def m_def s2_def not_less cong: if_cong)
  have paths: "qps m i = look_qps s ((mp_manager s)\<lparr>now := t\<rparr>) i \<and> qp_wait m i = look_wait s ((mp_manager s)\<lparr>now := t\<rparr>) i
      \<and> prev_qp_cnt m i = look_cnt s ((mp_manager s)\<lparr>now := t\<rparr>) i" if "i < MPRUD_NUM_PATH" for i
    using that by (simp add: m_def fold_monitor) (simp add: s2_def look_defs)
  have flag: "recovery_flag m = 0" using assms(3) by (simp add: m_def s2_def fold_monitor)
  have err: "list_ex (\<lambda>i. qps m i = MPRUD_QPS_ERROR) [0..<MPRUD_NUM_PATH] \<longleftrightarrow>
      (\<exists>i < MPRUD_NUM_PATH. qps m i = MPRUD_QPS_ERROR)" by (auto simp: list_ex_iff)
  define m' where "m' = m\<lparr>recovery_flag := (if \<exists>i < MPRUD_NUM_PATH. qps m i = MPRUD_QPS_ERROR then 1 else 0)\<rparr>"
  have run: "mprud_monitor_path ops s = ret (if \<exists>i < MPRUD_NUM_PATH. qps m i = MPRUD_QPS_ERROR
      then MPRUD_STATUS_FAIL else MPRUD_STATUS_NORMAL, s\<lparr>world := w, mp_manager := m'\<rparr>)"
    using flag by (auto simp: eq err m'_def s2_def)
  have same: "qps m' = qps m" "qp_wait m' = qp_wait m" "prev_qp_cnt m' = prev_qp_cnt m" by (simp_all add: m'_def)
  have rest: "m' = (mp_manager s)\<lparr>now := t, start := t, qps := qps m', qp_wait := qp_wait m',
      prev_qp_cnt := prev_qp_cnt m', recovery_flag := recovery_flag m'\<rparr>"
    unfolding same by (simp add: m'_def m_def s2_def fold_monitor)
  have rf: "recovery_flag m' = (if (if \<exists>i < MPRUD_NUM_PATH. qps m i = MPRUD_QPS_ERROR
      then MPRUD_STATUS_FAIL else MPRUD_STATUS_NORMAL) = MPRUD_STATUS_FAIL then 1 else 0)"
    by (simp add: m'_def)
  show ?thesis
    by (rule exI, rule exI, rule conjI [OF run])
      (use False paths rest [unfolded rf] in \<open>simp add: same look_defs cong: if_cong\<close>)
qed

text \<open>A device and a clock that stands at two milliseconds.\<close>

definition idle_env :: "unit env" where
  "idle_env = \<lparr>post_send_op = (\<lambda>_ _ _ w. (0, w)), post_recv_op = (\<lambda>_ _ w. (0, w)),
     poll_cq_op = (\<lambda>_ _ m w. (0, m, w)), gettimeofday_op = (\<lambda>w. (\<lparr>tv_sec = 0, tv_usec = 2000\<rparr>, w))\<rparr>"

theorem monitor_detects_witness:
  "\<exists>s'. mprud_monitor_path idle_env ((ready_state (\<lambda>_. 0) ())\<lparr>mp_manager :=
      (mp_manager (ready_state (\<lambda>_. 0) ()))\<lparr>start_time_flag := 1\<rparr>\<rparr>) = ret (MPRUD_STATUS_FAIL, s')"
proof -
  define s t where "s = (ready_state (\<lambda>_. 0) ())\<lparr>mp_manager :=
      (mp_manager (ready_state (\<lambda>_. 0) ()))\<lparr>start_time_flag := 1\<rparr>\<rparr>"
    and "t = \<lparr>tv_sec = 0, tv_usec = 2000\<rparr>"
  have "gettimeofday_op idle_env (world s) = (t, ())" "start_time_flag (mp_manager s) \<noteq> 0"
    "recovery_flag (mp_manager s) = 0" by (simp_all add: s_def t_def idle_env_def ready_state_def boot_defs)
  note look = monitor_detects [OF this]
  have cycle: "\<not> mprud_get_us (start (mp_manager s)) t < MPRUD_MONITOR_CYCLE"
    and zero: "0 < MPRUD_NUM_PATH"
    and stalled: "qps (mp_manager s) 0 = MPRUD_QPS_ACTIVE \<and> stalled s ((mp_manager s)\<lparr>now := t\<rparr>) 0"
    by (simp_all add: s_def t_def stalled_def ready_state_def boot_defs mprud_get_us_def mprud_consts)
  from look [unfolded if_not_P [OF cycle]] zero obtain code m'
    where run: "mprud_monitor_path idle_env s = ret (code, s\<lparr>world := (), mp_manager := m'\<rparr>)"
      and q: "qps m' 0 = (if qps (mp_manager s) 0 = MPRUD_QPS_ACTIVE \<and> stalled s ((mp_manager s)\<lparr>now := t\<rparr>) 0
            then MPRUD_QPS_ERROR else qps (mp_manager s) 0)"
      and code: "code = (if \<exists>i < MPRUD_NUM_PATH. qps m' i = MPRUD_QPS_ERROR
            then MPRUD_STATUS_FAIL else MPRUD_STATUS_NORMAL)" by blast
  have "code = MPRUD_STATUS_FAIL" using q stalled zero code by auto
  with run show ?thesis by (auto simp: s_def)
qed

subsection \<open>The report\<close>

lemma load_u32_cong:
  "(\<And>j. j < 4 \<Longrightarrow> m (a + of_nat j) = m' (b + of_nat j)) \<Longrightarrow> load_u32 m a = load_u32 m' b"
proof -
  assume eq: "\<And>j. j < 4 \<Longrightarrow> m (a + of_nat j) = m' (b + of_nat j)"
  from eq [of 0] eq [of 1] eq [of 2] eq [of 3] show ?thesis by (simp add: load_u32_def)
qed

lemma load_msg_cong:
  assumes "\<And>j. j < 16 \<Longrightarrow> m (a + of_nat j) = m' (b + of_nat j)"
  shows "load_msg m a = load_msg m' b"
proof -
  have "load_u32 m (a + of_nat k) = load_u32 m' (b + of_nat k)" if "k \<le> 12" for k
    using assms [of "k + j" for j] that by (intro load_u32_cong) (simp add: algebra_simps)
  from this [of 0] this [of 4] this [of 8] this [of 12] show ?thesis
    by (simp add: load_msg_def)
qed

text \<open>
  C12: the client that polls a report has, after draining its paths, exactly the message the
  server sent, once the device has carried the 16 bytes of the server's send buffer into the
  client's receive buffer behind the routing header.
\<close>

theorem report_roundtrip:
  assumes "mprud_post_send_report ops srv = ret (SUCCESS, srv')"
    and "\<forall>j < 16. memory cli (recv_base_addr (mp_manager cli) + of_nat MPRUD_GRH_SIZE + of_nat j) =
      memory srv' (send_base_addr (mp_manager srv) + of_nat j)"
    and "client_got_report ops' ne cli = ret (code, cli')"
  shows "msg (mp_manager cli') = msg (mp_manager srv) \<and> code = MPRUD_STATUS_FAIL
    \<and> recovery_flag (mp_manager cli') = 1"
proof -
  have "load_msg (memory cli) (recv_base_addr (mp_manager cli) + of_nat MPRUD_GRH_SIZE) =
      load_msg (memory srv') (send_base_addr (mp_manager srv))"
    using assms(2) by (intro load_msg_cong) simp
  also have "\<dots> = msg (mp_manager srv)"
    using post_send_report_cases(2) [OF assms(1)] by simp
  finally have "load_msg (memory cli) (recv_base_addr (mp_manager cli) + of_nat MPRUD_GRH_SIZE) =
      msg (mp_manager srv)" .
  with assms(3) show ?thesis
    by (auto simp: client_got_report_def bindC_eq_ret Let_def SUCCESS_def dest!: drain_paths_frame)
qed

text \<open>The states of both sides for a report about path 3.\<close>

definition sample_qp :: ibv_qp where
  "sample_qp = zero_qp\<lparr>qp_handle := 9, qp_send_cq := Some 9, qp_recv_cq := Some 10, qp_qp_type := IBV_QPT_UD\<rparr>"

definition server_sample :: "unit mprud_state" where
  "server_sample = upd_mgr (\<lambda>m. m\<lparr>report_qp := Some sample_qp, send_base_addr := 65536,
     recv_base_addr := 131072, msg := \<lparr>errqpn = 3, max_posted = 7, wqe_loss_idx = 5, completed = 1\<rparr>\<rparr>)
     (upd_wqe 7 (\<lambda>e. e\<lparr>wqe_rwr := zero_recv_wr\<lparr>rwr_sg_list := Some zero_sge\<rparr>\<rparr>) (ready_state (\<lambda>_. 0) ()))"

definition client_sample :: "unit mprud_state" where
  "client_sample = upd_mgr (\<lambda>m. m\<lparr>report_qp := Some sample_qp, send_base_addr := 65536,
     recv_base_addr := 131072\<rparr>) (ready_state (store_msg (\<lambda>_. 0) (131072 + 40) (msg (mp_manager server_sample))) ())"

lemma server_sample_report:
  "\<exists>s'. mprud_post_send_report idle_env server_sample = ret (SUCCESS, s') \<and>
     memory s' = store_msg (\<lambda>_. 0) 65536 (msg (mp_manager server_sample))"
  by (simp add: mprud_post_send_report_def server_sample_def index_def MPRUD_TABLE_LEN_def
      Let_def post_send_device_def idle_env_def)

lemma drain_idle:
  "tot_posted Iam (mpctx s) = tot_polled Iam (mpctx s) \<Longrightarrow> 0 < active_num (mp_manager s) \<Longrightarrow>
    qlen_sum s = ret 0 \<Longrightarrow> drain_paths ops Iam s = ret (SUCCESS, s)"
  by (simp add: drain_paths_def loop_Return mprud_inner_poll_def c_rem_def SUCCESS_def)

lemma client_got_report_idle:
  assumes "tot_sposted (mpctx s) = tot_spolled (mpctx s)" and "0 < active_num (mp_manager s)"
    and "active_num (mp_manager s) \<le> 4" and "\<forall>i < 4. qlen (stat s i) = 0"
  shows "\<exists>code s'. client_got_report ops ne s = ret (code, s')"
proof -
  define s3 where "s3 = upd_mgr (\<lambda>m. m\<lparr>recovery_flag := 1,
      msg := load_msg (memory s) (recv_base_addr m + of_nat MPRUD_GRH_SIZE)\<rparr>)
    (upd_stat MPRUD_NUM_PATH (\<lambda>q. q\<lparr>polled_rcnt := (polled_rcnt q)\<lparr>ack :=
      ack (polled_rcnt q) + word_of_int ne\<rparr>\<rparr>) s)"
  have "map (\<lambda>i. qlen (stat s3 i)) [0..<nat (active_num (mp_manager s) - 1)] =
      map (\<lambda>_. 0) [0..<nat (active_num (mp_manager s) - 1)]"
    using assms(3,4) by (intro map_cong) (auto simp: s3_def MPRUD_NUM_PATH_def)
  then have "qlen_sum s3 = ret 0"
  proof -
    have "active_num (mp_manager s3) = active_num (mp_manager s)" by (simp add: s3_def)
    with \<open>map _ _ = _\<close> assms(3) show ?thesis
      by (simp only: qlen_sum_def Let_def sum_list_0) (simp add: MPRUD_NUM_PATH_def)
  qed
  then have "drain_paths ops MP_CLIENT s3 = ret (SUCCESS, s3)"
    using assms(1,2) by (intro drain_idle) (simp_all add: s3_def tot_posted_def tot_polled_def)
  then show ?thesis by (simp add: client_got_report_def Let_def s3_def)
qed

theorem report_roundtrip_witness:
  "\<exists>code s'. client_got_report idle_env 1 client_sample = ret (code, s') \<and>
     msg (mp_manager s') = \<lparr>errqpn = 3, max_posted = 7, wqe_loss_idx = 5, completed = 1\<rparr>"
proof -
  obtain srv' where srv: "mprud_post_send_report idle_env server_sample = ret (SUCCESS, srv')"
    "memory srv' = store_msg (\<lambda>_. 0) 65536 (msg (mp_manager server_sample))"
    using server_sample_report by blast
  have got: "\<exists>code s'. client_got_report idle_env 1 client_sample = ret (code, s')"
    by (rule client_got_report_idle) (simp_all add: client_sample_def zero_qp_status_def)
  moreover have "memory client_sample (recv_base_addr (mp_manager client_sample) + of_nat MPRUD_GRH_SIZE + of_nat j) =
      memory srv' (send_base_addr (mp_manager server_sample) + of_nat j)" if "j < 16" for j
  proof -
    have "j \<in> set [0..<16]" using that by simp
    then show ?thesis
      by (auto simp: upt_rec srv(2) client_sample_def server_sample_def MPRUD_GRH_SIZE_def
          store_msg_def store_u32_def)
  qed
  moreover have "msg (mp_manager server_sample) = \<lparr>errqpn = 3, max_posted = 7, wqe_loss_idx = 5, completed = 1\<rparr>"
    by (simp add: server_sample_def)
  ultimately show ?thesis using report_roundtrip [OF srv(1), of client_sample idle_env 1] by metis
qed

subsection \<open>Completing resent requests\<close>

text \<open>What the server's bookkeeping of a completed request needs not to fault.\<close>

definition recovery_safe :: "role \<Rightarrow> int \<Rightarrow> 'w mprud_state \<Rightarrow> bool" where
  "recovery_safe Iam errq s \<longleftrightarrow> Iam = MP_CLIENT \<or>
     0 \<le> errq \<and> errq < int MPRUD_NUM_PATH \<and> active_num (mp_manager s) \<le> int MPRUD_NUM_PATH"

lemma recovery_done_wqe_safe:
  assumes "recovery_safe Iam errq s"
  shows "\<exists>s'. recovery_done_wqe Iam cur errq s = ret s' \<and> mp_manager s' = mp_manager s
    \<and> recovery_polled_pkt (stat s' j) = recovery_polled_pkt (stat s j)
    \<and> (Iam = MP_SERVER \<longrightarrow> iter_each (wqe s' cur) (nat errq) = 0)"
  using assms
  by (cases Iam) (auto simp: recovery_safe_def recovery_done_wqe_def index_def Let_def MPRUD_NUM_PATH_def)

lemma recovery_complete_pass:
  fixes s :: "'w mprud_state"
  assumes "need \<le> recovery_polled_pkt (stat s MPRUD_NUM_PATH)" and "recovery_safe Iam errq s"
  shows "\<exists>s'. (let s1 = upd_stat MPRUD_NUM_PATH (\<lambda>q. q\<lparr>recovery_polled_pkt := recovery_polled_pkt q - need\<rparr>) s;
           s2 = upd_mgr (\<lambda>m. m\<lparr>recovery_cur_poll_wqe := recovery_cur_poll_wqe m + 1\<rparr>) s1
       in bindC (recovery_done_wqe Iam cur errq s2) (\<lambda>s3. ret (Next s3))) =
         (ret (Next s') :: ('w mprud_state, 'w mprud_state) flow outcome)
    \<and> mp_manager s' = (mp_manager s)\<lparr>recovery_cur_poll_wqe := recovery_cur_poll_wqe (mp_manager s) + 1\<rparr>
    \<and> recovery_polled_pkt (stat s' MPRUD_NUM_PATH) = recovery_polled_pkt (stat s MPRUD_NUM_PATH) - need
    \<and> (Iam = MP_SERVER \<longrightarrow> iter_each (wqe s' cur) (nat errq) = 0)"
proof -
  define s2 where "s2 = upd_mgr (\<lambda>m. m\<lparr>recovery_cur_poll_wqe := recovery_cur_poll_wqe m + 1\<rparr>)
    (upd_stat MPRUD_NUM_PATH (\<lambda>q. q\<lparr>recovery_polled_pkt := recovery_polled_pkt q - need\<rparr>) s)"
  have "recovery_safe Iam errq s2" using assms(2) by (simp add: recovery_safe_def s2_def)
  from recovery_done_wqe_safe [OF this, of cur MPRUD_NUM_PATH] obtain s3 where
    "recovery_done_wqe Iam cur errq s2 = ret s3" "mp_manager s3 = mp_manager s2"
    "recovery_polled_pkt (stat s3 MPRUD_NUM_PATH) = recovery_polled_pkt (stat s2 MPRUD_NUM_PATH)"
    "Iam = MP_SERVER \<longrightarrow> iter_each (wqe s3 cur) (nat errq) = 0" by blast
  then show ?thesis by (simp add: Let_def s2_def)
qed

text \<open>
  C11: when the request being recovered needs at least one packet, the loop that completes
  resent requests ends: it completes one request per \<^verbatim>\<open>comp_need\<close> packets and
  keeps the remainder, and on the server the failed path needs no packets of the request any
  more.
\<close>

theorem recovery_complete_counts:
  fixes s :: "'w mprud_state"
  assumes "need \<noteq> 0" and "recovery_safe Iam errq s"
  defines "p \<equiv> unat (recovery_polled_pkt (stat s MPRUD_NUM_PATH))"
  shows "\<exists>s'. recovery_complete Iam cur errq need s = ret s'
    \<and> recovery_cur_poll_wqe (mp_manager s') = recovery_cur_poll_wqe (mp_manager s) + int (p div unat need)
    \<and> unat (recovery_polled_pkt (stat s' MPRUD_NUM_PATH)) = p mod unat need
    \<and> (Iam = MP_SERVER \<and> need \<le> recovery_polled_pkt (stat s MPRUD_NUM_PATH) \<longrightarrow>
         iter_each (wqe s' cur) (nat errq) = 0)"
proof -
  let ?pp = "\<lambda>s. unat (recovery_polled_pkt (stat s MPRUD_NUM_PATH))"
  let ?cur = "\<lambda>s. recovery_cur_poll_wqe (mp_manager s)"
  have n0: "0 < unat need" using assms(1) by (simp add: unat_gt_0)
  define I where "I = (\<lambda>s' :: 'w mprud_state. recovery_safe Iam errq s' \<and> ?pp s' \<le> p \<and>
    ?cur s' + int (?pp s' div unat need) = ?cur s + int (p div unat need) \<and>
    ?pp s' mod unat need = p mod unat need \<and>
    (Iam = MP_SERVER \<and> ?pp s' < p \<longrightarrow> iter_each (wqe s' cur) (nat errq) = 0))"
  have "\<exists>r. recovery_complete Iam cur errq need s = ret r \<and> (I r \<and> ?pp r < unat need)"
    unfolding recovery_complete_def
  proof (rule loop_total [where I = I and m = ?pp])
    show "I s" using assms(2) by (simp add: I_def p_def)
  next
    fix s1 :: "'w mprud_state"
    assume I: "I s1"
    show "(\<exists>r. (if need \<le> recovery_polled_pkt (stat s1 MPRUD_NUM_PATH) then
           let s1' = upd_stat MPRUD_NUM_PATH (\<lambda>q. q\<lparr>recovery_polled_pkt := recovery_polled_pkt q - need\<rparr>) s1;
               s2 = upd_mgr (\<lambda>m. m\<lparr>recovery_cur_poll_wqe := recovery_cur_poll_wqe m + 1\<rparr>) s1'
           in bindC (recovery_done_wqe Iam cur errq s2) (\<lambda>s3. ret (Next s3))
         else ret (Return s1)) = ret (Return r) \<and> I r \<and> ?pp r < unat need) \<or>
      (\<exists>s'. (if need \<le> recovery_polled_pkt (stat s1 MPRUD_NUM_PATH) then
           let s1' = upd_stat MPRUD_NUM_PATH (\<lambda>q. q\<lparr>recovery_polled_pkt := recovery_polled_pkt q - need\<rparr>) s1;
               s2 = upd_mgr (\<lambda>m. m\<lparr>recovery_cur_poll_wqe := recovery_cur_poll_wqe m + 1\<rparr>) s1'
           in bindC (recovery_done_wqe Iam cur errq s2) (\<lambda>s3. ret (Next s3))
         else ret (Return s1)) = ret (Next s') \<and> I s' \<and> ?pp s' < ?pp s1)"
    proof (cases "need \<le> recovery_polled_pkt (stat s1 MPRUD_NUM_PATH)")
      case False
      then show ?thesis using I by (simp add: word_le_nat_alt not_le)
    next
      case True
      have "recovery_safe Iam errq s1" using I by (simp add: I_def)
      from recovery_complete_pass [OF True this, of cur] obtain s' where s':
        "(let s1' = upd_stat MPRUD_NUM_PATH (\<lambda>q. q\<lparr>recovery_polled_pkt := recovery_polled_pkt q - need\<rparr>) s1;
              s2 = upd_mgr (\<lambda>m. m\<lparr>recovery_cur_poll_wqe := recovery_cur_poll_wqe m + 1\<rparr>) s1'
          in bindC (recovery_done_wqe Iam cur errq s2) (\<lambda>s3. ret (Next s3))) =
            (ret (Next s') :: ('w mprud_state, 'w mprud_state) flow outcome)"
        "mp_manager s' = (mp_manager s1)\<lparr>recovery_cur_poll_wqe := recovery_cur_poll_wqe (mp_manager s1) + 1\<rparr>"
        "recovery_polled_pkt (stat s' MPRUD_NUM_PATH) = recovery_polled_pkt (stat s1 MPRUD_NUM_PATH) - need"
        "Iam = MP_SERVER \<longrightarrow> iter_each (wqe s' cur) (nat errq) = 0" by blast
      have le: "unat need \<le> ?pp s1" using True by (simp add: word_le_nat_alt)
      have pp: "?pp s' = ?pp s1 - unat need" using s'(3) True by (simp add: unat_sub)
      have "?pp s1 div unat need = (?pp s1 - unat need) div unat need + 1"
        "?pp s1 mod unat need = (?pp s1 - unat need) mod unat need"
        using le n0 by (simp_all add: le_div_geq le_mod_geq)
      then have "I s'" "?pp s' < ?pp s1"
        using I s'(2,4) le n0 pp by (auto simp: I_def recovery_safe_def)
      then show ?thesis using s'(1) True by (auto simp only: if_True)
    qed
  qed
  then obtain r where r: "recovery_complete Iam cur errq need s = ret r" "I r" "?pp r < unat need" by blast
  then show ?thesis
    using n0 by (auto simp: I_def p_def word_le_nat_alt intro: less_le_trans [OF mod_less_divisor])
qed

text \<open>
  C39: when a request being recovered needs no packet (its lost part is shorter than one byte
  per remaining path, or its table entry was never filled), the loop never ends.
\<close>

theorem recovery_complete_hangs:
  fixes s :: "'w mprud_state"
  assumes "recovery_safe Iam errq s"
  shows "recovery_complete Iam cur errq 0 s = None"
  unfolding recovery_complete_def
proof (rule loop_diverges [where I = "recovery_safe Iam errq"])
  fix s1 :: "'w mprud_state"
  assume "recovery_safe Iam errq s1"
  from recovery_complete_pass [OF _ this, of 0 cur]
  show "\<exists>s'. (if 0 \<le> recovery_polled_pkt (stat s1 MPRUD_NUM_PATH) then
           let s1' = upd_stat MPRUD_NUM_PATH (\<lambda>q. q\<lparr>recovery_polled_pkt := recovery_polled_pkt q - 0\<rparr>) s1;
               s2 = upd_mgr (\<lambda>m. m\<lparr>recovery_cur_poll_wqe := recovery_cur_poll_wqe m + 1\<rparr>) s1'
           in bindC (recovery_done_wqe Iam cur errq s2) (\<lambda>s3. ret (Next s3))
         else ret (Return s1)) = ret (Next s') \<and> recovery_safe Iam errq s'"
    using \<open>recovery_safe Iam errq s1\<close> by (auto simp: recovery_safe_def)
qed (rule assms)

theorem recovery_complete_counts_witness:
  "\<exists>s'. recovery_complete MP_CLIENT 0 3 4 (upd_stat MPRUD_NUM_PATH (\<lambda>q. q\<lparr>recovery_polled_pkt := 9\<rparr>)
      (ready_state (\<lambda>_. 0) ())) = ret s' \<and> unat (recovery_polled_pkt (stat s' MPRUD_NUM_PATH)) = 1"
  using recovery_complete_counts [of 4 MP_CLIENT 3 "upd_stat MPRUD_NUM_PATH (\<lambda>q. q\<lparr>recovery_polled_pkt := 9\<rparr>)
      (ready_state (\<lambda>_. 0) ())" 0]
  by (auto simp: recovery_safe_def)

theorem recovery_complete_hangs_witness:
  "recovery_complete MP_CLIENT 0 3 0 (ready_state (\<lambda>_. 0) ()) = None"
  using recovery_complete_hangs [of MP_CLIENT 3 "ready_state (\<lambda>_. 0) ()" 0] by (simp add: recovery_safe_def)

subsection \<open>Which bytes are sent again\<close>

text \<open>
  How many packets of the request in table entry \<open>k\<close> the failed path had completed according to
  the report: \<^verbatim>\<open>completed\<close> of the one the failure interrupted, none of the later ones.
\<close>

definition lost_done :: "report_msg \<Rightarrow> int \<Rightarrow> nat" where
  "lost_done r k = (if word_of_int k = wqe_loss_idx r then unat (completed r) else 0)"

text \<open>
  The lost part of a request posted over \<open>n\<close> paths. Only for the one the failure interrupted the
  code reads the stored number of packets of the path.
\<close>

definition report_fits :: "int \<Rightarrow> report_msg \<Rightarrow> int \<Rightarrow> (nat \<Rightarrow> int) \<Rightarrow> ibv_sge \<Rightarrow> bool" where
  "report_fits n r k each g \<longleftrightarrow> (word_of_int k = wqe_loss_idx r \<longrightarrow>
     each (unat (errqpn r)) = int (unat (sp_iter_each (split_msg (sge_length g) n)))
     \<and> completed r < sp_iter_each (split_msg (sge_length g) n))"

lemma lost_part_later:
  fixes g :: ibv_sge
  assumes n: "paths_ok n" and q: "unat (errqpn r) < nat n" and k: "word_of_int k \<noteq> wqe_loss_idx r"
  defines "c \<equiv> unat (chunk_size (split_msg (sge_length g) n))"
  obtains g' where "lost_part n r k each g = ret g'"
    and "sge_addr g' = sge_addr g + of_nat (unat (errqpn r) * c)" and "unat (sge_length g') = c"
proof -
  define len where "len = sge_length g div word_of_int n"
  have len: "unat len = c" by (simp add: len_def c_def split_msg_def Let_def)
  have wn: "word_of_int n \<noteq> (0 :: u32)" using unat_paths [OF n] n by (auto simp: paths_ok_def)
  have "unat (errqpn r) * c \<le> nat n * c" using q by (intro mult_right_mono) simp_all
  also have "\<dots> \<le> unat (sge_length g)" using chunk_total_le [OF n] by (simp add: c_def)
  finally have u: "unat (errqpn r * len) = unat (errqpn r) * c"
    using unat_u32_lt [of "sge_length g"] by (simp add: unat_word_ariths len)
  have v: "ucast w = (of_nat (unat w) :: u64)" for w :: u32 by simp
  have z: "word_of_int (sint w) = w" for w :: u32 by simp
  have B: "(ucast (word_of_int (sint (errqpn r)) * len) :: u64) = of_nat (unat (errqpn r) * c)"
    unfolding z v u ..
  have eq: "lost_part n r k each g = ret (g\<lparr>sge_length := len,
      sge_addr := sge_addr g + ucast (word_of_int (sint (errqpn r)) * len)\<rparr>)"
    using k wn by (simp add: lost_part_def Let_def flip: len_def)
  show thesis by (rule that [OF eq]) (unfold B, simp_all add: len)
qed

lemma lost_part_eq:
  assumes n: "paths_ok n" and q: "unat (errqpn r) < nat n" and k: "word_of_int k = wqe_loss_idx r"
    and each: "each (unat (errqpn r)) = int (unat (sp_iter_each (split_msg (sge_length g) n)))"
    and d: "unat (completed r) < unat (sp_iter_each (split_msg (sge_length g) n))"
  defines "c \<equiv> unat (chunk_size (split_msg (sge_length g) n))"
    and "e \<equiv> unat (sp_iter_each (split_msg (sge_length g) n))"
  obtains g' where "lost_part n r k each g = ret g'"
    and "sge_addr g' = sge_addr g + of_nat (unat (errqpn r) * c)"
    and "unat (sge_length g') = c - (c div e) * unat (completed r)"
proof -
  have q4: "unat (errqpn r) < 4" using q n by (auto simp: paths_ok_def MPRUD_NUM_PATH_def)
  have e0: "0 < e" using d by (simp add: e_def)
  have e4: "e < 2 ^ 31" using unat_iter_each [of "sge_length g" n] unat_u32_lt [of "chunk_size (split_msg (sge_length g) n)"]
    by (simp add: e_def Let_def)
  define len where "len = sge_length g div word_of_int n"
  have len: "unat len = c" by (simp add: len_def c_def split_msg_def Let_def)
  have wn: "word_of_int n \<noteq> (0 :: u32)" using unat_paths [OF n] n by (auto simp: paths_ok_def)
  have we: "unat (word_of_int (each (unat (errqpn r))) :: u32) = e"
    using e4 by (simp add: each e_def)
  have done32: "word_of_int (sint (completed r)) = completed r" by simp
  have "c div e * unat (completed r) \<le> c div e * e" using d by (intro mult_left_mono) (simp_all add: e_def)
  also have "\<dots> \<le> c" by simp
  finally have cde: "c div e * unat (completed r) \<le> c" .
  have c32: "c < 2 ^ 32" using unat_u32_lt [of len] len by simp
  have prod: "unat (len div word_of_int (each (unat (errqpn r))) * completed r) = c div e * unat (completed r)"
  proof -
    have "c div e < 2 ^ 32" using div_le_dividend [of c e] c32 by linarith
    with cde c32 show ?thesis by (simp add: unat_word_ariths unat_div len we)
  qed
  have A: "unat (len - len div word_of_int (each (unat (errqpn r))) * word_of_int (sint (completed r))) =
      c - c div e * unat (completed r)"
    unfolding done32 using cde by (subst unat_sub) (simp_all add: word_le_nat_alt prod len)
  have "unat (errqpn r) * c \<le> nat n * c" using q by (intro mult_right_mono) simp_all
  also have "\<dots> \<le> unat (sge_length g)" using chunk_total_le [OF n] by (simp add: c_def)
  finally have u: "unat (errqpn r * len) = unat (errqpn r) * c"
    using unat_u32_lt [of "sge_length g"] by (simp add: unat_word_ariths len)
  have v: "ucast w = (of_nat (unat w) :: u64)" for w :: u32 by simp
  have z: "word_of_int (sint w) = w" for w :: u32 by simp
  have B: "(ucast (word_of_int (sint (errqpn r)) * len) :: u64) = of_nat (unat (errqpn r) * c)"
    unfolding z v u ..
  define p where "p = unat (errqpn r)"
  have sp: "sint (errqpn r) = int p" using q4 by (simp add: sint_small_u32 p_def)
  have wp: "word_of_int (each p) \<noteq> (0 :: u32)" using we e0 by (auto simp: p_def)
  have "p < MPRUD_NUM_PATH" using q4 by (simp add: p_def MPRUD_NUM_PATH_def)
  then have eq: "lost_part n r k each g = ret (g\<lparr>sge_length := len - len div word_of_int (each p) *
        word_of_int (sint (completed r)), sge_addr := sge_addr g + ucast (word_of_int (sint (errqpn r)) * len)\<rparr>)"
    using k wn wp by (simp add: lost_part_def Let_def sp flip: len_def)
  have "sge_addr (g\<lparr>sge_length := L, sge_addr := a\<rparr>) = a" "sge_length (g\<lparr>sge_length := L, sge_addr := a\<rparr>) = L"
    for L a by simp_all
  note sel = this
  show thesis
  proof (rule that [OF eq])
    show "sge_addr (g\<lparr>sge_length := len - len div word_of_int (each p) * word_of_int (sint (completed r)),
        sge_addr := sge_addr g + ucast (word_of_int (sint (errqpn r)) * len)\<rparr>) =
      sge_addr g + of_nat (unat (errqpn r) * c)" unfolding sel B ..
    show "unat (sge_length (g\<lparr>sge_length := len - len div word_of_int (each p) * word_of_int (sint (completed r)),
        sge_addr := sge_addr g + ucast (word_of_int (sint (errqpn r)) * len)\<rparr>)) =
      c - c div e * unat (completed r)" unfolding sel using A by (simp only: p_def)
  qed
qed

text \<open>The code counts a packet as a share of the chunk, which is never more than a packet.\<close>

lemma packet_share_le:
  "unat (chunk_size (split_msg L n)) div unat (sp_iter_each (split_msg L n)) \<le> 4096"
proof -
  define c e where "c = unat (chunk_size (split_msg L n))" and "e = unat (sp_iter_each (split_msg L n))"
  have e: "e = (c + 4095) div 4096" using unat_iter_each by (simp add: e_def c_def Let_def)
  have "c < e * 4096 + 1" using ceil_div_4096 [of c] mod_less_divisor [of 4096 c]
      div_mult_mod_eq [of c 4096] e by (auto split: if_splits)
  then have "c \<le> 4096 * e" by simp
  then have "c div e \<le> (4096 * e) div e" by (rule div_le_mono)
  then show ?thesis by (cases "e = 0") (simp_all add: c_def e_def)
qed

lemma lost_part_cases:
  assumes n: "paths_ok n" and q: "unat (errqpn r) < nat n" and fits: "report_fits n r k each g"
  defines "c \<equiv> unat (chunk_size (split_msg (sge_length g) n))"
    and "e \<equiv> unat (sp_iter_each (split_msg (sge_length g) n))"
  obtains g' where "lost_part n r k each g = ret g'"
    and "sge_addr g' = sge_addr g + of_nat (unat (errqpn r) * c)"
    and "unat (sge_length g') = c - (c div e) * lost_done r k"
proof (cases "word_of_int k = wqe_loss_idx r")
  case True
  with fits have "each (unat (errqpn r)) = int (unat (sp_iter_each (split_msg (sge_length g) n)))"
    "unat (completed r) < unat (sp_iter_each (split_msg (sge_length g) n))"
    by (simp_all add: report_fits_def word_less_nat_alt)
  then show ?thesis
    by (rule lost_part_eq [OF n q True]) (use that True in \<open>simp add: c_def e_def lost_done_def\<close>)
next
  case False
  show ?thesis
    by (rule lost_part_later [OF n q False, of each g])
      (use that False in \<open>simp add: c_def lost_done_def\<close>)
qed

text \<open>
  C8: for every request of the recovery, the bytes of the failed path's chunk in packets it had
  not completed (of the request the failure interrupted, those from number
  \<^verbatim>\<open>completed\<close> on; of the later ones all) lie in the part that the client posts
  again, which begins where the chunk began; the client sends each of them in exactly one
  packet over the remaining paths, except for a tail shorter than one byte per remaining path,
  which is in no packet.
\<close>

theorem resend_covers_lost:
  assumes n: "paths_ok n" "1 < n" and q: "unat (errqpn r) < nat n"
    and fits: "report_fits n r k each g"
    and x: "x < unat (chunk_size (split_msg (sge_length g) n))"
    and lost: "lost_done r k \<le> (unat (chunk_size (split_msg (sge_length g) n)) - 1 - x) div 4096"
    and t: "0 \<le> t" "t < n - 1"
  shows "\<exists>g'. lost_part n r k each g = ret g' \<and> x < unat (sge_length g') \<and>
    sge_addr g' = sge_addr g + of_nat (unat (errqpn r) * unat (chunk_size (split_msg (sge_length g) n))) \<and>
    (let a = sge_addr g + of_nat (unat (errqpn r) * unat (chunk_size (split_msg (sge_length g) n)) + x);
         sp = split_msg (sge_length g') (n - 1)
     in if x < unat (sge_length g') - unat (sge_length g') mod nat (n - 1)
        then \<exists>!i. i < unat (sp_iter sp) \<and> in_sge a (send_sge g' sp (n - 1) (turn_of (n - 1) t i) i)
        else \<forall>i < unat (sp_iter sp). \<not> in_sge a (send_sge g' sp (n - 1) (turn_of (n - 1) t i) i))"
proof -
  define c e D where "c = unat (chunk_size (split_msg (sge_length g) n))"
    and "e = unat (sp_iter_each (split_msg (sge_length g) n))" and "D = lost_done r k"
  have n': "paths_ok (n - 1)" using n by (auto simp: paths_ok_def)
  obtain g' where g': "lost_part n r k each g = ret g'"
    "sge_addr g' = sge_addr g + of_nat (unat (errqpn r) * c)"
    "unat (sge_length g') = c - (c div e) * D"
    unfolding c_def e_def D_def by (rule lost_part_cases [OF n(1) q fits])
  have "c div e * D \<le> 4096 * D"
    using packet_share_le [of "sge_length g" n] by (intro mult_right_mono) (simp_all add: c_def e_def)
  moreover have "4096 * D \<le> c - 1 - x"
    using lost mult_le_mono2 [of D "(c - 1 - x) div 4096" 4096] div_mult_mod_eq [of "c - 1 - x" 4096]
    by (simp add: D_def c_def mult.commute) 
  ultimately have "c div e * D \<le> c - 1 - x" by (rule order_trans)
  moreover have "x < c" using x by (simp add: c_def)
  ultimately have xlt: "x < unat (sge_length g')" unfolding g'(3) by linarith
  then have "x < 2 ^ 32" using unat_u32_lt [of "sge_length g'"] by simp
  note tile = send_tiling_core [OF n' t this, of "sge_length g'" g']
  have "sge_addr g' + of_nat x = sge_addr g + of_nat (unat (errqpn r) * c + x)"
    by (simp add: g'(2))
  with tile g'(1,2) xlt show ?thesis by (simp only: c_def [symmetric] Let_def) blast
qed

text \<open>A report about path 3 for a request of 40000 bytes in table entry 5.\<close>

definition sample_report :: report_msg where
  "sample_report = \<lparr>errqpn = 3, max_posted = 7, wqe_loss_idx = 5, completed = 1\<rparr>"

definition sample_sge :: ibv_sge where
  "sample_sge = \<lparr>sge_addr = 1048576, sge_length = 40000, sge_lkey = 1\<rparr>"

lemma sample_sge_split:
  "unat (chunk_size (split_msg (sge_length sample_sge) 4)) = 10000"
  "unat (sp_iter_each (split_msg (sge_length sample_sge) 4)) = 3"
  "paths_ok 4"
  by (simp_all add: sample_sge_def unat_iter_each unat_chunk_size paths_ok_def MPRUD_NUM_PATH_def)

theorem resend_covers_lost_witness:
  "(\<exists>g'. lost_part 4 sample_report 5 (\<lambda>_. 3) sample_sge = ret g' \<and> 100 < unat (sge_length g')) \<and>
   (\<exists>g'. lost_part 4 sample_report 6 (\<lambda>_. 3) sample_sge = ret g' \<and> 9000 < unat (sge_length g'))"
  using resend_covers_lost [of 4 sample_report 5 "\<lambda>_. 3" sample_sge 100 0]
    resend_covers_lost [of 4 sample_report 6 "\<lambda>_. 3" sample_sge 9000 0] sample_sge_split
  by (auto simp: sample_report_def report_fits_def lost_done_def word_less_nat_alt)

text \<open>
  A failed path that had completed nothing of a request loses the last bytes of its chunk
  whenever the number of remaining paths does not divide the chunk: they are in no packet of
  the recovery, although the request is then completed.
\<close>

lemma resend_loses_tail:
  assumes n: "paths_ok n" "1 < n" and q: "unat (errqpn r) < nat n" and k: "word_of_int k = wqe_loss_idx r"
    and each: "each (unat (errqpn r)) = int (unat (sp_iter_each (split_msg (sge_length g) n)))"
    and none: "completed r = 0"
    and tail: "unat (chunk_size (split_msg (sge_length g) n)) mod nat (n - 1) \<noteq> 0"
    and t: "0 \<le> t" "t < n - 1"
  shows "\<exists>g'. lost_part n r k each g = ret g' \<and>
    (\<forall>i < unat (sp_iter (split_msg (sge_length g') (n - 1))).
      \<not> in_sge (sge_addr g + of_nat (unat (errqpn r) * unat (chunk_size (split_msg (sge_length g) n))
            + (unat (chunk_size (split_msg (sge_length g) n)) - 1)))
          (send_sge g' (split_msg (sge_length g') (n - 1)) (n - 1) (turn_of (n - 1) t i) i))"
proof -
  define c where "c = unat (chunk_size (split_msg (sge_length g) n))"
  have n': "paths_ok (n - 1)" using n by (auto simp: paths_ok_def)
  have c0: "0 < c" using tail by (cases "c = 0") (auto simp: c_def)
  then have d: "unat (completed r) < unat (sp_iter_each (split_msg (sge_length g) n))"
    using chunk_decomp(2) [of "sge_length g" n] none by (simp add: c_def)
  obtain g' where g': "lost_part n r k each g = ret g'"
    "sge_addr g' = sge_addr g + of_nat (unat (errqpn r) * c)" "unat (sge_length g') = c"
    unfolding c_def by (rule lost_part_eq [OF n(1) q k, of each g]) (use each d none in auto)
  have le: "c - c mod nat (n - 1) \<le> c - 1" using tail by (simp add: c_def)
  have "c - 1 < 2 ^ 32" using unat_u32_lt [of "sge_length g'"] g'(3) by simp
  from send_tiling_core [OF n' t this, of "sge_length g'" g'] le
  have "\<forall>i < unat (sp_iter (split_msg (sge_length g') (n - 1))).
      \<not> in_sge (sge_addr g' + of_nat (c - 1)) (send_sge g' (split_msg (sge_length g') (n - 1)) (n - 1) (turn_of (n - 1) t i) i)"
    by (simp add: Let_def g'(3) not_less [symmetric])
  moreover have "sge_addr g' + of_nat (c - 1) = sge_addr g + of_nat (unat (errqpn r) * c + (c - 1))"
    by (simp add: g'(2))
  ultimately show ?thesis using g'(1) by (auto simp only: c_def [symmetric])
qed

lemma resend_loses_tail_witness:
  "\<exists>g'. lost_part 4 (sample_report\<lparr>completed := 0\<rparr>) 5 (\<lambda>_. 3) sample_sge = ret g' \<and>
    (\<forall>i < unat (sp_iter (split_msg (sge_length g') 3)).
      \<not> in_sge (1048576 + 39999) (send_sge g' (split_msg (sge_length g') 3) 3 (turn_of 3 0 i) i))"
  using resend_loses_tail [of 4 "sample_report\<lparr>completed := 0\<rparr>" 5 "\<lambda>_. 3" sample_sge 0] sample_sge_split
  by (auto simp: sample_report_def) (simp add: sample_sge_def)

subsection \<open>States in which the recovery does not work\<close>

text \<open>
  When the table has just wrapped, so that the next free entry is 0, the server's recovery
  never succeeds: the report names entry 4294967295 as the last one posted, and reading the
  memory key of that entry is outside the table.
\<close>

lemma server_recovery_at_wrap:
  assumes "tbl_next (table (mpctx s)) = 0"
  shows "mprud_recovery_routine_server ops s \<noteq> ret (SUCCESS, s')"
proof
  assume "mprud_recovery_routine_server ops s = ret (SUCCESS, s')"
  then obtain r1 s1 s3 err s4 where dr: "drain_paths ops MP_SERVER s = ret (r1, s1)"
    and mk: "make_report (upd_mgr take_error_path s1) = ret s3"
    and rep: "mprud_post_send_report ops s3 = ret (err, s4)"
    by (auto simp: mprud_recovery_routine_server_def bindC_eq_ret Let_def SUCCESS_def FAILURE_def
        split: if_splits)
  have "tbl_next (table (mpctx s1)) = 0" using drain_paths_frame [OF dr] assms by simp
  with mk have "max_posted (msg (mp_manager s3)) = - 1"
    by (auto simp: make_report_def bindC_eq_ret Let_def)
  then show False
    using post_send_report_cases(1) [OF rep]
    by (simp add: MPRUD_TABLE_LEN_def unsigned_minus_1_eq_mask mask_eq_exp_minus_1)
qed

lemma server_recovery_at_wrap_witness:
  "\<forall>s'. mprud_recovery_routine_server idle_env (ready_state (\<lambda>_. 0) ()) \<noteq> ret (SUCCESS, s')"
  using server_recovery_at_wrap [of "ready_state (\<lambda>_. 0) ()" idle_env] by (simp add: zero_table_def)

lemma routine_client_effect:
  assumes "mprud_recovery_routine_client ops s = ret (r, s')"
  defines "m \<equiv> msg (mp_manager s)" and "posted \<equiv> tbl_next (table (mpctx s)) - 1"
  shows "r = SUCCESS \<and> mpctx s' = mpctx s \<and> unat (errqpn m) < MPRUD_NUM_PATH \<and>
    mp_manager s' = (mp_manager s)\<lparr>qps := (qps (mp_manager s))(unat (errqpn m) := MPRUD_QPS_DEAD),
      recovery_max_wqe := (if word_of_int posted < max_posted m then sint (max_posted m) else posted),
      recovery_cur_post_wqe := sint (wqe_loss_idx m), recovery_cur_poll_wqe := sint (wqe_loss_idx m)\<rparr>"
proof -
  obtain a s1 where s1: "mprud_post_send_ack ops MP_CLIENT s = ret (a, s1)"
    using assms(1) by (auto simp: mprud_recovery_routine_client_def bindC_eq_ret)
  obtain qp b s2 where qp: "report_qp (mp_manager s1) = Some qp"
    and s2: "mprud_poll_report ops (qp_send_cq qp) True s1 = ret (b, s2)"
    using assms(1) s1 by (auto simp: mprud_recovery_routine_client_def bindC_eq_ret)
  have f: "mp_manager s2 = mp_manager s" "mpctx s2 = mpctx s"
    using post_send_ack_frame [OF s1] poll_report_frame [OF s2] by simp_all
  from assms(1) show ?thesis
    unfolding m_def posted_def
    by (auto simp: mprud_recovery_routine_client_def bindC_eq_ret s1 qp s2 f Let_def uint_less_int)
qed

lemma recovery_client_done:
  assumes "mprud_recovery_client ops s = ret (r, s')"
    and "recovery_max_wqe (mp_manager s) < recovery_cur_poll_wqe (mp_manager s)"
  shows "r = SUCCESS \<and> mpctx s' = (mpctx s)\<lparr>tot_rpolled := tot_rposted (mpctx s)\<rparr> \<and>
    mp_manager s' = (mp_manager s)\<lparr>active_num := active_num (mp_manager s) - 1, start_time_flag := 0,
      recovery_flag := 0\<rparr>"
  using assms by (auto simp: mprud_recovery_client_def bindC_eq_ret Let_def
      dest!: post_recv_ack_frame poll_report_frame)

text \<open>
  Entries are compared by their index in the ring. When the ring has wrapped between the
  first lost request and the last posted one, the client's first recovery step already takes
  the recovery as finished: the failed path is given up and nothing is sent again.
\<close>

lemma recovery_skipped_after_wrap:
  assumes "mprud_recovery_routine_client ops s = ret (SUCCESS, s1)"
    and "unat (wqe_loss_idx (msg (mp_manager s))) < MPRUD_TABLE_LEN"
    and "0 < tbl_next (table (mpctx s))"
    and "tbl_next (table (mpctx s)) \<le> int (unat (wqe_loss_idx (msg (mp_manager s))))"
    and "max_posted (msg (mp_manager s)) < wqe_loss_idx (msg (mp_manager s))"
    and "mprud_recovery_client ops s1 = ret (r, s2)"
  shows "r = SUCCESS \<and> recovery_flag (mp_manager s2) = 0
    \<and> active_num (mp_manager s2) = active_num (mp_manager s) - 1
    \<and> tot_recovery_posted (mpctx s2) = tot_recovery_posted (mpctx s)"
proof -
  define m where "m = msg (mp_manager s)"
  have L: "unat (wqe_loss_idx m) < 1000" and M: "unat (max_posted m) < unat (wqe_loss_idx m)"
    using assms(2,5) by (simp_all add: m_def MPRUD_TABLE_LEN_def word_less_nat_alt)
  then have "sint (wqe_loss_idx m) = int (unat (wqe_loss_idx m))"
    "sint (max_posted m) = int (unat (max_posted m))" by (intro sint_small_u32; simp)+
  moreover have "uint (max_posted m) < uint (wqe_loss_idx m)"
    using assms(5) by (simp add: m_def word_less_def)
  ultimately have "recovery_max_wqe (mp_manager s1) < recovery_cur_poll_wqe (mp_manager s1)"
    using assms(4) routine_client_effect [OF assms(1)] by (simp add: m_def)
  from recovery_client_done [OF assms(6) this] routine_client_effect [OF assms(1)]
  show ?thesis by simp
qed

text \<open>A client that has posted 3 requests since the ring wrapped, told of a loss in entry 998.\<close>

definition wrapped_client :: "unit mprud_state" where
  "wrapped_client = upd_mgr (\<lambda>m. m\<lparr>report_qp := Some sample_qp, recovery_flag := 1,
       msg := \<lparr>errqpn = 3, max_posted = 2, wqe_loss_idx = 998, completed = 1\<rparr>\<rparr>)
     (upd_table (\<lambda>t. t\<lparr>tbl_next := 3, tbl_wqe := (\<lambda>_. zero_wqe\<lparr>wqe_swr := sample_swr\<rparr>)\<rparr>)
       (ready_state (\<lambda>_. 0) ()))"

text \<open>A device that completes whatever is polled.\<close>

definition ready_env :: "unit env" where
  "ready_env = idle_env\<lparr>poll_cq_op := (\<lambda>_ _ m w. (1, m, w))\<rparr>"

lemma ready_env_simps [simp]:
  "post_send_op ready_env qp sw m w = (0, w)" "post_recv_op ready_env qp rw w = (0, w)"
  "poll_cq_op ready_env c n m w = (1, m, w)"
  by (simp_all add: ready_env_def idle_env_def)

lemma poll_report_ready:
  "mprud_poll_report ready_env (Some c) b s = ret (1, s)"
  by (simp add: mprud_poll_report_def poll_blocking_def loop_Return poll_device_def)

lemma sample_qp_simps [simp]: "qp_send_cq sample_qp = Some 9" "qp_recv_cq sample_qp = Some 10"
  by (simp_all add: sample_qp_def)

lemma wrapped_client_simps [simp]:
  "tbl_head (table (mpctx wrapped_client)) = 0" "tbl_next (table (mpctx wrapped_client)) = 3"
  "wqe wrapped_client k = zero_wqe\<lparr>wqe_swr := sample_swr\<rparr>"
  "report_qp (mp_manager wrapped_client) = Some sample_qp"
  "msg (mp_manager wrapped_client) = \<lparr>errqpn = 3, max_posted = 2, wqe_loss_idx = 998, completed = 1\<rparr>"
  "active_num (mp_manager wrapped_client) = 4"
  "tot_recovery_posted (mpctx wrapped_client) = 0"
  by (simp_all add: wrapped_client_def zero_table_def)
     (simp add: ready_state_def boot_defs)

lemma wrapped_client_routine: "\<exists>s1. mprud_recovery_routine_client ready_env wrapped_client = ret (SUCCESS, s1)"
  by (simp add: mprud_recovery_routine_client_def mprud_post_send_ack_def Let_def index_def
      MPRUD_TABLE_LEN_def MPRUD_NUM_PATH_def wqe_sge_def sample_swr_def post_send_device_def poll_report_ready)

lemma wrapped_client_step:
  assumes "mprud_recovery_routine_client ready_env wrapped_client = ret (r, s1)"
  shows "\<exists>s2. mprud_recovery_client ready_env s1 = ret (SUCCESS, s2)"
proof -
  note e = routine_client_effect [OF assms]
  have "recovery_max_wqe (mp_manager s1) = 2" "recovery_cur_poll_wqe (mp_manager s1) = 998"
    "report_qp (mp_manager s1) = Some sample_qp" "mpctx s1 = mpctx wrapped_client"
    using e by simp_all
  then show ?thesis
    by (simp add: mprud_recovery_client_def Let_def mprud_post_recv_ack_def index_def MPRUD_TABLE_LEN_def
        wqe_sge_def sample_swr_def post_recv_device_def poll_report_ready)
qed

lemma recovery_skipped_after_wrap_witness:
  "\<exists>s1 s2. mprud_recovery_routine_client ready_env wrapped_client = ret (SUCCESS, s1) \<and>
     mprud_recovery_client ready_env s1 = ret (SUCCESS, s2) \<and> active_num (mp_manager s2) = 3
     \<and> tot_recovery_posted (mpctx s2) = 0"
proof -
  obtain s1 where s1: "mprud_recovery_routine_client ready_env wrapped_client = ret (SUCCESS, s1)"
    using wrapped_client_routine by blast
  moreover obtain s2 where "mprud_recovery_client ready_env s1 = ret (SUCCESS, s2)"
    using wrapped_client_step [OF s1] by blast
  ultimately show ?thesis
    using recovery_skipped_after_wrap [OF s1, of SUCCESS s2] by (auto simp: MPRUD_TABLE_LEN_def)
qed

text \<open>
  C38: before a recovery both sides wait until the queues of all paths but the last active one
  are empty, whichever path has failed. When the device completes nothing more and packets
  are left on one of those paths, the wait never ends.
\<close>

theorem drain_stuck:
  assumes dead: "\<forall>c n m w. fst (poll_cq_op ops c n m w) = 0"
    and left: "qlen_sum s = ret k" "0 < k"
  shows "drain_paths ops Iam s \<noteq> ret x"
proof
  assume "drain_paths ops Iam s = ret x"
  let ?I = "\<lambda>s'. qlen_sum s' = ret k"
  have step: "?I s2" if "?I s1" "mprud_inner_poll ops Iam s1 = ret (r, s2)" for s1 s2 r
    using that(2)
  proof (cases rule: mprud_inner_poll_cases)
    case idle
    with that(1) show ?thesis by simp
  next
    case (polled i qp c d m w)
    have "d = 0" using dead polled(8) by (metis fst_conv)
    with polled(9) that(1) show ?thesis by (auto simp: qlen_sum_def Let_def split: if_splits)
  qed
  have "False"
  proof (rule loop_inv [OF \<open>drain_paths ops Iam s = ret x\<close> [unfolded drain_paths_def], where I = ?I and Q = "\<lambda>_. False"])
    fix s1 s2
    assume I: "?I s1" and "bindC (mprud_inner_poll ops Iam s1) (\<lambda>(r, s').
        if r \<noteq> 0 then ret (Return (FAILURE, s'))
        else bindC (qlen_sum s') (\<lambda>sum. ret (if 0 < sum then Next s' else Return (SUCCESS, s')))) = ret (Next s2)"
    from this(2) show "?I s2" by (rule drain_pass) (use I step in auto)
  next
    fix s1 y
    assume I: "?I s1" and eq: "bindC (mprud_inner_poll ops Iam s1) (\<lambda>(r, s').
        if r \<noteq> 0 then ret (Return (FAILURE, s'))
        else bindC (qlen_sum s') (\<lambda>sum. ret (if 0 < sum then Next s' else Return (SUCCESS, s')))) = ret (Return y)"
    then obtain r s2 where ip: "mprud_inner_poll ops Iam s1 = ret (r, s2)" by (auto simp: bindC_eq_ret)
    with eq step [OF I ip] left(2) inner_poll_frame [OF ip] show False
      by (simp add: SUCCESS_def)
  qed (rule left)
  then show False .
qed

theorem drain_stuck_witness:
  "\<forall>x. drain_paths idle_env MP_SERVER (upd_stat 1 (\<lambda>q. q\<lparr>qlen := 3\<rparr>) (ready_state (\<lambda>_. 0) ())) \<noteq> ret x"
proof -
  have "qlen_sum (upd_stat 1 (\<lambda>q. q\<lparr>qlen := 3\<rparr>) (ready_state (\<lambda>_. 0) ())) = ret 3"
    by (simp add: qlen_sum_def MPRUD_NUM_PATH_def upt_rec zero_qp_status_def)
  then show ?thesis
    using drain_stuck [of idle_env "upd_stat 1 (\<lambda>q. q\<lparr>qlen := 3\<rparr>) (ready_state (\<lambda>_. 0) ())" 3 MP_SERVER]
    by (simp add: idle_env_def)
qed

end
