(* ===== verification/Mprud_Post_Facts.thy ===== *)
theory Mprud_Post_Facts
  imports Mprud_Post Mprud_Recovery_Facts
begin

section \<open>Properties of posting and polling\<close>

text \<open>
  What a post hands to the device, how many packets may be outstanding when it returns, and
  the requests and states for which the calls fault, hang or report a completion that did not
  happen.
\<close>

subsection \<open>Bounds\<close>


lemma wait_recvs_result:
  assumes "wait_recvs ops s = ret (r, s')" and "r = SUCCESS"
  shows "recvs_outstanding (mpctx s') < 512"
proof -
  let ?Q = "\<lambda>x. fst x = SUCCESS \<longrightarrow> recvs_outstanding (mpctx (snd x)) < 512"
  have "?Q (r, s')"
    by (rule loop_inv [OF assms(1) [unfolded wait_recvs_def], where I = "\<lambda>_. True" and Q = ?Q])
      (auto simp: bindC_eq_ret SUCCESS_def FAILURE_def not_le split: if_splits)
  with assms(2) show ?thesis by simp
qed

lemma after_post_Next:
  assumes "after_post book wait n p = ret (Next s')"
  obtains s3 t where "wait (book (snd p)) = ret (SUCCESS, s3)" and "fst p = 0"
    and "c_rem (post_turn (mpctx s3) + 1) n = ret t" and "s' = upd_ctx (\<lambda>c. c\<lparr>post_turn := t\<rparr>) s3"
  using assms
  by (cases p) (auto simp: after_post_def Let_def bindC_eq_ret SUCCESS_def split: if_splits)

lemma after_post_Return:
  assumes "after_post book wait n p = ret (Return (r, s'))"
  shows "r \<noteq> SUCCESS"
  using assms
  by (cases p) (auto simp: after_post_def Let_def bindC_eq_ret SUCCESS_def FAILURE_def split: if_splits)

lemma send_packet_cases:
  assumes "send_packet ops wr g sp n i s = ret x"
  obtains (stop) "n \<noteq> active_num (mp_manager s)"
      "x = Return (SUCCESS, upd_ctx (\<lambda>c. c\<lparr>post_turn := 0\<rparr>) s)"
  | (post) t qp tw where "n = active_num (mp_manager s)" "int t = post_turn (mpctx s)"
      "after_post (book_send t) (wait_sends ops) n (post_send_device ops qp tw s) = ret x"
proof (cases "n = active_num (mp_manager s)")
  case False
  with assms show thesis by (intro stop) (simp_all add: send_packet_def)
next
  case True
  with assms show thesis
    by (auto simp: send_packet_def turn_path_def bindC_eq_ret Let_def split: if_splits intro!: post)
qed

lemma recv_packet_cases:
  assumes "recv_packet ops wr g sp n i s = ret x"
  obtains (stop) "n \<noteq> active_num (mp_manager s)"
      "x = Return (SUCCESS, upd_ctx (\<lambda>c. c\<lparr>post_turn := 0\<rparr>) s)"
  | (post) t qp tw where "n = active_num (mp_manager s)" "int t = post_turn (mpctx s)"
      "after_post (book_recv t) (wait_recvs ops) n (post_recv_device ops qp tw s) = ret x"
proof (cases "n = active_num (mp_manager s)")
  case False
  with assms show thesis by (intro stop) (simp_all add: recv_packet_def)
next
  case True
  with assms show thesis
    by (auto simp: recv_packet_def turn_path_def bindC_eq_ret Let_def split: if_splits intro!: post)
qed

lemma outstanding_turn [simp]:
  "sends_outstanding (c\<lparr>post_turn := t\<rparr>) = sends_outstanding c"
  "recvs_outstanding (c\<lparr>post_turn := t\<rparr>) = recvs_outstanding c"
  "sends_outstanding (c\<lparr>table := tb\<rparr>) = sends_outstanding c"
  "recvs_outstanding (c\<lparr>table := tb\<rparr>) = recvs_outstanding c"
  by (simp_all add: sends_outstanding_def recvs_outstanding_def)

lemma mprud_post_send_ret:
  assumes "mprud_post_send ops wr s = ret (r, wr', s')"
  obtains g t0 x s2 where "swr_sg_list wr = Some g"
    and "c_rem (post_turn (mpctx s)) (active_num (mp_manager s)) = ret t0"
    and "0 < active_num (mp_manager s)"
    and "mprud_store_wr (Some wr) None (sint (sp_iter (split_msg (sge_length g) (active_num (mp_manager s)))))
        (sint (sp_iter_each (split_msg (sge_length g) (active_num (mp_manager s)))))
        (sint (chnk_last (split_msg (sge_length g) (active_num (mp_manager s)))))
        (upd_ctx (\<lambda>c. c\<lparr>post_turn := t0\<rparr>) s) = ret s2"
    and "for_each (send_packet ops (wr\<lparr>swr_send_flags := IBV_SEND_SIGNALED\<rparr>) g
        (split_msg (sge_length g) (active_num (mp_manager s))) (active_num (mp_manager s)))
        [0..<unat (sp_iter (split_msg (sge_length g) (active_num (mp_manager s))))] s2 = ret x"
    and "(r, s') = flow_result (\<lambda>s'. (SUCCESS, s')) x" and "wr' = wr\<lparr>swr_send_flags := IBV_SEND_SIGNALED\<rparr>"
proof -
  obtain g where g: "swr_sg_list wr = Some g"
    using assms by (auto simp: mprud_post_send_def bindC_eq_ret Let_def)
  obtain t0 where t0: "c_rem (post_turn (mpctx s)) (active_num (mp_manager s)) = ret t0"
    using assms by (auto simp: mprud_post_send_def bindC_eq_ret Let_def)
  define sp where "sp = split_msg (sge_length g) (active_num (mp_manager s))"
  have n0: "0 < active_num (mp_manager s)" "split_checked (sge_length g) (active_num (mp_manager s)) = ret sp"
    using assms g t0 by (auto simp: mprud_post_send_def bindC_eq_ret Let_def split_checked_def sp_def split: if_splits)
  obtain s2 where s2: "mprud_store_wr (Some wr) None (sint (sp_iter sp)) (sint (sp_iter_each sp))
      (sint (chnk_last sp)) (upd_ctx (\<lambda>c. c\<lparr>post_turn := t0\<rparr>) s) = ret s2"
    using assms g t0 n0(2) by (auto simp: mprud_post_send_def bindC_eq_ret Let_def)
  obtain x where x: "for_each (send_packet ops (wr\<lparr>swr_send_flags := IBV_SEND_SIGNALED\<rparr>) g sp
      (active_num (mp_manager s))) [0..<unat (sp_iter sp)] s2 = ret x"
    using assms g t0 n0(2) s2 by (auto simp: mprud_post_send_def bindC_eq_ret Let_def)
  have "(r, s') = flow_result (\<lambda>s'. (SUCCESS, s')) x" "wr' = wr\<lparr>swr_send_flags := IBV_SEND_SIGNALED\<rparr>"
    using assms g t0 n0(2) s2 x by (auto simp: mprud_post_send_def Let_def split: prod.splits)
  from that [OF g t0 n0(1) s2 [unfolded sp_def] x [unfolded sp_def] this] show thesis .
qed


subsection \<open>What a send hands to the device\<close>

text \<open>The packets of a request, in order, with the path each goes to.\<close>

definition send_packets :: "ibv_send_wr \<Rightarrow> ibv_sge \<Rightarrow> int \<Rightarrow> int \<Rightarrow> mprud_context \<Rightarrow> nat \<Rightarrow>
    nat \<times> ibv_send_wr" where
  "send_packets wr g n t0 c i =
    (let t = nat (turn_of n t0 i)
     in (t, wr\<lparr>swr_send_flags := IBV_SEND_SIGNALED,
          swr_sg_list := Some (send_sge g (split_msg (sge_length g) n) n (int t) i),
          swr_ud_ah := ah_list c t, swr_ud_remote_qpn := dest_qp_num c + of_nat (t + 1),
          swr_ud_remote_qkey := MPRUD_QKEY\<rparr>))"

definition hand_over :: "'w env \<Rightarrow> mprud_context \<Rightarrow> mem \<Rightarrow> nat \<times> ibv_send_wr \<Rightarrow> 'w \<Rightarrow> 'w" where
  "hand_over ops c m p w = (case p of (t, sw) \<Rightarrow> snd (post_send_op ops (the (inner_qps c t)) sw m w))"

definition accepts_sends :: "'w env \<Rightarrow> bool" where
  "accepts_sends ops \<longleftrightarrow> (\<forall>qp sw m w. fst (post_send_op ops qp sw m w) = 0)"

lemma turn_of_Suc: "0 < n \<Longrightarrow> turn_of n t (Suc i) = (turn_of n t i + 1) mod n"
  by (simp add: turn_of_def mod_simps algebra_simps)

lemma card_turn_Suc:
  "card {j. j < Suc i \<and> f j = (p::int)} = card {j. j < i \<and> f j = p} + (if f i = p then 1 else 0)"
proof -
  have "{j. j < Suc i \<and> f j = p} = {j. j < i \<and> f j = p} \<union> (if f i = p then {i} else {})"
    by (auto simp: less_Suc_eq)
  then show ?thesis by simp
qed

text \<open>The state after \<open>i\<close> packets of a send that started in \<open>s\<close>, with no wait.\<close>

definition sent_so_far :: "'w env \<Rightarrow> ibv_send_wr \<Rightarrow> ibv_sge \<Rightarrow> int \<Rightarrow> int \<Rightarrow> 'w mprud_state \<Rightarrow> nat \<Rightarrow>
    'w mprud_state \<Rightarrow> bool" where
  "sent_so_far ops wr g n t0 s i s' \<longleftrightarrow>
     mp_manager s' = mp_manager s \<and> memory s' = memory s \<and> post_turn (mpctx s') = turn_of n t0 i \<and>
     table (mpctx s') = table (mpctx s) \<and> inner_qps (mpctx s') = inner_qps (mpctx s) \<and>
     ah_list (mpctx s') = ah_list (mpctx s) \<and> dest_qp_num (mpctx s') = dest_qp_num (mpctx s) \<and>
     tot_spolled (mpctx s') = tot_spolled (mpctx s) \<and>
     tot_sposted (mpctx s') = tot_sposted (mpctx s) + of_nat i \<and>
     (\<forall>p. qlen (stat s' p) = qlen (stat s p) + int (card {j. j < i \<and> turn_of n t0 j = int p})) \<and>
     world s' = fold (hand_over ops (mpctx s) (memory s)) (map (send_packets wr g n t0 (mpctx s)) [0..<i]) (world s)"

lemma send_packet_step:
  fixes s :: "'w mprud_state"
  assumes acc: "accepts_sends ops" and n: "paths_ok n" "n = active_num (mp_manager s)" and t: "0 \<le> t0" "t0 < n"
    and qps: "\<forall>p < nat n. inner_qps (mpctx s) p \<noteq> None"
    and room: "unat (sends_outstanding (mpctx s)) + i + 1 < 256"
    and I: "sent_so_far ops wr g n t0 s i s'"
  shows "\<exists>s''. send_packet ops (wr\<lparr>swr_send_flags := IBV_SEND_SIGNALED\<rparr>) g (split_msg (sge_length g) n) n i s' = ret (Next s'')
    \<and> sent_so_far ops wr g n t0 s (Suc i) s''"
proof -
  define p where "p = nat (turn_of n t0 i)"
  note u = turn_of_range [OF n(1) t, of i]
  have p: "turn_of n t0 i = int p" "p < nat n" "p < MPRUD_NUM_PATH"
    using u n(1) by (auto simp: p_def paths_ok_def)
  obtain qp where qp: "inner_qps (mpctx s) p = Some qp" using qps p(2) by auto
  have tp: "turn_path n s' = ret (p, qp)"
    using I p qp n(1) by (simp add: turn_path_def sent_so_far_def index_def paths_ok_def)
  define tw where "tw = snd (send_packets wr g n t0 (mpctx s) i)"
  define s1 where "s1 = s'\<lparr>world := snd (post_send_op ops qp tw (memory s') (world s'))\<rparr>"
  have dev: "post_send_device ops qp tw s' = (0, s1)"
    using acc by (simp add: post_send_device_def s1_def accepts_sends_def split: prod.splits) (metis fst_conv)
  have "sends_outstanding (mpctx (book_send p s1)) = sends_outstanding (mpctx s) + of_nat (i + 1)"
    using I by (simp add: sends_outstanding_def book_send_def s1_def sent_so_far_def Let_def)
  also have "\<dots> < 256"
  proof -
    have "unat (of_nat (i + 1) :: u64) = i + 1" using room by (intro unat_of_nat_u64) simp
    then have "unat (sends_outstanding (mpctx s) + of_nat (i + 1)) = unat (sends_outstanding (mpctx s)) + (i + 1)"
      using room by (subst unat_add_lem [THEN iffD1]) simp_all
    with room show ?thesis by (simp add: word_less_nat_alt del: of_nat_add of_nat_Suc)
  qed
  finally have w: "wait_sends ops (book_send p s1) = ret (SUCCESS, book_send p s1)"
    by (simp add: wait_sends_def loop_Return not_le [symmetric])
  have turn: "c_rem (int p + 1) n = ret (turn_of n t0 (Suc i))"
    using n(1) p(1) by (subst c_rem_pos) (simp_all add: paths_ok_def turn_of_Suc)
  define s2 where "s2 = upd_ctx (\<lambda>c. c\<lparr>post_turn := turn_of n t0 (Suc i)\<rparr>) (book_send p s1)"
  have bt: "post_turn (mpctx (book_send p s1)) = int p"
    using I p by (simp add: book_send_def s1_def Let_def sent_so_far_def)
  have "after_post (book_send p) (wait_sends ops) n (0, s1) = ret (Next s2)"
    by (simp add: after_post_def w bt turn s2_def SUCCESS_def)
  moreover have tw: "tw = (wr\<lparr>swr_send_flags := IBV_SEND_SIGNALED,
      swr_sg_list := Some (send_sge g (split_msg (sge_length g) n) n (int p) i),
      swr_ud_ah := ah_list (mpctx s') p, swr_ud_remote_qpn := dest_qp_num (mpctx s') + of_nat (p + 1),
      swr_ud_remote_qkey := MPRUD_QKEY\<rparr>)"
    using I by (simp add: tw_def send_packets_def Let_def p_def sent_so_far_def)
  ultimately have "send_packet ops (wr\<lparr>swr_send_flags := IBV_SEND_SIGNALED\<rparr>) g (split_msg (sge_length g) n) n i s' = ret (Next s2)"
    using I n(2) tp dev by (simp add: send_packet_def sent_so_far_def)
  moreover have "sent_so_far ops wr g n t0 s (Suc i) s2"
  proof -
    have W: "world s2 = hand_over ops (mpctx s) (memory s) (send_packets wr g n t0 (mpctx s) i) (world s')"
    proof -
      have "send_packets wr g n t0 (mpctx s) i = (p, tw)" by (simp add: tw_def send_packets_def Let_def p_def)
      then show ?thesis using I qp by (simp add: s2_def book_send_def s1_def Let_def hand_over_def sent_so_far_def)
    qed
    have q: "qlen (stat s2 k) = qlen (stat s k) + int (card {j. j < Suc i \<and> turn_of n t0 j = int k})" for k
      using I p(1) unfolding card_turn_Suc
      by (auto simp: s2_def book_send_def s1_def Let_def sent_so_far_def)
    have rest: "mp_manager s2 = mp_manager s \<and> memory s2 = memory s \<and>
        post_turn (mpctx s2) = turn_of n t0 (Suc i) \<and> table (mpctx s2) = table (mpctx s) \<and>
        inner_qps (mpctx s2) = inner_qps (mpctx s) \<and> ah_list (mpctx s2) = ah_list (mpctx s) \<and>
        dest_qp_num (mpctx s2) = dest_qp_num (mpctx s) \<and> tot_spolled (mpctx s2) = tot_spolled (mpctx s) \<and>
        tot_sposted (mpctx s2) = tot_sposted (mpctx s) + of_nat (Suc i)"
      using I by (simp add: sent_so_far_def s2_def book_send_def s1_def Let_def)
    have "world s' = fold (hand_over ops (mpctx s) (memory s)) (map (send_packets wr g n t0 (mpctx s)) [0..<i]) (world s)"
      using I by (simp add: sent_so_far_def)
    then have "world s2 = fold (hand_over ops (mpctx s) (memory s)) (map (send_packets wr g n t0 (mpctx s)) [0..<Suc i]) (world s)"
      by (simp add: W)
    with rest q show ?thesis unfolding sent_so_far_def by blast
  qed
  ultimately show ?thesis by blast
qed

lemma post_send_core:
  assumes acc: "accepts_sends ops" and n: "paths_ok n" "n = active_num (mp_manager s)"
    and t: "0 \<le> post_turn (mpctx s)" and qps: "\<forall>p < nat n. inner_qps (mpctx s) p \<noteq> None"
    and tbl: "ring_ok (table (mpctx s))" and sg: "swr_sg_list wr = Some g"
    and room: "unat (sends_outstanding (mpctx s)) + unat (sp_iter (split_msg (sge_length g) n)) < 256"
  shows "\<exists>s' e. mprud_post_send ops wr s = ret (SUCCESS, wr\<lparr>swr_send_flags := IBV_SEND_SIGNALED\<rparr>, s') \<and>
    world s' = fold (hand_over ops (mpctx s) (memory s))
      (map (send_packets wr g n (post_turn (mpctx s) mod n) (mpctx s)) [0..<unat (sp_iter (split_msg (sge_length g) n))]) (world s) \<and>
    table (mpctx s') = table_push e (table (mpctx s)) \<and> wqe_swr e = wr \<and>
    (\<forall>p < nat n. iter_each e p = sint (sp_iter_each (split_msg (sge_length g) n)) \<and>
      qlen (stat s' p) = qlen (stat s p) + int (unat (sp_iter_each (split_msg (sge_length g) n)))) \<and>
    tot_sposted (mpctx s') = tot_sposted (mpctx s) + of_nat (unat (sp_iter (split_msg (sge_length g) n))) \<and>
    post_turn (mpctx s') = post_turn (mpctx s) mod n \<and> mp_manager s' = mp_manager s \<and> memory s' = memory s"
proof -
  define t0 sp where "t0 = post_turn (mpctx s) mod n" and "sp = split_msg (sge_length g) n"
  have n0: "0 < n" "n \<le> 4" using n(1) by (simp_all add: paths_ok_def MPRUD_NUM_PATH_def)
  have t0: "0 \<le> t0" "t0 < n" "c_rem (post_turn (mpctx s)) n = ret t0"
    using n0 t by (simp_all add: t0_def c_rem_pos)
  define s1 where "s1 = upd_ctx (\<lambda>c. c\<lparr>post_turn := t0\<rparr>) s"
  define e where "e = new_entry (Some wr) None (sint (sp_iter sp)) (sint (sp_iter_each sp)) (sint (chnk_last sp)) s1"
  have "\<exists>s2. mprud_store_wr (Some wr) None (sint (sp_iter sp)) (sint (sp_iter_each sp)) (sint (chnk_last sp)) s1 = ret s2"
    using tbl sg n n0 by (auto simp: mprud_store_wr_def s1_def ring_ok_def active_paths_def Let_def
        index_def MPRUD_NUM_PATH_def)
  then obtain s2 where s2: "mprud_store_wr (Some wr) None (sint (sp_iter sp)) (sint (sp_iter_each sp)) (sint (chnk_last sp)) s1 = ret s2"
    by blast
  have s2_eq: "s2 = upd_table (table_push e) s1" using mprud_store_wr_eq_ret [OF s2] by (simp add: e_def)
  let ?I = "sent_so_far ops wr g n t0 s2"
  have s2s: "mpctx s2 = (mpctx s)\<lparr>post_turn := t0, table := table_push e (table (mpctx s))\<rparr>"
    "mp_manager s2 = mp_manager s" "memory s2 = memory s" "world s2 = world s"
    by (simp_all add: s2_eq s1_def)
  have out2: "sends_outstanding (mpctx s2) = sends_outstanding (mpctx s)"
    by (simp add: s2s sends_outstanding_def)
  have "\<exists>s'. for_each (send_packet ops (wr\<lparr>swr_send_flags := IBV_SEND_SIGNALED\<rparr>) g sp n) [0..<unat (sp_iter sp)] s2
      = ret (Next s') \<and> ?I (unat (sp_iter sp)) s'"
  proof (rule for_each_upt_total)
    show "?I 0 s2" using t0 by (simp add: sent_so_far_def s2s turn_of_def)
  next
    fix i s'
    assume "i < unat (sp_iter sp)" "?I i s'"
    then show "\<exists>s''. send_packet ops (wr\<lparr>swr_send_flags := IBV_SEND_SIGNALED\<rparr>) g sp n i s' = ret (Next s'') \<and> ?I (Suc i) s''"
      using send_packet_step [OF acc n(1) _ t0(1,2), of s2 i wr g s'] n(2) qps room
      by (simp add: s2s out2 sp_def)
  qed simp
  then obtain s' where s': "for_each (send_packet ops (wr\<lparr>swr_send_flags := IBV_SEND_SIGNALED\<rparr>) g sp n) [0..<unat (sp_iter sp)] s2
      = ret (Next s')" "?I (unat (sp_iter sp)) s'" by blast
  have ret: "mprud_post_send ops wr s = ret (SUCCESS, wr\<lparr>swr_send_flags := IBV_SEND_SIGNALED\<rparr>, s')"
    using s'(1) s2 t0(3) sg split_checked_ok [OF n(1), of "sge_length g"]
    by (simp add: mprud_post_send_def Let_def sp_def s1_def del: c_rem_eq_ret flip: n(2))
  have "card {j. j < unat (sp_iter sp) \<and> turn_of n t0 j = int p} = unat (sp_iter_each sp)" if "p < nat n" for p
    using packets_of_round [OF n(1) t0(1,2), of "int p"] that n0 unat_iter [OF n(1), of "sge_length g"]
    by (simp add: sp_def)
  moreover have "turn_of n t0 (unat (sp_iter sp)) = t0"
    using unat_iter [OF n(1), of "sge_length g"] n0 t0 by (simp add: turn_of_def sp_def)
  moreover have "iter_each e p = sint (sp_iter_each sp)" if "p < nat n" for p
    using that n by (simp add: e_def new_entry_def Let_def s1_def)
  moreover have "wqe_swr e = wr" by (simp add: e_def new_entry_def Let_def)
  moreover have "send_packets wr g n t0 (mpctx s2) = send_packets wr g n t0 (mpctx s)"
    "hand_over ops (mpctx s2) = hand_over ops (mpctx s)"
    by (simp_all add: fun_eq_iff send_packets_def hand_over_def s2s)
  ultimately show ?thesis
    using ret s'(2) unfolding t0_def [symmetric] sp_def [symmetric] sent_so_far_def
    by (intro exI [of _ s'] exI [of _ e]) (simp add: s2s)
qed

text \<open>
  C4: when the device accepts every packet and fewer than 256 end up outstanding, a send
  succeeds; it hands the device exactly the packets of the split, in order, packet \<open>i\<close> on the
  inner queue pair whose turn it is, appends the request to the table, and books the same
  number of packets on every path. The next request starts on the path this one started on.
\<close>

theorem post_send_packets:
  assumes acc: "accepts_sends ops" and n: "paths_ok n" "n = active_num (mp_manager s)"
    and t: "0 \<le> post_turn (mpctx s)" and qps: "\<forall>p < nat n. inner_qps (mpctx s) p \<noteq> None"
    and tbl: "ring_ok (table (mpctx s))" and sg: "swr_sg_list wr = Some g"
    and room: "unat (sends_outstanding (mpctx s)) + unat (sp_iter (split_msg (sge_length g) n)) < 256"
  shows "\<exists>s' e. mprud_post_send ops wr s = ret (SUCCESS, wr\<lparr>swr_send_flags := IBV_SEND_SIGNALED\<rparr>, s') \<and>
    world s' = fold (hand_over ops (mpctx s) (memory s))
      (map (send_packets wr g n (post_turn (mpctx s) mod n) (mpctx s)) [0..<unat (sp_iter (split_msg (sge_length g) n))]) (world s) \<and>
    table (mpctx s') = table_push e (table (mpctx s)) \<and> wqe_swr e = wr \<and>
    (\<forall>p < nat n. iter_each e p = sint (sp_iter_each (split_msg (sge_length g) n)) \<and>
      qlen (stat s' p) = qlen (stat s p) + int (unat (sp_iter_each (split_msg (sge_length g) n)))) \<and>
    tot_sposted (mpctx s') = tot_sposted (mpctx s) + of_nat (unat (sp_iter (split_msg (sge_length g) n))) \<and>
    post_turn (mpctx s') = post_turn (mpctx s) mod n \<and> mp_manager s' = mp_manager s \<and> memory s' = memory s"
  using assms by (rule post_send_core)

subsection \<open>Sample connection\<close>

text \<open>A device that records what it is handed, and a context with its four queue pairs.\<close>

definition log_env :: "(nat \<times> u32) list env" where
  "log_env = \<lparr>post_send_op = (\<lambda>qp sw m w. (0, w @ [(qp_handle qp, sge_length (the (swr_sg_list sw)))])),
     post_recv_op = (\<lambda>qp rw w. (0, w @ [(qp_handle qp, sge_length (the (rwr_sg_list rw)))])),
     poll_cq_op = (\<lambda>_ _ m w. (0, m, w)), gettimeofday_op = (\<lambda>w. (zero_timeval, w))\<rparr>"

definition connected :: "'w \<Rightarrow> 'w mprud_state" where
  "connected w = upd_ctx (\<lambda>c. c\<lparr>inner_qps := (\<lambda>i. if i < MPRUD_NUM_PATH then Some (zero_qp\<lparr>qp_handle := i,
     qp_send_cq := Some (2 * i), qp_recv_cq := Some (2 * i + 1), qp_qp_type := IBV_QPT_UD\<rparr>) else None)\<rparr>)
     (ready_state (\<lambda>_. 0) w)"

lemma connected_simps [simp]:
  "table (mpctx (connected w)) = zero_table" "active_num (mp_manager (connected w)) = 4"
  "post_turn (mpctx (connected w)) = 0" "tot_sposted (mpctx (connected w)) = 0"
  "tot_spolled (mpctx (connected w)) = 0" "tot_rposted (mpctx (connected w)) = 0"
  "tot_rpolled (mpctx (connected w)) = 0" "world (connected w) = w"
  "p < 4 \<Longrightarrow> inner_qps (mpctx (connected w)) p \<noteq> None"
  by (simp_all add: connected_def MPRUD_NUM_PATH_def)

lemma log_env_accepts: "accepts_sends log_env"
  by (simp add: accepts_sends_def log_env_def)

text \<open>A send request of \<open>k\<close> bytes.\<close>

definition send_of :: "u32 \<Rightarrow> ibv_send_wr" where
  "send_of k = zero_send_wr\<lparr>swr_sg_list := Some (sample_sge\<lparr>sge_length := k\<rparr>), swr_num_sge := 1\<rparr>"

lemma send_of_sg: "swr_sg_list (send_of k) = Some (sample_sge\<lparr>sge_length := k\<rparr>)"
  by (simp add: send_of_def)

lemma sample_split:
  "paths_ok 4" "unat (sp_iter (split_msg 40000 4)) = 12" "unat (sp_iter_each (split_msg 40000 4)) = 3"
  by (simp_all add: paths_ok_def MPRUD_NUM_PATH_def unat_iter unat_iter_each unat_chunk_size)



theorem post_send_packets_witness:
  "\<exists>s'. mprud_post_send log_env (send_of 40000) (connected []) =
     ret (SUCCESS, (send_of 40000)\<lparr>swr_send_flags := IBV_SEND_SIGNALED\<rparr>, s') \<and>
     tot_sposted (mpctx s') = 12"
  using post_send_packets [OF log_env_accepts sample_split(1) _ _ _ _ send_of_sg, of "connected []" 40000]
  by (auto simp: sample_split sends_outstanding_def)

subsection \<open>Receives\<close>

lemma mprud_post_recv_ret:
  assumes "mprud_post_recv ops ibqp wr s = ret (r, s')"
  obtains g t0 x s2 sz where "rwr_sg_list wr = Some g"
    and "mprud_store_wr None (Some wr) (sint (sp_iter (split_msg sz (active_num (mp_manager s)))))
        (sint (sp_iter_each (split_msg sz (active_num (mp_manager s)))))
        (sint (chnk_last (split_msg sz (active_num (mp_manager s)))))
        (upd_ctx (\<lambda>c. c\<lparr>post_turn := t0\<rparr>) s) = ret s2"
    and "for_each (recv_packet ops wr g
        (split_msg sz (active_num (mp_manager s))) (active_num (mp_manager s)))
        [0..<unat (sp_iter (split_msg sz (active_num (mp_manager s))))] s2 = ret x"
    and "(r, s') = flow_result (\<lambda>s'. (SUCCESS, s')) x"
    and "sz = (if qp_qp_type ibqp = IBV_QPT_UD then sge_length g - 40 else sge_length g)"
proof -
  obtain g where g: "rwr_sg_list wr = Some g"
    using assms by (auto simp: mprud_post_recv_def bindC_eq_ret Let_def)
  define sz where "sz = (if qp_qp_type ibqp = IBV_QPT_UD then sge_length g - of_nat MPRUD_GRH_SIZE else sge_length g)"
  obtain t0 where t0: "c_rem (post_turn (mpctx s)) (active_num (mp_manager s)) = ret t0"
    using assms by (auto simp: mprud_post_recv_def bindC_eq_ret Let_def)
  define sp where "sp = split_msg sz (active_num (mp_manager s))"
  have spc: "split_checked sz (active_num (mp_manager s)) = ret sp"
    using assms g t0 by (auto simp: mprud_post_recv_def bindC_eq_ret Let_def split_checked_def sp_def
        split: if_splits)
  note eq = mprud_post_recv_def [of ops ibqp wr s, unfolded t0 g Let_def bindC_simps deref_simps,
      folded sz_def, simplified, unfolded spc bindC_simps]
  obtain s2 where s2: "mprud_store_wr None (Some wr) (sint (sp_iter sp)) (sint (sp_iter_each sp))
      (sint (chnk_last sp)) (upd_ctx (\<lambda>c. c\<lparr>post_turn := t0\<rparr>) s) = ret s2"
    using assms unfolding eq by (auto simp: bindC_eq_ret)
  obtain x where x: "for_each (recv_packet ops wr g sp
      (active_num (mp_manager s))) [0..<unat (sp_iter sp)] s2 = ret x" "(r, s') = flow_result (\<lambda>s'. (SUCCESS, s')) x"
    using assms unfolding eq by (auto simp: bindC_eq_ret s2)
  from that [OF g s2 [unfolded sp_def] x(1) [unfolded sp_def] x(2)] show thesis
    by (simp add: sz_def MPRUD_GRH_SIZE_def)
qed

text \<open>
  A receive that returns success leaves fewer than 512 packets outstanding.
\<close>

lemma post_recv_bounded:
  assumes "mprud_post_recv ops ibqp wr s = ret (SUCCESS, s')"
    and "recvs_outstanding (mpctx s) < 512"
  shows "recvs_outstanding (mpctx s') < 512"
  using assms(1)
proof (rule mprud_post_recv_ret)
  fix g t0 x s2 sz
  let ?n = "active_num (mp_manager s)"
  assume st: "mprud_store_wr None (Some wr) (sint (sp_iter (split_msg sz ?n)))
        (sint (sp_iter_each (split_msg sz ?n))) (sint (chnk_last (split_msg sz ?n)))
        (upd_ctx (\<lambda>c. c\<lparr>post_turn := t0\<rparr>) s) = ret s2"
    and lp: "for_each (recv_packet ops wr g (split_msg sz ?n) ?n) [0..<unat (sp_iter (split_msg sz ?n))] s2 = ret x"
    and x: "(SUCCESS, s') = flow_result (\<lambda>s'. (SUCCESS, s')) x"
  let ?I = "\<lambda>_ s. recvs_outstanding (mpctx s) < 512"
  have "?I 0 s2" using mprud_store_wr_eq_ret [OF st] assms(2) by simp
  have "case x of Next s' \<Rightarrow> ?I 0 s' | Return r \<Rightarrow> fst r = SUCCESS \<longrightarrow> ?I 0 (snd r)"
  proof (rule for_each_upt_inv [OF lp, where I = ?I])
    fix i s1 s3
    assume "recv_packet ops wr g (split_msg sz ?n) ?n i s1 = ret (Next s3)"
    then show "?I (Suc i) s3"
      by (rule recv_packet_cases) (auto elim!: after_post_Next dest: wait_recvs_result)
  next
    fix i s1 r
    assume I: "?I i s1" and "recv_packet ops wr g (split_msg sz ?n) ?n i s1 = ret (Return r)"
    from this(2) show "fst r = SUCCESS \<longrightarrow> ?I 0 (snd r)"
      by (rule recv_packet_cases) (use I in \<open>auto dest: after_post_Return [where r = "fst r" and s' = "snd r", simplified]\<close>)
  qed (use \<open>?I 0 s2\<close> in simp_all)
  with x show ?thesis by (cases x) auto
qed

text \<open>
  A receive with room for less than one byte per path divides by zero: with no packets
  to expect, the average size of a packet is undefined.
\<close>

lemma post_recv_tiny_faults:
  assumes n: "paths_ok (active_num (mp_manager s))" and t: "0 \<le> post_turn (mpctx s)"
    and tbl: "ring_ok (table (mpctx s))" and sg: "rwr_sg_list wr = Some g"
    and ud: "qp_qp_type ibqp = IBV_QPT_UD" and len: "40 \<le> unat (sge_length g)"
      "unat (sge_length g) < 40 + nat (active_num (mp_manager s))"
  shows "mprud_post_recv ops ibqp wr s = raise DivByZero"
proof -
  let ?n = "active_num (mp_manager s)" and ?sz = "sge_length g - of_nat MPRUD_GRH_SIZE"
  have n0: "0 < ?n" "?n \<le> 4" using n by (simp_all add: paths_ok_def MPRUD_NUM_PATH_def)
  have "unat ?sz = unat (sge_length g) - 40"
    using len by (simp add: MPRUD_GRH_SIZE_def unat_sub word_le_nat_alt)
  then have "unat (chunk_size (split_msg ?sz ?n)) = 0"
    using len unat_chunk_size [OF n] by simp
  then have it: "sp_iter (split_msg ?sz ?n) = 0"
    using unat_iter [OF n, of ?sz] by (simp add: unat_iter_each Let_def unat_eq_0 [symmetric] del: unat_eq_0)
  have ct: "c_rem (post_turn (mpctx s)) ?n = ret (post_turn (mpctx s) mod ?n)"
    using n0 t by (simp add: c_rem_pos)
  show ?thesis
    using tbl unfolding mprud_post_recv_def ct
    by (simp add: sg ud Let_def split_checked_ok [OF n] it mprud_store_wr_def ring_ok_def index_def)
qed

lemma wait_now:
  "recvs_outstanding (mpctx s) < 512 \<Longrightarrow> wait_recvs ops s = ret (SUCCESS, s)"
  by (simp add: wait_recvs_def loop_Return not_le [symmetric])

text \<open>A receive of \<open>k\<close> bytes, header included, on a datagram queue pair.\<close>

definition recv_of :: "u32 \<Rightarrow> ibv_recv_wr" where
  "recv_of k = zero_recv_wr\<lparr>rwr_sg_list := Some (sample_sge\<lparr>sge_length := k\<rparr>), rwr_num_sge := 1\<rparr>"

definition one_path :: "'w \<Rightarrow> 'w mprud_state" where
  "one_path w = upd_mgr (\<lambda>m. m\<lparr>active_num := 1\<rparr>) (connected w)"

lemma one_path_simps [simp]:
  "table (mpctx (one_path w)) = zero_table" "active_num (mp_manager (one_path w)) = 1"
  "post_turn (mpctx (one_path w)) = 0" "tot_rposted (mpctx (one_path w)) = 0"
  "tot_rpolled (mpctx (one_path w)) = 0" "world (one_path w) = w"
  "inner_qps (mpctx (one_path w)) 0 = Some (zero_qp\<lparr>qp_handle := 0, qp_send_cq := Some 0, qp_recv_cq := Some 1,
     qp_qp_type := IBV_QPT_UD\<rparr>)"
  by (simp_all add: one_path_def) (simp add: connected_def MPRUD_NUM_PATH_def)

lemma one_path_split: "sp_iter (split_msg 60 1) = 1"
  by (simp add: split_msg_def Let_def MPRUD_DEFAULT_MTU_def)

lemma one_path_recv:
  "\<exists>s'. mprud_post_recv log_env sample_qp (recv_of 100) (one_path []) = ret (SUCCESS, s')"
proof -
  let ?s = "one_path ([] :: (nat \<times> u32) list)"
  have "\<exists>s2. mprud_store_wr None (Some (recv_of 100)) (sint (sp_iter (split_msg 60 1)))
      (sint (sp_iter_each (split_msg 60 1))) (sint (chnk_last (split_msg 60 1)))
      (upd_ctx (\<lambda>c. c\<lparr>post_turn := 0\<rparr>) ?s) = ret s2"
    by (auto simp: mprud_store_wr_def recv_of_def one_path_split active_paths_def Let_def index_def
        zero_table_def mprud_consts)
  then obtain s2 where s2: "mprud_store_wr None (Some (recv_of 100)) (sint (sp_iter (split_msg 60 1)))
      (sint (sp_iter_each (split_msg 60 1))) (sint (chnk_last (split_msg 60 1)))
      (upd_ctx (\<lambda>c. c\<lparr>post_turn := 0\<rparr>) ?s) = ret s2" by blast
  define e where "e = new_entry None (Some (recv_of 100)) (sint (sp_iter (split_msg 60 1)))
      (sint (sp_iter_each (split_msg 60 1))) (sint (chnk_last (split_msg 60 1)))
      (upd_ctx (\<lambda>c. c\<lparr>post_turn := 0\<rparr>) ?s)"
  have eq: "s2 = upd_table (table_push e) (upd_ctx (\<lambda>c. c\<lparr>post_turn := 0\<rparr>) ?s)"
    using mprud_store_wr_eq_ret [OF s2] by (simp add: e_def)
  have "\<exists>s3. recv_packet log_env (recv_of 100) (sample_sge\<lparr>sge_length := 100\<rparr>) (split_msg 60 1) 1 0 s2 = ret (Next s3)"
    by (simp add: recv_packet_def turn_path_def eq index_def MPRUD_NUM_PATH_def Let_def
        post_recv_device_def log_env_def after_post_def wait_now book_recv_def
        recvs_outstanding_def c_rem_def SUCCESS_def)
  then show ?thesis
    using s2 by (auto simp: mprud_post_recv_def sample_qp_def recv_of_def Let_def c_rem_def
        sample_sge_def MPRUD_GRH_SIZE_def split_checked_def one_path_split)
qed

lemma post_recv_bounded_witness:
  "\<exists>s'. mprud_post_recv log_env sample_qp (recv_of 100) (one_path []) = ret (SUCCESS, s') \<and>
     recvs_outstanding (mpctx s') < 512"
  using one_path_recv post_recv_bounded [of log_env sample_qp "recv_of 100" "one_path []"]
  by (auto simp: recvs_outstanding_def)

lemma post_recv_tiny_faults_witness:
  "mprud_post_recv log_env sample_qp (recv_of 43) (connected []) = raise DivByZero"
  using post_recv_tiny_faults [of "connected []" "recv_of 43" "sample_sge\<lparr>sge_length := 43\<rparr>" sample_qp log_env]
  by (simp add: recv_of_def sample_qp_def paths_ok_def MPRUD_NUM_PATH_def)

subsection \<open>Requests that need no packets\<close>

text \<open>
  A send of fewer bytes than there are active paths, posted with nothing outstanding,
  hands nothing to the device and is reported complete by the next poll of the application's
  queue: its bytes are never sent.
\<close>

lemma tiny_send_completes_unsent:
  assumes n: "paths_ok (active_num (mp_manager s))" and t: "0 \<le> post_turn (mpctx s)"
    and tbl: "ring_ok (table (mpctx s))" "outstanding (table (mpctx s)) = []"
    and sg: "swr_sg_list wr = Some g" and len: "unat (sge_length g) < nat (active_num (mp_manager s))"
  shows "\<exists>wr' s' s''. mprud_post_send ops wr s = ret (SUCCESS, wr', s') \<and> world s' = world s \<and>
    length (outstanding (table (mpctx s'))) = 1 \<and>
    mprud_get_outer_poll MP_CLIENT s' = ret (1, s'') \<and> outstanding (table (mpctx s'')) = []"
proof -
  let ?n = "active_num (mp_manager s)"
  define sp where "sp = split_msg (sge_length g) ?n"
  have n0: "0 < ?n" "?n \<le> 4" using n by (simp_all add: paths_ok_def MPRUD_NUM_PATH_def)
  have "unat (chunk_size sp) = 0" using len unat_chunk_size [OF n] by (simp add: sp_def)
  then have it: "sp_iter sp = 0" "sp_iter_each sp = 0"
    using unat_iter [OF n, of "sge_length g"]
    by (simp_all add: sp_def unat_iter_each Let_def unat_eq_0 [symmetric] del: unat_eq_0)
  define t0 where "t0 = post_turn (mpctx s) mod ?n"
  have ct: "c_rem (post_turn (mpctx s)) ?n = ret t0" using n0 t by (simp add: c_rem_pos t0_def)
  define s1 where "s1 = upd_ctx (\<lambda>c. c\<lparr>post_turn := t0\<rparr>) s"
  define e where "e = new_entry (Some wr) None 0 0 (sint (chnk_last sp)) s1"
  have "\<exists>s2. mprud_store_wr (Some wr) None 0 0 (sint (chnk_last sp)) s1 = ret s2"
    using tbl sg n0 by (auto simp: mprud_store_wr_def s1_def ring_ok_def active_paths_def Let_def
        index_def MPRUD_NUM_PATH_def)
  then obtain s2 where s2: "mprud_store_wr (Some wr) None 0 0 (sint (chnk_last sp)) s1 = ret s2" by blast
  have s2_eq: "s2 = upd_table (table_push e) s1" using mprud_store_wr_eq_ret [OF s2] by (simp add: e_def)
  have "mprud_post_send ops wr s = ret (SUCCESS, wr\<lparr>swr_send_flags := IBV_SEND_SIGNALED\<rparr>, s2)"
    unfolding mprud_post_send_def ct
    using s2 by (simp add: sg Let_def split_checked_ok [OF n] it flip: sp_def s1_def)
  moreover have out: "outstanding (table (mpctx s2)) = [e]" "ring_ok (table (mpctx s2))"
    using tbl outstanding_push [of "table (mpctx s)" e] wr_fifo.push_ok [of "table (mpctx s)" e]
    by (simp_all add: s2_eq s1_def MPRUD_TABLE_LEN_def flip: length_outstanding)
  moreover have "\<forall>i < nat (active_num (mp_manager s2)). iter_each (wqe s2 (nat (tbl_head (table (mpctx s2))))) i = 0"
  proof -
    have "wqe s2 (nat (tbl_head (table (mpctx s2)))) = e"
      using outstanding_nth [of 0 "table (mpctx s2)"] out
      by (simp add: ring_slot_def ring_ok_def nat_less_iff flip: length_outstanding)
    then show ?thesis by (simp add: e_def new_entry_def Let_def)
  qed
  then obtain s'' where "mprud_get_outer_poll MP_CLIENT s2 = ret (1, s'')"
    "table (mpctx s'') = table_pop (table (mpctx s2))"
    using get_outer_poll_empty [OF out(2), of MP_CLIENT] n0
    by (auto simp: s2_eq s1_def MPRUD_NUM_PATH_def)
  moreover from this out have "outstanding (table (mpctx s'')) = []"
    using wr_fifo.pop_content [of "table (mpctx s2)"] by simp
  moreover have "world s2 = world s" by (simp add: s2_eq s1_def)
  ultimately show ?thesis using out(1) by fastforce
qed

lemma tiny_send_completes_unsent_witness:
  "\<exists>wr' s'. mprud_post_send log_env (send_of 3) (connected []) = ret (SUCCESS, wr', s') \<and> world s' = []"
  using tiny_send_completes_unsent [of "connected []" "send_of 3" "sample_sge\<lparr>sge_length := 3\<rparr>" log_env]
    sample_split(1)
  by (auto simp: send_of_sg outstanding_def)

text \<open>
  With nothing outstanding, a poll that meets a table slot never used before reports one
  completion for a request that does not exist, and leaves the table looking as if 999
  requests were outstanding.
\<close>

lemma spurious_completion:
  assumes "ring_ok (table (mpctx s))" and "outstanding (table (mpctx s)) = []"
    and "active_num (mp_manager s) \<le> int MPRUD_NUM_PATH"
    and "\<forall>i < nat (active_num (mp_manager s)). iter_each (wqe s (nat (tbl_head (table (mpctx s))))) i = 0"
  shows "\<exists>s'. mprud_get_outer_poll Iam s = ret (1, s') \<and> length (outstanding (table (mpctx s'))) = 999"
proof -
  let ?t = "table (mpctx s)"
  have "(tbl_next ?t - tbl_head ?t) mod 1000 = 0" using assms(2)
    by (metis length_outstanding list.size(3) ring_count_def MPRUD_TABLE_LEN_def nat_eq_iff2 of_nat_numeral
        pos_mod_sign zero_less_numeral nle_le of_nat_0 nat_0_iff)
  then have eq: "tbl_next ?t = tbl_head ?t"
  proof -
    have "tbl_next ?t mod 1000 = tbl_head ?t mod 1000"
      using \<open>(tbl_next ?t - tbl_head ?t) mod 1000 = 0\<close> by (simp add: mod_eq_dvd_iff mod_eq_0_iff_dvd)
    then show ?thesis using assms(1) by (simp add: ring_ok_def MPRUD_TABLE_LEN_def)
  qed
  have "(tbl_head ?t - (tbl_head ?t + 1) mod 1000) mod 1000 = (- 1) mod (1000 :: int)"
    by (simp add: mod_simps)
  then have "ring_count (table_pop ?t) = 999"
    using assms(1) eq by (simp add: ring_count_def table_pop_def bump_ring_mod ring_ok_def MPRUD_TABLE_LEN_def)
  then show ?thesis using get_outer_poll_empty [OF assms(1,3,4), of Iam] by auto
qed

lemma spurious_completion_witness:
  "\<exists>s'. mprud_get_outer_poll MP_CLIENT (connected ()) = ret (1, s') \<and> length (outstanding (table (mpctx s'))) = 999"
  using spurious_completion [of "connected ()" MP_CLIENT]
  by (simp add: outstanding_def MPRUD_NUM_PATH_def zero_table_def zero_wqe_def ring_ok_def MPRUD_TABLE_LEN_def
      ring_count_def)

subsection \<open>An endpoint that receives cannot wait for its sends\<close>

text \<open>The counters a server's poll must leave alone.\<close>

definition send_view :: "'w mprud_state \<Rightarrow> u64 \<times> u64 \<times> u64" where
  "send_view s = (tot_rposted (mpctx s), tot_sposted (mpctx s), tot_spolled (mpctx s))"

lemma send_view_simps [simp]:
  "send_view (s\<lparr>mp_manager := m\<rparr>) = send_view s" "send_view (s\<lparr>memory := mm\<rparr>) = send_view s"
  "send_view (s\<lparr>world := w\<rparr>) = send_view s"
  "send_view (s\<lparr>mpctx := (mpctx s)\<lparr>table := t\<rparr>\<rparr>) = send_view s"
  "send_view (s\<lparr>mpctx := (mpctx s)\<lparr>qp_stat := q\<rparr>\<rparr>) = send_view s"
  "send_view (s\<lparr>mpctx := (mpctx s)\<lparr>poll_turn := k\<rparr>\<rparr>) = send_view s"
  "send_view (s\<lparr>mpctx := (mpctx s)\<lparr>recov_post_turn := k\<rparr>\<rparr>) = send_view s"
  "send_view (s\<lparr>mpctx := (mpctx s)\<lparr>tot_recovery_posted := n\<rparr>\<rparr>) = send_view s"
  "send_view (s\<lparr>mpctx := (mpctx s)\<lparr>tot_recovery_polled := n\<rparr>\<rparr>) = send_view s"
  "send_view (s\<lparr>mpctx := (mpctx s)\<lparr>tot_rpolled := n\<rparr>\<rparr>) = send_view s"
  by (simp_all add: send_view_def)

lemma send_view_ctx: "mpctx s' = mpctx s \<Longrightarrow> send_view s' = send_view s"
  by (simp add: send_view_def)

named_theorems view_intros "operations of the server that keep the view of the sends"

lemma poll_device_view [view_intros]:
  "poll_device ops cq n s = ret (r, s') \<Longrightarrow> send_view s' = send_view s"
  by (auto simp: poll_device_eq_ret send_view_def)

lemma poll_report_view [view_intros]:
  "mprud_poll_report ops cq b s = ret (r, s') \<Longrightarrow> send_view s' = send_view s"
  by (auto dest: poll_report_frame intro: send_view_ctx)

lemma inner_poll_view [view_intros]:
  assumes "mprud_inner_poll ops MP_SERVER s = ret (r, s')"
  shows "send_view s' = send_view s"
  using assms
proof (cases rule: mprud_inner_poll_cases)
  case (polled i qp c k m w)
  then show ?thesis
    by (cases "word_of_int k = (0 :: u32)")
      (auto simp: Let_def add_tot_polled_def send_view_def dest!: inner_polled_eq_ret)
qed simp

lemma recovery_done_view [view_intros]:
  "recovery_done_wqe Iam cur errq s = ret s' \<Longrightarrow> send_view s' = send_view s"
  by (cases Iam) (auto simp: recovery_done_wqe_def bindC_eq_ret Let_def send_view_def split: if_splits)

lemma recovery_complete_view [view_intros]:
  assumes "recovery_complete Iam cur errq need s = ret s'"
  shows "send_view s' = send_view s"
  by (rule loop_inv [OF assms [unfolded recovery_complete_def],
        where I = "\<lambda>s1. send_view s1 = send_view s" and Q = "\<lambda>s1. send_view s1 = send_view s"])
    (auto simp: bindC_eq_ret Let_def dest!: recovery_done_view split: if_splits)

lemma recovery_poll_view [view_intros]:
  assumes "mprud_recovery_poll ops Iam s = ret (r, s')"
  shows "send_view s' = send_view s"
  using assms
  by (auto simp: mprud_recovery_poll_def bindC_eq_ret Let_def send_view_def split: if_splits
      dest!: recovery_complete_view poll_device_view)

lemma wait_recovery_view [view_intros]:
  assumes "wait_recovery ops Iam limit s = ret (r, s')"
  shows "send_view s' = send_view s"
proof -
  have "send_view (snd (r, s')) = send_view s"
    by (rule loop_inv [OF assms [unfolded wait_recovery_def],
        where I = "\<lambda>s1. send_view s1 = send_view s" and Q = "\<lambda>x. send_view (snd x) = send_view s"])
      (auto simp: bindC_eq_ret dest!: recovery_poll_view split: if_splits)
  then show ?thesis by simp
qed

lemma post_recv_device_view: "send_view (snd (post_recv_device ops qp rw s)) = send_view s"
  by (simp add: send_view_def)

lemma post_send_device_view: "send_view (snd (post_send_device ops qp sw s)) = send_view s"
  by (simp add: send_view_def)

lemma recovery_posted_view:
  assumes "recovery_posted ops Iam limit n p = ret x"
  shows "case x of Next s' \<Rightarrow> send_view s' = send_view (snd p) | Return r \<Rightarrow> send_view (snd r) = send_view (snd p)"
  using assms
  by (cases p) (auto simp: recovery_posted_def Let_def bindC_eq_ret dest!: wait_recovery_view split: if_splits)

lemma post_recv_recovery_view [view_intros]:
  assumes "mprud_post_recv_recovery ops k s = ret (r, s')"
  shows "send_view s' = send_view s"
proof -
  obtain g where g: "rwr_sg_list (wqe_rwr (wqe s k)) = Some g"
    using assms by (auto simp: mprud_post_recv_recovery_def bindC_eq_ret)
  define n s1 where "n = active_num (mp_manager s) - 1"
    and "s1 = (\<lambda>sp :: split_params. upd_wqe k (\<lambda>e. e\<lparr>comp_need := sint (sp_iter sp)\<rparr>) s)"
  obtain sp where sp: "split_checked (sge_length g) n = ret sp"
    using assms g by (auto simp: mprud_post_recv_recovery_def bindC_eq_ret n_def Let_def)
  obtain t where t: "c_rem (recov_post_turn (mpctx s)) n = ret t"
    using assms g sp by (auto simp: mprud_post_recv_recovery_def bindC_eq_ret n_def Let_def)
  define s2 where "s2 = upd_ctx (\<lambda>c. c\<lparr>recov_post_turn := t\<rparr>) (s1 sp)"
  define lim wr where "lim = (word_of_int (recv_size (mpctx s) sdiv 2) :: u64)" and "wr = wqe_rwr (wqe s k)"
  obtain x where lp: "for_each (recv_recovery_packet ops wr g sp lim n) [0..<unat (sp_iter sp)] s2 = ret x"
    and x: "(r, s') = flow_result (\<lambda>s'. (SUCCESS, s')) x"
    using assms g sp t unfolding mprud_post_recv_recovery_def
    by (auto simp: Let_def s2_def s1_def lim_def wr_def bindC_eq_ret simp flip: n_def simp del: c_rem_eq_ret)
  have s2: "send_view s2 = send_view s" by (simp add: s2_def s1_def send_view_def)
  let ?I = "\<lambda>_ s1. send_view s1 = send_view s"
  have "case x of Next s' \<Rightarrow> ?I 0 s' | Return r \<Rightarrow> ?I 0 (snd r)"
  proof (rule for_each_upt_inv [OF lp, where I = ?I])
    fix i s1 s3
    assume I: "?I i s1" and "recv_recovery_packet ops wr g sp lim n i s1 = ret (Next s3)"
    then show "?I (Suc i) s3"
      by (auto simp: recv_recovery_packet_def bindC_eq_ret Let_def post_recv_device_view dest!: recovery_posted_view)
  next
    fix i s1 r
    assume I: "?I i s1" and "recv_recovery_packet ops wr g sp lim n i s1 = ret (Return r)"
    then show "?I 0 (snd r)"
      by (auto simp: recv_recovery_packet_def bindC_eq_ret Let_def post_recv_device_view dest!: recovery_posted_view)
  qed (use s2 in simp_all)
  with x show ?thesis by (cases x) auto
qed

lemma post_ack_view [view_intros]:
  "mprud_post_recv_ack ops Iam s = ret (r, s') \<Longrightarrow> send_view s' = send_view s"
  "mprud_post_send_ack ops Iam s = ret (r, s') \<Longrightarrow> send_view s' = send_view s"
  by (auto dest: post_recv_ack_frame post_send_ack_frame intro: send_view_ctx)

lemma server_got_ack_view [view_intros]:
  "server_got_ack ops s = ret s' \<Longrightarrow> send_view s' = send_view s"
  by (auto simp: server_got_ack_def bindC_eq_ret Let_def dest!: poll_report_view split: if_splits)

lemma recovery_server_view [view_intros]:
  assumes "mprud_recovery_server ops s = ret (r, s')"
  shows "send_view s' = send_view s"
proof -
  obtain s1 where s1: "server_got_ack ops s = ret s1"
    using assms by (auto simp: mprud_recovery_server_def bindC_eq_ret)
  note v1 = server_got_ack_view [OF s1]
  let ?m = "mp_manager s1"
  show ?thesis
  proof (cases "recovery_max_wqe ?m < recovery_cur_poll_wqe ?m \<and> got_report_flag ?m \<noteq> 0")
    case True
    define s2 where "s2 = upd_ctx (\<lambda>c. c\<lparr>tot_rpolled := tot_rposted c\<rparr>)
      (upd_mgr (\<lambda>m. m\<lparr>active_num := active_num m - 1, start_time_flag := 0, recovery_flag := 0, monitor_flag := 1\<rparr>) s1)"
    obtain a s3 where s3: "mprud_post_send_ack ops MP_SERVER s2 = ret (a, s3)"
      using assms True by (auto simp: mprud_recovery_server_def s1 bindC_eq_ret Let_def s2_def)
    obtain qp :: ibv_qp and b where s4: "mprud_poll_report ops (qp_send_cq qp) True s3 = ret (b, s')"
      using assms True s3 by (auto simp: mprud_recovery_server_def s1 bindC_eq_ret Let_def s2_def)
    have "send_view s2 = send_view s1" by (simp add: s2_def send_view_def)
    then show ?thesis using v1 post_ack_view(2) [OF s3] poll_report_view [OF s4] by simp
  next
    case False
    show ?thesis
    proof (cases "recovery_max_wqe ?m < recovery_cur_post_wqe ?m")
      case True
      then show ?thesis using assms False v1 by (auto simp: mprud_recovery_server_def s1)
    next
      case post: False
      let ?k = "recovery_cur_post_wqe ?m"
      obtain i g g' where i: "index MPRUD_TABLE_LEN ?k = ret i" and g: "rwr_sg_list (wqe_rwr (wqe s1 i)) = Some g"
        and g': "lost_part (active_num ?m) (msg ?m) ?k (iter_each (wqe s1 i)) g = ret g'"
        using assms False post by (auto simp: mprud_recovery_server_def s1 bindC_eq_ret Let_def)
      define s2 where "s2 = upd_wqe i (\<lambda>e. e\<lparr>wqe_rwr := (wqe_rwr e)\<lparr>rwr_sg_list := Some g'\<rparr>\<rparr>) s1"
      obtain err s3 where s3: "mprud_post_recv_recovery ops i s2 = ret (err, s3)"
        using assms False post i g g'
        by (auto simp: mprud_recovery_server_def s1 bindC_eq_ret Let_def s2_def simp del: index_eq_ret)
      have "send_view s' = send_view s3"
        using assms False post i g g' s3
        by (auto simp: mprud_recovery_server_def s1 Let_def s2_def simp del: index_eq_ret split: if_splits)
      moreover have "send_view s2 = send_view s1" by (simp add: s2_def)
      ultimately show ?thesis using v1 post_recv_recovery_view [OF s3] by simp
    qed
  qed
qed

lemma drain_pass_view:
  assumes "bindC (mprud_inner_poll ops MP_SERVER s) (\<lambda>(r, s').
        if r \<noteq> 0 then ret (Return (FAILURE, s'))
        else bindC (qlen_sum s') (\<lambda>sum. ret (if 0 < sum then Next s' else Return (SUCCESS, s')))) = ret x"
  shows "send_view (flow_result id (case x of Next s' \<Rightarrow> Next s' | Return y \<Rightarrow> Return (snd y))) = send_view s"
  using assms
proof (rule drain_pass)
  fix s1
  assume "mprud_inner_poll ops MP_SERVER s = ret (SUCCESS, s1)" "x = Next s1 \<or> x = Return (SUCCESS, s1)"
  then show ?thesis using inner_poll_view [of ops s SUCCESS s1] by auto
qed

lemma drain_paths_view [view_intros]:
  assumes "drain_paths ops MP_SERVER s = ret (r, s')"
  shows "send_view s' = send_view s"
proof -
  have "send_view (snd (r, s')) = send_view s"
    by (rule loop_inv [OF assms [unfolded drain_paths_def],
        where I = "\<lambda>s1. send_view s1 = send_view s" and Q = "\<lambda>x. send_view (snd x) = send_view s"])
      (simp, (drule drain_pass_view, simp)+)
  then show ?thesis by simp
qed

lemma monitor_path_view [view_intros]:
  "mprud_monitor_path ops s = ret (r, s') \<Longrightarrow> send_view s' = send_view s"
  by (auto simp: mprud_monitor_path_def read_clock_def Let_def bindC_eq_ret
      split: prod.splits if_splits dest!: recovery_server_view)

lemma post_send_report_view [view_intros]:
  "mprud_post_send_report ops s = ret (r, s') \<Longrightarrow> send_view s' = send_view s"
  by (auto simp: mprud_post_send_report_def Let_def bindC_eq_ret post_send_device_def send_view_def
      split: prod.splits if_splits)

lemma make_report_view [view_intros]: "make_report s = ret s' \<Longrightarrow> send_view s' = send_view s"
  by (auto simp: make_report_def bindC_eq_ret Let_def)

lemma routine_server_view [view_intros]:
  assumes "mprud_recovery_routine_server ops s = ret (r, s')"
  shows "send_view s' = send_view s"
proof -
  obtain r1 s1 where s1: "drain_paths ops MP_SERVER s = ret (r1, s1)"
    using assms by (auto simp: mprud_recovery_routine_server_def bindC_eq_ret)
  note v1 = drain_paths_view [OF s1]
  show ?thesis
  proof (cases "r1 \<noteq> 0 \<or> active_num (mp_manager (upd_mgr take_error_path s1)) = 0")
    case True
    then show ?thesis using assms v1 by (auto simp: mprud_recovery_routine_server_def s1 Let_def split: if_splits)
  next
    case False
    obtain s3 where s3: "make_report (upd_mgr take_error_path s1) = ret s3"
      using assms False by (auto simp: mprud_recovery_routine_server_def s1 bindC_eq_ret Let_def)
    obtain err s4 where s4: "mprud_post_send_report ops s3 = ret (err, s4)"
      using assms False by (auto simp: mprud_recovery_routine_server_def s1 s3 bindC_eq_ret Let_def)
    have v4: "send_view s4 = send_view s"
      using v1 make_report_view [OF s3] post_send_report_view [OF s4] by simp
    show ?thesis
    proof (cases "err \<noteq> 0")
      case True
      then show ?thesis using assms False v4 by (auto simp: mprud_recovery_routine_server_def s1 s3 s4 Let_def)
    next
      case ok: False
      obtain qp ne s5 where q: "report_qp (mp_manager s4) = Some qp"
        and s5: "mprud_poll_report ops (qp_send_cq qp) True s4 = ret (ne, s5)"
        using assms False ok by (auto simp: mprud_recovery_routine_server_def s1 s3 s4 bindC_eq_ret Let_def)
      define s6 where "s6 = upd_stat MPRUD_NUM_PATH (\<lambda>q. q\<lparr>polled_scnt := (polled_scnt q)\<lparr>ack :=
          ack (polled_scnt q) + word_of_int ne\<rparr>\<rparr>) s5"
      obtain c s7 where s7: "mprud_post_recv_ack ops MP_SERVER s6 = ret (c, s7)"
        using assms False ok
        by (auto simp: mprud_recovery_routine_server_def s1 s3 s4 q s5 bindC_eq_ret Let_def s6_def)
      have "send_view s7 = send_view s"
        using v4 poll_report_view [OF s5] post_ack_view(1) [OF s7] by (simp add: s6_def)
      moreover have "send_view s' = send_view s7"
        using assms False ok s7 by (auto simp: mprud_recovery_routine_server_def s1 s3 s4 q s5 Let_def s6_def)
      ultimately show ?thesis by simp
    qed
  qed
qed

lemma server_code_view [view_intros]:
  assumes "server_code ops s = ret (r, s')"
  shows "send_view s' = send_view s"
proof -
  obtain code s1 where c: "(if monitor_flag (mp_manager s) = 0 then mprud_monitor_path ops s
      else ret (MPRUD_STATUS_NORMAL, s)) = ret (code, s1)"
    using assms by (auto simp: server_code_def bindC_eq_ret)
  then have v: "send_view s1 = send_view s"
    using monitor_path_view [of ops s code s1] by (auto split: if_splits)
  show ?thesis
    using assms v unfolding server_code_def c
    by (cases code) (auto simp: bindC_eq_ret dest!: routine_server_view)
qed

lemma poll_cq_server_view:
  assumes "mprud_poll_cq_server ops True wc s = ret (r, wc', s')"
  shows "send_view s' = send_view s"
proof -
  have pass: "case x of Next s2 \<Rightarrow> send_view s2 = send_view s1 | Return y \<Rightarrow> send_view (snd (snd y)) = send_view s1"
    if "poll_pass (server_code ops) ops MP_SERVER True wc s1 = ret x" for s1 x
    using that
    by (auto simp: poll_pass_def poll_outer_step_def poll_inner_step_def bindC_eq_ret
        split: option.splits if_splits dest!: server_code_view inner_poll_view recovery_poll_view)
  have "send_view (snd (snd (r, wc', s'))) = send_view s"
    by (rule loop_inv [OF assms [unfolded mprud_poll_cq_server_def],
        where I = "\<lambda>s1. send_view s1 = send_view s" and Q = "\<lambda>y. send_view (snd (snd y)) = send_view s"])
      (auto dest: pass)
  then show ?thesis by simp
qed

lemma wait_sends_server:
  assumes "0 < tot_rposted (mpctx s)" and "256 \<le> sends_outstanding (mpctx s)"
    and "wait_sends ops s = ret (r, s')"
  shows "r \<noteq> SUCCESS"
proof -
  let ?I = "\<lambda>s1. send_view s1 = send_view s"
  have sv: "256 \<le> sends_outstanding (mpctx s1)" "0 < tot_rposted (mpctx s1)" if "?I s1" for s1
    using that assms(1,2) by (simp_all add: send_view_def sends_outstanding_def)
  let ?Q = "\<lambda>x. fst x \<noteq> SUCCESS"
  have "?Q (r, s')"
  proof (rule loop_inv [OF assms(3) [unfolded wait_sends_def], where I = ?I and Q = ?Q])
    fix s1 s2
    assume I: "?I s1" and "(if 256 \<le> sends_outstanding (mpctx s1) then
       bindC (deref (inner_qps (mpctx s1) 0)) (\<lambda>_.
       bindC (mprud_poll_cq ops poll_batch_wc True s1) (\<lambda>(r, _, s').
       ret (if r \<noteq> 0 then Return (FAILURE, s') else Next s')))
     else ret (Return (SUCCESS, s1))) = ret (Next s2)"
    then obtain r' wc' where "mprud_poll_cq_server ops True poll_batch_wc s1 = ret (r', wc', s2)"
      using sv [OF I] by (auto simp: bindC_eq_ret mprud_poll_cq_def split: if_splits)
    from poll_cq_server_view [OF this] I show "?I s2" by simp
  next
    fix s1 x
    assume I: "?I s1" and "(if 256 \<le> sends_outstanding (mpctx s1) then
       bindC (deref (inner_qps (mpctx s1) 0)) (\<lambda>_.
       bindC (mprud_poll_cq ops poll_batch_wc True s1) (\<lambda>(r, _, s').
       ret (if r \<noteq> 0 then Return (FAILURE, s') else Next s')))
     else ret (Return (SUCCESS, s1))) = ret (Return x)"
    then show "?Q x" using sv(1) [OF I] by (auto simp: bindC_eq_ret SUCCESS_def FAILURE_def split: if_splits)
  qed simp
  then show ?thesis by simp
qed

lemma wait_sends_now:
  "sends_outstanding (mpctx s) < 256 \<Longrightarrow> wait_sends ops s = ret (SUCCESS, s)"
  by (simp add: wait_sends_def loop_Return not_le [symmetric])

text \<open>
  C40: the layer decides by its receive counter which completions a poll looks at. On an
  endpoint that has ever posted a receive, a send that brings the outstanding packets to 256
  never succeeds: the wait polls receive completions only, so the number of outstanding sends
  cannot fall.
\<close>

theorem receiver_send_blocks:
  assumes rp: "0 < tot_rposted (mpctx s)" and sg: "swr_sg_list wr = Some g"
    and room: "sends_outstanding (mpctx s) < 256"
    and full: "256 \<le> unat (sends_outstanding (mpctx s))
      + unat (sp_iter (split_msg (sge_length g) (active_num (mp_manager s))))"
  shows "mprud_post_send ops wr s \<noteq> ret (SUCCESS, wr', s')"
proof
  assume "mprud_post_send ops wr s = ret (SUCCESS, wr', s')"
  then show False
  proof (rule mprud_post_send_ret)
    fix g' :: ibv_sge and t0 x s2
    let ?n = "active_num (mp_manager s)" and ?sp = "split_msg (sge_length g') (active_num (mp_manager s))"
    assume g': "swr_sg_list wr = Some g'"
      and st: "mprud_store_wr (Some wr) None (sint (sp_iter ?sp)) (sint (sp_iter_each ?sp)) (sint (chnk_last ?sp))
        (upd_ctx (\<lambda>c. c\<lparr>post_turn := t0\<rparr>) s) = ret s2"
      and lp: "for_each (send_packet ops (wr\<lparr>swr_send_flags := IBV_SEND_SIGNALED\<rparr>) g' ?sp ?n)
        [0..<unat (sp_iter ?sp)] s2 = ret x"
      and x: "(SUCCESS, s') = flow_result (\<lambda>s'. (SUCCESS, s')) x"
    define o0 where "o0 = unat (sends_outstanding (mpctx s))"
    let ?I = "\<lambda>i s1. 0 < tot_rposted (mpctx s1) \<and> active_num (mp_manager s1) = ?n \<and>
      unat (sends_outstanding (mpctx s1)) = o0 + i \<and> o0 + i < 256"
    have "?I 0 s2"
      using mprud_store_wr_eq_ret [OF st] rp room by (simp add: o0_def word_less_nat_alt)
    have "case x of Next s' \<Rightarrow> ?I (unat (sp_iter ?sp)) s' | Return r \<Rightarrow> fst r \<noteq> SUCCESS"
    proof (rule for_each_upt_inv [OF lp, where I = ?I])
      fix i s1 s3
      assume I: "?I i s1" and "send_packet ops (wr\<lparr>swr_send_flags := IBV_SEND_SIGNALED\<rparr>) g' ?sp ?n i s1 = ret (Next s3)"
      from this(2) show "?I (Suc i) s3"
      proof (rule send_packet_cases)
        fix t and qp :: ibv_qp and tw
        assume "after_post (book_send t) (wait_sends ops) ?n (post_send_device ops qp tw s1) = ret (Next s3)"
        then show "?I (Suc i) s3"
        proof (rule after_post_Next)
          fix s4 u
          let ?b = "book_send t (snd (post_send_device ops qp tw s1))"
          assume w: "wait_sends ops ?b = ret (SUCCESS, s4)"
            and s3: "s3 = upd_ctx (\<lambda>c. c\<lparr>post_turn := u\<rparr>) s4"
          have b: "0 < tot_rposted (mpctx ?b)" "active_num (mp_manager ?b) = ?n"
            "sends_outstanding (mpctx ?b) = sends_outstanding (mpctx s1) + 1"
            using I by (simp_all add: book_send_def Let_def sends_outstanding_def)
          then have u: "unat (sends_outstanding (mpctx ?b)) = o0 + Suc i"
            using I by (simp add: unat_word_ariths)
          have lt: "sends_outstanding (mpctx ?b) < 256"
            using wait_sends_server [OF b(1) _ w] by (metis not_le_imp_less)
          then have "s4 = ?b" using w by (simp add: wait_sends_now)
          with b u lt s3 show "?I (Suc i) s3" by (simp add: word_less_nat_alt)
        qed
      qed simp
    next
      fix i s1 r
      assume I: "?I i s1" and "send_packet ops (wr\<lparr>swr_send_flags := IBV_SEND_SIGNALED\<rparr>) g' ?sp ?n i s1 = ret (Return r)"
      from this(2) show "fst r \<noteq> SUCCESS"
        by (rule send_packet_cases) (use I in \<open>auto dest: after_post_Return [where r = "fst r" and s' = "snd r", simplified]\<close>)
    qed (use \<open>?I 0 s2\<close> in simp_all)
    with x full g' sg show False by (cases x) (auto simp: o0_def)
  qed
qed

text \<open>A connected endpoint that has once posted a receive and has 250 packets under way.\<close>

theorem receiver_send_blocks_witness:
  "\<forall>wr' s'. mprud_post_send log_env (send_of 40000) (upd_ctx (\<lambda>c. c\<lparr>tot_rposted := 1, tot_sposted := 250\<rparr>) (connected []))
     \<noteq> ret (SUCCESS, wr', s')"
  using receiver_send_blocks [of "upd_ctx (\<lambda>c. c\<lparr>tot_rposted := 1, tot_sposted := 250\<rparr>) (connected [])" "send_of 40000"
      "sample_sge\<lparr>sge_length := 40000\<rparr>" log_env]
  by (simp add: send_of_sg sends_outstanding_def sample_split)

end
