(* ===== verification/Mprud_Setup.thy ===== *)
theory Mprud_Setup
  imports Mprud_Init
begin

unbundle bit_operations_syntax

section \<open>Setting up and tearing down a connection\<close>

text \<open>
  The hooks of the layer in \<^verbatim>\<open>libibverbs-41mlnx1/src/verbs.c\<close> and the functions of
  \<^verbatim>\<open>mprud.c\<close> they call: allocating a protection domain, registering the
  application's buffer (which the library lengthens by the layer's own buffers), creating,
  modifying and destroying queue pairs. The driver's operations and the kernel are a record
  of functions over the world; \<^verbatim>\<open>errno\<close> and messages are left out.
\<close>

subsection \<open>Attributes\<close>

record ibv_qp_cap =
  max_send_wr :: u32
  max_recv_wr :: u32
  max_send_sge :: u32
  max_recv_sge :: u32
  max_inline_data :: u32

record ibv_qp_init_attr =
  ia_qp_context :: u64
  ia_send_cq :: "nat option"
  ia_recv_cq :: "nat option"
  ia_srq :: "nat option"
  ia_cap :: ibv_qp_cap
  ia_qp_type :: qp_type
  ia_sq_sig_all :: int

text \<open>The attributes of a queue pair the layer reads or sets; a driver also gets the others.\<close>

record ibv_qp_attr =
  attr_qp_state :: qp_state
  attr_qkey :: u32
  attr_sq_psn :: u32
  attr_dest_qp_num :: u32
  attr_pkey_index :: u16
  attr_port_num :: u8

definition zero_qp_attr :: ibv_qp_attr where
  "zero_qp_attr = \<lparr>attr_qp_state = IBV_QPS_RESET, attr_qkey = 0, attr_sq_psn = 0,
     attr_dest_qp_num = 0, attr_pkey_index = 0, attr_port_num = 0\<rparr>"

definition IBV_QP_STATE :: int where "IBV_QP_STATE = push_bit 0 1"
definition IBV_QP_PKEY_INDEX :: int where "IBV_QP_PKEY_INDEX = push_bit 4 1"
definition IBV_QP_PORT :: int where "IBV_QP_PORT = push_bit 5 1"
definition IBV_QP_QKEY :: int where "IBV_QP_QKEY = push_bit 6 1"
definition IBV_QP_SQ_PSN :: int where "IBV_QP_SQ_PSN = push_bit 16 1"

record ibv_global_route =
  grh_dgid :: "u8 list"
  grh_flow_label :: u32
  grh_sgid_index :: u8
  grh_hop_limit :: u8
  grh_traffic_class :: u8

record ibv_ah_attr =
  ah_grh :: ibv_global_route
  ah_dlid :: u16
  ah_sl :: u8
  ah_src_path_bits :: u8
  ah_static_rate :: u8
  ah_is_global :: u8
  ah_port_num :: u8

subsection \<open>Memory regions\<close>

record ibv_exp_reg_mr_in =
  rin_pd :: ibv_pd
  rin_addr :: u64
  rin_length :: u64
  rin_exp_access :: u64
  rin_comp_mask :: u32
  rin_create_flags :: u32
  rin_dm :: "nat option"

record ibv_mr =
  mr_context :: nat
  mr_pd :: "ibv_pd option"
  mr_addr :: u64
  mr_length :: u64
  mr_handle :: u32
  mr_lkey :: u32
  mr_rkey :: u32

definition exp_access_flag :: "nat \<Rightarrow> u64" where
  "exp_access_flag k = push_bit (0x20 + k) 1"

definition IBV_EXP_ACCESS_ALLOCATE_MR :: u64 where "IBV_EXP_ACCESS_ALLOCATE_MR = exp_access_flag 5"
definition IBV_EXP_ACCESS_ON_DEMAND :: u64 where "IBV_EXP_ACCESS_ON_DEMAND = exp_access_flag 14"
definition IBV_EXP_ACCESS_RELAXED :: u64 where "IBV_EXP_ACCESS_RELAXED = exp_access_flag 15"
definition IBV_EXP_ACCESS_PHYSICAL_ADDR :: u64 where "IBV_EXP_ACCESS_PHYSICAL_ADDR = exp_access_flag 16"
definition IBV_EXP_REG_MR_CREATE_FLAGS :: u32 where "IBV_EXP_REG_MR_CREATE_FLAGS = push_bit 0 1"
definition IBV_EXP_REG_MR_DM :: u32 where "IBV_EXP_REG_MR_DM = push_bit 1 1"
definition IBV_EXP_REG_MR_CREATE_CONTIG :: u32 where "IBV_EXP_REG_MR_CREATE_CONTIG = push_bit 0 1"

definition shared_mr_flags :: u64 where
  "shared_mr_flags = exp_access_flag 6 OR exp_access_flag 7 OR exp_access_flag 8
     OR exp_access_flag 9 OR exp_access_flag 10 OR exp_access_flag 11"

text \<open>The operations of the driver and of the kernel.\<close>

record 'w verbs =
  alloc_pd_op :: "nat \<Rightarrow> 'w \<Rightarrow> ibv_pd option \<times> 'w"
  dealloc_pd_op :: "ibv_pd \<Rightarrow> 'w \<Rightarrow> int \<times> 'w"
  drv_exp_reg_mr_op :: "(ibv_exp_reg_mr_in \<Rightarrow> 'w \<Rightarrow> ibv_mr option \<times> 'w) option"
  reg_mr_op :: "ibv_pd \<Rightarrow> u64 \<Rightarrow> u64 \<Rightarrow> u64 \<Rightarrow> 'w \<Rightarrow> ibv_mr option \<times> 'w"
  dontfork_op :: "u64 \<Rightarrow> u64 \<Rightarrow> 'w \<Rightarrow> int \<times> 'w"
  dofork_op :: "u64 \<Rightarrow> u64 \<Rightarrow> 'w \<Rightarrow> int \<times> 'w"
  create_cq_op :: "nat \<Rightarrow> int \<Rightarrow> 'w \<Rightarrow> nat option \<times> 'w"
  create_qp_op :: "ibv_pd \<Rightarrow> ibv_qp_init_attr \<Rightarrow> 'w \<Rightarrow> (ibv_qp \<times> ibv_qp_init_attr) option \<times> 'w"
  modify_qp_op :: "ibv_qp \<Rightarrow> ibv_qp_attr \<Rightarrow> int \<Rightarrow> 'w \<Rightarrow> int \<times> 'w"
  destroy_qp_op :: "ibv_qp \<Rightarrow> 'w \<Rightarrow> int \<times> 'w"
  create_ah_op :: "ibv_pd \<Rightarrow> ibv_ah_attr \<Rightarrow> 'w \<Rightarrow> nat option \<times> 'w"
  destroy_ah_op :: "nat \<Rightarrow> 'w \<Rightarrow> int \<times> 'w"

definition is_shared_mr :: "u64 \<Rightarrow> bool" where
  "is_shared_mr access_flags \<longleftrightarrow> access_flags AND shared_mr_flags \<noteq> 0"

definition is_contig :: "ibv_exp_reg_mr_in \<Rightarrow> bool" where
  "is_contig inp \<longleftrightarrow> rin_exp_access inp AND IBV_EXP_ACCESS_ALLOCATE_MR \<noteq> 0 \<or>
     rin_comp_mask inp AND IBV_EXP_REG_MR_CREATE_FLAGS \<noteq> 0 \<and>
     rin_create_flags inp AND IBV_EXP_REG_MR_CREATE_CONTIG \<noteq> 0"

definition is_odp :: "ibv_exp_reg_mr_in \<Rightarrow> bool" where
  "is_odp inp \<longleftrightarrow> rin_exp_access inp AND IBV_EXP_ACCESS_ON_DEMAND \<noteq> 0"

definition is_pa :: "ibv_exp_reg_mr_in \<Rightarrow> bool" where
  "is_pa inp \<longleftrightarrow> rin_exp_access inp AND IBV_EXP_ACCESS_PHYSICAL_ADDR \<noteq> 0"

definition is_dm :: "ibv_exp_reg_mr_in \<Rightarrow> bool" where
  "is_dm inp \<longleftrightarrow> rin_comp_mask inp AND IBV_EXP_REG_MR_DM \<noteq> 0"

definition fill_mr :: "ibv_exp_reg_mr_in \<Rightarrow> ibv_mr \<Rightarrow> ibv_mr" where
  "fill_mr inp mr =
    (let relaxed = rin_exp_access inp AND IBV_EXP_ACCESS_RELAXED \<noteq> 0;
         m1 = mr\<lparr>mr_context := pd_context (rin_pd inp), mr_pd := Some (rin_pd inp)\<rparr>;
         m2 = (if rin_exp_access inp AND IBV_EXP_ACCESS_ALLOCATE_MR \<noteq> 0 then m1
               else if \<not> relaxed then m1\<lparr>mr_addr := rin_addr inp\<rparr> else m1)
     in if \<not> relaxed then m2\<lparr>mr_length := rin_length inp\<rparr> else m2)"

text \<open>
  \<open>exp\<close> is \<open>None\<close> for a call without experimental context. The calls to
  \<^verbatim>\<open>ibv_dontfork_range\<close> and \<^verbatim>\<open>ibv_dofork_range\<close> mark the pages
  of the region.
\<close>

definition common_reg_mr :: "'w verbs \<Rightarrow> (ibv_exp_reg_mr_in \<Rightarrow> 'w \<Rightarrow> ibv_mr option \<times> 'w) option \<Rightarrow>
    ibv_exp_reg_mr_in \<Rightarrow> 'w \<Rightarrow> ibv_mr option \<times> 'w" where
  "common_reg_mr ops exp inp w =
    (if is_shared_mr (rin_exp_access inp) then (None, w)
     else if rin_exp_access inp AND IBV_EXP_ACCESS_ALLOCATE_MR \<noteq> 0 \<and> rin_addr inp \<noteq> 0 then (None, w)
     else if is_dm inp \<and> rin_dm inp = None then (None, w)
     else
       let mark = \<not> is_odp inp \<and> \<not> is_contig inp \<and> \<not> is_pa inp \<and> \<not> is_dm inp;
           (err, w1) = (if mark then dontfork_op ops (rin_addr inp) (rin_length inp) w else (0, w))
       in if err \<noteq> 0 then (None, w1)
          else
            let (mr, w2) = (case exp of
                  Some f \<Rightarrow> f inp w1
                | None \<Rightarrow> reg_mr_op ops (rin_pd inp) (rin_addr inp) (rin_length inp) (rin_exp_access inp) w1)
            in case mr of
                 Some m \<Rightarrow> (Some (fill_mr inp m), w2)
               | None \<Rightarrow>
                   (None, if \<not> is_odp inp \<and> \<not> is_contig inp \<and> \<not> is_pa inp
                          then snd (dofork_op ops (rin_addr inp) (rin_length inp) w2) else w2))"

text \<open>
  The extra room behind the application's buffer: one routing header, a slot per path and one
  for the last message, and the two buffers of the reports.
\<close>

definition extra_length :: u64 where
  "extra_length = of_nat (MPRUD_GRH_SIZE + (MPRUD_GRH_SIZE + MPRUD_DEFAULT_MTU) * (MPRUD_NUM_PATH + 1)
     + MPRUD_SEND_BUF_SIZE + MPRUD_RECV_BUF_SIZE)"

text \<open>\<^verbatim>\<open>__ibv_exp_reg_mr\<close>; the caller's structure, whose length it changes, is returned too.\<close>

definition ibv_exp_reg_mr :: "'w verbs \<Rightarrow> ibv_exp_reg_mr_in \<Rightarrow> 'w mprud_state \<Rightarrow>
    (ibv_mr option \<times> ibv_exp_reg_mr_in \<times> 'w mprud_state) outcome" where
  "ibv_exp_reg_mr ops inp s =
    (case drv_exp_reg_mr_op ops of
       None \<Rightarrow> ret (None, inp, s)
     | Some f \<Rightarrow>
         case mprud_init_ctx s of (r, s1) \<Rightarrow>
         if r \<noteq> 0 then ret (None, inp, s1)
         else
           let inp1 = inp\<lparr>rin_length := rin_length inp + extra_length\<rparr>
           in case common_reg_mr ops (Some f) inp1 (world s1) of (mr, w) \<Rightarrow>
              bindC (deref mr) (\<lambda>m.
              ret (Some m, inp1, mprud_set_outer_buffer (mr_addr m) (ucast (mr_length m)) (s1\<lparr>world := w\<rparr>))))"

definition ibv_reg_mr :: "'w verbs \<Rightarrow> ibv_pd \<Rightarrow> u64 \<Rightarrow> u64 \<Rightarrow> int \<Rightarrow> 'w mprud_state \<Rightarrow>
    ibv_mr option \<times> 'w mprud_state" where
  "ibv_reg_mr ops pd addr len access s =
    (let inp = \<lparr>rin_pd = pd, rin_addr = addr, rin_length = len, rin_exp_access = word_of_int access,
          rin_comp_mask = 0, rin_create_flags = 0, rin_dm = None\<rparr>
     in case common_reg_mr ops None inp (world s) of (mr, w) \<Rightarrow> (mr, s\<lparr>world := w\<rparr>))"

subsection \<open>Protection domains\<close>

definition ibv_alloc_pd :: "'w verbs \<Rightarrow> nat \<Rightarrow> 'w mprud_state \<Rightarrow> ibv_pd option \<times> 'w mprud_state" where
  "ibv_alloc_pd ops context s =
    (case alloc_pd_op ops context (world s) of (pd, w) \<Rightarrow>
       (map_option (\<lambda>p. p\<lparr>pd_context := context\<rparr>) pd, snd (mprud_init_ctx (s\<lparr>world := w\<rparr>))))"

subsection \<open>Address handles of the paths\<close>

text \<open>
  The addresses of the paths. \<^verbatim>\<open>inet_pton\<close> of the C library reads an IPv6 address;
  the model reads the full form, eight groups of four digits, which is the form they have.
\<close>

definition REMOTE_GIDS :: "string list" where
  "REMOTE_GIDS = [''0000:0000:0000:0000:0000:ffff:0a00:6503'', ''0000:0000:0000:0000:0000:ffff:0a00:6504'',
     ''0000:0000:0000:0000:0000:ffff:0a00:6505'', ''0000:0000:0000:0000:0000:ffff:0a00:6502'']"

definition hex_digit :: "char \<Rightarrow> nat option" where
  "hex_digit c =
    (let n = of_char c :: nat
     in if 48 \<le> n \<and> n \<le> 57 then Some (n - 48)
        else if 97 \<le> n \<and> n \<le> 102 then Some (n - 87)
        else if 65 \<le> n \<and> n \<le> 70 then Some (n - 55) else None)"

definition hex_byte :: "char \<Rightarrow> char \<Rightarrow> u8 option" where
  "hex_byte c d = (case (hex_digit c, hex_digit d) of
     (Some a, Some b) \<Rightarrow> Some (of_nat (16 * a + b)) | _ \<Rightarrow> None)"

fun inet_pton6 :: "string \<Rightarrow> u8 list option" where
  "inet_pton6 [a, b, c, d] = (case (hex_byte a b, hex_byte c d) of
     (Some x, Some y) \<Rightarrow> Some [x, y] | _ \<Rightarrow> None)"
| "inet_pton6 (a # b # c # d # e # rest) =
    (if e = CHR '':'' then
       (case (hex_byte a b, hex_byte c d, inet_pton6 rest) of
          (Some x, Some y, Some r) \<Rightarrow> Some (x # y # r) | _ \<Rightarrow> None)
     else None)"
| "inet_pton6 _ = None"

definition path_ah_attr :: "u8 list \<Rightarrow> ibv_ah_attr" where
  "path_ah_attr gid = \<lparr>ah_grh = \<lparr>grh_dgid = gid, grh_flow_label = 0, grh_sgid_index = 5,
       grh_hop_limit = 0xFF, grh_traffic_class = 106\<rparr>,
     ah_dlid = 0, ah_sl = 3, ah_src_path_bits = 0, ah_static_rate = 0, ah_is_global = 1, ah_port_num = 1\<rparr>"

text \<open>
  The test after \<^verbatim>\<open>ibv_create_ah\<close> looks at the address of the attribute
  structure, which is never null, so a handle that could not be created is stored as null.
\<close>

definition create_path_ah :: "'w verbs \<Rightarrow> ibv_pd \<Rightarrow> nat \<times> u8 list \<Rightarrow> 'w mprud_state \<Rightarrow> 'w mprud_state" where
  "create_path_ah ops pd p s =
    (case p of (i, gid) \<Rightarrow> case create_ah_op ops pd (path_ah_attr gid) (world s) of (ah, w) \<Rightarrow>
       upd_ctx (\<lambda>c. c\<lparr>ah_list := (ah_list c)(i := ah)\<rparr>) (s\<lparr>world := w\<rparr>))"

definition mprud_create_ah_list :: "'w verbs \<Rightarrow> ibv_pd \<Rightarrow> 'w mprud_state \<Rightarrow> (int \<times> 'w mprud_state) outcome" where
  "mprud_create_ah_list ops pd s =
    ret (SUCCESS, fold (create_path_ah ops pd)
      (map (\<lambda>i. (i, the (inet_pton6 (REMOTE_GIDS ! i)))) [0..<MPRUD_NUM_PATH]) s)"

subsection \<open>Queue pairs of the paths\<close>

definition create_ud_qp :: "'w verbs \<Rightarrow> ibv_pd \<Rightarrow> ibv_qp_init_attr \<times> 'w mprud_state \<Rightarrow>
    ibv_qp option \<times> ibv_qp_init_attr \<times> 'w mprud_state" where
  "create_ud_qp ops pd p =
    (case p of (attr, s) \<Rightarrow>
     case create_cq_op ops (pd_context pd) (send_size (mpctx s) * 2) (world s) of (scq, w1) \<Rightarrow>
     case create_cq_op ops (pd_context pd) (recv_size (mpctx s) * 2) w1 of (rcq, w2) \<Rightarrow>
     let attr1 = attr\<lparr>ia_send_cq := scq, ia_recv_cq := rcq, ia_qp_type := IBV_QPT_UD\<rparr>
     in case create_qp_op ops pd attr1 w2 of
          (Some (q, attr2), w3) \<Rightarrow> (Some q, attr2, s\<lparr>world := w3\<rparr>)
        | (None, w3) \<Rightarrow> (None, attr1, s\<lparr>world := w3\<rparr>))"

definition create_path_qp :: "'w verbs \<Rightarrow> ibv_pd \<Rightarrow> nat \<Rightarrow> ibv_qp_init_attr \<times> 'w mprud_state \<Rightarrow>
    ibv_qp_init_attr \<times> 'w mprud_state" where
  "create_path_qp ops pd i p =
    (case create_ud_qp ops pd p of (q, attr, s) \<Rightarrow>
       (attr, upd_ctx (\<lambda>c. c\<lparr>inner_qps := (inner_qps c)(i := q)\<rparr>) s))"

definition mprud_create_inner_qps :: "'w verbs \<Rightarrow> ibv_pd \<Rightarrow> ibv_qp_init_attr \<Rightarrow> 'w mprud_state \<Rightarrow>
    (int \<times> 'w mprud_state) outcome" where
  "mprud_create_inner_qps ops pd init s =
    (let attr = init\<lparr>ia_cap := (ia_cap init)\<lparr>max_send_wr := word_of_int (send_size (mpctx s)),
                max_recv_wr := word_of_int (recv_size (mpctx s))\<rparr>\<rparr>
     in case create_ud_qp ops pd (fold (create_path_qp ops pd) [0..<MPRUD_NUM_PATH] (attr, s)) of
          (q, _, s1) \<Rightarrow> ret (SUCCESS, upd_mgr (\<lambda>m. m\<lparr>report_qp := q\<rparr>) s1))"

definition fill_qp :: "ibv_pd \<Rightarrow> ibv_qp_init_attr \<Rightarrow> ibv_qp \<Rightarrow> ibv_qp" where
  "fill_qp pd init q = q\<lparr>qp_qp_context := ia_qp_context init, qp_pd := Some pd,
     qp_send_cq := ia_send_cq init, qp_recv_cq := ia_recv_cq init, qp_srq := ia_srq init,
     qp_qp_type := ia_qp_type init, qp_state := IBV_QPS_RESET, qp_events_completed := 0\<rparr>"

definition ibv_create_qp :: "'w verbs \<Rightarrow> ibv_pd \<Rightarrow> ibv_qp_init_attr \<Rightarrow> 'w mprud_state \<Rightarrow>
    (ibv_qp option \<times> ibv_qp_init_attr \<times> 'w mprud_state) outcome" where
  "ibv_create_qp ops pd init s =
    (case create_qp_op ops pd init (world s) of (r, w) \<Rightarrow>
     let (qp, init1) = (case r of Some (q, a) \<Rightarrow> (Some (fill_qp pd a q), a) | None \<Rightarrow> (None, init))
     in bindC (mprud_create_ah_list ops pd (s\<lparr>world := w\<rparr>)) (\<lambda>(r1, s1).
        if r1 \<noteq> 0 then ret (None, init1, s1)
        else bindC (mprud_create_inner_qps ops pd init1 s1) (\<lambda>(r2, s2).
          if r2 \<noteq> 0 then ret (None, init1, s2) else ret (qp, init1, s2))))"

subsection \<open>State changes\<close>

text \<open>One call of the driver; the loops over the paths stop at the first that fails.\<close>

definition modify_device :: "'w verbs \<Rightarrow> ibv_qp option \<Rightarrow> ibv_qp_attr \<Rightarrow> int \<Rightarrow> 'w mprud_state \<Rightarrow>
    (int \<times> 'w mprud_state) outcome" where
  "modify_device ops qp attr am s =
    bindC (deref qp) (\<lambda>q. case modify_qp_op ops q attr am (world s) of (r, w) \<Rightarrow> ret (r, s\<lparr>world := w\<rparr>))"

definition modify_paths :: "'w verbs \<Rightarrow> ibv_qp_attr \<Rightarrow> int \<Rightarrow> 'w mprud_state \<Rightarrow>
    (int \<times> 'w mprud_state) outcome" where
  "modify_paths ops attr am s =
    bindC (for_each (\<lambda>i s. bindC (modify_device ops (inner_qps (mpctx s) i) attr am s) (\<lambda>(r, s').
        ret (if r \<noteq> 0 then Return (FAILURE, s') else Next s'))) [0..<MPRUD_NUM_PATH] s)
      (\<lambda>x. ret (flow_result (\<lambda>s'. (SUCCESS, s')) x))"

definition mprud_modify_report_qp :: "'w verbs \<Rightarrow> ibv_qp option \<Rightarrow> ibv_qp_attr \<Rightarrow> 'w mprud_state \<Rightarrow>
    (int \<times> 'w mprud_state) outcome" where
  "mprud_modify_report_qp ops qp attr s =
    bindC (modify_device ops qp attr
        (IBV_QP_STATE OR IBV_QP_PKEY_INDEX OR IBV_QP_PORT OR IBV_QP_QKEY) s) (\<lambda>(r, s1).
    if r \<noteq> 0 then ret (FAILURE, s1) else
    bindC (modify_device ops qp (zero_qp_attr\<lparr>attr_qp_state := IBV_QPS_RTR\<rparr>) IBV_QP_STATE s1) (\<lambda>(r, s2).
    if r \<noteq> 0 then ret (FAILURE, s2) else
    bindC (modify_device ops qp (zero_qp_attr\<lparr>attr_qp_state := IBV_QPS_RTS, attr_sq_psn := 0\<rparr>)
        (IBV_QP_STATE OR IBV_QP_SQ_PSN) s2) (\<lambda>(r, s3).
    ret (if r \<noteq> 0 then FAILURE else SUCCESS, s3))))"

definition mprud_modify_qp :: "'w verbs \<Rightarrow> ibv_qp_attr \<Rightarrow> 'w mprud_state \<Rightarrow> (int \<times> 'w mprud_state) outcome" where
  "mprud_modify_qp ops attr s =
    (if attr_qp_state attr = IBV_QPS_INIT then
       let iqp_attr = attr\<lparr>attr_qkey := 0x22222222, attr_pkey_index := 0\<rparr>
       in bindC (modify_paths ops iqp_attr
              (IBV_QP_STATE OR IBV_QP_PKEY_INDEX OR IBV_QP_PORT OR IBV_QP_QKEY) s) (\<lambda>(r, s1).
          if r \<noteq> 0 then ret (FAILURE, s1) else
          bindC (mprud_modify_report_qp ops (report_qp (mp_manager s1)) iqp_attr s1) (\<lambda>(r', s2).
          ret (if r' \<noteq> 0 then FAILURE else SUCCESS, s2)))
     else if attr_qp_state attr = IBV_QPS_RTR then modify_paths ops attr IBV_QP_STATE s
     else if attr_qp_state attr = IBV_QPS_RTS then
       modify_paths ops attr (IBV_QP_STATE OR IBV_QP_SQ_PSN) s
     else ret (SUCCESS, s))"

definition ibv_modify_qp :: "'w verbs \<Rightarrow> ibv_qp \<Rightarrow> ibv_qp_attr \<Rightarrow> int \<Rightarrow> 'w mprud_state \<Rightarrow>
    (int \<times> ibv_qp \<times> 'w mprud_state) outcome" where
  "ibv_modify_qp ops qp attr am s =
    bindC (modify_device ops (Some qp) attr am s) (\<lambda>(r, s1).
    if r \<noteq> 0 then ret (r, qp, s1) else
    let qp1 = (if am AND IBV_QP_STATE \<noteq> 0 then qp\<lparr>qp_state := attr_qp_state attr\<rparr> else qp)
    in bindC (mprud_modify_qp ops attr s1) (\<lambda>(r', s2).
       if r' \<noteq> 0 then ret (r', qp1, s2)
       else ret (0, qp1, if qp_qp_type qp1 \<noteq> IBV_QPT_UD \<and> attr_qp_state attr = IBV_QPS_RTR
                         then mprud_set_dest_qp_num (attr_dest_qp_num attr) s2 else s2)))"

subsection \<open>Tearing down\<close>

definition destroy_qp :: "'w verbs \<Rightarrow> ibv_qp option \<Rightarrow> 'w mprud_state \<Rightarrow> (int \<times> 'w mprud_state) outcome" where
  "destroy_qp ops qp s =
    bindC (deref qp) (\<lambda>q. case destroy_qp_op ops q (world s) of (r, w) \<Rightarrow> ret (r, s\<lparr>world := w\<rparr>))"

definition mprud_destroy_inner_qps :: "'w verbs \<Rightarrow> 'w mprud_state \<Rightarrow> (int \<times> 'w mprud_state) outcome" where
  "mprud_destroy_inner_qps ops s =
    bindC (for_each (\<lambda>i s. case inner_qps (mpctx s) i of
          None \<Rightarrow> ret (Next s)
        | Some q \<Rightarrow> bindC (destroy_qp ops (Some q) s) (\<lambda>(r, s').
            ret (if r \<noteq> 0 then Return (FAILURE, s') else Next s'))) [0..<MPRUD_NUM_PATH] s) (\<lambda>x.
    case x of
      Return r \<Rightarrow> ret r
    | Next s1 \<Rightarrow> bindC (destroy_qp ops (report_qp (mp_manager s1)) s1) (\<lambda>(_, s2). ret (SUCCESS, s2)))"

definition mprud_destroy_ah_list :: "'w verbs \<Rightarrow> 'w mprud_state \<Rightarrow> (int \<times> 'w mprud_state) outcome" where
  "mprud_destroy_ah_list ops s =
    bindC (for_each (\<lambda>i s. case ah_list (mpctx s) i of
          None \<Rightarrow> ret (Next s)
        | Some h \<Rightarrow> (case destroy_ah_op ops h (world s) of (r, w) \<Rightarrow>
            ret (if r \<noteq> 0 then Return (FAILURE, s\<lparr>world := w\<rparr>) else Next (s\<lparr>world := w\<rparr>))))
        [0..<MPRUD_NUM_PATH] s)
      (\<lambda>x. ret (flow_result (\<lambda>s'. (SUCCESS, s')) x))"

definition mprud_destroy_resources :: "'w verbs \<Rightarrow> 'w mprud_state \<Rightarrow> (int \<times> 'w mprud_state) outcome" where
  "mprud_destroy_resources ops s =
    bindC (mprud_destroy_inner_qps ops s) (\<lambda>(r, s1).
    if r \<noteq> 0 then ret (FAILURE, s1) else
    bindC (mprud_destroy_ah_list ops s1) (\<lambda>(r', s2).
    if r' \<noteq> 0 then ret (FAILURE, s2) else ret (SUCCESS, s2)))"

definition ibv_dealloc_pd :: "'w verbs \<Rightarrow> ibv_pd \<Rightarrow> 'w mprud_state \<Rightarrow> (int \<times> 'w mprud_state) outcome" where
  "ibv_dealloc_pd ops pd s =
    bindC (mprud_destroy_resources ops s) (\<lambda>(_, s1).
    case dealloc_pd_op ops pd (world s1) of (r, w) \<Rightarrow> ret (r, s1\<lparr>world := w\<rparr>))"

end
