(* ===== verification/Mprud_Setup_Facts.thy ===== *)
theory Mprud_Setup_Facts
  imports Mprud_Setup Mprud_Post_Facts
begin

section \<open>Properties of the setup\<close>

subsection \<open>The registered buffer\<close>

lemma extra_length_eq: "extra_length = 20792"
  by (simp add: extra_length_def MPRUD_GRH_SIZE_def MPRUD_DEFAULT_MTU_def MPRUD_NUM_PATH_def
      MPRUD_SEND_BUF_SIZE_def MPRUD_RECV_BUF_SIZE_def)

lemma common_reg_mr_length:
  assumes "common_reg_mr ops exp inp w = (Some m, w')" and "rin_exp_access inp AND IBV_EXP_ACCESS_RELAXED = 0"
  shows "mr_length m = rin_length inp"
  using assms by (auto simp: common_reg_mr_def Let_def fill_mr_def split: if_splits prod.splits option.splits)

lemma exp_reg_mr_eq_ret:
  assumes "ibv_exp_reg_mr ops inp s = ret (mr, inp', s')" and "drv_exp_reg_mr_op ops \<noteq> None"
  obtains f m w where "drv_exp_reg_mr_op ops = Some f" "mr = Some m"
    "inp' = inp\<lparr>rin_length := rin_length inp + 20792\<rparr>"
    "common_reg_mr ops (Some f) inp' (world s) = (Some m, w)"
    "s' = mprud_set_outer_buffer (mr_addr m) (ucast (mr_length m)) ((snd (mprud_init_ctx s))\<lparr>world := w\<rparr>)"
  using assms
  by (auto simp: ibv_exp_reg_mr_def mprud_init_ctx_def SUCCESS_def Let_def bindC_eq_ret extra_length_eq
      split: option.splits prod.splits)

lemma unat_u64_of:
  assumes "unat (a :: u64) + k < 2 ^ 64"
  shows "unat (a + of_nat k) = unat a + k"
proof -
  have "unat (of_nat k :: u64) = k" using assms by (intro unat_of_nat_u64) simp
  with assms show ?thesis by (subst unat_add_lem [THEN iffD1]) simp_all
qed

text \<open>The layer's buffers, counted back from the end of the region as the code sees it.\<close>

lemma back_from_end:
  fixes a :: u64 and len :: u32
  assumes "k \<le> unat len" and "0 < k" and "unat a + unat len \<le> 2 ^ 64"
  shows "unat (a + ucast len - of_nat k) = unat a + unat len - k"
proof -
  have "(ucast len :: u64) = of_nat (unat len)" by simp
  then have "a + ucast len - of_nat k = a + of_nat (unat len - k)"
    using assms(1) by (simp add: of_nat_diff)
  moreover have "unat (a + of_nat (unat len - k)) = unat a + (unat len - k)"
    using assms by (intro unat_u64_of) simp
  ultimately show ?thesis using assms(1) by (simp add: add_diff_eq)
qed

lemma set_outer_buffer_bufs:
  fixes s :: "'w mprud_state"
  assumes "20752 \<le> unat len" and "unat a + unat len \<le> 2 ^ 64"
  defines "b \<equiv> bufs (mpctx (mprud_set_outer_buffer a len s))"
  shows "unat (buf_recv b) = unat a + unat len - 56" "unat (buf_send b) = unat a + unat len - 72"
    and "unat (buf_last b) = unat a + unat len - 4208" "unat (buf_sub b) = unat a + unat len - 20752"
  using back_from_end [of 56 len a] back_from_end [of 72 len a] back_from_end [of 4208 len a]
    back_from_end [of 20752 len a] assms(1,2)
  by (simp_all add: b_def mprud_set_outer_buffer_def Let_def MPRUD_RECV_BUF_SIZE_def MPRUD_GRH_SIZE_def
      MPRUD_SEND_BUF_SIZE_def MPRUD_DEFAULT_MTU_def MPRUD_NUM_PATH_def)

text \<open>
  C15: a registration through the library of a region whose length with the 20792 added bytes is
  below \<open>2 ^ 32\<close> (at or beyond, the layer's buffers lie among the application's bytes:
  \<open>exp_reg_truncates\<close>), which lies within the address space and is not registered with
  \<^verbatim>\<open>IBV_EXP_ACCESS_RELAXED\<close> (which leaves length and address to the driver), leaves the
  application's bytes alone: the four slots
  for last packets, the buffer for the last message and the two report buffers lie one after
  the other behind the application's part of the region, with a header's room before them, and
  end with the region.
\<close>

theorem exp_reg_layout:
  assumes "ibv_exp_reg_mr ops inp s = ret (Some m, inp', s')"
    and "rin_exp_access inp AND IBV_EXP_ACCESS_RELAXED = 0"
    and "unat (rin_length inp) + 20792 < 2 ^ 32"
    and "unat (mr_addr m) + unat (rin_length inp) + 20792 \<le> 2 ^ 64"
  shows "unat (mr_length m) = unat (rin_length inp) + 20792 \<and>
    (let b = bufs (mpctx s')
     in unat (buf_sub b) = unat (mr_addr m) + unat (rin_length inp) + 40 \<and>
        unat (buf_last b) = unat (buf_sub b) + MPRUD_NUM_PATH * (MPRUD_DEFAULT_MTU + MPRUD_GRH_SIZE) \<and>
        unat (buf_send b) = unat (buf_last b) + (MPRUD_DEFAULT_MTU + MPRUD_GRH_SIZE) \<and>
        unat (buf_recv b) = unat (buf_send b) + MPRUD_SEND_BUF_SIZE \<and>
        unat (buf_recv b) + MPRUD_RECV_BUF_SIZE = unat (mr_addr m) + unat (mr_length m))"
proof -
  have "drv_exp_reg_mr_op ops \<noteq> None"
    using assms(1) by (auto simp: ibv_exp_reg_mr_def split: option.splits)
  from assms(1) this obtain f w where c: "common_reg_mr ops (Some f) inp' (world s) = (Some m, w)"
    "inp' = inp\<lparr>rin_length := rin_length inp + 20792\<rparr>"
    "s' = mprud_set_outer_buffer (mr_addr m) (ucast (mr_length m)) ((snd (mprud_init_ctx s))\<lparr>world := w\<rparr>)"
    by (rule exp_reg_mr_eq_ret) simp
  have len: "unat (mr_length m) = unat (rin_length inp) + 20792"
    using common_reg_mr_length [OF c(1)] assms(2,3) unat_u64_of [of "rin_length inp" 20792] by (simp add: c(2))
  then have len32: "unat (ucast (mr_length m) :: u32) = unat (rin_length inp) + 20792"
    using assms(3) by (simp add: unsigned_ucast_eq take_bit_eq_mod)
  show ?thesis
    using set_outer_buffer_bufs [of "ucast (mr_length m)" "mr_addr m" "(snd (mprud_init_ctx s))\<lparr>world := w\<rparr>"]
      assms(4) len
    by (simp add: c(3) len32 Let_def MPRUD_RECV_BUF_SIZE_def MPRUD_GRH_SIZE_def
        MPRUD_SEND_BUF_SIZE_def MPRUD_DEFAULT_MTU_def MPRUD_NUM_PATH_def)
qed

definition state_code :: "qp_state \<Rightarrow> u32" where
  "state_code st = (case st of IBV_QPS_RESET \<Rightarrow> 0 | IBV_QPS_INIT \<Rightarrow> 1 | IBV_QPS_RTR \<Rightarrow> 2 | IBV_QPS_RTS \<Rightarrow> 3 | _ \<Rightarrow> 4)"

text \<open>A driver that accepts everything and puts regions at 1 MB, for examples.\<close>

definition easy_verbs :: "(nat \<times> u32) list verbs" where
  "easy_verbs = \<lparr>alloc_pd_op = (\<lambda>c w. (Some \<lparr>pd_context = c, pd_handle = 0\<rparr>, w)),
     dealloc_pd_op = (\<lambda>_ w. (0, w)),
     drv_exp_reg_mr_op = Some (\<lambda>i w. (Some \<lparr>mr_context = 0, mr_pd = None, mr_addr = 0x100000,
       mr_length = 0, mr_handle = 1, mr_lkey = 7, mr_rkey = 8\<rparr>, w)),
     reg_mr_op = (\<lambda>_ _ _ _ w. (None, w)), dontfork_op = (\<lambda>_ _ w. (0, w)), dofork_op = (\<lambda>_ _ w. (0, w)),
     create_cq_op = (\<lambda>_ n w. (Some (nat n), w)),
     create_qp_op = (\<lambda>_ a w. (Some (zero_qp\<lparr>qp_handle := length w, qp_send_cq := ia_send_cq a,
       qp_recv_cq := ia_recv_cq a, qp_qp_type := ia_qp_type a\<rparr>, a), w @ [(length w, 0)])),
     modify_qp_op = (\<lambda>q a _ w. (0, w @ [(qp_handle q, state_code (attr_qp_state a))])),
     destroy_qp_op = (\<lambda>_ w. (0, w)), create_ah_op = (\<lambda>_ _ w. (Some 3, w)), destroy_ah_op = (\<lambda>_ w. (0, w))\<rparr>"

definition sample_reg :: "u64 \<Rightarrow> ibv_exp_reg_mr_in" where
  "sample_reg len = \<lparr>rin_pd = \<lparr>pd_context = 0, pd_handle = 0\<rparr>, rin_addr = 0, rin_length = len,
     rin_exp_access = IBV_EXP_ACCESS_ALLOCATE_MR, rin_comp_mask = 0, rin_create_flags = 0, rin_dm = None\<rparr>"

lemmas access_flag_defs = IBV_EXP_ACCESS_ALLOCATE_MR_def IBV_EXP_ACCESS_ON_DEMAND_def
  IBV_EXP_ACCESS_RELAXED_def IBV_EXP_ACCESS_PHYSICAL_ADDR_def exp_access_flag_def
  is_shared_mr_def shared_mr_flags_def is_dm_def is_contig_def is_odp_def is_pa_def

lemma easy_reg: "\<exists>m s'. ibv_exp_reg_mr easy_verbs (sample_reg len) s =
    ret (Some m, (sample_reg len)\<lparr>rin_length := len + 20792\<rparr>, s') \<and> mr_addr m = 0x100000"
  by (simp add: ibv_exp_reg_mr_def easy_verbs_def mprud_init_ctx_def SUCCESS_def common_reg_mr_def
      sample_reg_def access_flag_defs fill_mr_def Let_def extra_length_eq)

theorem exp_reg_layout_witness:
  "\<exists>m s'. ibv_exp_reg_mr easy_verbs (sample_reg 4096) (boot_state (\<lambda>_. 0) []) =
      ret (Some m, (sample_reg 4096)\<lparr>rin_length := 24888\<rparr>, s') \<and>
    unat (buf_sub (bufs (mpctx s'))) = 0x100000 + 4096 + 40"
proof -
  obtain m s' where r: "ibv_exp_reg_mr easy_verbs (sample_reg 4096) (boot_state (\<lambda>_. 0) []) =
      ret (Some m, (sample_reg 4096)\<lparr>rin_length := 24888\<rparr>, s')" "mr_addr m = 0x100000"
    using easy_reg [of 4096 "boot_state (\<lambda>_. 0) []"] by auto
  from exp_reg_layout [OF r(1)] r(2) have "unat (buf_sub (bufs (mpctx s'))) = 0x100000 + 4096 + 40"
    by (simp add: sample_reg_def access_flag_defs Let_def)
  with r(1) show ?thesis by blast
qed

text \<open>
  The layer takes the length of the region as 32 bits. In a region of 4 to 8 GB it puts the
  buffer it receives reports in among the application's bytes.
\<close>

lemma exp_reg_truncates:
  assumes "ibv_exp_reg_mr ops inp s = ret (Some m, inp', s')"
    and "rin_exp_access inp AND IBV_EXP_ACCESS_RELAXED = 0"
    and "2 ^ 32 + 20752 \<le> unat (rin_length inp) + 20792" and "unat (rin_length inp) + 20792 < 2 ^ 33"
    and "unat (mr_addr m) + unat (rin_length inp) + 20792 \<le> 2 ^ 64"
  shows "unat (mr_addr m) \<le> unat (buf_recv (bufs (mpctx s'))) \<and>
    unat (buf_recv (bufs (mpctx s'))) + MPRUD_RECV_BUF_SIZE < unat (mr_addr m) + unat (rin_length inp)"
proof -
  have "drv_exp_reg_mr_op ops \<noteq> None"
    using assms(1) by (auto simp: ibv_exp_reg_mr_def split: option.splits)
  from assms(1) this obtain f w where c: "common_reg_mr ops (Some f) inp' (world s) = (Some m, w)"
    "inp' = inp\<lparr>rin_length := rin_length inp + 20792\<rparr>"
    "s' = mprud_set_outer_buffer (mr_addr m) (ucast (mr_length m)) ((snd (mprud_init_ctx s))\<lparr>world := w\<rparr>)"
    by (rule exp_reg_mr_eq_ret) simp
  have len: "unat (mr_length m) = unat (rin_length inp) + 20792"
    using common_reg_mr_length [OF c(1)] assms(2,4) unat_u64_of [of "rin_length inp" 20792] by (simp add: c(2))
  have "unat (ucast (mr_length m) :: u32) = (unat (rin_length inp) + 20792) mod 2 ^ 32"
    by (simp add: unsigned_ucast_eq take_bit_eq_mod len)
  also have "\<dots> = unat (rin_length inp) + 20792 - 2 ^ 32"
    using assms(3,4) by (subst le_mod_geq) simp_all
  finally have len32: "unat (ucast (mr_length m) :: u32) = unat (rin_length inp) + 20792 - 2 ^ 32" .
  show ?thesis
    using set_outer_buffer_bufs(1) [of "ucast (mr_length m)" "mr_addr m" "(snd (mprud_init_ctx s))\<lparr>world := w\<rparr>"]
      assms(3-5) by (simp add: c(3) len32 MPRUD_RECV_BUF_SIZE_def MPRUD_GRH_SIZE_def)
qed

lemma exp_reg_truncates_witness:
  "\<exists>m s'. ibv_exp_reg_mr easy_verbs (sample_reg 0x140000000) (boot_state (\<lambda>_. 0) []) =
      ret (Some m, (sample_reg 0x140000000)\<lparr>rin_length := 0x140005138\<rparr>, s') \<and>
    unat (buf_recv (bufs (mpctx s'))) < 0x100000 + 0x140000000"
proof -
  obtain m s' where r: "ibv_exp_reg_mr easy_verbs (sample_reg 0x140000000) (boot_state (\<lambda>_. 0) []) =
      ret (Some m, (sample_reg 0x140000000)\<lparr>rin_length := 0x140005138\<rparr>, s')" "mr_addr m = 0x100000"
    using easy_reg [of "0x140000000" "boot_state (\<lambda>_. 0) []"] by auto
  from exp_reg_truncates [OF r(1)] r(2) have "unat (buf_recv (bufs (mpctx s'))) < 0x100000 + 0x140000000"
    by (simp add: sample_reg_def access_flag_defs Let_def MPRUD_RECV_BUF_SIZE_def)
  with r(1) show ?thesis by blast
qed

subsection \<open>A registration forgets the connection\<close>

lemma no_inner_qps_faults:
  fixes s :: "'w mprud_state"
  assumes none: "inner_qps (mpctx s) = (\<lambda>_. None)" and n: "active_num (mp_manager s) = 4"
    and t: "0 \<le> post_turn (mpctx s)" and tbl: "ring_ok (table (mpctx s))"
    and sg: "swr_sg_list wr = Some g" and len: "4 \<le> unat (sge_length g)"
  shows "mprud_post_send env wr s = raise NullDeref"
proof -
  define sp where "sp = split_msg (sge_length g) 4"
  have ok: "paths_ok 4" by (simp add: paths_ok_def MPRUD_NUM_PATH_def)
  have "0 < unat (sp_iter sp)"
    using len unat_iter [OF ok, of "sge_length g"] unat_chunk_size [OF ok, of "sge_length g"]
      unat_iter_each [of "sge_length g" 4] by (simp add: sp_def Let_def)
  then have iter: "[0..<unat (sp_iter sp)] = 0 # [1..<unat (sp_iter sp)]" by (simp add: upt_rec)
  define s1 where "s1 = upd_ctx (\<lambda>c. c\<lparr>post_turn := post_turn (mpctx s) mod 4\<rparr>) s"
  have "\<exists>s2. mprud_store_wr (Some wr) None (sint (sp_iter sp)) (sint (sp_iter_each sp))
      (sint (chnk_last sp)) s1 = ret s2"
    using tbl sg n by (auto simp: mprud_store_wr_def s1_def ring_ok_def active_paths_def Let_def
        MPRUD_NUM_PATH_def index_def)
  then obtain s2 where s2: "mprud_store_wr (Some wr) None (sint (sp_iter sp)) (sint (sp_iter_each sp))
      (sint (chnk_last sp)) s1 = ret s2" by blast
  have s2_eq: "s2 = upd_table (table_push (new_entry (Some wr) None (sint (sp_iter sp))
      (sint (sp_iter_each sp)) (sint (chnk_last sp)) s1)) s1"
    using s2 by (rule mprud_store_wr_eq_ret)
  have "post_turn (mpctx s2) = post_turn (mpctx s) mod 4" "inner_qps (mpctx s2) = (\<lambda>_. None)"
    "mp_manager s2 = mp_manager s"
    by (simp_all add: s2_eq s1_def none)
  then have "send_packet env (wr\<lparr>swr_send_flags := IBV_SEND_SIGNALED\<rparr>) g sp 4 0 s2 = raise NullDeref"
    using n by (simp add: send_packet_def turn_path_def index_def s1_def MPRUD_NUM_PATH_def)
  moreover have "c_rem (post_turn (mpctx s)) 4 = ret (post_turn (mpctx s) mod 4)"
    using t by (simp add: c_rem_pos del: c_rem_eq_ret)
  ultimately show ?thesis
    using s2 n sg split_checked_ok [OF ok, of "sge_length g"]
    by (simp add: mprud_post_send_def Let_def iter [unfolded sp_def] sp_def s1_def del: upt_conv_Cons c_rem_eq_ret)
qed

text \<open>
  A registration through the library starts the layer afresh: the queue pairs of the paths
  are forgotten, and the next send of at least one byte per path follows a null pointer,
  whatever was connected before.
\<close>

lemma exp_reg_disconnects:
  assumes "ibv_exp_reg_mr ops inp s = ret (mr, inp', s')" and "drv_exp_reg_mr_op ops \<noteq> None"
    and "swr_sg_list wr = Some g" and "4 \<le> unat (sge_length g)"
  shows "mprud_post_send env wr s' = raise NullDeref"
proof -
  from assms(1,2) obtain a l w where
    s': "s' = mprud_set_outer_buffer a l ((snd (mprud_init_ctx s))\<lparr>world := w\<rparr>)"
    by (rule exp_reg_mr_eq_ret) blast
  show ?thesis
    by (rule no_inner_qps_faults [OF _ _ _ _ assms(3,4)])
      (simp_all add: s' mprud_set_outer_buffer_def Let_def mprud_init_ctx_def zero_context_def
        MPRUD_NUM_PATH_def ring_ok_def zero_table_def MPRUD_TABLE_LEN_def)
qed

lemma exp_reg_disconnects_witness:
  "\<exists>m s'. ibv_exp_reg_mr easy_verbs (sample_reg 4096) (connected []) =
      ret (Some m, (sample_reg 4096)\<lparr>rin_length := 24888\<rparr>, s') \<and>
    mprud_post_send log_env (send_of 40000) s' = raise NullDeref"
proof -
  obtain m s' where r: "ibv_exp_reg_mr easy_verbs (sample_reg 4096) (connected []) =
      ret (Some m, (sample_reg 4096)\<lparr>rin_length := 24888\<rparr>, s')"
    using easy_reg [of 4096 "connected []"] by auto
  have "drv_exp_reg_mr_op easy_verbs \<noteq> None" by (simp add: easy_verbs_def)
  with r exp_reg_disconnects [OF r, of "send_of 40000" "sample_sge\<lparr>sge_length := 40000\<rparr>" log_env]
  show ?thesis by (auto simp: send_of_def)
qed

subsection \<open>The queue pairs of the paths\<close>

text \<open>
  What the layer relies on when it creates queues, for a driver that does not run out of memory:
  \<open>cqs\<close> reads off the driver's state the completion queues there are and how many entries each
  was asked for. A new completion queue is none of those there are; the other calls keep them.
\<close>

definition creates_qps :: "'w verbs \<Rightarrow> ('w \<Rightarrow> nat \<Rightarrow> int option) \<Rightarrow> bool" where
  "creates_qps ops cqs \<longleftrightarrow> (\<forall>pd a w. \<exists>q a' w'. create_qp_op ops pd a w = (Some (q, a'), w') \<and>
     qp_send_cq q = ia_send_cq a \<and> qp_recv_cq q = ia_recv_cq a \<and> qp_qp_type q = ia_qp_type a \<and>
     cqs w \<subseteq>\<^sub>m cqs w') \<and>
   (\<forall>c n w. \<exists>h w'. create_cq_op ops c n w = (Some h, w') \<and> cqs w h = None \<and> (cqs w)(h \<mapsto> n) \<subseteq>\<^sub>m cqs w') \<and>
   (\<forall>pd a w. cqs w \<subseteq>\<^sub>m cqs (snd (create_ah_op ops pd a w)))"

text \<open>A datagram queue pair whose completion queues hold twice the outstanding requests.\<close>

definition usable_path :: "(nat \<Rightarrow> int option) \<Rightarrow> mprud_context \<Rightarrow> ibv_qp option \<Rightarrow> bool" where
  "usable_path cq c q \<longleftrightarrow> (\<exists>r sc rc. q = Some r \<and> qp_qp_type r = IBV_QPT_UD \<and>
     qp_send_cq r = Some sc \<and> cq sc = Some (send_size c * 2) \<and>
     qp_recv_cq r = Some rc \<and> cq rc = Some (recv_size c * 2))"

definition own_queues :: "ibv_qp option \<Rightarrow> nat option list" where
  "own_queues q = (case q of None \<Rightarrow> [] | Some r \<Rightarrow> [qp_send_cq r, qp_recv_cq r])"

text \<open>The completion queues of the first \<open>k\<close> paths.\<close>

definition path_queues :: "nat \<Rightarrow> mprud_context \<Rightarrow> nat option list" where
  "path_queues k c = concat (map (\<lambda>i. own_queues (inner_qps c i)) [0..<k])"

lemma usable_path_mono:
  "usable_path cq c q \<Longrightarrow> cq \<subseteq>\<^sub>m cq' \<Longrightarrow> send_size c' = send_size c \<Longrightarrow> recv_size c' = recv_size c \<Longrightarrow>
   usable_path cq' c' q"
  unfolding usable_path_def map_le_def by (metis domI)

lemma usable_queues: "usable_path cq c q \<Longrightarrow> set (own_queues q) \<subseteq> Some ` dom cq"
  by (auto simp: usable_path_def own_queues_def)

lemma fresh_sub: "A \<inter> Some ` D = {} \<Longrightarrow> D' \<subseteq> D \<Longrightarrow> A \<inter> Some ` D' = {}"
  by blast

lemma map_leD: "m \<subseteq>\<^sub>m m' \<Longrightarrow> m k = Some v \<Longrightarrow> m' k = Some v"
  by (metis domI map_le_def)

lemma map_le_fresh:
  assumes "m k = None" and "m(k \<mapsto> v) \<subseteq>\<^sub>m m'"
  shows "m \<subseteq>\<^sub>m m'"
  using assms by (auto simp: map_le_def split: if_splits) (metis domI option.distinct(1))

lemma queues_exist:
  "\<forall>i < k. usable_path cq c' (inner_qps c i) \<Longrightarrow> set (path_queues k c) \<subseteq> Some ` dom cq"
  using usable_queues by (fastforce simp: path_queues_def)

lemma create_ud_qp_usable:
  assumes "creates_qps ops cqs" and "create_ud_qp ops pd (a, s) = (q, a', s')"
  shows "usable_path (cqs (world s')) (mpctx s) q" and "distinct (own_queues q)"
    and "set (own_queues q) \<inter> Some ` dom (cqs (world s)) = {}"
    and "cqs (world s) \<subseteq>\<^sub>m cqs (world s')" and "mpctx s' = mpctx s \<and> mp_manager s' = mp_manager s"
proof -
  let ?n1 = "send_size (mpctx s) * 2" and ?n2 = "recv_size (mpctx s) * 2"
  obtain sc w1 where c1: "create_cq_op ops (pd_context pd) ?n1 (world s) = (Some sc, w1)"
    "cqs (world s) sc = None" "(cqs (world s))(sc \<mapsto> ?n1) \<subseteq>\<^sub>m cqs w1"
    using assms(1) unfolding creates_qps_def by blast
  obtain rc w2 where c2: "create_cq_op ops (pd_context pd) ?n2 w1 = (Some rc, w2)"
    "cqs w1 rc = None" "(cqs w1)(rc \<mapsto> ?n2) \<subseteq>\<^sub>m cqs w2"
    using assms(1) unfolding creates_qps_def by blast
  define b where "b = a\<lparr>ia_send_cq := Some sc, ia_recv_cq := Some rc, ia_qp_type := IBV_QPT_UD\<rparr>"
  have b: "ia_send_cq b = Some sc" "ia_recv_cq b = Some rc" "ia_qp_type b = IBV_QPT_UD" by (simp_all add: b_def)
  obtain r a2 w3 where r: "create_qp_op ops pd b w2 = (Some (r, a2), w3)"
    "qp_send_cq r = Some sc" "qp_recv_cq r = Some rc" "qp_qp_type r = IBV_QPT_UD" "cqs w2 \<subseteq>\<^sub>m cqs w3"
    using assms(1) b unfolding creates_qps_def by metis
  have e: "q = Some r" "s' = s\<lparr>world := w3\<rparr>"
    using assms(2) c1(1) c2(1) r(1) by (simp_all add: create_ud_qp_def Let_def flip: b_def)
  have le1: "cqs (world s) \<subseteq>\<^sub>m cqs w1" using c1(2,3) by (rule map_le_fresh)
  have le2: "cqs w1 \<subseteq>\<^sub>m cqs w2" using c2(2,3) by (rule map_le_fresh)
  have sc: "cqs w1 sc = Some ?n1" using c1(3) by (auto simp: map_le_def)
  have rc: "cqs w2 rc = Some ?n2" using c2(3) by (auto simp: map_le_def)
  have "cqs w3 sc = Some ?n1" "cqs w3 rc = Some ?n2"
    using map_leD [OF r(5)] map_leD [OF le2] sc rc by simp_all
  then show "usable_path (cqs (world s')) (mpctx s) q" using r by (simp add: e usable_path_def)
  have "sc \<noteq> rc" using sc c2(2) by auto
  then show "distinct (own_queues q)" using r by (simp add: e own_queues_def)
  have "cqs (world s) rc = None" using map_leD [OF le1, of rc] c2(2) by (cases "cqs (world s) rc") auto
  then show "set (own_queues q) \<inter> Some ` dom (cqs (world s)) = {}" using c1(2) r by (auto simp: e own_queues_def)
  show "cqs (world s) \<subseteq>\<^sub>m cqs (world s')"
    unfolding e using map_le_trans [OF map_le_trans [OF le1 le2] r(5)] by simp
  show "mpctx s' = mpctx s \<and> mp_manager s' = mp_manager s" by (simp add: e)
qed

lemma create_paths_usable:
  assumes "creates_qps ops cqs" and "fold (create_path_qp ops pd) [0..<k] (a, s) = (a', s')"
  shows "(\<forall>i < k. usable_path (cqs (world s')) (mpctx s) (inner_qps (mpctx s') i)) \<and>
    distinct (path_queues k (mpctx s')) \<and> set (path_queues k (mpctx s')) \<inter> Some ` dom (cqs (world s)) = {} \<and>
    cqs (world s) \<subseteq>\<^sub>m cqs (world s') \<and> send_size (mpctx s') = send_size (mpctx s) \<and>
    recv_size (mpctx s') = recv_size (mpctx s) \<and> mp_manager s' = mp_manager s"
  using assms(2)
proof (induction k arbitrary: a' s')
  case 0
  then show ?case by (simp add: path_queues_def)
next
  case (Suc k)
  obtain a1 s1 where f: "fold (create_path_qp ops pd) [0..<k] (a, s) = (a1, s1)" by fastforce
  note ih = Suc.IH [OF f]
  obtain q a2 s2 where c: "create_ud_qp ops pd (a1, s1) = (q, a2, s2)" by (metis prod_cases3)
  note q = create_ud_qp_usable [OF assms(1) c]
  have s': "s' = upd_ctx (\<lambda>c. c\<lparr>inner_qps := (inner_qps c)(k := q)\<rparr>) s2"
  proof -
    have "create_path_qp ops pd k (a1, s1) = (a', s')" using Suc.prems f by simp
    with c show ?thesis by (simp add: create_path_qp_def)
  qed
  have ctx: "inner_qps (mpctx s') = (inner_qps (mpctx s1))(k := q)" "world s' = world s2"
    "send_size (mpctx s') = send_size (mpctx s1)" "recv_size (mpctx s') = recv_size (mpctx s1)"
    "mp_manager s' = mp_manager s1" using q(5) by (simp_all add: s')
  have usable: "usable_path (cqs (world s')) (mpctx s) (inner_qps (mpctx s') i)" if "i < Suc k" for i
  proof (cases "i = k")
    case True
    show ?thesis using usable_path_mono [OF q(1) map_le_refl, of "mpctx s"] ih by (simp add: ctx True)
  next
    case False
    then have "usable_path (cqs (world s1)) (mpctx s) (inner_qps (mpctx s1) i)" using ih that by simp
    from usable_path_mono [OF this q(4) refl refl] False show ?thesis by (simp add: ctx)
  qed
  have pq: "path_queues (Suc k) (mpctx s') = path_queues k (mpctx s1) @ own_queues q"
    by (simp add: path_queues_def ctx) (intro arg_cong [where f = concat] map_cong, auto)
  have old: "set (path_queues k (mpctx s1)) \<subseteq> Some ` dom (cqs (world s1))"
    using ih by (intro queues_exist [of _ _ "mpctx s"]) simp
  have le: "dom (cqs (world s)) \<subseteq> dom (cqs (world s1))" using ih by (intro map_le_implies_dom_le) simp
  have "distinct (path_queues (Suc k) (mpctx s'))" using ih q(2,3) old by (auto simp: pq)
  moreover have "set (path_queues (Suc k) (mpctx s')) \<inter> Some ` dom (cqs (world s)) = {}"
    using ih fresh_sub [OF q(3) le] by (simp add: pq Int_Un_distrib2)
  moreover have "cqs (world s) \<subseteq>\<^sub>m cqs (world s')" unfolding ctx(2)
    using ih by (intro map_le_trans [OF _ q(4)]) simp
  ultimately show ?case using usable ih by (simp add: ctx)
qed

lemma create_ah_effect:
  "mp_manager (create_path_ah ops pd p s) = mp_manager s"
  "send_size (mpctx (create_path_ah ops pd p s)) = send_size (mpctx s)"
  "recv_size (mpctx (create_path_ah ops pd p s)) = recv_size (mpctx s)"
  by (auto simp: create_path_ah_def split: prod.splits)

lemma create_ah_queues:
  assumes "creates_qps ops cqs"
  shows "cqs (world s) \<subseteq>\<^sub>m cqs (world (create_path_ah ops pd (i, gid) s))"
proof -
  have "cqs (world s) \<subseteq>\<^sub>m cqs (snd (create_ah_op ops pd (path_ah_attr gid) (world s)))"
    using assms unfolding creates_qps_def by blast
  then show ?thesis by (simp add: create_path_ah_def case_prod_unfold)
qed

lemma create_ahs_effect:
  assumes "creates_qps ops cqs"
  shows "mp_manager (fold (create_path_ah ops pd) ps s) = mp_manager s \<and>
    send_size (mpctx (fold (create_path_ah ops pd) ps s)) = send_size (mpctx s) \<and>
    recv_size (mpctx (fold (create_path_ah ops pd) ps s)) = recv_size (mpctx s) \<and>
    cqs (world s) \<subseteq>\<^sub>m cqs (world (fold (create_path_ah ops pd) ps s))"
proof (induction ps arbitrary: s)
  case (Cons p ps)
  have "cqs (world s) \<subseteq>\<^sub>m cqs (world (create_path_ah ops pd p s))"
    using create_ah_queues [OF assms] by (cases p) simp
  then show ?case using Cons [of "create_path_ah ops pd p s"] map_le_trans by (fastforce simp: create_ah_effect)
qed simp

lemma remote_gids_parse:
  "i < MPRUD_NUM_PATH \<Longrightarrow> \<exists>b. inet_pton6 (REMOTE_GIDS ! i) =
     Some [0, 0, 0, 0, 0, 0, 0, 0, 0, 0, 0xFF, 0xFF, 0x0A, 0, 0x65, b]"
  by (auto simp: MPRUD_NUM_PATH_def less_Suc_eq numeral_eq_Suc REMOTE_GIDS_def hex_byte_def hex_digit_def)

text \<open>
  C16: when the driver creates what it is asked for, giving a new completion queue a handle that
  none of the existing ones has, creating the application's queue pair leaves
  every path and the report channel with an unreliable datagram queue pair and two completion
  queues of its own, of twice the send and the receive size: the ten queues are different from
  one another and from those there were before. It returns the application's queue pair in the
  reset state, with the type the application asked for.
\<close>

theorem create_qp_paths:
  assumes "creates_qps ops cqs"
  shows "\<exists>q a s'. ibv_create_qp ops pd init s = ret (Some q, a, s') \<and>
    qp_state q = IBV_QPS_RESET \<and> qp_qp_type q = ia_qp_type a \<and> qp_pd q = Some pd \<and>
    (\<forall>i < MPRUD_NUM_PATH. usable_path (cqs (world s')) (mpctx s) (inner_qps (mpctx s') i)) \<and>
    usable_path (cqs (world s')) (mpctx s) (report_qp (mp_manager s')) \<and>
    distinct (path_queues MPRUD_NUM_PATH (mpctx s') @ own_queues (report_qp (mp_manager s'))) \<and>
    set (path_queues MPRUD_NUM_PATH (mpctx s') @ own_queues (report_qp (mp_manager s')))
      \<inter> Some ` dom (cqs (world s)) = {} \<and>
    active_num (mp_manager s') = active_num (mp_manager s)"
proof -
  obtain q a w where outer: "create_qp_op ops pd init (world s) = (Some (q, a), w)" "cqs (world s) \<subseteq>\<^sub>m cqs w"
    using assms unfolding creates_qps_def by blast
  define s1 where "s1 = fold (create_path_ah ops pd)
      (map (\<lambda>i. (i, the (inet_pton6 (REMOTE_GIDS ! i)))) [0..<MPRUD_NUM_PATH]) (s\<lparr>world := w\<rparr>)"
  define a1 where "a1 = a\<lparr>ia_cap := (ia_cap a)\<lparr>max_send_wr := word_of_int (send_size (mpctx s1)),
      max_recv_wr := word_of_int (recv_size (mpctx s1))\<rparr>\<rparr>"
  obtain a2 s2 where f: "fold (create_path_qp ops pd) [0..<MPRUD_NUM_PATH] (a1, s1) = (a2, s2)" by fastforce
  obtain r a3 s3 where c: "create_ud_qp ops pd (a2, s2) = (r, a3, s3)" by (metis prod_cases3)
  define s' where "s' = upd_mgr (\<lambda>m. m\<lparr>report_qp := r\<rparr>) s3"
  have run: "ibv_create_qp ops pd init s = ret (Some (fill_qp pd a q), a, s')"
    by (simp add: ibv_create_qp_def outer mprud_create_ah_list_def SUCCESS_def mprud_create_inner_qps_def
        Let_def c f s'_def flip: s1_def a1_def)
  have s1: "mp_manager s1 = mp_manager s" "send_size (mpctx s1) = send_size (mpctx s)"
    "recv_size (mpctx s1) = recv_size (mpctx s)" "cqs (world s) \<subseteq>\<^sub>m cqs (world s1)"
    using create_ahs_effect [OF assms, of pd _ "s\<lparr>world := w\<rparr>"] map_le_trans [OF outer(2)]
    by (simp_all add: s1_def)
  note paths = create_paths_usable [OF assms f] and rep = create_ud_qp_usable [OF assms c]
  have old: "set (path_queues MPRUD_NUM_PATH (mpctx s2)) \<subseteq> Some ` dom (cqs (world s2))"
    using paths by (intro queues_exist [of _ _ "mpctx s1"]) simp
  have dom: "dom (cqs (world s)) \<subseteq> dom (cqs (world s1))" "dom (cqs (world s1)) \<subseteq> dom (cqs (world s2))"
    using s1(4) paths by (intro map_le_implies_dom_le; simp)+
  have s': "mpctx s' = mpctx s2" "world s' = world s3" "report_qp (mp_manager s') = r"
    "active_num (mp_manager s') = active_num (mp_manager s)" using rep(5) paths s1(1) by (simp_all add: s'_def)
  have "distinct (path_queues MPRUD_NUM_PATH (mpctx s2) @ own_queues r)"
    using paths rep(2,3) old by auto
  moreover have "set (path_queues MPRUD_NUM_PATH (mpctx s2) @ own_queues r) \<inter> Some ` dom (cqs (world s)) = {}"
    using fresh_sub [OF rep(3) order_trans [OF dom]] fresh_sub [OF _ dom(1)] paths
    by (simp add: Int_Un_distrib2)
  moreover have "usable_path (cqs (world s3)) (mpctx s) (inner_qps (mpctx s2) i)" if "i < MPRUD_NUM_PATH" for i
  proof -
    have "usable_path (cqs (world s2)) (mpctx s1) (inner_qps (mpctx s2) i)" using paths that by blast
    then show ?thesis by (rule usable_path_mono [OF _ rep(4)]) (simp_all add: s1)
  qed
  moreover have "usable_path (cqs (world s3)) (mpctx s) r"
    using paths s1(2,3) by (intro usable_path_mono [OF rep(1) map_le_refl]) simp_all
  ultimately show ?thesis
    by (intro exI [of _ "fill_qp pd a q"] exI [of _ a] exI [of _ s'] conjI [OF run])
      (simp add: s', simp add: fill_qp_def)
qed

text \<open>A driver whose state is the sizes of the completion queues there are.\<close>

definition queue_verbs :: "int list verbs" where
  "queue_verbs = \<lparr>alloc_pd_op = (\<lambda>c w. (Some \<lparr>pd_context = c, pd_handle = 0\<rparr>, w)),
     dealloc_pd_op = (\<lambda>_ w. (0, w)), drv_exp_reg_mr_op = None,
     reg_mr_op = (\<lambda>_ _ _ _ w. (None, w)), dontfork_op = (\<lambda>_ _ w. (0, w)), dofork_op = (\<lambda>_ _ w. (0, w)),
     create_cq_op = (\<lambda>_ n w. (Some (length w), w @ [n])),
     create_qp_op = (\<lambda>_ a w. (Some (zero_qp\<lparr>qp_send_cq := ia_send_cq a,
       qp_recv_cq := ia_recv_cq a, qp_qp_type := ia_qp_type a\<rparr>, a), w)),
     modify_qp_op = (\<lambda>_ _ _ w. (0, w)), destroy_qp_op = (\<lambda>_ w. (0, w)),
     create_ah_op = (\<lambda>_ _ w. (Some 3, w)), destroy_ah_op = (\<lambda>_ w. (0, w))\<rparr>"

definition queue_sizes :: "int list \<Rightarrow> nat \<Rightarrow> int option" where
  "queue_sizes w h = (if h < length w then Some (w ! h) else None)"

lemma queue_creates: "creates_qps queue_verbs queue_sizes"
  by (auto simp: creates_qps_def queue_verbs_def queue_sizes_def map_le_def nth_append)

definition sample_init :: ibv_qp_init_attr where
  "sample_init = \<lparr>ia_qp_context = 0, ia_send_cq = Some 1, ia_recv_cq = Some 2, ia_srq = None,
     ia_cap = \<lparr>max_send_wr = 1, max_recv_wr = 1, max_send_sge = 1, max_recv_sge = 1, max_inline_data = 0\<rparr>,
     ia_qp_type = IBV_QPT_RC, ia_sq_sig_all = 0\<rparr>"

theorem create_qp_paths_witness:
  "\<exists>q a s'. ibv_create_qp queue_verbs \<lparr>pd_context = 0, pd_handle = 0\<rparr> sample_init (ready_state (\<lambda>_. 0) [8, 8]) =
      ret (Some q, a, s') \<and> active_num (mp_manager s') = 4
      \<and> usable_path (queue_sizes (world s')) (mpctx (ready_state (\<lambda>_. 0) [8 :: int, 8])) (inner_qps (mpctx s') 3)
      \<and> distinct (path_queues MPRUD_NUM_PATH (mpctx s') @ own_queues (report_qp (mp_manager s')))"
  using create_qp_paths [OF queue_creates, of "\<lparr>pd_context = 0, pd_handle = 0\<rparr>" sample_init
      "ready_state (\<lambda>_. 0) [8, 8]"]
  by (auto simp: MPRUD_NUM_PATH_def)

text \<open>
  When the driver refuses every queue pair of the layer, creating the application's queue
  pair still succeeds and leaves the paths without queue pairs.
\<close>

lemma create_qp_ignores_failures:
  assumes outer: "create_qp_op ops pd init (world s) = (Some (q, a), w)"
    and refuse: "\<forall>at w. ia_qp_type at = IBV_QPT_UD \<longrightarrow> fst (create_qp_op ops pd at w) = None"
  shows "\<exists>s'. ibv_create_qp ops pd init s = ret (Some (fill_qp pd a q), a, s') \<and>
    (\<forall>i < MPRUD_NUM_PATH. inner_qps (mpctx s') i = None) \<and> report_qp (mp_manager s') = None"
proof -
  have one: "\<exists>a' s'. create_ud_qp ops pd (a, s) = (None, a', s') \<and> mpctx s' = mpctx s" for a s
  proof -
    obtain scq w1 rcq w2 where "create_cq_op ops (pd_context pd) (send_size (mpctx s) * 2) (world s) = (scq, w1)"
      "create_cq_op ops (pd_context pd) (recv_size (mpctx s) * 2) w1 = (rcq, w2)" by fastforce
    moreover obtain w3 where "create_qp_op ops pd (a\<lparr>ia_send_cq := scq, ia_recv_cq := rcq,
        ia_qp_type := IBV_QPT_UD\<rparr>) w2 = (None, w3)"
      using refuse by (metis ibv_qp_init_attr.select_convs(6) ibv_qp_init_attr.surjective
          ibv_qp_init_attr.update_convs(6) prod.collapse)
    ultimately show ?thesis by (simp add: create_ud_qp_def)
  qed
  have paths: "\<forall>i < k. inner_qps (mpctx (snd (fold (create_path_qp ops pd) [0..<k] (b, t)))) i = None" for k b t
  proof (induction k)
    case (Suc k)
    obtain a1 s1 where f: "fold (create_path_qp ops pd) [0..<k] (b, t) = (a1, s1)" by fastforce
    obtain a2 s2 where "create_ud_qp ops pd (a1, s1) = (None, a2, s2)" "mpctx s2 = mpctx s1" using one by blast
    then have "create_path_qp ops pd k (a1, s1) = (a2, upd_ctx (\<lambda>c. c\<lparr>inner_qps := (inner_qps c)(k := None)\<rparr>) s2)"
      "mpctx s2 = mpctx s1" by (simp_all add: create_path_qp_def)
    with Suc.IH show ?case by (auto simp: f less_Suc_eq)
  qed simp
  define s1 where "s1 = fold (create_path_ah ops pd)
      (map (\<lambda>i. (i, the (inet_pton6 (REMOTE_GIDS ! i)))) [0..<MPRUD_NUM_PATH]) (s\<lparr>world := w\<rparr>)"
  define a1 where "a1 = a\<lparr>ia_cap := (ia_cap a)\<lparr>max_send_wr := word_of_int (send_size (mpctx s1)),
      max_recv_wr := word_of_int (recv_size (mpctx s1))\<rparr>\<rparr>"
  obtain a2 s2 where f: "fold (create_path_qp ops pd) [0..<MPRUD_NUM_PATH] (a1, s1) = (a2, s2)" by fastforce
  obtain a3 s3 where c: "create_ud_qp ops pd (a2, s2) = (None, a3, s3)" "mpctx s3 = mpctx s2" using one by blast
  have "ibv_create_qp ops pd init s = ret (Some (fill_qp pd a q), a, upd_mgr (\<lambda>m. m\<lparr>report_qp := None\<rparr>) s3)"
    by (simp add: ibv_create_qp_def outer mprud_create_ah_list_def SUCCESS_def mprud_create_inner_qps_def
        Let_def c f flip: s1_def a1_def)
  with paths [of MPRUD_NUM_PATH a1 s1] c(2) show ?thesis by (simp add: f)
qed

lemma create_qp_ignores_failures_witness:
  "\<exists>s' q. ibv_create_qp (easy_verbs\<lparr>create_qp_op := (\<lambda>_ a w. if ia_qp_type a = IBV_QPT_UD then (None, w)
        else (Some (zero_qp, a), w))\<rparr>) \<lparr>pd_context = 0, pd_handle = 0\<rparr> sample_init (ready_state (\<lambda>_. 0) []) =
      ret (Some q, sample_init, s') \<and> inner_qps (mpctx s') 0 = None"
  using create_qp_ignores_failures [of "easy_verbs\<lparr>create_qp_op := (\<lambda>_ a w. if ia_qp_type a = IBV_QPT_UD then (None, w)
        else (Some (zero_qp, a), w))\<rparr>" "\<lparr>pd_context = 0, pd_handle = 0\<rparr>" sample_init "ready_state (\<lambda>_. 0) []"
      zero_qp sample_init "[]"]
  by (auto simp: MPRUD_NUM_PATH_def sample_init_def)

subsection \<open>State changes\<close>

text \<open>A run of modify calls on the driver, and the calls on the paths.\<close>

definition run_calls :: "'w verbs \<Rightarrow> (ibv_qp \<times> ibv_qp_attr \<times> int) list \<Rightarrow> 'w \<Rightarrow> 'w" where
  "run_calls ops = fold (\<lambda>(q, a, am) w. snd (modify_qp_op ops q a am w))"

definition path_calls :: "ibv_qp_attr \<Rightarrow> int \<Rightarrow> 'w mprud_state \<Rightarrow> (ibv_qp \<times> ibv_qp_attr \<times> int) list" where
  "path_calls attr am s = map (\<lambda>i. (the (inner_qps (mpctx s) i), attr, am)) [0..<MPRUD_NUM_PATH]"

text \<open>What a change of the application's queue pair makes of the layer's ones.\<close>

definition layer_calls :: "ibv_qp_attr \<Rightarrow> 'w mprud_state \<Rightarrow> (ibv_qp \<times> ibv_qp_attr \<times> int) list" where
  "layer_calls attr s =
    (let rq = the (report_qp (mp_manager s));
         ini = IBV_QP_STATE OR IBV_QP_PKEY_INDEX OR IBV_QP_PORT OR IBV_QP_QKEY;
         at = attr\<lparr>attr_qkey := 0x22222222, attr_pkey_index := 0\<rparr>
     in case attr_qp_state attr of
          IBV_QPS_INIT \<Rightarrow> path_calls at ini s @ [(rq, at, ini),
            (rq, zero_qp_attr\<lparr>attr_qp_state := IBV_QPS_RTR\<rparr>, IBV_QP_STATE),
            (rq, zero_qp_attr\<lparr>attr_qp_state := IBV_QPS_RTS\<rparr>, IBV_QP_STATE OR IBV_QP_SQ_PSN)]
        | IBV_QPS_RTR \<Rightarrow> path_calls attr IBV_QP_STATE s
        | IBV_QPS_RTS \<Rightarrow> path_calls attr (IBV_QP_STATE OR IBV_QP_SQ_PSN) s
        | _ \<Rightarrow> [])"

definition accepts_changes :: "'w verbs \<Rightarrow> bool" where
  "accepts_changes ops \<longleftrightarrow> (\<forall>q a am w. fst (modify_qp_op ops q a am w) = 0)"

lemma modify_device_accepted:
  "accepts_changes ops \<Longrightarrow>
    modify_device ops (Some q) a am s = ret (0, s\<lparr>world := run_calls ops [(q, a, am)] (world s)\<rparr>)"
  by (auto simp: accepts_changes_def modify_device_def run_calls_def split: prod.splits) (metis fst_conv)

lemma modify_paths_accepted:
  assumes "accepts_changes ops" and "\<forall>i < MPRUD_NUM_PATH. inner_qps (mpctx s) i \<noteq> None"
  shows "modify_paths ops attr am s = ret (SUCCESS, s\<lparr>world := run_calls ops (path_calls attr am s) (world s)\<rparr>)"
proof -
  let ?body = "\<lambda>i s. bindC (modify_device ops (inner_qps (mpctx s) i) attr am s) (\<lambda>(r, s').
        ret (if r \<noteq> 0 then Return (FAILURE, s') else Next s'))"
  have "\<forall>i \<in> set is. inner_qps (mpctx s) i \<noteq> None \<Longrightarrow> for_each ?body is s =
      ret (Next (s\<lparr>world := run_calls ops (map (\<lambda>i. (the (inner_qps (mpctx s) i), attr, am)) is) (world s)\<rparr>))" for "is" s
  proof (induction "is" arbitrary: s)
    case (Cons i "is")
    from Cons.prems obtain q where q: "inner_qps (mpctx s) i = Some q" by auto
    show ?case
      using Cons.IH [of "s\<lparr>world := run_calls ops [(q, attr, am)] (world s)\<rparr>"] Cons.prems
      by (simp add: q modify_device_accepted [OF assms(1)]) (simp add: run_calls_def)
  qed (simp add: run_calls_def)
  from this [of "[0..<MPRUD_NUM_PATH]" s] assms(2) show ?thesis
    by (simp add: modify_paths_def path_calls_def)
qed

text \<open>
  C14: when the driver accepts every change, moving the application's queue pair to a state hands
  the driver exactly these changes, in this order: the application's own; for the initial state
  the same with the layer's key on every path, then the report queue pair all the way to ready
  to send; for the two ready states the same change on every path. The remote number is taken
  over when a connected queue pair becomes ready to receive.
\<close>

theorem connect_calls:
  assumes "accepts_changes ops" and "\<forall>i < MPRUD_NUM_PATH. inner_qps (mpctx s) i \<noteq> None"
    and "report_qp (mp_manager s) \<noteq> None"
  shows "\<exists>qp' s'. ibv_modify_qp ops qp attr am s = ret (0, qp', s') \<and>
    world s' = run_calls ops ((qp, attr, am) # layer_calls attr s) (world s) \<and>
    qp' = (if am AND IBV_QP_STATE \<noteq> 0 then qp\<lparr>qp_state := attr_qp_state attr\<rparr> else qp) \<and>
    mp_manager s' = mp_manager s \<and>
    mpctx s' = (if qp_qp_type qp \<noteq> IBV_QPT_UD \<and> attr_qp_state attr = IBV_QPS_RTR
      then (mpctx s)\<lparr>dest_qp_num := attr_dest_qp_num attr\<rparr> else mpctx s)"
proof -
  obtain rq where rq: "report_qp (mp_manager s) = Some rq" using assms(3) by blast
  define s1 where "s1 = s\<lparr>world := run_calls ops [(qp, attr, am)] (world s)\<rparr>"
  have paths: "modify_paths ops a m (s1\<lparr>world := w\<rparr>) =
      ret (SUCCESS, s1\<lparr>world := run_calls ops (path_calls a m s) w\<rparr>)" for a m w
    using modify_paths_accepted [OF assms(1), of "s1\<lparr>world := w\<rparr>" a m] assms(2)
    by (simp add: s1_def path_calls_def)
  have report: "mprud_modify_report_qp ops (Some rq) a t = ret (SUCCESS, t\<lparr>world := run_calls ops
      [(rq, a, IBV_QP_STATE OR IBV_QP_PKEY_INDEX OR IBV_QP_PORT OR IBV_QP_QKEY),
       (rq, zero_qp_attr\<lparr>attr_qp_state := IBV_QPS_RTR\<rparr>, IBV_QP_STATE),
       (rq, zero_qp_attr\<lparr>attr_qp_state := IBV_QPS_RTS\<rparr>, IBV_QP_STATE OR IBV_QP_SQ_PSN)] (world t)\<rparr>)"
    for a and t :: "'a mprud_state"
    by (simp add: mprud_modify_report_qp_def modify_device_accepted [OF assms(1)] run_calls_def zero_qp_attr_def)
  have "mprud_modify_qp ops attr s1 = ret (SUCCESS, s1\<lparr>world := run_calls ops (layer_calls attr s) (world s1)\<rparr>)"
    using paths [of _ _ "world s1"] rq
    by (cases "attr_qp_state attr")
      (simp_all add: mprud_modify_qp_def layer_calls_def Let_def SUCCESS_def report run_calls_def,
        simp_all add: s1_def report run_calls_def SUCCESS_def)
  then show ?thesis
    by (simp add: ibv_modify_qp_def modify_device_accepted [OF assms(1)] SUCCESS_def Let_def
        mprud_set_dest_qp_num_def flip: s1_def) (simp add: s1_def run_calls_def)
qed

theorem connect_calls_witness:
  "\<exists>qp' s'. ibv_modify_qp easy_verbs zero_qp (zero_qp_attr\<lparr>attr_qp_state := IBV_QPS_RTR, attr_dest_qp_num := 77\<rparr>)
      IBV_QP_STATE (upd_mgr (\<lambda>m. m\<lparr>report_qp := Some sample_qp\<rparr>) (connected [])) = ret (0, qp', s') \<and>
    world s' = [(0, 2), (0, 2), (1, 2), (2, 2), (3, 2)] \<and> dest_qp_num (mpctx s') = 77"
proof -
  have "accepts_changes easy_verbs" by (simp add: accepts_changes_def easy_verbs_def)
  from connect_calls [OF this, of "upd_mgr (\<lambda>m. m\<lparr>report_qp := Some sample_qp\<rparr>) (connected [])" zero_qp
      "zero_qp_attr\<lparr>attr_qp_state := IBV_QPS_RTR, attr_dest_qp_num := 77\<rparr>" IBV_QP_STATE]
  show ?thesis
    by (auto simp: layer_calls_def path_calls_def run_calls_def Let_def easy_verbs_def state_code_def
        zero_qp_def connected_def MPRUD_NUM_PATH_def upt_rec)
qed

subsection \<open>Tearing down without a connection\<close>

text \<open>
  An application that allocates a protection domain and gives it back without having created
  a queue pair crashes: the report queue pair the layer destroys is a null pointer.
\<close>

lemma dealloc_unconnected_faults:
  "ibv_dealloc_pd ops pd (snd (ibv_alloc_pd ops c (boot_state m w))) = raise NullDeref"
  by (simp add: ibv_dealloc_pd_def mprud_destroy_resources_def mprud_destroy_inner_qps_def destroy_qp_def
      ibv_alloc_pd_def mprud_init_ctx_def boot_state_def zero_context_def zero_manager_def Let_def
      MPRUD_NUM_PATH_def upt_rec split: prod.splits)

end
