(* ===== verification/Slots.thy ===== *)
theory Slots
  imports Prelude
begin

section \<open>Allocators of slots\<close>

text \<open>
  The contract of the allocators of the mlx5 driver: an allocation returns a slot nobody holds,
  or none, and a release of a held slot gives exactly that slot back. What the system answers
  when an allocator asks it for memory is the argument \<open>e\<close> of an allocation, legal in a state
  when \<open>grants e\<close> holds there. The client holds slots only through these two calls; the lemmas
  show that the slots it holds are distinct and are those the allocator thinks are in use.
\<close>

datatype ('e, 'a) slot_op = Get 'e | Put 'a

text \<open>A client that holds a list of slots; \<open>None\<close> when it releases a slot it does not hold.\<close>

fun slot_run :: "('e \<Rightarrow> 'c \<Rightarrow> ('a option \<times> 'c) outcome) \<Rightarrow> ('a \<Rightarrow> 'c \<Rightarrow> 'c outcome) \<Rightarrow>
    ('e, 'a) slot_op list \<Rightarrow> 'a list \<times> 'c \<Rightarrow> ('a list \<times> 'c) outcome" where
  "slot_run alloc free [] p = ret p"
| "slot_run alloc free (Get e # xs) p = bindC (alloc e (snd p)) (\<lambda>(a, c).
     slot_run alloc free xs (case a of None \<Rightarrow> (fst p, c) | Some x \<Rightarrow> (x # fst p, c)))"
| "slot_run alloc free (Put a # xs) p = bindC (free a (snd p)) (\<lambda>c.
     slot_run alloc free xs (remove1 a (fst p), c))"

text \<open>The runs in which the client releases what it holds and the system answers legally.\<close>

fun slot_legal :: "('e \<Rightarrow> 'c \<Rightarrow> bool) \<Rightarrow> ('e \<Rightarrow> 'c \<Rightarrow> ('a option \<times> 'c) outcome) \<Rightarrow> ('a \<Rightarrow> 'c \<Rightarrow> 'c outcome) \<Rightarrow>
    ('e, 'a) slot_op list \<Rightarrow> 'a list \<times> 'c \<Rightarrow> bool" where
  "slot_legal grants alloc free [] p = True"
| "slot_legal grants alloc free (Get e # xs) p = (grants e (snd p) \<and>
     (\<forall>a c. alloc e (snd p) = ret (a, c) \<longrightarrow> slot_legal grants alloc free xs
       (case a of None \<Rightarrow> (fst p, c) | Some x \<Rightarrow> (x # fst p, c))))"
| "slot_legal grants alloc free (Put a # xs) p = (a \<in> set (fst p) \<and>
     (\<forall>c. free a (snd p) = ret c \<longrightarrow> slot_legal grants alloc free xs (remove1 a (fst p), c)))"

locale slot_allocator =
  fixes ok :: "'c \<Rightarrow> bool" and live :: "'c \<Rightarrow> 'a set" and grants :: "'e \<Rightarrow> 'c \<Rightarrow> bool"
    and alloc :: "'e \<Rightarrow> 'c \<Rightarrow> ('a option \<times> 'c) outcome" and free :: "'a \<Rightarrow> 'c \<Rightarrow> 'c outcome"
  assumes alloc_law: "ok c \<Longrightarrow> grants e c \<Longrightarrow> \<exists>a c'. alloc e c = ret (a, c') \<and> ok c' \<and>
      (case a of None \<Rightarrow> live c' = live c | Some x \<Rightarrow> x \<notin> live c \<and> live c' = insert x (live c))"
    and free_law: "ok c \<Longrightarrow> a \<in> live c \<Longrightarrow> \<exists>c'. free a c = ret c' \<and> ok c' \<and> live c' = live c - {a}"
begin

lemma run_held:
  assumes "ok c" and "distinct held" and "set held = live c" and "slot_legal grants alloc free xs (held, c)"
  shows "\<exists>held' c'. slot_run alloc free xs (held, c) = ret (held', c') \<and> ok c' \<and> distinct held' \<and>
    set held' = live c'"
  using assms
proof (induction xs arbitrary: held c)
  case (Cons x xs)
  show ?case
  proof (cases x)
    case (Get e)
    with Cons.prems obtain a c' where a: "alloc e c = ret (a, c')" "ok c'"
      "case a of None \<Rightarrow> live c' = live c | Some y \<Rightarrow> y \<notin> live c \<and> live c' = insert y (live c)"
      using alloc_law [of c e] by auto
    with Cons.prems Get show ?thesis
      by (cases a) (auto intro!: Cons.IH)
  next
    case (Put a)
    with Cons.prems have "a \<in> live c" by simp
    with Cons.prems obtain c' where c: "free a c = ret c'" "ok c'" "live c' = live c - {a}"
      using free_law [of c a] by auto
    with Cons.prems Put show ?thesis by (auto intro!: Cons.IH)
  qed
qed simp

end

end
