(* ===== verification/Mlx5_Dbrec.thy ===== *)
theory Mlx5_Dbrec
  imports Slots
begin

unbundle bit_operations_syntax

section \<open>Doorbell records\<close>

text \<open>
  \<^verbatim>\<open>libmlx5-41mlnx1/src/dbrec.c\<close>: a doorbell record is a cache line of a page; a
  page keeps a bit per record, set when the record is free, and the number of records in use. The
  list of pages starts with the newest. \<open>ps\<close> is the page size and \<open>cl\<close> the size of a cache
  line; \<open>buf\<close> is the address \<^verbatim>\<open>mlx5_alloc_buf\<close> returns when a page is needed,
  \<open>None\<close> when there is no memory for the page or its buffer. The mutex of the list is left out.
\<close>

record db_page =
  db_buf :: u64
  num_db :: int
  use_cnt :: int
  db_free :: "u64 list"

definition add_page :: "nat \<Rightarrow> nat \<Rightarrow> u64 option \<Rightarrow> db_page list \<Rightarrow> db_page list option" where
  "add_page ps cl buf pages =
    (let pp = ps div cl;
         nlong = (pp + 63) div 64
     in case buf of
          None \<Rightarrow> None
        | Some b \<Rightarrow> Some (\<lparr>db_buf = b, num_db = int pp, use_cnt = 0, db_free = replicate nlong (NOT 0)\<rparr> # pages))"

text \<open>The scan for a word with a free bit runs off the array when there is none.\<close>

fun first_nonzero :: "u64 list \<Rightarrow> nat outcome" where
  "first_nonzero [] = raise OutOfBounds"
| "first_nonzero (w # ws) = (if w \<noteq> 0 then ret 0 else bindC (first_nonzero ws) (\<lambda>i. ret (Suc i)))"

text \<open>\<^verbatim>\<open>ffsl\<close> of the C library: one more than the number of the lowest bit set.\<close>

definition ffsl :: "u64 \<Rightarrow> nat" where
  "ffsl w = (case find (bit w) [0..<64] of None \<Rightarrow> 0 | Some j \<Rightarrow> Suc j)"

definition claim_db :: "nat \<Rightarrow> db_page \<Rightarrow> (u64 \<times> db_page) outcome" where
  "claim_db cl page =
    (let page1 = page\<lparr>use_cnt := use_cnt page + 1\<rparr>
     in bindC (first_nonzero (db_free page1)) (\<lambda>i.
        let j = ffsl (db_free page1 ! i) - 1;
            page2 = page1\<lparr>db_free := (db_free page1)[i := db_free page1 ! i AND NOT (push_bit j 1)]\<rparr>
        in ret (db_buf page2 + of_nat ((i * 64 + j) * cl), page2)))"

text \<open>The first page with room, and the record taken from it in place.\<close>

fun claim_first :: "nat \<Rightarrow> db_page list \<Rightarrow> (u64 \<times> db_page list) option outcome" where
  "claim_first cl [] = ret None"
| "claim_first cl (page # pages) =
    (if use_cnt page < num_db page then
       bindC (claim_db cl page) (\<lambda>(db, page'). ret (Some (db, page' # pages)))
     else bindC (claim_first cl pages) (\<lambda>r. ret (map_option (\<lambda>(db, ps). (db, page # ps)) r)))"

definition mlx5_alloc_dbrec :: "nat \<Rightarrow> nat \<Rightarrow> u64 option \<Rightarrow> db_page list \<Rightarrow>
    (u64 option \<times> db_page list) outcome" where
  "mlx5_alloc_dbrec ps cl buf pages =
    bindC (claim_first cl pages) (\<lambda>r.
    case r of
      Some (db, pages') \<Rightarrow> ret (Some db, pages')
    | None \<Rightarrow>
        (case add_page ps cl buf pages of
           None \<Rightarrow> ret (None, pages)
         | Some [] \<Rightarrow> ret (None, pages)
         | Some (page # rest) \<Rightarrow>
             bindC (claim_db cl page) (\<lambda>(db, page'). ret (Some db, page' # rest))))"

definition release_db :: "nat \<Rightarrow> u64 \<Rightarrow> db_page \<Rightarrow> db_page outcome" where
  "release_db cl db page =
    (let i = unat (db - db_buf page) div cl
     in if i div 64 < length (db_free page) then
          ret (page\<lparr>db_free := (db_free page)[i div 64 := db_free page ! (i div 64) OR push_bit (i mod 64) 1],
            use_cnt := use_cnt page - 1\<rparr>)
        else raise OutOfBounds)"

text \<open>A page none of whose records is in use any more leaves the list.\<close>

fun mlx5_free_db :: "nat \<Rightarrow> nat \<Rightarrow> u64 \<Rightarrow> db_page list \<Rightarrow> db_page list outcome" where
  "mlx5_free_db ps cl db [] = ret []"
| "mlx5_free_db ps cl db (page # pages) =
    (if db AND NOT (of_nat ps - 1) = db_buf page then
       bindC (release_db cl db page) (\<lambda>page'.
       ret (if use_cnt page' = 0 then pages else page' # pages))
     else bindC (mlx5_free_db ps cl db pages) (\<lambda>r. ret (page # r)))"

subsection \<open>Records in use\<close>

definition db_bit :: "db_page \<Rightarrow> nat \<Rightarrow> bool" where
  "db_bit p k \<longleftrightarrow> bit (db_free p ! (k div 64)) (k mod 64)"

definition used :: "db_page \<Rightarrow> nat set" where
  "used p = {k. k < 64 * length (db_free p) \<and> \<not> db_bit p k}"

definition record_at :: "nat \<Rightarrow> db_page \<Rightarrow> nat \<Rightarrow> u64" where
  "record_at cl p k = db_buf p + of_nat (k * cl)"

definition geometry :: "nat \<Rightarrow> nat \<Rightarrow> bool" where
  "geometry ps cl \<longleftrightarrow> 0 < cl \<and> cl \<le> ps \<and> (\<exists>b < 32. ps = 2 ^ b)"

definition page_ok :: "nat \<Rightarrow> nat \<Rightarrow> db_page \<Rightarrow> bool" where
  "page_ok ps cl p \<longleftrightarrow> num_db p = int (ps div cl) \<and> length (db_free p) = (ps div cl + 63) div 64 \<and>
     used p \<subseteq> {..<ps div cl} \<and> int (card (used p)) = use_cnt p \<and> unat (db_buf p) mod ps = 0"

definition pages_ok :: "nat \<Rightarrow> nat \<Rightarrow> db_page list \<Rightarrow> bool" where
  "pages_ok ps cl pages \<longleftrightarrow> list_all (\<lambda>p. page_ok ps cl p \<and> 0 < use_cnt p) pages \<and> distinct (map db_buf pages)"

definition live_records :: "nat \<Rightarrow> db_page list \<Rightarrow> u64 set" where
  "live_records cl pages = (\<Union>p \<in> set pages. record_at cl p ` used p)"

text \<open>A buffer of the system is page aligned and not in use.\<close>

definition grants_page :: "nat \<Rightarrow> u64 option \<Rightarrow> db_page list \<Rightarrow> bool" where
  "grants_page ps buf pages \<longleftrightarrow>
     (\<forall>b. buf = Some b \<longrightarrow> unat b mod ps = 0 \<and> b \<notin> db_buf ` set pages)"

lemma first_nonzero_ret:
  "\<exists>w \<in> set ws. w \<noteq> 0 \<Longrightarrow> \<exists>i < length ws. first_nonzero ws = ret i \<and> ws ! i \<noteq> 0 \<and> (\<forall>k < i. ws ! k = 0)"
proof (induction ws)
  case (Cons w ws)
  show ?case
  proof (cases "w = 0")
    case True
    with Cons obtain i where "i < length ws" "first_nonzero ws = ret i" "ws ! i \<noteq> 0" "\<forall>k < i. ws ! k = 0"
      by auto
    with True show ?thesis by (intro exI [of _ "Suc i"]) (auto simp: less_Suc_eq_0_disj)
  qed auto
qed simp

lemma ffsl_bit:
  assumes "w \<noteq> 0"
  shows "ffsl w - 1 < 64 \<and> bit w (ffsl w - 1) \<and> (\<forall>k < ffsl w - 1. \<not> bit w k)"
proof -
  have "\<exists>n < 64. bit w n" using assms by (auto simp: bit_eq_iff)
  then have "find (bit w) [0..<64] \<noteq> None" by (auto simp: find_None_iff)
  then obtain j where "find (bit w) [0..<64] = Some j" by blast
  moreover from this have "j < 64 \<and> bit w j \<and> (\<forall>k < j. \<not> bit w k)"
    by (auto simp: find_Some_iff simp del: upt_conv_Cons)
  ultimately show ?thesis by (simp add: ffsl_def)
qed


lemma and_not_push_bit: "w AND NOT (2 ^ j) = unset_bit j (w :: u64)"
  by (simp add: unset_bit_eq_and_not push_bit_eq_mult)

lemma or_push_bit: "w OR 2 ^ j = set_bit j (w :: u64)"
  by (simp add: set_bit_eq_or push_bit_eq_mult)

lemma db_bit_update:
  assumes "i < length (db_free p)" and "j < 64"
  shows "db_bit (p\<lparr>db_free := (db_free p)[i := unset_bit j (db_free p ! i)]\<rparr>) k \<longleftrightarrow> k \<noteq> i * 64 + j \<and> db_bit p k"
    and "db_bit (p\<lparr>db_free := (db_free p)[i := set_bit j (db_free p ! i)]\<rparr>) k \<longleftrightarrow> k = i * 64 + j \<or> db_bit p k"
  using assms by (auto simp: db_bit_def nth_list_update bit_unset_bit_iff bit_set_bit_iff) (use div_mult_mod_eq [of k 64] in auto)

lemma claim_db_ret:
  assumes ok: "page_ok ps cl p" and room: "use_cnt p < num_db p"
  shows "\<exists>k p'. claim_db cl p = ret (record_at cl p k, p') \<and> k \<notin> used p \<and> k < ps div cl \<and>
    used p' = insert k (used p) \<and> db_buf p' = db_buf p \<and> page_ok ps cl p' \<and> use_cnt p' = use_cnt p + 1"
proof -
  have fin: "finite (used p)" by (simp add: used_def)
  have "card (used p) < ps div cl" using ok room by (simp add: page_ok_def)
  then have "\<not> {..<ps div cl} \<subseteq> used p" using card_mono [OF fin, of "{..<ps div cl}"] by auto
  then obtain m where m: "m < ps div cl" "m \<notin> used p" by auto
  have len: "ps div cl \<le> 64 * length (db_free p)" using ok by (simp add: page_ok_def)
  have mb: "bit (db_free p ! (m div 64)) (m mod 64)" "m div 64 < length (db_free p)"
    using m len by (auto simp: used_def db_bit_def)
  then have "\<exists>w \<in> set (db_free p). w \<noteq> 0" by (metis nth_mem bit_0_eq bot_apply bot_bool_def)
  then obtain i where i: "i < length (db_free p)" "first_nonzero (db_free p) = ret i" "db_free p ! i \<noteq> 0"
      "\<forall>k < i. db_free p ! k = 0" using first_nonzero_ret by blast
  define j where "j = ffsl (db_free p ! i) - 1"
  have j: "j < 64" "bit (db_free p ! i) j" "\<forall>k < j. \<not> bit (db_free p ! i) k"
    using ffsl_bit [OF i(3)] by (simp_all add: j_def)
  define k where "k = i * 64 + j"
  have k: "k \<notin> used p" "k < 64 * length (db_free p)" using i(1) j by (auto simp: k_def used_def db_bit_def)
  have "i \<le> m div 64" using i(4) mb(1) by (metis not_le bit_0_eq bot_apply bot_bool_def)
  moreover have "j \<le> m mod 64" if "i = m div 64" using that j(3) mb(1) by (metis not_le)
  moreover have "m = m div 64 * 64 + m mod 64" by simp
  ultimately have "k \<le> m" using j(1) unfolding k_def by (cases "i = m div 64") linarith+
  with m(1) have kb: "k < ps div cl" by simp
  define p' where "p' = p\<lparr>use_cnt := use_cnt p + 1, db_free := (db_free p)[i := unset_bit j (db_free p ! i)]\<rparr>"
  have claim: "claim_db cl p = ret (record_at cl p k, p')"
    by (simp add: claim_db_def i(2) Let_def and_not_push_bit record_at_def p'_def k_def j_def)
  have "db_bit p' n \<longleftrightarrow> n \<noteq> k \<and> db_bit p n" for n
    using db_bit_update(1) [OF i(1) j(1), of n] by (simp add: p'_def k_def db_bit_def)
  then have u: "used p' = insert k (used p)" using k(2) by (auto simp: used_def p'_def)
  have "page_ok ps cl p'"
    using ok u kb k(1) fin by (auto simp: page_ok_def p'_def)
  with claim k(1) kb u show ?thesis by (intro exI [of _ k] exI [of _ p']) (simp add: p'_def)
qed

text \<open>The page of a record is found from its address.\<close>

lemma record_address:
  assumes g: "geometry ps cl" and ok: "page_ok ps cl p" and k: "k < ps div cl"
  shows "unat (record_at cl p k) = unat (db_buf p) + k * cl"
    and "record_at cl p k AND NOT (of_nat ps - 1) = db_buf p"
proof -
  obtain b where b: "ps = 2 ^ b" "b < 32" and cl: "0 < cl" using g by (auto simp: geometry_def)
  have "Suc k * cl \<le> ps div cl * cl" using k by (intro mult_le_mono1) simp
  with cl have kc: "k * cl < ps" by (metis add_less_cancel_right add.commute div_times_less_eq_dividend
        less_add_same_cancel1 mult_Suc order_less_le_trans order.trans not_less)
  have "ps dvd unat (db_buf p)" using ok by (simp add: page_ok_def mod_eq_0_iff_dvd)
  then obtain d where d: "unat (db_buf p) = d * ps" by (auto simp: dvd_def mult.commute)
  have "unat (db_buf p) < 2 ^ 64" using unsigned_less [of "db_buf p", where 'a = nat] by simp
  moreover have "(2 :: nat) ^ 64 = 2 ^ (64 - b) * ps" using b by (simp flip: power_add)
  ultimately have "Suc d * ps \<le> 2 ^ 64" by (metis Suc_leI d mult_le_mono1 mult_less_cancel2)
  with kc d have top: "unat (db_buf p) + k * cl < 2 ^ 64" by simp
  then have "unat (of_nat (k * cl) :: u64) = k * cl" by (intro unat_of_nat_u64) simp
  with top show u: "unat (record_at cl p k) = unat (db_buf p) + k * cl"
    unfolding record_at_def by (subst unat_add_lem [THEN iffD1]) simp_all
  have "(of_nat ps - 1 :: u64) = mask b" by (simp add: b(1) mask_eq_exp_minus_1)
  then have "record_at cl p k AND NOT (of_nat ps - 1) = push_bit b (drop_bit b (record_at cl p k))"
    by (auto simp: bit_eq_iff bit_simps)
  also have "unat \<dots> = unat (record_at cl p k) div ps * ps"
  proof -
    have "unat (record_at cl p k) div ps * ps < 2 ^ 64"
      using div_times_less_eq_dividend [of "unat (record_at cl p k)" ps] top u by linarith
    moreover have "unat (record_at cl p k) < 2 ^ 64"
      using unsigned_less [of "record_at cl p k", where 'a = nat] by simp
    ultimately show ?thesis
      by (subst unsigned_push_bit_eq, subst unsigned_drop_bit_eq)
        (simp add: drop_bit_eq_div push_bit_eq_mult take_bit_eq_mod b(1))
  qed
  also have "\<dots> = unat (db_buf p)" using d kc by (simp add: u)
  finally show "record_at cl p k AND NOT (of_nat ps - 1) = db_buf p" by (simp add: word_unat_eq_iff)
qed

lemma record_at_inj:
  assumes "geometry ps cl" and "page_ok ps cl p" and "page_ok ps cl q" and "j < ps div cl" and "k < ps div cl"
    and "record_at cl p j = record_at cl q k"
  shows "db_buf p = db_buf q \<and> j = k"
  using record_address [OF assms(1,2,4)] record_address [OF assms(1,3,5)] assms(1,6)
  by (auto simp: geometry_def)

lemma release_db_ret:
  assumes g: "geometry ps cl" and ok: "page_ok ps cl p" and k: "k \<in> used p"
  shows "\<exists>p'. release_db cl (record_at cl p k) p = ret p' \<and> used p' = used p - {k} \<and>
    db_buf p' = db_buf p \<and> page_ok ps cl p' \<and> use_cnt p' = use_cnt p - 1"
proof -
  have kb: "k < ps div cl" "k < 64 * length (db_free p)" using ok k by (auto simp: page_ok_def used_def)
  have "record_at cl p k - db_buf p = of_nat (k * cl)" by (simp add: record_at_def)
  moreover have "unat (of_nat (k * cl) :: u64) = k * cl"
    using record_address(1) [OF g ok kb(1)] unsigned_less [of "record_at cl p k", where 'a = nat]
    by (intro unat_of_nat_u64) simp
  ultimately have i: "unat (record_at cl p k - db_buf p) div cl = k" using g by (simp add: geometry_def)
  define p' where "p' = p\<lparr>db_free := (db_free p)[k div 64 := set_bit (k mod 64) (db_free p ! (k div 64))],
      use_cnt := use_cnt p - 1\<rparr>"
  have "db_bit p' n \<longleftrightarrow> n = k \<or> db_bit p n" for n
    using db_bit_update(2) [of "k div 64" p "k mod 64" n] kb(2) by (simp add: p'_def db_bit_def)
  then have u: "used p' = used p - {k}" by (auto simp: used_def p'_def)
  have fin: "finite (used p)" by (simp add: used_def)
  then have "0 < card (used p)" using k by (auto simp: card_gt_0_iff)
  with ok u k fin have "page_ok ps cl p'" by (auto simp: page_ok_def p'_def card_Diff_singleton)
  with u kb(2) i show ?thesis by (intro exI [of _ p']) (simp add: release_db_def Let_def or_push_bit p'_def)
qed

lemma live_Cons: "live_records cl (p # ps) = record_at cl p ` used p \<union> live_records cl ps"
  by (simp add: live_records_def)

text \<open>Pages of different addresses share no records.\<close>

lemma pages_disjoint:
  assumes "geometry ps cl" and "page_ok ps cl p" and "list_all (page_ok ps cl) pages" and "db_buf p \<notin> db_buf ` set pages"
    and "k < ps div cl"
  shows "record_at cl p k \<notin> live_records cl pages"
proof
  assume "record_at cl p k \<in> live_records cl pages"
  then obtain q j where q: "q \<in> set pages" "j \<in> used q" "record_at cl p k = record_at cl q j"
    by (auto simp: live_records_def)
  with assms(3) have "page_ok ps cl q" "j < ps div cl" by (auto simp: list_all_iff page_ok_def)
  with record_at_inj [OF assms(1,2)] assms(5) q have "db_buf p = db_buf q" by blast
  with assms(4) q(1) show False by auto
qed

lemma claim_live:
  assumes g: "geometry ps cl" and ok: "page_ok ps cl p" and room: "use_cnt p < num_db p"
  shows "\<exists>a p'. claim_db cl p = ret (a, p') \<and> page_ok ps cl p' \<and> db_buf p' = db_buf p \<and> use_cnt p' = use_cnt p + 1 \<and>
    (\<exists>k < ps div cl. a = record_at cl p k) \<and> a \<notin> record_at cl p ` used p \<and>
    record_at cl p' ` used p' = insert a (record_at cl p ` used p)"
proof -
  obtain k p' where c: "claim_db cl p = ret (record_at cl p k, p')" "k \<notin> used p" "k < ps div cl"
    "used p' = insert k (used p)" "db_buf p' = db_buf p" "page_ok ps cl p'" "use_cnt p' = use_cnt p + 1"
    using claim_db_ret [OF ok room] by blast
  have "record_at cl p k \<notin> record_at cl p ` used p"
    using record_at_inj [OF g ok ok c(3)] c(2) ok by (force simp: page_ok_def)
  with c show ?thesis by (intro exI [of _ "record_at cl p k"] exI [of _ p']) (auto simp: record_at_def)
qed

lemma claim_first_law:
  assumes g: "geometry ps cl" and "pages_ok ps cl pages"
  shows "(claim_first cl pages = ret None) \<or>
    (\<exists>a pages'. claim_first cl pages = ret (Some (a, pages')) \<and> pages_ok ps cl pages' \<and>
       a \<notin> live_records cl pages \<and> live_records cl pages' = insert a (live_records cl pages) \<and>
       map db_buf pages' = map db_buf pages)"
  using assms(2)
proof (induction pages)
  case (Cons p pages)
  have ok: "page_ok ps cl p" "0 < use_cnt p" "pages_ok ps cl pages" "db_buf p \<notin> db_buf ` set pages"
      "list_all (page_ok ps cl) pages"
    using Cons.prems by (auto simp: pages_ok_def list_all_iff)
  show ?case
  proof (cases "use_cnt p < num_db p")
    case True
    obtain a p' k where a: "claim_db cl p = ret (a, p')" "page_ok ps cl p'" "db_buf p' = db_buf p"
      "use_cnt p' = use_cnt p + 1" "k < ps div cl" "a = record_at cl p k" "a \<notin> record_at cl p ` used p"
      "record_at cl p' ` used p' = insert a (record_at cl p ` used p)"
      using claim_live [OF g ok(1) True] by blast
    with pages_disjoint [OF g ok(1,5,4) a(5)] ok True Cons.prems show ?thesis
      by (auto simp: live_Cons pages_ok_def)
  next
    case False
    from Cons.IH [OF ok(3)] show ?thesis
    proof
      assume "\<exists>a pages'. claim_first cl pages = ret (Some (a, pages')) \<and> pages_ok ps cl pages' \<and>
         a \<notin> live_records cl pages \<and> live_records cl pages' = insert a (live_records cl pages) \<and>
         map db_buf pages' = map db_buf pages"
      then obtain a pages' where c: "claim_first cl pages = ret (Some (a, pages'))" "pages_ok ps cl pages'"
        "a \<notin> live_records cl pages" "live_records cl pages' = insert a (live_records cl pages)"
        "map db_buf pages' = map db_buf pages" by blast
      have buf: "db_buf p \<notin> db_buf ` set pages'" using ok(4) c(5) by (metis list.set_map)
      have "a \<in> live_records cl pages'" using c(4) by simp
      then have "a \<notin> record_at cl p ` used p"
        using pages_disjoint [OF g ok(1) _ buf] c(2) ok(1) by (auto simp: pages_ok_def page_ok_def list_all_iff)
      with c ok buf False show ?thesis by (auto simp: live_Cons pages_ok_def)
    qed (use False in simp)
  qed
qed simp

lemma used_full: "used \<lparr>db_buf = b, num_db = n, use_cnt = c, db_free = replicate m (NOT 0)\<rparr> = {}"
  by (auto simp: used_def db_bit_def bit_not_iff)

lemma alloc_dbrec_law:
  assumes g: "geometry ps cl" and ok: "pages_ok ps cl pages" and gr: "grants_page ps buf pages"
  shows "\<exists>a pages'. mlx5_alloc_dbrec ps cl buf pages = ret (a, pages') \<and> pages_ok ps cl pages' \<and>
    (case a of None \<Rightarrow> live_records cl pages' = live_records cl pages
     | Some x \<Rightarrow> x \<notin> live_records cl pages \<and> live_records cl pages' = insert x (live_records cl pages))"
  using claim_first_law [OF g ok]
proof (elim disjE exE conjE)
  assume none: "claim_first cl pages = ret None"
  show ?thesis
  proof (cases buf)
    case (Some b)
    define p where "p = \<lparr>db_buf = b, num_db = int (ps div cl), use_cnt = 0,
        db_free = replicate ((ps div cl + 63) div 64) (NOT 0)\<rparr>"
    have pok: "page_ok ps cl p" "use_cnt p < num_db p" "used p = {}" "db_buf p = b"
      using gr Some g used_full [of b "int (ps div cl)" 0]
      by (auto simp: page_ok_def p_def grants_page_def geometry_def div_greater_zero_iff)
    obtain a p' k where c: "claim_db cl p = ret (a, p')" "page_ok ps cl p'" "db_buf p' = b" "use_cnt p' = 1"
      "k < ps div cl" "a = record_at cl p k" "record_at cl p' ` used p' = {a}"
      using claim_live [OF g pok(1,2)] pok by (auto simp: p_def)
    have buf: "db_buf p \<notin> db_buf ` set pages" using gr Some pok(4) by (auto simp: grants_page_def)
    have "a \<notin> live_records cl pages"
      using pages_disjoint [OF g pok(1) _ buf c(5)] ok c(6) by (auto simp: pages_ok_def list_all_iff)
    moreover have "mlx5_alloc_dbrec ps cl buf pages = ret (Some a, p' # pages)"
      using none c(1) Some by (simp add: mlx5_alloc_dbrec_def add_page_def Let_def p_def)
    ultimately show ?thesis using c ok buf pok(4)
      by (intro exI [of _ "Some a"] exI [of _ "p' # pages"]) (auto simp: live_Cons pages_ok_def)
  qed (use none ok in \<open>simp add: mlx5_alloc_dbrec_def add_page_def Let_def\<close>)
qed (auto simp: mlx5_alloc_dbrec_def)

lemma free_db_law:
  assumes g: "geometry ps cl" and "pages_ok ps cl pages" and "a \<in> live_records cl pages"
  shows "\<exists>pages'. mlx5_free_db ps cl a pages = ret pages' \<and> pages_ok ps cl pages' \<and>
    live_records cl pages' = live_records cl pages - {a} \<and> set (map db_buf pages') \<subseteq> set (map db_buf pages)"
  using assms(2,3)
proof (induction pages)
  case (Cons p pages)
  have ok: "page_ok ps cl p" "0 < use_cnt p" "pages_ok ps cl pages" "db_buf p \<notin> db_buf ` set pages"
      "list_all (page_ok ps cl) pages"
    using Cons.prems by (auto simp: pages_ok_def list_all_iff)
  show ?case
  proof (cases "a \<in> record_at cl p ` used p")
    case True
    then obtain k where k: "k \<in> used p" "a = record_at cl p k" by blast
    have kb: "k < ps div cl" using k(1) ok(1) by (auto simp: page_ok_def)
    obtain p' where r: "release_db cl a p = ret p'" "used p' = used p - {k}" "db_buf p' = db_buf p"
      "page_ok ps cl p'" "use_cnt p' = use_cnt p - 1"
      using release_db_ret [OF g ok(1) k(1)] k(2) by blast
    have img: "record_at cl p' ` used p' = record_at cl p ` used p - {a}"
    proof -
      have "inj_on (record_at cl p) (used p)"
        using record_at_inj [OF g ok(1) ok(1)] ok(1) by (intro inj_onI) (auto simp: page_ok_def)
      from inj_on_image_set_diff [OF this, of "used p" "{k}"] k show ?thesis
        using r(2,3) by (simp add: record_at_def)
    qed
    have out: "a \<notin> live_records cl pages" using pages_disjoint [OF g ok(1,5,4) kb] k(2) by simp
    have here: "a AND NOT (of_nat ps - 1) = db_buf p" using record_address(2) [OF g ok(1) kb] k(2) by simp
    show ?thesis
    proof (cases "use_cnt p' = 0")
      case True
      then have "used p' = {}" using r(4) by (simp add: page_ok_def used_def)
      then have "record_at cl p ` used p - {a} = {}" using img by simp
      with True r here ok out show ?thesis by (auto simp: live_Cons)
    next
      case False
      with r here ok out img show ?thesis by (auto simp: live_Cons pages_ok_def)
    qed
  next
    case False
    with Cons.prems have live: "a \<in> live_records cl pages" by (simp add: live_Cons)
    then obtain q k where q: "q \<in> set pages" "k \<in> used q" "a = record_at cl q k" by (auto simp: live_records_def)
    then have "page_ok ps cl q" "k < ps div cl" using ok(5) by (auto simp: list_all_iff page_ok_def)
    then have "a AND NOT (of_nat ps - 1) = db_buf q" using record_address(2) [OF g] q(3) by simp
    then have away: "a AND NOT (of_nat ps - 1) \<noteq> db_buf p" using ok(4) q(1) by force
    from Cons.IH [OF ok(3) live] obtain pages' where f: "mlx5_free_db ps cl a pages = ret pages'" "pages_ok ps cl pages'"
      "live_records cl pages' = live_records cl pages - {a}" "set (map db_buf pages') \<subseteq> set (map db_buf pages)" by blast
    with ok away False show ?thesis by (auto simp: live_Cons pages_ok_def)
  qed
qed (simp add: live_records_def)

interpretation dbrec: slot_allocator "\<lambda>pages. geometry ps cl \<and> pages_ok ps cl pages" "live_records cl"
    "grants_page ps" "mlx5_alloc_dbrec ps cl" "mlx5_free_db ps cl" for ps cl
  using alloc_dbrec_law free_db_law by unfold_locales blast+

text \<open>
  C17: doorbell records never alias. Whatever sequence of allocations and releases of held records
  the driver makes, with buffers the system grants page aligned and unused: no step faults, the
  records held are distinct, and they are exactly those marked as in use in the pages.
\<close>

theorem dbrec_no_alias:
  assumes "geometry ps cl"
    and "slot_legal (grants_page ps) (mlx5_alloc_dbrec ps cl) (mlx5_free_db ps cl) xs ([], [])"
  shows "\<exists>held pages. slot_run (mlx5_alloc_dbrec ps cl) (mlx5_free_db ps cl) xs ([], []) = ret (held, pages) \<and>
    distinct held \<and> set held = live_records cl pages \<and> pages_ok ps cl pages"
  using dbrec.run_held [of ps cl "[]" "[]" xs] assms by (auto simp: pages_ok_def live_records_def)

theorem dbrec_no_alias_witness:
  "\<exists>pages. slot_run (mlx5_alloc_dbrec 4096 64) (mlx5_free_db 4096 64)
      [Get (Some 0x10000), Get None, Put 0x10000, Get None] ([], []) = ret ([0x10000, 0x10040], pages) \<and>
    live_records 64 pages = {0x10000, 0x10040}"
proof -
  let ?p = "\<lambda>w c. \<lparr>db_buf = 0x10000, num_db = 64, use_cnt = c, db_free = [w]\<rparr>"
  have a1: "mlx5_alloc_dbrec 4096 64 (Some 0x10000) [] = ret (Some 0x10000, [?p (- 2) 1])"
    by (code_simp; simp)
  have a2: "mlx5_alloc_dbrec 4096 64 None [?p (- 2) 1] = ret (Some 0x10040, [?p (- 4) 2])"
    by (code_simp; simp)
  have f3: "mlx5_free_db 4096 64 0x10000 [?p (- 4) 2] = ret [?p (- 3) 1]"
    by (code_simp; simp)
  have a4: "mlx5_alloc_dbrec 4096 64 None [?p (- 3) 1] = ret (Some 0x10000, [?p (- 4) 2])"
    by (code_simp; simp)
  note run = a1 a2 f3 a4
  have legal: "slot_legal (grants_page 4096) (mlx5_alloc_dbrec 4096 64) (mlx5_free_db 4096 64)
      [Get (Some 0x10000), Get None, Put 0x10000, Get None] ([], [])"
    by (simp add: run grants_page_def)
  have "\<exists>b<32. 4096 = (2::nat) ^ b" by (rule exI [of _ 12]) simp
  then have "geometry 4096 64" by (simp add: geometry_def)
  from dbrec_no_alias [OF this legal] run show ?thesis by auto
qed

end
