(* ===== verification/Mlx5_Bitmap.thy ===== *)
theory Mlx5_Bitmap
  imports Slots
begin

unbundle bit_operations_syntax

section \<open>The bitmap of a huge page\<close>

text \<open>
  \<^verbatim>\<open>libmlx5-41mlnx1/src/bitmap.h\<close> and the bitmap functions of \<^verbatim>\<open>buf.c\<close>:
  a huge page is handed out in chunks of 32 KB, one bit per chunk in words of 64 bits. The bit
  operations shift an \<^verbatim>\<open>int\<close>: a shift by 32 or more is undefined and a fault of the
  model, a shift by 31 gives the negative number whose conversion to
  \<^verbatim>\<open>unsigned long\<close> has the upper 33 bits set, as the compilers for the driver's
  platforms have it.
\<close>

subsection \<open>Bits\<close>

definition long_bit :: "u32 \<Rightarrow> u64 outcome" where
  "long_bit nr = (if unat nr mod 64 < 32 then ret (scast (push_bit (unat nr mod 64) 1 :: u32)) else raise BadShift)"

definition long_of :: "u32 \<Rightarrow> u64 list \<Rightarrow> u64 outcome" where
  "long_of nr tbl = (if unat nr div 64 < length tbl then ret (tbl ! (unat nr div 64)) else raise OutOfBounds)"

definition mlx5_set_bit :: "u32 \<Rightarrow> u64 list \<Rightarrow> u64 list outcome" where
  "mlx5_set_bit nr tbl = bindC (long_bit nr) (\<lambda>b. bindC (long_of nr tbl) (\<lambda>w.
     ret (tbl[unat nr div 64 := w OR b])))"

definition mlx5_clear_bit :: "u32 \<Rightarrow> u64 list \<Rightarrow> u64 list outcome" where
  "mlx5_clear_bit nr tbl = bindC (long_bit nr) (\<lambda>b. bindC (long_of nr tbl) (\<lambda>w.
     ret (tbl[unat nr div 64 := w AND NOT b])))"

definition mlx5_test_bit :: "u32 \<Rightarrow> u64 list \<Rightarrow> bool outcome" where
  "mlx5_test_bit nr tbl = bindC (long_bit nr) (\<lambda>b. bindC (long_of nr tbl) (\<lambda>w. ret (w AND b \<noteq> 0)))"

text \<open>The number of the lowest clear bit of 32, all ones when there is none.\<close>

definition ffs :: "u32 \<Rightarrow> nat" where
  "ffs w = (case find (bit w) [0..<32] of None \<Rightarrow> 0 | Some j \<Rightarrow> Suc j)"

definition mlx5_ffz :: "u32 \<Rightarrow> u64" where
  "mlx5_ffz w = of_nat (ffs (NOT w)) - 1"

fun mlx5_find_first_zero_bit :: "u64 list \<Rightarrow> nat \<Rightarrow> u32 \<Rightarrow> u32 outcome" where
  "mlx5_find_first_zero_bit tbl nbits result =
    (if 64 \<le> nbits then
       (case tbl of
          [] \<Rightarrow> raise OutOfBounds
        | w # ws \<Rightarrow> if NOT w \<noteq> 0 then ret (ucast (ucast result + mlx5_ffz (ucast w)))
                    else mlx5_find_first_zero_bit ws (nbits - 64) (result + 64))
     else if nbits = 0 then ret result
     else
       (case tbl of
          [] \<Rightarrow> raise OutOfBounds
        | w # ws \<Rightarrow>
            let tmp = w OR push_bit nbits (NOT 0)
            in if tmp = 0xFFFFFFFF then ret (result + of_nat nbits)
               else ret (ucast (ucast result + mlx5_ffz (ucast tmp)))))"

declare mlx5_find_first_zero_bit.simps [simp del]

subsection \<open>The bitmap\<close>

record mlx5_bitmap =
  bm_last :: u32
  bm_top :: u32
  bm_max :: u32
  bm_avail :: u32
  bm_mask :: u32
  bm_table :: "u64 list"

definition mlx5_bitmap_init :: "u32 \<Rightarrow> u32 \<Rightarrow> mlx5_bitmap" where
  "mlx5_bitmap_init num msk = \<lparr>bm_last = 0, bm_top = 0, bm_max = num, bm_avail = num, bm_mask = msk,
     bm_table = replicate ((unat num + 63) div 64) 0\<rparr>"

definition bitmap_free_range :: "u32 \<Rightarrow> int \<Rightarrow> mlx5_bitmap \<Rightarrow> mlx5_bitmap outcome" where
  "bitmap_free_range obj0 cnt bm =
    (let obj = obj0 AND (bm_max bm - 1)
     in bindC (for_each (\<lambda>i t. bindC (mlx5_clear_bit (obj + of_nat i) t) (\<lambda>t'. ret (Next t'))) [0..<nat cnt] (bm_table bm)) (\<lambda>x.
        ret (bm\<lparr>bm_table := flow_result id x, bm_last := min (bm_last bm) obj,
          bm_top := (bm_top bm + bm_max bm) AND bm_mask bm, bm_avail := bm_avail bm + word_of_int cnt\<rparr>)))"

definition bitmap_empty :: "mlx5_bitmap \<Rightarrow> bool" where
  "bitmap_empty bm \<longleftrightarrow> bm_avail bm = bm_max bm"

definition mlx5_bitmap_alloc :: "mlx5_bitmap \<Rightarrow> (u32 \<times> mlx5_bitmap) outcome" where
  "mlx5_bitmap_alloc bm =
    bindC (mlx5_find_first_zero_bit (bm_table bm) (unat (bm_max bm)) 0) (\<lambda>obj.
    bindC (if obj < bm_max bm then
             bindC (mlx5_set_bit obj (bm_table bm)) (\<lambda>t.
             ret (obj OR bm_top bm, bm\<lparr>bm_table := t, bm_last := (if obj + 1 = bm_max bm then 0 else obj + 1)\<rparr>))
           else ret (- 1, bm)) (\<lambda>(r, bm1).
    ret (r, if r \<noteq> - 1 then bm1\<lparr>bm_avail := bm_avail bm1 - 1\<rparr> else bm1)))"

definition align :: "u32 \<Rightarrow> int \<Rightarrow> u32" where
  "align val algn = ucast ((ucast val + word_of_int algn - 1 :: u64) AND NOT (word_of_int algn - 1))"

text \<open>
  \<^verbatim>\<open>find_aligned_range\<close>: the loop that skips taken starts, the loop over the rest of the
  range, and the repetition behind a taken chunk.
\<close>

definition skip_taken :: "u64 list \<Rightarrow> u32 \<Rightarrow> int \<Rightarrow> u32 \<Rightarrow> u32 outcome" where
  "skip_taken tbl nbits algn = loop (\<lambda>start.
     bindC (if start < nbits then mlx5_test_bit start tbl else ret False) (\<lambda>taken.
     ret (if taken then Next (start + word_of_int algn) else Return start)))"

definition range_blocked :: "u64 list \<Rightarrow> u32 \<Rightarrow> u32 \<Rightarrow> u32 option outcome" where
  "range_blocked tbl start end =
     bindC (for_each (\<lambda>i (_ :: unit). bindC (mlx5_test_bit (of_nat i) tbl) (\<lambda>taken.
        ret (if taken then Return (of_nat i :: u32) else Next ()))) [unat (start + 1)..<unat end] ())
      (\<lambda>x. ret (case x of Next _ \<Rightarrow> None | Return i \<Rightarrow> Some i))"

definition find_aligned_range :: "u64 list \<Rightarrow> u32 \<Rightarrow> u32 \<Rightarrow> int \<Rightarrow> int \<Rightarrow> u32 outcome" where
  "find_aligned_range tbl start0 nbits len algn = loop (\<lambda>start1.
     bindC (skip_taken tbl nbits algn (align start1 algn)) (\<lambda>start.
     if nbits \<le> start then ret (Return (- 1))
     else if nbits < start + word_of_int len then ret (Return (- 1))
     else bindC (range_blocked tbl start (start + word_of_int len)) (\<lambda>b.
       ret (case b of Some i \<Rightarrow> Next (i + 1) | None \<Rightarrow> Return start)))) start0"

definition bitmap_alloc_range :: "int \<Rightarrow> int \<Rightarrow> mlx5_bitmap \<Rightarrow> (u32 \<times> mlx5_bitmap) outcome" where
  "bitmap_alloc_range cnt algn bm =
    (if cnt = 1 \<and> algn = 1 then mlx5_bitmap_alloc bm
     else if bm_max bm < word_of_int cnt then ret (- 1, bm)
     else
       bindC (find_aligned_range (bm_table bm) (bm_last bm) (bm_max bm) cnt algn) (\<lambda>obj1.
       bindC (if bm_max bm \<le> obj1 then
                let bm' = bm\<lparr>bm_top := (bm_top bm + bm_max bm) AND bm_mask bm\<rparr>
                in bindC (find_aligned_range (bm_table bm) 0 (bm_max bm) cnt algn) (\<lambda>obj2. ret (obj2, bm'))
              else ret (obj1, bm)) (\<lambda>(obj, bm1).
       if obj < bm_max bm1 then
         bindC (for_each (\<lambda>i t. bindC (mlx5_set_bit (obj + of_nat i) t) (\<lambda>t'. ret (Next t'))) [0..<nat cnt] (bm_table bm1)) (\<lambda>x.
         let bm2 = bm1\<lparr>bm_table := flow_result id x\<rparr>;
             bm3 = (if obj = bm_last bm2 then
                      bm2\<lparr>bm_last := (if bm_max bm2 \<le> obj + word_of_int cnt then 0 else obj + word_of_int cnt)\<rparr>
                    else bm2);
             obj' = obj OR bm_top bm3
         in ret (obj', if obj' \<noteq> - 1 then bm3\<lparr>bm_avail := bm_avail bm3 - word_of_int cnt\<rparr> else bm3))
       else ret (obj, bm1))))"

subsection \<open>Words of the table\<close>

text \<open>
  Every word of the table is the sign extension of its lower half, so the table is a list of
  32-bit words.
\<close>

definition halves :: "u64 list \<Rightarrow> u32 list" where
  "halves tbl = map ucast tbl"

definition extended :: "u64 list \<Rightarrow> bool" where
  "extended tbl \<longleftrightarrow> tbl = map scast (halves tbl)"

lemma ucast_scast [simp]: "ucast (scast (w :: u32) :: u64) = w"
  by (rule bit_word_eqI) (auto simp: bit_simps)

lemma scast_bits:
  "(scast (a :: u32) :: u64) OR scast b = scast (a OR b)"
  "(scast a :: u64) AND NOT (scast b) = scast (a AND NOT b)"
  by (rule bit_word_eqI, auto simp: bit_simps)+

lemma scast_full [simp]: "(scast (w :: u32) :: u64) = - 1 \<longleftrightarrow> w = - 1"
proof
  assume "(scast w :: u64) = - 1"
  then have "ucast (scast w :: u64) = (ucast (- 1 :: u64) :: u32)" by simp
  moreover have "(ucast (- 1 :: u64) :: u32) = - 1" by (rule bit_word_eqI) (simp add: bit_simps)
  ultimately show "w = - 1" by simp
qed simp

lemma not_zero: "NOT w = 0 \<longleftrightarrow> (w :: u64) = - 1"
proof
  assume "NOT w = 0"
  then have "NOT (NOT w) = NOT 0" by (simp only:)
  then show "w = - 1" by simp
qed simp

lemma extended_map [simp]: "extended (map scast us)" "halves (map scast us) = us"
  by (simp_all add: extended_def halves_def o_def)

lemma halves_length [simp]: "length (halves tbl) = length tbl"
  by (simp add: halves_def)

lemma extended_update:
  "extended tbl \<Longrightarrow> tbl[i := scast u] = map scast ((halves tbl)[i := u])"
  by (simp add: extended_def map_update flip: map_update) (metis map_update)

definition chunk_taken :: "u32 list \<Rightarrow> nat \<Rightarrow> bool" where
  "chunk_taken us k \<longleftrightarrow> bit (us ! (k div 64)) (k mod 64)"

lemma set_bit_ret:
  assumes "extended tbl" and "unat nr div 64 < length tbl" and "unat nr mod 64 < 32"
  shows "mlx5_set_bit nr tbl = ret (map scast ((halves tbl)[unat nr div 64 :=
      Bit_Operations.set_bit (unat nr mod 64) (halves tbl ! (unat nr div 64))]))"
proof -
  have "tbl ! (unat nr div 64) = scast (halves tbl ! (unat nr div 64))"
    using assms(1,2) by (metis extended_def halves_length length_map nth_map)
  then show ?thesis
    using assms by (simp add: mlx5_set_bit_def long_bit_def long_of_def scast_bits extended_update
        set_bit_eq_or push_bit_eq_mult)
qed

lemma clear_bit_ret:
  assumes "extended tbl" and "unat nr div 64 < length tbl" and "unat nr mod 64 < 32"
  shows "mlx5_clear_bit nr tbl = ret (map scast ((halves tbl)[unat nr div 64 :=
      unset_bit (unat nr mod 64) (halves tbl ! (unat nr div 64))]))"
proof -
  have "tbl ! (unat nr div 64) = scast (halves tbl ! (unat nr div 64))"
    using assms(1,2) by (metis extended_def halves_length length_map nth_map)
  then show ?thesis
    using assms by (simp add: mlx5_clear_bit_def long_bit_def long_of_def scast_bits extended_update
        unset_bit_eq_and_not push_bit_eq_mult)
qed

lemma ffz_bit:
  assumes "w \<noteq> - 1"
  obtains j where "j < 32" "mlx5_ffz w = of_nat j" "\<not> bit w j"
proof -
  have "\<exists>n < 32. bit (NOT w) n" using assms by (auto simp: bit_eq_iff bit_simps)
  then have "find (bit (NOT w)) [0..<32] \<noteq> None" by (auto simp: find_None_iff)
  then obtain j where f: "find (bit (NOT w)) [0..<32] = Some j" by blast
  then have "j < 32 \<and> bit (NOT w) j" by (auto simp: find_Some_iff simp del: upt_conv_Cons)
  with f that [of j] show ?thesis by (simp add: mlx5_ffz_def ffs_def bit_simps)
qed

lemma unat_widen [simp]: "unat (ucast (w :: u32) :: u64) = unat w"
  by (simp add: unsigned_ucast_eq take_bit_nat_eq_self_iff less_le_trans [OF unsigned_less])

lemma unat_offset:
  assumes "unat res + j < 2 ^ 32"
  shows "unat (ucast (ucast (res :: u32) + of_nat j :: u64) :: u32) = unat res + j"
proof -
  have "ucast res + of_nat j = (of_nat (unat res + j) :: u64)" by simp
  moreover have "unat (of_nat (unat res + j) :: u64) = unat res + j"
    using assms by (intro unat_of_nat_u64) simp
  ultimately have "unat (ucast res + of_nat j :: u64) = unat res + j" by (simp only:)
  with assms show ?thesis by (simp only: unsigned_ucast_eq) (simp add: take_bit_nat_eq_self)
qed

lemma find_zero_ret:
  fixes us :: "u32 list"
  assumes "unat res + 64 * length us < 2 ^ 32"
  shows "\<exists>r. mlx5_find_first_zero_bit (map scast us) (64 * length us) res = ret r \<and>
    (if unat r = unat res + 64 * length us then \<forall>u \<in> set us. u = - 1
     else \<exists>i < length us. \<exists>j < 32. unat r = unat res + (i * 64 + j) \<and> \<not> bit (us ! i) j)"
  using assms
proof (induction us arbitrary: res)
  case Nil
  then show ?case by (simp add: mlx5_find_first_zero_bit.simps)
next
  case (Cons u us)
  show ?case
  proof (cases "u = - 1")
    case True
    have up: "unat (res + 64) = unat res + 64" using Cons.prems by (subst unat_add_lem [THEN iffD1]) simp_all
    with Cons.prems have "\<exists>r. mlx5_find_first_zero_bit (map scast us) (64 * length us) (res + 64) = ret r \<and>
      (if unat r = unat res + 64 + 64 * length us then \<forall>u \<in> set us. u = - 1
       else \<exists>i < length us. \<exists>j < 32. unat r = unat res + 64 + (i * 64 + j) \<and> \<not> bit (us ! i) j)"
      using Cons.IH [of "res + 64", unfolded up] by simp
    then obtain r where r: "mlx5_find_first_zero_bit (map scast us) (64 * length us) (res + 64) = ret r"
      "if unat r = unat res + 64 + 64 * length us then \<forall>u \<in> set us. u = - 1
       else \<exists>i < length us. \<exists>j < 32. unat r = unat res + 64 + (i * 64 + j) \<and> \<not> bit (us ! i) j" by blast
    have run: "mlx5_find_first_zero_bit (map scast (u # us)) (64 * length (u # us)) res = ret r"
      using r(1) True by (subst mlx5_find_first_zero_bit.simps) simp
    show ?thesis
    proof (cases "unat r = unat res + 64 + 64 * length us")
      case eq: True
      with r(2) True run show ?thesis by (intro exI [of _ r]) simp
    next
      case False
      with r(2) obtain i j where "i < length us" "j < 32" "unat r = unat res + 64 + (i * 64 + j)" "\<not> bit (us ! i) j"
        by auto
      then have "\<exists>i < length (u # us). \<exists>j < 32. unat r = unat res + (i * 64 + j) \<and> \<not> bit ((u # us) ! i) j"
        by (intro exI [of _ "Suc i"]) auto
      with run False show ?thesis by (intro exI [of _ r]) simp
    qed
  next
    case False
    obtain j where j: "j < 32" "mlx5_ffz u = of_nat j" "\<not> bit u j" using ffz_bit [OF False] .
    have at: "unat (ucast (ucast res + of_nat j :: u64) :: u32) = unat res + j"
      using j(1) Cons.prems by (intro unat_offset) simp
    have "NOT (scast u :: u64) \<noteq> 0" using False by (subst not_zero) simp
    then have run: "mlx5_find_first_zero_bit (map scast (u # us)) (64 * length (u # us)) res =
        ret (ucast (ucast res + of_nat j :: u64))"
      by (subst mlx5_find_first_zero_bit.simps) (simp add: j(2))
    have "\<exists>i < length (u # us). \<exists>k < 32. unat res + j = unat res + (i * 64 + k) \<and> \<not> bit ((u # us) ! i) k"
      using j(1,3) by (intro exI [of _ 0]) simp
    moreover have "j \<noteq> 64 * length (u # us)" using j(1) by simp
    ultimately show ?thesis
      using at by (intro exI [of _ "ucast (ucast res + of_nat j :: u64)"] conjI run) simp
  qed
qed


subsection \<open>Well-formed bitmaps\<close>

definition live_chunks :: "mlx5_bitmap \<Rightarrow> u32 set" where
  "live_chunks bm = {r. r < bm_max bm \<and> unat r mod 64 < 32 \<and> chunk_taken (halves (bm_table bm)) (unat r)}"

definition bitmap_ok :: "mlx5_bitmap \<Rightarrow> bool" where
  "bitmap_ok bm \<longleftrightarrow> (\<exists>b < 32. bm_max bm = 2 ^ b) \<and> unat (bm_max bm) = 64 * length (bm_table bm) \<and>
     bm_mask bm = bm_max bm - 1 \<and> bm_top bm = 0 \<and> extended (bm_table bm) \<and>
     unat (bm_avail bm) + card (live_chunks bm) = unat (bm_max bm)"

lemma chunk_taken_update:
  assumes "i < length us" and "j < 32"
  shows "chunk_taken (us[i := Bit_Operations.set_bit j (us ! i)]) k \<longleftrightarrow> k = i * 64 + j \<or> chunk_taken us k"
    and "chunk_taken (us[i := unset_bit j (us ! i)]) k \<longleftrightarrow> k \<noteq> i * 64 + j \<and> chunk_taken us k"
proof -
  have eq: "k = i * 64 + j \<longleftrightarrow> k div 64 = i \<and> k mod 64 = j" using assms(2) by auto
  show "chunk_taken (us[i := Bit_Operations.set_bit j (us ! i)]) k \<longleftrightarrow> k = i * 64 + j \<or> chunk_taken us k"
    "chunk_taken (us[i := unset_bit j (us ! i)]) k \<longleftrightarrow> k \<noteq> i * 64 + j \<and> chunk_taken us k"
    using assms by (auto simp: eq chunk_taken_def nth_list_update bit_unset_bit_iff bit_set_bit_iff)
qed

lemma chunk_address:
  assumes "(r :: u32) < m" and "unat m = 64 * length tbl"
  shows "unat r div 64 < length tbl"
  using assms by (simp add: word_less_nat_alt less_mult_imp_div_less)

lemma chunk_mask:
  assumes "m = 2 ^ b" and "b < 32" and "(r :: u32) < m"
  shows "r AND (m - 1) = r" and "m AND (m - 1) = 0"
proof -
  have "r AND (2 ^ b - 1) = take_bit b r" by (simp add: take_bit_eq_mask mask_eq_exp_minus_1)
  also have "\<dots> = r"
  proof -
    have "unat (of_nat (2 ^ b) :: u32) = 2 ^ b" using assms(2) power_strict_increasing [of b 32 "2 :: nat"]
      by (intro unat_of_nat_u32) simp_all
    then have "unat r < 2 ^ b" using assms(1,3) by (simp add: word_less_nat_alt)
    then show ?thesis by (simp add: word_unat_eq_iff unsigned_take_bit_eq take_bit_nat_eq_self)
  qed
  finally show "r AND (m - 1) = r" using assms(1) by simp
  have "2 ^ b AND (2 ^ b - 1 :: u32) = take_bit b (2 ^ b)" by (simp add: take_bit_eq_mask mask_eq_exp_minus_1)
  also have "take_bit b (2 ^ b :: u32) = 0" by (rule bit_word_eqI) (simp add: bit_simps)
  finally show "m AND (m - 1) = 0" using assms(1) by simp
qed

lemma finite_live [simp]: "finite (live_chunks bm)"
  by (rule finite_subset [of _ UNIV]) simp_all

lemma live_chunks_update:
  assumes "r < bm_max bm" and "unat (bm_max bm) = 64 * length (bm_table bm)" and "unat r mod 64 < 32"
  shows "live_chunks (bm\<lparr>bm_table := map scast ((halves (bm_table bm))[unat r div 64 :=
      Bit_Operations.set_bit (unat r mod 64) (halves (bm_table bm) ! (unat r div 64))])\<rparr>) = insert r (live_chunks bm)"
    and "live_chunks (bm\<lparr>bm_table := map scast ((halves (bm_table bm))[unat r div 64 :=
      unset_bit (unat r mod 64) (halves (bm_table bm) ! (unat r div 64))])\<rparr>) = live_chunks bm - {r}"
proof -
  have i: "unat r div 64 < length (halves (bm_table bm))" using chunk_address [OF assms(1,2)] by simp
  have eq: "unat x = unat r \<longleftrightarrow> x = r" for x :: u32 by (rule word_unat_eq_iff [symmetric])
  from chunk_taken_update [OF i assms(3)] assms show
    "live_chunks (bm\<lparr>bm_table := map scast ((halves (bm_table bm))[unat r div 64 :=
      Bit_Operations.set_bit (unat r mod 64) (halves (bm_table bm) ! (unat r div 64))])\<rparr>) = insert r (live_chunks bm)"
    "live_chunks (bm\<lparr>bm_table := map scast ((halves (bm_table bm))[unat r div 64 :=
      unset_bit (unat r mod 64) (halves (bm_table bm) ! (unat r div 64))])\<rparr>) = live_chunks bm - {r}"
    by (auto simp: live_chunks_def eq)
qed


lemma chunk_halves: "{k. k < 64 * n \<and> k mod 64 < 32} = (\<lambda>(i, j). i * 64 + j) ` ({..<n} \<times> {..<32 :: nat})"
proof (intro equalityI subsetI)
  fix k assume "k \<in> {k. k < 64 * n \<and> k mod 64 < 32}"
  then have "(k div 64, k mod 64) \<in> {..<n} \<times> {..<32}" by (simp add: less_mult_imp_div_less)
  moreover have "k = (\<lambda>(i, j). i * 64 + j) (k div 64, k mod 64)" by simp
  ultimately show "k \<in> (\<lambda>(i, j). i * 64 + j) ` ({..<n} \<times> {..<32})" by (rule rev_image_eqI)
qed auto

lemma card_eq_iff_eq: "finite B \<Longrightarrow> A \<subseteq> B \<Longrightarrow> card A = card B \<longleftrightarrow> A = B"
  using card_subset_eq by blast

lemma card_chunk_halves: "card {k. k < 64 * n \<and> k mod 64 < (32 :: nat)} = 32 * n"
proof -
  have "inj_on (\<lambda>(i, j). i * 64 + j) ({..<n} \<times> {..<32 :: nat})"
    by (rule inj_on_inverseI [where g = "\<lambda>k. (k div 64, k mod 64)"]) auto
  from card_image [OF this] show ?thesis by (simp add: chunk_halves)
qed

text \<open>Only the lower half of each word is ever handed out.\<close>

lemma card_live:
  assumes "unat (bm_max bm) = 64 * n"
  shows "2 * card (live_chunks bm) \<le> unat (bm_max bm)"
    and "2 * card (live_chunks bm) = unat (bm_max bm) \<longleftrightarrow>
      (\<forall>k. k < 64 * n \<and> k mod 64 < 32 \<longrightarrow> chunk_taken (halves (bm_table bm)) k)"
proof -
  let ?all = "{k. k < 64 * n \<and> k mod 64 < (32 :: nat)}"
  have all: "finite ?all" "card ?all = 32 * n" by (simp_all add: card_chunk_halves)
  have inj: "inj_on unat (live_chunks bm)" by (simp add: inj_on_def word_unat_eq_iff)
  have bound: "k < 2 ^ 32" if "k < 64 * n" for k
    using that assms unsigned_less [of "bm_max bm", where 'a = nat] by simp
  have img: "unat ` live_chunks bm = {k \<in> ?all. chunk_taken (halves (bm_table bm)) k}"
  proof (intro equalityI subsetI)
    fix k assume k: "k \<in> {k \<in> ?all. chunk_taken (halves (bm_table bm)) k}"
    then have "unat (of_nat k :: u32) = k" by (intro unat_of_nat_u32 bound) simp
    with k assms have "of_nat k \<in> live_chunks bm" by (simp add: live_chunks_def word_less_nat_alt)
    with \<open>unat (of_nat k :: u32) = k\<close> show "k \<in> unat ` live_chunks bm" by (metis imageI)
  qed (auto simp: live_chunks_def word_less_nat_alt assms)
  have card: "card (live_chunks bm) = card {k \<in> ?all. chunk_taken (halves (bm_table bm)) k}"
    using card_image [OF inj] by (simp add: img)
  have "card {k \<in> ?all. chunk_taken (halves (bm_table bm)) k} \<le> card ?all" by (intro card_mono) auto
  with card all(2) assms show "2 * card (live_chunks bm) \<le> unat (bm_max bm)" by simp
  have "card {k \<in> ?all. chunk_taken (halves (bm_table bm)) k} = card ?all \<longleftrightarrow>
      {k \<in> ?all. chunk_taken (halves (bm_table bm)) k} = ?all"
    by (rule card_eq_iff_eq [OF all(1)]) blast
  also have "\<dots> \<longleftrightarrow> (\<forall>k. k < 64 * n \<and> k mod 64 < 32 \<longrightarrow> chunk_taken (halves (bm_table bm)) k)" by blast
  finally show "2 * card (live_chunks bm) = unat (bm_max bm) \<longleftrightarrow>
      (\<forall>k. k < 64 * n \<and> k mod 64 < 32 \<longrightarrow> chunk_taken (halves (bm_table bm)) k)"
    using card all(2) assms by simp
qed

lemma bitmap_alloc_law:
  assumes ok: "bitmap_ok bm"
  shows "\<exists>r bm'. mlx5_bitmap_alloc bm = ret (r, bm') \<and> bitmap_ok bm' \<and> bm_max bm' = bm_max bm \<and>
    (if r = - 1 then bm' = bm \<and> 2 * card (live_chunks bm) = unat (bm_max bm)
     else r \<notin> live_chunks bm \<and> live_chunks bm' = insert r (live_chunks bm))"
proof -
  have "bm_table bm = map scast (halves (bm_table bm))" using ok by (simp add: bitmap_ok_def extended_def)
  then obtain us :: "u32 list" where us: "bm_table bm = map scast us" by (rule that)
  have len: "unat (bm_max bm) = 64 * length us" using ok us by (simp add: bitmap_ok_def)
  have "unat (0 :: u32) + 64 * length us < 2 ^ 32" using unsigned_less [of "bm_max bm", where 'a = nat] len by simp
  from find_zero_ret [OF this] obtain r where r:
    "mlx5_find_first_zero_bit (bm_table bm) (unat (bm_max bm)) 0 = ret r"
    "if unat r = 64 * length us then \<forall>u \<in> set us. u = - 1
     else \<exists>i < length us. \<exists>j < 32. unat r = i * 64 + j \<and> \<not> bit (us ! i) j"
    by (auto simp: us len cong: if_cong)
  show ?thesis
  proof (cases "unat r = 64 * length us")
    case True
    have "chunk_taken us k" if "k < 64 * length us" "k mod 64 < 32" for k
    proof -
      have "us ! (k div 64) = - 1" using True r(2) that(1) by (simp add: less_mult_imp_div_less)
      with that(2) show ?thesis by (simp add: chunk_taken_def)
    qed
    then have "2 * card (live_chunks bm) = unat (bm_max bm)" using card_live(2) [OF len] us by simp
    moreover have "mlx5_bitmap_alloc bm = ret (- 1, bm)"
      using r(1) True len by (simp add: mlx5_bitmap_alloc_def word_less_nat_alt)
    ultimately show ?thesis using ok by auto
  next
    case False
    with r(2) obtain i j where ij: "i < length us" "j < 32" "unat r = i * 64 + j" "\<not> bit (us ! i) j" by auto
    then have d: "unat r div 64 = i" "unat r mod 64 = j" by simp_all
    have lt: "r < bm_max bm" using ij len by (simp add: word_less_nat_alt)
    have fresh: "r \<notin> live_chunks bm" using ij d us by (simp add: live_chunks_def chunk_taken_def)
    let ?t = "map scast (us[i := Bit_Operations.set_bit j (us ! i)]) :: u64 list"
    have set: "mlx5_set_bit r (bm_table bm) = ret ?t"
      using set_bit_ret [of "bm_table bm" r] ij(1,2) us d by simp
    have live: "live_chunks (bm\<lparr>bm_table := ?t\<rparr>) = insert r (live_chunks bm)"
      using live_chunks_update(1) [OF lt] ij(2) d len by (simp add: us)
    have "bm_max bm \<le> - 1" by simp
    then have nm: "r \<noteq> - 1" using lt by auto
    define bm' where "bm' = bm\<lparr>bm_table := ?t, bm_last := (if r + 1 = bm_max bm then 0 else r + 1),
      bm_avail := bm_avail bm - 1\<rparr>"
    have run: "mlx5_bitmap_alloc bm = ret (r, bm')"
      using r(1) lt set nm ok by (simp add: mlx5_bitmap_alloc_def bitmap_ok_def bm'_def)
    have live': "live_chunks bm' = insert r (live_chunks bm)" using live by (simp add: live_chunks_def bm'_def)
    have "2 * card (live_chunks bm') \<le> unat (bm_max bm)" using card_live(1) [of bm'] len by (simp add: bm'_def)
    then have "0 < unat (bm_avail bm)" using ok live' fresh lt by (simp add: bitmap_ok_def word_less_nat_alt)
    then have "unat (bm_avail bm - 1) = unat (bm_avail bm) - 1" by (intro unat_minus_one) auto
    then have "bitmap_ok bm'"
      using ok live' fresh \<open>0 < unat (bm_avail bm)\<close> us ij(1) unfolding bitmap_ok_def by (simp add: bm'_def)
    with run live' fresh nm show ?thesis by (intro exI [of _ r] exI [of _ bm']) (simp add: bm'_def)
  qed
qed


lemma bitmap_free_law:
  assumes ok: "bitmap_ok bm" and r: "r \<in> live_chunks bm"
  shows "\<exists>bm'. bitmap_free_range r 1 bm = ret bm' \<and> bitmap_ok bm' \<and> bm_max bm' = bm_max bm \<and>
    live_chunks bm' = live_chunks bm - {r}"
proof -
  have "bm_table bm = map scast (halves (bm_table bm))" using ok by (simp add: bitmap_ok_def extended_def)
  then obtain us :: "u32 list" where us: "bm_table bm = map scast us" by (rule that)
  have len: "unat (bm_max bm) = 64 * length us" using ok us by (simp add: bitmap_ok_def)
  have lt: "r < bm_max bm" "unat r mod 64 < 32" using r by (simp_all add: live_chunks_def)
  obtain b where b: "bm_max bm = 2 ^ b" "b < 32" using ok by (auto simp: bitmap_ok_def)
  note am = chunk_mask [OF b lt(1)]
  let ?t = "map scast (us[unat r div 64 := unset_bit (unat r mod 64) (us ! (unat r div 64))]) :: u64 list"
  have clear: "mlx5_clear_bit r (bm_table bm) = ret ?t"
    using clear_bit_ret [of "bm_table bm" r] chunk_address [OF lt(1), of us] len lt(2) by (simp add: us)
  define bm' where "bm' = bm\<lparr>bm_table := ?t, bm_last := min (bm_last bm) r, bm_avail := bm_avail bm + 1\<rparr>"
  have run: "bitmap_free_range r 1 bm = ret bm'"
    using clear am ok by (simp add: bitmap_free_range_def bitmap_ok_def Let_def bm'_def)
  have live: "live_chunks bm' = live_chunks bm - {r}"
    using live_chunks_update(2) [OF lt(1)] lt(2) len by (simp add: us live_chunks_def bm'_def)
  have card: "card (live_chunks bm') = card (live_chunks bm) - 1" "0 < card (live_chunks bm)"
    using live r by (auto simp: card_gt_0_iff)
  then have "unat (bm_avail bm) + 1 \<le> unat (bm_max bm)" using ok by (simp add: bitmap_ok_def)
  then have "unat (bm_avail bm + 1) = unat (bm_avail bm) + 1"
    using unsigned_less [of "bm_max bm", where 'a = nat] by (subst unat_add_lem [THEN iffD1]) simp_all
  moreover have "0 < length us" using lt(1) len by (auto simp: word_less_nat_alt)
  ultimately have "bitmap_ok bm'"
    using ok card us unfolding bitmap_ok_def by (simp add: bm'_def)
  with run live show ?thesis by (intro exI [of _ bm']) (simp add: bm'_def)
qed


subsection \<open>Chunks handed out singly\<close>

text \<open>The allocator as a client sees it: \<open>-1\<close> is no chunk.\<close>

definition alloc_chunk :: "unit \<Rightarrow> mlx5_bitmap \<Rightarrow> (u32 option \<times> mlx5_bitmap) outcome" where
  "alloc_chunk e bm = bindC (bitmap_alloc_range 1 1 bm) (\<lambda>(r, bm'). ret (if r = - 1 then None else Some r, bm'))"

definition free_chunk :: "u32 \<Rightarrow> mlx5_bitmap \<Rightarrow> mlx5_bitmap outcome" where
  "free_chunk r bm = bitmap_free_range r 1 bm"

lemma alloc_chunk_law:
  assumes "bitmap_ok bm \<and> bm_max bm = n"
  shows "\<exists>a bm'. alloc_chunk e bm = ret (a, bm') \<and> (bitmap_ok bm' \<and> bm_max bm' = n) \<and>
    (case a of None \<Rightarrow> live_chunks bm' = live_chunks bm
     | Some r \<Rightarrow> r \<notin> live_chunks bm \<and> live_chunks bm' = insert r (live_chunks bm))"
  using bitmap_alloc_law [of bm] assms by (auto simp: alloc_chunk_def bitmap_alloc_range_def split: if_splits)

interpretation chunks: slot_allocator "\<lambda>bm. bitmap_ok bm \<and> bm_max bm = n" live_chunks "\<lambda>_ _. True" alloc_chunk free_chunk for n
  using alloc_chunk_law bitmap_free_law by unfold_locales (auto simp: free_chunk_def)

lemma init_ok:
  assumes "6 \<le> b" and "b < 32"
  shows "bitmap_ok (mlx5_bitmap_init (2 ^ b) (2 ^ b - 1))" and "live_chunks (mlx5_bitmap_init (2 ^ b) (2 ^ b - 1)) = {}"
proof -
  obtain d where d: "b = 6 + d" using assms(1) le_iff_add by auto
  have "(2 :: nat) ^ b < 2 ^ 32" using assms(2) by (intro power_strict_increasing) simp_all
  then have m: "unat (2 ^ b :: u32) = 2 ^ b" using unat_of_nat_u32 [of "2 ^ b"] by simp
  have "(2 ^ b + 63) div 64 = (2 :: nat) ^ d" by (simp add: d power_add)
  then have t: "unat (2 ^ b :: u32) = 64 * ((2 ^ b + 63) div 64)" using m by (simp add: d power_add)
  have h: "halves (replicate k 0) = replicate k 0" "extended (replicate k 0)" for k by (simp_all add: halves_def extended_def)
  show e: "live_chunks (mlx5_bitmap_init (2 ^ b) (2 ^ b - 1)) = {}"
    using t by (auto simp: live_chunks_def mlx5_bitmap_init_def h chunk_taken_def m word_less_nat_alt less_mult_imp_div_less)
  show "bitmap_ok (mlx5_bitmap_init (2 ^ b) (2 ^ b - 1))"
    using t assms(2) e m by (auto simp: bitmap_ok_def mlx5_bitmap_init_def h)
qed

text \<open>
  C25: the chunks of a huge page handed out one by one never alias, and only half of them are ever
  handed out. Whatever sequence of single allocations and releases a client makes on a fresh bitmap
  of a power of two of chunks, no step faults, the chunks held are distinct and are those marked in
  the bitmap; the count of available chunks is the size less those held; and the next allocation
  fails exactly when half the chunks are held, with the other half still counted as available.
\<close>

theorem chunks_no_alias:
  assumes "6 \<le> b" and "b < 32"
    and "slot_legal (\<lambda>_ _. True) alloc_chunk free_chunk xs ([], mlx5_bitmap_init (2 ^ b) (2 ^ b - 1))"
  shows "\<exists>held bm. slot_run alloc_chunk free_chunk xs ([], mlx5_bitmap_init (2 ^ b) (2 ^ b - 1)) = ret (held, bm) \<and>
    distinct held \<and> set held = live_chunks bm \<and> unat (bm_avail bm) = 2 ^ b - length held \<and>
    2 * length held \<le> 2 ^ b \<and>
    ((\<exists>bm'. bitmap_alloc_range 1 1 bm = ret (- 1, bm')) \<longleftrightarrow> 2 * length held = 2 ^ b)"
proof -
  let ?bm = "mlx5_bitmap_init (2 ^ b) (2 ^ b - 1)"
  have "(2 :: nat) ^ b < 2 ^ 32" using assms(2) by (intro power_strict_increasing) simp_all
  then have m: "unat (2 ^ b :: u32) = 2 ^ b" using unat_of_nat_u32 [of "2 ^ b"] by simp
  have "bitmap_ok ?bm \<and> bm_max ?bm = 2 ^ b" using init_ok(1) [OF assms(1,2)] by (simp add: mlx5_bitmap_init_def)
  from chunks.run_held [OF this _ _ assms(3)] init_ok(2) [OF assms(1,2)] obtain held bm where h:
    "slot_run alloc_chunk free_chunk xs ([], ?bm) = ret (held, bm)" "bitmap_ok bm" "bm_max bm = 2 ^ b"
    "distinct held" "set held = live_chunks bm" by auto
  have len: "length held = card (live_chunks bm)" using h(4,5) distinct_card by metis
  have ok: "unat (bm_max bm) = 64 * length (bm_table bm)" "unat (bm_avail bm) + card (live_chunks bm) = 2 ^ b"
    using h(2,3) m by (simp_all add: bitmap_ok_def)
  have half: "2 * card (live_chunks bm) \<le> 2 ^ b" using card_live(1) [OF ok(1)] h(3) m by simp
  have "(\<exists>bm'. bitmap_alloc_range 1 1 bm = ret (- 1, bm')) \<longleftrightarrow> 2 * card (live_chunks bm) = 2 ^ b"
  proof -
    obtain r bm' where r: "mlx5_bitmap_alloc bm = ret (r, bm')" "bitmap_ok bm'" "bm_max bm' = 2 ^ b"
      "if r = - 1 then bm' = bm \<and> 2 * card (live_chunks bm) = 2 ^ b
       else r \<notin> live_chunks bm \<and> live_chunks bm' = insert r (live_chunks bm)"
      using bitmap_alloc_law [OF h(2)] h(3) m by auto
    have "2 * card (live_chunks bm') \<le> 2 ^ b"
      using card_live(1) [of bm'] r(2,3) m by (simp add: bitmap_ok_def)
    with r show ?thesis by (auto simp: bitmap_alloc_range_def split: if_splits)
  qed
  with h len ok half show ?thesis by (intro exI [of _ held] exI [of _ bm]) auto
qed

theorem chunks_no_alias_witness:
  "\<exists>bm. slot_run alloc_chunk free_chunk [Get (), Get (), Put 0, Get ()] ([], mlx5_bitmap_init (2 ^ 6) (2 ^ 6 - 1)) =
      ret ([0, 1], bm) \<and> unat (bm_avail bm) = 62"
proof -
  let ?bm = "\<lambda>l a w. \<lparr>bm_last = l, bm_top = 0, bm_max = 64, bm_avail = a, bm_mask = 63, bm_table = [w]\<rparr>"
  have init: "mlx5_bitmap_init (2 ^ 6) (2 ^ 6 - 1) = ?bm 0 64 0" by (code_simp; simp)
  have run: "alloc_chunk () (?bm 0 64 0) = ret (Some 0, ?bm 1 63 1)"
    "alloc_chunk () (?bm 1 63 1) = ret (Some 1, ?bm 2 62 3)"
    "free_chunk 0 (?bm 2 62 3) = ret (?bm 0 63 2)"
    "alloc_chunk () (?bm 0 63 2) = ret (Some 0, ?bm 1 62 3)"
    by (code_simp; simp)+
  have "slot_legal (\<lambda>_ _. True) alloc_chunk free_chunk [Get (), Get (), Put 0, Get ()]
      ([], mlx5_bitmap_init (2 ^ 6) (2 ^ 6 - 1))"
    by (simp only: init) (simp add: run)
  from chunks_no_alias [OF _ _ this] show ?thesis by (simp only: init) (auto simp: run)
qed

subsection \<open>Ranges of chunks\<close>

lemma for_each_append:
  "for_each body (xs @ ys) s = bindC (for_each body xs s) (\<lambda>x. case x of
     Next s' \<Rightarrow> for_each body ys s' | Return r \<Rightarrow> ret (Return r))"
  by (induction xs arbitrary: s) (auto simp: bindC_assoc intro!: arg_cong2 [of _ _ _ _ bindC] split: flow.split)

lemma for_each_idle: "(\<And>i. i \<in> set xs \<Longrightarrow> body i s = ret (Next s)) \<Longrightarrow> for_each body xs s = ret (Next s)"
  by (induction xs) auto

lemma test_bit_clear:
  assumes "0 < n" and "unat i < 32"
  shows "mlx5_test_bit i (replicate n 0) = ret False"
  using assms by (simp add: mlx5_test_bit_def long_bit_def long_of_def)

lemma test_bit_fault: "unat i mod 64 = 32 \<Longrightarrow> mlx5_test_bit i tbl = raise BadShift"
  by (simp add: mlx5_test_bit_def long_bit_def)

text \<open>
  A range of more than 32 chunks cannot be taken from a fresh huge page, although it has room:
  the scan for the range shifts a 32-bit one by 32. A buffer of more than 1 MB in huge pages runs
  into the undefined shift.
\<close>

lemma alloc_range_bad_shift:
  assumes "6 \<le> b" and "b < 32" and "32 < c" and "c \<le> 2 ^ b"
  shows "bitmap_alloc_range (int c) 1 (mlx5_bitmap_init (2 ^ b) (2 ^ b - 1)) = raise BadShift"
proof -
  have "(2 :: nat) ^ b < 2 ^ 32" using assms(2) by (intro power_strict_increasing) simp_all
  then have m: "unat (2 ^ b :: u32) = 2 ^ b" using unat_of_nat_u32 [of "2 ^ b"] by simp
  have c: "unat (of_nat c :: u32) = c" using assms(4) \<open>2 ^ b < 2 ^ 32\<close> by (intro unat_of_nat_u32) simp
  let ?n = "(unat (2 ^ b :: u32) + 63) div 64" and ?t = "replicate ((unat (2 ^ b :: u32) + 63) div 64) (0 :: u64)"
  have n: "0 < ?n" using assms(3,4) by (simp add: m div_greater_zero_iff)
  have skip: "skip_taken ?t (2 ^ b) 1 (align 0 1) = ret 0"
    unfolding skip_taken_def by (rule loop_Return) (simp add: align_def test_bit_clear [OF n])
  have split: "[Suc 0..<c] = [Suc 0..<32] @ 32 # [33..<c]"
    using assms(3) upt_add_eq_append [of 1 32 "c - 32"] by (simp add: upt_conv_Cons)
  have blocked: "range_blocked ?t 0 (of_nat c) = raise BadShift"
  proof -
    let ?body = "\<lambda>i (_ :: unit). bindC (mlx5_test_bit (of_nat i) ?t) (\<lambda>taken.
        ret (if taken then Return (of_nat i :: u32) else Next ()))"
    have "?body i () = ret (Next ())" if "i \<in> set [Suc 0..<32]" for i
      using that by (simp add: test_bit_clear [OF n] unat_of_nat_u32)
    then have "for_each ?body [Suc 0..<32] () = ret (Next ())" by (rule for_each_idle)
    moreover have "?body 32 () = raise BadShift" by (simp add: test_bit_fault)
    ultimately show ?thesis by (simp add: range_blocked_def c split for_each_append del: upt_rec_numeral)
  qed
  have "find_aligned_range ?t 0 (2 ^ b) (int c) 1 = raise BadShift"
    unfolding find_aligned_range_def
    by (rule loop_raise) (use skip blocked assms(4) m c in \<open>simp add: word_le_nat_alt word_less_nat_alt\<close>)
  then show ?thesis
    using assms(3,4) m c by (simp add: bitmap_alloc_range_def mlx5_bitmap_init_def word_less_nat_alt)
qed

lemma alloc_range_bad_shift_witness:
  "bitmap_alloc_range 33 1 (mlx5_bitmap_init (2 ^ 6) (2 ^ 6 - 1)) = raise BadShift"
  using alloc_range_bad_shift [of 6 33] by simp

end
