(* ===== verification/Ibv_Rates.thy ===== *)
theory Ibv_Rates
  imports Prelude
begin

section \<open>Rates of a link\<close>

text \<open>
  The rates of \<^verbatim>\<open>verbs.h\<close> and their conversions in
  \<^verbatim>\<open>libibverbs-41mlnx1/src/verbs.c\<close>: to and from multiples of 2.5 Gbit/s, and to and
  from Mbit/s.
\<close>

datatype ibv_rate = IBV_RATE_MAX | IBV_RATE_2_5_GBPS | IBV_RATE_5_GBPS | IBV_RATE_10_GBPS
  | IBV_RATE_20_GBPS | IBV_RATE_30_GBPS | IBV_RATE_40_GBPS | IBV_RATE_60_GBPS | IBV_RATE_80_GBPS
  | IBV_RATE_120_GBPS | IBV_RATE_14_GBPS | IBV_RATE_56_GBPS | IBV_RATE_112_GBPS | IBV_RATE_168_GBPS
  | IBV_RATE_25_GBPS | IBV_RATE_100_GBPS | IBV_RATE_200_GBPS | IBV_RATE_300_GBPS | IBV_RATE_28_GBPS
  | IBV_RATE_50_GBPS | IBV_RATE_400_GBPS | IBV_RATE_600_GBPS

definition all_rates :: "ibv_rate list" where
  "all_rates = [IBV_RATE_MAX, IBV_RATE_2_5_GBPS, IBV_RATE_5_GBPS, IBV_RATE_10_GBPS,
     IBV_RATE_20_GBPS, IBV_RATE_30_GBPS, IBV_RATE_40_GBPS, IBV_RATE_60_GBPS, IBV_RATE_80_GBPS,
     IBV_RATE_120_GBPS, IBV_RATE_14_GBPS, IBV_RATE_56_GBPS, IBV_RATE_112_GBPS, IBV_RATE_168_GBPS,
     IBV_RATE_25_GBPS, IBV_RATE_100_GBPS, IBV_RATE_200_GBPS, IBV_RATE_300_GBPS, IBV_RATE_28_GBPS,
     IBV_RATE_50_GBPS, IBV_RATE_400_GBPS, IBV_RATE_600_GBPS]"

lemma all_rates: "r \<in> set all_rates"
  by (cases r) (simp_all add: all_rates_def)

text \<open>A statement about every rate is checked rate by rate.\<close>

lemma rate_cases: "list_all P all_rates \<Longrightarrow> P r"
  using all_rates [of r] by (simp add: list_all_iff)

text \<open>The numbers the rates have in the interface of the kernel and the driver.\<close>

fun rate_code :: "ibv_rate \<Rightarrow> int" where
  "rate_code IBV_RATE_MAX = 0"
| "rate_code IBV_RATE_2_5_GBPS = 2"
| "rate_code IBV_RATE_5_GBPS = 5"
| "rate_code IBV_RATE_10_GBPS = 3"
| "rate_code IBV_RATE_20_GBPS = 6"
| "rate_code IBV_RATE_30_GBPS = 4"
| "rate_code IBV_RATE_40_GBPS = 7"
| "rate_code IBV_RATE_60_GBPS = 8"
| "rate_code IBV_RATE_80_GBPS = 9"
| "rate_code IBV_RATE_120_GBPS = 10"
| "rate_code IBV_RATE_14_GBPS = 11"
| "rate_code IBV_RATE_56_GBPS = 12"
| "rate_code IBV_RATE_112_GBPS = 13"
| "rate_code IBV_RATE_168_GBPS = 14"
| "rate_code IBV_RATE_25_GBPS = 15"
| "rate_code IBV_RATE_100_GBPS = 16"
| "rate_code IBV_RATE_200_GBPS = 17"
| "rate_code IBV_RATE_300_GBPS = 18"
| "rate_code IBV_RATE_28_GBPS = 19"
| "rate_code IBV_RATE_50_GBPS = 20"
| "rate_code IBV_RATE_400_GBPS = 21"
| "rate_code IBV_RATE_600_GBPS = 22"

fun ibv_rate_to_mult :: "ibv_rate \<Rightarrow> int" where
  "ibv_rate_to_mult IBV_RATE_2_5_GBPS = 1"
| "ibv_rate_to_mult IBV_RATE_5_GBPS = 2"
| "ibv_rate_to_mult IBV_RATE_10_GBPS = 4"
| "ibv_rate_to_mult IBV_RATE_20_GBPS = 8"
| "ibv_rate_to_mult IBV_RATE_30_GBPS = 12"
| "ibv_rate_to_mult IBV_RATE_40_GBPS = 16"
| "ibv_rate_to_mult IBV_RATE_60_GBPS = 24"
| "ibv_rate_to_mult IBV_RATE_80_GBPS = 32"
| "ibv_rate_to_mult IBV_RATE_120_GBPS = 48"
| "ibv_rate_to_mult IBV_RATE_28_GBPS = 11"
| "ibv_rate_to_mult IBV_RATE_50_GBPS = 20"
| "ibv_rate_to_mult IBV_RATE_400_GBPS = 160"
| "ibv_rate_to_mult IBV_RATE_600_GBPS = 240"
| "ibv_rate_to_mult _ = - 1"

definition mult_to_ibv_rate :: "int \<Rightarrow> ibv_rate" where
  "mult_to_ibv_rate mult =
    (if mult = 1 then IBV_RATE_2_5_GBPS
     else if mult = 2 then IBV_RATE_5_GBPS
     else if mult = 4 then IBV_RATE_10_GBPS
     else if mult = 8 then IBV_RATE_20_GBPS
     else if mult = 12 then IBV_RATE_30_GBPS
     else if mult = 16 then IBV_RATE_40_GBPS
     else if mult = 24 then IBV_RATE_60_GBPS
     else if mult = 32 then IBV_RATE_80_GBPS
     else if mult = 48 then IBV_RATE_120_GBPS
     else if mult = 11 then IBV_RATE_28_GBPS
     else if mult = 20 then IBV_RATE_50_GBPS
     else if mult = 160 then IBV_RATE_400_GBPS
     else if mult = 240 then IBV_RATE_600_GBPS
     else IBV_RATE_MAX)"

fun ibv_rate_to_mbps :: "ibv_rate \<Rightarrow> int" where
  "ibv_rate_to_mbps IBV_RATE_2_5_GBPS = 2500"
| "ibv_rate_to_mbps IBV_RATE_5_GBPS = 5000"
| "ibv_rate_to_mbps IBV_RATE_10_GBPS = 10000"
| "ibv_rate_to_mbps IBV_RATE_20_GBPS = 20000"
| "ibv_rate_to_mbps IBV_RATE_30_GBPS = 30000"
| "ibv_rate_to_mbps IBV_RATE_40_GBPS = 40000"
| "ibv_rate_to_mbps IBV_RATE_60_GBPS = 60000"
| "ibv_rate_to_mbps IBV_RATE_80_GBPS = 80000"
| "ibv_rate_to_mbps IBV_RATE_120_GBPS = 120000"
| "ibv_rate_to_mbps IBV_RATE_14_GBPS = 14062"
| "ibv_rate_to_mbps IBV_RATE_56_GBPS = 56250"
| "ibv_rate_to_mbps IBV_RATE_112_GBPS = 112500"
| "ibv_rate_to_mbps IBV_RATE_168_GBPS = 168750"
| "ibv_rate_to_mbps IBV_RATE_25_GBPS = 25781"
| "ibv_rate_to_mbps IBV_RATE_100_GBPS = 103125"
| "ibv_rate_to_mbps IBV_RATE_200_GBPS = 206250"
| "ibv_rate_to_mbps IBV_RATE_300_GBPS = 309375"
| "ibv_rate_to_mbps IBV_RATE_28_GBPS = 28125"
| "ibv_rate_to_mbps IBV_RATE_50_GBPS = 53125"
| "ibv_rate_to_mbps IBV_RATE_400_GBPS = 425000"
| "ibv_rate_to_mbps IBV_RATE_600_GBPS = 637500"
| "ibv_rate_to_mbps IBV_RATE_MAX = - 1"

definition mbps_to_ibv_rate :: "int \<Rightarrow> ibv_rate" where
  "mbps_to_ibv_rate mbps =
    (if mbps = 2500 then IBV_RATE_2_5_GBPS
     else if mbps = 5000 then IBV_RATE_5_GBPS
     else if mbps = 10000 then IBV_RATE_10_GBPS
     else if mbps = 20000 then IBV_RATE_20_GBPS
     else if mbps = 30000 then IBV_RATE_30_GBPS
     else if mbps = 40000 then IBV_RATE_40_GBPS
     else if mbps = 60000 then IBV_RATE_60_GBPS
     else if mbps = 80000 then IBV_RATE_80_GBPS
     else if mbps = 120000 then IBV_RATE_120_GBPS
     else if mbps = 14062 then IBV_RATE_14_GBPS
     else if mbps = 56250 then IBV_RATE_56_GBPS
     else if mbps = 112500 then IBV_RATE_112_GBPS
     else if mbps = 168750 then IBV_RATE_168_GBPS
     else if mbps = 25781 then IBV_RATE_25_GBPS
     else if mbps = 103125 then IBV_RATE_100_GBPS
     else if mbps = 206250 then IBV_RATE_200_GBPS
     else if mbps = 309375 then IBV_RATE_300_GBPS
     else if mbps = 28125 then IBV_RATE_28_GBPS
     else if mbps = 53125 then IBV_RATE_50_GBPS
     else if mbps = 425000 then IBV_RATE_400_GBPS
     else if mbps = 637500 then IBV_RATE_600_GBPS
     else IBV_RATE_MAX)"

lemma mbps_cases:
  "mbps_to_ibv_rate m = IBV_RATE_MAX \<or> ibv_rate_to_mbps (mbps_to_ibv_rate m) = m"
  by (simp add: mbps_to_ibv_rate_def)

lemma mult_cases:
  "mult_to_ibv_rate m = IBV_RATE_MAX \<or> ibv_rate_to_mult (mult_to_ibv_rate m) = m"
  by (simp add: mult_to_ibv_rate_def)

lemma mult_order:
  "ibv_rate_to_mult r = - 1 \<or> ibv_rate_to_mult q = - 1 \<or>
    (ibv_rate_to_mult r < ibv_rate_to_mult q) = (ibv_rate_to_mbps r < ibv_rate_to_mbps q)"
proof -
  have "list_all (\<lambda>r. list_all (\<lambda>q. ibv_rate_to_mult r = - 1 \<or> ibv_rate_to_mult q = - 1 \<or>
      (ibv_rate_to_mult r < ibv_rate_to_mult q) = (ibv_rate_to_mbps r < ibv_rate_to_mbps q)) all_rates) all_rates"
    by code_simp
  then show ?thesis by (rule rate_cases [THEN rate_cases])
qed

text \<open>
  The conversions of rates are inverse to each other. Every rate comes back from its number of
  Mbit/s, and every rate that is a multiple of 2.5 Gbit/s from its multiple (the others become
  \<^verbatim>\<open>IBV_RATE_MAX\<close>); a number is turned into \<^verbatim>\<open>IBV_RATE_MAX\<close> or into the rate that
  has it; and of two rates with a multiple the one with the larger multiple has more Mbit/s.
\<close>

lemma rate_round_trip:
  "mbps_to_ibv_rate (ibv_rate_to_mbps r) = r \<and>
   mult_to_ibv_rate (ibv_rate_to_mult r) = (if ibv_rate_to_mult r = - 1 then IBV_RATE_MAX else r) \<and>
   (if mbps_to_ibv_rate m = IBV_RATE_MAX then True else ibv_rate_to_mbps (mbps_to_ibv_rate m) = m) \<and>
   (if mult_to_ibv_rate m = IBV_RATE_MAX then True else ibv_rate_to_mult (mult_to_ibv_rate m) = m) \<and>
   (if ibv_rate_to_mult r = - 1 then True
    else if ibv_rate_to_mult q = - 1 then True
    else (ibv_rate_to_mult r < ibv_rate_to_mult q) = (ibv_rate_to_mbps r < ibv_rate_to_mbps q))"
proof -
  have "mbps_to_ibv_rate (ibv_rate_to_mbps r) = r" by (cases r) (simp_all add: mbps_to_ibv_rate_def)
  moreover have "mult_to_ibv_rate (ibv_rate_to_mult r) = (if ibv_rate_to_mult r = - 1 then IBV_RATE_MAX else r)"
    by (cases r) (simp_all add: mult_to_ibv_rate_def)
  ultimately show ?thesis using mbps_cases [of m] mult_cases [of m] mult_order [of r q] by auto
qed

end
