(* ===== verification/Byte_Order.thy ===== *)
theory Byte_Order
  imports Prelude
begin

unbundle bit_operations_syntax

section \<open>Network byte order\<close>

text \<open>The conversions of the C library on a little-endian host, and masks as bits taken.\<close>

definition htons :: "u16 \<Rightarrow> u16" where
  "htons w = push_bit 8 w OR drop_bit 8 w"

definition htonl :: "u32 \<Rightarrow> u32" where
  "htonl w = push_bit 24 w OR push_bit 8 (w AND 0xFF00) OR (drop_bit 8 w AND 0xFF00) OR drop_bit 24 w"

lemma masks: "w AND 0xFF00 = push_bit 8 (take_bit 8 (drop_bit 8 (w :: u32)))"
  "w AND 0xFFFFF = take_bit 20 (w :: u32)" "v AND 0xFF = take_bit 8 (v :: u32)"
  "b AND 7 = take_bit 3 (b :: u8)" "b AND 0x7F = take_bit 7 (b :: u8)"
proof -
  have m: "(0xFF00 :: u32) = push_bit 8 (mask 8)" "(0xFFFFF :: u32) = mask 20" "(0xFF :: u32) = mask 8"
    "(7 :: u8) = mask 3" "(0x7F :: u8) = mask 7"
    by (simp_all add: mask_eq_exp_minus_1 push_bit_eq_mult)
  show "w AND 0xFF00 = push_bit 8 (take_bit 8 (drop_bit 8 w))"
    unfolding m(1) by (rule bit_word_eqI) (auto simp: bit_simps)
  show "w AND 0xFFFFF = take_bit 20 w" "v AND 0xFF = take_bit 8 v" "b AND 7 = take_bit 3 b" "b AND 0x7F = take_bit 7 b"
    unfolding m by (simp_all add: take_bit_eq_mask)
qed

lemma htons_htons [simp]: "htons (htons w) = w"
  by (rule bit_word_eqI) (auto simp: htons_def bit_simps)

lemma htonl_htonl [simp]: "htonl (htonl w) = w"
proof (rule bit_word_eqI)
  fix n assume "n < LENGTH(32)"
  then consider "n < 8" | "8 \<le> n" "n < 16" | "16 \<le> n" "n < 24" | "24 \<le> n" "n < 32" by force
  then show "bit (htonl (htonl w)) n = bit w n"
    by cases (simp_all add: htonl_def masks bit_simps, auto)
qed

definition htonll :: "u64 \<Rightarrow> u64" where
  "htonll w = push_bit 32 (ucast (htonl (ucast w))) OR ucast (htonl (ucast (drop_bit 32 w)))"

lemma htonll_htonll [simp]: "htonll (htonll w) = w"
proof -
  have halves: "ucast (htonll v) = htonl (ucast (drop_bit 32 v))" "ucast (drop_bit 32 (htonll v)) = htonl (ucast v)" for v
    by (rule bit_word_eqI; auto simp: htonll_def bit_simps dest: bit_imp_le_length)+
  have "htonll (htonll w) = push_bit 32 (ucast (ucast (drop_bit 32 w) :: u32)) OR ucast (ucast w :: u32)"
    unfolding htonll_def [of "htonll w"] halves by simp
  also have "\<dots> = w" by (rule bit_word_eqI) (auto simp: bit_simps)
  finally show ?thesis .
qed

end
