(* ===== verification/Mlx5_Ah.thy ===== *)
theory Mlx5_Ah
  imports Mprud_Setup Ibv_Rates Byte_Order
begin

unbundle bit_operations_syntax

section \<open>Address handles of the driver\<close>

text \<open>
  \<^verbatim>\<open>libmlx5-41mlnx1/src/verbs.c\<close>: an address handle is the address vector the device
  reads with every datagram: the encoding of the attributes, in network byte order. Every path of
  the multi-path layer has one.
\<close>

subsection \<open>Addresses\<close>

text \<open>A GID is 16 bytes; \<^verbatim>\<open>s6_addr32\<close> reads four of them.\<close>

definition le32 :: "u8 list \<Rightarrow> u32" where
  "le32 b = ucast (b ! 0) OR push_bit 8 (ucast (b ! 1)) OR push_bit 16 (ucast (b ! 2)) OR push_bit 24 (ucast (b ! 3))"

definition s6_addr32 :: "u8 list \<Rightarrow> nat \<Rightarrow> u32" where
  "s6_addr32 a i = le32 (take 4 (drop (4 * i) a))"

definition ipv6_addr_v4mapped :: "u8 list \<Rightarrow> bool" where
  "ipv6_addr_v4mapped a \<longleftrightarrow>
     (s6_addr32 a 0 OR s6_addr32 a 1) OR (s6_addr32 a 2 XOR htonl 0x0000FFFF) = 0 \<or>
     (s6_addr32 a 0 = htonl 0xFF0E0000 \<and>
      s6_addr32 a 1 OR (s6_addr32 a 2 XOR htonl 0x0000FFFF) = 0)"

lemma le32_inject:
  assumes "length b = 4" and "length c = 4"
  shows "le32 b = le32 c \<longleftrightarrow> b = c"
proof
  assume eq: "le32 b = le32 c"
  have byte: "ucast (drop_bit (8 * i) (le32 d)) = d ! i" if "length d = 4" "i < 4" for i d
  proof -
    have "i = 0 \<or> i = 1 \<or> i = 2 \<or> i = 3" using that(2) by auto
    then show ?thesis by (elim disjE; simp; intro bit_word_eqI) (auto simp: le32_def bit_simps dest: bit_imp_le_length)
  qed
  show "b = c" using assms byte [of b] byte [of c] eq by (intro nth_equalityI) auto
qed simp

lemma or_zero: "(v :: u32) OR w = 0 \<longleftrightarrow> v = 0 \<and> w = 0"
  by (auto simp: bit_eq_iff bit_simps)

lemma xor_zero: "(v :: u32) XOR w = 0 \<longleftrightarrow> v = w"
  by (auto simp: bit_eq_iff bit_simps)

lemma le32_consts: "htonl 0x0000FFFF = le32 [0, 0, 0xFF, 0xFF]" "htonl 0xFF0E0000 = le32 [0xFF, 0x0E, 0, 0]"
    "0 = le32 [0, 0, 0, 0]"
  by (code_simp; simp)+

lemma v4mapped_bytes:
  assumes "length a = 16"
  shows "ipv6_addr_v4mapped a \<longleftrightarrow> take 12 a = replicate 10 0 @ [0xFF, 0xFF] \<or>
    take 12 a = [0xFF, 0x0E] @ replicate 8 0 @ [0xFF, 0xFF]"
proof -
  obtain a0 a1 a2 a3 where a: "a = a0 @ a1 @ a2 @ a3" "length a0 = 4" "length a1 = 4" "length a2 = 4" "length a3 = 4"
  proof (rule that [of "take 4 a" "take 4 (drop 4 a)" "take 4 (drop 8 a)" "drop 12 a"])
    have "drop 4 (drop 4 a) = drop 8 a" "drop 4 (drop 8 a) = drop 12 a" by simp_all
    then show "a = take 4 a @ take 4 (drop 4 a) @ take 4 (drop 8 a) @ drop 12 a" by (metis append_take_drop_id)
  qed (use assms in simp_all)
  have zero: "le32 b = 0 \<longleftrightarrow> b = [0, 0, 0, 0]" if "length b = 4" for b
    using le32_inject [OF that, of "[0, 0, 0, 0]"] le32_consts(3) by simp
  have "ipv6_addr_v4mapped a \<longleftrightarrow> a1 = [0, 0, 0, 0] \<and> a2 = [0, 0, 0xFF, 0xFF] \<and> (a0 = [0, 0, 0, 0] \<or> a0 = [0xFF, 0x0E, 0, 0])"
    using a(2-5) unfolding ipv6_addr_v4mapped_def s6_addr32_def or_zero xor_zero le32_consts(1,2)
    by (auto simp: a(1) le32_inject zero)
  moreover have "take 12 a = a0 @ a1 @ a2" using a by simp
  moreover have "a0 @ a1 @ a2 = b0 @ b1 @ b2 \<longleftrightarrow> a0 = b0 \<and> a1 = b1 \<and> a2 = b2"
    if "length b0 = 4" "length b1 = 4" for b0 b1 b2
    using a(2,3) that by simp
  from this [of "[0, 0, 0, 0]" "[0, 0, 0, 0]" "[0, 0, 0xFF, 0xFF]"] this [of "[0xFF, 0x0E, 0, 0]" "[0, 0, 0, 0]" "[0, 0, 0xFF, 0xFF]"]
  have "a0 @ a1 @ a2 = replicate 10 0 @ [0xFF, 0xFF] \<longleftrightarrow> a0 = [0, 0, 0, 0] \<and> a1 = [0, 0, 0, 0] \<and> a2 = [0, 0, 0xFF, 0xFF]"
    "a0 @ a1 @ a2 = [0xFF, 0x0E] @ replicate 8 0 @ [0xFF, 0xFF] \<longleftrightarrow> a0 = [0xFF, 0x0E, 0, 0] \<and> a1 = [0, 0, 0, 0] \<and> a2 = [0, 0, 0xFF, 0xFF]"
    by (simp_all add: numeral_eq_Suc)
  ultimately show ?thesis by auto
qed

subsection \<open>Rates\<close>

text \<open>The table of the driver, and the rates its codes stand for in Mbit/s (0 is no limit).\<close>

definition ib_to_mlx5_rate_table :: "u8 list" where
  "ib_to_mlx5_rate_table = [0, 0, 7, 8, 9, 10, 11, 12, 13, 14, 15, 11, 13, 15, 0, 9, 15, 0, 0]"

definition ah_attr_to_mlx5_rate :: "nat \<Rightarrow> u8" where
  "ah_attr_to_mlx5_rate rate =
    (if length ib_to_mlx5_rate_table \<le> rate then 0 else ib_to_mlx5_rate_table ! rate)"

fun mlx5_rate_mbps :: "nat \<Rightarrow> int option" where
  "mlx5_rate_mbps code =
    (if code = 7 then Some 2500 else if code = 8 then Some 10000 else if code = 9 then Some 30000
     else if code = 10 then Some 5000 else if code = 11 then Some 20000 else if code = 12 then Some 40000
     else if code = 13 then Some 60000 else if code = 14 then Some 80000 else if code = 15 then Some 120000
     else None)"

definition mlx5_rates :: "int list" where
  "mlx5_rates = [2500, 5000, 10000, 20000, 30000, 40000, 60000, 80000, 120000]"

text \<open>
  The driver never limits a path below the rate asked for. For every rate of the interface, the
  device is told the least of its rates that is not below it, or no limit; and for the rates of the
  table (all but 28, 50, 400 and 600 Gbit/s) no limit is told only when none of its rates suffices.
\<close>

lemma mlx5_rate_suffices:
  "case mlx5_rate_mbps (unat (ah_attr_to_mlx5_rate (nat (rate_code r)))) of
     Some m \<Rightarrow> ibv_rate_to_mbps r \<le> m \<and> m \<in> set mlx5_rates \<and> list_all (\<lambda>k. k < ibv_rate_to_mbps r \<or> m \<le> k) mlx5_rates
   | None \<Rightarrow> r \<in> {IBV_RATE_MAX, IBV_RATE_28_GBPS, IBV_RATE_50_GBPS} \<or> 120000 < ibv_rate_to_mbps r"
  by (cases r) (simp_all add: ah_attr_to_mlx5_rate_def ib_to_mlx5_rate_table_def mlx5_rates_def)

subsection \<open>Address vectors\<close>

datatype link_layer = IBV_LINK_LAYER_UNSPECIFIED | IBV_LINK_LAYER_INFINIBAND | IBV_LINK_LAYER_ETHERNET

datatype gid_type = IBV_EXP_IB_ROCE_V1_GID_TYPE | IBV_EXP_ROCE_V2_GID_TYPE | IBV_EXP_ROCE_V1_5_GID_TYPE

text \<open>The key is set when a datagram is posted; the queue pair number then joins \<open>dqp_dct\<close>.\<close>

record mlx5_base_av =
  av_key :: u64
  dqp_dct :: u32
  stat_rate_sl :: u8
  fl_mlid :: u8
  rlid :: u16

record mlx5_grh_av =
  rmac :: "u8 list"
  tclass :: u8
  hop_limit :: u8
  grh_gid_fl :: u32
  rgid :: "u8 list"

record mlx5_wqe_av =
  base :: mlx5_base_av
  grh_sec :: mlx5_grh_av

record mlx5_ah =
  av :: mlx5_wqe_av
  kern_ah :: int

text \<open>A structure from \<^verbatim>\<open>calloc\<close>.\<close>

definition zero_ah :: mlx5_ah where
  "zero_ah = \<lparr>av = \<lparr>base = \<lparr>av_key = 0, dqp_dct = 0, stat_rate_sl = 0, fl_mlid = 0, rlid = 0\<rparr>,
     grh_sec = \<lparr>rmac = replicate 6 0, tclass = 0, hop_limit = 0, grh_gid_fl = 0, rgid = replicate 16 0\<rparr>\<rparr>,
     kern_ah = 0\<rparr>"

definition MLX5_EXTENDED_UD_AV :: u32 where "MLX5_EXTENDED_UD_AV = 0x80000000"

text \<open>
  What the driver asks: the number of ports and the form of address vectors of the context, memory
  for a handle, the link layer of a port, the type of a source GID, and the address the kernel
  resolves.
\<close>

record ah_env =
  num_ports :: nat
  compact_av :: int
  cmds_supp_uhw :: u64
  calloc_ok :: bool
  port_link_layer :: "u8 \<Rightarrow> link_layer option"
  gid_attr_type :: "u8 \<Rightarrow> u8 \<Rightarrow> gid_type option"
  cmd_create_ah :: "ibv_ah_attr \<Rightarrow> u8 list option"
  cmd_destroy_ah :: "mlx5_ah \<Rightarrow> int"

definition ah_base :: "ibv_ah_attr \<Rightarrow> link_layer \<Rightarrow> mlx5_base_av \<Rightarrow> mlx5_base_av" where
  "ah_base attr ll b =
    (let static_rate = ah_attr_to_mlx5_rate (unat (ah_static_rate attr));
         b1 = b\<lparr>rlid := htons (ah_dlid attr)\<rparr>
     in if ll = IBV_LINK_LAYER_ETHERNET then
          b1\<lparr>stat_rate_sl := push_bit 4 static_rate OR push_bit 1 (ah_sl attr AND 7)\<rparr>
        else
          b1\<lparr>fl_mlid := ah_src_path_bits attr AND 0x7F,
            stat_rate_sl := push_bit 4 static_rate OR ah_sl attr\<rparr>)"

definition ah_grh_sec :: "ibv_ah_attr \<Rightarrow> link_layer \<Rightarrow> gid_type \<Rightarrow> mlx5_grh_av \<Rightarrow> mlx5_grh_av" where
  "ah_grh_sec attr ll gt g0 =
    (let g = ah_grh attr;
         grh = (if ll = IBV_LINK_LAYER_ETHERNET then 0 else 1 :: u32);
         routed = (ll = IBV_LINK_LAYER_ETHERNET \<and> gt \<noteq> IBV_EXP_IB_ROCE_V1_GID_TYPE)
     in g0\<lparr>tclass := grh_traffic_class g,
          hop_limit := (if grh_hop_limit g < 2 \<and> routed then 0xFF else grh_hop_limit g),
          grh_gid_fl := htonl (push_bit 30 grh OR push_bit 20 (ucast (grh_sgid_index g) AND 0xFF)
            OR (grh_flow_label g AND 0xFFFFF)),
          rgid := (if routed \<and> ipv6_addr_v4mapped (grh_dgid g) then replicate 12 0 @ drop 12 (grh_dgid g)
            else grh_dgid g)\<rparr>)"

definition mlx5_create_ah_common :: "ah_env \<Rightarrow> ibv_ah_attr \<Rightarrow> link_layer \<Rightarrow> gid_type \<Rightarrow> mlx5_ah option" where
  "mlx5_create_ah_common env attr ll gt =
    (if unat (ah_port_num attr) < 1 \<or> num_ports env < unat (ah_port_num attr) then None
     else if ah_dlid attr = 0 \<and> ll \<noteq> IBV_LINK_LAYER_ETHERNET then None
     else if ah_is_global attr = 0 \<and> ll = IBV_LINK_LAYER_ETHERNET then None
     else if \<not> calloc_ok env then None
     else
       let wqe = av zero_ah;
           wqe1 = wqe\<lparr>base := ah_base attr ll (base wqe)\<rparr>;
           wqe2 = (if ah_is_global attr \<noteq> 0 then
               wqe1\<lparr>base := (base wqe1)\<lparr>dqp_dct := htonl MLX5_EXTENDED_UD_AV\<rparr>,
                 grh_sec := ah_grh_sec attr ll gt (grh_sec wqe1)\<rparr>
             else if compact_av env = 0 then
               wqe1\<lparr>base := (base wqe1)\<lparr>dqp_dct := htonl MLX5_EXTENDED_UD_AV\<rparr>\<rparr>
             else wqe1)
       in Some (zero_ah\<lparr>av := wqe2\<rparr>))"

definition mlx5_create_ah :: "ah_env \<Rightarrow> ibv_ah_attr \<Rightarrow> mlx5_ah option" where
  "mlx5_create_ah env attr = Option.bind (port_link_layer env (ah_port_num attr)) (\<lambda>ll.
     mlx5_create_ah_common env attr ll IBV_EXP_IB_ROCE_V1_GID_TYPE)"

text \<open>The extended attributes: the others, and a link-layer address.\<close>

datatype ll_address_type = LL_ADDRESS_UNKNOWN | LL_ADDRESS_IB | LL_ADDRESS_ETH | LL_ADDRESS_SIZE

record ibv_exp_ah_attr = ibv_ah_attr +
  ah_comp_mask :: u32
  ll_type :: ll_address_type
  ll_len :: u32
  ll_address :: "u8 list option"
  ah_vid :: u16

definition IBV_EXP_AH_ATTR_LL :: u32 where "IBV_EXP_AH_ATTR_LL = push_bit 0 1"
definition IBV_EXP_AH_ATTR_VID :: u32 where "IBV_EXP_AH_ATTR_VID = push_bit 1 1"
definition MLX5_USER_CMDS_SUPP_UHW_CREATE_AH :: u64 where "MLX5_USER_CMDS_SUPP_UHW_CREATE_AH = push_bit 1 1"

definition set_rmac :: "u8 list \<Rightarrow> mlx5_ah \<Rightarrow> mlx5_ah" where
  "set_rmac mac mah = mah\<lparr>av := (av mah)\<lparr>grh_sec := (grh_sec (av mah))\<lparr>rmac := mac\<rparr>\<rparr>\<rparr>"

definition mlx5_exp_create_ah :: "ah_env \<Rightarrow> ibv_exp_ah_attr \<Rightarrow> mlx5_ah option" where
  "mlx5_exp_create_ah env attr =
    Option.bind (gid_attr_type env (ah_port_num attr) (grh_sgid_index (ah_grh attr))) (\<lambda>gt.
    Option.bind (port_link_layer env (ah_port_num attr)) (\<lambda>ll.
    Option.bind (mlx5_create_ah_common env (ibv_ah_attr.truncate attr) ll gt) (\<lambda>mah.
    if ah_comp_mask attr AND IBV_EXP_AH_ATTR_LL \<noteq> 0 \<and> ll_len attr \<noteq> 0 then
      if ll_type attr \<noteq> LL_ADDRESS_ETH \<or> ll \<noteq> IBV_LINK_LAYER_ETHERNET then None
      else if ll_len attr \<noteq> 6 then None
      else (case ll_address attr of None \<Rightarrow> None | Some a \<Rightarrow> Some (set_rmac (take 6 a) mah))
    else Some mah)))"

text \<open>Giving a handle back: the result, and whether its memory was freed.\<close>

definition mlx5_destroy_ah :: "ah_env \<Rightarrow> mlx5_ah \<Rightarrow> int \<times> bool" where
  "mlx5_destroy_ah env mah =
    (let err = (if kern_ah mah \<noteq> 0 then cmd_destroy_ah env mah else 0)
     in if err \<noteq> 0 then (err, False) else (0, True))"

definition mlx5_exp_create_kah :: "ah_env \<Rightarrow> ibv_exp_ah_attr \<Rightarrow> mlx5_ah option" where
  "mlx5_exp_create_kah env attr =
    (if cmds_supp_uhw env AND MLX5_USER_CMDS_SUPP_UHW_CREATE_AH = 0 then None
     else
       Option.bind (gid_attr_type env (ah_port_num attr) (grh_sgid_index (ah_grh attr))) (\<lambda>gt.
       Option.bind (mlx5_create_ah_common env (ibv_ah_attr.truncate attr) IBV_LINK_LAYER_ETHERNET gt) (\<lambda>mah.
       Option.bind (cmd_create_ah env (ibv_ah_attr.truncate attr)) (\<lambda>dmac.
       Some (set_rmac (take 6 dmac) (mah\<lparr>kern_ah := 1\<rparr>))))))"

subsection \<open>What the device reads\<close>

text \<open>The fields of an address vector as the device decodes them.\<close>

definition av_dlid :: "mlx5_wqe_av \<Rightarrow> u16" where "av_dlid w = htons (rlid (base w))"
definition av_rate :: "mlx5_wqe_av \<Rightarrow> u8" where "av_rate w = drop_bit 4 (stat_rate_sl (base w))"
definition av_eth_prio :: "mlx5_wqe_av \<Rightarrow> u8" where "av_eth_prio w = drop_bit 1 (take_bit 4 (stat_rate_sl (base w)))"
definition av_flow :: "mlx5_wqe_av \<Rightarrow> u32" where "av_flow w = take_bit 20 (htonl (grh_gid_fl (grh_sec w)))"
definition av_sgid :: "mlx5_wqe_av \<Rightarrow> u8" where
  "av_sgid w = ucast (take_bit 8 (drop_bit 20 (htonl (grh_gid_fl (grh_sec w)))))"
definition av_has_grh :: "mlx5_wqe_av \<Rightarrow> bool" where "av_has_grh w \<longleftrightarrow> bit (htonl (grh_gid_fl (grh_sec w))) 30"

lemmas av_defs = av_dlid_def av_rate_def av_eth_prio_def av_flow_def av_sgid_def av_has_grh_def

lemma rate_bound: "ah_attr_to_mlx5_rate k = take_bit 4 (ah_attr_to_mlx5_rate k)"
proof -
  have "list_all (\<lambda>w. take_bit 4 w = w) ib_to_mlx5_rate_table" by (code_simp; simp)
  then show ?thesis by (simp add: ah_attr_to_mlx5_rate_def list_all_length)
qed

lemma stat_rate_fields:
  fixes r sl :: u8
  shows "drop_bit 4 (push_bit 4 (take_bit 4 r)) = take_bit 4 r"
    and "drop_bit 4 (take_bit 3 sl * 2) = 0"
    and "take_bit 4 (push_bit 4 (take_bit 4 r)) = 0"
    and "drop_bit (Suc 0) (take_bit 4 (take_bit 3 sl * 2)) = take_bit 3 sl"
proof -
  show "drop_bit 4 (push_bit 4 (take_bit 4 r)) = take_bit 4 r" "take_bit 4 (push_bit 4 (take_bit 4 r)) = 0"
    by (rule bit_word_eqI; auto simp: bit_simps)+
  have "drop_bit 4 (push_bit k (take_bit 3 sl)) = 0"
    "drop_bit k (take_bit 4 (push_bit k (take_bit 3 sl))) = take_bit 3 sl" if "0 < k" "k < 2" for k
    by (rule bit_word_eqI; use that in \<open>auto simp: bit_simps\<close>)+
  from this [of "Suc 0"] show "drop_bit 4 (take_bit 3 sl * 2) = 0"
    "drop_bit (Suc 0) (take_bit 4 (take_bit 3 sl * 2)) = take_bit 3 sl" by simp_all
qed

lemma gid_fl_fields:
  fixes f :: u32 and i :: u8
  shows "take_bit 20 (push_bit 30 g OR push_bit 20 (take_bit 8 (ucast i)) OR take_bit 20 f) = take_bit 20 f"
    and "(ucast (take_bit 8 (drop_bit 20 (push_bit 30 g OR push_bit 20 (take_bit 8 (ucast i)) OR take_bit 20 f))) :: u8) = i"
    and "bit (push_bit 30 g OR push_bit 20 (take_bit 8 (ucast i)) OR take_bit 20 f) 30 \<longleftrightarrow> bit g 0"
proof -
  show "take_bit 20 (push_bit 30 g OR push_bit 20 (take_bit 8 (ucast i)) OR take_bit 20 f) = take_bit 20 f"
    by (rule bit_word_eqI) (auto simp: bit_simps)
  show "(ucast (take_bit 8 (drop_bit 20 (push_bit 30 g OR push_bit 20 (take_bit 8 (ucast i)) OR take_bit 20 f))) :: u8) = i"
    by (rule bit_word_eqI) (auto simp: bit_simps)
  show "bit (push_bit 30 g OR push_bit 20 (take_bit 8 (ucast i)) OR take_bit 20 f) 30 \<longleftrightarrow> bit g 0"
    by (simp add: bit_simps)
qed

lemma created_fields:
  assumes "mlx5_create_ah_common env attr ll gt = Some mah"
  shows "rlid (base (av mah)) = htons (ah_dlid attr)"
    and "stat_rate_sl (base (av mah)) = push_bit 4 (ah_attr_to_mlx5_rate (unat (ah_static_rate attr))) OR
      (if ll = IBV_LINK_LAYER_ETHERNET then push_bit 1 (ah_sl attr AND 7) else ah_sl attr)"
    and "fl_mlid (base (av mah)) = (if ll = IBV_LINK_LAYER_ETHERNET then 0 else ah_src_path_bits attr AND 0x7F)"
    and "ah_is_global attr = 0 \<or> dqp_dct (base (av mah)) = htonl MLX5_EXTENDED_UD_AV"
    and "ah_is_global attr = 0 \<or> (\<exists>g. grh_sec (av mah) = ah_grh_sec attr ll gt g)"
    and "kern_ah mah = 0"
  using assms by (auto simp: mlx5_create_ah_common_def Let_def ah_base_def zero_ah_def split: if_splits)

lemma created_decodes:
  assumes Some: "mlx5_create_ah_common env attr ll gt = Some mah"
  shows "kern_ah mah = 0 \<and> av_dlid (av mah) = ah_dlid attr \<and>
        av_rate (av mah) = ah_attr_to_mlx5_rate (unat (ah_static_rate attr))
          OR (if ll = IBV_LINK_LAYER_ETHERNET then 0 else drop_bit 4 (ah_sl attr)) \<and>
        (if ll = IBV_LINK_LAYER_ETHERNET then av_eth_prio (av mah) = take_bit 3 (ah_sl attr)
         else fl_mlid (base (av mah)) = take_bit 7 (ah_src_path_bits attr)) \<and>
        (if ah_is_global attr = 0 then True
         else av_flow (av mah) = take_bit 20 (grh_flow_label (ah_grh attr)) \<and>
           av_sgid (av mah) = grh_sgid_index (ah_grh attr) \<and>
           av_has_grh (av mah) = (ll \<noteq> IBV_LINK_LAYER_ETHERNET) \<and>
           tclass (grh_sec (av mah)) = grh_traffic_class (ah_grh attr) \<and>
           hop_limit (grh_sec (av mah)) =
             (if grh_hop_limit (ah_grh attr) < 2 \<and> ll = IBV_LINK_LAYER_ETHERNET \<and> gt \<noteq> IBV_EXP_IB_ROCE_V1_GID_TYPE
              then 0xFF else grh_hop_limit (ah_grh attr)) \<and>
           rgid (grh_sec (av mah)) =
             (if ll = IBV_LINK_LAYER_ETHERNET \<and> gt \<noteq> IBV_EXP_IB_ROCE_V1_GID_TYPE \<and> ipv6_addr_v4mapped (grh_dgid (ah_grh attr))
              then replicate 12 0 @ drop 12 (grh_dgid (ah_grh attr)) else grh_dgid (ah_grh attr)) \<and>
           dqp_dct (base (av mah)) = htonl MLX5_EXTENDED_UD_AV)"
proof -
  obtain r where r: "ah_attr_to_mlx5_rate (unat (ah_static_rate attr)) = take_bit 4 r" using rate_bound by blast
  note f = created_fields [OF Some]
  have "av_dlid (av mah) = ah_dlid attr" by (simp add: av_defs f)
  moreover have "av_rate (av mah) = ah_attr_to_mlx5_rate (unat (ah_static_rate attr))
      OR (if ll = IBV_LINK_LAYER_ETHERNET then 0 else drop_bit 4 (ah_sl attr))"
    by (simp add: av_defs f r stat_rate_fields masks)
  moreover have "if ll = IBV_LINK_LAYER_ETHERNET then av_eth_prio (av mah) = take_bit 3 (ah_sl attr)
      else fl_mlid (base (av mah)) = take_bit 7 (ah_src_path_bits attr)"
    by (simp add: av_defs f r stat_rate_fields masks)
  moreover have "ah_is_global attr = 0 \<or> (av_flow (av mah) = take_bit 20 (grh_flow_label (ah_grh attr)) \<and>
      av_sgid (av mah) = grh_sgid_index (ah_grh attr) \<and> av_has_grh (av mah) = (ll \<noteq> IBV_LINK_LAYER_ETHERNET))"
  proof (cases "ah_is_global attr = 0")
    case False
    have "htonl (grh_gid_fl (grh_sec (av mah))) = push_bit 30 (if ll = IBV_LINK_LAYER_ETHERNET then 0 else 1) OR
        push_bit 20 (take_bit 8 (ucast (grh_sgid_index (ah_grh attr)))) OR take_bit 20 (grh_flow_label (ah_grh attr))"
      using False f(5) by (auto simp: ah_grh_sec_def Let_def masks)
    then show ?thesis unfolding av_defs by (simp only: gid_fl_fields) simp
  qed simp
  moreover have "ah_is_global attr = 0 \<or> (tclass (grh_sec (av mah)) = grh_traffic_class (ah_grh attr) \<and>
      hop_limit (grh_sec (av mah)) =
        (if grh_hop_limit (ah_grh attr) < 2 \<and> ll = IBV_LINK_LAYER_ETHERNET \<and> gt \<noteq> IBV_EXP_IB_ROCE_V1_GID_TYPE
         then 0xFF else grh_hop_limit (ah_grh attr)) \<and>
      rgid (grh_sec (av mah)) =
        (if ll = IBV_LINK_LAYER_ETHERNET \<and> gt \<noteq> IBV_EXP_IB_ROCE_V1_GID_TYPE \<and> ipv6_addr_v4mapped (grh_dgid (ah_grh attr))
         then replicate 12 0 @ drop 12 (grh_dgid (ah_grh attr)) else grh_dgid (ah_grh attr)))"
    using f(5) by (cases "ah_is_global attr = 0") (auto simp: ah_grh_sec_def Let_def)
  moreover have "kern_ah mah = 0" "ah_is_global attr = 0 \<or> dqp_dct (base (av mah)) = htonl MLX5_EXTENDED_UD_AV"
    using f(4,6) by simp_all
  ultimately show ?thesis by (cases "ah_is_global attr = 0") simp_all
qed

text \<open>
  C20: what the device decodes from an address vector are the attributes of the handle: the
  destination, the table's rate, the service level (3 bits as the priority on Ethernet; elsewhere
  what exceeds 4 bits runs into the rate), and for a global address the flow label's 20 bits, the
  index of the source GID, the traffic class, the hop limit (255 for one below 2 on a routed
  RoCE address) and the destination GID, reduced to the IPv4 address when it is a mapped one on RoCE
  v2. A handle is refused for a port that does not exist, without a destination on InfiniBand and
  without a global address on Ethernet.
\<close>

theorem ah_decodes:
  assumes "calloc_ok env"
  shows "case mlx5_create_ah_common env attr ll gt of
      None \<Rightarrow> ah_port_num attr = 0 \<or> num_ports env < unat (ah_port_num attr) \<or>
        (if ll = IBV_LINK_LAYER_ETHERNET then ah_is_global attr = 0 else ah_dlid attr = 0)
    | Some mah \<Rightarrow> kern_ah mah = 0 \<and> av_dlid (av mah) = ah_dlid attr \<and>
        av_rate (av mah) = ah_attr_to_mlx5_rate (unat (ah_static_rate attr))
          OR (if ll = IBV_LINK_LAYER_ETHERNET then 0 else drop_bit 4 (ah_sl attr)) \<and>
        (if ll = IBV_LINK_LAYER_ETHERNET then av_eth_prio (av mah) = take_bit 3 (ah_sl attr)
         else fl_mlid (base (av mah)) = take_bit 7 (ah_src_path_bits attr)) \<and>
        (if ah_is_global attr = 0 then True
         else av_flow (av mah) = take_bit 20 (grh_flow_label (ah_grh attr)) \<and>
           av_sgid (av mah) = grh_sgid_index (ah_grh attr) \<and>
           av_has_grh (av mah) = (ll \<noteq> IBV_LINK_LAYER_ETHERNET) \<and>
           tclass (grh_sec (av mah)) = grh_traffic_class (ah_grh attr) \<and>
           hop_limit (grh_sec (av mah)) =
             (if grh_hop_limit (ah_grh attr) < 2 \<and> ll = IBV_LINK_LAYER_ETHERNET \<and> gt \<noteq> IBV_EXP_IB_ROCE_V1_GID_TYPE
              then 0xFF else grh_hop_limit (ah_grh attr)) \<and>
           rgid (grh_sec (av mah)) =
             (if ll = IBV_LINK_LAYER_ETHERNET \<and> gt \<noteq> IBV_EXP_IB_ROCE_V1_GID_TYPE \<and> ipv6_addr_v4mapped (grh_dgid (ah_grh attr))
              then replicate 12 0 @ drop 12 (grh_dgid (ah_grh attr)) else grh_dgid (ah_grh attr)) \<and>
           dqp_dct (base (av mah)) = htonl MLX5_EXTENDED_UD_AV)"
proof (cases "mlx5_create_ah_common env attr ll gt")
  case None
  then show ?thesis using assms
    by (auto simp: mlx5_create_ah_common_def Let_def word_unat_eq_iff split: if_splits)
next
  case (Some mah)
  show ?thesis unfolding Some option.case by (rule created_decodes [OF Some])
qed

text \<open>One port, memory, and a RoCE v2 address everywhere.\<close>

definition sample_env :: ah_env where
  "sample_env = \<lparr>num_ports = 1, compact_av = 0, cmds_supp_uhw = 2, calloc_ok = True,
     port_link_layer = (\<lambda>_. Some IBV_LINK_LAYER_ETHERNET), gid_attr_type = (\<lambda>_ _. Some IBV_EXP_ROCE_V2_GID_TYPE),
     cmd_create_ah = (\<lambda>_. Some [2, 0, 0, 0, 0, 1]), cmd_destroy_ah = (\<lambda>_. 0)\<rparr>"

theorem ah_decodes_witness:
  "\<exists>mah. mlx5_create_ah_common sample_env (path_ah_attr (replicate 16 1)) IBV_LINK_LAYER_ETHERNET
      IBV_EXP_ROCE_V2_GID_TYPE = Some mah \<and> av_sgid (av mah) = 5 \<and> av_eth_prio (av mah) = 3"
  using ah_decodes [of sample_env "path_ah_attr (replicate 16 1)" IBV_LINK_LAYER_ETHERNET IBV_EXP_ROCE_V2_GID_TYPE]
  by (auto simp: sample_env_def path_ah_attr_def split: option.splits)

end
