(* ===== verification/Ring.thy ===== *)
theory Ring
  imports Fifo
begin

unbundle bit_operations_syntax

section \<open>Rings with free-running indices\<close>

text \<open>
  The rings the driver shares with the device have a power of two of slots. Their indices are
  32-bit counters that run free and wrap; a slot is found by masking.
\<close>

definition ring_at :: "nat \<Rightarrow> u32 \<Rightarrow> nat" where
  "ring_at b k = unat (k AND (2 ^ b - 1))"

definition ring_view :: "(nat \<Rightarrow> 'a) \<Rightarrow> nat \<Rightarrow> u32 \<Rightarrow> nat \<Rightarrow> 'a list" where
  "ring_view f b t n = map (\<lambda>j. f (ring_at b (t + of_nat j))) [0..<n]"

lemma ring_at_mod: "b < 32 \<Longrightarrow> ring_at b k = unat k mod 2 ^ b"
proof -
  have "k AND (2 ^ b - 1) = take_bit b k" by (simp add: take_bit_eq_mask mask_eq_exp_minus_1)
  then have "ring_at b k = take_bit b (unat k)" by (simp only: ring_at_def unsigned_take_bit_eq)
  then show ?thesis by (simp add: take_bit_eq_mod)
qed

lemma ring_at_add:
  assumes "b < 32"
  shows "ring_at b (t + of_nat j) = (unat t + j) mod 2 ^ b"
proof -
  have "unat (t + of_nat j) = (unat t + j) mod 2 ^ 32"
    by (simp add: unat_word_ariths unat_of_nat mod_add_right_eq)
  moreover have "(2 :: nat) ^ b dvd 2 ^ 32" using assms by (intro le_imp_power_dvd) simp
  ultimately show ?thesis using assms by (simp add: ring_at_mod mod_mod_cancel)
qed

lemma ring_at_less: "b < 32 \<Longrightarrow> ring_at b k < 2 ^ b"
  by (simp add: ring_at_mod)

lemma ring_at_inj:
  assumes "b < 32" and "i < 2 ^ b" and "j < 2 ^ b"
  shows "ring_at b (t + of_nat i) = ring_at b (t + of_nat j) \<longleftrightarrow> i = j"
proof
  assume "ring_at b (t + of_nat i) = ring_at b (t + of_nat j)"
  then have "(unat t + i) mod 2 ^ b = (unat t + j) mod 2 ^ b" by (simp add: ring_at_add [OF assms(1)])
  then have "i mod 2 ^ b = j mod 2 ^ b" by (rule add_mod_cancel) simp
  with assms show "i = j" by simp
qed simp

lemma length_ring_view [simp]: "length (ring_view f b t n) = n"
  by (simp add: ring_view_def)

lemma ring_view_push:
  assumes "b < 32" and "n < 2 ^ b"
  shows "ring_view (f(ring_at b (t + of_nat n) := e)) b t (Suc n) = ring_view f b t n @ [e]"
  using assms ring_at_inj [OF assms(1), of _ n t] by (auto simp: ring_view_def)

lemma ring_view_pop:
  "0 < n \<Longrightarrow> ring_view f b (t + 1) (n - 1) = tl (ring_view f b t n)"
  by (rule nth_equalityI) (auto simp: ring_view_def nth_tl algebra_simps)

lemma ring_view_front: "0 < n \<Longrightarrow> hd (ring_view f b t n) = f (ring_at b t)"
  by (simp add: ring_view_def hd_map)

lemma ring_view_cong: "(\<And>j. j < n \<Longrightarrow> f (ring_at b (t + of_nat j)) = g (ring_at b (t + of_nat j))) \<Longrightarrow>
    ring_view f b t n = ring_view g b t n"
  by (simp add: ring_view_def)

lemma unat_succ_diff: "unat (h - t) < 2 ^ 32 - 1 \<Longrightarrow> unat (h + 1 - t) = Suc (unat (h - t :: u32))"
proof -
  assume "unat (h - t) < 2 ^ 32 - 1"
  then have "unat (h - t + 1) = unat (h - t) + 1" by (subst unat_add_lem [THEN iffD1]) simp_all
  then show ?thesis by (simp add: algebra_simps)
qed

lemma unat_diff_succ: "h \<noteq> t \<Longrightarrow> unat (h - (t + 1)) = unat (h - t :: u32) - 1"
proof -
  assume "h \<noteq> t"
  then have "h - t \<noteq> 0" by simp
  then have "unat (h - t - 1) = unat (h - t) - 1" by (rule unat_minus_one)
  then show ?thesis by (simp add: algebra_simps)
qed

lemma ring_next: "t + of_nat (unat (h - t)) = (h :: u32)"
  by simp

end
