(* ===== verification/Mlx5_Rq.thy ===== *)
theory Mlx5_Rq
  imports Ring Byte_Order Mprud_Types
begin

unbundle bit_operations_syntax

section \<open>Receive queues of the driver\<close>

text \<open>
  \<^verbatim>\<open>mlx5_post_recv\<close> of \<^verbatim>\<open>libmlx5-41mlnx1/src/qp.c\<close> and what a receive completion does to the
  queue (\<^verbatim>\<open>handle_responder\<close> of \<^verbatim>\<open>cq.c\<close>): a ring of descriptors that the driver writes and
  the device reads, the identifiers of the requests beside it, and the doorbell record. A chain of
  requests is a list, the requests with all their scatter elements. Signed descriptors
  (\<^verbatim>\<open>wq_sig\<close>) are left out; the keys of implicit registrations come from a parameter.
\<close>

record mlx5_wqe_data_seg =
  ds_byte_count :: u32
  ds_lkey :: u32
  ds_addr :: u64

record mlx5_wq =
  wrid :: "nat \<Rightarrow> u64"
  wqe_cnt :: u32
  wq_head :: u32
  wq_tail :: u32
  max_post :: u32
  max_gs :: int
  wqes :: "nat \<Rightarrow> nat \<Rightarrow> mlx5_wqe_data_seg"

text \<open>
  A queue pair: whether it was created to ignore overflow of the receive queue, the receive
  doorbell, and whether the doorbell is held back (raw packets before the pair is ready).
\<close>

record mlx5_qp =
  rq :: mlx5_wq
  ignore_rq_overflow :: bool
  rcv_db :: u32
  hold_rcv_db :: bool

record recv_wr =
  rq_wr_id :: u64
  rq_sges :: "ibv_sge list"

definition MLX5_INVALID_LKEY :: u32 where "MLX5_INVALID_LKEY = 0x100"
definition ODP_GLOBAL_R_LKEY :: u32 where "ODP_GLOBAL_R_LKEY = 0x00000101"
definition ODP_GLOBAL_W_LKEY :: u32 where "ODP_GLOBAL_W_LKEY = 0x00000102"
definition ENOMEM :: int where "ENOMEM = 12"
definition EINVAL :: int where "EINVAL = 22"

definition mlx5_wq_overflow :: "nat \<Rightarrow> mlx5_wq \<Rightarrow> bool" where
  "mlx5_wq_overflow nreq wq \<longleftrightarrow> \<not> (wq_head wq - wq_tail wq) + of_nat nreq < max_post wq"

definition set_odp_data_ptr_seg :: "(u32 \<Rightarrow> u64 \<Rightarrow> u32 \<Rightarrow> u32 option) \<Rightarrow> ibv_sge \<Rightarrow> mlx5_wqe_data_seg option" where
  "set_odp_data_ptr_seg real_lkey sg = map_option (\<lambda>lkey.
     \<lparr>ds_byte_count = htonl (sge_length sg), ds_lkey = htonl lkey, ds_addr = htonll (sge_addr sg)\<rparr>)
     (real_lkey (sge_lkey sg) (sge_addr sg) (sge_length sg))"

definition set_data_ptr_seg :: "(u32 \<Rightarrow> u64 \<Rightarrow> u32 \<Rightarrow> u32 option) \<Rightarrow> ibv_sge \<Rightarrow> u32 \<Rightarrow> mlx5_wqe_data_seg option" where
  "set_data_ptr_seg real_lkey sg offset =
    (if sge_lkey sg = ODP_GLOBAL_R_LKEY \<or> sge_lkey sg = ODP_GLOBAL_W_LKEY then set_odp_data_ptr_seg real_lkey sg
     else Some \<lparr>ds_byte_count = htonl (sge_length sg - offset), ds_lkey = htonl (sge_lkey sg),
       ds_addr = htonll (sge_addr sg + ucast offset)\<rparr>)"

definition data_seg_end :: mlx5_wqe_data_seg where
  "data_seg_end = \<lparr>ds_byte_count = 0, ds_lkey = htonl MLX5_INVALID_LKEY, ds_addr = 0\<rparr>"

text \<open>
  The loop over the scatter elements: empty ones are skipped. The result says whether all of
  them were written, and how many.
\<close>

fun fill_scat :: "(u32 \<Rightarrow> u64 \<Rightarrow> u32 \<Rightarrow> u32 option) \<Rightarrow> ibv_sge list \<Rightarrow> nat \<Rightarrow> (nat \<Rightarrow> mlx5_wqe_data_seg) \<Rightarrow>
    bool \<times> nat \<times> (nat \<Rightarrow> mlx5_wqe_data_seg)" where
  "fill_scat real_lkey [] j scat = (True, j, scat)"
| "fill_scat real_lkey (sg # sgs) j scat =
    (if sge_length sg = 0 then fill_scat real_lkey sgs j scat
     else case set_data_ptr_seg real_lkey sg 0 of
       None \<Rightarrow> (False, Suc j, scat)
     | Some seg \<Rightarrow> fill_scat real_lkey sgs (Suc j) (scat(j := seg)))"

text \<open>
  The loop over the chain: the error, the requests from the first that was not accepted on
  (\<^verbatim>\<open>bad_wr\<close>), and how many were accepted. The head moves at the end only.
\<close>

fun post_chain :: "(u32 \<Rightarrow> u64 \<Rightarrow> u32 \<Rightarrow> u32 option) \<Rightarrow> bool \<Rightarrow> recv_wr list \<Rightarrow> nat \<Rightarrow> u32 \<Rightarrow> mlx5_wq \<Rightarrow>
    int \<times> recv_wr list \<times> nat \<times> mlx5_wq" where
  "post_chain real_lkey ignore [] nreq ind wq = (0, [], nreq, wq)"
| "post_chain real_lkey ignore (wr # wrs) nreq ind wq =
    (if \<not> ignore \<and> mlx5_wq_overflow nreq wq then (ENOMEM, wr # wrs, nreq, wq)
     else if max_gs wq < int (length (rq_sges wr)) then (EINVAL, wr # wrs, nreq, wq)
     else case fill_scat real_lkey (rq_sges wr) 0 (wqes wq (unat ind)) of
       (False, j, scat) \<Rightarrow> (- 1, wr # wrs, nreq, wq\<lparr>wqes := (wqes wq)(unat ind := scat)\<rparr>)
     | (True, j, scat) \<Rightarrow>
         let scat' = (if int j < max_gs wq then scat(j := data_seg_end) else scat);
             wq' = wq\<lparr>wqes := (wqes wq)(unat ind := scat'), wrid := (wrid wq)(unat ind := rq_wr_id wr)\<rparr>
         in post_chain real_lkey ignore wrs (Suc nreq) ((ind + 1) AND (wqe_cnt wq - 1)) wq')"

definition mlx5_post_recv_device :: "(u32 \<Rightarrow> u64 \<Rightarrow> u32 \<Rightarrow> u32 option) \<Rightarrow> recv_wr list \<Rightarrow> mlx5_qp \<Rightarrow>
    int \<times> recv_wr list \<times> mlx5_qp" where
  "mlx5_post_recv_device real_lkey wrs qp =
    (case post_chain real_lkey (ignore_rq_overflow qp) wrs 0 (wq_head (rq qp) AND (wqe_cnt (rq qp) - 1)) (rq qp) of
       (err, bad, nreq, wq) \<Rightarrow>
         if nreq = 0 then (err, bad, qp\<lparr>rq := wq\<rparr>)
         else
           let head = wq_head wq + of_nat nreq
           in (err, bad, qp\<lparr>rq := wq\<lparr>wq_head := head\<rparr>,
             rcv_db := (if hold_rcv_db qp then rcv_db qp else htonl (head AND 0xFFFF))\<rparr>))"

text \<open>The hook of the multi-path layer: without the last argument a post goes to the layer.\<close>

definition mlx5_post_recv :: "('a \<Rightarrow> 'r) \<Rightarrow> ('a \<Rightarrow> 'r) \<Rightarrow> int \<Rightarrow> 'a \<Rightarrow> 'r" where
  "mlx5_post_recv layer device skip_mprud a = (if skip_mprud = 0 then layer a else device a)"

text \<open>A receive completion takes the oldest request out of the ring and reports its identifier; the
  slot passes through 16 bits.\<close>

definition rq_complete :: "mlx5_qp \<Rightarrow> u64 \<times> mlx5_qp" where
  "rq_complete qp =
    (let wq = rq qp; wqe_ctr = (ucast (wq_tail wq AND (wqe_cnt wq - 1)) :: u16)
     in (wrid wq (unat wqe_ctr), qp\<lparr>rq := wq\<lparr>wq_tail := wq_tail wq + 1\<rparr>\<rparr>))"

subsection \<open>What the device reads\<close>

text \<open>
  The requests in the ring, oldest first: identifier, and the descriptor up to the first invalid
  element, which is how far the device follows it.
\<close>

definition scat_list :: "int \<Rightarrow> (nat \<Rightarrow> mlx5_wqe_data_seg) \<Rightarrow> mlx5_wqe_data_seg list" where
  "scat_list gs w = takeWhile (\<lambda>d. ds_lkey d \<noteq> htonl MLX5_INVALID_LKEY) (map w [0..<nat gs])"

definition rq_entry :: "mlx5_wq \<Rightarrow> nat \<Rightarrow> u64 \<times> mlx5_wqe_data_seg list" where
  "rq_entry wq i = (wrid wq i, scat_list (max_gs wq) (wqes wq i))"

definition rq_content :: "nat \<Rightarrow> mlx5_wq \<Rightarrow> (u64 \<times> mlx5_wqe_data_seg list) list" where
  "rq_content b wq = ring_view (rq_entry wq) b (wq_tail wq) (unat (wq_head wq - wq_tail wq))"

definition seg_of :: "ibv_sge \<Rightarrow> mlx5_wqe_data_seg" where
  "seg_of sg = \<lparr>ds_byte_count = htonl (sge_length sg), ds_lkey = htonl (sge_lkey sg), ds_addr = htonll (sge_addr sg)\<rparr>"

definition entry_of :: "recv_wr \<Rightarrow> u64 \<times> mlx5_wqe_data_seg list" where
  "entry_of wr = (rq_wr_id wr, map seg_of (filter (\<lambda>sg. sge_length sg \<noteq> 0) (rq_sges wr)))"

definition plain_sge :: "ibv_sge \<Rightarrow> bool" where
  "plain_sge sg \<longleftrightarrow> sge_lkey sg \<notin> {MLX5_INVALID_LKEY, ODP_GLOBAL_R_LKEY, ODP_GLOBAL_W_LKEY}"

definition good_wr :: "int \<Rightarrow> recv_wr \<Rightarrow> bool" where
  "good_wr gs wr \<longleftrightarrow> int (length (rq_sges wr)) \<le> gs \<and> list_all plain_sge (rq_sges wr)"

definition wq_ok :: "nat \<Rightarrow> nat \<Rightarrow> int \<Rightarrow> mlx5_wq \<Rightarrow> bool" where
  "wq_ok b cap gs wq \<longleftrightarrow> b \<le> 16 \<and> cap \<le> 2 ^ b \<and> wqe_cnt wq = 2 ^ b \<and> max_post wq = of_nat cap \<and> max_gs wq = gs \<and>
     unat (wq_head wq - wq_tail wq) \<le> cap"

lemma fill_scat_plain:
  assumes "list_all plain_sge sgs"
  shows "fill_scat rl sgs j scat = (True, j + length (filter (\<lambda>sg. sge_length sg \<noteq> 0) sgs),
    \<lambda>i. if j \<le> i \<and> i < j + length (filter (\<lambda>sg. sge_length sg \<noteq> 0) sgs)
        then map seg_of (filter (\<lambda>sg. sge_length sg \<noteq> 0) sgs) ! (i - j) else scat i)"
  using assms
proof (induction sgs arbitrary: j scat)
  case (Cons sg sgs)
  show ?case
  proof (cases "sge_length sg = 0")
    case False
    have "set_data_ptr_seg rl sg 0 = Some (seg_of sg)"
      using Cons.prems by (simp add: set_data_ptr_seg_def plain_sge_def seg_of_def)
    with False Cons.IH Cons.prems show ?thesis
      by (auto simp: fun_eq_iff nth_Cons')
  qed (use Cons in \<open>simp cong: if_cong\<close>)
qed (auto simp: fun_eq_iff)

lemma scat_list_filled:
  assumes "list_all plain_sge sgs" and "int (length sgs) \<le> gs"
    and "fill_scat rl sgs 0 scat = (t, j, scat1)"
  shows "t \<and> scat_list gs (if int j < gs then scat1(j := data_seg_end) else scat1) =
    map seg_of (filter (\<lambda>sg. sge_length sg \<noteq> 0) sgs)"
proof -
  let ?ne = "filter (\<lambda>sg. sge_length sg \<noteq> 0) sgs"
  have f: "t" "j = length ?ne" "scat1 = (\<lambda>i. if i < length ?ne then map seg_of ?ne ! i else scat i)"
    using fill_scat_plain [OF assms(1), of rl 0 scat] assms(3) by auto
  have len: "int (length ?ne) \<le> gs" using assms(2) length_filter_le [of "\<lambda>sg. sge_length sg \<noteq> 0" sgs] by linarith
  have valid: "ds_lkey d \<noteq> htonl MLX5_INVALID_LKEY" if "d \<in> set (map seg_of ?ne)" for d
  proof -
    from that obtain sg where "sg \<in> set sgs" "d = seg_of sg" by auto
    with assms(1) have "sge_lkey sg \<noteq> MLX5_INVALID_LKEY" "d = seg_of sg" by (auto simp: list_all_iff plain_sge_def)
    moreover have "x = y" if "htonl x = htonl y" for x y using arg_cong [OF that, of htonl] by simp
    ultimately show ?thesis by (auto simp: seg_of_def)
  qed
  let ?w = "if int j < gs then scat1(j := data_seg_end) else scat1"
  have split: "map ?w [0..<nat gs] = map seg_of ?ne @ map ?w [length ?ne..<nat gs]"
  proof -
    have "[0..<nat gs] = [0..<length ?ne] @ [length ?ne..<nat gs]"
      using len upt_add_eq_append [of 0 "length ?ne" "nat gs - length ?ne"] by simp
    moreover have "map ?w [0..<length ?ne] = map seg_of ?ne" by (rule nth_equalityI) (auto simp: f)
    ultimately show ?thesis by simp
  qed
  show ?thesis
  proof (cases "int j < gs")
    case True
    then have "[length ?ne..<nat gs] = length ?ne # [Suc (length ?ne)..<nat gs]" using f(2) by (simp add: upt_conv_Cons)
    moreover have "ds_lkey (?w (length ?ne)) = htonl MLX5_INVALID_LKEY" using True f(2) by (simp add: data_seg_end_def)
    ultimately show ?thesis
      unfolding scat_list_def split using f(1) valid by (simp add: takeWhile_append)
  next
    case False
    then have "nat gs = length ?ne" using len f(2) by simp
    then show ?thesis unfolding scat_list_def split using f(1) valid by (simp add: takeWhile_eq_all_conv)
  qed
qed

lemma overflow_iff:
  assumes "wq_ok b cap gs wq" and "unat (wq_head wq - wq_tail wq) + n \<le> cap"
  shows "mlx5_wq_overflow n wq \<longleftrightarrow> unat (wq_head wq - wq_tail wq) + n = cap"
proof -
  have "(2 :: nat) ^ b \<le> 2 ^ 16" using assms(1) by (intro power_increasing) (simp_all add: wq_ok_def)
  then have cap: "cap \<le> 65536" using assms(1) by (simp add: wq_ok_def)
  then have "unat (of_nat n :: u32) = n" "unat (max_post wq) = cap"
    using assms by (simp_all add: wq_ok_def unat_of_nat_u32)
  moreover have "unat (wq_head wq - wq_tail wq + of_nat n) = unat (wq_head wq - wq_tail wq) + n"
    using cap assms(2) calculation(1) by (subst unat_add_lem [THEN iffD1]) simp_all
  ultimately show ?thesis using assms(2) by (simp add: mlx5_wq_overflow_def word_less_nat_alt)
qed

text \<open>The requests of a chain that find room join the view; the head has not moved yet.\<close>

definition chain_view :: "nat \<Rightarrow> nat \<Rightarrow> mlx5_wq \<Rightarrow> (u64 \<times> mlx5_wqe_data_seg list) list" where
  "chain_view b n wq = ring_view (rq_entry wq) b (wq_tail wq) (unat (wq_head wq - wq_tail wq) + n)"

lemma ring_index_bits:
  assumes "wqe_cnt wq = 2 ^ b" and "b \<le> 16"
  shows "unat (k AND (wqe_cnt wq - 1)) = ring_at b k"
    and "((k AND (wqe_cnt wq - 1)) + 1) AND (wqe_cnt wq - 1) = (k + 1) AND (wqe_cnt wq - 1)"
proof -
  show "unat (k AND (wqe_cnt wq - 1)) = ring_at b k" by (simp add: ring_at_def assms(1))
  have "ring_at b ((k AND (2 ^ b - 1)) + 1) = ring_at b (k + 1)"
    using assms(2) ring_at_add [of b "k AND (2 ^ b - 1)" 1] ring_at_add [of b k 1] ring_at_mod [of b k]
    by (simp add: ring_at_def [of b k] mod_Suc_eq)
  then show "((k AND (wqe_cnt wq - 1)) + 1) AND (wqe_cnt wq - 1) = (k + 1) AND (wqe_cnt wq - 1)"
    by (simp add: ring_at_def assms(1) word_unat_eq_iff)
qed

lemma post_chain_room:
  assumes "wq_ok b cap gs wq" and "unat (wq_head wq - wq_tail wq) + n \<le> cap" and "list_all (good_wr gs) wrs"
    and "ind = (wq_head wq + of_nat n) AND (wqe_cnt wq - 1)"
  shows "\<exists>wq'. post_chain rl False wrs n ind wq =
      (if length wrs \<le> cap - (unat (wq_head wq - wq_tail wq) + n) then 0 else ENOMEM,
       drop (cap - (unat (wq_head wq - wq_tail wq) + n)) wrs,
       n + min (length wrs) (cap - (unat (wq_head wq - wq_tail wq) + n)), wq') \<and>
    chain_view b (n + min (length wrs) (cap - (unat (wq_head wq - wq_tail wq) + n))) wq' =
      chain_view b n wq @ map entry_of (take (cap - (unat (wq_head wq - wq_tail wq) + n)) wrs) \<and>
    wq_ok b cap gs wq' \<and> wq_head wq' = wq_head wq \<and> wq_tail wq' = wq_tail wq"
  using assms
proof (induction wrs arbitrary: n ind wq)
  case (Cons wr wrs)
  let ?cur = "unat (wq_head wq - wq_tail wq)"
  show ?case
  proof (cases "?cur + n = cap")
    case True
    then show ?thesis using overflow_iff [OF Cons.prems(1,2)] Cons.prems(1) by simp
  next
    case False
    then have room: "\<not> mlx5_wq_overflow n wq" "?cur + n < cap"
      using overflow_iff [OF Cons.prems(1,2)] Cons.prems(2) by simp_all
    have ok: "b \<le> 16" "wqe_cnt wq = 2 ^ b" "max_gs wq = gs" "cap \<le> 2 ^ b" using Cons.prems(1) by (simp_all add: wq_ok_def)
    have good: "list_all plain_sge (rq_sges wr)" "int (length (rq_sges wr)) \<le> gs" "list_all (good_wr gs) wrs"
      using Cons.prems(3) by (simp_all add: good_wr_def [of gs wr])
    obtain j scat where scat: "fill_scat rl (rq_sges wr) 0 (wqes wq (unat ind)) = (True, j, scat)"
      using fill_scat_plain [OF good(1)] by blast
    define scat' where "scat' = (if int j < gs then scat(j := data_seg_end) else scat)"
    have segs: "scat_list gs scat' = map seg_of (filter (\<lambda>sg. sge_length sg \<noteq> 0) (rq_sges wr))"
      using scat_list_filled [OF good(1,2) scat] by (simp add: scat'_def)
    define wq1 where "wq1 = wq\<lparr>wqes := (wqes wq)(unat ind := scat'), wrid := (wrid wq)(unat ind := rq_wr_id wr)\<rparr>"
    have same: "wq_head wq1 = wq_head wq" "wq_tail wq1 = wq_tail wq" "wqe_cnt wq1 = wqe_cnt wq"
      by (simp_all add: wq1_def)
    have ok1: "wq_ok b cap gs wq1" using Cons.prems(1) by (simp add: wq_ok_def wq1_def)
    have at: "unat ind = ring_at b (wq_tail wq + of_nat (?cur + n))"
      using ring_index_bits(1) [OF ok(2,1)] by (simp add: Cons.prems(4))
    have "rq_entry wq1 = (rq_entry wq)(unat ind := entry_of wr)"
      using segs ok(3) by (auto simp: rq_entry_def entry_of_def wq1_def)
    then have view: "chain_view b (Suc n) wq1 = chain_view b n wq @ [entry_of wr]"
      using ring_view_push [of b "?cur + n" "rq_entry wq" "wq_tail wq" "entry_of wr"] room(2) ok at
      by (simp add: chain_view_def same)
    have ind1: "(ind + 1) AND (wqe_cnt wq - 1) = (wq_head wq1 + of_nat (Suc n)) AND (wqe_cnt wq1 - 1)"
      using ring_index_bits(2) [OF ok(2,1), of "wq_head wq + of_nat n"] by (simp add: Cons.prems(4) same add_ac)
    have step: "post_chain rl False (wr # wrs) n ind wq = post_chain rl False wrs (Suc n) ((ind + 1) AND (wqe_cnt wq - 1)) wq1"
      using room(1) good(2) scat ok(3) by (simp add: wq1_def scat'_def)
    have left: "cap - (?cur + n) = Suc (cap - (?cur + Suc n))" using room(2) by simp
    from Cons.IH [OF ok1 _ good(3) ind1] room(2) obtain wq' where "post_chain rl False wrs (Suc n) ((ind + 1) AND (wqe_cnt wq - 1)) wq1 =
        (if length wrs \<le> cap - (?cur + Suc n) then 0 else ENOMEM, drop (cap - (?cur + Suc n)) wrs,
         Suc n + min (length wrs) (cap - (?cur + Suc n)), wq')"
      "chain_view b (Suc n + min (length wrs) (cap - (?cur + Suc n))) wq' =
        chain_view b (Suc n) wq1 @ map entry_of (take (cap - (?cur + Suc n)) wrs)"
      "wq_ok b cap gs wq'" "wq_head wq' = wq_head wq" "wq_tail wq' = wq_tail wq"
      unfolding same by auto
    then show ?thesis unfolding step left view by (intro exI [of _ wq']) simp
  qed
qed (use assms in simp)

lemma head_moves:
  assumes "wq_ok b cap gs wq" and "unat (wq_head wq - wq_tail wq) + k \<le> cap"
  shows "unat (wq_head wq + of_nat k - wq_tail wq) = unat (wq_head wq - wq_tail wq) + k"
proof -
  have "(2 :: nat) ^ b \<le> 2 ^ 16" using assms(1) by (intro power_increasing) (simp_all add: wq_ok_def)
  then have "cap \<le> 65536" using assms(1) by (simp add: wq_ok_def)
  then have "unat (wq_head wq - wq_tail wq + of_nat k) = unat (wq_head wq - wq_tail wq) + k"
    using assms(2) by (subst unat_add_lem [THEN iffD1]) (simp_all add: unat_of_nat_u32)
  then show ?thesis by (simp add: algebra_simps)
qed

definition qp_ok :: "nat \<Rightarrow> nat \<Rightarrow> int \<Rightarrow> mlx5_qp \<Rightarrow> bool" where
  "qp_ok b cap gs qp \<longleftrightarrow> wq_ok b cap gs (rq qp) \<and> \<not> ignore_rq_overflow qp"

lemma post_recv_room:
  assumes "qp_ok b cap gs qp" and "list_all (good_wr gs) wrs"
  defines "room \<equiv> cap - length (rq_content b (rq qp))"
  shows "\<exists>qp'. mlx5_post_recv_device rl wrs qp = (if length wrs \<le> room then 0 else ENOMEM, drop room wrs, qp') \<and>
    rq_content b (rq qp') = rq_content b (rq qp) @ map entry_of (take room wrs) \<and> qp_ok b cap gs qp' \<and>
    wq_tail (rq qp') = wq_tail (rq qp) \<and> wq_head (rq qp') = wq_head (rq qp) + of_nat (min (length wrs) room) \<and>
    rcv_db qp' = (if min (length wrs) room = 0 \<or> hold_rcv_db qp then rcv_db qp
      else htonl (wq_head (rq qp') AND 0xFFFF))"
proof -
  let ?wq = "rq qp" and ?cur = "unat (wq_head (rq qp) - wq_tail (rq qp))"
  have ok: "wq_ok b cap gs ?wq" "\<not> ignore_rq_overflow qp" and cur: "?cur + 0 \<le> cap"
    using assms(1) by (simp_all add: qp_ok_def wq_ok_def)
  have room: "room = cap - ?cur" by (simp add: room_def rq_content_def)
  define k where "k = min (length wrs) room"
  have kr: "k \<le> room" "room \<le> cap - ?cur" by (simp_all add: k_def room)
  obtain wq' where p: "post_chain rl False wrs 0 (wq_head ?wq AND (wqe_cnt ?wq - 1)) ?wq =
      (if length wrs \<le> room then 0 else ENOMEM, drop room wrs, k, wq')"
    "chain_view b k wq' = chain_view b 0 ?wq @ map entry_of (take room wrs)"
    "wq_ok b cap gs wq'" "wq_head wq' = wq_head ?wq" "wq_tail wq' = wq_tail ?wq"
    using post_chain_room [OF ok(1) cur assms(2), of "wq_head ?wq AND (wqe_cnt ?wq - 1)" rl] by (auto simp: room k_def)
  define wq2 where "wq2 = wq'\<lparr>wq_head := wq_head wq' + of_nat k\<rparr>"
  have moved: "unat (wq_head wq2 - wq_tail wq2) = ?cur + k"
    using head_moves [OF p(3), of k] p(4,5) cur kr by (simp add: wq2_def)
  have entry: "rq_entry wq2 = rq_entry wq'" by (simp add: wq2_def rq_entry_def fun_eq_iff)
  have content: "rq_content b wq2 = rq_content b ?wq @ map entry_of (take room wrs)"
    using p(2) by (simp only: rq_content_def moved entry) (simp add: chain_view_def p(4,5) wq2_def)
  have ok2: "wq_ok b cap gs wq2" using p(3) moved cur kr by (simp add: wq_ok_def) (simp add: wq2_def)
  show ?thesis
  proof (cases "k = 0")
    case True
    then have "wq2 = wq'" by (simp add: wq2_def)
    then show ?thesis unfolding k_def [symmetric] using p(1,4,5) content ok2 ok(2) True
      by (intro exI [of _ "qp\<lparr>rq := wq'\<rparr>"]) (simp add: mlx5_post_recv_device_def qp_ok_def)
  next
    case False
    then show ?thesis unfolding k_def [symmetric] using p(1,4,5) content ok2 ok(2)
      by (intro exI [of _ "qp\<lparr>rq := wq2, rcv_db := (if hold_rcv_db qp then rcv_db qp else htonl (wq_head wq2 AND 0xFFFF))\<rparr>"])
        (simp add: mlx5_post_recv_device_def qp_ok_def wq2_def Let_def)
  qed
qed

lemma complete_front:
  assumes "qp_ok b cap gs qp" and "rq_content b (rq qp) \<noteq> []"
  shows "fst (rq_complete qp) = fst (hd (rq_content b (rq qp))) \<and>
    rq_content b (rq (snd (rq_complete qp))) = tl (rq_content b (rq qp)) \<and> qp_ok b cap gs (snd (rq_complete qp))"
proof -
  let ?wq = "rq qp"
  have ok: "wq_ok b cap gs ?wq" "b \<le> 16" "wqe_cnt ?wq = 2 ^ b" using assms(1) by (simp_all add: qp_ok_def wq_ok_def)
  have ne: "wq_head ?wq \<noteq> wq_tail ?wq" using assms(2) by (auto simp: rq_content_def ring_view_def)
  then have pos: "0 < unat (wq_head ?wq - wq_tail ?wq)" by (simp add: unat_gt_0)
  have less: "unat (wq_tail ?wq AND (wqe_cnt ?wq - 1)) < 2 ^ 16"
  proof -
    have "unat (wq_tail ?wq AND (wqe_cnt ?wq - 1)) < 2 ^ b"
      using ring_at_less [of b "wq_tail ?wq"] ok(2) by (simp add: ring_at_def ok(3))
    also have "(2 :: nat) ^ b \<le> 2 ^ 16" using ok(2) by (intro power_increasing) simp_all
    finally show ?thesis .
  qed
  then have slot: "unat (ucast (wq_tail ?wq AND (wqe_cnt ?wq - 1)) :: u16) = ring_at b (wq_tail ?wq)"
    by (simp add: unsigned_ucast_eq take_bit_nat_eq_self ring_at_def ok(3))
  have diff: "unat (wq_head ?wq - (wq_tail ?wq + 1)) = unat (wq_head ?wq - wq_tail ?wq) - 1" by (rule unat_diff_succ [OF ne])
  have "fst (rq_complete qp) = fst (hd (rq_content b ?wq))"
    using slot by (simp add: rq_complete_def Let_def rq_content_def ring_view_front [OF pos]) (simp add: rq_entry_def)
  moreover have "rq_content b (rq (snd (rq_complete qp))) = tl (rq_content b ?wq)"
    using ring_view_pop [OF pos, of "rq_entry ?wq" b "wq_tail ?wq"] diff
    by (simp add: rq_complete_def Let_def rq_content_def) (simp add: rq_entry_def [abs_def])
  moreover have "qp_ok b cap gs (snd (rq_complete qp))"
    using assms(1) diff by (auto simp: rq_complete_def Let_def qp_ok_def wq_ok_def)
  ultimately show ?thesis by blast
qed

text \<open>
  The ring as a queue of requests: each with the scatter list its identifier has in \<open>sgs\<close>; the
  device completes only what is there.
\<close>

definition rq_push :: "(u32 \<Rightarrow> u64 \<Rightarrow> u32 \<Rightarrow> u32 option) \<Rightarrow> (u64 \<Rightarrow> ibv_sge list) \<Rightarrow> u64 \<Rightarrow> mlx5_qp \<Rightarrow> mlx5_qp" where
  "rq_push rl sgs wid qp = snd (snd (mlx5_post_recv_device rl [\<lparr>rq_wr_id = wid, rq_sges = sgs wid\<rparr>] qp))"

definition rq_pop :: "mlx5_qp \<Rightarrow> mlx5_qp" where
  "rq_pop qp = (if wq_head (rq qp) = wq_tail (rq qp) then qp else snd (rq_complete qp))"

definition rq_ids :: "nat \<Rightarrow> mlx5_qp \<Rightarrow> u64 list" where
  "rq_ids b qp = map fst (rq_content b (rq qp))"

definition rq_ready :: "nat \<Rightarrow> nat \<Rightarrow> int \<Rightarrow> (u64 \<Rightarrow> ibv_sge list) \<Rightarrow> mlx5_qp \<Rightarrow> bool" where
  "rq_ready b cap gs sgs qp \<longleftrightarrow> qp_ok b cap gs qp \<and> (\<forall>wid. good_wr gs \<lparr>rq_wr_id = wid, rq_sges = sgs wid\<rparr>)"

lemma rq_push_law:
  assumes "rq_ready b cap gs sgs qp"
  shows "rq_ready b cap gs sgs (rq_push rl sgs wid qp) \<and>
    rq_ids b (rq_push rl sgs wid qp) = rq_ids b qp @ take (cap - length (rq_ids b qp)) [wid]"
proof -
  have "qp_ok b cap gs qp" "list_all (good_wr gs) [\<lparr>rq_wr_id = wid, rq_sges = sgs wid\<rparr>]"
    using assms by (simp_all add: rq_ready_def)
  from post_recv_room [OF this, of rl] obtain qp' where "rq_push rl sgs wid qp = qp'" "qp_ok b cap gs qp'"
    "rq_content b (rq qp') = rq_content b (rq qp) @ map entry_of (take (cap - length (rq_content b (rq qp)))
       [\<lparr>rq_wr_id = wid, rq_sges = sgs wid\<rparr>])"
    by (auto simp: rq_push_def)
  with assms show ?thesis
    by (simp add: rq_ready_def rq_ids_def) (simp add: take_Cons' entry_of_def)
qed

lemma rq_empty_iff: "rq_ids b qp = [] \<longleftrightarrow> wq_head (rq qp) = wq_tail (rq qp)"
  by (auto simp: rq_ids_def rq_content_def ring_view_def unat_eq_zero)

lemma rq_pop_law:
  assumes "rq_ready b cap gs sgs qp"
  shows "rq_ready b cap gs sgs (rq_pop qp)" and "rq_ids b qp \<noteq> [] \<Longrightarrow> rq_ids b (rq_pop qp) = tl (rq_ids b qp)"
    and "rq_ids b qp \<noteq> [] \<Longrightarrow> fst (rq_complete qp) = hd (rq_ids b qp)"
  using assms complete_front [of b cap gs qp] rq_empty_iff [of b qp]
  by (auto simp: rq_ready_def rq_pop_def rq_ids_def map_tl hd_map)

interpretation rq: bounded_fifo "rq_ids b" "rq_ready b cap gs sgs" cap "rq_push rl sgs" rq_pop for b cap gs sgs rl
proof
  fix qp wid
  assume ok: "rq_ready b cap gs sgs qp"
  show "rq_ids b (rq_push rl sgs wid qp) = rq_ids b qp @ [wid]" if "length (rq_ids b qp) < cap"
    using rq_push_law [OF ok] that by (cases "cap - length (rq_ids b qp)") simp_all
qed (simp_all add: rq_push_law rq_pop_law)

text \<open>A ring of two slots whose counters are about to wrap, and three requests.\<close>

definition small_rq :: mlx5_qp where
  "small_rq = \<lparr>rq = \<lparr>wrid = (\<lambda>_. 0), wqe_cnt = 2, wq_head = 0xFFFFFFFF, wq_tail = 0xFFFFFFFF, max_post = 2, max_gs = 1,
     wqes = (\<lambda>_ _. data_seg_end)\<rparr>, ignore_rq_overflow = False, rcv_db = 0, hold_rcv_db = False\<rparr>"

definition small_recv :: "u64 \<Rightarrow> recv_wr" where
  "small_recv wid = \<lparr>rq_wr_id = wid, rq_sges = [\<lparr>sge_addr = 0x1000 * wid, sge_length = 4096, sge_lkey = 7\<rparr>]\<rparr>"

lemma small_rq_ok: "qp_ok (Suc 0) 2 1 small_rq" "rq_content (Suc 0) (rq small_rq) = []" "wq_head (rq small_rq) = 0xFFFFFFFF"
    "rcv_db small_rq = 0" "hold_rcv_db small_rq = False"
  by (simp_all add: qp_ok_def wq_ok_def small_rq_def rq_content_def ring_view_def)

lemma small_recv_good: "good_wr 1 (small_recv wid)"
  by (simp add: good_wr_def small_recv_def plain_sge_def MLX5_INVALID_LKEY_def ODP_GLOBAL_R_LKEY_def ODP_GLOBAL_W_LKEY_def)

text \<open>
  C32: posting a chain of receives. On a well-formed ring with room for some more requests, a chain of
  requests that fit the descriptors is accepted as far as the room goes: the ring then holds the
  old requests followed by the accepted ones, each with its identifier and a descriptor the device
  reads as exactly its non-empty scatter elements in order; the first request not accepted is reported
  with \<^verbatim>\<open>ENOMEM\<close>; and the doorbell tells the device the new head, in network byte order.
\<close>

theorem post_recv_chain:
  assumes "qp_ok b cap gs qp" and "list_all (good_wr gs) wrs" and "length (rq_content b (rq qp)) + room = cap"
  shows "\<exists>qp'. mlx5_post_recv_device rl wrs qp = (if length wrs \<le> room then 0 else ENOMEM, drop room wrs, qp') \<and>
    rq_content b (rq qp') = rq_content b (rq qp) @ map entry_of (take room wrs) \<and> qp_ok b cap gs qp' \<and>
    rcv_db qp' = (if min (length wrs) room = 0 \<or> hold_rcv_db qp then rcv_db qp
      else htonl ((wq_head (rq qp) + of_nat (min (length wrs) room)) AND 0xFFFF))"
proof -
  have "cap - length (rq_content b (rq qp)) = room" using assms(3) by simp
  with post_recv_room [OF assms(1,2), of rl] show ?thesis by auto
qed

theorem post_recv_chain_witness:
  "\<exists>qp'. mlx5_post_recv_device (\<lambda>_ _ _. None) [small_recv 1, small_recv 2, small_recv 3] small_rq = (ENOMEM, [small_recv 3], qp') \<and>
    rq_content (Suc 0) (rq qp') = [entry_of (small_recv 1), entry_of (small_recv 2)] \<and> rcv_db qp' = htonl 1"
  using post_recv_chain [OF small_rq_ok(1), of "[small_recv 1, small_recv 2, small_recv 3]" 2 "\<lambda>_ _ _. None"]
  by (auto simp add: small_rq_ok small_recv_good)

text \<open>
  C28: receives complete in the order they were posted. Over any run of posts, within the room of the
  ring, and completions of requests that are there, the identifiers reported are the first of those
  posted, in their order, across any number of turns of the ring and of its 32-bit counters.
\<close>

theorem receives_in_order:
  assumes "rq_ready b cap gs sgs qp" and "fifo_legal cap (length (rq_ids b qp)) xs"
  shows "fifo_outputs (rq_push rl sgs) rq_pop (\<lambda>q. fst (rq_complete q)) xs qp =
      take (pops xs) (rq_ids b qp @ pushed xs) \<and>
    rq_ids b (fifo_run (rq_push rl sgs) rq_pop xs qp) = drop (pops xs) (rq_ids b qp @ pushed xs)"
  using rq.run_outputs [OF _ assms, of "\<lambda>q. fst (rq_complete q)"] rq.run_content [OF assms] rq_pop_law(3)
  by blast

theorem receives_in_order_witness:
  "fifo_outputs (rq_push (\<lambda>_ _ _. None) (\<lambda>wid. rq_sges (small_recv wid))) rq_pop (\<lambda>q. fst (rq_complete q))
     [Push 1, Push 2, Pop, Push 3, Pop, Pop] small_rq = [1, 2, 3]"
proof -
  have "\<lparr>rq_wr_id = wid, rq_sges = rq_sges (small_recv wid)\<rparr> = small_recv wid" for wid by (simp add: small_recv_def)
  then have "rq_ready (Suc 0) 2 1 (\<lambda>wid. rq_sges (small_recv wid)) small_rq"
    by (simp add: rq_ready_def small_rq_ok(1) small_recv_good)
  moreover have "rq_ids (Suc 0) small_rq = []" by (simp add: rq_ids_def small_rq_ok(2))
  ultimately show ?thesis
    using receives_in_order [of "Suc 0" 2 1 "\<lambda>wid. rq_sges (small_recv wid)" small_rq "[Push 1, Push 2, Pop, Push 3, Pop, Pop]"]
    by (simp add: pops_def)
qed

end
