(* ===== verification/Mlx5_Wqe.thy ===== *)
theory Mlx5_Wqe
  imports Mlx5_Ah Mlx5_Rq
begin

unbundle bit_operations_syntax

section \<open>Send descriptors of the driver\<close>

text \<open>
  The bytes of a send descriptor: the buffer of a send queue, the segments the driver writes into it
  (\<^verbatim>\<open>mlx5dv.h\<close>, \<^verbatim>\<open>mlx5.h\<close>, \<^verbatim>\<open>qp.c\<close>) and what the device reads from them. A buffer is
  a function from offsets to bytes; the queue ends at an offset \<open>e\<close>, and a store or a load that does
  not lie inside it is a fault.
\<close>

type_synonym buf = "nat \<Rightarrow> u8"

subsection \<open>Bytes\<close>

definition le_bytes :: "nat \<Rightarrow> 'a::len word \<Rightarrow> u8 list" where
  "le_bytes n w = map (\<lambda>i. ucast (drop_bit (8 * i) w)) [0..<n]"

fun of_le :: "u8 list \<Rightarrow> 'a::len word" where
  "of_le [] = 0"
| "of_le (b # bs) = ucast b OR push_bit 8 (of_le bs)"

lemma length_le_bytes [simp]: "length (le_bytes n w) = n"
  by (simp add: le_bytes_def)

lemma le_bytes_Suc: "le_bytes (Suc n) w = ucast w # le_bytes n (drop_bit 8 w)"
  by (rule nth_equalityI) (auto simp: le_bytes_def nth_Cons' algebra_simps drop_bit_drop_bit simp del: upt_Suc)

lemma of_le_bytes: "of_le (le_bytes n w) = take_bit (8 * n) w"
proof (induction n arbitrary: w)
  case 0
  then show ?case by (simp add: le_bytes_def)
next
  case (Suc n)
  show ?case by (rule bit_word_eqI) (auto simp: le_bytes_Suc Suc.IH bit_simps)
qed

lemma of_le_all [simp]:
  "of_le (le_bytes 2 w) = (w :: u16)" "of_le (le_bytes 4 v) = (v :: u32)" "of_le (le_bytes 8 u) = (u :: u64)"
  by (simp_all add: of_le_bytes take_bit_word_eq_self)

subsection \<open>Stores and loads\<close>

definition put :: "nat \<Rightarrow> nat \<Rightarrow> u8 list \<Rightarrow> buf \<Rightarrow> buf outcome" where
  "put e p bs buf = (if p + length bs \<le> e then ret (\<lambda>i. if p \<le> i \<and> i < p + length bs then bs ! (i - p) else buf i)
     else raise OutOfBounds)"

definition get :: "nat \<Rightarrow> nat \<Rightarrow> nat \<Rightarrow> buf \<Rightarrow> u8 list outcome" where
  "get e p n buf = (if p + n \<le> e then ret (map buf [p..<p + n]) else raise OutOfBounds)"

text \<open>What a queue that ends at \<open>e\<close> holds from \<open>st\<close> on, around the end.\<close>

definition ring_bytes :: "nat \<Rightarrow> nat \<Rightarrow> nat \<Rightarrow> buf \<Rightarrow> u8 list" where
  "ring_bytes e st n buf = map (\<lambda>k. buf ((st + k) mod e)) [0..<n]"

text \<open>The bytes \<open>bs\<close> have been written \<open>lo\<close> bytes from \<open>st\<close> on, around the end, and nothing else.\<close>

definition wrote :: "nat \<Rightarrow> nat \<Rightarrow> nat \<Rightarrow> u8 list \<Rightarrow> buf \<Rightarrow> buf \<Rightarrow> bool" where
  "wrote e st lo bs buf buf' \<longleftrightarrow> lo + length bs \<le> e \<and>
     (\<forall>j<e. buf' ((st + j) mod e) = (if lo \<le> j \<and> j < lo + length bs then bs ! (j - lo) else buf ((st + j) mod e))) \<and>
     (\<forall>i\<ge>e. buf' i = buf i)"

lemma length_ring_bytes [simp]: "length (ring_bytes e st n buf) = n"
  by (simp add: ring_bytes_def)

lemma put_wrote:
  assumes "lo + length bs \<le> e" and "p = (st + lo) mod e" and "p + length bs \<le> e"
  shows "\<exists>buf'. put e p bs buf = ret buf' \<and> wrote e st lo bs buf buf'"
proof (intro exI conjI)
  let ?buf = "\<lambda>i. if p \<le> i \<and> i < p + length bs then bs ! (i - p) else buf i"
  show "put e p bs buf = ret ?buf" using assms(3) by (simp add: put_def)
  have at: "(p \<le> (st + j) mod e \<and> (st + j) mod e < p + length bs) = (lo \<le> j \<and> j < lo + length bs)"
    "lo \<le> j \<Longrightarrow> j < lo + length bs \<Longrightarrow> (st + j) mod e - p = j - lo" if "j < e" for j
  proof -
    have e: "0 < e" using that by simp
    have sub: "(p + d) mod e = (st + (lo + d)) mod e" for d
      unfolding assms(2) mod_add_left_eq by (simp add: ac_simps)
    have hit: "(st + k) mod e = p + (k - lo)" if k: "lo \<le> k" "k < lo + length bs" for k
    proof -
      have "(st + (lo + (k - lo))) mod e = (p + (k - lo)) mod e" by (simp only: sub)
      moreover have "p + (k - lo) < e" using k assms(3) by linarith
      ultimately show ?thesis using k by simp
    qed
    show "lo \<le> j \<Longrightarrow> j < lo + length bs \<Longrightarrow> (st + j) mod e - p = j - lo" using hit by simp
    show "(p \<le> (st + j) mod e \<and> (st + j) mod e < p + length bs) = (lo \<le> j \<and> j < lo + length bs)"
    proof
      assume a: "p \<le> (st + j) mod e \<and> (st + j) mod e < p + length bs"
      define d where "d = (st + j) mod e - p"
      have d: "(st + j) mod e = p + d" "d < length bs" using a by (simp_all add: d_def less_diff_conv2)
      have "(st + (lo + d)) mod e = p + (lo + d - lo)" using d(2) by (intro hit) simp_all
      then have "(st + j) mod e = (st + (lo + d)) mod e" using d(1) by simp
      then have "j mod e = (lo + d) mod e" by (rule add_mod_cancel) (rule e)
      moreover have "lo + d < e" using d(2) assms(1) by simp
      ultimately have "j = lo + d" using that by simp
      with d(2) show "lo \<le> j \<and> j < lo + length bs" by simp
    next
      assume "lo \<le> j \<and> j < lo + length bs"
      with hit [of j] show "p \<le> (st + j) mod e \<and> (st + j) mod e < p + length bs" by linarith
    qed
  qed
  show "wrote e st lo bs buf ?buf"
    unfolding wrote_def using assms(1,3) by (auto simp: at)
qed

lemma put_nil [simp]: "p \<le> e \<Longrightarrow> put e p [] buf = ret buf"
  by (auto simp: put_def fun_eq_iff)

lemma wrote_append:
  assumes "wrote e st lo bs b b'" and "wrote e st (lo + length bs) bs' b' b''"
  shows "wrote e st lo (bs @ bs') b b''"
  using assms unfolding wrote_def by (auto simp: nth_append)

lemma wrote_before:
  assumes "wrote e st (lo + length bs) bs' b b'" and "wrote e st lo bs b' b''"
  shows "wrote e st lo (bs @ bs') b b''"
  using assms unfolding wrote_def by (auto simp: nth_append)

lemma wrote_nil [simp]: "lo \<le> e \<Longrightarrow> wrote e st lo [] b b"
  by (auto simp: wrote_def)

lemma wrote_read:
  assumes "wrote e st lo bs b b'" and "length bs = n"
  shows "ring_bytes e ((st + lo) mod e) n b' = bs"
proof (rule nth_equalityI)
  fix i assume "i < length (ring_bytes e ((st + lo) mod e) n b')"
  then have "i < n" by simp
  then show "ring_bytes e ((st + lo) mod e) n b' ! i = bs ! i"
    using assms by (simp add: ring_bytes_def wrote_def mod_add_left_eq add.assoc)
qed (use assms in simp)

lemma wrote_other:
  assumes "wrote e st lo bs b b'" and "j < e" and "\<not> (lo \<le> j \<and> j < lo + length bs)"
  shows "b' ((st + j) mod e) = b ((st + j) mod e)"
  using assms by (auto simp: wrote_def)

subsection \<open>Segments\<close>

definition set_ctrl_seg :: "u32 \<Rightarrow> u8 \<Rightarrow> u16 \<Rightarrow> u8 \<Rightarrow> u8 \<Rightarrow> u8 \<Rightarrow> u32 \<Rightarrow> u8 list" where
  "set_ctrl_seg qpn opcode idx opmod sz fm_ce_se imm =
    le_bytes 4 (htonl (push_bit 24 (ucast opmod) OR push_bit 8 (ucast idx) OR ucast opcode)) @
    le_bytes 4 (htonl (push_bit 8 qpn OR (ucast sz AND 0x3F))) @
    le_bytes 4 (htonl (ucast fm_ce_se)) @ le_bytes 4 imm"

definition calc_xor :: "u8 list \<Rightarrow> u8" where
  "calc_xor bs = fold (XOR) bs 0"

definition set_ctrl_seg_sig :: "nat \<Rightarrow> nat \<Rightarrow> u32 \<Rightarrow> u8 \<Rightarrow> u8 \<Rightarrow> u16 \<Rightarrow> u8 \<Rightarrow> u8 \<Rightarrow> u8 \<Rightarrow> u32 \<Rightarrow> buf \<Rightarrow> buf outcome" where
  "set_ctrl_seg_sig e p qpn wq_sig opcode idx opmod sz fm_ce_se imm buf =
    bindC (put e p (set_ctrl_seg qpn opcode idx opmod sz fm_ce_se imm) buf) (\<lambda>buf.
    if wq_sig = 0 then ret buf
    else bindC (get e p (unat sz * 16) buf) (\<lambda>bs.
      put e (p + 8) (le_bytes 4 (htonl (push_bit 24 (NOT (ucast (calc_xor bs))) OR ucast fm_ce_se))) buf))"

text \<open>The address vector, and what a datagram adds to that of its handle.\<close>

definition base_av_bytes :: "mlx5_base_av \<Rightarrow> u8 list" where
  "base_av_bytes b = le_bytes 8 (av_key b) @ le_bytes 4 (dqp_dct b) @ [stat_rate_sl b, fl_mlid b] @ le_bytes 2 (rlid b)"

definition grh_av_bytes :: "mlx5_grh_av \<Rightarrow> u8 list" where
  "grh_av_bytes g = replicate 4 0 @ rmac g @ [tclass g, hop_limit g] @ le_bytes 4 (grh_gid_fl g) @ rgid g"

definition has_grh :: "mlx5_ah \<Rightarrow> bool" where
  "has_grh ah \<longleftrightarrow> dqp_dct (base (av ah)) AND htonl MLX5_EXTENDED_UD_AV \<noteq> 0"

definition set_datagram_seg :: "mlx5_ah \<Rightarrow> u32 \<Rightarrow> u32 \<Rightarrow> u8 list" where
  "set_datagram_seg ah remote_qpn remote_qkey =
    (let b = base (av ah);
         b = b\<lparr>dqp_dct := dqp_dct b OR htonl remote_qpn,
           av_key := (av_key b AND 0xFFFFFFFF00000000) OR ucast (htonl remote_qkey)\<rparr>
     in base_av_bytes b @ (if has_grh ah then grh_av_bytes (grh_sec (av ah)) else []))"

definition data_seg_bytes :: "mlx5_wqe_data_seg \<Rightarrow> u8 list" where
  "data_seg_bytes d = le_bytes 4 (ds_byte_count d) @ le_bytes 4 (ds_lkey d) @ le_bytes 8 (ds_addr d)"

subsection \<open>The data of a request\<close>

text \<open>
  The scatter elements as segments; empty ones are skipped. The result is the error, the size of the
  descriptor so far in units of 16 bytes, and the buffer.
\<close>

fun set_data_non_inl_seg :: "(u32 \<Rightarrow> u64 \<Rightarrow> u32 \<Rightarrow> u32 option) \<Rightarrow> nat \<Rightarrow> ibv_sge list \<Rightarrow> nat \<Rightarrow> nat \<Rightarrow> buf \<Rightarrow>
    (int \<times> nat \<times> buf) outcome" where
  "set_data_non_inl_seg real_lkey e [] p sz buf = ret (0, sz, buf)"
| "set_data_non_inl_seg real_lkey e (sg # sgs) p sz buf =
    (let p = (if p = e then 0 else p)
     in if sge_length sg = 0 then set_data_non_inl_seg real_lkey e sgs p sz buf
        else case set_data_ptr_seg real_lkey sg 0 of
          None \<Rightarrow> ret (ENOMEM, sz, buf)
        | Some d \<Rightarrow> bindC (put e p (data_seg_bytes d) buf) (\<lambda>buf.
            set_data_non_inl_seg real_lkey e sgs (p + 16) (sz + 1) buf))"

definition mem_bytes :: "mem \<Rightarrow> u64 \<Rightarrow> nat \<Rightarrow> u8 list" where
  "mem_bytes m a n = map (\<lambda>i. m (a + of_nat i)) [0..<n]"

text \<open>
  The bytes themselves. A length is an \<^verbatim>\<open>int\<close> in the C code; \<^verbatim>\<open>memcpy\<close> of a negative one runs
  out of every buffer.
\<close>

definition inl_copy :: "nat \<Rightarrow> mem \<Rightarrow> u64 \<Rightarrow> int \<Rightarrow> nat \<Rightarrow> buf \<Rightarrow> (nat \<times> buf) outcome" where
  "inl_copy e m a len p buf =
    (if len < 0 then raise OutOfBounds
     else if int e < int p + len then
       let cp = e - p
       in bindC (put e p (mem_bytes m a cp) buf) (\<lambda>buf.
          bindC (put e 0 (mem_bytes m (a + of_nat cp) (nat len - cp)) buf) (\<lambda>buf. ret (nat len - cp, buf)))
     else bindC (put e p (mem_bytes m a (nat len)) buf) (\<lambda>buf. ret (p + nat len, buf)))"

fun inl_loop :: "mem \<Rightarrow> nat \<Rightarrow> u32 \<Rightarrow> ibv_sge list \<Rightarrow> u32 \<Rightarrow> nat \<Rightarrow> buf \<Rightarrow> (int \<times> u32 \<times> buf) outcome" where
  "inl_loop m e max_inline [] inl p buf = ret (0, inl, buf)"
| "inl_loop m e max_inline (sg # sgs) inl p buf =
    (let inl = inl + sge_length sg
     in if max_inline < inl then ret (ENOMEM, inl, buf)
        else bindC (inl_copy e m (sge_addr sg) (sint (sge_length sg)) p buf) (\<lambda>(p, buf).
          inl_loop m e max_inline sgs inl p buf))"

definition MLX5_INLINE_SEG :: u32 where "MLX5_INLINE_SEG = 0x80000000"

definition set_data_inl_seg :: "mem \<Rightarrow> nat \<Rightarrow> u32 \<Rightarrow> ibv_sge list \<Rightarrow> nat \<Rightarrow> nat \<Rightarrow> buf \<Rightarrow> (int \<times> nat \<times> buf) outcome" where
  "set_data_inl_seg m e max_inline sgs p sz buf =
    bindC (inl_loop m e max_inline sgs 0 (p + 4) buf) (\<lambda>(err, inl, buf).
    if err \<noteq> 0 then ret (err, sz, buf)
    else if inl = 0 then ret (0, sz, buf)
    else bindC (put e p (le_bytes 4 (htonl (inl OR MLX5_INLINE_SEG))) buf) (\<lambda>buf.
      ret (0, sz + (unat inl + 4 + 15) div 16, buf)))"

subsection \<open>What the device reads\<close>

text \<open>
  The device takes the bytes from the start of a descriptor on, around the end of the queue: the
  control segment with the size, the address vector, and segments, each a scatter element or, with the
  top bit of the first word set, that many bytes.
\<close>

datatype wqe_data = Ptr mlx5_wqe_data_seg | Inl "u8 list"

record sent_view =
  sv_opcode :: u8
  sv_idx :: u16
  sv_qpn :: u32
  sv_fm_ce_se :: u8
  sv_imm :: u32
  sv_base :: mlx5_base_av
  sv_grh :: "mlx5_grh_av option"
  sv_data :: "wqe_data list"

definition decode_base :: "u8 list \<Rightarrow> mlx5_base_av" where
  "decode_base bs = \<lparr>av_key = of_le (take 8 bs), dqp_dct = of_le (take 4 (drop 8 bs)), stat_rate_sl = bs ! 12,
     fl_mlid = bs ! 13, rlid = of_le (take 2 (drop 14 bs))\<rparr>"

definition decode_grh :: "u8 list \<Rightarrow> mlx5_grh_av" where
  "decode_grh bs = \<lparr>rmac = take 6 (drop 4 bs), tclass = bs ! 10, hop_limit = bs ! 11,
     grh_gid_fl = of_le (take 4 (drop 12 bs)), rgid = take 16 (drop 16 bs)\<rparr>"

definition decode_seg :: "u8 list \<Rightarrow> mlx5_wqe_data_seg" where
  "decode_seg bs = \<lparr>ds_byte_count = of_le (take 4 bs), ds_lkey = of_le (take 4 (drop 4 bs)), ds_addr = of_le (take 8 (drop 8 bs))\<rparr>"

function decode_data :: "u8 list \<Rightarrow> wqe_data list" where
  "decode_data bs =
    (if length bs < 16 then []
     else
       let bc = htonl (of_le (take 4 bs)); n = unat (take_bit 31 bc)
       in if bit bc 31 then Inl (take n (drop 4 bs)) # decode_data (drop (max 16 ((n + 4 + 15) div 16 * 16)) bs)
          else Ptr (decode_seg bs) # decode_data (drop 16 bs))"
  by auto
termination by (relation "measure length") auto

declare decode_data.simps [simp del]

definition decode_send :: "u8 list \<Rightarrow> sent_view" where
  "decode_send bs =
    (let w0 = htonl (of_le (take 4 bs)); w1 = htonl (of_le (take 4 (drop 4 bs)));
         body = take (16 * unat (w1 AND 0x3F) - 16) (drop 16 bs);
         b = decode_base body; ext = bit (htonl (dqp_dct b)) 31
     in \<lparr>sv_opcode = ucast w0, sv_idx = ucast (drop_bit 8 w0), sv_qpn = drop_bit 8 w1,
          sv_fm_ce_se = bs ! 11, sv_imm = of_le (take 4 (drop 12 bs)),
          sv_base = b, sv_grh = (if ext then Some (decode_grh (drop 16 body)) else None),
          sv_data = decode_data (drop (if ext then 48 else 16) body)\<rparr>)"

subsection \<open>The segments of a request\<close>

text \<open>The elements a device can take: their length leaves the top bit free.\<close>

definition sendable_sge :: "ibv_sge \<Rightarrow> bool" where
  "sendable_sge sg \<longleftrightarrow> sge_lkey sg \<noteq> ODP_GLOBAL_R_LKEY \<and> sge_lkey sg \<noteq> ODP_GLOBAL_W_LKEY \<and> \<not> bit (sge_length sg) 31"

definition send_segs :: "ibv_sge list \<Rightarrow> mlx5_wqe_data_seg list" where
  "send_segs sgs = map seg_of (filter (\<lambda>sg. sge_length sg \<noteq> 0) sgs)"

lemma length_data_seg_bytes [simp]: "length (data_seg_bytes d) = 16"
  by (simp add: data_seg_bytes_def)

lemma length_concat_segs [simp]: "length (concat (map data_seg_bytes ds)) = 16 * length ds"
  by (induction ds) simp_all

lemma send_segs_simps:
  "send_segs [] = []"
  "send_segs (sg # sgs) = (if sge_length sg = 0 then send_segs sgs else seg_of sg # send_segs sgs)"
  by (simp_all add: send_segs_def)

lemma non_inl_wrote:
  assumes "list_all sendable_sge sgs" and "16 dvd e" and "16 dvd p" and "p \<le> e" and "0 < e"
    and "(if p = e then 0 else p) = (st + lo) mod e" and "lo + 16 * length (send_segs sgs) \<le> e"
  shows "\<exists>buf'. set_data_non_inl_seg rl e sgs p sz buf = ret (0, sz + length (send_segs sgs), buf') \<and>
    wrote e st lo (concat (map data_seg_bytes (send_segs sgs))) buf buf'"
  using assms
proof (induction sgs arbitrary: p lo sz buf)
  case Nil
  then show ?case by (simp add: send_segs_simps)
next
  case (Cons sg sgs)
  let ?p = "if p = e then 0 else p"
  show ?case
  proof (cases "sge_length sg = 0")
    case True
    have p: "16 dvd ?p" "?p < e" using Cons.prems(3-5) by simp_all
    then have "(if ?p = e then 0 else ?p) = (st + lo) mod e" "?p \<le> e" unfolding Cons.prems(6) [symmetric] by simp_all
    from Cons.IH [OF _ Cons.prems(2) p(1) this(2) Cons.prems(5) this(1), of sz buf] Cons.prems True show ?thesis
      by (simp add: send_segs_simps Let_def)
  next
    case False
    have seg: "set_data_ptr_seg rl sg 0 = Some (seg_of sg)"
      using Cons.prems(1) by (simp add: set_data_ptr_seg_def sendable_sge_def seg_of_def)
    have p: "16 dvd ?p" "?p < e" using Cons.prems(3-5) by simp_all
    then have fit: "?p + 16 \<le> e" using Cons.prems(2) by (auto simp: dvd_def)
    have lo: "lo + 16 \<le> e" "(lo + 16) + 16 * length (send_segs sgs) \<le> e"
      using Cons.prems(7) False by (simp_all add: send_segs_simps)
    obtain b where b: "put e ?p (data_seg_bytes (seg_of sg)) buf = ret b" "wrote e st lo (data_seg_bytes (seg_of sg)) buf b"
      using put_wrote [of lo "data_seg_bytes (seg_of sg)" e ?p st buf] fit lo(1) Cons.prems(6) by auto
    have next_p: "(if ?p + 16 = e then 0 else ?p + 16) = (st + (lo + 16)) mod e"
    proof -
      have "(st + (lo + 16)) mod e = (?p + 16) mod e" unfolding Cons.prems(6) mod_add_left_eq by (simp add: add.assoc)
      also have "\<dots> = (if ?p + 16 = e then 0 else ?p + 16)" using fit by simp
      finally show ?thesis by simp
    qed
    from Cons.IH [OF _ Cons.prems(2) _ fit Cons.prems(5) next_p lo(2), of "sz + 1" b] Cons.prems(1) p
    obtain b' where "set_data_non_inl_seg rl e sgs (?p + 16) (sz + 1) b = ret (0, sz + 1 + length (send_segs sgs), b')"
      "wrote e st (lo + 16) (concat (map data_seg_bytes (send_segs sgs))) b b'" by auto
    with wrote_append [OF b(2)] b(1) seg False show ?thesis by (simp add: send_segs_simps Let_def)
  qed
qed

lemma decode_segs:
  assumes "list_all (\<lambda>d. \<not> bit (htonl (ds_byte_count d)) 31) ds"
  shows "decode_data (concat (map data_seg_bytes ds)) = map Ptr ds"
  using assms
proof (induction ds)
  case Nil
  then show ?case by (simp add: decode_data.simps)
next
  case (Cons d ds)
  have "decode_seg (data_seg_bytes d @ bs) = d" "take 4 (data_seg_bytes d @ bs) = le_bytes 4 (ds_byte_count d)" for bs
    by (simp_all add: decode_seg_def data_seg_bytes_def)
  with Cons show ?case by (subst decode_data.simps) (simp add: Let_def)
qed

lemma send_segs_plain:
  "list_all sendable_sge sgs \<Longrightarrow> list_all (\<lambda>d. \<not> bit (htonl (ds_byte_count d)) 31) (send_segs sgs)"
  by (induction sgs) (auto simp: send_segs_simps sendable_sge_def seg_of_def)

text \<open>Inline data: the bytes of all elements after each other.\<close>

definition sge_bytes :: "mem \<Rightarrow> ibv_sge list \<Rightarrow> u8 list" where
  "sge_bytes m sgs = concat (map (\<lambda>sg. mem_bytes m (sge_addr sg) (unat (sge_length sg))) sgs)"

lemma length_mem_bytes [simp]: "length (mem_bytes m a n) = n"
  by (simp add: mem_bytes_def)

lemma mem_bytes_0 [simp]: "mem_bytes m a 0 = []"
  by (simp add: mem_bytes_def)

lemma mem_bytes_split: "k \<le> n \<Longrightarrow> mem_bytes m a n = mem_bytes m a k @ mem_bytes m (a + of_nat k) (n - k)"
  by (rule nth_equalityI) (auto simp: mem_bytes_def nth_append ac_simps)

lemma sge_bytes_simps [simp]:
  "sge_bytes m [] = []" "sge_bytes m (sg # sgs) = mem_bytes m (sge_addr sg) (unat (sge_length sg)) @ sge_bytes m sgs"
  by (simp_all add: sge_bytes_def)

lemma inl_copy_wrote:
  assumes "p mod e = (st + lo) mod e" and "p \<le> e" and "0 < e" and "lo + n \<le> e"
  shows "\<exists>p' buf'. inl_copy e m a (int n) p buf = ret (p', buf') \<and> wrote e st lo (mem_bytes m a n) buf buf' \<and>
    p' mod e = (st + (lo + n)) mod e \<and> p' \<le> e"
proof -
  have ind: "(st + (lo + k)) mod e = (p + k) mod e" for k
  proof -
    have "(st + (lo + k)) mod e = ((st + lo) mod e + k) mod e" by (simp add: mod_simps add.assoc)
    then show ?thesis unfolding assms(1) [symmetric] by (simp add: mod_simps)
  qed
  show ?thesis
  proof (cases "e < p + n")
    case True
    define cp where "cp = e - p"
    have cp: "cp \<le> n" "p + cp = e" "0 + (n - cp) \<le> e" using True assms by (simp_all add: cp_def)
    have start: "(if p = e then 0 else p) = (st + lo) mod e" using ind [of 0] assms(2,3) by auto
    obtain b where b: "put e p (mem_bytes m a cp) buf = ret b" "wrote e st lo (mem_bytes m a cp) buf b"
    proof (cases "p = e")
      case True
      then have "cp = 0" by (simp add: cp_def)
      then show thesis using that [of buf] assms(2,4) by simp
    next
      case False
      have "lo + cp \<le> e" using cp(1) assms(4) by simp
      with put_wrote [of lo "mem_bytes m a cp" e p st buf] start cp(2) False that show thesis by auto
    qed
    have "(st + (lo + cp)) mod e = 0" unfolding ind cp(2) by simp
    with put_wrote [of "lo + cp" "mem_bytes m (a + of_nat cp) (n - cp)" e 0 st b] cp(1,3) assms(4) obtain b' where
      b': "put e 0 (mem_bytes m (a + of_nat cp) (n - cp)) b = ret b'"
        "wrote e st (lo + length (mem_bytes m a cp)) (mem_bytes m (a + of_nat cp) (n - cp)) b b'" by auto
    have "(n - cp) mod e = (st + (lo + n)) mod e"
    proof -
      have "p + n = e + (n - cp)" using cp by simp
      then show ?thesis unfolding ind by simp
    qed
    moreover have "inl_copy e m a (int n) p buf = ret (n - cp, b')"
      using True b b' by (simp add: inl_copy_def cp_def [symmetric] Let_def)
    moreover have "wrote e st lo (mem_bytes m a n) buf b'"
      unfolding mem_bytes_split [OF cp(1), of m a] by (rule wrote_append [OF b(2) b'(2)])
    ultimately show ?thesis using cp by auto
  next
    case False
    show ?thesis
    proof (cases "n = 0")
      case True
      then show ?thesis using assms False by (simp add: inl_copy_def)
    next
      case n: False
      have "p = (st + lo) mod e" using ind [of 0] False n by simp
      with put_wrote [of lo "mem_bytes m a n" e p st buf] False assms(4) ind [of n] show ?thesis
        by (auto simp: inl_copy_def)
    qed
  qed
qed

definition sge_total :: "ibv_sge list \<Rightarrow> nat" where
  "sge_total sgs = sum_list (map (\<lambda>sg. unat (sge_length sg)) sgs)"

lemma sge_total_simps [simp]: "sge_total [] = 0" "sge_total (sg # sgs) = unat (sge_length sg) + sge_total sgs"
  by (simp_all add: sge_total_def)

lemma length_sge_bytes [simp]: "length (sge_bytes m sgs) = sge_total sgs"
  by (induction sgs) simp_all

lemma sge_bytes_nil [simp]: "sge_bytes m sgs = [] \<longleftrightarrow> sge_total sgs = 0"
  unfolding length_0_conv [symmetric] length_sge_bytes ..

lemma inl_loop_wrote:
  assumes "unat inl + sge_total sgs \<le> unat mi" and "unat mi < 2 ^ 31"
    and "p mod e = (st + lo) mod e" and "p \<le> e" and "0 < e" and "lo + sge_total sgs \<le> e"
  shows "\<exists>buf'. inl_loop m e mi sgs inl p buf = ret (0, inl + of_nat (sge_total sgs), buf') \<and>
    wrote e st lo (sge_bytes m sgs) buf buf'"
  using assms
proof (induction sgs arbitrary: inl p lo buf)
  case Nil
  then show ?case by simp
next
  case (Cons sg sgs)
  let ?n = "unat (sge_length sg)"
  have inl: "unat (inl + sge_length sg) = unat inl + ?n"
    using Cons.prems(1,2) by (subst unat_add_lem [THEN iffD1]) simp_all
  with Cons.prems(1) have ok: "\<not> mi < inl + sge_length sg" by (simp add: word_less_nat_alt)
  have len: "sint (sge_length sg) = int ?n" using Cons.prems(1,2) by (intro sint_small_u32) simp
  obtain p' b where b: "inl_copy e m (sge_addr sg) (int ?n) p buf = ret (p', b)"
    "wrote e st lo (mem_bytes m (sge_addr sg) ?n) buf b" "p' mod e = (st + (lo + ?n)) mod e" "p' \<le> e"
    using inl_copy_wrote [OF Cons.prems(3-5), of ?n m "sge_addr sg" buf] Cons.prems(6) by auto
  from Cons.IH [OF _ Cons.prems(2) b(3,4) Cons.prems(5), of "inl + sge_length sg" b] Cons.prems(1,6) inl
  obtain b' where "inl_loop m e mi sgs (inl + sge_length sg) p' b = ret (0, inl + sge_length sg + of_nat (sge_total sgs), b')"
    "wrote e st (lo + ?n) (sge_bytes m sgs) b b'" by auto
  with b ok len wrote_append [of e st lo "mem_bytes m (sge_addr sg) ?n" buf b "sge_bytes m sgs" b'] show ?case
    by (simp add: Let_def add.assoc)
qed

definition inl_seg_bytes :: "u8 list \<Rightarrow> u8 list" where
  "inl_seg_bytes bs = (if bs = [] then [] else le_bytes 4 (htonl (of_nat (length bs) OR MLX5_INLINE_SEG)) @ bs)"

lemma inl_wrote:
  assumes "sge_total sgs \<le> unat mi" and "unat mi < 2 ^ 31" and "p = (st + lo) mod e" and "0 < e"
    and "p + 4 \<le> e" and "lo + 4 + sge_total sgs \<le> e"
  shows "\<exists>buf'. set_data_inl_seg m e mi sgs p sz buf =
      ret (0, sz + (if sge_total sgs = 0 then 0 else (sge_total sgs + 19) div 16), buf') \<and>
    wrote e st lo (inl_seg_bytes (sge_bytes m sgs)) buf buf'"
proof -
  have "(p + 4) mod e = (st + (lo + 4)) mod e" unfolding assms(3) by (simp add: mod_simps add.assoc)
  with inl_loop_wrote [of 0 sgs mi "p + 4" e st "lo + 4" m buf] assms obtain b where
    b: "inl_loop m e mi sgs 0 (p + 4) buf = ret (0, of_nat (sge_total sgs), b)" "wrote e st (lo + 4) (sge_bytes m sgs) buf b"
    by auto
  have n: "unat (of_nat (sge_total sgs) :: u32) = sge_total sgs" using assms(1,2) by (intro unat_of_nat_u32) simp
  show ?thesis
  proof (cases "sge_total sgs = 0")
    case True
    moreover have "lo \<le> e" using assms(6) by simp
    ultimately show ?thesis using b True by (auto simp: set_data_inl_seg_def inl_seg_bytes_def wrote_def)
  next
    case False
    then have nz: "(of_nat (sge_total sgs) :: u32) \<noteq> 0" using n by (metis unat_0)
    let ?h = "le_bytes 4 (htonl (of_nat (sge_total sgs) OR MLX5_INLINE_SEG))"
    obtain b' where b': "put e p ?h b = ret b'" "wrote e st lo ?h b b'"
      using put_wrote [of lo ?h e p st b] assms(3,5,6) by auto
    have "wrote e st lo (?h @ sge_bytes m sgs) buf b'" using b(2) b'(2) by (intro wrote_before) auto
    then show ?thesis using b b' n nz False
      by (simp add: set_data_inl_seg_def inl_seg_bytes_def add.commute add.left_commute)
  qed
qed

lemma decode_inl:
  assumes "bs \<noteq> []" and "length bs < 2 ^ 31" and "length (inl_seg_bytes bs @ pad) = (length bs + 19) div 16 * 16"
  shows "decode_data (inl_seg_bytes bs @ pad) = [Inl bs]"
proof -
  let ?w = "of_nat (length bs) OR MLX5_INLINE_SEG :: u32"
  have inl: "MLX5_INLINE_SEG = push_bit 31 1" by (simp add: MLX5_INLINE_SEG_def push_bit_eq_mult)
  have bit: "bit ?w 31" by (simp add: inl bit_simps)
  have "take_bit 31 ?w = take_bit 31 (of_nat (length bs))" by (rule bit_word_eqI) (auto simp: inl bit_simps)
  then have "unat (take_bit 31 ?w) = take_bit 31 (unat (of_nat (length bs) :: u32))" by (simp only: unsigned_take_bit_eq)
  moreover have "unat (of_nat (length bs) :: u32) = length bs" using assms(2) by (intro unat_of_nat_u32) simp
  ultimately have "unat (take_bit 31 ?w) = take_bit 31 (length bs)" by (simp only:)
  then have n: "unat (take_bit 31 ?w) = length bs" using assms(2) by (simp add: take_bit_nat_eq_self)
  have len: "16 \<le> length (inl_seg_bytes bs @ pad)" "length (inl_seg_bytes bs @ pad) = max 16 ((length bs + 4 + 15) div 16 * 16)"
    using assms(1,3) by (cases "length bs"; simp add: max_def)+
  have parts: "take 4 (inl_seg_bytes bs @ pad) = le_bytes 4 (htonl ?w)" "take (length bs) (drop 4 (inl_seg_bytes bs @ pad)) = bs"
    using assms(1) by (simp_all add: inl_seg_bytes_def)
  have "decode_data [] = []" by (simp add: decode_data.simps)
  then show ?thesis using len bit n parts by (subst decode_data.simps) (simp add: Let_def)
qed

subsection \<open>The control segment and the address vector\<close>

lemma length_set_ctrl_seg [simp]: "length (set_ctrl_seg qpn opcode idx opmod sz fm imm) = 16"
  by (simp add: set_ctrl_seg_def)

lemma htonl_or: "htonl (v OR w) = htonl v OR htonl w"
  by (rule bit_word_eqI) (auto simp: htonl_def bit_simps)

lemma bit_htonl_top: "bit (htonl w) 31 \<longleftrightarrow> bit w 7"
  by (auto simp: htonl_def masks bit_simps dest: bit_imp_le_length)

lemma has_grh_bit: "has_grh ah \<longleftrightarrow> bit (htonl (dqp_dct (base (av ah)))) 31"
proof -
  have "htonl MLX5_EXTENDED_UD_AV = push_bit 7 1"
    unfolding MLX5_EXTENDED_UD_AV_def by code_simp
  moreover have "w AND push_bit k 1 = (if bit w k then push_bit k 1 else 0)" for w :: u32 and k
    by (rule bit_word_eqI) (auto simp: bit_simps)
  moreover have "push_bit 7 1 \<noteq> (0 :: u32)" by (simp add: push_bit_eq_mult)
  ultimately show ?thesis unfolding has_grh_def bit_htonl_top by (simp only: split: if_splits) simp
qed

lemma ctrl_fields:
  fixes idx :: u16 and op fm :: u8 and qpn :: u32
  shows "(ucast (push_bit 24 (ucast (0 :: u8)) OR push_bit 8 (ucast idx) OR ucast op :: u32) :: u8) = op"
    and "(ucast (drop_bit 8 (push_bit 24 (ucast (0 :: u8)) OR push_bit 8 (ucast idx) OR ucast op :: u32)) :: u16) = idx"
    and "drop_bit 8 (push_bit 8 qpn OR (ucast sz AND 0x3F)) = take_bit 24 qpn"
    and "(push_bit 8 qpn OR (ucast (sz :: u8) AND 0x3F)) AND 0x3F = ucast sz AND 0x3F"
    and "(ucast (drop_bit 24 (htonl (ucast fm))) :: u8) = fm"
proof -
  have m: "(0x3F :: u32) = mask 6" by (simp add: mask_eq_exp_minus_1)
  show "(ucast (push_bit 24 (ucast (0 :: u8)) OR push_bit 8 (ucast idx) OR ucast op :: u32) :: u8) = op"
    "(ucast (drop_bit 8 (push_bit 24 (ucast (0 :: u8)) OR push_bit 8 (ucast idx) OR ucast op :: u32)) :: u16) = idx"
    by (rule bit_word_eqI; auto simp: bit_simps dest: bit_imp_le_length)+
  show "drop_bit 8 (push_bit 8 qpn OR (ucast sz AND 0x3F)) = take_bit 24 qpn"
    "(push_bit 8 qpn OR (ucast (sz :: u8) AND 0x3F)) AND 0x3F = ucast sz AND 0x3F"
    unfolding m by (rule bit_word_eqI; auto simp: bit_simps)+
  show "(ucast (drop_bit 24 (htonl (ucast fm))) :: u8) = fm"
    by (rule bit_word_eqI) (auto simp: htonl_def masks bit_simps)
qed

definition ud_base :: "mlx5_ah \<Rightarrow> u32 \<Rightarrow> u32 \<Rightarrow> mlx5_base_av" where
  "ud_base ah remote_qpn remote_qkey = (base (av ah))\<lparr>dqp_dct := dqp_dct (base (av ah)) OR htonl remote_qpn,
     av_key := (av_key (base (av ah)) AND 0xFFFFFFFF00000000) OR ucast (htonl remote_qkey)\<rparr>"

definition ah_bytes_ok :: "mlx5_ah \<Rightarrow> bool" where
  "ah_bytes_ok ah \<longleftrightarrow> length (rmac (grh_sec (av ah))) = 6 \<and> length (rgid (grh_sec (av ah))) = 16"

lemma datagram_seg_eq: "set_datagram_seg ah q k = base_av_bytes (ud_base ah q k) @
    (if has_grh ah then grh_av_bytes (grh_sec (av ah)) else [])"
  by (simp add: set_datagram_seg_def ud_base_def Let_def)

lemma length_base_av_bytes [simp]: "length (base_av_bytes b) = 16"
  by (simp add: base_av_bytes_def)

lemma length_datagram_seg: "ah_bytes_ok ah \<Longrightarrow> length (set_datagram_seg ah q k) = (if has_grh ah then 48 else 16)"
  by (simp add: datagram_seg_eq grh_av_bytes_def ah_bytes_ok_def)

lemma decode_base_bytes: "decode_base (base_av_bytes b @ bs) = b"
  by (simp add: decode_base_def base_av_bytes_def nth_append)

lemma decode_grh_bytes: "length (rmac g) = 6 \<Longrightarrow> length (rgid g) = 16 \<Longrightarrow> decode_grh (grh_av_bytes g @ bs) = g"
  by (simp add: decode_grh_def grh_av_bytes_def nth_append)

lemma units_fit: "n \<le> 63 \<Longrightarrow> unat (ucast (of_nat n :: u8) AND 0x3F :: u32) = n"
proof -
  assume n: "n \<le> 63"
  have m: "(0x3F :: u32) = mask 6" by (simp add: mask_eq_exp_minus_1)
  have u: "unat (ucast (of_nat n :: u8) :: u32) = n" using n
    by (simp add: unsigned_ucast_eq take_bit_nat_eq_self unat_of_nat)
  have "unat (ucast (of_nat n :: u8) AND 0x3F :: u32) = take_bit 6 (unat (ucast (of_nat n :: u8) :: u32))"
    unfolding m by (simp only: take_bit_eq_mask [symmetric] unsigned_take_bit_eq)
  also have "\<dots> = n" unfolding u using n by (simp add: take_bit_nat_eq_self)
  finally show ?thesis .
qed

text \<open>What the device reads back from the three parts of a descriptor.\<close>

lemma decode_send_eq:
  assumes "ah_bytes_ok ah" and "\<not> bit q 31" and "n \<le> 63" and "16 * n = 16 + length (set_datagram_seg ah q k) + length dat"
  shows "decode_send (set_ctrl_seg qpn op idx 0 (of_nat n) fm imm @ set_datagram_seg ah q k @ dat @ pad) =
    \<lparr>sv_opcode = op, sv_idx = idx, sv_qpn = take_bit 24 qpn, sv_fm_ce_se = fm, sv_imm = imm, sv_base = ud_base ah q k,
      sv_grh = (if has_grh ah then Some (grh_sec (av ah)) else None), sv_data = decode_data dat\<rparr>"
proof -
  let ?av = "set_datagram_seg ah q k"
  let ?c = "set_ctrl_seg qpn op idx 0 (of_nat n) fm imm"
  let ?bs = "?c @ ?av @ dat @ pad"
  note n = units_fit [OF assms(3)]
  have c: "take 4 ?bs = le_bytes 4 (htonl (push_bit 24 (ucast (0 :: u8)) OR push_bit 8 (ucast idx) OR ucast op))"
    "take 4 (drop 4 ?bs) = le_bytes 4 (htonl (push_bit 8 qpn OR (ucast (of_nat n :: u8) AND 0x3F)))"
    "?bs ! 11 = le_bytes 4 (htonl (ucast fm)) ! 3" "take 4 (drop 12 ?bs) = le_bytes 4 imm"
    by (simp_all add: set_ctrl_seg_def nth_append)
  have fm: "le_bytes 4 (htonl (ucast fm)) ! 3 = fm" by (simp add: le_bytes_def ctrl_fields)
  have body: "take (16 * n - 16) (drop 16 ?bs) = ?av @ dat" using assms(4) by simp
  have ext: "bit (htonl (dqp_dct (ud_base ah q k))) 31 = has_grh ah"
    using assms(2) by (simp add: ud_base_def htonl_or bit_or_iff has_grh_bit)
  have base: "decode_base (?av @ dat) = ud_base ah q k" by (simp add: datagram_seg_eq decode_base_bytes)
  have rest: "drop (if has_grh ah then 48 else 16) (?av @ dat) = dat" using length_datagram_seg [OF assms(1)] by simp
  have grh: "has_grh ah \<Longrightarrow> decode_grh (drop 16 (?av @ dat)) = grh_sec (av ah)"
    using assms(1) by (simp add: datagram_seg_eq decode_grh_bytes ah_bytes_ok_def)
  show ?thesis
    unfolding decode_send_def c of_le_all htonl_htonl ctrl_fields n body Let_def base ext rest fm using grh by simp
qed

end
