(* ===== verification/Mlx5_Sq.thy ===== *)
theory Mlx5_Sq
  imports Mlx5_Wqe Ring
begin

unbundle bit_operations_syntax

section \<open>Send queues of the driver\<close>

text \<open>
  Posting on a datagram queue pair: \<^verbatim>\<open>mlx5_post_send\<close> of \<^verbatim>\<open>qp.c\<close> with the descriptor
  \<^verbatim>\<open>__mlx5_post_send_one_uc_ud\<close> builds, the doorbell (\<^verbatim>\<open>doorbell.h\<close>) and what a send completion
  does to the queue (\<^verbatim>\<open>mlx5_poll_one\<close> of \<^verbatim>\<open>cq.c\<close>). The other types of queue pairs, underlay queue
  pairs and queues of peer devices are left out, and so are barriers and locks. The keys of implicit
  registrations come from a parameter.
\<close>

subsection \<open>The queue\<close>

datatype mlx5_db_method = MLX5_DB_METHOD_DEDIC_BF_1_THREAD | MLX5_DB_METHOD_DEDIC_BF | MLX5_DB_METHOD_BF | MLX5_DB_METHOD_DB

text \<open>The register of the device, with what has been written to it: offsets and bytes, the last first.\<close>

record mlx5_bf =
  bf_db_method :: mlx5_db_method
  bf_offset :: u32
  bf_buf_size :: u32
  bf_written :: "(u32 \<times> u8 list) list"

datatype post_send_fn = Post_not_ready | Post_uc_ud

text \<open>
  The fields of \<^verbatim>\<open>struct mlx5_qp\<close> a send reads and writes: those of \<^verbatim>\<open>sq\<close>, of
  \<^verbatim>\<open>gen_data\<close>, \<^verbatim>\<open>data_seg\<close> and \<^verbatim>\<open>ctrl_seg\<close>. The buffer starts at \<^verbatim>\<open>sqstart\<close>.
\<close>

record mlx5_sq =
  sq_wrid :: "nat \<Rightarrow> u64"
  sq_wqe_cnt :: u32
  sq_head :: u32
  sq_tail :: u32
  sq_max_post :: u32
  sq_max_gs :: int
  sq_wqe_head :: "nat \<Rightarrow> u32"
  sq_post_one :: post_send_fn
  sq_bytes :: buf
  sqend :: nat
  snd_db :: u32
  sq_bf :: mlx5_bf
  scur_post :: u32
  last_post :: u32
  create_flags :: u16
  fm_cache :: u8
  max_inline_data :: u32
  ctrl_qp_num :: u32
  fm_ce_se_tbl :: "u8 list"
  fm_ce_se_acc :: "u8 list"
  ctrl_wq_sig :: u8
  sq_signal_bits :: u8
  sq_link_layer :: link_layer

text \<open>
  A request. The one structure is read as two: a plain request has its flags in \<^verbatim>\<open>send_flags\<close>, an
  experimental one in \<^verbatim>\<open>exp_send_flags\<close>, which for a plain request is what lies behind it in memory.
\<close>

record send_wr =
  sw_id :: u64
  sw_sges :: "ibv_sge list"
  sw_opcode :: nat
  sw_send_flags :: int
  sw_exp_send_flags :: u64
  sw_imm :: u32
  sw_ah :: "nat option"
  sw_remote_qpn :: u32
  sw_remote_qkey :: u32

text \<open>
  What a send reads of the rest: the keys of implicit registrations, the queue pair number of the peer
  the multi-path layer keeps, and the memory of the process.
\<close>

record send_env =
  se_real_lkey :: "u32 \<Rightarrow> u64 \<Rightarrow> u32 \<Rightarrow> u32 option"
  se_dest_qp_num :: u32
  se_mem :: mem

text \<open>The address handles are shared by all queue pairs.\<close>

type_synonym send_state = "mlx5_sq \<times> (nat \<Rightarrow> mlx5_ah)"

subsection \<open>Flags and opcodes\<close>

definition IBV_SEND_FENCE :: u64 where "IBV_SEND_FENCE = 1"
definition IBV_SEND_INLINE :: u64 where "IBV_SEND_INLINE = 8"
definition IBV_EXP_SEND_WITH_CALC :: u64 where "IBV_EXP_SEND_WITH_CALC = 0x200000000"
definition IBV_EXP_WR_LOCAL_INV :: nat where "IBV_EXP_WR_LOCAL_INV = 7"
definition IBV_EXP_QP_CREATE_CROSS_CHANNEL :: u16 where "IBV_EXP_QP_CREATE_CROSS_CHANNEL = 4"
definition IBV_EXP_QP_CREATE_IGNORE_SQ_OVERFLOW :: u16 where "IBV_EXP_QP_CREATE_IGNORE_SQ_OVERFLOW = 0x40"
definition CREATE_FLAG_NO_DOORBELL :: u16 where "CREATE_FLAG_NO_DOORBELL = 0x8000"
definition MLX5_WQE_CTRL_CQ_UPDATE :: u8 where "MLX5_WQE_CTRL_CQ_UPDATE = 8"
definition MLX5_WQE_CTRL_SOLICITED :: u8 where "MLX5_WQE_CTRL_SOLICITED = 2"
definition MLX5_WQE_CTRL_FENCE :: u8 where "MLX5_WQE_CTRL_FENCE = 0x80"
definition MLX5_FENCE_MODE_STRONG_ORDERING :: u8 where "MLX5_FENCE_MODE_STRONG_ORDERING = 0x60"
definition MLX5_FENCE_MODE_SMALL_AND_FENCE :: u8 where "MLX5_FENCE_MODE_SMALL_AND_FENCE = 0x80"
definition MLX5_OPCODE_BASIC :: u32 where "MLX5_OPCODE_BASIC = 0x00010000"
definition MLX5_OPCODE_MANAGED :: u32 where "MLX5_OPCODE_MANAGED = 0x00020000"
definition MLX5_OPCODE_WITH_IMM :: u32 where "MLX5_OPCODE_WITH_IMM = 0x01000000"

definition MLX5_IB_OPCODE :: "u32 \<Rightarrow> u32 \<Rightarrow> u32 \<Rightarrow> u32" where
  "MLX5_IB_OPCODE op cls attr = (cls AND 0x00FF0000) OR (attr AND 0xFF000000) OR (op AND 0x0000FFFF)"

definition MLX5_IB_OPCODE_GET_CLASS :: "u32 \<Rightarrow> u32" where "MLX5_IB_OPCODE_GET_CLASS opcode = opcode AND 0x00FF0000"
definition MLX5_IB_OPCODE_GET_OP :: "u32 \<Rightarrow> u32" where "MLX5_IB_OPCODE_GET_OP opcode = opcode AND 0x0000FFFF"
definition MLX5_IB_OPCODE_GET_ATTR :: "u32 \<Rightarrow> u32" where "MLX5_IB_OPCODE_GET_ATTR opcode = opcode AND 0xFF000000"

text \<open>The table by the codes of the requests; codes it does not list are zero, and codes behind its end are not in it.\<close>

definition ib_opcode_entries :: "(nat \<times> u32) list" where
  "ib_opcode_entries = [(2, MLX5_IB_OPCODE 0x0A MLX5_OPCODE_BASIC 0), (3, MLX5_IB_OPCODE 0x0B MLX5_OPCODE_BASIC MLX5_OPCODE_WITH_IMM),
     (9, MLX5_IB_OPCODE 0x01 MLX5_OPCODE_BASIC MLX5_OPCODE_WITH_IMM), (0, MLX5_IB_OPCODE 0x08 MLX5_OPCODE_BASIC 0),
     (1, MLX5_IB_OPCODE 0x09 MLX5_OPCODE_BASIC MLX5_OPCODE_WITH_IMM), (4, MLX5_IB_OPCODE 0x10 MLX5_OPCODE_BASIC 0),
     (5, MLX5_IB_OPCODE 0x11 MLX5_OPCODE_BASIC 0), (6, MLX5_IB_OPCODE 0x12 MLX5_OPCODE_BASIC 0),
     (99, MLX5_IB_OPCODE 0x14 MLX5_OPCODE_BASIC 0), (100, MLX5_IB_OPCODE 0x15 MLX5_OPCODE_BASIC 0),
     (96, MLX5_IB_OPCODE 0x17 MLX5_OPCODE_MANAGED 0), (97, MLX5_IB_OPCODE 0x16 MLX5_OPCODE_MANAGED 0),
     (98, MLX5_IB_OPCODE 0x0F MLX5_OPCODE_MANAGED 0), (101, MLX5_IB_OPCODE 0x00 MLX5_OPCODE_BASIC 0),
     (102, MLX5_IB_OPCODE 0x25 MLX5_OPCODE_BASIC 0), (103, MLX5_IB_OPCODE 0x25 MLX5_OPCODE_BASIC 0),
     (79, MLX5_IB_OPCODE 0x0E MLX5_OPCODE_BASIC 0), (8, MLX5_IB_OPCODE 0x25 MLX5_OPCODE_BASIC 0),
     (7, MLX5_IB_OPCODE 0x25 MLX5_OPCODE_BASIC 0)]"

definition mlx5_ib_opcode :: "nat \<Rightarrow> u32 outcome" where
  "mlx5_ib_opcode c = (if 104 \<le> c then raise OutOfBounds else ret (case map_of ib_opcode_entries c of None \<Rightarrow> 0 | Some w \<Rightarrow> w))"

definition send_ieth :: "u32 \<Rightarrow> send_wr \<Rightarrow> u32" where
  "send_ieth op wr = (if MLX5_IB_OPCODE_GET_ATTR op AND MLX5_OPCODE_WITH_IMM \<noteq> 0 then sw_imm wr else 0)"

definition get_fence :: "u8 \<Rightarrow> send_wr \<Rightarrow> u8" where
  "get_fence fence wr =
    (if sw_opcode wr = IBV_EXP_WR_LOCAL_INV \<and> sw_exp_send_flags wr AND IBV_SEND_FENCE \<noteq> 0 then MLX5_FENCE_MODE_STRONG_ORDERING
     else if fence \<noteq> 0 then
       if sw_exp_send_flags wr AND IBV_SEND_FENCE \<noteq> 0 then MLX5_FENCE_MODE_SMALL_AND_FENCE else fence
     else 0)"

text \<open>The flags of a control segment by the flags of a request, for single sends and for bursts.\<close>

definition mlx5_build_ctrl_seg_data :: "u32 \<Rightarrow> mlx5_sq \<Rightarrow> mlx5_sq" where
  "mlx5_build_ctrl_seg_data qpn sq =
    (let cq = MLX5_WQE_CTRL_CQ_UPDATE; sol = MLX5_WQE_CTRL_SOLICITED; fence = MLX5_WQE_CTRL_FENCE;
         tbl = [0, fence, cq, cq OR fence, sol, sol OR fence, sol OR cq, sol OR cq OR fence];
         acc = (replicate 32 0)[0 := 0, 16 := fence, 1 := cq, 17 := cq OR fence, 2 := sol, 18 := sol OR fence,
           3 := sol OR cq, 19 := sol OR cq OR fence]
     in sq\<lparr>fm_ce_se_tbl := map (\<lambda>w. sq_signal_bits sq OR w) tbl, fm_ce_se_acc := map (\<lambda>w. sq_signal_bits sq OR w) acc,
       ctrl_qp_num := qpn\<rparr>)"

text \<open>The function that posts on a datagram queue pair, by the state of the pair.\<close>

definition mlx5_update_post_send_one :: "qp_state \<Rightarrow> mlx5_sq \<Rightarrow> mlx5_sq" where
  "mlx5_update_post_send_one st sq =
    sq\<lparr>sq_post_one := (if st = IBV_QPS_RESET \<or> st = IBV_QPS_INIT \<or> st = IBV_QPS_RTR then Post_not_ready else Post_uc_ud)\<rparr>"

definition mlx5_init_sq_indices :: "mlx5_sq \<Rightarrow> mlx5_sq" where
  "mlx5_init_sq_indices sq = sq\<lparr>sq_head := 0, sq_tail := 0, scur_post := 0\<rparr>"

subsection \<open>The path of a datagram\<close>

text \<open>
  The UDP source port, by which the switches choose a path, in the configuration of
  \<^verbatim>\<open>mprud_opt.h\<close> (\<^verbatim>\<open>USE_HASH_SRC_PORT\<close>): by the distance of the queue pairs of the peer. It is
  written into the shared address handle before the handle is copied into the descriptor.
\<close>

definition calc_roce_udp_sport :: "u32 \<Rightarrow> u32 \<Rightarrow> u16" where
  "calc_roce_udp_sport dest rqpn =
    (let turn = sint (rqpn - dest - 1)
     in if turn = 0 then 55563 else if turn = 1 then 55562 else if turn = 2 then 55558
        else if turn = 3 then 55559 else if turn = 4 then 55563 else 55558)"

definition mlx5_update_udp_sport :: "u32 \<Rightarrow> link_layer \<Rightarrow> u32 \<Rightarrow> mlx5_ah \<Rightarrow> mlx5_ah" where
  "mlx5_update_udp_sport dest ll rqpn ah =
    (if ll = IBV_LINK_LAYER_ETHERNET then
       ah\<lparr>av := (av ah)\<lparr>base := (base (av ah))\<lparr>rlid := htons (calc_roce_udp_sport dest rqpn)\<rparr>\<rparr>\<rparr>
     else ah)"

subsection \<open>One request\<close>

definition set_data_seg :: "send_env \<Rightarrow> mlx5_sq \<Rightarrow> bool \<Rightarrow> ibv_sge list \<Rightarrow> nat \<Rightarrow> nat \<Rightarrow> buf \<Rightarrow> (int \<times> nat \<times> buf) outcome" where
  "set_data_seg env sq is_inl sgs p sz buf =
    (if is_inl then set_data_inl_seg (se_mem env) (sqend sq) (max_inline_data sq) sgs p sz buf
     else set_data_non_inl_seg (se_real_lkey env) (sqend sq) sgs p sz buf)"

text \<open>The result is the error, the total size (unchanged after an error) and the state.\<close>

definition mlx5_post_send_one_ud :: "send_env \<Rightarrow> send_wr \<Rightarrow> u64 \<Rightarrow> nat \<Rightarrow> nat \<Rightarrow> send_state \<Rightarrow> (int \<times> nat \<times> send_state) outcome" where
  "mlx5_post_send_one_ud env wr flags seg total_size = (\<lambda>(sq, ahs).
    bindC (mlx5_ib_opcode (sw_opcode wr)) (\<lambda>op.
    if (MLX5_IB_OPCODE_GET_CLASS op = MLX5_OPCODE_MANAGED \<or> flags AND IBV_EXP_SEND_WITH_CALC \<noteq> 0) \<and>
       create_flags sq AND IBV_EXP_QP_CREATE_CROSS_CHANNEL = 0 then ret (EINVAL, total_size, sq, ahs)
    else
      bindC (deref (sw_ah wr)) (\<lambda>a.
      let ah = mlx5_update_udp_sport (se_dest_qp_num env) (sq_link_layer sq) (sw_remote_qpn wr) (ahs a);
          ahs = ahs(a := ah);
          dgram = set_datagram_seg ah (sw_remote_qpn wr) (sw_remote_qkey wr)
      in bindC (put (sqend sq) (seg + 16) dgram (sq_bytes sq)) (\<lambda>buf.
         let p = seg + 16 + length dgram; sz = 1 + length dgram div 16;
             p = (if p = sqend sq then 0 else p)
         in bindC (set_data_seg env sq (flags AND IBV_SEND_INLINE \<noteq> 0) (sw_sges wr) p sz buf) (\<lambda>(err, sz, buf).
            if err \<noteq> 0 then ret (err, total_size, sq\<lparr>sq_bytes := buf\<rparr>, ahs)
            else
              let fm = fm_ce_se_tbl sq ! unat (flags AND 7) OR get_fence (fm_cache sq) wr
              in bindC (set_ctrl_seg_sig (sqend sq) seg (ctrl_qp_num sq) (ctrl_wq_sig sq) (ucast (MLX5_IB_OPCODE_GET_OP op))
                   (ucast (scur_post sq)) 0 (of_nat sz) fm (send_ieth op wr) buf) (\<lambda>buf.
                 ret (0, sz, sq\<lparr>sq_bytes := buf, fm_cache := 0\<rparr>, ahs)))))))"

definition post_send_one :: "send_env \<Rightarrow> send_wr \<Rightarrow> u64 \<Rightarrow> nat \<Rightarrow> nat \<Rightarrow> send_state \<Rightarrow> (int \<times> nat \<times> send_state) outcome" where
  "post_send_one env wr flags seg total_size st =
    (case sq_post_one (fst st) of
       Post_not_ready \<Rightarrow> ret (EINVAL, total_size, st)
     | Post_uc_ud \<Rightarrow> mlx5_post_send_one_ud env wr flags seg total_size st)"

subsection \<open>The doorbell\<close>

text \<open>The copy of a descriptor to the device, 64 bytes at a time, around the end of the queue.\<close>

fun mlx5_bf_copy :: "nat \<Rightarrow> buf \<Rightarrow> nat \<Rightarrow> nat \<Rightarrow> u8 list outcome" where
  "mlx5_bf_copy e buf 0 src = ret []"
| "mlx5_bf_copy e buf (Suc n) src =
    bindC (get e src 64 buf) (\<lambda>bs.
    bindC (mlx5_bf_copy e buf n (if src + 64 = e then 0 else src + 64)) (\<lambda>cs. ret (bs @ cs)))"

definition ring_db :: "u32 \<Rightarrow> nat \<Rightarrow> nat \<Rightarrow> mlx5_sq \<Rightarrow> mlx5_sq outcome" where
  "ring_db curr_post seg sz sq =
    (let bf = sq_bf sq; sq = sq\<lparr>last_post := curr_post, snd_db := htonl curr_post\<rparr>;
         small = bindC (get (sqend sq) seg 8 (sq_bytes sq)) (\<lambda>bs. ret bs)
     in if bf_db_method bf = MLX5_DB_METHOD_DB then
          bindC small (\<lambda>bs. ret (sq\<lparr>sq_bf := bf\<lparr>bf_written := (bf_offset bf, bs) # bf_written bf\<rparr>\<rparr>))
        else
          bindC (if sz \<le> unat (bf_buf_size bf div 64) then mlx5_bf_copy (sqend sq) (sq_bytes sq) sz seg else small) (\<lambda>bs.
          ret (sq\<lparr>sq_bf := bf\<lparr>bf_written := (bf_offset bf, bs) # bf_written bf,
            bf_offset := bf_offset bf XOR bf_buf_size bf\<rparr>\<rparr>)))"

subsection \<open>A chain of requests\<close>

definition sq_overflow :: "nat \<Rightarrow> mlx5_sq \<Rightarrow> bool" where
  "sq_overflow nreq sq \<longleftrightarrow> \<not> (sq_head sq - sq_tail sq) + of_nat nreq < sq_max_post sq"

definition send_seg :: "mlx5_sq \<Rightarrow> nat" where
  "send_seg sq = 64 * unat (scur_post sq AND (sq_wqe_cnt sq - 1))"

text \<open>
  The loop: the error, the requests from the first that was not accepted on, how many were accepted,
  the size and the place of the last of them.
\<close>

fun send_chain :: "send_env \<Rightarrow> bool \<Rightarrow> send_wr list \<Rightarrow> nat \<Rightarrow> nat \<Rightarrow> nat \<Rightarrow> send_state \<Rightarrow>
    (int \<times> send_wr list \<times> nat \<times> nat \<times> nat \<times> send_state) outcome" where
  "send_chain env is_exp [] nreq sz last_seg st = ret (0, [], nreq, sz, last_seg, st)"
| "send_chain env is_exp (wr # wrs) nreq sz last_seg st =
    (let sq = fst st;
         idx = unat (scur_post sq AND (sq_wqe_cnt sq - 1));
         seg = send_seg sq;
         flags = (if is_exp then sw_exp_send_flags wr else word_of_int (sw_send_flags wr))
     in if create_flags sq AND IBV_EXP_QP_CREATE_IGNORE_SQ_OVERFLOW = 0 \<and> sq_overflow nreq sq then
          ret (ENOMEM, wr # wrs, nreq, sz, last_seg, st)
        else if sq_max_gs sq < int (length (sw_sges wr)) then ret (ENOMEM, wr # wrs, nreq, sz, last_seg, st)
        else bindC (post_send_one env wr flags seg sz st) (\<lambda>(err, sz, st).
          if err \<noteq> 0 then ret (err, wr # wrs, nreq, sz, last_seg, st)
          else
            let sq = fst st;
                sq = sq\<lparr>sq_wrid := (sq_wrid sq)(idx := sw_id wr), sq_wqe_head := (sq_wqe_head sq)(idx := sq_head sq + of_nat nreq),
                  scur_post := scur_post sq + of_nat ((sz * 16 + 63) div 64)\<rparr>
            in send_chain env is_exp wrs (Suc nreq) sz seg (sq, snd st)))"

definition mlx5_post_send_device :: "send_env \<Rightarrow> bool \<Rightarrow> send_wr list \<Rightarrow> send_state \<Rightarrow> (int \<times> send_wr list \<times> send_state) outcome" where
  "mlx5_post_send_device env is_exp wrs st =
    bindC (send_chain env is_exp wrs 0 0 0 st) (\<lambda>(err, bad, nreq, sz, seg, sq, ahs).
    if nreq = 0 then ret (err, bad, sq, ahs)
    else
      let sq = sq\<lparr>sq_head := sq_head sq + of_nat nreq\<rparr>
      in if create_flags sq AND CREATE_FLAG_NO_DOORBELL \<noteq> 0 then ret (err, bad, sq, ahs)
         else bindC (ring_db (scur_post sq AND 0xFFFF) seg ((sz + 3) div 4) sq) (\<lambda>sq. ret (err, bad, sq, ahs)))"

text \<open>The hook of the multi-path layer: without the last argument a post goes to the layer.\<close>

definition mlx5_post_send :: "('a \<Rightarrow> 'r) \<Rightarrow> ('a \<Rightarrow> 'r) \<Rightarrow> int \<Rightarrow> 'a \<Rightarrow> 'r" where
  "mlx5_post_send layer device skip_mprud a = (if skip_mprud = 0 then layer a else device a)"

text \<open>A send completion reports the request at the place it names and releases all up to it.\<close>

definition sq_complete :: "u16 \<Rightarrow> mlx5_sq \<Rightarrow> u64 \<times> mlx5_sq" where
  "sq_complete wqe_ctr sq =
    (let idx = unat (ucast wqe_ctr AND (sq_wqe_cnt sq - 1))
     in (sq_wrid sq idx, sq\<lparr>sq_tail := sq_wqe_head sq idx + 1\<rparr>))"

end
