(* ===== verification/Mlx5_Sq_Facts.thy ===== *)
theory Mlx5_Sq_Facts
  imports Mlx5_Sq
begin

unbundle bit_operations_syntax

section \<open>What send queues do\<close>

text \<open>
  A descriptor holds what was asked for; the descriptors in the queue do not touch each other; and
  completions release them in the order of the posts.
\<close>

subsection \<open>One descriptor\<close>

definition inline_wr :: "u64 \<Rightarrow> bool" where
  "inline_wr flags \<longleftrightarrow> flags AND IBV_SEND_INLINE \<noteq> 0"

definition data_bytes :: "mem \<Rightarrow> bool \<Rightarrow> ibv_sge list \<Rightarrow> u8 list" where
  "data_bytes m inl sgs = (if inl then inl_seg_bytes (sge_bytes m sgs) else concat (map data_seg_bytes (send_segs sgs)))"

definition data_units :: "bool \<Rightarrow> ibv_sge list \<Rightarrow> nat" where
  "data_units inl sgs = (if inl then if sge_total sgs = 0 then 0 else (sge_total sgs + 19) div 16 else length (send_segs sgs))"

definition data_view :: "mem \<Rightarrow> bool \<Rightarrow> ibv_sge list \<Rightarrow> wqe_data list" where
  "data_view m inl sgs = (if inl then if sge_total sgs = 0 then [] else [Inl (sge_bytes m sgs)] else map Ptr (send_segs sgs))"

text \<open>The limits of the queue a request keeps.\<close>

definition data_fits :: "mlx5_sq \<Rightarrow> bool \<Rightarrow> ibv_sge list \<Rightarrow> bool" where
  "data_fits sq inl sgs \<longleftrightarrow> int (length sgs) \<le> sq_max_gs sq \<and>
     (if inl then sge_total sgs \<le> unat (max_inline_data sq) else list_all sendable_sge sgs)"

lemma length_data_bytes: "length (data_bytes m inl sgs) \<le> 16 * data_units inl sgs"
  by (auto simp: data_bytes_def data_units_def inl_seg_bytes_def)

lemma length_send_segs: "length (send_segs sgs) \<le> length sgs"
  by (simp add: send_segs_def)

lemma decode_data_view:
  assumes "length (data_bytes m inl sgs @ pad) = 16 * data_units inl sgs" and "\<not> inl \<Longrightarrow> list_all sendable_sge sgs"
    and "inl \<Longrightarrow> sge_total sgs < 2 ^ 31"
  shows "decode_data (data_bytes m inl sgs @ pad) = data_view m inl sgs"
proof (cases inl)
  case True
  show ?thesis
  proof (cases "sge_total sgs = 0")
    case True
    with \<open>inl\<close> assms(1) have "data_bytes m inl sgs @ pad = []"
      by (simp add: data_units_def del: length_append)
    moreover have "decode_data [] = []" by (simp add: decode_data.simps)
    ultimately show ?thesis using True \<open>inl\<close> by (simp add: data_view_def)
  next
    case False
    then have "sge_bytes m sgs \<noteq> []" by simp
    from decode_inl [OF this, of pad] assms(1,3) True False show ?thesis
      by (simp add: data_bytes_def data_units_def data_view_def mult.commute)
  qed
next
  case False
  then have "pad = []" using assms(1) by (simp add: data_bytes_def data_units_def)
  with decode_segs [OF send_segs_plain] assms(2) False show ?thesis by (simp add: data_bytes_def data_view_def)
qed

lemma data_seg_wrote:
  assumes "data_fits sq inl sgs" and "unat (max_inline_data sq) < 2 ^ 31" and "16 dvd sqend sq" and "16 dvd p" and "p < sqend sq"
    and "p = (st + lo) mod sqend sq" and "lo + 16 * data_units inl sgs \<le> sqend sq"
  shows "\<exists>buf'. set_data_seg env sq inl sgs p sz buf = ret (0, sz + data_units inl sgs, buf') \<and>
    wrote (sqend sq) st lo (data_bytes (se_mem env) inl sgs) buf buf'"
proof (cases inl)
  case True
  have p4: "p + 4 \<le> sqend sq"
  proof -
    have "p + 16 \<le> sqend sq" using assms(3-5) by (auto simp: dvd_def)
    then show ?thesis by simp
  qed
  show ?thesis
  proof (cases "sge_total sgs = 0")
    case True
    then have nil: "sge_bytes (se_mem env) sgs = []" by simp
    have "lo \<le> sqend sq" using assms(7) by simp
    have "(p + 4) mod sqend sq = (st + (lo + 4)) mod sqend sq" unfolding assms(6) by (simp add: mod_simps add.assoc)
    have "set_data_inl_seg (se_mem env) (sqend sq) (max_inline_data sq) sgs p sz buf = ret (0, sz, buf)"
    proof -
      have "inl_loop m e mi sgs 0 q b = ret (0, 0, b)" if "sge_total sgs = 0" "q \<le> e" for m e mi sgs q b
        using that by (induction sgs) (simp_all add: Let_def inl_copy_def unat_eq_0)
      from this [OF True p4] show ?thesis by (simp add: set_data_inl_seg_def)
    qed
    with \<open>inl\<close> True nil \<open>lo \<le> sqend sq\<close> show ?thesis
      by (simp add: set_data_seg_def data_bytes_def data_units_def inl_seg_bytes_def)
  next
    case False
    have "lo + 4 + sge_total sgs \<le> sqend sq" using assms(7) True False by (simp add: data_units_def)
    with inl_wrote [of sgs "max_inline_data sq" p st lo "sqend sq" "se_mem env" sz buf] assms True False p4 show ?thesis
      by (auto simp: set_data_seg_def data_bytes_def data_units_def data_fits_def)
  qed
next
  case False
  with non_inl_wrote [of sgs "sqend sq" p st lo "se_real_lkey env" sz buf] assms show ?thesis
    by (auto simp: set_data_seg_def data_bytes_def data_units_def data_fits_def)
qed

text \<open>
  The size of the queue: \<open>2 ^ b\<close> slots of 64 bytes, at most \<open>cap\<close> requests of at most \<open>bbs\<close> slots each,
  which hold every request within the limits of the queue.
\<close>

definition sq_sized :: "nat \<Rightarrow> nat \<Rightarrow> nat \<Rightarrow> mlx5_sq \<Rightarrow> bool" where
  "sq_sized b cap bbs sq \<longleftrightarrow> b \<le> 16 \<and> sq_wqe_cnt sq = 2 ^ b \<and> sqend sq = 64 * 2 ^ b \<and> sq_max_post sq = of_nat cap \<and>
     cap * bbs \<le> 2 ^ b \<and> bbs \<le> 2 ^ b \<and> bbs \<le> 15 \<and> 64 + 16 * sq_max_gs sq \<le> int (64 * bbs) \<and>
     64 + (unat (max_inline_data sq) + 19) div 16 * 16 \<le> 64 * bbs \<and>
     length (fm_ce_se_tbl sq) = 8 \<and> ctrl_wq_sig sq = 0 \<and> sq_post_one sq = Post_uc_ud \<and>
     create_flags sq AND IBV_EXP_QP_CREATE_IGNORE_SQ_OVERFLOW = 0 \<and> fm_cache sq = 0"

definition wr_flags :: "bool \<Rightarrow> send_wr \<Rightarrow> u64" where
  "wr_flags is_exp wr = (if is_exp then sw_exp_send_flags wr else word_of_int (sw_send_flags wr))"

text \<open>The requests considered: plain sends to an address with a handle, within the limits.\<close>

definition IBV_EXP_WR_SEND :: nat where "IBV_EXP_WR_SEND = 2"
definition IBV_EXP_WR_SEND_WITH_IMM :: nat where "IBV_EXP_WR_SEND_WITH_IMM = 3"

definition good_send :: "bool \<Rightarrow> mlx5_sq \<Rightarrow> (nat \<Rightarrow> mlx5_ah) \<Rightarrow> send_wr \<Rightarrow> bool" where
  "good_send is_exp sq ahs wr \<longleftrightarrow> sw_opcode wr \<in> {IBV_EXP_WR_SEND, IBV_EXP_WR_SEND_WITH_IMM} \<and>
     wr_flags is_exp wr AND IBV_EXP_SEND_WITH_CALC = 0 \<and> (\<exists>a. sw_ah wr = Some a \<and> ah_bytes_ok (ahs a)) \<and>
     \<not> bit (sw_remote_qpn wr) 31 \<and> data_fits sq (inline_wr (wr_flags is_exp wr)) (sw_sges wr)"

definition wr_ah :: "send_env \<Rightarrow> mlx5_sq \<Rightarrow> (nat \<Rightarrow> mlx5_ah) \<Rightarrow> send_wr \<Rightarrow> mlx5_ah" where
  "wr_ah env sq ahs wr = mlx5_update_udp_sport (se_dest_qp_num env) (sq_link_layer sq) (sw_remote_qpn wr) (ahs (the (sw_ah wr)))"

definition wr_units :: "bool \<Rightarrow> (nat \<Rightarrow> mlx5_ah) \<Rightarrow> send_wr \<Rightarrow> nat" where
  "wr_units is_exp ahs wr = 1 + (if has_grh (ahs (the (sw_ah wr))) then 3 else 1) +
     data_units (inline_wr (wr_flags is_exp wr)) (sw_sges wr)"

text \<open>
  What the device is to read for a request at the place \<open>pos\<close>: the opcode, the place, the queue pair,
  the flags of the request, the immediate data, the address with the path's port, the destination, and
  the data.
\<close>

definition send_view_of :: "send_env \<Rightarrow> bool \<Rightarrow> mlx5_sq \<Rightarrow> (nat \<Rightarrow> mlx5_ah) \<Rightarrow> u32 \<Rightarrow> send_wr \<Rightarrow> sent_view" where
  "send_view_of env is_exp sq ahs pos wr =
    (let flags = wr_flags is_exp wr; ah = wr_ah env sq ahs wr
     in \<lparr>sv_opcode = (if sw_opcode wr = IBV_EXP_WR_SEND then 0x0A else 0x0B), sv_idx = ucast pos,
          sv_qpn = take_bit 24 (ctrl_qp_num sq),
          sv_fm_ce_se = fm_ce_se_tbl sq ! unat (flags AND 7) OR get_fence (fm_cache sq) wr,
          sv_imm = (if sw_opcode wr = IBV_EXP_WR_SEND then 0 else sw_imm wr),
          sv_base = ud_base ah (sw_remote_qpn wr) (sw_remote_qkey wr),
          sv_grh = (if has_grh ah then Some (grh_sec (av ah)) else None),
          sv_data = data_view (se_mem env) (inline_wr flags) (sw_sges wr)\<rparr>)"

lemma update_sport_simps [simp]:
  "has_grh (mlx5_update_udp_sport d ll q ah) = has_grh ah" "ah_bytes_ok (mlx5_update_udp_sport d ll q ah) = ah_bytes_ok ah"
  "mlx5_update_udp_sport d ll q (mlx5_update_udp_sport d' ll q' ah) = mlx5_update_udp_sport d ll q ah"
  by (simp_all add: mlx5_update_udp_sport_def has_grh_def ah_bytes_ok_def)

lemma good_send_cong: "(\<And>a. ah_bytes_ok (ahs' a) = ah_bytes_ok (ahs a)) \<Longrightarrow> sq_max_gs sq' = sq_max_gs sq \<Longrightarrow>
    max_inline_data sq' = max_inline_data sq \<Longrightarrow> good_send is_exp sq' ahs' wr = good_send is_exp sq ahs wr"
  by (simp add: good_send_def data_fits_def)

lemma sized_bounds:
  assumes "sq_sized b cap bbs sq" and "good_send is_exp sq ahs wr"
  shows "wr_units is_exp ahs wr \<le> 4 * bbs" "wr_units is_exp ahs wr \<le> 63" "0 < wr_units is_exp ahs wr"
    "unat (max_inline_data sq) < 2 ^ 31" "16 * (4 + data_units (inline_wr (wr_flags is_exp wr)) (sw_sges wr)) \<le> 64 * bbs"
proof -
  let ?inl = "inline_wr (wr_flags is_exp wr)"
  have size: "bbs \<le> 15" "64 + 16 * sq_max_gs sq \<le> int (64 * bbs)" "64 + (unat (max_inline_data sq) + 19) div 16 * 16 \<le> 64 * bbs"
    using assms(1) by (simp_all add: sq_sized_def)
  have fits: "data_fits sq ?inl (sw_sges wr)" using assms(2) by (simp add: good_send_def)
  show le: "16 * (4 + data_units ?inl (sw_sges wr)) \<le> 64 * bbs"
  proof (cases ?inl)
    case True
    then have "sge_total (sw_sges wr) \<le> unat (max_inline_data sq)" using fits by (simp add: data_fits_def)
    then have "(sge_total (sw_sges wr) + 19) div 16 \<le> (unat (max_inline_data sq) + 19) div 16" by (intro div_le_mono) simp
    with True size(3) show ?thesis by (simp add: data_units_def)
  next
    case False
    then show ?thesis using fits size(2) length_send_segs [of "sw_sges wr"] by (simp add: data_units_def data_fits_def)
  qed
  then show "wr_units is_exp ahs wr \<le> 4 * bbs" "0 < wr_units is_exp ahs wr" by (auto simp: wr_units_def)
  with size(1) show "wr_units is_exp ahs wr \<le> 63" by simp
  have "(unat (max_inline_data sq) + 19) div 16 * 16 \<le> 960" using size by simp
  then have "unat (max_inline_data sq) < 2000" by linarith
  then show "unat (max_inline_data sq) < 2 ^ 31" by simp
qed

lemma send_opcodes:
  assumes "sw_opcode wr \<in> {IBV_EXP_WR_SEND, IBV_EXP_WR_SEND_WITH_IMM}"
  obtains op where "mlx5_ib_opcode (sw_opcode wr) = ret op" "MLX5_IB_OPCODE_GET_CLASS op \<noteq> MLX5_OPCODE_MANAGED"
    "send_ieth op wr = (if sw_opcode wr = IBV_EXP_WR_SEND then 0 else sw_imm wr)"
    "(ucast (MLX5_IB_OPCODE_GET_OP op) :: u8) = (if sw_opcode wr = IBV_EXP_WR_SEND then 0x0A else 0x0B)"
proof -
  note defs = mlx5_ib_opcode_def ib_opcode_entries_def IBV_EXP_WR_SEND_def IBV_EXP_WR_SEND_WITH_IMM_def
    MLX5_IB_OPCODE_def MLX5_IB_OPCODE_GET_CLASS_def MLX5_IB_OPCODE_GET_OP_def MLX5_IB_OPCODE_GET_ATTR_def send_ieth_def
    MLX5_OPCODE_BASIC_def MLX5_OPCODE_MANAGED_def MLX5_OPCODE_WITH_IMM_def
  have bits: "(0x1000A :: u32) AND 0x00FF0000 = 0x10000" "(0x1000A :: u32) AND 0xFF000000 = 0" "(0x1000A :: u32) AND 0xFFFF = 0x0A"
    "(0x101000B :: u32) AND 0x00FF0000 = 0x10000" "(0x101000B :: u32) AND 0xFF000000 = 0x1000000" "(0x101000B :: u32) AND 0xFFFF = 0x0B"
    by (code_simp; simp)+
  from assms consider "sw_opcode wr = IBV_EXP_WR_SEND" | "sw_opcode wr = IBV_EXP_WR_SEND_WITH_IMM" by auto
  then show thesis
  proof cases
    case 1
    have "mlx5_ib_opcode (sw_opcode wr) = ret 0x1000A" by (simp add: 1 defs)
    with that show thesis by (simp add: 1 defs bits)
  next
    case 2
    have "mlx5_ib_opcode (sw_opcode wr) = ret 0x101000B" by (simp add: 2 defs)
    with that show thesis by (simp add: 2 defs bits)
  qed
qed

text \<open>The descriptor of a request, and what posting it does.\<close>

definition send_desc :: "send_env \<Rightarrow> bool \<Rightarrow> mlx5_sq \<Rightarrow> (nat \<Rightarrow> mlx5_ah) \<Rightarrow> send_wr \<Rightarrow> u8 list" where
  "send_desc env is_exp sq ahs wr =
    (let v = send_view_of env is_exp sq ahs (scur_post sq) wr
     in set_ctrl_seg (ctrl_qp_num sq) (sv_opcode v) (sv_idx v) 0 (of_nat (wr_units is_exp ahs wr)) (sv_fm_ce_se v) (sv_imm v) @
        set_datagram_seg (wr_ah env sq ahs wr) (sw_remote_qpn wr) (sw_remote_qkey wr) @
        data_bytes (se_mem env) (inline_wr (wr_flags is_exp wr)) (sw_sges wr))"

lemma post_one_ok:
  assumes sized: "sq_sized b cap bbs sq" and good: "good_send is_exp sq ahs wr"
  shows "\<exists>buf'. post_send_one env wr (wr_flags is_exp wr) (send_seg sq) ts (sq, ahs) =
      ret (0, wr_units is_exp ahs wr, sq\<lparr>sq_bytes := buf', fm_cache := 0\<rparr>, ahs(the (sw_ah wr) := wr_ah env sq ahs wr)) \<and>
    wrote (sqend sq) (send_seg sq) 0 (send_desc env is_exp sq ahs wr) (sq_bytes sq) buf'"
proof -
  let ?e = "sqend sq" and ?seg = "send_seg sq" and ?ah = "wr_ah env sq ahs wr" and ?inl = "inline_wr (wr_flags is_exp wr)"
  let ?dg = "set_datagram_seg ?ah (sw_remote_qpn wr) (sw_remote_qkey wr)" and ?dat = "data_bytes (se_mem env) ?inl (sw_sges wr)"
  let ?len = "if has_grh (ahs (the (sw_ah wr))) then 48 else 16 :: nat" and ?du = "data_units ?inl (sw_sges wr)"
  have b: "b \<le> 16" "sq_wqe_cnt sq = 2 ^ b" "?e = 64 * 2 ^ b" "sq_post_one sq = Post_uc_ud" "ctrl_wq_sig sq = 0" "bbs \<le> 2 ^ b"
    using sized by (simp_all add: sq_sized_def)
  obtain a where a: "sw_ah wr = Some a" "ah_bytes_ok (ahs a)" using good by (auto simp: good_send_def)
  have calc: "wr_flags is_exp wr AND IBV_EXP_SEND_WITH_CALC = 0" and fits: "data_fits sq ?inl (sw_sges wr)"
    and opc: "sw_opcode wr \<in> {IBV_EXP_WR_SEND, IBV_EXP_WR_SEND_WITH_IMM}" using good by (simp_all add: good_send_def)
  note bd = sized_bounds [OF sized good]
  obtain op where op: "mlx5_ib_opcode (sw_opcode wr) = ret op" "MLX5_IB_OPCODE_GET_CLASS op \<noteq> MLX5_OPCODE_MANAGED"
    "send_ieth op wr = (if sw_opcode wr = IBV_EXP_WR_SEND then 0 else sw_imm wr)"
    "(ucast (MLX5_IB_OPCODE_GET_OP op) :: u8) = (if sw_opcode wr = IBV_EXP_WR_SEND then 0x0A else 0x0B)"
    using send_opcodes [OF opc] by blast
  have "ring_at b (scur_post sq) < 2 ^ b" using b(1) by (intro ring_at_less) simp
  then have seg: "?seg = 64 * ring_at b (scur_post sq)" "?seg + 64 \<le> ?e" using b by (simp_all add: send_seg_def ring_at_def)
  have e: "16 dvd ?e" "0 < ?e" "16 dvd ?seg" using b(3) seg(1) by (simp_all add: dvd_def)
  have len: "length ?dg = ?len" "?len div 16 * 16 = ?len"
    using length_datagram_seg [of ?ah] a by (simp_all add: wr_ah_def)
  have sz: "16 * (wr_units is_exp ahs wr) = 16 + ?len + 16 * ?du" "16 + ?len + 16 * ?du \<le> ?e"
    using bd(5) b(3,6) by (auto simp: wr_units_def)
  obtain b1 where b1: "put ?e (?seg + 16) ?dg (sq_bytes sq) = ret b1" "wrote ?e ?seg 16 ?dg (sq_bytes sq) b1"
    using put_wrote [of 16 ?dg ?e "?seg + 16" ?seg "sq_bytes sq"] seg len sz(2) by (auto split: if_splits)
  let ?q = "?seg + 16 + length ?dg" let ?p = "if ?q = ?e then 0 else ?q"
  have p: "?p = (?seg + (16 + length ?dg)) mod ?e" "?p < ?e" "16 dvd ?p"
    using seg(2) e len(1) by (auto simp: add.assoc split: if_splits)
  have lo: "16 + length ?dg + 16 * ?du \<le> ?e" using len sz(2) by simp
  obtain b2 where b2: "set_data_seg env sq ?inl (sw_sges wr) ?p (1 + length ?dg div 16) b1 = ret (0, 1 + length ?dg div 16 + ?du, b2)"
    "wrote ?e ?seg (16 + length ?dg) ?dat b1 b2"
    using data_seg_wrote [OF fits bd(4) e(1) p(3,2,1) lo, of env "1 + length ?dg div 16" b1] by blast
  have n: "1 + length ?dg div 16 + ?du = wr_units is_exp ahs wr" unfolding len(1) by (simp add: wr_units_def)
  let ?v = "send_view_of env is_exp sq ahs (scur_post sq) wr"
  let ?c = "set_ctrl_seg (ctrl_qp_num sq) (sv_opcode ?v) (sv_idx ?v) 0 (of_nat (wr_units is_exp ahs wr)) (sv_fm_ce_se ?v) (sv_imm ?v)"
  obtain b3 where b3: "put ?e ?seg ?c b2 = ret b3" "wrote ?e ?seg 0 ?c b2 b3"
    using put_wrote [of 0 ?c ?e ?seg ?seg b2] seg(2) by auto
  have v: "sv_opcode ?v = (if sw_opcode wr = IBV_EXP_WR_SEND then 0x0A else 0x0B)" "sv_idx ?v = ucast (scur_post sq)"
    "sv_fm_ce_se ?v = fm_ce_se_tbl sq ! unat (wr_flags is_exp wr AND 7) OR get_fence (fm_cache sq) wr"
    "sv_imm ?v = (if sw_opcode wr = IBV_EXP_WR_SEND then 0 else sw_imm wr)"
    by (simp_all add: send_view_of_def Let_def)
  have ctrl: "set_ctrl_seg_sig ?e ?seg (ctrl_qp_num sq) (ctrl_wq_sig sq) (ucast (MLX5_IB_OPCODE_GET_OP op)) (ucast (scur_post sq)) 0
      (of_nat (wr_units is_exp ahs wr)) (fm_ce_se_tbl sq ! unat (wr_flags is_exp wr AND 7) OR get_fence (fm_cache sq) wr)
      (send_ieth op wr) b2 = ret b3"
    using b3(1) unfolding set_ctrl_seg_sig_def v op(3,4) b(5) by simp
  have ah: "mlx5_update_udp_sport (se_dest_qp_num env) (sq_link_layer sq) (sw_remote_qpn wr) (ahs a) = ?ah" using a by (simp add: wr_ah_def)
  have "post_send_one env wr (wr_flags is_exp wr) ?seg ts (sq, ahs) =
      ret (0, wr_units is_exp ahs wr, sq\<lparr>sq_bytes := b3, fm_cache := 0\<rparr>, ahs(the (sw_ah wr) := ?ah))"
    using op(1,2) calc a(1) b(4) b1(1) b2(1) n ctrl
    by (simp add: post_send_one_def mlx5_post_send_one_ud_def Let_def ah inline_wr_def cong: if_cong)
  moreover have "wrote ?e ?seg 0 (?c @ ?dg @ ?dat) (sq_bytes sq) b3"
    using wrote_append [OF b1(2) b2(2)] b3(2) by (intro wrote_before [of ?e ?seg 0 ?c]) simp_all
  ultimately show ?thesis by (auto simp: send_desc_def Let_def)
qed

lemma send_desc_length:
  assumes "good_send is_exp sq ahs wr"
  shows "length (send_desc env is_exp sq ahs wr) \<le> 16 * wr_units is_exp ahs wr"
proof -
  obtain a where a: "sw_ah wr = Some a" "ah_bytes_ok (ahs a)" using assms by (auto simp: good_send_def)
  then have "ah_bytes_ok (wr_ah env sq ahs wr)" "has_grh (wr_ah env sq ahs wr) = has_grh (ahs a)" by (simp_all add: wr_ah_def)
  with a length_data_bytes [of "se_mem env" "inline_wr (wr_flags is_exp wr)" "sw_sges wr"] show ?thesis
    by (simp add: send_desc_def Let_def wr_units_def length_datagram_seg)
qed

subsection \<open>What the device finds in the queue\<close>

text \<open>
  The device reads the size of the descriptor at a place and then that many bytes. The next descriptor
  starts at the next slot.
\<close>

definition sq_index :: "mlx5_sq \<Rightarrow> u32 \<Rightarrow> nat" where
  "sq_index sq p = unat (p AND (sq_wqe_cnt sq - 1))"

definition device_ds :: "mlx5_sq \<Rightarrow> u32 \<Rightarrow> nat" where
  "device_ds sq p = unat (htonl (of_le (take 4 (drop 4 (ring_bytes (sqend sq) (64 * sq_index sq p) 8 (sq_bytes sq))))) AND 0x3F)"

definition device_read :: "mlx5_sq \<Rightarrow> u32 \<Rightarrow> sent_view" where
  "device_read sq p = decode_send (ring_bytes (sqend sq) (64 * sq_index sq p) (16 * device_ds sq p) (sq_bytes sq))"

definition bbs_of :: "nat \<Rightarrow> nat" where
  "bbs_of ds = (ds * 16 + 63) div 64"

record sq_entry =
  en_pos :: u32
  en_ds :: nat
  en_id :: u64
  en_view :: sent_view

fun sq_walk :: "mlx5_sq \<Rightarrow> u32 \<Rightarrow> nat \<Rightarrow> sq_entry list" where
  "sq_walk sq p 0 = []"
| "sq_walk sq p (Suc n) = \<lparr>en_pos = p, en_ds = device_ds sq p, en_id = sq_wrid sq (sq_index sq p), en_view = device_read sq p\<rparr> #
     sq_walk sq (p + of_nat (bbs_of (device_ds sq p))) n"

text \<open>The requests in the queue of a device that has come to the place \<open>p\<close>.\<close>

definition sq_content :: "mlx5_sq \<Rightarrow> u32 \<Rightarrow> sq_entry list" where
  "sq_content sq p = sq_walk sq p (unat (sq_head sq - sq_tail sq))"

lemma ring_bytes_take: "k \<le> n \<Longrightarrow> take k (ring_bytes e st n buf) = ring_bytes e st k buf"
  by (rule nth_equalityI) (simp_all add: ring_bytes_def)

lemma ring_bytes_mod [simp]: "ring_bytes e (st mod e) n buf = ring_bytes e st n buf"
  by (simp add: ring_bytes_def mod_simps)

lemma ring_bytes_split:
  assumes "wrote e st 0 bs b b'" and "length bs \<le> n"
  shows "\<exists>pad. ring_bytes e st n b' = bs @ pad"
proof -
  have "take (length bs) (ring_bytes e st n b') = bs"
    using wrote_read [OF assms(1) refl] assms(2) by (simp add: ring_bytes_take)
  then show ?thesis by (metis append_take_drop_id)
qed

lemma desc_read:
  assumes sized: "sq_sized b cap bbs sq" and good: "good_send is_exp sq ahs wr"
    and wrote: "wrote (sqend sq) (send_seg sq) 0 (send_desc env is_exp sq ahs wr) buf (sq_bytes sq')"
    and same: "sqend sq' = sqend sq" "sq_wqe_cnt sq' = sq_wqe_cnt sq"
  shows "device_ds sq' (scur_post sq) = wr_units is_exp ahs wr"
    and "device_read sq' (scur_post sq) = send_view_of env is_exp sq ahs (scur_post sq) wr"
proof -
  let ?v = "send_view_of env is_exp sq ahs (scur_post sq) wr" and ?n = "wr_units is_exp ahs wr"
  let ?inl = "inline_wr (wr_flags is_exp wr)" and ?ah = "wr_ah env sq ahs wr"
  let ?dg = "set_datagram_seg ?ah (sw_remote_qpn wr) (sw_remote_qkey wr)" and ?dat = "data_bytes (se_mem env) ?inl (sw_sges wr)"
  let ?c = "set_ctrl_seg (ctrl_qp_num sq) (sv_opcode ?v) (sv_idx ?v) 0 (of_nat ?n) (sv_fm_ce_se ?v) (sv_imm ?v)"
  let ?read = "\<lambda>n. ring_bytes (sqend sq') (64 * sq_index sq' (scur_post sq)) n (sq_bytes sq')"
  have at: "64 * sq_index sq' (scur_post sq) = send_seg sq" by (simp add: sq_index_def send_seg_def same)
  note bd = sized_bounds [OF sized good]
  obtain a where a: "sw_ah wr = Some a" "ah_bytes_ok (ahs a)" using good by (auto simp: good_send_def)
  then have ah: "ah_bytes_ok ?ah" "has_grh ?ah = has_grh (ahs a)" by (simp_all add: wr_ah_def)
  have q: "\<not> bit (sw_remote_qpn wr) 31" using good by (simp add: good_send_def)
  have n: "16 * ?n = 16 + length ?dg + 16 * data_units ?inl (sw_sges wr)"
    using length_datagram_seg [OF ah(1)] a ah(2) by (simp add: wr_units_def)
  have desc: "send_desc env is_exp sq ahs wr = ?c @ ?dg @ ?dat" by (simp add: send_desc_def Let_def)
  have "length (?c @ ?dg @ ?dat) \<le> 16 * ?n" using n length_data_bytes [of "se_mem env" ?inl "sw_sges wr"] by simp
  from ring_bytes_split [OF wrote [unfolded desc] this] same at obtain pad where
    full: "?read (16 * ?n) = ?c @ ?dg @ ?dat @ pad" by auto
  have "?read 8 = take 8 (?read (16 * ?n))" using bd(3) by (subst ring_bytes_take) auto
  then have head: "?read 8 = take 8 ?c" unfolding full by simp
  have "take 4 (drop 4 (take 8 ?c)) = le_bytes 4 (htonl (push_bit 8 (ctrl_qp_num sq) OR (ucast (of_nat ?n :: u8) AND 0x3F)))"
    by (simp add: set_ctrl_seg_def)
  then have "device_ds sq' (scur_post sq) = unat (ucast (of_nat ?n :: u8) AND 0x3F :: u32)"
    unfolding device_ds_def head by (simp add: ctrl_fields)
  then show ds: "device_ds sq' (scur_post sq) = ?n" using units_fit [OF bd(2)] by simp
  have pad: "length (?dat @ pad) = 16 * data_units ?inl (sw_sges wr)"
    using arg_cong [OF full, of length] n by simp
  have fits: "data_fits sq ?inl (sw_sges wr)" using good by (simp add: good_send_def)
  have "decode_send (?c @ ?dg @ (?dat @ pad) @ []) = \<lparr>sv_opcode = sv_opcode ?v, sv_idx = sv_idx ?v, sv_qpn = take_bit 24 (ctrl_qp_num sq),
      sv_fm_ce_se = sv_fm_ce_se ?v, sv_imm = sv_imm ?v, sv_base = ud_base ?ah (sw_remote_qpn wr) (sw_remote_qkey wr),
      sv_grh = (if has_grh ?ah then Some (grh_sec (av ?ah)) else None), sv_data = decode_data (?dat @ pad)\<rparr>"
    using n pad by (intro decode_send_eq [OF ah(1) q bd(2)]) simp
  moreover have "decode_data (?dat @ pad) = data_view (se_mem env) ?inl (sw_sges wr)"
    using fits bd(4) by (intro decode_data_view [OF pad]) (auto simp: data_fits_def)
  ultimately show "device_read sq' (scur_post sq) = ?v"
    unfolding device_read_def ds full by (simp add: send_view_of_def Let_def)
qed

subsection \<open>The requests in the queue\<close>

definition slots :: "sq_entry list \<Rightarrow> nat" where
  "slots es = sum_list (map (\<lambda>x. bbs_of (en_ds x)) es)"

lemma slots_simps [simp]: "slots [] = 0" "slots (x # es) = bbs_of (en_ds x) + slots es" "slots (es @ es') = slots es + slots es'"
  by (simp_all add: slots_def)

text \<open>An entry of the queue, from the place and the number of its turn on.\<close>

definition en_ok :: "nat \<Rightarrow> mlx5_sq \<Rightarrow> u32 \<Rightarrow> u32 \<Rightarrow> sq_entry \<Rightarrow> bool" where
  "en_ok bbs sq p k x \<longleftrightarrow> en_pos x = p \<and> 0 < en_ds x \<and> bbs_of (en_ds x) \<le> bbs \<and> device_ds sq p = en_ds x \<and>
     device_read sq p = en_view x \<and> sv_idx (en_view x) = ucast p \<and> sq_wrid sq (sq_index sq p) = en_id x \<and> sq_wqe_head sq (sq_index sq p) = k"

definition sq_rep :: "nat \<Rightarrow> nat \<Rightarrow> nat \<Rightarrow> mlx5_sq \<Rightarrow> u32 \<Rightarrow> sq_entry list \<Rightarrow> bool" where
  "sq_rep b cap bbs sq p es \<longleftrightarrow> sq_sized b cap bbs sq \<and> sq_head sq = sq_tail sq + of_nat (length es) \<and> length es \<le> cap \<and>
     scur_post sq = p + of_nat (slots es) \<and>
     (\<forall>i<length es. en_ok bbs sq (p + of_nat (slots (take i es))) (sq_tail sq + of_nat i) (es ! i))"

lemma bbs_of_pos: "0 < ds \<Longrightarrow> 0 < bbs_of ds"
  by (simp add: bbs_of_def div_greater_zero_iff)

lemma bbs_of_le: "ds \<le> 4 * bbs \<Longrightarrow> bbs_of ds \<le> bbs"
  unfolding bbs_of_def by linarith

lemma bbs_of_bytes: "16 * ds \<le> 64 * bbs_of ds"
  unfolding bbs_of_def by linarith

lemma slots_le: "(\<And>x. x \<in> set es \<Longrightarrow> bbs_of (en_ds x) \<le> bbs) \<Longrightarrow> slots es \<le> length es * bbs"
proof (induction es)
  case (Cons x es)
  then have "bbs_of (en_ds x) \<le> bbs" "slots es \<le> length es * bbs" by simp_all
  then show ?case by simp
qed simp

lemma slots_nth: "i < length es \<Longrightarrow> slots es = slots (take i es) + bbs_of (en_ds (es ! i)) + slots (drop (Suc i) es)"
  by (subst id_take_nth_drop [of i es]) simp_all

lemma cap_small:
  assumes "sq_sized b cap bbs sq"
  shows "cap \<le> 2 ^ 16"
proof -
  have b: "b \<le> 16" "cap * bbs \<le> 2 ^ b" "64 + (unat (max_inline_data sq) + 19) div 16 * 16 \<le> 64 * bbs"
    using assms by (simp_all add: sq_sized_def)
  then have "cap * 1 \<le> cap * bbs" by (intro mult_le_mono) simp_all
  also have "\<dots> \<le> 2 ^ b" by (rule b(2))
  also have "\<dots> \<le> 2 ^ 16" using b(1) by (intro power_increasing) simp_all
  finally show ?thesis by simp
qed

lemma rep_length:
  assumes "sq_rep b cap bbs sq p es"
  shows "unat (sq_head sq - sq_tail sq) = length es"
proof -
  have "length es \<le> 2 ^ 16" using cap_small [of b cap bbs sq] assms by (simp add: sq_rep_def)
  then have "unat (of_nat (length es) :: u32) = length es" by (intro unat_of_nat_u32) simp
  then show ?thesis using assms by (simp add: sq_rep_def)
qed

text \<open>The descriptors are where the device looks for them.\<close>

lemma walk_entries:
  assumes "\<forall>i<length es. en_ok bbs sq (p + of_nat (slots (take i es))) (k + of_nat i) (es ! i)"
  shows "sq_walk sq p (length es) = es"
  using assms
proof (induction es arbitrary: p k)
  case (Cons x es)
  have x: "en_ok bbs sq p k x" using Cons.prems [rule_format, of 0] by simp
  have "\<forall>i<length es. en_ok bbs sq (p + of_nat (bbs_of (en_ds x)) + of_nat (slots (take i es))) (k + 1 + of_nat i) (es ! i)"
    using Cons.prems [rule_format, of "Suc _"] by (simp add: add.assoc)
  from Cons.IH [OF this] x show ?case by (simp add: en_ok_def)
qed simp

lemma rep_content:
  assumes "sq_rep b cap bbs sq p es"
  shows "sq_content sq p = es"
  using walk_entries [of es bbs sq p "sq_tail sq"] assms unfolding sq_content_def rep_length [OF assms] sq_rep_def by blast

text \<open>A write into the slots from the place of the next post on leaves the entries alone.\<close>

lemma write_beyond:
  assumes "b \<le> 16" and "wrote (64 * 2 ^ b) (64 * ring_at b q) 0 bs buf buf'" and "length bs \<le> 64 * m"
    and "q = p + of_nat d" and "d + m \<le> 2 ^ b" and "k < 64 * d"
  shows "buf' ((64 * ring_at b p + k) mod (64 * 2 ^ b)) = buf ((64 * ring_at b p + k) mod (64 * 2 ^ b))"
proof -
  define e where "e = (64 * 2 ^ b :: nat)"
  define j where "j = e - 64 * d + k"
  have d: "64 * d \<le> e" "64 * m \<le> e - 64 * d" using assms(5) by (simp_all add: e_def)
  have "ring_at b q = (ring_at b p + d) mod 2 ^ b"
    using assms(1) ring_at_add [of b p d] ring_at_mod [of b p] unfolding assms(4) by (simp add: mod_simps)
  then have "64 * ring_at b q = (64 * ring_at b p + 64 * d) mod e" by (simp add: e_def mult_mod_right distrib_left)
  then have "(64 * ring_at b q + j) mod e = (64 * ring_at b p + 64 * d + j) mod e" by (simp add: mod_simps)
  also have "64 * ring_at b p + 64 * d + j = 64 * ring_at b p + k + e" using d(1) by (simp add: j_def)
  finally have at: "(64 * ring_at b q + j) mod e = (64 * ring_at b p + k) mod e" by simp
  have "j < e" "length bs \<le> j" using assms(3,6) d by (simp_all add: j_def)
  then have "buf' ((64 * ring_at b q + j) mod e) = buf ((64 * ring_at b q + j) mod e)"
    using assms(2) by (intro wrote_other [of e "64 * ring_at b q" 0 bs]) (simp_all add: e_def)
  then show ?thesis unfolding at by (simp add: e_def)
qed

lemma en_ok_frame:
  assumes "en_ok bbs sq p k x" and "sqend sq' = sqend sq" and "sq_wqe_cnt sq' = sq_wqe_cnt sq"
    and bytes: "\<And>j. j < 64 * bbs_of (en_ds x) \<Longrightarrow> sq_bytes sq' ((64 * sq_index sq p + j) mod sqend sq) =
      sq_bytes sq ((64 * sq_index sq p + j) mod sqend sq)"
    and ids: "sq_wrid sq' (sq_index sq p) = sq_wrid sq (sq_index sq p)" "sq_wqe_head sq' (sq_index sq p) = sq_wqe_head sq (sq_index sq p)"
  shows "en_ok bbs sq' p k x"
proof -
  have at: "sq_index sq' p = sq_index sq p" by (simp add: sq_index_def assms(3))
  have same: "ring_bytes (sqend sq) (64 * sq_index sq p) n (sq_bytes sq') = ring_bytes (sqend sq) (64 * sq_index sq p) n (sq_bytes sq)"
    if "n \<le> 64 * bbs_of (en_ds x)" for n
    using that bytes by (simp add: ring_bytes_def)
  have "0 < bbs_of (en_ds x)" using assms(1) by (intro bbs_of_pos) (simp add: en_ok_def)
  then have ds: "device_ds sq' p = device_ds sq p" by (simp add: device_ds_def at assms(2) same)
  have "device_ds sq p = en_ds x" using assms(1) by (simp add: en_ok_def)
  then have "device_read sq' p = device_read sq p"
    using bbs_of_bytes [of "en_ds x"] by (simp add: device_read_def ds at assms(2) same)
  with ds at ids assms(1) show ?thesis by (simp add: en_ok_def)
qed

text \<open>One request joins the queue; the head moves at the end of a chain only.\<close>

definition advance :: "nat \<Rightarrow> mlx5_sq \<Rightarrow> mlx5_sq" where
  "advance n sq = sq\<lparr>sq_head := sq_head sq + of_nat n\<rparr>"

lemma advance_simps [simp]:
  "sq_head (advance n sq) = sq_head sq + of_nat n" "sq_tail (advance n sq) = sq_tail sq" "scur_post (advance n sq) = scur_post sq"
  "sq_bytes (advance n sq) = sq_bytes sq" "sqend (advance n sq) = sqend sq" "sq_wqe_cnt (advance n sq) = sq_wqe_cnt sq"
  "sq_wrid (advance n sq) = sq_wrid sq" "sq_wqe_head (advance n sq) = sq_wqe_head sq"
  "sq_sized b cap bbs (advance n sq) = sq_sized b cap bbs sq" "good_send is_exp (advance n sq) ahs wr = good_send is_exp sq ahs wr"
  by (simp_all add: advance_def sq_sized_def good_send_def data_fits_def)

definition record_post :: "send_wr \<Rightarrow> nat \<Rightarrow> nat \<Rightarrow> mlx5_sq \<Rightarrow> mlx5_sq" where
  "record_post wr n sz sq =
    (let idx = unat (scur_post sq AND (sq_wqe_cnt sq - 1))
     in sq\<lparr>sq_wrid := (sq_wrid sq)(idx := sw_id wr), sq_wqe_head := (sq_wqe_head sq)(idx := sq_head sq + of_nat n),
       scur_post := scur_post sq + of_nat ((sz * 16 + 63) div 64)\<rparr>)"

lemma post_joins:
  assumes rep: "sq_rep b cap bbs (advance n sq) p es" and room: "length es < cap" and good: "good_send is_exp sq ahs wr"
    and wrote: "wrote (sqend sq) (send_seg sq) 0 (send_desc env is_exp sq ahs wr) (sq_bytes sq) buf"
  shows "sq_rep b cap bbs (advance (Suc n) (record_post wr n (wr_units is_exp ahs wr) (sq\<lparr>sq_bytes := buf, fm_cache := 0\<rparr>))) p
    (es @ [\<lparr>en_pos = scur_post sq, en_ds = wr_units is_exp ahs wr, en_id = sw_id wr,
      en_view = send_view_of env is_exp sq ahs (scur_post sq) wr\<rparr>])"
    (is "sq_rep b cap bbs ?sq p (es @ [?x])")
proof -
  let ?u = "wr_units is_exp ahs wr" and ?cur = "scur_post sq"
  have sized: "sq_sized b cap bbs sq" using rep by (simp add: sq_rep_def)
  have b: "b \<le> 16" "sq_wqe_cnt sq = 2 ^ b" "sqend sq = 64 * 2 ^ b" "cap * bbs \<le> 2 ^ b" using sized by (simp_all add: sq_sized_def)
  note bd = sized_bounds [OF sized good]
  have u: "0 < bbs_of ?u" "bbs_of ?u \<le> bbs" using bd by (simp_all add: bbs_of_pos bbs_of_le)
  have cur: "?cur = p + of_nat (slots es)" using rep by (simp add: sq_rep_def)
  have ok: "en_ok bbs (advance n sq) (p + of_nat (slots (take i es))) (sq_tail sq + of_nat i) (es ! i)" if "i < length es" for i
    using rep that by (simp add: sq_rep_def)
  have total: "slots es + bbs_of ?u \<le> 2 ^ b"
  proof -
    have "slots es \<le> length es * bbs" using ok by (intro slots_le) (auto simp: in_set_conv_nth en_ok_def)
    then have "slots es + bbs_of ?u \<le> Suc (length es) * bbs" using u(2) by simp
    also have "\<dots> \<le> cap * bbs" using room by (intro mult_le_mono1) simp
    finally show ?thesis using b(4) by simp
  qed
  have sq: "sqend ?sq = sqend sq" "sq_wqe_cnt ?sq = sq_wqe_cnt sq" "sq_bytes ?sq = buf" "sq_tail ?sq = sq_tail sq"
    "sq_wrid ?sq = (sq_wrid sq)(sq_index sq ?cur := sw_id wr)" "sq_head ?sq = sq_head sq + of_nat (Suc n)"
    "sq_wqe_head ?sq = (sq_wqe_head sq)(sq_index sq ?cur := sq_head sq + of_nat n)" "scur_post ?sq = ?cur + of_nat (bbs_of ?u)"
    by (simp_all add: record_post_def sq_index_def bbs_of_def Let_def)
  have idx: "sq_index sq q = ring_at b q" for q by (simp add: sq_index_def ring_at_def b)
  have old: "en_ok bbs ?sq (p + of_nat (slots (take i es))) (sq_tail sq + of_nat i) (es ! i)" if i: "i < length es" for i
  proof -
    let ?q = "p + of_nat (slots (take i es))"
    define d where "d = bbs_of (en_ds (es ! i)) + slots (drop (Suc i) es)"
    have split: "slots es = slots (take i es) + d" using slots_nth [OF i] by (simp add: d_def)
    have cur_q: "?cur = ?q + of_nat d" by (simp add: cur split add.assoc)
    have pos: "0 < bbs_of (en_ds (es ! i))" using ok [OF i] by (intro bbs_of_pos) (simp add: en_ok_def)
    have fit: "d + bbs_of ?u \<le> 2 ^ b" using total split by simp
    have len: "length (send_desc env is_exp sq ahs wr) \<le> 64 * bbs_of ?u"
      by (rule order_trans [OF send_desc_length [OF good] bbs_of_bytes])
    have "buf ((64 * ring_at b ?q + k) mod (64 * 2 ^ b)) = sq_bytes sq ((64 * ring_at b ?q + k) mod (64 * 2 ^ b))"
      if "k < 64 * bbs_of (en_ds (es ! i))" for k
    proof (rule write_beyond [OF b(1) _ len cur_q fit])
      show "wrote (64 * 2 ^ b) (64 * ring_at b ?cur) 0 (send_desc env is_exp sq ahs wr) (sq_bytes sq) buf"
        using wrote b(2,3) by (simp add: send_seg_def ring_at_def)
      show "k < 64 * d" using that by (simp add: d_def)
    qed
    moreover have "ring_at b ?q \<noteq> ring_at b ?cur"
      using ring_at_inj [of b 0 d ?q] b(1) u(1) pos fit by (simp add: cur_q d_def)
    ultimately show ?thesis using en_ok_frame [OF ok [OF i], of ?sq] sq idx b(3) by (simp add: idx [of ?q, unfolded sq_index_def] sq_index_def)
  qed
  have wrote': "wrote (sqend sq) (send_seg sq) 0 (send_desc env is_exp sq ahs wr) (sq_bytes sq) (sq_bytes ?sq)" using wrote sq(3) by simp
  have new: "en_ok bbs ?sq ?cur (sq_tail sq + of_nat (length es)) ?x"
    using desc_read [OF sized good wrote' sq(1,2)] bd(3) u(2) sq rep by (simp add: en_ok_def sq_rep_def sq_index_def send_view_of_def Let_def)
  have sized': "sq_sized b cap bbs ?sq" using sized by (simp add: sq_sized_def record_post_def Let_def advance_def)
  have "sq_head sq + of_nat n = sq_tail sq + of_nat (length es)" using rep by (simp add: sq_rep_def)
  then have head: "sq_head ?sq = sq_tail ?sq + of_nat (length (es @ [?x]))"
    unfolding sq(4,6) by (simp add: algebra_simps)
  have "scur_post ?sq = p + of_nat (slots (es @ [?x]))" unfolding sq(8) cur by (simp add: add.assoc)
  moreover have "en_ok bbs ?sq (p + of_nat (slots (take i (es @ [?x])))) (sq_tail ?sq + of_nat i) ((es @ [?x]) ! i)"
    if "i < length (es @ [?x])" for i
  proof (cases "i < length es")
    case True
    then show ?thesis using old [OF True] unfolding sq(4) by (simp add: nth_append)
  next
    case False
    then have "i = length es" using that by simp
    then show ?thesis using new cur unfolding sq(4) by (simp add: nth_append)
  qed
  ultimately show ?thesis unfolding sq_rep_def using sized' head room by simp
qed

subsection \<open>A chain of requests\<close>

text \<open>What a chain leaves as it is: the set-up of the queue, and the handles up to the port.\<close>

definition sq_same :: "mlx5_sq \<Rightarrow> mlx5_sq \<Rightarrow> bool" where
  "sq_same sq sq' \<longleftrightarrow> ctrl_qp_num sq' = ctrl_qp_num sq \<and> fm_ce_se_tbl sq' = fm_ce_se_tbl sq \<and> fm_cache sq' = fm_cache sq \<and>
     sq_link_layer sq' = sq_link_layer sq \<and> sq_max_gs sq' = sq_max_gs sq \<and> max_inline_data sq' = max_inline_data sq \<and>
     create_flags sq' = create_flags sq"

definition ahs_same :: "link_layer \<Rightarrow> (nat \<Rightarrow> mlx5_ah) \<Rightarrow> (nat \<Rightarrow> mlx5_ah) \<Rightarrow> bool" where
  "ahs_same ll ahs ahs' \<longleftrightarrow> (\<forall>d q a. mlx5_update_udp_sport d ll q (ahs' a) = mlx5_update_udp_sport d ll q (ahs a))"

lemma ahs_sameD:
  assumes "ahs_same ll ahs ahs'"
  shows "mlx5_update_udp_sport d ll q (ahs' a) = mlx5_update_udp_sport d ll q (ahs a)"
    and "has_grh (ahs' a) = has_grh (ahs a)" and "ah_bytes_ok (ahs' a) = ah_bytes_ok (ahs a)"
proof -
  show eq: "mlx5_update_udp_sport d ll q (ahs' a) = mlx5_update_udp_sport d ll q (ahs a)" for d q a
    using assms by (simp add: ahs_same_def)
  show "has_grh (ahs' a) = has_grh (ahs a)" "ah_bytes_ok (ahs' a) = ah_bytes_ok (ahs a)"
    using arg_cong [OF eq, of has_grh] arg_cong [OF eq, of ah_bytes_ok] by simp_all
qed

lemma ahs_same_refl [simp]: "ahs_same ll ahs ahs"
  by (simp add: ahs_same_def)

lemma ahs_same_trans: "ahs_same ll ahs ahs' \<Longrightarrow> ahs_same ll ahs' ahs'' \<Longrightarrow> ahs_same ll ahs ahs''"
  by (simp add: ahs_same_def)

lemma ahs_same_upd: "ahs_same (sq_link_layer sq) ahs (ahs(the (sw_ah wr) := wr_ah env sq ahs wr))"
  by (simp add: ahs_same_def wr_ah_def)

lemma view_same:
  "sq_same sq sq' \<Longrightarrow> ahs_same (sq_link_layer sq) ahs ahs' \<Longrightarrow>
    send_view_of env is_exp sq' ahs' pos wr = send_view_of env is_exp sq ahs pos wr"
  by (simp add: send_view_of_def wr_ah_def sq_same_def ahs_sameD(1))

lemma good_same:
  "sq_same sq sq' \<Longrightarrow> ahs_same (sq_link_layer sq) ahs ahs' \<Longrightarrow> good_send is_exp sq' ahs' wr = good_send is_exp sq ahs wr"
  by (intro good_send_cong) (simp_all add: sq_same_def ahs_sameD(3))

text \<open>The entries new in the queue are those of the requests.\<close>

definition posted :: "send_env \<Rightarrow> bool \<Rightarrow> mlx5_sq \<Rightarrow> (nat \<Rightarrow> mlx5_ah) \<Rightarrow> sq_entry \<Rightarrow> send_wr \<Rightarrow> bool" where
  "posted env is_exp sq ahs x wr \<longleftrightarrow> en_id x = sw_id wr \<and> en_view x = send_view_of env is_exp sq ahs (en_pos x) wr"

lemma sq_overflow_iff:
  assumes "sq_rep b cap bbs (advance n sq) p es"
  shows "sq_overflow n sq \<longleftrightarrow> length es = cap"
proof -
  have cap: "cap \<le> 2 ^ 16" "length es \<le> cap" using cap_small [of b cap bbs "advance n sq"] assms by (simp_all add: sq_rep_def)
  have "sq_head sq + of_nat n = sq_tail sq + of_nat (length es)" using assms by (simp add: sq_rep_def)
  then have cur: "sq_head sq - sq_tail sq + of_nat n = of_nat (length es)" by (simp add: algebra_simps)
  have "sq_sized b cap bbs sq" using assms by (simp add: sq_rep_def)
  then have mp: "sq_max_post sq = of_nat cap" by (simp add: sq_sized_def)
  have "unat (of_nat (length es) :: u32) = length es" "unat (of_nat cap :: u32) = cap"
    using cap by (auto intro!: unat_of_nat_u32)
  then show ?thesis using cap(2) unfolding sq_overflow_def cur mp word_less_nat_alt by auto
qed

definition seg_ok :: "mlx5_sq \<Rightarrow> nat \<Rightarrow> bool" where
  "seg_ok sq seg \<longleftrightarrow> 64 dvd seg \<and> seg < sqend sq"

lemma send_chain_posts:
  assumes "sq_rep b cap bbs (advance n sq) p es" and "list_all (good_send is_exp sq ahs) wrs"
    and "n = 0 \<or> seg_ok sq seg"
  shows "\<exists>sz' seg' sq' ahs' new. send_chain env is_exp wrs n sz seg (sq, ahs) =
      ret (if length wrs \<le> cap - length es then 0 else ENOMEM, drop (cap - length es) wrs,
        n + min (length wrs) (cap - length es), sz', seg', sq', ahs') \<and>
    sq_rep b cap bbs (advance (n + min (length wrs) (cap - length es)) sq') p (es @ new) \<and>
    list_all2 (posted env is_exp sq ahs) new (take (cap - length es) wrs) \<and>
    sq_same sq sq' \<and> snd_db sq' = snd_db sq \<and> ahs_same (sq_link_layer sq) ahs ahs' \<and> (n + min (length wrs) (cap - length es) = 0 \<or> seg_ok sq' seg')"
  using assms
proof (induction wrs arbitrary: n sz seg sq ahs es)
  case Nil
  then show ?case by (auto simp: sq_same_def)
next
  case (Cons wr wrs)
  have good: "good_send is_exp sq ahs wr" "list_all (good_send is_exp sq ahs) wrs" using Cons.prems(2) by simp_all
  have sized: "sq_sized b cap bbs sq" using Cons.prems(1) by (simp add: sq_rep_def)
  have flags: "create_flags sq AND IBV_EXP_QP_CREATE_IGNORE_SQ_OVERFLOW = 0" "fm_cache sq = 0" using sized by (simp_all add: sq_sized_def)
  have le: "length es \<le> cap" using Cons.prems(1) by (simp add: sq_rep_def)
  show ?case
  proof (cases "length es = cap")
    case True
    then have "sq_overflow n sq" using sq_overflow_iff [OF Cons.prems(1)] by simp
    with flags True Cons.prems show ?thesis by (auto simp: ENOMEM_def sq_same_def Let_def)
  next
    case False
    then have room: "length es < cap" "\<not> sq_overflow n sq" using le sq_overflow_iff [OF Cons.prems(1)] by simp_all
    let ?u = "wr_units is_exp ahs wr"
    define ahs1 where "ahs1 = ahs(the (sw_ah wr) := wr_ah env sq ahs wr)"
    obtain buf where one: "post_send_one env wr (wr_flags is_exp wr) (send_seg sq) sz (sq, ahs) =
        ret (0, ?u, sq\<lparr>sq_bytes := buf, fm_cache := 0\<rparr>, ahs1)"
      and wrote: "wrote (sqend sq) (send_seg sq) 0 (send_desc env is_exp sq ahs wr) (sq_bytes sq) buf"
      using post_one_ok [OF sized good(1), of env sz] unfolding ahs1_def by blast
    define sq1 where "sq1 = record_post wr n ?u (sq\<lparr>sq_bytes := buf, fm_cache := 0\<rparr>)"
    define x where "x = \<lparr>en_pos = scur_post sq, en_ds = ?u, en_id = sw_id wr,
      en_view = send_view_of env is_exp sq ahs (scur_post sq) wr\<rparr>"
    have rep: "sq_rep b cap bbs (advance (Suc n) sq1) p (es @ [x])"
      unfolding sq1_def x_def by (rule post_joins [OF Cons.prems(1) room(1) good(1) wrote])
    have same: "sq_same sq sq1" "ahs_same (sq_link_layer sq) ahs ahs1"
      using flags(2) by (simp_all add: sq1_def record_post_def sq_same_def Let_def ahs1_def ahs_same_upd)
    have link: "sq_link_layer sq1 = sq_link_layer sq" "sqend sq1 = sqend sq" by (simp_all add: sq1_def record_post_def Let_def)
    have db: "snd_db sq1 = snd_db sq" by (simp add: sq1_def record_post_def Let_def)
    have seg: "seg_ok sq1 (send_seg sq)"
    proof -
      have "b \<le> 16" "sq_wqe_cnt sq = 2 ^ b" "sqend sq = 64 * 2 ^ b" using sized by (simp_all add: sq_sized_def)
      with ring_at_less [of b "scur_post sq"] show ?thesis unfolding seg_ok_def link by (simp add: send_seg_def ring_at_def)
    qed
    have "list_all (good_send is_exp sq1 ahs1) wrs" using good(2) good_same [OF same] by (simp cong: list.pred_cong)
    from Cons.IH [OF rep this, of "send_seg sq" ?u] seg obtain sz' seg' sq' ahs' new where IH:
      "send_chain env is_exp wrs (Suc n) ?u (send_seg sq) (sq1, ahs1) =
        ret (if length wrs \<le> cap - Suc (length es) then 0 else ENOMEM, drop (cap - Suc (length es)) wrs,
          Suc n + min (length wrs) (cap - Suc (length es)), sz', seg', sq', ahs')"
      "sq_rep b cap bbs (advance (Suc n + min (length wrs) (cap - Suc (length es))) sq') p ((es @ [x]) @ new)"
      "list_all2 (posted env is_exp sq1 ahs1) new (take (cap - Suc (length es)) wrs)"
      "sq_same sq1 sq'" "ahs_same (sq_link_layer sq) ahs1 ahs'" "seg_ok sq' seg'" "snd_db sq' = snd_db sq1"
      by (auto simp: link)
    have max_gs: "\<not> sq_max_gs sq < int (length (sw_sges wr))" using good(1) by (simp add: good_send_def data_fits_def)
    have step: "send_chain env is_exp (wr # wrs) n sz seg (sq, ahs) = send_chain env is_exp wrs (Suc n) ?u (send_seg sq) (sq1, ahs1)"
      using room(2) max_gs one by (simp add: Let_def wr_flags_def sq1_def record_post_def cong: if_cong)
    have n: "cap - length es = Suc (cap - Suc (length es))" using room(1) by simp
    have "posted env is_exp sq1 ahs1 = posted env is_exp sq ahs"
      unfolding posted_def [abs_def] view_same [OF same] ..
    then have "list_all2 (posted env is_exp sq ahs) (x # new) (take (cap - length es) (wr # wrs))"
      using IH(3) by (simp add: n x_def posted_def)
    moreover have "sq_same sq sq'" using same(1) IH(4) by (simp add: sq_same_def)
    moreover have "ahs_same (sq_link_layer sq) ahs ahs'" using ahs_same_trans [OF same(2) IH(5)] .
    ultimately show ?thesis
      unfolding step IH(1) using IH(2,6,7) db by (intro exI [of _ sz'] exI [of _ seg'] exI [of _ sq'] exI [of _ ahs'] exI [of _ "x # new"]) (simp add: n)
  qed
qed

subsection \<open>The doorbell\<close>

lemma ring_bytes_append: "ring_bytes e st (n + k) buf = ring_bytes e st n buf @ ring_bytes e (st + n) k buf"
  by (rule nth_equalityI) (auto simp: ring_bytes_def nth_append ac_simps)

text \<open>What the device gets is the descriptor, around the end of the queue.\<close>

lemma bf_copy_eq:
  assumes "64 dvd e" and "64 dvd src" and "src < e"
  shows "mlx5_bf_copy e buf n src = ret (ring_bytes e src (64 * n) buf)"
  using assms
proof (induction n arbitrary: src)
  case 0
  then show ?case by (simp add: ring_bytes_def)
next
  case (Suc n)
  let ?next = "if src + 64 = e then 0 else src + 64"
  have fit: "src + 64 \<le> e" using Suc.prems by (auto simp: dvd_def)
  then have next_p: "?next = (src + 64) mod e" "64 dvd ?next" "?next < e" using Suc.prems by auto
  have "map buf [src..<src + 64] = ring_bytes e src 64 buf"
    using fit by (intro nth_equalityI) (auto simp: ring_bytes_def)
  moreover have "ring_bytes e ?next (64 * n) buf = ring_bytes e (src + 64) (64 * n) buf" unfolding next_p(1) by simp
  ultimately show ?case
    using Suc.IH [OF Suc.prems(1) next_p(2,3)] fit by (simp add: get_def ring_bytes_append [of e src 64])
qed

lemma ring_db_rings:
  assumes "seg_ok sq seg" and "64 dvd sqend sq"
  shows "\<exists>bf. ring_db cur seg n sq = ret (sq\<lparr>last_post := cur, snd_db := htonl cur, sq_bf := bf\<rparr>) \<and>
    bf_written bf = (bf_offset (sq_bf sq), ring_bytes (sqend sq) seg
      (if bf_db_method (sq_bf sq) = MLX5_DB_METHOD_DB \<or> \<not> n \<le> unat (bf_buf_size (sq_bf sq) div 64) then 8 else 64 * n) (sq_bytes sq)) #
      bf_written (sq_bf sq)"
proof -
  have fit: "seg + 64 \<le> sqend sq" using assms by (auto simp: seg_ok_def dvd_def)
  have "map (sq_bytes sq) [seg..<seg + 8] = ring_bytes (sqend sq) seg 8 (sq_bytes sq)"
    using fit by (intro nth_equalityI) (auto simp: ring_bytes_def)
  then have small: "get (sqend sq) seg 8 (sq_bytes sq) = ret (ring_bytes (sqend sq) seg 8 (sq_bytes sq))"
    using fit by (simp add: get_def)
  show ?thesis
    using assms by (auto simp: ring_db_def Let_def small bf_copy_eq seg_ok_def)
qed

subsection \<open>Posting\<close>

definition sq_ready :: "nat \<Rightarrow> nat \<Rightarrow> nat \<Rightarrow> mlx5_sq \<Rightarrow> u32 \<Rightarrow> bool" where
  "sq_ready b cap bbs sq p \<longleftrightarrow> sq_rep b cap bbs sq p (sq_content sq p)"

lemma ready_iff: "sq_ready b cap bbs sq p \<longleftrightarrow> (\<exists>es. sq_rep b cap bbs sq p es)"
  by (auto simp: sq_ready_def rep_content)

lemma rep_cong:
  assumes "sq_rep b cap bbs sq p es" and "sq_sized b cap bbs sq' = sq_sized b cap bbs sq"
    and "sq_head sq' = sq_head sq" "sq_tail sq' = sq_tail sq" "scur_post sq' = scur_post sq" "sqend sq' = sqend sq"
      "sq_wqe_cnt sq' = sq_wqe_cnt sq" "sq_bytes sq' = sq_bytes sq" "sq_wrid sq' = sq_wrid sq" "sq_wqe_head sq' = sq_wqe_head sq"
  shows "sq_rep b cap bbs sq' p es"
proof -
  have at: "sq_index sq' q = sq_index sq q" for q by (simp add: sq_index_def assms)
  have ds: "device_ds sq' q = device_ds sq q" for q unfolding device_ds_def at assms ..
  have read: "device_read sq' q = device_read sq q" for q unfolding device_read_def at ds assms ..
  have "en_ok bbs sq' q k x = en_ok bbs sq q k x" for q k x unfolding en_ok_def at ds read assms ..
  then show ?thesis using assms by (simp add: sq_rep_def)
qed

lemma post_send_posts:
  assumes rep: "sq_rep b cap bbs sq p es" and good: "list_all (good_send is_exp sq ahs) wrs"
  shows "\<exists>sq' ahs' new. mlx5_post_send_device env is_exp wrs (sq, ahs) =
      ret (if length wrs \<le> cap - length es then 0 else ENOMEM, drop (cap - length es) wrs, sq', ahs') \<and>
    sq_rep b cap bbs sq' p (es @ new) \<and> list_all2 (posted env is_exp sq ahs) new (take (cap - length es) wrs) \<and>
    sq_same sq sq' \<and> ahs_same (sq_link_layer sq) ahs ahs' \<and>
    snd_db sq' = (if min (length wrs) (cap - length es) = 0 \<or> create_flags sq AND CREATE_FLAG_NO_DOORBELL \<noteq> 0 then snd_db sq
      else htonl (scur_post sq' AND 0xFFFF))"
proof -
  let ?k = "min (length wrs) (cap - length es)"
  have "sq_rep b cap bbs (advance 0 sq) p es" using rep by (simp add: advance_def)
  from send_chain_posts [OF this good, of 0 env 0] obtain sz seg sq1 ahs' new where
    chain: "send_chain env is_exp wrs 0 0 0 (sq, ahs) =
      ret (if length wrs \<le> cap - length es then 0 else ENOMEM, drop (cap - length es) wrs, ?k, sz, seg, sq1, ahs')"
    and rep1: "sq_rep b cap bbs (advance ?k sq1) p (es @ new)"
    and new: "list_all2 (posted env is_exp sq ahs) new (take (cap - length es) wrs)"
    and same: "sq_same sq sq1" "snd_db sq1 = snd_db sq" "ahs_same (sq_link_layer sq) ahs ahs'" and seg: "?k = 0 \<or> seg_ok sq1 seg"
    by auto
  show ?thesis
  proof (cases "?k = 0")
    case True
    then have "sq_rep b cap bbs sq1 p (es @ new)" using rep1 by (simp add: advance_def)
    with chain new same True show ?thesis by (auto simp: mlx5_post_send_device_def)
  next
    case k: False
    let ?sq = "advance ?k sq1"
    have post: "mlx5_post_send_device env is_exp wrs (sq, ahs) =
        (if create_flags ?sq AND CREATE_FLAG_NO_DOORBELL \<noteq> 0
         then ret (if length wrs \<le> cap - length es then 0 else ENOMEM, drop (cap - length es) wrs, ?sq, ahs')
         else bindC (ring_db (scur_post ?sq AND 0xFFFF) seg ((sz + 3) div 4) ?sq) (\<lambda>sq.
           ret (if length wrs \<le> cap - length es then 0 else ENOMEM, drop (cap - length es) wrs, sq, ahs')))"
      using chain k by (simp add: mlx5_post_send_device_def advance_def Let_def)
    have flags: "create_flags ?sq = create_flags sq" "snd_db ?sq = snd_db sq" "sq_same sq ?sq"
      using same by (simp_all add: advance_def sq_same_def)
    show ?thesis
    proof (cases "create_flags sq AND CREATE_FLAG_NO_DOORBELL = 0")
      case True
      have "sqend ?sq = 64 * 2 ^ b" using rep1 by (simp add: sq_rep_def sq_sized_def)
      moreover have "seg_ok ?sq seg" using seg k by (simp add: seg_ok_def)
      ultimately obtain bf where bf: "ring_db (scur_post ?sq AND 0xFFFF) seg ((sz + 3) div 4) ?sq =
          ret (?sq\<lparr>last_post := scur_post ?sq AND 0xFFFF, snd_db := htonl (scur_post ?sq AND 0xFFFF), sq_bf := bf\<rparr>)"
        using ring_db_rings [of ?sq seg "scur_post ?sq AND 0xFFFF" "(sz + 3) div 4"] by auto
      define sq2 where "sq2 = ?sq\<lparr>last_post := scur_post ?sq AND 0xFFFF, snd_db := htonl (scur_post ?sq AND 0xFFFF), sq_bf := bf\<rparr>"
      have "sq_rep b cap bbs sq2 p (es @ new)" by (rule rep_cong [OF rep1]) (simp_all add: sq2_def sq_sized_def)
      moreover have "sq_same sq sq2" using flags(3) by (simp add: sq2_def sq_same_def)
      moreover have "snd_db sq2 = htonl (scur_post sq2 AND 0xFFFF)" by (simp add: sq2_def)
      then have "snd_db sq2 = (if ?k = 0 \<or> create_flags sq AND CREATE_FLAG_NO_DOORBELL \<noteq> 0 then snd_db sq
          else htonl (scur_post sq2 AND 0xFFFF))" by (simp only: k True simp_thms if_False)
      moreover have "mlx5_post_send_device env is_exp wrs (sq, ahs) =
          ret (if length wrs \<le> cap - length es then 0 else ENOMEM, drop (cap - length es) wrs, sq2, ahs')"
        unfolding post bf using True flags(1) by (simp add: sq2_def)
      ultimately show ?thesis using new same(3)
        by (intro exI [of _ sq2] exI [of _ ahs'] exI [of _ new] conjI)
    next
      case False
      then have "mlx5_post_send_device env is_exp wrs (sq, ahs) =
          ret (if length wrs \<le> cap - length es then 0 else ENOMEM, drop (cap - length es) wrs, ?sq, ahs')"
        unfolding post flags(1) by simp
      moreover have "snd_db ?sq = (if ?k = 0 \<or> create_flags sq AND CREATE_FLAG_NO_DOORBELL \<noteq> 0 then snd_db sq
          else htonl (scur_post ?sq AND 0xFFFF))" using flags(2) by (simp only: k False simp_thms if_True)
      ultimately show ?thesis using rep1 new same(3) flags(3)
        by (intro exI [of _ ?sq] exI [of _ ahs'] exI [of _ new] conjI)
    qed
  qed
qed

subsection \<open>Completions\<close>

lemma completion_index:
  assumes "b \<le> 16" and "sq_wqe_cnt sq = 2 ^ b"
  shows "unat (ucast (ucast q :: u16) AND (sq_wqe_cnt sq - 1)) = sq_index sq q"
proof -
  have m: "2 ^ b - 1 = (mask b :: u32)" by (simp add: mask_eq_exp_minus_1)
  have "ucast (ucast q :: u16) AND mask b = q AND (mask b :: u32)"
    using assms(1) by (intro bit_word_eqI) (auto simp: bit_simps)
  then show ?thesis by (simp add: sq_index_def assms(2) m)
qed

lemma complete_rep:
  assumes rep: "sq_rep b cap bbs sq p es" and i: "i < length es"
  shows "sq_complete (sv_idx (en_view (es ! i))) sq = (en_id (es ! i), sq\<lparr>sq_tail := sq_tail sq + of_nat (Suc i)\<rparr>)"
    and "sq_rep b cap bbs (sq\<lparr>sq_tail := sq_tail sq + of_nat (Suc i)\<rparr>) (en_pos (es ! i) + of_nat (bbs_of (en_ds (es ! i)))) (drop (Suc i) es)"
proof -
  let ?sq = "sq\<lparr>sq_tail := sq_tail sq + of_nat (Suc i)\<rparr>" and ?x = "es ! i"
  have ok: "en_ok bbs sq (p + of_nat (slots (take j es))) (sq_tail sq + of_nat j) (es ! j)" if "j < length es" for j
    using rep that by (simp add: sq_rep_def)
  have b: "b \<le> 16" "sq_wqe_cnt sq = 2 ^ b" using rep by (simp_all add: sq_rep_def sq_sized_def)
  have x: "en_pos ?x = p + of_nat (slots (take i es))" "sv_idx (en_view ?x) = ucast (en_pos ?x)"
    "sq_wrid sq (sq_index sq (en_pos ?x)) = en_id ?x" "sq_wqe_head sq (sq_index sq (en_pos ?x)) = sq_tail sq + of_nat i"
    using ok [OF i] by (simp_all add: en_ok_def)
  show "sq_complete (sv_idx (en_view ?x)) sq = (en_id ?x, ?sq)"
    unfolding sq_complete_def x(2) completion_index [OF b] Let_def x(3,4) by (simp add: add.assoc)
  have split: "slots es = slots (take (Suc i) es) + slots (drop (Suc i) es)"
    by (metis append_take_drop_id slots_simps(3))
  have next_p: "en_pos ?x + of_nat (bbs_of (en_ds ?x)) = p + of_nat (slots (take (Suc i) es))"
    unfolding x(1) by (simp add: take_Suc_conv_app_nth [OF i] add.assoc)
  have at: "device_ds ?sq = device_ds sq" "device_read ?sq = device_read sq" "sq_index ?sq = sq_index sq"
    by (simp_all add: fun_eq_iff device_ds_def device_read_def sq_index_def)
  have same: "en_ok bbs ?sq q k y = en_ok bbs sq q k y" for q k y unfolding en_ok_def at by simp
  have "en_ok bbs ?sq (p + of_nat (slots (take (Suc i) es)) + of_nat (slots (take j (drop (Suc i) es))))
      (sq_tail ?sq + of_nat j) (drop (Suc i) es ! j)" if j: "j < length (drop (Suc i) es)" for j
  proof -
    have "take (Suc i + j) es = take (Suc i) es @ take j (drop (Suc i) es)" by (rule take_add)
    then have "slots (take (Suc i + j) es) = slots (take (Suc i) es) + slots (take j (drop (Suc i) es))" by simp
    then show ?thesis using ok [of "Suc i + j"] j unfolding same by (simp add: algebra_simps)
  qed
  moreover have "sq_head ?sq = sq_tail ?sq + of_nat (length (drop (Suc i) es))"
  proof -
    have "sq_head sq = sq_tail sq + of_nat (Suc i + (length es - Suc i))" using rep i by (simp add: sq_rep_def)
    then show ?thesis by (simp only: of_nat_add) (simp add: algebra_simps)
  qed
  moreover have "scur_post ?sq = p + of_nat (slots (take (Suc i) es)) + of_nat (slots (drop (Suc i) es))"
    using rep split by (simp add: sq_rep_def add.assoc)
  moreover have "sq_sized b cap bbs ?sq" using rep by (simp add: sq_rep_def sq_sized_def)
  moreover have "length es \<le> cap" using rep by (simp add: sq_rep_def)
  then have "length (drop (Suc i) es) \<le> cap" by simp
  ultimately show "sq_rep b cap bbs ?sq (en_pos ?x + of_nat (bbs_of (en_ds ?x))) (drop (Suc i) es)"
    unfolding next_p sq_rep_def by blast
qed

subsection \<open>Runs\<close>

text \<open>
  The driver posts chains, and the device, which has come to some place, reports that it has carried
  out the \<open>i\<close>-th oldest request in the queue, by the number it read in its descriptor. The run gives
  the identifiers the driver reports.
\<close>

datatype send_op = Send bool "send_wr list" | Done nat

fun sq_exec :: "send_env \<Rightarrow> send_op list \<Rightarrow> send_state \<Rightarrow> u32 \<Rightarrow> (u64 list \<times> send_state \<times> u32) outcome" where
  "sq_exec env [] st p = ret ([], st, p)"
| "sq_exec env (Send is_exp wrs # xs) st p =
    bindC (mlx5_post_send_device env is_exp wrs st) (\<lambda>(err, bad, st). sq_exec env xs st p)"
| "sq_exec env (Done i # xs) st p =
    (case drop i (sq_content (fst st) p) of
       [] \<Rightarrow> sq_exec env xs st p
     | x # _ \<Rightarrow> (case sq_complete (sv_idx (en_view x)) (fst st) of (wid, sq) \<Rightarrow>
         bindC (sq_exec env xs (sq, snd st) (en_pos x + of_nat (bbs_of (en_ds x)))) (\<lambda>(ids, r). ret (wid # ids, r))))"

text \<open>
  The abstract queue: what was asked for, in the order it was asked for, as far as there is room; the
  views of the device without the place in the ring.
\<close>

type_synonym send_queue = "(u64 \<times> sent_view) list"

definition asked :: "send_env \<Rightarrow> bool \<Rightarrow> mlx5_sq \<Rightarrow> (nat \<Rightarrow> mlx5_ah) \<Rightarrow> send_wr \<Rightarrow> u64 \<times> sent_view" where
  "asked env is_exp sq ahs wr = (sw_id wr, send_view_of env is_exp sq ahs 0 wr)"

fun queue_exec :: "(bool \<Rightarrow> send_wr \<Rightarrow> u64 \<times> sent_view) \<Rightarrow> nat \<Rightarrow> send_op list \<Rightarrow> send_queue \<Rightarrow> u64 list \<times> send_queue" where
  "queue_exec ask cap [] q = ([], q)"
| "queue_exec ask cap (Send is_exp wrs # xs) q = queue_exec ask cap xs (q @ map (ask is_exp) (take (cap - length q) wrs))"
| "queue_exec ask cap (Done i # xs) q =
    (case drop i q of [] \<Rightarrow> queue_exec ask cap xs q
     | (wid, v) # q' \<Rightarrow> (case queue_exec ask cap xs q' of (ids, r) \<Rightarrow> (wid # ids, r)))"

definition abs_entry :: "sq_entry \<Rightarrow> u64 \<times> sent_view" where
  "abs_entry x = (en_id x, (en_view x)\<lparr>sv_idx := 0\<rparr>)"

definition good_op :: "mlx5_sq \<Rightarrow> (nat \<Rightarrow> mlx5_ah) \<Rightarrow> send_op \<Rightarrow> bool" where
  "good_op sq ahs x = (case x of Send is_exp wrs \<Rightarrow> list_all (good_send is_exp sq ahs) wrs | Done i \<Rightarrow> True)"

lemma posted_asked: "posted env is_exp sq ahs x wr \<Longrightarrow> abs_entry x = asked env is_exp sq ahs wr"
  by (simp add: posted_def abs_entry_def asked_def send_view_of_def Let_def)

lemma posted_map: "list_all2 (posted env is_exp sq ahs) new wrs \<Longrightarrow> map abs_entry new = map (asked env is_exp sq ahs) wrs"
  by (induction rule: list_all2_induct) (simp_all add: posted_asked)

lemma sq_same_trans: "sq_same sq sq' \<Longrightarrow> sq_same sq' sq'' \<Longrightarrow> sq_same sq sq''"
  by (simp add: sq_same_def)

lemma exec_refines:
  assumes "sq_rep b cap bbs sq p es" and "list_all (good_op sq0 ahs0) xs"
    and "sq_same sq0 sq" and "ahs_same (sq_link_layer sq0) ahs0 ahs"
  shows "\<exists>sq' ahs' p' es'. sq_exec env xs (sq, ahs) p =
      ret (fst (queue_exec (\<lambda>e. asked env e sq0 ahs0) cap xs (map abs_entry es)), (sq', ahs'), p') \<and>
    sq_rep b cap bbs sq' p' es' \<and> map abs_entry es' = snd (queue_exec (\<lambda>e. asked env e sq0 ahs0) cap xs (map abs_entry es))"
  using assms
proof (induction xs arbitrary: sq ahs p es)
  case Nil
  then show ?case by auto
next
  case (Cons x xs)
  show ?case
  proof (cases x)
    case (Send is_exp wrs)
    have good: "list_all (good_send is_exp sq ahs) wrs"
      using Cons.prems(2) Send good_same [OF Cons.prems(3,4)] by (simp add: good_op_def cong: list.pred_cong)
    obtain sq1 ahs1 new where post: "mlx5_post_send_device env is_exp wrs (sq, ahs) =
        ret (if length wrs \<le> cap - length es then 0 else ENOMEM, drop (cap - length es) wrs, sq1, ahs1)"
      "sq_rep b cap bbs sq1 p (es @ new)" "list_all2 (posted env is_exp sq ahs) new (take (cap - length es) wrs)"
      "sq_same sq sq1" "ahs_same (sq_link_layer sq) ahs ahs1"
      using post_send_posts [OF Cons.prems(1) good, of env] by blast
    have ll: "sq_link_layer sq = sq_link_layer sq0" using Cons.prems(3) by (simp add: sq_same_def)
    have "asked env is_exp sq ahs = asked env is_exp sq0 ahs0"
      by (simp add: fun_eq_iff asked_def view_same [OF Cons.prems(3,4)])
    then have new: "map abs_entry new = map (asked env is_exp sq0 ahs0) (take (cap - length es) wrs)"
      using posted_map [OF post(3)] by simp
    from Cons.IH [OF post(2) _ sq_same_trans [OF Cons.prems(3) post(4)], of ahs1] Cons.prems(2) ahs_same_trans [OF Cons.prems(4)] post(5)
    show ?thesis by (simp add: Send post(1) new ll)
  next
    case (Done i)
    have content: "sq_content sq p = es" by (rule rep_content [OF Cons.prems(1)])
    show ?thesis
    proof (cases "i < length es")
      case True
      note c = complete_rep [OF Cons.prems(1) True]
      have d: "drop i es = es ! i # drop (Suc i) es" using True by (simp add: Cons_nth_drop_Suc)
      have same: "sq_same sq0 (sq\<lparr>sq_tail := sq_tail sq + of_nat (Suc i)\<rparr>)" using Cons.prems(3) by (simp add: sq_same_def)
      from Cons.IH [OF c(2) _ same Cons.prems(4)] Cons.prems(2) obtain sq' ahs' p' es' where
        "sq_exec env xs (sq\<lparr>sq_tail := sq_tail sq + of_nat (Suc i)\<rparr>, ahs) (en_pos (es ! i) + of_nat (bbs_of (en_ds (es ! i)))) =
          ret (fst (queue_exec (\<lambda>e. asked env e sq0 ahs0) cap xs (map abs_entry (drop (Suc i) es))), (sq', ahs'), p')"
        "sq_rep b cap bbs sq' p' es'"
        "map abs_entry es' = snd (queue_exec (\<lambda>e. asked env e sq0 ahs0) cap xs (map abs_entry (drop (Suc i) es)))"
        by auto
      moreover obtain v where "abs_entry (es ! i) = (en_id (es ! i), v)" by (simp add: abs_entry_def)
      ultimately show ?thesis using c(1) by (auto simp: Done content d drop_map split: prod.splits)
    next
      case False
      with Cons.IH [OF Cons.prems(1) _ Cons.prems(3,4)] Cons.prems(2) show ?thesis
        by (simp add: Done content)
    qed
  qed
qed

subsection \<open>The theorems\<close>

text \<open>
  A queue of four slots for two requests of up to four elements or 60 bytes each, an address
  handle with a routing header, memory that holds its addresses, and requests of one element.
\<close>

definition small_sq :: mlx5_sq where
  "small_sq = mlx5_update_post_send_one IBV_QPS_RTS (mlx5_build_ctrl_seg_data 7
     \<lparr>sq_wrid = (\<lambda>_. 0), sq_wqe_cnt = 4, sq_head = 0, sq_tail = 0, sq_max_post = 2, sq_max_gs = 4, sq_wqe_head = (\<lambda>_. 0),
       sq_post_one = Post_not_ready, sq_bytes = (\<lambda>_. 0), sqend = 256, snd_db = 0,
       sq_bf = \<lparr>bf_db_method = MLX5_DB_METHOD_BF, bf_offset = 0, bf_buf_size = 256, bf_written = []\<rparr>,
       scur_post = 0, last_post = 0, create_flags = 0, fm_cache = 0, max_inline_data = 60, ctrl_qp_num = 0,
       fm_ce_se_tbl = [], fm_ce_se_acc = [], ctrl_wq_sig = 0, sq_signal_bits = 0, sq_link_layer = IBV_LINK_LAYER_ETHERNET\<rparr>)"

definition small_env :: send_env where
  "small_env = \<lparr>se_real_lkey = (\<lambda>_ _ _. None), se_dest_qp_num = 100, se_mem = (\<lambda>a. ucast a)\<rparr>"

definition small_ahs :: "nat \<Rightarrow> mlx5_ah" where
  "small_ahs = (\<lambda>_. zero_ah\<lparr>av := (av zero_ah)\<lparr>base := (base (av zero_ah))\<lparr>dqp_dct := htonl MLX5_EXTENDED_UD_AV\<rparr>\<rparr>\<rparr>)"

definition small_send :: "u64 \<Rightarrow> int \<Rightarrow> send_wr" where
  "small_send wid flags = \<lparr>sw_id = wid, sw_sges = [\<lparr>sge_addr = 0x1000, sge_length = 5, sge_lkey = 3\<rparr>], sw_opcode = IBV_EXP_WR_SEND,
     sw_send_flags = flags, sw_exp_send_flags = 0, sw_imm = 0, sw_ah = Some 0, sw_remote_qpn = 102, sw_remote_qkey = 0x22\<rparr>"

lemma small_sq_rep: "sq_rep 2 2 2 small_sq 0 []"
  by (simp add: sq_rep_def sq_sized_def small_sq_def mlx5_update_post_send_one_def mlx5_build_ctrl_seg_data_def Let_def)

lemma small_content: "sq_content small_sq 0 = []"
  by (rule rep_content [OF small_sq_rep])

lemma small_send_good: "flags \<in> {2, 10} \<Longrightarrow> good_send False small_sq small_ahs (small_send wid flags)"
proof -
  assume f: "flags \<in> {2, 10}"
  have bits: "(2 :: u64) AND 0x200000000 = 0" "(10 :: u64) AND 0x200000000 = 0" "\<not> bit (102 :: u32) 31" "\<not> bit (5 :: u32) 31"
    by (code_simp; simp)+
  with f show ?thesis
    by (auto simp: good_send_def small_send_def wr_flags_def IBV_EXP_SEND_WITH_CALC_def ah_bytes_ok_def small_ahs_def zero_ah_def
        data_fits_def sendable_sge_def ODP_GLOBAL_R_LKEY_def ODP_GLOBAL_W_LKEY_def small_sq_def mlx5_update_post_send_one_def
        mlx5_build_ctrl_seg_data_def Let_def)
qed

text \<open>
  C30: what a datagram asks for is what the device reads. A chain posted on a queue pair that is ready
  joins the requests in the queue in its order as far as there is room, and the first request without
  room is reported with \<^verbatim>\<open>ENOMEM\<close>. For each of them the device finds, at the next place, the
  opcode, the place, its own queue pair, the flags, the immediate data, the destination with the port of
  the path, and the elements, or the bytes themselves for an inline request, also where the descriptor
  runs around the end of the ring. The descriptors already there stay as they are, and the doorbell
  tells the place behind the last.
\<close>

theorem post_send_decodes:
  assumes "sq_ready b cap bbs sq p" and "list_all (good_send is_exp sq ahs) wrs" and "length (sq_content sq p) + room = cap"
  shows "\<exists>sq' ahs' new. mlx5_post_send_device env is_exp wrs (sq, ahs) =
      ret (if length wrs \<le> room then 0 else ENOMEM, drop room wrs, sq', ahs') \<and> sq_ready b cap bbs sq' p \<and>
    sq_content sq' p = sq_content sq p @ new \<and>
    list_all2 (\<lambda>x wr. en_id x = sw_id wr \<and> en_view x = send_view_of env is_exp sq ahs (en_pos x) wr) new (take room wrs) \<and>
    snd_db sq' = (if min (length wrs) room = 0 \<or> create_flags sq AND CREATE_FLAG_NO_DOORBELL \<noteq> 0 then snd_db sq
      else htonl ((p + of_nat (slots (sq_content sq' p))) AND 0xFFFF))"
proof -
  have room: "cap - length (sq_content sq p) = room" using assms(3) by simp
  from post_send_posts [OF assms(1) [unfolded sq_ready_def] assms(2), of env, unfolded room] obtain sq' ahs' new where
    post: "mlx5_post_send_device env is_exp wrs (sq, ahs) = ret (if length wrs \<le> room then 0 else ENOMEM, drop room wrs, sq', ahs')"
      "sq_rep b cap bbs sq' p (sq_content sq p @ new)" "list_all2 (posted env is_exp sq ahs) new (take room wrs)"
      "snd_db sq' = (if min (length wrs) room = 0 \<or> create_flags sq AND CREATE_FLAG_NO_DOORBELL \<noteq> 0 then snd_db sq
        else htonl (scur_post sq' AND 0xFFFF))" by blast
  have cur: "scur_post sq' = p + of_nat (slots (sq_content sq' p))"
    unfolding rep_content [OF post(2)] using post(2) unfolding sq_rep_def by blast
  have "sq_ready b cap bbs sq' p" using post(2) ready_iff by blast
  with post(1,4) post(3) [unfolded posted_def [abs_def]] rep_content [OF post(2)] show ?thesis
    unfolding cur by (intro exI [of _ sq'] exI [of _ ahs'] exI [of _ new] conjI)
qed

theorem post_send_decodes_witness:
  "\<exists>sq' ahs' x y. mlx5_post_send_device small_env False [small_send 1 2, small_send 2 10, small_send 3 2] (small_sq, small_ahs) =
      ret (ENOMEM, [small_send 3 2], sq', ahs') \<and> sq_content sq' 0 = [x, y] \<and>
    sv_data (en_view x) = [Ptr \<lparr>ds_byte_count = htonl 5, ds_lkey = htonl 3, ds_addr = htonll 0x1000\<rparr>] \<and>
    sv_data (en_view y) = [Inl [0, 1, 2, 3, 4]] \<and> rlid (sv_base (en_view x)) = htons 55562"
proof -
  have ready: "sq_ready 2 2 2 small_sq 0" using small_sq_rep ready_iff by blast
  have data: "data_view (se_mem small_env) False (sw_sges (small_send 1 2)) =
      [Ptr \<lparr>ds_byte_count = htonl 5, ds_lkey = htonl 3, ds_addr = htonll 0x1000\<rparr>]"
    "data_view (se_mem small_env) True (sw_sges (small_send 2 10)) = [Inl [0, 1, 2, 3, 4]]"
    by (simp_all add: data_view_def small_send_def send_segs_def seg_of_def small_env_def sge_bytes_def mem_bytes_def upt_rec)
  have inl: "\<not> inline_wr (wr_flags False (small_send 1 2))" "inline_wr (wr_flags False (small_send 2 10))"
    by (simp_all add: inline_wr_def wr_flags_def small_send_def IBV_SEND_INLINE_def) 
  have port: "rlid (ud_base (wr_ah small_env small_sq small_ahs (small_send 1 2)) q k) = htons 55562" for q k
    by (simp add: ud_base_def wr_ah_def mlx5_update_udp_sport_def small_sq_def mlx5_update_post_send_one_def
        mlx5_build_ctrl_seg_data_def Let_def small_env_def small_send_def calc_roce_udp_sport_def)
  show ?thesis
    using post_send_decodes [OF ready, of False small_ahs "[small_send 1 2, small_send 2 10, small_send 3 2]" 2 small_env]
      small_send_good data inl port
    by (fastforce simp: small_content list_all2_Cons2 send_view_of_def Let_def)
qed

text \<open>
  C29: a send queue is a queue. Over any run of posts and of completions of the device, each of some request in
  the queue, the identifiers reported are those of an abstract queue that takes in what was asked for as
  far as there is room and that a completion empties up to the request it is for: completions come in
  the order of the posts, every place is found by its number, and what the queue holds at the end is
  still, descriptor for descriptor, what was asked for.
\<close>

theorem sends_in_order:
  assumes "sq_ready b cap bbs sq p" and "list_all (good_op sq ahs) xs"
  shows "\<exists>sq' ahs' p'. sq_exec env xs (sq, ahs) p =
      ret (fst (queue_exec (\<lambda>e. asked env e sq ahs) cap xs (map abs_entry (sq_content sq p))), (sq', ahs'), p') \<and>
    sq_ready b cap bbs sq' p' \<and>
    map abs_entry (sq_content sq' p') = snd (queue_exec (\<lambda>e. asked env e sq ahs) cap xs (map abs_entry (sq_content sq p)))"
  using exec_refines [OF assms(1) [unfolded sq_ready_def] assms(2), of ahs env] unfolding ready_iff
  by (auto simp: sq_same_def rep_content)

theorem sends_in_order_witness:
  "\<exists>r. sq_exec small_env [Send False [small_send 1 2, small_send 2 10, small_send 3 2], Done 0, Send False [small_send 4 2], Done 1]
    (small_sq, small_ahs) 0 = ret ([1, 4], r)"
proof -
  have ready: "sq_ready 2 2 2 small_sq 0" using small_sq_rep ready_iff by blast
  have ids: "sw_id (small_send wid f) = wid" for wid f by (simp add: small_send_def)
  show ?thesis
    using sends_in_order [OF ready, of small_ahs "[Send False [small_send 1 2, small_send 2 10, small_send 3 2], Done 0,
        Send False [small_send 4 2], Done 1]" small_env]
    by (auto simp: good_op_def small_send_good small_content asked_def ids)
qed

text \<open>The four paths of the multi-path layer leave by different ports; what it takes for a fifth has that of the first.\<close>

lemma path_ports_distinct:
  "distinct (map (\<lambda>i. calc_roce_udp_sport dest (dest + of_nat i + 1)) [0..<4]) \<and>
    calc_roce_udp_sport dest (dest + 4 + 1) = calc_roce_udp_sport dest (dest + 0 + 1)"
proof -
  have "calc_roce_udp_sport dest (dest + k + 1) = calc_roce_udp_sport 0 (k + 1)" for k
    by (simp add: calc_roce_udp_sport_def)
  moreover have "[0..<4] = [0, 1, 2, 3 :: nat]" by (simp add: upt_rec)
  ultimately show ?thesis by (simp add: calc_roce_udp_sport_def)
qed

text \<open>
  The size of a descriptor has six bits: one of 64 units, which the limits of a device may allow, is one of
  none.
\<close>

lemma full_descriptor_size: "drop_bit 8 (push_bit 8 qpn OR (ucast (64 :: u8) AND 0x3F)) = take_bit 24 qpn \<and>
    (push_bit 8 qpn OR (ucast (64 :: u8) AND 0x3F)) AND 0x3F = (0 :: u32)"
proof -
  have "(ucast (64 :: u8) AND 0x3F :: u32) = 0" by (code_simp; simp)
  then show ?thesis using ctrl_fields(3,4) [of qpn "64 :: u8"] by simp
qed

end
