(* ===== verification/Mlx5_Srq.thy ===== *)
theory Mlx5_Srq
  imports Mlx5_Rq
begin

unbundle bit_operations_syntax

section \<open>Shared receive queues of the driver\<close>

text \<open>
  \<^verbatim>\<open>libmlx5-41mlnx1/src/srq.c\<close>: receives of several queue pairs share one queue, and complete
  in any order. The descriptors are linked by the index of the next one; the driver takes free ones
  from the head and puts them back at the tail, and the device follows the same links from the
  descriptor it reads next. The index of a free descriptor may be any; an access outside the queue is
  a fault. Signed descriptors, strided receives and tag matching are left out.
\<close>

record srq_wqe =
  next_wqe_index :: u16
  srq_scat :: "nat \<Rightarrow> mlx5_wqe_data_seg"

record mlx5_srq =
  srq_wqes :: "nat \<Rightarrow> srq_wqe"
  srq_wrid :: "nat \<Rightarrow> u64"
  srq_max :: int
  srq_max_gs :: int
  srq_wqe_shift :: int
  srq_head :: int
  srq_tail :: int
  srq_counter :: u16
  srq_db :: u32

definition get_wqe :: "mlx5_srq \<Rightarrow> int \<Rightarrow> srq_wqe outcome" where
  "get_wqe srq n = bindC (index (nat (srq_max srq)) n) (\<lambda>i. ret (srq_wqes srq i))"

definition upd_srq_wqe :: "int \<Rightarrow> (srq_wqe \<Rightarrow> srq_wqe) \<Rightarrow> mlx5_srq \<Rightarrow> mlx5_srq outcome" where
  "upd_srq_wqe n f srq = bindC (index (nat (srq_max srq)) n) (\<lambda>i. ret (srq\<lparr>srq_wqes := (srq_wqes srq)(i := f (srq_wqes srq i))\<rparr>))"

definition mlx5_free_srq_wqe :: "int \<Rightarrow> mlx5_srq \<Rightarrow> mlx5_srq outcome" where
  "mlx5_free_srq_wqe ind srq =
    bindC (upd_srq_wqe (srq_tail srq) (\<lambda>w. w\<lparr>next_wqe_index := htons (word_of_int ind)\<rparr>) srq) (\<lambda>srq.
    ret (srq\<lparr>srq_tail := ind\<rparr>))"

text \<open>The copy of a scatter list, up to and with its end.\<close>

fun copy_scat :: "nat \<Rightarrow> nat \<Rightarrow> (nat \<Rightarrow> mlx5_wqe_data_seg) \<Rightarrow> (nat \<Rightarrow> mlx5_wqe_data_seg) \<Rightarrow> nat \<Rightarrow> mlx5_wqe_data_seg" where
  "copy_scat 0 i old_scat head_scat = head_scat"
| "copy_scat (Suc n) i old_scat head_scat =
    (if ds_lkey (old_scat i) = htonl MLX5_INVALID_LKEY then head_scat(i := old_scat i)
     else copy_scat n (Suc i) old_scat (head_scat(i := old_scat i)))"

text \<open>A descriptor the device could not use for a page fault is posted again.\<close>

definition mlx5_requeue_srq_wqe :: "int \<Rightarrow> mlx5_srq \<Rightarrow> mlx5_srq outcome" where
  "mlx5_requeue_srq_wqe ind srq =
    bindC (index (nat (srq_max srq)) (srq_head srq)) (\<lambda>h.
    bindC (index (nat (srq_max srq)) ind) (\<lambda>k.
    let srq = srq\<lparr>srq_wrid := (srq_wrid srq)(h := srq_wrid srq k)\<rparr>
    in bindC (mlx5_free_srq_wqe ind srq) (\<lambda>srq.
       bindC (get_wqe srq (srq_head srq)) (\<lambda>head.
       let ind = srq_head srq; srq = srq\<lparr>srq_head := uint (htons (next_wqe_index head))\<rparr>
       in bindC (upd_srq_wqe ind (\<lambda>w. w\<lparr>srq_scat := copy_scat (nat (srq_max_gs srq)) 0 (srq_scat (srq_wqes srq k)) (srq_scat w)\<rparr>) srq) (\<lambda>srq.
          let counter = srq_counter srq + 1 in ret (srq\<lparr>srq_counter := counter, srq_db := htonl (ucast counter)\<rparr>))))))"

fun put_scat :: "ibv_sge list \<Rightarrow> nat \<Rightarrow> (nat \<Rightarrow> mlx5_wqe_data_seg) \<Rightarrow> nat \<Rightarrow> mlx5_wqe_data_seg" where
  "put_scat [] i scat = scat"
| "put_scat (sg # sgs) i scat = put_scat sgs (Suc i) (scat(i :=
     \<lparr>ds_byte_count = htonl (sge_length sg), ds_lkey = htonl (sge_lkey sg), ds_addr = htonll (sge_addr sg)\<rparr>))"

text \<open>
  The loop over a chain: the error, the requests from the first refused one on, how many were
  accepted. One descriptor stays free, so a queue whose head has reached its tail is full.
\<close>

fun post_srq_chain :: "recv_wr list \<Rightarrow> nat \<Rightarrow> mlx5_srq \<Rightarrow> (int \<times> recv_wr list \<times> nat \<times> mlx5_srq) outcome" where
  "post_srq_chain [] nreq srq = ret (0, [], nreq, srq)"
| "post_srq_chain (wr # wrs) nreq srq =
    (if srq_max_gs srq < int (length (rq_sges wr)) then ret (EINVAL, wr # wrs, nreq, srq)
     else if srq_head srq = srq_tail srq then ret (ENOMEM, wr # wrs, nreq, srq)
     else
       bindC (index (nat (srq_max srq)) (srq_head srq)) (\<lambda>h.
       let w = srq_wqes srq h; n = length (rq_sges wr); scat = put_scat (rq_sges wr) 0 (srq_scat w);
           scat = (if int n < srq_max_gs srq then scat(n := data_seg_end) else scat)
       in post_srq_chain wrs (Suc nreq) (srq\<lparr>srq_wrid := (srq_wrid srq)(h := rq_wr_id wr),
            srq_head := uint (htons (next_wqe_index w)), srq_wqes := (srq_wqes srq)(h := w\<lparr>srq_scat := scat\<rparr>)\<rparr>)))"

definition mlx5_post_srq_recv :: "recv_wr list \<Rightarrow> mlx5_srq \<Rightarrow> (int \<times> recv_wr list \<times> mlx5_srq) outcome" where
  "mlx5_post_srq_recv wrs srq =
    bindC (post_srq_chain wrs 0 srq) (\<lambda>(err, bad, nreq, srq).
    if nreq = 0 then ret (err, bad, srq)
    else let counter = srq_counter srq + of_nat nreq
         in ret (err, bad, srq\<lparr>srq_counter := counter, srq_db := htonl (ucast counter)\<rparr>))"

subsection \<open>Creation\<close>

definition round_up_step :: "int \<Rightarrow> int \<Rightarrow> (int, int) flow outcome" where
  "round_up_step sz r = ret (if r < sz then Next (2 * r) else Return r)"

text \<open>A power that is no \<^verbatim>\<open>int\<close> is an error.\<close>

definition mlx5_round_up_power_of_two :: "int \<Rightarrow> int outcome" where
  "mlx5_round_up_power_of_two sz =
    bindC (loop (round_up_step sz) 1) (\<lambda>r. ret (if 2 ^ 31 - 1 < r then - ENOMEM else r))"

definition ilog2_step :: "int \<Rightarrow> nat \<Rightarrow> (nat, nat) flow outcome" where
  "ilog2_step n t = ret (if 2 ^ t < n then Next (Suc t) else Return t)"

definition mlx5_ilog2 :: "int \<Rightarrow> int outcome" where
  "mlx5_ilog2 n = (if n \<le> 0 then ret (- 1) else bindC (loop (ilog2_step n) 0) (\<lambda>t. ret (int t)))"

text \<open>
  What the system and the device give: memory for the identifiers (with what it holds), memory for
  the buffer, a doorbell record, and the limits.
\<close>

record srq_env =
  wrid_mem :: "(nat \<Rightarrow> u64) option"
  buf_mem :: bool
  dbrec_mem :: bool
  max_rq_desc_sz :: int
  max_srq_recv_wr :: u32
  max_recv_wr :: int

definition mlx5_alloc_srq_buf :: "srq_env \<Rightarrow> mlx5_srq \<Rightarrow> (int \<times> mlx5_srq) outcome" where
  "mlx5_alloc_srq_buf env srq =
    (if srq_max_gs srq < 0 then ret (- 1, srq)
     else case wrid_mem env of None \<Rightarrow> ret (- 1, srq)
     | Some ids \<Rightarrow>
         let srq = srq\<lparr>srq_wrid := ids\<rparr>
         in bindC (mlx5_round_up_power_of_two (max 32 (16 + srq_max_gs srq * 16))) (\<lambda>size.
            if max_rq_desc_sz env < size then ret (- 1, srq)
            else
              let srq = srq\<lparr>srq_max_gs := (size - 16) div 16\<rparr>
              in bindC (mlx5_ilog2 size) (\<lambda>shift.
                 let srq = srq\<lparr>srq_wqe_shift := shift\<rparr>
                 in if \<not> buf_mem env then ret (- 1, srq)
                    else ret (0, srq\<lparr>srq_wqes := (\<lambda>i. \<lparr>next_wqe_index = htons (word_of_int ((int i + 1) AND (srq_max srq - 1))),
                           srq_scat = (\<lambda>_. \<lparr>ds_byte_count = 0, ds_lkey = 0, ds_addr = 0\<rparr>)\<rparr>),
                         srq_head := 0, srq_tail := srq_max srq - 1\<rparr>))))"

definition mlx5_alloc_srq :: "srq_env \<Rightarrow> u32 \<Rightarrow> u32 \<Rightarrow> mlx5_srq option outcome" where
  "mlx5_alloc_srq env max_wr max_sge =
    (if max_srq_recv_wr env < max_wr then ret None
     else if word_of_int (max_recv_wr env div 16) < max_sge then ret None
     else
       bindC (mlx5_round_up_power_of_two (uint (max_wr + 1))) (\<lambda>m.
       bindC (mlx5_alloc_srq_buf env \<lparr>srq_wqes = (\<lambda>_. \<lparr>next_wqe_index = 0, srq_scat = (\<lambda>_. \<lparr>ds_byte_count = 0, ds_lkey = 0, ds_addr = 0\<rparr>)\<rparr>),
           srq_wrid = (\<lambda>_. 0), srq_max = m, srq_max_gs = sint max_sge, srq_wqe_shift = 0, srq_head = 0, srq_tail = 0,
           srq_counter = 0, srq_db = 0\<rparr>) (\<lambda>(err, srq).
       if err \<noteq> 0 \<or> \<not> dbrec_mem env then ret None else ret (Some (srq\<lparr>srq_db := 0\<rparr>)))))"

subsection \<open>The list through the descriptors\<close>

text \<open>
  One list runs through the posted descriptors, in the order the device will read them, and on
  through the free ones. \<open>dh\<close> is the index the device reads next; the other descriptors, which the
  device has read and the driver has not put back, are \<open>taken\<close>.
\<close>

fun linked :: "mlx5_srq \<Rightarrow> nat list \<Rightarrow> bool" where
  "linked s (x # y # xs) = (unat (htons (next_wqe_index (srq_wqes s x))) = y \<and> linked s (y # xs))"
| "linked s xs = True"

definition srq_entry :: "mlx5_srq \<Rightarrow> nat \<Rightarrow> u64 \<times> mlx5_wqe_data_seg list" where
  "srq_entry s i = (srq_wrid s i, scat_list (srq_max_gs s) (srq_scat (srq_wqes s i)))"

definition srq_shape :: "nat \<Rightarrow> int \<Rightarrow> mlx5_srq \<Rightarrow> u16 \<Rightarrow> nat list \<Rightarrow> nat list \<Rightarrow> nat set \<Rightarrow> bool" where
  "srq_shape b gs s dh posted free taken \<longleftrightarrow>
     b \<le> 16 \<and> srq_max s = 2 ^ b \<and> srq_max_gs s = gs \<and> free \<noteq> [] \<and> distinct (posted @ free) \<and>
     set (posted @ free) \<union> taken = {0..<2 ^ b} \<and> set (posted @ free) \<inter> taken = {} \<and> linked s (posted @ free) \<and>
     srq_head s = int (hd free) \<and> srq_tail s = int (last free) \<and> unat dh = hd (posted @ free)"

lemma linked_cong: "(\<And>x. x \<in> set (butlast xs) \<Longrightarrow> next_wqe_index (srq_wqes s' x) = next_wqe_index (srq_wqes s x)) \<Longrightarrow> linked s' xs = linked s xs"
  by (induction s xs rule: linked.induct) auto

lemma linked_snoc: "xs \<noteq> [] \<Longrightarrow> linked s (xs @ [y]) \<longleftrightarrow> linked s xs \<and> unat (htons (next_wqe_index (srq_wqes s (last xs)))) = y"
  by (induction s xs rule: linked.induct) auto

lemma linked_tl: "linked s (x # xs) \<Longrightarrow> linked s xs"
  by (cases xs) auto

lemma linked_drop: "linked s (xs @ ys) \<Longrightarrow> linked s ys"
  by (induction xs) (auto dest: linked_tl)

lemma linked_next: "linked s (xs @ x # y # ys) \<Longrightarrow> unat (htons (next_wqe_index (srq_wqes s x))) = y"
  by (auto dest: linked_drop)

lemma pow_u16: "b \<le> 16 \<Longrightarrow> i < 2 ^ b \<Longrightarrow> unat (of_nat i :: u16) = i"
proof -
  assume "b \<le> 16" "i < 2 ^ b"
  moreover have "(2 :: nat) ^ b \<le> 2 ^ 16" using \<open>b \<le> 16\<close> by (intro power_increasing) simp_all
  ultimately show "unat (of_nat i :: u16) = i" by (simp add: unat_of_nat)
qed

lemma shape_bounds:
  assumes "srq_shape b gs s dh posted free taken"
  shows "x \<in> set (posted @ free) \<union> taken \<Longrightarrow> x < 2 ^ b" and "x < 2 ^ b \<Longrightarrow> index (nat (srq_max s)) (int x) = ret x"
    and "hd free < 2 ^ b" and "last free < 2 ^ b"
proof -
  have all: "set (posted @ free) \<union> taken = {0..<2 ^ b}" and ne: "free \<noteq> []" using assms by (simp_all add: srq_shape_def)
  show bound: "x < 2 ^ b" if "x \<in> set (posted @ free) \<union> taken" for x
  proof -
    have "x \<in> {0..<2 ^ b}" unfolding all [symmetric] by (rule that)
    then show ?thesis by simp
  qed
  show "hd free < 2 ^ b" "last free < 2 ^ b" using ne by (intro bound; simp)+
  show "x < 2 ^ b \<Longrightarrow> index (nat (srq_max s)) (int x) = ret x"
    using assms by (intro index_int) (simp add: srq_shape_def nat_power_eq)
qed

subsection \<open>Scatter lists\<close>

lemma scat_list_cong:
  assumes "\<And>j. int j < gs \<Longrightarrow> (\<forall>i < j. ds_lkey (w i) \<noteq> htonl MLX5_INVALID_LKEY) \<Longrightarrow> w' j = w j"
  shows "scat_list gs w' = scat_list gs w"
proof -
  let ?P = "\<lambda>d. ds_lkey d \<noteq> htonl MLX5_INVALID_LKEY"
  have "takeWhile ?P (map w' [i..<i + n]) = takeWhile ?P (map w [i..<i + n])"
    if "i + n \<le> nat gs" "\<forall>k < i. ?P (w k)" for i n
    using that
  proof (induction n arbitrary: i)
    case (Suc n)
    have "w' i = w i" using Suc.prems by (intro assms) auto
    moreover have "takeWhile ?P (map w' [Suc i..<Suc i + n]) = takeWhile ?P (map w [Suc i..<Suc i + n])" if "?P (w i)"
      using Suc.IH [of "Suc i"] Suc.prems that by (simp add: less_Suc_eq)
    moreover have "[i..<i + Suc n] = i # [Suc i..<Suc i + n]" by (simp add: upt_conv_Cons del: upt_Suc)
    ultimately show ?case by (simp del: upt_Suc)
  qed simp
  from this [of 0 "nat gs"] show ?thesis by (simp add: scat_list_def)
qed

lemma copy_scat_at:
  "copy_scat n i f g j = (if i \<le> j \<and> j < i + n \<and> (\<forall>k. i \<le> k \<and> k < j \<longrightarrow> ds_lkey (f k) \<noteq> htonl MLX5_INVALID_LKEY) then f j else g j)"
proof (induction n arbitrary: i g)
  case (Suc n)
  show ?case
  proof (cases "ds_lkey (f i) = htonl MLX5_INVALID_LKEY")
    case True
    then show ?thesis by (auto simp: le_less)
  next
    case False
    have "(i \<le> j \<and> j < i + Suc n \<and> (\<forall>k. i \<le> k \<and> k < j \<longrightarrow> ds_lkey (f k) \<noteq> htonl MLX5_INVALID_LKEY)) \<longleftrightarrow>
      j = i \<or> Suc i \<le> j \<and> j < Suc i + n \<and> (\<forall>k. Suc i \<le> k \<and> k < j \<longrightarrow> ds_lkey (f k) \<noteq> htonl MLX5_INVALID_LKEY)"
      using False by (auto simp: Suc_le_eq) (metis le_neq_implies_less)+
    then show ?thesis using False Suc.IH by auto
  qed
qed auto

lemma scat_list_copy: "scat_list gs (copy_scat (nat gs) 0 f g) = scat_list gs f"
  by (rule scat_list_cong) (auto simp: copy_scat_at)

definition srq_entry_of :: "recv_wr \<Rightarrow> u64 \<times> mlx5_wqe_data_seg list" where
  "srq_entry_of wr = (rq_wr_id wr, map seg_of (rq_sges wr))"

definition srq_wr_ok :: "int \<Rightarrow> recv_wr \<Rightarrow> bool" where
  "srq_wr_ok gs wr \<longleftrightarrow> int (length (rq_sges wr)) \<le> gs \<and> (\<forall>sg \<in> set (rq_sges wr). sge_lkey sg \<noteq> MLX5_INVALID_LKEY)"

lemma put_scat_at: "put_scat sgs i f j = (if i \<le> j \<and> j < i + length sgs then seg_of (sgs ! (j - i)) else f j)"
  by (induction sgs arbitrary: i f) (auto simp: seg_of_def nth_Cons' Suc_le_eq)

lemma scat_list_put:
  assumes "int (length sgs) \<le> gs" and "\<forall>sg \<in> set sgs. sge_lkey sg \<noteq> MLX5_INVALID_LKEY"
  shows "scat_list gs (if int (length sgs) < gs then (put_scat sgs 0 f)(length sgs := data_seg_end) else put_scat sgs 0 f) = map seg_of sgs"
proof -
  let ?w = "if int (length sgs) < gs then (put_scat sgs 0 f)(length sgs := data_seg_end) else put_scat sgs 0 f"
  let ?P = "\<lambda>d. ds_lkey d \<noteq> htonl MLX5_INVALID_LKEY"
  have inj: "x = y" if "htonl x = htonl y" for x y using arg_cong [OF that, of htonl] by simp
  have valid: "?P (seg_of sg)" if "sg \<in> set sgs" for sg using assms(2) that inj by (auto simp: seg_of_def)
  have "[0..<nat gs] = [0..<length sgs] @ [length sgs..<nat gs]"
    using assms(1) upt_add_eq_append [of 0 "length sgs" "nat gs - length sgs"] by simp
  moreover have "map ?w [0..<length sgs] = map seg_of sgs" by (rule nth_equalityI) (auto simp: put_scat_at)
  moreover have "takeWhile ?P (map ?w [length sgs..<nat gs]) = []"
  proof (cases "int (length sgs) < gs")
    case True
    then have "[length sgs..<nat gs] = length sgs # [Suc (length sgs)..<nat gs]" by (simp add: upt_conv_Cons)
    then show ?thesis using True by (simp add: data_seg_end_def)
  next
    case False
    then show ?thesis using assms(1) by simp
  qed
  ultimately show ?thesis using valid by (simp add: scat_list_def takeWhile_append)
qed

subsection \<open>The operations on the list\<close>

lemma srq_entry_upd: "srq_max_gs s' = srq_max_gs s \<Longrightarrow> srq_wrid s' i = srq_wrid s i \<Longrightarrow> srq_scat (srq_wqes s' i) = srq_scat (srq_wqes s i) \<Longrightarrow>
    srq_entry s' i = srq_entry s i"
  by (simp add: srq_entry_def)

lemma shape_moved:
  assumes "srq_shape b gs s dh posted (x # y # fs) taken" and "srq_max s' = srq_max s" and "srq_max_gs s' = srq_max_gs s"
    and "\<And>i. next_wqe_index (srq_wqes s' i) = next_wqe_index (srq_wqes s i)" and "srq_tail s' = srq_tail s"
    and "srq_head s' = uint (htons (next_wqe_index (srq_wqes s x)))"
  shows "srq_shape b gs s' dh (posted @ [x]) (y # fs) taken"
proof -
  have "linked s (posted @ x # y # fs)" using assms(1) by (simp add: srq_shape_def)
  then have "unat (htons (next_wqe_index (srq_wqes s x))) = y" "linked s' (posted @ x # y # fs)"
    using linked_next linked_cong [of "posted @ x # y # fs" s' s] assms(4) by auto
  then show ?thesis using assms unfolding srq_shape_def by (auto simp: uint_nat hd_append)
qed

lemma post_srq_chain_eq:
  assumes "srq_shape b gs s dh posted free taken" and "\<forall>wr \<in> set wrs. srq_wr_ok gs wr"
  shows "\<exists>s'. post_srq_chain wrs n s = ret (if length wrs < length free then 0 else ENOMEM, drop (length free - 1) wrs,
      n + min (length wrs) (length free - 1), s') \<and>
    srq_shape b gs s' dh (posted @ take (length wrs) (butlast free)) (drop (min (length wrs) (length free - 1)) free) taken \<and>
    map (srq_entry s') (take (length wrs) (butlast free)) = map srq_entry_of (take (length free - 1) wrs) \<and>
    (\<forall>i. i \<notin> set (take (length wrs) (butlast free)) \<longrightarrow> srq_entry s' i = srq_entry s i)"
  using assms
proof (induction wrs arbitrary: n s posted free)
  case (Cons wr wrs)
  from Cons.prems(1) have ne: "free \<noteq> []" "srq_max_gs s = gs" "srq_head s = int (hd free)" "srq_tail s = int (last free)" "distinct free"
    by (simp_all add: srq_shape_def)
  have gs: "\<not> srq_max_gs s < int (length (rq_sges wr))" using Cons.prems(2) ne(2) by (simp add: srq_wr_ok_def)
  show ?case
  proof (cases free rule: remdups_adj.cases)
    case 1
    with ne show ?thesis by simp
  next
    case (2 x)
    then have "post_srq_chain (wr # wrs) n s = ret (ENOMEM, wr # wrs, n, s)" using gs ne by simp
    with 2 Cons.prems(1) show ?thesis by simp
  next
    case (3 x y fs)
    have "last (y # fs) \<noteq> x" using ne(5) 3 last_in_set [of "y # fs"] by auto
    then have room: "srq_head s \<noteq> srq_tail s" using ne 3 by simp
    have idx: "index (nat (srq_max s)) (srq_head s) = ret x" using shape_bounds(2,3) [OF Cons.prems(1)] ne(3) 3 by simp
    let ?w = "srq_wqes s x"
    define scat where "scat = (if int (length (rq_sges wr)) < gs then (put_scat (rq_sges wr) 0 (srq_scat ?w))(length (rq_sges wr) := data_seg_end)
      else put_scat (rq_sges wr) 0 (srq_scat ?w))"
    let ?s = "s\<lparr>srq_wrid := (srq_wrid s)(x := rq_wr_id wr), srq_head := uint (htons (next_wqe_index ?w)),
      srq_wqes := (srq_wqes s)(x := ?w\<lparr>srq_scat := scat\<rparr>)\<rparr>"
    have step: "post_srq_chain (wr # wrs) n s = post_srq_chain wrs (Suc n) ?s"
      using gs room ne(2) unfolding scat_def by (simp add: idx Let_def)
    have shape: "srq_shape b gs ?s dh (posted @ [x]) (y # fs) taken"
      using Cons.prems(1) unfolding 3 by (rule shape_moved) auto
    have entry: "srq_entry ?s x = srq_entry_of wr" "\<And>i. i \<noteq> x \<Longrightarrow> srq_entry ?s i = srq_entry s i"
      using scat_list_put [of "rq_sges wr" gs "srq_scat ?w"] Cons.prems(2) ne(2)
      by (simp_all add: srq_entry_def srq_entry_of_def srq_wr_ok_def scat_def)
    from Cons.IH [OF shape, of "Suc n"] Cons.prems(2) obtain s' where
      s': "post_srq_chain wrs (Suc n) ?s = ret (if length wrs < Suc (length fs) then 0 else ENOMEM, drop (length fs) wrs,
        Suc n + min (length wrs) (length fs), s')"
      "srq_shape b gs s' dh ((posted @ [x]) @ take (length wrs) (butlast (y # fs))) (drop (min (length wrs) (length fs)) (y # fs)) taken"
      "map (srq_entry s') (take (length wrs) (butlast (y # fs))) = map srq_entry_of (take (length fs) wrs)"
      "\<forall>i. i \<notin> set (take (length wrs) (butlast (y # fs))) \<longrightarrow> srq_entry s' i = srq_entry ?s i" by auto
    have "x \<notin> set (take (length wrs) (butlast (y # fs)))"
      using ne(5) 3 set_take_subset [of "length wrs" "butlast (y # fs)"] in_set_butlastD [of x "y # fs"] by auto
    then show ?thesis using s' step entry 3 by (intro exI [of _ s']) auto
  qed
qed (auto simp: srq_shape_def)

lemma free_srq_wqe_eq:
  assumes "srq_shape b gs s dh posted free taken" and "i \<in> taken"
  shows "\<exists>s'. mlx5_free_srq_wqe (int i) s = ret s' \<and> srq_shape b gs s' dh posted (free @ [i]) (taken - {i}) \<and>
    (\<forall>k. srq_entry s' k = srq_entry s k) \<and> srq_wqes s' i = srq_wqes s i \<and> srq_head s' = srq_head s \<and> srq_wrid s' = srq_wrid s"
proof -
  let ?l = "last free"
  from assms(1) have ne: "free \<noteq> []" "b \<le> 16" "distinct (posted @ free)" "linked s (posted @ free)" "srq_tail s = int ?l"
    "set (posted @ free) \<union> taken = {0..<2 ^ b}" "set (posted @ free) \<inter> taken = {}" by (simp_all add: srq_shape_def)
  have i: "i < 2 ^ b" using shape_bounds(1) [OF assms(1), of i] assms(2) by simp
  have idx: "index (nat (srq_max s)) (srq_tail s) = ret ?l" using shape_bounds(2,4) [OF assms(1)] ne(5) by simp
  have il: "i \<noteq> ?l" using assms(2) ne(7) last_in_set [OF ne(1)] by auto
  let ?s = "s\<lparr>srq_wqes := (srq_wqes s)(?l := srq_wqes s ?l\<lparr>next_wqe_index := htons (word_of_int (int i))\<rparr>), srq_tail := int i\<rparr>"
  have run: "mlx5_free_srq_wqe (int i) s = ret ?s" by (simp add: mlx5_free_srq_wqe_def upd_srq_wqe_def idx)
  have last: "last (posted @ free) = ?l" using ne(1) by simp
  have notin: "?l \<notin> set (butlast (posted @ free))"
    using ne(1,3) by (metis append_is_Nil_conv append_butlast_last_id distinct_append last list.set_intros(1) disjoint_iff)
  have "linked ?s (posted @ free) = linked s (posted @ free)"
  proof (rule linked_cong)
    fix x
    assume "x \<in> set (butlast (posted @ free))"
    then have "x \<noteq> ?l" using notin by metis
    then show "next_wqe_index (srq_wqes ?s x) = next_wqe_index (srq_wqes s x)" by simp
  qed
  then have "linked ?s (posted @ free)" using ne(4) by simp
  moreover have "unat (htons (next_wqe_index (srq_wqes ?s ?l))) = i" using pow_u16 [OF ne(2) i] by simp
  ultimately have "linked ?s ((posted @ free) @ [i])" using linked_snoc [of "posted @ free" ?s i] ne(1) last by simp
  moreover have "i \<notin> set (posted @ free)" using assms(2) ne(7) by blast
  moreover have "set (posted @ free) \<union> {i} \<union> (taken - {i}) = {0..<2 ^ b}" using ne(6) assms(2) by blast
  ultimately have "srq_shape b gs ?s dh posted (free @ [i]) (taken - {i})"
    using assms(1) ne by (auto simp: srq_shape_def hd_append)
  then show ?thesis using run il by (intro exI [of _ ?s]) (auto simp: srq_entry_def)
qed

lemma requeue_srq_wqe_eq:
  assumes "srq_shape b gs s dh posted free taken" and "i \<in> taken"
  shows "\<exists>s'. mlx5_requeue_srq_wqe (int i) s = ret s' \<and>
    srq_shape b gs s' dh (posted @ [hd free]) (tl free @ [i]) (taken - {i}) \<and>
    srq_entry s' (hd free) = srq_entry s i \<and> (\<forall>k. k \<noteq> hd free \<longrightarrow> srq_entry s' k = srq_entry s k)"
proof -
  let ?h = "hd free" let ?s0 = "s\<lparr>srq_wrid := (srq_wrid s)(?h := srq_wrid s i)\<rparr>"
  from assms(1) have ne: "free \<noteq> []" "srq_head s = int ?h" "srq_max_gs s = gs" "set (posted @ free) \<inter> taken = {}" by (simp_all add: srq_shape_def)
  have "i < 2 ^ b" using shape_bounds(1) [OF assms(1), of i] assms(2) by simp
  then have idx: "index (nat (srq_max s)) (srq_head s) = ret ?h" "index (nat (srq_max s)) (int i) = ret i"
    using shape_bounds(2,3) [OF assms(1)] ne(2) by simp_all
  have hi: "?h \<noteq> i" using ne(4) assms(2) list.set_sel(1) [OF ne(1)] by auto
  have "linked ?s0 (posted @ free) = linked s (posted @ free)" by (rule linked_cong) simp
  then have shape0: "srq_shape b gs ?s0 dh posted free taken" using assms(1) by (simp add: srq_shape_def)
  from free_srq_wqe_eq [OF shape0 assms(2)] obtain s1 where s1: "mlx5_free_srq_wqe (int i) ?s0 = ret s1"
    "srq_shape b gs s1 dh posted (free @ [i]) (taken - {i})" "\<forall>k. srq_entry s1 k = srq_entry ?s0 k" "srq_wqes s1 i = srq_wqes s i"
    "srq_head s1 = srq_head s" "srq_wrid s1 = srq_wrid ?s0" by auto
  have idx1: "index (nat (srq_max s1)) (srq_head s1) = ret ?h" using idx(1) s1(2,5) assms(1) by (simp add: srq_shape_def)
  let ?s2 = "s1\<lparr>srq_head := uint (htons (next_wqe_index (srq_wqes s1 ?h))),
      srq_wqes := (srq_wqes s1)(?h := srq_wqes s1 ?h\<lparr>srq_scat := copy_scat (nat (srq_max_gs s1)) 0 (srq_scat (srq_wqes s1 i)) (srq_scat (srq_wqes s1 ?h))\<rparr>),
      srq_counter := srq_counter s1 + 1, srq_db := htonl (ucast (srq_counter s1 + 1))\<rparr>"
  have run: "mlx5_requeue_srq_wqe (int i) s = ret ?s2"
    by (simp add: mlx5_requeue_srq_wqe_def get_wqe_def upd_srq_wqe_def Let_def idx idx1 s1(1))
  obtain y fs where y: "free @ [i] = ?h # y # fs" "y # fs = tl free @ [i]" using ne(1) by (cases free; cases "tl free") auto
  have shape: "srq_shape b gs ?s2 dh (posted @ [?h]) (y # fs) (taken - {i})"
    using s1(2) unfolding y(1) by (rule shape_moved) auto
  have "srq_max_gs s1 = gs" using s1(2) by (simp add: srq_shape_def)
  then have "srq_entry ?s2 ?h = srq_entry s i"
    using s1(4,6) ne(3) hi by (simp add: srq_entry_def scat_list_copy)
  moreover have "srq_entry ?s2 k = srq_entry s k" if "k \<noteq> ?h" for k
  proof -
    have "srq_entry ?s2 k = srq_entry s1 k" using that by (simp add: srq_entry_def)
    also have "\<dots> = srq_entry s k" using s1(3) that by (simp add: srq_entry_def)
    finally show ?thesis .
  qed
  ultimately show ?thesis using run shape y(2) by auto
qed

lemma take_wqe_eq:
  assumes "srq_shape b gs s dh (x # posted) free taken"
  shows "unat dh = x \<and> srq_shape b gs s (htons (next_wqe_index (srq_wqes s x))) posted free (insert x taken)"
proof -
  obtain y ys where y: "posted @ free = y # ys" using assms by (cases "posted @ free") (auto simp: srq_shape_def)
  have "linked s (x # y # ys)" using assms y by (simp add: srq_shape_def)
  then show ?thesis using assms y by (auto simp: srq_shape_def)
qed

subsection \<open>A new queue\<close>

lemma round_up_loop:
  assumes "sz \<le> 2 ^ (j + n)"
  shows "\<exists>k. loop (round_up_step sz) (2 ^ j) = ret (2 ^ k) \<and> sz \<le> 2 ^ k \<and> j \<le> k \<and> k \<le> j + n"
  using assms
proof (induction n arbitrary: j)
  case 0
  then show ?case by (intro exI [of _ j]) (simp add: loop_Return round_up_step_def)
next
  case (Suc n)
  show ?case
  proof (cases "2 ^ j < sz")
    case True
    then have "loop (round_up_step sz) (2 ^ j) = loop (round_up_step sz) (2 ^ Suc j)" by (simp add: loop_Next round_up_step_def)
    with Suc.IH [of "Suc j"] Suc.prems show ?thesis by (auto dest: Suc_leD)
  next
    case False
    then show ?thesis by (intro exI [of _ j]) (simp add: loop_Return round_up_step_def)
  qed
qed

lemma round_up_eq:
  assumes "sz \<le> 2 ^ n" and "n < 31"
  obtains k where "mlx5_round_up_power_of_two sz = ret (2 ^ k)" "sz \<le> 2 ^ k" "k \<le> n"
proof -
  from round_up_loop [of sz 0 n] assms(1) obtain k where k: "loop (round_up_step sz) 1 = ret (2 ^ k)" "sz \<le> 2 ^ k" "k \<le> n" by auto
  have "(2 :: int) ^ k \<le> 2 ^ 30" using k(3) assms(2) by (intro power_increasing) simp_all
  then show thesis using k by (intro that [of k]) (simp_all add: mlx5_round_up_power_of_two_def)
qed

lemma linked_upt: "(\<And>i. a \<le> i \<Longrightarrow> Suc i < a + n \<Longrightarrow> unat (htons (next_wqe_index (srq_wqes s i))) = Suc i) \<Longrightarrow> linked s [a..<a + n]"
proof (induction n arbitrary: a)
  case (Suc n)
  then have "linked s [Suc a..<Suc a + n]" by (metis Suc_leD add_Suc_right add_Suc)
  moreover have "[a..<a + Suc n] = a # [Suc a..<Suc a + n]" by (simp add: upt_conv_Cons del: upt_Suc)
  moreover have "n = 0 \<or> [Suc a..<Suc a + n] = Suc a # [Suc (Suc a)..<Suc a + n]" by (simp add: upt_conv_Cons)
  ultimately show ?case using Suc.prems [of a] by auto
qed simp

lemma fresh_shape:
  assumes "b \<le> 16" and "srq_max s = 2 ^ b" and "srq_head s = 0" and "srq_tail s = 2 ^ b - 1"
    and "\<And>i. next_wqe_index (srq_wqes s i) = htons (word_of_int ((int i + 1) AND (2 ^ b - 1)))"
  shows "srq_shape b (srq_max_gs s) s 0 [] [0..<2 ^ b] {}"
proof -
  have "unat (htons (next_wqe_index (srq_wqes s i))) = Suc i" if "Suc i < 2 ^ b" for i
  proof -
    have "(int i + 1) AND (2 ^ b - 1) = take_bit b (int (Suc i))" by (simp add: take_bit_eq_mask mask_eq_exp_minus_1 add.commute)
    also have "\<dots> = int (Suc i)" using that by (simp add: take_bit_int_eq_self_iff flip: of_nat_less_iff [where ?'a = int])
    finally have "next_wqe_index (srq_wqes s i) = htons (of_nat (Suc i))" using assms(5) by simp
    then show ?thesis using pow_u16 [OF assms(1) that] by simp
  qed
  then have "linked s [0..<0 + 2 ^ b]" by (intro linked_upt) auto
  moreover have "last [0..<2 ^ b] = 2 ^ b - (1 :: nat)" by (cases "(2 :: nat) ^ b") (simp_all add: last_conv_nth)
  ultimately show ?thesis using assms by (simp add: srq_shape_def of_nat_diff)
qed

lemma alloc_srq_shape:
  assumes "mlx5_alloc_srq env mw ms = ret (Some s)" and "unat mw < 2 ^ 16"
  shows "\<exists>b. srq_shape b (srq_max_gs s) s 0 [] [0..<2 ^ b] {} \<and> unat mw < 2 ^ b"
proof -
  have "unat (mw + 1) = unat mw + 1" using assms(2) by (subst unat_add_lem [THEN iffD1]) simp_all
  then have mw: "uint (mw + 1) = int (unat mw) + 1" by (simp only: uint_nat of_nat_add of_nat_1)
  have "unat mw < 65536" using assms(2) by simp
  then have "int (unat mw) + 1 \<le> 65536" by linarith
  then have "uint (mw + 1) \<le> 2 ^ 16" unfolding mw by simp
  moreover have "16 < (31 :: nat)" by simp
  ultimately obtain b where b: "mlx5_round_up_power_of_two (uint (mw + 1)) = ret (2 ^ b)" "uint (mw + 1) \<le> 2 ^ b" "b \<le> 16"
    by (rule round_up_eq)
  from assms(1) b(1) obtain s1 where s1: "mlx5_alloc_srq_buf env \<lparr>srq_wqes = (\<lambda>_. \<lparr>next_wqe_index = 0, srq_scat = (\<lambda>_. \<lparr>ds_byte_count = 0, ds_lkey = 0, ds_addr = 0\<rparr>)\<rparr>),
           srq_wrid = (\<lambda>_. 0), srq_max = 2 ^ b, srq_max_gs = sint ms, srq_wqe_shift = 0, srq_head = 0, srq_tail = 0,
           srq_counter = 0, srq_db = 0\<rparr> = ret (0, s1)" "s = s1\<lparr>srq_db := 0\<rparr>"
    by (auto simp: mlx5_alloc_srq_def bindC_eq_ret split: if_splits)
  then have "srq_max s = 2 ^ b \<and> srq_head s = 0 \<and> srq_tail s = 2 ^ b - 1 \<and>
      (\<forall>i. next_wqe_index (srq_wqes s i) = htons (word_of_int ((int i + 1) AND (2 ^ b - 1))))"
    by (auto simp: mlx5_alloc_srq_buf_def bindC_eq_ret Let_def split: if_splits option.splits)
  then have "srq_shape b (srq_max_gs s) s 0 [] [0..<2 ^ b] {}" using b(3) by (intro fresh_shape) auto
  moreover have "unat mw < 2 ^ b"
  proof -
    have "int (unat mw) + 1 \<le> int (2 ^ b)" using b(2) by (simp only: mw) simp
    then show ?thesis by linarith
  qed
  ultimately show ?thesis by blast
qed

subsection \<open>Runs of driver and device\<close>

text \<open>
  The device reads the posted descriptor at \<open>dh\<close> and follows its link; a receive that it has read
  completes, or is posted again. \<open>q\<close> are the receives that were posted and not read yet, \<open>out\<close>
  those it has read, by the index of their descriptor.
\<close>

type_synonym receive = "u64 \<times> mlx5_wqe_data_seg list"

inductive srq_run :: "u32 \<Rightarrow> mlx5_srq \<Rightarrow> u16 \<Rightarrow> receive list \<Rightarrow> (nat \<Rightarrow> receive option) \<Rightarrow> bool" for mw where
  alloc: "mlx5_alloc_srq env mw ms = ret (Some s) \<Longrightarrow> srq_run mw s 0 [] Map.empty"
| post: "srq_run mw s dh q out \<Longrightarrow> \<forall>wr \<in> set wrs. srq_wr_ok (srq_max_gs s) wr \<Longrightarrow> mlx5_post_srq_recv wrs s = ret (err, bad, s') \<Longrightarrow>
    srq_run mw s' dh (q @ map srq_entry_of (take (length wrs - length bad) wrs)) out"
| read: "srq_run mw s dh (e # q) out \<Longrightarrow>
    srq_run mw s (htons (next_wqe_index (srq_wqes s (unat dh)))) q (out(unat dh \<mapsto> e))"
| complete: "srq_run mw s dh q out \<Longrightarrow> out i = Some e \<Longrightarrow> mlx5_free_srq_wqe (int i) s = ret s' \<Longrightarrow>
    srq_run mw s' dh q (out(i := None))"
| requeue: "srq_run mw s dh q out \<Longrightarrow> out i = Some e \<Longrightarrow> mlx5_requeue_srq_wqe (int i) s = ret s' \<Longrightarrow>
    srq_run mw s' dh (q @ [e]) (out(i := None))"

definition srq_holds :: "nat \<Rightarrow> mlx5_srq \<Rightarrow> u16 \<Rightarrow> nat list \<Rightarrow> nat list \<Rightarrow> receive list \<Rightarrow> (nat \<Rightarrow> receive option) \<Rightarrow> bool" where
  "srq_holds b s dh posted free q out \<longleftrightarrow> srq_shape b (srq_max_gs s) s dh posted free (dom out) \<and> map (srq_entry s) posted = q \<and>
     (\<forall>i e. out i = Some e \<longrightarrow> srq_entry s i = e)"

lemma post_srq_recv_eq:
  assumes "srq_shape b gs s dh posted free taken" and "\<forall>wr \<in> set wrs. srq_wr_ok gs wr"
  shows "\<exists>s'. mlx5_post_srq_recv wrs s = ret (if length wrs < length free then 0 else ENOMEM, drop (length free - 1) wrs, s') \<and>
    srq_shape b gs s' dh (posted @ take (length wrs) (butlast free)) (drop (min (length wrs) (length free - 1)) free) taken \<and>
    map (srq_entry s') (take (length wrs) (butlast free)) = map srq_entry_of (take (length free - 1) wrs) \<and>
    (\<forall>i. i \<notin> set (take (length wrs) (butlast free)) \<longrightarrow> srq_entry s' i = srq_entry s i)"
proof -
  define k where "k = min (length wrs) (length free - 1)"
  from post_srq_chain_eq [OF assms, of 0, folded k_def] obtain s1 where
    s1: "post_srq_chain wrs 0 s = ret (if length wrs < length free then 0 else ENOMEM, drop (length free - 1) wrs, k, s1)"
    "srq_shape b gs s1 dh (posted @ take (length wrs) (butlast free)) (drop k free) taken"
    "map (srq_entry s1) (take (length wrs) (butlast free)) = map srq_entry_of (take (length free - 1) wrs)"
    "\<forall>i. i \<notin> set (take (length wrs) (butlast free)) \<longrightarrow> srq_entry s1 i = srq_entry s i" by auto
  let ?c = "srq_counter s1 + of_nat k"
  let ?s = "if k = 0 then s1 else s1\<lparr>srq_counter := ?c, srq_db := htonl (ucast ?c)\<rparr>"
  have linked: "linked ?s xs = linked s1 xs" for xs by (rule linked_cong) simp
  have "srq_shape b gs ?s dh ps fs taken = srq_shape b gs s1 dh ps fs taken" for ps fs unfolding srq_shape_def linked by simp
  moreover have entry: "srq_entry ?s = srq_entry s1" by (simp add: srq_entry_def fun_eq_iff)
  moreover have "mlx5_post_srq_recv wrs s = ret (if length wrs < length free then 0 else ENOMEM, drop (length free - 1) wrs, ?s)"
    by (simp add: mlx5_post_srq_recv_def s1(1) Let_def)
  ultimately show ?thesis using s1(2-4) unfolding k_def [symmetric] by (intro exI [of _ ?s]) (simp only: entry)
qed

lemma holds_out: "srq_holds b s dh posted free q out \<Longrightarrow> out i = Some e \<Longrightarrow> srq_entry s i = e"
  unfolding srq_holds_def by blast

lemma holds_post:
  assumes "srq_holds b s dh posted free q out" and "\<forall>wr \<in> set wrs. srq_wr_ok (srq_max_gs s) wr"
  shows "\<exists>s' posted' free'. mlx5_post_srq_recv wrs s = ret (if length wrs < length free then 0 else ENOMEM, drop (length free - 1) wrs, s') \<and>
    srq_holds b s' dh posted' free' (q @ map srq_entry_of (take (length free - 1) wrs)) out"
proof -
  have shape: "srq_shape b (srq_max_gs s) s dh posted free (dom out)" using assms(1) by (simp add: srq_holds_def)
  let ?new = "take (length wrs) (butlast free)"
  from post_srq_recv_eq [OF shape assms(2)] obtain s' where s': "mlx5_post_srq_recv wrs s = ret (if length wrs < length free then 0 else ENOMEM, drop (length free - 1) wrs, s')"
    "srq_shape b (srq_max_gs s) s' dh (posted @ ?new) (drop (min (length wrs) (length free - 1)) free) (dom out)"
    "map (srq_entry s') ?new = map srq_entry_of (take (length free - 1) wrs)" "\<forall>i. i \<notin> set ?new \<longrightarrow> srq_entry s' i = srq_entry s i" by blast
  have "set ?new \<subseteq> set free" by (meson in_set_butlastD in_set_takeD subsetI)
  moreover have "set free \<inter> (set posted \<union> dom out) = {}" using shape by (auto simp: srq_shape_def)
  ultimately have old: "srq_entry s' i = srq_entry s i" if "i \<in> set posted \<union> dom out" for i using that s'(4) by blast
  have "srq_max_gs s' = srq_max_gs s" using s'(2) by (simp add: srq_shape_def)
  moreover have "map (srq_entry s') posted = q" using assms(1) old by (auto simp: srq_holds_def)
  moreover have "\<forall>i e. out i = Some e \<longrightarrow> srq_entry s' i = e" using old holds_out [OF assms(1)] by (metis UnCI domI)
  ultimately have "srq_holds b s' dh (posted @ ?new) (drop (min (length wrs) (length free - 1)) free)
      (q @ map srq_entry_of (take (length free - 1) wrs)) out"
    using s'(2,3) by (simp add: srq_holds_def)
  then show ?thesis using s'(1) by blast
qed

lemma holds_complete:
  assumes "srq_holds b s dh posted free q out" and "out i = Some e"
  shows "\<exists>s'. mlx5_free_srq_wqe (int i) s = ret s' \<and> srq_holds b s' dh posted (free @ [i]) q (out(i := None))"
proof -
  have shape: "srq_shape b (srq_max_gs s) s dh posted free (dom out)" and i: "i \<in> dom out" using assms by (auto simp: srq_holds_def)
  from free_srq_wqe_eq [OF shape i] obtain s' where s': "mlx5_free_srq_wqe (int i) s = ret s'"
    "srq_shape b (srq_max_gs s) s' dh posted (free @ [i]) (dom out - {i})" "\<And>k. srq_entry s' k = srq_entry s k" by blast
  have "srq_max_gs s' = srq_max_gs s" using s'(2) by (simp add: srq_shape_def)
  moreover have "srq_entry s' = srq_entry s" by (rule ext) (rule s'(3))
  ultimately show ?thesis using s'(1,2) assms(1) by (intro exI [of _ s']) (auto simp: srq_holds_def)
qed

lemma holds_requeue:
  assumes "srq_holds b s dh posted free q out" and "out i = Some e"
  shows "\<exists>s'. mlx5_requeue_srq_wqe (int i) s = ret s' \<and> srq_holds b s' dh (posted @ [hd free]) (tl free @ [i]) (q @ [e]) (out(i := None))"
proof -
  have shape: "srq_shape b (srq_max_gs s) s dh posted free (dom out)" and i: "i \<in> dom out" and e: "srq_entry s i = e"
    using assms holds_out [OF assms] by (auto simp: srq_holds_def)
  from requeue_srq_wqe_eq [OF shape i] obtain s' where s': "mlx5_requeue_srq_wqe (int i) s = ret s'"
    "srq_shape b (srq_max_gs s) s' dh (posted @ [hd free]) (tl free @ [i]) (dom out - {i})"
    "srq_entry s' (hd free) = srq_entry s i" "\<forall>k. k \<noteq> hd free \<longrightarrow> srq_entry s' k = srq_entry s k" by blast
  have "free \<noteq> []" "set free \<inter> (set posted \<union> dom out) = {}" using shape by (auto simp: srq_shape_def)
  then have "hd free \<notin> set posted \<union> dom out" using list.set_sel(1) [of free] by blast
  then have old: "srq_entry s' k = srq_entry s k" if "k \<in> set posted \<union> dom out" for k using that s'(4) by metis
  have "srq_max_gs s' = srq_max_gs s" using s'(2) by (simp add: srq_shape_def)
  moreover have "map (srq_entry s') posted = q" using assms(1) old by (auto simp: srq_holds_def)
  moreover have "\<forall>k d. (out(i := None)) k = Some d \<longrightarrow> srq_entry s' k = d"
    using old holds_out [OF assms(1)] by (metis UnCI domI fun_upd_apply option.distinct(1))
  ultimately show ?thesis using s' e by (intro exI [of _ s']) (simp add: srq_holds_def)
qed

lemma holds_read:
  assumes "srq_holds b s dh posted free (e # q) out"
  shows "\<exists>x ps. posted = x # ps \<and> unat dh = x \<and> srq_entry s x = e \<and>
    srq_holds b s (htons (next_wqe_index (srq_wqes s x))) ps free q (out(x \<mapsto> e))"
proof -
  from assms obtain x ps where x: "posted = x # ps" "srq_entry s x = e" "map (srq_entry s) ps = q" by (auto simp: srq_holds_def)
  have "srq_shape b (srq_max_gs s) s dh (x # ps) free (dom out)" using assms x(1) by (simp add: srq_holds_def)
  from take_wqe_eq [OF this] x assms show ?thesis by (auto simp: srq_holds_def)
qed

lemma srq_run_holds: "srq_run mw s dh q out \<Longrightarrow> unat mw < 2 ^ 16 \<Longrightarrow> \<exists>b posted free. srq_holds b s dh posted free q out \<and> unat mw < 2 ^ b"
proof (induction rule: srq_run.induct)
  case (alloc env ms s)
  from alloc_srq_shape [OF this] show ?case by (force simp: srq_holds_def)
next
  case (post s dh q out wrs err bad s')
  then obtain b posted free where h: "srq_holds b s dh posted free q out" "unat mw < 2 ^ b" by blast
  from holds_post [OF h(1) post.hyps(2)] post.hyps(3) have "bad = drop (length free - 1) wrs"
    "\<exists>posted' free'. srq_holds b s' dh posted' free' (q @ map srq_entry_of (take (length free - 1) wrs)) out" by auto
  moreover from this(1) have "take (length wrs - length bad) wrs = take (length free - 1) wrs"
    by (cases "length wrs \<le> length free - 1") simp_all
  ultimately show ?case using h(2) by auto
next
  case (read s dh e q out)
  then obtain b posted free where h: "srq_holds b s dh posted free (e # q) out" "unat mw < 2 ^ b" by blast
  from holds_read [OF h(1)] h(2) show ?case by blast
next
  case (complete s dh q out i e s')
  then obtain b posted free where h: "srq_holds b s dh posted free q out" "unat mw < 2 ^ b" by blast
  from holds_complete [OF h(1) complete.hyps(2)] complete.hyps(3) h(2) show ?case by (metis (no_types) ret_raise_simps(1))
next
  case (requeue s dh q out i e s')
  then obtain b posted free where h: "srq_holds b s dh posted free q out" "unat mw < 2 ^ b" by blast
  from holds_requeue [OF h(1) requeue.hyps(2)] requeue.hyps(3) h(2) show ?case by (metis (no_types) ret_raise_simps(1))
qed

lemma holds_count:
  assumes "srq_holds b s dh posted free q out"
  shows "length q + card (dom out) + length free = 2 ^ b"
proof -
  have shape: "distinct (posted @ free)" "set (posted @ free) \<union> dom out = {0..<2 ^ b}" "set (posted @ free) \<inter> dom out = {}"
    using assms by (simp_all add: srq_holds_def srq_shape_def)
  have "finite (dom out)" using shape(2) by (metis finite_Un finite_atLeastLessThan)
  then have "card (set (posted @ free)) + card (dom out) = 2 ^ b"
    using card_Un_disjoint [OF _ _ shape(3)] shape(2) by simp
  moreover have "length q = length posted" using assms by (auto simp: srq_holds_def)
  ultimately show ?thesis using distinct_card [OF shape(1)] by simp
qed

text \<open>
  C33: a shared receive queue of 16-bit size, in every state of any run of posts, reads by the
  device, completions in any order and reposts after page faults: the descriptor the device reads next
  is not in use by another receive and holds the scatter list of the oldest unread receive; the
  identifier the driver reports for a descriptor is that of the receive the device read from it; and a
  chain of posts is accepted exactly as far as there is room, which is for at least the number of
  receives the queue was created for.
\<close>

theorem srq_in_order:
  assumes "srq_run mw s dh q out" and "unat mw < 2 ^ 16"
  shows "(q \<noteq> [] \<longrightarrow> out (unat dh) = None \<and> scat_list (srq_max_gs s) (srq_scat (srq_wqes s (unat dh))) = snd (hd q)) \<and>
    (\<forall>i e. out i = Some e \<longrightarrow> srq_wrid s i = fst e \<and> (\<exists>s'. mlx5_free_srq_wqe (int i) s = ret s') \<and>
      (\<exists>s'. mlx5_requeue_srq_wqe (int i) s = ret s')) \<and>
    (\<exists>room. unat mw \<le> room + length q + card (dom out) \<and>
      (\<forall>wrs. (\<forall>wr \<in> set wrs. srq_wr_ok (srq_max_gs s) wr) \<longrightarrow>
        (\<exists>s'. mlx5_post_srq_recv wrs s = ret (if length wrs \<le> room then 0 else ENOMEM, drop room wrs, s'))))"
proof -
  from srq_run_holds [OF assms] obtain b posted free where h: "srq_holds b s dh posted free q out" and mw: "unat mw < 2 ^ b" by blast
  have "out (unat dh) = None \<and> scat_list (srq_max_gs s) (srq_scat (srq_wqes s (unat dh))) = snd (hd q)" if "q \<noteq> []"
  proof -
    obtain e q' where q: "q = e # q'" using \<open>q \<noteq> []\<close> by (cases q) auto
    from holds_read [OF h [unfolded q]] obtain x ps where x: "posted = x # ps" "unat dh = x" "srq_entry s x = e" by blast
    then have "x \<notin> dom out" using h by (auto simp: srq_holds_def srq_shape_def)
    then have "out (unat dh) = None" unfolding x(2) by (rule contrapos_np) blast
    then show ?thesis using x q by (auto simp: srq_entry_def)
  qed
  moreover have "srq_wrid s i = fst e \<and> (\<exists>s'. mlx5_free_srq_wqe (int i) s = ret s') \<and> (\<exists>s'. mlx5_requeue_srq_wqe (int i) s = ret s')"
    if "out i = Some e" for i e
  proof -
    have "srq_entry s i = e" by (rule holds_out [OF h that])
    then show ?thesis using holds_complete [OF h that] holds_requeue [OF h that] by (auto simp: srq_entry_def)
  qed
  moreover have "free \<noteq> []" using h by (simp add: srq_holds_def srq_shape_def)
  then have "unat mw \<le> (length free - 1) + length q + card (dom out)" using holds_count [OF h] mw by (cases free) auto
  moreover have "\<exists>s'. mlx5_post_srq_recv wrs s = ret (if length wrs \<le> length free - 1 then 0 else ENOMEM, drop (length free - 1) wrs, s')"
    if "\<forall>wr \<in> set wrs. srq_wr_ok (srq_max_gs s) wr" for wrs
  proof -
    have "length wrs < length free \<longleftrightarrow> length wrs \<le> length free - 1" using \<open>free \<noteq> []\<close> by (cases free) auto
    then show ?thesis using holds_post [OF h that] by auto
  qed
  ultimately show ?thesis by blast
qed

definition srq_test_env :: srq_env where
  "srq_test_env = \<lparr>wrid_mem = Some (\<lambda>_. 0), buf_mem = True, dbrec_mem = True, max_rq_desc_sz = 512, max_srq_recv_wr = 1000, max_recv_wr = 1000\<rparr>"

lemma srq_test_alloc: "\<exists>s. mlx5_alloc_srq srq_test_env 3 1 = ret (Some s) \<and> srq_max_gs s = 1"
  by (simp add: mlx5_alloc_srq_def mlx5_alloc_srq_buf_def srq_test_env_def mlx5_round_up_power_of_two_def mlx5_ilog2_def
      loop.simps round_up_step_def ilog2_step_def Let_def)

lemma srq_in_order_witness:
  "\<exists>s s'. srq_run 3 s 0 [] Map.empty \<and> srq_run 3 s' 0 [(5, [])] Map.empty \<and>
    scat_list (srq_max_gs s') (srq_scat (srq_wqes s' 0)) = []"
proof -
  obtain s where s: "srq_run 3 s 0 [] Map.empty" and "srq_max_gs s = 1" using srq_test_alloc srq_run.alloc by blast
  have small: "unat (3 :: u32) < 2 ^ 16" by simp
  let ?wr = "\<lparr>rq_wr_id = 5, rq_sges = []\<rparr>"
  have ok: "\<forall>wr \<in> set [?wr]. srq_wr_ok (srq_max_gs s) wr" using \<open>srq_max_gs s = 1\<close> by (simp add: srq_wr_ok_def)
  with srq_in_order [OF s small] obtain room s' where "3 \<le> room + length ([] :: receive list) + card (dom (Map.empty :: nat \<Rightarrow> receive option))"
    "mlx5_post_srq_recv [?wr] s = ret (if length [?wr] \<le> room then 0 else ENOMEM, drop room [?wr], s')" by fastforce
  then have "mlx5_post_srq_recv [?wr] s = ret (0, [], s')" by simp
  from srq_run.post [OF s ok this] have s': "srq_run 3 s' 0 [(5, [])] Map.empty" by (simp add: srq_entry_of_def)
  from srq_in_order [OF s' small] s s' show ?thesis by auto
qed

subsection \<open>Messages inside a completion\<close>

text \<open>
  A short message comes with its completion; \<^verbatim>\<open>mlx5_copy_to_recv_srq\<close> scatters it. A
  descriptor of \<open>2 ^ shift\<close> bytes has \<open>2 ^ (shift - 4) - 1\<close> elements after its header; what is
  behind them is a fault.
\<close>

definition IBV_WC_LOC_LEN_ERR :: int where "IBV_WC_LOC_LEN_ERR = 1"

fun copy_to_scat :: "nat \<Rightarrow> (nat \<Rightarrow> mlx5_wqe_data_seg) \<Rightarrow> nat \<Rightarrow> nat \<Rightarrow> u64 \<Rightarrow> int \<Rightarrow> mem \<Rightarrow> (int \<times> mem) outcome" where
  "copy_to_scat elems scat 0 i buf sz m = ret (IBV_WC_LOC_LEN_ERR, m)"
| "copy_to_scat elems scat (Suc n) i buf sz m =
    bindC (index elems (int i)) (\<lambda>i.
    let copy = min sz (uint (htonl (ds_byte_count (scat i))));
        m = memcpy m (htonll (ds_addr (scat i))) buf (nat copy)
    in if sz - copy \<le> 0 then ret (IBV_WC_SUCCESS, m)
       else copy_to_scat elems scat n (Suc i) (buf + word_of_int copy) (sz - copy) m)"

definition mlx5_copy_to_recv_srq :: "mlx5_srq \<Rightarrow> int \<Rightarrow> u64 \<Rightarrow> int \<Rightarrow> mem \<Rightarrow> (int \<times> mem) outcome" where
  "mlx5_copy_to_recv_srq srq idx buf sz m =
    bindC (get_wqe srq idx) (\<lambda>w.
    let elems = 2 ^ nat (srq_wqe_shift srq - 4)
    in copy_to_scat (elems - 1) (srq_scat w) elems 0 buf sz m)"

text \<open>Where byte \<open>n\<close> of a message lands.\<close>

definition seg_len :: "mlx5_wqe_data_seg \<Rightarrow> nat" where
  "seg_len d = unat (htonl (ds_byte_count d))"

fun scat_place :: "mlx5_wqe_data_seg list \<Rightarrow> nat \<Rightarrow> u64" where
  "scat_place [] n = 0"
| "scat_place (d # ds) n = (if n < seg_len d then htonll (ds_addr d) + of_nat n else scat_place ds (n - seg_len d))"

lemma seg_len_less: "seg_len d < 2 ^ 32"
proof -
  have "unat (htonl (ds_byte_count d)) < 2 ^ LENGTH(32)" by (rule unsigned_less)
  then show ?thesis by (simp add: seg_len_def)
qed

lemma memcpy_at: "k < n \<Longrightarrow> n \<le> 2 ^ 32 \<Longrightarrow> memcpy m dst src n (dst + of_nat k) = m (src + of_nat k)"
  by (simp add: memcpy_def unat_of_nat)

lemma memcpy_other:
  assumes "\<And>k. k < n \<Longrightarrow> a \<noteq> dst + of_nat k"
  shows "memcpy m dst src n a = m a"
proof -
  have "\<not> unat (a - dst) < n"
  proof
    assume "unat (a - dst) < n"
    from assms [OF this] show False by simp
  qed
  then show ?thesis by (simp add: memcpy_def)
qed

lemma copy_to_scat_eq:
  assumes "\<And>j. j < length ds \<Longrightarrow> scat (i + j) = ds ! j" and "i + length ds \<le> elems" and "length ds \<le> n" and "ds \<noteq> []"
    and "sz \<le> sum_list (map seg_len ds)" and "inj_on (scat_place ds) {0..<sz}"
    and "\<And>k l. k < sz \<Longrightarrow> l < sz \<Longrightarrow> scat_place ds k \<noteq> buf + of_nat l"
  shows "\<exists>m'. copy_to_scat elems scat n i buf (int sz) m = ret (IBV_WC_SUCCESS, m') \<and>
    (\<forall>k < sz. m' (scat_place ds k) = m (buf + of_nat k)) \<and> (\<forall>a. a \<notin> scat_place ds ` {0..<sz} \<longrightarrow> m' a = m a)"
  using assms
proof (induction ds arbitrary: i n buf sz m)
  case (Cons d ds)
  obtain n0 where n: "n = Suc n0" using Cons.prems(3) by (cases n) auto
  have d: "scat i = d" using Cons.prems(1) [of 0] by simp
  have idx: "index elems (int i) = ret i" using Cons.prems(2) by (intro index_int) simp
  let ?len = "seg_len d" let ?copy = "min sz ?len" let ?m = "memcpy m (htonll (ds_addr d)) buf ?copy"
  have len: "uint (htonl (ds_byte_count d)) = int ?len" by (simp only: seg_len_def uint_nat)
  have step: "copy_to_scat elems scat n i buf (int sz) m =
    (if sz \<le> ?len then ret (IBV_WC_SUCCESS, ?m) else copy_to_scat elems scat n0 (Suc i) (buf + of_nat ?len) (int (sz - ?len)) ?m)"
    unfolding n by (cases "sz \<le> ?len") (simp_all add: idx d len Let_def of_nat_diff)
  have small: "?copy \<le> 2 ^ 32" using seg_len_less [of d] by simp
  have here: "?m (scat_place (d # ds) k) = m (buf + of_nat k)" if "k < ?copy" for k
    using memcpy_at [OF that small] that by simp
  have else_same: "?m a = m a" if "a \<notin> scat_place (d # ds) ` {0..<?copy}" for a
  proof (rule memcpy_other)
    fix k assume "k < ?copy"
    then show "a \<noteq> htonll (ds_addr d) + of_nat k" using that by force
  qed
  show ?case
  proof (cases "sz \<le> ?len")
    case True
    then have "?copy = sz" by simp
    then show ?thesis using step here else_same True by (intro exI [of _ ?m]) auto
  next
    case False
    let ?buf = "buf + of_nat ?len" let ?sz = "sz - ?len"
    have place: "scat_place ds k = scat_place (d # ds) (k + ?len)" for k by simp
    have "ds \<noteq> []" using Cons.prems(5) False by auto
    have inj: "inj_on (scat_place ds) {0..<?sz}"
    proof (rule inj_onI)
      fix k l assume "k \<in> {0..<?sz}" "l \<in> {0..<?sz}" "scat_place ds k = scat_place ds l"
      then have "k + ?len = l + ?len" unfolding place by (intro inj_onD [OF Cons.prems(6)]) auto
      then show "k = l" by simp
    qed
    have apart: "scat_place ds k \<noteq> ?buf + of_nat l" if "k < ?sz" "l < ?sz" for k l
      using Cons.prems(7) [of "k + ?len" "l + ?len"] that unfolding place by (simp add: algebra_simps)
    have at: "scat (Suc i + j) = ds ! j" if "j < length ds" for j using Cons.prems(1) [of "Suc j"] that by simp
    have "\<exists>m'. copy_to_scat elems scat n0 (Suc i) ?buf (int ?sz) ?m = ret (IBV_WC_SUCCESS, m') \<and>
      (\<forall>k < ?sz. m' (scat_place ds k) = ?m (?buf + of_nat k)) \<and> (\<forall>a. a \<notin> scat_place ds ` {0..<?sz} \<longrightarrow> m' a = ?m a)"
      by (rule Cons.IH [OF at _ _ \<open>ds \<noteq> []\<close> _ inj apart]) (use Cons.prems(2,3,5) n in auto)
    then obtain m' where m': "copy_to_scat elems scat n0 (Suc i) ?buf (int ?sz) ?m = ret (IBV_WC_SUCCESS, m')"
      "\<And>k. k < ?sz \<Longrightarrow> m' (scat_place ds k) = ?m (?buf + of_nat k)" "\<And>a. a \<notin> scat_place ds ` {0..<?sz} \<Longrightarrow> m' a = ?m a" by blast
    have image: "scat_place (d # ds) ` {0..<sz} = scat_place (d # ds) ` {0..<?len} \<union> scat_place ds ` {0..<?sz}"
    proof -
      have "{0..<sz} = {0..<?len} \<union> (\<lambda>k. k + ?len) ` {0..<?sz}" using False by (auto simp: image_iff)
      moreover have "scat_place ds = (\<lambda>k. scat_place (d # ds) (k + ?len))" by (rule ext) (rule place)
      ultimately show ?thesis by (simp only: image_Un image_image)
    qed
    have cl: "?copy = ?len" using False by simp
    have "m' (scat_place (d # ds) k) = m (buf + of_nat k)" if k: "k < sz" for k
    proof (cases "k < ?len")
      case True
      have "scat_place (d # ds) k \<notin> scat_place ds ` {0..<?sz}"
      proof
        assume "scat_place (d # ds) k \<in> scat_place ds ` {0..<?sz}"
        then obtain l where "l < ?sz" "scat_place (d # ds) k = scat_place (d # ds) (l + ?len)" by auto
        then have "k = l + ?len" using k by (intro inj_onD [OF Cons.prems(6)]) auto
        then show False using True by simp
      qed
      then show ?thesis using m'(3) here True cl by simp
    next
      case False
      then obtain l where l: "k = l + ?len" by (metis le_add_diff_inverse2 not_less)
      have "buf + of_nat k \<notin> scat_place (d # ds) ` {0..<?copy}"
      proof
        assume "buf + of_nat k \<in> scat_place (d # ds) ` {0..<?copy}"
        then obtain j where "j < ?copy" "scat_place (d # ds) j = buf + of_nat k" by (metis imageE atLeastLessThan_iff)
        then show False using Cons.prems(7) [of j k] k by simp
      qed
      from else_same [OF this] m'(2) [of l] k l show ?thesis by (simp add: algebra_simps)
    qed
    moreover have "m' a = m a" if "a \<notin> scat_place (d # ds) ` {0..<sz}" for a
      using that m'(3) [of a] else_same [of a] unfolding image cl by simp
    ultimately show ?thesis using step False m'(1) by auto
  qed
qed simp

text \<open>
  C37: a message that came with its completion and fits the first scatter elements of a receive is
  put there byte by byte, in the order of the elements; no other byte of memory changes.
\<close>

theorem copy_recv_placed:
  assumes "get_wqe s idx = ret w" and "4 \<le> srq_wqe_shift s" and "ds = map (srq_scat w) [0..<k]" and "0 < k"
    and "k < 2 ^ nat (srq_wqe_shift s - 4)" and "sz \<le> sum_list (map seg_len ds)" and "inj_on (scat_place ds) {0..<sz}"
    and "\<And>j l. j < sz \<Longrightarrow> l < sz \<Longrightarrow> scat_place ds j \<noteq> buf + of_nat l"
  shows "\<exists>m'. mlx5_copy_to_recv_srq s idx buf (int sz) m = ret (IBV_WC_SUCCESS, m') \<and>
    (\<forall>j < sz. m' (scat_place ds j) = m (buf + of_nat j)) \<and> (\<forall>a. a \<notin> scat_place ds ` {0..<sz} \<longrightarrow> m' a = m a)"
proof -
  let ?n = "2 ^ nat (srq_wqe_shift s - 4) :: nat"
  have "mlx5_copy_to_recv_srq s idx buf (int sz) m = copy_to_scat (?n - 1) (srq_scat w) ?n 0 buf (int sz) m"
    using assms(1) by (simp add: mlx5_copy_to_recv_srq_def Let_def)
  moreover have "\<exists>m'. copy_to_scat (?n - 1) (srq_scat w) ?n 0 buf (int sz) m = ret (IBV_WC_SUCCESS, m') \<and>
    (\<forall>j < sz. m' (scat_place ds j) = m (buf + of_nat j)) \<and> (\<forall>a. a \<notin> scat_place ds ` {0..<sz} \<longrightarrow> m' a = m a)"
    by (rule copy_to_scat_eq [OF _ _ _ _ assms(6-8)]) (use assms(3-5) in auto)
  ultimately show ?thesis by simp
qed

text \<open>A message that does not fit is followed into the next descriptor.\<close>

lemma copy_to_scat_overrun:
  assumes "i + k = elems" and "k < n" and "int (sum_list (map (\<lambda>j. seg_len (scat j)) [i..<elems])) < sz"
  shows "copy_to_scat elems scat n i buf sz m = raise OutOfBounds"
  using assms
proof (induction k arbitrary: i n buf sz m)
  case 0
  then obtain n0 where "n = Suc n0" by (cases n) auto
  then show ?case using 0 by (simp add: index_def)
next
  case (Suc k)
  then obtain n0 where n: "n = Suc n0" by (cases n) auto
  have len: "uint (htonl (ds_byte_count (scat i))) = int (seg_len (scat i))" by (simp only: seg_len_def uint_nat)
  have "[i..<elems] = i # [Suc i..<elems]" using Suc.prems(1) by (simp add: upt_conv_Cons)
  then have sum: "int (seg_len (scat i)) + int (sum_list (map (\<lambda>j. seg_len (scat j)) [Suc i..<elems])) < sz"
    using Suc.prems(3) by simp
  then have "min sz (int (seg_len (scat i))) = int (seg_len (scat i))" "\<not> sz - int (seg_len (scat i)) \<le> 0" by linarith+
  moreover have "index elems (int i) = ret i" using Suc.prems(1) by (intro index_int) simp
  ultimately have "copy_to_scat elems scat n i buf sz m = copy_to_scat elems scat n0 (Suc i)
      (buf + word_of_int (int (seg_len (scat i)))) (sz - int (seg_len (scat i)))
      (memcpy m (htonll (ds_addr (scat i))) buf (seg_len (scat i)))"
    unfolding n by (simp add: len Let_def del: index_eq_ret)
  also have "\<dots> = raise OutOfBounds" by (rule Suc.IH) (use Suc.prems n sum in auto)
  finally show ?case .
qed

text \<open>
  A message longer than all scatter elements of its descriptor is not refused: the copy goes on
  behind the descriptor, because its loop allows one element more than fit.
\<close>

lemma copy_recv_overruns:
  assumes "get_wqe s idx = ret w" and "4 \<le> srq_wqe_shift s"
    and "int (sum_list (map (\<lambda>j. seg_len (srq_scat w j)) [0..<2 ^ nat (srq_wqe_shift s - 4) - 1])) < sz"
  shows "mlx5_copy_to_recv_srq s idx buf sz m = raise OutOfBounds"
  using assms copy_to_scat_overrun [of 0 "2 ^ nat (srq_wqe_shift s - 4) - 1" "2 ^ nat (srq_wqe_shift s - 4) - 1"
      "2 ^ nat (srq_wqe_shift s - 4)" "srq_scat w" sz buf m]
  by (simp add: mlx5_copy_to_recv_srq_def Let_def)

text \<open>A queue with one receive of two elements of 2 bytes.\<close>

definition srq_of_two :: mlx5_srq where
  "srq_of_two = \<lparr>srq_wqes = (\<lambda>_. \<lparr>next_wqe_index = 0, srq_scat = (\<lambda>j. if j = 0 then \<lparr>ds_byte_count = htonl 2, ds_lkey = 0, ds_addr = htonll 0x100\<rparr>
       else if j = 1 then \<lparr>ds_byte_count = htonl 2, ds_lkey = 0, ds_addr = htonll 0x200\<rparr> else data_seg_end)\<rparr>),
     srq_wrid = (\<lambda>_. 0), srq_max = 2, srq_max_gs = 3, srq_wqe_shift = 6, srq_head = 0, srq_tail = 1, srq_counter = 0, srq_db = 0\<rparr>"

definition two_bytes :: mem where
  "two_bytes = (\<lambda>a. ucast a)"

lemma copy_recv_placed_witness:
  "\<exists>m'. mlx5_copy_to_recv_srq srq_of_two 0 0x1000 3 two_bytes = ret (IBV_WC_SUCCESS, m') \<and>
    m' 0x100 = 0 \<and> m' 0x101 = 1 \<and> m' 0x200 = 2 \<and> m' 0x201 = 1"
proof -
  let ?w = "srq_wqes srq_of_two 0" let ?ds = "map (srq_scat ?w) [0..<2]"
  have w: "get_wqe srq_of_two 0 = ret ?w" by (simp add: get_wqe_def srq_of_two_def index_def)
  have ds: "?ds = [\<lparr>ds_byte_count = htonl 2, ds_lkey = 0, ds_addr = htonll 0x100\<rparr>, \<lparr>ds_byte_count = htonl 2, ds_lkey = 0, ds_addr = htonll 0x200\<rparr>]"
    by (simp add: srq_of_two_def upt_rec)
  have place: "scat_place ?ds 0 = 0x100" "scat_place ?ds 1 = 0x101" "scat_place ?ds 2 = 0x200" unfolding ds by (simp_all add: seg_len_def)
  have three: "{0..<3} = {0, 1, 2 :: nat}" by auto
  have inj: "inj_on (scat_place ?ds) {0..<3}" unfolding three using place by (simp add: inj_on_def)
  have apart: "scat_place ?ds j \<noteq> 0x1000 + of_nat l" if "j < 3" "l < 3" for j l :: nat
  proof -
    have "j \<in> {0, 1, 2}" "l \<in> {0, 1, 2}" using that by auto
    then show ?thesis using place by auto
  qed
  have "\<exists>m'. mlx5_copy_to_recv_srq srq_of_two 0 0x1000 (int 3) two_bytes = ret (IBV_WC_SUCCESS, m') \<and>
    (\<forall>j < 3. m' (scat_place ?ds j) = two_bytes (0x1000 + of_nat j)) \<and> (\<forall>a. a \<notin> scat_place ?ds ` {0..<3} \<longrightarrow> m' a = two_bytes a)"
    by (rule copy_recv_placed [OF w _ refl _ _ _ inj apart]) (simp_all add: srq_of_two_def seg_len_def upt_rec)
  then obtain m' where m': "mlx5_copy_to_recv_srq srq_of_two 0 0x1000 (int 3) two_bytes = ret (IBV_WC_SUCCESS, m')"
    "\<And>j. j < 3 \<Longrightarrow> m' (scat_place ?ds j) = two_bytes (0x1000 + of_nat j)" "\<And>a. a \<notin> scat_place ?ds ` {0..<3} \<Longrightarrow> m' a = two_bytes a" by blast
  have "0x201 \<notin> scat_place ?ds ` {0..<3}" unfolding three using place by auto
  from m'(1) m'(2) [of 0] m'(2) [of 1] m'(2) [of 2] m'(3) [OF this] place show ?thesis by (intro exI [of _ m']) (simp add: two_bytes_def)
qed

lemma copy_recv_overruns_witness: "mlx5_copy_to_recv_srq srq_of_two 0 0x1000 100 two_bytes = raise OutOfBounds"
proof (rule copy_recv_overruns)
  show "get_wqe srq_of_two 0 = ret (srq_wqes srq_of_two 0)" by (simp add: get_wqe_def srq_of_two_def index_def)
qed (simp_all add: srq_of_two_def seg_len_def upt_rec data_seg_end_def htonl_def)

end
