(* ===== verification/Mlx5_Qp_Size.thy ===== *)
theory Mlx5_Qp_Size
  imports Mlx5_Sq_Facts Mlx5_Srq
begin

unbundle bit_operations_syntax

section \<open>The sizes of the queues of a queue pair\<close>

text \<open>
  \<^verbatim>\<open>mlx5_calc_wq_size\<close> of \<^verbatim>\<open>libmlx5-41mlnx1/src/verbs.c\<close> and what it calls: from the limits an
  application asks for and those of the device, the sizes of the descriptors and of the rings. A C
  \<^verbatim>\<open>int\<close> is an \<open>int\<close>; where a 32-bit capability enters, the truncation to an \<^verbatim>\<open>int\<close> is written out.
  A structure has the size of its bytes.
\<close>

record qp_cap =
  max_send_wr :: u32
  max_recv_wr_cap :: u32
  max_send_sge :: u32
  max_recv_sge :: u32
  max_inline_cap :: u32

text \<open>The optional attributes are there when their bit in \<^verbatim>\<open>comp_mask\<close> is set.\<close>

record qp_init_attr =
  qa_type :: qp_type
  qa_cap :: qp_cap
  qa_has_srq :: bool
  qa_max_atomic_arg :: "u32 option"
  qa_max_inl_send_klms :: "u32 option"
  qa_max_tso_header :: "u16 option"

record size_ctx =
  shut_up_mw :: bool
  ctx_max_sq_desc_sz :: int
  ctx_max_rq_desc_sz :: int
  ctx_max_send_wqebb :: int
  ctx_max_recv_wr :: int
  ctx_max_desc_sz_sq_dc :: int

text \<open>The queue pair: what it was created with, and what the functions set.\<close>

record qp_sizes =
  qs_underlay :: bool
  qs_enable_atomics :: bool
  qs_umr_en :: bool
  qs_wq_sig :: bool
  qs_max_atomic_arg :: u32
  qs_max_tso_header :: u32
  qs_max_inline_data :: u32
  qs_max_inl_send_klms :: u32
  qs_sq_wqe_cnt :: u32
  qs_sq_wqe_shift :: int
  qs_sq_max_gs :: int
  qs_sq_max_post :: u32
  qs_sq_offset :: int
  qs_rq_wqe_cnt :: u32
  qs_rq_wqe_shift :: int
  qs_rq_max_gs :: int
  qs_rq_max_post :: u32
  qs_rq_offset :: int

definition to_int :: "int \<Rightarrow> int" where
  "to_int x = sint (word_of_int x :: u32)"

definition align_bytes :: "int \<Rightarrow> int \<Rightarrow> int" where
  "align_bytes val algn = (val + algn - 1) div algn * algn"

subsection \<open>Send descriptors\<close>

text \<open>The segments before the data: their size, and the room for the arguments of an atomic.\<close>

definition sq_overhead :: "size_ctx \<Rightarrow> qp_init_attr \<Rightarrow> qp_sizes \<Rightarrow> int \<times> int" where
  "sq_overhead ctx attr qp =
    (let mw_bind_size = (if shut_up_mw ctx then 0 else 48 + 64 + max 16 64 :: int);
         umr = 16 + 48 + 64 + 16;
         atom = (case qa_max_atomic_arg attr of Some n \<Rightarrow> if 4 < n then to_int (4 * uint n) else 0 | None \<Rightarrow> 0);
         inl_atom = (if qs_enable_atomics qp then if atom < 0 then atom else max 16 atom else 0);
         xrc = 16 + 16 + 16;
         (size1, size2, inl) = (case qa_type attr of
             IBV_QPT_RC \<Rightarrow> (umr, 16 + max 16 mw_bind_size, inl_atom)
           | IBV_QPT_UC \<Rightarrow> (0, 16 + max 16 mw_bind_size, 0)
           | IBV_QPT_UD \<Rightarrow> (umr, 16 + 48 + (if qs_underlay qp then 32 + 16 else 0), 0)
           | IBV_QPT_XRC \<Rightarrow> (0, max (16 + mw_bind_size) xrc, inl_atom)
           | IBV_QPT_XRC_SEND \<Rightarrow> (0, max (16 + mw_bind_size) xrc, inl_atom)
           | IBV_QPT_XRC_RECV \<Rightarrow> (0, xrc, inl_atom)
           | IBV_EXP_QPT_DC_INI \<Rightarrow> (umr, 16 + 48 + 16, inl_atom)
           | IBV_QPT_RAW_PACKET \<Rightarrow> (0, 16 + 32, 0))
     in (if qs_umr_en qp then max size1 size2 else size2, inl))"

definition mlx5_max4 :: "int \<Rightarrow> int \<Rightarrow> int \<Rightarrow> int \<Rightarrow> int" where
  "mlx5_max4 t1 t2 t3 t4 =
    (let t1 = (if t1 < t2 then t2 else t1); t1 = (if t1 < t3 then t3 else t1) in if t1 < t4 then t4 else t1)"

text \<open>
  The most elements a descriptor can hold: a difference of \<^verbatim>\<open>int\<close>s divided by a \<^verbatim>\<open>size_t\<close>, so
  that a negative one becomes a large number before the division.
\<close>

definition max_gather :: "int \<Rightarrow> int" where
  "max_gather d = to_int (uint (word_of_int d :: u64) div 16)"

definition mlx5_calc_send_wqe :: "size_ctx \<Rightarrow> qp_init_attr \<Rightarrow> qp_sizes \<Rightarrow> int \<times> qp_sizes" where
  "mlx5_calc_send_wqe ctx attr qp =
    (case sq_overhead ctx attr qp of (overhead, inl_atom) \<Rightarrow>
     if overhead < 0 then (overhead, qp)
     else
       let cap = qa_cap attr;
           qp = (case qa_max_atomic_arg attr of Some n \<Rightarrow> qp\<lparr>qs_max_atomic_arg := n\<rparr> | None \<Rightarrow> qp);
           inl_umr = (case qa_max_inl_send_klms attr of Some n \<Rightarrow> to_int (uint (n * 16)) | None \<Rightarrow> 0);
           inl_size = (if max_inline_cap cap \<noteq> 0 then to_int (align_bytes (4 + uint (max_inline_cap cap)) 16) else 0);
           (overhead, qp) = (case qa_max_tso_header attr of
               Some n \<Rightarrow> (overhead + align_bytes (uint n) 16, qp\<lparr>qs_max_tso_header := ucast n\<rparr>) | None \<Rightarrow> (overhead, qp))
       in if (word_of_int (max_gather (ctx_max_sq_desc_sz ctx - overhead)) :: u32) < max_send_sge cap then (- EINVAL, qp)
          else
            let t1 = (if inl_atom \<noteq> 0 then to_int (overhead + 16 + inl_atom) else 0);
                t2 = to_int (overhead + uint (max_send_sge cap) * 16);
                t3 = to_int (overhead + inl_umr); t4 = to_int (overhead + inl_size);
                tot_size = mlx5_max4 t1 t2 t3 t4
            in if ctx_max_sq_desc_sz ctx < tot_size then (- EINVAL, qp) else (to_int (align_bytes tot_size 64), qp))"

definition get_send_sge :: "size_ctx \<Rightarrow> qp_init_attr \<Rightarrow> int \<Rightarrow> qp_sizes \<Rightarrow> int" where
  "get_send_sge ctx attr wqe_size qp =
    (let rest = wqe_size - fst (sq_overhead ctx attr qp);
         max_sge = (case qa_type attr of
             IBV_QPT_RC \<Rightarrow> max_gather (min wqe_size 512 - 16 - 16)
           | IBV_EXP_QPT_DC_INI \<Rightarrow> max_gather (min wqe_size 512 - 16 - 48 - 16)
           | IBV_QPT_XRC \<Rightarrow> max_gather (min wqe_size 512 - 16 - 16 - 16)
           | _ \<Rightarrow> max_gather rest)
     in to_int (min (uint (word_of_int max_sge :: u64)) (uint (word_of_int rest :: u64) div 16)))"

text \<open>The result is the size of the ring in bytes or an error, the queue pair, and the capabilities granted.\<close>

definition mlx5_calc_sq_size :: "size_ctx \<Rightarrow> qp_init_attr \<Rightarrow> qp_sizes \<Rightarrow> (int \<times> qp_sizes \<times> qp_init_attr) outcome" where
  "mlx5_calc_sq_size ctx attr qp =
    (if max_send_wr (qa_cap attr) = 0 then ret (0, qp, attr)
     else case mlx5_calc_send_wqe ctx attr qp of (wqe_size, qp) \<Rightarrow>
       if wqe_size < 0 then ret (wqe_size, qp, attr)
       else if qa_type attr = IBV_EXP_QPT_DC_INI \<and> ctx_max_desc_sz_sq_dc ctx < wqe_size then ret (- EINVAL, qp, attr)
       else if ctx_max_sq_desc_sz ctx < wqe_size then ret (- EINVAL, qp, attr)
       else
         let qp = qp\<lparr>qs_max_inline_data := word_of_int (wqe_size - fst (sq_overhead ctx attr qp) - 4)\<rparr>;
             attr = attr\<lparr>qa_cap := (qa_cap attr)\<lparr>max_inline_cap := qs_max_inline_data qp\<rparr>\<rparr>
         in if (word_of_int (0x7fffffff sdiv ctx_max_sq_desc_sz ctx) :: u32) < max_send_wr (qa_cap attr) then ret (- ENOMEM, qp, attr)
            else
              bindC (mlx5_round_up_power_of_two (uint (max_send_wr (qa_cap attr) * word_of_int wqe_size))) (\<lambda>wq_size.
              let qp = qp\<lparr>qs_sq_wqe_cnt := word_of_int (wq_size sdiv 64)\<rparr>
              in if word_of_int (ctx_max_send_wqebb ctx) < qs_sq_wqe_cnt qp then ret (- ENOMEM, qp, attr)
                 else
                   bindC (mlx5_ilog2 64) (\<lambda>shift.
                   let qp = qp\<lparr>qs_sq_wqe_shift := shift, qs_sq_max_gs := get_send_sge ctx attr wqe_size qp\<rparr>
                   in if (word_of_int (qs_sq_max_gs qp) :: u32) < max_send_sge (qa_cap attr) then ret (- ENOMEM, qp, attr)
                      else
                        let attr = attr\<lparr>qa_cap := (qa_cap attr)\<lparr>max_send_sge := word_of_int (qs_sq_max_gs qp)\<rparr>\<rparr>;
                            klms = (if qa_type attr = IBV_QPT_RC \<or> qa_type attr = IBV_EXP_QPT_DC_INI
                              then (case qa_max_inl_send_klms attr of Some n \<Rightarrow> n | None \<Rightarrow> 0) else 0);
                            attr = (if qs_umr_en qp then attr\<lparr>qa_max_inl_send_klms := map_option (\<lambda>_. klms) (qa_max_inl_send_klms attr)\<rparr> else attr);
                            qp = (if qs_umr_en qp then qp\<lparr>qs_max_inl_send_klms := klms\<rparr> else qp);
                            qp = qp\<lparr>qs_sq_max_post := word_of_int (wq_size sdiv wqe_size)\<rparr>
                        in ret (wq_size, qp, attr))))"

subsection \<open>Receive descriptors\<close>

definition qpt_has_rq :: "qp_type \<Rightarrow> bool" where
  "qpt_has_rq qpt \<longleftrightarrow> qpt \<in> {IBV_QPT_RC, IBV_QPT_UC, IBV_QPT_UD, IBV_QPT_RAW_PACKET}"

definition mlx5_calc_rcv_wqe :: "size_ctx \<Rightarrow> qp_init_attr \<Rightarrow> qp_sizes \<Rightarrow> int outcome" where
  "mlx5_calc_rcv_wqe ctx attr qp =
    (if qa_has_srq attr then ret 0
     else
       let num_scatter = to_int (uint (max (max_recv_sge (qa_cap attr)) 1));
           sz = to_int (16 * num_scatter); sz = (if qs_wq_sig qp then to_int (sz + 16) else sz)
       in if sz < 0 \<or> ctx_max_rq_desc_sz ctx < sz then ret (- EINVAL) else mlx5_round_up_power_of_two sz)"

definition mlx5_calc_rq_size :: "size_ctx \<Rightarrow> qp_init_attr \<Rightarrow> qp_sizes \<Rightarrow> (int \<times> qp_sizes) outcome" where
  "mlx5_calc_rq_size ctx attr qp =
    (if max_recv_wr_cap (qa_cap attr) = 0 \<or> \<not> qpt_has_rq (qa_type attr) then ret (0, qp)
     else if word_of_int (ctx_max_recv_wr ctx) < max_recv_wr_cap (qa_cap attr) then ret (- EINVAL, qp)
     else
       bindC (mlx5_calc_rcv_wqe ctx attr qp) (\<lambda>wqe_size.
       if wqe_size < 0 \<or> ctx_max_rq_desc_sz ctx < wqe_size then ret (- EINVAL, qp)
       else
         bindC (mlx5_round_up_power_of_two (uint (max_recv_wr_cap (qa_cap attr)))) (\<lambda>n.
         let wq_size = to_int (n * wqe_size)
         in if wqe_size = 0 then ret (wq_size, qp\<lparr>qs_rq_wqe_cnt := 0, qs_rq_wqe_shift := 0, qs_rq_max_post := 0, qs_rq_max_gs := 0\<rparr>)
            else
              let wq_size = max wq_size 64
              in bindC (mlx5_ilog2 wqe_size) (\<lambda>shift.
                 bindC (mlx5_ilog2 (wq_size sdiv wqe_size)) (\<lambda>log_cnt.
                 let scat_spc = wqe_size - (if qs_wq_sig qp then 16 else 0)
                 in ret (wq_size, qp\<lparr>qs_rq_wqe_cnt := word_of_int (wq_size sdiv wqe_size), qs_rq_wqe_shift := shift,
                      qs_rq_max_post := push_bit (nat log_cnt) 1, qs_rq_max_gs := scat_spc sdiv 16\<rparr>))))))"

definition mlx5_calc_wq_size :: "size_ctx \<Rightarrow> qp_init_attr \<Rightarrow> qp_sizes \<Rightarrow> (int \<times> qp_sizes \<times> qp_init_attr) outcome" where
  "mlx5_calc_wq_size ctx attr qp =
    bindC (mlx5_calc_sq_size ctx attr qp) (\<lambda>(sq_size, qp, attr).
    if sq_size < 0 then ret (sq_size, qp, attr)
    else
      bindC (mlx5_calc_rq_size ctx attr qp) (\<lambda>(rq_size, qp).
      if rq_size < 0 then ret (rq_size, qp, attr)
      else ret (sq_size + rq_size, qp\<lparr>qs_sq_offset := rq_size, qs_rq_offset := 0\<rparr>, attr)))"

subsection \<open>The send queue of a new queue pair\<close>

text \<open>
  What \<^verbatim>\<open>mlx5_exp_create_qp\<close> makes of the sizes: the buffer is cleared; what the arrays of identifiers
  and heads hold comes from \<^verbatim>\<open>malloc\<close>.
\<close>

definition mlx5_create_sq :: "(nat \<Rightarrow> u64) \<Rightarrow> (nat \<Rightarrow> u32) \<Rightarrow> mlx5_bf \<Rightarrow> u16 \<Rightarrow> bool \<Rightarrow> u32 \<Rightarrow> link_layer \<Rightarrow> qp_sizes \<Rightarrow> mlx5_sq" where
  "mlx5_create_sq ids heads bf flags sig_all qpn ll qp =
    (let sq = \<lparr>sq_wrid = ids, sq_wqe_cnt = qs_sq_wqe_cnt qp, sq_head = 0, sq_tail = 0, sq_max_post = qs_sq_max_post qp,
           sq_max_gs = qs_sq_max_gs qp, sq_wqe_head = heads, sq_post_one = Post_not_ready, sq_bytes = (\<lambda>_. 0),
           sqend = unat (push_bit (nat (qs_sq_wqe_shift qp)) (qs_sq_wqe_cnt qp)), snd_db = 0, sq_bf = bf, scur_post = 0, last_post = 0,
           create_flags = flags, fm_cache = 0, max_inline_data = qs_max_inline_data qp, ctrl_qp_num = 0, fm_ce_se_tbl = replicate 8 0,
           fm_ce_se_acc = replicate 32 0, ctrl_wq_sig = (if qs_wq_sig qp then 1 else 0),
           sq_signal_bits = (if sig_all then MLX5_WQE_CTRL_CQ_UPDATE else 0), sq_link_layer = ll\<rparr>
     in mlx5_update_post_send_one IBV_QPS_RESET (mlx5_build_ctrl_seg_data qpn (mlx5_init_sq_indices sq)))"

text \<open>The receive queue of the new pair; \<^verbatim>\<open>max_post\<close> is set once more, to the number of descriptors.\<close>

definition mlx5_create_rq :: "(nat \<Rightarrow> u64) \<Rightarrow> qp_sizes \<Rightarrow> mlx5_wq" where
  "mlx5_create_rq ids qp = \<lparr>wrid = ids, wqe_cnt = qs_rq_wqe_cnt qp, wq_head = 0, wq_tail = 0, max_post = qs_rq_wqe_cnt qp,
     max_gs = qs_rq_max_gs qp, wqes = (\<lambda>_ _. \<lparr>ds_byte_count = 0, ds_lkey = 0, ds_addr = 0\<rparr>)\<rparr>"

lemma to_int_eq: "- 2147483648 \<le> x \<Longrightarrow> x < 2147483648 \<Longrightarrow> to_int x = x"
  by (simp add: to_int_def sint_sbintrunc' signed_take_bit_int_eq_self)

lemma uint_of_int_u32: "0 \<le> x \<Longrightarrow> x < 4294967296 \<Longrightarrow> uint (word_of_int x :: u32) = x"
  by (simp add: uint_word_of_int)

lemma align_le:
  assumes "0 < a"
  shows "x \<le> align_bytes x a" "align_bytes x a < x + a" "a dvd align_bytes x a"
proof -
  have "align_bytes x a = x + a - 1 - (x + a - 1) mod a" by (simp add: align_bytes_def minus_mod_eq_div_mult)
  then show "x \<le> align_bytes x a" "align_bytes x a < x + a"
    using pos_mod_bound [OF assms, of "x + a - 1"] pos_mod_sign [OF assms, of "x + a - 1"] by simp_all
  show "a dvd align_bytes x a" by (simp add: align_bytes_def)
qed

lemma align_mono:
  assumes "a dvd M" and "0 < a" and "x \<le> M"
  shows "align_bytes x a \<le> M"
proof -
  from assms(1) obtain k where k: "M = a * k" by (rule dvdE)
  from align_le(3) [OF assms(2), of x] obtain j where j: "align_bytes x a = a * j" by (rule dvdE)
  have "a * j < a * (k + 1)" using align_le(2) [OF assms(2), of x] assms(3) by (simp add: j k algebra_simps)
  then have "j < k + 1" using assms(2) by (simp only: mult_less_cancel_left_pos)
  then have "a * j \<le> a * k" using assms(2) by (intro mult_left_mono) simp_all
  then show ?thesis by (simp add: j k)
qed

lemma max4_ge: "t1 \<le> mlx5_max4 t1 t2 t3 t4" "t2 \<le> mlx5_max4 t1 t2 t3 t4" "t3 \<le> mlx5_max4 t1 t2 t3 t4" "t4 \<le> mlx5_max4 t1 t2 t3 t4"
  by (simp_all add: mlx5_max4_def Let_def)

lemma max4_le: "t1 \<le> x \<Longrightarrow> t2 \<le> x \<Longrightarrow> t3 \<le> x \<Longrightarrow> t4 \<le> x \<Longrightarrow> mlx5_max4 t1 t2 t3 t4 \<le> x"
  by (simp add: mlx5_max4_def Let_def)

text \<open>The limits of a device considered: descriptors of at most 1024 bytes and of no less than the segments before the data; then the
  requests, the descriptors of which stay below 1024 bytes.\<close>

definition ud_limits :: "size_ctx \<Rightarrow> bool" where
  "ud_limits ctx \<longleftrightarrow> 144 \<le> ctx_max_sq_desc_sz ctx \<and> ctx_max_sq_desc_sz ctx \<le> 1024 \<and>
     0 \<le> ctx_max_send_wqebb ctx \<and> ctx_max_send_wqebb ctx \<le> 65536"

definition ud_attr :: "qp_init_attr \<Rightarrow> qp_sizes \<Rightarrow> bool" where
  "ud_attr attr qp \<longleftrightarrow> qa_type attr = IBV_QPT_UD \<and> qa_max_tso_header attr = None \<and>
     qa_max_inl_send_klms attr = None \<and> \<not> qs_underlay qp \<and> \<not> qs_wq_sig qp"

definition sane_request :: "qp_cap \<Rightarrow> bool" where
  "sane_request req \<longleftrightarrow> max_send_wr req \<noteq> 0 \<and> (max_send_sge req \<noteq> 0 \<or> max_inline_cap req \<noteq> 0) \<and>
     max_send_sge req \<le> 48 \<and> max_inline_cap req \<le> 768"

lemma ud_overhead:
  assumes "ud_attr attr qp"
  shows "sq_overhead ctx attr qp = (if qs_umr_en qp then 144 else 64, 0)"
  using assms by (auto simp: sq_overhead_def ud_attr_def Let_def)

lemma calc_send_wqe_ud:
  assumes "ud_limits ctx" and "ud_attr attr qp" and calc: "mlx5_calc_send_wqe ctx attr qp = (w, qp')" and "0 \<le> w"
    and req: "sane_request (qa_cap attr)"
  defines "ov \<equiv> if qs_umr_en qp then 144 else 64 :: int"
  shows "64 dvd w" "ov + 16 * uint (max_send_sge (qa_cap attr)) \<le> w" "w \<le> 960"
    and "max_inline_cap (qa_cap attr) \<noteq> 0 \<Longrightarrow>
      ov + 4 + uint (max_inline_cap (qa_cap attr)) \<le> w"
    and "qs_umr_en qp' = qs_umr_en qp" "ud_attr attr qp'"
proof -
  let ?M = "ctx_max_sq_desc_sz ctx" and ?sge = "uint (max_send_sge (qa_cap attr))" and ?inl = "uint (max_inline_cap (qa_cap attr))"
  define inl where "inl = (if max_inline_cap (qa_cap attr) \<noteq> 0 then to_int (align_bytes (4 + ?inl) 16) else 0)"
  define tot where "tot = mlx5_max4 0 (to_int (ov + ?sge * 16)) (to_int ov) (to_int (ov + inl))"
  define qp1 where "qp1 = (case qa_max_atomic_arg attr of Some n \<Rightarrow> qp\<lparr>qs_max_atomic_arg := n\<rparr> | None \<Rightarrow> qp)"
  have M: "144 \<le> ?M" "?M \<le> 1024" using assms(1) by (simp_all add: ud_limits_def)
  have ov: "64 \<le> ov" "ov \<le> 144" by (simp_all add: ov_def)
  have tso: "qa_max_tso_header attr = None" "qa_max_inl_send_klms attr = None" using assms(2) by (simp_all add: ud_attr_def)
  have res: "mlx5_calc_send_wqe ctx attr qp =
      (if (word_of_int (max_gather (?M - ov)) :: u32) < max_send_sge (qa_cap attr) then (- EINVAL, qp1)
       else if ?M < tot then (- EINVAL, qp1) else (to_int (align_bytes tot 64), qp1))"
    using ov by (simp add: mlx5_calc_send_wqe_def ud_overhead [OF assms(2)] tso Let_def inl_def tot_def qp1_def
        ov_def [symmetric] cong: if_cong)
  have neg: "- EINVAL < 0" by (simp add: EINVAL_def)
  from calc res assms(4) neg have tot: "tot \<le> ?M" and w: "w = to_int (align_bytes tot 64)" "qp' = qp1"
    by (auto split: if_splits)
  have sge: "?sge \<le> 48" "0 \<le> ?sge" and inl_le: "?inl \<le> 768" "0 \<le> ?inl" using req by (simp_all add: sane_request_def word_le_def)
  have t2: "to_int (ov + ?sge * 16) = ov + ?sge * 16" using ov sge by (intro to_int_eq) linarith+
  then have tot2: "ov + ?sge * 16 \<le> tot" unfolding tot_def by (simp add: max4_ge)
  then have tot0: "0 < tot" using ov sge(2) by linarith
  have inl_al: "4 + ?inl \<le> align_bytes (4 + ?inl) 16" "align_bytes (4 + ?inl) 16 < 4 + ?inl + 16" using align_le [of 16 "4 + ?inl"] by simp_all
  have al16: "align_bytes (4 + ?inl) 16 \<le> 784" using align_mono [of 16 784 "4 + ?inl"] inl_le by simp
  have "to_int (align_bytes (4 + ?inl) 16) = align_bytes (4 + ?inl) 16" using inl_al(1) al16 inl_le by (intro to_int_eq) linarith+
  then have inl: "inl = (if max_inline_cap (qa_cap attr) \<noteq> 0 then align_bytes (4 + ?inl) 16 else 0)" by (simp add: inl_def)
  moreover have "0 \<le> align_bytes (4 + ?inl) 16" using inl_al(1) inl_le by linarith
  ultimately have inl_b: "0 \<le> inl" "inl \<le> 784" using al16 by simp_all
  then have t4: "to_int (ov + inl) = ov + inl" "to_int ov = ov" using ov by (simp_all add: to_int_eq)
  have tot4: "ov + inl \<le> tot" unfolding tot_def t4 by (rule max4_ge)
  have "tot \<le> 960" unfolding tot_def t2 t4 using sge ov inl_b by (intro max4_le) linarith+
  then have al: "tot \<le> align_bytes tot 64" "align_bytes tot 64 \<le> 960" using align_le [of 64 tot] align_mono [of 64 960 tot] by simp_all
  then have w_eq: "w = align_bytes tot 64" using w(1) tot0 by (simp add: to_int_eq)
  show "64 dvd w" unfolding w_eq by (rule align_le) simp
  show "ov + 16 * ?sge \<le> w" "w \<le> 960" using al tot2 unfolding w_eq by simp_all
  show "ov + 4 + ?inl \<le> w" if "max_inline_cap (qa_cap attr) \<noteq> 0" using that inl inl_al(1) tot4 al(1) w_eq by simp
  show "qs_umr_en qp' = qs_umr_en qp" "ud_attr attr qp'"
    using assms(2) by (auto simp: w qp1_def ud_attr_def split: option.splits)
qed


lemma send_sge_ud:
  assumes "ud_attr attr qp" and "fst (sq_overhead ctx attr qp) \<le> w" and "w \<le> 960"
  shows "get_send_sge ctx attr w qp = (w - fst (sq_overhead ctx attr qp)) div 16"
proof -
  define d where "d = w - fst (sq_overhead ctx attr qp)"
  have "64 \<le> fst (sq_overhead ctx attr qp)" by (simp add: ud_overhead [OF assms(1)])
  then have d: "0 \<le> d" "d \<le> 960" using assms by (simp_all add: d_def)
  then have u: "uint (word_of_int d :: u64) = d" by (simp add: uint_word_of_int)
  have q: "0 \<le> d div 16" "d div 16 < 2147483648" using d by simp_all
  then have "uint (word_of_int (d div 16) :: u64) = d div 16" by (simp add: uint_word_of_int)
  moreover have "qa_type attr = IBV_QPT_UD" using assms(1) by (simp add: ud_attr_def)
  ultimately show ?thesis using q
    by (simp add: get_send_sge_def Let_def max_gather_def d_def [symmetric] u to_int_eq)
qed

lemma round_up_ret:
  assumes "sz \<le> 2 ^ 32"
  obtains k where "mlx5_round_up_power_of_two sz = ret (if k < 31 then 2 ^ k else - ENOMEM)" "sz \<le> 2 ^ k"
proof -
  from round_up_loop [of sz 0 32] assms obtain k where k: "loop (round_up_step sz) 1 = ret (2 ^ k)" "sz \<le> 2 ^ k" by auto
  have "2 ^ 31 - 1 < (2 :: int) ^ k \<longleftrightarrow> \<not> k < 31"
  proof (cases "k < 31")
    case True
    then have "(2 :: int) ^ k \<le> 2 ^ 30" by (intro power_increasing) simp_all
    then show ?thesis using True by simp
  next
    case False
    then have "(2 :: int) ^ 31 \<le> 2 ^ k" by (intro power_increasing) simp_all
    then show ?thesis using False by simp
  qed
  then show thesis using k by (intro that [of k]) (simp_all add: mlx5_round_up_power_of_two_def)
qed

lemma ilog2_64: "mlx5_ilog2 64 = ret 6"
  by (simp add: mlx5_ilog2_def loop.simps ilog2_step_def)

text \<open>What the sizes of a send queue promise: the geometry that posting relies on, and no less than was asked for.\<close>

definition sq_granted :: "nat \<Rightarrow> nat \<Rightarrow> nat \<Rightarrow> qp_cap \<Rightarrow> qp_sizes \<Rightarrow> bool" where
  "sq_granted b cap bbs req qp \<longleftrightarrow> b \<le> 16 \<and> qs_sq_wqe_cnt qp = 2 ^ b \<and> qs_sq_wqe_shift qp = 6 \<and> qs_sq_max_post qp = of_nat cap \<and>
     cap * bbs \<le> 2 ^ b \<and> bbs \<le> 2 ^ b \<and> bbs \<le> 15 \<and> 64 + 16 * qs_sq_max_gs qp \<le> int (64 * bbs) \<and>
     64 + (unat (qs_max_inline_data qp) + 19) div 16 * 16 \<le> 64 * bbs \<and> unat (max_send_wr req) \<le> cap \<and>
     uint (max_send_sge req) \<le> qs_sq_max_gs qp \<and> max_inline_cap req \<le> qs_max_inline_data qp \<and> \<not> qs_wq_sig qp"


lemma bytes_fit:
  assumes "0 \<le> w" "w \<le> M" "144 \<le> M" and few: "\<not> word_of_int (0x7fffffff sdiv M) < wr" and "M \<le> 1024"
  shows "uint (wr * word_of_int w :: u32) = uint wr * w" "uint wr * w \<le> 0x7fffffff"
proof -
  have m: "0x7fffffff sdiv M = 0x7fffffff div M" using assms by (simp add: signed_divide_int_def)
  have "0x7fffffff div M \<le> 0x7fffffff div 1" using assms by (intro zdiv_mono2) simp_all
  moreover have nn: "0 \<le> 0x7fffffff div M" using assms by (simp add: pos_imp_zdiv_nonneg_iff)
  ultimately have wr: "uint wr \<le> 0x7fffffff div M" using few unfolding m by (simp add: word_less_def uint_of_int_u32)
  have "uint wr * w \<le> 0x7fffffff div M * M" using wr assms nn by (intro mult_mono) simp_all
  also have "\<dots> \<le> 0x7fffffff" using assms div_mult_mod_eq [of "0x7fffffff" M] pos_mod_sign [of M "0x7fffffff"] by linarith
  finally show prod: "uint wr * w \<le> 0x7fffffff" .
  have "uint (wr * word_of_int w) = (uint wr * w) mod 2 ^ 32" using assms by (simp add: uint_word_ariths uint_of_int_u32)
  also have "\<dots> = uint wr * w" using prod assms by (intro mod_pos_pos_trivial) simp_all
  finally show "uint (wr * word_of_int w :: u32) = uint wr * w" .
qed

lemma whole_slots:
  assumes "(64 :: int) \<le> 2 ^ k"
  obtains b where "k = 6 + b" "(2 :: int) ^ k = 64 * 2 ^ b" "2 ^ k sdiv 64 = (2 :: int) ^ b"
proof -
  have "6 \<le> k"
  proof (rule ccontr)
    assume "\<not> 6 \<le> k"
    then have "(2 :: int) ^ k \<le> 2 ^ 5" by (intro power_increasing) simp_all
    then show False using assms by simp
  qed
  then obtain b where b: "k = 6 + b" using le_Suc_ex by blast
  then have "(2 :: int) ^ k = 64 * 2 ^ b" by (simp add: power_add)
  then show thesis using b by (intro that [of b]) (simp_all add: signed_divide_int_def)
qed

text \<open>The ring of \<open>2 ^ b\<close> slots holds what was asked for, \<open>bbs\<close> slots for each descriptor.\<close>

lemma ring_holds:
  assumes "0 < w" and "w = 64 * int bbs" and "wr * w \<le> 64 * 2 ^ b" and "1 \<le> wr"
  shows "nat (64 * 2 ^ b div w) * bbs \<le> 2 ^ b" "bbs \<le> 2 ^ b" "nat wr \<le> nat (64 * 2 ^ b div w)"
proof -
  define q where "q = 64 * 2 ^ b div w"
  have q0: "0 \<le> q" using assms by (simp add: q_def pos_imp_zdiv_nonneg_iff)
  have "q * w \<le> 64 * 2 ^ b" unfolding q_def
    using assms(1) div_mult_mod_eq [of "64 * 2 ^ b" w] pos_mod_sign [of w "64 * 2 ^ b"] by linarith
  then have "int (nat q * bbs) \<le> int (2 ^ b)" using q0 assms(2) by simp
  then show "nat (64 * 2 ^ b div w) * bbs \<le> 2 ^ b" by (simp only: of_nat_le_iff q_def)
  have "1 * w \<le> wr * w" using assms by (intro mult_right_mono) simp_all
  then have "w \<le> 64 * 2 ^ b" using assms(3) by linarith
  then have "int bbs \<le> int (2 ^ b)" using assms(2) by simp
  then show "bbs \<le> 2 ^ b" by (simp only: of_nat_le_iff)
  have "wr * w div w \<le> q" unfolding q_def using assms by (intro zdiv_mono1) simp_all
  then have "wr \<le> q" using assms(1) by simp
  then show "nat wr \<le> nat (64 * 2 ^ b div w)" unfolding q_def by (rule nat_mono)
qed

text \<open>The descriptors of \<open>w\<close> bytes have room for the elements and the inline data granted.\<close>

lemma descriptor_holds:
  assumes "w = 64 * int bbs" and "16 dvd ov" "64 \<le> ov" "ov + 4 \<le> w" and inl: "uint (inl :: u32) = w - ov - 4"
  shows "64 + 16 * ((w - ov) div 16) \<le> int (64 * bbs)" "64 + (unat inl + 19) div 16 * 16 \<le> 64 * bbs"
proof -
  have "16 dvd w" unfolding assms(1) by simp
  then have "16 dvd w - ov" using assms(2) by (rule dvd_diff)
  then obtain gs where gs: "w - ov = 16 * gs" by (rule dvdE)
  then have pos: "0 \<le> gs" using assms(4) by simp
  show "64 + 16 * ((w - ov) div 16) \<le> int (64 * bbs)" using assms(1,3) gs by simp
  have "int (unat inl + 19) = int (15 + 16 * nat gs)" using inl gs pos by simp
  then have eq: "unat inl + 19 = 15 + 16 * nat gs" by (simp only: of_nat_eq_iff)
  have "(unat inl + 19) div 16 = nat gs" unfolding eq by simp
  moreover have "int (64 + 16 * nat gs) \<le> int (64 * bbs)" using gs pos assms(1,3) by simp
  then have "64 + 16 * nat gs \<le> 64 * bbs" by (simp only: of_nat_le_iff)
  ultimately show "64 + (unat inl + 19) div 16 * 16 \<le> 64 * bbs" by simp
qed

lemma sizes_granted:
  assumes w: "64 dvd w" "0 < w" "w \<le> 960" and ov: "16 dvd ov" "64 \<le> ov" "ov + 4 \<le> w"
    and req: "ov + 16 * uint (max_send_sge req) \<le> w" "ov + 4 + uint (max_inline_cap req) \<le> w"
      "uint (max_send_wr req) * w \<le> 64 * 2 ^ b" "max_send_wr req \<noteq> 0" and b: "b \<le> 16"
    and q: "qs_sq_wqe_cnt q = 2 ^ b" "qs_sq_wqe_shift q = 6" "qs_sq_max_post q = word_of_int (64 * 2 ^ b sdiv w)"
      "qs_sq_max_gs q = (w - ov) div 16" "uint (qs_max_inline_data q) = w - ov - 4" "\<not> qs_wq_sig q"
  shows "\<exists>cap bbs. sq_granted b cap bbs req q"
proof (intro exI)
  define cap where "cap = nat (64 * 2 ^ b div w)"
  define bbs where "bbs = nat (w div 64)"
  have bw: "w = 64 * int bbs" using w(1,2) by (simp add: bbs_def pos_imp_zdiv_nonneg_iff)
  have "0 < uint (max_send_wr req)" using req(4) by (simp add: uint_0_iff less_le)
  then have "1 \<le> uint (max_send_wr req)" by linarith
  note ring = ring_holds [OF w(2) bw req(3) this, folded cap_def]
  have "64 * 2 ^ b sdiv w = int cap" using w(2) by (simp add: cap_def signed_divide_int_def pos_imp_zdiv_nonneg_iff)
  then have post: "qs_sq_max_post q = of_nat cap" unfolding q(3) by simp
  have "uint (max_send_sge req) * 16 div 16 \<le> (w - ov) div 16" using req(1) by (intro zdiv_mono1) simp_all
  then have sge: "uint (max_send_sge req) \<le> qs_sq_max_gs q" using q(4) by simp
  show "sq_granted b cap bbs req q"
    unfolding sq_granted_def using b q(1,2,5,6) post ring sge req(2) w(3) bw descriptor_holds [OF bw ov q(5)]
    by (simp add: q(4) word_le_def)
qed

text \<open>What a size of a descriptor that is no error says of it.\<close>

lemma ud_descriptor:
  assumes lim: "ud_limits ctx" and attr: "ud_attr attr qp" and calc: "mlx5_calc_send_wqe ctx attr qp = (w, qp1)"
    and w: "0 \<le> w" and req: "sane_request (qa_cap attr)"
  defines "ov \<equiv> fst (sq_overhead ctx attr qp1)"
  shows "64 dvd w" "16 dvd ov" "64 \<le> ov" "ov + 4 \<le> w" "ov + 16 * uint (max_send_sge (qa_cap attr)) \<le> w"
    "ov + 4 + uint (max_inline_cap (qa_cap attr)) \<le> w"
    "get_send_sge ctx (attr\<lparr>qa_cap := c\<rparr>) w (qp1\<lparr>qs_max_inline_data := x, qs_sq_wqe_cnt := y\<rparr>) = (w - ov) div 16"
    "\<not> qs_wq_sig qp1" "w \<le> 960"
proof -
  note facts = calc_send_wqe_ud [OF lim attr calc w req]
  note attr1 = facts(6)
  have ov: "ov = (if qs_umr_en qp then 144 else 64)" by (simp add: ov_def ud_overhead [OF attr1] facts(5))
  then show dvd: "64 dvd w" "16 dvd ov" "64 \<le> ov" using facts(1) by simp_all
  show ge: "ov + 16 * uint (max_send_sge (qa_cap attr)) \<le> w" using facts(2) by (simp add: ov)
  show low: "ov + 4 + uint (max_inline_cap (qa_cap attr)) \<le> w"
  proof (cases "max_inline_cap (qa_cap attr) = 0")
    case True
    then have "0 < uint (max_send_sge (qa_cap attr))"
      using req by (simp add: sane_request_def word_neq_0_conv [symmetric] uint_0_iff less_le)
    then show ?thesis using ge True by simp
  next
    case False
    then show ?thesis using facts(4) by (simp add: ov)
  qed
  then show le: "ov + 4 \<le> w" using uint_ge_0 [of "max_inline_cap (qa_cap attr)"] by linarith
  show "\<not> qs_wq_sig qp1" "w \<le> 960" using attr1 facts(3) by (simp_all add: ud_attr_def)
  have "ud_attr (attr\<lparr>qa_cap := c\<rparr>) (qp1\<lparr>qs_max_inline_data := x, qs_sq_wqe_cnt := y\<rparr>)" using attr1 by (simp add: ud_attr_def)
  from send_sge_ud [OF this, of ctx w] le facts(3,5)
  show "get_send_sge ctx (attr\<lparr>qa_cap := c\<rparr>) w (qp1\<lparr>qs_max_inline_data := x, qs_sq_wqe_cnt := y\<rparr>) = (w - ov) div 16"
    using attr1 by (simp add: ov ud_overhead ud_attr_def)
qed

lemma wqebb_bound:
  assumes "ud_limits ctx" and "b \<le> 24" and "\<not> word_of_int (ctx_max_send_wqebb ctx) < (2 ^ b :: u32)"
  shows "b \<le> 16"
proof -
  have "(2 :: u32) ^ b \<le> word_of_int (ctx_max_send_wqebb ctx)" using assms(3) by simp
  then have "uint ((2 :: u32) ^ b) \<le> 2 ^ 16" using assms(1) by (simp add: word_le_def uint_of_int_u32 ud_limits_def)
  moreover have "(2 :: int) ^ b \<le> 2 ^ 24" using assms(2) by (intro power_increasing) simp_all
  then have "uint (word_of_int (2 ^ b) :: u32) = 2 ^ b" by (intro uint_of_int_u32) simp_all
  ultimately have "(2 :: int) ^ b \<le> 2 ^ 16" by simp
  then show ?thesis by (simp only: power_increasing_iff)
qed

text \<open>The function leaves what the receive queue is sized from.\<close>

definition recv_same :: "qp_init_attr \<Rightarrow> qp_init_attr \<Rightarrow> bool" where
  "recv_same attr attr' \<longleftrightarrow> qa_type attr' = qa_type attr \<and> qa_has_srq attr' = qa_has_srq attr \<and>
     max_recv_wr_cap (qa_cap attr') = max_recv_wr_cap (qa_cap attr) \<and> max_recv_sge (qa_cap attr') = max_recv_sge (qa_cap attr)"

lemma calc_sq_size_ud:
  assumes lim: "ud_limits ctx" and attr: "ud_attr attr qp" and req: "sane_request (qa_cap attr)"
  shows "\<exists>n qp' attr'. mlx5_calc_sq_size ctx attr qp = ret (n, qp', attr') \<and> recv_same attr attr' \<and>
    (0 \<le> n \<longrightarrow> (\<exists>b cap bbs. n = 64 * 2 ^ b \<and> sq_granted b cap bbs (qa_cap attr) qp'))"
proof -
  let ?M = "ctx_max_sq_desc_sz ctx" and ?wr = "max_send_wr (qa_cap attr)"
  obtain w qp1 where calc: "mlx5_calc_send_wqe ctx attr qp = (w, qp1)" by fastforce
  have ud: "qa_type attr = IBV_QPT_UD" using attr by (simp add: ud_attr_def)
  note sq = mlx5_calc_sq_size_def calc recv_same_def
  have wr0: "?wr \<noteq> 0" using req by (simp add: sane_request_def)
  have M: "144 \<le> ?M" "?M \<le> 1024" using lim by (simp_all add: ud_limits_def)
  have neg: "- EINVAL < 0" "- ENOMEM < 0" by (simp_all add: EINVAL_def ENOMEM_def)
  consider (bad) "w < 0 \<or> ?M < w" | (many) "0 \<le> w" "w \<le> ?M" "word_of_int (0x7fffffff sdiv ?M) < ?wr"
    | (ok) "0 \<le> w" "w \<le> ?M" "\<not> word_of_int (0x7fffffff sdiv ?M) < ?wr" by linarith
  then show ?thesis
  proof cases
    case bad
    then show ?thesis using wr0 neg ud by (auto simp: sq)
  next
    case many
    then show ?thesis using wr0 neg ud by (simp add: sq Let_def)
  next
    case ok
    note facts = ud_descriptor [OF lim attr calc ok(1) req]
    define ov where "ov = fst (sq_overhead ctx attr qp1)"
    note facts = facts [folded ov_def]
    have w64: "64 \<le> w" using facts(3,4) by linarith
    note size = bytes_fit [OF ok(1,2) M(1) ok(3) M(2)]
    from size(2) have "uint ?wr * w \<le> 2 ^ 32" by simp
    then obtain k where k: "mlx5_round_up_power_of_two (uint ?wr * w) = ret (if k < 31 then 2 ^ k else - ENOMEM)"
      "uint ?wr * w \<le> 2 ^ k" by (rule round_up_ret)
    have sge: "get_send_sge ctx (attr\<lparr>qa_cap := c\<rparr>) w (qp1\<lparr>qs_max_inline_data := x, qs_sq_wqe_cnt := y\<rparr>) = (w - ov) div 16" for c x y
      by (rule facts(7))
    show ?thesis
    proof (cases "k < 31")
      case False
      have "(- ENOMEM) sdiv 64 = 0" by (simp add: ENOMEM_def signed_divide_int_def)
      then show ?thesis using False k(1) ok wr0 neg ud by (simp add: sq size(1) Let_def ilog2_64 ov_def [symmetric])
    next
      case True
      have "0 < uint ?wr" using wr0 by (simp add: uint_0_iff less_le)
      then have "1 * w \<le> uint ?wr * w" using w64 by (intro mult_right_mono) simp_all
      then have "64 \<le> (2 :: int) ^ k" using k(2) w64 by linarith
      then obtain b where b: "k = 6 + b" "(2 :: int) ^ k = 64 * 2 ^ b" "2 ^ k sdiv 64 = (2 :: int) ^ b" by (rule whole_slots)
      have b24: "b \<le> 24" using True b(1) by simp
      have enough: "\<not> (word_of_int ((w - ov) div 16) :: u32) < max_send_sge (qa_cap attr)"
        using facts(3,4,5,9) by (simp add: word_less_def uint_of_int_u32)
      show ?thesis
      proof (cases "word_of_int (ctx_max_send_wqebb ctx) < (2 ^ b :: u32)")
        case True
        then show ?thesis using k(1) \<open>k < 31\<close> ok wr0 neg ud by (simp add: sq size(1) Let_def b(3) ov_def [symmetric])
      next
        case False
        have b16: "b \<le> 16" using wqebb_bound [OF lim b24 False] .
        have inl: "uint (word_of_int w - word_of_int ov - 4 :: u32) = w - ov - 4"
          using facts(3,4,9) uint_of_int_u32 [of "w - ov - 4"] by simp
        have granted: "\<exists>b'. (2 :: int) ^ k = 64 * 2 ^ b' \<and> (\<exists>cap bbs. sq_granted b' cap bbs (qa_cap attr) q)"
          if "qs_sq_wqe_cnt q = 2 ^ b" "qs_sq_wqe_shift q = 6" "qs_sq_max_post q = word_of_int (2 ^ k sdiv w)"
            "qs_sq_max_gs q = (w - ov) div 16" "qs_max_inline_data q = word_of_int w - word_of_int ov - 4" "\<not> qs_wq_sig q" for q
        proof -
          have "\<exists>cap bbs. sq_granted b cap bbs (qa_cap attr) q"
            using facts(1-6,9) w64 k(2) wr0 b16 that inl unfolding b(2) by (intro sizes_granted [of w ov]) simp_all
          then show ?thesis using b(2) by blast
        qed
        show ?thesis using k(1) \<open>k < 31\<close> ok wr0 neg ud False enough facts(8)
          by (simp add: sq size(1) Let_def b(3) ov_def [symmetric] ilog2_64 sge granted)
      qed
    qed
  qed
qed

subsection \<open>The size of a receive queue\<close>

definition rq_limits :: "size_ctx \<Rightarrow> bool" where
  "rq_limits ctx \<longleftrightarrow> 0 \<le> ctx_max_recv_wr ctx \<and> ctx_max_recv_wr ctx \<le> 65536 \<and> 0 \<le> ctx_max_rq_desc_sz ctx \<and> ctx_max_rq_desc_sz ctx \<le> 4096"

definition sane_receive :: "qp_init_attr \<Rightarrow> bool" where
  "sane_receive attr \<longleftrightarrow> \<not> qa_has_srq attr \<and> max_recv_wr_cap (qa_cap attr) \<noteq> 0 \<and> max_recv_sge (qa_cap attr) < 2 ^ 27"

text \<open>What the sizes of a receive queue promise.\<close>

definition rq_granted :: "nat \<Rightarrow> nat \<Rightarrow> qp_cap \<Rightarrow> qp_sizes \<Rightarrow> bool" where
  "rq_granted b e req qp \<longleftrightarrow> b \<le> 16 \<and> qs_rq_wqe_cnt qp = 2 ^ b \<and> qs_rq_wqe_shift qp = int e \<and> 4 \<le> e \<and> 16 * qs_rq_max_gs qp = 2 ^ e \<and>
     unat (max_recv_wr_cap req) \<le> 2 ^ b \<and> uint (max_recv_sge req) \<le> qs_rq_max_gs qp"

lemma ilog2_power: "mlx5_ilog2 (2 ^ e) = ret (int e)"
proof -
  have "loop (ilog2_step (2 ^ e)) t = ret e" if "t \<le> e" for t
    using that
  proof (induction "e - t" arbitrary: t)
    case 0
    then show ?case by (simp add: loop_Return ilog2_step_def)
  next
    case (Suc n)
    then have "t < e" by simp
    then have "loop (ilog2_step (2 ^ e)) t = loop (ilog2_step (2 ^ e)) (Suc t)" by (simp add: loop_Next ilog2_step_def)
    moreover have "n = e - Suc t" "Suc t \<le> e" using Suc(2) by simp_all
    ultimately show ?case using Suc(1) by simp
  qed
  from this [of 0] show ?thesis by (simp add: mlx5_ilog2_def)
qed

lemma calc_rcv_wqe_eq:
  assumes "rq_limits ctx" and "\<not> qs_wq_sig qp" and "sane_receive attr"
  obtains (bad) "mlx5_calc_rcv_wqe ctx attr qp = ret (- EINVAL)"
    | (ok) e where "mlx5_calc_rcv_wqe ctx attr qp = ret (2 ^ e)" "4 \<le> e" "16 * uint (max_recv_sge (qa_cap attr)) \<le> 2 ^ e"
proof -
  let ?sge = "max_recv_sge (qa_cap attr)"
  have s: "uint ?sge < 2 ^ 27" using assms(3) by (simp add: sane_receive_def word_less_def)
  have m: "uint (max ?sge 1) = max (uint ?sge) 1" by (simp add: max_def word_le_def)
  have sc: "to_int (uint (max ?sge 1)) = max (uint ?sge) 1" unfolding m using s by (intro to_int_eq) simp_all
  have sz: "to_int (16 * max (uint ?sge) 1) = 16 * max (uint ?sge) 1" using s by (intro to_int_eq) simp_all
  have res: "mlx5_calc_rcv_wqe ctx attr qp = (if ctx_max_rq_desc_sz ctx < 16 * max (uint ?sge) 1 then ret (- EINVAL)
      else mlx5_round_up_power_of_two (16 * max (uint ?sge) 1))"
    using assms(2,3) by (simp add: mlx5_calc_rcv_wqe_def sane_receive_def Let_def sc sz)
  show thesis
  proof (cases "ctx_max_rq_desc_sz ctx < 16 * max (uint ?sge) 1")
    case True
    then show ?thesis using bad res by simp
  next
    case False
    moreover have "ctx_max_rq_desc_sz ctx \<le> 4096" using assms(1) by (simp add: rq_limits_def)
    ultimately have "16 * max (uint ?sge) 1 \<le> 4096" by linarith
    then have "16 * max (uint ?sge) 1 \<le> 2 ^ 12" by simp
    then obtain e where e: "mlx5_round_up_power_of_two (16 * max (uint ?sge) 1) = ret (2 ^ e)" "16 * max (uint ?sge) 1 \<le> 2 ^ e"
      by (rule round_up_eq) simp_all
    have "4 \<le> e"
    proof (rule ccontr)
      assume "\<not> 4 \<le> e"
      then have "(2 :: int) ^ e \<le> 2 ^ 3" by (intro power_increasing) simp_all
      then show False using e(2) by simp
    qed
    then show ?thesis using ok [of e] res False e by simp
  qed
qed

text \<open>A ring of at least one block of 64 bytes.\<close>

lemma ring_of_receives:
  assumes "j \<le> 16" and "4 \<le> e" and "e \<le> 12"
  obtains b where "max (2 ^ j * 2 ^ e) 64 = (2 :: int) ^ (b + e)" "j \<le> b" "b \<le> 16"
proof (cases "6 \<le> j + e")
  case True
  then have "(2 :: int) ^ 6 \<le> 2 ^ (j + e)" by (intro power_increasing) simp_all
  then show ?thesis using assms by (intro that [of j]) (simp_all add: power_add)
next
  case False
  then have "(2 :: int) ^ (j + e) \<le> 2 ^ 6" by (intro power_increasing) simp_all
  then have "max (2 ^ j * 2 ^ e) 64 = (64 :: int)" by (simp add: power_add)
  moreover have "6 - e + e = 6" using False by simp
  ultimately have "max (2 ^ j * 2 ^ e) 64 = (2 :: int) ^ (6 - e + e)" by (simp only:) simp
  then show ?thesis using False assms(2) by (intro that [of "6 - e"]) simp_all
qed

lemma calc_rq_size_ud:
  assumes lim: "rq_limits ctx" and "\<not> qs_wq_sig qp" and req: "sane_receive attr" and ud: "qa_type attr = IBV_QPT_UD"
  shows "\<exists>n qp'. mlx5_calc_rq_size ctx attr qp = ret (n, qp') \<and> (\<forall>b cap bbs r. sq_granted b cap bbs r qp' = sq_granted b cap bbs r qp) \<and>
    (0 \<le> n \<longrightarrow> (\<exists>b e. n = 2 ^ (b + e) \<and> rq_granted b e (qa_cap attr) qp'))"
proof -
  let ?wr = "max_recv_wr_cap (qa_cap attr)" and ?M = "ctx_max_rq_desc_sz ctx"
  have neg: "- EINVAL < 0" by (simp add: EINVAL_def)
  have wr0: "?wr \<noteq> 0" using req by (simp add: sane_receive_def)
  have has: "qpt_has_rq (qa_type attr)" by (simp add: ud qpt_has_rq_def)
  show ?thesis
  proof (cases "word_of_int (ctx_max_recv_wr ctx) < ?wr")
    case True
    then show ?thesis using neg wr0 has by (simp add: mlx5_calc_rq_size_def)
  next
    case few: False
    from lim assms(2) req show ?thesis
    proof (cases rule: calc_rcv_wqe_eq)
      case bad
      then show ?thesis using neg wr0 has few by (simp add: mlx5_calc_rq_size_def)
    next
      case (ok e)
      show ?thesis
      proof (cases "?M < 2 ^ e")
        case True
        then show ?thesis using neg wr0 has few ok(1) by (simp add: mlx5_calc_rq_size_def)
      next
        case False
        then have "(2 :: int) ^ e \<le> 2 ^ 12" using lim by (simp add: rq_limits_def)
        then have e12: "e \<le> 12" by (simp only: power_increasing_iff)
        have "uint ?wr \<le> 2 ^ 16" using few lim by (simp add: rq_limits_def word_less_def uint_of_int_u32)
        then obtain j where j: "mlx5_round_up_power_of_two (uint ?wr) = ret (2 ^ j)" "uint ?wr \<le> 2 ^ j" "j \<le> 16"
          by (rule round_up_eq) simp_all
        obtain b where b: "max (2 ^ j * 2 ^ e) 64 = (2 :: int) ^ (b + e)" "j \<le> b" "b \<le> 16"
          using ring_of_receives j(3) ok(2) e12 by blast
        have "(2 :: int) ^ j * 2 ^ e \<le> 2 ^ 16 * 2 ^ 12" using j(3) e12 by (intro mult_mono power_increasing) simp_all
        then have "(2 :: int) ^ j * 2 ^ e \<le> 268435456" "0 \<le> (2 :: int) ^ j * 2 ^ e" by simp_all
        then have prod: "to_int (2 ^ j * 2 ^ e) = 2 ^ j * 2 ^ e" by (intro to_int_eq) linarith+
        have quot: "2 ^ (b + e) sdiv 2 ^ e = (2 :: int) ^ b" by (simp add: signed_divide_int_def power_add)
        have gs: "16 * (2 ^ e sdiv 16) = (2 :: int) ^ e"
        proof -
          obtain d where "e = 4 + d" using ok(2) le_Suc_ex by blast
          then show ?thesis by (simp add: signed_divide_int_def power_add)
        qed
        have "(2 :: int) ^ j \<le> 2 ^ b" using b(2) by (intro power_increasing) simp_all
        then have "uint ?wr \<le> 2 ^ b" using j(2) by linarith
        then have "int (unat ?wr) \<le> int (2 ^ b)" by simp
        then have wrs: "unat ?wr \<le> 2 ^ b" by (simp only: of_nat_le_iff)
        have pos: "(2 :: int) ^ e \<noteq> 0" "\<not> (2 :: int) ^ e < 0" by simp_all
        have granted: "\<exists>b' e'. b + e = b' + e' \<and> rq_granted b' e' (qa_cap attr) q"
          if "qs_rq_wqe_cnt q = 2 ^ b" "qs_rq_wqe_shift q = int e" "qs_rq_max_gs q = 2 ^ e sdiv 16" for q
          using b(3) ok(2,3) gs wrs that by (intro exI [of _ b] exI [of _ e]) (simp add: rq_granted_def)
        have same: "sq_granted b' cap bbs r (qp\<lparr>qs_rq_wqe_cnt := c, qs_rq_wqe_shift := sh, qs_rq_max_post := mp, qs_rq_max_gs := g\<rparr>)
            = sq_granted b' cap bbs r qp" for b' cap bbs r c sh mp g by (simp add: sq_granted_def)
        show ?thesis using wr0 has few False pos assms(2)
          by (simp add: mlx5_calc_rq_size_def ok(1) j(1) prod b(1) Let_def ilog2_power quot granted same)
      qed
    qed
  qed
qed

subsection \<open>Both queues\<close>

lemma created_sq_rep:
  assumes "sq_granted b cap bbs req qp" and "cf AND IBV_EXP_QP_CREATE_IGNORE_SQ_OVERFLOW = 0"
  shows "sq_rep b cap bbs (mlx5_update_post_send_one IBV_QPS_RTS (mlx5_create_sq ids heads bf cf sig_all qpn ll qp)) 0 []"
proof -
  have "b \<le> 16" "qs_sq_wqe_cnt qp = 2 ^ b" using assms(1) by (simp_all add: sq_granted_def)
  then have "b + 6 < 32" by simp
  have "unat (push_bit 6 (2 ^ b) :: u32) = 64 * 2 ^ b"
  proof -
    have "push_bit 6 (2 ^ b) = (of_nat (64 * 2 ^ b) :: u32)" by (simp add: push_bit_eq_mult)
    moreover have "(2 :: nat) ^ b \<le> 2 ^ 16" using \<open>b \<le> 16\<close> by (intro power_increasing) simp_all
    ultimately show ?thesis by (simp add: unat_of_nat_u32 del: of_nat_mult)
  qed
  then have "sq_sized b cap bbs (mlx5_update_post_send_one IBV_QPS_RTS (mlx5_create_sq ids heads bf cf sig_all qpn ll qp))"
    using assms by (simp add: sq_granted_def sq_sized_def mlx5_create_sq_def mlx5_update_post_send_one_def
        mlx5_build_ctrl_seg_data_def mlx5_init_sq_indices_def Let_def)
  then show ?thesis by (simp add: sq_rep_def mlx5_create_sq_def mlx5_update_post_send_one_def
      mlx5_build_ctrl_seg_data_def mlx5_init_sq_indices_def Let_def)
qed

lemma created_rq_ok:
  assumes "rq_granted b e req qp"
  shows "wq_ok b (2 ^ b) (qs_rq_max_gs qp) (mlx5_create_rq ids qp)"
  using assms by (simp add: rq_granted_def wq_ok_def mlx5_create_rq_def)

text \<open>
  C31: for a datagram queue pair without a shared receive queue, segmentation headers, inline
  keys, underlay, signature or ignored overflow of its send queue, on a device with send
  descriptors of 144 to 1024 bytes, receive
  descriptors of at most 4096 bytes and queues of at most 65536 blocks and requests, and for a
  request of at least one send and one receive, of send elements (at most 48) or inline data
  (at most 768 bytes), and of fewer than \<open>2 ^ 27\<close> receive elements,
  \<^verbatim>\<open>mlx5_calc_wq_size\<close> returns, and unless it returns an error the queues
  created from its sizes are those that posting and completing rely on: empty, with at least
  the number of requests, elements and inline bytes asked for, and in disjoint parts of the
  buffer, the receive queue first, that together are its whole size. Outside these conditions
  the sizes can be too small (\<open>empty_request_unlimited\<close>, \<open>full_descriptor_size\<close>).
\<close>

theorem created_queues_ready:
  assumes "ud_limits ctx" and "rq_limits ctx" and "ud_attr attr qp" and "sane_request (qa_cap attr)" and "sane_receive attr"
    and "cf AND IBV_EXP_QP_CREATE_IGNORE_SQ_OVERFLOW = 0"
  shows "\<exists>n qp' attr'. mlx5_calc_wq_size ctx attr qp = ret (n, qp', attr') \<and> (0 \<le> n \<longrightarrow>
    (\<exists>b cap bbs b' e. n = 2 ^ (b' + e) + 64 * 2 ^ b \<and> qs_sq_offset qp' = 2 ^ (b' + e) \<and> qs_rq_offset qp' = 0 \<and>
      sq_granted b cap bbs (qa_cap attr) qp' \<and> rq_granted b' e (qa_cap attr) qp' \<and>
      sq_ready b cap bbs (mlx5_update_post_send_one IBV_QPS_RTS (mlx5_create_sq ids heads bf cf sig_all qpn ll qp')) 0 \<and>
      sq_content (mlx5_update_post_send_one IBV_QPS_RTS (mlx5_create_sq ids heads bf cf sig_all qpn ll qp')) 0 = [] \<and>
      wq_ok b' (2 ^ b') (qs_rq_max_gs qp') (mlx5_create_rq rids qp')))"
proof -
  from calc_sq_size_ud [OF assms(1,3,4)] obtain n qp1 attr1 where
    sq: "mlx5_calc_sq_size ctx attr qp = ret (n, qp1, attr1)" "recv_same attr attr1"
      "0 \<le> n \<Longrightarrow> \<exists>b cap bbs. n = 64 * 2 ^ b \<and> sq_granted b cap bbs (qa_cap attr) qp1" by blast
  have recv: "sane_receive attr1" "qa_type attr1 = IBV_QPT_UD" "\<And>b e q. rq_granted b e (qa_cap attr1) q = rq_granted b e (qa_cap attr) q"
    using assms(3,5) sq(2) by (simp_all add: recv_same_def sane_receive_def rq_granted_def ud_attr_def)
  show ?thesis
  proof (cases "n < 0")
    case True
    then show ?thesis by (simp add: mlx5_calc_wq_size_def sq(1))
  next
    case False
    then obtain b cap bbs where n: "n = 64 * 2 ^ b" "sq_granted b cap bbs (qa_cap attr) qp1" using sq(3) by force
    then have "\<not> qs_wq_sig qp1" by (simp add: sq_granted_def)
    from calc_rq_size_ud [OF assms(2) this recv(1,2), unfolded recv(3)] obtain m qp2 where
      rq: "mlx5_calc_rq_size ctx attr1 qp1 = ret (m, qp2)" "\<forall>b cap bbs r. sq_granted b cap bbs r qp2 = sq_granted b cap bbs r qp1"
        "0 \<le> m \<longrightarrow> (\<exists>b' e. m = 2 ^ (b' + e) \<and> rq_granted b' e (qa_cap attr) qp2)" by blast
    show ?thesis
    proof (cases "m < 0")
      case True
      then show ?thesis using False by (simp add: mlx5_calc_wq_size_def sq(1) rq(1))
    next
      case m: False
      then obtain b' e where m': "m = 2 ^ (b' + e)" "rq_granted b' e (qa_cap attr) qp2" using rq(3) linorder_not_less by blast
      let ?qp = "qp2\<lparr>qs_sq_offset := m, qs_rq_offset := 0\<rparr>"
      have "sq_granted b cap bbs (qa_cap attr) qp2" using n(2) rq(2) by blast
      then have g: "sq_granted b cap bbs (qa_cap attr) ?qp" "rq_granted b' e (qa_cap attr) ?qp"
        using m'(2) by (simp_all add: sq_granted_def rq_granted_def)
      note rep = created_sq_rep [OF g(1) assms(6), of ids heads bf sig_all qpn ll]
      have "sq_ready b cap bbs (mlx5_update_post_send_one IBV_QPS_RTS (mlx5_create_sq ids heads bf cf sig_all qpn ll ?qp)) 0"
        using rep ready_iff by blast
      then have "n + m = 2 ^ (b' + e) + 64 * 2 ^ b \<and> qs_sq_offset ?qp = 2 ^ (b' + e) \<and> qs_rq_offset ?qp = 0 \<and>
          sq_granted b cap bbs (qa_cap attr) ?qp \<and> rq_granted b' e (qa_cap attr) ?qp \<and>
          sq_ready b cap bbs (mlx5_update_post_send_one IBV_QPS_RTS (mlx5_create_sq ids heads bf cf sig_all qpn ll ?qp)) 0 \<and>
          sq_content (mlx5_update_post_send_one IBV_QPS_RTS (mlx5_create_sq ids heads bf cf sig_all qpn ll ?qp)) 0 = [] \<and>
          wq_ok b' (2 ^ b') (qs_rq_max_gs ?qp) (mlx5_create_rq rids ?qp)"
        using n(1) m'(1) g rep_content [OF rep] created_rq_ok [OF g(2), of rids] by simp
      moreover have "mlx5_calc_wq_size ctx attr qp = ret (n + m, ?qp, attr1)"
        using False m by (simp add: mlx5_calc_wq_size_def sq(1) rq(1))
      ultimately show ?thesis by blast
    qed
  qed
qed

definition test_ctx :: size_ctx where
  "test_ctx = \<lparr>shut_up_mw = True, ctx_max_sq_desc_sz = 1024, ctx_max_rq_desc_sz = 512, ctx_max_send_wqebb = 16384,
     ctx_max_recv_wr = 16384, ctx_max_desc_sz_sq_dc = 512\<rparr>"

definition test_attr :: qp_init_attr where
  "test_attr = \<lparr>qa_type = IBV_QPT_UD, qa_cap = \<lparr>max_send_wr = 128, max_recv_wr_cap = 100, max_send_sge = 2, max_recv_sge = 2,
     max_inline_cap = 64\<rparr>, qa_has_srq = False, qa_max_atomic_arg = None, qa_max_inl_send_klms = None, qa_max_tso_header = None\<rparr>"

definition test_sizes :: qp_sizes where
  "test_sizes = \<lparr>qs_underlay = False, qs_enable_atomics = False, qs_umr_en = False, qs_wq_sig = False, qs_max_atomic_arg = 0,
     qs_max_tso_header = 0, qs_max_inline_data = 0, qs_max_inl_send_klms = 0, qs_sq_wqe_cnt = 0, qs_sq_wqe_shift = 0, qs_sq_max_gs = 0,
     qs_sq_max_post = 0, qs_sq_offset = 0, qs_rq_wqe_cnt = 0, qs_rq_wqe_shift = 0, qs_rq_max_gs = 0, qs_rq_max_post = 0, qs_rq_offset = 0\<rparr>"

lemma test_size:
  "\<exists>qp' attr'. mlx5_calc_wq_size test_ctx test_attr test_sizes = ret (36864, qp', attr') \<and> qs_sq_max_post qp' = 170 \<and>
    qs_sq_max_gs qp' = 8 \<and> qs_max_inline_data qp' = 124 \<and> qs_rq_wqe_cnt qp' = 128"
proof -
  have two: "max 2 (1 :: u32) = 2" by (simp add: max_def word_le_def)
  show ?thesis
    by (simp add: two mlx5_calc_wq_size_def mlx5_calc_sq_size_def mlx5_calc_rq_size_def mlx5_calc_send_wqe_def mlx5_calc_rcv_wqe_def
        sq_overhead_def get_send_sge_def max_gather_def to_int_def align_bytes_def mlx5_max4_def qpt_has_rq_def
        mlx5_round_up_power_of_two_def mlx5_ilog2_def loop.simps round_up_step_def ilog2_step_def
        test_ctx_def test_attr_def test_sizes_def Let_def signed_divide_int_def)
qed

text \<open>
  With neither elements nor inline data asked for, the room for inline data is computed as minus four
  and granted as an unsigned number: inline requests of any length would be accepted.
\<close>

lemma empty_request_unlimited:
  "\<exists>qp' attr'. mlx5_calc_sq_size test_ctx (test_attr\<lparr>qa_cap := (qa_cap test_attr)\<lparr>max_send_sge := 0, max_inline_cap := 0\<rparr>\<rparr>) test_sizes =
    ret (8192, qp', attr') \<and> qs_max_inline_data qp' = 0xFFFFFFFC"
  by (simp add: mlx5_calc_sq_size_def mlx5_calc_send_wqe_def sq_overhead_def get_send_sge_def max_gather_def to_int_def align_bytes_def
      mlx5_max4_def mlx5_round_up_power_of_two_def mlx5_ilog2_def loop.simps round_up_step_def ilog2_step_def
      test_ctx_def test_attr_def test_sizes_def Let_def signed_divide_int_def)

theorem created_queues_ready_witness:
  "\<exists>qp' attr' b cap bbs. mlx5_calc_wq_size test_ctx test_attr test_sizes = ret (36864, qp', attr') \<and> qs_sq_max_post qp' = 170 \<and>
    sq_ready b cap bbs (mlx5_update_post_send_one IBV_QPS_RTS
      (mlx5_create_sq (\<lambda>_. 0) (\<lambda>_. 0) (sq_bf small_sq) 0 True 7 (sq_link_layer small_sq) qp')) 0"
proof -
  from test_size obtain qp' attr' where t: "mlx5_calc_wq_size test_ctx test_attr test_sizes = ret (36864, qp', attr')" "qs_sq_max_post qp' = 170"
    by blast
  have "ud_limits test_ctx" "rq_limits test_ctx" by (simp_all add: ud_limits_def rq_limits_def test_ctx_def)
  moreover have "ud_attr test_attr test_sizes" "sane_request (qa_cap test_attr)" "sane_receive test_attr"
    by (simp_all add: ud_attr_def sane_request_def sane_receive_def test_attr_def test_sizes_def)
  ultimately show ?thesis
    using created_queues_ready [of test_ctx test_attr test_sizes 0 "\<lambda>_. 0" "\<lambda>_. 0" "sq_bf small_sq" True 7 "sq_link_layer small_sq" "\<lambda>_. 0"] t
    by (clarsimp simp: exI) blast
qed

end
