(* ===== verification/Mlx5_Cqe.thy ===== *)
theory Mlx5_Cqe
  imports Mlx5_Srq
begin

unbundle bit_operations_syntax

section \<open>Completion queue entries\<close>

text \<open>
  The entries the device writes into a completion queue (\<^verbatim>\<open>mlx5dv.h\<close>) and what the driver
  makes of their fields (\<^verbatim>\<open>cq.c\<close>). Fields of more than one byte are in network order. The
  entry of a failed request has its syndromes in the last two bytes before the opcode word, which in
  other entries are the last bytes of the timestamp.
\<close>

record mlx5_cqe64 =
  ml_path :: u8
  cqe_slid :: u16
  flags_rqpn :: u32
  srqn_uidx :: u32
  imm_inval_pkey :: u32
  app :: u8
  cqe_byte_cnt :: u32
  cqe_timestamp :: u64
  sop_drop_qpn :: u32
  wqe_counter :: u16
  op_own :: u8

datatype cqe_opcode = MLX5_CQE_REQ | MLX5_CQE_RESP_WR_IMM | MLX5_CQE_RESP_SEND | MLX5_CQE_RESP_SEND_IMM
  | MLX5_CQE_RESP_SEND_INV | MLX5_CQE_RESIZE_CQ | MLX5_CQE_NO_PACKET | MLX5_CQE_SIG_ERR | MLX5_CQE_REQ_ERR
  | MLX5_CQE_RESP_ERR | MLX5_CQE_INVALID | CQE_unknown u8

definition cqe_opcode :: "mlx5_cqe64 \<Rightarrow> cqe_opcode" where
  "cqe_opcode cqe = (let n = drop_bit 4 (op_own cqe) in
     case map_of [(0, MLX5_CQE_REQ), (1, MLX5_CQE_RESP_WR_IMM), (2, MLX5_CQE_RESP_SEND), (3, MLX5_CQE_RESP_SEND_IMM),
       (4, MLX5_CQE_RESP_SEND_INV), (5, MLX5_CQE_RESIZE_CQ), (6, MLX5_CQE_NO_PACKET), (12, MLX5_CQE_SIG_ERR),
       (13, MLX5_CQE_REQ_ERR), (14, MLX5_CQE_RESP_ERR), (15, MLX5_CQE_INVALID)] n of
       Some x \<Rightarrow> x | None \<Rightarrow> CQE_unknown n)"

definition MLX5_CQE_OWNER_MASK :: u8 where "MLX5_CQE_OWNER_MASK = 1"

definition is_requestor :: "cqe_opcode \<Rightarrow> bool" where
  "is_requestor opcode \<longleftrightarrow> opcode = MLX5_CQE_REQ \<or> opcode = MLX5_CQE_REQ_ERR"

definition is_responder :: "cqe_opcode \<Rightarrow> bool" where
  "is_responder opcode \<longleftrightarrow> opcode \<in> {MLX5_CQE_RESP_WR_IMM, MLX5_CQE_RESP_SEND, MLX5_CQE_RESP_SEND_IMM,
     MLX5_CQE_RESP_SEND_INV, MLX5_CQE_RESP_ERR, MLX5_CQE_NO_PACKET}"

datatype cqe_format = MLX5_NO_INLINE_DATA | MLX5_INLINE_DATA32_SEG | MLX5_INLINE_DATA64_SEG | MLX5_COMPRESSED

definition mlx5_get_cqe_format :: "mlx5_cqe64 \<Rightarrow> cqe_format" where
  "mlx5_get_cqe_format cqe = (let f = drop_bit 2 (op_own cqe AND 0xC) in
     if f = 0 then MLX5_NO_INLINE_DATA else if f = 1 then MLX5_INLINE_DATA32_SEG
     else if f = 2 then MLX5_INLINE_DATA64_SEG else MLX5_COMPRESSED)"

definition is_equal_rsn :: "mlx5_cqe64 \<Rightarrow> u32 \<Rightarrow> bool" where
  "is_equal_rsn cqe64 rsn \<longleftrightarrow> rsn = htonl (sop_drop_qpn cqe64) AND 0xFFFFFF"

definition is_equal_uidx :: "mlx5_cqe64 \<Rightarrow> u32 \<Rightarrow> bool" where
  "is_equal_uidx cqe64 uidx \<longleftrightarrow> uidx = htonl (srqn_uidx cqe64) AND 0xFFFFFF"

subsection \<open>Completions of the application\<close>

text \<open>The opcode of a posted memory registration is taken from the queue: \<open>WC_data\<close>.\<close>

datatype wc_opcode = IBV_WC_SEND | IBV_WC_RDMA_WRITE | IBV_WC_RDMA_READ | IBV_WC_COMP_SWAP | IBV_WC_FETCH_ADD
  | IBV_EXP_WC_MASKED_COMP_SWAP | IBV_EXP_WC_MASKED_FETCH_ADD | IBV_EXP_WC_TSO | IBV_WC_RECV | IBV_WC_RECV_RDMA_WITH_IMM
  | WC_data u32

record mlx5_wc = ibv_wc +
  wc_opcode :: wc_opcode
  wc_vendor_err :: u32
  wc_byte_len :: u32
  wc_imm_data :: u32
  wc_qp_num :: u32
  wc_src_qp :: u32
  wc_wc_flags :: u32
  wc_pkey_index :: u16
  wc_slid :: u16
  wc_sl :: u8
  wc_dlid_path_bits :: u8

definition IBV_WC_GRH :: u32 where "IBV_WC_GRH = 1"
definition IBV_WC_WITH_IMM :: u32 where "IBV_WC_WITH_IMM = 2"
definition IBV_WC_WITH_INV :: u32 where "IBV_WC_WITH_INV = 8"

datatype mlx5_opcode = MLX5_OPCODE_SEND_INVAL | MLX5_OPCODE_RDMA_WRITE | MLX5_OPCODE_RDMA_WRITE_IMM | MLX5_OPCODE_SEND
  | MLX5_OPCODE_SEND_IMM | MLX5_OPCODE_TSO | MLX5_OPCODE_RDMA_READ | MLX5_OPCODE_ATOMIC_CS | MLX5_OPCODE_ATOMIC_FA
  | MLX5_OPCODE_ATOMIC_MASKED_CS | MLX5_OPCODE_ATOMIC_MASKED_FA | MLX5_OPCODE_UMR | OPCODE_other u32

definition mlx5_opcode :: "u32 \<Rightarrow> mlx5_opcode" where
  "mlx5_opcode n = (case map_of [(0x01, MLX5_OPCODE_SEND_INVAL), (0x08, MLX5_OPCODE_RDMA_WRITE), (0x09, MLX5_OPCODE_RDMA_WRITE_IMM),
     (0x0A, MLX5_OPCODE_SEND), (0x0B, MLX5_OPCODE_SEND_IMM), (0x0E, MLX5_OPCODE_TSO), (0x10, MLX5_OPCODE_RDMA_READ),
     (0x11, MLX5_OPCODE_ATOMIC_CS), (0x12, MLX5_OPCODE_ATOMIC_FA), (0x14, MLX5_OPCODE_ATOMIC_MASKED_CS),
     (0x15, MLX5_OPCODE_ATOMIC_MASKED_FA), (0x25, MLX5_OPCODE_UMR)] n of Some x \<Rightarrow> x | None \<Rightarrow> OPCODE_other n)"

definition handle_good_req :: "mlx5_cqe64 \<Rightarrow> u32 \<Rightarrow> mlx5_wc \<Rightarrow> mlx5_wc" where
  "handle_good_req cqe wr_data wc =
    (case mlx5_opcode (drop_bit 24 (htonl (sop_drop_qpn cqe))) of
       MLX5_OPCODE_RDMA_WRITE_IMM \<Rightarrow> wc\<lparr>wc_wc_flags := wc_wc_flags wc OR IBV_WC_WITH_IMM, wc_opcode := IBV_WC_RDMA_WRITE\<rparr>
     | MLX5_OPCODE_RDMA_WRITE \<Rightarrow> wc\<lparr>wc_opcode := IBV_WC_RDMA_WRITE\<rparr>
     | MLX5_OPCODE_SEND_IMM \<Rightarrow> wc\<lparr>wc_wc_flags := wc_wc_flags wc OR IBV_WC_WITH_IMM, wc_opcode := IBV_WC_SEND\<rparr>
     | MLX5_OPCODE_SEND \<Rightarrow> wc\<lparr>wc_opcode := IBV_WC_SEND\<rparr>
     | MLX5_OPCODE_SEND_INVAL \<Rightarrow> wc\<lparr>wc_opcode := IBV_WC_SEND\<rparr>
     | MLX5_OPCODE_RDMA_READ \<Rightarrow> wc\<lparr>wc_opcode := IBV_WC_RDMA_READ, wc_byte_len := htonl (cqe_byte_cnt cqe)\<rparr>
     | MLX5_OPCODE_ATOMIC_CS \<Rightarrow> wc\<lparr>wc_opcode := IBV_WC_COMP_SWAP, wc_byte_len := 8\<rparr>
     | MLX5_OPCODE_ATOMIC_FA \<Rightarrow> wc\<lparr>wc_opcode := IBV_WC_FETCH_ADD, wc_byte_len := 8\<rparr>
     | MLX5_OPCODE_UMR \<Rightarrow> wc\<lparr>wc_opcode := WC_data wr_data\<rparr>
     | MLX5_OPCODE_ATOMIC_MASKED_CS \<Rightarrow> wc\<lparr>wc_opcode := IBV_EXP_WC_MASKED_COMP_SWAP, wc_byte_len := htonl (cqe_byte_cnt cqe)\<rparr>
     | MLX5_OPCODE_ATOMIC_MASKED_FA \<Rightarrow> wc\<lparr>wc_opcode := IBV_EXP_WC_MASKED_FETCH_ADD, wc_byte_len := htonl (cqe_byte_cnt cqe)\<rparr>
     | MLX5_OPCODE_TSO \<Rightarrow> wc\<lparr>wc_opcode := IBV_EXP_WC_TSO\<rparr>
     | OPCODE_other n \<Rightarrow> wc)"

text \<open>Errors. The first byte of each is at the lower address.\<close>

definition vendor_err_synd :: "mlx5_cqe64 \<Rightarrow> u8" where
  "vendor_err_synd cqe = ucast (drop_bit 48 (cqe_timestamp cqe))"

definition syndrome :: "mlx5_cqe64 \<Rightarrow> u8" where
  "syndrome cqe = ucast (drop_bit 56 (cqe_timestamp cqe))"

definition IBV_WC_LOC_QP_OP_ERR :: int where "IBV_WC_LOC_QP_OP_ERR = 2"
definition IBV_WC_LOC_PROT_ERR :: int where "IBV_WC_LOC_PROT_ERR = 4"
definition IBV_WC_WR_FLUSH_ERR :: int where "IBV_WC_WR_FLUSH_ERR = 5"
definition IBV_WC_MW_BIND_ERR :: int where "IBV_WC_MW_BIND_ERR = 6"
definition IBV_WC_BAD_RESP_ERR :: int where "IBV_WC_BAD_RESP_ERR = 7"
definition IBV_WC_LOC_ACCESS_ERR :: int where "IBV_WC_LOC_ACCESS_ERR = 8"
definition IBV_WC_REM_INV_REQ_ERR :: int where "IBV_WC_REM_INV_REQ_ERR = 9"
definition IBV_WC_REM_ACCESS_ERR :: int where "IBV_WC_REM_ACCESS_ERR = 10"
definition IBV_WC_REM_OP_ERR :: int where "IBV_WC_REM_OP_ERR = 11"
definition IBV_WC_RETRY_EXC_ERR :: int where "IBV_WC_RETRY_EXC_ERR = 12"
definition IBV_WC_RNR_RETRY_EXC_ERR :: int where "IBV_WC_RNR_RETRY_EXC_ERR = 13"
definition IBV_WC_REM_ABORT_ERR :: int where "IBV_WC_REM_ABORT_ERR = 16"
definition IBV_WC_GENERAL_ERR :: int where "IBV_WC_GENERAL_ERR = 21"

lemmas wc_errors = IBV_WC_LOC_LEN_ERR_def IBV_WC_LOC_QP_OP_ERR_def IBV_WC_LOC_PROT_ERR_def IBV_WC_WR_FLUSH_ERR_def
  IBV_WC_MW_BIND_ERR_def IBV_WC_BAD_RESP_ERR_def IBV_WC_LOC_ACCESS_ERR_def IBV_WC_REM_INV_REQ_ERR_def IBV_WC_REM_ACCESS_ERR_def
  IBV_WC_REM_OP_ERR_def IBV_WC_RETRY_EXC_ERR_def IBV_WC_RNR_RETRY_EXC_ERR_def IBV_WC_REM_ABORT_ERR_def IBV_WC_GENERAL_ERR_def

definition mlx5_handle_error_cqe :: "mlx5_cqe64 \<Rightarrow> mlx5_wc \<Rightarrow> mlx5_wc" where
  "mlx5_handle_error_cqe cqe wc = wc\<lparr>
     wc_status := (case map_of [(0x01, IBV_WC_LOC_LEN_ERR), (0x02, IBV_WC_LOC_QP_OP_ERR), (0x04, IBV_WC_LOC_PROT_ERR),
       (0x05, IBV_WC_WR_FLUSH_ERR), (0x06, IBV_WC_MW_BIND_ERR), (0x10, IBV_WC_BAD_RESP_ERR), (0x11, IBV_WC_LOC_ACCESS_ERR),
       (0x12, IBV_WC_REM_INV_REQ_ERR), (0x13, IBV_WC_REM_ACCESS_ERR), (0x14, IBV_WC_REM_OP_ERR), (0x15, IBV_WC_RETRY_EXC_ERR),
       (0x16, IBV_WC_RNR_RETRY_EXC_ERR), (0x22, IBV_WC_REM_ABORT_ERR)] (syndrome cqe) of
       Some e \<Rightarrow> e | None \<Rightarrow> IBV_WC_GENERAL_ERR),
     wc_vendor_err := ucast (vendor_err_synd cqe)\<rparr>"

definition is_odp_pfault_err :: "mlx5_cqe64 \<Rightarrow> bool" where
  "is_odp_pfault_err ecqe \<longleftrightarrow> syndrome ecqe = 0x22 \<and> vendor_err_synd ecqe = 0x93"

text \<open>The result is the new completion and whether the request was a memory registration.\<close>

definition mlx5_set_bad_wc_opcode :: "mlx5_cqe64 \<Rightarrow> bool \<Rightarrow> mlx5_wc \<Rightarrow> mlx5_wc \<times> bool" where
  "mlx5_set_bad_wc_opcode cqe is_req wc =
    (if is_req then
       (case mlx5_opcode (drop_bit 24 (htonl (sop_drop_qpn cqe))) of
          MLX5_OPCODE_RDMA_WRITE_IMM \<Rightarrow> (wc\<lparr>wc_opcode := IBV_WC_RDMA_WRITE\<rparr>, False)
        | MLX5_OPCODE_RDMA_WRITE \<Rightarrow> (wc\<lparr>wc_opcode := IBV_WC_RDMA_WRITE\<rparr>, False)
        | MLX5_OPCODE_SEND_IMM \<Rightarrow> (wc\<lparr>wc_opcode := IBV_WC_SEND\<rparr>, False)
        | MLX5_OPCODE_SEND \<Rightarrow> (wc\<lparr>wc_opcode := IBV_WC_SEND\<rparr>, False)
        | MLX5_OPCODE_SEND_INVAL \<Rightarrow> (wc\<lparr>wc_opcode := IBV_WC_SEND\<rparr>, False)
        | MLX5_OPCODE_RDMA_READ \<Rightarrow> (wc\<lparr>wc_opcode := IBV_WC_RDMA_READ\<rparr>, False)
        | MLX5_OPCODE_ATOMIC_CS \<Rightarrow> (wc\<lparr>wc_opcode := IBV_WC_COMP_SWAP\<rparr>, False)
        | MLX5_OPCODE_ATOMIC_FA \<Rightarrow> (wc\<lparr>wc_opcode := IBV_WC_FETCH_ADD\<rparr>, False)
        | MLX5_OPCODE_UMR \<Rightarrow> (wc, True)
        | MLX5_OPCODE_ATOMIC_MASKED_CS \<Rightarrow> (wc\<lparr>wc_opcode := IBV_EXP_WC_MASKED_COMP_SWAP\<rparr>, False)
        | MLX5_OPCODE_ATOMIC_MASKED_FA \<Rightarrow> (wc\<lparr>wc_opcode := IBV_EXP_WC_MASKED_FETCH_ADD\<rparr>, False)
        | MLX5_OPCODE_TSO \<Rightarrow> (wc\<lparr>wc_opcode := IBV_EXP_WC_TSO\<rparr>, False)
        | OPCODE_other n \<Rightarrow> (wc, False))
     else
       (case cqe_opcode cqe of
          MLX5_CQE_RESP_WR_IMM \<Rightarrow> (wc\<lparr>wc_opcode := IBV_WC_RECV_RDMA_WITH_IMM\<rparr>, False)
        | MLX5_CQE_RESP_SEND \<Rightarrow> (wc\<lparr>wc_opcode := IBV_WC_RECV\<rparr>, False)
        | MLX5_CQE_RESP_SEND_IMM \<Rightarrow> (wc\<lparr>wc_opcode := IBV_WC_RECV\<rparr>, False)
        | _ \<Rightarrow> (wc, False)))"

text \<open>A failed request is never reported as a success.\<close>

lemma error_status: "wc_status (mlx5_handle_error_cqe cqe wc) \<noteq> IBV_WC_SUCCESS"
  by (simp add: mlx5_handle_error_cqe_def IBV_WC_SUCCESS_def wc_errors)

text \<open>
  The switch of \<^verbatim>\<open>mlx5_set_bad_wc_opcode\<close> over the responses has no effect: an entry that
  comes here has the opcode of an error.
\<close>

lemma bad_opcode_resp: "cqe_opcode cqe = MLX5_CQE_RESP_ERR \<Longrightarrow> mlx5_set_bad_wc_opcode cqe False wc = (wc, False)"
  by (simp add: mlx5_set_bad_wc_opcode_def)

end
