(* ===== verification/Mlx5_Cq.thy ===== *)
theory Mlx5_Cq
  imports Mlx5_Cqe
begin

unbundle bit_operations_syntax

section \<open>Completion queues of the driver\<close>

text \<open>
  The ring of a completion queue (\<^verbatim>\<open>cq.c\<close>, \<^verbatim>\<open>mlx5_resize_cq\<close> of \<^verbatim>\<open>verbs.c\<close>). The
  device writes entries, the driver takes them; there is no shared producer index: an entry belongs
  to the driver when its owner bit is the parity of the turn of the ring. Compressed entries, the
  queues of peer devices and the adaptive delay before a poll are left out, and so are barriers and
  locks.
\<close>

record mlx5_cq =
  cq_cqes :: "nat \<Rightarrow> mlx5_cqe64"
  cq_cqe :: u32
  cons_index :: u32
  set_ci_db :: u32
  arm_db :: u32
  arm_sn :: u32
  cqn :: u32
  active_cqes :: u32
  resize_buf :: "nat \<Rightarrow> mlx5_cqe64"
  resize_cqes :: u32

definition is_hw :: "mlx5_cqe64 \<Rightarrow> u32 \<Rightarrow> u32 \<Rightarrow> bool" where
  "is_hw e n cqe_mask \<longleftrightarrow> (op_own e AND MLX5_CQE_OWNER_MASK \<noteq> 0) \<noteq> (n AND (cqe_mask + 1) \<noteq> 0)"

definition get_cqe :: "mlx5_cq \<Rightarrow> u32 \<Rightarrow> mlx5_cqe64" where
  "get_cqe cq n = cq_cqes cq (unat n)"

definition get_sw_cqe :: "mlx5_cq \<Rightarrow> u32 \<Rightarrow> u32 \<Rightarrow> mlx5_cqe64 option" where
  "get_sw_cqe cq n cqe_mask =
    (let e = get_cqe cq (n AND cqe_mask)
     in if cqe_opcode e \<noteq> MLX5_CQE_INVALID \<and> \<not> is_hw e n cqe_mask then Some e else None)"

definition get_next_cqe :: "mlx5_cq \<Rightarrow> mlx5_cqe64 option" where
  "get_next_cqe cq =
    (let e = get_cqe cq (cons_index cq AND cq_cqe cq)
     in if cqe_opcode e \<noteq> MLX5_CQE_INVALID \<and> \<not> is_hw e (cons_index cq) (cq_cqe cq) then Some e else None)"

definition mlx5_update_cons_index :: "mlx5_cq \<Rightarrow> mlx5_cq" where
  "mlx5_update_cons_index cq = cq\<lparr>set_ci_db := htonl (cons_index cq AND 0xFFFFFF)\<rparr>"

text \<open>The doorbell: the request with a sequence number and the consumer index, and the queue.\<close>

definition MLX5_CQ_DB_REQ_NOT_SOL :: u32 where "MLX5_CQ_DB_REQ_NOT_SOL = push_bit 24 1"
definition MLX5_CQ_DB_REQ_NOT :: u32 where "MLX5_CQ_DB_REQ_NOT = push_bit 24 0"

definition mlx5_arm_cq :: "bool \<Rightarrow> mlx5_cq \<Rightarrow> (u32 \<times> u32) \<times> mlx5_cq" where
  "mlx5_arm_cq solicited cq =
    (let sn = arm_sn cq AND 3; ci = cons_index cq AND 0xFFFFFF;
         cmd = (if solicited then MLX5_CQ_DB_REQ_NOT_SOL else MLX5_CQ_DB_REQ_NOT);
         w = htonl (push_bit 28 sn OR cmd OR ci)
     in ((w, htonl (cqn cq)), cq\<lparr>arm_db := w\<rparr>))"

definition mlx5_cq_event :: "mlx5_cq \<Rightarrow> mlx5_cq" where
  "mlx5_cq_event cq = cq\<lparr>arm_sn := arm_sn cq + 1\<rparr>"

subsection \<open>Removal of the entries of a queue pair\<close>

definition free_srq :: "mlx5_cqe64 \<Rightarrow> mlx5_srq option \<Rightarrow> mlx5_srq option outcome" where
  "free_srq cqe64 srq = bindC (deref srq) (\<lambda>q.
     bindC (mlx5_free_srq_wqe (uint (htons (wqe_counter cqe64))) q) (\<lambda>q. ret (Some q)))"

definition free_res_cqe :: "mlx5_cqe64 \<Rightarrow> u32 \<Rightarrow> mlx5_srq option \<Rightarrow> bool \<Rightarrow> (bool \<times> mlx5_srq option) outcome" where
  "free_res_cqe cqe64 rsn_uidx srq cqe_version =
    (if cqe_version then
       if is_equal_uidx cqe64 rsn_uidx then
         bindC (if srq \<noteq> None \<and> is_responder (cqe_opcode cqe64) then free_srq cqe64 srq else ret srq) (\<lambda>srq. ret (True, srq))
       else ret (False, srq)
     else
       if is_equal_rsn cqe64 rsn_uidx then
         bindC (if srq \<noteq> None \<and> htonl (srqn_uidx cqe64) AND 0xFFFFFF \<noteq> 0 then free_srq cqe64 srq else ret srq) (\<lambda>srq. ret (True, srq))
       else ret (False, srq))"

text \<open>
  The search for the end of the entries, and one step of the sweep back from there. The condition of
  the sweep is a difference of two C integers that may overflow when the indices lie on both sides of
  \<open>2 ^ 31\<close>; here it wraps, as it does on the machines the driver is built for.
\<close>

definition prod_step :: "mlx5_cq \<Rightarrow> u32 \<Rightarrow> (u32, u32) flow outcome" where
  "prod_step cq prod_index =
    ret (if get_sw_cqe cq prod_index (cq_cqe cq) = None then Return prod_index
         else if prod_index = cons_index cq + cq_cqe cq then Return prod_index
         else Next (prod_index + 1))"

definition copy_cqe :: "mlx5_cqe64 \<Rightarrow> mlx5_cqe64 \<Rightarrow> mlx5_cqe64" where
  "copy_cqe cqe dest = (let owner_bit = op_own dest AND MLX5_CQE_OWNER_MASK
     in cqe\<lparr>op_own := owner_bit OR (op_own cqe AND NOT MLX5_CQE_OWNER_MASK)\<rparr>)"

definition sweep_step :: "u32 \<Rightarrow> bool \<Rightarrow> u32 \<times> u32 \<times> mlx5_cq \<times> mlx5_srq option \<Rightarrow>
    (u32 \<times> u32 \<times> mlx5_cq \<times> mlx5_srq option, u32 \<times> mlx5_cq \<times> mlx5_srq option) flow outcome" where
  "sweep_step rsn_uidx cqe_version = (\<lambda>(prod_index, nfreed, cq, srq).
    let prod_index = prod_index - 1
    in if sint (prod_index - cons_index cq) < 0 then ret (Return (nfreed, cq, srq))
       else
         let cqe = get_cqe cq (prod_index AND cq_cqe cq)
         in bindC (free_res_cqe cqe rsn_uidx srq cqe_version) (\<lambda>(freed, srq).
            if freed then ret (Next (prod_index, nfreed + 1, cq, srq))
            else if nfreed \<noteq> 0 then
              let d = unat ((prod_index + nfreed) AND cq_cqe cq)
              in ret (Next (prod_index, nfreed, cq\<lparr>cq_cqes := (cq_cqes cq)(d := copy_cqe cqe (cq_cqes cq d))\<rparr>, srq))
            else ret (Next (prod_index, nfreed, cq, srq))))"

definition mlx5_cq_clean :: "u32 \<Rightarrow> bool \<Rightarrow> mlx5_cq \<Rightarrow> mlx5_srq option \<Rightarrow> (mlx5_cq \<times> mlx5_srq option) outcome" where
  "mlx5_cq_clean rsn_uidx cqe_version cq srq =
    bindC (loop (prod_step cq) (cons_index cq)) (\<lambda>prod_index.
    bindC (loop (sweep_step rsn_uidx cqe_version) (prod_index, 0, cq, srq)) (\<lambda>(nfreed, cq, srq).
    if nfreed \<noteq> 0 then ret (mlx5_update_cons_index (cq\<lparr>cons_index := cons_index cq + nfreed\<rparr>), srq)
    else ret (cq, srq)))"

subsection \<open>Creation and resizing\<close>

definition mlx5_alloc_cq_buf :: "nat \<Rightarrow> mlx5_cqe64" where
  "mlx5_alloc_cq_buf = (\<lambda>_. \<lparr>ml_path = 0, cqe_slid = 0, flags_rqpn = 0, srqn_uidx = 0, imm_inval_pkey = 0, app = 0,
     cqe_byte_cnt = 0, cqe_timestamp = 0, sop_drop_qpn = 0, wqe_counter = 0, op_own = push_bit 4 15\<rparr>)"

definition sw_ownership_bit :: "u32 \<Rightarrow> u32 \<Rightarrow> u8" where
  "sw_ownership_bit n nent = (if n AND nent \<noteq> 0 then 1 else 0)"

text \<open>
  The copy into the new buffer up to the entry that marks the change. The loop ends early on an entry
  of the device or after one turn; then the consumer index stays. The index is a C integer in the code
  and wraps here.
\<close>

definition resize_step :: "nat \<Rightarrow> u32 \<times> mlx5_cq \<Rightarrow> (u32 \<times> mlx5_cq, mlx5_cq) flow outcome" where
  "resize_step start_cqe = (\<lambda>(i, cq).
    let scqe = cq_cqes cq (unat (i AND active_cqes cq))
    in if cqe_opcode scqe = MLX5_CQE_RESIZE_CQ then ret (Return (cq\<lparr>cons_index := cons_index cq + 1\<rparr>))
       else
         let d = unat ((i + 1) AND (resize_cqes cq - 1));
             sw_own = sw_ownership_bit (i + 1) (resize_cqes cq);
             cq = cq\<lparr>resize_buf := (resize_buf cq)(d := scqe\<lparr>op_own := (op_own scqe AND NOT MLX5_CQE_OWNER_MASK) OR sw_own\<rparr>)\<rparr>;
             i = i + 1; n = unat (i AND active_cqes cq)
         in if is_hw (cq_cqes cq n) i (active_cqes cq) then ret (Return cq)
            else if n = start_cqe then ret (Return cq)
            else ret (Next (i, cq)))"

definition mlx5_cq_resize_copy_cqes :: "mlx5_cq \<Rightarrow> mlx5_cq outcome" where
  "mlx5_cq_resize_copy_cqes cq =
    (let i = cons_index cq; start_cqe = unat (i AND active_cqes cq)
     in if is_hw (cq_cqes cq start_cqe) i (active_cqes cq) then ret cq
        else loop (resize_step start_cqe) (i, cq))"

text \<open>
  The buffer for the entries may be missing; the command to the kernel gives its error and the queue
  as the device leaves it: it writes the mark into the old buffer. That the bytes of a buffer of
  the rounded number of entries fit a C integer is not tested by the code and is left to \<open>mem_ok\<close>.
\<close>

definition mlx5_resize_cq :: "bool \<Rightarrow> (mlx5_cq \<Rightarrow> int \<times> mlx5_cq) \<Rightarrow> int \<Rightarrow> mlx5_cq \<Rightarrow> (int \<times> mlx5_cq) outcome" where
  "mlx5_resize_cq mem_ok cmd cqe cq =
    (if cqe < 0 then ret (EINVAL, cq)
     else if 2 ^ 31 - 1 < cqe * 64 then ret (EINVAL, cq)
     else
       let cq = cq\<lparr>active_cqes := cq_cqe cq\<rparr>
       in bindC (mlx5_round_up_power_of_two (cqe + 1)) (\<lambda>cqe.
          if cqe = uint (cq_cqe cq) + 1 then ret (0, cq)
          else if \<not> mem_ok then ret (- 1, cq\<lparr>resize_cqes := word_of_int cqe\<rparr>)
          else
            case cmd (cq\<lparr>resize_cqes := word_of_int cqe, resize_buf := mlx5_alloc_cq_buf\<rparr>) of (err, cq) \<Rightarrow>
            if err \<noteq> 0 then ret (err, cq)
            else
              bindC (mlx5_cq_resize_copy_cqes cq) (\<lambda>cq.
              ret (0, mlx5_update_cons_index (cq\<lparr>cq_cqes := resize_buf cq, cq_cqe := word_of_int (cqe - 1)\<rparr>)))))"

end
