(* ===== verification/Mlx5_Tables.thy ===== *)
theory Mlx5_Tables
  imports Slots
begin

unbundle bit_operations_syntax

section \<open>Tables of resources\<close>

text \<open>
  The driver finds the resource a completion belongs to by its number, in tables of two levels: the
  first is an array of the context, the second is allocated for the first resource of a group of
  4096 numbers and freed with the last (\<^verbatim>\<open>qp.c\<close>, \<^verbatim>\<open>srq.c\<close>,
  \<^verbatim>\<open>mlx5.c\<close>, \<^verbatim>\<open>mlx5.h\<close>). An unallocated or freed second level is \<open>None\<close>
  and faults on access. Whether \<^verbatim>\<open>calloc\<close> finds memory is an argument. Mutexes are left out.
\<close>

definition MLX5_QP_TABLE_SHIFT :: nat where "MLX5_QP_TABLE_SHIFT = 12"
definition MLX5_QP_TABLE_MASK :: u32 where "MLX5_QP_TABLE_MASK = push_bit MLX5_QP_TABLE_SHIFT 1 - 1"
definition MLX5_QP_TABLE_SIZE :: nat where "MLX5_QP_TABLE_SIZE = 2 ^ (24 - MLX5_QP_TABLE_SHIFT)"

record 'a group =
  grp_table :: "(nat \<Rightarrow> 'a option) option"
  grp_refcnt :: int

type_synonym 'a groups = "nat \<Rightarrow> 'a group"

record ('r, 's) mlx5_tables =
  rsc_table :: "'r groups"
  srq_table :: "'s groups"
  uidx_table :: "'r groups"

definition tind :: "u32 \<Rightarrow> int" where
  "tind n = uint (drop_bit MLX5_QP_TABLE_SHIFT n)"

definition slot :: "u32 \<Rightarrow> nat" where
  "slot n = unat (n AND MLX5_QP_TABLE_MASK)"

definition find_in :: "u32 \<Rightarrow> 'a groups \<Rightarrow> 'a option outcome" where
  "find_in n g =
    bindC (index MLX5_QP_TABLE_SIZE (tind n)) (\<lambda>t.
    if grp_refcnt (g t) \<noteq> 0 then bindC (deref (grp_table (g t))) (\<lambda>tab. ret (tab (slot n))) else ret None)"

definition store_in :: "bool \<Rightarrow> u32 \<Rightarrow> 'a \<Rightarrow> 'a groups \<Rightarrow> (int \<times> 'a groups) outcome" where
  "store_in mem n r g =
    bindC (index MLX5_QP_TABLE_SIZE (tind n)) (\<lambda>t.
    let g = (if grp_refcnt (g t) = 0 then g(t := (g t)\<lparr>grp_table := if mem then Some (\<lambda>_. None) else None\<rparr>) else g)
    in if grp_refcnt (g t) = 0 \<and> grp_table (g t) = None then ret (- 1, g)
       else
         bindC (deref (grp_table (g t))) (\<lambda>tab.
         ret (0, g(t := \<lparr>grp_table = Some (tab(slot n \<mapsto> r)), grp_refcnt = grp_refcnt (g t) + 1\<rparr>))))"

definition clear_in :: "u32 \<Rightarrow> 'a groups \<Rightarrow> 'a groups outcome" where
  "clear_in n g =
    bindC (index MLX5_QP_TABLE_SIZE (tind n)) (\<lambda>t.
    let g = g(t := (g t)\<lparr>grp_refcnt := grp_refcnt (g t) - 1\<rparr>)
    in if grp_refcnt (g t) = 0 then ret (g(t := (g t)\<lparr>grp_table := None\<rparr>))
       else
         bindC (deref (grp_table (g t))) (\<lambda>tab.
         ret (g(t := (g t)\<lparr>grp_table := Some (tab(slot n := None))\<rparr>))))"

subsection \<open>Resources and shared receive queues by their number\<close>

definition mlx5_find_rsc :: "u32 \<Rightarrow> ('r, 's) mlx5_tables \<Rightarrow> 'r option outcome" where
  "mlx5_find_rsc rsn c = find_in rsn (rsc_table c)"

definition mlx5_store_rsc :: "bool \<Rightarrow> u32 \<Rightarrow> 'r \<Rightarrow> ('r, 's) mlx5_tables \<Rightarrow> (int \<times> ('r, 's) mlx5_tables) outcome" where
  "mlx5_store_rsc mem rsn r c = bindC (store_in mem rsn r (rsc_table c)) (\<lambda>(e, g). ret (e, c\<lparr>rsc_table := g\<rparr>))"

definition mlx5_clear_rsc :: "u32 \<Rightarrow> ('r, 's) mlx5_tables \<Rightarrow> ('r, 's) mlx5_tables outcome" where
  "mlx5_clear_rsc rsn c = bindC (clear_in rsn (rsc_table c)) (\<lambda>g. ret (c\<lparr>rsc_table := g\<rparr>))"

definition mlx5_find_srq :: "u32 \<Rightarrow> ('r, 's) mlx5_tables \<Rightarrow> 's option outcome" where
  "mlx5_find_srq srqn c = find_in srqn (srq_table c)"

definition mlx5_store_srq :: "bool \<Rightarrow> u32 \<Rightarrow> 's \<Rightarrow> ('r, 's) mlx5_tables \<Rightarrow> (int \<times> ('r, 's) mlx5_tables) outcome" where
  "mlx5_store_srq mem srqn r c = bindC (store_in mem srqn r (srq_table c)) (\<lambda>(e, g). ret (e, c\<lparr>srq_table := g\<rparr>))"

definition mlx5_clear_srq :: "u32 \<Rightarrow> ('r, 's) mlx5_tables \<Rightarrow> ('r, 's) mlx5_tables outcome" where
  "mlx5_clear_srq srqn c = bindC (clear_in srqn (srq_table c)) (\<lambda>g. ret (c\<lparr>srq_table := g\<rparr>))"

subsection \<open>User indices\<close>

text \<open>The first group with room, and its first empty slot; \<open>-1\<close> when every group is taken.\<close>

definition get_free_uidx :: "'r groups \<Rightarrow> int outcome" where
  "get_free_uidx g =
    (case find (\<lambda>t. grp_refcnt (g t) < uint MLX5_QP_TABLE_MASK) [0..<MLX5_QP_TABLE_SIZE] of
       None \<Rightarrow> ret (- 1)
     | Some t \<Rightarrow>
         if grp_refcnt (g t) = 0 then ret (int t * 2 ^ MLX5_QP_TABLE_SHIFT)
         else
           bindC (deref (grp_table (g t))) (\<lambda>tab.
           let i = (case find (\<lambda>i. tab i = None) [0..<unat MLX5_QP_TABLE_MASK + 1] of
                      None \<Rightarrow> unat MLX5_QP_TABLE_MASK + 1 | Some i \<Rightarrow> i)
           in ret (int t * 2 ^ MLX5_QP_TABLE_SHIFT OR int i)))"

definition mlx5_store_uidx :: "bool \<Rightarrow> 'r \<Rightarrow> ('r, 's) mlx5_tables \<Rightarrow> (u32 \<times> ('r, 's) mlx5_tables) outcome" where
  "mlx5_store_uidx mem r c =
    bindC (get_free_uidx (uidx_table c)) (\<lambda>uidx.
    if uidx < 0 then ret (- 1, c)
    else
      bindC (store_in mem (word_of_int uidx) r (uidx_table c)) (\<lambda>(e, g).
      ret (if e < 0 then - 1 else word_of_int uidx, c\<lparr>uidx_table := g\<rparr>)))"

definition mlx5_clear_uidx :: "u32 \<Rightarrow> ('r, 's) mlx5_tables \<Rightarrow> ('r, 's) mlx5_tables outcome" where
  "mlx5_clear_uidx uidx c = bindC (clear_in uidx (uidx_table c)) (\<lambda>g. ret (c\<lparr>uidx_table := g\<rparr>))"

definition mlx5_find_uidx :: "u32 \<Rightarrow> ('r, 's) mlx5_tables \<Rightarrow> 'r option outcome" where
  "mlx5_find_uidx uidx c = find_in uidx (uidx_table c)"

subsection \<open>A table as a map\<close>

text \<open>
  The contract of such a table: from numbers to resources, it is the map of what was stored and not
  cleared. A store may fail for lack of memory and changes nothing then.
\<close>

locale keyed_table =
  fixes ok :: "'c \<Rightarrow> bool" and lookup :: "'c \<Rightarrow> 'k \<Rightarrow> 'v option" and keys :: "'k set"
    and find_op :: "'k \<Rightarrow> 'c \<Rightarrow> 'v option outcome" and store_op :: "bool \<Rightarrow> 'k \<Rightarrow> 'v \<Rightarrow> 'c \<Rightarrow> (int \<times> 'c) outcome"
    and clear_op :: "'k \<Rightarrow> 'c \<Rightarrow> 'c outcome"
  assumes find_law: "ok c \<Longrightarrow> k \<in> keys \<Longrightarrow> find_op k c = ret (lookup c k)"
    and store_law: "ok c \<Longrightarrow> k \<in> keys \<Longrightarrow> lookup c k = None \<Longrightarrow> \<exists>e c'. store_op mem k v c = ret (e, c') \<and> ok c' \<and>
      (e = 0 \<and> lookup c' = (lookup c)(k \<mapsto> v) \<or> e = - 1 \<and> \<not> mem \<and> lookup c' = lookup c)"
    and clear_law: "ok c \<Longrightarrow> k \<in> keys \<Longrightarrow> lookup c k \<noteq> None \<Longrightarrow> \<exists>c'. clear_op k c = ret c' \<and> ok c' \<and> lookup c' = (lookup c)(k := None)"
begin

lemma store_cases:
  assumes "ok c" and "k \<in> keys" and "lookup c k = None" and "store_op mem k v c = ret (e, c')"
  shows "ok c' \<and> lookup c' = (if e = 0 then (lookup c)(k \<mapsto> v) else lookup c)"
  using store_law [OF assms(1-3), of mem v] assms(4) by auto

lemma store_mem: "ok c \<Longrightarrow> k \<in> keys \<Longrightarrow> lookup c k = None \<Longrightarrow> \<exists>c'. store_op True k v c = ret (0, c')"
  using store_law [of c k True v] by auto

lemma clear_cases:
  assumes "ok c" and "k \<in> keys" and "lookup c k \<noteq> None" and "clear_op k c = ret c'"
  shows "ok c' \<and> lookup c' = (lookup c)(k := None)"
  using clear_law [OF assms(1-3)] assms(4) by auto

lemma clear_stored:
  assumes "ok c" and "k \<in> keys" and "store_op mem k v c = ret (0, c')" and "lookup c k = None" and "clear_op k c' = ret c''"
  shows "ok c'' \<and> lookup c'' = lookup c"
  using store_cases [OF assms(1,2,4,3)] clear_cases [of c' k c''] assms(2,4,5) by (auto simp: fun_eq_iff)

end

definition numbers :: "u32 set" where
  "numbers = {n. unat n < 2 ^ 24}"

definition filled :: "(nat \<Rightarrow> 'a option) \<Rightarrow> nat set" where
  "filled tab = {j. j < 2 ^ 12 \<and> tab j \<noteq> None}"

definition group_ok :: "'a group \<Rightarrow> bool" where
  "group_ok p \<longleftrightarrow> grp_refcnt p = 0 \<or> (\<exists>tab. grp_table p = Some tab \<and> grp_refcnt p = int (card (filled tab)))"

definition groups_ok :: "'a groups \<Rightarrow> bool" where
  "groups_ok g \<longleftrightarrow> (\<forall>t < MLX5_QP_TABLE_SIZE. group_ok (g t))"

definition lookup_in :: "'a groups \<Rightarrow> u32 \<Rightarrow> 'a option" where
  "lookup_in g n = (let p = g (nat (tind n)) in
     if n \<notin> numbers \<or> grp_refcnt p = 0 then None else the (grp_table p) (slot n))"

lemma table_consts: "MLX5_QP_TABLE_SHIFT = 12" "MLX5_QP_TABLE_MASK = 2 ^ 12 - 1" "MLX5_QP_TABLE_SIZE = 4096"
  by (simp_all add: MLX5_QP_TABLE_SHIFT_def MLX5_QP_TABLE_MASK_def MLX5_QP_TABLE_SIZE_def push_bit_eq_mult)

lemma number_split: "tind n = int (unat n div 4096)" "slot n = unat n mod 4096"
proof -
  have "unat (drop_bit 12 n) = drop_bit 12 (unat n)"
  proof -
    have "unat n < 2 ^ LENGTH(32)" by (rule unsigned_less)
    then show ?thesis by (simp add: unsigned_drop_bit_eq take_bit_nat_eq_self)
  qed
  then have "unat (drop_bit 12 n) = unat n div 4096" by (simp add: drop_bit_eq_div)
  then show "tind n = int (unat n div 4096)" unfolding tind_def table_consts uint_nat by (rule arg_cong)
  have "n AND MLX5_QP_TABLE_MASK = take_bit 12 n" by (simp add: table_consts take_bit_eq_mask mask_eq_exp_minus_1)
  then have "slot n = take_bit 12 (unat n)" by (simp only: slot_def unsigned_take_bit_eq)
  then show "slot n = unat n mod 4096" by (simp add: take_bit_eq_mod)
qed

lemma number_eq: "n = m \<longleftrightarrow> tind n = tind m \<and> slot n = slot m"
  unfolding number_split word_unat_eq_iff by (metis div_mult_mod_eq of_nat_eq_iff)

lemma number_bounds: "n \<in> numbers \<Longrightarrow> 0 \<le> tind n \<and> tind n < 4096" "slot n < 4096"
  by (auto simp: number_split numbers_def)

lemma index_tind [simp]: "n \<in> numbers \<Longrightarrow> index MLX5_QP_TABLE_SIZE (tind n) = ret (nat (tind n))"
  using number_bounds(1) [of n] by (simp add: index_def table_consts)

lemma finite_filled [simp]: "finite (filled tab)"
  by (simp add: filled_def)

lemma filled_upd: "j < 2 ^ 12 \<Longrightarrow> filled (tab(j \<mapsto> r)) = insert j (filled tab)" "filled (tab(j := None)) = filled tab - {j}"
  by (auto simp: filled_def)

lemma group_at: "groups_ok g \<Longrightarrow> n \<in> numbers \<Longrightarrow> group_ok (g (nat (tind n)))"
  using number_bounds(1) [of n] by (simp add: groups_ok_def table_consts nat_less_iff)

lemma groups_upd: "groups_ok g \<Longrightarrow> group_ok p \<Longrightarrow> groups_ok (g(t := p))"
  by (simp add: groups_ok_def)

lemma lookup_upd:
  assumes "n \<in> numbers" and "grp_refcnt p \<noteq> 0" and "grp_table p = Some tab"
    and "\<And>j. j \<noteq> slot n \<Longrightarrow> tab j = (if grp_refcnt (g (nat (tind n))) = 0 then None else the (grp_table (g (nat (tind n)))) j)"
  shows "lookup_in (g(nat (tind n) := p)) = (lookup_in g)(n := tab (slot n))"
proof
  fix m
  show "lookup_in (g(nat (tind n) := p)) m = ((lookup_in g)(n := tab (slot n))) m"
    using assms number_eq [of n m] number_bounds(1) [of n] number_bounds(1) [of m]
    by (cases "m \<in> numbers") (auto simp: lookup_in_def Let_def nat_eq_iff2)
qed

lemma find_in_eq: "groups_ok g \<Longrightarrow> n \<in> numbers \<Longrightarrow> find_in n g = ret (lookup_in g n)"
  using group_at [of g n] by (auto simp: find_in_def lookup_in_def group_ok_def Let_def)

lemma store_in_eq:
  assumes "groups_ok g" and "n \<in> numbers" and "lookup_in g n = None"
  shows "\<exists>e g'. store_in mem n r g = ret (e, g') \<and> groups_ok g' \<and>
    (e = 0 \<and> lookup_in g' = (lookup_in g)(n \<mapsto> r) \<or> e = - 1 \<and> \<not> mem \<and> lookup_in g' = lookup_in g)"
proof (cases "grp_refcnt (g (nat (tind n))) = 0")
  case True
  let ?t = "nat (tind n)"
  show ?thesis
  proof (cases mem)
    case True
    let ?p = "\<lparr>grp_table = Some [slot n \<mapsto> r], grp_refcnt = 1\<rparr>"
    have "filled [slot n \<mapsto> r] = {slot n}" using filled_upd(1) [of "slot n" Map.empty r] number_bounds(2) [of n]
      by (simp add: filled_def)
    then have "group_ok ?p" by (simp add: group_ok_def)
    moreover have "lookup_in (g(?t := ?p)) = (lookup_in g)(n \<mapsto> r)"
      using lookup_upd [OF assms(2), of ?p "[slot n \<mapsto> r]" g] \<open>grp_refcnt (g ?t) = 0\<close> by simp
    ultimately show ?thesis using True \<open>grp_refcnt (g ?t) = 0\<close> assms groups_upd [OF assms(1)] by (simp add: store_in_def Let_def)
  next
    case False
    let ?p = "(g ?t)\<lparr>grp_table := None\<rparr>"
    have "lookup_in (g(?t := ?p)) = lookup_in g" using True by (auto simp: lookup_in_def fun_eq_iff Let_def)
    moreover have "group_ok ?p" using True by (simp add: group_ok_def)
    ultimately show ?thesis using False True assms groups_upd [OF assms(1)] by (simp add: store_in_def Let_def)
  qed
next
  case False
  let ?t = "nat (tind n)"
  from False group_at [OF assms(1,2)] obtain tab where tab: "grp_table (g ?t) = Some tab" "grp_refcnt (g ?t) = int (card (filled tab))"
    by (auto simp: group_ok_def)
  let ?p = "\<lparr>grp_table = Some (tab(slot n \<mapsto> r)), grp_refcnt = grp_refcnt (g ?t) + 1\<rparr>"
  have "slot n \<notin> filled tab" using assms(2,3) tab(1) False by (simp add: lookup_in_def filled_def Let_def)
  then have "group_ok ?p" using tab filled_upd(1) [of "slot n" tab r] number_bounds(2) [of n] by (simp add: group_ok_def)
  moreover have "lookup_in (g(?t := ?p)) = (lookup_in g)(n \<mapsto> r)"
    using lookup_upd [OF assms(2), of ?p "tab(slot n \<mapsto> r)" g] tab False by simp
  ultimately show ?thesis using False tab assms(2) groups_upd [OF assms(1)] by (simp add: store_in_def Let_def)
qed

lemma clear_in_eq:
  assumes "groups_ok g" and "n \<in> numbers" and "lookup_in g n \<noteq> None"
  shows "\<exists>g'. clear_in n g = ret g' \<and> groups_ok g' \<and> lookup_in g' = (lookup_in g)(n := None)"
proof -
  let ?t = "nat (tind n)"
  from assms group_at [OF assms(1,2)] obtain tab where tab: "grp_table (g ?t) = Some tab" "grp_refcnt (g ?t) = int (card (filled tab))"
    and nz: "grp_refcnt (g ?t) \<noteq> 0" and at: "tab (slot n) \<noteq> None"
    by (auto simp: group_ok_def lookup_in_def Let_def split: if_splits)
  have in_f: "slot n \<in> filled tab" using at number_bounds(2) [of n] by (simp add: filled_def)
  show ?thesis
  proof (cases "grp_refcnt (g ?t) = 1")
    case True
    let ?p = "(g ?t)\<lparr>grp_refcnt := 0, grp_table := None\<rparr>"
    have "card (filled tab) = 1" using tab(2) True by simp
    then obtain x where "filled tab = {x}" by (rule card_1_singletonE)
    then have only: "filled tab = {slot n}" using in_f by simp
    have empty: "tab j = None" if "j < 2 ^ 12" "j \<noteq> slot n" for j
    proof -
      have "j \<notin> filled tab" unfolding only using that by simp
      then show ?thesis using that by (simp add: filled_def)
    qed
    have "lookup_in (g(?t := ?p)) = (lookup_in g)(n := None)"
    proof
      fix m
      show "lookup_in (g(?t := ?p)) m = ((lookup_in g)(n := None)) m"
      proof (cases "m \<in> numbers \<and> tind m = tind n")
        case True
        then show ?thesis using empty [of "slot m"] tab number_bounds(2) [of m] number_eq [of n m] by (auto simp: lookup_in_def Let_def)
      next
        case False
        then show ?thesis using number_bounds(1) [of n] number_bounds(1) [of m] assms(2) by (auto simp: lookup_in_def Let_def nat_eq_iff2)
      qed
    qed
    moreover have "group_ok ?p" by (simp add: group_ok_def)
    ultimately show ?thesis using True tab assms(2) groups_upd [OF assms(1)] by (simp add: clear_in_def Let_def)
  next
    case False
    let ?p = "(g ?t)\<lparr>grp_refcnt := grp_refcnt (g ?t) - 1, grp_table := Some (tab(slot n := None))\<rparr>"
    have "card (filled tab) = card (filled (tab(slot n := None))) + 1"
      using card.remove [OF finite_filled in_f] by (simp add: filled_upd(2))
    then have "group_ok ?p" using tab by (simp add: group_ok_def)
    moreover have "lookup_in (g(?t := ?p)) = (lookup_in g)(n := None)"
      using lookup_upd [OF assms(2), of ?p "tab(slot n := None)" g] tab nz False by simp
    ultimately show ?thesis using False tab assms(2) groups_upd [OF assms(1)] by (simp add: clear_in_def Let_def)
  qed
qed

subsection \<open>The tables of the context\<close>

definition rsc_ok :: "('r, 's) mlx5_tables \<Rightarrow> bool" where
  "rsc_ok c \<longleftrightarrow> groups_ok (rsc_table c)"

definition srqs_ok :: "('r, 's) mlx5_tables \<Rightarrow> bool" where
  "srqs_ok c \<longleftrightarrow> groups_ok (srq_table c)"

interpretation rscs: keyed_table rsc_ok "\<lambda>c. lookup_in (rsc_table c)" numbers mlx5_find_rsc mlx5_store_rsc mlx5_clear_rsc
proof unfold_locales
  fix c :: "('r, 's) mlx5_tables" and k v mem
  assume ok: "rsc_ok c" and k: "k \<in> numbers"
  show "mlx5_find_rsc k c = ret (lookup_in (rsc_table c) k)"
    using ok k by (simp add: mlx5_find_rsc_def rsc_ok_def find_in_eq)
  assume "lookup_in (rsc_table c) k = None"
  with ok k show "\<exists>e c'. mlx5_store_rsc mem k v c = ret (e, c') \<and> rsc_ok c' \<and>
      (e = 0 \<and> lookup_in (rsc_table c') = (lookup_in (rsc_table c))(k \<mapsto> v) \<or>
       e = - 1 \<and> \<not> mem \<and> lookup_in (rsc_table c') = lookup_in (rsc_table c))"
    using store_in_eq [of "rsc_table c" k mem v] by (auto simp: mlx5_store_rsc_def rsc_ok_def)
next
  fix c :: "('r, 's) mlx5_tables" and k
  assume "rsc_ok c" "k \<in> numbers" "lookup_in (rsc_table c) k \<noteq> None"
  then show "\<exists>c'. mlx5_clear_rsc k c = ret c' \<and> rsc_ok c' \<and> lookup_in (rsc_table c') = (lookup_in (rsc_table c))(k := None)"
    using clear_in_eq [of "rsc_table c" k] by (auto simp: mlx5_clear_rsc_def rsc_ok_def)
qed

interpretation srqs: keyed_table srqs_ok "\<lambda>c. lookup_in (srq_table c)" numbers mlx5_find_srq mlx5_store_srq mlx5_clear_srq
proof unfold_locales
  fix c :: "('r, 's) mlx5_tables" and k v mem
  assume ok: "srqs_ok c" and k: "k \<in> numbers"
  show "mlx5_find_srq k c = ret (lookup_in (srq_table c) k)"
    using ok k by (simp add: mlx5_find_srq_def srqs_ok_def find_in_eq)
  assume "lookup_in (srq_table c) k = None"
  with ok k show "\<exists>e c'. mlx5_store_srq mem k v c = ret (e, c') \<and> srqs_ok c' \<and>
      (e = 0 \<and> lookup_in (srq_table c') = (lookup_in (srq_table c))(k \<mapsto> v) \<or>
       e = - 1 \<and> \<not> mem \<and> lookup_in (srq_table c') = lookup_in (srq_table c))"
    using store_in_eq [of "srq_table c" k mem v] by (auto simp: mlx5_store_srq_def srqs_ok_def)
next
  fix c :: "('r, 's) mlx5_tables" and k
  assume "srqs_ok c" "k \<in> numbers" "lookup_in (srq_table c) k \<noteq> None"
  then show "\<exists>c'. mlx5_clear_srq k c = ret c' \<and> srqs_ok c' \<and> lookup_in (srq_table c') = (lookup_in (srq_table c))(k := None)"
    using clear_in_eq [of "srq_table c" k] by (auto simp: mlx5_clear_srq_def srqs_ok_def)
qed

text \<open>A group with less than its number of entries has an empty slot.\<close>

lemma free_slot:
  assumes "int (card (filled tab)) < 4096"
  obtains i where "find (\<lambda>i. tab i = None) [0..<4096] = Some i" "i < 4096" "tab i = None"
proof -
  have "\<exists>i < 4096. tab i = None"
  proof (rule ccontr)
    assume "\<not> (\<exists>i < 4096. tab i = None)"
    then have "filled tab = {0..<4096}" by (auto simp: filled_def)
    then have "card (filled tab) = 4096" by simp
    then show False using assms by simp
  qed
  then have "find (\<lambda>i. tab i = None) [0..<4096] \<noteq> None" by (auto simp: find_None_iff)
  then obtain i where i: "find (\<lambda>i. tab i = None) [0..<4096] = Some i" by blast
  then have "i < 4096" "tab i = None" by (auto simp: find_Some_iff)
  with i show thesis by (rule that)
qed

lemma uidx_number:
  assumes "t < 4096" and "i < 4096"
  shows "int t * 2 ^ 12 OR int i = int (t * 4096 + i)" and "word_of_int (int (t * 4096 + i)) \<in> numbers"
    and "tind (word_of_int (int (t * 4096 + i))) = int t" and "slot (word_of_int (int (t * 4096 + i))) = i"
proof -
  have "int i = take_bit 12 (int i)" using assms(2) by (simp add: take_bit_int_eq_self)
  have "int t * 2 ^ 12 OR int i = push_bit 12 (int t) OR take_bit 12 (int i)"
    using \<open>int i = take_bit 12 (int i)\<close> by (simp add: push_bit_eq_mult)
  also have "\<dots> = push_bit 12 (int t) + take_bit 12 (int i)"
    by (rule disjunctive_add [symmetric]) (auto simp: bit_simps)
  finally show "int t * 2 ^ 12 OR int i = int (t * 4096 + i)"
    using \<open>int i = take_bit 12 (int i)\<close> by (simp add: push_bit_eq_mult)
  have u: "unat (word_of_int (int (t * 4096 + i)) :: u32) = t * 4096 + i"
    using assms by (simp only: of_int_of_nat_eq unat_of_nat) simp
  show "word_of_int (int (t * 4096 + i)) \<in> numbers" "tind (word_of_int (int (t * 4096 + i))) = int t"
    "slot (word_of_int (int (t * 4096 + i))) = i"
    using assms by (simp_all only: numbers_def number_split u mem_Collect_eq) simp_all
qed

lemma get_free_eq:
  assumes "groups_ok g"
  shows "(\<exists>n \<in> numbers. get_free_uidx g = ret (uint n) \<and> lookup_in g n = None) \<or>
    get_free_uidx g = ret (- 1) \<and> (\<forall>t < 4096. 4095 \<le> grp_refcnt (g t))"
proof (cases "find (\<lambda>t. grp_refcnt (g t) < 4095) [0..<4096]")
  case None
  then have "4095 \<le> grp_refcnt (g t)" if "t < 4096" for t
    using None that unfolding find_None_iff by (metis atLeastLessThan_iff le0 not_less set_upt)
  moreover have "get_free_uidx g = ret (- 1)" using None by (simp add: get_free_uidx_def table_consts)
  ultimately show ?thesis by blast
next
  case (Some t)
  then have t: "t < 4096" "grp_refcnt (g t) < 4095" by (auto simp: find_Some_iff)
  have number: "\<exists>n \<in> numbers. int (t * 4096 + i) = uint n \<and> tind n = int t \<and> slot n = i" if "i < 4096" for i
  proof -
    let ?n = "word_of_int (int (t * 4096 + i)) :: u32"
    have "uint ?n = int (t * 4096 + i)" using t(1) that by (simp only: of_int_of_nat_eq uint_nat unat_of_nat) simp
    then show ?thesis using uidx_number(2-4) [OF t(1) that] by (intro bexI [of _ ?n]) simp_all
  qed
  show ?thesis
  proof (cases "grp_refcnt (g t) = 0")
    case True
    obtain n where n: "n \<in> numbers" "int (t * 4096) = uint n" "tind n = int t" using number [of 0] by auto
    have "get_free_uidx g = ret (int (t * 4096))" using Some True by (simp add: get_free_uidx_def table_consts)
    then show ?thesis using n True by (intro disjI1 bexI [of _ n]) (simp_all add: lookup_in_def)
  next
    case False
    have "group_ok (g t)" using assms t(1) by (simp add: groups_ok_def table_consts)
    with False t(2) obtain tab where tab: "grp_table (g t) = Some tab" "int (card (filled tab)) < 4096" by (auto simp: group_ok_def)
    from free_slot [OF tab(2)] obtain i where i: "find (\<lambda>i. tab i = None) [0..<4096] = Some i" "i < 4096" "tab i = None" .
    obtain n where n: "n \<in> numbers" "int (t * 4096 + i) = uint n" "tind n = int t" "slot n = i" using number [OF i(2)] by auto
    have "get_free_uidx g = ret (int t * 2 ^ 12 OR int i)"
      using Some False tab(1) i(1) by (simp add: get_free_uidx_def table_consts)
    then have "get_free_uidx g = ret (int (t * 4096 + i))" unfolding uidx_number(1) [OF t(1) i(2)] .
    then show ?thesis using n tab(1) i(3) by (intro disjI1 bexI [of _ n]) (simp_all add: lookup_in_def Let_def)
  qed
qed

definition uidx_ok :: "('r, 's) mlx5_tables \<Rightarrow> bool" where
  "uidx_ok c \<longleftrightarrow> groups_ok (uidx_table c)"

lemma numbers_minus_one: "- 1 \<notin> numbers"
  by (simp add: numbers_def unsigned_minus_1_eq_mask mask_eq_exp_minus_1)

lemma store_uidx_eq:
  assumes "uidx_ok c"
  shows "\<exists>u c'. mlx5_store_uidx mem r c = ret (u, c') \<and> uidx_ok c' \<and> rsc_table c' = rsc_table c \<and> srq_table c' = srq_table c \<and>
    (if u = - 1 then lookup_in (uidx_table c') = lookup_in (uidx_table c) \<and> (mem \<longrightarrow> (\<forall>t < 4096. 4095 \<le> grp_refcnt (uidx_table c t)))
     else u \<in> numbers \<and> lookup_in (uidx_table c) u = None \<and> lookup_in (uidx_table c') = (lookup_in (uidx_table c))(u \<mapsto> r))"
proof -
  from get_free_eq [OF assms [unfolded uidx_ok_def]] show ?thesis
  proof (elim disjE conjE bexE)
    fix n
    assume n: "n \<in> numbers" "get_free_uidx (uidx_table c) = ret (uint n)" "lookup_in (uidx_table c) n = None"
    have "n \<noteq> - 1" using n(1) numbers_minus_one by metis
    from store_in_eq [OF assms [unfolded uidx_ok_def] n(1,3), of mem r] obtain e g' where
      "store_in mem n r (uidx_table c) = ret (e, g')" "groups_ok g'"
      "e = 0 \<and> lookup_in g' = (lookup_in (uidx_table c))(n \<mapsto> r) \<or> e = - 1 \<and> \<not> mem \<and> lookup_in g' = lookup_in (uidx_table c)" by blast
    then show ?thesis using n \<open>n \<noteq> - 1\<close> by (auto simp: mlx5_store_uidx_def uidx_ok_def)
  next
    assume "get_free_uidx (uidx_table c) = ret (- 1)" "\<forall>t<4096. 4095 \<le> grp_refcnt (uidx_table c t)"
    then show ?thesis using assms by (simp add: mlx5_store_uidx_def uidx_ok_def)
  qed
qed

lemma clear_uidx_eq:
  assumes "uidx_ok c" and "u \<in> numbers" and "lookup_in (uidx_table c) u \<noteq> None"
  shows "\<exists>c'. mlx5_clear_uidx u c = ret c' \<and> uidx_ok c' \<and> rsc_table c' = rsc_table c \<and> srq_table c' = srq_table c \<and>
    lookup_in (uidx_table c') = (lookup_in (uidx_table c))(u := None)"
  using clear_in_eq [OF assms(1) [unfolded uidx_ok_def] assms(2,3)] by (auto simp: mlx5_clear_uidx_def uidx_ok_def)

text \<open>User indices are slots: \<open>None\<close> stands for the result \<open>-1\<close>.\<close>

definition alloc_uidx :: "bool \<times> 'r \<Rightarrow> ('r, 's) mlx5_tables \<Rightarrow> (u32 option \<times> ('r, 's) mlx5_tables) outcome" where
  "alloc_uidx e c = bindC (mlx5_store_uidx (fst e) (snd e) c) (\<lambda>(u, c). ret (if u = - 1 then None else Some u, c))"

definition live_uidx :: "('r, 's) mlx5_tables \<Rightarrow> u32 set" where
  "live_uidx c = dom (lookup_in (uidx_table c))"

lemma lookup_numbers: "lookup_in g n \<noteq> None \<Longrightarrow> n \<in> numbers"
  by (auto simp: lookup_in_def Let_def split: if_splits)

interpretation uidx: slot_allocator uidx_ok live_uidx "\<lambda>_ _. True" alloc_uidx mlx5_clear_uidx
proof unfold_locales
  fix c :: "('r, 's) mlx5_tables" and e :: "bool \<times> 'r"
  assume "uidx_ok c"
  from store_uidx_eq [OF this, of "fst e" "snd e"] show "\<exists>a c'. alloc_uidx e c = ret (a, c') \<and> uidx_ok c' \<and>
      (case a of None \<Rightarrow> live_uidx c' = live_uidx c | Some x \<Rightarrow> x \<notin> live_uidx c \<and> live_uidx c' = insert x (live_uidx c))"
    by (force simp: alloc_uidx_def live_uidx_def split: if_splits)
next
  fix c :: "('r, 's) mlx5_tables" and u
  assume "uidx_ok c" "u \<in> live_uidx c"
  then show "\<exists>c'. mlx5_clear_uidx u c = ret c' \<and> uidx_ok c' \<and> live_uidx c' = live_uidx c - {u}"
    using clear_uidx_eq [of c u] lookup_numbers [of "uidx_table c" u] by (auto simp: live_uidx_def dom_def)
qed

subsection \<open>Runs\<close>

text \<open>
  The driver creates and destroys resources in any order: it stores a resource under a number that is
  not in use, and clears numbers that are. \<open>rs\<close>, \<open>ss\<close> and \<open>us\<close> are what it has stored in the
  three tables, as the results of the calls tell.
\<close>

definition empty_tables :: "('r, 's) mlx5_tables \<Rightarrow> bool" where
  "empty_tables c \<longleftrightarrow> (\<forall>t. grp_refcnt (rsc_table c t) = 0 \<and> grp_refcnt (srq_table c t) = 0 \<and> grp_refcnt (uidx_table c t) = 0)"

inductive tables_run :: "('r, 's) mlx5_tables \<Rightarrow> (u32 \<Rightarrow> 'r option) \<Rightarrow> (u32 \<Rightarrow> 's option) \<Rightarrow> (u32 \<Rightarrow> 'r option) \<Rightarrow> bool" where
  start: "empty_tables c \<Longrightarrow> tables_run c Map.empty Map.empty Map.empty"
| store_rsc: "tables_run c rs ss us \<Longrightarrow> k \<in> numbers \<Longrightarrow> rs k = None \<Longrightarrow> mlx5_store_rsc mem k r c = ret (e, c') \<Longrightarrow>
    tables_run c' (if e = 0 then rs(k \<mapsto> r) else rs) ss us"
| clear_rsc: "tables_run c rs ss us \<Longrightarrow> k \<in> numbers \<Longrightarrow> rs k \<noteq> None \<Longrightarrow> mlx5_clear_rsc k c = ret c' \<Longrightarrow>
    tables_run c' (rs(k := None)) ss us"
| store_srq: "tables_run c rs ss us \<Longrightarrow> k \<in> numbers \<Longrightarrow> ss k = None \<Longrightarrow> mlx5_store_srq mem k q c = ret (e, c') \<Longrightarrow>
    tables_run c' rs (if e = 0 then ss(k \<mapsto> q) else ss) us"
| clear_srq: "tables_run c rs ss us \<Longrightarrow> k \<in> numbers \<Longrightarrow> ss k \<noteq> None \<Longrightarrow> mlx5_clear_srq k c = ret c' \<Longrightarrow>
    tables_run c' rs (ss(k := None)) us"
| store_uidx: "tables_run c rs ss us \<Longrightarrow> mlx5_store_uidx mem r c = ret (u, c') \<Longrightarrow>
    tables_run c' rs ss (if u = - 1 then us else us(u \<mapsto> r))"
| clear_uidx: "tables_run c rs ss us \<Longrightarrow> us k \<noteq> None \<Longrightarrow> mlx5_clear_uidx k c = ret c' \<Longrightarrow>
    tables_run c' rs ss (us(k := None))"

definition tables_hold :: "('r, 's) mlx5_tables \<Rightarrow> (u32 \<Rightarrow> 'r option) \<Rightarrow> (u32 \<Rightarrow> 's option) \<Rightarrow> (u32 \<Rightarrow> 'r option) \<Rightarrow> bool" where
  "tables_hold c rs ss us \<longleftrightarrow> rsc_ok c \<and> srqs_ok c \<and> uidx_ok c \<and> lookup_in (rsc_table c) = rs \<and> lookup_in (srq_table c) = ss \<and>
     lookup_in (uidx_table c) = us"

lemma table_frames:
  "mlx5_store_rsc mem k r c = ret (e, c') \<Longrightarrow> srq_table c' = srq_table c \<and> uidx_table c' = uidx_table c"
  "mlx5_clear_rsc k c = ret c' \<Longrightarrow> srq_table c' = srq_table c \<and> uidx_table c' = uidx_table c"
  "mlx5_store_srq mem k q c = ret (e, c') \<Longrightarrow> rsc_table c' = rsc_table c \<and> uidx_table c' = uidx_table c"
  "mlx5_clear_srq k c = ret c' \<Longrightarrow> rsc_table c' = rsc_table c \<and> uidx_table c' = uidx_table c"
  by (auto simp: mlx5_store_rsc_def mlx5_clear_rsc_def mlx5_store_srq_def mlx5_clear_srq_def bindC_eq_ret)

lemma tables_run_hold: "tables_run c rs ss us \<Longrightarrow> tables_hold c rs ss us"
proof (induction rule: tables_run.induct)
  case (start c)
  then show ?case
    by (auto simp: tables_hold_def empty_tables_def rsc_ok_def srqs_ok_def uidx_ok_def groups_ok_def group_ok_def lookup_in_def Let_def)
next
  case (store_rsc c rs ss us k mem r e c')
  then show ?case using rscs.store_cases [of c k mem r e c'] table_frames(1) [of mem k r c e c']
    by (simp add: tables_hold_def srqs_ok_def uidx_ok_def)
next
  case (clear_rsc c rs ss us k c')
  then show ?case using rscs.clear_cases [of c k c'] table_frames(2) [of k c c']
    by (simp add: tables_hold_def srqs_ok_def uidx_ok_def fun_upd_def)
next
  case (store_srq c rs ss us k mem q e c')
  then show ?case using srqs.store_cases [of c k mem q e c'] table_frames(3) [of mem k q c e c']
    by (simp add: tables_hold_def rsc_ok_def uidx_ok_def)
next
  case (clear_srq c rs ss us k c')
  then show ?case using srqs.clear_cases [of c k c'] table_frames(4) [of k c c']
    by (simp add: tables_hold_def rsc_ok_def uidx_ok_def fun_upd_def)
next
  case (store_uidx c rs ss us mem r u c')
  then show ?case using store_uidx_eq [of c mem r] by (auto simp: tables_hold_def rsc_ok_def srqs_ok_def)
next
  case (clear_uidx c rs ss us k c')
  then have "uidx_ok c" "lookup_in (uidx_table c) k \<noteq> None" by (simp_all add: tables_hold_def)
  with clear_uidx_eq [OF this(1) lookup_numbers [OF this(2)] this(2)] clear_uidx show ?case
    by (auto simp: tables_hold_def rsc_ok_def srqs_ok_def)
qed

lemma group_card:
  assumes "groups_ok g" and "t < 4096"
  shows "grp_refcnt (g t) \<le> int (card (dom (lookup_in g)))"
proof (cases "grp_refcnt (g t) = 0")
  case False
  from assms False obtain tab where tab: "grp_table (g t) = Some tab" "grp_refcnt (g t) = int (card (filled tab))"
    by (auto simp: groups_ok_def group_ok_def table_consts)
  let ?n = "\<lambda>i. word_of_int (int (t * 4096 + i)) :: u32"
  have n: "i < 4096" "slot (?n i) = i" "?n i \<in> dom (lookup_in g)" if "i \<in> filled tab" for i
  proof -
    show i: "i < 4096" using that by (simp add: filled_def)
    show "slot (?n i) = i" by (rule uidx_number(4) [OF assms(2) i])
    show "?n i \<in> dom (lookup_in g)"
      using uidx_number(2-4) [OF assms(2) i] that tab(1) False by (auto simp: lookup_in_def Let_def filled_def)
  qed
  have "inj_on ?n (filled tab)" by (rule inj_on_inverseI [of _ slot]) (rule n(2))
  then have "card (filled tab) \<le> card (dom (lookup_in g))"
    by (rule card_inj_on_le) (use n(3) in \<open>auto intro: finite_subset [OF subset_UNIV]\<close>)
  then show ?thesis using tab(2) by simp
qed simp

text \<open>
  C36: the two-level tables are maps. After any run of stores and clears, in any order and with
  \<^verbatim>\<open>calloc\<close> failing at any of them, a number finds exactly the resource that was stored under
  it and not cleared, in each of the three tables; and an index the driver is given for a resource
  was not in use. With memory, and fewer than 4095 resources, there is one.
\<close>

theorem tables_are_maps:
  assumes "tables_run c rs ss us" and "k \<in> numbers"
  shows "mlx5_find_rsc k c = ret (rs k) \<and> mlx5_find_srq k c = ret (ss k) \<and> mlx5_find_uidx k c = ret (us k) \<and>
    (\<exists>u c'. mlx5_store_uidx mem r c = ret (u, c') \<and> (u = - 1 \<or> us u = None) \<and> (mem \<and> card (dom us) < 4095 \<longrightarrow> u \<noteq> - 1))"
proof -
  have h: "tables_hold c rs ss us" by (rule tables_run_hold [OF assms(1)])
  then have ok: "rsc_ok c" "srqs_ok c" "uidx_ok c" by (simp_all add: tables_hold_def)
  obtain u c' where u: "mlx5_store_uidx mem r c = ret (u, c')" "u = - 1 \<or> us u = None"
    and full: "u = - 1 \<longrightarrow> mem \<longrightarrow> (\<forall>t < 4096. 4095 \<le> grp_refcnt (uidx_table c t))"
    using store_uidx_eq [OF ok(3), of mem r] h by (auto simp: tables_hold_def split: if_splits)
  have "u \<noteq> - 1" if "mem" "card (dom us) < 4095"
  proof
    assume "u = - 1"
    then have "4095 \<le> grp_refcnt (uidx_table c 0)" using full that(1) by simp
    moreover have "grp_refcnt (uidx_table c 0) \<le> int (card (dom us))"
      using group_card [of "uidx_table c" 0] ok(3) h by (simp add: uidx_ok_def tables_hold_def)
    ultimately show False using that(2) by linarith
  qed
  then show ?thesis using rscs.find_law [OF ok(1) assms(2)] srqs.find_law [OF ok(2) assms(2)] u h assms(2) find_in_eq [of "uidx_table c" k]
    by (auto simp: tables_hold_def mlx5_find_uidx_def uidx_ok_def)
qed

definition no_tables :: "(nat, nat) mlx5_tables" where
  "no_tables = \<lparr>rsc_table = (\<lambda>_. \<lparr>grp_table = None, grp_refcnt = 0\<rparr>), srq_table = (\<lambda>_. \<lparr>grp_table = None, grp_refcnt = 0\<rparr>),
     uidx_table = (\<lambda>_. \<lparr>grp_table = None, grp_refcnt = 0\<rparr>)\<rparr>"

lemma tables_are_maps_witness:
  "\<exists>c :: (nat, nat) mlx5_tables. tables_run c [0x1001 \<mapsto> 7] Map.empty Map.empty \<and> mlx5_find_rsc 0x1001 c = ret (Some 7) \<and> mlx5_find_rsc 0x2001 c = ret None \<and>
    mlx5_find_srq 0x1001 c = ret None \<and> mlx5_find_uidx 0 c = ret None"
proof -
  have s: "tables_run no_tables Map.empty Map.empty Map.empty" by (rule tables_run.start) (simp add: empty_tables_def no_tables_def)
  have k: "0x1001 \<in> numbers" "0x2001 \<in> numbers" "0 \<in> numbers" by (simp_all add: numbers_def)
  have "rsc_ok no_tables" "lookup_in (rsc_table no_tables) 0x1001 = None"
    using tables_run_hold [OF s] by (simp_all add: tables_hold_def)
  from rscs.store_mem [OF this(1) k(1) this(2), of 7] obtain c where "mlx5_store_rsc True 0x1001 7 no_tables = ret (0, c)" by blast
  with tables_run.store_rsc [OF s k(1), of True 7 0 c] have c: "tables_run c [0x1001 \<mapsto> 7] Map.empty Map.empty" by simp
  from tables_are_maps [OF c k(1)] tables_are_maps [OF c k(2)] tables_are_maps [OF c k(3)] c show ?thesis
    by (intro exI [of _ c]) simp
qed

text \<open>
  However user indices are taken and given back, those in use are distinct, and each is one the
  tables have an entry for; giving one back frees exactly that one.
\<close>

lemma uidx_distinct:
  assumes "uidx_ok c" and "live_uidx c = {}"
    and "slot_legal (\<lambda>_ _. True) alloc_uidx mlx5_clear_uidx xs ([], c)"
  shows "\<exists>held c'. slot_run alloc_uidx mlx5_clear_uidx xs ([], c) = ret (held, c') \<and> distinct held \<and>
    set held = dom (lookup_in (uidx_table c')) \<and> (\<forall>u \<in> set held. u \<in> numbers)"
proof -
  have "distinct ([] :: u32 list)" "set [] = live_uidx c" using assms(2) by simp_all
  from uidx.run_held [OF assms(1) this assms(3)] show ?thesis
    using lookup_numbers by (fastforce simp: live_uidx_def)
qed

lemma uidx_distinct_witness:
  "\<exists>held c'. slot_run alloc_uidx mlx5_clear_uidx [Get (True, 1), Get (False, 2), Get (True, 3)] ([], no_tables) = ret (held, c') \<and> distinct held"
proof -
  have "uidx_ok no_tables" by (simp add: uidx_ok_def groups_ok_def group_ok_def no_tables_def)
  moreover have "live_uidx no_tables = {}" by (auto simp: live_uidx_def lookup_in_def no_tables_def)
  moreover have "slot_legal (\<lambda>_ _. True) alloc_uidx mlx5_clear_uidx [Get (True, 1), Get (False, 2), Get (True, 3)] ([], no_tables)" by simp
  ultimately show ?thesis using uidx_distinct by blast
qed

end
