(* ===== verification/Mlx5_Poll.thy ===== *)
theory Mlx5_Poll
  imports Mlx5_Sq Mlx5_Cq Mlx5_Tables
begin

unbundle bit_operations_syntax

section \<open>Polling a completion queue of the driver\<close>

text \<open>
  \<^verbatim>\<open>mlx5_poll_cq\<close> of \<^verbatim>\<open>cq.c\<close>: an entry names a resource by its number or its user index, the
  tables lead to it, and the entry becomes a completion of the application while the queue it concerns
  moves on. Queue pairs are those of \<open>Mlx5_Rq\<close> and \<open>Mlx5_Sq\<close>, of datagrams; completions are of
  \<^verbatim>\<open>struct ibv_wc\<close>. Compressed entries and tag matching on a shared queue are left out and end a
  poll with a fault of their own (\<open>LeftOut\<close>); strided receives, signed descriptors, time stamps,
  the checksums of raw packets, peer queues and the delay before a poll are left out altogether.
\<close>

subsection \<open>Resources\<close>

text \<open>
  The resources are objects the tables point to, by a key each, and so are the shared receive queues; an
  extended shared receive queue is a resource of its own. Every resource has its number first.
\<close>

record poll_qp =
  pq_sq :: mlx5_sq
  pq_rq :: mlx5_qp
  pq_rq_wqe_shift :: int
  pq_wr_data :: "nat \<Rightarrow> u32"
  pq_srq :: "nat option"

datatype mlx5_resource = MLX5_RSC_TYPE_QP (rsn: u32) poll_qp | MLX5_RSC_TYPE_DCT (rsn: u32) nat
  | MLX5_RSC_TYPE_RWQ (rsn: u32) mlx5_wq | MLX5_RSC_TYPE_XSRQ (rsn: u32) nat

record poll_state =
  ps_tables :: "(nat, nat) mlx5_tables"
  ps_rscs :: "nat \<Rightarrow> mlx5_resource"
  ps_srqs :: "nat \<Rightarrow> mlx5_srq"
  ps_srqn :: "nat \<Rightarrow> u32"
  ps_mem :: mem
  ps_cq :: mlx5_cq

text \<open>The version of the entries, and where in memory the bytes of the entry of an index are.\<close>

record poll_env =
  pe_cqe_ver :: bool
  pe_cqe_addr :: "u32 \<Rightarrow> u64"

datatype poll_result = CQ_OK | CQ_EMPTY | CQ_POLL_ERR

definition MLX5_CQE_APP_TAG_MATCHING :: u8 where "MLX5_CQE_APP_TAG_MATCHING = 1"

definition upd_rsc :: "nat \<Rightarrow> mlx5_resource \<Rightarrow> poll_state \<Rightarrow> poll_state" where
  "upd_rsc k r s = s\<lparr>ps_rscs := (ps_rscs s)(k := r)\<rparr>"

definition upd_srq :: "nat \<Rightarrow> mlx5_srq \<Rightarrow> poll_state \<Rightarrow> poll_state" where
  "upd_srq k q s = s\<lparr>ps_srqs := (ps_srqs s)(k := q)\<rparr>"

subsection \<open>Messages that come with their completion\<close>

fun copy_to_wqe :: "(nat \<Rightarrow> mlx5_wqe_data_seg) \<Rightarrow> nat \<Rightarrow> nat \<Rightarrow> u64 \<Rightarrow> int \<Rightarrow> mem \<Rightarrow> int \<times> mem" where
  "copy_to_wqe scat 0 i buf sz m = (IBV_WC_LOC_LEN_ERR, m)"
| "copy_to_wqe scat (Suc n) i buf sz m =
    (let copy = sint (min (word_of_int sz) (htonl (ds_byte_count (scat i))));
         m = memcpy m (htonll (ds_addr (scat i))) buf (nat copy)
     in if sz - copy = 0 then (IBV_WC_SUCCESS, m) else copy_to_wqe scat n (Suc i) (buf + word_of_int copy) (sz - copy) m)"

definition mlx5_copy_to_recv_wqe :: "int \<Rightarrow> mlx5_qp \<Rightarrow> nat \<Rightarrow> u64 \<Rightarrow> int \<Rightarrow> mem \<Rightarrow> int \<times> mem" where
  "mlx5_copy_to_recv_wqe wqe_shift qp idx buf sz m =
    (if sz = 0 then (IBV_WC_SUCCESS, m) else copy_to_wqe (wqes (rq qp) idx) (2 ^ nat (wqe_shift - 4)) 0 buf sz m)"

text \<open>Only connected queue pairs have results that come with the completion of a send.\<close>

definition mlx5_copy_to_send_wqe :: int where
  "mlx5_copy_to_send_wqe = IBV_WC_GENERAL_ERR"

text \<open>Where these bytes are: at the entry, or in the 64 bytes before it.\<close>

definition inline_at :: "cqe_format \<Rightarrow> u64 \<Rightarrow> u64 option" where
  "inline_at fmt cqe = (if fmt = MLX5_INLINE_DATA32_SEG then Some cqe else if fmt = MLX5_INLINE_DATA64_SEG then Some (cqe - 64) else None)"

subsection \<open>A received message\<close>

text \<open>The receive that the message has gone to, with its identifier, length and status.\<close>

definition take_receive :: "u64 \<Rightarrow> mlx5_cqe64 \<Rightarrow> nat option \<Rightarrow> nat option \<Rightarrow> mlx5_wc \<Rightarrow> poll_state \<Rightarrow> (int \<times> mlx5_wc \<times> poll_state) outcome" where
  "take_receive cqe_addr cqe qp srq wc s =
    (let byte_cnt = htonl (cqe_byte_cnt cqe); fmt = mlx5_get_cqe_format cqe
     in case srq of
       Some k \<Rightarrow>
         let q = ps_srqs s k; wqe_ctr = uint (htons (wqe_counter cqe))
         in bindC (index (nat (srq_max q)) wqe_ctr) (\<lambda>i.
            let wc = wc\<lparr>wc_wr_id := srq_wrid q i, wc_byte_len := byte_cnt\<rparr>
            in bindC (mlx5_free_srq_wqe wqe_ctr q) (\<lambda>q.
               let s = upd_srq k q s
               in case inline_at fmt cqe_addr of
                 None \<Rightarrow> ret (0, wc, s)
               | Some buf \<Rightarrow> bindC (mlx5_copy_to_recv_srq q wqe_ctr buf (sint byte_cnt) (ps_mem s)) (\<lambda>(err, m).
                   ret (err, wc, s\<lparr>ps_mem := m\<rparr>))))
     | None \<Rightarrow>
         bindC (deref qp) (\<lambda>k.
         case ps_rscs s k of
           MLX5_RSC_TYPE_QP n q \<Rightarrow>
             let wqe_ctr = unat (ucast (wq_tail (rq (pq_rq q)) AND (wqe_cnt (rq (pq_rq q)) - 1)) :: u16)
             in (case rq_complete (pq_rq q) of (wid, r) \<Rightarrow>
                let wc = wc\<lparr>wc_wr_id := wid, wc_byte_len := byte_cnt\<rparr>;
                    s = upd_rsc k (MLX5_RSC_TYPE_QP n (q\<lparr>pq_rq := r\<rparr>)) s
                in case inline_at fmt cqe_addr of
                  None \<Rightarrow> ret (0, wc, s)
                | Some buf \<Rightarrow> (case mlx5_copy_to_recv_wqe (pq_rq_wqe_shift q) r wqe_ctr buf (sint byte_cnt) (ps_mem s) of
                    (err, m) \<Rightarrow> ret (err, wc, s\<lparr>ps_mem := m\<rparr>)))
         | _ \<Rightarrow> raise NullDeref))"

definition handle_responder :: "u64 \<Rightarrow> mlx5_cqe64 \<Rightarrow> nat option \<Rightarrow> nat option \<Rightarrow> mlx5_resource option \<Rightarrow> mlx5_wc \<Rightarrow> poll_state \<Rightarrow>
    (int \<times> mlx5_wc \<times> poll_state) outcome" where
  "handle_responder cqe_addr cqe qp srq rsc wc s =
    bindC (take_receive cqe_addr cqe qp srq wc s) (\<lambda>(err, wc, s).
    if err \<noteq> 0 then ret (err, wc, s)
    else if srq \<noteq> None \<and> (\<exists>n q. rsc = Some (MLX5_RSC_TYPE_RWQ n q)) then raise NullDeref
    else
      let wc = (case cqe_opcode cqe of
             MLX5_CQE_RESP_WR_IMM \<Rightarrow> wc\<lparr>wc_opcode := IBV_WC_RECV_RDMA_WITH_IMM, wc_wc_flags := wc_wc_flags wc OR IBV_WC_WITH_IMM,
               wc_imm_data := imm_inval_pkey cqe\<rparr>
           | MLX5_CQE_RESP_SEND \<Rightarrow> wc\<lparr>wc_opcode := IBV_WC_RECV\<rparr>
           | MLX5_CQE_RESP_SEND_IMM \<Rightarrow> wc\<lparr>wc_opcode := IBV_WC_RECV, wc_wc_flags := wc_wc_flags wc OR IBV_WC_WITH_IMM,
               wc_imm_data := imm_inval_pkey cqe\<rparr>
           | MLX5_CQE_RESP_SEND_INV \<Rightarrow> wc\<lparr>wc_opcode := IBV_WC_RECV, wc_wc_flags := wc_wc_flags wc OR IBV_WC_WITH_INV,
               wc_imm_data := htonl (imm_inval_pkey cqe)\<rparr>
           | _ \<Rightarrow> wc);
          rqpn = htonl (flags_rqpn cqe);
          wc = wc\<lparr>wc_slid := htons (cqe_slid cqe), wc_sl := ucast (drop_bit 24 rqpn) AND 0xF,
            wc_src_qp := (case srq of
                Some k \<Rightarrow> (case rsc of
                    None \<Rightarrow> ps_srqn s k | Some (MLX5_RSC_TYPE_XSRQ _ _) \<Rightarrow> ps_srqn s k | _ \<Rightarrow> rqpn AND 0xFFFFFF)
              | None \<Rightarrow> rqpn AND 0xFFFFFF),
            wc_dlid_path_bits := ml_path cqe AND 0x7F,
            wc_wc_flags := wc_wc_flags wc OR (if (qp \<noteq> None \<or> (case rsc of Some (MLX5_RSC_TYPE_DCT _ _) \<Rightarrow> True | _ \<Rightarrow> False)) \<and>
              drop_bit 28 rqpn AND 3 \<noteq> 0 then IBV_WC_GRH else 0),
            wc_pkey_index := ucast (htonl (imm_inval_pkey cqe) AND 0xFFFF)\<rparr>
      in ret (IBV_WC_SUCCESS, wc, s))"

subsection \<open>Whom an entry is for\<close>

text \<open>
  The last resource and the last shared receive queue found are kept through a poll. The result is
  whether a shared queue is concerned, or nothing for an entry nobody is known for.
\<close>

type_synonym poll_cache = "nat option \<times> nat option"

definition find_parties :: "poll_env \<Rightarrow> mlx5_cqe64 \<Rightarrow> poll_cache \<Rightarrow> poll_state \<Rightarrow> (bool option \<times> poll_cache) outcome" where
  "find_parties env cqe = (\<lambda>(cur_rsc, cur_srq) s.
    let rsn' = htonl (sop_drop_qpn cqe) AND 0xFFFFFF; srqn_uidx' = htonl (srqn_uidx cqe) AND 0xFFFFFF
    in if pe_cqe_ver env then
         bindC (if \<exists>k. cur_rsc = Some k \<and> srqn_uidx' = rsn (ps_rscs s k) then ret cur_rsc else mlx5_find_uidx srqn_uidx' (ps_tables s)) (\<lambda>cur_rsc.
         ret (if cur_rsc = None then None else Some False, cur_rsc, cur_srq))
       else
         let on_srq = is_responder (cqe_opcode cqe) \<and> srqn_uidx' \<noteq> 0
         in bindC (if on_srq \<and> \<not> (\<exists>k. cur_srq = Some k \<and> srqn_uidx' = ps_srqn s k) then mlx5_find_srq srqn_uidx' (ps_tables s) else ret cur_srq) (\<lambda>cur_srq.
            if on_srq \<and> cur_srq = None then ret (None, cur_rsc, cur_srq)
            else
              bindC (if \<exists>k. cur_rsc = Some k \<and> rsn' = rsn (ps_rscs s k) then ret cur_rsc else mlx5_find_rsc rsn' (ps_tables s)) (\<lambda>cur_rsc.
              ret (if cur_rsc = None \<and> srqn_uidx' = 0 then None else Some on_srq, cur_rsc, cur_srq))))"

text \<open>What kind of resource it is decides about the shared queue.\<close>

definition settle_srq :: "poll_env \<Rightarrow> mlx5_cqe64 \<Rightarrow> bool \<Rightarrow> poll_cache \<Rightarrow> poll_state \<Rightarrow> bool \<times> nat option" where
  "settle_srq env cqe on_srq = (\<lambda>(cur_rsc, cur_srq) s.
    case cur_rsc of None \<Rightarrow> (on_srq, cur_srq)
    | Some k \<Rightarrow> (case ps_rscs s k of
        MLX5_RSC_TYPE_QP _ q \<Rightarrow>
          if pe_cqe_ver env \<and> is_responder (cqe_opcode cqe) \<and> pq_srq q \<noteq> None then (True, pq_srq q) else (on_srq, cur_srq)
      | MLX5_RSC_TYPE_DCT _ j \<Rightarrow> (True, if pe_cqe_ver env then Some j else cur_srq)
      | MLX5_RSC_TYPE_XSRQ _ j \<Rightarrow> (True, Some j)
      | MLX5_RSC_TYPE_RWQ _ _ \<Rightarrow> (on_srq, cur_srq)))"

text \<open>
  The variables \<^verbatim>\<open>is_srq\<close>, \<^verbatim>\<open>mqp\<close>, \<^verbatim>\<open>rwq\<close> and \<^verbatim>\<open>type\<close> of a poll, the last as
  the resource whose type it is. They are set once before the first entry, so that what an entry
  does not set is left from the entry before it.
\<close>

record poll_vars =
  pv_is_srq :: bool
  pv_mqp :: "nat option"
  pv_rwq :: "nat option"
  pv_typed :: "nat option"

definition poll_vars_init :: poll_vars where
  "poll_vars_init = \<lparr>pv_is_srq = False, pv_mqp = None, pv_rwq = None, pv_typed = None\<rparr>"

definition note_rsc :: "nat option \<Rightarrow> poll_state \<Rightarrow> poll_vars \<Rightarrow> poll_vars" where
  "note_rsc cur_rsc s v =
    (case cur_rsc of None \<Rightarrow> v
     | Some k \<Rightarrow> (case ps_rscs s k of
         MLX5_RSC_TYPE_QP _ _ \<Rightarrow> v\<lparr>pv_mqp := Some k, pv_typed := Some k\<rparr>
       | MLX5_RSC_TYPE_RWQ _ _ \<Rightarrow> v\<lparr>pv_rwq := Some k, pv_typed := Some k\<rparr>
       | _ \<Rightarrow> v\<lparr>pv_typed := Some k\<rparr>))"

subsection \<open>One entry\<close>

text \<open>
  A send: the status and the place in the queue. The result is empty when the entry is for no queue pair.
\<close>

definition complete_send :: "mlx5_cqe64 \<Rightarrow> nat option \<Rightarrow> mlx5_wc \<Rightarrow> poll_state \<Rightarrow> (mlx5_wc \<times> poll_state) option" where
  "complete_send cqe qp wc s =
    (case qp of None \<Rightarrow> None
     | Some k \<Rightarrow> (case ps_rscs s k of
         MLX5_RSC_TYPE_QP n q \<Rightarrow>
           let wqe_ctr = htons (wqe_counter cqe); idx = unat (ucast wqe_ctr AND (sq_wqe_cnt (pq_sq q) - 1));
               wc = handle_good_req cqe (pq_wr_data q idx) wc;
               err = (if inline_at (mlx5_get_cqe_format cqe) 0 = None then 0 else mlx5_copy_to_send_wqe)
           in (case sq_complete wqe_ctr (pq_sq q) of (wid, sq) \<Rightarrow>
             Some (wc\<lparr>wc_wr_id := wid, wc_status := err\<rparr>, upd_rsc k (MLX5_RSC_TYPE_QP n (q\<lparr>pq_sq := sq\<rparr>)) s))
       | _ \<Rightarrow> None))"

text \<open>A failed request: its status; the descriptor is released as that of a good one is.\<close>

definition fail_send :: "mlx5_cqe64 \<Rightarrow> bool \<Rightarrow> nat option \<Rightarrow> mlx5_wc \<Rightarrow> poll_state \<Rightarrow> (mlx5_wc \<times> poll_state) outcome" where
  "fail_send cqe is_umr qp wc s =
    bindC (deref qp) (\<lambda>k.
    case ps_rscs s k of
      MLX5_RSC_TYPE_QP n q \<Rightarrow>
        let wqe_ctr = htons (wqe_counter cqe); idx = unat (ucast wqe_ctr AND (sq_wqe_cnt (pq_sq q) - 1))
        in (case sq_complete wqe_ctr (pq_sq q) of (wid, sq) \<Rightarrow>
          let wc = wc\<lparr>wc_wr_id := wid\<rparr>; wc = (if is_umr then wc\<lparr>wc_opcode := WC_data (pq_wr_data q idx)\<rparr> else wc)
          in ret (wc, upd_rsc k (MLX5_RSC_TYPE_QP n (q\<lparr>pq_sq := sq\<rparr>)) s))
    | _ \<Rightarrow> raise NullDeref)"

text \<open>
  A failed receive, of the shared queue or else of the work queue \<open>holder\<close> has. The first result tells
  that it was posted again after a page fault.
\<close>

definition fail_receive :: "mlx5_cqe64 \<Rightarrow> nat option \<Rightarrow> nat option \<Rightarrow> mlx5_wc \<Rightarrow> poll_state \<Rightarrow> (bool \<times> mlx5_wc \<times> poll_state) outcome" where
  "fail_receive cqe holder srq wc s =
    (case srq of
       Some k \<Rightarrow>
         let q = ps_srqs s k; wqe_ctr = uint (htons (wqe_counter cqe))
         in if is_odp_pfault_err cqe then bindC (mlx5_requeue_srq_wqe wqe_ctr q) (\<lambda>q. ret (True, wc, upd_srq k q s))
            else
              bindC (index (nat (srq_max q)) wqe_ctr) (\<lambda>i.
              bindC (mlx5_free_srq_wqe wqe_ctr q) (\<lambda>q'. ret (False, wc\<lparr>wc_wr_id := srq_wrid q i\<rparr>, upd_srq k q' s)))
     | None \<Rightarrow>
         bindC (deref holder) (\<lambda>k.
         case ps_rscs s k of
           MLX5_RSC_TYPE_RWQ n wq \<Rightarrow>
             ret (False, wc\<lparr>wc_wr_id := wrid wq (unat (wq_tail wq AND (wqe_cnt wq - 1)))\<rparr>,
               upd_rsc k (MLX5_RSC_TYPE_RWQ n (wq\<lparr>wq_tail := wq_tail wq + 1\<rparr>)) s)
         | MLX5_RSC_TYPE_QP n q \<Rightarrow>
             let wq = rq (pq_rq q)
             in ret (False, wc\<lparr>wc_wr_id := wrid wq (unat (wq_tail wq AND (wqe_cnt wq - 1)))\<rparr>,
               upd_rsc k (MLX5_RSC_TYPE_QP n (q\<lparr>pq_rq := (pq_rq q)\<lparr>rq := wq\<lparr>wq_tail := wq_tail wq + 1\<rparr>\<rparr>\<rparr>)) s)
         | _ \<Rightarrow> raise NullDeref))"

text \<open>The entries \<open>cqe_opcode\<close> does not say to be of a request or of a response have been refused before.\<close>

definition handle_entry :: "mlx5_cqe64 \<Rightarrow> u64 \<Rightarrow> poll_vars \<Rightarrow> nat option \<Rightarrow> mlx5_wc \<Rightarrow> poll_state \<Rightarrow>
    (poll_result option \<times> mlx5_wc \<times> poll_state) outcome" where
  "handle_entry cqe cqe_addr v cur_srq wc s =
    (let srq = (if pv_is_srq v then cur_srq else None); rsc = map_option (ps_rscs s) (pv_typed v);
         wc = wc\<lparr>wc_qp_num := htonl (sop_drop_qpn cqe) AND 0xFFFFFF\<rparr>
     in case cqe_opcode cqe of
       MLX5_CQE_REQ \<Rightarrow> (case complete_send cqe (pv_mqp v) wc s of
           None \<Rightarrow> ret (Some CQ_POLL_ERR, wc, s) | Some (wc, s) \<Rightarrow> ret (Some CQ_OK, wc, s))
     | MLX5_CQE_NO_PACKET \<Rightarrow>
         if app cqe \<noteq> MLX5_CQE_APP_TAG_MATCHING \<or> \<not> pv_is_srq v then ret (Some CQ_POLL_ERR, wc, s) else raise LeftOut
     | MLX5_CQE_REQ_ERR \<Rightarrow>
         let (wc, is_umr) = mlx5_set_bad_wc_opcode cqe True (mlx5_handle_error_cqe cqe wc)
         in bindC (fail_send cqe is_umr (pv_mqp v) wc s) (\<lambda>(wc, s). ret (Some CQ_OK, wc, s))
     | MLX5_CQE_RESP_ERR \<Rightarrow>
         let (wc, is_umr) = mlx5_set_bad_wc_opcode cqe False (mlx5_handle_error_cqe cqe wc)
         in bindC (fail_receive cqe (if pv_rwq v = None then pv_mqp v else pv_rwq v) srq wc s) (\<lambda>(again, wc, s).
            ret (if again then None else Some CQ_OK, wc, s))
     | _ \<Rightarrow>
         if app cqe = MLX5_CQE_APP_TAG_MATCHING then if pv_is_srq v then raise LeftOut else ret (Some CQ_POLL_ERR, wc, s)
         else bindC (handle_responder cqe_addr cqe (pv_mqp v) srq rsc wc s) (\<lambda>(st, wc, s). ret (Some CQ_OK, wc\<lparr>wc_status := st\<rparr>, s)))"

text \<open>An entry after which the poll goes on with the next is the \<open>Next\<close> of the loop.\<close>

definition poll_step :: "poll_env \<Rightarrow> poll_vars \<times> poll_cache \<times> mlx5_wc \<times> poll_state \<Rightarrow>
    (poll_vars \<times> poll_cache \<times> mlx5_wc \<times> poll_state, poll_result \<times> poll_cache \<times> mlx5_wc \<times> poll_state) flow outcome" where
  "poll_step env = (\<lambda>(v, cur, wc, s).
    case get_next_cqe (ps_cq s) of None \<Rightarrow> ret (Return (CQ_EMPTY, cur, wc, s))
    | Some cqe \<Rightarrow>
        if mlx5_get_cqe_format cqe = MLX5_COMPRESSED then raise LeftOut
        else
          let cqe_addr = pe_cqe_addr env (cons_index (ps_cq s));
              s = s\<lparr>ps_cq := (ps_cq s)\<lparr>cons_index := cons_index (ps_cq s) + 1\<rparr>\<rparr>;
              wc = wc\<lparr>wc_wc_flags := 0\<rparr>
          in if \<not> is_requestor (cqe_opcode cqe) \<and> \<not> is_responder (cqe_opcode cqe) then ret (Return (CQ_POLL_ERR, cur, wc, s))
             else
               bindC (find_parties env cqe cur s) (\<lambda>(found, cur).
               case found of None \<Rightarrow> ret (Return (CQ_POLL_ERR, cur, wc, s))
               | Some on_srq \<Rightarrow>
                   let (on_srq, cur_srq) = settle_srq env cqe (pv_is_srq v \<or> on_srq) cur s; cur = (fst cur, cur_srq);
                       v = note_rsc (fst cur) s (v\<lparr>pv_is_srq := on_srq\<rparr>)
                   in bindC (handle_entry cqe cqe_addr v cur_srq wc s) (\<lambda>(r, wc, s).
                      case r of None \<Rightarrow> ret (Next (v, cur, wc, s)) | Some r \<Rightarrow> ret (Return (r, cur, wc, s)))))"

definition mlx5_poll_one :: "poll_env \<Rightarrow> poll_cache \<Rightarrow> mlx5_wc \<Rightarrow> poll_state \<Rightarrow> (poll_result \<times> poll_cache \<times> mlx5_wc \<times> poll_state) outcome" where
  "mlx5_poll_one env cur wc s = loop (poll_step env) (poll_vars_init, cur, wc, s)"

subsection \<open>A poll\<close>

text \<open>
  The loop fills the array of completions from the front; the result is how it ended, the completions
  made and the state. The rest of the array stays.
\<close>

fun poll_entries :: "poll_env \<Rightarrow> mlx5_wc list \<Rightarrow> poll_cache \<Rightarrow> poll_state \<Rightarrow> (poll_result \<times> mlx5_wc list \<times> poll_state) outcome" where
  "poll_entries env [] cur s = ret (CQ_OK, [], s)"
| "poll_entries env (wc # wcs) cur s =
    bindC (mlx5_poll_one env cur wc s) (\<lambda>(r, cur, wc, s).
    if r \<noteq> CQ_OK then ret (r, [], s)
    else bindC (poll_entries env wcs cur s) (\<lambda>(r, done', s). ret (r, wc # done', s)))"

definition poll_cq :: "poll_env \<Rightarrow> mlx5_wc list \<Rightarrow> poll_state \<Rightarrow> (int \<times> mlx5_wc list \<times> poll_state) outcome" where
  "poll_cq env wcs s =
    bindC (poll_entries env wcs (None, None) s) (\<lambda>(r, done', s).
    ret (if r = CQ_POLL_ERR then - 2 else int (length done'), done', s\<lparr>ps_cq := mlx5_update_cons_index (ps_cq s)\<rparr>))"

text \<open>The hook of the multi-path layer: without the last argument a poll goes to the layer.\<close>

definition mlx5_poll_cq :: "('a \<Rightarrow> 'r) \<Rightarrow> ('a \<Rightarrow> 'r) \<Rightarrow> u32 \<Rightarrow> 'a \<Rightarrow> 'r" where
  "mlx5_poll_cq layer device skip_mprud a = (if skip_mprud = 0 then layer a else device a)"

end
