(* ===== verification/Mlx5_Cq_Facts.thy ===== *)
theory Mlx5_Cq_Facts
  imports Mlx5_Cq
begin

unbundle bit_operations_syntax

section \<open>Completion queues as lists\<close>

text \<open>
  What driver and device see of a ring: the entries in it as a list, each operation of
  \<open>Mlx5_Cq\<close> on that list, and any run of them.
\<close>

text \<open>The doorbell that arms a queue, as the device reads it.\<close>

lemma arm_cq_decodes:
  assumes "mlx5_arm_cq solicited cq = ((w, n), cq')"
  shows "take_bit 24 (htonl w) = take_bit 24 (cons_index cq) \<and> bit (htonl w) 24 = solicited \<and>
    drop_bit 28 (htonl w) = take_bit 2 (arm_sn cq) \<and> htonl n = cqn cq \<and> arm_db cq' = w"
proof -
  let ?cmd = "push_bit 24 (if solicited then 1 else 0) :: u32"
  have m: "(3 :: u32) = mask 2" "(0xFFFFFF :: u32) = mask 24" by (simp_all add: mask_eq_exp_minus_1)
  have w: "htonl w = push_bit 28 (take_bit 2 (arm_sn cq)) OR ?cmd OR take_bit 24 (cons_index cq)"
    using assms unfolding mlx5_arm_cq_def Let_def m
    by (auto simp: take_bit_eq_mask MLX5_CQ_DB_REQ_NOT_SOL_def MLX5_CQ_DB_REQ_NOT_def)
  have "take_bit 24 (htonl w) = take_bit 24 (cons_index cq)" "drop_bit 28 (htonl w) = take_bit 2 (arm_sn cq)"
    unfolding w by (rule bit_word_eqI; auto simp: bit_simps)+
  moreover have "bit (htonl w) 24 = solicited" unfolding w by (auto simp: bit_simps)
  ultimately show ?thesis using assms by (auto simp: mlx5_arm_cq_def Let_def)
qed

subsection \<open>The entries in the ring\<close>

text \<open>
  \<open>owned\<close>: an entry at index \<open>n\<close> belongs to the driver. \<open>body\<close> is an entry without its owner
  bit; \<open>cq_content\<close> are the entries the device has written and the driver has not taken, oldest
  first, where \<open>pi\<close> is the device's own count of the entries it has written.
\<close>

definition owned :: "nat \<Rightarrow> u32 \<Rightarrow> mlx5_cqe64 \<Rightarrow> bool" where
  "owned b n e \<longleftrightarrow> cqe_opcode e \<noteq> MLX5_CQE_INVALID \<and> bit (op_own e) 0 = bit n b"

definition body :: "mlx5_cqe64 \<Rightarrow> mlx5_cqe64" where
  "body e = e\<lparr>op_own := op_own e AND NOT MLX5_CQE_OWNER_MASK\<rparr>"

definition cq_count :: "mlx5_cq \<Rightarrow> u32 \<Rightarrow> nat" where
  "cq_count cq pi = unat (pi - cons_index cq)"

definition cq_content :: "nat \<Rightarrow> mlx5_cq \<Rightarrow> u32 \<Rightarrow> mlx5_cqe64 list" where
  "cq_content b cq pi = ring_view (\<lambda>i. body (cq_cqes cq i)) b (cons_index cq) (cq_count cq pi)"

definition ring_ok :: "nat \<Rightarrow> mlx5_cq \<Rightarrow> u32 \<Rightarrow> bool" where
  "ring_ok b cq pi \<longleftrightarrow> b < 31 \<and> cq_cqe cq = 2 ^ b - 1 \<and> cq_count cq pi \<le> 2 ^ b \<and>
     (\<forall>j < 2 ^ b. owned b (cons_index cq + of_nat j) (cq_cqes cq (ring_at b (cons_index cq + of_nat j))) \<longleftrightarrow> j < cq_count cq pi)"

lemma owner_bit: "op_own e AND MLX5_CQE_OWNER_MASK \<noteq> 0 \<longleftrightarrow> bit (op_own e) 0"
  by (simp add: MLX5_CQE_OWNER_MASK_def and_one_eq odd_iff_mod_2_eq_one [symmetric] bit_0)

lemma is_hw_bit: "is_hw e n (2 ^ b - 1) \<longleftrightarrow> bit (op_own e) 0 \<noteq> bit n b"
  by (simp add: is_hw_def owner_bit and_exp_eq_0_iff_not_bit)

lemma get_sw_eq: "cq_cqe cq = 2 ^ b - 1 \<Longrightarrow> get_sw_cqe cq n (cq_cqe cq) =
    (if owned b n (cq_cqes cq (ring_at b n)) then Some (cq_cqes cq (ring_at b n)) else None)"
  by (simp add: get_sw_cqe_def get_cqe_def is_hw_bit owned_def ring_at_def Let_def)

lemma get_next_eq: "cq_cqe cq = 2 ^ b - 1 \<Longrightarrow> get_next_cqe cq =
    (if owned b (cons_index cq) (cq_cqes cq (ring_at b (cons_index cq))) then Some (cq_cqes cq (ring_at b (cons_index cq))) else None)"
  by (simp add: get_next_cqe_def get_cqe_def is_hw_bit owned_def ring_at_def Let_def)

text \<open>One turn of the ring later, the owner bit of an index is the other one.\<close>

lemma turn_bit:
  assumes "b < 32"
  shows "bit (n + 2 ^ b :: u32) b \<longleftrightarrow> \<not> bit n b"
proof -
  have word: "bit (w :: u32) b \<longleftrightarrow> bit (unat w) b" for w using assms by (simp add: bit_unsigned_iff)
  have "unat (n + of_nat (2 ^ b)) = take_bit 32 (unat n + 2 ^ b)"
    by (simp only: unat_word_ariths(1) unat_of_nat take_bit_eq_mod mod_add_right_eq) simp
  then have "unat (n + 2 ^ b) = take_bit 32 (unat n + 2 ^ b)" by simp
  then have "bit (n + 2 ^ b) b \<longleftrightarrow> bit (unat n + 2 ^ b) b" using assms by (simp add: word bit_take_bit_iff)
  also have "\<dots> \<longleftrightarrow> \<not> bit (unat n) b" by (simp add: bit_iff_odd div_add_self2)
  finally show ?thesis by (simp add: word)
qed

lemma content_length: "length (cq_content b cq pi) = cq_count cq pi"
  by (simp add: cq_content_def)

text \<open>An entry taken, and an entry the device writes.\<close>

definition cq_take :: "mlx5_cq \<Rightarrow> mlx5_cq" where
  "cq_take cq = cq\<lparr>cons_index := cons_index cq + 1\<rparr>"

definition device_write :: "nat \<Rightarrow> mlx5_cqe64 \<Rightarrow> u32 \<Rightarrow> mlx5_cq \<Rightarrow> mlx5_cq" where
  "device_write b e pi cq = cq\<lparr>cq_cqes := (cq_cqes cq)(ring_at b pi :=
     e\<lparr>op_own := op_own e AND NOT MLX5_CQE_OWNER_MASK OR (if bit pi b then 1 else 0)\<rparr>)\<rparr>"

lemma body_eq: "body e = body e' \<longleftrightarrow> (\<exists>x. e' = e\<lparr>op_own := x\<rparr> \<and> x AND NOT MLX5_CQE_OWNER_MASK = op_own e AND NOT MLX5_CQE_OWNER_MASK)"
  by (cases e; cases e') (auto simp: body_def)

lemma owner_mask_bit: "bit MLX5_CQE_OWNER_MASK n \<longleftrightarrow> n = 0"
  by (simp add: MLX5_CQE_OWNER_MASK_def bit_1_iff)

lemma opcode_owner: "drop_bit 4 (x AND NOT MLX5_CQE_OWNER_MASK) = drop_bit 4 x"
  by (rule bit_word_eqI) (auto simp: bit_simps owner_mask_bit dest: bit_imp_le_length)

lemma opcode_body [simp]: "cqe_opcode (body e) = cqe_opcode e"
proof -
  have "drop_bit 4 (op_own (body e)) = drop_bit 4 (op_own e)" by (simp add: body_def opcode_owner del: drop_bit_and)
  then show ?thesis by (simp only: cqe_opcode_def)
qed

lemma owner_set: "bit (x AND NOT MLX5_CQE_OWNER_MASK OR (if c then 1 else 0)) 0 = c"
  "(x AND NOT MLX5_CQE_OWNER_MASK OR (if c then 1 else 0)) AND NOT MLX5_CQE_OWNER_MASK = x AND NOT MLX5_CQE_OWNER_MASK"
  for x :: u8
proof -
  show "bit (x AND NOT MLX5_CQE_OWNER_MASK OR (if c then 1 else 0)) 0 = c" by (simp add: bit_simps owner_mask_bit)
  show "(x AND NOT MLX5_CQE_OWNER_MASK OR (if c then 1 else 0)) AND NOT MLX5_CQE_OWNER_MASK = x AND NOT MLX5_CQE_OWNER_MASK"
    by (rule bit_word_eqI) (auto simp: bit_simps owner_mask_bit)
qed

text \<open>An entry with the owner bit \<open>c\<close>.\<close>

definition with_owner :: "bool \<Rightarrow> mlx5_cqe64 \<Rightarrow> mlx5_cqe64" where
  "with_owner c e = e\<lparr>op_own := op_own e AND NOT MLX5_CQE_OWNER_MASK OR (if c then 1 else 0)\<rparr>"

lemma with_owner_simps [simp]:
  "body (with_owner c e) = body e" "bit (op_own (with_owner c e)) 0 = c" "cqe_opcode (with_owner c e) = cqe_opcode e"
proof -
  show body: "body (with_owner c e) = body e" by (simp add: body_def with_owner_def owner_set(2) del: if_split)
  show "bit (op_own (with_owner c e)) 0 = c" by (simp add: with_owner_def owner_set(1) del: if_split)
  show "cqe_opcode (with_owner c e) = cqe_opcode e" using arg_cong [OF body, of cqe_opcode] by simp
qed

lemma owned_with [simp]: "owned b n (with_owner c e) \<longleftrightarrow> cqe_opcode e \<noteq> MLX5_CQE_INVALID \<and> c = bit n b"
  by (simp add: owned_def)

lemma copy_cqe_eq: "copy_cqe cqe dest = with_owner (bit (op_own dest) 0) cqe"
proof -
  have "op_own dest AND MLX5_CQE_OWNER_MASK = (if bit (op_own dest) 0 then 1 else 0)"
    by (rule bit_word_eqI) (auto simp: bit_simps owner_mask_bit intro: gr0I)
  then show ?thesis by (simp add: copy_cqe_def with_owner_def or.commute)
qed

lemma ring_slot: "unat (n AND (2 ^ b - 1)) = ring_at b n"
  by (simp add: ring_at_def)

lemma device_write_eq: "device_write b e pi cq = cq\<lparr>cq_cqes := (cq_cqes cq)(ring_at b pi := with_owner (bit pi b) e)\<rparr>"
  by (simp add: device_write_def with_owner_def)

lemma cq_count_cqes [simp]: "cq_count (cq\<lparr>cq_cqes := f\<rparr>) n = cq_count cq n"
  by (simp add: cq_count_def)

lemma count_succ: "ring_ok b cq pi \<Longrightarrow> cq_count cq (pi + 1) = Suc (cq_count cq pi)"
proof -
  assume ok: "ring_ok b cq pi"
  then have "(2 :: nat) ^ b \<le> 2 ^ 30" by (intro power_increasing) (simp_all add: ring_ok_def)
  then show ?thesis using ok by (simp add: cq_count_def ring_ok_def unat_succ_diff)
qed

lemma write_ok:
  assumes ok: "ring_ok b cq pi" and room: "cq_count cq pi < 2 ^ b" and valid: "cqe_opcode e \<noteq> MLX5_CQE_INVALID"
  shows "ring_ok b (device_write b e pi cq) (pi + 1) \<and> cq_content b (device_write b e pi cq) (pi + 1) = cq_content b cq pi @ [body e]"
proof
  let ?n = "cq_count cq pi" let ?at = "\<lambda>j. ring_at b (cons_index cq + of_nat j)"
  have b: "b < 32" and pi: "pi = cons_index cq + of_nat ?n" using ok by (simp_all add: ring_ok_def cq_count_def)
  have slot: "ring_at b pi = ?at ?n" by (subst pi) simp
  have at: "?at j = ring_at b pi \<longleftrightarrow> j = ?n" if "j < 2 ^ b" for j
    unfolding slot by (rule ring_at_inj [OF b that room])
  have "(\<lambda>i. body (cq_cqes (device_write b e pi cq) i)) = (\<lambda>i. body (cq_cqes cq i))(?at ?n := body e)"
    unfolding device_write_eq slot by auto
  then show "cq_content b (device_write b e pi cq) (pi + 1) = cq_content b cq pi @ [body e]"
    using ring_view_push [OF b room, of "\<lambda>i. body (cq_cqes cq i)" "cons_index cq" "body e"]
    by (simp add: cq_content_def count_succ [OF ok] device_write_eq)
  show "ring_ok b (device_write b e pi cq) (pi + 1)"
    unfolding ring_ok_def
  proof (intro conjI allI impI)
    fix j :: nat assume j: "j < 2 ^ b"
    have "owned b (cons_index cq + of_nat j) (cq_cqes (device_write b e pi cq) (?at j)) \<longleftrightarrow> j < Suc ?n"
    proof (cases "j = ?n")
      case True
      then have "cons_index cq + of_nat j = pi" using pi by simp
      then show ?thesis using valid True by (simp add: device_write_eq)
    next
      case False
      then show ?thesis using at [OF j] ok j by (simp add: device_write_eq ring_ok_def less_Suc_eq)
    qed
    then show "owned b (cons_index (device_write b e pi cq) + of_nat j)
        (cq_cqes (device_write b e pi cq) (ring_at b (cons_index (device_write b e pi cq) + of_nat j))) =
      (j < cq_count (device_write b e pi cq) (pi + 1))"
      by (simp add: count_succ [OF ok] device_write_eq)
  qed (use ok room in \<open>simp_all add: ring_ok_def count_succ [OF ok] device_write_eq\<close>)
qed

lemma slot_turn: "b < 32 \<Longrightarrow> ring_at b (n + 2 ^ b) = ring_at b n"
  using ring_at_add [of b n "2 ^ b"] by (simp add: ring_at_mod)

lemma count_take: "0 < cq_count cq pi \<Longrightarrow> cq_count (cq_take cq) pi = cq_count cq pi - 1"
  using unat_diff_succ [of pi "cons_index cq"] by (cases "pi = cons_index cq") (auto simp: cq_count_def cq_take_def)

lemma take_ok:
  assumes ok: "ring_ok b cq pi" and some: "0 < cq_count cq pi"
  shows "ring_ok b (cq_take cq) pi \<and> cq_content b (cq_take cq) pi = tl (cq_content b cq pi)"
proof
  let ?c = "cons_index cq"
  have b: "b < 32" using ok by (simp add: ring_ok_def)
  show "cq_content b (cq_take cq) pi = tl (cq_content b cq pi)"
    using ring_view_pop [OF some, of "\<lambda>i. body (cq_cqes cq i)" b ?c]
    by (simp add: cq_content_def count_take [OF some]) (simp add: cq_take_def)
  have "owned b (?c + 1 + of_nat j) (cq_cqes cq (ring_at b (?c + 1 + of_nat j))) \<longleftrightarrow> j < cq_count cq pi - 1" if j: "j < 2 ^ b" for j
  proof (cases "Suc j < 2 ^ b")
    case True
    have "?c + 1 + of_nat j = ?c + of_nat (Suc j)" by simp
    then have "owned b (?c + 1 + of_nat j) (cq_cqes cq (ring_at b (?c + 1 + of_nat j))) \<longleftrightarrow> Suc j < cq_count cq pi"
      using ok True unfolding ring_ok_def by metis
    then show ?thesis by linarith
  next
    case False
    with j have last: "Suc j = 2 ^ b" by simp
    then have eq: "?c + 1 + of_nat j = ?c + 2 ^ b" by (metis add.assoc of_nat_Suc of_nat_numeral of_nat_power)
    have "owned b ?c (cq_cqes cq (ring_at b ?c))" using ok some by (auto simp: ring_ok_def dest: spec [of _ 0])
    then have "\<not> owned b (?c + 2 ^ b) (cq_cqes cq (ring_at b (?c + 2 ^ b)))"
      by (simp add: slot_turn [OF b] owned_def turn_bit [OF b])
    moreover have "cq_count cq pi \<le> 2 ^ b" using ok by (simp add: ring_ok_def)
    then have "\<not> j < cq_count cq pi - 1" using last by linarith
    ultimately show ?thesis unfolding eq by simp
  qed
  moreover have "cq_count cq pi - 1 \<le> 2 ^ b" using ok le_trans [OF diff_le_self] by (simp add: ring_ok_def)
  ultimately show "ring_ok b (cq_take cq) pi"
    using ok by (simp add: ring_ok_def count_take [OF some]) (simp add: cq_take_def)
qed

lemma next_content: "ring_ok b cq pi \<Longrightarrow> map_option body (get_next_cqe cq) = (case cq_content b cq pi of [] \<Rightarrow> None | e # es \<Rightarrow> Some e)"
proof -
  assume ok: "ring_ok b cq pi"
  then have "get_next_cqe cq = (if 0 < cq_count cq pi then Some (cq_cqes cq (ring_at b (cons_index cq))) else None)"
    by (subst get_next_eq [of cq b]) (auto simp: ring_ok_def dest: spec [of _ 0])
  moreover have "hd (cq_content b cq pi) = body (cq_cqes cq (ring_at b (cons_index cq)))" if "0 < cq_count cq pi"
    using that by (simp add: cq_content_def ring_view_front)
  ultimately show ?thesis using content_length [of b cq pi] by (cases "cq_content b cq pi") auto
qed

subsection \<open>The sweep\<close>

text \<open>
  The search stops behind the last entry, but in a full ring on it; the sweep from there, on the
  entries by their distance from the consumer index.
\<close>

lemma prod_loop:
  assumes ok: "ring_ok b cq pi"
  shows "loop (prod_step cq) (cons_index cq) = ret (cons_index cq + of_nat (min (cq_count cq pi) (2 ^ b - 1)))"
proof -
  let ?c = "cons_index cq" let ?m = "min (cq_count cq pi) (2 ^ b - 1)"
  have b: "b < 31" and mask: "cq_cqe cq = 2 ^ b - 1" using ok by (simp_all add: ring_ok_def)
  have at: "(get_sw_cqe cq (?c + of_nat j) (cq_cqe cq) = None) = (cq_count cq pi \<le> j)" if "j < 2 ^ b" for j
    using ok that get_sw_eq [OF mask, of "?c + of_nat j"] by (auto simp: ring_ok_def)
  have "loop (prod_step cq) (?c + of_nat j) = ret (?c + of_nat ?m)" if "j \<le> ?m" for j
    using that
  proof (induction "?m - j" arbitrary: j)
    case 0
    then have j: "j = ?m" by (metis diff_is_0_eq le_antisym)
    then have "j < 2 ^ b" by (metis diff_less min.cobounded2 le_less_trans zero_less_one zero_less_numeral zero_less_power)
    have "prod_step cq (?c + of_nat ?m) = ret (Return (?c + of_nat ?m))"
    proof (cases "cq_count cq pi \<le> ?m")
      case True
      then show ?thesis using at [OF \<open>j < 2 ^ b\<close>] j by (simp add: prod_step_def)
    next
      case False
      then have "?m = 2 ^ b - 1" by simp
      then have "of_nat ?m = (2 ^ b - 1 :: u32)" by (simp add: of_nat_diff)
      then show ?thesis by (simp add: prod_step_def mask)
    qed
    then show ?case using j by (simp add: loop_Return)
  next
    case (Suc d)
    then have j: "j < ?m" "j < 2 ^ b" by linarith+
    then have "of_nat j \<noteq> (2 ^ b - 1 :: u32)"
    proof -
      have "unat (of_nat j :: u32) = j" using j(2) b power_strict_increasing [of b 32 "2 :: nat"] by (simp add: unat_of_nat)
      moreover have "(2 ^ b - 1 :: u32) = of_nat (2 ^ b - 1)" by (simp add: of_nat_diff)
      moreover have "unat (of_nat (2 ^ b - 1) :: u32) = 2 ^ b - 1"
        using b power_strict_increasing [of b 32 "2 :: nat"] by (simp only: unat_of_nat) simp
      ultimately show ?thesis using j(1) by auto
    qed
    then have "prod_step cq (?c + of_nat j) = ret (Next (?c + of_nat (Suc j)))"
      using at [OF j(2)] j(1) by (simp add: prod_step_def mask algebra_simps)
    then show ?case using Suc.hyps(1) [of "Suc j"] Suc.hyps(2) j(1) by (simp only: loop_Next)
  qed
  from this [of 0] show ?thesis by simp
qed

definition entry_at :: "nat \<Rightarrow> u32 \<Rightarrow> (nat \<Rightarrow> mlx5_cqe64) \<Rightarrow> nat \<Rightarrow> mlx5_cqe64" where
  "entry_at b c f j = f (ring_at b (c + of_nat j))"

fun sweep :: "(mlx5_cqe64 \<Rightarrow> bool) \<Rightarrow> (nat \<Rightarrow> nat) \<Rightarrow> nat \<Rightarrow> nat \<Rightarrow> (nat \<Rightarrow> mlx5_cqe64) \<Rightarrow> nat \<times> (nat \<Rightarrow> mlx5_cqe64)" where
  "sweep gone at 0 nf f = (nf, f)"
| "sweep gone at (Suc k) nf f =
    (if gone (f (at k)) then sweep gone at k (Suc nf) f
     else sweep gone at k nf (f(at (k + nf) := copy_cqe (f (at k)) (f (at (k + nf))))))"

text \<open>What the sweep leaves: above the removed entries the kept ones, in their order.\<close>

lemma copy_self [simp]: "copy_cqe e e = e"
proof -
  have "op_own e AND NOT MLX5_CQE_OWNER_MASK OR (if bit (op_own e) 0 then 1 else 0) = op_own e"
    by (rule bit_word_eqI) (auto simp: bit_simps owner_mask_bit intro: gr0I)
  then show ?thesis by (simp add: copy_cqe_eq with_owner_def)
qed

lemma sweep_result:
  assumes "inj_on at {0..<N}" and "k + nf \<le> N" and "\<And>e. gone (body e) = gone e"
    and "sweep gone at k nf f = (nf', f')"
  shows "nf' = nf + length (filter gone (map (\<lambda>j. f (at j)) [0..<k]))"
    and "map (\<lambda>j. body (f' (at j))) [nf'..<k + nf] = filter (\<lambda>e. \<not> gone e) (map (\<lambda>j. body (f (at j))) [0..<k])"
    and "\<forall>j < N. bit (op_own (f' (at j))) 0 = bit (op_own (f (at j))) 0"
    and "\<forall>j < N. k + nf \<le> j \<longrightarrow> f' (at j) = f (at j)"
proof -
  have "nf' = nf + length (filter gone (map (\<lambda>j. f (at j)) [0..<k])) \<and>
    map (\<lambda>j. body (f' (at j))) [nf'..<k + nf] = filter (\<lambda>e. \<not> gone e) (map (\<lambda>j. body (f (at j))) [0..<k]) \<and>
    (\<forall>j < N. bit (op_own (f' (at j))) 0 = bit (op_own (f (at j))) 0) \<and> (\<forall>j < N. k + nf \<le> j \<longrightarrow> f' (at j) = f (at j))"
    using assms(2,4)
  proof (induction k arbitrary: nf f)
    case (Suc k)
    show ?case
    proof (cases "gone (f (at k))")
      case True
      then show ?thesis using Suc.IH [of "Suc nf" f] Suc.prems assms(3) by auto
    next
      case False
      define g where "g = f(at (k + nf) := copy_cqe (f (at k)) (f (at (k + nf))))"
      have at: "at j = at (k + nf) \<longleftrightarrow> j = k + nf" if "j < N" for j
        using inj_onD [OF assms(1), of j "k + nf"] that Suc.prems(1) by auto
      have same: "g (at j) = f (at j)" if "j < N" "j \<noteq> k + nf" for j using at [OF that(1)] that(2) by (simp add: g_def)
      have top: "g (at (k + nf)) = copy_cqe (f (at k)) (f (at (k + nf)))" by (simp add: g_def)
      have low: "g (at j) = f (at j)" if "j < k" for j
        using same [of j] that Suc.prems(1) by simp
      have run: "sweep gone at k nf g = (nf', f')" using Suc.prems(2) False by (simp add: g_def)
      have IH: "nf' = nf + length (filter gone (map (\<lambda>j. g (at j)) [0..<k]))"
        "map (\<lambda>j. body (f' (at j))) [nf'..<k + nf] = filter (\<lambda>e. \<not> gone e) (map (\<lambda>j. body (g (at j))) [0..<k])"
        "\<And>j. j < N \<Longrightarrow> bit (op_own (f' (at j))) 0 = bit (op_own (g (at j))) 0"
        "\<And>j. j < N \<Longrightarrow> k + nf \<le> j \<Longrightarrow> f' (at j) = g (at j)"
        using Suc.IH [OF _ run] Suc.prems(1) by auto
      have low_map: "map (\<lambda>j. g (at j)) [0..<k] = map (\<lambda>j. f (at j)) [0..<k]"
        "map (\<lambda>j. body (g (at j))) [0..<k] = map (\<lambda>j. body (f (at j))) [0..<k]" using low by auto
      have nf': "nf' \<le> k + nf" using IH(1) length_filter_le [of gone "map (\<lambda>j. g (at j)) [0..<k]"] by simp
      have "f' (at (k + nf)) = g (at (k + nf))" using IH(4) Suc.prems(1) by simp
      then have last: "body (f' (at (k + nf))) = body (f (at k))" by (simp add: top copy_cqe_eq)
      have "map (\<lambda>j. body (f' (at j))) [nf'..<Suc k + nf] = filter (\<lambda>e. \<not> gone e) (map (\<lambda>j. body (f (at j))) [0..<Suc k])"
        using IH(2) nf' last False assms(3) by (simp add: low_map)
      moreover have "bit (op_own (f' (at j))) 0 = bit (op_own (f (at j))) 0" if "j < N" for j
        using IH(3) [OF that] same [OF that] by (cases "j = k + nf") (simp_all add: top copy_cqe_eq)
      moreover have "f' (at j) = f (at j)" if "j < N" "Suc k + nf \<le> j" for j
        using IH(4) [of j] same [of j] that by simp
      ultimately show ?thesis using IH(1) False by (simp add: low_map)
    qed
  qed auto
  then show "nf' = nf + length (filter gone (map (\<lambda>j. f (at j)) [0..<k]))"
    "map (\<lambda>j. body (f' (at j))) [nf'..<k + nf] = filter (\<lambda>e. \<not> gone e) (map (\<lambda>j. body (f (at j))) [0..<k])"
    "\<forall>j < N. bit (op_own (f' (at j))) 0 = bit (op_own (f (at j))) 0"
    "\<forall>j < N. k + nf \<le> j \<longrightarrow> f' (at j) = f (at j)" by blast+
qed

text \<open>
  Which entries go, and which of these hold a descriptor of the shared receive queue. The descriptors
  are freed newest first.
\<close>

definition gone :: "u32 \<Rightarrow> bool \<Rightarrow> mlx5_cqe64 \<Rightarrow> bool" where
  "gone rsn_uidx cqe_version e = (if cqe_version then is_equal_uidx e rsn_uidx else is_equal_rsn e rsn_uidx)"

definition holds_wqe :: "bool \<Rightarrow> mlx5_cqe64 \<Rightarrow> bool" where
  "holds_wqe cqe_version e = (if cqe_version then is_responder (cqe_opcode e) else htonl (srqn_uidx e) AND 0xFFFFFF \<noteq> 0)"

fun free_wqes :: "bool \<Rightarrow> mlx5_cqe64 list \<Rightarrow> mlx5_srq option \<Rightarrow> mlx5_srq option outcome" where
  "free_wqes ver [] srq = ret srq"
| "free_wqes ver (e # es) srq = bindC (if srq \<noteq> None \<and> holds_wqe ver e then free_srq e srq else ret srq) (free_wqes ver es)"

lemma free_res_eq: "free_res_cqe e rsn srq ver =
    (if gone rsn ver e then bindC (if srq \<noteq> None \<and> holds_wqe ver e then free_srq e srq else ret srq) (\<lambda>srq. ret (True, srq))
     else ret (False, srq))"
  by (simp add: free_res_cqe_def gone_def holds_wqe_def)

lemma gone_body [simp]: "gone rsn ver (body e) = gone rsn ver e"
  by (simp add: gone_def is_equal_rsn_def is_equal_uidx_def body_def)

lemma holds_body [simp]: "holds_wqe ver (body e) = holds_wqe ver e"
  by (simp add: holds_wqe_def) (simp add: body_def)

lemma free_wqes_body: "free_wqes ver (map body es) srq = free_wqes ver es srq"
proof (induction es arbitrary: srq)
  case (Cons e es)
  have "free_wqes ver (map body es) = free_wqes ver es" using Cons.IH by (simp add: fun_eq_iff)
  then show ?case by (simp add: free_srq_def) (simp add: body_def)
qed simp

lemma sint_small: "k < 2 ^ 31 \<Longrightarrow> sint (of_nat k :: u32) = int k"
  by (simp add: signed_of_nat signed_take_bit_int_eq_self)

lemma sweep_loop:
  assumes b: "b < 31" and mask: "cq_cqe cq = 2 ^ b - 1" and "k + nf \<le> 2 ^ b"
  shows "loop (sweep_step rsn ver) (cons_index cq + of_nat k, of_nat nf, cq\<lparr>cq_cqes := f\<rparr>, srq) =
    bindC (free_wqes ver (rev (filter (gone rsn ver) (map (\<lambda>j. f (ring_at b (cons_index cq + of_nat j))) [0..<k]))) srq) (\<lambda>srq.
      case sweep (gone rsn ver) (\<lambda>j. ring_at b (cons_index cq + of_nat j)) k nf f of
        (nf', f') \<Rightarrow> ret (of_nat nf', cq\<lparr>cq_cqes := f'\<rparr>, srq))"
  using assms(3)
proof (induction k arbitrary: nf f srq)
  case 0
  show ?case by (subst loop_Return) (auto simp: sweep_step_def)
next
  case (Suc k)
  let ?c = "cons_index cq" let ?at = "\<lambda>j. ring_at b (?c + of_nat j)" let ?g = "gone rsn ver"
  have "(2 :: nat) ^ b \<le> 2 ^ 30" using b by (intro power_increasing) simp_all
  then have small: "k < 2 ^ 31" "nf < 2 ^ 32" using Suc.prems by simp_all
  have step: "sweep_step rsn ver (?c + of_nat (Suc k), of_nat nf, cq\<lparr>cq_cqes := f\<rparr>, srq) =
    (if ?g (f (?at k)) then bindC (if srq \<noteq> None \<and> holds_wqe ver (f (?at k)) then free_srq (f (?at k)) srq else ret srq)
         (\<lambda>srq. ret (Next (?c + of_nat k, of_nat (Suc nf), cq\<lparr>cq_cqes := f\<rparr>, srq)))
     else ret (Next (?c + of_nat k, of_nat nf, cq\<lparr>cq_cqes := f(?at (k + nf) := copy_cqe (f (?at k)) (f (?at (k + nf))))\<rparr>, srq)))"
  proof -
    obtain z where z: "z \<longleftrightarrow> nf = 0" by blast
    have zero: "(of_nat nf :: u32) \<noteq> 0 \<longleftrightarrow> \<not> z"
      using unat_of_nat_u32 [OF small(2)] by (cases "nf = 0") (auto simp: z word_unat_eq_iff)
    have sel: "cons_index (cq\<lparr>cq_cqes := f\<rparr>) = ?c" "cq_cqe (cq\<lparr>cq_cqes := f\<rparr>) = 2 ^ b - 1" "cq_cqes (cq\<lparr>cq_cqes := f\<rparr>) = f"
      "\<And>g. cq\<lparr>cq_cqes := f, cq_cqes := g\<rparr> = cq\<lparr>cq_cqes := g\<rparr>" by (simp_all add: mask)
    have p: "?c + of_nat (Suc k) - 1 = ?c + of_nat k" by simp
    have d: "\<not> sint (?c + of_nat k - ?c) < 0" using sint_small [OF small(1)] by simp
    have e: "?c + of_nat k + of_nat nf = ?c + of_nat (k + nf)" by simp
    have n: "of_nat nf + 1 = (of_nat (Suc nf) :: u32)" by simp
    have cell: "get_cqe (cq\<lparr>cq_cqes := f\<rparr>) (?c + of_nat k AND (2 ^ b - 1)) = f (?at k)"
      by (simp add: get_cqe_def ring_slot)
    have same: "z \<Longrightarrow> f(?at (k + nf) := copy_cqe (f (?at k)) (f (?at (k + nf)))) = f" by (simp add: z)
    show ?thesis
      unfolding sweep_step_def prod.case Let_def p sel cell free_res_eq zero e ring_slot
      by (cases "?g (f (?at k))"; cases z)
        (simp_all only: d if_False if_True bindC_assoc bindC_simps prod.case n simp_thms same)
  qed
  have low: "?at j \<noteq> ?at (k + nf)" if "j < k" for j
    using ring_at_inj [of b j "k + nf" ?c] b that Suc.prems by simp
  show ?case
  proof (cases "?g (f (?at k))")
    case True
    have "loop (sweep_step rsn ver) (?c + of_nat (Suc k), of_nat nf, cq\<lparr>cq_cqes := f\<rparr>, srq) =
      bindC (if srq \<noteq> None \<and> holds_wqe ver (f (?at k)) then free_srq (f (?at k)) srq else ret srq)
        (\<lambda>srq. loop (sweep_step rsn ver) (?c + of_nat k, of_nat (Suc nf), cq\<lparr>cq_cqes := f\<rparr>, srq))"
      by (subst loop.simps) (simp only: step True if_True bindC_assoc bindC_simps flow.case)
    also have "\<dots> = bindC (if srq \<noteq> None \<and> holds_wqe ver (f (?at k)) then free_srq (f (?at k)) srq else ret srq)
        (\<lambda>srq. bindC (free_wqes ver (rev (filter ?g (map (\<lambda>j. f (?at j)) [0..<k]))) srq) (\<lambda>srq.
          case sweep ?g ?at k (Suc nf) f of (nf', f') \<Rightarrow> ret (of_nat nf', cq\<lparr>cq_cqes := f'\<rparr>, srq)))"
      using Suc.IH [of "Suc nf" f] Suc.prems by simp
    finally show ?thesis using True by (simp add: bindC_assoc)
  next
    case False
    define f' where "f' = f(?at (k + nf) := copy_cqe (f (?at k)) (f (?at (k + nf))))"
    have "loop (sweep_step rsn ver) (?c + of_nat (Suc k), of_nat nf, cq\<lparr>cq_cqes := f\<rparr>, srq) =
        loop (sweep_step rsn ver) (?c + of_nat k, of_nat nf, cq\<lparr>cq_cqes := f'\<rparr>, srq)"
      unfolding f'_def by (rule loop_Next [of "sweep_step rsn ver", OF step [unfolded if_not_P [OF False]]])
    moreover have "filter ?g (map (\<lambda>j. f (?at j)) [0..<Suc k]) = filter ?g (map (\<lambda>j. f' (?at j)) [0..<k])"
    proof -
      have "map (\<lambda>j. f (?at j)) [0..<k] = map (\<lambda>j. f' (?at j)) [0..<k]" using low by (auto simp: f'_def)
      then have "filter ?g (map (\<lambda>j. f (?at j)) [0..<k]) = filter ?g (map (\<lambda>j. f' (?at j)) [0..<k])" by (simp only:)
      then show ?thesis using False by simp
    qed
    moreover have "sweep ?g ?at (Suc k) nf f = sweep ?g ?at k nf f'" using False by (simp add: f'_def)
    moreover have "k + nf \<le> 2 ^ b" using Suc.prems by simp
    ultimately show ?thesis using Suc.IH [of nf f' srq] by (simp only:)
  qed
qed

definition swept :: "nat \<Rightarrow> mlx5_cqe64 list \<Rightarrow> nat" where
  "swept b es = min (length es) (2 ^ b - 1)"

text \<open>The ring after a sweep, and after the consumer index has moved over what it freed.\<close>

lemma valid_entry: "ring_ok b cq pi \<Longrightarrow> j < cq_count cq pi \<Longrightarrow>
    owned b (cons_index cq + of_nat j) (cq_cqes cq (ring_at b (cons_index cq + of_nat j)))"
  unfolding ring_ok_def by (metis order_less_le_trans)

lemma content_valid: "ring_ok b cq pi \<Longrightarrow> e \<in> set (cq_content b cq pi) \<Longrightarrow> cqe_opcode e \<noteq> MLX5_CQE_INVALID"
  using valid_entry [of b cq pi] by (auto simp: cq_content_def ring_view_def owned_def)

lemma swept_ring:
  assumes ok: "ring_ok b cq pi" and nf: "nf \<le> cq_count cq pi"
    and owner: "\<And>j. j < 2 ^ b \<Longrightarrow> bit (op_own (f' (ring_at b (cons_index cq + of_nat j)))) 0 =
      bit (op_own (cq_cqes cq (ring_at b (cons_index cq + of_nat j)))) 0"
    and rest: "\<And>j. j < 2 ^ b \<Longrightarrow> cq_count cq pi \<le> j \<Longrightarrow> f' (ring_at b (cons_index cq + of_nat j)) = cq_cqes cq (ring_at b (cons_index cq + of_nat j))"
    and valid: "\<And>j. nf \<le> j \<Longrightarrow> j < cq_count cq pi \<Longrightarrow> cqe_opcode (f' (ring_at b (cons_index cq + of_nat j))) \<noteq> MLX5_CQE_INVALID"
  shows "ring_ok b (cq\<lparr>cq_cqes := f', cons_index := cons_index cq + of_nat nf, set_ci_db := x\<rparr>) pi"
    and "cq_content b (cq\<lparr>cq_cqes := f', cons_index := cons_index cq + of_nat nf, set_ci_db := x\<rparr>) pi =
      map (\<lambda>j. body (f' (ring_at b (cons_index cq + of_nat j)))) [nf..<cq_count cq pi]"
proof -
  let ?c = "cons_index cq" let ?cq = "cq\<lparr>cq_cqes := f', cons_index := ?c + of_nat nf, set_ci_db := x\<rparr>" let ?n = "cq_count cq pi"
  have b: "b < 31" "b < 32" and n: "?n \<le> 2 ^ b" using ok by (simp_all add: ring_ok_def)
  have c: "cq_count ?cq pi = ?n - nf"
  proof -
    have "pi - (?c + of_nat nf) = of_nat ?n - of_nat nf" by (simp add: cq_count_def)
    also have "\<dots> = of_nat (?n - nf)" using nf by (simp add: of_nat_diff)
    finally have eq: "pi - (?c + of_nat nf) = of_nat (?n - nf)" .
    have "?n < 2 ^ 32" unfolding cq_count_def by (rule order_less_le_trans [OF unsigned_less]) simp
    then have small: "unat (of_nat (?n - nf) :: u32) = ?n - nf" by (intro unat_of_nat_u32) linarith
    have "cq_count ?cq pi = unat (pi - (?c + of_nat nf))" by (simp add: cq_count_def)
    then show ?thesis unfolding eq small .
  qed
  show "cq_content b ?cq pi = map (\<lambda>j. body (f' (ring_at b (?c + of_nat j)))) [nf..<?n]"
    unfolding cq_content_def c by (rule nth_equalityI) (simp_all add: ring_view_def algebra_simps)
  have "owned b (?c + of_nat nf + of_nat j) (f' (ring_at b (?c + of_nat nf + of_nat j))) \<longleftrightarrow> j < ?n - nf" if "j < 2 ^ b" for j
  proof -
    define i where "i = nf + j"
    have eq: "?c + of_nat nf + of_nat j = ?c + of_nat i" by (simp add: i_def)
    have "i < ?n \<or> ?n \<le> i \<and> i < 2 ^ b \<or> i = 2 ^ b + (i - 2 ^ b) \<and> i - 2 ^ b < nf"
      using that n by (simp add: i_def) linarith
    then consider "i < ?n" | "?n \<le> i" "i < 2 ^ b" | i' where "i = 2 ^ b + i'" "i' < nf" by blast
    then have "owned b (?c + of_nat i) (f' (ring_at b (?c + of_nat i))) \<longleftrightarrow> i < ?n"
    proof cases
      case 1
      then show ?thesis using valid_entry [OF ok 1] valid [of i] owner [of i] n by (simp add: owned_def i_def)
    next
      case 2
      then show ?thesis using rest ok by (simp add: ring_ok_def)
    next
      case 3
      have turn: "?c + of_nat i = ?c + of_nat i' + 2 ^ b" unfolding 3(1) by simp
      have "bit (op_own (f' (ring_at b (?c + of_nat i')))) 0 = bit (?c + of_nat i') b"
        using valid_entry [OF ok, of i'] owner [of i'] 3(2) nf n by (simp add: owned_def)
      then have "\<not> owned b (?c + of_nat i) (f' (ring_at b (?c + of_nat i)))"
        unfolding turn slot_turn [OF b(2)] owned_def turn_bit [OF b(2)] by blast
      then show ?thesis using 3(1) n by simp
    qed
    then show ?thesis unfolding eq by (auto simp: i_def)
  qed
  then show "ring_ok b ?cq pi" unfolding ring_ok_def c using ok n by (simp add: ring_ok_def)
qed

text \<open>
  The whole cleaning: of the entries in the ring those that match are taken out and the others stay,
  in their order; but when the ring is full, the newest entry is not looked at.
\<close>

lemma cq_clean_eq:
  assumes ok: "ring_ok b cq pi"
  defines "es \<equiv> cq_content b cq pi"
  defines "old \<equiv> take (swept b es) es"
  shows "\<exists>cq'. mlx5_cq_clean rsn ver cq srq = bindC (free_wqes ver (rev (filter (gone rsn ver) old)) srq) (\<lambda>srq. ret (cq', srq)) \<and>
    ring_ok b cq' pi \<and> cq_content b cq' pi = filter (\<lambda>e. \<not> gone rsn ver e) old @ drop (swept b es) es"
proof -
  let ?c = "cons_index cq" let ?at = "\<lambda>j. ring_at b (?c + of_nat j)" let ?g = "gone rsn ver" let ?f = "cq_cqes cq"
  define k where "k = swept b es"
  define n where "n = cq_count cq pi"
  have b: "b < 31" "b < 32" and mask: "cq_cqe cq = 2 ^ b - 1" and n: "n \<le> 2 ^ b" using ok by (simp_all add: ring_ok_def n_def)
  have len: "length es = n" by (simp add: es_def n_def content_length)
  have k: "k \<le> n" "k + 0 \<le> 2 ^ b" using n by (simp_all add: k_def swept_def len)
  obtain nf f' where sw: "sweep ?g ?at k 0 ?f = (nf, f')" by (cases "sweep ?g ?at k 0 ?f")
  have inj: "inj_on ?at {0..<2 ^ b}" using ring_at_inj [OF b(2), of _ _ ?c] by (intro inj_onI) auto
  note res = sweep_result [OF inj k(2) gone_body sw]
  have es: "es = map (\<lambda>j. body (?f (?at j))) [0..<n]" by (simp add: es_def cq_content_def ring_view_def n_def)
  have old: "old = map body (map (\<lambda>j. ?f (?at j)) [0..<k])"
    unfolding old_def k_def [symmetric] unfolding es using k by (simp add: take_map)
  have nf: "nf \<le> k" using res(1) length_filter_le [of ?g "map (\<lambda>j. ?f (?at j)) [0..<k]"] by simp
  let ?cq = "\<lambda>x. cq\<lparr>cq_cqes := f', cons_index := ?c + of_nat nf, set_ci_db := x\<rparr>"
  have above: "map (\<lambda>j. body (f' (?at j))) [k..<n] = drop k es" using res(4) n by (simp add: es drop_map)
  have kept: "map (\<lambda>j. body (f' (?at j))) [nf..<n] = filter (\<lambda>e. \<not> ?g e) old @ drop k es"
  proof -
    have "[nf..<n] = [nf..<k] @ [k..<n]" using upt_add_eq_append [OF nf, of "n - k"] k(1) by simp
    then show ?thesis using res(2) above by (simp add: old o_def)
  qed
  have valid: "cqe_opcode (f' (?at j)) \<noteq> MLX5_CQE_INVALID" if "nf \<le> j" "j < n" for j
  proof -
    have "body (f' (?at j)) \<in> set (map (\<lambda>j. body (f' (?at j))) [nf..<n])" using that by simp
    then have "body (f' (?at j)) \<in> set es" unfolding kept using set_take_subset [of k es] set_drop_subset [of k es] by (auto simp: old_def k_def)
    from content_valid [OF ok this [unfolded es_def]] show ?thesis by simp
  qed
  have "nf \<le> n" using nf k(1) by simp
  note ring = swept_ring [OF ok, folded n_def, OF this, of f']
  have after: "ring_ok b (?cq x) pi \<and> cq_content b (?cq x) pi = filter (\<lambda>e. \<not> ?g e) old @ drop k es" for x
    using ring [of x] res(3,4) valid k(1) kept by simp
  have "mlx5_cq_clean rsn ver cq srq = bindC (free_wqes ver (rev (filter ?g (map (\<lambda>j. ?f (?at j)) [0..<k]))) srq)
    (\<lambda>srq. ret (?cq (if nf = 0 then set_ci_db cq else htonl (?c + of_nat nf AND 0xFFFFFF)), srq))"
  proof -
    have prod: "loop (prod_step cq) ?c = ret (?c + of_nat k)"
      using prod_loop [OF ok] by (simp add: k_def swept_def len n_def)
    have id: "cq\<lparr>cq_cqes := ?f\<rparr> = cq" by simp
    have sweep: "loop (sweep_step rsn ver) (?c + of_nat k, 0, cq, srq) =
        bindC (free_wqes ver (rev (filter ?g (map (\<lambda>j. ?f (?at j)) [0..<k]))) srq) (\<lambda>srq. ret (of_nat nf, cq\<lparr>cq_cqes := f'\<rparr>, srq))"
      using sweep_loop [OF b(1) mask k(2), of rsn ver ?f srq] unfolding sw id by simp
    have "nf < 2 ^ 32" using nf k(2) b power_strict_increasing [of b 32 "2 :: nat"] by simp
    then have "(of_nat nf :: u32) = 0 \<longleftrightarrow> nf = 0"
      using unat_of_nat_u32 [of nf] by (cases "nf = 0") (auto simp: word_unat_eq_iff)
    then show ?thesis
      unfolding mlx5_cq_clean_def prod sweep bindC_assoc bindC_simps
      by (intro arg_cong [where f = "bindC _"] ext) (simp add: mlx5_update_cons_index_def)
  qed
  moreover have "free_wqes ver (rev (filter ?g old)) = free_wqes ver (rev (filter ?g (map (\<lambda>j. ?f (?at j)) [0..<k])))"
    by (simp only: old filter_map o_def gone_body rev_map free_wqes_body fun_eq_iff simp_thms)
  ultimately show ?thesis using after unfolding k_def by metis
qed

subsection \<open>A new ring\<close>

lemma alloc_invalid: "cqe_opcode (mlx5_alloc_cq_buf i) = MLX5_CQE_INVALID"
  by (simp add: mlx5_alloc_cq_buf_def cqe_opcode_def push_bit_eq_mult)

lemma fresh_ring:
  assumes "b < 31" and "cq_cqe cq = 2 ^ b - 1" and "cq_cqes cq = mlx5_alloc_cq_buf"
  shows "ring_ok b cq (cons_index cq) \<and> cq_content b cq (cons_index cq) = []"
  using assms by (simp add: ring_ok_def cq_count_def cq_content_def owned_def alloc_invalid ring_view_def)

text \<open>The new buffer of a resized queue, seen as a ring of its own. A copy into it is a write.\<close>

definition new_ring :: "nat \<Rightarrow> mlx5_cq \<Rightarrow> (nat \<Rightarrow> mlx5_cqe64) \<Rightarrow> mlx5_cq" where
  "new_ring b cq g = cq\<lparr>cq_cqes := g, cq_cqe := 2 ^ b - 1, cons_index := cons_index cq + 1\<rparr>"

fun copied :: "nat \<Rightarrow> u32 \<Rightarrow> (nat \<Rightarrow> mlx5_cqe64) \<Rightarrow> nat \<Rightarrow> nat \<Rightarrow> mlx5_cqe64" where
  "copied b c es 0 = mlx5_alloc_cq_buf"
| "copied b c es (Suc j) = (copied b c es j)(ring_at b (c + 1 + of_nat j) := with_owner (bit (c + 1 + of_nat j) b) (es j))"

lemma copied_ring:
  assumes "b < 31" and "m \<le> 2 ^ b" and "\<And>j. j < m \<Longrightarrow> cqe_opcode (es j) \<noteq> MLX5_CQE_INVALID"
  shows "ring_ok b (new_ring b cq (copied b (cons_index cq) es m)) (cons_index cq + 1 + of_nat m) \<and>
    cq_content b (new_ring b cq (copied b (cons_index cq) es m)) (cons_index cq + 1 + of_nat m) = map (\<lambda>j. body (es j)) [0..<m]"
  using assms(2,3)
proof (induction m)
  case 0
  have "cons_index (new_ring b cq mlx5_alloc_cq_buf) = cons_index cq + 1" by (simp add: new_ring_def)
  then show ?case using fresh_ring [OF assms(1), of "new_ring b cq mlx5_alloc_cq_buf"] by (simp add: new_ring_def)
next
  case (Suc m)
  let ?r = "new_ring b cq (copied b (cons_index cq) es m)" let ?pi = "cons_index cq + 1 + of_nat m"
  have r: "ring_ok b ?r ?pi" "cq_content b ?r ?pi = map (\<lambda>j. body (es j)) [0..<m]" using Suc by simp_all
  moreover from r(2) have "cq_count ?r ?pi = m" using content_length [of b ?r ?pi] by simp
  ultimately have w: "ring_ok b (device_write b (es m) ?pi ?r) (?pi + 1) \<and>
      cq_content b (device_write b (es m) ?pi ?r) (?pi + 1) = map (\<lambda>j. body (es j)) [0..<m] @ [body (es m)]"
    using write_ok [of b ?r ?pi "es m"] Suc.prems by simp
  have "device_write b (es m) ?pi ?r = new_ring b cq (copied b (cons_index cq) es (Suc m))"
    by (simp add: device_write_eq new_ring_def)
  moreover have "?pi + 1 = cons_index cq + 1 + of_nat (Suc m)" by simp
  ultimately show ?case using w by (simp only: upt_Suc_append le0 map_append list.map)
qed

lemma resize_loop:
  assumes ok: "ring_ok b cq pi" and act: "active_cqes cq = 2 ^ b - 1" and b': "b' < 31" "resize_cqes cq = 2 ^ b'"
    and m: "cq_count cq pi = Suc m" and buf: "resize_buf cq = mlx5_alloc_cq_buf"
  defines "es \<equiv> \<lambda>j. cq_cqes cq (ring_at b (cons_index cq + of_nat j))"
  assumes marks: "\<And>j. j < m \<Longrightarrow> cqe_opcode (es j) \<noteq> MLX5_CQE_RESIZE_CQ" "cqe_opcode (es m) = MLX5_CQE_RESIZE_CQ"
  shows "mlx5_cq_resize_copy_cqes cq = ret (cq\<lparr>resize_buf := copied b' (cons_index cq) es m, cons_index := cons_index cq + 1\<rparr>)"
proof -
  let ?c = "cons_index cq" let ?start = "ring_at b ?c"
  let ?cq = "\<lambda>j. cq\<lparr>resize_buf := copied b' ?c es j\<rparr>"
  have b: "b < 32" and le: "Suc m \<le> 2 ^ b" using ok m by (simp_all add: ring_ok_def)
  have sw: "\<not> is_hw (es j) (?c + of_nat j) (active_cqes cq)" if "j \<le> m" for j
    using valid_entry [OF ok, of j] that m by (simp add: es_def act is_hw_bit owned_def)
  have entry: "cq_cqes cq (unat (?c + of_nat j AND active_cqes cq)) = es j" for j by (simp add: es_def act ring_slot)
  have e: "cq_cqes cq (ring_at b (?c + of_nat j)) = es j" for j by (simp add: es_def)
  have step: "resize_step ?start (?c + of_nat j, ?cq j) = ret (Next (?c + of_nat (Suc j), ?cq (Suc j)))" if "j < m" for j
  proof -
    have i: "?c + of_nat j + 1 = ?c + of_nat (Suc j)" "?c + of_nat (Suc j) = ?c + 1 + of_nat j" by simp_all
    have own: "sw_ownership_bit (?c + of_nat (Suc j)) (2 ^ b') = (if bit (?c + of_nat (Suc j)) b' then 1 else 0)"
      by (simp add: sw_ownership_bit_def and_exp_eq_0_iff_not_bit del: of_nat_Suc)
    have "ring_at b (?c + of_nat (Suc j)) \<noteq> ?start" using ring_at_inj [OF b, of "Suc j" 0 ?c] that le by simp
    then show ?thesis
      using marks(1) [OF that] sw [of "Suc j"] that
      by (simp add: resize_step_def Let_def i(1) b' own ring_slot act e i(2) [symmetric] with_owner_def del: of_nat_Suc)
  qed
  have run: "loop (resize_step ?start) (?c + of_nat (m - d), ?cq (m - d)) = ret (cq\<lparr>resize_buf := copied b' ?c es m, cons_index := ?c + 1\<rparr>)" if "d \<le> m" for d
    using that
  proof (induction d)
    case 0
    show ?case using marks(2) by (subst loop_Return) (auto simp: resize_step_def entry)
  next
    case (Suc d)
    then have "Suc (m - Suc d) = m - d" "m - Suc d < m" by simp_all
    with Suc loop_Next [of "resize_step ?start", OF step [OF this(2)]] show ?case by simp
  qed
  moreover have "cq\<lparr>resize_buf := mlx5_alloc_cq_buf\<rparr> = cq" by (simp add: buf [symmetric])
  ultimately show ?thesis
    using run [of m] sw [of 0] entry [of 0] by (simp add: mlx5_cq_resize_copy_cqes_def Let_def) (simp add: act ring_slot)
qed

lemma copy_cqes_eq:
  assumes ok: "ring_ok b cq pi" and act: "active_cqes cq = 2 ^ b - 1" and b': "b' < 31" "resize_cqes cq = 2 ^ b'"
    and buf: "resize_buf cq = mlx5_alloc_cq_buf" and q: "cq_content b cq pi = q @ [r]" "length q \<le> 2 ^ b'"
    and marks: "cqe_opcode r = MLX5_CQE_RESIZE_CQ" "\<forall>e \<in> set q. cqe_opcode e \<noteq> MLX5_CQE_RESIZE_CQ"
  shows "\<exists>g. mlx5_cq_resize_copy_cqes cq = ret (cq\<lparr>resize_buf := g, cons_index := cons_index cq + 1\<rparr>) \<and>
    ring_ok b' (new_ring b' cq g) pi \<and> cq_content b' (new_ring b' cq g) pi = q"
proof -
  let ?m = "length q" let ?es = "\<lambda>j. cq_cqes cq (ring_at b (cons_index cq + of_nat j))"
  have m: "cq_count cq pi = Suc ?m" using q(1) content_length [of b cq pi] by simp
  then have "map (\<lambda>j. body (?es j)) [0..<Suc ?m] = q @ [r]" using q(1) by (simp add: cq_content_def ring_view_def)
  then have es: "map (\<lambda>j. body (?es j)) [0..<?m] = q" "body (?es ?m) = r" by simp_all
  have mark: "cqe_opcode (?es ?m) = MLX5_CQE_RESIZE_CQ" using arg_cong [OF es(2), of cqe_opcode] marks(1) by simp
  have old: "cqe_opcode (?es j) \<noteq> MLX5_CQE_RESIZE_CQ" "cqe_opcode (?es j) \<noteq> MLX5_CQE_INVALID" if "j < ?m" for j
  proof -
    have "body (?es j) \<in> set (map (\<lambda>j. body (?es j)) [0..<?m])" using that by simp
    then have "body (?es j) \<in> set q" unfolding es(1) .
    then show "cqe_opcode (?es j) \<noteq> MLX5_CQE_RESIZE_CQ" "cqe_opcode (?es j) \<noteq> MLX5_CQE_INVALID"
      using marks(2) content_valid [OF ok, of "body (?es j)"] opcode_body [of "?es j"] q(1) by auto
  qed
  have "cons_index cq + of_nat (Suc ?m) = pi" using ring_next [of "cons_index cq" pi] m unfolding cq_count_def by (simp only:)
  then have "cons_index cq + 1 + of_nat ?m = pi" by (simp add: add.assoc)
  then show ?thesis
    using resize_loop [OF ok act b' m buf old(1) mark] copied_ring [OF b'(1) q(2), of ?es cq] old(2) es(1) by auto
qed

lemma ring_cong:
  assumes "cq_cqes cq' = cq_cqes cq" and "cq_cqe cq' = cq_cqe cq" and "cons_index cq' = cons_index cq"
  shows "ring_ok b cq' pi = ring_ok b cq pi" and "cq_content b cq' pi = cq_content b cq pi"
  using assms by (simp_all add: ring_ok_def cq_content_def cq_count_def)

lemma ring_size: "b < 31 \<Longrightarrow> uint (2 ^ b - 1 :: u32) + 1 = 2 ^ b"
proof -
  assume "b < 31"
  then have "(2 :: nat) ^ b < 2 ^ 32" by (intro power_strict_increasing) simp_all
  then have "unat (of_nat (2 ^ b - 1) :: u32) = 2 ^ b - 1" by (intro unat_of_nat_u32) simp
  then have "unat (2 ^ b - 1 :: u32) = 2 ^ b - 1" by (simp add: of_nat_diff)
  then show ?thesis by (simp add: uint_nat of_nat_diff)
qed

text \<open>
  A change of size: the device writes the mark and goes on in the new buffer, so the new ring holds
  what was before the mark.
\<close>

lemma resize_eq:
  assumes ok: "ring_ok b cq pi" and q: "cq_content b cq pi = q" "length q < 2 ^ b"
    and marks: "cqe_opcode r = MLX5_CQE_RESIZE_CQ" "\<forall>e \<in> set q. cqe_opcode e \<noteq> MLX5_CQE_RESIZE_CQ"
    and n: "int (length q) \<le> n" "n < 2 ^ 24"
  shows "\<exists>b' cq'. mlx5_resize_cq True (\<lambda>c. (0, device_write b r pi c)) n cq = ret (0, cq') \<and>
    (if b' = b then ring_ok b cq' pi \<and> cq_content b cq' pi = q else ring_ok b' cq' (pi + 1) \<and> cq_content b' cq' (pi + 1) = q)"
proof -
  have b: "b < 31" and mask: "cq_cqe cq = 2 ^ b - 1" using ok by (simp_all add: ring_ok_def)
  obtain b' where up: "mlx5_round_up_power_of_two (n + 1) = ret (2 ^ b')" "n + 1 \<le> 2 ^ b'" "b' \<le> 24"
    by (rule round_up_eq [of "n + 1" 24]) (use n(2) in simp_all)
  have bounds: "\<not> n < 0" "\<not> 2147483647 < n * 64" using n by simp_all
  let ?c0 = "cq\<lparr>active_cqes := cq_cqe cq\<rparr>"
  show ?thesis
  proof (cases "b' = b")
    case True
    have "mlx5_resize_cq True (\<lambda>c. (0, device_write b r pi c)) n cq = ret (0, ?c0)"
      using bounds up(1) ring_size [OF b] mask True by (simp add: mlx5_resize_cq_def)
    then show ?thesis using ok q(1) ring_cong [of ?c0 cq] by (intro exI [of _ b] exI [of _ ?c0]) simp
  next
    case False
    let ?c1 = "?c0\<lparr>resize_cqes := 2 ^ b', resize_buf := mlx5_alloc_cq_buf\<rparr>"
    define c2 where "c2 = device_write b r pi ?c1"
    have "ring_ok b ?c1 pi" "cq_content b ?c1 pi = q" "cq_count ?c1 pi < 2 ^ b"
      using ok q content_length [of b cq pi] ring_cong [of ?c1 cq] by (simp_all add: cq_count_def)
    then have c2: "ring_ok b c2 (pi + 1)" "cq_content b c2 (pi + 1) = q @ [body r]"
      using write_ok [of b ?c1 pi r] marks(1) by (simp_all add: c2_def)
    have fields: "active_cqes c2 = 2 ^ b - 1" "resize_cqes c2 = 2 ^ b'" "resize_buf c2 = mlx5_alloc_cq_buf"
      by (simp_all add: c2_def device_write_eq mask)
    have "int (length q) < 2 ^ b'" using up(2) n(1) by linarith
    then have "b' < 31" "length q \<le> 2 ^ b'" using up(3) by simp_all
    then obtain g where g: "mlx5_cq_resize_copy_cqes c2 = ret (c2\<lparr>resize_buf := g, cons_index := cons_index c2 + 1\<rparr>)"
      "ring_ok b' (new_ring b' c2 g) (pi + 1)" "cq_content b' (new_ring b' c2 g) (pi + 1) = q"
      using copy_cqes_eq [OF c2(1) fields(1) _ fields(2,3) c2(2)] marks by auto
    let ?cq = "mlx5_update_cons_index (c2\<lparr>resize_buf := g, cons_index := cons_index c2 + 1, cq_cqes := g, cq_cqe := word_of_int (2 ^ b' - 1)\<rparr>)"
    have "mlx5_resize_cq True (\<lambda>c. (0, device_write b r pi c)) n cq = ret (0, ?cq)"
    proof -
      have "device_write b r pi (cq\<lparr>active_cqes := 2 ^ b - 1, resize_cqes := 2 ^ b', resize_buf := mlx5_alloc_cq_buf\<rparr>) = c2"
        by (simp add: c2_def mask)
      then show ?thesis using bounds up(1) ring_size [OF b] mask False g(1) by (simp add: mlx5_resize_cq_def)
    qed
    then show ?thesis
      using g(2,3) False ring_cong [of ?cq "new_ring b' c2 g" b' "pi + 1"]
      by (intro exI [of _ b'] exI [of _ ?cq]) (simp add: new_ring_def mlx5_update_cons_index_def)
  qed
qed

subsection \<open>Runs of driver and device\<close>

text \<open>
  A queue is created empty; then the device writes entries while there is room, the driver takes
  entries, removes those of a queue pair or a shared receive queue and changes the size. \<open>q\<close> are the
  entries written and neither taken nor removed, oldest first.
\<close>

definition cleaned :: "u32 \<Rightarrow> bool \<Rightarrow> nat \<Rightarrow> mlx5_cqe64 list \<Rightarrow> mlx5_cqe64 list" where
  "cleaned rsn ver b q =
    (if length q < 2 ^ b then filter (\<lambda>e. \<not> gone rsn ver e) q else filter (\<lambda>e. \<not> gone rsn ver e) (butlast q) @ [last q])"

inductive cq_run :: "nat \<Rightarrow> mlx5_cq \<Rightarrow> u32 \<Rightarrow> mlx5_cqe64 list \<Rightarrow> bool" where
  create: "b < 31 \<Longrightarrow> cq_cqe cq = 2 ^ b - 1 \<Longrightarrow> cons_index cq = 0 \<Longrightarrow> cq_cqes cq = mlx5_alloc_cq_buf \<Longrightarrow> cq_run b cq 0 []"
| device: "cq_run b cq pi q \<Longrightarrow> length q < 2 ^ b \<Longrightarrow> cqe_opcode e \<notin> {MLX5_CQE_INVALID, MLX5_CQE_RESIZE_CQ} \<Longrightarrow>
    cq_run b (device_write b e pi cq) (pi + 1) (q @ [body e])"
| poll: "cq_run b cq pi q \<Longrightarrow> get_next_cqe cq = Some e \<Longrightarrow> cq_run b (mlx5_update_cons_index (cq_take cq)) pi (tl q)"
| clean: "cq_run b cq pi q \<Longrightarrow> mlx5_cq_clean rsn ver cq srq = ret (cq', srq') \<Longrightarrow> cq_run b cq' pi (cleaned rsn ver b q)"
| resize: "cq_run b cq pi q \<Longrightarrow> length q < 2 ^ b \<Longrightarrow> cqe_opcode r = MLX5_CQE_RESIZE_CQ \<Longrightarrow> int (length q) \<le> n \<Longrightarrow> n < 2 ^ 24 \<Longrightarrow>
    mlx5_resize_cq True (\<lambda>c. (0, device_write b r pi c)) n cq = ret (0, cq') \<Longrightarrow> cq_cqe cq' = 2 ^ b' - 1 \<Longrightarrow> b' < 31 \<Longrightarrow>
    cq_run b' cq' (if b' = b then pi else pi + 1) q"

lemma cleaned_swept: "length q \<le> 2 ^ b \<Longrightarrow>
    filter (\<lambda>e. \<not> gone rsn ver e) (take (swept b q) q) @ drop (swept b q) q = cleaned rsn ver b q"
proof -
  assume le: "length q \<le> 2 ^ b"
  show ?thesis
  proof (cases "length q < 2 ^ b")
    case True
    then have "swept b q = length q" by (simp add: swept_def)
    then show ?thesis using True by (simp add: cleaned_def)
  next
    case False
    with le have full: "length q = 2 ^ b" by simp
    then have "q \<noteq> []" by auto
    then have "q = butlast q @ [last q]" by simp
    moreover have "swept b q = length (butlast q)" using full by (simp add: swept_def)
    ultimately show ?thesis using False by (metis append_eq_conv_conj cleaned_def)
  qed
qed

lemma taken_swept: "length q \<le> 2 ^ b \<Longrightarrow> take (swept b q) q = (if length q < 2 ^ b then q else butlast q)"
  by (cases "length q = 2 ^ b") (simp_all add: swept_def butlast_conv_take)

lemma clean_cleaned:
  assumes "ring_ok b cq pi" and "cq_content b cq pi = q"
  obtains cq' where "mlx5_cq_clean rsn ver cq srq =
      bindC (free_wqes ver (rev (filter (gone rsn ver) (if length q < 2 ^ b then q else butlast q))) srq) (\<lambda>srq. ret (cq', srq))"
    and "ring_ok b cq' pi" and "cq_content b cq' pi = cleaned rsn ver b q"
proof -
  have le: "length q \<le> 2 ^ b" using assms content_length [of b cq pi] by (auto simp: ring_ok_def)
  from cq_clean_eq [OF assms(1), of rsn ver srq] show thesis
    unfolding assms(2) taken_swept [OF le, symmetric] cleaned_swept [OF le, symmetric] using that
    by (auto simp: taken_swept [OF le, symmetric] cleaned_swept [OF le, symmetric])
qed

lemma mask_inj: "b < 31 \<Longrightarrow> b' < 31 \<Longrightarrow> (2 ^ b - 1 :: u32) = 2 ^ b' - 1 \<Longrightarrow> b = b'"
  using ring_size [of b] ring_size [of b'] by (metis one_less_numeral_iff power_inject_exp semiring_norm(76))

lemma cleaned_subset: "set (cleaned rsn ver b q) \<subseteq> set q"
proof (cases "length q < 2 ^ b")
  case True
  then show ?thesis by (simp add: cleaned_def)
next
  case False
  then have "q \<noteq> []" by auto
  then show ?thesis using False last_in_set [of q] in_set_butlastD [of _ q] by (auto simp: cleaned_def)
qed

lemma cq_run_ring: "cq_run b cq pi q \<Longrightarrow> ring_ok b cq pi \<and> cq_content b cq pi = q \<and> (\<forall>e \<in> set q. cqe_opcode e \<noteq> MLX5_CQE_RESIZE_CQ)"
proof (induction rule: cq_run.induct)
  case (create b cq)
  then show ?case using fresh_ring [of b cq] by simp
next
  case (device b cq pi q e)
  then show ?case using write_ok [of b cq pi e] content_length [of b cq pi] by auto
next
  case (poll b cq pi q e)
  then have "0 < cq_count cq pi"
    using next_content [of b cq pi] content_length [of b cq pi] by (cases q) auto
  then show ?case
    using take_ok [of b cq pi] poll ring_cong [of "mlx5_update_cons_index (cq_take cq)" "cq_take cq"]
      list.set_sel(2) [of q] by (cases "q = []") (auto simp: mlx5_update_cons_index_def)
next
  case (clean b cq pi q rsn ver srq cq' srq')
  obtain c1 where c1: "mlx5_cq_clean rsn ver cq srq =
      bindC (free_wqes ver (rev (filter (gone rsn ver) (if length q < 2 ^ b then q else butlast q))) srq) (\<lambda>srq. ret (c1, srq))"
    "ring_ok b c1 pi" "cq_content b c1 pi = cleaned rsn ver b q"
    using clean_cleaned [of b cq pi q rsn ver srq] clean.IH by blast
  have "c1 = cq'" using clean.hyps(2) unfolding c1(1) bindC_eq_ret by auto
  then have "ring_ok b cq' pi \<and> cq_content b cq' pi = cleaned rsn ver b q" using c1 by simp
  then show ?case using clean.IH cleaned_subset [of rsn ver b q] by auto
next
  case (resize b cq pi q r n cq' b')
  from resize_eq [of b cq pi q r n] resize.IH resize.hyps(2-6) obtain k where
    k: "if k = b then ring_ok b cq' pi \<and> cq_content b cq' pi = q else ring_ok k cq' (pi + 1) \<and> cq_content k cq' (pi + 1) = q" by auto
  then have "k < 31" "cq_cqe cq' = 2 ^ k - 1" by (auto simp: ring_ok_def split: if_splits)
  then have "k = b'" using mask_inj resize.hyps(7,8) by simp
  then show ?case using k resize.IH by (auto split: if_splits)
qed

text \<open>What the driver gets, entry by entry.\<close>

fun polled :: "nat \<Rightarrow> mlx5_cq \<Rightarrow> mlx5_cqe64 list" where
  "polled 0 cq = []"
| "polled (Suc n) cq = (case get_next_cqe cq of None \<Rightarrow> [] | Some e \<Rightarrow> body e # polled n (cq_take cq))"

lemma polled_content: "ring_ok b cq pi \<Longrightarrow> polled n cq = take n (cq_content b cq pi)"
proof (induction n arbitrary: cq)
  case (Suc n)
  show ?case
  proof (cases "cq_content b cq pi")
    case Nil
    then show ?thesis using next_content [OF Suc.prems] by simp
  next
    case (Cons e es)
    then have "0 < cq_count cq pi" using content_length [of b cq pi] by simp
    then show ?thesis using next_content [OF Suc.prems] take_ok [OF Suc.prems] Suc.IH [of "cq_take cq"] Cons by auto
  qed
qed simp

text \<open>
  C34: a completion queue is a first-in first-out queue. In any run of writes by the device, polls,
  removals and changes of size, across any number of turns of the ring, the driver gets exactly the
  entries the device has written and that were not removed, each once and oldest first; it stops
  behind the newest, whatever older turns have left in the ring.
\<close>

theorem cq_in_order:
  assumes "cq_run b cq pi q"
  shows "polled n cq = take n q"
  using polled_content [of b cq pi n] cq_run_ring [OF assms] by simp

text \<open>
  C35: removing the entries of a queue pair from a completion queue, and giving the descriptors of the
  removed ones back to a shared receive queue, newest first: afterwards the driver gets the other
  entries, in their order. In a full ring the newest entry is not looked at and stays, whether it
  belongs to the queue pair or not.
\<close>

theorem cq_clean_removes:
  assumes "cq_run b cq pi q"
  shows "\<exists>cq'. mlx5_cq_clean rsn ver cq srq =
      bindC (free_wqes ver (rev (filter (gone rsn ver) (if length q < 2 ^ b then q else butlast q))) srq) (\<lambda>srq. ret (cq', srq)) \<and>
    (\<forall>n. polled n cq' = take n (if length q < 2 ^ b then filter (\<lambda>e. \<not> gone rsn ver e) q
      else filter (\<lambda>e. \<not> gone rsn ver e) (butlast q) @ [last q]))"
proof -
  have run: "ring_ok b cq pi" "cq_content b cq pi = q" using cq_run_ring [OF assms] by simp_all
  obtain cq' where cq': "mlx5_cq_clean rsn ver cq srq =
      bindC (free_wqes ver (rev (filter (gone rsn ver) (if length q < 2 ^ b then q else butlast q))) srq) (\<lambda>srq. ret (cq', srq))"
    "ring_ok b cq' pi" "cq_content b cq' pi = cleaned rsn ver b q"
    by (rule clean_cleaned [OF run])
  then show ?thesis using polled_content [OF cq'(2)] by (intro exI [of _ cq']) (simp add: cleaned_def)
qed

text \<open>A queue of two entries, and a receive of queue pair 7.\<close>

definition cq_of_two :: mlx5_cq where
  "cq_of_two = \<lparr>cq_cqes = mlx5_alloc_cq_buf, cq_cqe = 1, cons_index = 0, set_ci_db = 0, arm_db = 0, arm_sn = 0, cqn = 5,
     active_cqes = 0, resize_buf = mlx5_alloc_cq_buf, resize_cqes = 0\<rparr>"

definition receive_of_7 :: "u16 \<Rightarrow> mlx5_cqe64" where
  "receive_of_7 ctr = \<lparr>ml_path = 0, cqe_slid = 0, flags_rqpn = 0, srqn_uidx = 0, imm_inval_pkey = 0, app = 0, cqe_byte_cnt = 0,
     cqe_timestamp = 0, sop_drop_qpn = htonl 7, wqe_counter = ctr, op_own = 0x20\<rparr>"

lemma receive_of_7: "cqe_opcode (receive_of_7 ctr) = MLX5_CQE_RESP_SEND" "body (receive_of_7 ctr) = receive_of_7 ctr" "gone 7 False (receive_of_7 ctr)"
  by (simp_all add: receive_of_7_def cqe_opcode_def drop_bit_eq_div body_def MLX5_CQE_OWNER_MASK_def gone_def is_equal_rsn_def)

lemma full_run: "\<exists>cq. cq_run 1 cq 2 [receive_of_7 0, receive_of_7 1]"
proof -
  have "cq_run 1 cq_of_two 0 []" by (rule cq_run.create) (simp_all add: cq_of_two_def)
  from cq_run.device [OF this, of "receive_of_7 0"] have "\<exists>cq. cq_run 1 cq 1 [receive_of_7 0]" by (auto simp: receive_of_7)
  then obtain cq where "cq_run 1 cq 1 [receive_of_7 0]" by blast
  from cq_run.device [OF this, of "receive_of_7 1"] show ?thesis by (auto simp: receive_of_7)
qed

lemma cq_in_order_witness: "\<exists>cq. cq_run 1 cq 2 [receive_of_7 0, receive_of_7 1] \<and> polled 5 cq = [receive_of_7 0, receive_of_7 1]"
proof -
  obtain cq where cq: "cq_run 1 cq 2 [receive_of_7 0, receive_of_7 1]" using full_run by blast
  from cq_in_order [OF this, of 5] cq show ?thesis by auto
qed

lemma cq_clean_removes_witness:
  "\<exists>cq cq'. cq_run 1 cq 2 [receive_of_7 0, receive_of_7 1] \<and> mlx5_cq_clean 7 False cq None = ret (cq', None) \<and> polled 5 cq' = [receive_of_7 1]"
proof -
  obtain cq where cq: "cq_run 1 cq 2 [receive_of_7 0, receive_of_7 1]" using full_run by blast
  from cq_clean_removes [OF this, of 7 False None] cq show ?thesis by (auto simp: receive_of_7)
qed

end
