(* ===== verification/Mlx5_Poll_Facts.thy ===== *)
theory Mlx5_Poll_Facts
  imports Mlx5_Poll Mlx5_Sq_Facts Mlx5_Cq_Facts
begin

unbundle bit_operations_syntax

section \<open>What a poll reports\<close>

text \<open>
  The entries in a completion queue, one after the other, each for a queue pair: what they say of the
  requests posted there. The last found resource that a poll keeps makes no difference.
\<close>

subsection \<open>What is expected of an entry\<close>

text \<open>
  The queue pair an entry is for, one without a shared receive queue: the tables know its number, or its
  user index.
\<close>

definition own_number :: "mlx5_resource \<Rightarrow> u32 option" where
  "own_number r = (case r of MLX5_RSC_TYPE_QP n q \<Rightarrow> if pq_srq q = None then Some n else None | _ \<Rightarrow> None)"

definition find_number :: "poll_env \<Rightarrow> u32 \<Rightarrow> poll_state \<Rightarrow> nat option outcome" where
  "find_number env n s = (if pe_cqe_ver env then mlx5_find_uidx n (ps_tables s) else mlx5_find_rsc n (ps_tables s))"

definition entry_number :: "poll_env \<Rightarrow> mlx5_cqe64 \<Rightarrow> u32" where
  "entry_number env e = (if pe_cqe_ver env then htonl (srqn_uidx e) AND 0xFFFFFF else htonl (sop_drop_qpn e) AND 0xFFFFFF)"

definition party :: "poll_env \<Rightarrow> poll_state \<Rightarrow> mlx5_cqe64 \<Rightarrow> nat option" where
  "party env s e =
    (if \<not> pe_cqe_ver env \<and> htonl (srqn_uidx e) AND 0xFFFFFF \<noteq> 0 then None
     else case find_number env (entry_number env e) s of
       Some (Inr (Some k)) \<Rightarrow> if own_number (ps_rscs s k) = Some (entry_number env e) then Some k else None
     | _ \<Rightarrow> None)"

text \<open>The requests each queue pair has outstanding, and what an entry takes from them.\<close>

type_synonym pending = "nat \<Rightarrow> sq_entry list \<times> u64 list"

definition expect :: "(mlx5_cqe64 \<Rightarrow> nat option) \<Rightarrow> mlx5_cqe64 \<Rightarrow> pending \<Rightarrow> (u64 \<times> pending) option" where
  "expect who e Q =
    (case who e of None \<Rightarrow> None
     | Some k \<Rightarrow> (case Q k of (ss, rs) \<Rightarrow>
         if mlx5_get_cqe_format e \<noteq> MLX5_NO_INLINE_DATA then None
         else if cqe_opcode e = MLX5_CQE_REQ \<or> cqe_opcode e = MLX5_CQE_REQ_ERR then
           (case dropWhile (\<lambda>x. sv_idx (en_view x) \<noteq> htons (wqe_counter e)) ss of [] \<Rightarrow> None
            | x # xs \<Rightarrow> Some (en_id x, Q(k := (xs, rs))))
         else if cqe_opcode e \<in> {MLX5_CQE_RESP_SEND, MLX5_CQE_RESP_SEND_IMM, MLX5_CQE_RESP_ERR} \<and> app e \<noteq> MLX5_CQE_APP_TAG_MATCHING then
           (case rs of [] \<Rightarrow> None | wid # rs \<Rightarrow> Some (wid, Q(k := (ss, rs))))
         else None))"

fun expect_all :: "(mlx5_cqe64 \<Rightarrow> nat option) \<Rightarrow> mlx5_cqe64 list \<Rightarrow> pending \<Rightarrow> (u64 list \<times> pending) option" where
  "expect_all who [] Q = Some ([], Q)"
| "expect_all who (e # es) Q =
    (case expect who e Q of None \<Rightarrow> None
     | Some (wid, Q) \<Rightarrow> (case expect_all who es Q of None \<Rightarrow> None | Some (ids, Q) \<Rightarrow> Some (wid # ids, Q)))"

text \<open>The completion of the request \<open>wid\<close> an entry makes.\<close>

definition reported :: "mlx5_cqe64 \<Rightarrow> u64 \<Rightarrow> mlx5_wc \<Rightarrow> bool" where
  "reported e wid wc \<longleftrightarrow> wc_wr_id wc = wid \<and> wc_qp_num wc = htonl (sop_drop_qpn e) AND 0xFFFFFF \<and>
     (wc_status wc = IBV_WC_SUCCESS \<longleftrightarrow> cqe_opcode e \<noteq> MLX5_CQE_REQ_ERR \<and> cqe_opcode e \<noteq> MLX5_CQE_RESP_ERR) \<and>
     (cqe_opcode e \<in> {MLX5_CQE_RESP_SEND, MLX5_CQE_RESP_SEND_IMM} \<longrightarrow> wc_opcode wc = IBV_WC_RECV \<and> wc_byte_len wc = htonl (cqe_byte_cnt e)) \<and>
     (cqe_opcode e = MLX5_CQE_RESP_SEND_IMM \<longrightarrow> wc_imm_data wc = imm_inval_pkey e)"

text \<open>The queues of the queue pairs hold what is outstanding.\<close>

definition ports_hold :: "poll_state \<Rightarrow> pending \<Rightarrow> bool" where
  "ports_hold s Q \<longleftrightarrow> (\<forall>k n q. ps_rscs s k = MLX5_RSC_TYPE_QP n q \<longrightarrow>
     (\<exists>b cap bbs p. sq_rep b cap bbs (pq_sq q) p (fst (Q k))) \<and> (\<exists>b cap gs. qp_ok b cap gs (pq_rq q) \<and> rq_ids b (pq_rq q) = snd (Q k)))"

definition cache_ok :: "poll_env \<Rightarrow> poll_state \<Rightarrow> poll_cache \<Rightarrow> bool" where
  "cache_ok env s cur \<longleftrightarrow> (\<forall>k. fst cur = Some k \<longrightarrow> find_number env (rsn (ps_rscs s k)) s = ret (Some k))"

subsection \<open>Entries without their owner bit\<close>

lemma format_body [simp]: "mlx5_get_cqe_format (body e) = mlx5_get_cqe_format e"
proof -
  have "NOT MLX5_CQE_OWNER_MASK AND 0xC = 0xC" by (simp add: MLX5_CQE_OWNER_MASK_def)
  then have "(op_own e AND NOT MLX5_CQE_OWNER_MASK) AND 0xC = op_own e AND 0xC" by (simp add: and.assoc)
  then have "op_own (body e) AND 0xC = op_own e AND 0xC" by (simp add: body_def)
  then show ?thesis unfolding mlx5_get_cqe_format_def by (simp only:)
qed

lemma fields_body [simp]:
  "srqn_uidx (body e) = srqn_uidx e" "sop_drop_qpn (body e) = sop_drop_qpn e" "wqe_counter (body e) = wqe_counter e"
  "app (body e) = app e" "cqe_byte_cnt (body e) = cqe_byte_cnt e" "imm_inval_pkey (body e) = imm_inval_pkey e"
  by (simp_all add: body_def)

lemma number_body [simp]: "entry_number env (body e) = entry_number env e"
  by (simp add: entry_number_def)

lemma party_body [simp]: "party env s (body e) = party env s e"
  unfolding party_def number_body fields_body ..

lemma expect_body: "expect (party env s) (body e) Q = expect (party env s) e Q"
  unfolding expect_def party_body fields_body format_body opcode_body ..

lemma reported_body: "reported (body e) wid wc = reported e wid wc"
  by (simp add: reported_def)

subsection \<open>Whom an entry is for\<close>

lemma partyD:
  assumes "party env s e = Some k"
  obtains q where "ps_rscs s k = MLX5_RSC_TYPE_QP (entry_number env e) q" "pq_srq q = None"
    "find_number env (entry_number env e) s = ret (Some k)" "pe_cqe_ver env \<or> htonl (srqn_uidx e) AND 0xFFFFFF = 0"
  using assms by (auto simp: party_def own_number_def ret_def split: if_splits option.splits sum.splits mlx5_resource.splits)

lemma find_parties_party:
  assumes "party env s e = Some k" and "cache_ok env s cur"
  shows "find_parties env e cur s = ret (Some False, Some k, snd cur)"
proof -
  obtain q where q: "ps_rscs s k = MLX5_RSC_TYPE_QP (entry_number env e) q" "find_number env (entry_number env e) s = ret (Some k)"
    "pe_cqe_ver env \<or> htonl (srqn_uidx e) AND 0xFFFFFF = 0" using assms(1) by (rule partyD)
  obtain cr cs where cur: "cur = (cr, cs)" by fastforce
  have hit: "cr = Some k" if "\<exists>j. cr = Some j \<and> entry_number env e = rsn (ps_rscs s j)"
    using that assms(2) q(2) by (auto simp: cache_ok_def cur)
  show ?thesis
  proof (cases "\<exists>j. cr = Some j \<and> entry_number env e = rsn (ps_rscs s j)")
    case True
    with hit q(3) show ?thesis by (auto simp: find_parties_def cur entry_number_def Let_def split: if_splits)
  next
    case False
    with q(2,3) show ?thesis by (auto simp: find_parties_def cur entry_number_def find_number_def Let_def split: if_splits)
  qed
qed

subsection \<open>One entry\<close>

text \<open>What a poll leaves alone: who has which number.\<close>

definition parties_same :: "poll_state \<Rightarrow> poll_state \<Rightarrow> bool" where
  "parties_same s s' \<longleftrightarrow> ps_tables s' = ps_tables s \<and>
     (\<forall>k. own_number (ps_rscs s' k) = own_number (ps_rscs s k) \<and> rsn (ps_rscs s' k) = rsn (ps_rscs s k))"

lemma parties_sameD: "parties_same s s' \<Longrightarrow> party env s' = party env s" "parties_same s s' \<Longrightarrow> cache_ok env s' cur = cache_ok env s cur"
  by (auto simp: fun_eq_iff parties_same_def party_def cache_ok_def find_number_def split: option.splits sum.splits)

lemma parties_same_refl: "ps_tables s' = ps_tables s \<Longrightarrow> ps_rscs s' = ps_rscs s \<Longrightarrow> parties_same s s'"
  by (simp add: parties_same_def)

lemma parties_same_trans: "parties_same s s' \<Longrightarrow> parties_same s' s'' \<Longrightarrow> parties_same s s''"
  by (simp add: parties_same_def)

lemma parties_same_upd: "ps_rscs s k = MLX5_RSC_TYPE_QP n q \<Longrightarrow> pq_srq q' = pq_srq q \<Longrightarrow>
    parties_same s (upd_rsc k (MLX5_RSC_TYPE_QP n q') s)"
  by (simp add: parties_same_def upd_rsc_def own_number_def)

lemma dropWhile_at: "dropWhile P xs = y # ys \<Longrightarrow> \<exists>i < length xs. xs ! i = y \<and> drop (Suc i) xs = ys \<and> \<not> P y"
proof (induction xs)
  case (Cons x xs)
  show ?case
  proof (cases "P x")
    case True
    then obtain i where "i < length xs" "xs ! i = y" "drop (Suc i) xs = ys" "\<not> P y" using Cons by auto
    then show ?thesis by (intro exI [of _ "Suc i"]) simp
  next
    case False
    with Cons.prems show ?thesis by (intro exI [of _ 0]) simp
  qed
qed simp

text \<open>The oldest request a send completion can mean, with all before it.\<close>

lemma port_send:
  assumes "ports_hold s Q" and "ps_rscs s k = MLX5_RSC_TYPE_QP n q" and "Q k = (ss, rs)"
    and "dropWhile (\<lambda>x. sv_idx (en_view x) \<noteq> c) ss = x # xs"
  obtains sq where "sq_complete c (pq_sq q) = (en_id x, sq)"
    "ports_hold (upd_rsc k (MLX5_RSC_TYPE_QP n (q\<lparr>pq_sq := sq\<rparr>)) s) (Q(k := (xs, rs)))"
proof -
  obtain b cap bbs p where rep: "sq_rep b cap bbs (pq_sq q) p ss" using assms(1-3) by (fastforce simp: ports_hold_def)
  from dropWhile_at [OF assms(4)] obtain i where i: "i < length ss" "ss ! i = x" "drop (Suc i) ss = xs" "sv_idx (en_view x) = c" by blast
  note c = complete_rep [OF rep i(1), unfolded i]
  have "ports_hold (upd_rsc k (MLX5_RSC_TYPE_QP n (q\<lparr>pq_sq := (pq_sq q)\<lparr>sq_tail := sq_tail (pq_sq q) + of_nat (Suc i)\<rparr>\<rparr>)) s) (Q(k := (xs, rs)))"
    using assms(1-3) c(2) by (fastforce simp: ports_hold_def upd_rsc_def)
  with c(1) show thesis by (rule that)
qed

lemma port_receive:
  assumes "ports_hold s Q" and "ps_rscs s k = MLX5_RSC_TYPE_QP n q" and "Q k = (ss, wid # rs)"
  shows "fst (rq_complete (pq_rq q)) = wid"
    "ports_hold (upd_rsc k (MLX5_RSC_TYPE_QP n (q\<lparr>pq_rq := snd (rq_complete (pq_rq q))\<rparr>)) s) (Q(k := (ss, rs)))"
proof -
  obtain b cap gs where ok: "qp_ok b cap gs (pq_rq q)" "rq_ids b (pq_rq q) = wid # rs" using assms by (fastforce simp: ports_hold_def)
  then have "rq_content b (rq (pq_rq q)) \<noteq> []" by (auto simp: rq_ids_def)
  note c = complete_front [OF ok(1) this]
  show "fst (rq_complete (pq_rq q)) = wid" using c ok(2) by (cases "rq_content b (rq (pq_rq q))") (auto simp: rq_ids_def)
  have "qp_ok b cap gs (snd (rq_complete (pq_rq q)))" "rq_ids b (snd (rq_complete (pq_rq q))) = rs"
    using c ok(2) by (auto simp: rq_ids_def map_tl)
  then show "ports_hold (upd_rsc k (MLX5_RSC_TYPE_QP n (q\<lparr>pq_rq := snd (rq_complete (pq_rq q))\<rparr>)) s) (Q(k := (ss, rs)))"
    using assms by (fastforce simp: ports_hold_def upd_rsc_def)
qed

text \<open>The variables of a poll at an entry for queue pair \<open>k\<close>, when it is the first.\<close>

definition qp_vars :: "nat \<Rightarrow> poll_vars" where
  "qp_vars k = \<lparr>pv_is_srq = False, pv_mqp = Some k, pv_rwq = None, pv_typed = Some k\<rparr>"

lemma note_party: "ps_rscs s k = MLX5_RSC_TYPE_QP n q \<Longrightarrow> note_rsc (Some k) s (poll_vars_init\<lparr>pv_is_srq := False\<rparr>) = qp_vars k"
  by (simp add: note_rsc_def qp_vars_def poll_vars_init_def)

lemma good_req_simps [simp]:
  "wc_qp_num (handle_good_req e d wc) = wc_qp_num wc"
  by (simp add: handle_good_req_def split: mlx5_opcode.splits)

lemma bad_opcode_simps [simp]:
  "wc_qp_num (fst (mlx5_set_bad_wc_opcode e b wc)) = wc_qp_num wc" "wc_status (fst (mlx5_set_bad_wc_opcode e b wc)) = wc_status wc"
  by (simp_all add: mlx5_set_bad_wc_opcode_def split: mlx5_opcode.splits cqe_opcode.splits)

lemma error_cqe_simps [simp]: "wc_qp_num (mlx5_handle_error_cqe e wc) = wc_qp_num wc"
  by (simp add: mlx5_handle_error_cqe_def)

lemma handle_send:
  assumes "ports_hold s Q" and k: "ps_rscs s k = MLX5_RSC_TYPE_QP n q" and "Q k = (ss, rs)"
    and "dropWhile (\<lambda>x. sv_idx (en_view x) \<noteq> htons (wqe_counter e)) ss = x # xs"
    and "mlx5_get_cqe_format e = MLX5_NO_INLINE_DATA" and opc: "cqe_opcode e = MLX5_CQE_REQ \<or> cqe_opcode e = MLX5_CQE_REQ_ERR"
  shows "\<exists>wc' s'. handle_entry e addr (qp_vars k) cs wc s = ret (Some CQ_OK, wc', s') \<and> reported e (en_id x) wc' \<and>
    ports_hold s' (Q(k := (xs, rs))) \<and> parties_same s s' \<and> ps_cq s' = ps_cq s"
proof -
  obtain sq where sq: "sq_complete (htons (wqe_counter e)) (pq_sq q) = (en_id x, sq)"
    "ports_hold (upd_rsc k (MLX5_RSC_TYPE_QP n (q\<lparr>pq_sq := sq\<rparr>)) s) (Q(k := (xs, rs)))" using assms(1-4) by (rule port_send)
  have same: "parties_same s (upd_rsc k (MLX5_RSC_TYPE_QP n (q\<lparr>pq_sq := sq\<rparr>)) s)" using k by (rule parties_same_upd) simp
  have cq: "ps_cq (upd_rsc k r s) = ps_cq s" for r by (simp add: upd_rsc_def)
  from opc show ?thesis
  proof
    assume "cqe_opcode e = MLX5_CQE_REQ"
    with sq same cq assms(5) k show ?thesis
      by (simp add: handle_entry_def qp_vars_def complete_send_def inline_at_def reported_def IBV_WC_SUCCESS_def Let_def)
  next
    assume err: "cqe_opcode e = MLX5_CQE_REQ_ERR"
    obtain wc1 u where w: "mlx5_set_bad_wc_opcode e True (mlx5_handle_error_cqe e (wc\<lparr>wc_qp_num := htonl (sop_drop_qpn e) AND 0xFFFFFF\<rparr>)) = (wc1, u)"
      by fastforce
    have "wc_qp_num wc1 = htonl (sop_drop_qpn e) AND 0xFFFFFF" "wc_status wc1 \<noteq> IBV_WC_SUCCESS"
      using bad_opcode_simps [of e True "mlx5_handle_error_cqe e (wc\<lparr>wc_qp_num := htonl (sop_drop_qpn e) AND 0xFFFFFF\<rparr>)"] error_status w by simp_all
    with err sq same cq assms(5) k w show ?thesis
      by (simp add: handle_entry_def qp_vars_def fail_send_def deref_def reported_def Let_def)
  qed
qed

text \<open>The place of the oldest receive fits the 16 bits a completion keeps it in.\<close>

lemma rq_complete_eq:
  assumes "qp_ok b cap gs r"
  shows "rq_complete r = (wrid (rq r) (unat (wq_tail (rq r) AND (wqe_cnt (rq r) - 1))), r\<lparr>rq := (rq r)\<lparr>wq_tail := wq_tail (rq r) + 1\<rparr>\<rparr>)"
proof -
  have b: "b \<le> 16" "wqe_cnt (rq r) = 2 ^ b" using assms by (simp_all add: qp_ok_def wq_ok_def)
  have "unat (wq_tail (rq r) AND (2 ^ b - 1)) < 2 ^ b" using ring_at_less [of b "wq_tail (rq r)"] b(1) by (simp add: ring_at_def)
  also have "\<dots> \<le> (2 :: nat) ^ 16" using b(1) by (intro power_increasing) simp_all
  finally have "unat (ucast (wq_tail (rq r) AND (2 ^ b - 1)) :: u16) = unat (wq_tail (rq r) AND (2 ^ b - 1))"
    by (simp add: unsigned_ucast_eq take_bit_nat_eq_self)
  then show ?thesis by (simp add: rq_complete_def Let_def b(2))
qed

lemma handle_receive:
  assumes hold: "ports_hold s Q" and k: "ps_rscs s k = MLX5_RSC_TYPE_QP n q" and Q: "Q k = (ss, wid # rs)"
    and fmt: "mlx5_get_cqe_format e = MLX5_NO_INLINE_DATA" and app: "app e \<noteq> MLX5_CQE_APP_TAG_MATCHING"
    and opc: "cqe_opcode e \<in> {MLX5_CQE_RESP_SEND, MLX5_CQE_RESP_SEND_IMM, MLX5_CQE_RESP_ERR}"
  shows "\<exists>wc' s'. handle_entry e addr (qp_vars k) cs wc s = ret (Some CQ_OK, wc', s') \<and> reported e wid wc' \<and>
    ports_hold s' (Q(k := (ss, rs))) \<and> parties_same s s' \<and> ps_cq s' = ps_cq s"
proof -
  define r where "r = snd (rq_complete (pq_rq q))"
  have c: "rq_complete (pq_rq q) = (wid, r)" using port_receive(1) [OF hold k Q] by (simp add: r_def prod_eq_iff)
  note hold' = port_receive(2) [OF hold k Q, folded r_def]
  have same: "parties_same s (upd_rsc k (MLX5_RSC_TYPE_QP n (q\<lparr>pq_rq := r\<rparr>)) s)" using k by (rule parties_same_upd) simp
  have cq: "ps_cq (upd_rsc k x s) = ps_cq s" for x by (simp add: upd_rsc_def)
  show ?thesis
  proof (cases "cqe_opcode e = MLX5_CQE_RESP_ERR")
    case True
    obtain b cap gs where "qp_ok b cap gs (pq_rq q)" using hold k by (fastforce simp: ports_hold_def)
    from rq_complete_eq [OF this] c have w: "wrid (rq (pq_rq q)) (unat (wq_tail (rq (pq_rq q)) AND (wqe_cnt (rq (pq_rq q)) - 1))) = wid"
      "(pq_rq q)\<lparr>rq := (rq (pq_rq q))\<lparr>wq_tail := wq_tail (rq (pq_rq q)) + 1\<rparr>\<rparr> = r" by simp_all
    obtain wc1 u where wc1: "mlx5_set_bad_wc_opcode e False (mlx5_handle_error_cqe e (wc\<lparr>wc_qp_num := htonl (sop_drop_qpn e) AND 0xFFFFFF\<rparr>)) = (wc1, u)"
      by fastforce
    have "wc_qp_num wc1 = htonl (sop_drop_qpn e) AND 0xFFFFFF" "wc_status wc1 \<noteq> IBV_WC_SUCCESS"
      using bad_opcode_simps [of e False "mlx5_handle_error_cqe e (wc\<lparr>wc_qp_num := htonl (sop_drop_qpn e) AND 0xFFFFFF\<rparr>)"] error_status wc1 by simp_all
    with True hold' same cq k wc1 show ?thesis
      by (simp add: handle_entry_def qp_vars_def fail_receive_def deref_def reported_def Let_def w)
  next
    case False
    with opc hold' same cq k c fmt app show ?thesis
      by (auto simp: handle_entry_def qp_vars_def handle_responder_def take_receive_def inline_at_def deref_def reported_def
          IBV_WC_SUCCESS_def Let_def)
  qed
qed

lemma handle_expected:
  assumes "expect (party env s) e Q = Some (wid, Q')" and "ports_hold s Q"
  obtains k where "party env s e = Some k" "is_requestor (cqe_opcode e) \<or> is_responder (cqe_opcode e)"
    "mlx5_get_cqe_format e \<noteq> MLX5_COMPRESSED"
    "\<forall>addr cs wc. \<exists>wc' s'. handle_entry e addr (qp_vars k) cs wc s = ret (Some CQ_OK, wc', s') \<and> reported e wid wc' \<and>
      ports_hold s' Q' \<and> parties_same s s' \<and> ps_cq s' = ps_cq s"
proof -
  obtain k where k: "party env s e = Some k" using assms(1) by (auto simp: expect_def split: option.splits)
  obtain n q where q: "ps_rscs s k = MLX5_RSC_TYPE_QP n q" using partyD [OF k] by blast
  obtain ss rs where Q: "Q k = (ss, rs)" by fastforce
  have fmt: "mlx5_get_cqe_format e = MLX5_NO_INLINE_DATA" using assms(1) by (auto simp: expect_def k Q split: if_splits)
  show thesis
  proof (cases "cqe_opcode e = MLX5_CQE_REQ \<or> cqe_opcode e = MLX5_CQE_REQ_ERR")
    case True
    with assms(1) obtain x xs where x: "dropWhile (\<lambda>x. sv_idx (en_view x) \<noteq> htons (wqe_counter e)) ss = x # xs" "wid = en_id x" "Q' = Q(k := (xs, rs))"
      by (auto simp: expect_def k Q fmt split: list.splits)
    show thesis
      by (rule that [OF k]) (use True fmt handle_send [OF assms(2) q Q x(1) fmt True] x in \<open>auto simp: is_requestor_def\<close>)
  next
    case False
    with assms(1) obtain rs' where x: "rs = wid # rs'" "Q' = Q(k := (ss, rs'))" and app: "app e \<noteq> MLX5_CQE_APP_TAG_MATCHING"
      and opc: "cqe_opcode e \<in> {MLX5_CQE_RESP_SEND, MLX5_CQE_RESP_SEND_IMM, MLX5_CQE_RESP_ERR}"
      by (auto simp: expect_def k Q fmt split: list.splits if_splits)
    show thesis
      by (rule that [OF k]) (use opc fmt handle_receive [OF assms(2) q Q [unfolded x] fmt app opc] x in \<open>auto simp: is_responder_def\<close>)
  qed
qed

subsection \<open>Many entries\<close>

text \<open>The state of a completion queue and of all it reports about.\<close>

definition poll_rep :: "nat \<Rightarrow> poll_state \<Rightarrow> u32 \<Rightarrow> mlx5_cqe64 list \<Rightarrow> pending \<Rightarrow> bool" where
  "poll_rep b s pi es Q \<longleftrightarrow> ring_ok b (ps_cq s) pi \<and> cq_content b (ps_cq s) pi = es \<and> ports_hold s Q"

lemma ports_hold_cong: "ps_rscs s' = ps_rscs s \<Longrightarrow> ports_hold s' Q = ports_hold s Q"
  by (simp add: ports_hold_def)

lemma poll_one_expected:
  assumes rep: "poll_rep b s pi (e # es) Q" and "cache_ok env s cur" and "expect (party env s) e Q = Some (wid, Q')"
  shows "\<exists>cur' wc' s'. mlx5_poll_one env cur wc s = ret (CQ_OK, cur', wc', s') \<and> reported e wid wc' \<and>
    poll_rep b s' pi es Q' \<and> parties_same s s' \<and> cache_ok env s' cur'"
proof -
  let ?s = "s\<lparr>ps_cq := cq_take (ps_cq s)\<rparr>"
  have ring: "ring_ok b (ps_cq s) pi" "cq_content b (ps_cq s) pi = e # es" "ports_hold s Q" using rep by (simp_all add: poll_rep_def)
  obtain e' where e': "get_next_cqe (ps_cq s) = Some e'" "body e' = e" using next_content [OF ring(1)] ring(2) by auto
  have "0 < cq_count (ps_cq s) pi" using ring(2) content_length [of b "ps_cq s" pi] by simp
  from take_ok [OF ring(1) this] ring(2) have took: "ring_ok b (cq_take (ps_cq s)) pi" "cq_content b (cq_take (ps_cq s)) pi = es" by simp_all
  have same: "parties_same s ?s" by (rule parties_same_refl) simp_all
  have "expect (party env ?s) e' Q = Some (wid, Q')"
    using assms(3) e'(2) expect_body [of env s e' Q] parties_sameD(1) [OF same] by simp
  moreover have hold: "ports_hold ?s Q" using ring(3) ports_hold_cong [of ?s s] by simp
  ultimately obtain k where k: "party env ?s e' = Some k" "is_requestor (cqe_opcode e') \<or> is_responder (cqe_opcode e')"
    "mlx5_get_cqe_format e' \<noteq> MLX5_COMPRESSED"
    "\<forall>addr cs wc. \<exists>wc' s'. handle_entry e' addr (qp_vars k) cs wc ?s = ret (Some CQ_OK, wc', s') \<and> reported e' wid wc' \<and>
      ports_hold s' Q' \<and> parties_same ?s s' \<and> ps_cq s' = ps_cq ?s" by (rule handle_expected)
  obtain q where q: "ps_rscs ?s k = MLX5_RSC_TYPE_QP (entry_number env e') q" "pq_srq q = None"
    "find_number env (entry_number env e') ?s = ret (Some k)" using k(1) by (rule partyD)
  have find: "find_parties env e' cur ?s = ret (Some False, Some k, snd cur)"
    using find_parties_party [OF k(1)] assms(2) parties_sameD(2) [OF same] by blast
  have settle: "settle_srq env e' False (Some k, snd cur) ?s = (False, snd cur)" using q(1,2) by (simp add: settle_srq_def)
  obtain wc' s' where fin: "handle_entry e' (pe_cqe_addr env (cons_index (ps_cq s))) (qp_vars k) (snd cur) (wc\<lparr>wc_wc_flags := 0\<rparr>) ?s =
      ret (Some CQ_OK, wc', s')" "reported e' wid wc'" "ports_hold s' Q'" "parties_same ?s s'" "ps_cq s' = cq_take (ps_cq s)"
    using spec [OF spec [OF spec [OF k(4), of "pe_cqe_addr env (cons_index (ps_cq s))"], of "snd cur"], of "wc\<lparr>wc_wc_flags := 0\<rparr>"] by auto
  have "poll_step env (poll_vars_init, cur, wc, s) = ret (Return (CQ_OK, (Some k, snd cur), wc', s'))"
    using e'(1) k(2,3) find settle fin(1) note_party [OF q(1)] by (simp add: poll_step_def cq_take_def poll_vars_init_def Let_def)
  then have "mlx5_poll_one env cur wc s = ret (CQ_OK, (Some k, snd cur), wc', s')" unfolding mlx5_poll_one_def by (rule loop_Return)
  moreover have "parties_same s s'" using same fin(4) by (rule parties_same_trans)
  moreover have "cache_ok env ?s (Some k, snd cur)" using q by (simp add: cache_ok_def)
  then have "cache_ok env s' (Some k, snd cur)" using parties_sameD(2) [OF fin(4)] by simp
  moreover have "reported e wid wc'" using fin(2) e'(2) reported_body by blast
  ultimately show ?thesis using took fin(3,5) by (auto simp: poll_rep_def)
qed

lemma poll_one_empty:
  assumes "poll_rep b s pi [] Q"
  shows "mlx5_poll_one env cur wc s = ret (CQ_EMPTY, cur, wc, s)"
proof -
  have "get_next_cqe (ps_cq s) = None" using assms next_content [of b "ps_cq s" pi] by (simp add: poll_rep_def)
  then have "poll_step env (poll_vars_init, cur, wc, s) = ret (Return (CQ_EMPTY, cur, wc, s))" by (simp add: poll_step_def)
  then show ?thesis unfolding mlx5_poll_one_def by (rule loop_Return)
qed

lemma poll_entries_expected:
  assumes "poll_rep b s pi es Q" and "cache_ok env s cur" and "expect_all (party env s) (take (length wcs) es) Q = Some (ids, Q')"
  shows "\<exists>r wcs' s'. poll_entries env wcs cur s = ret (r, wcs', s') \<and> r \<noteq> CQ_POLL_ERR \<and>
    list_all2 (\<lambda>(e, wid) wc. reported e wid wc) (zip (take (length wcs) es) ids) wcs' \<and> length wcs' = min (length wcs) (length es) \<and>
    poll_rep b s' pi (drop (length wcs) es) Q' \<and> parties_same s s'"
  using assms
proof (induction wcs arbitrary: s es Q cur ids)
  case Nil
  then show ?case by (auto intro: parties_same_refl)
next
  case (Cons wc wcs)
  show ?case
  proof (cases es)
    case Nil
    with Cons.prems poll_one_empty [of b s pi Q env cur wc] show ?thesis by (auto intro: parties_same_refl)
  next
    case es: (Cons e es')
    from Cons.prems(3) obtain wid Q1 ids' where e: "expect (party env s) e Q = Some (wid, Q1)"
      "expect_all (party env s) (take (length wcs) es') Q1 = Some (ids', Q')" "ids = wid # ids'"
      by (auto simp: es split: option.splits prod.splits)
    obtain cur1 wc1 s1 where one: "mlx5_poll_one env cur wc s = ret (CQ_OK, cur1, wc1, s1)" "reported e wid wc1" "poll_rep b s1 pi es' Q1"
      "parties_same s s1" "cache_ok env s1 cur1"
      using poll_one_expected [OF Cons.prems(1) [unfolded es] Cons.prems(2) e(1), of wc] by blast
    from Cons.IH [OF one(3,5), of ids'] e(2) parties_sameD(1) [OF one(4)] obtain r wcs' s' where
      rest: "poll_entries env wcs cur1 s1 = ret (r, wcs', s')" "r \<noteq> CQ_POLL_ERR"
        "list_all2 (\<lambda>(e, wid) wc. reported e wid wc) (zip (take (length wcs) es') ids') wcs'" "length wcs' = min (length wcs) (length es')"
        "poll_rep b s' pi (drop (length wcs) es') Q'" "parties_same s1 s'" by auto
    then show ?thesis using one(1,2) e(3) parties_same_trans [OF one(4) rest(6)] by (simp add: es)
  qed
qed

lemma update_cons_rep: "poll_rep b (s\<lparr>ps_cq := mlx5_update_cons_index (ps_cq s)\<rparr>) pi es Q = poll_rep b s pi es Q"
  by (simp add: poll_rep_def ports_hold_def mlx5_update_cons_index_def ring_ok_def cq_content_def cq_count_def)

lemma poll_cq_expected:
  assumes "poll_rep b s pi es Q" and "expect_all (party env s) (take (length wcs) es) Q = Some (ids, Q')"
  shows "\<exists>wcs' s'. poll_cq env wcs s = ret (int (min (length wcs) (length es)), wcs', s') \<and>
    list_all2 (\<lambda>(e, wid) wc. reported e wid wc) (zip (take (length wcs) es) ids) wcs' \<and>
    poll_rep b s' pi (drop (length wcs) es) Q' \<and> parties_same s s' \<and> set_ci_db (ps_cq s') = htonl (cons_index (ps_cq s') AND 0xFFFFFF)"
proof -
  have "cache_ok env s (None, None)" by (simp add: cache_ok_def)
  from poll_entries_expected [OF assms(1) this assms(2)] obtain r wcs' s' where
    run: "poll_entries env wcs (None, None) s = ret (r, wcs', s')" "r \<noteq> CQ_POLL_ERR"
      "list_all2 (\<lambda>(e, wid) wc. reported e wid wc) (zip (take (length wcs) es) ids) wcs'" "length wcs' = min (length wcs) (length es)"
      "poll_rep b s' pi (drop (length wcs) es) Q'" "parties_same s s'" by blast
  let ?s = "s'\<lparr>ps_cq := mlx5_update_cons_index (ps_cq s')\<rparr>"
  have "poll_cq env wcs s = ret (int (min (length wcs) (length es)), wcs', ?s)" by (simp add: poll_cq_def run)
  moreover have "poll_rep b ?s pi (drop (length wcs) es) Q'" using run(5) update_cons_rep by blast
  moreover have "parties_same s ?s" using run(6) by (simp add: parties_same_def)
  moreover have "set_ci_db (ps_cq ?s) = htonl (cons_index (ps_cq ?s) AND 0xFFFFFF)" by (simp add: mlx5_update_cons_index_def)
  ultimately show ?thesis using run(3) by blast
qed

text \<open>
  A good receive of a receive work queue is looked for in the queue pair it does not have, although a
  failed one is found.
\<close>

lemma rwq_receive_faults:
  assumes "ps_rscs s k = MLX5_RSC_TYPE_RWQ n wq" and "cqe_opcode e = MLX5_CQE_RESP_SEND" and "app e \<noteq> MLX5_CQE_APP_TAG_MATCHING"
  shows "handle_entry e addr \<lparr>pv_is_srq = False, pv_mqp = None, pv_rwq = Some k, pv_typed = Some k\<rparr> None wc s = raise NullDeref"
  using assms by (simp add: handle_entry_def qp_vars_def handle_responder_def take_receive_def deref_def Let_def)

subsection \<open>Posts meanwhile\<close>

definition more_pending :: "nat \<Rightarrow> sq_entry list \<Rightarrow> u64 list \<Rightarrow> pending \<Rightarrow> pending" where
  "more_pending k ss rs Q = Q(k := (fst (Q k) @ ss, snd (Q k) @ rs))"

lemma dropWhile_more: "dropWhile P xs = y # ys \<Longrightarrow> dropWhile P (xs @ zs) = y # ys @ zs"
  by (induction xs) auto

lemma more_pending_other: "j \<noteq> k \<Longrightarrow> more_pending k a c Q j = Q j"
  by (simp add: more_pending_def)

lemma expect_extend:
  assumes "expect who e Q = Some (wid, Q')"
  shows "expect who e (more_pending k a c Q) = Some (wid, more_pending k a c Q')"
proof -
  obtain j where j: "who e = Some j" using assms by (auto simp: expect_def split: option.splits)
  obtain ss rs where Q: "Q j = (ss, rs)" by fastforce
  have fmt: "mlx5_get_cqe_format e = MLX5_NO_INLINE_DATA" using assms by (auto simp: expect_def j Q split: if_splits)
  show ?thesis
  proof (cases "cqe_opcode e = MLX5_CQE_REQ \<or> cqe_opcode e = MLX5_CQE_REQ_ERR")
    case True
    with assms obtain x xs where x: "dropWhile (\<lambda>x. sv_idx (en_view x) \<noteq> htons (wqe_counter e)) ss = x # xs" "wid = en_id x" "Q' = Q(j := (xs, rs))"
      by (auto simp: expect_def j Q fmt split: list.splits)
    show ?thesis
    proof (cases "j = k")
      case same: True
      with True x Q dropWhile_more [OF x(1), of a] show ?thesis by (simp add: expect_def j fmt more_pending_def)
    next
      case False
      with True x Q show ?thesis by (simp add: expect_def j fmt more_pending_def fun_upd_twist)
    qed
  next
    case False
    with assms obtain rs' where x: "rs = wid # rs'" "Q' = Q(j := (ss, rs'))" and app: "app e \<noteq> MLX5_CQE_APP_TAG_MATCHING"
      and opc: "cqe_opcode e \<in> {MLX5_CQE_RESP_SEND, MLX5_CQE_RESP_SEND_IMM, MLX5_CQE_RESP_ERR}"
      by (auto simp: expect_def j Q fmt split: list.splits if_splits)
    show ?thesis
    proof (cases "j = k")
      case same: True
      with False x Q opc app show ?thesis by (auto simp: expect_def j fmt more_pending_def)
    next
      case other: False
      with False x Q opc app show ?thesis by (auto simp: expect_def j fmt more_pending_def fun_upd_twist)
    qed
  qed
qed

lemma expect_all_extend:
  "expect_all who es Q = Some (ids, Q') \<Longrightarrow> expect_all who es (more_pending k a c Q) = Some (ids, more_pending k a c Q')"
proof (induction es arbitrary: Q ids)
  case (Cons e es)
  then obtain wid Q1 ids' where "expect who e Q = Some (wid, Q1)" "expect_all who es Q1 = Some (ids', Q')" "ids = wid # ids'"
    by (auto split: option.splits prod.splits)
  with Cons.IH expect_extend [of who e Q wid Q1 k a c] show ?case by simp
qed simp

lemma expect_all_append:
  "expect_all who (es @ es') Q = (case expect_all who es Q of None \<Rightarrow> None
     | Some (ids, Q1) \<Rightarrow> (case expect_all who es' Q1 of None \<Rightarrow> None | Some (ids', Q2) \<Rightarrow> Some (ids @ ids', Q2)))"
  by (induction es arbitrary: Q) (auto split: option.splits prod.splits)

end
