(* ===== verification/Mlx5_Poll_Run.thy ===== *)
theory Mlx5_Poll_Run
  imports Mlx5_Poll_Facts
begin

unbundle bit_operations_syntax

section \<open>Posts, completions and polls\<close>

text \<open>
  The application posts sends and receives on any queue pair, the device carries them out and writes
  entries into the completion queue, and the application polls, in any order. What the device has
  made is what the polls report.
\<close>

record run_state =
  rn_drv :: poll_state
  rn_ahs :: "nat \<Rightarrow> mlx5_ah"
  rn_pi :: u32
  rn_left :: pending
  rn_made :: "(mlx5_cqe64 \<times> u64) list"
  rn_got :: "mlx5_wc list"

text \<open>
  \<open>rn_pi\<close> is the device's count of its entries, \<open>rn_left\<close> what it still has to carry out of each
  queue pair, \<open>rn_made\<close> its entries with the requests they are for, \<open>rn_got\<close> what the polls have
  reported. The device writes only where there is room, and only entries for requests it has.
\<close>

inductive driver_step :: "poll_env \<Rightarrow> send_env \<Rightarrow> (u32 \<Rightarrow> u64 \<Rightarrow> u32 \<Rightarrow> u32 option) \<Rightarrow> nat \<Rightarrow> run_state \<Rightarrow> run_state \<Rightarrow> bool"
  for env senv rl b where
  send: "ps_rscs (rn_drv r) k = MLX5_RSC_TYPE_QP n q \<Longrightarrow> list_all (good_send is_exp (pq_sq q) (rn_ahs r)) wrs \<Longrightarrow>
    mlx5_post_send_device senv is_exp wrs (pq_sq q, rn_ahs r) = ret (err, bad, sq, ahs) \<Longrightarrow>
    driver_step env senv rl b r (r\<lparr>rn_drv := upd_rsc k (MLX5_RSC_TYPE_QP n (q\<lparr>pq_sq := sq\<rparr>)) (rn_drv r), rn_ahs := ahs,
      rn_left := more_pending k (sq_walk sq (scur_post (pq_sq q)) (length wrs - length bad)) [] (rn_left r)\<rparr>)"
| recv: "ps_rscs (rn_drv r) k = MLX5_RSC_TYPE_QP n q \<Longrightarrow> list_all (good_wr (max_gs (rq (pq_rq q)))) wrs \<Longrightarrow>
    mlx5_post_recv_device rl wrs (pq_rq q) = (err, bad, qp) \<Longrightarrow>
    driver_step env senv rl b r (r\<lparr>rn_drv := upd_rsc k (MLX5_RSC_TYPE_QP n (q\<lparr>pq_rq := qp\<rparr>)) (rn_drv r),
      rn_left := more_pending k [] (map rq_wr_id (take (length wrs - length bad) wrs)) (rn_left r)\<rparr>)"
| complete: "cq_count (ps_cq (rn_drv r)) (rn_pi r) < 2 ^ b \<Longrightarrow>
    expect (party env (rn_drv r)) e (rn_left r) = Some (wid, left) \<Longrightarrow>
    driver_step env senv rl b r (r\<lparr>rn_drv := (rn_drv r)\<lparr>ps_cq := device_write b e (rn_pi r) (ps_cq (rn_drv r))\<rparr>, rn_pi := rn_pi r + 1,
      rn_left := left, rn_made := rn_made r @ [(e, wid)]\<rparr>)"
| poll: "poll_cq env wcs (rn_drv r) = ret (res, wcs', s) \<Longrightarrow>
    driver_step env senv rl b r (r\<lparr>rn_drv := s, rn_got := rn_got r @ wcs'\<rparr>)"

text \<open>What the device has made and no poll has reported is in the queue.\<close>

definition to_report :: "run_state \<Rightarrow> (mlx5_cqe64 \<times> u64) list" where
  "to_report r = drop (length (rn_got r)) (rn_made r)"

definition run_inv :: "poll_env \<Rightarrow> nat \<Rightarrow> run_state \<Rightarrow> bool" where
  "run_inv env b r \<longleftrightarrow> length (rn_got r) \<le> length (rn_made r) \<and>
     list_all2 (\<lambda>(e, wid) wc. reported e wid wc) (take (length (rn_got r)) (rn_made r)) (rn_got r) \<and>
     (\<exists>Q. poll_rep b (rn_drv r) (rn_pi r) (map (body \<circ> fst) (to_report r)) Q \<and>
       expect_all (party env (rn_drv r)) (map fst (to_report r)) Q = Some (map snd (to_report r), rn_left r))"

lemma expect_all_body: "expect_all (party env s) (map (body \<circ> fst) xs) Q = expect_all (party env s) (map fst xs) Q"
  by (induction xs arbitrary: Q) (simp_all add: expect_body split: option.splits prod.splits)

lemma expect_all_take:
  assumes "expect_all who (map fst xs) Q = Some (map snd xs, Q')"
  shows "\<exists>Q1. expect_all who (take n (map fst xs)) Q = Some (take n (map snd xs), Q1) \<and>
    expect_all who (drop n (map fst xs)) Q1 = Some (drop n (map snd xs), Q')"
  using assms
proof (induction n arbitrary: xs Q)
  case (Suc n)
  show ?case
  proof (cases xs)
    case Nil
    with Suc.prems show ?thesis by simp
  next
    case (Cons x ys)
    with Suc.prems obtain Q2 where "expect who (fst x) Q = Some (snd x, Q2)" "expect_all who (map fst ys) Q2 = Some (map snd ys, Q')"
      by (auto split: option.splits prod.splits)
    with Suc.IH [OF this(2)] show ?thesis by (auto simp: Cons)
  qed
qed simp

text \<open>Entries and bodies that are reported.\<close>

lemma reported_bodies:
  "list_all2 (\<lambda>(e, wid) wc. reported e wid wc) (zip (map (body \<circ> fst) xs) (map snd xs)) wcs =
    list_all2 (\<lambda>(e, wid) wc. reported e wid wc) xs wcs"
  by (induction xs arbitrary: wcs) (auto simp: list_all2_Cons1 reported_body)

lemma inv_polls:
  assumes "run_inv env b r"
  shows "\<exists>wcs' s. poll_cq env wcs (rn_drv r) = ret (int (min (length wcs) (length (to_report r))), wcs', s) \<and>
    list_all2 (\<lambda>(e, wid) wc. reported e wid wc) (take (length wcs) (to_report r)) wcs' \<and>
    run_inv env b (r\<lparr>rn_drv := s, rn_got := rn_got r @ wcs'\<rparr>)"
proof -
  let ?xs = "to_report r" and ?n = "length wcs"
  obtain Q where Q: "poll_rep b (rn_drv r) (rn_pi r) (map (body \<circ> fst) ?xs) Q"
    "expect_all (party env (rn_drv r)) (map fst ?xs) Q = Some (map snd ?xs, rn_left r)" using assms by (auto simp: run_inv_def)
  from expect_all_take [OF Q(2), of ?n] obtain Q1 where Q1:
    "expect_all (party env (rn_drv r)) (take ?n (map fst ?xs)) Q = Some (take ?n (map snd ?xs), Q1)"
    "expect_all (party env (rn_drv r)) (drop ?n (map fst ?xs)) Q1 = Some (drop ?n (map snd ?xs), rn_left r)" by blast
  have "expect_all (party env (rn_drv r)) (take ?n (map (body \<circ> fst) ?xs)) Q = Some (take ?n (map snd ?xs), Q1)"
    using Q1(1) expect_all_body [of env "rn_drv r" "take ?n ?xs" Q] by (simp add: take_map)
  from poll_cq_expected [OF Q(1) this] obtain wcs' s where p:
    "poll_cq env wcs (rn_drv r) = ret (int (min ?n (length ?xs)), wcs', s)"
    "list_all2 (\<lambda>(e, wid) wc. reported e wid wc) (zip (take ?n (map (body \<circ> fst) ?xs)) (take ?n (map snd ?xs))) wcs'"
    "poll_rep b s (rn_pi r) (drop ?n (map (body \<circ> fst) ?xs)) Q1" "parties_same (rn_drv r) s" by auto
  have rep: "list_all2 (\<lambda>(e, wid) wc. reported e wid wc) (take ?n ?xs) wcs'"
    using p(2) reported_bodies [of "take ?n ?xs" wcs'] by (simp add: take_map)
  then have len: "length wcs' = min ?n (length ?xs)" by (simp add: list_all2_lengthD [symmetric] min.commute)
  let ?r = "r\<lparr>rn_drv := s, rn_got := rn_got r @ wcs'\<rparr>"
  have got: "length (rn_got r) \<le> length (rn_made r)" and
    old: "list_all2 (\<lambda>(e, wid) wc. reported e wid wc) (take (length (rn_got r)) (rn_made r)) (rn_got r)"
    using assms by (simp_all add: run_inv_def)
  have "drop (length wcs') ?xs = drop ?n ?xs" by (simp add: len min_def)
  then have left: "to_report ?r = drop ?n ?xs" by (simp add: to_report_def add.commute)
  have "take (length wcs') ?xs = take ?n ?xs" by (simp add: len min_def)
  then have "take (length (rn_got ?r)) (rn_made r) = take (length (rn_got r)) (rn_made r) @ take ?n ?xs"
    by (simp add: take_add to_report_def)
  moreover have "length (rn_got ?r) \<le> length (rn_made ?r)" using got by (simp add: len to_report_def)
  ultimately have "run_inv env b ?r"
    using old rep p(3) Q1(2) parties_sameD(1) [OF p(4)] unfolding run_inv_def left
    by (auto simp: drop_map intro: list_all2_appendI)
  with p(1) rep show ?thesis by blast
qed

subsection \<open>Every step keeps it\<close>

lemma walk_new:
  assumes rep: "sq_rep b cap bbs sq p es" and rep': "sq_rep b' cap' bbs' sq' p (es @ new)"
  shows "sq_walk sq' (scur_post sq) (length new) = new"
proof -
  have at: "scur_post sq = p + of_nat (slots es)" using rep by (simp add: sq_rep_def)
  have "en_ok bbs' sq' (scur_post sq + of_nat (slots (take i new))) (sq_tail sq' + of_nat (length es) + of_nat i) (new ! i)"
    if "i < length new" for i
  proof -
    have "\<forall>j<length (es @ new). en_ok bbs' sq' (p + of_nat (slots (take j (es @ new)))) (sq_tail sq' + of_nat j) ((es @ new) ! j)"
      using rep' by (simp add: sq_rep_def)
    from this [rule_format, of "length es + i"] that show ?thesis by (simp add: at nth_append ac_simps)
  qed
  then show ?thesis by (intro walk_entries [of new bbs' sq' "scur_post sq" "sq_tail sq' + of_nat (length es)"]) blast
qed

lemma ports_more:
  assumes "ports_hold s Q" and "ps_rscs s k = MLX5_RSC_TYPE_QP n q"
    and "\<exists>b cap bbs p. sq_rep b cap bbs (pq_sq q') p (fst (Q k) @ ss)"
    and "\<exists>b cap gs. qp_ok b cap gs (pq_rq q') \<and> rq_ids b (pq_rq q') = snd (Q k) @ rs"
  shows "ports_hold (upd_rsc k (MLX5_RSC_TYPE_QP n q') s) (more_pending k ss rs Q)"
  using assms by (fastforce simp: ports_hold_def upd_rsc_def more_pending_def)

lemma ports_send:
  assumes hold: "ports_hold s Q" and k: "ps_rscs s k = MLX5_RSC_TYPE_QP n q"
    and good: "list_all (good_send is_exp (pq_sq q) ahs) wrs"
    and post: "mlx5_post_send_device senv is_exp wrs (pq_sq q, ahs) = ret (err, bad, sq, ahs')"
  shows "ports_hold (upd_rsc k (MLX5_RSC_TYPE_QP n (q\<lparr>pq_sq := sq\<rparr>)) s)
    (more_pending k (sq_walk sq (scur_post (pq_sq q)) (length wrs - length bad)) [] Q)"
proof -
  obtain b cap bbs p where rep: "sq_rep b cap bbs (pq_sq q) p (fst (Q k))" using hold k unfolding ports_hold_def by blast
  from post_send_posts [OF rep good, of senv] post obtain new where new: "bad = drop (cap - length (fst (Q k))) wrs"
    "sq_rep b cap bbs sq p (fst (Q k) @ new)"
    "list_all2 (posted senv is_exp (pq_sq q) ahs) new (take (cap - length (fst (Q k))) wrs)" by auto
  have "length new = length wrs - length bad" using list_all2_lengthD [OF new(3)] by (simp add: new(1) min_def)
  with walk_new [OF rep new(2)] have "sq_walk sq (scur_post (pq_sq q)) (length wrs - length bad) = new" by simp
  moreover have "\<exists>b cap gs. qp_ok b cap gs (pq_rq q) \<and> rq_ids b (pq_rq q) = snd (Q k)" using hold k unfolding ports_hold_def by blast
  ultimately show ?thesis using new(2) by (intro ports_more [OF hold k]) auto
qed

lemma ports_recv:
  assumes hold: "ports_hold s Q" and k: "ps_rscs s k = MLX5_RSC_TYPE_QP n q"
    and good: "list_all (good_wr (max_gs (rq (pq_rq q)))) wrs"
    and post: "mlx5_post_recv_device rl wrs (pq_rq q) = (err, bad, qp)"
  shows "ports_hold (upd_rsc k (MLX5_RSC_TYPE_QP n (q\<lparr>pq_rq := qp\<rparr>)) s)
    (more_pending k [] (map rq_wr_id (take (length wrs - length bad) wrs)) Q)"
proof -
  obtain b cap gs where ok: "qp_ok b cap gs (pq_rq q)" "rq_ids b (pq_rq q) = snd (Q k)" using hold k unfolding ports_hold_def by blast
  let ?room = "cap - length (rq_content b (rq (pq_rq q)))"
  have "max_gs (rq (pq_rq q)) = gs" using ok(1) by (simp add: qp_ok_def wq_ok_def)
  with good have "list_all (good_wr gs) wrs" by simp
  from post_recv_room [OF ok(1) this, of rl] post have new: "bad = drop ?room wrs"
    "rq_content b (rq qp) = rq_content b (rq (pq_rq q)) @ map entry_of (take ?room wrs)" "qp_ok b cap gs qp" by auto
  have "take (length wrs - length bad) wrs = take ?room wrs" by (cases "length wrs \<le> ?room") (simp_all add: new(1))
  then have "rq_ids b qp = snd (Q k) @ map rq_wr_id (take (length wrs - length bad) wrs)"
    using ok(2) by (simp add: rq_ids_def new(2) entry_of_def comp_def)
  moreover have "\<exists>b cap bbs p. sq_rep b cap bbs (pq_sq q) p (fst (Q k))" using hold k unfolding ports_hold_def by blast
  ultimately show ?thesis using new(3) by (intro ports_more [OF hold k]) auto
qed

lemma inv_more:
  assumes "run_inv env b r" and k: "ps_rscs (rn_drv r) k = MLX5_RSC_TYPE_QP n q" and "pq_srq q' = pq_srq q"
    and hold: "\<And>Q. ports_hold (rn_drv r) Q \<Longrightarrow> ports_hold (upd_rsc k (MLX5_RSC_TYPE_QP n q') (rn_drv r)) (more_pending k ss rs Q)"
  shows "run_inv env b (r\<lparr>rn_drv := upd_rsc k (MLX5_RSC_TYPE_QP n q') (rn_drv r), rn_ahs := ahs, rn_left := more_pending k ss rs (rn_left r)\<rparr>)"
proof -
  obtain Q where Q: "poll_rep b (rn_drv r) (rn_pi r) (map (body \<circ> fst) (to_report r)) Q"
    "expect_all (party env (rn_drv r)) (map fst (to_report r)) Q = Some (map snd (to_report r), rn_left r)"
    using assms(1) by (auto simp: run_inv_def)
  let ?s = "upd_rsc k (MLX5_RSC_TYPE_QP n q') (rn_drv r)"
  have "ps_cq ?s = ps_cq (rn_drv r)" by (simp add: upd_rsc_def)
  then have "poll_rep b ?s (rn_pi r) (map (body \<circ> fst) (to_report r)) (more_pending k ss rs Q)"
    using Q(1) hold by (simp add: poll_rep_def)
  moreover have "party env ?s = party env (rn_drv r)" using parties_same_upd [OF k assms(3)] by (rule parties_sameD(1))
  ultimately show ?thesis using assms(1) expect_all_extend [OF Q(2)] by (auto simp: run_inv_def to_report_def)
qed

lemma inv_complete:
  assumes inv: "run_inv env b r" and room: "cq_count (ps_cq (rn_drv r)) (rn_pi r) < 2 ^ b"
    and e: "expect (party env (rn_drv r)) e (rn_left r) = Some (wid, left)"
  shows "run_inv env b (r\<lparr>rn_drv := (rn_drv r)\<lparr>ps_cq := device_write b e (rn_pi r) (ps_cq (rn_drv r))\<rparr>, rn_pi := rn_pi r + 1,
    rn_left := left, rn_made := rn_made r @ [(e, wid)]\<rparr>)"
proof -
  let ?s = "(rn_drv r)\<lparr>ps_cq := device_write b e (rn_pi r) (ps_cq (rn_drv r))\<rparr>"
  obtain Q where Q: "poll_rep b (rn_drv r) (rn_pi r) (map (body \<circ> fst) (to_report r)) Q"
    "expect_all (party env (rn_drv r)) (map fst (to_report r)) Q = Some (map snd (to_report r), rn_left r)"
    and got: "length (rn_got r) \<le> length (rn_made r)" using inv by (auto simp: run_inv_def)
  have "cqe_opcode e \<noteq> MLX5_CQE_INVALID" using e by (auto simp: expect_def split: option.splits prod.splits if_splits)
  with write_ok [of b "ps_cq (rn_drv r)" "rn_pi r" e] Q(1) room
  have "poll_rep b ?s (rn_pi r + 1) (map (body \<circ> fst) (to_report r) @ [body e]) Q"
    using ports_hold_cong [of ?s "rn_drv r"] by (simp add: poll_rep_def)
  moreover have "party env ?s = party env (rn_drv r)" by (rule parties_sameD(1) [OF parties_same_refl]) simp_all
  moreover have "expect_all (party env (rn_drv r)) (map fst (to_report r) @ [e]) Q = Some (map snd (to_report r) @ [wid], left)"
    using Q(2) e by (simp add: expect_all_append)
  ultimately show ?thesis using inv got by (auto simp: run_inv_def to_report_def)
qed

lemma step_inv: "driver_step env senv rl b r r' \<Longrightarrow> run_inv env b r \<Longrightarrow> run_inv env b r'"
proof (induction rule: driver_step.induct)
  case (send r k n q is_exp wrs err bad sq ahs)
  show ?case by (rule inv_more [OF send.prems send.hyps(1)]) (simp_all add: ports_send [OF _ send.hyps])
next
  case (recv r k n q wrs err bad qp)
  have "r = r\<lparr>rn_ahs := rn_ahs r\<rparr>" by simp
  have "run_inv env b (r\<lparr>rn_drv := upd_rsc k (MLX5_RSC_TYPE_QP n (q\<lparr>pq_rq := qp\<rparr>)) (rn_drv r), rn_ahs := rn_ahs r,
      rn_left := more_pending k [] (map rq_wr_id (take (length wrs - length bad) wrs)) (rn_left r)\<rparr>)"
    by (rule inv_more [OF recv.prems recv.hyps(1)]) (simp_all add: ports_recv [OF _ recv.hyps])
  then show ?case by simp
next
  case (complete r e wid left)
  then show ?case by (intro inv_complete)
next
  case (poll wcs r res wcs' s)
  with inv_polls [OF poll.prems, of wcs] show ?case by auto
qed

lemma steps_inv: "(driver_step env senv rl b)\<^sup>*\<^sup>* r r' \<Longrightarrow> run_inv env b r \<Longrightarrow> run_inv env b r'"
  by (induction rule: rtranclp_induct) (auto intro: step_inv)

definition run_start :: "nat \<Rightarrow> run_state \<Rightarrow> bool" where
  "run_start b r \<longleftrightarrow> poll_rep b (rn_drv r) (rn_pi r) [] (rn_left r) \<and> rn_made r = [] \<and> rn_got r = []"

lemma start_inv: "run_start b r \<Longrightarrow> run_inv env b r"
  by (simp add: run_start_def run_inv_def to_report_def)

subsection \<open>The theorem\<close>

text \<open>A queue pair of number 7 with the small queues, and an empty completion queue of four entries.\<close>

definition small_port :: poll_qp where
  "small_port = \<lparr>pq_sq = small_sq, pq_rq = small_rq, pq_rq_wqe_shift = 4, pq_wr_data = (\<lambda>_. 0), pq_srq = None\<rparr>"

definition blank_cqe :: mlx5_cqe64 where
  "blank_cqe = \<lparr>ml_path = 0, cqe_slid = 0, flags_rqpn = 0, srqn_uidx = 0, imm_inval_pkey = 0, app = 0, cqe_byte_cnt = 0, cqe_timestamp = 0,
     sop_drop_qpn = htonl 7, wqe_counter = 0, op_own = 0xF0\<rparr>"

definition small_drv :: "(nat, nat) mlx5_tables \<Rightarrow> poll_state" where
  "small_drv c = \<lparr>ps_tables = c, ps_rscs = (\<lambda>k. if k = 1 then MLX5_RSC_TYPE_QP 7 small_port else MLX5_RSC_TYPE_XSRQ 0 0),
     ps_srqs = (\<lambda>_. undefined), ps_srqn = (\<lambda>_. 0), ps_mem = (\<lambda>_. 0),
     ps_cq = \<lparr>cq_cqes = (\<lambda>_. blank_cqe), cq_cqe = 3, cons_index = 0, set_ci_db = 0, arm_db = 0, arm_sn = 0, cqn = 0, active_cqes = 3,
       resize_buf = (\<lambda>_. blank_cqe), resize_cqes = 0\<rparr>\<rparr>"

definition small_run :: "(nat, nat) mlx5_tables \<Rightarrow> run_state" where
  "small_run c = \<lparr>rn_drv = small_drv c, rn_ahs = small_ahs, rn_pi = 0, rn_left = (\<lambda>_. ([], [])), rn_made = [], rn_got = []\<rparr>"

lemma small_run_start: "run_start 2 (small_run c)"
proof -
  have inv: "cqe_opcode blank_cqe = MLX5_CQE_INVALID" by (simp add: blank_cqe_def; code_simp)
  then have "ring_ok 2 (ps_cq (small_drv c)) 0" by (simp add: ring_ok_def small_drv_def cq_count_def owned_def)
  moreover have "cq_content 2 (ps_cq (small_drv c)) 0 = []" by (simp add: cq_content_def cq_count_def small_drv_def ring_view_def)
  moreover have "ports_hold (small_drv c) (\<lambda>_. ([], []))"
    using small_sq_rep small_rq_ok(1,2) by (fastforce simp: ports_hold_def small_drv_def small_port_def rq_ids_def)
  ultimately show ?thesis by (simp add: run_start_def poll_rep_def small_run_def)
qed

definition small_tables :: "(nat, nat) mlx5_tables" where
  "small_tables = no_tables\<lparr>rsc_table := (rsc_table no_tables)(0 := \<lparr>grp_table = Some [7 \<mapsto> 1], grp_refcnt = 1\<rparr>)\<rparr>"

definition small_pe :: poll_env where
  "small_pe = \<lparr>pe_cqe_ver = False, pe_cqe_addr = (\<lambda>_. 0)\<rparr>"

definition small_cqe :: "u8 \<Rightarrow> mlx5_cqe64" where
  "small_cqe op = blank_cqe\<lparr>op_own := op\<rparr>"

lemma small_cqe_simps: "cqe_opcode (small_cqe 0) = MLX5_CQE_REQ" "cqe_opcode (small_cqe 0x20) = MLX5_CQE_RESP_SEND"
  "mlx5_get_cqe_format (small_cqe 0) = MLX5_NO_INLINE_DATA" "mlx5_get_cqe_format (small_cqe 0x20) = MLX5_NO_INLINE_DATA"
  "wqe_counter (small_cqe op) = 0" "app (small_cqe op) = 0"
proof -
  show "cqe_opcode (small_cqe 0) = MLX5_CQE_REQ" "cqe_opcode (small_cqe 0x20) = MLX5_CQE_RESP_SEND"
    "mlx5_get_cqe_format (small_cqe 0) = MLX5_NO_INLINE_DATA" "mlx5_get_cqe_format (small_cqe 0x20) = MLX5_NO_INLINE_DATA"
    unfolding cqe_opcode_def mlx5_get_cqe_format_def small_cqe_def by (simp; code_simp)+
qed (simp_all add: small_cqe_def blank_cqe_def)

lemma small_party:
  assumes "ps_tables s = small_tables" and "ps_rscs s 1 = MLX5_RSC_TYPE_QP 7 q" and "pq_srq q = None"
  shows "party small_pe s (small_cqe op) = Some 1"
proof -
  have "htonl 0 = 0" by code_simp
  then have n: "entry_number small_pe (small_cqe op) = 7" "htonl (srqn_uidx (small_cqe op)) AND 0xFFFFFF = 0"
    by (simp_all add: entry_number_def small_pe_def small_cqe_def blank_cqe_def)
  have "tind 7 = 0" "slot 7 = 7" by (simp add: tind_def MLX5_QP_TABLE_SHIFT_def; code_simp) (simp add: slot_def; code_simp)
  then have "find_number small_pe 7 s = ret (Some 1)"
    using assms(1) by (simp add: find_number_def small_pe_def mlx5_find_rsc_def find_in_def small_tables_def index_def deref_def MLX5_QP_TABLE_SIZE_def MLX5_QP_TABLE_SHIFT_def)
  then show ?thesis using assms(2,3) n by (simp add: party_def own_number_def small_pe_def ret_def)
qed

text \<open>A receive and a send, and their entries in the queue.\<close>

lemma small_recv_step:
  obtains qp where "driver_step small_pe env (\<lambda>_ _ _. None) 2 (small_run small_tables) (small_run small_tables\<lparr>
      rn_drv := upd_rsc 1 (MLX5_RSC_TYPE_QP 7 (small_port\<lparr>pq_rq := qp\<rparr>)) (small_drv small_tables), rn_left := more_pending 1 [] [9] (\<lambda>_. ([], []))\<rparr>)"
proof -
  obtain qp where post: "mlx5_post_recv_device (\<lambda>_ _ _. None) [small_recv 9] (pq_rq small_port) = (0, [], qp)"
    using post_recv_room [OF small_rq_ok(1), of "[small_recv 9]" "\<lambda>_ _ _. None"] small_recv_good
    by (auto simp: small_rq_ok(2) small_port_def)
  have "max_gs (rq (pq_rq small_port)) = 1" by (simp add: small_port_def small_rq_def)
  then have "list_all (good_wr (max_gs (rq (pq_rq small_port)))) [small_recv 9]" using small_recv_good by simp
  from driver_step.recv [of "small_run small_tables", OF _ this post, of 1 7 small_pe env 2] show thesis
    by (intro that [of qp]) (simp add: small_run_def small_drv_def, simp add: small_recv_def)
qed

lemma small_send_step:
  assumes "ps_rscs (rn_drv r) 1 = MLX5_RSC_TYPE_QP 7 q" and "pq_sq q = small_sq" and "rn_ahs r = small_ahs"
  obtains sq ahs x where "en_id x = 1" "sv_idx (en_view x) = 0"
    "driver_step env small_env rl b r (r\<lparr>rn_drv := upd_rsc 1 (MLX5_RSC_TYPE_QP 7 (q\<lparr>pq_sq := sq\<rparr>)) (rn_drv r), rn_ahs := ahs,
      rn_left := more_pending 1 [x] [] (rn_left r)\<rparr>)"
proof -
  have good: "list_all (good_send False (pq_sq q) (rn_ahs r)) [small_send 1 2]" using small_send_good assms by simp
  obtain sq ahs new where post: "mlx5_post_send_device small_env False [small_send 1 2] (small_sq, small_ahs) = ret (0, [], sq, ahs)"
    "sq_rep 2 2 2 sq 0 ([] @ new)" "list_all2 (posted small_env False small_sq small_ahs) new [small_send 1 2]"
    using post_send_posts [OF small_sq_rep, of False small_ahs "[small_send 1 2]" small_env] small_send_good by auto
  from post(3) obtain x where x: "new = [x]" "posted small_env False small_sq small_ahs x (small_send 1 2)"
    by (auto simp: list_all2_Cons2)
  have "sq_walk sq (scur_post small_sq) 1 = [x]" using walk_new [OF small_sq_rep post(2)] x(1) by simp
  with driver_step.send [OF assms(1) good, of small_env 0 "[]" sq ahs env rl b] post(1) assms
  have step: "driver_step env small_env rl b r (r\<lparr>rn_drv := upd_rsc 1 (MLX5_RSC_TYPE_QP 7 (q\<lparr>pq_sq := sq\<rparr>)) (rn_drv r), rn_ahs := ahs,
      rn_left := more_pending 1 [x] [] (rn_left r)\<rparr>)" by simp
  have "en_pos x = 0" "sv_idx (en_view x) = 0" using post(2) by (auto simp: x(1) sq_rep_def en_ok_def)
  moreover have "en_id x = 1" using x(2) by (simp add: posted_def small_send_def)
  ultimately show thesis using step by (intro that)
qed

lemma small_expect:
  "who (small_cqe 0x20) = Some k \<Longrightarrow> Q k = (ss, wid # rs) \<Longrightarrow> expect who (small_cqe 0x20) Q = Some (wid, Q(k := (ss, rs)))"
  "who (small_cqe 0) = Some k \<Longrightarrow> Q k = (x # ss, rs) \<Longrightarrow> sv_idx (en_view x) = 0 \<Longrightarrow>
    expect who (small_cqe 0) Q = Some (en_id x, Q(k := (ss, rs)))"
proof -
  have "htons 0 = 0" by code_simp
  then show "who (small_cqe 0x20) = Some k \<Longrightarrow> Q k = (ss, wid # rs) \<Longrightarrow> expect who (small_cqe 0x20) Q = Some (wid, Q(k := (ss, rs)))"
    "who (small_cqe 0) = Some k \<Longrightarrow> Q k = (x # ss, rs) \<Longrightarrow> sv_idx (en_view x) = 0 \<Longrightarrow>
      expect who (small_cqe 0) Q = Some (en_id x, Q(k := (ss, rs)))"
    by (simp_all add: expect_def small_cqe_simps MLX5_CQE_APP_TAG_MATCHING_def)
qed

lemma small_complete_step:
  assumes "cq_count (ps_cq (rn_drv r)) (rn_pi r) < 2 ^ 2" and "expect (party env (rn_drv r)) e (rn_left r) = Some (wid, left)"
  obtains r' where "driver_step env senv rl 2 r r'" "rn_made r' = rn_made r @ [(e, wid)]" "rn_got r' = rn_got r" "rn_left r' = left"
    "cq_count (ps_cq (rn_drv r')) (rn_pi r') = unat (rn_pi r + 1 - cons_index (ps_cq (rn_drv r)))"
    "ps_tables (rn_drv r') = ps_tables (rn_drv r)" "ps_rscs (rn_drv r') = ps_rscs (rn_drv r)"
  by (rule that [OF driver_step.complete [OF assms]]) (simp_all add: cq_count_def device_write_def)

lemma small_entries:
  obtains r where "(driver_step small_pe small_env (\<lambda>_ _ _. None) 2)\<^sup>*\<^sup>* (small_run small_tables) r"
    "rn_made r = [(small_cqe 0x20, 9), (small_cqe 0, 1)]" "rn_got r = []"
proof -
  let ?step = "driver_step small_pe small_env (\<lambda>_ _ _. None) 2"
  obtain qp r1 where s1: "?step (small_run small_tables) r1" and
    r1: "r1 = small_run small_tables\<lparr>rn_drv := upd_rsc 1 (MLX5_RSC_TYPE_QP 7 (small_port\<lparr>pq_rq := qp\<rparr>)) (small_drv small_tables),
      rn_left := more_pending 1 [] [9] (\<lambda>_. ([], []))\<rparr>" using small_recv_step by blast
  have "ps_rscs (rn_drv r1) 1 = MLX5_RSC_TYPE_QP 7 (small_port\<lparr>pq_rq := qp\<rparr>)" "pq_sq (small_port\<lparr>pq_rq := qp\<rparr>) = small_sq" "rn_ahs r1 = small_ahs"
    by (simp_all add: r1 upd_rsc_def small_port_def small_run_def)
  then obtain sq ahs x where x: "en_id x = 1" "sv_idx (en_view x) = 0" and
    send: "?step r1 (r1\<lparr>rn_drv := upd_rsc 1 (MLX5_RSC_TYPE_QP 7 (small_port\<lparr>pq_rq := qp, pq_sq := sq\<rparr>)) (rn_drv r1), rn_ahs := ahs,
      rn_left := more_pending 1 [x] [] (rn_left r1)\<rparr>)" by (rule small_send_step)
  define r2 where r2: "r2 = r1\<lparr>rn_drv := upd_rsc 1 (MLX5_RSC_TYPE_QP 7 (small_port\<lparr>pq_rq := qp, pq_sq := sq\<rparr>)) (rn_drv r1), rn_ahs := ahs,
      rn_left := more_pending 1 [x] [] (rn_left r1)\<rparr>"
  have s2: "?step r1 r2" using send unfolding r2 .
  have f: "ps_tables (rn_drv r2) = small_tables" "ps_rscs (rn_drv r2) 1 = MLX5_RSC_TYPE_QP 7 (small_port\<lparr>pq_rq := qp, pq_sq := sq\<rparr>)"
    "rn_left r2 1 = ([x], [9])" "cons_index (ps_cq (rn_drv r2)) = 0" "rn_pi r2 = 0" "rn_made r2 = []" "rn_got r2 = []"
    by (simp_all add: r1 r2 upd_rsc_def small_drv_def small_run_def more_pending_def)
  have srq: "pq_srq (small_port\<lparr>pq_rq := qp, pq_sq := sq\<rparr>) = None" by (simp add: small_port_def)
  have room2: "cq_count (ps_cq (rn_drv r2)) (rn_pi r2) < 2 ^ 2" by (simp add: cq_count_def f)
  have e2: "expect (party small_pe (rn_drv r2)) (small_cqe 0x20) (rn_left r2) = Some (9, (rn_left r2)(1 := ([x], [])))"
    by (rule small_expect(1)) (rule small_party [OF f(1,2) srq], rule f(3))
  obtain r3 where s3: "?step r2 r3" and g: "rn_made r3 = rn_made r2 @ [(small_cqe 0x20, 9)]" "rn_got r3 = rn_got r2"
    "rn_left r3 = (rn_left r2)(1 := ([x], []))" "cq_count (ps_cq (rn_drv r3)) (rn_pi r3) = unat (rn_pi r2 + 1 - cons_index (ps_cq (rn_drv r2)))"
    "ps_tables (rn_drv r3) = ps_tables (rn_drv r2)" "ps_rscs (rn_drv r3) = ps_rscs (rn_drv r2)"
    by (rule small_complete_step [OF room2 e2])
  have room3: "cq_count (ps_cq (rn_drv r3)) (rn_pi r3) < 2 ^ 2" by (simp add: g f)
  have q3: "ps_rscs (rn_drv r3) 1 = MLX5_RSC_TYPE_QP 7 (small_port\<lparr>pq_rq := qp, pq_sq := sq\<rparr>)" "ps_tables (rn_drv r3) = small_tables"
    "rn_left r3 1 = ([x], [])" using f(1,2) g by simp_all
  have e3: "expect (party small_pe (rn_drv r3)) (small_cqe 0) (rn_left r3) = Some (1, (rn_left r3)(1 := ([], [])))"
    unfolding x(1) [symmetric] by (rule small_expect(2)) (rule small_party [OF q3(2,1) srq], rule q3(3), rule x(2))
  obtain r4 where s4: "?step r3 r4" "rn_made r4 = rn_made r3 @ [(small_cqe 0, 1)]" "rn_got r4 = rn_got r3"
    by (rule small_complete_step [OF room3 e3])
  have "?step\<^sup>*\<^sup>* (small_run small_tables) r4"
    using s1 s2 s3 s4(1) by (meson r_into_rtranclp rtranclp_trans)
  then show thesis by (rule that) (simp_all add: s4 g f)
qed

text \<open>
  C27: polls report what the device has done, once each and in its order. Over any run of posts to the
  send and receive queues of any number of queue pairs, of entries the device writes for requests it
  has, and of polls of any length, every poll succeeds; it gives as many completions as there are
  entries not reported yet, up to the length of its array; and all completions so far are, one by one,
  those of the entries in the order the device made them: with the identifier of the request, the
  number of its queue pair, success exactly when the entry is of no error, and for a receive its
  length and immediate data.
\<close>

theorem polls_report:
  assumes "run_start b r0" and "(driver_step env senv rl b)\<^sup>*\<^sup>* r0 r"
  shows "\<exists>wcs' s. poll_cq env wcs (rn_drv r) = ret (int (min (length wcs) (length (rn_made r) - length (rn_got r))), wcs', s) \<and>
    list_all2 (\<lambda>(e, wid) wc. reported e wid wc) (take (length (rn_got r) + length wcs) (rn_made r)) (rn_got r @ wcs')"
proof -
  have inv: "run_inv env b r" using steps_inv [OF assms(2) start_inv [OF assms(1)]] .
  then have old: "list_all2 (\<lambda>(e, wid) wc. reported e wid wc) (take (length (rn_got r)) (rn_made r)) (rn_got r)" by (simp add: run_inv_def)
  obtain wcs' s where "poll_cq env wcs (rn_drv r) = ret (int (min (length wcs) (length (to_report r))), wcs', s)"
    "list_all2 (\<lambda>(e, wid) wc. reported e wid wc) (take (length wcs) (to_report r)) wcs'" using inv_polls [OF inv] by blast
  then show ?thesis using list_all2_appendI [OF old] by (simp add: to_report_def take_add)
qed

theorem polls_report_witness:
  "\<exists>r wcs s. (driver_step small_pe small_env (\<lambda>_ _ _. None) 2)\<^sup>*\<^sup>* (small_run small_tables) r \<and>
    poll_cq small_pe (replicate 3 undefined) (rn_drv r) = ret (2, wcs, s) \<and> map wc_wr_id wcs = [9, 1] \<and> map wc_qp_num wcs = [7, 7]"
proof -
  obtain r where r: "(driver_step small_pe small_env (\<lambda>_ _ _. None) 2)\<^sup>*\<^sup>* (small_run small_tables) r"
    "rn_made r = [(small_cqe 0x20, 9), (small_cqe 0, 1)]" "rn_got r = []" by (rule small_entries)
  have n: "htonl (sop_drop_qpn (small_cqe op)) AND 0xFFFFFF = 7" for op by (simp add: small_cqe_def blank_cqe_def)
  have two: "int (min 3 2) = 2" by simp
  have three: "length (rn_made r) - length [] = 2" "take (length [] + 3) (rn_made r) = rn_made r" by (simp_all add: r(2))
  from polls_report [OF small_run_start r(1), of "replicate 3 undefined", unfolded length_replicate r(3) three two append_Nil] obtain wcs s where
    p: "poll_cq small_pe (replicate 3 undefined) (rn_drv r) = ret (2, wcs, s)"
      "list_all2 (\<lambda>(e, wid) wc. reported e wid wc) (rn_made r) wcs" by blast
  from p(2) obtain wc1 wc2 where wcs: "wcs = [wc1, wc2]" "reported (small_cqe 0x20) 9 wc1" "reported (small_cqe 0) 1 wc2"
    by (auto simp: r(2) list_all2_Cons1)
  have "wc_wr_id wc = wid \<and> wc_qp_num wc = 7" if "reported (small_cqe op) wid wc" for op wid wc
    using that n [of op] by (simp only: reported_def)
  from this [OF wcs(2)] this [OF wcs(3)] have "map wc_wr_id wcs = [9, 1]" "map wc_qp_num wcs = [7, 7]" by (simp_all add: wcs(1))
  with r(1) p(1) show ?thesis by (intro exI [of _ r] exI [of _ wcs] exI [of _ s] conjI)
qed

end
