(* ===== verification/Ibv_Cq.thy ===== *)
theory Ibv_Cq
  imports Mprud_Types
begin

section \<open>Completion channels and completion queues\<close>

text \<open>
  \<^verbatim>\<open>libibverbs-41mlnx1/src/verbs.c\<close>: completion channels, the completion queues that
  report to them, and the events a queue reports. The structures the process holds are stores
  from pointers; following a pointer to a structure that was freed is a fault. The old interface
  of the kernel (\<^verbatim>\<open>abi_ver <= 2\<close>) has one channel per context, in the
  structure \<^verbatim>\<open>ibv_abi_compat_v2\<close> with a mutex that is held while the channel is in use.
  The mutexes of the context and of the queues, condition variables, \<^verbatim>\<open>errno\<close> and messages are
  left out, and there is one context.
\<close>

datatype chan_ptr = Compat | Chan nat

record ibv_comp_channel =
  ch_fd :: int
  ch_refcnt :: int

record ibv_cq =
  cq_channel :: "chan_ptr option"
  cq_cq_context :: u64
  cq_cqe :: int
  comp_events_completed :: u32
  async_events_completed :: u32

record 'w cq_state =
  channels :: "chan_ptr \<Rightarrow> ibv_comp_channel option"
  cqs :: "nat \<Rightarrow> ibv_cq option"
  v2_in_use :: bool
  v2_warned :: bool
  cq_world :: 'w

text \<open>
  The kernel and the driver: memory for a channel, the command that creates one (its file
  descriptor, or none when the write fails), an event (the queue it names), and the driver's
  operations. Creating a queue gives its address and its number of entries; the driver frees the
  structure of a queue it destroys.
\<close>

record 'w cq_ops =
  malloc_op :: "'w \<Rightarrow> nat option \<times> 'w"
  create_channel_cmd :: "'w \<Rightarrow> int option \<times> 'w"
  close_op :: "int \<Rightarrow> 'w \<Rightarrow> 'w"
  read_event_op :: "int \<Rightarrow> 'w \<Rightarrow> nat option \<times> 'w"
  cq_create_op :: "int \<Rightarrow> chan_ptr option \<Rightarrow> int \<Rightarrow> 'w \<Rightarrow> (nat \<times> int) option \<times> 'w"
  cq_resize_op :: "(nat \<Rightarrow> int \<Rightarrow> 'w \<Rightarrow> int \<times> int \<times> 'w) option"
  cq_destroy_op :: "nat \<Rightarrow> 'w \<Rightarrow> int \<times> 'w"
  cq_event_op :: "(nat \<Rightarrow> 'w \<Rightarrow> 'w) option"

definition EBUSY :: int where "EBUSY = 16"
definition ENOSYS :: int where "ENOSYS = 38"

definition ibv_create_comp_channel_v2 :: "'w cq_state \<Rightarrow> (chan_ptr option \<times> 'w cq_state) outcome" where
  "ibv_create_comp_channel_v2 s =
    (if \<not> v2_in_use s then ret (Some Compat, s\<lparr>v2_in_use := True\<rparr>)
     else ret (None, if v2_warned s then s else s\<lparr>v2_warned := True\<rparr>))"

definition ibv_create_comp_channel :: "'w cq_ops \<Rightarrow> int \<Rightarrow> 'w cq_state \<Rightarrow> (chan_ptr option \<times> 'w cq_state) outcome" where
  "ibv_create_comp_channel ops abi s =
    (if abi \<le> 2 then ibv_create_comp_channel_v2 s
     else
       (case malloc_op ops (cq_world s) of
          (None, w) \<Rightarrow> ret (None, s\<lparr>cq_world := w\<rparr>)
        | (Some a, w) \<Rightarrow>
            (case create_channel_cmd ops w of
               (None, w') \<Rightarrow> ret (None, s\<lparr>cq_world := w'\<rparr>)
             | (Some fd, w') \<Rightarrow>
                 ret (Some (Chan a), s\<lparr>cq_world := w',
                   channels := (channels s)(Chan a \<mapsto> \<lparr>ch_fd = fd, ch_refcnt = 0\<rparr>)\<rparr>))))"

definition ibv_destroy_comp_channel_v2 :: "'w cq_state \<Rightarrow> (int \<times> 'w cq_state) outcome" where
  "ibv_destroy_comp_channel_v2 s = ret (0, s\<lparr>v2_in_use := False\<rparr>)"

definition ibv_destroy_comp_channel :: "'w cq_ops \<Rightarrow> int \<Rightarrow> chan_ptr \<Rightarrow> 'w cq_state \<Rightarrow> (int \<times> 'w cq_state) outcome" where
  "ibv_destroy_comp_channel ops abi c s =
    bindC (deref (channels s c)) (\<lambda>channel.
    if ch_refcnt channel \<noteq> 0 then ret (EBUSY, s)
    else if abi \<le> 2 then ibv_destroy_comp_channel_v2 s
    else ret (0, s\<lparr>cq_world := close_op ops (ch_fd channel) (cq_world s), channels := (channels s)(c := None)\<rparr>))"

text \<open>\<^verbatim>\<open>++channel->refcnt\<close> and \<^verbatim>\<open>--channel->refcnt\<close>.\<close>

definition bump_refcnt :: "int \<Rightarrow> chan_ptr option \<Rightarrow> 'w cq_state \<Rightarrow> 'w cq_state outcome" where
  "bump_refcnt d c s = (case c of
     None \<Rightarrow> ret s
   | Some p \<Rightarrow> bindC (deref (channels s p)) (\<lambda>ch.
       ret (s\<lparr>channels := (channels s)(p \<mapsto> ch\<lparr>ch_refcnt := ch_refcnt ch + d\<rparr>)\<rparr>)))"

text \<open>Taking the mutex of the context of a queue's channel follows the channel.\<close>

definition lock_channel :: "chan_ptr option \<Rightarrow> 'w cq_state \<Rightarrow> unit outcome" where
  "lock_channel c s = (case c of None \<Rightarrow> ret () | Some p \<Rightarrow> bindC (deref (channels s p)) (\<lambda>_. ret ()))"

text \<open>The multi-path build asks for 1023 entries whatever the application wants.\<close>

definition ibv_create_cq :: "'w cq_ops \<Rightarrow> int \<Rightarrow> u64 \<Rightarrow> chan_ptr option \<Rightarrow> int \<Rightarrow> 'w cq_state \<Rightarrow>
    (nat option \<times> 'w cq_state) outcome" where
  "ibv_create_cq ops cqe0 cq_ctx c vector s =
    (let cqe = 1023
     in case cq_create_op ops cqe c vector (cq_world s) of
          (None, w) \<Rightarrow> ret (None, s\<lparr>cq_world := w\<rparr>)
        | (Some (a, n), w) \<Rightarrow>
            bindC (bump_refcnt 1 c (s\<lparr>cq_world := w\<rparr>)) (\<lambda>s1.
            ret (Some a, s1\<lparr>cqs := (cqs s1)(a \<mapsto> \<lparr>cq_channel = c, cq_cq_context = cq_ctx, cq_cqe = n,
              comp_events_completed = 0, async_events_completed = 0\<rparr>)\<rparr>)))"

definition ibv_resize_cq :: "'w cq_ops \<Rightarrow> nat \<Rightarrow> int \<Rightarrow> 'w cq_state \<Rightarrow> (int \<times> 'w cq_state) outcome" where
  "ibv_resize_cq ops q cqe s =
    bindC (deref (cqs s q)) (\<lambda>cq.
    case cq_resize_op ops of
      None \<Rightarrow> ret (ENOSYS, s)
    | Some f \<Rightarrow> (case f q cqe (cq_world s) of (r, n, w) \<Rightarrow>
        ret (r, s\<lparr>cq_world := w, cqs := (cqs s)(q \<mapsto> cq\<lparr>cq_cqe := n\<rparr>)\<rparr>)))"

definition ibv_destroy_cq :: "'w cq_ops \<Rightarrow> nat \<Rightarrow> 'w cq_state \<Rightarrow> (int \<times> 'w cq_state) outcome" where
  "ibv_destroy_cq ops q s =
    bindC (deref (cqs s q)) (\<lambda>cq.
    bindC (lock_channel (cq_channel cq) s) (\<lambda>_.
    case cq_destroy_op ops q (cq_world s) of (r, w) \<Rightarrow>
      let s1 = s\<lparr>cq_world := w, cqs := (if r = 0 then (cqs s)(q := None) else cqs s)\<rparr>
      in if r = 0 then bindC (bump_refcnt (- 1) (cq_channel cq) s1) (\<lambda>s2. ret (r, s2)) else ret (r, s1)))"

definition ibv_get_cq_event :: "'w cq_ops \<Rightarrow> chan_ptr \<Rightarrow> 'w cq_state \<Rightarrow> ((nat \<times> u64) option \<times> 'w cq_state) outcome" where
  "ibv_get_cq_event ops c s =
    bindC (deref (channels s c)) (\<lambda>channel.
    case read_event_op ops (ch_fd channel) (cq_world s) of
      (None, w) \<Rightarrow> ret (None, s\<lparr>cq_world := w\<rparr>)
    | (Some q, w) \<Rightarrow>
        bindC (deref (cqs s q)) (\<lambda>cq.
        ret (Some (q, cq_cq_context cq), s\<lparr>cq_world := (case cq_event_op ops of None \<Rightarrow> w | Some f \<Rightarrow> f q w)\<rparr>)))"

definition ibv_ack_cq_events :: "nat \<Rightarrow> u32 \<Rightarrow> 'w cq_state \<Rightarrow> 'w cq_state outcome" where
  "ibv_ack_cq_events q nevents s =
    bindC (deref (cqs s q)) (\<lambda>cq.
    ret (s\<lparr>cqs := (cqs s)(q \<mapsto> cq\<lparr>comp_events_completed := comp_events_completed cq + nevents\<rparr>)\<rparr>))"

subsection \<open>Steps of a client\<close>

text \<open>
  What a client may do: create and destroy channels and queues, in any order, with pointers
  to structures that are alive. The premises say what the system promises: memory it gives out
  is not in use, and the kernel reports events of queues that exist.
\<close>

inductive cq_step :: "'w cq_ops \<Rightarrow> int \<Rightarrow> 'w cq_state \<Rightarrow> 'w cq_state \<Rightarrow> bool" for ops abi where
  create_channel: "ibv_create_comp_channel ops abi s = ret (c, s') \<Longrightarrow>
    (\<forall>a. fst (malloc_op ops (cq_world s)) = Some a \<longrightarrow> channels s (Chan a) = None) \<Longrightarrow> cq_step ops abi s s'"
| destroy_channel: "ibv_destroy_comp_channel ops abi c s = ret (r, s') \<Longrightarrow> cq_step ops abi s s'"
| create_cq: "ibv_create_cq ops cqe ctx c v s = ret (q, s') \<Longrightarrow>
    (\<forall>a n. fst (cq_create_op ops 1023 c v (cq_world s)) = Some (a, n) \<longrightarrow> cqs s a = None) \<Longrightarrow> cq_step ops abi s s'"
| resize_cq: "ibv_resize_cq ops q cqe s = ret (r, s') \<Longrightarrow> cq_step ops abi s s'"
| destroy_cq: "ibv_destroy_cq ops q s = ret (r, s') \<Longrightarrow> cq_step ops abi s s'"
| get_event: "ibv_get_cq_event ops c s = ret (e, s') \<Longrightarrow> cq_step ops abi s s'"
| ack_events: "ibv_ack_cq_events q n s = ret s' \<Longrightarrow> cq_step ops abi s s'"

inductive cq_reach :: "'w cq_ops \<Rightarrow> int \<Rightarrow> 'w cq_state \<Rightarrow> bool" for ops abi where
  cq_init: "(channels s = Map.empty(Compat \<mapsto> \<lparr>ch_fd = fd, ch_refcnt = 0\<rparr>)) \<Longrightarrow> cqs s = Map.empty \<Longrightarrow>
    \<not> v2_in_use s \<Longrightarrow> cq_reach ops abi s"
| cq_more: "cq_reach ops abi s \<Longrightarrow> cq_step ops abi s s' \<Longrightarrow> cq_reach ops abi s'"

definition users :: "chan_ptr \<Rightarrow> 'w cq_state \<Rightarrow> nat set" where
  "users c s = {q. \<exists>cq. cqs s q = Some cq \<and> cq_channel cq = Some c}"

text \<open>The reference count of a channel is the number of the queues that report to it.\<close>

definition counts_ok :: "'w cq_state \<Rightarrow> bool" where
  "counts_ok s \<longleftrightarrow> finite (dom (cqs s)) \<and>
     (\<forall>c ch. channels s c = Some ch \<longrightarrow> ch_refcnt ch = int (card (users c s))) \<and>
     (\<forall>c. channels s c = None \<longrightarrow> users c s = {})"


lemma counts_okD: "counts_ok s \<Longrightarrow> channels s c = Some ch \<Longrightarrow> ch_refcnt ch = int (card (users c s))"
  "counts_ok s \<Longrightarrow> channels s c = None \<Longrightarrow> users c s = {}"
  by (simp_all add: counts_ok_def)

lemma counts_okI:
  assumes "finite (dom (cqs s))"
    and "\<And>c ch. channels s c = Some ch \<Longrightarrow> ch_refcnt ch = int (card (users c s))"
    and "\<And>c. channels s c = None \<Longrightarrow> users c s = {}"
  shows "counts_ok s"
  using assms by (simp add: counts_ok_def)

lemma counts_okE:
  assumes "counts_ok s"
  shows "finite (dom (cqs s))" and "finite (users c s)"
proof -
  show "finite (dom (cqs s))" using assms by (simp add: counts_ok_def)
  then show "finite (users c s)" by (rule rev_finite_subset) (auto simp: users_def)
qed

text \<open>A queue in use reports to a channel that is alive.\<close>

lemma counts_alive: "counts_ok s \<Longrightarrow> cqs s q = Some cq \<Longrightarrow> cq_channel cq = Some c \<Longrightarrow> \<exists>ch. channels s c = Some ch"
  using counts_okD(2) [of s c] by (cases "channels s c") (auto simp: users_def)

lemma users_update:
  "users c (s\<lparr>cqs := (cqs s)(q \<mapsto> cq)\<rparr>) = (if cq_channel cq = Some c then insert q (users c s) else users c s - {q})"
  "users c (s\<lparr>cqs := (cqs s)(q := None)\<rparr>) = users c s - {q}"
  by (auto simp: users_def)

lemma users_cong: "cqs s' = cqs s \<Longrightarrow> users c s' = users c s"
  by (simp add: users_def)

lemma counts_cong: "cqs s' = cqs s \<Longrightarrow> channels s' = channels s \<Longrightarrow> counts_ok s' = counts_ok s"
  by (simp add: counts_ok_def users_cong [of s' s])

lemma counts_keep_channel:
  assumes "counts_ok s" and "cqs s q = Some cq" and "cq_channel cq' = cq_channel cq"
    and "cqs s' = (cqs s)(q \<mapsto> cq')" and "channels s' = channels s"
  shows "counts_ok s'"
proof -
  have "users c s' = users c s" for c using assms(2-4) by (auto simp: users_def)
  with assms show ?thesis by (simp add: counts_ok_def)
qed

lemma create_channel_counts:
  assumes "counts_ok s" and "ibv_create_comp_channel ops abi s = ret (c, s')"
    and "\<forall>a. fst (malloc_op ops (cq_world s)) = Some a \<longrightarrow> channels s (Chan a) = None"
  shows "counts_ok s'"
proof (rule counts_okI)
  have eq: "cqs s' = cqs s" "users x s' = users x s" for x
    using assms(2) by (auto simp: ibv_create_comp_channel_def ibv_create_comp_channel_v2_def users_def
        split: if_splits prod.splits option.splits)
  show "finite (dom (cqs s'))" using counts_okE(1) [OF assms(1)] eq by simp
  have chans: "channels s' = channels s \<or> (\<exists>a fd. channels s (Chan a) = None \<and>
      channels s' = (channels s)(Chan a \<mapsto> \<lparr>ch_fd = fd, ch_refcnt = 0\<rparr>))"
  proof (cases "channels s' = channels s")
    case False
    then obtain a fd where "fst (malloc_op ops (cq_world s)) = Some a"
      "channels s' = (channels s)(Chan a \<mapsto> \<lparr>ch_fd = fd, ch_refcnt = 0\<rparr>)"
      using assms(2) by (auto simp: ibv_create_comp_channel_def ibv_create_comp_channel_v2_def
          split: if_splits prod.splits option.splits)
    with assms(3) show ?thesis by blast
  qed simp
  show "ch_refcnt ch = int (card (users x s'))" if "channels s' x = Some ch" for x ch
    using that chans counts_okD [OF assms(1), of x] eq by (auto split: if_splits)
  show "users x s' = {}" if "channels s' x = None" for x
    using that chans counts_okD [OF assms(1), of x] eq by (auto split: if_splits)
qed

lemma destroy_channel_counts:
  assumes "counts_ok s" and "ibv_destroy_comp_channel ops abi c s = ret (r, s')"
  shows "counts_ok s'"
proof (rule counts_okI)
  have eq: "cqs s' = cqs s" "users x s' = users x s" for x
    using assms(2) by (auto simp: ibv_destroy_comp_channel_def ibv_destroy_comp_channel_v2_def bindC_eq_ret users_def
        split: if_splits)
  show "finite (dom (cqs s'))" using counts_okE(1) [OF assms(1)] eq by simp
  have chans: "channels s' = channels s \<or> (\<exists>ch. channels s c = Some ch \<and> ch_refcnt ch = 0 \<and>
      channels s' = (channels s)(c := None))"
    using assms(2) by (auto simp: ibv_destroy_comp_channel_def ibv_destroy_comp_channel_v2_def bindC_eq_ret split: if_splits)
  show "ch_refcnt ch = int (card (users x s'))" if "channels s' x = Some ch" for x ch
    using that chans counts_okD(1) [OF assms(1), of x] eq by (auto split: if_splits)
  show "users x s' = {}" if "channels s' x = None" for x
    using that chans counts_okD [OF assms(1), of x] eq counts_okE(2) [OF assms(1), of x] by (auto split: if_splits)
qed

text \<open>The count of the queue's own channel moves with the queue.\<close>

lemma bump_counts:
  assumes "bump_refcnt d c s = ret s'" and "\<And>x. channels s x = None \<Longrightarrow> users x s = {}"
    and "\<And>x ch. channels s x = Some ch \<Longrightarrow> ch_refcnt ch + (if c = Some x then d else 0) = int (card (users x s))"
    and "finite (dom (cqs s))"
  shows "counts_ok s'" and "cqs s' = cqs s"
proof -
  show eq: "cqs s' = cqs s" using assms(1) by (auto simp: bump_refcnt_def bindC_eq_ret split: option.splits)
  have chans: "channels s' x = (if c = Some x then map_option (\<lambda>ch. ch\<lparr>ch_refcnt := ch_refcnt ch + d\<rparr>) (channels s x)
      else channels s x)" for x
    using assms(1) by (auto simp: bump_refcnt_def bindC_eq_ret split: option.splits)
  show "counts_ok s'"
  proof (rule counts_okI)
    show "finite (dom (cqs s'))" using assms(4) eq by simp
    show "ch_refcnt ch = int (card (users x s'))" if "channels s' x = Some ch" for x ch
      using that assms(3) [of x] by (auto simp: chans users_cong [OF eq] split: if_splits)
    show "users x s' = {}" if "channels s' x = None" for x
      using that assms(2) [of x] by (simp add: chans users_cong [OF eq] split: if_splits)
  qed
qed

lemma create_cq_counts:
  assumes ok: "counts_ok s" and "ibv_create_cq ops cqe ctx c v s = ret (q, s')"
    and "\<forall>a n. fst (cq_create_op ops 1023 c v (cq_world s)) = Some (a, n) \<longrightarrow> cqs s a = None"
  shows "counts_ok s'"
proof -
  obtain e w where op: "cq_create_op ops 1023 c v (cq_world s) = (e, w)" by fastforce
  show ?thesis
  proof (cases e)
    case None
    then have "s' = s\<lparr>cq_world := w\<rparr>" using assms(2) op by (simp add: ibv_create_cq_def)
    with ok counts_cong [of s' s] show ?thesis by simp
  next
    case (Some p)
    obtain a n where p: "p = (a, n)" by fastforce
    with Some assms(3) op have fresh: "cqs s a = None" by simp
    define cq where "cq = \<lparr>cq_channel = c, cq_cq_context = ctx, cq_cqe = n,
        comp_events_completed = 0, async_events_completed = 0\<rparr>"
    from assms(2) op Some p obtain s1 where s1: "bump_refcnt 1 c (s\<lparr>cq_world := w\<rparr>) = ret s1"
      "s' = s1\<lparr>cqs := (cqs s1)(a \<mapsto> cq)\<rparr>"
      by (auto simp: ibv_create_cq_def bindC_eq_ret cq_def)
    then have bump: "bump_refcnt 1 c (s\<lparr>cq_world := w, cqs := (cqs s)(a \<mapsto> cq)\<rparr>) = ret s'"
      by (auto simp: bump_refcnt_def bindC_eq_ret split: option.splits)
    have "users x (s\<lparr>cq_world := w, cqs := (cqs s)(a \<mapsto> cq)\<rparr>) =
        (if c = Some x then insert a (users x s) else users x s)" "a \<notin> users x s" for x
      using fresh by (auto simp: users_def cq_def)
    moreover have "channels s x \<noteq> None" if "c = Some x" for x
      using s1(1) that by (auto simp: bump_refcnt_def bindC_eq_ret)
    ultimately show ?thesis
      using counts_okD [OF ok] counts_okE [OF ok] by (intro bump_counts(1) [OF bump]) (auto split: if_splits)
  qed
qed

lemma destroy_cq_counts:
  assumes ok: "counts_ok s" and "ibv_destroy_cq ops q s = ret (r, s')"
  shows "counts_ok s'"
proof -
  obtain e w where op: "cq_destroy_op ops q (cq_world s) = (e, w)" by fastforce
  from assms(2) op obtain cq where cq: "cqs s q = Some cq"
    by (auto simp: ibv_destroy_cq_def bindC_eq_ret)
  show ?thesis
  proof (cases "e = 0")
    case False
    then have "s' = s\<lparr>cq_world := w\<rparr>"
      using assms(2) op cq by (auto simp: ibv_destroy_cq_def bindC_eq_ret lock_channel_def split: option.splits)
    with ok counts_cong [of s' s] show ?thesis by simp
  next
    case True
    then have bump: "bump_refcnt (- 1) (cq_channel cq) (s\<lparr>cq_world := w, cqs := (cqs s)(q := None)\<rparr>) = ret s'"
      using assms(2) op cq by (auto simp: ibv_destroy_cq_def bindC_eq_ret)
    have u: "users x (s\<lparr>cq_world := w, cqs := (cqs s)(q := None)\<rparr>) = users x s - {q}" for x
      by (auto simp: users_def)
    have own: "q \<in> users x s \<longleftrightarrow> cq_channel cq = Some x" for x using cq by (simp add: users_def)
    have card: "int (card (users x s - {q})) = int (card (users x s)) + (if cq_channel cq = Some x then - 1 else 0)" for x
    proof (cases "q \<in> users x s")
      case True
      then have "0 < card (users x s)" using counts_okE(2) [OF ok, of x] by (auto simp: card_gt_0_iff)
      with True own show ?thesis by (simp add: card_Diff_singleton)
    qed (simp add: own)
    show ?thesis
      using counts_okD [OF ok] counts_okE(1) [OF ok]
      by (intro bump_counts(1) [OF bump]) (simp_all only: u card, auto)
  qed
qed

lemma step_counts: "cq_step ops abi s s' \<Longrightarrow> counts_ok s \<Longrightarrow> counts_ok s'"
proof (induction rule: cq_step.induct)
  case (resize_cq q cqe s r s')
  then obtain cq where cq: "cqs s q = Some cq" by (auto simp: ibv_resize_cq_def bindC_eq_ret)
  show ?case
  proof (cases "cq_resize_op ops")
    case None
    with resize_cq cq show ?thesis by (simp add: ibv_resize_cq_def)
  next
    case (Some f)
    obtain a n w where "f q cqe (cq_world s) = (a, n, w)" by (metis prod_cases3)
    with resize_cq cq Some have "s' = s\<lparr>cq_world := w, cqs := (cqs s)(q \<mapsto> cq\<lparr>cq_cqe := n\<rparr>)\<rparr>"
      by (simp add: ibv_resize_cq_def)
    then show ?thesis by (intro counts_keep_channel [OF resize_cq(2) cq, of "cq\<lparr>cq_cqe := n\<rparr>"]) simp_all
  qed
next
  case (get_event c s e s')
  then obtain ch where ch: "channels s c = Some ch" by (auto simp: ibv_get_cq_event_def bindC_eq_ret)
  obtain ev w where "read_event_op ops (ch_fd ch) (cq_world s) = (ev, w)" by fastforce
  with get_event ch have "cqs s' = cqs s \<and> channels s' = channels s"
    by (cases ev) (auto simp: ibv_get_cq_event_def bindC_eq_ret)
  with get_event(2) counts_cong show ?case by blast
next
  case (ack_events q n s s')
  then obtain cq where cq: "cqs s q = Some cq"
      "s' = s\<lparr>cqs := (cqs s)(q \<mapsto> cq\<lparr>comp_events_completed := comp_events_completed cq + n\<rparr>)\<rparr>"
    by (auto simp: ibv_ack_cq_events_def bindC_eq_ret)
  from counts_keep_channel [OF ack_events(2) cq(1), of _ s'] cq(2) show ?case by simp
qed (blast intro: create_channel_counts destroy_channel_counts create_cq_counts destroy_cq_counts)+

lemma reach_counts: "cq_reach ops abi s \<Longrightarrow> counts_ok s"
proof (induction rule: cq_reach.induct)
  case (cq_init s fd)
  then show ?case by (intro counts_okI) (auto simp: users_def split: if_splits)
qed (rule step_counts)

text \<open>
  C18: the reference count of a completion channel. In every state a client can reach by creating and
  destroying channels and queues, resizing queues and taking and acknowledging events, the count of
  a channel is the number of the queues that report to it, and no queue in use reports to a channel
  that was freed.
\<close>

theorem channel_refcnt:
  assumes "cq_reach ops abi s"
  shows "(\<exists>ch. channels s c = Some ch \<and> ch_refcnt ch = int (card (users c s))) \<or>
    (channels s c = None \<and> users c s = {})"
  using reach_counts [OF assms] by (cases "channels s c") (simp_all add: counts_ok_def)

text \<open>
  C26: a completion channel goes exactly when it is no longer used. In every state a client reaches,
  destroying a channel gives \<^verbatim>\<open>EBUSY\<close> and changes nothing when some queue reports to it, and
  succeeds otherwise; and destroying a queue that exists never follows a dangling pointer.
\<close>

theorem destroy_channel_busy:
  assumes "cq_reach ops abi s" and "channels s c = Some ch" and "cqs s q = Some cq"
  shows "(if users c s = {} then
       \<exists>s'. ibv_destroy_comp_channel ops abi c s = ret (0, s') \<and> cqs s' = cqs s \<and>
         (if abi \<le> 2 then \<not> v2_in_use s' else channels s' = (channels s)(c := None))
     else ibv_destroy_comp_channel ops abi c s = ret (EBUSY, s)) \<and>
    (\<exists>r s'. ibv_destroy_cq ops q s = ret (r, s'))"
proof -
  have ok: "counts_ok s" by (rule reach_counts [OF assms(1)])
  have "ch_refcnt ch = 0 \<longleftrightarrow> users c s = {}" using counts_okD(1) [OF ok assms(2)] counts_okE(2) [OF ok, of c] by simp
  moreover have "\<exists>r s'. ibv_destroy_cq ops q s = ret (r, s')"
  proof (cases "cq_channel cq")
    case (Some p)
    with counts_alive [OF ok assms(3)] obtain h where "channels s p = Some h" by blast
    with Some assms(3) show ?thesis
      by (simp add: ibv_destroy_cq_def lock_channel_def bump_refcnt_def Let_def split: prod.split)
  qed (use assms(3) in \<open>simp add: ibv_destroy_cq_def lock_channel_def bump_refcnt_def Let_def split: prod.split\<close>)
  ultimately show ?thesis
    using assms(2) by (auto simp: ibv_destroy_comp_channel_def ibv_destroy_comp_channel_v2_def)
qed

text \<open>A system in which everything succeeds, with addresses and descriptors counted up.\<close>

definition easy_cq :: "nat cq_ops" where
  "easy_cq = \<lparr>malloc_op = (\<lambda>w. (Some w, w + 1)), create_channel_cmd = (\<lambda>w. (Some (int w), w + 1)),
     close_op = (\<lambda>_ w. w), read_event_op = (\<lambda>_ w. (None, w)), cq_create_op = (\<lambda>cqe _ _ w. (Some (w, cqe), w + 1)),
     cq_resize_op = None, cq_destroy_op = (\<lambda>_ w. (0, w)), cq_event_op = None\<rparr>"

definition cq_start :: "nat cq_state" where
  "cq_start = \<lparr>channels = Map.empty(Compat \<mapsto> \<lparr>ch_fd = 9, ch_refcnt = 0\<rparr>), cqs = Map.empty,
     v2_in_use = False, v2_warned = False, cq_world = 0\<rparr>"

definition cq_one :: "nat cq_state" where
  "cq_one = \<lparr>channels = Map.empty(Compat \<mapsto> \<lparr>ch_fd = 9, ch_refcnt = 0\<rparr>, Chan 0 \<mapsto> \<lparr>ch_fd = 1, ch_refcnt = 1\<rparr>),
     cqs = Map.empty(2 \<mapsto> \<lparr>cq_channel = Some (Chan 0), cq_cq_context = 5, cq_cqe = 1023,
       comp_events_completed = 0, async_events_completed = 0\<rparr>),
     v2_in_use = False, v2_warned = False, cq_world = 3\<rparr>"

lemma cq_one_reach: "cq_reach easy_cq 6 cq_one"
proof -
  have "cq_reach easy_cq 6 cq_start" by (rule cq_init [of _ 9]) (simp_all add: cq_start_def)
  moreover have "cq_step easy_cq 6 cq_start (cq_start\<lparr>cq_world := 2,
      channels := (channels cq_start)(Chan 0 \<mapsto> \<lparr>ch_fd = 1, ch_refcnt = 0\<rparr>)\<rparr>)"
    by (rule create_channel [of _ _ _ "Some (Chan 0)"])
      (simp_all add: ibv_create_comp_channel_def easy_cq_def cq_start_def)
  moreover have "cq_step easy_cq 6 (cq_start\<lparr>cq_world := 2,
      channels := (channels cq_start)(Chan 0 \<mapsto> \<lparr>ch_fd = 1, ch_refcnt = 0\<rparr>)\<rparr>) cq_one"
    by (rule create_cq [of _ 64 5 "Some (Chan 0)" 0 _ "Some 2"])
      (simp_all add: ibv_create_cq_def bump_refcnt_def easy_cq_def cq_start_def cq_one_def)
  ultimately show ?thesis by (blast intro: cq_more)
qed

theorem channel_refcnt_witness: "1 = int (card (users (Chan 0) cq_one))"
  using channel_refcnt [OF cq_one_reach, of "Chan 0"] by (auto simp: cq_one_def)

theorem destroy_channel_busy_witness: "ibv_destroy_comp_channel easy_cq 6 (Chan 0) cq_one = ret (EBUSY, cq_one)"
proof -
  have "users (Chan 0) cq_one \<noteq> {}" by (auto simp: users_def cq_one_def)
  moreover have "channels cq_one (Chan 0) = Some \<lparr>ch_fd = 1, ch_refcnt = 1\<rparr>"
    "\<exists>cq. cqs cq_one 2 = Some cq" by (simp_all add: cq_one_def)
  ultimately show ?thesis using destroy_channel_busy [OF cq_one_reach, of "Chan 0"] by auto
qed

end
