(* ===== verification/Ibv_Mr.thy ===== *)
theory Ibv_Mr
  imports Mprud_Setup "HOL-Library.Multiset"
begin

unbundle bit_operations_syntax

section \<open>Changing and giving back memory regions\<close>

text \<open>
  \<^verbatim>\<open>libibverbs-41mlnx1/src/verbs.c\<close>: \<^verbatim>\<open>__ibv_rereg_mr\<close> and
  \<^verbatim>\<open>__ibv_dereg_mr\<close>. The driver's operations extend the record of the operations for
  registration; a driver may change the keys of the region it re-registers.
\<close>

record 'w mr_verbs = "'w verbs" +
  rereg_mr_op :: "(ibv_mr \<Rightarrow> int \<Rightarrow> ibv_pd option \<Rightarrow> u64 \<Rightarrow> u64 \<Rightarrow> int \<Rightarrow> 'w \<Rightarrow> int \<times> ibv_mr \<times> 'w) option"
  drv_exp_dereg_mr_op :: "(ibv_mr \<Rightarrow> 'w \<Rightarrow> int \<times> bool \<times> 'w) option"
  dereg_mr_op :: "ibv_mr \<Rightarrow> 'w \<Rightarrow> int \<times> 'w"

definition IBV_REREG_MR_CHANGE_TRANSLATION :: int where "IBV_REREG_MR_CHANGE_TRANSLATION = push_bit 0 1"
definition IBV_REREG_MR_CHANGE_PD :: int where "IBV_REREG_MR_CHANGE_PD = push_bit 1 1"
definition IBV_REREG_MR_CHANGE_ACCESS :: int where "IBV_REREG_MR_CHANGE_ACCESS = push_bit 2 1"
definition IBV_REREG_MR_KEEP_VALID :: int where "IBV_REREG_MR_KEEP_VALID = push_bit 3 1"
definition IBV_REREG_MR_FLAGS_SUPPORTED :: int where
  "IBV_REREG_MR_FLAGS_SUPPORTED = push_bit 1 IBV_REREG_MR_KEEP_VALID - 1"

lemmas rereg_flags = IBV_REREG_MR_CHANGE_TRANSLATION_def IBV_REREG_MR_CHANGE_PD_def
  IBV_REREG_MR_CHANGE_ACCESS_def IBV_REREG_MR_KEEP_VALID_def IBV_REREG_MR_FLAGS_SUPPORTED_def

text \<open>The result of a re-registration; a driver's answer 0 is success.\<close>

datatype rereg_result = REREG_OK | IBV_REREG_MR_ERR_INPUT | IBV_REREG_MR_ERR_DONT_FORK_NEW
  | IBV_REREG_MR_ERR_DO_FORK_OLD | IBV_REREG_MR_ERR_CMD | IBV_REREG_MR_ERR_CMD_AND_DO_FORK_NEW

definition has :: "int \<Rightarrow> int \<Rightarrow> bool" where
  "has flags f \<longleftrightarrow> flags AND f \<noteq> 0"

definition rereg_input_ok :: "int \<Rightarrow> u64 \<Rightarrow> u64 \<Rightarrow> int \<Rightarrow> bool" where
  "rereg_input_ok flags addr len acc \<longleftrightarrow>
     flags AND NOT IBV_REREG_MR_FLAGS_SUPPORTED = 0 \<and>
     \<not> (has flags IBV_REREG_MR_CHANGE_TRANSLATION \<and> (len = 0 \<or> addr = 0)) \<and>
     \<not> (acc \<noteq> 0 \<and> \<not> has flags IBV_REREG_MR_CHANGE_ACCESS)"

definition ibv_rereg_mr :: "'w mr_verbs \<Rightarrow> ibv_mr \<Rightarrow> int \<Rightarrow> ibv_pd option \<Rightarrow> u64 \<Rightarrow> u64 \<Rightarrow> int \<Rightarrow> 'w \<Rightarrow>
    rereg_result \<times> ibv_mr \<times> 'w" where
  "ibv_rereg_mr ops mr flags pd addr len acc w =
    (if \<not> rereg_input_ok flags addr len acc then (IBV_REREG_MR_ERR_INPUT, mr, w)
     else case rereg_mr_op ops of
       None \<Rightarrow> (IBV_REREG_MR_ERR_INPUT, mr, w)
     | Some rereg \<Rightarrow>
        (let trans = has flags IBV_REREG_MR_CHANGE_TRANSLATION;
             (err0, w0) = (if trans then dontfork_op ops addr len w else (0, w))
         in if err0 \<noteq> 0 then (IBV_REREG_MR_ERR_DONT_FORK_NEW, mr, w0)
            else case rereg mr flags pd addr len acc w0 of (err, mr1, w1) \<Rightarrow>
              if err = 0 then
                let mr2 = (if has flags IBV_REREG_MR_CHANGE_PD then mr1\<lparr>mr_pd := pd\<rparr> else mr1)
                in if trans then
                     let mr3 = mr2\<lparr>mr_addr := addr, mr_length := len\<rparr>;
                         (err2, w2) = dofork_op ops (mr_addr mr) (mr_length mr) w1
                     in (if err2 \<noteq> 0 then IBV_REREG_MR_ERR_DO_FORK_OLD else REREG_OK, mr3, w2)
                   else (REREG_OK, mr2, w1)
              else if trans then
                let (err2, w2) = dofork_op ops addr len w1
                in (if err2 \<noteq> 0 then IBV_REREG_MR_ERR_CMD_AND_DO_FORK_NEW else IBV_REREG_MR_ERR_CMD, mr1, w2)
              else (IBV_REREG_MR_ERR_CMD, mr1, w1)))"

definition ibv_dereg_mr :: "'w mr_verbs \<Rightarrow> ibv_mr \<Rightarrow> 'w \<Rightarrow> int \<times> 'w" where
  "ibv_dereg_mr ops mr w =
    (let (r, need_dofork, w1) = (case drv_exp_dereg_mr_op ops of
           Some f \<Rightarrow> f mr w
         | None \<Rightarrow> (case dereg_mr_op ops mr w of (r, w1) \<Rightarrow> (r, True, w1)))
     in if r = 0 \<and> need_dofork then (r, snd (dofork_op ops (mr_addr mr) (mr_length mr) w1)) else (r, w1))"

subsection \<open>Ranges kept from the children\<close>

text \<open>
  \<open>ranges\<close> are the ranges that the library has had kept from children, through
  \<^verbatim>\<open>ibv_dontfork_range\<close>, and not given back; \<open>trouble\<close> tells that one of the calls
  has failed before. Calls that a driver makes for memory it allocates itself are on its own account.
  A successful \<^verbatim>\<open>ibv_dontfork_range\<close> adds its range, a successful
  \<^verbatim>\<open>ibv_dofork_range\<close> of a range that is there takes it away; of what a failing call leaves,
  and of giving back a range that is not there, nothing is said. The driver's operations leave the
  account of the library alone, and a re-registration by the driver leaves the place of the region to it.
\<close>

definition driver_apart :: "('w \<Rightarrow> (u64 \<times> u64) multiset) \<Rightarrow> ('w \<Rightarrow> bool) \<Rightarrow> 'w \<Rightarrow> 'w \<Rightarrow> bool" where
  "driver_apart ranges trouble w w' \<longleftrightarrow> ranges w' = ranges w \<and> (trouble w \<longrightarrow> trouble w')"

definition fork_calls :: "'w mr_verbs \<Rightarrow> ('w \<Rightarrow> (u64 \<times> u64) multiset) \<Rightarrow> ('w \<Rightarrow> bool) \<Rightarrow> bool" where
  "fork_calls ops ranges trouble \<longleftrightarrow>
     (\<forall>a l w r w'. dontfork_op ops a l w = (r, w') \<longrightarrow> (trouble w \<or> r \<noteq> 0 \<longrightarrow> trouble w') \<and>
        (r = 0 \<longrightarrow> ranges w' = add_mset (a, l) (ranges w))) \<and>
     (\<forall>a l w r w'. dofork_op ops a l w = (r, w') \<longrightarrow> (trouble w \<or> r \<noteq> 0 \<longrightarrow> trouble w') \<and>
        (r = 0 \<longrightarrow> (a, l) \<in># ranges w \<longrightarrow> ranges w' = ranges w - {#(a, l)#})) \<and>
     (\<forall>pd a l acc w r w'. reg_mr_op ops pd a l acc w = (r, w') \<longrightarrow> driver_apart ranges trouble w w') \<and>
     (\<forall>f inp w r w'. drv_exp_reg_mr_op ops = Some f \<longrightarrow> f inp w = (r, w') \<longrightarrow> driver_apart ranges trouble w w') \<and>
     (\<forall>f mr flags pd a l acc w r mr' w'. rereg_mr_op ops = Some f \<longrightarrow> f mr flags pd a l acc w = (r, mr', w') \<longrightarrow>
        driver_apart ranges trouble w w' \<and> mr_pd mr' = mr_pd mr \<and> mr_addr mr' = mr_addr mr \<and> mr_length mr' = mr_length mr) \<and>
     (\<forall>f mr w r need w'. drv_exp_dereg_mr_op ops = Some f \<longrightarrow> f mr w = (r, need, w') \<longrightarrow> driver_apart ranges trouble w w') \<and>
     (\<forall>mr w r w'. dereg_mr_op ops mr w = (r, w') \<longrightarrow> driver_apart ranges trouble w w')"

lemma fork_callsD:
  assumes "fork_calls ops ranges trouble"
  shows "dontfork_op ops a l w = (r, w') \<Longrightarrow> (trouble w \<or> r \<noteq> 0 \<longrightarrow> trouble w') \<and>
        (r = 0 \<longrightarrow> ranges w' = add_mset (a, l) (ranges w))"
    and "dofork_op ops a l w = (r, w') \<Longrightarrow> (trouble w \<or> r \<noteq> 0 \<longrightarrow> trouble w') \<and>
        (r = 0 \<longrightarrow> (a, l) \<in># ranges w \<longrightarrow> ranges w' = ranges w - {#(a, l)#})"
    and "reg_mr_op ops pd a l acc' w = (m, w') \<Longrightarrow> driver_apart ranges trouble w w'"
    and "drv_exp_reg_mr_op ops = Some h \<Longrightarrow> h inp w = (m, w') \<Longrightarrow> driver_apart ranges trouble w w'"
    and "rereg_mr_op ops = Some f \<Longrightarrow> f mr flags pd' a l acc w = (r, mr', w') \<Longrightarrow>
      driver_apart ranges trouble w w' \<and> mr_pd mr' = mr_pd mr \<and> mr_addr mr' = mr_addr mr \<and> mr_length mr' = mr_length mr"
    and "drv_exp_dereg_mr_op ops = Some g \<Longrightarrow> g mr w = (r, need, w') \<Longrightarrow> driver_apart ranges trouble w w'"
    and "dereg_mr_op ops mr w = (r, w') \<Longrightarrow> driver_apart ranges trouble w w'"
proof -
  note D = assms [unfolded fork_calls_def]
  show "dontfork_op ops a l w = (r, w') \<Longrightarrow> (trouble w \<or> r \<noteq> 0 \<longrightarrow> trouble w') \<and>
        (r = 0 \<longrightarrow> ranges w' = add_mset (a, l) (ranges w))" using D [THEN conjunct1] by blast
  note D = D [THEN conjunct2]
  show "dofork_op ops a l w = (r, w') \<Longrightarrow> (trouble w \<or> r \<noteq> 0 \<longrightarrow> trouble w') \<and>
        (r = 0 \<longrightarrow> (a, l) \<in># ranges w \<longrightarrow> ranges w' = ranges w - {#(a, l)#})" using D [THEN conjunct1] by blast
  note D = D [THEN conjunct2]
  show "reg_mr_op ops pd a l acc' w = (m, w') \<Longrightarrow> driver_apart ranges trouble w w'" using D [THEN conjunct1] by blast
  note D = D [THEN conjunct2]
  show "drv_exp_reg_mr_op ops = Some h \<Longrightarrow> h inp w = (m, w') \<Longrightarrow> driver_apart ranges trouble w w'"
    using D [THEN conjunct1] by blast
  note D = D [THEN conjunct2]
  show "rereg_mr_op ops = Some f \<Longrightarrow> f mr flags pd' a l acc w = (r, mr', w') \<Longrightarrow>
      driver_apart ranges trouble w w' \<and> mr_pd mr' = mr_pd mr \<and> mr_addr mr' = mr_addr mr \<and> mr_length mr' = mr_length mr"
    using D [THEN conjunct1] by blast
  note D = D [THEN conjunct2]
  show "drv_exp_dereg_mr_op ops = Some g \<Longrightarrow> g mr w = (r, need, w') \<Longrightarrow> driver_apart ranges trouble w w'"
    using D [THEN conjunct1] by blast
  show "dereg_mr_op ops mr w = (r, w') \<Longrightarrow> driver_apart ranges trouble w w'" using D [THEN conjunct2] by blast
qed

text \<open>Which registrations are kept from children by the library.\<close>

definition marks :: "ibv_exp_reg_mr_in \<Rightarrow> bool" where
  "marks inp \<longleftrightarrow> \<not> is_odp inp \<and> \<not> is_contig inp \<and> \<not> is_pa inp \<and> \<not> is_dm inp"

text \<open>The ranges on account of a region: its own, when it is one of these.\<close>

definition with_region :: "bool \<Rightarrow> ibv_mr \<Rightarrow> (u64 \<times> u64) multiset \<Rightarrow> (u64 \<times> u64) multiset" where
  "with_region b mr r0 = (if b then add_mset (mr_addr mr, mr_length mr) r0 else r0)"

lemma reg_mr_ranges:
  assumes calls: "fork_calls ops ranges trouble" and exp: "exp = None \<or> exp = drv_exp_reg_mr_op ops"
    and reg: "common_reg_mr (verbs.truncate ops) exp inp w = (Some mr, w')" and calm: "\<not> trouble w'"
    and plain: "rin_exp_access inp AND IBV_EXP_ACCESS_RELAXED = 0"
  shows "ranges w' = with_region (marks inp) mr (ranges w) \<and> \<not> trouble w"
proof -
  obtain e w1 where d: "(if marks inp then dontfork_op ops (rin_addr inp) (rin_length inp) w else (0, w)) = (e, w1)" by fastforce
  obtain m w2 where c: "(case exp of Some f \<Rightarrow> f inp w1
      | None \<Rightarrow> reg_mr_op ops (rin_pd inp) (rin_addr inp) (rin_length inp) (rin_exp_access inp) w1) = (m, w2)" by fastforce
  have run: "e = 0" "mr = fill_mr inp (the m)" "w' = w2"
    using reg d c unfolding common_reg_mr_def marks_def
    by (auto simp: Let_def verbs.truncate_def split: if_splits option.splits)
  have apart: "driver_apart ranges trouble w1 w2"
  proof (cases exp)
    case None
    then show ?thesis using c fork_callsD(3) [OF calls] by simp
  next
    case (Some f)
    then have "drv_exp_reg_mr_op ops = Some f" "f inp w1 = (m, w2)" using c exp by auto
    then show ?thesis by (rule fork_callsD(4) [OF calls])
  qed
  then have calm1: "\<not> trouble w1" using calm run(3) by (auto simp: driver_apart_def)
  have place: "mr_addr mr = rin_addr inp" "mr_length mr = rin_length inp" if "marks inp"
    using that plain run(2) by (auto simp: fill_mr_def Let_def marks_def is_contig_def)
  show ?thesis
  proof (cases "marks inp")
    case True
    then have "dontfork_op ops (rin_addr inp) (rin_length inp) w = (0, w1)" using d run(1) by simp
    from fork_callsD(1) [OF calls this] show ?thesis
      using True apart calm1 place run(3) by (auto simp: with_region_def driver_apart_def)
  next
    case False
    then show ?thesis using d apart calm1 run(3) by (auto simp: with_region_def driver_apart_def)
  qed
qed

subsection \<open>Changing a region\<close>

text \<open>
  The result of a re-registration tells what the region is now: on success it
  has the new domain and place as far as the flags ask for them, else it is where it was. While no
  fork call fails, its range is the one kept from children.
\<close>

lemma rereg_mr_result:
  assumes calls: "fork_calls ops ranges trouble" and re: "ibv_rereg_mr ops mr flags pd addr len acc w = (r, mr', w')"
    and calm: "\<not> trouble w'" and r0: "ranges w = with_region b mr r0"
    and moves: "b \<or> \<not> has flags IBV_REREG_MR_CHANGE_TRANSLATION"
  shows "ranges w' = with_region b mr' r0 \<and> \<not> trouble w \<and>
    (if r = REREG_OK then mr_pd mr' = (if has flags IBV_REREG_MR_CHANGE_PD then pd else mr_pd mr) \<and>
       (mr_addr mr', mr_length mr') = (if has flags IBV_REREG_MR_CHANGE_TRANSLATION then (addr, len) else (mr_addr mr, mr_length mr))
     else (mr_addr mr', mr_length mr') = (mr_addr mr, mr_length mr))"
proof (cases "rereg_input_ok flags addr len acc \<and> rereg_mr_op ops \<noteq> None")
  case True
  then obtain f where f: "rereg_mr_op ops = Some f" and ok: "rereg_input_ok flags addr len acc" by auto
  note D = fork_callsD [OF calls]
  show ?thesis
  proof (cases "has flags IBV_REREG_MR_CHANGE_TRANSLATION")
    case trans: True
    then have b: "ranges w = add_mset (mr_addr mr, mr_length mr) r0" using moves r0 by (simp add: with_region_def)
    obtain e0 w0 where d: "dontfork_op ops addr len w = (e0, w0)" by fastforce
    obtain e1 mr1 w1 where g: "f mr flags pd addr len acc w0 = (e1, mr1, w1)" by (metis prod_cases3)
    obtain e2 w2 where o: "dofork_op ops (mr_addr mr) (mr_length mr) w1 = (e2, w2)" by fastforce
    obtain e3 w3 where n: "dofork_op ops addr len w1 = (e3, w3)" by fastforce
    note eff = D(1) [OF d] D(5) [OF f g] D(2) [OF o] D(2) [OF n]
    have e0: "e0 = 0"
    proof (rule ccontr)
      assume "e0 \<noteq> 0"
      then have "w' = w0" using re f ok trans d by (simp add: ibv_rereg_mr_def Let_def)
      with \<open>e0 \<noteq> 0\<close> eff(1) calm show False by blast
    qed
    show ?thesis
    proof (cases "e1 = 0")
      case True
      then have "w' = w2" "r = (if e2 \<noteq> 0 then IBV_REREG_MR_ERR_DO_FORK_OLD else REREG_OK)"
        "mr' = (if has flags IBV_REREG_MR_CHANGE_PD then mr1\<lparr>mr_pd := pd\<rparr> else mr1)\<lparr>mr_addr := addr, mr_length := len\<rparr>"
        using re f ok trans d g o e0 by (simp_all add: ibv_rereg_mr_def Let_def)
      then show ?thesis using eff e0 calm b trans moves by (auto simp: driver_apart_def with_region_def)
    next
      case False
      then have "w' = w3" "mr' = mr1" "r \<noteq> REREG_OK"
        using re f ok trans d g n e0 by (auto simp: ibv_rereg_mr_def Let_def split: if_splits)
      then show ?thesis using eff e0 calm b trans moves by (auto simp: driver_apart_def with_region_def)
    qed
  next
    case False
    obtain e1 mr1 w1 where g: "f mr flags pd addr len acc w = (e1, mr1, w1)" by (metis prod_cases3)
    have "w' = w1" "mr' = (if e1 = 0 \<and> has flags IBV_REREG_MR_CHANGE_PD then mr1\<lparr>mr_pd := pd\<rparr> else mr1)"
      "r = (if e1 = 0 then REREG_OK else IBV_REREG_MR_ERR_CMD)"
      using re f ok False g by (auto simp: ibv_rereg_mr_def Let_def split: if_splits)
    then show ?thesis using D(5) [OF f g] False calm r0 by (auto simp: driver_apart_def with_region_def)
  qed
next
  case False
  then have "r = IBV_REREG_MR_ERR_INPUT" "mr' = mr" "w' = w" using re by (auto simp: ibv_rereg_mr_def split: option.splits if_splits)
  then show ?thesis using r0 calm by simp
qed

text \<open>A region that is re-registered again and again; the results, in order.\<close>

type_synonym rereg_request = "int \<times> ibv_pd option \<times> u64 \<times> u64 \<times> int"

fun rereg_all :: "'w mr_verbs \<Rightarrow> rereg_request list \<Rightarrow> ibv_mr \<times> 'w \<Rightarrow> rereg_result list \<times> ibv_mr \<times> 'w" where
  "rereg_all ops [] (mr, w) = ([], mr, w)"
| "rereg_all ops ((flags, pd, a, l, acc) # xs) (mr, w) =
    (case ibv_rereg_mr ops mr flags pd a l acc w of (r, mr1, w1) \<Rightarrow>
     case rereg_all ops xs (mr1, w1) of (rs, p) \<Rightarrow> (r # rs, p))"

definition moves :: "rereg_request \<Rightarrow> bool" where
  "moves x \<longleftrightarrow> has (fst x) IBV_REREG_MR_CHANGE_TRANSLATION"

lemma rereg_mr_trouble:
  assumes "fork_calls ops ranges trouble" and "ibv_rereg_mr ops mr flags pd addr len acc w = (r, mr', w')" and "trouble w"
  shows "trouble w'"
proof -
  note D = fork_callsD [OF assms(1)]
  obtain e0 w0 where d: "dontfork_op ops addr len w = (e0, w0)" by fastforce
  have step: "trouble w2" if "rereg_mr_op ops = Some f" "f mr flags pd addr len acc v = (e1, mr1, w1)" "trouble v"
      "w2 = w1 \<or> dofork_op ops a l w1 = (e2, w2)" for f v e1 mr1 w1 a l e2 w2
    using D(5) [OF that(1,2)] D(2) [of a l w1 e2 w2] that(3,4) by (auto simp: driver_apart_def)
  show ?thesis
    using assms(2,3) d D(1) [OF d] step
    by (auto simp: ibv_rereg_mr_def Let_def split: if_splits option.splits prod.splits) metis+
qed

lemma rereg_all_trouble:
  assumes "fork_calls ops ranges trouble" and "rereg_all ops xs (mr, w) = (rs, mr', w')" and "trouble w"
  shows "trouble w'"
  using assms(2,3)
proof (induction xs arbitrary: mr w rs)
  case (Cons x xs)
  obtain flags pd a l acc where x: "x = (flags, pd, a, l, acc)" by (metis prod_cases5)
  obtain r mr1 w1 where r: "ibv_rereg_mr ops mr flags pd a l acc w = (r, mr1, w1)" by (metis prod_cases3)
  obtain rs1 where "rereg_all ops xs (mr1, w1) = (rs1, mr', w')" using Cons.prems(1) x r by (auto split: prod.splits)
  then show ?case using Cons.IH rereg_mr_trouble [OF assms(1) r Cons.prems(2)] by blast
qed auto

lemma rereg_all_ranges:
  assumes calls: "fork_calls ops ranges trouble" and "rereg_all ops xs (mr, w) = (rs, mr', w')"
    and "\<not> trouble w'" and "ranges w = with_region b mr r0" and "b \<or> (\<forall>x \<in> set xs. \<not> moves x)"
  shows "ranges w' = with_region b mr' r0 \<and> \<not> trouble w"
  using assms(2-5)
proof (induction xs arbitrary: mr w rs)
  case (Cons x xs)
  obtain flags pd a l acc where x: "x = (flags, pd, a, l, acc)" by (metis prod_cases5)
  obtain r mr1 w1 where r: "ibv_rereg_mr ops mr flags pd a l acc w = (r, mr1, w1)" by (metis prod_cases3)
  obtain rs1 where rs1: "rereg_all ops xs (mr1, w1) = (rs1, mr', w')" "rs = r # rs1"
    using Cons.prems(1) x r by (auto split: prod.splits)
  have ok: "b \<or> \<not> has flags IBV_REREG_MR_CHANGE_TRANSLATION" "b \<or> (\<forall>x \<in> set xs. \<not> moves x)"
    using Cons.prems(4) x by (auto simp: moves_def)
  have calm1: "\<not> trouble w1" using rereg_all_trouble [OF calls rs1(1)] Cons.prems(2) by blast
  note res = rereg_mr_result [OF calls r calm1 Cons.prems(3) ok(1)]
  then show ?case using Cons.IH [OF rs1(1) Cons.prems(2) _ ok(2)] by blast
qed auto

subsection \<open>Giving back a region\<close>

text \<open>
  Whether a driver's answer to giving back a region says that its range is to be given back;
  without the extended operation it always is.
\<close>

definition tells_dofork :: "'w mr_verbs \<Rightarrow> ibv_mr \<Rightarrow> 'w \<Rightarrow> bool" where
  "tells_dofork ops mr w = (case drv_exp_dereg_mr_op ops of Some f \<Rightarrow> fst (snd (f mr w)) | None \<Rightarrow> True)"

lemma dereg_mr_ranges:
  assumes calls: "fork_calls ops ranges trouble" and de: "ibv_dereg_mr ops mr w = (r, w')"
    and calm: "\<not> trouble w'" and r0: "ranges w = with_region b mr r0" and told: "tells_dofork ops mr w = b"
  shows "ranges w' = (if r = 0 then r0 else ranges w) \<and> \<not> trouble w"
proof -
  note D = fork_callsD [OF calls]
  obtain e w1 where e: "(case drv_exp_dereg_mr_op ops of Some f \<Rightarrow> f mr w
      | None \<Rightarrow> (case dereg_mr_op ops mr w of (r, w1) \<Rightarrow> (r, True, w1))) = (e, b, w1)"
  proof (cases "drv_exp_dereg_mr_op ops")
    case None
    with told show ?thesis by (auto simp: tells_dofork_def case_prod_unfold intro: that)
  next
    case (Some f)
    obtain e n w1 where f: "f mr w = (e, n, w1)" by (metis prod_cases3)
    with told Some show ?thesis by (auto simp: tells_dofork_def intro: that [of e w1])
  qed
  have apart: "driver_apart ranges trouble w w1"
    using e D(6,7) by (auto split: option.splits prod.splits)
  obtain e2 w2 where o: "dofork_op ops (mr_addr mr) (mr_length mr) w1 = (e2, w2)" by fastforce
  have eq: "r = e" "w' = (if e = 0 \<and> b then w2 else w1)"
    using de o unfolding ibv_dereg_mr_def e by (auto simp: Let_def split: if_splits)
  show ?thesis using D(2) [OF o] apart eq calm r0 by (auto simp: driver_apart_def with_region_def split: if_splits)
qed

lemma dereg_mr_trouble:
  assumes calls: "fork_calls ops ranges trouble" and de: "ibv_dereg_mr ops mr w = (r, w')" and "trouble w"
  shows "trouble w'"
proof -
  note D = fork_callsD [OF calls]
  obtain e b w1 where e: "(case drv_exp_dereg_mr_op ops of Some f \<Rightarrow> f mr w
      | None \<Rightarrow> (case dereg_mr_op ops mr w of (r, w1) \<Rightarrow> (r, True, w1))) = (e, b, w1)" by (metis prod_cases3)
  have "driver_apart ranges trouble w w1" using e D(6,7) by (auto split: option.splits prod.splits)
  moreover obtain e2 w2 where o: "dofork_op ops (mr_addr mr) (mr_length mr) w1 = (e2, w2)" by fastforce
  ultimately show ?thesis using D(2) [OF o] de assms(3) unfolding ibv_dereg_mr_def e
    by (auto simp: driver_apart_def Let_def split: if_splits)
qed

text \<open>
  C24: a region leaves no range behind. It is registered through the library, any number of times
  re-registered, with whatever results, and given back. While it is held, exactly its present range
  is kept from children on its account when it is one of those the library marks (neither on
  demand, nor allocated by the driver, nor of physical addresses, nor device memory), and none
  otherwise; when giving it back succeeds, the ranges are exactly those before it was
  registered, wherever it moved, and when that fails they stay. This holds as long as no fork
  call has failed, for a region whose place the driver does not choose
  (\<^verbatim>\<open>IBV_EXP_ACCESS_RELAXED\<close>), when the driver asks for giving the range back exactly for
  the regions that are marked (the mlx5 driver: \<open>mlx5_tells_marked\<close>, and \<open>mlx5_tells_unmarked\<close> for
  when it does not), and when a region that is not marked is not moved.
\<close>

theorem region_ranges_balanced:
  assumes calls: "fork_calls ops ranges trouble" and exp: "exp = None \<or> exp = drv_exp_reg_mr_op ops"
    and reg: "common_reg_mr (verbs.truncate ops) exp inp w0 = (Some mr, w)"
    and plain: "rin_exp_access inp AND IBV_EXP_ACCESS_RELAXED = 0"
    and re: "rereg_all ops xs (mr, w) = (rs, mr', w1)" and stay: "marks inp \<or> (\<forall>x \<in> set xs. \<not> moves x)"
    and told: "tells_dofork ops mr' w1 \<longleftrightarrow> marks inp" and de: "ibv_dereg_mr ops mr' w1 = (r, w2)"
    and calm: "\<not> trouble w2"
  shows "ranges w1 = with_region (marks inp) mr' (ranges w0) \<and> ranges w2 = (if r = 0 then ranges w0 else ranges w1)"
proof -
  have calm1: "\<not> trouble w1" using dereg_mr_trouble [OF calls de] calm by blast
  have calm0: "\<not> trouble w" using rereg_all_trouble [OF calls re] calm1 by blast
  from reg_mr_ranges [OF calls exp reg calm0 plain] have "ranges w = with_region (marks inp) mr (ranges w0)" by blast
  from rereg_all_ranges [OF calls re calm1 this stay] have r1: "ranges w1 = with_region (marks inp) mr' (ranges w0)" by blast
  show ?thesis using r1 dereg_mr_ranges [OF calls de calm r1 told] by blast
qed

text \<open>
  A world that is the ranges kept from children, with a driver that accepts everything; its region
  handle is 1 where the range is to be given back.
\<close>

definition range_verbs :: "(u64 \<times> u64) multiset mr_verbs" where
  "range_verbs = \<lparr>alloc_pd_op = (\<lambda>_ w. (None, w)), dealloc_pd_op = (\<lambda>_ w. (0, w)),
     drv_exp_reg_mr_op = Some (\<lambda>inp w. (Some \<lparr>mr_context = 0, mr_pd = None, mr_addr = 0x100000, mr_length = 0,
       mr_handle = (if marks inp then 1 else 0), mr_lkey = 7, mr_rkey = 8\<rparr>, w)),
     reg_mr_op = (\<lambda>_ _ _ _ w. (None, w)), dontfork_op = (\<lambda>a l w. (0, add_mset (a, l) w)),
     dofork_op = (\<lambda>a l w. (0, w - {#(a, l)#})), create_cq_op = (\<lambda>_ _ w. (None, w)),
     create_qp_op = (\<lambda>_ _ w. (None, w)), modify_qp_op = (\<lambda>_ _ _ w. (0, w)), destroy_qp_op = (\<lambda>_ w. (0, w)),
     create_ah_op = (\<lambda>_ _ w. (None, w)), destroy_ah_op = (\<lambda>_ w. (0, w)),
     rereg_mr_op = Some (\<lambda>mr _ _ _ _ _ w. (0, mr, w)),
     drv_exp_dereg_mr_op = Some (\<lambda>mr w. (0, mr_handle mr = 1, w)), dereg_mr_op = (\<lambda>_ w. (0, w))\<rparr>"

lemma range_verbs_calls: "fork_calls range_verbs id (\<lambda>_. False)"
  by (simp add: fork_calls_def range_verbs_def driver_apart_def)

text \<open>A region of the application's memory, and one allocated by the driver.\<close>

definition reg_in :: "u64 \<Rightarrow> u64 \<Rightarrow> u64 \<Rightarrow> ibv_exp_reg_mr_in" where
  "reg_in acc a l = \<lparr>rin_pd = \<lparr>pd_context = 0, pd_handle = 0\<rparr>, rin_addr = a, rin_length = l, rin_exp_access = acc,
     rin_comp_mask = 0, rin_create_flags = 0, rin_dm = None\<rparr>"

definition region :: "u64 \<Rightarrow> u64 \<Rightarrow> u32 \<Rightarrow> ibv_mr" where
  "region a l h = \<lparr>mr_context = 0, mr_pd = Some \<lparr>pd_context = 0, pd_handle = 0\<rparr>, mr_addr = a, mr_length = l,
     mr_handle = h, mr_lkey = 7, mr_rkey = 8\<rparr>"

lemmas reg_in_eval = reg_in_def marks_def is_odp_def is_contig_def is_pa_def is_dm_def is_shared_mr_def shared_mr_flags_def
  IBV_EXP_ACCESS_ALLOCATE_MR_def IBV_EXP_ACCESS_ON_DEMAND_def IBV_EXP_ACCESS_RELAXED_def
  IBV_EXP_ACCESS_PHYSICAL_ADDR_def exp_access_flag_def

theorem region_ranges_balanced_witness:
  "(\<exists>w mr mr'. common_reg_mr (verbs.truncate range_verbs) (drv_exp_reg_mr_op range_verbs) (reg_in 1 4096 64) {#(0, 1)#} = (Some mr, w) \<and>
     rereg_all range_verbs [(1, None, 8192, 128, 0), (16, None, 1, 1, 0)] (mr, w) = ([REREG_OK, IBV_REREG_MR_ERR_INPUT], mr', {#(8192, 128), (0, 1)#}) \<and>
     ibv_dereg_mr range_verbs mr' {#(8192, 128), (0, 1)#} = (0, {#(0, 1)#})) \<and>
   (\<exists>mr. common_reg_mr (verbs.truncate range_verbs) (drv_exp_reg_mr_op range_verbs) (reg_in IBV_EXP_ACCESS_ALLOCATE_MR 0 64) {#(0, 1)#} =
      (Some mr, {#(0, 1)#}) \<and> ibv_dereg_mr range_verbs mr {#(0, 1)#} = (0, {#(0, 1)#}))"
proof (intro conjI exI)
  let ?w = "{#(4096, 64), (0, 1)#} :: (u64 \<times> u64) multiset" and ?m = "region 4096 64 1" and ?n = "region 0x100000 64 0"
  show reg: "common_reg_mr (verbs.truncate range_verbs) (drv_exp_reg_mr_op range_verbs) (reg_in 1 4096 64) {#(0, 1)#} = (Some ?m, ?w)"
    by (simp add: common_reg_mr_def range_verbs_def verbs.truncate_def fill_mr_def region_def reg_in_eval Let_def)
  show re: "rereg_all range_verbs [(1, None, 8192, 128, 0), (16, None, 1, 1, 0)] (?m, ?w) =
      ([REREG_OK, IBV_REREG_MR_ERR_INPUT], region 8192 128 1, {#(8192, 128), (0, 1)#})"
    by (simp add: ibv_rereg_mr_def rereg_input_ok_def rereg_flags has_def range_verbs_def region_def)
  obtain r w2 where de: "ibv_dereg_mr range_verbs (region 8192 128 1) {#(8192, 128), (0, 1)#} = (r, w2)" by fastforce
  have "r = 0" using de by (simp add: ibv_dereg_mr_def range_verbs_def region_def)
  moreover from region_ranges_balanced [OF range_verbs_calls _ reg _ re _ _ de] \<open>r = 0\<close>
  have "id w2 = id {#(0, 1)#}" by (simp add: reg_in_eval tells_dofork_def range_verbs_def region_def)
  ultimately show "ibv_dereg_mr range_verbs (region 8192 128 1) {#(8192, 128), (0, 1)#} = (0, {#(0, 1)#})" using de by simp
  show reg': "common_reg_mr (verbs.truncate range_verbs) (drv_exp_reg_mr_op range_verbs) (reg_in IBV_EXP_ACCESS_ALLOCATE_MR 0 64) {#(0, 1)#} =
      (Some ?n, {#(0, 1)#})"
    by (simp add: common_reg_mr_def range_verbs_def verbs.truncate_def fill_mr_def region_def reg_in_eval Let_def)
  obtain r' w2' where de': "ibv_dereg_mr range_verbs ?n {#(0, 1)#} = (r', w2')" by fastforce
  have "rereg_all range_verbs [] (?n, {#(0, 1)#}) = ([], ?n, {#(0, 1)#})" by simp
  from region_ranges_balanced [OF range_verbs_calls _ reg' _ this _ _ de'] have "id w2' = id {#(0, 1)#}"
    by (simp add: reg_in_eval tells_dofork_def range_verbs_def region_def)
  moreover have "r' = 0" using de' by (simp add: ibv_dereg_mr_def range_verbs_def region_def)
  ultimately show "ibv_dereg_mr range_verbs ?n {#(0, 1)#} = (0, {#(0, 1)#})" using de' by simp
qed

end
