(* ===== verification/Mlx5_Mr.thy ===== *)
theory Mlx5_Mr
  imports Ibv_Mr Mlx5_Rq
begin

unbundle bit_operations_syntax

section \<open>Giving back a region in the driver\<close>

text \<open>
  \<^verbatim>\<open>mlx5_exp_dereg_mr\<close> and \<^verbatim>\<open>mlx5_dereg_mr\<close> of
  \<^verbatim>\<open>libmlx5-41mlnx1/src/verbs.c\<close>, and what \<^verbatim>\<open>mlx5_exp_reg_mr\<close> writes down of a region:
  the driver tells the library whether the range of the region is to be given back to child
  processes, and \<open>Ibv_Mr\<close> asks that it says so exactly for the regions that were marked. It
  does, but for regions of physical addresses and for buffers that were not contiguous after all.
\<close>

datatype mlx5_alloc_type = MLX5_ALLOC_TYPE_ANON | MLX5_ALLOC_TYPE_HUGE | MLX5_ALLOC_TYPE_CONTIG
  | MLX5_ALLOC_TYPE_PEER_DIRECT | MLX5_ALLOC_TYPE_PREFER_HUGE | MLX5_ALLOC_TYPE_PREFER_CONTIG | MLX5_ALLOC_TYPE_ALL

datatype mlx5_mr_type = MLX5_NORMAL_MR | MLX5_ODP_MR | MLX5_DM_MR

text \<open>The part of \<^verbatim>\<open>struct mlx5_mr\<close> behind the region of the verbs; of the buffer its kind and place.\<close>

record mlx5_mr =
  buf_type :: mlx5_alloc_type
  buf_buf :: u64
  buf_length :: u64
  alloc_flags :: u64
  mlx5_type :: mlx5_mr_type

definition IBV_EXP_ACCESS_NO_RDMA :: u64 where "IBV_EXP_ACCESS_NO_RDMA = exp_access_flag 12"

text \<open>
  The region as \<^verbatim>\<open>calloc\<close> and \<^verbatim>\<open>mlx5_exp_reg_mr\<close> leave it; \<open>buf\<close> is the
  buffer that \<^verbatim>\<open>alloc_buf\<close> found for a region the driver allocates.
\<close>

definition mlx5_new_mr :: "ibv_exp_reg_mr_in \<Rightarrow> mlx5_alloc_type \<times> u64 \<times> u64 \<Rightarrow> mlx5_mr" where
  "mlx5_new_mr inp buf =
    (let mr = \<lparr>buf_type = MLX5_ALLOC_TYPE_ANON, buf_buf = 0, buf_length = 0, alloc_flags = 0, mlx5_type = MLX5_NORMAL_MR\<rparr>;
         contig = rin_addr inp = 0 \<and> rin_exp_access inp AND IBV_EXP_ACCESS_ALLOCATE_MR \<noteq> 0 \<or>
           rin_comp_mask inp AND IBV_EXP_REG_MR_CREATE_FLAGS \<noteq> 0 \<and>
           rin_create_flags inp AND IBV_EXP_REG_MR_CREATE_CONTIG \<noteq> 0;
         mr = (if contig then (case buf of (t, a, l) \<Rightarrow>
                 mr\<lparr>buf_type := t, buf_buf := a, buf_length := l, alloc_flags := IBV_EXP_ACCESS_ALLOCATE_MR\<rparr>) else mr);
         mr = (if rin_exp_access inp AND IBV_EXP_ACCESS_ON_DEMAND \<noteq> 0 then mr\<lparr>mlx5_type := MLX5_ODP_MR\<rparr> else mr)
     in if rin_comp_mask inp AND IBV_EXP_REG_MR_DM \<noteq> 0 then mr\<lparr>mlx5_type := MLX5_DM_MR\<rparr> else mr)"

record 'w dereg_ops =
  dealloc_whole_op :: "ibv_mr \<Rightarrow> 'w \<Rightarrow> 'w"
  cmd_dereg_mr_op :: "ibv_mr \<Rightarrow> 'w \<Rightarrow> int \<times> 'w"
  free_contig_op :: "u64 \<Rightarrow> u64 \<Rightarrow> 'w \<Rightarrow> 'w"
  free_buf_op :: "u64 \<Rightarrow> u64 \<Rightarrow> 'w \<Rightarrow> 'w"

definition global_lkey :: "ibv_mr \<Rightarrow> bool" where
  "global_lkey mr \<longleftrightarrow> mr_lkey mr = ODP_GLOBAL_R_LKEY \<or> mr_lkey mr = ODP_GLOBAL_W_LKEY"

definition mlx5_dereg_mr :: "'w dereg_ops \<Rightarrow> (ibv_mr \<Rightarrow> mlx5_mr) \<Rightarrow> ibv_mr \<Rightarrow> 'w \<Rightarrow> int \<times> 'w" where
  "mlx5_dereg_mr ops to_mmr ibmr w =
    (let mr = to_mmr ibmr
     in if global_lkey ibmr then (0, dealloc_whole_op ops ibmr w)
        else if alloc_flags mr AND IBV_EXP_ACCESS_RELAXED \<noteq> 0 then (0, w)
        else
          let (r, w1) = (if alloc_flags mr AND IBV_EXP_ACCESS_NO_RDMA \<noteq> 0 then (0, w) else cmd_dereg_mr_op ops ibmr w)
          in if r \<noteq> 0 then (r, w1)
             else if alloc_flags mr AND IBV_EXP_ACCESS_ALLOCATE_MR \<noteq> 0 then
               (0, (if buf_type mr = MLX5_ALLOC_TYPE_CONTIG then free_contig_op ops else free_buf_op ops)
                 (buf_buf mr) (buf_length mr) w1)
             else (0, w1))"

definition mlx5_exp_dereg_mr :: "'w dereg_ops \<Rightarrow> (ibv_mr \<Rightarrow> mlx5_mr) \<Rightarrow> ibv_mr \<Rightarrow> 'w \<Rightarrow> int \<times> bool \<times> 'w" where
  "mlx5_exp_dereg_mr ops to_mmr ibmr w =
    (let need_dofork =
       (if global_lkey ibmr then False
        else let mr = to_mmr ibmr
             in \<not> (buf_type mr = MLX5_ALLOC_TYPE_CONTIG \<or> mlx5_type mr = MLX5_ODP_MR \<or> mlx5_type mr = MLX5_DM_MR))
     in case mlx5_dereg_mr ops to_mmr ibmr w of (r, w1) \<Rightarrow> (r, need_dofork, w1))"

lemma mlx5_tells_dofork:
  assumes "drv_exp_dereg_mr_op ops = Some (mlx5_exp_dereg_mr dops to_mmr)"
  shows "tells_dofork ops mr w \<longleftrightarrow> \<not> global_lkey mr \<and> buf_type (to_mmr mr) \<noteq> MLX5_ALLOC_TYPE_CONTIG \<and>
    mlx5_type (to_mmr mr) = MLX5_NORMAL_MR"
  using assms by (cases "mlx5_type (to_mmr mr)") (simp_all add: tells_dofork_def mlx5_exp_dereg_mr_def Let_def case_prod_unfold)

text \<open>
  What \<open>region_ranges_balanced\<close> asks of the driver holds for a region with a key of its own, unless
  it is one of physical addresses or the driver's buffer is of another kind than was asked for.
\<close>

lemma mlx5_tells_marked:
  assumes "drv_exp_dereg_mr_op ops = Some (mlx5_exp_dereg_mr dops to_mmr)" and "to_mmr mr = mlx5_new_mr inp buf"
    and "\<not> global_lkey mr" and "\<not> is_pa inp" and "fst buf = MLX5_ALLOC_TYPE_CONTIG"
    and "rin_exp_access inp AND IBV_EXP_ACCESS_ALLOCATE_MR = 0 \<or> rin_addr inp = 0"
  shows "tells_dofork ops mr w \<longleftrightarrow> marks inp"
  using assms(2-) unfolding mlx5_tells_dofork [OF assms(1)]
  by (auto simp: mlx5_new_mr_def Let_def marks_def is_contig_def is_odp_def is_dm_def split: prod.splits if_splits)

text \<open>
  For a region of physical addresses, and for a region that \<^verbatim>\<open>alloc_buf\<close> found anonymous memory
  for, the driver asks to give back a range that was not marked; the second has been given back
  by \<^verbatim>\<open>mlx5_free_buf\<close> before. \<open>unheld_dofork_run\<close> shows what becomes of such pages.
\<close>

lemma mlx5_tells_unmarked:
  assumes "drv_exp_dereg_mr_op ops = Some (mlx5_exp_dereg_mr dops to_mmr)" and "to_mmr mr = mlx5_new_mr inp buf"
    and "\<not> global_lkey mr" and "\<not> is_odp inp" and "\<not> is_dm inp" and "is_pa inp \<and> \<not> is_contig inp \<or> is_contig inp \<and> fst buf = MLX5_ALLOC_TYPE_ANON"
  shows "tells_dofork ops mr w \<and> \<not> marks inp"
  using assms(2-) unfolding mlx5_tells_dofork [OF assms(1)]
  by (auto simp: mlx5_new_mr_def Let_def marks_def is_contig_def is_odp_def is_dm_def split: prod.splits if_splits)

end
