(* ===== verification/Ibv_Ah.thy ===== *)
theory Ibv_Ah
  imports Mlx5_Ah
begin

unbundle bit_operations_syntax

section \<open>Address handles of the library\<close>

text \<open>
  \<^verbatim>\<open>__ibv_create_ah\<close> and \<^verbatim>\<open>__ibv_create_ah_nl\<close> of
  \<^verbatim>\<open>libibverbs-41mlnx1/src/verbs.c\<close>: on Ethernet the link-layer address comes from the
  kernel when it can resolve it, and else from the neighbour table of the host. The functions of
  \<^verbatim>\<open>neigh.c\<close> are operations on a handler; the driver's operations are those of
  \<open>Mlx5_Ah\<close> or of another driver.
\<close>

definition AF_INET :: int where "AF_INET = 2"
definition AF_INET6 :: int where "AF_INET6 = 10"

record 'h neigh_ops =
  neigh_init_resources :: "int \<Rightarrow> 'h option"
  neigh_set_dst :: "int \<Rightarrow> u8 list \<Rightarrow> 'h \<Rightarrow> int \<times> 'h"
  neigh_set_src :: "int \<Rightarrow> u8 list \<Rightarrow> 'h \<Rightarrow> int \<times> 'h"
  neigh_get_oif_from_src :: "'h \<Rightarrow> int"
  neigh_set_oif :: "int \<Rightarrow> 'h \<Rightarrow> 'h"
  process_get_neigh :: "'h \<Rightarrow> int \<times> 'h"
  neigh_get_vlan_id_from_dev :: "'h \<Rightarrow> u16"
  neigh_set_vlan_id :: "u16 \<Rightarrow> 'h \<Rightarrow> 'h"
  neigh_get_ll :: "'h \<Rightarrow> nat \<Rightarrow> int \<times> u8 list"

record ah_driver =
  drv_create_ah :: "ibv_ah_attr \<Rightarrow> mlx5_ah option"
  drv_exp_ibv_create_ah :: "(ibv_exp_ah_attr \<Rightarrow> mlx5_ah option) option"
  drv_exp_ibv_create_kah :: "(ibv_exp_ah_attr \<Rightarrow> mlx5_ah option) option"
  drv_port_link_layer :: "u8 \<Rightarrow> link_layer option"
  drv_query_gid :: "u8 \<Rightarrow> u8 \<Rightarrow> u8 list option"

definition create_peer_from_gid :: "int \<Rightarrow> u8 list \<Rightarrow> u8 list option" where
  "create_peer_from_gid family raw_gid =
    (if family = AF_INET then Some (take 4 (drop 12 raw_gid))
     else if family = AF_INET6 then Some (take 16 raw_gid)
     else None)"

text \<open>The extended attributes that are the given ones, everything else zero.\<close>

definition exp_attr :: "ibv_ah_attr \<Rightarrow> ibv_exp_ah_attr" where
  "exp_attr attr = ibv_ah_attr.extend attr (ibv_exp_ah_attr.fields 0 LL_ADDRESS_UNKNOWN 0 None 0)"

definition NEIGH_GET_DEFAULT_TIMEOUT_MS :: int where "NEIGH_GET_DEFAULT_TIMEOUT_MS = 3000"
definition ETHERNET_LL_SIZE :: nat where "ETHERNET_LL_SIZE = 6"

text \<open>The family of the socket address of a GID.\<close>

definition gid_family :: "u8 list \<Rightarrow> int" where
  "gid_family gid = (if ipv6_addr_v4mapped gid then AF_INET else AF_INET6)"

text \<open>The neighbour of the destination: from the addresses to a handler that has resolved it.\<close>

definition resolve_neigh :: "'h neigh_ops \<Rightarrow> u8 list \<Rightarrow> u8 list \<Rightarrow> 'h option" where
  "resolve_neigh n sgid dgid =
    Option.bind (neigh_init_resources n NEIGH_GET_DEFAULT_TIMEOUT_MS) (\<lambda>h0.
    Option.bind (create_peer_from_gid (gid_family dgid) dgid) (\<lambda>dst.
    Option.bind (create_peer_from_gid (gid_family sgid) sgid) (\<lambda>src.
    case neigh_set_dst n (gid_family dgid) dst h0 of (e1, h1) \<Rightarrow>
    if e1 \<noteq> 0 then None
    else case neigh_set_src n (gid_family sgid) src h1 of (e2, h2) \<Rightarrow>
    if e2 \<noteq> 0 then None
    else let oif = neigh_get_oif_from_src n h2
         in if 0 < oif then
              (case process_get_neigh n (neigh_set_oif n oif h2) of (e3, h3) \<Rightarrow>
                 if e3 \<noteq> 0 then None else Some h3)
            else None)))"

definition ibv_create_ah_nl :: "'h neigh_ops \<Rightarrow> ah_driver \<Rightarrow> ibv_ah_attr \<Rightarrow> mlx5_ah option" where
  "ibv_create_ah_nl n drv attr =
    (case drv_exp_ibv_create_ah drv of
       None \<Rightarrow> drv_create_ah drv attr
     | Some create \<Rightarrow>
         Option.bind (drv_query_gid drv (ah_port_num attr) (grh_sgid_index (ah_grh attr))) (\<lambda>sgid.
         Option.bind (resolve_neigh n sgid (grh_dgid (ah_grh attr))) (\<lambda>h.
         let vid = neigh_get_vlan_id_from_dev n h;
             h' = (if vid \<le> 0xFFF then neigh_set_vlan_id n vid h else h);
             attr1 = (exp_attr attr)\<lparr>ah_vid := vid, ah_comp_mask := (if vid \<le> 0xFFF then IBV_EXP_AH_ATTR_VID else 0)\<rparr>
         in case neigh_get_ll n h' ETHERNET_LL_SIZE of (len, ll) \<Rightarrow>
              if word_of_int len = (0 :: u32) then None
              else create (attr1\<lparr>ll_len := word_of_int len, ah_comp_mask := ah_comp_mask attr1 OR IBV_EXP_AH_ATTR_LL,
                ll_type := LL_ADDRESS_ETH, ll_address := Some ll\<rparr>))))"

definition ibv_create_ah :: "'h neigh_ops \<Rightarrow> ah_driver \<Rightarrow> ibv_pd \<Rightarrow> ibv_ah_attr \<Rightarrow> (ibv_pd \<times> mlx5_ah) option" where
  "ibv_create_ah n drv pd attr =
    Option.bind (drv_port_link_layer drv (ah_port_num attr)) (\<lambda>ll.
    if ll = IBV_LINK_LAYER_ETHERNET \<and> ah_is_global attr = 0 then None
    else
      let ah = (if ll \<noteq> IBV_LINK_LAYER_ETHERNET then drv_create_ah drv attr
                else case drv_exp_ibv_create_kah drv of
                  None \<Rightarrow> ibv_create_ah_nl n drv attr
                | Some create \<Rightarrow>
                    (case create (exp_attr attr) of
                       None \<Rightarrow> ibv_create_ah_nl n drv attr
                     | Some a \<Rightarrow> Some a))
      in map_option (\<lambda>a. (pd, a)) ah)"

text \<open>The operations the mlx5 driver installs.\<close>

definition mlx5_ah_driver :: "ah_env \<Rightarrow> (u8 \<Rightarrow> u8 \<Rightarrow> u8 list option) \<Rightarrow> ah_driver" where
  "mlx5_ah_driver env gids = \<lparr>drv_create_ah = mlx5_create_ah env,
     drv_exp_ibv_create_ah = Some (mlx5_exp_create_ah env),
     drv_exp_ibv_create_kah = Some (mlx5_exp_create_kah env),
     drv_port_link_layer = port_link_layer env, drv_query_gid = gids\<rparr>"

subsection \<open>The handles of the paths\<close>

definition path_gid :: "nat \<Rightarrow> u8 list" where
  "path_gid i = the (inet_pton6 (REMOTE_GIDS ! i))"

definition mapped :: "u8 list \<Rightarrow> u8 list" where
  "mapped ip = replicate 10 0 @ [0xFF, 0xFF] @ ip"

text \<open>The destinations of the paths are mapped IPv4 addresses.\<close>

definition path_ip :: "nat \<Rightarrow> u8 list" where
  "path_ip i = [10, 0, 101, [3, 4, 5, 2] ! i]"

lemma path_gids: "map path_gid [0..<MPRUD_NUM_PATH] = map (\<lambda>i. mapped (path_ip i)) [0..<MPRUD_NUM_PATH]"
  unfolding path_gid_def by code_simp

lemma path_gid: "i < MPRUD_NUM_PATH \<Longrightarrow> path_gid i = mapped (path_ip i)"
  using path_gids by simp

lemma mapped_v4: "length ip = 4 \<Longrightarrow> ipv6_addr_v4mapped (mapped ip)"
  by (subst v4mapped_bytes) (simp_all add: mapped_def)

text \<open>
  C19: the address handles of the paths. On an Ethernet port whose source GID 5 is a RoCE v2 address,
  with a kernel that resolves link-layer addresses, the handle of every path is created by the kernel's
  resolution, and the device reads in it: the path's IPv4 address as destination, the resolved link-layer
  address, priority 3, traffic class 106, hop limit 255, flow label 0, source GID 5 and no rate limit; so the
  handles of two paths differ in the destination.
\<close>

theorem path_handles:
  assumes "i < MPRUD_NUM_PATH" and "calloc_ok env" and "1 \<le> num_ports env"
    and "port_link_layer env 1 = Some IBV_LINK_LAYER_ETHERNET" and "gid_attr_type env 1 5 = Some IBV_EXP_ROCE_V2_GID_TYPE"
    and "cmds_supp_uhw env AND MLX5_USER_CMDS_SUPP_UHW_CREATE_AH \<noteq> 0"
    and "cmd_create_ah env (path_ah_attr (path_gid i)) = Some dmac" and "length dmac = 6"
  shows "\<exists>mah. ibv_create_ah n (mlx5_ah_driver env gids) pd (path_ah_attr (path_gid i)) = Some (pd, mah) \<and>
    kern_ah mah = 1 \<and> rmac (grh_sec (av mah)) = dmac \<and> rgid (grh_sec (av mah)) = replicate 12 0 @ path_ip i \<and>
    av_eth_prio (av mah) = 3 \<and> tclass (grh_sec (av mah)) = 106 \<and> hop_limit (grh_sec (av mah)) = 0xFF \<and>
    av_flow (av mah) = 0 \<and> av_sgid (av mah) = 5 \<and> av_rate (av mah) = 0 \<and>
    list_all (\<lambda>k. k = i \<or> path_ip k \<noteq> path_ip i) [0..<MPRUD_NUM_PATH]"
proof -
  let ?attr = "path_ah_attr (path_gid i)"
  let ?ah = "mlx5_create_ah_common env ?attr IBV_LINK_LAYER_ETHERNET IBV_EXP_ROCE_V2_GID_TYPE"
  have trunc: "ibv_ah_attr.truncate (exp_attr ?attr) = ?attr"
    by (simp add: exp_attr_def ibv_ah_attr.defs ibv_exp_ah_attr.defs)
  have sel: "ah_port_num (exp_attr ?attr) = 1" "grh_sgid_index (ah_grh (exp_attr ?attr)) = 5"
    by (simp_all add: exp_attr_def ibv_ah_attr.defs ibv_exp_ah_attr.defs path_ah_attr_def)
  obtain mah where mah: "?ah = Some mah"
    using assms(2,3) by (auto simp: mlx5_create_ah_common_def path_ah_attr_def Let_def)
  have v4: "ipv6_addr_v4mapped (path_gid i)" "drop 12 (path_gid i) = path_ip i"
    using mapped_v4 [of "path_ip i"] by (simp_all add: path_gid [OF assms(1)] path_ip_def mapped_def)
  have rate: "ah_attr_to_mlx5_rate 0 = 0" by (simp add: ah_attr_to_mlx5_rate_def ib_to_mlx5_rate_table_def)
  have fields: "av_rate (av mah) = 0" "av_eth_prio (av mah) = 3" "av_flow (av mah) = 0" "av_sgid (av mah) = 5"
    "tclass (grh_sec (av mah)) = 106" "hop_limit (grh_sec (av mah)) = 0xFF" "rgid (grh_sec (av mah)) = replicate 12 0 @ path_ip i"
    using created_decodes [OF mah] v4 rate by (simp_all add: path_ah_attr_def)
  let ?mah = "set_rmac dmac (mah\<lparr>kern_ah := 1\<rparr>)"
  have "mlx5_exp_create_kah env (exp_attr ?attr) = Some ?mah"
    using assms(4-8) mah by (simp add: mlx5_exp_create_kah_def trunc sel)
  then have run: "ibv_create_ah n (mlx5_ah_driver env gids) pd ?attr = Some (pd, ?mah)"
    using assms(4) by (simp add: ibv_create_ah_def mlx5_ah_driver_def path_ah_attr_def Let_def)
  have other: "list_all (\<lambda>k. k = i \<or> path_ip k \<noteq> path_ip i) [0..<MPRUD_NUM_PATH]"
  proof -
    have "i \<in> {0, 1, 2, 3}" using assms(1) by (auto simp: MPRUD_NUM_PATH_def)
    then show ?thesis by (auto simp: MPRUD_NUM_PATH_def path_ip_def upt_rec)
  qed
  have "av_rate (av ?mah) = 0" "av_eth_prio (av ?mah) = 3" "av_flow (av ?mah) = 0" "av_sgid (av ?mah) = 5"
    "tclass (grh_sec (av ?mah)) = 106" "hop_limit (grh_sec (av ?mah)) = 0xFF"
    "rgid (grh_sec (av ?mah)) = replicate 12 0 @ path_ip i" "rmac (grh_sec (av ?mah)) = dmac" "kern_ah ?mah = 1"
    using fields by (simp_all add: set_rmac_def av_defs)
  with run other show ?thesis by blast
qed

text \<open>A neighbour table that resolves nothing is never asked.\<close>

definition no_neigh :: "unit neigh_ops" where
  "no_neigh = \<lparr>neigh_init_resources = (\<lambda>_. None), neigh_set_dst = (\<lambda>_ _ h. (0, h)), neigh_set_src = (\<lambda>_ _ h. (0, h)),
     neigh_get_oif_from_src = (\<lambda>_. 0), neigh_set_oif = (\<lambda>_ h. h), process_get_neigh = (\<lambda>h. (0, h)),
     neigh_get_vlan_id_from_dev = (\<lambda>_. 0), neigh_set_vlan_id = (\<lambda>_ h. h), neigh_get_ll = (\<lambda>_ _. (0, []))\<rparr>"

theorem path_handles_witness:
  "\<exists>mah. ibv_create_ah no_neigh (mlx5_ah_driver sample_env (\<lambda>_ _. None)) \<lparr>pd_context = 0, pd_handle = 0\<rparr>
      (path_ah_attr (path_gid 2)) = Some (\<lparr>pd_context = 0, pd_handle = 0\<rparr>, mah) \<and>
    rgid (grh_sec (av mah)) = replicate 12 0 @ [10, 0, 101, 5]"
  using path_handles [of 2 sample_env "[2, 0, 0, 0, 0, 1]" no_neigh "\<lambda>_ _. None" "\<lparr>pd_context = 0, pd_handle = 0\<rparr>"]
  by (auto simp: sample_env_def MPRUD_NUM_PATH_def MLX5_USER_CMDS_SUPP_UHW_CREATE_AH_def path_ip_def)

end
