(* ===== verification/Ibv_Mm.thy ===== *)
theory Ibv_Mm
  imports Prelude "HOL-Library.Tree"
begin

section \<open>The tree of memory ranges\<close>

text \<open>
  \<^verbatim>\<open>libibverbs-41mlnx1/src/memory.c\<close> keeps the address space as ranges with a count each,
  in a red-black tree of nodes linked by pointers to the parent and to both children. The nodes are a
  store from pointers; a null pointer or one to a freed node is a fault. The branches for a left and
  for a right child are mirror images: a \<open>side\<close> says which of them is meant.
\<close>

datatype mm_color = IBV_RED | IBV_BLACK

record ibv_mem_node =
  nd_color :: mm_color
  nd_parent :: "nat option"
  nd_left :: "nat option"
  nd_right :: "nat option"
  nd_start :: u64
  nd_end :: u64
  refcnt :: int

record mm_state =
  mm_heap :: "nat \<Rightarrow> ibv_mem_node option"
  mm_root :: "nat option"

definition node_at :: "nat option \<Rightarrow> mm_state \<Rightarrow> ibv_mem_node outcome" where
  "node_at p s = bindC (deref p) (\<lambda>x. deref (mm_heap s x))"

definition upd_node :: "nat option \<Rightarrow> (ibv_mem_node \<Rightarrow> ibv_mem_node) \<Rightarrow> mm_state \<Rightarrow> mm_state outcome" where
  "upd_node p f s = bindC (deref p) (\<lambda>x. bindC (deref (mm_heap s x)) (\<lambda>n. ret (s\<lparr>mm_heap := (mm_heap s)(x \<mapsto> f n)\<rparr>)))"

datatype side = Lft | Rgt

fun opp :: "side \<Rightarrow> side" where
  "opp Lft = Rgt"
| "opp Rgt = Lft"

fun child :: "side \<Rightarrow> ibv_mem_node \<Rightarrow> nat option" where
  "child Lft n = nd_left n"
| "child Rgt n = nd_right n"

fun set_child :: "side \<Rightarrow> nat option \<Rightarrow> ibv_mem_node \<Rightarrow> ibv_mem_node" where
  "set_child Lft p n = n\<lparr>nd_left := p\<rparr>"
| "set_child Rgt p n = n\<lparr>nd_right := p\<rparr>"

definition set_parent :: "nat option \<Rightarrow> ibv_mem_node \<Rightarrow> ibv_mem_node" where
  "set_parent p n = n\<lparr>nd_parent := p\<rparr>"

definition set_color :: "nat option \<Rightarrow> mm_color \<Rightarrow> mm_state \<Rightarrow> mm_state outcome" where
  "set_color p c s = upd_node p (\<lambda>n. n\<lparr>nd_color := c\<rparr>) s"

text \<open>\<^verbatim>\<open>if (p) p->parent = q\<close>\<close>

definition adopt :: "nat option \<Rightarrow> nat option \<Rightarrow> mm_state \<Rightarrow> mm_state outcome" where
  "adopt p q s = (if p = None then ret s else upd_node p (set_parent q) s)"

text \<open>\<^verbatim>\<open>p && p->color == IBV_RED\<close>\<close>

definition is_red :: "nat option \<Rightarrow> mm_state \<Rightarrow> bool outcome" where
  "is_red p s = (if p = None then ret False else bindC (node_at p s) (\<lambda>n. ret (nd_color n = IBV_RED)))"

text \<open>
  The link that leads to \<open>node\<close>, from its parent \<open>p\<close> or the root, is set to \<open>new\<close>; \<open>d\<close> is
  the child that is compared with the node, the other one is taken when it differs.
\<close>

definition relink :: "side \<Rightarrow> nat option \<Rightarrow> nat option \<Rightarrow> nat option \<Rightarrow> mm_state \<Rightarrow> mm_state outcome" where
  "relink d p node new s =
    (if p = None then ret (s\<lparr>mm_root := new\<rparr>)
     else bindC (node_at p s) (\<lambda>n. upd_node p (set_child (if child d n = node then d else opp d) new) s))"

text \<open>
  \<^verbatim>\<open>__mm_rotate_right\<close> for \<open>Lft\<close>, \<^verbatim>\<open>__mm_rotate_left\<close> for \<open>Rgt\<close>: the child on that side
  comes up.
\<close>

definition mm_rotate :: "side \<Rightarrow> nat option \<Rightarrow> mm_state \<Rightarrow> mm_state outcome" where
  "mm_rotate d node s =
    bindC (node_at node s) (\<lambda>n. let tmp = child d n in
    bindC (node_at tmp s) (\<lambda>t.
    bindC (upd_node node (set_child d (child (opp d) t)) s) (\<lambda>s.
    bindC (adopt (child (opp d) t) node s) (\<lambda>s.
    bindC (node_at node s) (\<lambda>n.
    bindC (relink Rgt (nd_parent n) node tmp s) (\<lambda>s.
    bindC (node_at node s) (\<lambda>n.
    bindC (upd_node tmp (\<lambda>t. set_child (opp d) node (set_parent (nd_parent n) t)) s) (\<lambda>s.
    upd_node node (set_parent tmp) s))))))))"

text \<open>One pass of the loop of \<^verbatim>\<open>__mm_add_rebalance\<close>; \<open>d\<close> is the side of the parent.\<close>

definition add_side :: "side \<Rightarrow> nat option \<Rightarrow> nat option \<Rightarrow> nat option \<Rightarrow> mm_state \<Rightarrow>
    (nat option \<times> mm_state) outcome" where
  "add_side d node parent gp s =
    bindC (node_at gp s) (\<lambda>g. let uncle = child (opp d) g in
    bindC (is_red uncle s) (\<lambda>red.
    if red then
      bindC (set_color parent IBV_BLACK s) (\<lambda>s.
      bindC (set_color uncle IBV_BLACK s) (\<lambda>s.
      bindC (set_color gp IBV_RED s) (\<lambda>s. ret (gp, s))))
    else
      bindC (node_at parent s) (\<lambda>p.
      bindC (if node = child (opp d) p then
               bindC (mm_rotate (opp d) parent s) (\<lambda>s.
               bindC (node_at parent s) (\<lambda>n. ret (parent, nd_parent n, s)))
             else ret (node, parent, s)) (\<lambda>(node, parent, s).
      bindC (set_color parent IBV_BLACK s) (\<lambda>s.
      bindC (set_color gp IBV_RED s) (\<lambda>s.
      bindC (mm_rotate d gp s) (\<lambda>s. ret (node, s))))))))"

definition add_step :: "nat option \<times> mm_state \<Rightarrow> (nat option \<times> mm_state, mm_state) flow outcome" where
  "add_step = (\<lambda>(node, s).
    bindC (node_at node s) (\<lambda>n.
    bindC (is_red (nd_parent n) s) (\<lambda>red.
    if \<not> red then ret (Return s)
    else
      bindC (node_at (nd_parent n) s) (\<lambda>p. let parent = nd_parent n; gp = nd_parent p in
      bindC (node_at gp s) (\<lambda>g.
      bindC (add_side (if parent = nd_left g then Lft else Rgt) node parent gp s) (\<lambda>r. ret (Next r)))))))"

definition mm_add_rebalance :: "nat option \<Rightarrow> mm_state \<Rightarrow> mm_state outcome" where
  "mm_add_rebalance node s = bindC (loop add_step (node, s)) (\<lambda>s. set_color (mm_root s) IBV_BLACK s)"

text \<open>\<^verbatim>\<open>__mm_add\<close>: the descent keeps the last node visited, below which the new one is hung.\<close>

definition descend :: "u64 \<Rightarrow> mm_state \<Rightarrow> nat option \<times> nat option \<Rightarrow> (nat option \<times> nat option, nat option) flow outcome" where
  "descend key s = (\<lambda>(node, parent).
    if node = None then ret (Return parent)
    else bindC (node_at node s) (\<lambda>n. ret (Next (child (if nd_start n < key then Rgt else Lft) n, node))))"

definition mm_add :: "nat option \<Rightarrow> mm_state \<Rightarrow> mm_state outcome" where
  "mm_add new s =
    bindC (node_at new s) (\<lambda>m.
    bindC (loop (descend (nd_start m) s) (mm_root s, None)) (\<lambda>parent.
    bindC (node_at parent s) (\<lambda>p.
    bindC (upd_node parent (set_child (if nd_start p < nd_start m then Rgt else Lft) new) s) (\<lambda>s.
    bindC (upd_node new (\<lambda>n. n\<lparr>nd_parent := parent, nd_left := None, nd_right := None, nd_color := IBV_RED\<rparr>) s) (\<lambda>s.
    mm_add_rebalance new s)))))"

text \<open>The walks along the links.\<close>

definition walk_down :: "side \<Rightarrow> mm_state \<Rightarrow> nat option \<Rightarrow> (nat option, nat option) flow outcome" where
  "walk_down d s node = bindC (node_at node s) (\<lambda>n. ret (if child d n = None then Return node else Next (child d n)))"

definition walk_up :: "side \<Rightarrow> mm_state \<Rightarrow> nat option \<Rightarrow> (nat option, nat option) flow outcome" where
  "walk_up d s node =
    bindC (node_at node s) (\<lambda>n.
    if nd_parent n = None then ret (Return None)
    else bindC (node_at (nd_parent n) s) (\<lambda>p. ret (if node = child d p then Next (nd_parent n) else Return (nd_parent n))))"

text \<open>\<^verbatim>\<open>__mm_prev\<close> for \<open>Lft\<close>, \<^verbatim>\<open>__mm_next\<close> for \<open>Rgt\<close>.\<close>

definition mm_near :: "side \<Rightarrow> nat option \<Rightarrow> mm_state \<Rightarrow> nat option outcome" where
  "mm_near d node s =
    bindC (node_at node s) (\<lambda>n.
    if child d n \<noteq> None then loop (walk_down (opp d) s) (child d n) else loop (walk_up d s) node)"

definition find_step :: "u64 \<Rightarrow> mm_state \<Rightarrow> nat option \<Rightarrow> (nat option, nat option) flow outcome" where
  "find_step key s node =
    (if node = None then ret (Return None)
     else bindC (node_at node s) (\<lambda>n.
       ret (if nd_start n \<le> key \<and> key \<le> nd_end n then Return node
            else Next (child (if nd_start n < key then Rgt else Lft) n))))"

definition mm_find_start :: "u64 \<Rightarrow> mm_state \<Rightarrow> nat option outcome" where
  "mm_find_start key s = loop (find_step key s) (mm_root s)"

text \<open>
  \<^verbatim>\<open>__mm_remove\<close>: a node with two children is replaced by its predecessor. The result is the
  child that took the place of the node that left, its parent, and the colour that left.
\<close>

definition take_place :: "nat option \<Rightarrow> nat option \<Rightarrow> mm_state \<Rightarrow> mm_state outcome" where
  "take_place node tmp s =
    bindC (node_at node s) (\<lambda>n.
    bindC (upd_node tmp (\<lambda>t. t\<lparr>nd_right := nd_right n\<rparr>) s) (\<lambda>s.
    bindC (upd_node (nd_right n) (set_parent tmp) s) (\<lambda>s.
    bindC (node_at node s) (\<lambda>n.
    bindC (upd_node tmp (set_parent (nd_parent n)) s) (\<lambda>s.
    relink Lft (nd_parent n) node tmp s)))))"

definition lift_pred :: "nat option \<Rightarrow> nat option \<Rightarrow> nat option \<Rightarrow> nat option \<Rightarrow> mm_state \<Rightarrow> mm_state outcome" where
  "lift_pred node tmp parent sub s =
    bindC (upd_node parent (\<lambda>p. p\<lparr>nd_right := sub\<rparr>) s) (\<lambda>s.
    bindC (adopt sub parent s) (\<lambda>s.
    bindC (node_at node s) (\<lambda>n.
    bindC (upd_node tmp (\<lambda>t. t\<lparr>nd_left := nd_left n\<rparr>) s) (\<lambda>s.
    upd_node (nd_left n) (set_parent tmp) s))))"

definition unlink_two :: "nat option \<Rightarrow> ibv_mem_node \<Rightarrow> mm_state \<Rightarrow>
    (nat option \<times> nat option \<times> mm_color \<times> mm_state) outcome" where
  "unlink_two node n s =
    bindC (loop (walk_down Rgt s) (nd_left n)) (\<lambda>tmp.
    bindC (node_at tmp s) (\<lambda>t.
    bindC (set_color tmp (nd_color n) s) (\<lambda>s.
    bindC (if nd_parent t \<noteq> node then
             bindC (lift_pred node tmp (nd_parent t) (nd_left t) s) (\<lambda>s. ret (nd_parent t, s))
           else ret (tmp, s)) (\<lambda>(parent, s).
    bindC (take_place node tmp s) (\<lambda>s. ret (nd_left t, parent, nd_color t, s))))))"

definition unlink_one :: "nat option \<Rightarrow> ibv_mem_node \<Rightarrow> mm_state \<Rightarrow>
    (nat option \<times> nat option \<times> mm_color \<times> mm_state) outcome" where
  "unlink_one node n s =
    (let child = (if nd_left n \<noteq> None then nd_left n else nd_right n); parent = nd_parent n
     in bindC (adopt child parent s) (\<lambda>s.
        bindC (relink Lft parent node child s) (\<lambda>s. ret (child, parent, nd_color n, s))))"

definition free_node :: "nat option \<Rightarrow> mm_state \<Rightarrow> mm_state outcome" where
  "free_node p s = bindC (deref p) (\<lambda>x. bindC (deref (mm_heap s x)) (\<lambda>_. ret (s\<lparr>mm_heap := (mm_heap s)(x := None)\<rparr>)))"

text \<open>
  One pass of the loop that restores the black heights; \<open>d\<close> is the side of the child. A red sibling
  is rotated away; a black sibling without red children is painted; otherwise one or two rotations
  end the loop.
\<close>

definition red_sibling :: "side \<Rightarrow> nat option \<Rightarrow> nat option \<Rightarrow> mm_state \<Rightarrow> (nat option \<times> mm_state) outcome" where
  "red_sibling d parent sib s =
    bindC (set_color parent IBV_RED s) (\<lambda>s.
    bindC (set_color sib IBV_BLACK s) (\<lambda>s.
    bindC (mm_rotate (opp d) parent s) (\<lambda>s.
    bindC (node_at parent s) (\<lambda>p. ret (child (opp d) p, s)))))"

definition near_nephew :: "side \<Rightarrow> nat option \<Rightarrow> nat option \<Rightarrow> mm_state \<Rightarrow> (nat option \<times> mm_state) outcome" where
  "near_nephew d parent sib s =
    bindC (node_at sib s) (\<lambda>b.
    bindC (if child d b \<noteq> None then set_color (child d b) IBV_BLACK s else ret s) (\<lambda>s.
    bindC (set_color sib IBV_RED s) (\<lambda>s.
    bindC (mm_rotate d sib s) (\<lambda>s.
    bindC (node_at parent s) (\<lambda>p. ret (child (opp d) p, s))))))"

definition far_nephew :: "side \<Rightarrow> nat option \<Rightarrow> nat option \<Rightarrow> mm_state \<Rightarrow> mm_state outcome" where
  "far_nephew d parent sib s =
    bindC (node_at parent s) (\<lambda>p.
    bindC (set_color sib (nd_color p) s) (\<lambda>s.
    bindC (set_color parent IBV_BLACK s) (\<lambda>s.
    bindC (node_at sib s) (\<lambda>b.
    bindC (if child (opp d) b \<noteq> None then set_color (child (opp d) b) IBV_BLACK s else ret s) (\<lambda>s.
    mm_rotate (opp d) parent s)))))"

definition black_sibling :: "side \<Rightarrow> nat option \<Rightarrow> nat option \<Rightarrow> mm_state \<Rightarrow>
    (nat option \<times> nat option \<times> mm_state, nat option \<times> mm_state) flow outcome" where
  "black_sibling d parent sib s =
    bindC (node_at sib s) (\<lambda>b.
    bindC (is_red (child d b) s) (\<lambda>near.
    bindC (is_red (child (opp d) b) s) (\<lambda>far.
    if \<not> near \<and> \<not> far then
      bindC (set_color sib IBV_RED s) (\<lambda>s.
      bindC (node_at parent s) (\<lambda>p. ret (Next (parent, nd_parent p, s))))
    else
      bindC (if \<not> far then near_nephew d parent sib s else ret (sib, s)) (\<lambda>(sib, s).
      bindC (far_nephew d parent sib s) (\<lambda>s. ret (Return (mm_root s, s)))))))"

definition remove_side :: "side \<Rightarrow> nat option \<Rightarrow> mm_state \<Rightarrow>
    (nat option \<times> nat option \<times> mm_state, nat option \<times> mm_state) flow outcome" where
  "remove_side d parent s =
    bindC (node_at parent s) (\<lambda>p. let sib = child (opp d) p in
    bindC (node_at sib s) (\<lambda>b.
    bindC (if nd_color b = IBV_RED then red_sibling d parent sib s else ret (sib, s)) (\<lambda>(sib, s).
    black_sibling d parent sib s)))"

definition remove_step :: "nat option \<times> nat option \<times> mm_state \<Rightarrow>
    (nat option \<times> nat option \<times> mm_state, nat option \<times> mm_state) flow outcome" where
  "remove_step = (\<lambda>(child, parent, s).
    bindC (is_red child s) (\<lambda>red.
    if red \<or> child = mm_root s then ret (Return (child, s))
    else bindC (node_at parent s) (\<lambda>p. remove_side (if nd_left p = child then Lft else Rgt) parent s)))"

definition remove_fix :: "nat option \<Rightarrow> nat option \<Rightarrow> mm_state \<Rightarrow> mm_state outcome" where
  "remove_fix sub parent s =
    bindC (loop remove_step (sub, parent, s)) (\<lambda>(sub, s).
    if sub \<noteq> None then set_color sub IBV_BLACK s else ret s)"

definition mm_remove :: "nat option \<Rightarrow> mm_state \<Rightarrow> mm_state outcome" where
  "mm_remove node s =
    bindC (node_at node s) (\<lambda>n.
    bindC (if nd_left n \<noteq> None \<and> nd_right n \<noteq> None then unlink_two node n s else unlink_one node n s)
      (\<lambda>(child, parent, nodecol, s).
    bindC (free_node node s) (\<lambda>s.
    if nodecol = IBV_RED then ret s else remove_fix child parent s)))"

end
