(* ===== verification/Ibv_Fork.thy ===== *)
theory Ibv_Fork
  imports Ibv_Mm
begin

unbundle bit_operations_syntax

section \<open>Ranges kept from child processes\<close>

text \<open>
  \<^verbatim>\<open>libibverbs-41mlnx1/src/memory.c\<close>: \<^verbatim>\<open>ibv_dontfork_range\<close> counts how often the pages of a
  range are registered and tells the kernel, with \<^verbatim>\<open>madvise\<close>, when a page is registered for the
  first time and when it is given back for the last time. The mutex is left out. What the process
  is told by the system is a parameter: memory for a node, the answers of \<^verbatim>\<open>madvise\<close>, and the lines of
  \<^verbatim>\<open>/proc/pid/smaps\<close> as \<^verbatim>\<open>sscanf\<close> reads them.
\<close>

datatype advice = MADV_DONTFORK | MADV_DOFORK

datatype smaps_line = Range u64 u64 | Kernel_Page_Size "u64 option" | Other_Line

record 'w fork_ops =
  malloc_node :: "(nat \<Rightarrow> ibv_mem_node option) \<Rightarrow> 'w \<Rightarrow> nat option \<times> 'w"
  madvise_op :: "u64 \<Rightarrow> u64 \<Rightarrow> advice \<Rightarrow> 'w \<Rightarrow> int \<times> 'w"
  smaps_op :: "'w \<Rightarrow> smaps_line list option"
  sysconf_op :: "'w \<Rightarrow> int"
  errno_op :: "'w \<Rightarrow> int"
  memalign_op :: "'w \<Rightarrow> (u64 \<times> 'w) option"
  hugepages_safe :: bool

record 'w fork_state =
  fk_mm :: mm_state
  fk_world :: 'w
  page_size :: int
  huge_page_enabled :: bool
  too_late :: bool

subsection \<open>The size of a page\<close>

fun smaps_page_size :: "u64 \<Rightarrow> smaps_line list \<Rightarrow> u64" where
  "smaps_page_size ps [] = ps"
| "smaps_page_size ps (l # ls) = (case l of Kernel_Page_Size (Some n) \<Rightarrow> n * 1024 | _ \<Rightarrow> smaps_page_size ps ls)"

fun scan_smaps :: "u64 \<Rightarrow> u64 \<Rightarrow> smaps_line list \<Rightarrow> u64" where
  "scan_smaps ps base [] = ps"
| "scan_smaps ps base (l # ls) = (case l of
     Range a b \<Rightarrow> if a \<le> base \<and> base < b then smaps_page_size ps ls else scan_smaps ps base ls
   | _ \<Rightarrow> scan_smaps ps base ls)"

definition get_page_size :: "'w fork_ops \<Rightarrow> u64 \<Rightarrow> 'w fork_state \<Rightarrow> u64" where
  "get_page_size ops base s = (case smaps_op ops (fk_world s) of
     None \<Rightarrow> of_int (page_size s) | Some ls \<Rightarrow> scan_smaps (of_int (page_size s)) base ls)"

definition EINVAL :: int where "EINVAL = 22"
definition ENOMEM :: int where "ENOMEM = 12"
definition ENOSYS :: int where "ENOSYS = 38"

text \<open>\<^verbatim>\<open>ibv_fork_init\<close>: both calls of \<^verbatim>\<open>madvise\<close> are tried on a page of its own first.\<close>

definition try_madvise :: "'w fork_ops \<Rightarrow> u64 \<Rightarrow> 'w fork_state \<Rightarrow> int \<times> 'w" where
  "try_madvise ops tmp s =
    (let sz = (if huge_page_enabled s then get_page_size ops tmp s else of_int (page_size s));
         tmp_aligned = (if huge_page_enabled s then tmp AND NOT (sz - 1) else tmp)
     in case madvise_op ops tmp_aligned sz MADV_DONTFORK (fk_world s) of
          (r, w) \<Rightarrow> if r \<noteq> 0 then (r, w) else madvise_op ops tmp_aligned sz MADV_DOFORK w)"

definition root_node :: ibv_mem_node where
  "root_node = \<lparr>nd_color = IBV_BLACK, nd_parent = None, nd_left = None, nd_right = None,
     nd_start = 0, nd_end = - 1, refcnt = 0\<rparr>"

definition ibv_fork_init :: "'w fork_ops \<Rightarrow> 'w fork_state \<Rightarrow> int \<times> 'w fork_state" where
  "ibv_fork_init ops s =
    (if mm_root (fk_mm s) \<noteq> None then (0, s)
     else if too_late s then (EINVAL, s)
     else let s1 = s\<lparr>page_size := sysconf_op ops (fk_world s)\<rparr>
     in if page_size s1 < 0 then (errno_op ops (fk_world s1), s1)
     else case memalign_op ops (fk_world s1) of
       None \<Rightarrow> (ENOMEM, s1)
     | Some (tmp, w) \<Rightarrow>
         let s2 = s1\<lparr>fk_world := w, huge_page_enabled := hugepages_safe ops\<rparr>
         in case try_madvise ops tmp s2 of (r, w2) \<Rightarrow>
              if r \<noteq> 0 then (ENOSYS, s2\<lparr>fk_world := w2\<rparr>)
              else case malloc_node ops (mm_heap (fk_mm s2)) w2 of
                (None, w3) \<Rightarrow> (ENOMEM, s2\<lparr>fk_world := w3\<rparr>)
              | (Some p, w3) \<Rightarrow> (0, s2\<lparr>fk_world := w3,
                  fk_mm := \<lparr>mm_heap = (mm_heap (fk_mm s2))(p \<mapsto> root_node), mm_root = Some p\<rparr>\<rparr>))"

subsection \<open>Merging and splitting ranges\<close>

definition on_mm :: "(mm_state \<Rightarrow> mm_state outcome) \<Rightarrow> 'w fork_state \<Rightarrow> 'w fork_state outcome" where
  "on_mm f s = bindC (f (fk_mm s)) (\<lambda>m. ret (s\<lparr>fk_mm := m\<rparr>))"

definition merge_ranges :: "nat option \<Rightarrow> nat option \<Rightarrow> 'w fork_state \<Rightarrow> (nat option \<times> 'w fork_state) outcome" where
  "merge_ranges node prev s =
    bindC (node_at node (fk_mm s)) (\<lambda>n.
    bindC (on_mm (upd_node prev (\<lambda>p. p\<lparr>nd_end := nd_end n, refcnt := refcnt n\<rparr>)) s) (\<lambda>s.
    bindC (on_mm (mm_remove node) s) (\<lambda>s. ret (prev, s))))"

definition split_range :: "'w fork_ops \<Rightarrow> nat option \<Rightarrow> u64 \<Rightarrow> 'w fork_state \<Rightarrow> (nat option \<times> 'w fork_state) outcome" where
  "split_range ops node cut_line s =
    (case malloc_node ops (mm_heap (fk_mm s)) (fk_world s) of
       (None, w) \<Rightarrow> ret (None, s\<lparr>fk_world := w\<rparr>)
     | (Some q, w) \<Rightarrow>
         bindC (node_at node (fk_mm s)) (\<lambda>n.
         let new_node = \<lparr>nd_color = IBV_RED, nd_parent = None, nd_left = None, nd_right = None, nd_start = cut_line,
               nd_end = nd_end n, refcnt = refcnt n\<rparr>;
             s1 = s\<lparr>fk_world := w, fk_mm := (fk_mm s)\<lparr>mm_heap := (mm_heap (fk_mm s))(q \<mapsto> new_node)\<rparr>\<rparr>
         in bindC (on_mm (upd_node node (\<lambda>n. n\<lparr>nd_end := cut_line - 1\<rparr>)) s1) (\<lambda>s.
            bindC (on_mm (mm_add (Some q)) s) (\<lambda>s. ret (Some q, s)))))"

text \<open>\<^verbatim>\<open>tmp && tmp->refcnt == c\<close>\<close>

definition counts :: "nat option \<Rightarrow> int \<Rightarrow> 'w fork_state \<Rightarrow> bool outcome" where
  "counts tmp c s = (if tmp = None then ret False else bindC (node_at tmp (fk_mm s)) (\<lambda>t. ret (refcnt t = c)))"

definition get_start_node :: "'w fork_ops \<Rightarrow> u64 \<Rightarrow> int \<Rightarrow> 'w fork_state \<Rightarrow> (nat option \<times> 'w fork_state) outcome" where
  "get_start_node ops start inc s =
    bindC (mm_find_start start (fk_mm s)) (\<lambda>node.
    bindC (node_at node (fk_mm s)) (\<lambda>n.
    if nd_start n < start then split_range ops node start s
    else
      bindC (mm_near Lft node (fk_mm s)) (\<lambda>tmp.
      bindC (counts tmp (refcnt n + inc) s) (\<lambda>eq.
      if eq then merge_ranges node tmp s else ret (node, s)))))"

definition undo_split :: "'w fork_ops \<Rightarrow> nat option \<Rightarrow> u64 \<Rightarrow> int \<Rightarrow> 'w fork_state \<Rightarrow> (nat option \<times> 'w fork_state) outcome" where
  "undo_split ops node start inc s =
    bindC (node_at node (fk_mm s)) (\<lambda>n.
    if nd_start n < start then
      bindC (split_range ops node start s) (\<lambda>(tmp, s).
      if tmp \<noteq> None then bindC (on_mm (upd_node node (\<lambda>n. n\<lparr>refcnt := refcnt n + inc\<rparr>)) s) (\<lambda>s. ret (tmp, s))
      else ret (None, s))
    else ret (node, s))"

definition undo_merge :: "nat option \<Rightarrow> 'w fork_state \<Rightarrow> (nat option \<times> 'w fork_state) outcome" where
  "undo_merge node s =
    bindC (mm_near Lft node (fk_mm s)) (\<lambda>tmp.
    bindC (node_at node (fk_mm s)) (\<lambda>n.
    bindC (counts tmp (refcnt n) s) (\<lambda>eq.
    bindC (if eq then merge_ranges node tmp s else ret (node, s)) (\<lambda>(node, s).
    bindC (mm_near Rgt node (fk_mm s)) (\<lambda>tmp.
    bindC (node_at node (fk_mm s)) (\<lambda>n.
    bindC (counts tmp (refcnt n) s) (\<lambda>eq.
    if eq then merge_ranges tmp node s else ret (node, s))))))))"

definition undo_node :: "'w fork_ops \<Rightarrow> nat option \<Rightarrow> u64 \<Rightarrow> int \<Rightarrow> 'w fork_state \<Rightarrow> (nat option \<times> 'w fork_state) outcome" where
  "undo_node ops node start inc s =
    bindC (undo_split ops node start inc s) (\<lambda>(node, s). if node = None then ret (None, s) else undo_merge node s)"

subsection \<open>Counting a range\<close>

fun inc_of :: "advice \<Rightarrow> int" where
  "inc_of MADV_DONTFORK = 1"
| "inc_of MADV_DOFORK = - 1"

fun other_advice :: "advice \<Rightarrow> advice" where
  "other_advice MADV_DONTFORK = MADV_DOFORK"
| "other_advice MADV_DOFORK = MADV_DONTFORK"

text \<open>
  The result of a pass over the nodes of a range: the node behind the range; or the function is
  left with a value; or \<^verbatim>\<open>madvise\<close> has failed, with the node its changes to were undone.
\<close>

datatype pass = Passed "nat option" | Leave int | Failed int "nat option"

definition tell_kernel :: "'w fork_ops \<Rightarrow> u64 \<Rightarrow> advice \<Rightarrow> ibv_mem_node \<Rightarrow> 'w \<Rightarrow> int \<times> 'w" where
  "tell_kernel ops start adv n w =
    (if inc_of adv = - 1 \<and> refcnt n = 1 \<or> inc_of adv = 1 \<and> refcnt n = 0 then
       if nd_start n < start then madvise_op ops start (nd_end n - start + 1) adv w
       else madvise_op ops (nd_start n) (nd_end n - nd_start n + 1) adv w
     else (0, w))"

definition madvise_step :: "'w fork_ops \<Rightarrow> u64 \<Rightarrow> u64 \<Rightarrow> advice \<Rightarrow> nat option \<times> 'w fork_state \<Rightarrow>
    (nat option \<times> 'w fork_state, pass \<times> 'w fork_state) flow outcome" where
  "madvise_step ops start stop adv = (\<lambda>(node, s).
    if node = None then ret (Return (Passed None, s))
    else
      bindC (node_at node (fk_mm s)) (\<lambda>n.
      if \<not> nd_start n \<le> stop then ret (Return (Passed node, s))
      else
        bindC (if stop < nd_end n then split_range ops node (stop + 1) s else ret (node, s)) (\<lambda>(upper, s).
        if upper = None then ret (Return (Leave (- 1), s))
        else
          bindC (node_at node (fk_mm s)) (\<lambda>n.
          case tell_kernel ops start adv n (fk_world s) of (r, w) \<Rightarrow>
            let s = s\<lparr>fk_world := w\<rparr>
            in if r \<noteq> 0 then
                 bindC (undo_node ops node start (inc_of adv) s) (\<lambda>(node, s). ret (Return (Failed r node, s)))
               else
                 bindC (on_mm (upd_node node (\<lambda>n. n\<lparr>refcnt := refcnt n + inc_of adv\<rparr>)) s) (\<lambda>s.
                 bindC (mm_near Rgt node (fk_mm s)) (\<lambda>node. ret (Next (node, s))))))))"

definition madvise_pass :: "'w fork_ops \<Rightarrow> u64 \<Rightarrow> u64 \<Rightarrow> advice \<Rightarrow> 'w fork_state \<Rightarrow> (pass \<times> 'w fork_state) outcome" where
  "madvise_pass ops start stop adv s =
    bindC (get_start_node ops start (inc_of adv) s) (\<lambda>(node, s).
    if node = None then ret (Leave (- 1), s) else loop (madvise_step ops start stop adv) (node, s))"

text \<open>Behind the range, the node is merged with the one before it when their counts agree.\<close>

definition merge_behind :: "nat option \<Rightarrow> 'w fork_state \<Rightarrow> 'w fork_state outcome" where
  "merge_behind node s =
    (if node = None then ret s
     else
       bindC (mm_near Lft node (fk_mm s)) (\<lambda>tmp.
       bindC (node_at node (fk_mm s)) (\<lambda>n.
       bindC (counts tmp (refcnt n) s) (\<lambda>eq.
       if eq then bindC (merge_ranges node tmp s) (\<lambda>(_, s). ret s) else ret s))))"

text \<open>The pass that takes back a range when \<^verbatim>\<open>madvise\<close> has failed behind it.\<close>

definition roll_back :: "'w fork_ops \<Rightarrow> u64 \<Rightarrow> advice \<Rightarrow> nat option \<Rightarrow> 'w fork_state \<Rightarrow> 'w fork_state outcome" where
  "roll_back ops start adv node s =
    bindC (mm_near Lft node (fk_mm s)) (\<lambda>tmp.
    if tmp = None then ret s
    else
      bindC (node_at tmp (fk_mm s)) (\<lambda>t.
      if nd_end t < start then ret s
      else
        bindC (madvise_pass ops start (nd_end t) (other_advice adv) s) (\<lambda>(p, s).
        case p of Passed node \<Rightarrow> merge_behind node s | _ \<Rightarrow> ret s)))"

definition count_range :: "'w fork_ops \<Rightarrow> u64 \<Rightarrow> u64 \<Rightarrow> advice \<Rightarrow> 'w fork_state \<Rightarrow> (int \<times> 'w fork_state) outcome" where
  "count_range ops start stop adv s =
    bindC (madvise_pass ops start stop adv s) (\<lambda>(p, s).
    case p of
      Passed node \<Rightarrow> bindC (merge_behind node s) (\<lambda>s. ret (0, s))
    | Leave r \<Rightarrow> ret (r, s)
    | Failed r node \<Rightarrow> if node = None then ret (r, s) else bindC (roll_back ops start adv node s) (\<lambda>s. ret (- 1, s)))"

definition ibv_madvise_range :: "'w fork_ops \<Rightarrow> u64 \<Rightarrow> u64 \<Rightarrow> advice \<Rightarrow> 'w fork_state \<Rightarrow> (int \<times> 'w fork_state) outcome" where
  "ibv_madvise_range ops base len adv s =
    (if len = 0 then ret (0, s)
     else
       let range_page_size = (if huge_page_enabled s then get_page_size ops base s else of_int (page_size s));
           start = base AND NOT (range_page_size - 1);
           stop = ((base + len + range_page_size - 1) AND NOT (range_page_size - 1)) - 1
       in count_range ops start stop adv s)"

definition ibv_dontfork_range :: "'w fork_ops \<Rightarrow> u64 \<Rightarrow> u64 \<Rightarrow> 'w fork_state \<Rightarrow> (int \<times> 'w fork_state) outcome" where
  "ibv_dontfork_range ops base len s =
    (if mm_root (fk_mm s) \<noteq> None then ibv_madvise_range ops base len MADV_DONTFORK s else ret (0, s\<lparr>too_late := True\<rparr>))"

definition ibv_dofork_range :: "'w fork_ops \<Rightarrow> u64 \<Rightarrow> u64 \<Rightarrow> 'w fork_state \<Rightarrow> (int \<times> 'w fork_state) outcome" where
  "ibv_dofork_range ops base len s =
    (if mm_root (fk_mm s) \<noteq> None then ibv_madvise_range ops base len MADV_DOFORK s else ret (0, s\<lparr>too_late := True\<rparr>))"

end
