(* ===== verification/Ibv_Mm_Facts.thy ===== *)
theory Ibv_Mm_Facts
  imports Ibv_Mm
begin

section \<open>Red-black trees in the store\<close>

text \<open>
  The tree the nodes form, with the pointers and colours as labels, and its contexts: a frame is the
  node above a hole on side \<open>d\<close> with the sibling tree. The order of the ranges is the inorder.
\<close>

type_synonym ptree = "(nat \<times> mm_color) tree"

datatype frame = Frame (hole: side) (above: nat) (hue: mm_color) (sibling: ptree)

definition nod :: "side \<Rightarrow> ptree \<Rightarrow> nat \<times> mm_color \<Rightarrow> ptree \<Rightarrow> ptree" where
  "nod d a x b = (if d = Lft then Node a x b else Node b x a)"

fun plug :: "frame list \<Rightarrow> ptree \<Rightarrow> ptree" where
  "plug [] t = t"
| "plug (Frame d x c b # k) t = plug k (nod d t (x, c) b)"

fun root_of :: "ptree \<Rightarrow> nat option" where
  "root_of Leaf = None"
| "root_of (Node l (x, c) r) = Some x"

fun col :: "ptree \<Rightarrow> mm_color" where
  "col Leaf = IBV_BLACK"
| "col (Node l (x, c) r) = c"

definition top_ptr :: "frame list \<Rightarrow> nat option" where
  "top_ptr k = (case k of [] \<Rightarrow> None | f # _ \<Rightarrow> Some (above f))"

definition ptrs :: "ptree \<Rightarrow> nat list" where
  "ptrs t = map fst (inorder t)"

fun kbefore :: "frame list \<Rightarrow> nat list" where
  "kbefore [] = []"
| "kbefore (Frame d x c b # k) = kbefore k @ (if d = Lft then [] else ptrs b @ [x])"

fun kafter :: "frame list \<Rightarrow> nat list" where
  "kafter [] = []"
| "kafter (Frame d x c b # k) = (if d = Lft then x # ptrs b else []) @ kafter k"

fun kptrs :: "frame list \<Rightarrow> nat set" where
  "kptrs [] = {}"
| "kptrs (Frame d x c b # k) = insert x (set (ptrs b) \<union> kptrs k)"

fun kdist :: "frame list \<Rightarrow> bool" where
  "kdist [] = True"
| "kdist (Frame d x c b # k) = (x \<notin> set (ptrs b) \<and> x \<notin> kptrs k \<and> distinct (ptrs b) \<and> set (ptrs b) \<inter> kptrs k = {} \<and> kdist k)"

lemma opp_simps [simp]: "opp (opp d) = d" "opp d \<noteq> d" "d \<noteq> opp d"
  by (cases d; simp)+

lemma side_not [simp]: "e \<noteq> d \<longleftrightarrow> e = opp d"
  by (cases d; cases e; simp)

lemma nod_opp: "nod (opp d) a x b = nod d b x a"
  by (cases d) (simp_all add: nod_def)

lemma nod_simps [simp]: "nod d a x b \<noteq> Leaf" "root_of (nod d a (y, c) b) = Some y" "col (nod d a (y, c) b) = c"
  "nod d a x b = nod d a' x' b' \<longleftrightarrow> a = a' \<and> x = x' \<and> b = b'"
  by (auto simp: nod_def)

lemma nod_cases:
  fixes t :: ptree
  obtains "t = Leaf" | a x c b where "t = nod d a (x, c) b"
proof (cases t)
  case (Node l x r)
  obtain y c where "x = (y, c)" by (cases x)
  with Node that(2) [of "if d = Lft then l else r" y c "if d = Lft then r else l"] show thesis
    by (cases d) (simp_all add: nod_def)
qed (use that in simp)

lemma root_of_None [simp]: "root_of t = None \<longleftrightarrow> t = Leaf" "None = root_of t \<longleftrightarrow> t = Leaf"
  by (cases t rule: root_of.cases; simp)+

lemma ptrs_Leaf [simp]: "ptrs Leaf = []"
  by (simp add: ptrs_def)

lemma ptrs_Node [simp]: "ptrs (Node l (x, c) r) = ptrs l @ x # ptrs r"
  by (simp add: ptrs_def)

lemma ptrs_nod: "ptrs (nod d a (x, c) b) = (if d = Lft then ptrs a @ x # ptrs b else ptrs b @ x # ptrs a)"
  by (simp add: nod_def)

lemma set_ptrs_nod [simp]: "set (ptrs (nod d a (x, c) b)) = insert x (set (ptrs a) \<union> set (ptrs b))"
  by (auto simp: ptrs_nod)

lemma distinct_nod [simp]: "distinct (ptrs (nod d a (x, c) b)) \<longleftrightarrow>
    distinct (ptrs a) \<and> distinct (ptrs b) \<and> x \<notin> set (ptrs a) \<and> x \<notin> set (ptrs b) \<and> set (ptrs a) \<inter> set (ptrs b) = {}"
  by (auto simp: ptrs_nod)

lemma root_in_ptrs: "root_of t = Some x \<Longrightarrow> x \<in> set (ptrs t)"
  by (cases t rule: root_of.cases) simp_all

lemma ptrs_plug: "ptrs (plug k t) = kbefore k @ ptrs t @ kafter k"
proof (induction k arbitrary: t)
  case (Cons f k)
  then show ?case by (cases f) (simp add: ptrs_nod)
qed simp

lemma set_kptrs: "kptrs k = set (kbefore k) \<union> set (kafter k)"
proof (induction k)
  case (Cons f k)
  then show ?case by (cases f) auto
qed simp

lemma kdist_iff: "kdist k \<longleftrightarrow> distinct (kbefore k @ kafter k)"
proof (induction k)
  case (Cons f k)
  then show ?case by (cases f) (auto simp: set_kptrs)
qed simp

lemma distinct_plug: "distinct (ptrs (plug k t)) \<longleftrightarrow> distinct (ptrs t) \<and> kdist k \<and> set (ptrs t) \<inter> kptrs k = {}"
  by (auto simp: ptrs_plug kdist_iff set_kptrs)

lemma plug_append: "plug (j @ k) t = plug k (plug j t)"
proof (induction j arbitrary: t)
  case (Cons f j)
  then show ?case by (cases f) simp
qed simp

text \<open>Every pointer of a tree has a place in it.\<close>

lemma zipper: "x \<in> set (ptrs t) \<Longrightarrow> \<exists>k a c b. t = plug k (nod d a (x, c) b)"
proof (induction t)
  case (Node l y r)
  obtain z c where y: "y = (z, c)" by (cases y)
  consider "x = z" | "x \<in> set (ptrs l)" | "x \<in> set (ptrs r)" using Node.prems y by auto
  then show ?case
  proof cases
    case 1
    then have "Node l y r = plug [] (nod d (if d = Lft then l else r) (x, c) (if d = Lft then r else l))"
      using y by (cases d) (simp_all add: nod_def)
    then show ?thesis by blast
  next
    case 2
    with Node.IH(1) obtain k a c' b where "l = plug k (nod d a (x, c') b)" by blast
    then have "Node l y r = plug (k @ [Frame Lft z c r]) (nod d a (x, c') b)" using y by (simp add: plug_append nod_def)
    then show ?thesis by blast
  next
    case 3
    with Node.IH(2) obtain k a c' b where "r = plug k (nod d a (x, c') b)" by blast
    then have "Node l y r = plug (k @ [Frame Rgt z c l]) (nod d a (x, c') b)" using y by (simp add: plug_append nod_def)
    then show ?thesis by blast
  qed
qed simp

subsection \<open>Trees and contexts in the store\<close>

definition links :: "(nat \<Rightarrow> ibv_mem_node option) \<Rightarrow> nat \<Rightarrow> mm_color \<Rightarrow> nat option \<Rightarrow> nat option \<Rightarrow> nat option \<Rightarrow> bool" where
  "links h x c p l r \<longleftrightarrow> (\<exists>n. h x = Some n \<and> nd_color n = c \<and> nd_parent n = p \<and> nd_left n = l \<and> nd_right n = r)"

definition dlinks :: "(nat \<Rightarrow> ibv_mem_node option) \<Rightarrow> nat \<Rightarrow> mm_color \<Rightarrow> nat option \<Rightarrow> side \<Rightarrow> nat option \<Rightarrow> nat option \<Rightarrow> bool" where
  "dlinks h x c p d a b \<longleftrightarrow> (\<exists>n. h x = Some n \<and> nd_color n = c \<and> nd_parent n = p \<and> child d n = a \<and> child (opp d) n = b)"

fun tree_at :: "(nat \<Rightarrow> ibv_mem_node option) \<Rightarrow> nat option \<Rightarrow> ptree \<Rightarrow> bool" where
  "tree_at h p Leaf = True"
| "tree_at h p (Node l (x, c) r) = (dlinks h x c p Lft (root_of l) (root_of r) \<and> tree_at h (Some x) l \<and> tree_at h (Some x) r)"

fun ctx_at :: "(nat \<Rightarrow> ibv_mem_node option) \<Rightarrow> nat option \<Rightarrow> frame list \<Rightarrow> bool" where
  "ctx_at h p [] = True"
| "ctx_at h p (Frame d x c b # k) = (dlinks h x c (top_ptr k) d p (root_of b) \<and> tree_at h (Some x) b \<and> ctx_at h (Some x) k)"

fun kroot :: "frame list \<Rightarrow> nat option \<Rightarrow> nat option" where
  "kroot [] p = p"
| "kroot (Frame d x c b # k) p = kroot k (Some x)"

lemma dlinks_opp: "dlinks h x c p (opp d) a b \<longleftrightarrow> dlinks h x c p d b a"
  by (auto simp: dlinks_def)

lemma tree_at_nod [simp]: "tree_at h p (nod d a (x, c) b) \<longleftrightarrow>
    dlinks h x c p d (root_of a) (root_of b) \<and> tree_at h (Some x) a \<and> tree_at h (Some x) b"
  by (cases d) (auto simp: nod_def dlinks_def)

lemma tree_at_plug: "tree_at h None (plug k t) \<longleftrightarrow> ctx_at h (root_of t) k \<and> tree_at h (top_ptr k) t"
proof (induction k arbitrary: t)
  case (Cons f k)
  then show ?case by (cases f) (auto simp: top_ptr_def)
qed (simp add: top_ptr_def)

lemma root_of_plug: "root_of (plug k t) = kroot k (root_of t)"
proof (induction k arbitrary: t)
  case (Cons f k)
  then show ?case by (cases f) simp
qed simp

lemma tree_at_upd [simp]: "x \<notin> set (ptrs t) \<Longrightarrow> tree_at (h(x := v)) p t = tree_at h p t"
  by (induction h p t rule: tree_at.induct) (auto simp: dlinks_def)

lemma ctx_at_upd [simp]: "x \<notin> kptrs k \<Longrightarrow> ctx_at (h(x := v)) p k = ctx_at h p k"
  by (induction h p k rule: ctx_at.induct) (auto simp: dlinks_def)

lemma dlinks_upd [simp]: "x \<noteq> y \<Longrightarrow> dlinks (h(y := v)) x c p d a b = dlinks h x c p d a b"
  by (simp add: dlinks_def)

text \<open>What the code keeps in the nodes besides their links.\<close>

definition payload :: "(nat \<Rightarrow> ibv_mem_node option) \<Rightarrow> nat \<Rightarrow> (u64 \<times> u64 \<times> int) option" where
  "payload h x = map_option (\<lambda>n. (nd_start n, nd_end n, refcnt n)) (h x)"

definition mm_tree :: "mm_state \<Rightarrow> ptree \<Rightarrow> bool" where
  "mm_tree s t \<longleftrightarrow> mm_root s = root_of t \<and> tree_at (mm_heap s) None t \<and> distinct (ptrs t)"

lemma mm_tree_plug: "mm_tree s (plug k t) \<longleftrightarrow> mm_root s = kroot k (root_of t) \<and> ctx_at (mm_heap s) (root_of t) k \<and>
    tree_at (mm_heap s) (top_ptr k) t \<and> distinct (ptrs t) \<and> kdist k \<and> set (ptrs t) \<inter> kptrs k = {}"
  by (auto simp: mm_tree_def tree_at_plug root_of_plug distinct_plug)

subsection \<open>The elementary steps\<close>

definition touches :: "nat set \<Rightarrow> mm_state \<Rightarrow> mm_state \<Rightarrow> bool" where
  "touches A s s' \<longleftrightarrow> (\<forall>y. y \<notin> A \<longrightarrow> mm_heap s' y = mm_heap s y) \<and> payload (mm_heap s') = payload (mm_heap s)"

lemma touchesD: "touches A s s' \<Longrightarrow> y \<notin> A \<Longrightarrow> mm_heap s' y = mm_heap s y"
    "touches A s s' \<Longrightarrow> payload (mm_heap s') = payload (mm_heap s)"
  by (simp_all add: touches_def)

lemma touches_refl [simp]: "touches A s s"
  by (simp add: touches_def)

lemma touches_trans: "touches A s s' \<Longrightarrow> touches B s' s'' \<Longrightarrow> touches (A \<union> B) s s''"
  by (simp add: touches_def)

lemma tree_at_cong: "(\<And>x. x \<in> set (ptrs t) \<Longrightarrow> h' x = h x) \<Longrightarrow> tree_at h' p t = tree_at h p t"
  by (induction h p t rule: tree_at.induct) (auto simp: dlinks_def)

lemma ctx_at_cong: "(\<And>x. x \<in> kptrs k \<Longrightarrow> h' x = h x) \<Longrightarrow> ctx_at h' p k = ctx_at h p k"
proof (induction h p k rule: ctx_at.induct)
  case (2 h p d x c b k)
  then have "tree_at h' (Some x) b = tree_at h (Some x) b" by (intro tree_at_cong) simp
  with 2 show ?case by (auto simp: dlinks_def)
qed simp

lemma touches_tree: "touches A s s' \<Longrightarrow> A \<inter> set (ptrs t) = {} \<Longrightarrow> tree_at (mm_heap s') p t = tree_at (mm_heap s) p t"
  by (rule tree_at_cong) (auto simp: touches_def)

lemma touches_ctx: "touches A s s' \<Longrightarrow> A \<inter> kptrs k = {} \<Longrightarrow> ctx_at (mm_heap s') p k = ctx_at (mm_heap s) p k"
  by (rule ctx_at_cong) (auto simp: touches_def)

lemma touches_links: "touches A s s' \<Longrightarrow> x \<notin> A \<Longrightarrow> dlinks (mm_heap s') x c p d a b = dlinks (mm_heap s) x c p d a b"
  by (simp add: touches_def dlinks_def)

text \<open>Writing to a node, when the payload is kept.\<close>

lemma upd_node_eq: "mm_heap s x = Some n \<Longrightarrow> upd_node (Some x) f s = ret (s\<lparr>mm_heap := (mm_heap s)(x \<mapsto> f n)\<rparr>)"
  by (simp add: upd_node_def)

lemma node_at_eq: "mm_heap s x = Some n \<Longrightarrow> node_at (Some x) s = ret n"
  by (simp add: node_at_def)

lemma child_set_child [simp]: "child d (set_child d p n) = p" "child (opp d) (set_child d p n) = child (opp d) n"
    "child d (set_child (opp d) p n) = child d n"
  by (cases d; simp)+

lemma set_child_simps [simp]: "nd_color (set_child d p n) = nd_color n" "nd_parent (set_child d p n) = nd_parent n"
    "nd_start (set_child d p n) = nd_start n" "nd_end (set_child d p n) = nd_end n" "refcnt (set_child d p n) = refcnt n"
  by (cases d; simp)+

lemma set_parent_simps [simp]: "nd_color (set_parent p n) = nd_color n" "nd_parent (set_parent p n) = p"
    "child d (set_parent p n) = child d n"
    "nd_start (set_parent p n) = nd_start n" "nd_end (set_parent p n) = nd_end n" "refcnt (set_parent p n) = refcnt n"
  by (cases d; simp add: set_parent_def)+

lemma child_color [simp]: "child d (n\<lparr>nd_color := c\<rparr>) = child d n"
  by (cases d) simp_all

lemma payload_upd: "mm_heap s x = Some n \<Longrightarrow> nd_start m = nd_start n \<Longrightarrow> nd_end m = nd_end n \<Longrightarrow> refcnt m = refcnt n \<Longrightarrow>
    touches {x} s (s\<lparr>mm_heap := (mm_heap s)(x \<mapsto> m)\<rparr>)"
  by (auto simp: touches_def payload_def)

lemma adopt_tree:
  assumes "tree_at (mm_heap s) p t" and "distinct (ptrs t)"
  shows "\<exists>s'. adopt (root_of t) q s = ret s' \<and> tree_at (mm_heap s') q t \<and> touches (set (ptrs t)) s s' \<and> mm_root s' = mm_root s"
proof (cases t rule: nod_cases [of _ _ Lft])
  case (2 a x c b)
  with assms(1) obtain n where n: "mm_heap s x = Some n" "nd_color n = c" "child Lft n = root_of a" "child Rgt n = root_of b"
    by (auto simp: dlinks_def)
  let ?s = "s\<lparr>mm_heap := (mm_heap s)(x \<mapsto> set_parent q n)\<rparr>"
  have "adopt (root_of t) q s = ret ?s" using n 2 by (simp add: adopt_def upd_node_eq)
  moreover have "touches {x} s ?s" using n by (intro payload_upd) simp_all
  then have "touches (set (ptrs t)) s ?s" using 2 by (auto simp: touches_def)
  moreover have "tree_at (mm_heap ?s) q t" using assms 2 n by (simp add: dlinks_def set_parent_def)
  ultimately show ?thesis by auto
qed (simp add: adopt_def)

lemma relink_ctx:
  assumes "ctx_at (mm_heap s) (Some x) k" and "mm_root s = kroot k (Some x)" and "kdist k" and "x \<notin> kptrs k"
  shows "\<exists>s'. relink e (top_ptr k) (Some x) new s = ret s' \<and> ctx_at (mm_heap s') new k \<and> mm_root s' = kroot k new \<and>
    touches (kptrs k) s s'"
proof (cases k)
  case Nil
  then show ?thesis by (intro exI [of _ "s\<lparr>mm_root := new\<rparr>"]) (simp add: relink_def top_ptr_def touches_def)
next
  case (Cons f k0)
  obtain d y c b where f: "f = Frame d y c b" by (cases f)
  have at: "dlinks (mm_heap s) y c (top_ptr k0) d (Some x) (root_of b)" using assms(1) Cons f by simp
  then obtain n where n: "mm_heap s y = Some n" "nd_color n = c" "nd_parent n = top_ptr k0"
    "child d n = Some x" "child (opp d) n = root_of b" by (auto simp: dlinks_def)
  have "root_of b \<noteq> Some x" using assms(4) Cons f root_in_ptrs [of b x] by auto
  then have side: "(if child e n = Some x then e else opp e) = d" using n(4,5) by (cases "e = d") auto
  let ?s = "s\<lparr>mm_heap := (mm_heap s)(y \<mapsto> set_child d new n)\<rparr>"
  have "relink e (top_ptr k) (Some x) new s = ret ?s"
    using n(1) side Cons f by (simp add: relink_def top_ptr_def node_at_eq upd_node_eq)
  moreover have "touches {y} s ?s" using n by (intro payload_upd) simp_all
  then have "touches (kptrs k) s ?s" using Cons f by (auto simp: touches_def)
  moreover have "ctx_at (mm_heap ?s) new k"
    using assms(1,3) Cons f n by (simp add: dlinks_def)
  moreover have "mm_root ?s = kroot k new" using assms(2) Cons f by simp
  ultimately show ?thesis by blast
qed

lemma node_zip:
  assumes "mm_tree s (plug k (nod d a (x, c) b))"
  obtains n where "mm_heap s x = Some n" "node_at (Some x) s = ret n" "nd_color n = c" "nd_parent n = top_ptr k"
    "child d n = root_of a" "child (opp d) n = root_of b"
  using assms that by (auto simp: mm_tree_plug dlinks_def node_at_eq)

lemma is_red_zip:
  assumes "mm_tree s (plug k t)"
  shows "is_red (root_of t) s = ret (col t = IBV_RED)"
proof (cases t rule: nod_cases [of _ _ Lft])
  case (2 a x c b)
  with assms show ?thesis by (auto simp: is_red_def elim: node_zip)
qed (simp add: is_red_def)

lemma set_color_zip:
  assumes "mm_tree s (plug k (nod d a (x, c) b))"
  shows "\<exists>s'. set_color (Some x) c' s = ret s' \<and> mm_tree s' (plug k (nod d a (x, c') b)) \<and> payload (mm_heap s') = payload (mm_heap s)"
proof -
  obtain n where n: "mm_heap s x = Some n" "nd_color n = c" "nd_parent n = top_ptr k"
    "child d n = root_of a" "child (opp d) n = root_of b" using assms by (rule node_zip)
  let ?s = "s\<lparr>mm_heap := (mm_heap s)(x \<mapsto> n\<lparr>nd_color := c'\<rparr>)\<rparr>"
  have t: "touches {x} s ?s" using n by (intro payload_upd) simp_all
  have "set_color (Some x) c' s = ret ?s" using n by (simp add: set_color_def upd_node_eq)
  moreover have "mm_tree ?s (plug k (nod d a (x, c') b))"
    using assms n by (auto simp: mm_tree_plug dlinks_def)
  ultimately show ?thesis using touchesD(2) [OF t] by blast
qed

lemma rotate_zip:
  assumes "mm_tree s (plug k (nod d (nod d a (y, cy) b) (x, cx) e))"
  shows "\<exists>s'. mm_rotate d (Some x) s = ret s' \<and> mm_tree s' (plug k (nod d a (y, cy) (nod d b (x, cx) e))) \<and>
    payload (mm_heap s') = payload (mm_heap s)"
proof -
  have at: "mm_root s = kroot k (Some x)" "ctx_at (mm_heap s) (Some x) k" "tree_at (mm_heap s) (Some y) a"
      "tree_at (mm_heap s) (Some y) b" "tree_at (mm_heap s) (Some x) e" "kdist k"
      "dlinks (mm_heap s) x cx (top_ptr k) d (Some y) (root_of e)" "dlinks (mm_heap s) y cy (Some x) d (root_of a) (root_of b)"
    and dist: "distinct (ptrs a)" "distinct (ptrs b)" "distinct (ptrs e)" "x \<noteq> y" "x \<notin> set (ptrs a)" "x \<notin> set (ptrs b)" "x \<notin> set (ptrs e)"
      "y \<notin> set (ptrs a)" "y \<notin> set (ptrs b)" "y \<notin> set (ptrs e)" "x \<notin> kptrs k" "y \<notin> kptrs k"
      "set (ptrs a) \<inter> set (ptrs b) = {}" "set (ptrs a) \<inter> set (ptrs e) = {}" "set (ptrs b) \<inter> set (ptrs e) = {}"
      "set (ptrs a) \<inter> kptrs k = {}" "set (ptrs b) \<inter> kptrs k = {}" "set (ptrs e) \<inter> kptrs k = {}"
    using assms by (auto simp: mm_tree_plug)
  obtain n where n: "mm_heap s x = Some n" "nd_color n = cx" "nd_parent n = top_ptr k" "child d n = Some y" "child (opp d) n = root_of e"
    using at(7) by (auto simp: dlinks_def)
  obtain t where t: "mm_heap s y = Some t" "nd_color t = cy" "nd_parent t = Some x" "child d t = root_of a" "child (opp d) t = root_of b"
    using at(8) by (auto simp: dlinks_def)
  define s1 where "s1 = s\<lparr>mm_heap := (mm_heap s)(x \<mapsto> set_child d (root_of b) n)\<rparr>"
  have t1: "touches {x} s s1" unfolding s1_def using n by (intro payload_upd) simp_all
  have "tree_at (mm_heap s1) (Some y) b" using at(4) dist by (simp add: s1_def)
  from adopt_tree [OF this dist(2), of "Some x"] obtain s2 where s2: "adopt (root_of b) (Some x) s1 = ret s2"
    "tree_at (mm_heap s2) (Some x) b" "touches (set (ptrs b)) s1 s2" "mm_root s2 = mm_root s1" by blast
  have h2: "mm_heap s2 x = Some (set_child d (root_of b) n)" "mm_heap s2 y = Some t"
    using touchesD(1) [OF s2(3)] dist t(1) by (simp_all add: s1_def)
  have "touches ({x} \<union> set (ptrs b)) s s2" by (rule touches_trans [OF t1 s2(3)])
  then have "ctx_at (mm_heap s2) (Some x) k" using at(2) dist by (simp add: touches_ctx)
  then obtain s3 where s3: "relink Rgt (top_ptr k) (Some x) (Some y) s2 = ret s3" "ctx_at (mm_heap s3) (Some y) k"
    "mm_root s3 = kroot k (Some y)" "touches (kptrs k) s2 s3"
    using relink_ctx [of s2 x k Rgt "Some y"] at(1,6) dist s2(4) by (auto simp: s1_def)
  have h3: "mm_heap s3 x = Some (set_child d (root_of b) n)" "mm_heap s3 y = Some t"
    using touchesD(1) [OF s3(4)] dist h2 by simp_all
  have t3: "touches ({x} \<union> set (ptrs b) \<union> kptrs k) s s3"
    by (intro touches_trans [OF touches_trans [OF t1 s2(3)] s3(4)])
  define s4 where "s4 = s3\<lparr>mm_heap := (mm_heap s3)(y \<mapsto> set_child (opp d) (Some x) (set_parent (top_ptr k) t))\<rparr>"
  have h4: "mm_heap s4 x = Some (set_child d (root_of b) n)" using h3 dist(4) by (simp add: s4_def)
  define s5 where "s5 = s4\<lparr>mm_heap := (mm_heap s4)(x \<mapsto> set_parent (Some y) (set_child d (root_of b) n))\<rparr>"
  have run: "mm_rotate d (Some x) s = ret s5"
    using n(1,3,4) t(1,5) s2(1) s3(1) h2 h3 h4
    by (simp add: mm_rotate_def Let_def node_at_eq upd_node_eq s1_def [symmetric] s4_def [symmetric] s5_def [symmetric])
  have t4: "touches {y} s3 s4" unfolding s4_def using h3 by (intro payload_upd) simp_all
  have "touches {x} s4 s5" unfolding s5_def by (rule payload_upd [OF h4]) simp_all
  then have t5: "touches ({x} \<union> set (ptrs b) \<union> kptrs k \<union> {y} \<union> {x}) s s5"
    by (rule touches_trans [OF touches_trans [OF t3 t4]])
  have "tree_at (mm_heap s3) (Some x) b" using touches_tree [OF s3(4)] s2(2) dist by (simp add: Int_commute)
  then have "tree_at (mm_heap s5) (Some x) b" using dist by (simp add: s5_def s4_def)
  moreover have "tree_at (mm_heap s5) (Some y) a" "tree_at (mm_heap s5) (Some x) e"
  proof -
    have "({x} \<union> set (ptrs b) \<union> kptrs k \<union> {y} \<union> {x}) \<inter> set (ptrs a) = {}"
      "({x} \<union> set (ptrs b) \<union> kptrs k \<union> {y} \<union> {x}) \<inter> set (ptrs e) = {}" using dist by blast+
    then show "tree_at (mm_heap s5) (Some y) a" "tree_at (mm_heap s5) (Some x) e"
      using touches_tree [OF t5] at(3,5) by blast+
  qed
  moreover have "ctx_at (mm_heap s5) (Some y) k" using s3(2) dist by (simp add: s5_def s4_def)
  moreover have "dlinks (mm_heap s5) y cy (top_ptr k) d (root_of a) (Some x)"
    using dist(4) t by (simp add: s5_def s4_def dlinks_def)
  moreover have "dlinks (mm_heap s5) x cx (Some y) d (root_of b) (root_of e)"
    using n by (simp add: s5_def dlinks_def)
  ultimately have "mm_tree s5 (plug k (nod d a (y, cy) (nod d b (x, cx) e)))"
    using dist at(6) s3(3) by (auto simp: mm_tree_plug s5_def s4_def)
  then show ?thesis using run touchesD(2) [OF t5] by blast
qed

end
