(* ===== verification/Ibv_Mm_Add.thy ===== *)
theory Ibv_Mm_Add
  imports Ibv_Mm_Facts
begin

section \<open>Insertion keeps the tree red-black\<close>

subsection \<open>The balance of trees and contexts\<close>

definition weight :: "mm_color \<Rightarrow> nat" where
  "weight c = (if c = IBV_BLACK then 1 else 0)"

fun bh :: "ptree \<Rightarrow> nat" where
  "bh Leaf = 0"
| "bh (Node l (x, c) r) = bh l + weight c"

fun rb :: "ptree \<Rightarrow> bool" where
  "rb Leaf = True"
| "rb (Node l (x, c) r) = (rb l \<and> rb r \<and> bh l = bh r \<and> (c = IBV_RED \<longrightarrow> col l = IBV_BLACK \<and> col r = IBV_BLACK))"

text \<open>A context that makes a tree of black height \<open>n\<close> with a root of colour \<open>c\<close> balanced.\<close>

fun krb :: "nat \<Rightarrow> mm_color \<Rightarrow> frame list \<Rightarrow> bool" where
  "krb n c [] = True"
| "krb n c (Frame d x c' b # k) = (rb b \<and> bh b = n \<and> (c' = IBV_RED \<longrightarrow> c = IBV_BLACK \<and> col b = IBV_BLACK) \<and>
     krb (n + weight c') c' k)"

definition kblack :: "frame list \<Rightarrow> bool" where
  "kblack k \<longleftrightarrow> k = [] \<or> hue (last k) = IBV_BLACK"

definition rb_tree :: "ptree \<Rightarrow> bool" where
  "rb_tree t \<longleftrightarrow> rb t \<and> col t = IBV_BLACK"

lemma weight_simps [simp]: "weight IBV_RED = 0" "weight IBV_BLACK = 1"
  by (simp_all add: weight_def)

lemma color_not [simp]: "c \<noteq> IBV_RED \<longleftrightarrow> c = IBV_BLACK" "c \<noteq> IBV_BLACK \<longleftrightarrow> c = IBV_RED"
  by (cases c; simp)+

lemma rb_nod [simp]: "rb (nod d a (x, c) b) \<longleftrightarrow> rb a \<and> rb b \<and> bh a = bh b \<and>
    (c = IBV_RED \<longrightarrow> col a = IBV_BLACK \<and> col b = IBV_BLACK)"
  by (cases d) (auto simp: nod_def)

lemma bh_nod: "bh a = bh b \<Longrightarrow> bh (nod d a (x, c) b) = bh b + weight c"
  by (cases d) (simp_all add: nod_def)

lemma rb_plug: "rb (plug k t) \<longleftrightarrow> rb t \<and> krb (bh t) (col t) k"
proof (induction k arbitrary: t)
  case (Cons f k)
  show ?case
  proof (cases f)
    case (Frame d x c b)
    then show ?thesis using Cons.IH [of "nod d t (x, c) b"] bh_nod [of t b d x c] by auto
  qed
qed simp

lemma col_plug: "col (plug k t) = (if k = [] then col t else hue (last k))"
proof (induction k arbitrary: t)
  case (Cons f k)
  then show ?case by (cases f) simp
qed simp

lemma krb_black: "krb n IBV_RED k \<Longrightarrow> krb n IBV_BLACK k"
  by (cases "(n, IBV_RED, k)" rule: krb.cases) auto

lemma krb_any: "krb n c k \<Longrightarrow> k = [] \<or> hue (hd k) = IBV_BLACK \<Longrightarrow> krb n c' k"
  by (cases "(n, c, k)" rule: krb.cases) auto

lemma kblack_Nil [simp]: "kblack []"
  by (simp add: kblack_def)

lemma kblack_Cons: "kblack (f # k) \<longleftrightarrow> (if k = [] then hue f = IBV_BLACK else kblack k)"
  by (simp add: kblack_def)

lemma ptrs_plug_cong: "ptrs t = ptrs t' \<Longrightarrow> ptrs (plug k t) = ptrs (plug k t')"
  by (simp add: ptrs_plug)

text \<open>Painting the root black, which the insertion and the removal end with.\<close>

fun blacken :: "ptree \<Rightarrow> ptree" where
  "blacken Leaf = Leaf"
| "blacken (Node l (x, c) r) = Node l (x, IBV_BLACK) r"

lemma blacken_nod [simp]: "blacken (nod d a (x, c) b) = nod d a (x, IBV_BLACK) b"
  by (simp add: nod_def)

lemma blacken_simps [simp]: "ptrs (blacken t) = ptrs t" "root_of (blacken t) = root_of t" "col (blacken t) = IBV_BLACK"
    "rb t \<Longrightarrow> rb (blacken t)"
  by (cases t rule: blacken.cases; simp)+

lemma set_color_root:
  assumes "mm_tree s (plug k t)" and "t \<noteq> Leaf"
  shows "\<exists>s'. set_color (root_of t) IBV_BLACK s = ret s' \<and> mm_tree s' (plug k (blacken t)) \<and> payload (mm_heap s') = payload (mm_heap s)"
  using assms
proof (cases t rule: nod_cases [of _ _ Lft])
  case (2 a x c b)
  then show ?thesis using set_color_zip [of s k Lft a x c b IBV_BLACK] assms by auto
qed simp

lemma paint_root:
  assumes "mm_tree s t" and "rb t" and "t \<noteq> Leaf"
  shows "\<exists>s'. set_color (mm_root s) IBV_BLACK s = ret s' \<and> mm_tree s' (blacken t) \<and> rb_tree (blacken t) \<and>
    payload (mm_heap s') = payload (mm_heap s)"
  using set_color_root [of s "[]" t] assms by (simp add: mm_tree_def rb_tree_def)

text \<open>On which side of its parent a node is.\<close>

lemma side_of_child:
  assumes "mm_tree s (plug (Frame d g c u # k) t)" and "root_of t = Some p" and "mm_heap s g = Some n"
  shows "(if Some p = nd_left n then Lft else Rgt) = d"
proof -
  from assms(1) have "mm_tree s (plug k (nod d t (g, c) u))" by simp
  then obtain m where "mm_heap s g = Some m" "child d m = root_of t" "child (opp d) m = root_of u" by (rule node_zip)
  with assms(3) have m: "child d n = root_of t" "child (opp d) n = root_of u" by simp_all
  have "root_of u \<noteq> Some p" using assms(1,2) root_in_ptrs [of t p] root_in_ptrs [of u p] by (auto simp: distinct_plug mm_tree_def)
  with m assms(2) show ?thesis by (cases d) auto
qed

subsection \<open>One pass of the insertion\<close>

lemma add_side_recolor:
  assumes "mm_tree s (plug k (nod d (nod e t (p, IBV_RED) b) (g, cg) u))" and "col u = IBV_RED"
  shows "\<exists>s'. add_side d node (Some p) (Some g) s = ret (Some g, s') \<and> payload (mm_heap s') = payload (mm_heap s) \<and>
    mm_tree s' (plug k (nod d (nod e t (p, IBV_BLACK) b) (g, IBV_RED) (blacken u)))"
proof -
  let ?P = "\<lambda>c. nod e t (p, c) b"
  from assms(1) obtain n where n: "node_at (Some g) s = ret n" "child (opp d) n = root_of u" by (rule node_zip)
  have u: "is_red (root_of u) s = ret True"
    using is_red_zip [of s "Frame (opp d) g cg (?P IBV_RED) # k" u] assms by (simp add: nod_opp)
  obtain s1 where s1: "set_color (Some p) IBV_BLACK s = ret s1" "mm_tree s1 (plug k (nod d (?P IBV_BLACK) (g, cg) u))"
    "payload (mm_heap s1) = payload (mm_heap s)"
    using set_color_zip [of s "Frame d g cg u # k" e t p IBV_RED b IBV_BLACK] assms(1) by auto
  have "u \<noteq> Leaf" using assms(2) by auto
  then obtain s2 where s2: "set_color (root_of u) IBV_BLACK s1 = ret s2" "mm_tree s2 (plug k (nod d (?P IBV_BLACK) (g, cg) (blacken u)))"
    "payload (mm_heap s2) = payload (mm_heap s1)"
    using set_color_root [of s1 "Frame (opp d) g cg (?P IBV_BLACK) # k" u] s1(2) by (auto simp: nod_opp)
  from set_color_zip [OF s2(2), of IBV_RED] obtain s3 where "set_color (Some g) IBV_RED s2 = ret s3"
    "mm_tree s3 (plug k (nod d (?P IBV_BLACK) (g, IBV_RED) (blacken u)))" "payload (mm_heap s3) = payload (mm_heap s2)" by blast
  then show ?thesis using n u s1 s2 by (simp add: add_side_def Let_def)
qed

lemma add_side_outer:
  assumes "mm_tree s (plug k (nod d (nod d t (p, IBV_RED) b) (g, cg) u))" and "col u = IBV_BLACK" and "root_of t = Some x"
  shows "\<exists>s'. add_side d (Some x) (Some p) (Some g) s = ret (Some x, s') \<and> payload (mm_heap s') = payload (mm_heap s) \<and>
    mm_tree s' (plug k (nod d t (p, IBV_BLACK) (nod d b (g, IBV_RED) u)))"
proof -
  from assms(1) obtain n where n: "node_at (Some g) s = ret n" "child (opp d) n = root_of u" by (rule node_zip)
  have u: "is_red (root_of u) s = ret False"
    using is_red_zip [of s "Frame (opp d) g cg (nod d t (p, IBV_RED) b) # k" u] assms(1,2) by (simp add: nod_opp)
  have "mm_tree s (plug (Frame d g cg u # k) (nod d t (p, IBV_RED) b))" using assms(1) by simp
  then obtain m where m: "node_at (Some p) s = ret m" "child (opp d) m = root_of b" by (rule node_zip)
  have "root_of b \<noteq> Some x" using assms(1,3) root_in_ptrs [of b x] root_in_ptrs [of t x] by (auto simp: distinct_plug mm_tree_def)
  then have ne: "Some x \<noteq> child (opp d) m" using m(2) by metis
  obtain s1 where s1: "set_color (Some p) IBV_BLACK s = ret s1" "mm_tree s1 (plug k (nod d (nod d t (p, IBV_BLACK) b) (g, cg) u))"
    "payload (mm_heap s1) = payload (mm_heap s)"
    using set_color_zip [of s "Frame d g cg u # k" d t p IBV_RED b IBV_BLACK] assms(1) by auto
  from set_color_zip [OF s1(2), of IBV_RED] obtain s2 where s2: "set_color (Some g) IBV_RED s1 = ret s2"
    "mm_tree s2 (plug k (nod d (nod d t (p, IBV_BLACK) b) (g, IBV_RED) u))" "payload (mm_heap s2) = payload (mm_heap s1)" by blast
  from rotate_zip [OF s2(2)] obtain s3 where "mm_rotate d (Some g) s2 = ret s3"
    "mm_tree s3 (plug k (nod d t (p, IBV_BLACK) (nod d b (g, IBV_RED) u)))" "payload (mm_heap s3) = payload (mm_heap s2)" by blast
  then show ?thesis using n u m(1) ne s1 s2 by (simp add: add_side_def Let_def)
qed

lemma add_side_inner:
  assumes "mm_tree s (plug k (nod d (nod d b (p, IBV_RED) (nod d t1 (x, IBV_RED) t2)) (g, cg) u))" and "col u = IBV_BLACK"
  shows "\<exists>s'. add_side d (Some x) (Some p) (Some g) s = ret (Some p, s') \<and> payload (mm_heap s') = payload (mm_heap s) \<and>
    mm_tree s' (plug k (nod d (nod d b (p, IBV_RED) t1) (x, IBV_BLACK) (nod d t2 (g, IBV_RED) u)))"
proof -
  let ?t = "nod d t1 (x, IBV_RED) t2"
  from assms(1) obtain n where n: "node_at (Some g) s = ret n" "child (opp d) n = root_of u" by (rule node_zip)
  have u: "is_red (root_of u) s = ret False"
    using is_red_zip [of s "Frame (opp d) g cg (nod d b (p, IBV_RED) ?t) # k" u] assms(1,2) by (simp add: nod_opp)
  have "mm_tree s (plug (Frame d g cg u # k) (nod d b (p, IBV_RED) ?t))" using assms(1) by simp
  then obtain m where m: "node_at (Some p) s = ret m" "child (opp d) m = root_of ?t" by (rule node_zip)
  have "mm_tree s (plug (Frame d g cg u # k) (nod (opp d) (nod (opp d) t2 (x, IBV_RED) t1) (p, IBV_RED) b))"
    using assms(1) by (simp add: nod_opp)
  from rotate_zip [OF this] obtain s1 where s1: "mm_rotate (opp d) (Some p) s = ret s1"
    "mm_tree s1 (plug (Frame d g cg u # k) (nod d (nod d b (p, IBV_RED) t1) (x, IBV_RED) t2))"
    "payload (mm_heap s1) = payload (mm_heap s)" by (auto simp: nod_opp)
  have "mm_tree s1 (plug (Frame d x IBV_RED t2 # Frame d g cg u # k) (nod d b (p, IBV_RED) t1))" using s1(2) by simp
  then obtain q where q: "node_at (Some p) s1 = ret q" "nd_parent q = top_ptr (Frame d x IBV_RED t2 # Frame d g cg u # k)"
    by (rule node_zip)
  from set_color_zip [OF s1(2), of IBV_BLACK] obtain s2 where s2: "set_color (Some x) IBV_BLACK s1 = ret s2"
    "mm_tree s2 (plug k (nod d (nod d (nod d b (p, IBV_RED) t1) (x, IBV_BLACK) t2) (g, cg) u))"
    "payload (mm_heap s2) = payload (mm_heap s1)" by auto
  from set_color_zip [OF s2(2), of IBV_RED] obtain s3 where s3: "set_color (Some g) IBV_RED s2 = ret s3"
    "mm_tree s3 (plug k (nod d (nod d (nod d b (p, IBV_RED) t1) (x, IBV_BLACK) t2) (g, IBV_RED) u))"
    "payload (mm_heap s3) = payload (mm_heap s2)" by blast
  from rotate_zip [OF s3(2)] obtain s4 where "mm_rotate d (Some g) s3 = ret s4"
    "mm_tree s4 (plug k (nod d (nod d b (p, IBV_RED) t1) (x, IBV_BLACK) (nod d t2 (g, IBV_RED) u)))"
    "payload (mm_heap s4) = payload (mm_heap s3)" by blast
  then show ?thesis using n u m q s1 s2 s3 by (simp add: add_side_def Let_def top_ptr_def)
qed

lemma add_step_exit:
  assumes "mm_tree s (plug k t)" and "root_of t = Some x" and "k = [] \<or> hue (hd k) = IBV_BLACK"
  shows "add_step (Some x, s) = ret (Return s)"
proof -
  obtain a y c b where t: "t = nod Lft a (y, c) b" using assms(2) by (cases t rule: nod_cases [of _ _ Lft]) auto
  with assms(1) obtain n where n: "node_at (Some y) s = ret n" "nd_parent n = top_ptr k" by (auto elim: node_zip)
  have "is_red (top_ptr k) s = ret False"
  proof (cases k)
    case (Cons f k0)
    obtain d p c' b' where f: "f = Frame d p c' b'" by (cases f)
    then have "mm_tree s (plug k0 (nod d t (p, IBV_BLACK) b'))" using assms(1,3) Cons by simp
    from is_red_zip [OF this] show ?thesis using Cons f by (simp add: top_ptr_def)
  qed (simp add: is_red_def top_ptr_def)
  with n t assms(2) show ?thesis by (simp add: add_step_def)
qed

lemma add_step_go:
  assumes "mm_tree s (plug (Frame e p IBV_RED b # Frame d g cg u # k) t)" and "root_of t = Some x"
    and "add_side d (Some x) (Some p) (Some g) s = ret r"
  shows "add_step (Some x, s) = ret (Next r)"
proof -
  let ?k = "Frame d g cg u # k"
  obtain a y c b' where t: "t = nod Lft a (y, c) b'" using assms(2) by (cases t rule: nod_cases [of _ _ Lft]) auto
  then have x: "y = x" using assms(2) by simp
  from assms(1) [unfolded t] obtain n where n: "node_at (Some y) s = ret n" "nd_parent n = top_ptr (Frame e p IBV_RED b # ?k)"
    by (rule node_zip)
  have P: "mm_tree s (plug ?k (nod e t (p, IBV_RED) b))" using assms(1) by simp
  from P obtain m where m: "node_at (Some p) s = ret m" "nd_parent m = top_ptr ?k" by (rule node_zip)
  from is_red_zip [OF P] have red: "is_red (Some p) s = ret True" by simp
  have "mm_tree s (plug k (nod d (nod e t (p, IBV_RED) b) (g, cg) u))" using P by simp
  then obtain q where q: "mm_heap s g = Some q" "node_at (Some g) s = ret q" by (rule node_zip)
  have "(if Some p = nd_left q then Lft else Rgt) = d" by (rule side_of_child [OF P _ q(1)]) simp
  with n m q red assms(3) x show ?thesis
    by (simp add: add_step_def top_ptr_def Let_def)
qed

lemma add_loop:
  assumes "mm_tree s (plug k t)" and "root_of t = Some x" and "rb t" and "col t = IBV_RED"
    and "krb (bh t) IBV_BLACK k" and "kblack k"
  shows "\<exists>s' t'. loop add_step (Some x, s) = ret s' \<and> mm_tree s' t' \<and> rb t' \<and> ptrs t' = ptrs (plug k t) \<and>
    payload (mm_heap s') = payload (mm_heap s)"
  using assms
proof (induction k arbitrary: s t x rule: length_induct)
  case (1 k)
  show ?case
  proof (cases "k = [] \<or> hue (hd k) = IBV_BLACK")
    case True
    moreover from True have "rb (plug k t)" using krb_any [OF 1(6), of "col t"] 1(4) by (auto simp: rb_plug)
    ultimately show ?thesis using loop_Return [of add_step, OF add_step_exit [OF 1(2,3)]] 1(2) by blast
  next
    case False
    then obtain e p b k1 where k: "k = Frame e p IBV_RED b # k1"
      by (cases k) (auto, metis frame.exhaust frame.sel(3) color_not(2))
    then have "k1 \<noteq> []" using 1(7) by (auto simp: kblack_Cons)
    then obtain d g cg u k0 where k1: "k1 = Frame d g cg u # k0" by (cases k1) (auto, metis frame.exhaust)
    obtain a cx c where t: "t = nod e a (x, IBV_RED) c" using 1(3,5) by (cases t rule: nod_cases [of _ _ e]) auto
    have bal: "rb b" "bh b = bh t" "col b = IBV_BLACK" "rb u" "bh u = bh t" "cg = IBV_BLACK" "krb (bh t + 1) IBV_BLACK k0" "kblack k0"
    proof -
      have "bh t = bh b" using 1(6) k by simp
      then show "rb b" "bh b = bh t" "col b = IBV_BLACK" "rb u" "bh u = bh t" "cg = IBV_BLACK" "krb (bh t + 1) IBV_BLACK k0"
        using 1(6) k k1 by (auto split: if_splits)
      show "kblack k0" using 1(7) k k1 by (auto simp: kblack_Cons split: if_splits)
    qed
    have tree: "mm_tree s (plug k0 (nod d (nod e t (p, IBV_RED) b) (g, cg) u))" using 1(2) k k1 by simp
    have len: "length k0 < length k" "Suc (length k0) < length k" using k k1 by simp_all
    show ?thesis
    proof (cases "col u = IBV_RED")
      case True
      let ?t = "nod d (nod e t (p, IBV_BLACK) b) (g, IBV_RED) (blacken u)"
      from add_side_recolor [OF tree True] obtain s1 where s1: "add_side d (Some x) (Some p) (Some g) s = ret (Some g, s1)"
        "mm_tree s1 (plug k0 ?t)" "payload (mm_heap s1) = payload (mm_heap s)" by blast
      have "bh (blacken u) = bh u + 1" using True by (cases u rule: col.cases) auto
      then have "rb ?t" "bh ?t = bh t + 1" using bal 1(4) by (simp_all add: bh_nod)
      with 1(1) len(1) s1(2) bal obtain s' t' where "loop add_step (Some g, s1) = ret s'" "mm_tree s' t'" "rb t'"
        "ptrs t' = ptrs (plug k0 ?t)" "payload (mm_heap s') = payload (mm_heap s1)" by force
      moreover have "ptrs (plug k0 ?t) = ptrs (plug k t)" unfolding k k1 plug.simps by (rule ptrs_plug_cong) (simp add: ptrs_nod)
      ultimately show ?thesis
        using loop_Next [of add_step, OF add_step_go [of s e p b d g cg u k0 t x]] 1(2,3) k k1 s1 by auto
    next
      case False
      then have black: "col u = IBV_BLACK" by simp
      obtain y s1 t1 z sib where s1: "add_side d (Some x) (Some p) (Some g) s = ret (Some y, s1)"
        "mm_tree s1 (plug k0 (nod d t1 (z, IBV_BLACK) sib))" "payload (mm_heap s1) = payload (mm_heap s)"
        and new: "root_of t1 = Some y" "rb (nod d t1 (z, IBV_BLACK) sib)" "bh (nod d t1 (z, IBV_BLACK) sib) = bh t + 1"
        and same: "ptrs (nod d t1 (z, IBV_BLACK) sib) = ptrs (nod d (nod e t (p, IBV_RED) b) (g, cg) u)"
      proof (cases "e = d")
        case True
        from add_side_outer [of s k0 d t p b g cg u x] tree black 1(3) True obtain s1 where
          "add_side d (Some x) (Some p) (Some g) s = ret (Some x, s1)" "payload (mm_heap s1) = payload (mm_heap s)"
          "mm_tree s1 (plug k0 (nod d t (p, IBV_BLACK) (nod d b (g, IBV_RED) u)))" by auto
        then show thesis using that [of x s1 t p "nod d b (g, IBV_RED) u"] bal 1(3,4) black True
          by (simp add: bh_nod ptrs_nod)
      next
        case False
        then have e: "e = opp d" by simp
        have x: "t = nod d c (x, IBV_RED) a" using t 1(3) e by (simp add: nod_opp)
        from add_side_inner [of s k0 d b p c x a g cg u] tree black e x obtain s1 where
          "add_side d (Some x) (Some p) (Some g) s = ret (Some p, s1)" "payload (mm_heap s1) = payload (mm_heap s)"
          "mm_tree s1 (plug k0 (nod d (nod d b (p, IBV_RED) c) (x, IBV_BLACK) (nod d a (g, IBV_RED) u)))" by (auto simp: nod_opp)
        then show thesis using that [of p s1 "nod d b (p, IBV_RED) c" x "nod d a (g, IBV_RED) u"] bal 1(3,4) black e x
          by (simp add: bh_nod ptrs_nod)
      qed
      have "add_step (Some y, s1) = ret (Return s1)"
        by (rule add_step_exit [of s1 "Frame d z IBV_BLACK sib # k0" t1]) (use s1 new in simp_all)
      moreover have "rb (plug k0 (nod d t1 (z, IBV_BLACK) sib))" using new bal by (simp add: rb_plug)
      moreover have "ptrs (plug k0 (nod d t1 (z, IBV_BLACK) sib)) = ptrs (plug k t)"
        unfolding k k1 plug.simps by (rule ptrs_plug_cong [OF same])
      ultimately show ?thesis
        using loop_Next [of add_step, OF add_step_go [of s e p b d g cg u k0 t x]] loop_Return [of add_step] 1(2,3) k k1 s1 by auto
    qed
  qed
qed

lemma add_rebalance:
  assumes "mm_tree s (plug k (Node Leaf (x, IBV_RED) Leaf))" and "rb_tree (plug k Leaf)"
  shows "\<exists>s' t'. mm_add_rebalance (Some x) s = ret s' \<and> mm_tree s' t' \<and> rb_tree t' \<and>
    ptrs t' = kbefore k @ x # kafter k \<and> payload (mm_heap s') = payload (mm_heap s)"
proof -
  let ?t = "Node Leaf (x, IBV_RED) Leaf"
  have "krb (bh ?t) IBV_BLACK k" using assms(2) by (simp add: rb_tree_def rb_plug)
  moreover have "kblack k" using assms(2) by (auto simp: rb_tree_def col_plug kblack_def split: if_splits)
  ultimately obtain s1 t1 where s1: "loop add_step (Some x, s) = ret s1" "mm_tree s1 t1" "rb t1"
    "ptrs t1 = ptrs (plug k ?t)" "payload (mm_heap s1) = payload (mm_heap s)"
    using add_loop [OF assms(1), of x] by auto
  have "t1 \<noteq> Leaf" using s1(4) by (auto simp: ptrs_plug)
  from paint_root [OF s1(2,3) this] obtain s2 where "set_color (mm_root s1) IBV_BLACK s1 = ret s2"
    "mm_tree s2 (blacken t1)" "rb_tree (blacken t1)" "payload (mm_heap s2) = payload (mm_heap s1)" by blast
  then show ?thesis using s1 by (intro exI [of _ s2] exI [of _ "blacken t1"]) (simp add: mm_add_rebalance_def ptrs_plug)
qed

subsection \<open>Insertion at the place of the key\<close>

definition start_of :: "mm_state \<Rightarrow> nat \<Rightarrow> u64" where
  "start_of s x = fst (the (payload (mm_heap s) x))"

lemma start_of_eq: "mm_heap s x = Some n \<Longrightarrow> start_of s x = nd_start n"
  by (simp add: start_of_def payload_def)

definition by_start :: "mm_state \<Rightarrow> nat list \<Rightarrow> bool" where
  "by_start s xs \<longleftrightarrow> sorted_wrt (\<lambda>x y. start_of s x < start_of s y) xs"

lemma descend_loop:
  assumes "mm_tree s (plug k t)" and "by_start s (ptrs (plug k t))"
    and "\<forall>y \<in> set (kbefore k). start_of s y < key" and "\<forall>y \<in> set (kafter k). \<not> start_of s y < key"
  shows "\<exists>k'. loop (descend key s) (root_of t, top_ptr k) = ret (top_ptr k') \<and> plug k t = plug k' Leaf \<and>
    (\<forall>y \<in> set (kbefore k'). start_of s y < key) \<and> (\<forall>y \<in> set (kafter k'). \<not> start_of s y < key)"
  using assms
proof (induction t arbitrary: k)
  case Leaf
  then show ?case by (intro exI [of _ k]) (simp add: loop_Return descend_def)
next
  case (Node l v r)
  obtain x c where v: "v = (x, c)" by (cases v)
  have t: "Node l v r = nod Lft l (x, c) r" using v by (simp add: nod_def)
  from Node.prems(1) [unfolded t] obtain n where n: "mm_heap s x = Some n" "node_at (Some x) s = ret n"
    "child Lft n = root_of l" "child (opp Lft) n = root_of r" by (rule node_zip)
  let ?d = "if start_of s x < key then Rgt else Lft"
  let ?k = "(if start_of s x < key then Frame Rgt x c l else Frame Lft x c r) # k"
  let ?t = "if start_of s x < key then r else l"
  have same: "plug ?k ?t = plug k (Node l v r)" using v by (simp add: nod_def)
  have step: "descend key s (root_of (Node l v r), top_ptr k) = ret (Next (root_of ?t, top_ptr ?k))"
    using n v by (simp add: descend_def start_of_eq top_ptr_def)
  have sorted: "\<forall>y \<in> set (ptrs l). start_of s y < start_of s x" "\<forall>y \<in> set (ptrs r). start_of s x < start_of s y"
    using Node.prems(2) v by (auto simp: by_start_def ptrs_plug sorted_wrt_append)
  have inv: "mm_tree s (plug ?k ?t)" "by_start s (ptrs (plug ?k ?t))"
    "\<forall>y \<in> set (kbefore ?k). start_of s y < key" "\<forall>y \<in> set (kafter ?k). \<not> start_of s y < key"
    using Node.prems sorted unfolding same by (auto intro: less_trans)
  have "\<exists>k'. loop (descend key s) (root_of ?t, top_ptr ?k) = ret (top_ptr k') \<and> plug ?k ?t = plug k' Leaf \<and>
    (\<forall>y \<in> set (kbefore k'). start_of s y < key) \<and> (\<forall>y \<in> set (kafter k'). \<not> start_of s y < key)"
    using Node.IH(1) [of ?k] Node.IH(2) [of ?k] inv by (cases "start_of s x < key") simp_all
  then show ?case unfolding same loop_Next [of "descend key s", OF step] .
qed

lemma hang_leaf:
  assumes "mm_tree s (plug (Frame d y cy b # k) Leaf)" and "mm_heap s x = Some m" and "x \<notin> set (ptrs (plug (Frame d y cy b # k) Leaf))"
  shows "\<exists>s1 s2. upd_node (Some y) (set_child d (Some x)) s = ret s1 \<and>
    upd_node (Some x) (\<lambda>n. n\<lparr>nd_parent := Some y, nd_left := None, nd_right := None, nd_color := IBV_RED\<rparr>) s1 = ret s2 \<and>
    mm_tree s2 (plug (Frame d y cy b # k) (Node Leaf (x, IBV_RED) Leaf)) \<and> payload (mm_heap s2) = payload (mm_heap s)"
proof -
  let ?k = "Frame d y cy b # k"
  have at: "mm_root s = kroot ?k None" "ctx_at (mm_heap s) None ?k" "kdist ?k" and out: "x \<notin> kptrs ?k"
    using assms(1,3) unfolding mm_tree_plug by (simp_all add: ptrs_plug set_kptrs del: plug.simps kbefore.simps kafter.simps kptrs.simps ctx_at.simps kdist.simps kroot.simps)
  from at(2) obtain n where n: "mm_heap s y = Some n" "nd_color n = cy" "nd_parent n = top_ptr k" "child d n = None" "child (opp d) n = root_of b"
    by (auto simp: dlinks_def)
  define s1 where "s1 = s\<lparr>mm_heap := (mm_heap s)(y \<mapsto> set_child d (Some x) n)\<rparr>"
  let ?m = "m\<lparr>nd_parent := Some y, nd_left := None, nd_right := None, nd_color := IBV_RED\<rparr>"
  define s2 where "s2 = s1\<lparr>mm_heap := (mm_heap s1)(x \<mapsto> ?m)\<rparr>"
  have m: "mm_heap s1 x = Some m" using assms(2) out by (simp add: s1_def)
  have "touches {y} s s1" unfolding s1_def by (rule payload_upd [OF n(1)]) simp_all
  moreover have "touches {x} s1 s2" unfolding s2_def by (rule payload_upd [OF m]) simp_all
  ultimately have "payload (mm_heap s2) = payload (mm_heap s)" by (simp add: touches_def)
  moreover have "ctx_at (mm_heap s2) (Some x) ?k"
    using at(2,3) out n by (simp add: s2_def s1_def dlinks_def)
  then have "mm_tree s2 (plug ?k (Node Leaf (x, IBV_RED) Leaf))"
    using at(1,3) out by (auto simp: mm_tree_plug s2_def s1_def dlinks_def top_ptr_def simp del: plug.simps)
  ultimately show ?thesis using n(1) m by (simp add: upd_node_eq s1_def [symmetric] s2_def [symmetric] del: plug.simps)
qed

lemma mm_add_at:
  assumes "mm_tree s t" and "rb_tree t" and "t \<noteq> Leaf" and "by_start s (ptrs t)"
    and "mm_heap s x = Some m" and "x \<notin> set (ptrs t)"
  shows "\<exists>s' t'. mm_add (Some x) s = ret s' \<and> mm_tree s' t' \<and> rb_tree t' \<and> payload (mm_heap s') = payload (mm_heap s) \<and>
    (\<exists>ys zs. ptrs t = ys @ zs \<and> ptrs t' = ys @ x # zs \<and> (\<forall>y \<in> set ys. start_of s y < nd_start m) \<and>
      (\<forall>z \<in> set zs. nd_start m \<le> start_of s z))"
proof -
  from descend_loop [of s "[]" t "nd_start m"] assms(1,4) obtain k where k: "loop (descend (nd_start m) s) (root_of t, None) = ret (top_ptr k)"
    "t = plug k Leaf" "\<forall>y \<in> set (kbefore k). start_of s y < nd_start m" "\<forall>y \<in> set (kafter k). \<not> start_of s y < nd_start m"
    by (auto simp: top_ptr_def)
  with assms(3) obtain d y cy b k0 where f: "k = Frame d y cy b # k0" by (cases k) (auto, metis frame.exhaust)
  from hang_leaf [of s d y cy b k0 x m] assms(1,5,6) k(2) f obtain s1 s2 where
    s1: "upd_node (Some y) (set_child d (Some x)) s = ret s1" and
    s2: "upd_node (Some x) (\<lambda>n. n\<lparr>nd_parent := Some y, nd_left := None, nd_right := None, nd_color := IBV_RED\<rparr>) s1 = ret s2"
    "mm_tree s2 (plug k (Node Leaf (x, IBV_RED) Leaf))" "payload (mm_heap s2) = payload (mm_heap s)" by auto
  have "mm_tree s (plug k0 (nod d Leaf (y, cy) b))" using assms(1) k(2) f by simp
  then obtain n where n: "mm_heap s y = Some n" "node_at (Some y) s = ret n" by (rule node_zip)
  have "(if nd_start n < nd_start m then Rgt else Lft) = d"
    using k(3,4) f start_of_eq [OF n(1)] by (cases d) auto
  moreover from add_rebalance [OF s2(2)] assms(2) k(2) obtain s' t' where s': "mm_add_rebalance (Some x) s2 = ret s'"
    "mm_tree s' t'" "rb_tree t'" "ptrs t' = kbefore k @ x # kafter k" "payload (mm_heap s') = payload (mm_heap s2)" by auto
  moreover have "mm_root s = root_of t" using assms(1) by (simp add: mm_tree_def)
  ultimately have "mm_add (Some x) s = ret s'"
    using k(1) n s1 s2(1) f assms(5) by (simp add: mm_add_def node_at_eq top_ptr_def)
  moreover have "ptrs t = kbefore k @ kafter k" using k(2) by (simp add: ptrs_plug)
  then have "\<exists>ys zs. ptrs t = ys @ zs \<and> ptrs t' = ys @ x # zs \<and> (\<forall>y \<in> set ys. start_of s y < nd_start m) \<and>
      (\<forall>z \<in> set zs. nd_start m \<le> start_of s z)" using s'(4) k(3,4) by (auto simp: not_less)
  ultimately show ?thesis using s'(2,3,5) s2(3) by auto
qed

end
