(* ===== verification/Ibv_Mm_Remove.thy ===== *)
theory Ibv_Mm_Remove
  imports Ibv_Mm_Add
begin

section \<open>Removal keeps the tree red-black\<close>

subsection \<open>Walks along a spine\<close>

definition spine :: "side \<Rightarrow> frame list \<Rightarrow> bool" where
  "spine d j \<longleftrightarrow> list_all (\<lambda>f. hole f = d) j"

lemma spine_ends: "spine Rgt j \<Longrightarrow> kafter j = []" "spine Lft j \<Longrightarrow> kbefore j = []"
  by (induction j rule: kafter.induct) (auto simp: spine_def)

lemma kafter_append: "kafter (j @ k) = kafter j @ kafter k" "kbefore (j @ k) = kbefore k @ kbefore j"
  by (induction j rule: kafter.induct) auto

lemma kptrs_append: "kptrs (j @ k) = kptrs j \<union> kptrs k"
  by (auto simp: set_kptrs kafter_append)

lemma walk_down_loop:
  assumes "mm_tree s (plug k t)" and "t \<noteq> Leaf"
  shows "\<exists>j a x c. loop (walk_down d s) (root_of t) = ret (Some x) \<and> t = plug j (nod d Leaf (x, c) a) \<and> spine d j"
proof -
  have "\<exists>j' a x c. loop (walk_down d s) (root_of t) = ret (Some x) \<and> plug j t = plug j' (nod d Leaf (x, c) a) \<and> spine d j'"
    if "spine d j" "mm_tree s (plug (j @ k) t)" "t \<noteq> Leaf" for j t
    using that
  proof (induction "size t" arbitrary: j t rule: less_induct)
    case less
    from less.prems(3) obtain a x c b where t: "t = nod d a (x, c) b" by (cases t rule: nod_cases [of _ _ d]) auto
    from less.prems(2) [unfolded t] obtain n where n: "node_at (Some x) s = ret n" "child d n = root_of a" by (rule node_zip)
    show ?case
    proof (cases "a = Leaf")
      case True
      then have "walk_down d s (root_of t) = ret (Return (Some x))" using n t by (simp add: walk_down_def)
      then show ?thesis using t True less.prems(1) by (auto simp: loop_Return)
    next
      case False
      then have step: "walk_down d s (root_of t) = ret (Next (root_of a))" using n t by (simp add: walk_down_def)
      have "size a < size t" unfolding t by (simp add: nod_def)
      moreover have "spine d (Frame d x c b # j)" using less.prems(1) by (simp add: spine_def)
      moreover have "mm_tree s (plug ((Frame d x c b # j) @ k) a)" using less.prems(2) t by simp
      ultimately obtain j' a' x' c' where "loop (walk_down d s) (root_of a) = ret (Some x')"
        "plug (Frame d x c b # j) a = plug j' (nod d Leaf (x', c') a')" "spine d j'"
        using less.hyps [of a "Frame d x c b # j"] False by blast
      then show ?thesis using loop_Next [of "walk_down d s", OF step] t by auto
    qed
  qed
  from this [of "[]" t] assms show ?thesis by (simp add: spine_def)
qed

subsection \<open>The neighbours in the order of the ranges\<close>

lemma walk_up_loop:
  assumes "mm_tree s (plug k t)" and "root_of t = Some x"
  shows "loop (walk_up d s) (Some x) = ret (if d = Lft then (if kbefore k = [] then None else Some (last (kbefore k)))
    else (if kafter k = [] then None else Some (hd (kafter k))))"
  using assms
proof (induction k arbitrary: t x)
  case Nil
  obtain a c b where t: "t = nod Lft a (x, c) b" using Nil(2) by (cases t rule: nod_cases [of _ _ Lft]) auto
  from Nil(1) [unfolded t] obtain n where "node_at (Some x) s = ret n" "nd_parent n = top_ptr []" by (rule node_zip)
  then have "walk_up d s (Some x) = ret (Return None)" by (simp add: walk_up_def top_ptr_def)
  then show ?case by (simp add: loop_Return)
next
  case (Cons f k)
  obtain e y c b where f: "f = Frame e y c b" by (cases f)
  obtain a cx a' where t: "t = nod Lft a (x, cx) a'" using Cons.prems(2) by (cases t rule: nod_cases [of _ _ Lft]) auto
  from Cons.prems(1) [unfolded t] obtain n where n: "node_at (Some x) s = ret n" "nd_parent n = Some y"
    by (rule node_zip) (simp add: top_ptr_def f)
  have up: "mm_tree s (plug k (nod e t (y, c) b))" using Cons.prems(1) f by simp
  then obtain m where m: "node_at (Some y) s = ret m" "child e m = Some x" "child (opp e) m = root_of b"
    using Cons.prems(2) by (metis node_zip)
  have "root_of b \<noteq> Some x" using up Cons.prems(2) root_in_ptrs [of t x] root_in_ptrs [of b x] by (auto simp: distinct_plug mm_tree_def)
  show ?case
  proof (cases "d = e")
    case True
    then have "walk_up d s (Some x) = ret (Next (Some y))" using n m by (simp add: walk_up_def)
    then have "loop (walk_up d s) (Some x) = loop (walk_up d s) (Some y)" by (rule loop_Next)
    moreover have "last (xs @ ys @ [y]) = y" for xs ys :: "nat list" by simp
    ultimately show ?thesis using Cons.IH [OF up] True f by (cases e) auto
  next
    case False
    then have "walk_up d s (Some x) = ret (Return (Some y))" using n m \<open>root_of b \<noteq> Some x\<close> by (cases d; cases e) (simp_all add: walk_up_def)
    then have "loop (walk_up d s) (Some x) = ret (Some y)" by (rule loop_Return)
    then show ?thesis using False f by (cases d; cases e) auto
  qed
qed

lemma mm_near_eq:
  assumes "mm_tree s t" and "ptrs t = xs @ x # ys"
  shows "mm_near Lft (Some x) s = ret (if xs = [] then None else Some (last xs))"
    and "mm_near Rgt (Some x) s = ret (if ys = [] then None else Some (hd ys))"
proof -
  have "mm_near d (Some x) s = ret (if d = Lft then if xs = [] then None else Some (last xs) else if ys = [] then None else Some (hd ys))" for d
  proof -
    from assms(2) zipper [of x t d] obtain k a c b where t: "t = plug k (nod d a (x, c) b)" by auto
    have dist: "x \<notin> set xs" "x \<notin> set ys" using assms by (auto simp: mm_tree_def)
    have "xs @ x # ys = (kbefore k @ (if d = Lft then ptrs a else ptrs b)) @ x # (if d = Lft then ptrs b else ptrs a) @ kafter k"
      using assms(2) [symmetric] t by (cases d) (simp_all add: ptrs_plug ptrs_nod)
    then have xy: "xs = kbefore k @ (if d = Lft then ptrs a else ptrs b)" "ys = (if d = Lft then ptrs b else ptrs a) @ kafter k"
      using iffD1 [OF append_Cons_eq_iff [OF dist]] by blast+
    from assms(1) [unfolded t] obtain n where n: "node_at (Some x) s = ret n" "child d n = root_of a" by (rule node_zip)
    show ?thesis
    proof (cases "a = Leaf")
      case True
      have "loop (walk_up d s) (Some x) = ret (if d = Lft then (if kbefore k = [] then None else Some (last (kbefore k)))
        else (if kafter k = [] then None else Some (hd (kafter k))))" by (rule walk_up_loop [of s k "nod d a (x, c) b"]) (use assms(1) t in simp_all)
      with True n xy show ?thesis by (simp add: mm_near_def)
    next
      case False
      have "mm_tree s (plug (Frame d x c b # k) a)" using assms(1) t by simp
      from walk_down_loop [OF this False, of "opp d"] obtain j a' z c' where j: "loop (walk_down (opp d) s) (root_of a) = ret (Some z)"
        "a = plug j (nod (opp d) Leaf (z, c') a')" "spine (opp d) j" by blast
      then have "d = Lft \<Longrightarrow> ptrs a = kbefore j @ ptrs a' @ [z]" "d = Rgt \<Longrightarrow> ptrs a = z # ptrs a' @ kafter j"
        using spine_ends [of j] by (auto simp: ptrs_plug ptrs_nod)
      with j(1) n xy False show ?thesis by (cases d) (auto simp: mm_near_def)
    qed
  qed
  from this [of Lft] this [of Rgt] show "mm_near Lft (Some x) s = ret (if xs = [] then None else Some (last xs))"
    "mm_near Rgt (Some x) s = ret (if ys = [] then None else Some (hd ys))" by simp_all
qed

text \<open>The descent to the range that holds an address.\<close>

definition end_of :: "mm_state \<Rightarrow> nat \<Rightarrow> u64" where
  "end_of s x = fst (snd (the (payload (mm_heap s) x)))"

lemma end_of_eq: "mm_heap s x = Some n \<Longrightarrow> end_of s x = nd_end n"
  by (simp add: end_of_def payload_def)

lemma find_loop:
  assumes "mm_tree s (plug k t)" and "ptrs t = xs @ x # ys" and "start_of s x \<le> a" and "a \<le> end_of s x"
    and "\<forall>y \<in> set xs. end_of s y < a \<and> start_of s y < a" and "\<forall>y \<in> set ys. a < start_of s y"
  shows "loop (find_step a s) (root_of t) = ret (Some x)"
  using assms
proof (induction t arbitrary: k xs ys)
  case (Node l v r)
  obtain z c where v: "v = (z, c)" by (cases v)
  have t: "Node l v r = nod Lft l (z, c) r" using v by (simp add: nod_def)
  from Node.prems(1) [unfolded t] obtain n where n: "mm_heap s z = Some n" "node_at (Some z) s = ret n"
    "child Lft n = root_of l" "child (opp Lft) n = root_of r" by (rule node_zip)
  have split: "ptrs l @ z # ptrs r = xs @ x # ys" using Node.prems(2) v by simp
  have l: "mm_tree s (plug (Frame Lft z c r # k) l)" and r: "mm_tree s (plug (Frame Rgt z c l # k) r)"
    using Node.prems(1) v by (simp_all add: nod_def)
  have dist: "distinct (xs @ x # ys)" using Node.prems(1,2) by (simp add: mm_tree_def distinct_plug del: ptrs_Node)
  consider "x = z" | ys' where "x \<noteq> z" "ptrs l = xs @ x # ys'" "ys = ys' @ z # ptrs r" | xs' where "x \<noteq> z" "ptrs r = xs' @ x # ys" "xs = ptrs l @ z # xs'"
  proof -
    from split have "(\<exists>us. ptrs l = xs @ us \<and> us @ z # ptrs r = x # ys) \<or> (\<exists>us. ptrs l @ us = xs \<and> z # ptrs r = us @ x # ys)"
      by (auto simp: append_eq_append_conv2)
    then show thesis
    proof (elim disjE exE conjE)
      fix us assume "ptrs l = xs @ us" "us @ z # ptrs r = x # ys"
      then show thesis using that(1,2) dist by (cases us) auto
    next
      fix us assume "ptrs l @ us = xs" "z # ptrs r = us @ x # ys"
      then show thesis using that(1,3) dist by (cases us) auto
    qed
  qed
  then show ?case
  proof cases
    case 1
    then show ?thesis using n v Node.prems(3,4) start_of_eq [OF n(1)] end_of_eq [OF n(1)]
      by (simp add: loop_Return find_step_def)
  next
    case (2 ys')
    then have "a < nd_start n" using Node.prems(6) start_of_eq [OF n(1)] by simp
    then have "find_step a s (root_of (Node l v r)) = ret (Next (root_of l))" using n v by (auto simp: find_step_def)
    from loop_Next [of "find_step a s", OF this] show ?thesis using Node.IH(1) [OF l 2(2)] Node.prems(3-6) 2(3) by simp
  next
    case (3 xs')
    then have "nd_end n < a" "nd_start n < a" using Node.prems(5) start_of_eq [OF n(1)] end_of_eq [OF n(1)] by auto
    then have "find_step a s (root_of (Node l v r)) = ret (Next (root_of r))" using n v by (auto simp: find_step_def)
    from loop_Next [of "find_step a s", OF this] show ?thesis using Node.IH(2) [OF r 3(2)] Node.prems(3-6) 3(3) by simp
  qed
qed simp

lemma mm_find_eq:
  assumes "mm_tree s t" and "ptrs t = xs @ x # ys" and "start_of s x \<le> a" and "a \<le> end_of s x"
    and "\<forall>y \<in> set xs. end_of s y < a \<and> start_of s y < a" and "\<forall>y \<in> set ys. a < start_of s y"
  shows "mm_find_start a s = ret (Some x)"
  using find_loop [of s "[]" t xs x ys a] assms by (simp add: mm_find_start_def mm_tree_def)

subsection \<open>Taking a node out of its place\<close>

lemma free_node_eq:
  assumes "mm_tree s t" and "x \<notin> set (ptrs t)" and "mm_heap s x = Some n"
  shows "\<exists>s'. free_node (Some x) s = ret s' \<and> mm_tree s' t \<and> payload (mm_heap s') = (payload (mm_heap s))(x := None)"
  using assms by (intro exI [of _ "s\<lparr>mm_heap := (mm_heap s)(x := None)\<rparr>"])
    (auto simp: free_node_def mm_tree_def payload_def fun_eq_iff)

lemma unlink_one_eq:
  assumes "mm_tree s (plug k (nod d Leaf (x, c) t))" and "mm_heap s x = Some n"
  shows "\<exists>s'. unlink_one (Some x) n s = ret (root_of t, top_ptr k, c, s') \<and> mm_tree s' (plug k t) \<and>
    payload (mm_heap s') = payload (mm_heap s)"
proof -
  have at: "mm_root s = kroot k (Some x)" "ctx_at (mm_heap s) (Some x) k" "tree_at (mm_heap s) (Some x) t" "distinct (ptrs t)" "kdist k"
    and dist: "x \<notin> set (ptrs t)" "x \<notin> kptrs k" "set (ptrs t) \<inter> kptrs k = {}"
    using assms(1) by (auto simp: mm_tree_plug)
  obtain m where "mm_heap s x = Some m" "nd_color m = c" "nd_parent m = top_ptr k" "child d m = None" "child (opp d) m = root_of t"
    using node_zip [OF assms(1)] by (metis root_of.simps(1))
  then have n: "nd_color n = c" "nd_parent n = top_ptr k" "(if nd_left n \<noteq> None then nd_left n else nd_right n) = root_of t"
    using assms(2) by (cases d; auto)+
  from adopt_tree [OF at(3,4), of "top_ptr k"] obtain s1 where s1: "adopt (root_of t) (top_ptr k) s = ret s1"
    "tree_at (mm_heap s1) (top_ptr k) t" "touches (set (ptrs t)) s s1" "mm_root s1 = mm_root s" by blast
  have "ctx_at (mm_heap s1) (Some x) k" using touches_ctx [OF s1(3)] at(2) dist by blast
  then obtain s2 where s2: "relink Lft (top_ptr k) (Some x) (root_of t) s1 = ret s2" "ctx_at (mm_heap s2) (root_of t) k"
    "mm_root s2 = kroot k (root_of t)" "touches (kptrs k) s1 s2"
    using relink_ctx [of s1 x k Lft "root_of t"] s1(4) at(1,5) dist by auto
  have "tree_at (mm_heap s2) (top_ptr k) t" using touches_tree [OF s2(4)] s1(2) dist by (simp add: Int_commute)
  then have "mm_tree s2 (plug k t)" using s2 at(4,5) dist by (simp add: mm_tree_plug)
  moreover have "payload (mm_heap s2) = payload (mm_heap s)" using touchesD(2) [OF s1(3)] touchesD(2) [OF s2(4)] by simp
  ultimately show ?thesis using n s1(1) s2(1) by (simp add: unlink_one_def Let_def)
qed

text \<open>A node off the tree takes the place of the node \<open>x\<close>, when it has the left child already.\<close>

lemma take_place_eq:
  assumes at: "mm_root s = kroot k (Some x)" "ctx_at (mm_heap s) (Some x) k" "tree_at (mm_heap s) (Some m) l"
      "tree_at (mm_heap s) (Some x) r" "r \<noteq> Leaf" "kdist k" "distinct (ptrs l)" "distinct (ptrs r)"
    and x: "mm_heap s x = Some n" "nd_parent n = top_ptr k" "nd_right n = root_of r"
    and m: "mm_heap s m = Some t" "nd_color t = c" "nd_left t = root_of l"
    and dist: "m \<noteq> x" "m \<notin> kptrs k" "m \<notin> set (ptrs l)" "m \<notin> set (ptrs r)" "x \<notin> kptrs k" "x \<notin> set (ptrs l)" "x \<notin> set (ptrs r)"
      "set (ptrs l) \<inter> set (ptrs r) = {}" "set (ptrs l) \<inter> kptrs k = {}" "set (ptrs r) \<inter> kptrs k = {}"
  shows "\<exists>s'. take_place (Some x) (Some m) s = ret s' \<and> mm_tree s' (plug k (Node l (m, c) r)) \<and>
    payload (mm_heap s') = payload (mm_heap s)"
proof -
  define s1 where "s1 = s\<lparr>mm_heap := (mm_heap s)(m \<mapsto> t\<lparr>nd_right := root_of r\<rparr>)\<rparr>"
  have t1: "touches {m} s s1" unfolding s1_def by (rule payload_upd [OF m(1)]) simp_all
  have "tree_at (mm_heap s1) (Some x) r" using at(4) dist by (simp add: s1_def)
  from adopt_tree [OF this at(8), of "Some m"] obtain s2 where s2: "adopt (root_of r) (Some m) s1 = ret s2"
    "tree_at (mm_heap s2) (Some m) r" "touches (set (ptrs r)) s1 s2" "mm_root s2 = mm_root s1" by blast
  have r: "upd_node (root_of r) (set_parent (Some m)) s1 = ret s2" using s2(1) at(5) by (simp add: adopt_def)
  have h2: "mm_heap s2 m = Some (t\<lparr>nd_right := root_of r\<rparr>)" "mm_heap s2 x = Some n"
    using touchesD(1) [OF s2(3)] dist x(1) by (simp_all add: s1_def)
  define s3 where "s3 = s2\<lparr>mm_heap := (mm_heap s2)(m \<mapsto> set_parent (top_ptr k) (t\<lparr>nd_right := root_of r\<rparr>))\<rparr>"
  have t3: "touches {m} s2 s3" unfolding s3_def by (rule payload_upd [OF h2(1)]) simp_all
  have t03: "touches ({m} \<union> set (ptrs r) \<union> {m}) s s3" by (intro touches_trans [OF touches_trans [OF t1 s2(3)] t3])
  have "({m} \<union> set (ptrs r) \<union> {m}) \<inter> kptrs k = {}" using dist by blast
  then have "ctx_at (mm_heap s3) (Some x) k" using touches_ctx [OF t03] at(2) by simp
  then obtain s4 where s4: "relink Lft (top_ptr k) (Some x) (Some m) s3 = ret s4" "ctx_at (mm_heap s4) (Some m) k"
    "mm_root s4 = kroot k (Some m)" "touches (kptrs k) s3 s4"
    using relink_ctx [of s3 x k Lft "Some m"] at(1,6) dist s2(4) by (auto simp: s1_def s3_def)
  have run: "take_place (Some x) (Some m) s = ret s4"
    using x m(1) r h2 s4(1) by (simp add: take_place_def node_at_eq upd_node_eq s1_def [symmetric] s3_def [symmetric])
  have t04: "touches ({m} \<union> set (ptrs r) \<union> {m} \<union> kptrs k) s s4" by (rule touches_trans [OF t03 s4(4)])
  have "({m} \<union> set (ptrs r) \<union> {m} \<union> kptrs k) \<inter> set (ptrs l) = {}" using dist by blast
  then have "tree_at (mm_heap s4) (Some m) l" using touches_tree [OF t04] at(3) by blast
  moreover have "touches ({m} \<union> kptrs k) s2 s4" by (rule touches_trans [OF t3 s4(4)])
  then have "tree_at (mm_heap s4) (Some m) r" using touches_tree [of "{m} \<union> kptrs k" s2 s4 r] s2(2) dist by auto
  moreover have "mm_heap s4 m = Some (set_parent (top_ptr k) (t\<lparr>nd_right := root_of r\<rparr>))"
    using touchesD(1) [OF s4(4)] dist by (simp add: s3_def)
  then have "dlinks (mm_heap s4) m c (top_ptr k) Lft (root_of l) (root_of r)"
    using m(2,3) by (simp add: dlinks_def set_parent_def)
  ultimately have "mm_tree s4 (plug k (Node l (m, c) r))" using s4(2,3) at(6-8) dist by (auto simp: mm_tree_plug)
  then show ?thesis using run touchesD(2) [OF t04] by blast
qed

text \<open>The predecessor deeper in the left tree is taken out, and that tree hung below it.\<close>

lemma lift_pred_eq:
  assumes "mm_tree s (plug (Frame Rgt q cq b # j @ Frame Lft x c r # k) (Node tm (m, cm) Leaf))"
  defines "l \<equiv> plug (Frame Rgt q cq b # j) tm"
  shows "\<exists>s'. lift_pred (Some x) (Some m) (Some q) (root_of tm) s = ret s' \<and> payload (mm_heap s') = payload (mm_heap s) \<and>
    mm_root s' = mm_root s \<and> ctx_at (mm_heap s') (Some x) k \<and> tree_at (mm_heap s') (Some m) l \<and> tree_at (mm_heap s') (Some x) r \<and>
    (\<exists>n. mm_heap s' x = Some n \<and> nd_parent n = top_ptr k \<and> nd_right n = root_of r) \<and>
    (\<exists>t. mm_heap s' m = Some t \<and> nd_color t = cm \<and> nd_left t = root_of l)"
proof -
  let ?K = "j @ Frame Lft x c r # k"
  have P: "mm_tree s (plug ?K (Node b (q, cq) (Node tm (m, cm) Leaf)))" using assms(1) by (simp add: nod_def)
  have at: "ctx_at (mm_heap s) (Some q) ?K" "tree_at (mm_heap s) (Some q) b" "tree_at (mm_heap s) (Some m) tm"
      "dlinks (mm_heap s) q cq (top_ptr ?K) Lft (root_of b) (Some m)" "mm_root s = kroot ?K (Some q)" "kdist ?K"
      "dlinks (mm_heap s) m cm (Some q) Lft (root_of tm) None"
    and dist: "distinct (ptrs b)" "distinct (ptrs tm)" "q \<noteq> m" "q \<notin> set (ptrs b)" "q \<notin> set (ptrs tm)" "q \<notin> kptrs ?K"
      "m \<notin> set (ptrs b)" "m \<notin> set (ptrs tm)" "m \<notin> kptrs ?K" "set (ptrs b) \<inter> set (ptrs tm) = {}"
      "set (ptrs b) \<inter> kptrs ?K = {}" "set (ptrs tm) \<inter> kptrs ?K = {}"
    using P by (auto simp: mm_tree_plug)
  obtain nq where nq: "mm_heap s q = Some nq" "nd_color nq = cq" "nd_parent nq = top_ptr ?K" "nd_left nq = root_of b"
    using at(4) by (auto simp: dlinks_def)
  obtain t where t: "mm_heap s m = Some t" "nd_color t = cm" using at(7) by (auto simp: dlinks_def)
  define s1 where "s1 = s\<lparr>mm_heap := (mm_heap s)(q \<mapsto> nq\<lparr>nd_right := root_of tm\<rparr>)\<rparr>"
  have t1: "touches {q} s s1" unfolding s1_def by (rule payload_upd [OF nq(1)]) simp_all
  have "tree_at (mm_heap s1) (Some m) tm" using at(3) dist by (simp add: s1_def)
  from adopt_tree [OF this dist(2), of "Some q"] obtain s2 where s2: "adopt (root_of tm) (Some q) s1 = ret s2"
    "tree_at (mm_heap s2) (Some q) tm" "touches (set (ptrs tm)) s1 s2" "mm_root s2 = mm_root s1" by blast
  have t12: "touches ({q} \<union> set (ptrs tm)) s s2" by (rule touches_trans [OF t1 s2(3)])
  have "({q} \<union> set (ptrs tm)) \<inter> kptrs ?K = {}" "({q} \<union> set (ptrs tm)) \<inter> set (ptrs b) = {}" using dist by blast+
  then have "ctx_at (mm_heap s2) (Some q) ?K" "tree_at (mm_heap s2) (Some q) b" using touches_ctx [OF t12] touches_tree [OF t12] at(1,2) by blast+
  moreover have "mm_heap s2 q = Some (nq\<lparr>nd_right := root_of tm\<rparr>)" using touchesD(1) [OF s2(3)] dist by (simp add: s1_def)
  then have "dlinks (mm_heap s2) q cq (top_ptr ?K) Lft (root_of b) (root_of tm)" using nq by (simp add: dlinks_def)
  ultimately have "mm_tree s2 (plug ?K (Node b (q, cq) tm))" using at(5,6) dist s2(2,4)
    by (auto simp: mm_tree_plug s1_def)
  then have T2: "mm_tree s2 (plug k (Node l (x, c) r))" by (simp add: l_def plug_append nod_def)
  have m: "m \<notin> set (ptrs (plug k (Node l (x, c) r)))"
  proof -
    have "plug k (Node l (x, c) r) = plug ?K (Node b (q, cq) tm)" by (simp add: l_def plug_append nod_def)
    then show ?thesis using dist by (simp add: ptrs_plug set_kptrs)
  qed
  have m2: "mm_heap s2 m = Some t" using touchesD(1) [OF t12] dist t(1) by simp
  obtain n where n: "mm_heap s2 x = Some n" "nd_left n = root_of l" "nd_right n = root_of r" "nd_parent n = top_ptr k"
    using T2 by (auto simp: mm_tree_plug dlinks_def)
  define s3 where "s3 = s2\<lparr>mm_heap := (mm_heap s2)(m \<mapsto> t\<lparr>nd_left := root_of l\<rparr>)\<rparr>"
  have t3: "touches {m} s2 s3" unfolding s3_def by (rule payload_upd [OF m2]) simp_all
  have ml: "m \<notin> set (ptrs l)" "m \<notin> set (ptrs r)" "m \<notin> kptrs k" "m \<noteq> x" using m by (auto simp: ptrs_plug set_kptrs)
  have L: "tree_at (mm_heap s2) (Some x) l" "distinct (ptrs l)" "tree_at (mm_heap s2) (Some x) r" "ctx_at (mm_heap s2) (Some x) k"
      "mm_root s2 = kroot k (Some x)"
    and Ld: "x \<notin> set (ptrs l)" "set (ptrs l) \<inter> set (ptrs r) = {}" "set (ptrs l) \<inter> kptrs k = {}"
    using T2 by (auto simp: mm_tree_plug)
  have "tree_at (mm_heap s3) (Some x) l" using L(1) ml by (simp add: s3_def)
  from adopt_tree [OF this L(2), of "Some m"] obtain s4 where s4: "adopt (root_of l) (Some m) s3 = ret s4"
    "tree_at (mm_heap s4) (Some m) l" "touches (set (ptrs l)) s3 s4" "mm_root s4 = mm_root s3" by blast
  have "q \<in> set (ptrs l)" by (simp add: l_def ptrs_plug)
  then have "root_of l \<noteq> None" by auto
  then have a4: "upd_node (root_of l) (set_parent (Some m)) s3 = ret s4" using s4(1) by (simp add: adopt_def)
  have t34: "touches ({m} \<union> set (ptrs l)) s2 s4" by (rule touches_trans [OF t3 s4(3)])
  have "({m} \<union> set (ptrs l)) \<inter> kptrs k = {}" "({m} \<union> set (ptrs l)) \<inter> set (ptrs r) = {}" using ml Ld by blast+
  then have "ctx_at (mm_heap s4) (Some x) k" "tree_at (mm_heap s4) (Some x) r" using touches_ctx [OF t34] touches_tree [OF t34] L by blast+
  moreover have "mm_heap s4 x = Some n" "mm_heap s4 m = Some (t\<lparr>nd_left := root_of l\<rparr>)"
    using touchesD(1) [OF s4(3)] ml Ld n(1) by (simp_all add: s3_def)
  moreover have "payload (mm_heap s4) = payload (mm_heap s)" using touchesD(2) [OF t12] touchesD(2) [OF t34] by simp
  moreover have "mm_root s4 = mm_root s" using s4(4) s2(4) by (simp add: s1_def s3_def)
  moreover have "lift_pred (Some x) (Some m) (Some q) (root_of tm) s = ret s4"
    using nq(1) s2(1) n(1,2) m2 a4 by (simp add: lift_pred_def node_at_eq upd_node_eq s1_def [symmetric] s3_def [symmetric])
  ultimately show ?thesis using s4(2) n t(2) by auto
qed

lemma unlink_two_eq:
  assumes "mm_tree s (plug k (Node l (x, c) r))" and "l \<noteq> Leaf" and "r \<noteq> Leaf" and "mm_heap s x = Some n"
  shows "\<exists>j m cm tm s'. unlink_two (Some x) n s = ret (root_of tm, top_ptr (j @ Frame Lft m c r # k), cm, s') \<and>
    l = plug j (Node tm (m, cm) Leaf) \<and> spine Rgt j \<and> mm_tree s' (plug (j @ Frame Lft m c r # k) tm) \<and>
    payload (mm_heap s') = payload (mm_heap s)"
proof -
  have "mm_tree s (plug (Frame Lft x c r # k) l)" using assms(1) by (simp add: nod_def)
  from walk_down_loop [OF this assms(2), of Rgt] obtain j tm m cm where down: "loop (walk_down Rgt s) (root_of l) = ret (Some m)"
    "l = plug j (Node tm (m, cm) Leaf)" "spine Rgt j" by (auto simp: nod_def)
  have n: "nd_left n = root_of l" "nd_color n = c" "nd_parent n = top_ptr k"
    using assms(1,4) by (auto simp: mm_tree_plug dlinks_def)
  let ?K = "j @ Frame Lft x c r # k"
  have T: "mm_tree s (plug ?K (nod Lft tm (m, cm) Leaf))" using assms(1) down(2) by (simp add: plug_append nod_def)
  from T obtain t where t: "node_at (Some m) s = ret t" "nd_color t = cm" "nd_parent t = top_ptr ?K" "child Lft t = root_of tm"
    by (rule node_zip)
  from set_color_zip [OF T, of c] obtain s1 where s1: "set_color (Some m) c s = ret s1"
    "mm_tree s1 (plug ?K (Node tm (m, c) Leaf))" "payload (mm_heap s1) = payload (mm_heap s)" by (auto simp: nod_def)
  have T1: "mm_tree s1 (plug k (Node (plug j (Node tm (m, c) Leaf)) (x, c) r))" using s1(2) by (simp add: plug_append nod_def)
  then obtain n1 where n1: "mm_heap s1 x = Some n1" "nd_parent n1 = top_ptr k" "nd_right n1 = root_of r"
    by (auto simp: mm_tree_plug dlinks_def)
  have at: "mm_root s1 = kroot k (Some x)" "ctx_at (mm_heap s1) (Some x) k" "tree_at (mm_heap s1) (Some x) r" "kdist k" "distinct (ptrs r)"
    "tree_at (mm_heap s1) (Some x) (plug j (Node tm (m, c) Leaf))"
    using T1 by (auto simp: mm_tree_plug)
  let ?l = "plug j tm"
  have dist: "m \<noteq> x" "m \<notin> kptrs k" "m \<notin> set (ptrs ?l)" "m \<notin> set (ptrs r)" "x \<notin> kptrs k" "x \<notin> set (ptrs ?l)" "x \<notin> set (ptrs r)"
      "set (ptrs ?l) \<inter> set (ptrs r) = {}" "set (ptrs ?l) \<inter> kptrs k = {}" "set (ptrs r) \<inter> kptrs k = {}" "distinct (ptrs ?l)"
    using T1 by (auto simp: mm_tree_def distinct_plug ptrs_plug set_kptrs)
  have result: ?thesis if "unlink_two (Some x) n s = ret (root_of tm, top_ptr (j @ Frame Lft m c r # k), cm, s')"
    "mm_tree s' (plug k (Node ?l (m, c) r))" "payload (mm_heap s') = payload (mm_heap s)" for s'
    using that down(2,3) by (intro exI [of _ j] exI [of _ m] exI [of _ cm] exI [of _ tm] exI [of _ s'])
      (simp add: plug_append nod_def)
  show ?thesis
  proof (cases j)
    case Nil
    have "mm_tree s1 (plug (Frame Lft x c r # k) (Node tm (m, c) Leaf))" using s1(2) Nil by simp
    then obtain t1 where t1: "mm_heap s1 m = Some t1" "nd_color t1 = c" "nd_left t1 = root_of tm"
      and tm: "tree_at (mm_heap s1) (Some m) tm" unfolding mm_tree_plug by (auto simp: dlinks_def)
    have "\<exists>s'. take_place (Some x) (Some m) s1 = ret s' \<and> mm_tree s' (plug k (Node tm (m, c) r)) \<and>
        payload (mm_heap s') = payload (mm_heap s1)"
      by (rule take_place_eq [OF at(1,2) tm at(3) assms(3) at(4) _ at(5) n1 t1]) (use dist Nil in simp_all)
    then obtain s' where "take_place (Some x) (Some m) s1 = ret s'" "mm_tree s' (plug k (Node tm (m, c) r))"
      "payload (mm_heap s') = payload (mm_heap s1)" by blast
    then show ?thesis using result [of s'] n down(1) t s1 Nil by (simp add: unlink_two_def top_ptr_def)
  next
    case (Cons f j0)
    then obtain q cq b where f: "f = Frame Rgt q cq b" using down(3) by (cases f) (simp add: spine_def)
    have "mm_tree s1 (plug (Frame Rgt q cq b # j0 @ Frame Lft x c r # k) (Node tm (m, c) Leaf))" using s1(2) Cons f by simp
    from lift_pred_eq [OF this] obtain s2 n2 t2 where s2: "lift_pred (Some x) (Some m) (Some q) (root_of tm) s1 = ret s2"
      "payload (mm_heap s2) = payload (mm_heap s1)" "mm_root s2 = mm_root s1" "ctx_at (mm_heap s2) (Some x) k"
      "tree_at (mm_heap s2) (Some m) ?l" "tree_at (mm_heap s2) (Some x) r"
      and n2: "mm_heap s2 x = Some n2" "nd_parent n2 = top_ptr k" "nd_right n2 = root_of r"
      and t2: "mm_heap s2 m = Some t2" "nd_color t2 = c" "nd_left t2 = root_of ?l"
      using Cons f by auto
    have "\<exists>s'. take_place (Some x) (Some m) s2 = ret s' \<and> mm_tree s' (plug k (Node ?l (m, c) r)) \<and>
        payload (mm_heap s') = payload (mm_heap s2)"
      by (rule take_place_eq [OF _ s2(4-6) assms(3) at(4) _ at(5) n2 t2]) (use dist s2(3) at(1) in simp_all)
    then obtain s' where s': "take_place (Some x) (Some m) s2 = ret s'" "mm_tree s' (plug k (Node ?l (m, c) r))"
      "payload (mm_heap s') = payload (mm_heap s2)" by blast
    have "q \<in> set (ptrs ?l)" using Cons f by (simp add: ptrs_plug)
    then have "q \<noteq> x" using dist(6) by auto
    then show ?thesis using result [of s'] n down(1) t s1 s2(1,2) s' Cons f by (simp add: unlink_two_def top_ptr_def)
  qed
qed

subsection \<open>One pass of the removal\<close>

lemma red_sibling_eq:
  assumes "mm_tree s (plug k (nod d t (p, cp) (nod d sl (b, cb) sr)))"
  shows "\<exists>s'. red_sibling d (Some p) (Some b) s = ret (root_of sl, s') \<and> payload (mm_heap s') = payload (mm_heap s) \<and>
    mm_tree s' (plug (Frame d b IBV_BLACK sr # k) (nod d t (p, IBV_RED) sl))"
proof -
  from set_color_zip [OF assms, of IBV_RED] obtain s1 where s1: "set_color (Some p) IBV_RED s = ret s1"
    "mm_tree s1 (plug k (nod d t (p, IBV_RED) (nod d sl (b, cb) sr)))" "payload (mm_heap s1) = payload (mm_heap s)" by blast
  have "mm_tree s1 (plug (Frame (opp d) p IBV_RED t # k) (nod d sl (b, cb) sr))" using s1(2) by (simp add: nod_opp)
  from set_color_zip [OF this, of IBV_BLACK] obtain s2 where s2: "set_color (Some b) IBV_BLACK s1 = ret s2"
    "mm_tree s2 (plug k (nod d t (p, IBV_RED) (nod d sl (b, IBV_BLACK) sr)))" "payload (mm_heap s2) = payload (mm_heap s1)"
    by (auto simp: nod_opp)
  have "mm_tree s2 (plug k (nod (opp d) (nod (opp d) sr (b, IBV_BLACK) sl) (p, IBV_RED) t))" using s2(2) by (simp add: nod_opp)
  from rotate_zip [OF this] obtain s3 where s3: "mm_rotate (opp d) (Some p) s2 = ret s3"
    "mm_tree s3 (plug (Frame d b IBV_BLACK sr # k) (nod d t (p, IBV_RED) sl))" "payload (mm_heap s3) = payload (mm_heap s2)"
    by (auto simp: nod_opp)
  from s3(2) obtain n where "node_at (Some p) s3 = ret n" "child (opp d) n = root_of sl" by (rule node_zip)
  with s1 s2 s3 show ?thesis by (simp add: red_sibling_def)
qed

lemma near_nephew_eq:
  assumes "mm_tree s (plug k (nod d t (p, cp) (nod d (nod d t1 (y, cy) t2) (b, cb) sr)))"
  shows "\<exists>s'. near_nephew d (Some p) (Some b) s = ret (Some y, s') \<and> payload (mm_heap s') = payload (mm_heap s) \<and>
    mm_tree s' (plug k (nod d t (p, cp) (nod d t1 (y, IBV_BLACK) (nod d t2 (b, IBV_RED) sr))))"
proof -
  let ?k = "Frame (opp d) p cp t # k"
  have T: "mm_tree s (plug ?k (nod d (nod d t1 (y, cy) t2) (b, cb) sr))" using assms by (simp add: nod_opp)
  from T obtain n where n: "node_at (Some b) s = ret n" "child d n = Some y" by (rule node_zip) simp
  have "mm_tree s (plug (Frame d b cb sr # ?k) (nod d t1 (y, cy) t2))" using T by simp
  from set_color_zip [OF this, of IBV_BLACK] obtain s1 where s1: "set_color (Some y) IBV_BLACK s = ret s1"
    "mm_tree s1 (plug ?k (nod d (nod d t1 (y, IBV_BLACK) t2) (b, cb) sr))" "payload (mm_heap s1) = payload (mm_heap s)" by auto
  from set_color_zip [OF s1(2), of IBV_RED] obtain s2 where s2: "set_color (Some b) IBV_RED s1 = ret s2"
    "mm_tree s2 (plug ?k (nod d (nod d t1 (y, IBV_BLACK) t2) (b, IBV_RED) sr))" "payload (mm_heap s2) = payload (mm_heap s1)" by blast
  from rotate_zip [OF s2(2)] obtain s3 where s3: "mm_rotate d (Some b) s2 = ret s3"
    "mm_tree s3 (plug k (nod d t (p, cp) (nod d t1 (y, IBV_BLACK) (nod d t2 (b, IBV_RED) sr))))"
    "payload (mm_heap s3) = payload (mm_heap s2)" by (auto simp: nod_opp)
  from s3(2) obtain m where "node_at (Some p) s3 = ret m" "child (opp d) m = Some y" by (rule node_zip) simp
  with n s1 s2 s3 show ?thesis by (simp add: near_nephew_def)
qed

lemma far_nephew_eq:
  assumes "mm_tree s (plug k (nod d t (p, cp) (nod d sl (b, cb) sr)))" and "sr \<noteq> Leaf"
  shows "\<exists>s'. far_nephew d (Some p) (Some b) s = ret s' \<and> payload (mm_heap s') = payload (mm_heap s) \<and>
    mm_tree s' (plug k (nod d (nod d t (p, IBV_BLACK) sl) (b, cp) (blacken sr)))"
proof -
  from assms(1) obtain n where n: "node_at (Some p) s = ret n" "nd_color n = cp" by (rule node_zip)
  have "mm_tree s (plug (Frame (opp d) p cp t # k) (nod d sl (b, cb) sr))" using assms(1) by (simp add: nod_opp)
  from set_color_zip [OF this, of cp] obtain s1 where s1: "set_color (Some b) cp s = ret s1"
    "mm_tree s1 (plug k (nod d t (p, cp) (nod d sl (b, cp) sr)))" "payload (mm_heap s1) = payload (mm_heap s)"
    by (auto simp: nod_opp)
  from set_color_zip [OF s1(2), of IBV_BLACK] obtain s2 where s2: "set_color (Some p) IBV_BLACK s1 = ret s2"
    "mm_tree s2 (plug k (nod d t (p, IBV_BLACK) (nod d sl (b, cp) sr)))" "payload (mm_heap s2) = payload (mm_heap s1)" by blast
  have T2: "mm_tree s2 (plug (Frame (opp d) p IBV_BLACK t # k) (nod d sl (b, cp) sr))" using s2(2) by (simp add: nod_opp)
  from T2 obtain m where m: "node_at (Some b) s2 = ret m" "child (opp d) m = root_of sr" by (rule node_zip)
  have "mm_tree s2 (plug (Frame (opp d) b cp sl # Frame (opp d) p IBV_BLACK t # k) sr)" using T2 by (simp add: nod_opp)
  from set_color_root [OF this assms(2)] obtain s3 where s3: "set_color (root_of sr) IBV_BLACK s2 = ret s3"
    "mm_tree s3 (plug k (nod (opp d) (nod (opp d) (blacken sr) (b, cp) sl) (p, IBV_BLACK) t))"
    "payload (mm_heap s3) = payload (mm_heap s2)" by (auto simp: nod_opp)
  from rotate_zip [OF s3(2)] obtain s4 where s4: "mm_rotate (opp d) (Some p) s3 = ret s4"
    "mm_tree s4 (plug k (nod d (nod d t (p, IBV_BLACK) sl) (b, cp) (blacken sr)))"
    "payload (mm_heap s4) = payload (mm_heap s3)" by (auto simp: nod_opp)
  with n s1 s2 m s3 assms(2) show ?thesis by (simp add: far_nephew_def)
qed

lemma black_sibling_nephews:
  assumes "mm_tree s (plug k (nod d t (p, cp) (nod d sl (b, cb) sr)))"
  shows "\<exists>n. node_at (Some b) s = ret n \<and> child d n = root_of sl \<and> child (opp d) n = root_of sr \<and>
    is_red (root_of sl) s = ret (col sl = IBV_RED) \<and> is_red (root_of sr) s = ret (col sr = IBV_RED)"
proof -
  let ?k = "Frame (opp d) p cp t # k"
  have T: "mm_tree s (plug ?k (nod d sl (b, cb) sr))" using assms by (simp add: nod_opp)
  then have "is_red (root_of sl) s = ret (col sl = IBV_RED)" "is_red (root_of sr) s = ret (col sr = IBV_RED)"
    using is_red_zip [of s "Frame d b cb sr # ?k" sl] is_red_zip [of s "Frame (opp d) b cb sl # ?k" sr] by (simp_all add: nod_opp)
  with node_zip [OF T] show ?thesis by metis
qed

lemma black_sibling_paint:
  assumes "mm_tree s (plug k (nod d t (p, cp) (nod d sl (b, cb) sr)))" and "col sl = IBV_BLACK" and "col sr = IBV_BLACK"
  shows "\<exists>s'. black_sibling d (Some p) (Some b) s = ret (Next (Some p, top_ptr k, s')) \<and> payload (mm_heap s') = payload (mm_heap s) \<and>
    mm_tree s' (plug k (nod d t (p, cp) (nod d sl (b, IBV_RED) sr)))"
proof -
  obtain n where n: "node_at (Some b) s = ret n" "child d n = root_of sl" "child (opp d) n = root_of sr"
    "is_red (root_of sl) s = ret False" "is_red (root_of sr) s = ret False"
    using black_sibling_nephews [OF assms(1)] assms(2,3) by auto
  have "mm_tree s (plug (Frame (opp d) p cp t # k) (nod d sl (b, cb) sr))" using assms(1) by (simp add: nod_opp)
  from set_color_zip [OF this, of IBV_RED] obtain s1 where s1: "set_color (Some b) IBV_RED s = ret s1"
    "mm_tree s1 (plug k (nod d t (p, cp) (nod d sl (b, IBV_RED) sr)))" "payload (mm_heap s1) = payload (mm_heap s)"
    by (auto simp: nod_opp)
  from s1(2) obtain m where "node_at (Some p) s1 = ret m" "nd_parent m = top_ptr k" by (rule node_zip)
  with n s1 show ?thesis by (simp add: black_sibling_def)
qed

lemma black_sibling_far:
  assumes "mm_tree s (plug k (nod d t (p, cp) (nod d sl (b, cb) sr)))" and "col sr = IBV_RED"
  shows "\<exists>s'. black_sibling d (Some p) (Some b) s = ret (Return (mm_root s', s')) \<and> payload (mm_heap s') = payload (mm_heap s) \<and>
    mm_tree s' (plug k (nod d (nod d t (p, IBV_BLACK) sl) (b, cp) (blacken sr)))"
proof -
  have "sr \<noteq> Leaf" using assms(2) by auto
  from far_nephew_eq [OF assms(1) this] black_sibling_nephews [OF assms(1)] assms(2) show ?thesis
    by (auto simp: black_sibling_def)
qed

lemma black_sibling_near:
  assumes "mm_tree s (plug k (nod d t (p, cp) (nod d (nod d t1 (y, IBV_RED) t2) (b, cb) sr)))" and "col sr = IBV_BLACK"
  shows "\<exists>s'. black_sibling d (Some p) (Some b) s = ret (Return (mm_root s', s')) \<and> payload (mm_heap s') = payload (mm_heap s) \<and>
    mm_tree s' (plug k (nod d (nod d t (p, IBV_BLACK) t1) (y, cp) (nod d t2 (b, IBV_BLACK) sr)))"
proof -
  from near_nephew_eq [OF assms(1)] obtain s1 where s1: "near_nephew d (Some p) (Some b) s = ret (Some y, s1)"
    "payload (mm_heap s1) = payload (mm_heap s)"
    "mm_tree s1 (plug k (nod d t (p, cp) (nod d t1 (y, IBV_BLACK) (nod d t2 (b, IBV_RED) sr))))" by blast
  from far_nephew_eq [OF s1(3)] s1(1,2) black_sibling_nephews [OF assms(1)] assms(2) show ?thesis
    by (auto simp: black_sibling_def)
qed

subsection \<open>The loop of the removal\<close>

lemma blacken_id: "col t = IBV_BLACK \<Longrightarrow> blacken t = t"
  by (cases t rule: blacken.cases) auto

lemma bh_blacken: "bh (blacken t) = (if col t = IBV_RED then bh t + 1 else bh t)"
  by (cases t rule: blacken.cases) auto

lemma remove_fix_Next: "remove_step (c, p, s) = ret (Next (c', p', s')) \<Longrightarrow> remove_fix c p s = remove_fix c' p' s'"
  by (simp add: remove_fix_def loop_Next)

lemma remove_fix_Return: "remove_step (c, p, s) = ret (Return (c', s')) \<Longrightarrow>
    remove_fix c p s = (if c' \<noteq> None then set_color c' IBV_BLACK s' else ret s')"
  by (simp add: remove_fix_def loop_Return)

definition fixed :: "nat option \<Rightarrow> nat option \<Rightarrow> mm_state \<Rightarrow> nat list \<Rightarrow> bool" where
  "fixed c p s xs \<longleftrightarrow> (\<exists>s' t. remove_fix c p s = ret s' \<and> mm_tree s' t \<and> rb_tree t \<and> ptrs t = xs \<and>
     payload (mm_heap s') = payload (mm_heap s))"

text \<open>The loop ends at a red node, which is painted black, and at the root.\<close>

lemma remove_exit:
  assumes "mm_tree s (plug k t)" and "rb (blacken t)" and "krb (bh t + 1) IBV_BLACK k" and "kblack k" and "col t = IBV_RED \<or> k = []"
  shows "fixed (root_of t) (top_ptr k) s (ptrs (plug k t))"
proof -
  have "mm_root s = root_of t" if "k = []" using assms(1) that by (simp add: mm_tree_def)
  then have step: "remove_step (root_of t, top_ptr k, s) = ret (Return (root_of t, s))"
    using is_red_zip [OF assms(1)] assms(5) by (auto simp: remove_step_def)
  have "rb (plug k (blacken t))" using assms(2,3,5) by (auto simp: rb_plug bh_blacken)
  moreover have "col (plug k (blacken t)) = IBV_BLACK" using assms(4) by (auto simp: col_plug kblack_def)
  ultimately have rb: "rb_tree (plug k (blacken t))" by (simp add: rb_tree_def)
  have "ptrs (plug k (blacken t)) = ptrs (plug k t)" by (rule ptrs_plug_cong) simp
  then show ?thesis
    using rb remove_fix_Return [OF step] set_color_root [OF assms(1)] assms(1) by (cases "t = Leaf") (auto simp: fixed_def)
qed

lemma remove_step_side:
  assumes "mm_tree s (plug (Frame d p cp sb # k) t)" and "col t = IBV_BLACK" and "sb \<noteq> Leaf"
  shows "remove_step (root_of t, Some p, s) = remove_side d (Some p) s"
proof -
  have T: "mm_tree s (plug k (nod d t (p, cp) sb))" using assms(1) by simp
  then obtain n where n: "node_at (Some p) s = ret n" "child d n = root_of t" "child (opp d) n = root_of sb" by (rule node_zip)
  have "set (ptrs t) \<inter> set (ptrs sb) = {}" using T by (auto simp: mm_tree_def distinct_plug)
  then have "root_of sb \<noteq> root_of t"
    using assms(3) root_in_ptrs [of t] root_in_ptrs [of sb] by (cases "root_of sb") force+
  then have side: "(if nd_left n = root_of t then Lft else Rgt) = d" using n by (cases d) auto
  have "root_of t \<noteq> mm_root s"
  proof
    assume eq: "root_of t = mm_root s"
    have "mm_root s = root_of (plug k (nod d t (p, cp) sb))" using T by (simp add: mm_tree_def)
    then have r: "mm_root s = kroot k (Some p)" by (simp add: root_of_plug)
    have "kroot k (Some p) = Some p \<or> (\<exists>y \<in> kptrs k. kroot k (Some p) = Some y)" by (induction k "Some p" arbitrary: p rule: kroot.induct) auto
    with r eq obtain y where "root_of t = Some y" "y = p \<or> y \<in> kptrs k" by auto
    with T root_in_ptrs [of t y] show False by (auto simp: mm_tree_def distinct_plug)
  qed
  then show ?thesis using is_red_zip [OF assms(1)] assms(2) n(1) side by (simp add: remove_step_def)
qed

text \<open>What a black sibling leads to.\<close>

lemma black_sibling_cases:
  assumes "mm_tree s (plug k (nod d t (p, cp) (nod d sl (b, IBV_BLACK) sr)))"
    and "rb t" and "col t = IBV_BLACK" and "rb sl" and "rb sr" and "bh sl = bh t" and "bh sr = bh t"
    and "krb (bh t + 1 + weight cp) cp k"
  obtains (ends) s' t' where "black_sibling d (Some p) (Some b) s = ret (Return (mm_root s', s'))" "mm_tree s' t'" "rb t'"
      "t' \<noteq> Leaf" "ptrs t' = ptrs (plug k (nod d t (p, cp) (nod d sl (b, IBV_BLACK) sr)))" "payload (mm_heap s') = payload (mm_heap s)"
  | (goes) s' t' where "black_sibling d (Some p) (Some b) s = ret (Next (Some p, top_ptr k, s'))" "mm_tree s' (plug k t')"
      "rb (blacken t')" "krb (bh t' + 1) IBV_BLACK k" "col t' = cp" "root_of t' = Some p"
      "ptrs t' = ptrs (nod d t (p, cp) (nod d sl (b, IBV_BLACK) sr))" "payload (mm_heap s') = payload (mm_heap s)"
proof -
  let ?T = "nod d t (p, cp) (nod d sl (b, IBV_BLACK) sr)"
  have ends': thesis if "black_sibling d (Some p) (Some b) s = ret (Return (mm_root s', s'))" "payload (mm_heap s') = payload (mm_heap s)"
    "mm_tree s' (plug k (nod d l (x, cp) r))" "rb (nod d l (x, cp) r)" "bh r = bh t + 1"
    "ptrs (nod d l (x, cp) r) = ptrs ?T" for s' l x r
  proof -
    have "bh (nod d l (x, cp) r) = bh t + 1 + weight cp" using that(4,5) by (simp add: bh_nod)
    then have "rb (plug k (nod d l (x, cp) r))" using that(4) assms(8) by (simp add: rb_plug)
    moreover have "x \<in> set (ptrs (plug k (nod d l (x, cp) r)))" by (simp add: ptrs_plug)
    then have "plug k (nod d l (x, cp) r) \<noteq> Leaf" by auto
    ultimately show thesis using that(1-3) ptrs_plug_cong [OF that(6)] ends by blast
  qed
  consider "col sr = IBV_RED" | "col sr = IBV_BLACK" "col sl = IBV_RED" | "col sr = IBV_BLACK" "col sl = IBV_BLACK"
    by (cases "col sr"; cases "col sl") auto
  then show thesis
  proof cases
    case 1
    from black_sibling_far [OF assms(1) 1] show thesis
      using ends' [of _ "nod d t (p, IBV_BLACK) sl" b "blacken sr"] assms(2-7) 1
      by (auto simp: bh_nod bh_blacken ptrs_nod)
  next
    case 2
    then obtain t1 y t2 where sl: "sl = nod d t1 (y, IBV_RED) t2" by (cases sl rule: nod_cases [of _ _ d]) auto
    then have "rb t1" "rb t2" "bh t1 = bh t" "bh t2 = bh t" using assms(4,6) by (simp_all add: bh_nod)
    with black_sibling_near [OF assms(1) [unfolded sl] 2(1)] show thesis
      using ends' [of _ "nod d t (p, IBV_BLACK) t1" y "nod d t2 (b, IBV_BLACK) sr"] assms(2-7) sl
      by (auto simp: bh_nod ptrs_nod)
  next
    case 3
    let ?t = "nod d t (p, cp) (nod d sl (b, IBV_RED) sr)"
    from black_sibling_paint [OF assms(1) 3(2,1)] obtain s' where s': "black_sibling d (Some p) (Some b) s = ret (Next (Some p, top_ptr k, s'))"
      "payload (mm_heap s') = payload (mm_heap s)" "mm_tree s' (plug k ?t)" by blast
    have "rb (blacken ?t)" using assms(2-7) 3 by (simp add: bh_nod)
    moreover have "bh ?t = bh t + weight cp" using assms(6,7) by (simp add: bh_nod)
    moreover have "krb (bh t + 1 + weight cp) IBV_BLACK k" using assms(8) krb_black [of "bh t + 1 + weight cp" k] by (cases cp) auto
    moreover have "ptrs ?t = ptrs ?T" by (simp add: ptrs_nod)
    ultimately show thesis using goes [of s' ?t] s' by simp
  qed
qed

lemma fixed_end:
  assumes "remove_step (c, p, s) = ret (Return (mm_root s', s'))" and "mm_tree s' t" and "rb t" and "t \<noteq> Leaf" and "ptrs t = xs"
    and "payload (mm_heap s') = payload (mm_heap s)"
  shows "fixed c p s xs"
proof -
  have "mm_root s' \<noteq> None" using assms(2,4) by (simp add: mm_tree_def)
  with paint_root [OF assms(2-4)] remove_fix_Return [OF assms(1)] assms(5,6) show ?thesis
    by (auto simp: fixed_def intro!: exI [of _ "blacken t"])
qed

lemma fixed_next: "remove_step (c, p, s) = ret (Next (c', p', s')) \<Longrightarrow> payload (mm_heap s') = payload (mm_heap s) \<Longrightarrow>
    fixed c' p' s' xs \<Longrightarrow> fixed c p s xs"
  by (simp add: fixed_def remove_fix_Next)

lemma remove_loop:
  assumes "mm_tree s (plug k t)" and "rb (blacken t)" and "krb (bh t + 1) IBV_BLACK k" and "kblack k"
  shows "fixed (root_of t) (top_ptr k) s (ptrs (plug k t))"
  using assms
proof (induction k arbitrary: s t rule: length_induct)
  case (1 k)
  show ?case
  proof (cases "col t = IBV_RED \<or> k = []")
    case True
    with 1 show ?thesis by (intro remove_exit) auto
  next
    case False
    then have black: "col t = IBV_BLACK" by simp
    then have rbt: "rb t" using 1(3) by (simp add: blacken_id)
    from False obtain d p cp sb k0 where k: "k = Frame d p cp sb # k0" by (cases k) (auto, metis frame.exhaust)
    have sb: "rb sb" "bh sb = bh t + 1" "cp = IBV_RED \<Longrightarrow> col sb = IBV_BLACK" "krb (bh t + 1 + weight cp) cp k0" "kblack k0"
      using 1(4,5) k by (auto simp: kblack_Cons split: if_splits)
    then have "sb \<noteq> Leaf" by auto
    then obtain sl b cb sr where s: "sb = nod d sl (b, cb) sr" by (cases sb rule: nod_cases [of _ _ d]) auto
    have T: "mm_tree s (plug k0 (nod d t (p, cp) (nod d sl (b, cb) sr)))" using 1(2) k s by simp
    then obtain n where n: "node_at (Some p) s = ret n" "child (opp d) n = Some b" by (rule node_zip) simp
    from T have "mm_tree s (plug (Frame (opp d) p cp t # k0) (nod d sl (b, cb) sr))" by (simp add: nod_opp)
    then obtain m where m: "node_at (Some b) s = ret m" "nd_color m = cb" by (rule node_zip)
    have step: "remove_step (root_of t, top_ptr k, s) =
        bindC (if cb = IBV_RED then red_sibling d (Some p) (Some b) s else ret (Some b, s)) (\<lambda>(sib, s). black_sibling d (Some p) sib s)"
      using remove_step_side [of s d p cp sb k0 t] 1(2) k black \<open>sb \<noteq> Leaf\<close> n m by (simp add: remove_side_def top_ptr_def)
    have whole: "plug k0 (nod d t (p, cp) (nod d sl (b, cb) sr)) = plug k t" using k s by simp
    show ?thesis
    proof (cases cb)
      case IBV_BLACK
      then have bal: "rb sl" "rb sr" "bh sl = bh t" "bh sr = bh t" using sb(1,2) s by (auto simp: bh_nod)
      show ?thesis
      proof (rule black_sibling_cases [OF T [unfolded IBV_BLACK] rbt black bal sb(4)])
        fix s' t'
        assume "black_sibling d (Some p) (Some b) s = ret (Return (mm_root s', s'))" "mm_tree s' t'" "rb t'" "t' \<noteq> Leaf"
          "ptrs t' = ptrs (plug k0 (nod d t (p, cp) (nod d sl (b, IBV_BLACK) sr)))" "payload (mm_heap s') = payload (mm_heap s)"
        then show ?thesis using step IBV_BLACK whole by (intro fixed_end [of _ _ s s' t']) simp_all
      next
        fix s' t'
        assume *: "black_sibling d (Some p) (Some b) s = ret (Next (Some p, top_ptr k0, s'))" "mm_tree s' (plug k0 t')"
          "rb (blacken t')" "krb (bh t' + 1) IBV_BLACK k0" "root_of t' = Some p"
          "ptrs t' = ptrs (nod d t (p, cp) (nod d sl (b, IBV_BLACK) sr))" "payload (mm_heap s') = payload (mm_heap s)"
        have "ptrs (plug k0 t') = ptrs (plug k t)" using ptrs_plug_cong [OF *(6), of k0] IBV_BLACK whole by simp
        moreover have "fixed (Some p) (top_ptr k0) s' (ptrs (plug k0 t'))" using 1(1) k *(2-5) sb(5) by force
        ultimately show ?thesis using step IBV_BLACK *(1,7) by (intro fixed_next [of _ _ s "Some p" "top_ptr k0" s']) simp_all
      qed
    next
      case IBV_RED
      then have cp: "cp = IBV_BLACK" using sb(3) s by (cases cp) auto
      have bal: "rb sl" "rb sr" "bh sl = bh t + 1" "bh sr = bh t + 1" "col sl = IBV_BLACK" "col sr = IBV_BLACK"
        using sb(1,2) s IBV_RED by (auto simp: bh_nod)
      then obtain sa c sd where sl: "sl = nod d sa (c, IBV_BLACK) sd" by (cases sl rule: nod_cases [of _ _ d]) auto
      let ?k = "Frame d b IBV_BLACK sr # k0"
      from red_sibling_eq [OF T] obtain s1 where s1: "red_sibling d (Some p) (Some b) s = ret (Some c, s1)"
        "payload (mm_heap s1) = payload (mm_heap s)" "mm_tree s1 (plug ?k (nod d t (p, IBV_RED) (nod d sa (c, IBV_BLACK) sd)))"
        using sl by auto
      have bal1: "rb sa" "rb sd" "bh sa = bh t" "bh sd = bh t" using bal sl by (auto simp: bh_nod)
      have krb: "krb (bh t + 1 + weight IBV_RED) IBV_RED ?k" using bal sb(4) cp by simp
      have same: "ptrs (plug ?k (nod d t (p, IBV_RED) (nod d sa (c, IBV_BLACK) sd))) = ptrs (plug k t)"
        unfolding whole [symmetric] sl plug.simps by (rule ptrs_plug_cong) (simp add: ptrs_nod)
      have step1: "remove_step (root_of t, top_ptr k, s) = black_sibling d (Some p) (Some c) s1" using step s1(1) IBV_RED by simp
      show ?thesis
      proof (rule black_sibling_cases [OF s1(3) rbt black bal1 krb])
        fix s' t'
        assume "black_sibling d (Some p) (Some c) s1 = ret (Return (mm_root s', s'))" "mm_tree s' t'" "rb t'" "t' \<noteq> Leaf"
          "ptrs t' = ptrs (plug ?k (nod d t (p, IBV_RED) (nod d sa (c, IBV_BLACK) sd)))" "payload (mm_heap s') = payload (mm_heap s1)"
        then show ?thesis using step1 s1(2) same by (intro fixed_end [of _ _ s s' t']) simp_all
      next
        fix s' t'
        assume *: "black_sibling d (Some p) (Some c) s1 = ret (Next (Some p, top_ptr ?k, s'))" "mm_tree s' (plug ?k t')"
          "rb (blacken t')" "krb (bh t' + 1) IBV_BLACK ?k" "col t' = IBV_RED" "root_of t' = Some p"
          "ptrs t' = ptrs (nod d t (p, IBV_RED) (nod d sa (c, IBV_BLACK) sd))" "payload (mm_heap s') = payload (mm_heap s1)"
        have "kblack ?k" using sb(5) by (simp add: kblack_Cons)
        then have "fixed (root_of t') (top_ptr ?k) s' (ptrs (plug ?k t'))" using * by (intro remove_exit) simp_all
        moreover have "ptrs (plug ?k t') = ptrs (plug k t)" using ptrs_plug_cong [OF *(7), of ?k] same by simp
        ultimately show ?thesis using step1 *(1,6,8) s1(2) by (intro fixed_next [of _ _ s "Some p" "top_ptr ?k" s']) simp_all
      qed
    qed
  qed
qed

subsection \<open>Removal of a node\<close>

lemma remove_balance:
  assumes "mm_tree s (plug k u)" and "rb_tree (plug k (nod d u (z, c) Leaf))"
  shows "\<exists>s' t. (if c = IBV_RED then ret s else remove_fix (root_of u) (top_ptr k) s) = ret s' \<and> mm_tree s' t \<and> rb_tree t \<and>
    ptrs t = ptrs (plug k u) \<and> payload (mm_heap s') = payload (mm_heap s)"
proof -
  have u: "rb u" "bh u = 0" "c = IBV_RED \<Longrightarrow> col u = IBV_BLACK" "krb (weight c) c k" and root: "col (plug k (nod d u (z, c) Leaf)) = IBV_BLACK"
    using assms(2) by (auto simp: rb_tree_def rb_plug bh_nod)
  show ?thesis
  proof (cases c)
    case IBV_RED
    then have "k \<noteq> []" using root by (auto simp: col_plug)
    then have "rb_tree (plug k u)" using u root IBV_RED krb_black [of 0 k] by (simp add: rb_tree_def rb_plug col_plug)
    then show ?thesis using assms(1) IBV_RED by auto
  next
    case IBV_BLACK
    have "kblack k" using root by (auto simp: col_plug kblack_def split: if_splits)
    moreover have "krb (bh u + 1) IBV_BLACK k" using u IBV_BLACK by simp
    ultimately have "fixed (root_of u) (top_ptr k) s (ptrs (plug k u))" using assms(1) u by (intro remove_loop) simp_all
    then show ?thesis using IBV_BLACK by (auto simp: fixed_def)
  qed
qed

lemma rb_tree_rename: "rb_tree (plug (j @ Frame d x c b # k) t) \<longleftrightarrow> rb_tree (plug (j @ Frame d y c b # k) t)"
proof -
  have "krb n e (j @ Frame d x c b # k) = krb n e (j @ Frame d y c b # k)" for n e
  proof (induction j arbitrary: n e)
    case (Cons f j)
    then show ?case by (cases f) simp
  qed simp
  moreover have "hue (last (j @ Frame d x c b # k)) = hue (last (j @ Frame d y c b # k))" by simp
  ultimately show ?thesis by (simp add: rb_tree_def rb_plug col_plug)
qed

lemma mm_remove_eq:
  assumes "mm_tree s t" and "rb_tree t" and "ptrs t = xs @ x # ys"
  shows "\<exists>s' t'. mm_remove (Some x) s = ret s' \<and> mm_tree s' t' \<and> rb_tree t' \<and> ptrs t' = xs @ ys \<and>
    payload (mm_heap s') = (payload (mm_heap s))(x := None)"
proof -
  from assms(3) zipper [of x t Lft] obtain k l c r where t: "t = plug k (nod Lft l (x, c) r)" by auto
  have T: "mm_tree s (plug k (Node l (x, c) r))" using assms(1) t by (simp add: nod_def)
  from assms(1) [unfolded t] obtain n where n: "mm_heap s x = Some n" "node_at (Some x) s = ret n"
    "nd_left n = root_of l" "nd_right n = root_of r" by (rule node_zip) simp
  have dist: "x \<notin> set xs" "x \<notin> set ys" "x \<notin> set (ptrs l)" "x \<notin> set (ptrs r)" "x \<notin> kptrs k"
    using assms(1,3) T by (auto simp: mm_tree_def distinct_plug)
  have "xs @ x # ys = (kbefore k @ ptrs l) @ x # ptrs r @ kafter k" using assms(3) [symmetric] t by (simp add: ptrs_plug ptrs_nod)
  then have xy: "xs = kbefore k @ ptrs l" "ys = ptrs r @ kafter k" using iffD1 [OF append_Cons_eq_iff [OF dist(1,2)]] by blast+
  have finish: ?thesis
    if "(if l \<noteq> Leaf \<and> r \<noteq> Leaf then unlink_two (Some x) n s else unlink_one (Some x) n s) = ret (root_of u, top_ptr k', cu, s1)"
      and "mm_tree s1 (plug k' u)" and "payload (mm_heap s1) = payload (mm_heap s)" and "ptrs (plug k' u) = xs @ ys"
      and "rb_tree (plug k' (nod d u (z, cu) Leaf))" for u k' cu s1 d z
  proof -
    have "payload (mm_heap s1) x \<noteq> None" using that(3) n(1) by (simp add: payload_def)
    then obtain n1 where "mm_heap s1 x = Some n1" by (auto simp: payload_def)
    with free_node_eq [OF that(2), of x] that(4) dist obtain s2 where s2: "free_node (Some x) s1 = ret s2" "mm_tree s2 (plug k' u)"
      "payload (mm_heap s2) = (payload (mm_heap s1))(x := None)" by auto
    have "(if nd_left n \<noteq> None \<and> nd_right n \<noteq> None then unlink_two (Some x) n s else unlink_one (Some x) n s) =
        ret (root_of u, top_ptr k', cu, s1)" using that(1) n(3,4) by (simp del: not_None_eq)
    then have "mm_remove (Some x) s = (if cu = IBV_RED then ret s2 else remove_fix (root_of u) (top_ptr k') s2)"
      using n(2) s2(1) by (simp add: mm_remove_def)
    with remove_balance [OF s2(2) that(5)] that(3,4) s2(3) show ?thesis by auto
  qed
  show ?thesis
  proof (cases "l \<noteq> Leaf \<and> r \<noteq> Leaf")
    case True
    with unlink_two_eq [OF T _ _ n(1)] obtain j m cm tm s1 where s1: "unlink_two (Some x) n s = ret (root_of tm, top_ptr (j @ Frame Lft m c r # k), cm, s1)"
      "l = plug j (Node tm (m, cm) Leaf)" "spine Rgt j" "mm_tree s1 (plug (j @ Frame Lft m c r # k) tm)"
      "payload (mm_heap s1) = payload (mm_heap s)" by blast
    have "rb_tree (plug (j @ Frame Lft x c r # k) (nod Lft tm (m, cm) Leaf))" using assms(2) t s1(2) by (simp add: plug_append nod_def)
    then have "rb_tree (plug (j @ Frame Lft m c r # k) (nod Lft tm (m, cm) Leaf))" using rb_tree_rename by blast
    moreover have "ptrs (plug (j @ Frame Lft m c r # k) tm) = xs @ ys"
      using xy s1(2) spine_ends(1) [OF s1(3)] by (simp add: ptrs_plug kafter_append)
    ultimately show ?thesis
      using finish [of tm "j @ Frame Lft m c r # k" cm s1 Lft m] True s1(1,4,5) by simp
  next
    case False
    then obtain d u where u: "nod Lft l (x, c) r = nod d Leaf (x, c) u" "ptrs u = ptrs l @ ptrs r"
    proof (cases "l = Leaf")
      case False
      then have "r = Leaf" using \<open>\<not> (l \<noteq> Leaf \<and> r \<noteq> Leaf)\<close> by simp
      then show thesis using that [of Rgt l] by (simp add: nod_def)
    qed (use that [of Lft r] in simp)
    have T1: "mm_tree s (plug k (nod d Leaf (x, c) u))" using assms(1) t u(1) by simp
    from unlink_one_eq [OF T1 n(1)] obtain s1 where s1: "unlink_one (Some x) n s = ret (root_of u, top_ptr k, c, s1)"
      "mm_tree s1 (plug k u)" "payload (mm_heap s1) = payload (mm_heap s)" by blast
    have "rb_tree (plug k (nod (opp d) u (x, c) Leaf))" using assms(2) t u(1) by (simp add: nod_opp)
    moreover have "ptrs (plug k u) = xs @ ys" using xy u(2) by (simp add: ptrs_plug)
    ultimately show ?thesis using finish [OF _ s1(2,3)] False s1(1) by auto
  qed
qed

end
