(* ===== verification/Ibv_Mm_View.thy ===== *)
theory Ibv_Mm_View
  imports Ibv_Mm_Remove
begin

section \<open>The tree as a list of ranges\<close>

text \<open>
  What the operations on the tree promise their client: the store holds a list of ranges, in their
  order, with the pointer, the bounds and the count of each. The colours, the links and the balance
  stay inside.
\<close>

type_synonym range = "nat \<times> u64 \<times> u64 \<times> int"

definition mm_view :: "mm_state \<Rightarrow> range list \<Rightarrow> bool" where
  "mm_view s xs \<longleftrightarrow> (\<exists>t. mm_tree s t \<and> rb_tree t \<and> ptrs t = map fst xs) \<and>
     (\<forall>x \<in> set xs. payload (mm_heap s) (fst x) = Some (snd x)) \<and> finite (dom (mm_heap s))"

lemma payload_dom: "dom (payload h) = dom h"
  by (auto simp: payload_def)

lemma finite_payload: "payload h' = payload h \<Longrightarrow> finite (dom h') = finite (dom h)"
  by (metis payload_dom)

lemma payload_Some: "payload h p = Some (a, b, c) \<Longrightarrow> \<exists>n. h p = Some n \<and> nd_start n = a \<and> nd_end n = b \<and> refcnt n = c"
  by (auto simp: payload_def)

lemma view_node:
  assumes "mm_view s (xs @ (p, a, b, c) # ys)"
  obtains n where "mm_heap s p = Some n" "node_at (Some p) s = ret n" "nd_start n = a" "nd_end n = b" "refcnt n = c"
proof -
  from assms have "payload (mm_heap s) p = Some (a, b, c)" by (simp add: mm_view_def)
  then show thesis using payload_Some [of "mm_heap s" p] that by (auto simp: node_at_eq)
qed

lemma view_distinct: "mm_view s xs \<Longrightarrow> distinct (map fst xs)"
  by (auto simp: mm_view_def mm_tree_def)

lemma ptrs_Nil: "ptrs t = [] \<longleftrightarrow> t = Leaf"
  by (cases t rule: root_of.cases) simp_all

lemma view_root: "mm_view s xs \<Longrightarrow> mm_root s = None \<longleftrightarrow> xs = []"
  by (auto simp: mm_view_def mm_tree_def ptrs_Nil)

lemma view_prev: "mm_view s (xs @ x # ys) \<Longrightarrow>
    mm_near Lft (Some (fst x)) s = ret (if xs = [] then None else Some (fst (last xs)))"
  using mm_near_eq(1) [of s _ "map fst xs" "fst x" "map fst ys"] by (auto simp: mm_view_def last_map)

lemma view_next: "mm_view s (xs @ x # ys) \<Longrightarrow>
    mm_near Rgt (Some (fst x)) s = ret (if ys = [] then None else Some (fst (hd ys)))"
  using mm_near_eq(2) [of s _ "map fst xs" "fst x" "map fst ys"] by (auto simp: mm_view_def hd_map)

lemma view_start: "mm_view s xs \<Longrightarrow> x \<in> set xs \<Longrightarrow> start_of s (fst x) = fst (snd x) \<and> end_of s (fst x) = fst (snd (snd x))"
  by (auto simp: mm_view_def start_of_def end_of_def)

lemma view_find:
  assumes "mm_view s (xs @ (p, a, b, c) # ys)" and "a \<le> k" and "k \<le> b"
    and "\<forall>x \<in> set xs. fst (snd x) < k \<and> fst (snd (snd x)) < k" and "\<forall>y \<in> set ys. k < fst (snd y)"
  shows "mm_find_start k s = ret (Some p)"
proof -
  from assms(1) obtain t where "mm_tree s t" "ptrs t = map fst xs @ p # map fst ys" by (auto simp: mm_view_def)
  then show ?thesis
    by (rule mm_find_eq) (use assms(2-5) view_start [OF assms(1)] view_start [OF assms(1), of "(p, a, b, c)"] in auto)
qed

text \<open>Changing the bounds or the count of a node.\<close>

lemma view_upd:
  assumes "mm_view s (xs @ (p, v) # ys)"
    and "\<And>n. nd_color (f n) = nd_color n \<and> nd_parent (f n) = nd_parent n \<and> nd_left (f n) = nd_left n \<and> nd_right (f n) = nd_right n"
    and "\<And>n. (nd_start n, nd_end n, refcnt n) = v \<Longrightarrow> (nd_start (f n), nd_end (f n), refcnt (f n)) = w"
  shows "\<exists>s'. upd_node (Some p) f s = ret s' \<and> mm_view s' (xs @ (p, w) # ys) \<and>
    (\<forall>q. q \<noteq> p \<longrightarrow> mm_heap s' q = mm_heap s q)"
proof -
  obtain a b c where v: "v = (a, b, c)" by (cases v)
  with assms(1) obtain n where n: "mm_heap s p = Some n" "nd_start n = a" "nd_end n = b" "refcnt n = c" by (auto elim: view_node)
  let ?s = "s\<lparr>mm_heap := (mm_heap s)(p \<mapsto> f n)\<rparr>"
  from assms(1) obtain t where t: "mm_tree s t" "rb_tree t" "ptrs t = map fst (xs @ (p, v) # ys)" by (auto simp: mm_view_def)
  have "dlinks (mm_heap ?s) x c q d l r = dlinks (mm_heap s) x c q d l r" for x c q d l r
    using assms(2) [of n] n(1) by (cases "x = p"; cases d) (auto simp: dlinks_def)
  then have "tree_at (mm_heap ?s) q u = tree_at (mm_heap s) q u" for q u
    by (induction "mm_heap s" q u rule: tree_at.induct) auto
  then have "mm_tree ?s t" using t(1) by (simp add: mm_tree_def)
  moreover have "payload (mm_heap ?s) p = Some w" using assms(3) [of n] n v by (auto simp: payload_def)
  moreover have "payload (mm_heap ?s) (fst x) = Some (snd x)" if "x \<in> set xs \<union> set ys" for x
  proof -
    from view_distinct [OF assms(1)] that have "fst x \<noteq> p" by auto
    then show ?thesis using assms(1) that by (auto simp: mm_view_def payload_def)
  qed
  moreover have "finite (dom (mm_heap ?s))" using assms(1) by (simp add: mm_view_def)
  ultimately have "mm_view ?s (xs @ (p, w) # ys)" using t(2,3) by (auto simp: mm_view_def simp del: dom_fun_upd)
  then show ?thesis using n(1) by (intro exI [of _ ?s]) (simp add: upd_node_eq)
qed

lemma view_remove:
  assumes "mm_view s (xs @ x # ys)"
  shows "\<exists>s'. mm_remove (Some (fst x)) s = ret s' \<and> mm_view s' (xs @ ys)"
proof -
  from assms obtain t where "mm_tree s t" "rb_tree t" "ptrs t = map fst xs @ fst x # map fst ys" by (auto simp: mm_view_def)
  from mm_remove_eq [OF this] obtain s' t' where "mm_remove (Some (fst x)) s = ret s'" "mm_tree s' t'" "rb_tree t'"
    "ptrs t' = map fst (xs @ ys)" "payload (mm_heap s') = (payload (mm_heap s))(fst x := None)" by auto
  moreover have "fst z \<noteq> fst x" if "z \<in> set (xs @ ys)" for z
  proof -
    have "fst x \<notin> fst ` set (xs @ ys)" using view_distinct [OF assms] by auto
    with imageI [OF that, of fst] show ?thesis by metis
  qed
  moreover have "finite (dom (mm_heap s'))"
  proof -
    have "dom (mm_heap s') = dom (mm_heap s) - {fst x}" using payload_dom [of "mm_heap s'"] payload_dom [of "mm_heap s"] calculation(5) by simp
    then show ?thesis using assms by (simp add: mm_view_def)
  qed
  ultimately show ?thesis using assms by (intro exI [of _ s']) (auto simp: mm_view_def)
qed

text \<open>A node that was allocated, and filled in, but is not in the tree yet.\<close>

lemma view_add:
  assumes "mm_view s (xs @ ys)" and "xs @ ys \<noteq> []" and "mm_heap s q = Some m" and "q \<notin> fst ` set (xs @ ys)"
    and "sorted_wrt (<) (map (\<lambda>x. fst (snd x)) (xs @ ys))"
    and "\<forall>x \<in> set xs. fst (snd x) < nd_start m" and "\<forall>y \<in> set ys. nd_start m \<le> fst (snd y)"
  shows "\<exists>s'. mm_add (Some q) s = ret s' \<and> mm_view s' (xs @ (q, nd_start m, nd_end m, refcnt m) # ys)"
proof -
  from assms(1) obtain t where t: "mm_tree s t" "rb_tree t" "ptrs t = map fst (xs @ ys)" by (auto simp: mm_view_def)
  have st: "start_of s (fst x) = fst (snd x)" if "x \<in> set (xs @ ys)" for x using view_start [OF assms(1) that] by simp
  have "t \<noteq> Leaf" using t(3) assms(2) by auto
  moreover have "map (start_of s) (ptrs t) = map (\<lambda>x. fst (snd x)) (xs @ ys)" using t(3) st by simp
  then have "by_start s (ptrs t)" using assms(5) by (simp add: by_start_def flip: sorted_wrt_map)
  moreover have "q \<notin> set (ptrs t)" using t(3) assms(4) by auto
  ultimately obtain s' t' us vs where s': "mm_add (Some q) s = ret s'" "mm_tree s' t'" "rb_tree t'" "payload (mm_heap s') = payload (mm_heap s)"
    and us: "ptrs t = us @ vs" "ptrs t' = us @ q # vs" "\<forall>y \<in> set us. start_of s y < nd_start m" "\<forall>z \<in> set vs. nd_start m \<le> start_of s z"
    using mm_add_at [OF t(1,2) _ _ assms(3)] by blast
  have less: "start_of s y < nd_start m" if "y \<in> set (map fst xs)" for y
  proof -
    from that obtain x where "x \<in> set xs" "y = fst x" by auto
    then show ?thesis using st [of x] assms(6) by simp
  qed
  have more: "nd_start m \<le> start_of s z" if "z \<in> set (map fst ys)" for z
  proof -
    from that obtain x where "x \<in> set ys" "z = fst x" by auto
    then show ?thesis using st [of x] assms(7) by simp
  qed
  have "takeWhile (\<lambda>y. start_of s y < nd_start m) (us @ vs) = us"
    using us(3,4) by (cases vs) (auto simp: takeWhile_append2 not_less takeWhile_append)
  moreover have "takeWhile (\<lambda>y. start_of s y < nd_start m) (map fst xs @ map fst ys) = map fst xs"
    using less more by (cases ys) (auto simp: takeWhile_append not_less)
  ultimately have "us = map fst xs" using us(1) t(3) by simp
  then have "ptrs t' = map fst (xs @ (q, nd_start m, nd_end m, refcnt m) # ys)" using us t(3) by simp
  moreover have "payload (mm_heap s) q = Some (nd_start m, nd_end m, refcnt m)" using assms(3) by (simp add: payload_def)
  ultimately have "mm_view s' (xs @ (q, nd_start m, nd_end m, refcnt m) # ys)"
    using assms(1) s'(2-4) finite_payload [OF s'(4)] by (auto simp: mm_view_def)
  then show ?thesis using s'(1) by blast
qed

text \<open>Memory that is not part of the tree may be written.\<close>

lemma view_alloc:
  assumes "mm_view s xs" and "mm_heap s q = None"
  shows "mm_view (s\<lparr>mm_heap := (mm_heap s)(q := v)\<rparr>) xs \<and> q \<notin> fst ` set xs"
proof -
  have q: "q \<notin> fst ` set xs" using assms by (auto simp: mm_view_def payload_def)
  from assms(1) obtain t where t: "mm_tree s t" "rb_tree t" "ptrs t = map fst xs" by (auto simp: mm_view_def)
  have "q \<notin> set (ptrs t)" using q t(3) by simp
  then have "mm_tree (s\<lparr>mm_heap := (mm_heap s)(q := v)\<rparr>) t" using t(1) by (simp add: mm_tree_def)
  moreover have "payload ((mm_heap s)(q := v)) p = payload (mm_heap s) p" if "p \<noteq> q" for p using that by (simp add: payload_def)
  moreover have "fst x \<noteq> q" if "x \<in> set xs" for x using q that by auto
  ultimately show ?thesis using assms(1) t q by (auto simp: mm_view_def)
qed

end
