(* ===== verification/Ibv_Mm_Run.thy ===== *)
theory Ibv_Mm_Run
  imports Ibv_Fork Ibv_Mm_View Complex_Main
begin

section \<open>Runs of the operations on the tree\<close>

text \<open>
  Any run of the operations of \<^verbatim>\<open>memory.c\<close> on its tree, from the first node of
  \<^verbatim>\<open>ibv_fork_init\<close> on, keeps the links consistent, the nodes in the order of their starts and
  the tree balanced; every operation on a node of the tree returns.
\<close>

definition rb_state :: "mm_state \<Rightarrow> ptree \<Rightarrow> bool" where
  "rb_state s t \<longleftrightarrow> mm_tree s t \<and> rb_tree t \<and> by_start s (ptrs t)"

lemma by_start_payload:
  assumes "by_start s xs" and "\<And>x. x \<in> set xs \<Longrightarrow> payload (mm_heap s') x = payload (mm_heap s) x"
  shows "by_start s' xs"
proof -
  have "start_of s' x = start_of s x" if "x \<in> set xs" for x using assms(2) [OF that] by (simp add: start_of_def)
  then show ?thesis using assms(1) by (simp add: by_start_def sorted_wrt_iff_nth_less)
qed

lemma rb_state_remove:
  assumes "rb_state s t" and "x \<in> set (ptrs t)"
  shows "\<exists>s' t'. mm_remove (Some x) s = ret s' \<and> rb_state s' t' \<and> set (ptrs t') = set (ptrs t) - {x} \<and>
    payload (mm_heap s') = (payload (mm_heap s))(x := None)"
proof -
  obtain xs ys where x: "ptrs t = xs @ x # ys" using assms(2) by (meson split_list)
  have dist: "distinct (xs @ x # ys)" using assms(1) x by (simp add: rb_state_def mm_tree_def)
  from mm_remove_eq [of s t xs x ys] assms(1) x obtain s' t' where s': "mm_remove (Some x) s = ret s'" "mm_tree s' t'" "rb_tree t'"
    "ptrs t' = xs @ ys" "payload (mm_heap s') = (payload (mm_heap s))(x := None)" by (auto simp: rb_state_def)
  have "by_start s (xs @ ys)" using assms(1) x by (simp add: rb_state_def by_start_def sorted_wrt_append)
  then have "by_start s' (xs @ ys)" by (rule by_start_payload) (use dist s'(5) in auto)
  then show ?thesis using s' dist x by (intro exI [of _ s'] exI [of _ t']) (auto simp: rb_state_def)
qed

lemma rb_state_add:
  assumes "rb_state s t" and "t \<noteq> Leaf" and "mm_heap s x = Some m" and "x \<notin> set (ptrs t)"
    and "\<And>y. y \<in> set (ptrs t) \<Longrightarrow> start_of s y \<noteq> nd_start m"
  shows "\<exists>s' t'. mm_add (Some x) s = ret s' \<and> rb_state s' t' \<and> set (ptrs t') = insert x (set (ptrs t)) \<and>
    payload (mm_heap s') = payload (mm_heap s)"
proof -
  from mm_add_at [of s t x m] assms obtain s' t' xs ys where s': "mm_add (Some x) s = ret s'" "mm_tree s' t'" "rb_tree t'"
    "payload (mm_heap s') = payload (mm_heap s)" and split: "ptrs t = xs @ ys" "ptrs t' = xs @ x # ys"
    "\<forall>y \<in> set xs. start_of s y < nd_start m" "\<forall>z \<in> set ys. nd_start m \<le> start_of s z" unfolding rb_state_def by blast
  have "start_of s x = nd_start m" by (rule start_of_eq [OF assms(3)])
  moreover have "nd_start m < start_of s z" if "z \<in> set ys" for z
    using split(1,4) that assms(5) [of z] by (auto simp: order.strict_iff_order)
  ultimately have "by_start s (xs @ x # ys)"
    using assms(1) split by (auto simp: rb_state_def by_start_def sorted_wrt_append)
  then have "by_start s' (xs @ x # ys)" by (rule by_start_payload) (simp add: s'(4))
  then show ?thesis using s' split by (intro exI [of _ s'] exI [of _ t']) (auto simp: rb_state_def)
qed

subsection \<open>The height\<close>

lemma rb_height: "rb t \<Longrightarrow> height t \<le> 2 * bh t + (if col t = IBV_RED then 1 else 0)"
proof (induction t rule: rb.induct)
  case (2 l x c r)
  then show ?case by (cases c) (auto simp: max_def split: if_splits)
qed simp

lemma rb_size: "rb t \<Longrightarrow> 2 ^ bh t \<le> size1 t"
proof (induction t rule: rb.induct)
  case (2 l x c r)
  then show ?case by (cases c) auto
qed simp

lemma rb_tree_height:
  assumes "rb_tree t"
  shows "real (height t) \<le> 2 * log 2 (real (length (ptrs t)) + 1)"
proof -
  have "height t \<le> 2 * bh t" using rb_height [of t] assms by (simp add: rb_tree_def)
  moreover have "(2 :: real) ^ bh t \<le> real (size1 t)"
  proof -
    have "2 ^ bh t \<le> size1 t" using rb_size assms by (simp add: rb_tree_def)
    then show ?thesis by (metis of_nat_le_iff of_nat_numeral of_nat_power)
  qed
  then have "real (bh t) \<le> log 2 (real (size1 t))" by (simp add: le_log_iff powr_realpow size1_size)
  moreover have "length (ptrs t) = size t" by (simp add: ptrs_def)
  ultimately show ?thesis by (simp add: size1_size add.commute)
qed

subsection \<open>Runs\<close>

inductive mm_run :: "mm_state \<Rightarrow> nat set \<Rightarrow> bool" where
  first: "mm_run \<lparr>mm_heap = h(p \<mapsto> root_node), mm_root = Some p\<rparr> {p}"
| change: "mm_run s A \<Longrightarrow> upd_node (Some x) (\<lambda>n. n\<lparr>nd_end := e, refcnt := c\<rparr>) s = ret s' \<Longrightarrow> x \<in> A \<Longrightarrow> mm_run s' A"
| add: "mm_run s A \<Longrightarrow> A \<noteq> {} \<Longrightarrow> mm_heap s x = None \<Longrightarrow> nd_start m \<notin> start_of s ` A \<Longrightarrow>
    mm_add (Some x) (s\<lparr>mm_heap := (mm_heap s)(x \<mapsto> m)\<rparr>) = ret s' \<Longrightarrow> mm_run s' (insert x A)"
| remove: "mm_run s A \<Longrightarrow> x \<in> A \<Longrightarrow> mm_remove (Some x) s = ret s' \<Longrightarrow> mm_run s' (A - {x})"

lemma rb_state_alloc:
  assumes "rb_state s t" and "x \<notin> set (ptrs t)"
  shows "rb_state (s\<lparr>mm_heap := (mm_heap s)(x := v)\<rparr>) t"
proof -
  let ?s = "s\<lparr>mm_heap := (mm_heap s)(x := v)\<rparr>"
  have "by_start ?s (ptrs t)"
    by (rule by_start_payload [of s]) (use assms in \<open>auto simp: rb_state_def payload_def\<close>)
  then show ?thesis using assms by (auto simp: rb_state_def mm_tree_def)
qed

lemma ptrs_heap: "tree_at h p t \<Longrightarrow> x \<in> set (ptrs t) \<Longrightarrow> h x \<noteq> None"
  by (induction h p t rule: tree_at.induct) (auto simp: dlinks_def)

lemma add_returns:
  assumes "rb_state s t" and "t \<noteq> Leaf" and "mm_heap s x = None" and "nd_start m \<notin> start_of s ` set (ptrs t)"
  shows "\<exists>s' t'. mm_add (Some x) (s\<lparr>mm_heap := (mm_heap s)(x \<mapsto> m)\<rparr>) = ret s' \<and> rb_state s' t' \<and> set (ptrs t') = insert x (set (ptrs t))"
proof -
  let ?s = "s\<lparr>mm_heap := (mm_heap s)(x \<mapsto> m)\<rparr>"
  have x: "x \<notin> set (ptrs t)" using ptrs_heap [of "mm_heap s" None t x] assms(1,3) by (auto simp: rb_state_def mm_tree_def)
  have "start_of ?s y \<noteq> nd_start m" if "y \<in> set (ptrs t)" for y
  proof -
    have "start_of ?s y = start_of s y" using that x by (auto simp: start_of_def payload_def)
    then show ?thesis using that assms(4) by (metis image_eqI)
  qed
  then show ?thesis using rb_state_add [of ?s t x m] rb_state_alloc [OF assms(1) x] assms(2) x by auto
qed

lemma mm_run_state: "mm_run s A \<Longrightarrow> \<exists>t. rb_state s t \<and> set (ptrs t) = A"
proof (induction rule: mm_run.induct)
  case (first h p)
  then show ?case
    by (intro exI [of _ "Node Leaf (p, IBV_BLACK) Leaf"])
      (simp add: rb_state_def mm_tree_def dlinks_def root_node_def rb_tree_def by_start_def)
next
  case (change s A x c e s')
  then obtain t where t: "rb_state s t" "set (ptrs t) = A" by blast
  obtain n where n: "mm_heap s x = Some n" and s': "s' = s\<lparr>mm_heap := (mm_heap s)(x \<mapsto> n\<lparr>nd_end := e, refcnt := c\<rparr>)\<rparr>"
    using change.hyps(2) by (cases "mm_heap s x") (auto simp: upd_node_def)
  have "dlinks (mm_heap s') y d q e' l r = dlinks (mm_heap s) y d q e' l r" for y d q e' l r
    using n s' by (cases "y = x"; cases e') (auto simp: dlinks_def)
  then have "tree_at (mm_heap s') q u = tree_at (mm_heap s) q u" for q u
    by (induction "mm_heap s" q u rule: tree_at.induct) auto
  moreover have "start_of s' y = start_of s y" for y using n s' by (simp add: start_of_def payload_def)
  ultimately have "rb_state s' t" using t(1) s' by (simp add: rb_state_def mm_tree_def by_start_def)
  with t(2) show ?case by blast
next
  case (add s A x m s')
  then obtain t where t: "rb_state s t" "set (ptrs t) = A" by blast
  have "t \<noteq> Leaf" using t(2) add.hyps(2) by auto
  from add_returns [OF t(1) this add.hyps(3), of m] add.hyps(4) t(2) obtain s'' t' where
    "mm_add (Some x) (s\<lparr>mm_heap := (mm_heap s)(x \<mapsto> m)\<rparr>) = ret s''" "rb_state s'' t'" "set (ptrs t') = insert x A"
    by auto
  then show ?case using add.hyps(5) t(2) by auto
next
  case (remove s A x s')
  then obtain t where t: "rb_state s t" "set (ptrs t) = A" by blast
  from rb_state_remove [OF t(1), of x] remove.hyps t(2) show ?case by auto
qed

text \<open>
  C22: whatever run of additions, removals and changes of bounds and counts leads to it, the tree's
  parent and child links agree, its nodes are those added and not removed, in the order of their
  starts, and its height is at most twice the logarithm of their number; and the next addition or
  removal returns without touching a null or freed node.
\<close>

theorem mm_run_balanced:
  assumes "mm_run s A"
  shows "(\<exists>t. mm_tree s t \<and> rb_tree t \<and> by_start s (ptrs t) \<and> set (ptrs t) = A \<and>
      real (height t) \<le> 2 * log 2 (real (card A) + 1)) \<and>
    (\<forall>x \<in> A. \<exists>s'. mm_remove (Some x) s = ret s') \<and>
    (\<forall>x m. A \<noteq> {} \<and> mm_heap s x = None \<and> nd_start m \<notin> start_of s ` A \<longrightarrow>
      (\<exists>s'. mm_add (Some x) (s\<lparr>mm_heap := (mm_heap s)(x \<mapsto> m)\<rparr>) = ret s'))"
proof -
  obtain t where t: "rb_state s t" "set (ptrs t) = A" using mm_run_state [OF assms] by blast
  have "card A = length (ptrs t)" using t distinct_card [of "ptrs t"] by (simp add: rb_state_def mm_tree_def)
  then have "real (height t) \<le> 2 * log 2 (real (card A) + 1)" using rb_tree_height [of t] t(1) by (simp add: rb_state_def)
  moreover have "\<exists>s'. mm_remove (Some x) s = ret s'" if "x \<in> A" for x
    using rb_state_remove [OF t(1), of x] t(2) that by blast
  moreover have "\<exists>s'. mm_add (Some x) (s\<lparr>mm_heap := (mm_heap s)(x \<mapsto> m)\<rparr>) = ret s'"
    if "A \<noteq> {}" "mm_heap s x = None" "nd_start m \<notin> start_of s ` A" for x m
  proof -
    have "t \<noteq> Leaf" using t(2) that(1) by auto
    from add_returns [OF t(1) this that(2), of m] t(2) that(3) show ?thesis by auto
  qed
  ultimately show ?thesis using t unfolding rb_state_def by (intro conjI exI [of _ t]) auto
qed

lemma mm_run_balanced_witness:
  "\<exists>s t. mm_run s {1} \<and> mm_tree s t \<and> rb_tree t \<and> set (ptrs t) = {1} \<and> real (height t) \<le> 2 * log 2 2"
proof -
  let ?s = "\<lparr>mm_heap = [0 \<mapsto> root_node], mm_root = Some 0\<rparr>" and ?m = "root_node\<lparr>nd_start := 4096\<rparr>"
  have s: "mm_run ?s {0}" using mm_run.first [of Map.empty 0] by simp
  have key: "nd_start ?m \<notin> start_of ?s ` {0}" by (simp add: start_of_def payload_def root_node_def)
  with mm_run_balanced [OF s] obtain s1 where "mm_add (Some 1) (?s\<lparr>mm_heap := (mm_heap ?s)(1 \<mapsto> ?m)\<rparr>) = ret s1" by force
  with mm_run.add [OF s _ _ key, of 1] have s1: "mm_run s1 {1, 0}" by auto
  with mm_run_balanced [OF s1] obtain s2 where "mm_remove (Some 0) s1 = ret s2" by auto
  with mm_run.remove [OF s1, of 0] have s2: "mm_run s2 {1}" by (simp add: insert_Diff_if)
  from mm_run_balanced [OF s2] s2 show ?thesis by auto
qed

end
