(* ===== verification/Ibv_Fork_Facts.thy ===== *)
theory Ibv_Fork_Facts
  imports Ibv_Fork Ibv_Mm_View
begin

unbundle bit_operations_syntax

section \<open>The counts of the pages\<close>

subsection \<open>Ranges that follow each other\<close>

fun chain :: "nat \<Rightarrow> range list \<Rightarrow> nat \<Rightarrow> bool" where
  "chain lo [] hi \<longleftrightarrow> lo = hi"
| "chain lo ((p, a, b, c) # xs) hi \<longleftrightarrow> unat a = lo \<and> a \<le> b \<and> chain (unat b + 1) xs hi"

fun rc :: "range list \<Rightarrow> u64 \<Rightarrow> int" where
  "rc [] k = 0"
| "rc ((p, a, b, c) # xs) k = (if k \<le> b then c else rc xs k)"

lemma chain_append: "chain lo (xs @ ys) hi \<longleftrightarrow> (\<exists>mid. chain lo xs mid \<and> chain mid ys hi)"
  by (induction xs arbitrary: lo) auto

lemma chain_le: "chain lo xs hi \<Longrightarrow> lo \<le> hi"
  by (induction lo xs hi rule: chain.induct) (auto simp: word_le_nat_alt)

lemma chain_mem: "chain lo xs hi \<Longrightarrow> (p, a, b, c) \<in> set xs \<Longrightarrow> lo \<le> unat a \<and> a \<le> b \<and> unat b < hi"
proof (induction lo xs hi rule: chain.induct)
  case (2 lo p' a' b' c' xs hi)
  then show ?case using chain_le [of "unat b' + 1" xs hi] by (auto simp: word_le_nat_alt)
qed simp

lemma chain_sorted: "chain lo xs hi \<Longrightarrow> sorted_wrt (<) (map (\<lambda>x. fst (snd x)) xs)"
proof (induction lo xs hi rule: chain.induct)
  case (2 lo p a b c xs hi)
  have "a < a'" if "(p', a', b', c') \<in> set xs" for p' a' b' c'
    using chain_mem [of "unat b + 1" xs hi p' a' b' c'] 2 that by (auto simp: word_le_nat_alt word_less_nat_alt)
  with 2 show ?case by auto
qed simp

lemma rc_append: "chain lo xs mid \<Longrightarrow> rc (xs @ ys) k = (if unat k < mid then rc xs k else rc ys k) \<or> unat k < lo"
  by (induction lo xs mid rule: chain.induct) (auto simp: word_le_nat_alt dest: chain_le)

lemma rc_append0: "chain 0 xs mid \<Longrightarrow> rc (xs @ ys) k = (if unat k < mid then rc xs k else rc ys k)"
  using rc_append by blast

lemma chain_cover:
  assumes "chain lo xs hi" and "lo \<le> unat k" and "unat k < hi"
  obtains us p a b c vs where "xs = us @ (p, a, b, c) # vs" "a \<le> k" "k \<le> b"
  using assms
proof (induction lo xs hi arbitrary: thesis rule: chain.induct)
  case (2 lo p a b c xs hi)
  show ?case
  proof (cases "k \<le> b")
    case True
    with 2 show ?thesis by (intro 2(2) [of "[]"]) (auto simp: word_le_nat_alt)
  next
    case False
    with 2(3,5) obtain us p' a' b' c' vs where "xs = us @ (p', a', b', c') # vs" "a' \<le> k" "k \<le> b'"
      by (metis "2.IH" chain.simps(2) Suc_eq_plus1 Suc_leI word_le_nat_alt not_le)
    then show ?thesis by (intro 2(2) [of "(p, a, b, c) # us"]) auto
  qed
qed simp

lemma unat_lt_u64 [simp]: "unat (k :: u64) < 18446744073709551616"
proof -
  have "unat k < 2 ^ LENGTH(64)" by (rule unsigned_less)
  then show ?thesis by simp
qed

lemma max_iff: "k = - 1 \<longleftrightarrow> unat (k :: u64) = 18446744073709551615"
proof -
  have "unat (- 1 :: u64) = 18446744073709551615" by (simp add: unsigned_minus_1_eq_mask mask_eq_exp_minus_1)
  then show ?thesis by (metis word_unat_eq_iff)
qed

lemma pow64: "(2 :: nat) ^ 64 = 18446744073709551616"
  by simp

lemma unat_succ: "k \<noteq> - 1 \<Longrightarrow> unat (k + 1) = unat (k :: u64) + 1"
proof -
  assume "k \<noteq> - 1"
  then have "unat k + 1 < 2 ^ 64" using unat_lt_u64 [of k] unfolding max_iff pow64 by linarith
  then show ?thesis by (subst unat_add_lem [THEN iffD1]) simp_all
qed

lemma chain_det: "chain lo xs h \<Longrightarrow> chain lo xs h' \<Longrightarrow> h = h'"
  by (induction lo xs h rule: chain.induct) auto

lemma chain_rest: "chain lo (xs @ ys) hi \<Longrightarrow> chain lo xs mid \<Longrightarrow> chain mid ys hi"
  using chain_det by (auto simp: chain_append)

subsection \<open>Operations on the ranges\<close>

definition ranges :: "'w fork_state \<Rightarrow> range list \<Rightarrow> bool" where
  "ranges s xs \<longleftrightarrow> mm_view (fk_mm s) xs \<and> chain 0 xs (2 ^ 64)"

definition env_same :: "'w fork_state \<Rightarrow> 'w fork_state \<Rightarrow> bool" where
  "env_same s s' \<longleftrightarrow> page_size s' = page_size s \<and> huge_page_enabled s' = huge_page_enabled s \<and> too_late s' = too_late s"

lemma env_same_refl [simp]: "env_same s s"
  by (simp add: env_same_def)

lemma env_same_trans: "env_same s s' \<Longrightarrow> env_same s' s'' \<Longrightarrow> env_same s s''"
  by (simp add: env_same_def)

lemma env_same_upd [simp]: "env_same s (s\<lparr>fk_mm := m\<rparr>)" "env_same s (s\<lparr>fk_world := w\<rparr>)"
    "env_same s (s\<lparr>fk_world := w, fk_mm := m\<rparr>)"
  by (simp_all add: env_same_def)

text \<open>
  The facts below are of a calm system: memory is always found, \<^verbatim>\<open>madvise\<close> sets the flags of
  the pages when it succeeds and changes nothing when it fails, and pages can always be given back
  (\<open>dofork_works\<close>). Real systems are not assumed to be calm: \<open>Ibv_Fork_Calm\<close> builds such a system
  beside a real one, and \<open>Ibv_Fork_Follow\<close> shows that it answers the same until a call fails.
\<close>

definition kernel :: "'w fork_ops \<Rightarrow> ('w \<Rightarrow> u64 \<Rightarrow> bool) \<Rightarrow> bool" where
  "kernel ops flags \<longleftrightarrow>
     (\<forall>h w. finite (dom h) \<longrightarrow> (\<exists>q w'. malloc_node ops h w = (Some q, w') \<and> h q = None \<and> flags w' = flags w)) \<and>
     (\<forall>a n adv w r w'. madvise_op ops a n adv w = (r, w') \<longrightarrow>
        flags w' = (if r = 0 then (\<lambda>k. if k - a < n then adv = MADV_DONTFORK else flags w k) else flags w))"

lemma kernel_malloc: "kernel ops flags \<Longrightarrow> finite (dom h) \<Longrightarrow> \<exists>q w'. malloc_node ops h w = (Some q, w') \<and> h q = None \<and> flags w' = flags w"
  by (simp add: kernel_def)

lemma kernel_madvise: "kernel ops flags \<Longrightarrow> madvise_op ops a n adv w = (r, w') \<Longrightarrow>
    flags w' = (if r = 0 then (\<lambda>k. if k - a < n then adv = MADV_DONTFORK else flags w k) else flags w)"
  by (simp add: kernel_def)

lemma merge_ranges_eq:
  assumes "ranges s (xs @ (p, a, b, c) # (q, a', b', c') # ys)"
  shows "\<exists>s'. merge_ranges (Some q) (Some p) s = ret (Some p, s') \<and> ranges s' (xs @ (p, a, b', c') # ys) \<and>
    fk_world s' = fk_world s \<and> env_same s s'"
proof -
  have v: "mm_view (fk_mm s) (xs @ (p, a, b, c) # (q, a', b', c') # ys)" and ch: "chain 0 (xs @ (p, a, b, c) # (q, a', b', c') # ys) (2 ^ 64)"
    using assms by (simp_all add: ranges_def)
  have "mm_view (fk_mm s) ((xs @ [(p, a, b, c)]) @ (q, a', b', c') # ys)" using v by simp
  then obtain n where n: "node_at (Some q) (fk_mm s) = ret n" "nd_end n = b'" "refcnt n = c'" by (rule view_node)
  from view_upd [OF v, of "\<lambda>p. p\<lparr>nd_end := b', refcnt := c'\<rparr>" "(a, b', c')"] obtain m where
    m: "upd_node (Some p) (\<lambda>p. p\<lparr>nd_end := b', refcnt := c'\<rparr>) (fk_mm s) = ret m"
    "mm_view m (xs @ (p, a, b', c') # (q, a', b', c') # ys)" by auto
  from view_remove [of m "xs @ [(p, a, b', c')]" "(q, a', b', c')" ys] m(2) obtain m' where
    "mm_remove (Some q) m = ret m'" "mm_view m' (xs @ (p, a, b', c') # ys)" by auto
  moreover have "chain 0 (xs @ (p, a, b', c') # ys) (2 ^ 64)" using ch by (auto simp: chain_append word_le_nat_alt)
  ultimately show ?thesis using n m by (intro exI [of _ "s\<lparr>fk_mm := m'\<rparr>"]) (simp add: merge_ranges_def on_mm_def ranges_def)
qed

lemma split_range_eq:
  assumes "kernel ops flags" and "ranges s (xs @ (p, a, b, c) # ys)" and "a < z" and "z \<le> b"
  shows "\<exists>q s'. split_range ops (Some p) z s = ret (Some q, s') \<and> ranges s' (xs @ (p, a, z - 1, c) # (q, z, b, c) # ys) \<and>
    flags (fk_world s') = flags (fk_world s) \<and> env_same s s'"
proof -
  have v: "mm_view (fk_mm s) (xs @ (p, a, b, c) # ys)" and ch: "chain 0 (xs @ (p, a, b, c) # ys) (2 ^ 64)"
    using assms(2) by (simp_all add: ranges_def)
  have "finite (dom (mm_heap (fk_mm s)))" using v by (simp add: mm_view_def)
  from kernel_malloc [OF assms(1) this] obtain q w where q: "malloc_node ops (mm_heap (fk_mm s)) (fk_world s) = (Some q, w)"
    "mm_heap (fk_mm s) q = None" "flags w = flags (fk_world s)" by blast
  from v obtain n where n: "mm_heap (fk_mm s) p = Some n" "node_at (Some p) (fk_mm s) = ret n" "nd_end n = b" "refcnt n = c" by (rule view_node)
  let ?n = "\<lparr>nd_color = IBV_RED, nd_parent = None, nd_left = None, nd_right = None, nd_start = z, nd_end = b, refcnt = c\<rparr>"
  let ?m = "(fk_mm s)\<lparr>mm_heap := (mm_heap (fk_mm s))(q \<mapsto> ?n)\<rparr>"
  have m: "mm_view ?m (xs @ (p, a, b, c) # ys)" and fresh: "q \<notin> fst ` set (xs @ (p, a, b, c) # ys)"
    using view_alloc [OF v q(2), of "Some ?n"] by blast+
  from view_upd [OF m, of "\<lambda>n. n\<lparr>nd_end := z - 1\<rparr>" "(a, z - 1, c)"] obtain m1 where
    m1: "upd_node (Some p) (\<lambda>n. n\<lparr>nd_end := z - 1\<rparr>) ?m = ret m1" "mm_view m1 (xs @ (p, a, z - 1, c) # ys)"
    "\<forall>r. r \<noteq> p \<longrightarrow> mm_heap m1 r = mm_heap ?m r" by auto
  have "z \<noteq> 0" using assms(3) by auto
  then have z: "unat (z - 1) + 1 = unat z" by (simp add: unat_minus_one) (metis Suc_pred unat_gt_0 word_neq_0_conv Suc_eq_plus1)
  have le: "a \<le> z - 1" using assms(3) z by (simp add: word_le_nat_alt word_less_nat_alt)
  from ch obtain mid where mid: "chain 0 xs mid" "unat a = mid" "chain (unat b + 1) ys (2 ^ 64)" by (auto simp: chain_append)
  have chain1: "chain 0 (xs @ (p, a, z - 1, c) # (q, z, b, c) # ys) (2 ^ 64)"
    using mid le z assms(4) by (auto simp: chain_append)
  have "mm_heap m1 q = Some ?n" using m1(3) fresh by auto
  moreover have "q \<notin> fst ` set ((xs @ [(p, a, z - 1, c)]) @ ys)" using fresh by auto
  moreover have "sorted_wrt (<) (map (\<lambda>x. fst (snd x)) (xs @ (p, a, z - 1, c) # (q, z, b, c) # ys))"
    by (rule chain_sorted [OF chain1])
  then have "sorted_wrt (<) (map (\<lambda>x. fst (snd x)) ((xs @ [(p, a, z - 1, c)]) @ ys))"
    "\<forall>x \<in> set (xs @ [(p, a, z - 1, c)]). fst (snd x) < z" "\<forall>y \<in> set ys. z \<le> fst (snd y)"
    by (auto simp: sorted_wrt_append)
  ultimately obtain m2 where "mm_add (Some q) m1 = ret m2" "mm_view m2 (xs @ (p, a, z - 1, c) # (q, z, b, c) # ys)"
    using view_add [of m1 "xs @ [(p, a, z - 1, c)]" ys q ?n] m1(2) by auto
  then show ?thesis using q n m1(1) chain1
    by (intro exI [of _ q] exI [of _ "s\<lparr>fk_world := w, fk_mm := m2\<rparr>"]) (simp add: split_range_def on_mm_def ranges_def Let_def)
qed

lemma ranges_at: "ranges s (pre @ (p, a, b, c) # vs) \<Longrightarrow> chain 0 pre lo \<Longrightarrow> unat a = lo \<and> a \<le> b \<and> chain (unat b + 1) vs (2 ^ 64)"
  unfolding ranges_def by (metis chain_rest chain.simps(2))

lemma ranges_node:
  assumes "ranges s (xs @ (p, a, b, c) # ys)"
  obtains n where "node_at (Some p) (fk_mm s) = ret n" "nd_start n = a" "nd_end n = b" "refcnt n = c"
  using assms by (auto simp: ranges_def elim: view_node)

lemma counts_eq: "ranges s (xs @ (p, a, b, c) # ys) \<Longrightarrow> counts (Some p) d s = ret (c = d)"
  by (auto simp: counts_def elim: ranges_node)

lemma counts_None [simp]: "counts None d s = ret False"
  by (simp add: counts_def)

lemma ranges_prev: "ranges s (xs @ (p, v) # ys) \<Longrightarrow>
    mm_near Lft (Some p) (fk_mm s) = ret (if xs = [] then None else Some (fst (last xs)))"
  using view_prev [of "fk_mm s" xs "(p, v)" ys] by (simp add: ranges_def)

lemma ranges_next: "ranges s (xs @ (p, v) # ys) \<Longrightarrow>
    mm_near Rgt (Some p) (fk_mm s) = ret (if ys = [] then None else Some (fst (hd ys)))"
  using view_next [of "fk_mm s" xs "(p, v)" ys] by (simp add: ranges_def)

text \<open>Changing the count of a node.\<close>

lemma count_upd_eq:
  assumes "ranges s (xs @ (p, a, b, c) # ys)"
  shows "\<exists>s'. on_mm (upd_node (Some p) (\<lambda>n. n\<lparr>refcnt := refcnt n + d\<rparr>)) s = ret s' \<and> ranges s' (xs @ (p, a, b, c + d) # ys) \<and>
    fk_world s' = fk_world s \<and> env_same s s'"
proof -
  have v: "mm_view (fk_mm s) (xs @ (p, a, b, c) # ys)" and ch: "chain 0 (xs @ (p, a, b, c) # ys) (2 ^ 64)"
    using assms by (simp_all add: ranges_def)
  from view_upd [OF v, of "\<lambda>n. n\<lparr>refcnt := refcnt n + d\<rparr>" "(a, b, c + d)"] obtain m where
    "upd_node (Some p) (\<lambda>n. n\<lparr>refcnt := refcnt n + d\<rparr>) (fk_mm s) = ret m" "mm_view m (xs @ (p, a, b, c + d) # ys)" by auto
  then show ?thesis using ch by (intro exI [of _ "s\<lparr>fk_mm := m\<rparr>"]) (simp add: on_mm_def ranges_def chain_append)
qed

subsection \<open>A pass over a range\<close>

text \<open>
  The state of a pass: the nodes before \<open>lo\<close> have their new counts, those from there on the old
  ones \<open>f\<close>; but where the first node was merged with the one before it, that part has the
  count of the range. The kernel knows the pages whose count is not zero.
\<close>

definition counted :: "u64 \<Rightarrow> u64 \<Rightarrow> int \<Rightarrow> (u64 \<Rightarrow> int) \<Rightarrow> u64 \<Rightarrow> int" where
  "counted start stop inc f k = f k + (if start \<le> k \<and> k \<le> stop then inc else 0)"

definition passing :: "('w \<Rightarrow> u64 \<Rightarrow> bool) \<Rightarrow> u64 \<Rightarrow> u64 \<Rightarrow> int \<Rightarrow> (u64 \<Rightarrow> int) \<Rightarrow> 'w fork_state \<Rightarrow> range list \<Rightarrow> range list \<Rightarrow> nat \<Rightarrow> bool" where
  "passing flags start stop inc f s pre suf lo \<longleftrightarrow>
     ranges s (pre @ suf) \<and> chain 0 pre lo \<and>
     (\<forall>k. unat k < lo \<longrightarrow> rc pre k = counted start stop inc f k) \<and>
     (\<forall>k. lo \<le> unat k \<longrightarrow> rc suf k = f k - (if k < start then inc else 0)) \<and>
     (\<forall>k. flags (fk_world s) k \<longleftrightarrow> 0 < (if unat k < lo then counted start stop inc f k else f k)) \<and>
     (unat start < lo \<or> lo \<le> unat start \<and> (\<exists>p a b c vs. suf = (p, a, b, c) # vs \<and> start \<le> b))"

definition job :: "advice \<Rightarrow> u64 \<Rightarrow> u64 \<Rightarrow> (u64 \<Rightarrow> int) \<Rightarrow> bool" where
  "job adv start stop f \<longleftrightarrow> (\<forall>k. 0 \<le> f k) \<and> start \<le> stop \<and> \<not> (start = 0 \<and> stop = - 1) \<and>
     (adv = MADV_DOFORK \<longrightarrow> (\<forall>k. start \<le> k \<and> k \<le> stop \<longrightarrow> 1 \<le> f k))"

definition dofork_works :: "'w fork_ops \<Rightarrow> bool" where
  "dofork_works ops \<longleftrightarrow> (\<forall>a n w. fst (madvise_op ops a n MADV_DOFORK w) = 0)"

definition first_ptr :: "range list \<Rightarrow> nat option" where
  "first_ptr xs = (case xs of [] \<Rightarrow> None | x # _ \<Rightarrow> Some (fst x))"

lemma first_ptr_simps [simp]: "first_ptr [] = None" "first_ptr (x # xs) = Some (fst x)"
  by (simp_all add: first_ptr_def)

lemma first_ptr_alt: "(if xs = [] then None else Some (fst (hd xs))) = first_ptr xs"
  by (cases xs) simp_all

lemma span_word:
  fixes a b k :: u64
  assumes "a \<le> b" and "\<not> (a = 0 \<and> b = - 1)"
  shows "k - a < b - a + 1 \<longleftrightarrow> a \<le> k \<and> k \<le> b"
proof -
  have d: "unat (b - a) = unat b - unat a" by (rule unat_sub [OF assms(1)])
  have "unat (b - a) < 2 ^ 64 - 1"
  proof (rule ccontr)
    assume "\<not> unat (b - a) < 2 ^ 64 - 1"
    then have "unat b = 18446744073709551615" "unat a = 0" using d unat_lt_u64 [of b] unfolding pow64 by linarith+
    then have "a = 0" "b = - 1" by (simp_all add: max_iff unat_eq_zero)
    with assms(2) show False by simp
  qed
  then have n: "unat (b - a + 1) = unat b - unat a + 1" using d by (subst unat_add_lem [THEN iffD1]) simp_all
  show ?thesis
  proof (cases "a \<le> k")
    case True
    then have "unat (k - a) = unat k - unat a" by (rule unat_sub)
    then show ?thesis using True n assms(1) by (auto simp: word_less_nat_alt word_le_nat_alt)
  next
    case False
    then have "unat (k - a) = 2 ^ 64 + unat k - unat a" by (simp add: unat_sub_if' word_le_nat_alt)
    moreover have "\<not> 18446744073709551616 + unat k - unat a < unat b - unat a + 1"
      using unat_lt_u64 [of a] unat_lt_u64 [of b] assms(1) unfolding word_le_nat_alt by linarith
    ultimately show ?thesis using False n by (simp add: word_less_nat_alt)
  qed
qed

lemma passing_split:
  assumes "kernel ops flags" and "passing flags start stop inc f s pre ((p, a, b, c) # vs) lo" and "a \<le> stop" and "start \<le> stop"
  shows "\<exists>x b' vs' s'. (if stop < b then split_range ops (Some p) (stop + 1) s else ret (Some p, s)) = ret (Some x, s') \<and>
    passing flags start stop inc f s' pre ((p, a, b', c) # vs') lo \<and> b' \<le> stop \<and> env_same s s'"
proof (cases "stop < b")
  case True
  then have ne: "stop \<noteq> - 1" by auto
  then have stop1: "unat (stop + 1) = unat stop + 1" by (rule unat_succ)
  have z: "a < stop + 1" "stop + 1 \<le> b" "stop + 1 - 1 = stop"
    using assms(3) True stop1 by (simp_all add: word_less_nat_alt word_le_nat_alt)
  have r: "ranges s (pre @ (p, a, b, c) # vs)" using assms(2) by (simp add: passing_def)
  from split_range_eq [OF assms(1) r z(1,2)] obtain q s' where s': "split_range ops (Some p) (stop + 1) s = ret (Some q, s')"
    "ranges s' (pre @ (p, a, stop, c) # (q, stop + 1, b, c) # vs)" "flags (fk_world s') = flags (fk_world s)" "env_same s s'"
    unfolding z(3) by blast
  have "rc ((p, a, stop, c) # (q, stop + 1, b, c) # vs) k = rc ((p, a, b, c) # vs) k" for k using True by auto
  then have "passing flags start stop inc f s' pre ((p, a, stop, c) # (q, stop + 1, b, c) # vs) lo"
    using assms(2,4) s'(2,3) unfolding passing_def by auto
  then show ?thesis using s'(1,4) True by auto
qed (use assms in \<open>auto simp: not_less\<close>)

text \<open>The call of \<^verbatim>\<open>madvise\<close> when a count leaves or reaches zero, and the flags after it.\<close>

lemma passing_count:
  assumes "kernel ops flags" and "job adv start stop f" and "adv = MADV_DOFORK \<longrightarrow> dofork_works ops"
    and "passing flags start stop (inc_of adv) f s pre ((p, a, b, c) # vs) lo" and "b \<le> stop"
    and "(if inc_of adv = - 1 \<and> c = 1 \<or> inc_of adv = 1 \<and> c = 0 then
        madvise_op ops (if a < start then start else a) (b - (if a < start then start else a) + 1) adv (fk_world s)
      else (0, fk_world s)) = (r, w)" and "ranges s' (pre @ (p, a, b, c + inc_of adv) # vs)" and "fk_world s' = w"
  shows "r = 0 \<Longrightarrow> passing flags start stop (inc_of adv) f s' (pre @ [(p, a, b, c + inc_of adv)]) vs (unat b + 1)"
    and "r \<noteq> 0 \<Longrightarrow> adv = MADV_DONTFORK \<and> c = 0 \<and> flags w = flags (fk_world s)"
proof -
  let ?inc = "inc_of adv" and ?from = "if a < start then start else a"
  have P: "chain 0 pre lo" "\<And>k. unat k < lo \<Longrightarrow> rc pre k = counted start stop ?inc f k"
    "\<And>k. lo \<le> unat k \<Longrightarrow> rc ((p, a, b, c) # vs) k = f k - (if k < start then ?inc else 0)"
    "\<And>k. flags (fk_world s) k \<longleftrightarrow> 0 < (if unat k < lo then counted start stop ?inc f k else f k)"
    "unat start < lo \<or> start \<le> b" and r: "chain 0 (pre @ (p, a, b, c) # vs) (2 ^ 64)"
    using assms(4) unfolding passing_def ranges_def by blast+
  from chain_rest [OF r P(1)] have ch: "unat a = lo" "a \<le> b" "chain (unat b + 1) vs (2 ^ 64)" by simp_all
  have from_b: "start \<le> b" "?from \<le> b" using P(5) ch(1,2) by (auto simp: word_le_nat_alt word_less_nat_alt)
  have f: "f k = c + (if k < start then ?inc else 0)" if "lo \<le> unat k" "k \<le> b" for k using P(3) [OF that(1)] that(2) by simp
  have c: "f ?from = c" using f [of ?from] from_b(2) ch(1) by (auto simp: word_less_nat_alt)
  have job: "\<And>k. 0 \<le> f k" "start \<le> stop" "\<not> (start = 0 \<and> stop = - 1)" "adv = MADV_DOFORK \<Longrightarrow> 1 \<le> c"
    using assms(2,5) c from_b unfolding job_def by (auto simp: not_less split: if_splits)
  have inc: "?inc = 1 \<longleftrightarrow> adv = MADV_DONTFORK" "?inc = - 1 \<longleftrightarrow> adv = MADV_DOFORK" by (cases adv; simp)+
  let ?hit = "?inc = - 1 \<and> c = 1 \<or> ?inc = 1 \<and> c = 0"
  show "adv = MADV_DONTFORK \<and> c = 0 \<and> flags w = flags (fk_world s)" if "r \<noteq> 0"
  proof -
    from assms(6) that have hit: ?hit and m: "madvise_op ops ?from (b - ?from + 1) adv (fk_world s) = (r, w)" by (auto split: if_splits)
    have "adv = MADV_DONTFORK"
    proof (cases adv)
      case MADV_DOFORK
      with assms(3) m have "r = 0" by (simp add: dofork_works_def) (metis fst_conv)
      with that show ?thesis by simp
    qed
    with hit kernel_madvise [OF assms(1) m] that show ?thesis by auto
  qed
  show "passing flags start stop ?inc f s' (pre @ [(p, a, b, c + ?inc)]) vs (unat b + 1)" if "r = 0"
    unfolding passing_def
  proof (intro conjI allI impI)
    show "ranges s' ((pre @ [(p, a, b, c + ?inc)]) @ vs)" using assms(7) by simp
    show "chain 0 (pre @ [(p, a, b, c + ?inc)]) (unat b + 1)" using P(1) ch(1,2) by (auto simp: chain_append)
    show "rc (pre @ [(p, a, b, c + ?inc)]) k = counted start stop ?inc f k" if "unat k < unat b + 1" for k
    proof (cases "unat k < lo")
      case False
      moreover from that have "k \<le> b" by (simp add: word_le_nat_alt)
      ultimately show ?thesis using f [of k] assms(5) by (auto simp: rc_append0 [OF P(1)] counted_def)
    qed (use P(2) in \<open>simp add: rc_append0 [OF P(1)]\<close>)
    show "rc vs k = f k - (if k < start then ?inc else 0)" if "unat b + 1 \<le> unat k" for k
      using P(3) [of k] that ch(1,2) by (auto simp: word_le_nat_alt split: if_splits)
    show "unat start < unat b + 1 \<or> unat b + 1 \<le> unat start \<and> (\<exists>p a b c us. vs = (p, a, b, c) # us \<and> start \<le> b)"
      using from_b(1) by (simp add: word_le_nat_alt)
    show "flags (fk_world s') k \<longleftrightarrow> 0 < (if unat k < unat b + 1 then counted start stop ?inc f k else f k)" for k
    proof -
      have w: "flags w k \<longleftrightarrow> (if ?hit \<and> ?from \<le> k \<and> k \<le> b then adv = MADV_DONTFORK else flags (fk_world s) k)"
      proof (cases ?hit)
        case True
        then have "madvise_op ops ?from (b - ?from + 1) adv (fk_world s) = (r, w)" using assms(6) by simp
        from kernel_madvise [OF assms(1) this] have "flags w k \<longleftrightarrow> (if k - ?from < b - ?from + 1 then adv = MADV_DONTFORK else flags (fk_world s) k)"
          using \<open>r = 0\<close> by simp
        moreover have "\<not> (?from = 0 \<and> b = - 1)"
        proof
          assume edge: "?from = 0 \<and> b = - 1"
          then have "start \<le> 0" by (metis not_less order_refl)
          moreover have "unat b = 18446744073709551615" using edge unfolding max_iff by blast
          then have "18446744073709551615 \<le> unat stop" using assms(5) unfolding word_le_nat_alt by simp
          then have "stop = - 1" using unat_lt_u64 [of stop] unfolding max_iff by linarith
          ultimately show False using job(3) by simp
        qed
        ultimately show ?thesis using span_word [OF from_b(2), of k] True by simp
      qed (use assms(6) in auto)
      consider "unat k < lo" | "lo \<le> unat k" "k < start" "k \<le> b" | "?from \<le> k" "lo \<le> unat k" "start \<le> k" "k \<le> b" | "lo \<le> unat k" "\<not> k \<le> b"
        by (cases "unat k < lo"; cases "k \<le> b"; cases "k < start") (auto simp: ch(1) [symmetric] word_le_nat_alt word_less_nat_alt)
      then show ?thesis
      proof cases
        case 1
        then have "\<not> ?from \<le> k" "unat k < unat b + 1" using ch(1,2) by (auto simp: word_le_nat_alt word_less_nat_alt)
        then show ?thesis using w P(4) [of k] 1 assms(8) by simp
      next
        case 2
        then have "\<not> ?from \<le> k" "unat k < unat b + 1" by (auto simp: word_le_nat_alt word_less_nat_alt)
        then show ?thesis using w P(4) [of k] 2 assms(8) by (auto simp: counted_def not_le)
      next
        case 3
        have k: "counted start stop ?inc f k = c + ?inc" "f k = c" using f [of k] 3 assms(5) by (auto simp: counted_def not_less)
        have b: "unat k < unat b + 1" using 3(4) by (simp add: word_le_nat_alt)
        have "flags w k \<longleftrightarrow> 0 < c + ?inc"
          using w P(4) [of k] 3 k job(1) [of k] job(4) by (cases adv) auto
        then show ?thesis using b k assms(8) by simp
      next
        case 4
        then show ?thesis using w P(4) [of k] assms(8) by (auto simp: word_le_nat_alt)
      qed
    qed
  qed
qed

subsection \<open>Undoing the work on a node\<close>

lemma rc_cong:
  assumes "\<And>k. rc xs k = rc ys k"
  shows "rc (us @ xs) k = rc (us @ ys) k"
  using assms by (induction us) auto

lemma near_ptr: "ranges s (us @ (p, v) # vs) \<Longrightarrow> us = us' @ [(q, w)] \<Longrightarrow> mm_near Lft (Some p) (fk_mm s) = ret (Some q)"
  using ranges_prev [of s us p v vs] by simp

lemma undo_merge_eq:
  assumes "ranges s (us @ (p, a, b, c) # vs)"
  shows "\<exists>us' q a' b' vs' s'. undo_merge (Some p) s = ret (Some q, s') \<and> ranges s' (us' @ (q, a', b', c) # vs') \<and>
    (\<forall>k. rc (us' @ (q, a', b', c) # vs') k = rc (us @ (p, a, b, c) # vs) k) \<and> fk_world s' = fk_world s \<and> env_same s s' \<and>
    a' \<le> a \<and> (us = [] \<or> snd (snd (snd (last us))) \<noteq> c \<longrightarrow> a' = a)"
proof -
  from assms obtain n where n: "node_at (Some p) (fk_mm s) = ret n" "refcnt n = c" by (rule ranges_node)
  obtain us1 q a1 s1 where first: "bindC (mm_near Lft (Some p) (fk_mm s)) (\<lambda>tmp. bindC (counts tmp c s) (\<lambda>eq.
      if eq then merge_ranges (Some p) tmp s else ret (Some p, s))) = ret (Some q, s1)"
    "ranges s1 (us1 @ (q, a1, b, c) # vs)" "\<forall>k. rc (us1 @ (q, a1, b, c) # vs) k = rc (us @ (p, a, b, c) # vs) k"
    "fk_world s1 = fk_world s" "env_same s s1" "a1 \<le> a" "us = [] \<or> snd (snd (snd (last us))) \<noteq> c \<longrightarrow> a1 = a"
  proof (cases us rule: rev_cases)
    case Nil
    then show thesis using that [of p s "[]" a] ranges_prev [OF assms] assms by simp
  next
    case (snoc us0 x)
    obtain r ra rb d where x: "x = (r, ra, rb, d)" by (cases x)
    have near: "mm_near Lft (Some p) (fk_mm s) = ret (Some r)" using near_ptr [OF assms] snoc x by blast
    have R: "ranges s (us0 @ (r, ra, rb, d) # (p, a, b, c) # vs)" using assms snoc x by simp
    have eq: "counts (Some r) c s = ret (d = c)" using counts_eq [OF R] .
    show thesis
    proof (cases "d = c")
      case True
      from merge_ranges_eq [OF R] obtain s1 where s1: "merge_ranges (Some p) (Some r) s = ret (Some r, s1)"
        "ranges s1 (us0 @ (r, ra, b, c) # vs)" "fk_world s1 = fk_world s" "env_same s s1" by blast
      have ord: "ra \<le> rb" "rb < a" "a \<le> b" using R by (auto simp: ranges_def chain_append word_less_nat_alt)
      have "rc ((r, ra, b, c) # vs) k = rc ((r, ra, rb, d) # (p, a, b, c) # vs) k" for k using ord True by auto
      from rc_cong [OF this, of us0] have "\<forall>k. rc (us0 @ (r, ra, b, c) # vs) k = rc (us @ (p, a, b, c) # vs) k" using snoc x by simp
      moreover have "ra \<le> a" using ord by simp
      moreover have "bindC (mm_near Lft (Some p) (fk_mm s)) (\<lambda>tmp. bindC (counts tmp c s) (\<lambda>eq.
          if eq then merge_ranges (Some p) tmp s else ret (Some p, s))) = ret (Some r, s1)" using near eq True s1(1) by simp
      moreover have "us = [] \<or> snd (snd (snd (last us))) \<noteq> c \<longrightarrow> ra = a" using snoc x True by simp
      ultimately show thesis using that [of r s1 us0 ra] s1(2-4) by blast
    next
      case False
      then show thesis using that [of p s us a] near eq assms by simp
    qed
  qed
  from first(2) obtain n1 where n1: "node_at (Some q) (fk_mm s1) = ret n1" "refcnt n1 = c" by (rule ranges_node)
  have run: "undo_merge (Some p) s = bindC (mm_near Rgt (Some q) (fk_mm s1)) (\<lambda>tmp. bindC (counts tmp c s1) (\<lambda>eq.
      if eq then merge_ranges tmp (Some q) s1 else ret (Some q, s1)))"
  proof -
    from first(1) obtain tmp e where t: "mm_near Lft (Some p) (fk_mm s) = ret tmp" "counts tmp c s = ret e"
      "(if e then merge_ranges (Some p) tmp s else ret (Some p, s)) = ret (Some q, s1)" by (auto simp: bindC_eq_ret)
    show ?thesis using n n1 t(1,2) by (simp add: undo_merge_def t(3))
  qed
  show ?thesis
  proof (cases vs)
    case Nil
    then have "undo_merge (Some p) s = ret (Some q, s1)" using run ranges_next [OF first(2)] by simp
    then show ?thesis using first by blast
  next
    case (Cons x vs0)
    obtain r ra rb d where x: "x = (r, ra, rb, d)" by (cases x)
    have near: "mm_near Rgt (Some q) (fk_mm s1) = ret (Some r)" using ranges_next [OF first(2)] Cons x by simp
    have R: "ranges s1 (us1 @ (q, a1, b, c) # (r, ra, rb, d) # vs0)" using first(2) Cons x by simp
    have "ranges s1 ((us1 @ [(q, a1, b, c)]) @ (r, ra, rb, d) # vs0)" using R by simp
    then have eq: "counts (Some r) c s1 = ret (d = c)" by (rule counts_eq)
    show ?thesis
    proof (cases "d = c")
      case True
      from merge_ranges_eq [OF R] obtain s2 where s2: "merge_ranges (Some r) (Some q) s1 = ret (Some q, s2)"
        "ranges s2 (us1 @ (q, a1, rb, d) # vs0)" "fk_world s2 = fk_world s1" "env_same s1 s2" by blast
      have "b < rb" using R by (auto simp: ranges_def chain_append word_less_nat_alt word_le_nat_alt)
      then have "rc ((q, a1, rb, d) # vs0) k = rc ((q, a1, b, c) # vs) k" for k using Cons x True by auto
      from rc_cong [OF this, of us1] first(3) True have "\<forall>k. rc (us1 @ (q, a1, rb, c) # vs0) k = rc (us @ (p, a, b, c) # vs) k" by simp
      moreover have "undo_merge (Some p) s = ret (Some q, s2)" using run near eq True s2(1) by simp
      ultimately show ?thesis using first(4,6,7) s2(2,3) True env_same_trans [OF first(5) s2(4)]
        by (intro exI [of _ us1] exI [of _ q] exI [of _ a1] exI [of _ rb] exI [of _ vs0] exI [of _ s2]) simp
    next
      case False
      then have "undo_merge (Some p) s = ret (Some q, s1)" using run near eq by simp
      then show ?thesis using first by blast
    qed
  qed
qed

definition undone :: "('w \<Rightarrow> u64 \<Rightarrow> bool) \<Rightarrow> u64 \<Rightarrow> (u64 \<Rightarrow> int) \<Rightarrow> 'w fork_state \<Rightarrow> range list \<Rightarrow> nat \<times> u64 \<Rightarrow> u64 \<times> int \<Rightarrow> range list \<Rightarrow> nat \<Rightarrow> bool" where
  "undone flags start f s us pa bc vs lo \<longleftrightarrow>
     (let xs = us @ (fst pa, snd pa, bc) # vs; g = (\<lambda>k. f k + (if start \<le> k \<and> unat k < lo then 1 else 0))
      in ranges s xs \<and> (\<forall>k. rc xs k = g k) \<and> (\<forall>k. flags (fk_world s) k \<longleftrightarrow> 0 < g k) \<and>
         (lo = unat start \<and> unat (snd pa) \<le> lo \<or> unat start < lo \<and> unat (snd pa) = lo))"

lemma undo_fail:
  assumes "kernel ops flags" and "\<And>k. 0 \<le> f k" and "passing flags start stop 1 f s pre ((p, a, b, 0) # vs) lo" and "a \<le> stop"
  shows "\<exists>us q a' bc ws lo' s'. undo_node ops (Some p) start 1 s = ret (Some q, s') \<and> undone flags start f s' us (q, a') bc ws lo' \<and>
    env_same s s' \<and> lo' \<le> max (unat start) (unat stop)"
proof -
  have P: "ranges s (pre @ (p, a, b, 0) # vs)" "chain 0 pre lo" "\<And>k. unat k < lo \<Longrightarrow> rc pre k = counted start stop 1 f k"
    "\<And>k. lo \<le> unat k \<Longrightarrow> rc ((p, a, b, 0) # vs) k = f k - (if k < start then 1 else 0)"
    "\<And>k. flags (fk_world s) k \<longleftrightarrow> 0 < (if unat k < lo then counted start stop 1 f k else f k)"
    "unat start < lo \<or> start \<le> b" using assms(3) unfolding passing_def by blast+
  have a: "unat a = lo" "a \<le> b" using ranges_at [OF P(1,2)] by blast+
  from P(1) obtain n where n: "node_at (Some p) (fk_mm s) = ret n" "nd_start n = a" by (rule ranges_node)
  have rcs: "rc (pre @ (p, a, b, 0) # vs) k = (if unat k < lo then counted start stop 1 f k else f k - (if k < start then 1 else 0))" for k
    using P(3) [of k] P(4) [of k] by (simp add: rc_append0 [OF P(2)])
  show ?thesis
  proof (cases "a < start")
    case True
    then have sb: "start \<le> b" using P(6) a(1) by (auto simp: word_less_nat_alt)
    from split_range_eq [OF assms(1) P(1) True sb] obtain q s1 where s1: "split_range ops (Some p) start s = ret (Some q, s1)"
      "ranges s1 (pre @ (p, a, start - 1, 0) # (q, start, b, 0) # vs)" "flags (fk_world s1) = flags (fk_world s)" "env_same s s1" by blast
    from count_upd_eq [OF s1(2), of 1] obtain s2 where s2: "on_mm (upd_node (Some p) (\<lambda>n. n\<lparr>refcnt := refcnt n + 1\<rparr>)) s1 = ret s2"
      "ranges s2 (pre @ (p, a, start - 1, 1) # (q, start, b, 0) # vs)" "fk_world s2 = fk_world s1" "env_same s1 s2" by auto
    let ?xs = "pre @ (p, a, start - 1, 1) # (q, start, b, 0) # vs"
    have rc2: "rc ?xs k = f k" for k
    proof (cases "unat k < lo")
      case True
      then have "k < start" using \<open>a < start\<close> a(1) by (simp add: word_less_nat_alt)
      then show ?thesis using True P(3) [of k] by (auto simp: rc_append0 [OF P(2)] counted_def)
    next
      case False
      then have k: "f k = rc ((p, a, b, 0) # vs) k + (if k < start then 1 else 0)" using P(4) [of k] by simp
      have "k \<le> start - 1 \<longleftrightarrow> k < start"
      proof -
        have "start \<noteq> 0" using \<open>a < start\<close> by auto
        then have "unat start = Suc (unat (start - 1))" by (simp add: unat_minus_one unat_gt_0)
        then show ?thesis by (simp add: word_le_nat_alt word_less_nat_alt) linarith
      qed
      then show ?thesis using False k sb by (auto simp: rc_append0 [OF P(2)])
    qed
    have "ranges s2 ((pre @ [(p, a, start - 1, 1)]) @ (q, start, b, 0) # vs)" using s2(2) by simp
    from undo_merge_eq [OF this] obtain us r a' b' ws s3 where s3: "undo_merge (Some q) s2 = ret (Some r, s3)"
      "ranges s3 (us @ (r, a', b', 0) # ws)" "\<And>k. rc (us @ (r, a', b', 0) # ws) k = f k" "fk_world s3 = fk_world s2" "env_same s2 s3"
      "a' = start" using rc2 by auto
    have flags: "flags (fk_world s3) k \<longleftrightarrow> 0 < f k" for k
    proof -
      have "k < start" if "unat k < lo" using that True a(1) by (simp add: word_less_nat_alt)
      then show ?thesis using P(5) [of k] s3(4) s2(3) s1(3) by (auto simp: counted_def not_le)
    qed
    have "undone flags start f s3 us (r, a') (b', 0) ws (unat start)"
      using s3(2,3,6) flags by (auto simp: undone_def word_le_nat_alt)
    moreover have "undo_node ops (Some p) start 1 s = ret (Some r, s3)"
      using n True s1(1) s2(1) s3(1) by (simp add: undo_node_def undo_split_def)
    moreover have "env_same s s3" using env_same_trans s1(4) s2(4) s3(5) by blast
    ultimately show ?thesis using max.cobounded1 by blast
  next
    case False
    from undo_merge_eq [OF P(1)] obtain us r a' b' ws s3 where s3: "undo_merge (Some p) s = ret (Some r, s3)"
      "ranges s3 (us @ (r, a', b', 0) # ws)" "\<forall>k. rc (us @ (r, a', b', 0) # ws) k = rc (pre @ (p, a, b, 0) # vs) k"
      "fk_world s3 = fk_world s" "env_same s s3" "a' \<le> a" "pre = [] \<or> snd (snd (snd (last pre))) \<noteq> 0 \<longrightarrow> a' = a" by blast
    have run: "undo_node ops (Some p) start 1 s = ret (Some r, s3)" using n False s3(1) by (simp add: undo_node_def undo_split_def)
    have ge: "unat start \<le> lo" using False a(1) by (simp add: word_less_nat_alt)
    have g: "(if unat k < lo then counted start stop 1 f k else f k) = f k + (if start \<le> k \<and> unat k < lo then 1 else 0)"
      "rc (pre @ (p, a, b, 0) # vs) k = f k + (if start \<le> k \<and> unat k < lo then 1 else 0)" for k
      using assms(4) a(1) ge rcs [of k] by (auto simp: counted_def word_le_nat_alt word_less_nat_alt)
    have "undone flags start f s3 us (r, a') (b', 0) ws lo"
    proof -
      have "lo = unat start \<and> unat a' \<le> lo \<or> unat start < lo \<and> unat a' = lo"
      proof (cases "lo = unat start")
        case False
        then have less: "unat start < lo" using ge by simp
        then have "pre \<noteq> []" using P(2) by auto
        then obtain pre0 x ra rb d where pre: "pre = pre0 @ [(x, ra, rb, d)]" by (metis prod_cases4 rev_exhaust)
        then have rb: "unat rb + 1 = lo" "chain 0 pre0 (unat ra)" "ra \<le> rb" using P(2) by (auto simp: chain_append)
        have "rc pre rb = d" using pre rb(3) by (simp add: rc_append0 [OF rb(2)] word_le_nat_alt)
        moreover have "start \<le> rb" using less rb(1) by (simp add: word_le_nat_alt)
        moreover have "rb \<le> stop" using assms(4) a(1) rb(1) by (simp add: word_le_nat_alt)
        ultimately have "d = f rb + 1" using P(3) [of rb] rb(1) by (simp add: counted_def)
        then have "d \<noteq> 0" using assms(2) [of rb] by simp
        then show ?thesis using s3(7) pre less a(1) by simp
      qed (use s3(6) a(1) in \<open>simp add: word_le_nat_alt\<close>)
      then show ?thesis using s3(2-4) g P(5) by (simp add: undone_def)
    qed
    moreover have "lo \<le> max (unat start) (unat stop)" using assms(4) a(1) by (simp add: word_le_nat_alt)
    ultimately show ?thesis using run s3(5) by blast
  qed
qed

subsection \<open>The loop over the nodes\<close>

lemma ranges_world: "ranges s xs \<Longrightarrow> ranges (s\<lparr>fk_world := w\<rparr>) xs"
  by (simp add: ranges_def)

lemma passing_world: "passing flags start stop inc f s pre suf lo \<Longrightarrow> flags w = flags (fk_world s) \<Longrightarrow>
    passing flags start stop inc f (s\<lparr>fk_world := w\<rparr>) pre suf lo"
  by (simp add: passing_def ranges_def)

lemma passed_end:
  assumes "passing flags start stop inc f s pre suf lo" and "suf = [] \<or> stop < fst (snd (hd suf))" and "start \<le> stop"
  shows "ranges s (pre @ suf)" and "rc (pre @ suf) k = counted start stop inc f k"
    and "flags (fk_world s) k \<longleftrightarrow> 0 < counted start stop inc f k"
proof -
  have P: "ranges s (pre @ suf)" "chain 0 pre lo" "\<And>k. unat k < lo \<Longrightarrow> rc pre k = counted start stop inc f k"
    "\<And>k. lo \<le> unat k \<Longrightarrow> rc suf k = f k - (if k < start then inc else 0)"
    "\<And>k. flags (fk_world s) k \<longleftrightarrow> 0 < (if unat k < lo then counted start stop inc f k else f k)"
    using assms(1) unfolding passing_def by blast+
  have "unat stop < lo"
  proof (cases suf)
    case Nil
    then have "lo = 2 ^ 64" using P(1,2) chain_det by (auto simp: ranges_def)
    then show ?thesis by simp
  next
    case (Cons x vs)
    obtain p a b c where x: "x = (p, a, b, c)" by (cases x)
    then have "unat a = lo" using ranges_at [of s pre p a b c vs lo] P(1,2) Cons by simp
    then show ?thesis using assms(2) Cons x by (simp add: word_less_nat_alt)
  qed
  then have above: "counted start stop inc f k = f k \<and> \<not> k < start" if "lo \<le> unat k" for k
    using that assms(3) by (auto simp: counted_def word_le_nat_alt word_less_nat_alt)
  show "ranges s (pre @ suf)" by (rule P(1))
  show "rc (pre @ suf) k = counted start stop inc f k"
    using P(3,4) [of k] above [of k] by (cases "unat k < lo") (auto simp: rc_append0 [OF P(2)])
  show "flags (fk_world s) k \<longleftrightarrow> 0 < counted start stop inc f k"
    using P(5) [of k] above [of k] by (cases "unat k < lo") auto
qed

lemma madvise_step_end:
  assumes "passing flags start stop inc f s pre suf lo" and "suf = [] \<or> stop < fst (snd (hd suf))"
  shows "madvise_step ops start stop adv (first_ptr suf, s) = ret (Return (Passed (first_ptr suf), s))"
proof (cases suf)
  case (Cons x vs)
  obtain p a b c where x: "x = (p, a, b, c)" by (cases x)
  have "ranges s (pre @ (p, a, b, c) # vs)" using assms(1) Cons x by (simp add: passing_def)
  then obtain n where "node_at (Some p) (fk_mm s) = ret n" "nd_start n = a" by (rule ranges_node)
  then show ?thesis using assms(2) Cons x by (simp add: madvise_step_def not_le)
qed (simp add: madvise_step_def)

lemma madvise_step_go:
  assumes "kernel ops flags" and "job adv start stop f" and "adv = MADV_DOFORK \<longrightarrow> dofork_works ops"
    and "passing flags start stop (inc_of adv) f s pre ((p, a, b, c) # vs) lo" and "a \<le> stop"
  shows "(\<exists>s' b' vs'. madvise_step ops start stop adv (Some p, s) = ret (Next (first_ptr vs', s')) \<and> env_same s s' \<and>
      passing flags start stop (inc_of adv) f s' (pre @ [(p, a, b', c + inc_of adv)]) vs' (unat b' + 1) \<and> lo \<le> unat b') \<or>
    (\<exists>e us q a' bc ws lo' s'. madvise_step ops start stop adv (Some p, s) = ret (Return (Failed e (Some q), s')) \<and>
      adv = MADV_DONTFORK \<and> undone flags start f s' us (q, a') bc ws lo' \<and> env_same s s' \<and> e \<noteq> 0 \<and> lo' \<le> unat stop)"
proof -
  have se: "start \<le> stop" "\<And>k. 0 \<le> f k" using assms(2) by (simp_all add: job_def)
  have R: "ranges s (pre @ (p, a, b, c) # vs)" "chain 0 pre lo" using assms(4) by (simp_all add: passing_def)
  from R(1) obtain n where n: "node_at (Some p) (fk_mm s) = ret n" "nd_start n = a" "nd_end n = b" by (rule ranges_node)
  from passing_split [OF assms(1,4,5) se(1)] obtain x b' vs' s1 where
    s1: "(if stop < b then split_range ops (Some p) (stop + 1) s else ret (Some p, s)) = ret (Some x, s1)"
    "passing flags start stop (inc_of adv) f s1 pre ((p, a, b', c) # vs') lo" "b' \<le> stop" "env_same s s1" by blast
  have R1: "ranges s1 (pre @ (p, a, b', c) # vs')" using s1(2) by (simp add: passing_def)
  then obtain m where m: "node_at (Some p) (fk_mm s1) = ret m" "nd_start m = a" "nd_end m = b'" "refcnt m = c" by (rule ranges_node)
  let ?inc = "inc_of adv" and ?from = "if a < start then start else a"
  obtain r w where rw: "(if ?inc = - 1 \<and> c = 1 \<or> ?inc = 1 \<and> c = 0 then madvise_op ops ?from (b' - ?from + 1) adv (fk_world s1)
      else (0, fk_world s1)) = (r, w)" by fastforce
  have step: "madvise_step ops start stop adv (Some p, s) =
      (if r \<noteq> 0 then bindC (undo_node ops (Some p) start ?inc (s1\<lparr>fk_world := w\<rparr>)) (\<lambda>(node, s). ret (Return (Failed r node, s)))
       else bindC (on_mm (upd_node (Some p) (\<lambda>n. n\<lparr>refcnt := refcnt n + ?inc\<rparr>)) (s1\<lparr>fk_world := w\<rparr>)) (\<lambda>s.
         bindC (mm_near Rgt (Some p) (fk_mm s)) (\<lambda>node. ret (Next (node, s)))))"
  proof -
    have "tell_kernel ops start adv m (fk_world s1) = (r, w)" using rw m(2-4) by (auto simp: tell_kernel_def split: if_splits)
    then show ?thesis using n assms(5) s1(1) m(1) by (simp add: madvise_step_def Let_def)
  qed
  from count_upd_eq [OF ranges_world [OF R1], of "?inc" w] obtain s2 where
    s2: "on_mm (upd_node (Some p) (\<lambda>n. n\<lparr>refcnt := refcnt n + ?inc\<rparr>)) (s1\<lparr>fk_world := w\<rparr>) = ret s2"
    "ranges s2 (pre @ (p, a, b', c + ?inc) # vs')" "fk_world s2 = w" "env_same (s1\<lparr>fk_world := w\<rparr>) s2" by auto
  have "env_same s (s1\<lparr>fk_world := w\<rparr>)" using s1(4) by (simp add: env_same_def)
  then have env: "env_same s s2" "env_same s (s1\<lparr>fk_world := w\<rparr>)" using s2(4) env_same_trans by blast+
  note count = passing_count [OF assms(1-3) s1(2,3) rw s2(2,3)]
  show ?thesis
  proof (cases "r = 0")
    case True
    have "a \<le> b'" "unat a = lo" using ranges_at [OF R1 R(2)] by blast+
    then have "lo \<le> unat b'" by (simp add: word_le_nat_alt)
    moreover have "mm_near Rgt (Some p) (fk_mm s2) = ret (first_ptr vs')" using ranges_next [OF s2(2)] first_ptr_alt by simp
    then have "madvise_step ops start stop adv (Some p, s) = ret (Next (first_ptr vs', s2))" using step True s2(1) by simp
    ultimately show ?thesis using count(1) [OF True] env by blast
  next
    case False
    from count(2) [OF False] have f: "adv = MADV_DONTFORK" "c = 0" "flags w = flags (fk_world s1)" by blast+
    have "passing flags start stop 1 f (s1\<lparr>fk_world := w\<rparr>) pre ((p, a, b', 0) # vs') lo"
      using passing_world [OF s1(2) f(3)] f(1,2) by simp
    from undo_fail [OF assms(1) se(2) this assms(5)] obtain us q a' bc ws lo' s' where
      s': "undo_node ops (Some p) start 1 (s1\<lparr>fk_world := w\<rparr>) = ret (Some q, s')" "undone flags start f s' us (q, a') bc ws lo'"
      "env_same (s1\<lparr>fk_world := w\<rparr>) s'" "lo' \<le> max (unat start) (unat stop)" by blast
    have "lo' \<le> unat stop" using s'(4) se(1) by (simp add: word_le_nat_alt)
    moreover have "madvise_step ops start stop adv (Some p, s) = ret (Return (Failed r (Some q), s'))" using step False f(1) s'(1) by simp
    ultimately show ?thesis using f(1) False s'(2) env_same_trans [OF env(2) s'(3)] by blast
  qed
qed

lemma madvise_loop:
  assumes "kernel ops flags" and "job adv start stop f" and "adv = MADV_DOFORK \<longrightarrow> dofork_works ops"
    and "passing flags start stop (inc_of adv) f s pre suf lo"
  shows "\<exists>r s'. loop (madvise_step ops start stop adv) (first_ptr suf, s) = ret (r, s') \<and> env_same s s' \<and>
    ((\<exists>pre' suf' lo'. r = Passed (first_ptr suf') \<and> passing flags start stop (inc_of adv) f s' pre' suf' lo' \<and>
        (suf' = [] \<or> stop < fst (snd (hd suf')))) \<or>
     (\<exists>e us q a' bc ws lo'. r = Failed e (Some q) \<and> adv = MADV_DONTFORK \<and> undone flags start f s' us (q, a') bc ws lo' \<and>
        e \<noteq> 0 \<and> lo' \<le> unat stop))"
  using assms(4)
proof (induction "2 ^ 64 - lo" arbitrary: s pre suf lo rule: less_induct)
  case less
  show ?case
  proof (cases "suf = [] \<or> stop < fst (snd (hd suf))")
    case True
    then show ?thesis using loop_Return [of "madvise_step ops start stop adv", OF madvise_step_end [OF less.prems True]] less.prems True
      by (metis env_same_refl)
  next
    case False
    then obtain p a b c vs where suf: "suf = (p, a, b, c) # vs" by (metis list.exhaust prod_cases4)
    then have "a \<le> stop" using False by simp
    from madvise_step_go [OF assms(1-3) less.prems [unfolded suf] this] show ?thesis
    proof (elim disjE exE conjE)
      fix s' b' vs'
      assume *: "madvise_step ops start stop adv (Some p, s) = ret (Next (first_ptr vs', s'))" "env_same s s'"
        "passing flags start stop (inc_of adv) f s' (pre @ [(p, a, b', c + inc_of adv)]) vs' (unat b' + 1)" "lo \<le> unat b'"
      have "2 ^ 64 - (unat b' + 1) < 2 ^ 64 - lo" using *(4) unat_lt_u64 [of b'] unfolding pow64 by linarith
      from less.hyps [OF this *(3)] env_same_trans [OF *(2)] loop_Next [of "madvise_step ops start stop adv", OF *(1)] suf show ?thesis
        by (simp del: first_ptr_simps(1)) blast
    next
      fix e us q a' bc ws lo' s'
      assume *: "madvise_step ops start stop adv (Some p, s) = ret (Return (Failed e (Some q), s'))" "adv = MADV_DONTFORK"
        "undone flags start f s' us (q, a') bc ws lo'" "env_same s s'" "e \<noteq> 0" "lo' \<le> unat stop"
      then have "loop (madvise_step ops start stop adv) (first_ptr suf, s) = ret (Failed e (Some q), s')"
        using suf by (simp add: loop_Return)
      with *(2-6) show ?thesis by blast
    qed
  qed
qed

subsection \<open>The first node\<close>

lemma get_start_node_eq:
  assumes "kernel ops flags" and "ranges s xs" and "\<And>k. rc xs k = f k" and "\<And>k. flags (fk_world s) k \<longleftrightarrow> 0 < f k"
  shows "\<exists>s' pre suf lo. get_start_node ops start inc s = ret (first_ptr suf, s') \<and> suf \<noteq> [] \<and>
    passing flags start stop inc f s' pre suf lo \<and> env_same s s'"
proof -
  have ch: "chain 0 xs (2 ^ 64)" using assms(2) by (simp add: ranges_def)
  then obtain us p a b c vs where xs: "xs = us @ (p, a, b, c) # vs" "a \<le> start" "start \<le> b"
    by (rule chain_cover [of 0 xs "2 ^ 64" start]) (use unat_lt_u64 [of start] in simp_all)
  have R: "ranges s (us @ (p, a, b, c) # vs)" using assms(2) xs(1) by simp
  have split: "chain 0 us (unat a)" "chain (unat b + 1) vs (2 ^ 64)" using ch xs(1) by (auto simp: chain_append)
  have "fst (snd x) < start \<and> fst (snd (snd x)) < start" if "x \<in> set us" for x
    using chain_mem [OF split(1), of "fst x" "fst (snd x)" "fst (snd (snd x))" "snd (snd (snd x))"] that xs(2)
    by (auto simp: word_less_nat_alt word_le_nat_alt)
  moreover have "start < fst (snd y)" if "y \<in> set vs" for y
    using chain_mem [OF split(2), of "fst y" "fst (snd y)" "fst (snd (snd y))" "snd (snd (snd y))"] that xs(3)
    by (auto simp: word_less_nat_alt word_le_nat_alt)
  ultimately have find: "mm_find_start start (fk_mm s) = ret (Some p)"
    using R xs(2,3) by (intro view_find [of "fk_mm s" us p a b c vs]) (auto simp: ranges_def)
  from R obtain n where n: "node_at (Some p) (fk_mm s) = ret n" "nd_start n = a" "refcnt n = c" by (rule ranges_node)
  have below: "rc us k = f k" if "unat k < unat a" for k using assms(3) [of k] xs(1) that by (simp add: rc_append0 [OF split(1)])
  have here: "rc ((p, a, b, c) # vs) k = f k" if "unat a \<le> unat k" for k
    using assms(3) [of k] xs(1) that by (simp add: rc_append0 [OF split(1)])
  show ?thesis
  proof (cases "a < start")
    case True
    from split_range_eq [OF assms(1) R True xs(3)] obtain q s' where s': "split_range ops (Some p) start s = ret (Some q, s')"
      "ranges s' (us @ (p, a, start - 1, c) # (q, start, b, c) # vs)" "flags (fk_world s') = flags (fk_world s)" "env_same s s'" by blast
    let ?pre = "us @ [(p, a, start - 1, c)]"
    have "start \<noteq> 0" using True by auto
    then have s1: "unat start = unat (start - 1) + 1" by (simp add: unat_minus_one unat_gt_0)
    have pre: "chain 0 ?pre (unat start)" using split(1) True s1 by (auto simp: chain_append word_le_nat_alt word_less_nat_alt)
    have "rc ?pre k = f k" if "unat k < unat start" for k
      using that s1 below [of k] here [of k] xs(3) by (auto simp: rc_append0 [OF split(1)] word_le_nat_alt split: if_splits)
    moreover have "rc ((q, start, b, c) # vs) k = f k" if "unat start \<le> unat k" for k
      using that True here [of k] by (auto simp: word_less_nat_alt)
    ultimately have "passing flags start stop inc f s' ?pre ((q, start, b, c) # vs) (unat start)"
      using s'(2,3) pre assms(4) xs(3) by (auto simp: passing_def counted_def word_le_nat_alt word_less_nat_alt)
    then show ?thesis using find n True s'(1,4)
      by (intro exI [of _ s'] exI [of _ ?pre] exI [of _ "(q, start, b, c) # vs"] exI [of _ "unat start"]) (simp add: get_start_node_def)
  next
    case False
    then have a: "a = start" using xs(2) by simp
    have plain: "passing flags start stop inc f s us ((p, a, b, c) # vs) (unat a)"
      using R split(1) below here assms(4) xs(3) a by (auto simp: passing_def counted_def word_le_nat_alt word_less_nat_alt)
    show ?thesis
    proof (cases us rule: rev_cases)
      case Nil
      then have "mm_near Lft (Some p) (fk_mm s) = ret None" using ranges_prev [OF R] by simp
      then show ?thesis using find n False plain
        by (intro exI [of _ s] exI [of _ us] exI [of _ "(p, a, b, c) # vs"] exI [of _ "unat a"]) (simp add: get_start_node_def)
    next
      case (snoc us0 x)
      obtain r ra rb d where x: "x = (r, ra, rb, d)" by (cases x)
      have near: "mm_near Lft (Some p) (fk_mm s) = ret (Some r)" using near_ptr [OF R] snoc x by blast
      have R': "ranges s (us0 @ (r, ra, rb, d) # (p, a, b, c) # vs)" using R snoc x by simp
      have eq: "counts (Some r) (c + inc) s = ret (d = c + inc)" using counts_eq [OF R'] .
      show ?thesis
      proof (cases "d = c + inc")
        case True
        from merge_ranges_eq [OF R'] obtain s1 where s1: "merge_ranges (Some p) (Some r) s = ret (Some r, s1)"
          "ranges s1 (us0 @ (r, ra, b, c) # vs)" "fk_world s1 = fk_world s" "env_same s s1" by blast
        have ord: "chain 0 us0 (unat ra)" "ra \<le> rb" "unat rb + 1 = unat a" using split(1) snoc x by (auto simp: chain_append)
        have "rc us0 k = f k" if "unat k < unat ra" for k
        proof -
          have "unat k < unat a" using that ord by (simp add: word_le_nat_alt)
          from below [OF this] show ?thesis using that snoc x by (simp add: rc_append0 [OF ord(1)])
        qed
        moreover have "rc ((r, ra, b, c) # vs) k = f k - (if k < start then inc else 0)" if "unat ra \<le> unat k" for k
        proof (cases "k < start")
          case True
          then have k: "unat k < unat a" "k \<le> rb" using a ord(3) by (simp_all add: word_less_nat_alt word_le_nat_alt)
          have "f k = d" using below [OF k(1)] snoc x that k(2) by (simp add: rc_append0 [OF ord(1)])
          moreover have "k \<le> b" using True xs(3) by simp
          ultimately show ?thesis using \<open>d = c + inc\<close> True by simp
        next
          case False
          then have "unat a \<le> unat k" using a by (simp add: word_less_nat_alt)
          from here [OF this] show ?thesis using False by simp
        qed
        moreover have "unat ra \<le> unat start" using ord a by (simp add: word_le_nat_alt)
        ultimately have "passing flags start stop inc f s1 us0 ((r, ra, b, c) # vs) (unat ra)"
          using s1(2,3) ord(1) assms(4) xs(3) by (auto simp: passing_def counted_def word_le_nat_alt word_less_nat_alt)
        then show ?thesis using find n False near eq True s1(1,4)
          by (intro exI [of _ s1] exI [of _ us0] exI [of _ "(r, ra, b, c) # vs"] exI [of _ "unat ra"]) (simp add: get_start_node_def)
      next
        case False
        then show ?thesis using find n \<open>\<not> a < start\<close> near eq plain
          by (intro exI [of _ s] exI [of _ us] exI [of _ "(p, a, b, c) # vs"] exI [of _ "unat a"]) (simp add: get_start_node_def)
      qed
    qed
  qed
qed

lemma merge_behind_eq:
  assumes "ranges s (pre @ suf)"
  shows "\<exists>s' ys. merge_behind (first_ptr suf) s = ret s' \<and> ranges s' ys \<and> (\<forall>k. rc ys k = rc (pre @ suf) k) \<and>
    fk_world s' = fk_world s \<and> env_same s s'"
proof (cases suf)
  case Nil
  then show ?thesis using assms by (intro exI [of _ s] exI [of _ pre]) (simp add: merge_behind_def)
next
  case (Cons x vs)
  obtain p a b c where x: "x = (p, a, b, c)" by (cases x)
  have R: "ranges s (pre @ (p, a, b, c) # vs)" using assms Cons x by simp
  then obtain n where n: "node_at (Some p) (fk_mm s) = ret n" "refcnt n = c" by (rule ranges_node)
  show ?thesis
  proof (cases pre rule: rev_cases)
    case Nil
    then have "mm_near Lft (Some p) (fk_mm s) = ret None" using ranges_prev [OF R] by simp
    then show ?thesis using assms n Cons x by (intro exI [of _ s] exI [of _ "pre @ suf"]) (simp add: merge_behind_def)
  next
    case (snoc us0 y)
    obtain r ra rb d where y: "y = (r, ra, rb, d)" by (cases y)
    have near: "mm_near Lft (Some p) (fk_mm s) = ret (Some r)" using near_ptr [OF R] snoc y by blast
    have R': "ranges s (us0 @ (r, ra, rb, d) # (p, a, b, c) # vs)" using R snoc y by simp
    have eq: "counts (Some r) c s = ret (d = c)" using counts_eq [OF R'] .
    show ?thesis
    proof (cases "d = c")
      case True
      from merge_ranges_eq [OF R'] obtain s1 where s1: "merge_ranges (Some p) (Some r) s = ret (Some r, s1)"
        "ranges s1 (us0 @ (r, ra, b, c) # vs)" "fk_world s1 = fk_world s" "env_same s s1" by blast
      have "ra \<le> rb" "rb < a" "a \<le> b" using R' by (auto simp: ranges_def chain_append word_less_nat_alt)
      then have "rc ((r, ra, b, c) # vs) k = rc ((r, ra, rb, d) # (p, a, b, c) # vs) k" for k using True by auto
      from rc_cong [OF this, of us0] have "\<forall>k. rc (us0 @ (r, ra, b, c) # vs) k = rc (pre @ suf) k" using snoc y Cons x by simp
      then show ?thesis using s1 n near eq True Cons x
        by (intro exI [of _ s1] exI [of _ "us0 @ (r, ra, b, c) # vs"]) (simp add: merge_behind_def)
    next
      case False
      then show ?thesis using assms n near eq Cons x by (intro exI [of _ s] exI [of _ "pre @ suf"]) (simp add: merge_behind_def)
    qed
  qed
qed

subsection \<open>Counting a range of pages\<close>

text \<open>
  What the tree stands for: a count for every address, and the kernel keeps from children the pages
  whose count is not zero.
\<close>

definition pages :: "('w \<Rightarrow> u64 \<Rightarrow> bool) \<Rightarrow> 'w fork_state \<Rightarrow> (u64 \<Rightarrow> int) \<Rightarrow> bool" where
  "pages flags s f \<longleftrightarrow> (\<exists>xs. ranges s xs \<and> (\<forall>k. rc xs k = f k)) \<and>
     (\<forall>k. 0 \<le> f k) \<and> (\<forall>k. flags (fk_world s) k \<longleftrightarrow> 0 < f k)"

lemma job_counted: "job adv start stop f \<Longrightarrow> 0 \<le> counted start stop (inc_of adv) f k"
  by (cases adv) (auto simp: job_def counted_def)

text \<open>A pass with the merging behind it either counts the range or leaves what is to be rolled back.\<close>

lemma madvise_pass_eq:
  assumes "kernel ops flags" and "pages flags s f" and "job adv start stop f" and "adv = MADV_DOFORK \<longrightarrow> dofork_works ops"
  shows "\<exists>r s'. madvise_pass ops start stop adv s = ret (r, s') \<and> env_same s s' \<and>
    ((\<exists>node s''. r = Passed node \<and> merge_behind node s' = ret s'' \<and> pages flags s'' (counted start stop (inc_of adv) f) \<and> env_same s s'') \<or>
     (\<exists>e us q a' bc ws lo'. r = Failed e (Some q) \<and> adv = MADV_DONTFORK \<and> undone flags start f s' us (q, a') bc ws lo' \<and>
        e \<noteq> 0 \<and> lo' \<le> unat stop))"
proof -
  from assms(2) obtain xs where "ranges s xs" "\<And>k. rc xs k = f k" "\<And>k. flags (fk_world s) k \<longleftrightarrow> 0 < f k" by (auto simp: pages_def)
  from get_start_node_eq [OF assms(1) this] obtain s1 pre suf lo where s1: "get_start_node ops start (inc_of adv) s = ret (first_ptr suf, s1)"
    "suf \<noteq> []" "passing flags start stop (inc_of adv) f s1 pre suf lo" "env_same s s1" by blast
  have "first_ptr suf \<noteq> None" using s1(2) by (cases suf) simp_all
  then have run: "madvise_pass ops start stop adv s = loop (madvise_step ops start stop adv) (first_ptr suf, s1)"
    using s1(1) by (simp add: madvise_pass_def del: not_None_eq)
  have se: "start \<le> stop" using assms(3) by (simp add: job_def)
  from madvise_loop [OF assms(1,3,4) s1(3)] obtain r s2 where r: "loop (madvise_step ops start stop adv) (first_ptr suf, s1) = ret (r, s2)"
    "env_same s1 s2" "(\<exists>pre' suf' lo'. r = Passed (first_ptr suf') \<and> passing flags start stop (inc_of adv) f s2 pre' suf' lo' \<and>
        (suf' = [] \<or> stop < fst (snd (hd suf')))) \<or>
     (\<exists>e us q a' bc ws lo'. r = Failed e (Some q) \<and> adv = MADV_DONTFORK \<and> undone flags start f s2 us (q, a') bc ws lo' \<and>
        e \<noteq> 0 \<and> lo' \<le> unat stop)" by blast
  have env: "env_same s s2" by (rule env_same_trans [OF s1(4) r(2)])
  from r(3) show ?thesis
  proof (rule disjE)
    assume "\<exists>pre' suf' lo'. r = Passed (first_ptr suf') \<and> passing flags start stop (inc_of adv) f s2 pre' suf' lo' \<and>
        (suf' = [] \<or> stop < fst (snd (hd suf')))"
    then obtain pre' suf' lo' where *: "r = Passed (first_ptr suf')" "passing flags start stop (inc_of adv) f s2 pre' suf' lo'"
      "suf' = [] \<or> stop < fst (snd (hd suf'))" by blast
    note end_ = passed_end [OF *(2,3) se]
    from merge_behind_eq [OF end_(1)] obtain s3 ys where s3: "merge_behind (first_ptr suf') s2 = ret s3" "ranges s3 ys"
      "\<forall>k. rc ys k = rc (pre' @ suf') k" "fk_world s3 = fk_world s2" "env_same s2 s3" by blast
    have "pages flags s3 (counted start stop (inc_of adv) f)"
      unfolding pages_def using s3(2-4) end_(2,3) job_counted [OF assms(3)] by auto
    then show ?thesis using run r(1) env *(1) s3(1) env_same_trans [OF env s3(5)] by auto
  next
    assume "\<exists>e us q a' bc ws lo'. r = Failed e (Some q) \<and> adv = MADV_DONTFORK \<and> undone flags start f s2 us (q, a') bc ws lo' \<and>
        e \<noteq> 0 \<and> lo' \<le> unat stop"
    then show ?thesis using run r(1) env by auto
  qed
qed

lemma roll_back_eq:
  assumes "kernel ops flags" and "dofork_works ops" and "undone flags start f s us (q, a) bc vs lo" and "\<And>k. 0 \<le> f k"
  shows "\<exists>s'. roll_back ops start MADV_DONTFORK (Some q) s = ret s' \<and> pages flags s' f \<and> env_same s s'"
proof -
  obtain b c where bc: "bc = (b, c)" by (cases bc)
  let ?xs = "us @ (q, a, b, c) # vs" and ?g = "\<lambda>k. f k + (if start \<le> k \<and> unat k < lo then 1 else 0)"
  have U: "ranges s ?xs" "\<And>k. rc ?xs k = ?g k" "\<And>k. flags (fk_world s) k \<longleftrightarrow> 0 < ?g k"
    "lo = unat start \<and> unat a \<le> lo \<or> unat start < lo \<and> unat a = lo"
    using assms(3) bc by (simp_all add: undone_def Let_def)
  have g: "pages flags s ?g" using U(1-3) assms(4) by (auto simp: pages_def intro!: exI [of _ ?xs] add_nonneg_nonneg)
  have stay: "pages flags s f" if "lo = unat start"
  proof -
    have "?g = f" using that by (auto simp: word_le_nat_alt fun_eq_iff)
    then show ?thesis using g by simp
  qed
  show ?thesis
  proof (cases us rule: rev_cases)
    case Nil
    then have "unat a = 0" using ranges_at [of s us q a b c vs 0] U(1) by simp
    then have "lo = unat start" using U(4) by auto
    moreover have "mm_near Lft (Some q) (fk_mm s) = ret None" using ranges_prev [OF U(1)] Nil by simp
    ultimately show ?thesis using stay by (intro exI [of _ s]) (simp add: roll_back_def)
  next
    case (snoc us0 x)
    obtain r ra rb d where x: "x = (r, ra, rb, d)" by (cases x)
    have near: "mm_near Lft (Some q) (fk_mm s) = ret (Some r)" using near_ptr [OF U(1)] snoc x by blast
    have R: "ranges s (us0 @ (r, ra, rb, d) # (q, a, b, c) # vs)" using U(1) snoc x by simp
    then obtain n where n: "node_at (Some r) (fk_mm s) = ret n" "nd_end n = rb" by (rule ranges_node)
    have rb: "unat a = unat rb + 1" using R by (auto simp: ranges_def chain_append)
    show ?thesis
    proof (cases "rb < start")
      case True
      then have "lo = unat start" using U(4) rb by (auto simp: word_less_nat_alt)
      then show ?thesis using stay near n True by (intro exI [of _ s]) (simp add: roll_back_def)
    next
      case False
      then have lo: "lo = unat rb + 1" using U(4) rb by (auto simp: word_less_nat_alt)
      have "unat rb < 18446744073709551615" using rb unat_lt_u64 [of a] by linarith
      then have "rb \<noteq> - 1" by (auto simp: max_iff)
      then have job: "job MADV_DOFORK start rb ?g"
        using assms(4) False lo by (auto simp: job_def word_le_nat_alt not_less intro!: add_nonneg_nonneg)
      from madvise_pass_eq [OF assms(1) g job] assms(2) obtain node s1 s2 where p: "madvise_pass ops start rb MADV_DOFORK s = ret (Passed node, s1)"
        "merge_behind node s1 = ret s2" "pages flags s2 (counted start rb (- 1) ?g)" "env_same s s2" by auto
      have "counted start rb (- 1) ?g = f" using lo by (auto simp: counted_def fun_eq_iff word_le_nat_alt)
      then show ?thesis using p near n False by (intro exI [of _ s2]) (simp add: roll_back_def)
    qed
  qed
qed

text \<open>The range a call counts: whole pages.\<close>

definition first_byte :: "nat \<Rightarrow> u64 \<Rightarrow> u64" where
  "first_byte b base = base AND NOT (2 ^ b - 1)"

definition last_byte :: "nat \<Rightarrow> u64 \<Rightarrow> u64 \<Rightarrow> u64" where
  "last_byte b base len = ((base + len + 2 ^ b - 1) AND NOT (2 ^ b - 1)) - 1"

definition page_of :: "nat \<Rightarrow> u64 \<Rightarrow> nat" where
  "page_of b k = unat k div 2 ^ b"

lemma mask_down:
  assumes "b < 64"
  shows "unat (k AND NOT (2 ^ b - 1) :: u64) = 2 ^ b * page_of b k"
proof -
  have "k AND NOT (mask b) = push_bit b (drop_bit b k)"
    by (rule bit_eqI) (auto simp: bit_simps)
  then have "unat (k AND NOT (2 ^ b - 1)) = unat (push_bit b (drop_bit b k))" by (simp only: mask_eq_exp_minus_1)
  also have "\<dots> = take_bit 64 (push_bit b (drop_bit b (unat k)))"
    by (simp only: unsigned_push_bit_eq unat_drop_bit_eq) simp
  also have "\<dots> = take_bit 64 (2 ^ b * page_of b k)"
    by (simp add: push_bit_eq_mult drop_bit_eq_div page_of_def mult.commute)
  also have "\<dots> = 2 ^ b * page_of b k"
  proof -
    have "2 ^ b * page_of b k \<le> unat k" by (simp add: page_of_def)
    then have "2 ^ b * page_of b k < 2 ^ 64" using unat_lt_u64 [of k] unfolding pow64 by linarith
    then show ?thesis by (simp only: take_bit_nat_eq_self)
  qed
  finally show ?thesis .
qed

lemma range_bytes:
  assumes "b < 64" and "len \<noteq> 0" and "unat base + unat len \<le> 2 ^ 64"
  shows "first_byte b base \<le> k \<and> k \<le> last_byte b base len \<longleftrightarrow>
    page_of b base \<le> page_of b k \<and> page_of b k \<le> (unat base + unat len - 1) div 2 ^ b"
proof -
  have first: "first_byte b base \<le> k \<longleftrightarrow> page_of b base \<le> page_of b k"
  proof -
    have "first_byte b base \<le> k \<longleftrightarrow> 2 ^ b * page_of b base \<le> unat k"
      by (simp add: first_byte_def word_le_nat_alt mask_down [OF assms(1)])
    also have "\<dots> \<longleftrightarrow> page_of b base \<le> page_of b k"
      by (simp add: page_of_def less_eq_div_iff_mult_less_eq mult.commute)
    finally show ?thesis .
  qed
  have pos: "0 < unat len" using assms(2) by (simp add: unat_gt_0)
  define e where "e = unat base + unat len - 1"
  have e: "e < 2 ^ 64" "unat base + unat len = e + 1" using assms(3) pos by (simp_all add: e_def)
  let ?x = "base + len + 2 ^ b - 1"
  have N: "(0 :: nat) < 2 ^ b" "(2 :: nat) ^ b dvd 2 ^ 64" "(2 :: nat) ^ b \<le> 2 ^ 64"
    using assms(1) by (simp_all add: le_imp_power_dvd power_increasing del: power_numeral)
  have x: "unat ?x = (e + 2 ^ b) mod 2 ^ 64"
  proof -
    have "?x = of_nat (unat base) + of_nat (unat len) + of_nat (2 ^ b) - 1" by simp
    also have "\<dots> = of_nat (unat base + unat len + 2 ^ b - 1)"
    proof -
      have "1 \<le> unat base + unat len + 2 ^ b" using N(1) by linarith
      then show ?thesis by (simp only: of_nat_diff of_nat_add of_nat_1)
    qed
    also have "unat base + unat len + 2 ^ b - 1 = e + 2 ^ b" using e(2) by simp
    finally show ?thesis by (simp only: unat_of_nat) simp
  qed
  have last: "last_byte b base len = (?x AND NOT (2 ^ b - 1)) - 1" by (simp add: last_byte_def)
  have "k \<le> last_byte b base len \<longleftrightarrow> page_of b k \<le> e div 2 ^ b"
  proof (cases "e + 2 ^ b < 2 ^ 64")
    case True
    then have m: "unat (?x AND NOT (2 ^ b - 1)) = 2 ^ b * (e div 2 ^ b + 1)"
      using x mask_down [OF assms(1), of ?x] N(1) by (simp add: page_of_def div_add_self2)
    then have "?x AND NOT (2 ^ b - 1) \<noteq> 0" using N(1) by auto
    then have "unat (last_byte b base len) = 2 ^ b * (e div 2 ^ b + 1) - 1" using m last by (simp add: unat_minus_one)
    moreover have "u \<le> m - 1 \<longleftrightarrow> u < m" if "0 < m" for u m :: nat using that by linarith
    ultimately have "k \<le> last_byte b base len \<longleftrightarrow> unat k < 2 ^ b * (e div 2 ^ b + 1)"
      using N(1) by (simp add: word_le_nat_alt)
    also have "\<dots> \<longleftrightarrow> unat k div 2 ^ b < e div 2 ^ b + 1" by (simp add: div_less_iff_less_mult mult.commute)
    finally show ?thesis by (simp add: page_of_def less_Suc_eq_le)
  next
    case False
    then have ge: "2 ^ 64 \<le> e + 2 ^ b" by linarith
    have small: "e + 2 ^ b - 2 ^ 64 < 2 ^ 64" "e + 2 ^ b - 2 ^ 64 < 2 ^ b" using e(1) N(1,3) by linarith+
    have "unat ?x = e + 2 ^ b - 2 ^ 64" unfolding x le_mod_geq [OF ge] by (rule mod_less [OF small(1)])
    then have "page_of b ?x = 0" using small(2) unfolding page_of_def by (simp only: div_less)
    then have "unat (?x AND NOT (2 ^ b - 1)) = 0" using mask_down [OF assms(1), of ?x] by simp
    then have "last_byte b base len = - 1" using last by (simp add: unat_eq_zero)
    moreover have "unat k div 2 ^ b \<le> e div 2 ^ b"
    proof -
      obtain q where q: "(2 :: nat) ^ 64 = 2 ^ b * q" using N(2) by (auto simp: dvd_def)
      have "unat k < 2 ^ b * q" using unat_lt_u64 [of k] q unfolding pow64 by linarith
      then have "unat k div 2 ^ b < q" using N(1) by (simp add: div_less_iff_less_mult mult.commute)
      moreover have "2 ^ b * (q - 1) \<le> e" using False q by (simp add: diff_mult_distrib2)
      then have "q - 1 \<le> e div 2 ^ b" using N(1) by (simp add: less_eq_div_iff_mult_less_eq mult.commute)
      ultimately show ?thesis by linarith
    qed
    ultimately show ?thesis by (simp add: page_of_def)
  qed
  with first show ?thesis by (simp add: e_def)
qed

end
