(* ===== verification/Ibv_Fork_Run.thy ===== *)
theory Ibv_Fork_Run
  imports Ibv_Fork_Facts "HOL-Library.Multiset"
begin

unbundle bit_operations_syntax

section \<open>The registrations of a process\<close>

text \<open>
  \<^verbatim>\<open>ibv_dontfork_range\<close> and \<^verbatim>\<open>ibv_dofork_range\<close> as a process uses them, from
  \<^verbatim>\<open>ibv_fork_init\<close> on.
\<close>

definition in_pages :: "nat \<Rightarrow> u64 \<times> u64 \<Rightarrow> u64 \<Rightarrow> bool" where
  "in_pages b r k \<longleftrightarrow> page_of b (fst r) \<le> page_of b k \<and> page_of b k \<le> (unat (fst r) + unat (snd r) - 1) div 2 ^ b"

definition range_ok :: "nat \<Rightarrow> u64 \<times> u64 \<Rightarrow> bool" where
  "range_ok b r \<longleftrightarrow> snd r \<noteq> 0 \<and> unat (fst r) + unat (snd r) \<le> 2 ^ 64 \<and> \<not> in_pages b r 0"

definition range_page :: "'w fork_ops \<Rightarrow> 'w fork_state \<Rightarrow> u64 \<Rightarrow> u64" where
  "range_page ops s base = (if huge_page_enabled s then get_page_size ops base s else of_int (page_size s))"

lemma madvise_range_eq:
  assumes "kernel ops flags" and "dofork_works ops" and "pages flags s f" and "range_page ops s base = 2 ^ b" and "b < 64"
    and "range_ok b (base, len)" and "adv = MADV_DOFORK \<longrightarrow> (\<forall>k. in_pages b (base, len) k \<longrightarrow> 1 \<le> f k)"
  shows "\<exists>r s'. ibv_madvise_range ops base len adv s = ret (r, s') \<and> env_same s s' \<and>
    (r = 0 \<and> pages flags s' (\<lambda>k. f k + (if in_pages b (base, len) k then inc_of adv else 0)) \<or>
     r = - 1 \<and> adv = MADV_DONTFORK \<and> pages flags s' f)"
proof -
  let ?start = "first_byte b base" and ?stop = "last_byte b base len"
  have len: "len \<noteq> 0" "unat base + unat len \<le> 2 ^ 64" using assms(6) by (simp_all add: range_ok_def)
  have bytes: "?start \<le> k \<and> k \<le> ?stop \<longleftrightarrow> in_pages b (base, len) k" for k
    using range_bytes [OF assms(5) len] by (simp add: in_pages_def)
  have "unat base \<le> unat base + unat len - 1" using len(1) unat_gt_0 [of len] by linarith
  then have "in_pages b (base, len) base" by (simp add: in_pages_def page_of_def div_le_mono)
  then have "?start \<le> ?stop" using bytes [of base] by auto
  moreover have "?start \<noteq> 0" using bytes [of 0] assms(6) \<open>?start \<le> ?stop\<close> by (auto simp: range_ok_def)
  ultimately have job: "job adv ?start ?stop f" using assms(3,7) bytes by (auto simp: job_def pages_def)
  have counted: "counted ?start ?stop (inc_of adv) f = (\<lambda>k. f k + (if in_pages b (base, len) k then inc_of adv else 0))"
    by (simp add: counted_def fun_eq_iff bytes)
  have run: "ibv_madvise_range ops base len adv s = count_range ops ?start ?stop adv s"
    using len(1) assms(4) by (simp add: ibv_madvise_range_def range_page_def first_byte_def last_byte_def Let_def)
  from madvise_pass_eq [OF assms(1,3) job] assms(2) obtain r s1 where pass: "madvise_pass ops ?start ?stop adv s = ret (r, s1)" "env_same s s1"
    "(\<exists>node s''. r = Passed node \<and> merge_behind node s1 = ret s'' \<and> pages flags s'' (counted ?start ?stop (inc_of adv) f) \<and> env_same s s'') \<or>
     (\<exists>e us q a' bc ws lo'. r = Failed e (Some q) \<and> adv = MADV_DONTFORK \<and> undone flags ?start f s1 us (q, a') bc ws lo' \<and>
        e \<noteq> 0 \<and> lo' \<le> unat ?stop)" by blast
  from pass(3) show ?thesis
  proof (rule disjE)
    assume "\<exists>node s''. r = Passed node \<and> merge_behind node s1 = ret s'' \<and> pages flags s'' (counted ?start ?stop (inc_of adv) f) \<and> env_same s s''"
    then show ?thesis using run pass(1) counted by (auto simp: count_range_def)
  next
    assume "\<exists>e us q a' bc ws lo'. r = Failed e (Some q) \<and> adv = MADV_DONTFORK \<and> undone flags ?start f s1 us (q, a') bc ws lo' \<and>
        e \<noteq> 0 \<and> lo' \<le> unat ?stop"
    then obtain e us q a' bc ws lo' where f: "r = Failed e (Some q)" "adv = MADV_DONTFORK" "undone flags ?start f s1 us (q, a') bc ws lo'" by blast
    have "\<And>k. 0 \<le> f k" using assms(3) by (simp add: pages_def)
    from roll_back_eq [OF assms(1,2) f(3) this] obtain s2 where "roll_back ops ?start MADV_DONTFORK (Some q) s1 = ret s2"
      "pages flags s2 f" "env_same s1 s2" by blast
    then show ?thesis using run pass(1) f env_same_trans [OF pass(2)] by (auto simp: count_range_def)
  qed
qed

lemma pages_root: "pages flags s f \<Longrightarrow> mm_root (fk_mm s) \<noteq> None"
proof -
  assume "pages flags s f"
  then obtain xs where "mm_view (fk_mm s) xs" "chain 0 xs (2 ^ 64)" by (auto simp: pages_def ranges_def)
  moreover from this(2) have "xs \<noteq> []" by auto
  ultimately show ?thesis using view_root by blast
qed

text \<open>A registration counts its pages or changes nothing; giving a counted range back always works.\<close>

lemma dontfork_eq:
  assumes "kernel ops flags" and "dofork_works ops" and "pages flags s f" and "range_page ops s base = 2 ^ b" and "b < 64"
    and "range_ok b (base, len)"
  shows "\<exists>r s'. ibv_dontfork_range ops base len s = ret (r, s') \<and> env_same s s' \<and>
    (r = 0 \<and> pages flags s' (\<lambda>k. f k + (if in_pages b (base, len) k then 1 else 0)) \<or> r = - 1 \<and> pages flags s' f)"
proof -
  have "MADV_DONTFORK = MADV_DOFORK \<longrightarrow> (\<forall>k. in_pages b (base, len) k \<longrightarrow> 1 \<le> f k)" by simp
  from madvise_range_eq [OF assms this] pages_root [OF assms(3)] show ?thesis
    by (fastforce simp: ibv_dontfork_range_def cong: if_cong)
qed

lemma dofork_eq:
  assumes "kernel ops flags" and "dofork_works ops" and "pages flags s f" and "range_page ops s base = 2 ^ b" and "b < 64"
    and "range_ok b (base, len)" and "\<And>k. in_pages b (base, len) k \<Longrightarrow> 1 \<le> f k"
  shows "\<exists>s'. ibv_dofork_range ops base len s = ret (0, s') \<and> env_same s s' \<and>
    pages flags s' (\<lambda>k. f k + (if in_pages b (base, len) k then - 1 else 0))"
proof -
  have "MADV_DOFORK = MADV_DOFORK \<longrightarrow> (\<forall>k. in_pages b (base, len) k \<longrightarrow> 1 \<le> f k)" using assms(7) by blast
  from madvise_range_eq [OF assms(1-6) this] pages_root [OF assms(3)] show ?thesis
    by (fastforce simp: ibv_dofork_range_def cong: if_cong)
qed

subsection \<open>The first range\<close>

lemma try_madvise_flags:
  assumes "kernel ops flags" and "\<And>k. \<not> flags (fk_world s) k" and "try_madvise ops tmp s = (0, w)"
  shows "\<not> flags w k"
proof -
  define sz where "sz = (if huge_page_enabled s then get_page_size ops tmp s else of_int (page_size s))"
  define at where "at = (if huge_page_enabled s then tmp AND NOT (sz - 1) else tmp)"
  obtain r1 w1 where m1: "madvise_op ops at sz MADV_DONTFORK (fk_world s) = (r1, w1)" by fastforce
  have calls: "try_madvise ops tmp s = (if r1 \<noteq> 0 then (r1, w1) else madvise_op ops at sz MADV_DOFORK w1)"
    using m1 unfolding try_madvise_def sz_def [symmetric] Let_def at_def [symmetric] by simp
  then have "r1 = 0" "madvise_op ops at sz MADV_DOFORK w1 = (0, w)" using assms(3) by (auto split: if_splits)
  with kernel_madvise [OF assms(1) m1] kernel_madvise [OF assms(1) this(2)] assms(2) show ?thesis by auto
qed

lemma fork_init_pages:
  assumes "kernel ops flags" and "mm_root (fk_mm s) = None" and "\<And>k. \<not> flags (fk_world s) k" and "ibv_fork_init ops s = (0, s')"
    and "\<And>tmp w. memalign_op ops (fk_world s) = Some (tmp, w) \<Longrightarrow> flags w = flags (fk_world s)" and "0 \<le> sysconf_op ops (fk_world s)"
    and "finite (dom (mm_heap (fk_mm s)))"
  shows "pages flags s' (\<lambda>_. 0) \<and> page_size s' = sysconf_op ops (fk_world s) \<and> huge_page_enabled s' = hugepages_safe ops"
proof -
  obtain tmp w where mem: "memalign_op ops (fk_world s) = Some (tmp, w)"
    using assms(2,4,6) by (cases "memalign_op ops (fk_world s)") (auto simp: ibv_fork_init_def EINVAL_def ENOMEM_def split: if_splits)
  let ?s2 = "s\<lparr>page_size := sysconf_op ops (fk_world s), fk_world := w, huge_page_enabled := hugepages_safe ops\<rparr>"
  obtain r w2 where probe: "try_madvise ops tmp ?s2 = (r, w2)" by fastforce
  from kernel_malloc [OF assms(1,7), of w2] obtain q w3 where q: "malloc_node ops (mm_heap (fk_mm s)) w2 = (Some q, w3)"
    "flags w3 = flags w2" by blast
  have ok: "r = 0" and s': "s' = ?s2\<lparr>fk_world := w3, fk_mm := \<lparr>mm_heap = (mm_heap (fk_mm s))(q \<mapsto> root_node), mm_root = Some q\<rparr>\<rparr>"
    using assms(2,4,6) mem probe q(1) by (auto simp: ibv_fork_init_def Let_def EINVAL_def ENOSYS_def split: if_splits)
  have flags: "\<not> flags w3 k" for k
    using try_madvise_flags [OF assms(1) _ probe [unfolded ok]] assms(3,5) mem q(2) by simp
  let ?t = "Node Leaf (q, IBV_BLACK) Leaf"
  have "mm_tree (fk_mm s') ?t" using s' by (simp add: mm_tree_def dlinks_def root_node_def)
  moreover have "rb_tree ?t" by (simp add: rb_tree_def)
  moreover have "payload (mm_heap (fk_mm s')) q = Some (0, - 1, 0)" using s' by (simp add: payload_def root_node_def)
  ultimately have "mm_view (fk_mm s') [(q, 0, - 1, 0)]" unfolding mm_view_def using assms(7) s' by (intro conjI exI [of _ ?t]) simp_all
  moreover have "unat (- 1 :: u64) + 1 = 2 ^ 64" using max_iff [of "- 1"] by simp
  ultimately have "ranges s' [(q, 0, - 1, 0)]" by (simp add: ranges_def)
  then have "pages flags s' (\<lambda>_. 0)" using flags s' by (auto simp: pages_def intro!: exI [of _ "[(q, 0, - 1, 0)]"])
  then show ?thesis using s' by simp
qed

subsection \<open>Runs\<close>

text \<open>
  A process registers ranges and gives back those it holds. \<open>held\<close> are the ranges it holds; a call
  that fails changes none. The pages have one size, \<open>2 ^ b\<close>.
\<close>

inductive fork_run :: "'w fork_ops \<Rightarrow> nat \<Rightarrow> 'w fork_state \<Rightarrow> 'w fork_state \<Rightarrow> (u64 \<times> u64) multiset \<Rightarrow> bool" for ops b s0 where
  init: "fork_run ops b s0 s0 {#}"
| keep: "fork_run ops b s0 s held \<Longrightarrow> range_ok b (base, len) \<Longrightarrow> ibv_dontfork_range ops base len s = ret (r, s') \<Longrightarrow>
    fork_run ops b s0 s' (if r = 0 then add_mset (base, len) held else held)"
| give: "fork_run ops b s0 s held \<Longrightarrow> (base, len) \<in># held \<Longrightarrow> ibv_dofork_range ops base len s = ret (r, s') \<Longrightarrow>
    fork_run ops b s0 s' (if r = 0 then held - {#(base, len)#} else held)"

definition covering :: "nat \<Rightarrow> (u64 \<times> u64) multiset \<Rightarrow> u64 \<Rightarrow> int" where
  "covering b held k = int (size (filter_mset (\<lambda>r. in_pages b r k) held))"

lemma covering_add: "covering b (add_mset r held) k = covering b held k + (if in_pages b r k then 1 else 0)"
  by (simp add: covering_def)

lemma covering_remove:
  assumes "r \<in># held"
  shows "covering b (held - {#r#}) k = covering b held k + (if in_pages b r k then - 1 else 0)"
proof -
  from assms obtain h where "held = add_mset r h" by (blast dest: multi_member_split)
  then show ?thesis by (simp add: covering_def)
qed

lemma in_pages_covering: "r \<in># held \<Longrightarrow> in_pages b r k \<Longrightarrow> 1 \<le> covering b held k"
  using covering_remove [of r held b k] by (simp add: covering_def split: if_splits)

lemma fork_run_pages:
  assumes "kernel ops flags" and "dofork_works ops" and "pages flags s0 (\<lambda>_. 0)"
    and "page_size s0 = 2 ^ b" and "\<not> huge_page_enabled s0" and "b < 64" and "fork_run ops b s0 s held"
  shows "pages flags s (covering b held) \<and> env_same s0 s \<and> (\<forall>r \<in># held. range_ok b r)"
  using assms(7)
proof induction
  case init
  then show ?case using assms(3) by (simp add: covering_def)
next
  case (keep s held base len r s')
  then have IH: "pages flags s (covering b held)" "env_same s0 s" "\<forall>r \<in># held. range_ok b r" by blast+
  have ps: "range_page ops s base = 2 ^ b" using IH(2) assms(4,5) by (simp add: range_page_def env_same_def)
  have add: "(\<lambda>k. covering b held k + (if in_pages b (base, len) k then 1 else 0)) = covering b (add_mset (base, len) held)"
    by (rule ext) (simp add: covering_add cong: if_cong)
  from dontfork_eq [OF assms(1,2) IH(1) ps assms(6) keep.hyps(2)] keep.hyps(3)
  have "env_same s s'" "r = 0 \<and> pages flags s' (covering b (add_mset (base, len) held)) \<or> r = - 1 \<and> pages flags s' (covering b held)"
    unfolding add by auto
  then show ?case using IH(3) keep.hyps(2) env_same_trans [OF IH(2), of s'] by auto
next
  case (give s held base len r s')
  then have IH: "pages flags s (covering b held)" "env_same s0 s" "\<forall>r \<in># held. range_ok b r" by blast+
  have ok: "range_ok b (base, len)" using IH(3) give.hyps(2) by blast
  have ps: "range_page ops s base = 2 ^ b" using IH(2) assms(4,5) by (simp add: range_page_def env_same_def)
  have remove: "(\<lambda>k. covering b held k + (if in_pages b (base, len) k then - 1 else 0)) = covering b (held - {#(base, len)#})"
    by (rule ext) (simp add: covering_remove [OF give.hyps(2)] cong: if_cong)
  from dofork_eq [OF assms(1,2) IH(1) ps assms(6) ok in_pages_covering [OF give.hyps(2)]] give.hyps(3)
  have "env_same s s'" "r = 0" "pages flags s' (covering b (held - {#(base, len)#}))" unfolding remove by auto
  then show ?case using IH(3) env_same_trans [OF IH(2), of s'] by (auto dest: in_diffD)
qed

end
