(* ===== verification/Ibv_Fork_Calm.thy ===== *)
theory Ibv_Fork_Calm
  imports Ibv_Fork_Run "HOL-Library.While_Combinator"
begin

unbundle bit_operations_syntax

section \<open>Calls that fail\<close>

text \<open>
  \<open>Ibv_Fork_Facts\<close> treats a system that always finds memory, undoes its advice when asked to and
  changes nothing when it refuses. Here the system may fail. A run in which no call for memory and
  no \<^verbatim>\<open>MADV_DOFORK\<close> has failed is followed, call by call, by a run on a calm system that
  differs from the real one only in what it would have answered there; beside the real state
  it remembers the marks that successful advice has made.
\<close>

subsection \<open>What is known of the system\<close>

text \<open>
  Memory for a node is found, and then at a new address, or not; advice that succeeds changes the
  marks of its range. Refused \<^verbatim>\<open>MADV_DONTFORK\<close> may have marked pages before it failed.
  \<open>trouble\<close> tells that a call for memory or a \<^verbatim>\<open>MADV_DOFORK\<close> has failed.
\<close>

definition system :: "'w fork_ops \<Rightarrow> ('w \<Rightarrow> u64 \<Rightarrow> bool) \<Rightarrow> ('w \<Rightarrow> bool) \<Rightarrow> bool" where
  "system ops flags trouble \<longleftrightarrow>
     (\<forall>h w r w'. malloc_node ops h w = (r, w') \<longrightarrow> flags w' = flags w \<and> (trouble w \<longrightarrow> trouble w') \<and>
        (case r of None \<Rightarrow> trouble w' | Some q \<Rightarrow> finite (dom h) \<longrightarrow> h q = None)) \<and>
     (\<forall>a n adv w r w'. madvise_op ops a n adv w = (r, w') \<longrightarrow> (trouble w \<longrightarrow> trouble w') \<and>
        (if r = 0 then flags w' = (\<lambda>k. if k - a < n then adv = MADV_DONTFORK else flags w k)
         else if adv = MADV_DOFORK then trouble w' else (\<forall>k. flags w k \<longrightarrow> flags w' k)))"

text \<open>A system on which a refused \<^verbatim>\<open>MADV_DONTFORK\<close> leaves the marks alone.\<close>

definition refuses_cleanly :: "'w fork_ops \<Rightarrow> ('w \<Rightarrow> u64 \<Rightarrow> bool) \<Rightarrow> bool" where
  "refuses_cleanly ops flags \<longleftrightarrow> (\<forall>a n w r w'. madvise_op ops a n MADV_DONTFORK w = (r, w') \<longrightarrow> r \<noteq> 0 \<longrightarrow>
     flags w' = flags w)"

lemma system_malloc: "system ops flags trouble \<Longrightarrow> malloc_node ops h w = (r, w') \<Longrightarrow>
    flags w' = flags w \<and> (trouble w \<longrightarrow> trouble w') \<and> (r = None \<longrightarrow> trouble w') \<and>
    (\<forall>q. r = Some q \<longrightarrow> finite (dom h) \<longrightarrow> h q = None)"
  unfolding system_def by (cases r) fastforce+

lemma system_madvise: "system ops flags trouble \<Longrightarrow> madvise_op ops a n adv w = (r, w') \<Longrightarrow>
    (trouble w \<longrightarrow> trouble w') \<and>
    (r = 0 \<longrightarrow> flags w' = (\<lambda>k. if k - a < n then adv = MADV_DONTFORK else flags w k)) \<and>
    (r \<noteq> 0 \<longrightarrow> adv = MADV_DOFORK \<longrightarrow> trouble w') \<and>
    (r \<noteq> 0 \<longrightarrow> adv = MADV_DONTFORK \<longrightarrow> (\<forall>k. flags w k \<longrightarrow> flags w' k))"
  unfolding system_def by (cases adv; cases "r = 0") fastforce+

subsection \<open>The calm system\<close>

type_synonym marks = "u64 \<Rightarrow> bool"

definition free_pointer :: "(nat \<Rightarrow> ibv_mem_node option) \<Rightarrow> nat" where
  "free_pointer h = while (\<lambda>q. h q \<noteq> None) Suc 0"

lemma free_pointer_free:
  assumes "finite (dom h)"
  shows "h (free_pointer h) = None"
  unfolding free_pointer_def
proof (rule while_rule [where P = "\<lambda>_. True" and r = "measure (\<lambda>q. Suc (Max (dom h)) - q)"])
  fix q
  assume "h q \<noteq> None"
  then have "q \<le> Max (dom h)" using assms by (intro Max_ge) auto
  then show "(Suc q, q) \<in> measure (\<lambda>q. Suc (Max (dom h)) - q)" by simp
qed auto

definition calm_malloc :: "'w fork_ops \<Rightarrow> (nat \<Rightarrow> ibv_mem_node option) \<Rightarrow> 'w \<times> marks \<Rightarrow> nat option \<times> 'w \<times> marks" where
  "calm_malloc ops h = (\<lambda>(w, g). case malloc_node ops h w of (r, w') \<Rightarrow>
     (Some (case r of Some q \<Rightarrow> q | None \<Rightarrow> free_pointer h), w', g))"

definition calm_madvise :: "'w fork_ops \<Rightarrow> u64 \<Rightarrow> u64 \<Rightarrow> advice \<Rightarrow> 'w \<times> marks \<Rightarrow> int \<times> 'w \<times> marks" where
  "calm_madvise ops a n adv = (\<lambda>(w, g). case madvise_op ops a n adv w of (r, w') \<Rightarrow>
     if adv = MADV_DOFORK \<or> r = 0 then (0, w', \<lambda>k. if k - a < n then adv = MADV_DONTFORK else g k)
     else (r, w', g))"

definition calm_ops :: "'w fork_ops \<Rightarrow> ('w \<times> marks) fork_ops" where
  "calm_ops ops = \<lparr>malloc_node = calm_malloc ops, madvise_op = calm_madvise ops,
     smaps_op = (\<lambda>w. smaps_op ops (fst w)), sysconf_op = (\<lambda>w. sysconf_op ops (fst w)), errno_op = (\<lambda>w. errno_op ops (fst w)),
     memalign_op = (\<lambda>(w, g). map_option (\<lambda>(p, w'). (p, w', g)) (memalign_op ops w)),
     hugepages_safe = hugepages_safe ops\<rparr>"

lemma calm_kernel:
  assumes "system ops flags trouble"
  shows "kernel (calm_ops ops) snd"
proof -
  have "\<exists>q w'. calm_malloc ops h w = (Some q, w') \<and> h q = None \<and> snd w' = snd w" if "finite (dom h)" for h and w :: "'a \<times> marks"
  proof -
    obtain r w1 where "malloc_node ops h (fst w) = (r, w1)" by fastforce
    with system_malloc [OF assms this] free_pointer_free [OF that] that show ?thesis
      by (cases r) (auto simp: calm_malloc_def case_prod_unfold)
  qed
  then show ?thesis
    by (auto simp: kernel_def calm_ops_def calm_madvise_def split: prod.splits if_splits)
qed

lemma calm_dofork: "dofork_works (calm_ops ops)"
  by (simp add: dofork_works_def calm_ops_def calm_madvise_def case_prod_unfold)

definition with_marks :: "marks \<Rightarrow> 'w fork_state \<Rightarrow> ('w \<times> marks) fork_state" where
  "with_marks g s = \<lparr>fk_mm = fk_mm s, fk_world = (fk_world s, g), page_size = page_size s,
     huge_page_enabled = huge_page_enabled s, too_late = too_late s\<rparr>"

lemma with_marks_simps [simp]:
  "fk_mm (with_marks g s) = fk_mm s" "fk_world (with_marks g s) = (fk_world s, g)"
  "page_size (with_marks g s) = page_size s" "huge_page_enabled (with_marks g s) = huge_page_enabled s"
  "too_late (with_marks g s) = too_late s"
  "(with_marks g s)\<lparr>fk_mm := m\<rparr> = with_marks g (s\<lparr>fk_mm := m\<rparr>)"
  "(with_marks g s)\<lparr>fk_world := (w, g')\<rparr> = with_marks g' (s\<lparr>fk_world := w\<rparr>)"
  "(with_marks g s)\<lparr>fk_world := (w, g'), fk_mm := m\<rparr> = with_marks g' (s\<lparr>fk_world := w, fk_mm := m\<rparr>)"
  "(with_marks g s)\<lparr>too_late := b\<rparr> = with_marks g (s\<lparr>too_late := b\<rparr>)"
  by (simp_all add: with_marks_def)

lemma ranges_with_marks [simp]: "ranges (with_marks g s) xs = ranges s xs"
  by (simp add: ranges_def)

subsection \<open>Following a computation\<close>

text \<open>
  \<open>m\<close> on the real system, begun in world \<open>w0\<close>, is followed by \<open>m'\<close> on the calm one: when
  no trouble has come up, both give the same value, up to the marks \<open>M\<close> relates with
  the world; trouble stays; and where trouble never comes, \<open>m\<close> returns when \<open>m'\<close> does.
  \<open>st\<close> takes the world from the value, \<open>L\<close> adds the marks to it.
\<close>

definition follows :: "('w \<Rightarrow> bool) \<Rightarrow> (marks \<Rightarrow> 'w \<Rightarrow> bool) \<Rightarrow> ('v \<Rightarrow> 'w) \<Rightarrow> (marks \<Rightarrow> 'v \<Rightarrow> 'u) \<Rightarrow>
    'w \<Rightarrow> 'v outcome \<Rightarrow> 'u outcome \<Rightarrow> bool" where
  "follows T M st L w0 m m' \<longleftrightarrow>
     (\<forall>v. m = ret v \<longrightarrow> (T w0 \<longrightarrow> T (st v)) \<and> (\<exists>g. M g (st v) \<and> (T (st v) \<or> m' = ret (L g v)))) \<and>
     ((\<forall>w. \<not> T w) \<longrightarrow> (\<forall>u. m' = ret u \<longrightarrow> (\<exists>v. m = ret v)))"

named_theorems follow_intros "rules for following a computation on the calm system"

lemma follows_bind:
  assumes A: "follows T M st1 L1 w0 m m'"
    and B: "\<And>v g. M g (st1 v) \<Longrightarrow> follows T M st2 L2 (st1 v) (k v) (k' (L1 g v))"
  shows "follows T M st2 L2 w0 (bindC m k) (bindC m' k')"
  unfolding follows_def
proof (intro conjI allI impI)
  fix v2
  assume "bindC m k = ret v2"
  then obtain v1 where v1: "m = ret v1" "k v1 = ret v2" by (auto simp: bindC_eq_ret)
  from A v1(1) obtain g where g: "M g (st1 v1)" "T (st1 v1) \<or> m' = ret (L1 g v1)" "T w0 \<longrightarrow> T (st1 v1)"
    by (auto simp: follows_def)
  from B [OF g(1)] v1(2) obtain g2 where g2: "M g2 (st2 v2)" "T (st2 v2) \<or> k' (L1 g v1) = ret (L2 g2 v2)"
    "T (st1 v1) \<longrightarrow> T (st2 v2)" by (auto simp: follows_def)
  show "T w0 \<Longrightarrow> T (st2 v2)" using g(3) g2(3) by blast
  show "\<exists>g. M g (st2 v2) \<and> (T (st2 v2) \<or> bindC m' k' = ret (L2 g v2))"
    using g(2) g2 by (intro exI [of _ g2]) auto
next
  fix u
  assume T: "\<forall>w. \<not> T w" and "bindC m' k' = ret u"
  then obtain u1 where u1: "m' = ret u1" "k' u1 = ret u" by (auto simp: bindC_eq_ret)
  with A T obtain v1 where v1: "m = ret v1" by (auto simp: follows_def)
  with A T u1(1) obtain g where "M g (st1 v1)" "u1 = L1 g v1" by (auto simp: follows_def)
  with B [OF this(1)] u1(2) T obtain v where "k v1 = ret v" by (auto simp: follows_def)
  then show "\<exists>v. bindC m k = ret v" using v1 by auto
qed

lemma follows_same: "(\<And>x. follows T M st L w0 (k x) (k' x)) \<Longrightarrow> follows T M st L w0 (bindC m k) (bindC m k')"
  by (auto simp: follows_def bindC_eq_ret)

lemma follows_ret: "M g w0 \<Longrightarrow> st v = w0 \<Longrightarrow> u = L g v \<Longrightarrow> follows T M st L w0 (ret v) (ret u)"
  by (auto simp: follows_def)

lemma follows_if: "(b \<Longrightarrow> follows T M st L w0 x x') \<Longrightarrow> (\<not> b \<Longrightarrow> follows T M st L w0 y y') \<Longrightarrow>
    follows T M st L w0 (if b then x else y) (if b then x' else y')"
  by simp

text \<open>Where the computation begins, and that nothing is to be followed once there is trouble.\<close>

lemma follows_start: "follows T M st L w m m' \<Longrightarrow> (T w0 \<longrightarrow> T w) \<Longrightarrow> follows T M st L w0 m m'"
  by (auto simp: follows_def)

lemma follows_trouble: "follows T M st L w m m' \<Longrightarrow> T w \<Longrightarrow> follows T M st L w m m''"
  unfolding follows_def by metis

text \<open>A loop follows a loop when the bodies do.\<close>

definition st_flow :: "('s \<Rightarrow> 'w) \<Rightarrow> ('r \<Rightarrow> 'w) \<Rightarrow> ('s, 'r) flow \<Rightarrow> 'w" where
  "st_flow st1 st2 x = (case x of Next s \<Rightarrow> st1 s | Return r \<Rightarrow> st2 r)"

definition L_flow :: "(marks \<Rightarrow> 's \<Rightarrow> 't) \<Rightarrow> (marks \<Rightarrow> 'r \<Rightarrow> 'q) \<Rightarrow> marks \<Rightarrow> ('s, 'r) flow \<Rightarrow> ('t, 'q) flow" where
  "L_flow L1 L2 g x = (case x of Next s \<Rightarrow> Next (L1 g s) | Return r \<Rightarrow> Return (L2 g r))"

lemma flow_maps [simp]:
  "st_flow st1 st2 (Next s) = st1 s" "st_flow st1 st2 (Return r) = st2 r"
  "L_flow L1 L2 g (Next s) = Next (L1 g s)" "L_flow L1 L2 g (Return r) = Return (L2 g r)"
  by (simp_all add: st_flow_def L_flow_def)

lemma loop_ret_induct:
  fixes body :: "'s \<Rightarrow> ('s, 'r) flow outcome"
  assumes "loop body s = ret r"
    and stop: "\<And>s r. body s = ret (Return r) \<Longrightarrow> P s r"
    and go: "\<And>s s' r. body s = ret (Next s') \<Longrightarrow> loop body s' = ret r \<Longrightarrow> P s' r \<Longrightarrow> P s r"
  shows "P s r"
proof -
  define Q where "Q = (\<lambda>b s (y :: fault + 'r). b = body \<longrightarrow> (\<forall>r. y = Inr r \<longrightarrow> loop body s = ret r \<and> P s r))"
  have "Q body s (Inr r)"
  proof (rule loop.raw_induct [where P = Q])
    show "loop body s = Some (Inr r)" using assms(1) by (simp add: ret_def)
  next
    fix lp b s y
    assume IH: "\<And>b s y. lp b s = Some y \<Longrightarrow> Q b s y"
      and eq: "bindC (b s) (\<lambda>x. case x of Return r \<Rightarrow> ret r | Next s' \<Rightarrow> lp b s') = Some y"
    show "Q b s y"
      unfolding Q_def
    proof (intro impI allI)
      fix r
      assume b: "b = body" and y: "y = Inr r"
      from eq y have "bindC (b s) (\<lambda>x. case x of Return r \<Rightarrow> ret r | Next s' \<Rightarrow> lp b s') = ret r"
        by (simp add: ret_def)
      then obtain x where x: "b s = ret x" "(case x of Return r \<Rightarrow> ret r | Next s' \<Rightarrow> lp b s') = ret r"
        by (auto simp: bindC_eq_ret)
      show "loop body s = ret r \<and> P s r"
      proof (cases x)
        case (Next s')
        with x have "lp b s' = Some (Inr r)" by (simp add: ret_def)
        then have "loop body s' = ret r \<and> P s' r" using IH [of b s' "Inr r"] b by (simp add: Q_def)
        then show ?thesis using go x(1) Next b by (metis loop_Next)
      next
        case (Return q)
        with x b have "body s = ret (Return r)" by simp
        then show ?thesis using stop by (simp add: loop_Return)
      qed
    qed
  qed
  then show ?thesis by (simp add: Q_def)
qed

lemma follows_loop:
  assumes body: "\<And>s g. M g (st1 s) \<Longrightarrow> follows T M (st_flow st1 st2) (L_flow L1 L2) (st1 s) (body s) (body' (L1 g s))"
    and "M g (st1 s)"
  shows "follows T M st2 L2 (st1 s) (loop body s) (loop body' (L1 g s))"
  unfolding follows_def
proof (intro conjI allI impI)
  fix r
  assume r: "loop body s = ret r"
  have "\<forall>g. M g (st1 s) \<longrightarrow> (T (st1 s) \<longrightarrow> T (st2 r)) \<and> (\<exists>g'. M g' (st2 r) \<and> (T (st2 r) \<or> loop body' (L1 g s) = ret (L2 g' r)))"
    using r
  proof (rule loop_ret_induct)
    fix s r
    assume "body s = ret (Return r)"
    then show "\<forall>g. M g (st1 s) \<longrightarrow> (T (st1 s) \<longrightarrow> T (st2 r)) \<and> (\<exists>g'. M g' (st2 r) \<and> (T (st2 r) \<or> loop body' (L1 g s) = ret (L2 g' r)))"
      using body by (fastforce simp: follows_def loop_Return)
  next
    fix s s' r
    assume n: "body s = ret (Next s')" and IH: "\<forall>g. M g (st1 s') \<longrightarrow> (T (st1 s') \<longrightarrow> T (st2 r)) \<and>
      (\<exists>g'. M g' (st2 r) \<and> (T (st2 r) \<or> loop body' (L1 g s') = ret (L2 g' r)))"
    show "\<forall>g. M g (st1 s) \<longrightarrow> (T (st1 s) \<longrightarrow> T (st2 r)) \<and> (\<exists>g'. M g' (st2 r) \<and> (T (st2 r) \<or> loop body' (L1 g s) = ret (L2 g' r)))"
    proof (intro allI impI)
      fix g
      assume "M g (st1 s)"
      from body [OF this] n obtain g1 where g1: "M g1 (st1 s')" "T (st1 s') \<or> body' (L1 g s) = ret (Next (L1 g1 s'))"
        "T (st1 s) \<longrightarrow> T (st1 s')" by (auto simp: follows_def)
      with IH show "(T (st1 s) \<longrightarrow> T (st2 r)) \<and> (\<exists>g'. M g' (st2 r) \<and> (T (st2 r) \<or> loop body' (L1 g s) = ret (L2 g' r)))"
        by (metis loop_Next)
    qed
  qed
  with assms(2) show "T (st1 s) \<Longrightarrow> T (st2 r)" and "\<exists>g'. M g' (st2 r) \<and> (T (st2 r) \<or> loop body' (L1 g s) = ret (L2 g' r))"
    by blast+
next
  fix u
  assume T: "\<forall>w. \<not> T w" and u: "loop body' (L1 g s) = ret u"
  have "\<forall>s g. x = L1 g s \<longrightarrow> M g (st1 s) \<longrightarrow> (\<exists>r. loop body s = ret r)" if "loop body' x = ret u" for x u
    using that
  proof (rule loop_ret_induct)
    fix x u
    assume x: "body' x = ret (Return u)"
    show "\<forall>s g. x = L1 g s \<longrightarrow> M g (st1 s) \<longrightarrow> (\<exists>r. loop body s = ret r)"
    proof (intro allI impI)
      fix s g
      assume "x = L1 g s" "M g (st1 s)"
      with body [OF this(2)] x T obtain v where v: "body s = ret v" by (auto simp: follows_def)
      with body [OF \<open>M g (st1 s)\<close>] x T \<open>x = L1 g s\<close> obtain g' where "Return u = L_flow L1 L2 g' v" by (auto simp: follows_def)
      then show "\<exists>r. loop body s = ret r" using v by (cases v) (auto simp: loop_Return)
    qed
  next
    fix x x' u
    assume x: "body' x = ret (Next x')" and IH: "\<forall>s g. x' = L1 g s \<longrightarrow> M g (st1 s) \<longrightarrow> (\<exists>r. loop body s = ret r)"
    show "\<forall>s g. x = L1 g s \<longrightarrow> M g (st1 s) \<longrightarrow> (\<exists>r. loop body s = ret r)"
    proof (intro allI impI)
      fix s g
      assume xs: "x = L1 g s" "M g (st1 s)"
      with body [OF this(2)] x T obtain v where v: "body s = ret v" by (auto simp: follows_def)
      with body [OF xs(2)] x T xs(1) obtain g' where g': "Next x' = L_flow L1 L2 g' v" "M g' (st_flow st1 st2 v)"
        by (auto simp: follows_def)
      then show "\<exists>r. loop body s = ret r" using v IH by (cases v) (auto simp: loop_Next)
    qed
  qed
  from this [OF u] assms(2) show "\<exists>v. loop body s = ret v" by blast
qed

end
