(* ===== verification/Ibv_Fork_Follow.thy ===== *)
theory Ibv_Fork_Follow
  imports Ibv_Fork_Calm
begin

unbundle bit_operations_syntax

section \<open>The calls of a process on a calm system\<close>

text \<open>
  Each function of \<open>Ibv_Fork\<close> follows itself on the calm system. The marks of the calm run are
  marks of the real system; the same ones, where a refused call changes none.
\<close>

definition marked :: "('w \<Rightarrow> u64 \<Rightarrow> bool) \<Rightarrow> ('w \<Rightarrow> bool) \<Rightarrow> bool \<Rightarrow> marks \<Rightarrow> 'w \<Rightarrow> bool" where
  "marked flags trouble c g w \<longleftrightarrow> trouble w \<or> (\<forall>k. g k \<longrightarrow> flags w k) \<and> (c \<longrightarrow> g = flags w)"

definition pair_world :: "'a \<times> 'w fork_state \<Rightarrow> 'w" where
  "pair_world = (\<lambda>(x, t). fk_world t)"

definition pair_marks :: "marks \<Rightarrow> 'a \<times> 'w fork_state \<Rightarrow> 'a \<times> ('w \<times> marks) fork_state" where
  "pair_marks g = (\<lambda>(x, t). (x, with_marks g t))"

lemma pair_simps [simp]: "pair_world (x, t) = fk_world t" "pair_marks g (x, t) = (x, with_marks g t)"
  by (simp_all add: pair_world_def pair_marks_def)

lemma follows_pair:
  assumes "follows T M pair_world pair_marks w0 m m'"
    and "\<And>x t g. M g (fk_world t) \<Longrightarrow> follows T M st L (fk_world t) (k (x, t)) (k' (x, with_marks g t))"
  shows "follows T M st L w0 (bindC m k) (bindC m' k')"
  by (rule follows_bind [OF assms(1)]) (use assms(2) in \<open>simp add: pair_world_def pair_marks_def split: prod.splits\<close>)

lemma follows_state:
  assumes "follows T M fk_world with_marks w0 m m'"
    and "\<And>t g. M g (fk_world t) \<Longrightarrow> follows T M st L (fk_world t) (k t) (k' (with_marks g t))"
  shows "follows T M st L w0 (bindC m k) (bindC m' k')"
  by (rule follows_bind [OF assms])

lemma follows_on_mm: "fk_world s = w0 \<Longrightarrow> M g w0 \<Longrightarrow>
    follows T M fk_world with_marks w0 (on_mm f s) (on_mm f (with_marks g s))"
  by (auto simp: on_mm_def intro!: follows_same follows_ret)

lemma counts_marks [simp]: "counts p c (with_marks g s) = counts p c s"
  by (simp add: counts_def)

lemma follows_merge: "M g (fk_world s) \<Longrightarrow>
    follows T M pair_world pair_marks (fk_world s) (merge_ranges p q s) (merge_ranges p q (with_marks g s))"
  unfolding merge_ranges_def with_marks_simps
  by (intro follows_same follows_state [OF follows_on_mm] follows_ret; simp)

lemma follows_split:
  assumes sys: "system ops flags trouble" and g: "marked flags trouble c g (fk_world s)"
  shows "follows trouble (marked flags trouble c) pair_world pair_marks (fk_world s)
    (split_range ops p z s) (split_range (calm_ops ops) p z (with_marks g s))"
proof -
  obtain r w where r: "malloc_node ops (mm_heap (fk_mm s)) (fk_world s) = (r, w)" by fastforce
  note m = system_malloc [OF sys r]
  have keep: "marked flags trouble c g w" using g m by (auto simp: marked_def)
  show ?thesis
  proof (cases r)
    case None
    then show ?thesis using r m keep
      by (auto simp: follows_def split_range_def)
  next
    case (Some q)
    have calm: "malloc_node (calm_ops ops) (mm_heap (fk_mm s)) (fk_world s, g) = (Some q, w, g)"
      using r Some by (simp add: calm_ops_def calm_malloc_def)
    let ?N = "\<lambda>n. \<lparr>nd_color = IBV_RED, nd_parent = None, nd_left = None, nd_right = None, nd_start = z,
               nd_end = nd_end n, refcnt = refcnt n\<rparr>"
    let ?rest = "\<lambda>s. bindC (node_at p (fk_mm s)) (\<lambda>n.
         bindC (on_mm (upd_node p (\<lambda>n. n\<lparr>nd_end := z - 1\<rparr>)) (s\<lparr>fk_mm := (fk_mm s)\<lparr>mm_heap := (mm_heap (fk_mm s))(q \<mapsto> ?N n)\<rparr>\<rparr>))
           (\<lambda>s. bindC (on_mm (mm_add (Some q)) s) (\<lambda>s. ret (Some q, s))))"
    have "follows trouble (marked flags trouble c) pair_world pair_marks w
        (?rest (s\<lparr>fk_world := w\<rparr>)) (?rest (with_marks g (s\<lparr>fk_world := w\<rparr>)))"
      unfolding with_marks_simps using keep
      by (intro follows_same follows_bind [OF follows_on_mm] follows_ret) simp_all
    moreover have "split_range ops p z s = ?rest (s\<lparr>fk_world := w\<rparr>)"
      using r Some by (simp add: split_range_def Let_def)
    moreover have "split_range (calm_ops ops) p z (with_marks g s) = ?rest (with_marks g (s\<lparr>fk_world := w\<rparr>))"
      using calm by (simp add: split_range_def Let_def)
    moreover have "trouble (fk_world s) \<longrightarrow> trouble w" using m by blast
    ultimately show ?thesis by (auto simp: follows_def)
  qed
qed

lemma follows_get_start:
  assumes sys: "system ops flags trouble" and g: "marked flags trouble c g (fk_world s)"
  shows "follows trouble (marked flags trouble c) pair_world pair_marks (fk_world s)
    (get_start_node ops start inc s) (get_start_node (calm_ops ops) start inc (with_marks g s))"
  unfolding get_start_node_def with_marks_simps counts_marks
  by (intro follows_same follows_if follows_split [OF sys g] follows_merge follows_ret) (simp_all add: g)

lemma follows_undo_split:
  assumes sys: "system ops flags trouble" and g: "marked flags trouble c g (fk_world s)"
  shows "follows trouble (marked flags trouble c) pair_world pair_marks (fk_world s)
    (undo_split ops p start inc s) (undo_split (calm_ops ops) p start inc (with_marks g s))"
  unfolding undo_split_def with_marks_simps
  apply (intro follows_same follows_if follows_pair [OF follows_split [OF sys g]] follows_ret)
  subgoal by (clarsimp) (intro conjI impI follows_state [OF follows_on_mm] follows_ret; simp)
  by (simp_all add: g)

lemma follows_undo_merge:
  assumes "M g (fk_world s)"
  shows "follows T M pair_world pair_marks (fk_world s) (undo_merge p s) (undo_merge p (with_marks g s))"
  unfolding undo_merge_def with_marks_simps counts_marks
  apply (intro follows_same follows_pair follows_if follows_merge follows_ret)
  apply (simp_all add: assms)
  apply (intro follows_same follows_if follows_merge follows_ret; simp)
  done

lemma follows_undo_node:
  assumes sys: "system ops flags trouble" and g: "marked flags trouble c g (fk_world s)"
  shows "follows trouble (marked flags trouble c) pair_world pair_marks (fk_world s)
    (undo_node ops p start inc s) (undo_node (calm_ops ops) p start inc (with_marks g s))"
  unfolding undo_node_def
  by (rule follows_pair [OF follows_undo_split [OF sys g]], simp only: prod.case, rule follows_if,
      rule follows_ret, assumption, simp, simp, rule follows_undo_merge)

lemma tell_kernel_calm:
  assumes sys: "system ops flags trouble" and g: "marked flags trouble (refuses_cleanly ops flags) g w"
    and tell: "tell_kernel ops start adv n w = (r, w')"
  shows "\<exists>r2 g'. tell_kernel (calm_ops ops) start adv n (w, g) = (r2, w', g') \<and> (trouble w \<longrightarrow> trouble w') \<and>
    marked flags trouble (refuses_cleanly ops flags) g' w' \<and> (trouble w' \<or> r2 = r)"
proof -
  have call: "\<exists>r2 g'. calm_madvise ops a m adv (w, g) = (r2, w', g') \<and> (trouble w \<longrightarrow> trouble w') \<and>
      marked flags trouble (refuses_cleanly ops flags) g' w' \<and> (trouble w' \<or> r2 = r)"
    if "madvise_op ops a m adv w = (r, w')" for a m
  proof -
    define r2 where "r2 = (if adv = MADV_DOFORK then 0 else r)"
    define g' where "g' = (if adv = MADV_DOFORK \<or> r = 0 then (\<lambda>k. if k - a < m then adv = MADV_DONTFORK else g k) else g)"
    have "calm_madvise ops a m adv (w, g) = (r2, w', g')" using that by (simp add: calm_madvise_def r2_def g'_def)
    moreover note adv = system_madvise [OF sys that]
    have "marked flags trouble (refuses_cleanly ops flags) g' w'"
    proof (cases "r = 0")
      case True
      then have "flags w' = (\<lambda>k. if k - a < m then adv = MADV_DONTFORK else flags w k)" using adv by blast
      moreover have "g' = (\<lambda>k. if k - a < m then adv = MADV_DONTFORK else g k)" using True by (simp add: g'_def)
      ultimately show ?thesis using g adv by (auto simp: marked_def)
    next
      case False
      show ?thesis
      proof (cases adv)
        case MADV_DONTFORK
        then have "refuses_cleanly ops flags \<longrightarrow> flags w' = flags w"
          using that False by (auto simp: refuses_cleanly_def)
        then show ?thesis using adv g False MADV_DONTFORK by (auto simp: marked_def g'_def)
      next
        case MADV_DOFORK
        then show ?thesis using adv False by (simp add: marked_def)
      qed
    qed
    moreover have "trouble w' \<or> r2 = r" using adv by (auto simp: r2_def)
    ultimately show ?thesis using adv by blast
  qed
  show ?thesis
    using tell g call by (auto simp: tell_kernel_def calm_ops_def split: if_splits)
qed

text \<open>What a pass does with one node after its splitting.\<close>

definition tell_node :: "'w fork_ops \<Rightarrow> u64 \<Rightarrow> advice \<Rightarrow> nat option \<Rightarrow> 'w fork_state \<Rightarrow> int \<Rightarrow>
    (nat option \<times> 'w fork_state, pass \<times> 'w fork_state) flow outcome" where
  "tell_node ops start adv p s r =
    (if r \<noteq> 0 then bindC (undo_node ops p start (inc_of adv) s) (\<lambda>(node, s). ret (Return (Failed r node, s)))
     else bindC (on_mm (upd_node p (\<lambda>n. n\<lparr>refcnt := refcnt n + inc_of adv\<rparr>)) s) (\<lambda>s.
          bindC (mm_near Rgt p (fk_mm s)) (\<lambda>node. ret (Next (node, s)))))"

lemma follows_tell:
  assumes sys: "system ops flags trouble" and g: "marked flags trouble (refuses_cleanly ops flags) g (fk_world s)"
  shows "follows trouble (marked flags trouble (refuses_cleanly ops flags)) (st_flow pair_world pair_world)
    (L_flow pair_marks pair_marks) (fk_world s)
    (case tell_kernel ops start adv n (fk_world s) of (r, w) \<Rightarrow> tell_node ops start adv p (s\<lparr>fk_world := w\<rparr>) r)
    (case tell_kernel (calm_ops ops) start adv n (fk_world s, g) of (r, w) \<Rightarrow>
       tell_node (calm_ops ops) start adv p ((with_marks g s)\<lparr>fk_world := w\<rparr>) r)"
proof -
  let ?M = "marked flags trouble (refuses_cleanly ops flags)"
  obtain r w where r: "tell_kernel ops start adv n (fk_world s) = (r, w)" by fastforce
  from tell_kernel_calm [OF sys g r] obtain r2 g2 where calm: "tell_kernel (calm_ops ops) start adv n (fk_world s, g) = (r2, w, g2)"
    "trouble (fk_world s) \<longrightarrow> trouble w" "?M g2 w" "trouble w \<or> r2 = r" by blast
  define t where "t = s\<lparr>fk_world := w\<rparr>"
  have t: "fk_world t = w" "?M g2 (fk_world t)" using calm(3) by (simp_all add: t_def)
  have "follows trouble ?M (st_flow pair_world pair_world) (L_flow pair_marks pair_marks) (fk_world t)
      (tell_node ops start adv p t r) (tell_node (calm_ops ops) start adv p (with_marks g2 t) r)"
    unfolding tell_node_def
  proof (rule follows_if)
    show "follows trouble ?M (st_flow pair_world pair_world) (L_flow pair_marks pair_marks) (fk_world t)
        (bindC (undo_node ops p start (inc_of adv) t) (\<lambda>(node, s). ret (Return (Failed r node, s))))
        (bindC (undo_node (calm_ops ops) p start (inc_of adv) (with_marks g2 t)) (\<lambda>(node, s). ret (Return (Failed r node, s))))"
      by (rule follows_pair [OF follows_undo_node [OF sys t(2)]], simp only: prod.case, rule follows_ret; simp)
  next
    show "follows trouble ?M (st_flow pair_world pair_world) (L_flow pair_marks pair_marks) (fk_world t)
        (bindC (on_mm (upd_node p (\<lambda>n. n\<lparr>refcnt := refcnt n + inc_of adv\<rparr>)) t) (\<lambda>s.
          bindC (mm_near Rgt p (fk_mm s)) (\<lambda>node. ret (Next (node, s)))))
        (bindC (on_mm (upd_node p (\<lambda>n. n\<lparr>refcnt := refcnt n + inc_of adv\<rparr>)) (with_marks g2 t)) (\<lambda>s.
          bindC (mm_near Rgt p (fk_mm s)) (\<lambda>node. ret (Next (node, s)))))"
      by (rule follows_state, rule follows_on_mm [OF refl], rule t(2), simp only: with_marks_simps,
          rule follows_same, rule follows_ret; simp)
  qed
  then have "follows trouble ?M (st_flow pair_world pair_world) (L_flow pair_marks pair_marks) w
      (tell_node ops start adv p t r) (tell_node (calm_ops ops) start adv p (with_marks g2 t) r2)"
    using calm(4) follows_trouble unfolding t(1) by (cases "trouble w") fast+
  then show ?thesis using follows_start calm(2) r calm(1) by (simp add: t_def)
qed

lemma follows_step:
  assumes sys: "system ops flags trouble" and g: "marked flags trouble (refuses_cleanly ops flags) g (pair_world x)"
  shows "follows trouble (marked flags trouble (refuses_cleanly ops flags)) (st_flow pair_world pair_world) (L_flow pair_marks pair_marks)
    (pair_world x) (madvise_step ops start stop adv x) (madvise_step (calm_ops ops) start stop adv (pair_marks g x))"
proof -
  let ?M = "marked flags trouble (refuses_cleanly ops flags)"
  obtain p s where x: "x = (p, s)" by (cases x)
  have g: "?M g (fk_world s)" using g x by simp
  have split: "follows trouble ?M pair_world pair_marks (fk_world s)
      (if stop < nd_end n then split_range ops p (stop + 1) s else ret (p, s))
      (if stop < nd_end n then split_range (calm_ops ops) p (stop + 1) (with_marks g s) else ret (p, with_marks g s))" for n
    by (intro follows_if follows_split [OF sys g] follows_ret) (simp_all add: g)
  show ?thesis
    unfolding x pair_simps madvise_step_def prod.case with_marks_simps Let_def tell_node_def [symmetric]
    apply (rule follows_if, rule follows_ret, rule g, simp, simp)
    apply (rule follows_same)
    apply (rule follows_if, rule follows_ret, rule g, simp, simp)
    apply (rule follows_pair [OF split])
    apply (simp only: prod.case with_marks_simps)
    apply (rule follows_if, rule follows_ret, assumption, simp, simp)
    apply (rule follows_same)
    apply (erule follows_tell [OF sys])
    done
qed

lemma follows_pass:
  fixes ops :: "'w fork_ops"
  assumes sys: "system ops flags trouble" and g: "marked flags trouble (refuses_cleanly ops flags) g (fk_world s)"
  shows "follows trouble (marked flags trouble (refuses_cleanly ops flags)) pair_world pair_marks (fk_world s)
    (madvise_pass ops start stop adv s) (madvise_pass (calm_ops ops) start stop adv (with_marks g s))"
  unfolding madvise_pass_def
proof (rule follows_pair [OF follows_get_start [OF sys g]], unfold prod.case, rule follows_if)
  let ?M = "marked flags trouble (refuses_cleanly ops flags)"
  fix p g1 and t :: "'w fork_state"
  assume g1: "?M g1 (fk_world t)"
  show "follows trouble ?M pair_world pair_marks (fk_world t) (ret (Leave (- 1), t)) (ret (Leave (- 1), with_marks g1 t))"
    by (rule follows_ret, rule g1) simp_all
  show "follows trouble ?M pair_world pair_marks (fk_world t) (loop (madvise_step ops start stop adv) (p, t))
      (loop (madvise_step (calm_ops ops) start stop adv) (p, with_marks g1 t))"
    using follows_loop [where ?st1.0 = pair_world and ?L1.0 = pair_marks and s = "(p, t)" and g = g1 and M = ?M,
        OF follows_step [OF sys]] g1 by simp
qed

lemma follows_merge_behind:
  assumes g: "M g (fk_world s)"
  shows "follows T M fk_world with_marks (fk_world s) (merge_behind p s) (merge_behind p (with_marks g s))"
  unfolding merge_behind_def with_marks_simps counts_marks
  apply (rule follows_if, rule follows_ret, rule g, simp, simp)
  apply (rule follows_same)+
  apply (rule follows_if)
   apply (rule follows_pair, rule follows_merge, rule g)
   apply (unfold prod.case, rule follows_ret, assumption, simp, simp)
  apply (rule follows_ret, rule g, simp, simp)
  done

lemma follows_rest:
  assumes g: "M g (fk_world s)"
  shows "follows T M fk_world with_marks (fk_world s) (case x of Passed node \<Rightarrow> merge_behind node s | _ \<Rightarrow> ret s)
    (case x of Passed node \<Rightarrow> merge_behind node (with_marks g s) | _ \<Rightarrow> ret (with_marks g s))"
proof (cases x)
  case (Passed node)
  show ?thesis unfolding Passed pass.case by (rule follows_merge_behind, rule g)
next
  case (Leave r)
  show ?thesis unfolding Leave pass.case by (rule follows_ret, rule g) simp_all
next
  case (Failed r node)
  show ?thesis unfolding Failed pass.case by (rule follows_ret, rule g) simp_all
qed

lemma follows_roll_back:
  assumes sys: "system ops flags trouble" and g: "marked flags trouble (refuses_cleanly ops flags) g (fk_world s)"
  shows "follows trouble (marked flags trouble (refuses_cleanly ops flags)) fk_world with_marks (fk_world s)
    (roll_back ops start adv p s) (roll_back (calm_ops ops) start adv p (with_marks g s))"
  unfolding roll_back_def with_marks_simps
  apply (rule follows_same)
  apply (rule follows_if, rule follows_ret, rule g, simp, simp)
  apply (rule follows_same)
  apply (rule follows_if, rule follows_ret, rule g, simp, simp)
  apply (rule follows_pair [OF follows_pass [OF sys g]], unfold prod.case)
  apply (erule follows_rest)
  done

lemma follows_count_range:
  fixes ops :: "'w fork_ops"
  assumes sys: "system ops flags trouble" and g: "marked flags trouble (refuses_cleanly ops flags) g (fk_world s)"
  shows "follows trouble (marked flags trouble (refuses_cleanly ops flags)) pair_world pair_marks (fk_world s)
    (count_range ops start stop adv s) (count_range (calm_ops ops) start stop adv (with_marks g s))"
  unfolding count_range_def
proof (rule follows_pair [OF follows_pass [OF sys g]], unfold prod.case)
  let ?M = "marked flags trouble (refuses_cleanly ops flags)"
  fix x g1 and t :: "'w fork_state"
  assume g1: "?M g1 (fk_world t)"
  have zero: "follows trouble ?M pair_world pair_marks (fk_world u) (ret (r, u)) (ret (r, with_marks g2 u))"
    if "?M g2 (fk_world u)" for r :: int and u :: "'w fork_state" and g2 by (rule follows_ret, rule that) simp_all
  show "follows trouble ?M pair_world pair_marks (fk_world t)
     (case x of Passed node \<Rightarrow> bindC (merge_behind node t) (\<lambda>s. ret (0, s)) | Leave r \<Rightarrow> ret (r, t)
      | Failed r node \<Rightarrow> if node = None then ret (r, t) else bindC (roll_back ops start adv node t) (\<lambda>s. ret (- 1, s)))
     (case x of Passed node \<Rightarrow> bindC (merge_behind node (with_marks g1 t)) (\<lambda>s. ret (0, s)) | Leave r \<Rightarrow> ret (r, with_marks g1 t)
      | Failed r node \<Rightarrow> if node = None then ret (r, with_marks g1 t)
          else bindC (roll_back (calm_ops ops) start adv node (with_marks g1 t)) (\<lambda>s. ret (- 1, s)))"
  proof (cases x)
    case (Passed node)
    show ?thesis unfolding Passed pass.case
      by (rule follows_state, rule follows_merge_behind, rule g1, erule zero)
  next
    case (Leave r)
    show ?thesis unfolding Leave pass.case by (rule zero [OF g1])
  next
    case (Failed r node)
    show ?thesis unfolding Failed pass.case
      by (rule follows_if, rule zero [OF g1], rule follows_state, rule follows_roll_back [OF sys g1], erule zero)
  qed
qed

lemma follows_range:
  assumes sys: "system ops flags trouble" and g: "marked flags trouble (refuses_cleanly ops flags) g (fk_world s)"
  shows "follows trouble (marked flags trouble (refuses_cleanly ops flags)) pair_world pair_marks (fk_world s)
    (ibv_madvise_range ops base len adv s) (ibv_madvise_range (calm_ops ops) base len adv (with_marks g s))"
proof -
  have size: "get_page_size (calm_ops ops) base (with_marks g s) = get_page_size ops base s"
    by (simp add: get_page_size_def calm_ops_def cong: option.case_cong)
  show ?thesis
    unfolding ibv_madvise_range_def with_marks_simps size Let_def
    by (rule follows_if, rule follows_ret, rule g, simp, simp, rule follows_count_range [OF sys g])
qed

lemma follows_dontfork:
  assumes sys: "system ops flags trouble" and g: "marked flags trouble (refuses_cleanly ops flags) g (fk_world s)"
  shows "follows trouble (marked flags trouble (refuses_cleanly ops flags)) pair_world pair_marks (fk_world s)
    (ibv_dontfork_range ops base len s) (ibv_dontfork_range (calm_ops ops) base len (with_marks g s))"
  unfolding ibv_dontfork_range_def with_marks_simps
  by (rule follows_if, rule follows_range [OF sys g], rule follows_ret, rule g) simp_all

lemma follows_dofork:
  assumes sys: "system ops flags trouble" and g: "marked flags trouble (refuses_cleanly ops flags) g (fk_world s)"
  shows "follows trouble (marked flags trouble (refuses_cleanly ops flags)) pair_world pair_marks (fk_world s)
    (ibv_dofork_range ops base len s) (ibv_dofork_range (calm_ops ops) base len (with_marks g s))"
  unfolding ibv_dofork_range_def with_marks_simps
  by (rule follows_if, rule follows_range [OF sys g], rule follows_ret, rule g) simp_all

text \<open>What following means for a call that has come back.\<close>

lemma follows_call:
  assumes "follows T M pair_world pair_marks w0 m m'" and "m = ret (r, s')" and "\<not> T (fk_world s')"
  obtains g' where "m' = ret (r, with_marks g' s')" and "M g' (fk_world s')" and "\<not> T w0"
proof -
  from assms have "\<exists>g'. M g' (fk_world s') \<and> m' = ret (r, with_marks g' s')" "\<not> T w0" by (fastforce simp: follows_def)+
  with that show thesis by blast
qed

subsection \<open>A process on a system that fails\<close>

lemma real_marks: "marked flags trouble c (flags w) w"
  by (simp add: marked_def)

lemma dontfork_trouble: "system ops flags trouble \<Longrightarrow> ibv_dontfork_range ops base len s = ret (r, s') \<Longrightarrow>
    \<not> trouble (fk_world s') \<Longrightarrow> \<not> trouble (fk_world s)"
  using follows_call [OF follows_dontfork [OF _ real_marks]] by metis

lemma dofork_trouble: "system ops flags trouble \<Longrightarrow> ibv_dofork_range ops base len s = ret (r, s') \<Longrightarrow>
    \<not> trouble (fk_world s') \<Longrightarrow> \<not> trouble (fk_world s)"
  using follows_call [OF follows_dofork [OF _ real_marks]] by metis

lemma run_calm:
  assumes sys: "system ops flags trouble" and g0: "marked flags trouble (refuses_cleanly ops flags) g0 (fk_world s0)"
    and run: "fork_run ops b s0 s held" and "\<not> trouble (fk_world s)"
  shows "\<exists>g. fork_run (calm_ops ops) b (with_marks g0 s0) (with_marks g s) held \<and>
    marked flags trouble (refuses_cleanly ops flags) g (fk_world s)"
  using run assms(4)
proof induction
  case init
  then show ?case using g0 fork_run.init by blast
next
  case (keep s held base len r s')
  then obtain g where g: "fork_run (calm_ops ops) b (with_marks g0 s0) (with_marks g s) held"
    "marked flags trouble (refuses_cleanly ops flags) g (fk_world s)" using dontfork_trouble [OF sys] by blast
  from follows_call [OF follows_dontfork [OF sys g(2)] keep.hyps(3) keep.prems] obtain g' where
    "ibv_dontfork_range (calm_ops ops) base len (with_marks g s) = ret (r, with_marks g' s')"
    "marked flags trouble (refuses_cleanly ops flags) g' (fk_world s')" by blast
  then show ?case using fork_run.keep [OF g(1) keep.hyps(2)] by blast
next
  case (give s held base len r s')
  then obtain g where g: "fork_run (calm_ops ops) b (with_marks g0 s0) (with_marks g s) held"
    "marked flags trouble (refuses_cleanly ops flags) g (fk_world s)" using dofork_trouble [OF sys] by blast
  from follows_call [OF follows_dofork [OF sys g(2)] give.hyps(3) give.prems] obtain g' where
    "ibv_dofork_range (calm_ops ops) base len (with_marks g s) = ret (r, with_marks g' s')"
    "marked flags trouble (refuses_cleanly ops flags) g' (fk_world s')" by blast
  then show ?case using fork_run.give [OF g(1) give.hyps(2)] by blast
qed

text \<open>A process that has initialised the fork support: what \<^verbatim>\<open>ibv_fork_init\<close> starts from.\<close>

definition starts :: "'w fork_ops \<Rightarrow> ('w \<Rightarrow> u64 \<Rightarrow> bool) \<Rightarrow> nat \<Rightarrow> 'w fork_state \<Rightarrow> 'w fork_state \<Rightarrow> bool" where
  "starts ops flags b s s0 \<longleftrightarrow> ibv_fork_init ops s = (0, s0) \<and> mm_root (fk_mm s) = None \<and> finite (dom (mm_heap (fk_mm s))) \<and>
     (\<forall>k. \<not> flags (fk_world s) k) \<and> (\<forall>tmp w. memalign_op ops (fk_world s) = Some (tmp, w) \<longrightarrow> flags w = flags (fk_world s)) \<and>
     sysconf_op ops (fk_world s) = 2 ^ b \<and> b < 64 \<and> \<not> hugepages_safe ops"

lemma try_madvise_calm:
  assumes sys: "system ops flags trouble" and "try_madvise ops tmp s = (0, w)" and "\<And>k. \<not> flags (fk_world s) k"
  shows "\<exists>g'. try_madvise (calm_ops ops) tmp (with_marks g s) = (0, w, g') \<and> (\<forall>k. \<not> flags w k)"
proof -
  define sz where "sz = (if huge_page_enabled s then get_page_size ops tmp s else of_int (page_size s))"
  define at where "at = (if huge_page_enabled s then tmp AND NOT (sz - 1) else tmp)"
  have size: "get_page_size (calm_ops ops) tmp (with_marks g s) = get_page_size ops tmp s"
    by (simp add: get_page_size_def calm_ops_def cong: option.case_cong)
  obtain r1 w1 where m1: "madvise_op ops at sz MADV_DONTFORK (fk_world s) = (r1, w1)" by fastforce
  have calls: "try_madvise ops tmp s = (if r1 \<noteq> 0 then (r1, w1) else madvise_op ops at sz MADV_DOFORK w1)"
    using m1 unfolding try_madvise_def sz_def [symmetric] Let_def at_def [symmetric] by simp
  then have ok: "r1 = 0" "madvise_op ops at sz MADV_DOFORK w1 = (0, w)" using assms(2) by (auto split: if_splits)
  have "\<not> flags w k" for k
    using system_madvise [OF sys m1] system_madvise [OF sys ok(2)] assms(3) ok(1) by auto
  moreover have "\<exists>g'. try_madvise (calm_ops ops) tmp (with_marks g s) = (0, w, g')"
    unfolding try_madvise_def with_marks_simps size sz_def [symmetric] Let_def at_def [symmetric]
    using m1 ok by (simp add: calm_ops_def calm_madvise_def)
  ultimately show ?thesis by blast
qed

lemma init_calm:
  assumes sys: "system ops flags trouble" and s: "starts ops flags b s s0"
  obtains g0 where "pages snd (with_marks g0 s0) (\<lambda>_. 0)" and "marked flags trouble (refuses_cleanly ops flags) g0 (fk_world s0)"
    and "page_size s0 = 2 ^ b" and "\<not> huge_page_enabled s0"
proof -
  let ?s = "with_marks (\<lambda>_. False) s"
  have st: "ibv_fork_init ops s = (0, s0)" "mm_root (fk_mm s) = None" "\<And>k. \<not> flags (fk_world s) k" "sysconf_op ops (fk_world s) = 2 ^ b"
    using s by (simp_all add: starts_def)
  obtain tmp w where mem: "memalign_op ops (fk_world s) = Some (tmp, w)"
    using st by (cases "memalign_op ops (fk_world s)") (auto simp: ibv_fork_init_def EINVAL_def ENOMEM_def split: if_splits)
  define s2 where "s2 = s\<lparr>page_size := sysconf_op ops (fk_world s), fk_world := w, huge_page_enabled := hugepages_safe ops\<rparr>"
  obtain r w2 where probe: "try_madvise ops tmp s2 = (r, w2)" by fastforce
  obtain q w3 where q: "malloc_node ops (mm_heap (fk_mm s)) w2 = (q, w3)" by fastforce
  have eq: "ibv_fork_init ops s = (if too_late s then (EINVAL, s)
     else if r \<noteq> 0 then (ENOSYS, s2\<lparr>fk_world := w2\<rparr>)
     else case q of None \<Rightarrow> (ENOMEM, s2\<lparr>fk_world := w3\<rparr>)
     | Some p \<Rightarrow> (0, s2\<lparr>fk_world := w3, fk_mm := \<lparr>mm_heap = (mm_heap (fk_mm s2))(p \<mapsto> root_node), mm_root = Some p\<rparr>\<rparr>))"
    using st(2,4) mem probe q by (simp add: ibv_fork_init_def Let_def s2_def split: option.splits)
  have "flags w = flags (fk_world s)" using s mem by (auto simp: starts_def)
  then have none: "\<not> flags (fk_world s2) k" for k using st(3) by (simp add: s2_def)
  have ok: "r = 0" "\<not> too_late s" using eq st(1) by (auto simp: EINVAL_def ENOSYS_def split: if_splits)
  then obtain p where p: "q = Some p" using eq st(1) by (cases q) (auto simp: ENOMEM_def)
  then have s0: "s0 = s2\<lparr>fk_world := w3, fk_mm := \<lparr>mm_heap = (mm_heap (fk_mm s2))(p \<mapsto> root_node), mm_root = Some p\<rparr>\<rparr>"
    using eq st(1) ok by simp
  from try_madvise_calm [OF sys probe [unfolded ok] none] obtain g2 where
    g2: "try_madvise (calm_ops ops) tmp (with_marks (\<lambda>_. False) s2) = (0, w2, g2)" "\<forall>k. \<not> flags w2 k" by blast
  have w3: "\<forall>k. \<not> flags w3 k" using system_malloc [OF sys q] g2(2) by simp
  have S2: "?s\<lparr>page_size := sysconf_op ops (fk_world s), fk_world := (w, \<lambda>_. False), huge_page_enabled := hugepages_safe ops\<rparr> =
      with_marks (\<lambda>_. False) s2" by (simp add: with_marks_def s2_def)
  have S3: "(with_marks (\<lambda>_. False) s2)\<lparr>fk_world := (w3, g2), fk_mm := m\<rparr> = with_marks g2 (s2\<lparr>fk_world := w3, fk_mm := m\<rparr>)" for m
    by (simp add: with_marks_def)
  have sys_ops: "sysconf_op (calm_ops ops) (fk_world ?s) = sysconf_op ops (fk_world s)" "hugepages_safe (calm_ops ops) = hugepages_safe ops"
    "memalign_op (calm_ops ops) (fk_world ?s) = Some (tmp, w, \<lambda>_. False)"
    "malloc_node (calm_ops ops) (mm_heap (fk_mm s)) (w2, g2) = (Some p, w3, g2)"
    using mem q p by (simp_all add: calm_ops_def calm_malloc_def)
  have mm2: "fk_mm s2 = fk_mm s" by (simp add: s2_def)
  have calm: "ibv_fork_init (calm_ops ops) ?s = (0, with_marks g2 s0)"
    unfolding ibv_fork_init_def Let_def using st(2,4) ok(2) sys_ops g2(1)
    by (simp add: S2 [unfolded st(4)] S3 s0 mm2)
  have "pages snd (with_marks g2 s0) (\<lambda>_. 0) \<and> page_size (with_marks g2 s0) = sysconf_op (calm_ops ops) (fk_world ?s) \<and>
      huge_page_enabled (with_marks g2 s0) = hugepages_safe (calm_ops ops)"
    by (rule fork_init_pages [OF calm_kernel [OF sys] _ _ calm]) (use s in \<open>auto simp: calm_ops_def starts_def\<close>)
  moreover from this have "g2 = (\<lambda>_. False)" by (auto simp: pages_def fun_eq_iff)
  then have "marked flags trouble (refuses_cleanly ops flags) g2 (fk_world s0)"
    using w3 by (simp add: marked_def s0 fun_eq_iff)
  ultimately show thesis using that [of g2] s by (simp add: calm_ops_def starts_def)
qed

subsection \<open>Counts and marks after a run\<close>

definition page_counts :: "'w fork_state \<Rightarrow> (u64 \<Rightarrow> int) \<Rightarrow> bool" where
  "page_counts s f \<longleftrightarrow> (\<exists>xs. ranges s xs \<and> (\<forall>k. rc xs k = f k))"

lemma pages_counts: "pages snd (with_marks g s) f \<Longrightarrow> page_counts s f"
  by (auto simp: pages_def page_counts_def)

lemma pages_covering:
  assumes "pages snd (with_marks g s) (covering b held)"
  shows "g k \<longleftrightarrow> (\<exists>r \<in># held. in_pages b r k)"
proof -
  have "g k \<longleftrightarrow> 0 < covering b held k" using assms by (simp add: pages_def)
  also have "\<dots> \<longleftrightarrow> (\<exists>r \<in># held. in_pages b r k)" by (induction held) (auto simp: covering_def)
  finally show ?thesis .
qed

text \<open>What the calm run says of a state that was reached without trouble.\<close>

lemma run_pages':
  assumes sys: "system ops flags trouble" and st: "starts ops flags b s0 s1" and run: "fork_run ops b s1 s held"
    and calm: "\<not> trouble (fk_world s)"
  shows "\<exists>g. pages snd (with_marks g s) (covering b held) \<and> marked flags trouble (refuses_cleanly ops flags) g (fk_world s) \<and>
    (\<forall>a. range_page (calm_ops ops) (with_marks g s) a = 2 ^ b) \<and> (\<forall>r \<in># held. range_ok b r)"
proof -
  from init_calm [OF sys st] obtain g0 where g0: "pages snd (with_marks g0 s1) (\<lambda>_. 0)"
    "marked flags trouble (refuses_cleanly ops flags) g0 (fk_world s1)" "page_size s1 = 2 ^ b" "\<not> huge_page_enabled s1" by blast
  from run_calm [OF sys g0(2) run calm] obtain g where g: "fork_run (calm_ops ops) b (with_marks g0 s1) (with_marks g s) held"
    "marked flags trouble (refuses_cleanly ops flags) g (fk_world s)" by blast
  have "b < 64" using st by (simp add: starts_def)
  from fork_run_pages [OF calm_kernel [OF sys] calm_dofork g0(1) _ _ this g(1)] g0(3,4) g(2) show ?thesis
    by (intro exI [of _ g]) (simp add: range_page_def env_same_def)
qed

lemma run_pages:
  assumes "system ops flags trouble" and "starts ops flags b s0 s1" and "fork_run ops b s1 s held" and "\<not> trouble (fk_world s)"
  shows "\<exists>g. pages snd (with_marks g s) (covering b held) \<and> marked flags trouble (refuses_cleanly ops flags) g (fk_world s)"
  using run_pages' [OF assms] by blast

lemma covering_keep: "(\<lambda>k. covering b held k + (if in_pages b r k then 1 else 0)) = covering b (add_mset r held)"
  by (rule ext) (simp add: covering_add cong: if_cong)

lemma covering_give: "r \<in># held \<Longrightarrow> (\<lambda>k. covering b held k + (if in_pages b r k then - 1 else 0)) = covering b (held - {#r#})"
  by (rule ext) (simp add: covering_remove cong: if_cong)

lemma dontfork_outcome:
  assumes sys: "system ops flags trouble" and st: "starts ops flags b s0 s1" and run: "fork_run ops b s1 s held"
    and ok: "range_ok b (base, len)"
  shows "\<forall>r s'. ibv_dontfork_range ops base len s = ret (r, s') \<and> \<not> trouble (fk_world s') \<longrightarrow>
      (r = 0 \<and> page_counts s' (covering b (add_mset (base, len) held)) \<and>
         (\<forall>k. (\<exists>x \<in># add_mset (base, len) held. in_pages b x k) \<longrightarrow> flags (fk_world s') k) \<or>
       r = - 1 \<and> page_counts s' (covering b held) \<and> (\<forall>k. (\<exists>x \<in># held. in_pages b x k) \<longrightarrow> flags (fk_world s') k) \<and>
         (refuses_cleanly ops flags \<longrightarrow> flags (fk_world s') = flags (fk_world s)))"
proof (intro allI impI, elim conjE)
  fix r s'
  assume call: "ibv_dontfork_range ops base len s = ret (r, s')" and calm: "\<not> trouble (fk_world s')"
  have calm0: "\<not> trouble (fk_world s)" by (rule dontfork_trouble [OF sys call calm])
  from run_pages' [OF sys st run calm0] obtain g where g: "pages snd (with_marks g s) (covering b held)"
    "marked flags trouble (refuses_cleanly ops flags) g (fk_world s)"
    "\<And>a. range_page (calm_ops ops) (with_marks g s) a = 2 ^ b" by blast
  from follows_call [OF follows_dontfork [OF sys g(2)] call calm] obtain g' where
    g': "ibv_dontfork_range (calm_ops ops) base len (with_marks g s) = ret (r, with_marks g' s')"
      "marked flags trouble (refuses_cleanly ops flags) g' (fk_world s')" by blast
  have b: "b < 64" using st by (simp add: starts_def)
  from dontfork_eq [OF calm_kernel [OF sys] calm_dofork g(1,3) b ok] g'(1) have
    out: "r = 0 \<and> pages snd (with_marks g' s') (covering b (add_mset (base, len) held)) \<or>
     r = - 1 \<and> pages snd (with_marks g' s') (covering b held)" unfolding covering_keep by auto
  have kept: "g' k \<Longrightarrow> flags (fk_world s') k" for k using g'(2) calm by (simp add: marked_def)
  have same: "refuses_cleanly ops flags \<longrightarrow> flags (fk_world s') = flags (fk_world s)" if "pages snd (with_marks g' s') (covering b held)"
  proof -
    have "g' = g" using pages_covering [OF that] pages_covering [OF g(1)] by (simp add: fun_eq_iff)
    then show ?thesis using g(2) g'(2) calm calm0 by (simp add: marked_def)
  qed
  from out show "r = 0 \<and> page_counts s' (covering b (add_mset (base, len) held)) \<and>
       (\<forall>k. (\<exists>x \<in># add_mset (base, len) held. in_pages b x k) \<longrightarrow> flags (fk_world s') k) \<or>
     r = - 1 \<and> page_counts s' (covering b held) \<and> (\<forall>k. (\<exists>x \<in># held. in_pages b x k) \<longrightarrow> flags (fk_world s') k) \<and>
       (refuses_cleanly ops flags \<longrightarrow> flags (fk_world s') = flags (fk_world s))"
    using pages_counts kept pages_covering same by metis
qed

lemma dofork_outcome:
  assumes sys: "system ops flags trouble" and st: "starts ops flags b s0 s1" and run: "fork_run ops b s1 s held"
  shows "\<forall>x \<in># held. \<forall>r s'. ibv_dofork_range ops (fst x) (snd x) s = ret (r, s') \<and> \<not> trouble (fk_world s') \<longrightarrow>
      r = 0 \<and> page_counts s' (covering b (held - {#x#})) \<and>
        (\<forall>k. (\<exists>y \<in># held - {#x#}. in_pages b y k) \<longrightarrow> flags (fk_world s') k)"
proof (intro ballI allI impI, elim conjE)
  fix x r s'
  assume x: "x \<in># held" and call: "ibv_dofork_range ops (fst x) (snd x) s = ret (r, s')" and calm: "\<not> trouble (fk_world s')"
  have calm0: "\<not> trouble (fk_world s)" by (rule dofork_trouble [OF sys call calm])
  from run_pages' [OF sys st run calm0] obtain g where g: "pages snd (with_marks g s) (covering b held)"
    "marked flags trouble (refuses_cleanly ops flags) g (fk_world s)"
    "\<And>a. range_page (calm_ops ops) (with_marks g s) a = 2 ^ b" "range_ok b (fst x, snd x)" using x by auto
  from follows_call [OF follows_dofork [OF sys g(2)] call calm] obtain g' where
    g': "ibv_dofork_range (calm_ops ops) (fst x) (snd x) (with_marks g s) = ret (r, with_marks g' s')"
      "marked flags trouble (refuses_cleanly ops flags) g' (fk_world s')" by blast
  have b: "b < 64" using st by (simp add: starts_def)
  have "in_pages b (fst x, snd x) k \<Longrightarrow> 1 \<le> covering b held k" for k using in_pages_covering [OF x] by simp
  from dofork_eq [OF calm_kernel [OF sys] calm_dofork g(1,3) b g(4) this] g'(1) have
    "r = 0 \<and> pages snd (with_marks g' s') (covering b (held - {#x#}))" using covering_give [OF x] by auto
  moreover have "g' k \<Longrightarrow> flags (fk_world s') k" for k using g'(2) calm by (simp add: marked_def)
  ultimately show "r = 0 \<and> page_counts s' (covering b (held - {#x#})) \<and>
      (\<forall>k. (\<exists>y \<in># held - {#x#}. in_pages b y k) \<longrightarrow> flags (fk_world s') k)"
    using pages_counts pages_covering by metis
qed

lemma calls_return:
  assumes sys: "system ops flags trouble" and st: "starts ops flags b s0 s1" and run: "fork_run ops b s1 s held"
    and ok: "range_ok b (base, len)"
  shows "(\<forall>w. \<not> trouble w) \<longrightarrow> (\<exists>r s'. ibv_dontfork_range ops base len s = ret (r, s')) \<and>
      (\<forall>x \<in># held. \<exists>r s'. ibv_dofork_range ops (fst x) (snd x) s = ret (r, s'))"
proof (intro impI conjI ballI)
  assume calm: "\<forall>w. \<not> trouble w"
  then have "\<not> trouble (fk_world s)" by blast
  from run_pages' [OF sys st run this] obtain g where g: "pages snd (with_marks g s) (covering b held)"
    "marked flags trouble (refuses_cleanly ops flags) g (fk_world s)"
    "\<And>a. range_page (calm_ops ops) (with_marks g s) a = 2 ^ b" "\<forall>r \<in># held. range_ok b r" by blast
  have b: "b < 64" using st by (simp add: starts_def)
  from dontfork_eq [OF calm_kernel [OF sys] calm_dofork g(1,3) b ok] follows_dontfork [OF sys g(2), of base len] calm
  show "\<exists>r s'. ibv_dontfork_range ops base len s = ret (r, s')" by (auto simp: follows_def)
  fix x
  assume x: "x \<in># held"
  then have okx: "range_ok b (fst x, snd x)" using g(4) by simp
  have "in_pages b (fst x, snd x) k \<Longrightarrow> 1 \<le> covering b held k" for k using in_pages_covering [OF x] by simp
  from dofork_eq [OF calm_kernel [OF sys] calm_dofork g(1,3) b okx this] follows_dofork [OF sys g(2), of "fst x" "snd x"] calm
  show "\<exists>r s'. ibv_dofork_range ops (fst x) (snd x) s = ret (r, s')" by (auto simp: follows_def)
qed

end
