(* ===== verification/Ibv_Fork_Process.thy ===== *)
theory Ibv_Fork_Process
  imports Ibv_Fork_Follow
begin

unbundle bit_operations_syntax

section \<open>What a child process inherits\<close>

text \<open>
  A system for examples: it remembers the calls of \<^verbatim>\<open>madvise\<close>, and fails those that are asked for.
\<close>

type_synonym advice_log = "(u64 \<times> u64 \<times> advice \<times> bool) list"

definition log_ops :: "(advice \<Rightarrow> nat \<Rightarrow> bool) \<Rightarrow> advice_log fork_ops" where
  "log_ops fails =
    \<lparr>malloc_node = (\<lambda>h w. (Some (free_pointer h), w)),
     madvise_op = (\<lambda>a n adv w. (if fails adv (length w) then - 1 else 0, (a, n, adv, \<not> fails adv (length w)) # w)),
     smaps_op = (\<lambda>_. None), sysconf_op = (\<lambda>_. 4096), errno_op = (\<lambda>_. 12), memalign_op = (\<lambda>w. Some (0x100000, w)),
     hugepages_safe = False\<rparr>"

fun log_flags :: "advice_log \<Rightarrow> u64 \<Rightarrow> bool" where
  "log_flags [] k = False"
| "log_flags ((a, n, adv, ok) # w) k = (if ok \<and> k - a < n then adv = MADV_DONTFORK else log_flags w k)"

fun log_trouble :: "advice_log \<Rightarrow> bool" where
  "log_trouble [] = False"
| "log_trouble ((a, n, adv, ok) # w) = (adv = MADV_DOFORK \<and> \<not> ok \<or> log_trouble w)"

lemma log_system: "system (log_ops fails) log_flags log_trouble" "refuses_cleanly (log_ops fails) log_flags"
  by (auto simp: system_def refuses_cleanly_def log_ops_def free_pointer_free fun_eq_iff)

definition no_fork :: "advice_log fork_state" where
  "no_fork = \<lparr>fk_mm = \<lparr>mm_heap = Map.empty, mm_root = None\<rparr>, fk_world = [], page_size = 0, huge_page_enabled = False, too_late = False\<rparr>"

definition fork_ready :: "advice_log fork_state" where
  "fork_ready = \<lparr>fk_mm = \<lparr>mm_heap = [0 \<mapsto> root_node], mm_root = Some 0\<rparr>,
     fk_world = [(0x100000, 4096, MADV_DOFORK, True), (0x100000, 4096, MADV_DONTFORK, True)], page_size = 4096,
     huge_page_enabled = False, too_late = False\<rparr>"

lemma log_fork_init: "\<not> fails MADV_DONTFORK 0 \<Longrightarrow> \<not> fails MADV_DOFORK 1 \<Longrightarrow> ibv_fork_init (log_ops fails) no_fork = (0, fork_ready)"
  by (simp add: ibv_fork_init_def no_fork_def log_ops_def fork_ready_def try_madvise_def free_pointer_def while_unfold)


lemma bindC_first: "A = A' \<Longrightarrow> bindC A f = bindC A' f"
  by simp

lemmas fork_eval = loop.simps ibv_dontfork_range_def ibv_dofork_range_def ibv_madvise_range_def count_range_def
  roll_back_def merge_behind_def madvise_pass_def madvise_step_def tell_kernel_def undo_node_def undo_merge_def undo_split_def
  get_start_node_def counts_def split_range_def merge_ranges_def on_mm_def mm_remove_def remove_fix_def remove_step_def
  remove_side_def black_sibling_def far_nephew_def near_nephew_def red_sibling_def free_node_def unlink_one_def unlink_two_def
  lift_pred_def take_place_def mm_find_start_def find_step_def mm_near_def walk_up_def walk_down_def mm_add_def descend_def
  mm_add_rebalance_def add_step_def add_side_def mm_rotate_def relink_def is_red_def adopt_def set_color_def set_parent_def
  upd_node_def node_at_def free_pointer_def while_unfold Let_def

lemma log_starts: "\<not> fails MADV_DONTFORK 0 \<Longrightarrow> \<not> fails MADV_DOFORK 1 \<Longrightarrow> starts (log_ops fails) log_flags 12 no_fork fork_ready"
  using log_fork_init by (auto simp: starts_def no_fork_def) (simp_all add: log_ops_def)

lemma keep_ok: "fork_run ops b s0 s held \<Longrightarrow> range_ok b r \<Longrightarrow> ibv_dontfork_range ops (fst r) (snd r) s = ret (0, s') \<Longrightarrow>
    fork_run ops b s0 s' (add_mset r held)"
  using fork_run.keep [of ops b s0 s held "fst r" "snd r" 0 s'] by simp

lemma keep_fails: "fork_run ops b s0 s held \<Longrightarrow> range_ok b r \<Longrightarrow> ibv_dontfork_range ops (fst r) (snd r) s = ret (e, s') \<Longrightarrow> e \<noteq> 0 \<Longrightarrow>
    fork_run ops b s0 s' held"
  using fork_run.keep [of ops b s0 s held "fst r" "snd r" e s'] by simp

lemma give_ok: "fork_run ops b s0 s held \<Longrightarrow> r \<in># held \<Longrightarrow> ibv_dofork_range ops (fst r) (snd r) s = ret (0, s') \<Longrightarrow>
    fork_run ops b s0 s' (held - {#r#})"
  using fork_run.give [of ops b s0 s held "fst r" "snd r" 0 s'] by simp

lemma give_fails: "fork_run ops b s0 s held \<Longrightarrow> r \<in># held \<Longrightarrow> ibv_dofork_range ops (fst r) (snd r) s = ret (e, s') \<Longrightarrow> e \<noteq> 0 \<Longrightarrow>
    fork_run ops b s0 s' held"
  using fork_run.give [of ops b s0 s held "fst r" "snd r" e s'] by simp

text \<open>
  A run in which the second registration is refused half way.
\<close>

definition refusing_ops :: "advice_log fork_ops" where
  "refusing_ops = log_ops (\<lambda>adv n. adv = MADV_DONTFORK \<and> n = 3)"

lemma refusing_system:
  "system refusing_ops log_flags log_trouble" "refuses_cleanly refusing_ops log_flags" "starts refusing_ops log_flags 12 no_fork fork_ready"
  by (simp_all add: refusing_ops_def log_system log_starts)

lemma refusing_run:
  "bindC (ibv_dontfork_range refusing_ops 0x1000 0x1000 fork_ready) (\<lambda>(r1, s1).
   bindC (ibv_dontfork_range refusing_ops 0x1000 0x3000 s1) (\<lambda>(r2, s2).
   bindC (ibv_dontfork_range refusing_ops 0x5000 0x800 s2) (\<lambda>(r3, s3).
     ret (r1, r2, log_trouble (fk_world s2), r3, log_trouble (fk_world s3))))) = ret (0, - 1, False, 0, False)"
  by (simp add: fork_eval refusing_ops_def log_ops_def fork_ready_def root_node_def cong: bindC_first)

lemma refused_state:
  "\<exists>s s'. fork_run refusing_ops 12 fork_ready s {#(0x1000, 0x1000)#} \<and> \<not> log_trouble (fk_world s) \<and>
     ibv_dontfork_range refusing_ops 0x5000 0x800 s = ret (0, s') \<and> \<not> log_trouble (fk_world s')"
proof -
  let ?A = "(0x1000, 0x1000) :: u64 \<times> u64" and ?B = "(0x1000, 0x3000) :: u64 \<times> u64"
  from refusing_run obtain s1 s2 s3 where s1: "ibv_dontfork_range refusing_ops (fst ?A) (snd ?A) fork_ready = ret (0, s1)"
    and s2: "ibv_dontfork_range refusing_ops (fst ?B) (snd ?B) s1 = ret (- 1, s2)" "\<not> log_trouble (fk_world s2)"
    and s3: "ibv_dontfork_range refusing_ops 0x5000 0x800 s2 = ret (0, s3)" "\<not> log_trouble (fk_world s3)"
    by (auto simp: bindC_eq_ret)
  have ok: "range_ok 12 ?A" "range_ok 12 ?B" by (simp_all add: range_ok_def in_pages_def page_of_def)
  have "fork_run refusing_ops 12 fork_ready s1 {#?A#}" using keep_ok [OF fork_run.init ok(1) s1] by simp
  then have "fork_run refusing_ops 12 fork_ready s2 {#?A#}" by (rule keep_fails [OF _ ok(2) s2(1)]) simp
  then show ?thesis using s2(2) s3 by blast
qed

text \<open>
  C21: a process has called \<^verbatim>\<open>ibv_fork_init\<close> with success, on pages of one size (huge pages are
  not accounted for). Whatever it then registers and gives back, and whichever
  \<^verbatim>\<open>MADV_DONTFORK\<close> the kernel refuses, even after marking some pages: as long as no call for the
  memory of a node and no \<^verbatim>\<open>MADV_DOFORK\<close> has failed, every byte in a page of a range the
  process holds is kept from child processes. If a refused call marks no page, no other byte is
  kept: \<^verbatim>\<open>dofork\<close> gives no page back while it is in another range, and keeps none. After
  such a failure this is lost (\<open>retried_dofork_exposes\<close>).
\<close>

theorem fork_keeps_held:
  assumes "system ops flags trouble" and "starts ops flags b s s0" and "fork_run ops b s0 s' held"
    and "\<not> trouble (fk_world s')"
  shows "((\<exists>r \<in># held. in_pages b r k) \<longrightarrow> flags (fk_world s') k) \<and>
    (refuses_cleanly ops flags \<longrightarrow> flags (fk_world s') k \<longrightarrow> (\<exists>r \<in># held. in_pages b r k))"
proof -
  from run_pages [OF assms] obtain g where g: "pages snd (with_marks g s') (covering b held)"
    "marked flags trouble (refuses_cleanly ops flags) g (fk_world s')" by blast
  have "g k \<longleftrightarrow> (\<exists>r \<in># held. in_pages b r k)" using pages_covering [OF g(1)] by simp
  then show ?thesis using g(2) assms(4) by (auto simp: marked_def)
qed

theorem fork_keeps_held_witness:
  "\<exists>s. fork_run refusing_ops 12 fork_ready s {#(0x1000, 0x1000)#} \<and> log_flags (fk_world s) 0x1800 \<and> \<not> log_flags (fk_world s) 0x2000"
proof -
  obtain s where s: "fork_run refusing_ops 12 fork_ready s {#(0x1000, 0x1000)#}" "\<not> log_trouble (fk_world s)"
    using refused_state by blast
  note held = fork_keeps_held [OF refusing_system(1,3) s]
  have "in_pages 12 (0x1000, 0x1000) 0x1800" "\<not> in_pages 12 (0x1000, 0x1000) 0x2000"
    by (simp_all add: in_pages_def page_of_def)
  then have "log_flags (fk_world s) 0x1800" "\<not> log_flags (fk_world s) 0x2000"
    using held [of "0x1800"] held [of "0x2000"] refusing_system(2) by auto
  then show ?thesis using s(1) by blast
qed

text \<open>
  C23: in every such state of a process (\<^verbatim>\<open>ibv_fork_init\<close> has succeeded, pages of one size), a
  registration that comes back with no call for memory and no \<^verbatim>\<open>MADV_DOFORK\<close> having failed so
  far returns either 0, and then exactly the pages of its range count one more and are kept from children;
  or -1, and then the counts of all pages are what they were, however far \<^verbatim>\<open>madvise\<close> had gone
  before it failed, every byte of a range held is still kept, and if refused calls mark nothing the
  pages kept are what they were. Under the same condition giving back a range that is held
  returns 0, and exactly its pages count one less. On a system where such failures never
  occur both calls return.
\<close>

theorem fork_range_atomic:
  assumes "system ops flags trouble" and "starts ops flags b s0 s1" and "fork_run ops b s1 s held" and "range_ok b (base, len)"
  shows "(\<forall>r s'. ibv_dontfork_range ops base len s = ret (r, s') \<and> \<not> trouble (fk_world s') \<longrightarrow>
      (r = 0 \<and> page_counts s' (covering b (add_mset (base, len) held)) \<and>
         (\<forall>k. (\<exists>x \<in># add_mset (base, len) held. in_pages b x k) \<longrightarrow> flags (fk_world s') k) \<or>
       r = - 1 \<and> page_counts s' (covering b held) \<and> (\<forall>k. (\<exists>x \<in># held. in_pages b x k) \<longrightarrow> flags (fk_world s') k) \<and>
         (refuses_cleanly ops flags \<longrightarrow> flags (fk_world s') = flags (fk_world s)))) \<and>
    (\<forall>x \<in># held. \<forall>r s'. ibv_dofork_range ops (fst x) (snd x) s = ret (r, s') \<and> \<not> trouble (fk_world s') \<longrightarrow>
      r = 0 \<and> page_counts s' (covering b (held - {#x#})) \<and>
        (\<forall>k. (\<exists>y \<in># held - {#x#}. in_pages b y k) \<longrightarrow> flags (fk_world s') k)) \<and>
    ((\<forall>w. \<not> trouble w) \<longrightarrow> (\<exists>r s'. ibv_dontfork_range ops base len s = ret (r, s')) \<and>
      (\<forall>x \<in># held. \<exists>r s'. ibv_dofork_range ops (fst x) (snd x) s = ret (r, s')))"
  using dontfork_outcome [OF assms] dofork_outcome [OF assms(1-3)] calls_return [OF assms] by blast

theorem fork_range_atomic_witness:
  "\<exists>s s'. fork_run refusing_ops 12 fork_ready s {#(0x1000, 0x1000)#} \<and>
    ibv_dontfork_range refusing_ops 0x5000 0x800 s = ret (0, s') \<and>
    page_counts s' (covering 12 {#(0x5000, 0x800), (0x1000, 0x1000)#}) \<and> log_flags (fk_world s') 0x5fff"
proof -
  obtain s s' where s: "fork_run refusing_ops 12 fork_ready s {#(0x1000, 0x1000)#}"
    "ibv_dontfork_range refusing_ops 0x5000 0x800 s = ret (0, s')" "\<not> log_trouble (fk_world s')" using refused_state by blast
  have ok: "range_ok 12 (0x5000, 0x800)" "in_pages 12 (0x5000, 0x800) 0x5fff" by (simp_all add: range_ok_def in_pages_def page_of_def)
  have "page_counts s' (covering 12 {#(0x5000, 0x800), (0x1000, 0x1000)#})" "log_flags (fk_world s') 0x5fff"
    using fork_range_atomic [OF refusing_system(1,3) s(1) ok(1)] s(2,3) ok(2) by auto
  then show ?thesis using s by blast
qed

text \<open>
  With an \<^verbatim>\<open>madvise(MADV_DOFORK)\<close> that fails once, in the middle of a range, the roll back
  is skipped, because \<^verbatim>\<open>undo_node\<close> has merged the node with the one that was already counted
  down. When the process tries again, a page of a range it still holds is given to child processes.
\<close>

definition retry_ops :: "advice_log fork_ops" where
  "retry_ops = log_ops (\<lambda>_ n. n = 3)"

lemma retry_init: "ibv_fork_init retry_ops no_fork = (0, fork_ready)"
  unfolding retry_ops_def by (rule log_fork_init) simp_all

lemma retry_run:
  "bindC (ibv_dontfork_range retry_ops 0x1000 0x2000 fork_ready) (\<lambda>(r1, s1).
   bindC (ibv_dontfork_range retry_ops 0x1000 0x1000 s1) (\<lambda>(r2, s2).
   bindC (ibv_dofork_range retry_ops 0x1000 0x2000 s2) (\<lambda>(r3, s3).
   bindC (ibv_dofork_range retry_ops 0x1000 0x2000 s3) (\<lambda>(r4, s4).
   ret (r1, r2, r3, r4, log_flags (fk_world s4) 0x1000))))) = ret (0, 0, - 1, 0, False)"
  by (simp add: fork_eval retry_ops_def log_ops_def fork_ready_def root_node_def cong: bindC_first)

lemma retried_dofork_exposes:
  "ibv_fork_init retry_ops no_fork = (0, fork_ready) \<and>
   (\<exists>s. fork_run retry_ops 12 fork_ready s {#(0x1000, 0x1000)#} \<and> in_pages 12 (0x1000, 0x1000) 0x1000 \<and>
      \<not> log_flags (fk_world s) 0x1000)"
proof -
  let ?A = "(0x1000, 0x2000) :: u64 \<times> u64" and ?B = "(0x1000, 0x1000) :: u64 \<times> u64"
  from retry_run obtain s1 s2 s3 s4 where s1: "ibv_dontfork_range retry_ops (fst ?A) (snd ?A) fork_ready = ret (0, s1)"
    and s2: "ibv_dontfork_range retry_ops (fst ?B) (snd ?B) s1 = ret (0, s2)"
    and s3: "ibv_dofork_range retry_ops (fst ?A) (snd ?A) s2 = ret (- 1, s3)"
    and s4: "ibv_dofork_range retry_ops (fst ?A) (snd ?A) s3 = ret (0, s4)" and free: "\<not> log_flags (fk_world s4) 0x1000"
    by (auto simp: bindC_eq_ret)
  have "range_ok 12 ?A" "range_ok 12 ?B" by (simp_all add: range_ok_def in_pages_def page_of_def)
  then have "fork_run retry_ops 12 fork_ready s1 {#?A#}" and ok: "range_ok 12 ?B"
    using keep_ok [OF fork_run.init _ s1] by simp_all
  then have "fork_run retry_ops 12 fork_ready s2 {#?B, ?A#}" using keep_ok [OF _ ok s2] by simp
  then have "fork_run retry_ops 12 fork_ready s3 {#?B, ?A#}" by (rule give_fails [OF _ _ s3]) simp_all
  then have "fork_run retry_ops 12 fork_ready s4 ({#?B, ?A#} - {#?A#})" by (rule give_ok [OF _ _ s4]) simp
  moreover have "{#?B, ?A#} - {#?A#} = {#?B#}" by simp
  moreover have "in_pages 12 ?B 0x1000" by (simp add: in_pages_def page_of_def)
  moreover have "ibv_fork_init retry_ops no_fork = (0, fork_ready)" by (rule retry_init)
  ultimately show ?thesis using free by (metis (no_types))
qed

text \<open>
  Giving back a range that is not held, as the mlx5 driver asks for after a region of physical
  addresses (\<open>mlx5_tells_unmarked\<close>), is accepted and counts its pages below zero: when
  they are registered next, the kernel is not told to keep them.
\<close>

lemma unheld_dofork_run:
  "bindC (ibv_dofork_range (log_ops (\<lambda>_ _. False)) 0x1000 0x1000 fork_ready) (\<lambda>(r1, s1).
   bindC (ibv_dontfork_range (log_ops (\<lambda>_ _. False)) 0x1000 0x1000 s1) (\<lambda>(r2, s2).
   ret (r1, r2, log_flags (fk_world s2) 0x1000))) = ret (0, 0, False)"
  by (simp add: fork_eval log_ops_def fork_ready_def root_node_def cong: bindC_first)

end
