(* ===== verification/Spec2Isabelle.thy ===== *)
theory Spec2Isabelle
  imports Mprud_Account Mprud_Buffers Mprud_Post_Facts Mprud_Setup_Facts Mlx5_Dbrec Mlx5_Bitmap
    Mlx5_Qp_Size Mlx5_Poll_Run Ibv_Cq Ibv_Mr Mlx5_Mr Ibv_Ah Ibv_Mm_Run Ibv_Fork_Process
begin

text \<open>
  MPRUD: a reliable transport over several unreliable datagram queue pairs, inside the verbs
  library of InfiniBand.

  \<^bold>\<open>The program.\<close> An application opens one queue pair with \<^verbatim>\<open>libibverbs\<close> and posts work
  requests on it. The library, built with \<^verbatim>\<open>USE_MPRUD\<close>, hands these calls to the multi-path
  layer (\<^verbatim>\<open>libibverbs-41mlnx1/src/mprud.c\<close>), which splits each message into packets of one
  MTU, spreads them in chunks over four datagram queue pairs (the paths), polls these, puts the
  completions of the packets together to completions of the application's requests, watches every
  path for progress and, when one fails, agrees with the other side over a report queue pair what
  to send again over the remaining ones. Below it the mlx5 driver
  (\<^verbatim>\<open>libmlx5-41mlnx1/src\<close>) manages the resources of the device.

  \<^bold>\<open>The theories.\<close>

  \<^item> \<open>Prelude\<close>: C values and faults, the outcome monad (\<open>None\<close> for a call that does not
    return, \<open>Inl\<close> for an undefined operation, \<open>Inr\<close> for a result), counted loops with early
    return, \<^verbatim>\<open>while\<close> loops as \<open>partial_function (option)\<close> with rules for invariants,
    divergence and termination, partial correctness, and words in memory.
  \<^item> \<open>Fifo\<close>: a locale for bounded queues, interpreted on the table of requests and on the
    receive ring. \<open>Ring\<close>: rings with free-running 32-bit indices. \<open>Byte_Order\<close>: words in network
    byte order.
  \<^item> \<open>Mprud_Types\<close>: the structures of \<^verbatim>\<open>mprud.h\<close>, the constants of \<^verbatim>\<open>mprud_opt.h\<close>, the
    global variables \<^verbatim>\<open>mpctx\<close> and \<^verbatim>\<open>mp_manager\<close> as one state with the memory of the process and
    the world, and the device's operations as a record of functions.
  \<^item> \<open>Mprud_Init\<close>: \<^verbatim>\<open>mprud_init_ctx\<close> and the setters.
  \<^item> \<open>Mprud_Split\<close>: the arithmetic shared by the four posting functions: the parameters of a
    split and the scatter element of each packet. The packets of a send tile the message, both sides
    agree packet by packet, and what is lost when the size does not divide.
  \<^item> \<open>Mprud_Table\<close>: the ring of outstanding requests (\<^verbatim>\<open>mprud_store_wr\<close>,
    \<^verbatim>\<open>mprud_get_outer_poll\<close>): a refinement of a bounded queue over any legal run of posts and
    completions.
  \<^item> \<open>Mprud_Poll\<close>: polling of the paths (\<^verbatim>\<open>mprud_inner_poll\<close>), of the resent packets and of the
    report channel.
  \<^item> \<open>Mprud_Account\<close>: the composition of posting, polling the paths and completing requests as a
    step relation, with the invariant that counts, table positions and requests agree; from it, what
    a poll reports. The steps are those the layer is made for: no poll while the table is empty
    and its next entry was never used, a packet for every path, a table that is not full, one direction. What
    happens outside is proved too (\<open>spurious_completion\<close>, \<open>tiny_send_completes_unsent\<close>,
    \<open>store_wr_full_table\<close>, \<open>receiver_send_blocks\<close>).
  \<^item> \<open>Mprud_Buffers\<close>: where the payload of a packet lands and what overlaps what.
  \<^item> \<open>Mprud_Recovery\<close> and \<open>Mprud_Recovery_Facts\<close>: the monitor, both recovery state machines
    and the control messages; coverage of the lost part, detection of failed paths, the round trip
    of a report, and the loops that do not end.
  \<^item> \<open>Mprud_Post\<close> and \<open>Mprud_Post_Facts\<close>: \<^verbatim>\<open>mprud_post_send\<close>,
    \<^verbatim>\<open>mprud_post_recv\<close>, \<^verbatim>\<open>mprud_poll_cq\<close>: the packets handed to the device, the bounds on
    outstanding packets, the completions nobody posted and the sends that never return.
  \<^item> \<open>Mprud_Setup\<close> and \<open>Mprud_Setup_Facts\<close>: the hooks in \<^verbatim>\<open>verbs.c\<close> and the functions
    they call: protection domains, registration of memory (with the layer's buffers behind the
    application's), creation, connection and destruction of queue pairs, address handles.
  \<^item> \<open>Ibv_Cq\<close>: completion channels and queues of \<^verbatim>\<open>verbs.c\<close> as stores from pointers, a step
    relation of what a client may do, and the invariant of the reference counts.
  \<^item> \<open>Ibv_Mr\<close>: re-registration and release of memory regions, and the ranges kept from child
    processes on account of a region, from its registration on. \<open>Mlx5_Mr\<close>: what the mlx5 driver
    answers when a region is given back, and when that is not what the library marked.
  \<^item> \<open>Ibv_Mm\<close>: the red-black tree of address ranges of \<^verbatim>\<open>memory.c\<close>, node by node over
    a store from pointers. \<open>Ibv_Mm_Facts\<close> relates it to functional trees (with a zipper for the way
    up), \<open>Ibv_Mm_Add\<close> and \<open>Ibv_Mm_Remove\<close> follow the two rebalancing loops, \<open>Ibv_Mm_View\<close>
    gives the list of ranges a client sees, \<open>Ibv_Mm_Run\<close> the tree after any run of operations.
  \<^item> \<open>Ibv_Fork\<close>: the counts of pages on top of it (\<^verbatim>\<open>ibv_dontfork_range\<close>,
    \<^verbatim>\<open>ibv_dofork_range\<close>, \<^verbatim>\<open>ibv_fork_init\<close>). \<open>Ibv_Fork_Facts\<close> follows a pass over a
    range, its failure and its roll back, on a system on which only the keeping of pages fails, and
    that cleanly; \<open>Ibv_Fork_Run\<close> the registrations of a process there. \<open>Ibv_Fork_Calm\<close> and
    \<open>Ibv_Fork_Follow\<close> compare the calls on any system with those on such a calm one;
    \<open>Ibv_Fork_Process\<close> says what the children of a process inherit as long as no memory was
    missing and nothing refused to be given back, and what goes wrong after.
  \<^item> \<open>Ibv_Rates\<close>: the rates of a link and their conversions.
  \<^item> \<open>Mlx5_Ah\<close> and \<open>Ibv_Ah\<close>: address vectors as the driver encodes and the device decodes them,
    the creation of a handle through the kernel or the neighbour table, and the handles of the paths.
  \<^item> \<open>Mlx5_Rq\<close>: the receive queue of a queue pair in the driver (\<^verbatim>\<open>mlx5_post_recv\<close>): the
    descriptors as the device reads them, and that receives complete in the order of their posts.
  \<^item> \<open>Mlx5_Wqe\<close>: the bytes of a send descriptor, written into a ring and decoded as the device
    does. \<open>Mlx5_Sq\<close>: the send queue of a datagram queue pair (\<^verbatim>\<open>mlx5_post_send\<close>, the
    doorbell, send completions). \<open>Mlx5_Sq_Facts\<close>: a posted request is read back by the device as
    it was meant, and sends complete in the order of their posts.
  \<^item> \<open>Mlx5_Qp_Size\<close>: the sizes of the queues of a queue pair (\<^verbatim>\<open>mlx5_calc_wq_size\<close>); the
    queues created from them are those the two theories of send and receive queues start from.
  \<^item> \<open>Mlx5_Srq\<close>: shared receive queues (\<^verbatim>\<open>srq.c\<close>): descriptors linked through their
    indices, the receives in the order the device reads them, completions in any order, reposts, and
    messages that come with their completion.
  \<^item> \<open>Mlx5_Cqe\<close> and \<open>Mlx5_Cq\<close>: entries of completion queues and their rings
    (\<^verbatim>\<open>cq.c\<close>): ownership by the parity of the turn, removal of a queue pair's entries, changes
    of size. \<open>Mlx5_Cq_Facts\<close>: the ring as the list of its entries, over any run of driver and device.
  \<^item> \<open>Mlx5_Poll\<close>: polling (\<^verbatim>\<open>mlx5_poll_cq\<close>), from an entry over the tables to the
    resource it is for and on to the completion and the queue it changes. \<open>Mlx5_Poll_Facts\<close>: what a
    poll makes of entries for the requests queue pairs have outstanding. \<open>Mlx5_Poll_Run\<close>: posts,
    entries of the device and polls in any order; the polls report what the device has done.
  \<^item> \<open>Mlx5_Tables\<close>: the two-level tables from numbers to resources
    (\<^verbatim>\<open>mlx5_store_rsc\<close>, \<^verbatim>\<open>mlx5_store_srq\<close>, \<^verbatim>\<open>mlx5_store_uidx\<close>) as maps.
  \<^item> \<open>Slots\<close>: a locale for allocators of slots; the slots a client holds are distinct and those
    the allocator takes for used. Interpreted in \<open>Mlx5_Dbrec\<close> (doorbell records,
    \<^verbatim>\<open>dbrec.c\<close>), in \<open>Mlx5_Tables\<close> (user indices) and in \<open>Mlx5_Bitmap\<close> (chunks of a huge page, \<^verbatim>\<open>bitmap.h\<close> and
    \<^verbatim>\<open>buf.c\<close>).

  \<^bold>\<open>Correspondence.\<close> Definitions have the names of the C functions and structures, \<open>__ibv_x\<close>
  being \<open>ibv_x\<close>; a part of a function that is a definition of its own is explained where it stands.
  Unsigned integers are words of their width and wrap; a C \<^verbatim>\<open>int\<close> is an integer, and the
  overflow of signed arithmetic is not modelled (the offsets of packets in \<open>send_sge\<close> and
  \<open>recv_sge\<close>, the size of a buffer in \<open>mlx5_resize_cq\<close>; the indices of \<open>sweep_step\<close> and
  \<open>resize_step\<close>, C integers in the code, wrap). An array access outside the bounds, a null or
  dangling pointer, a division by zero and a shift by the width or more are faults. The
  configuration is the one \<^verbatim>\<open>mprud_opt.h\<close> selects (recovery mode, one failure, splitting of
  small messages).

  \<^bold>\<open>Loops.\<close> There is no fuel: a loop that may not end is a partial function whose value
  \<open>None\<close> is not returning. That a call returns is proved where it does (\<open>send_packets\<close>,
  \<open>recovery_complete\<close>, the allocators), and that it does not where it does not (the drain, the
  recovery of a request without packets, the send of a receiver).

  \<^bold>\<open>What is assumed.\<close> The device's and driver's operations, the clock, the kernel's commands and
  the neighbour table are parameters. Hypotheses on them state what their documentation says: a
  device that accepts a packet returns 0, a buffer from the system is page aligned and not in use,
  memory that is given out is fresh. That a call does not fail is never assumed of the system as a
  whole: the properties on \<^verbatim>\<open>memory.c\<close> and on regions are of runs in which, so far, no call
  of the kinds they name has failed (\<open>trouble\<close>).

  \<^bold>\<open>Not modelled.\<close> Printing, mutexes and condition variables (every model is of one thread),
  \<^verbatim>\<open>errno\<close>, the code of \<^verbatim>\<open>mprud.c\<close> under switches that are off, the earlier copy
  \<^verbatim>\<open>mprud_save.c\<close>, the command files and the device discovery of the library,
  the choice of buffers of the mlx5 driver, its send queues of other than datagram queue pairs, its
  compressed completions and matching of tags, the mlx4 driver and the performance tests.
\<close>

end
